(* ===== verification/Blindi_Prelude.thy ===== *)
theory Blindi_Prelude
  imports Main "HOL-Library.Word" "HOL-Library.Monad_Syntax"
begin

text \<open>
  Shared vocabulary of the development.

  The C++ sources work on fixed-size arrays through raw indices, with no bounds checks. An array is
  modelled as a list that has the length of the array (stale slots included), and an access outside
  it is the result \<open>None\<close>: the model makes undefined behaviour a value, so a theorem of the form
  \<open>f x = Some y\<close> says both that every array access of the run is in bounds and what the result is.
\<close>

unbundle bit_operations_syntax

section \<open>Types\<close>

type_synonym byte = "8 word"

text \<open>Addresses of key records kept outside the index (the ``DB'' of the comments); 0 is the null pointer.\<close>

type_synonym ptr = nat

section \<open>Theorem collections\<close>

named_theorems arr_simps \<open>reads and writes of arrays\<close>
named_theorems run_simps \<open>evaluation of the loops of the code\<close>

section \<open>Arrays with bounds\<close>

definition get :: "'a list \<Rightarrow> nat \<Rightarrow> 'a option" where
  "get xs i = (if i < length xs then Some (xs ! i) else None)"

definition put :: "'a list \<Rightarrow> nat \<Rightarrow> 'a \<Rightarrow> 'a list option" where
  "put xs i v = (if i < length xs then Some (xs[i := v]) else None)"

lemma get_in [simp]: "i < length xs \<Longrightarrow> get xs i = Some (xs ! i)"
  by (simp add: get_def)

lemma get_out [simp]: "length xs \<le> i \<Longrightarrow> get xs i = None"
  by (simp add: get_def)

lemma put_in [simp]: "i < length xs \<Longrightarrow> put xs i v = Some (xs[i := v])"
  by (simp add: put_def)

lemma put_out [simp]: "length xs \<le> i \<Longrightarrow> put xs i v = None"
  by (simp add: put_def)

lemma get_eq_Some [arr_simps]: "get xs i = Some v \<longleftrightarrow> i < length xs \<and> xs ! i = v"
  by (simp add: get_def)

lemma put_eq_Some [arr_simps]: "put xs i v = Some ys \<longleftrightarrow> i < length xs \<and> ys = xs[i := v]"
  by (auto simp: put_def)

text \<open>The read-back laws of an array.\<close>

lemma get_put_same: "put xs i v = Some ys \<Longrightarrow> get ys i = Some v"
  by (auto simp: arr_simps)

lemma get_put_other: "put xs i v = Some ys \<Longrightarrow> j \<noteq> i \<Longrightarrow> get ys j = get xs j"
  by (auto simp: get_def arr_simps)

section \<open>Counted loops\<close>

text \<open>
  \<open>loop_up f i n s\<close> runs \<open>f\<close> for the indices \<open>i, i + 1, \<dots>\<close>, \<open>n\<close> rounds; \<open>loop_down f i n s\<close> runs it for
  \<open>i + n - 1, \<dots>, i\<close>. Both stop at the first undefined step.
\<close>

fun loop_up :: "(nat \<Rightarrow> 's \<Rightarrow> 's option) \<Rightarrow> nat \<Rightarrow> nat \<Rightarrow> 's \<Rightarrow> 's option" where
  "loop_up f i 0 s = Some s"
| "loop_up f i (Suc n) s = do { s' \<leftarrow> f i s; loop_up f (Suc i) n s' }"

fun loop_down :: "(nat \<Rightarrow> 's \<Rightarrow> 's option) \<Rightarrow> nat \<Rightarrow> nat \<Rightarrow> 's \<Rightarrow> 's option" where
  "loop_down f i 0 s = Some s"
| "loop_down f i (Suc n) s = do { s' \<leftarrow> f (i + n) s; loop_down f i n s' }"

lemma loop_up_invariant:
  assumes "P i s" "\<And>j s. i \<le> j \<Longrightarrow> j < i + n \<Longrightarrow> P j s \<Longrightarrow> \<exists>s'. f j s = Some s' \<and> P (Suc j) s'"
  shows "\<exists>s'. loop_up f i n s = Some s' \<and> P (i + n) s'"
  using assms
proof (induction n arbitrary: i s)
  case (Suc n)
  from Suc.prems(2) [of i s] Suc.prems(1) obtain s' where s': "f i s = Some s'" "P (Suc i) s'" by auto
  from Suc.IH [of "Suc i" s'] s' Suc.prems(2) show ?case by auto
qed simp

lemma loop_down_invariant:
  assumes "P n s" "\<And>j s. j < n \<Longrightarrow> P (Suc j) s \<Longrightarrow> \<exists>s'. f (i + j) s = Some s' \<and> P j s'"
  shows "\<exists>s'. loop_down f i n s = Some s' \<and> P 0 s'"
  using assms
proof (induction n arbitrary: s)
  case (Suc n)
  from Suc.prems(2) [of n s] Suc.prems(1) obtain s' where s': "f (i + n) s = Some s'" "P n s'" by auto
  from Suc.IH [of s'] s' Suc.prems(2) show ?case by auto
qed simp

section \<open>Minimum of a slice\<close>

text \<open>\<open>rmin f i j\<close> is the least of \<open>f i, \<dots>, f (j - 1)\<close>, for \<open>i < j\<close>.\<close>

definition rmin :: "(nat \<Rightarrow> nat) \<Rightarrow> nat \<Rightarrow> nat \<Rightarrow> nat" where
  "rmin f i j = Min (f ` {i..<j})"

lemma rmin_Suc [simp]: "rmin f i (Suc i) = f i"
  by (simp add: rmin_def)

lemma rmin_split:
  assumes "i < k" "k < j"
  shows "rmin f i j = min (rmin f i k) (rmin f k j)"
proof -
  have eq: "{i..<j} = {i..<k} \<union> {k..<j}" using assms by auto
  have "f ` {i..<j} = f ` {i..<k} \<union> f ` {k..<j}" unfolding eq by (rule image_Un)
  then show ?thesis using assms by (simp add: rmin_def Min_Un)
qed

lemma rmin_last: "i < j \<Longrightarrow> rmin f i (Suc j) = min (rmin f i j) (f j)"
  using rmin_split [of i j "Suc j" f] by simp

lemma rmin_first: "Suc i < j \<Longrightarrow> rmin f i j = min (f i) (rmin f (Suc i) j)"
  using rmin_split [of i "Suc i" j f] by simp

lemma rmin_le: "i \<le> k \<Longrightarrow> k < j \<Longrightarrow> rmin f i j \<le> f k"
  by (auto simp: rmin_def)

lemma rmin_ge: "i < j \<Longrightarrow> (\<And>k. i \<le> k \<Longrightarrow> k < j \<Longrightarrow> d \<le> f k) \<Longrightarrow> d \<le> rmin f i j"
  by (auto simp: rmin_def)

lemma rmin_gr: "i < j \<Longrightarrow> (\<And>k. i \<le> k \<Longrightarrow> k < j \<Longrightarrow> d < f k) \<Longrightarrow> d < rmin f i j"
  by (auto simp: rmin_def)

lemma rmin_in: "i < j \<Longrightarrow> \<exists>k. i \<le> k \<and> k < j \<and> rmin f i j = f k"
proof -
  assume "i < j"
  then have "rmin f i j \<in> f ` {i..<j}" unfolding rmin_def by (intro Min_in) auto
  then show ?thesis by auto
qed

lemma rmin_cong: "(\<And>k. i \<le> k \<Longrightarrow> k < j \<Longrightarrow> f k = g k) \<Longrightarrow> rmin f i j = rmin g i j"
  by (auto simp: rmin_def intro!: arg_cong [where f = Min])

lemma rmin_shift: "rmin (\<lambda>k. f (k + d)) i j = rmin f (i + d) (j + d)"
proof -
  have "(\<lambda>k. f (k + d)) ` {i..<j} = f ` {i + d..<j + d}"
    by (simp only: image_add_atLeastLessThan' [symmetric] image_image)
  then show ?thesis by (simp add: rmin_def)
qed

end
