(* ===== verification/Bit_Manipulation.thy ===== *)
theory Bit_Manipulation
  imports Blindi_Prelude
begin

text \<open>
  \<^verbatim>\<open>bit_manipulation.hpp\<close>: reading single bits of a key and locating the highest set bit of a byte,
  and the comparison routine \<^verbatim>\<open>CompareStage\<close> of \<^verbatim>\<open>blindi_seqtree.hpp\<close> that is built from them.

  A key is the list of its bytes in memory order. In the default build (no \<^verbatim>\<open>IS_STRING\<close>) keys are
  little-endian integers, so bit position 0 is the most significant bit of the last byte.
\<close>

section \<open>The code\<close>

definition isNthBitSetInByte :: "byte \<Rightarrow> nat \<Rightarrow> bool option" where
  "isNthBitSetInByte b n =
     do { m \<leftarrow> get [128, 64, 32, 16, 8, 4, 2, 1 :: byte] n; Some ((b AND m) \<noteq> 0) }"

definition isNthBitSetInString :: "byte list \<Rightarrow> nat \<Rightarrow> nat \<Rightarrow> bool option" where
  "isNthBitSetInString ptr2key position len =
     (let string_byte = position div 8; bit_position = position mod 8
      in if string_byte < len then
           do { b \<leftarrow> get ptr2key (len - 1 - string_byte); isNthBitSetInByte b bit_position }
         else None)"

definition firstMsbLookUpTable :: "byte \<Rightarrow> nat option" where
  "firstMsbLookUpTable mask_byte =
     (let m = unat mask_byte in
      if m = 0 then None
      else if m = 1 then Some 7
      else if m \<le> 3 then Some 6
      else if m \<le> 7 then Some 5
      else if m \<le> 15 then Some 4
      else if m \<le> 31 then Some 3
      else if m \<le> 63 then Some 2
      else if m \<le> 127 then Some 1
      else Some 0)"

text \<open>
  \<open>CompareStage key1 key2\<close> returns the position, the flag \<^verbatim>\<open>eq\<close> and the flag \<^verbatim>\<open>big_small\<close>. The last is
  an in-out reference that the code leaves alone when the keys are equal, so its old value is an
  argument. The recursion is the loop \<^verbatim>\<open>for (i = 1; i <= key_len; i++)\<close> from \<open>i\<close> with \<open>n\<close> rounds left.
\<close>

fun CompareStage_loop ::
  "byte list \<Rightarrow> byte list \<Rightarrow> nat \<Rightarrow> nat \<Rightarrow> bool \<Rightarrow> nat \<Rightarrow> nat \<Rightarrow> (nat \<times> bool \<times> bool) option" where
  "CompareStage_loop key1 key2 len1 len2 bs i 0 = Some (0, True, bs)"
| "CompareStage_loop key1 key2 len1 len2 bs i (Suc n) =
     (if i \<le> len1 \<and> i \<le> len2 then
        do {
          b1 \<leftarrow> get key1 (len1 - i);
          b2 \<leftarrow> get key2 (len2 - i);
          let mask_byte = b1 XOR b2;
          (if mask_byte \<noteq> 0 then
             do { m \<leftarrow> firstMsbLookUpTable mask_byte; Some (8 * (i - 1) + m, False, b2 < b1) }
           else CompareStage_loop key1 key2 len1 len2 bs (Suc i) n)
        }
      else None)"

definition CompareStage ::
  "byte list \<Rightarrow> byte list \<Rightarrow> bool \<Rightarrow> nat \<Rightarrow> nat \<Rightarrow> (nat \<times> bool \<times> bool) option" where
  "CompareStage key1 key2 big_small key_len_key1 key_len_key2 =
     CompareStage_loop key1 key2 key_len_key1 key_len_key2 big_small 1 key_len_key1"

section \<open>What the bits of a key are\<close>

text \<open>Bit \<open>p\<close> of a key, most significant bit first, and the integer a little-endian key denotes.\<close>

definition key_bit :: "byte list \<Rightarrow> nat \<Rightarrow> bool" where
  "key_bit k p = (p div 8 < length k \<and> bit (rev k ! (p div 8)) (7 - p mod 8))"

fun key_val :: "byte list \<Rightarrow> nat" where
  "key_val [] = 0"
| "key_val (b # bs) = unat b + 256 * key_val bs"

definition diff_at :: "byte list \<Rightarrow> byte list \<Rightarrow> nat \<Rightarrow> bool" where
  "diff_at a b d \<longleftrightarrow> (\<forall>i < d. key_bit a i = key_bit b i) \<and> key_bit a d \<noteq> key_bit b d"

section \<open>Bits of a byte\<close>

lemma mask_table: "n < 8 \<Longrightarrow> get [128, 64, 32, 16, 8, 4, 2, 1 :: byte] n = Some (push_bit (7 - n) 1)"
proof -
  assume "n < 8"
  then consider "n = 0" | "n = 1" | "n = 2" | "n = 3" | "n = 4" | "n = 5" | "n = 6" | "n = 7" by linarith
  then show ?thesis by cases (simp_all add: push_bit_eq_mult)
qed

lemma isNthBitSetInByte_bit: "n < 8 \<Longrightarrow> isNthBitSetInByte b n = Some (bit b (7 - n))"
  by (simp only: isNthBitSetInByte_def mask_table bind.simps bit_iff_and_push_bit_not_eq_0)

lemma byte_bit_above: "8 \<le> k \<Longrightarrow> \<not> bit (a :: byte) k"
  by (auto dest: bit_imp_le_length)

lemma unat_div_bit: "bit (unat a div 2 ^ k) n = bit (a :: byte) (n + k)"
proof -
  have "bit (unat a div 2 ^ k) n = bit (unat a) (n + k)"
    by (simp add: bit_iff_odd [where 'a = nat] div_exp_eq add.commute)
  also have "\<dots> = bit a (n + k)"
    by (simp add: bit_unsigned_iff)
  finally show ?thesis .
qed

lemma msb_range:
  assumes "2 ^ h \<le> unat m" "unat m < 2 ^ Suc h" "h < 8"
  shows "bit (m :: byte) (7 - (7 - h)) \<and> (\<forall>i < 7 - h. \<not> bit m (7 - i))"
proof -
  have *: "bit m k = odd (unat m div 2 ^ k)" for k
    using unat_div_bit [of m k 0] by (simp add: bit_0)
  have "unat m div 2 ^ h = 1"
    using assms by (intro div_nat_eqI) auto
  moreover have "unat m div 2 ^ (7 - i) = 0" if "i < 7 - h" for i
  proof -
    have "(2::nat) ^ Suc h \<le> 2 ^ (7 - i)" using that by (intro power_increasing) auto
    then show ?thesis using assms by simp
  qed
  ultimately show ?thesis using assms by (simp add: *)
qed

lemma firstMsb_spec:
  "m \<noteq> 0 \<Longrightarrow> \<exists>t < 8. firstMsbLookUpTable m = Some t \<and> bit m (7 - t) \<and> (\<forall>i < t. \<not> bit m (7 - i))"
proof -
  assume "m \<noteq> 0"
  then have pos: "unat m \<noteq> 0" by (simp add: unat_eq_0)
  have lt: "unat m < 256" using unsigned_less [of m, where ?'a = nat] by simp
  have step: ?thesis if "2 ^ h \<le> unat m" "unat m < 2 ^ Suc h" "h < 8" "firstMsbLookUpTable m = Some (7 - h)" for h
    using msb_range [OF that(1-3)] that(4) by (intro exI [of _ "7 - h"]) auto
  consider "unat m = 1" | "2 \<le> unat m" "unat m \<le> 3" | "4 \<le> unat m" "unat m \<le> 7"
    | "8 \<le> unat m" "unat m \<le> 15" | "16 \<le> unat m" "unat m \<le> 31" | "32 \<le> unat m" "unat m \<le> 63"
    | "64 \<le> unat m" "unat m \<le> 127" | "128 \<le> unat m" "unat m \<le> 255"
    using pos lt by linarith
  then show ?thesis
  proof cases
    case 1 then show ?thesis by (intro step [of 0]) (simp_all add: firstMsbLookUpTable_def)
  next
    case 2 then show ?thesis by (intro step [of 1]) (simp_all add: firstMsbLookUpTable_def)
  next
    case 3 then show ?thesis by (intro step [of 2]) (simp_all add: firstMsbLookUpTable_def)
  next
    case 4 then show ?thesis by (intro step [of 3]) (simp_all add: firstMsbLookUpTable_def)
  next
    case 5 then show ?thesis by (intro step [of 4]) (simp_all add: firstMsbLookUpTable_def)
  next
    case 6 then show ?thesis by (intro step [of 5]) (simp_all add: firstMsbLookUpTable_def)
  next
    case 7 then show ?thesis by (intro step [of 6]) (simp_all add: firstMsbLookUpTable_def)
  next
    case 8 then show ?thesis by (intro step [of 7]) (simp_all add: firstMsbLookUpTable_def)
  qed
qed

lemma byte_less_bits:
  fixes a b :: byte
  assumes t: "t < 8" and eq: "\<forall>i < t. bit a (7 - i) = bit b (7 - i)" and ne: "bit a (7 - t) \<noteq> bit b (7 - t)"
  shows "b < a \<longleftrightarrow> bit a (7 - t)"
proof -
  define h where "h = 7 - t"
  have up: "unat a div 2 ^ Suc h = unat b div 2 ^ Suc h"
  proof (rule bit_eqI)
    fix n
    show "bit (unat a div 2 ^ Suc h) n = bit (unat b div 2 ^ Suc h) n"
    proof (cases "n + Suc h < 8")
      case True
      then have "7 - (n + Suc h) < t" "7 - (7 - (n + Suc h)) = n + Suc h" using t by (auto simp: h_def)
      with eq have "bit a (n + Suc h) = bit b (n + Suc h)" by fastforce
      then show ?thesis by (simp only: unat_div_bit)
    next
      case False
      then have "\<not> bit a (n + Suc h)" "\<not> bit b (n + Suc h)" by (auto intro: byte_bit_above [THEN notE] simp: byte_bit_above)
      then show ?thesis by (simp only: unat_div_bit)
    qed
  qed
  have split: "x div 2 ^ h = 2 * (x div 2 ^ Suc h) + of_bool (odd (x div 2 ^ h))" for x :: nat
  proof -
    have "x div 2 ^ Suc h = x div 2 ^ h div 2" by (simp add: div_mult2_eq [symmetric] mult.commute)
    then show ?thesis by (simp add: odd_two_times_div_two_succ)
  qed
  have odd: "odd (unat c div 2 ^ h) = bit c h" for c :: byte
    using unat_div_bit [of c h 0] by (simp add: bit_0)
  have lt: "x div 2 ^ h < y div 2 ^ h \<Longrightarrow> x < y" for x y :: nat
    by (meson div_le_mono leD leI)
  show ?thesis
  proof (cases "bit a h")
    case True
    then have "unat b div 2 ^ h < unat a div 2 ^ h"
      using ne up split [of "unat a"] split [of "unat b"] odd by (simp add: h_def)
    then show ?thesis using True lt unfolding h_def word_less_nat_alt by blast
  next
    case False
    then have "unat a div 2 ^ h < unat b div 2 ^ h"
      using ne up split [of "unat a"] split [of "unat b"] odd by (simp add: h_def)
    then have "unat a < unat b" by (rule lt)
    then show ?thesis using False unfolding h_def word_less_nat_alt by linarith
  qed
qed

section \<open>Reading a bit\<close>

lemma isNthBitSetInString_key_bit:
  assumes "length k = len" "p < 8 * len"
  shows "isNthBitSetInString k p len = Some (key_bit k p)"
proof -
  have "p div 8 < len" using assms(2) by auto
  then show ?thesis
    using assms(1) by (simp add: isNthBitSetInString_def isNthBitSetInByte_bit key_bit_def rev_nth)
qed

lemma isNthBitSetInString_oob: "len \<le> p div 8 \<Longrightarrow> isNthBitSetInString k p len = None"
  by (simp add: isNthBitSetInString_def Let_def)

section \<open>The comparison routine\<close>

lemma key_val_append: "key_val (xs @ ys) = key_val xs + 256 ^ length xs * key_val ys"
  by (induction xs) (simp_all add: algebra_simps)

lemma key_val_bound: "key_val xs < 256 ^ length xs"
proof (induction xs)
  case (Cons b bs)
  have "unat b < 256" using unsigned_less [of b, where ?'a = nat] by simp
  moreover have "key_val bs + 1 \<le> 256 ^ length bs" using Cons by simp
  then have "256 * (key_val bs + 1) \<le> 256 * 256 ^ length bs" by (rule mult_le_mono2)
  ultimately show ?case by simp
qed simp

lemma key_val_less_head:
  assumes "length xs = length ys" "(b :: byte) < a"
  shows "key_val (ys @ b # zs) < key_val (xs @ a # zs)"
proof -
  let ?M = "256 ^ length xs :: nat"
  have "key_val (ys @ b # zs) = key_val ys + ?M * (unat b + 256 * key_val zs)"
    using assms(1) by (simp add: key_val_append)
  also have "\<dots> < ?M * (unat b + 1) + ?M * (256 * key_val zs)"
    using key_val_bound [of ys] assms(1) by (simp add: algebra_simps)
  also have "\<dots> \<le> ?M * unat a + ?M * (256 * key_val zs)"
  proof -
    have "unat b + 1 \<le> unat a" using assms(2) by (simp add: word_less_nat_alt)
    then show ?thesis by (intro add_right_mono mult_le_mono2)
  qed
  also have "\<dots> \<le> key_val (xs @ a # zs)" by (simp add: key_val_append algebra_simps)
  finally show ?thesis .
qed

text \<open>The keys agree in their last \<open>j\<close> bytes and differ in the byte before.\<close>

definition agree_suffix :: "byte list \<Rightarrow> byte list \<Rightarrow> nat \<Rightarrow> bool" where
  "agree_suffix a b j \<longleftrightarrow> (\<forall>i < j. rev a ! i = rev b ! i)"

lemma agree_key_bit:
  assumes "agree_suffix a b j" "length a = length b" "p < 8 * j"
  shows "key_bit a p = key_bit b p"
proof -
  have "p div 8 < j" using assms(3) by auto
  then show ?thesis using assms(1,2) by (simp add: agree_suffix_def key_bit_def)
qed

lemma agree_split:
  assumes "agree_suffix a b j" "length a = L" "length b = L" "j < L"
  shows "\<exists>zs. a = take (L - Suc j) a @ rev a ! j # zs \<and> b = take (L - Suc j) b @ rev b ! j # zs"
proof -
  have d: "c = take (L - Suc j) c @ rev c ! j # drop (L - j) c" if "length c = L" for c :: "byte list"
    using that assms(4) id_take_nth_drop [of "L - Suc j" c] by (simp add: rev_nth Suc_diff_Suc)
  have "drop (L - j) a = drop (L - j) b"
  proof (rule nth_equalityI)
    show "length (drop (L - j) a) = length (drop (L - j) b)" using assms by simp
    fix i assume "i < length (drop (L - j) a)"
    then have i: "i < j" using assms by simp
    have "drop (L - j) c ! i = rev c ! (j - Suc i)" if "length c = L" for c :: "byte list"
      using that i assms(4) by (simp add: rev_nth)
    then show "drop (L - j) a ! i = drop (L - j) b ! i"
      using assms i by (simp add: agree_suffix_def)
  qed
  then show ?thesis using d [OF assms(2)] d [OF assms(3)] by metis
qed

lemma agree_all_eq:
  assumes "agree_suffix a b L" "length a = L" "length b = L"
  shows "a = b"
proof -
  have "rev a = rev b" using assms by (intro nth_equalityI) (auto simp: agree_suffix_def)
  then show ?thesis by simp
qed

lemma diff_byte:
  assumes ag: "agree_suffix a b j" and la: "length a = L" and lb: "length b = L" and j: "j < L"
    and ne: "rev a ! j \<noteq> rev b ! j"
  shows "\<exists>m. firstMsbLookUpTable (rev a ! j XOR rev b ! j) = Some m \<and> m < 8 \<and> diff_at a b (8 * j + m)
    \<and> key_bit a (8 * j + m) = (rev b ! j < rev a ! j) \<and> (rev b ! j < rev a ! j) = (key_val b < key_val a)"
proof -
  let ?a = "rev a ! j" and ?b = "rev b ! j"
  have "?a XOR ?b \<noteq> 0"
  proof
    assume z: "?a XOR ?b = 0"
    have "bit ?a n = bit ?b n" for n
    proof -
      have "\<not> bit (?a XOR ?b) n" unfolding z by simp 
      then show ?thesis unfolding bit_xor_iff by blast
    qed
    then have "?a = ?b" by (intro bit_eqI) blast
    with ne show False by simp
  qed
  from firstMsb_spec [OF this] obtain m where m: "m < 8" "firstMsbLookUpTable (?a XOR ?b) = Some m"
    "bit ?a (7 - m) \<noteq> bit ?b (7 - m)" "\<forall>i < m. bit ?a (7 - i) = bit ?b (7 - i)"
    by (auto simp: bit_xor_iff)
  have lt: "(?b < ?a) = bit ?a (7 - m)" using m by (intro byte_less_bits) auto
  have kb: "key_bit c (8 * j + i) = bit (rev c ! j) (7 - i)" if "length c = L" "i < 8" for c i
    using that j by (simp add: key_bit_def)
  have "key_bit a i = key_bit b i" if "i < 8 * j + m" for i
  proof (cases "i < 8 * j")
    case True then show ?thesis using agree_key_bit [OF ag] la lb by simp
  next
    case False
    define r where "r = i - 8 * j"
    have r: "i = 8 * j + r" "r < m" using that False by (auto simp: r_def)
    then show ?thesis using m kb la lb by simp
  qed
  then have d: "diff_at a b (8 * j + m)" using m kb la lb by (simp add: diff_at_def)
  have val: "(?b < ?a) = (key_val b < key_val a)"
  proof -
    from agree_split [OF ag la lb j] obtain zs where
      za: "a = take (L - Suc j) a @ ?a # zs" and zb: "b = take (L - Suc j) b @ ?b # zs" by blast
    let ?x = "take (L - Suc j) a" and ?y = "take (L - Suc j) b"
    have len: "length ?x = length ?y" using la lb by simp
    have va: "key_val a = key_val (?x @ ?a # zs)" using za by (rule arg_cong)
    have vb: "key_val b = key_val (?y @ ?b # zs)" using zb by (rule arg_cong)
    consider "?b < ?a" | "?a < ?b" using ne by (rule linorder_neqE) blast+
    then show ?thesis
    proof cases
      case 1
      then have "key_val b < key_val a" unfolding va vb by (rule key_val_less_head [OF len])
      with 1 show ?thesis by blast
    next
      case 2
      then have "key_val a < key_val b" unfolding va vb by (rule key_val_less_head [OF len [symmetric]])
      then have "\<not> key_val b < key_val a" by (rule less_not_sym)
      with 2 show ?thesis by (meson less_not_sym)
    qed
  qed
  show ?thesis using m d lt val kb [OF la] by auto
qed

lemma CompareStage_loop_spec:
  assumes "agree_suffix a b j" "length a = L" "length b = L" "j + n = L"
  shows "\<exists>d eq g. CompareStage_loop a b L L bs (Suc j) n = Some (d, eq, g) \<and>
    (if a = b then d = 0 \<and> eq \<and> g = bs
     else \<not> eq \<and> d < 8 * L \<and> diff_at a b d \<and> g = key_bit a d \<and> g = (key_val b < key_val a))"
  using assms
proof (induction n arbitrary: j)
  case 0
  then show ?case using agree_all_eq by auto
next
  case (Suc n)
  have ga: "get c (L - Suc j) = Some (rev c ! j)" if "length c = L" for c :: "byte list"
    using that Suc.prems by (simp add: rev_nth)
  show ?case
  proof (cases "rev a ! j = rev b ! j")
    case True
    then have "agree_suffix a b (Suc j)" using Suc.prems(1) by (auto simp: agree_suffix_def less_Suc_eq)
    from Suc.IH [OF this] Suc.prems True ga show ?thesis by (simp add: Let_def)
  next
    case False
    then have ab: "a \<noteq> b" by auto
    from diff_byte [OF Suc.prems(1-3) _ False] Suc.prems obtain m where
      m: "firstMsbLookUpTable (rev a ! j XOR rev b ! j) = Some m" "m < 8" "diff_at a b (8 * j + m)"
         "key_bit a (8 * j + m) = (rev b ! j < rev a ! j)" "(rev b ! j < rev a ! j) = (key_val b < key_val a)"
      by auto
    have "rev a ! j XOR rev b ! j \<noteq> 0" using m(1) by (auto simp: firstMsbLookUpTable_def)
    then have "CompareStage_loop a b L L bs (Suc j) (Suc n) = Some (8 * j + m, False, rev b ! j < rev a ! j)"
      using m ga Suc.prems by (simp add: Let_def)
    then show ?thesis using m ab Suc.prems by auto
  qed
qed

lemma CompareStage_spec:
  assumes "length a = L" "length b = L"
  shows "\<exists>d eq g. CompareStage a b bs L L = Some (d, eq, g) \<and>
    (if a = b then d = 0 \<and> eq \<and> g = bs
     else \<not> eq \<and> d < 8 * L \<and> diff_at a b d \<and> g = key_bit a d \<and> g = (key_val b < key_val a))"
  unfolding CompareStage_def One_nat_def
  by (rule CompareStage_loop_spec) (use assms in \<open>auto simp: agree_suffix_def\<close>)

end
