(* ===== verification/Patricia.thy ===== *)
theory Patricia
  imports Blindi_Prelude
begin

text \<open>
  The mathematics behind every blind node. A node stores, for sorted keys \<open>k\<^sub>0 < k\<^sub>1 < \<dots>\<close>, only the
  positions \<open>f i\<close> of the first bit in which \<open>k\<^sub>i\<close> and \<open>k\<^sub>i\<^sub>+\<^sub>1\<close> differ (the ``blindi keys''). A search
  descends by single bits of the searched key and compares one full key at the end. The lemmas here
  say why one comparison is enough; they are used for the linear node, the sequential tree and the
  trie alike.
\<close>

section \<open>Blind positions\<close>

text \<open>
  \<open>blind_pos xb f l n p\<close>: among the keys \<open>l, \<dots>, n - 1\<close>, position \<open>p\<close> is where the descent by the bits
  \<open>xb\<close> ends. Every key to the right was left at a bit that is 0 in the searched key, every key to the
  left at a bit that is 1.
\<close>

definition blind_pos :: "(nat \<Rightarrow> bool) \<Rightarrow> (nat \<Rightarrow> nat) \<Rightarrow> nat \<Rightarrow> nat \<Rightarrow> nat \<Rightarrow> bool" where
  "blind_pos xb f l n p \<longleftrightarrow> l \<le> p \<and> p < n
     \<and> (\<forall>j. p < j \<and> j < n \<longrightarrow> \<not> xb (rmin f p j)) \<and> (\<forall>j. l \<le> j \<and> j < p \<longrightarrow> xb (rmin f j p))"

lemma blind_posI:
  "l \<le> p \<Longrightarrow> p < n \<Longrightarrow> (\<And>j. p < j \<Longrightarrow> j < n \<Longrightarrow> \<not> xb (rmin f p j))
   \<Longrightarrow> (\<And>j. l \<le> j \<Longrightarrow> j < p \<Longrightarrow> xb (rmin f j p)) \<Longrightarrow> blind_pos xb f l n p"
  by (simp add: blind_pos_def)

lemma blind_pos_unique: "blind_pos xb f l n p \<Longrightarrow> blind_pos xb f l n q \<Longrightarrow> p = q"
  by (metis blind_pos_def linorder_neqE_nat)

lemma blind_pos_single [simp]: "blind_pos xb f l (Suc l) l"
  by (auto simp: blind_pos_def)

text \<open>One more key at the right end: either it is the new end of the descent, or the end stays.\<close>

lemma blind_pos_snoc_new:
  assumes "blind_pos xb f l n p" "xb (f (n - 1))" "p \<noteq> n - 1 \<Longrightarrow> f (n - 1) \<le> rmin f p (n - 1)"
  shows "blind_pos xb f l (Suc n) n"
proof (rule blind_posI)
  have p: "l \<le> p" "p < n" and left: "\<And>j. l \<le> j \<Longrightarrow> j < p \<Longrightarrow> xb (rmin f j p)"
    using assms(1) by (auto simp: blind_pos_def)
  define m where "m = n - 1"
  have n: "n = Suc m" using p by (simp add: m_def)
  have right: "rmin f j n = f m" if "p \<le> j" "j < n" for j
  proof (cases "j = m")
    case False
    then have jm: "j < m" using that n by simp
    have "f m \<le> rmin f p m" using assms(3) that jm by (simp add: m_def)
    also have "\<dots> \<le> rmin f j m" using that jm by (intro rmin_ge) (auto intro: rmin_le)
    finally show ?thesis using jm by (simp add: n rmin_last)
  qed (simp add: n)
  show "l \<le> n" using p by simp
  show "xb (rmin f j n)" if "l \<le> j" "j < n" for j
  proof (cases "p \<le> j")
    case True then show ?thesis using right that assms(2) by (simp add: m_def)
  next
    case False
    then have "rmin f j n = min (rmin f j p) (rmin f p n)" using p by (intro rmin_split) auto
    also have "rmin f p n = f m" using right p by simp
    finally show ?thesis using False left that assms(2) by (simp add: min_def m_def)
  qed
qed simp_all

lemma blind_pos_snoc_old:
  assumes "blind_pos xb f l n p" "\<not> xb (rmin f p n)"
  shows "blind_pos xb f l (Suc n) p"
  using assms by (auto simp: blind_pos_def less_Suc_eq)

text \<open>A strict minimum at \<open>r\<close> cuts the descent in two.\<close>

lemma blind_pos_cut_right:
  assumes "blind_pos xb f (Suc r) n p" "l \<le> r" "xb (f r)" "\<And>k. l \<le> k \<Longrightarrow> k < n - 1 \<Longrightarrow> f r \<le> f k"
  shows "blind_pos xb f l n p"
proof (rule blind_posI)
  have p: "Suc r \<le> p" "p < n" using assms(1) by (auto simp: blind_pos_def)
  show "l \<le> p" "p < n" using p assms(2) by auto
  show "\<not> xb (rmin f p j)" if "p < j" "j < n" for j using assms(1) that by (simp add: blind_pos_def)
  show "xb (rmin f j p)" if "l \<le> j" "j < p" for j
  proof (cases "j \<le> r")
    case True
    have "rmin f j p = f r"
    proof (rule antisym)
      show "rmin f j p \<le> f r" using True p by (intro rmin_le) auto
      show "f r \<le> rmin f j p" using that p by (intro rmin_ge) (auto intro!: assms(4))
    qed
    then show ?thesis using assms(3) by simp
  next
    case False then show ?thesis using assms(1) that by (simp add: blind_pos_def)
  qed
qed

lemma blind_pos_cut_left:
  assumes "blind_pos xb f l (Suc r) p" "r < n" "\<not> xb (f r)" "\<And>k. l \<le> k \<Longrightarrow> k < n - 1 \<Longrightarrow> f r \<le> f k"
  shows "blind_pos xb f l n p"
proof (rule blind_posI)
  have p: "l \<le> p" "p \<le> r" using assms(1) by (auto simp: blind_pos_def)
  show "l \<le> p" "p < n" using p assms(2) by auto
  show "xb (rmin f j p)" if "l \<le> j" "j < p" for j using assms(1) that by (simp add: blind_pos_def)
  show "\<not> xb (rmin f p j)" if "p < j" "j < n" for j
  proof (cases "j \<le> r")
    case False
    have "rmin f p j = f r"
    proof (rule antisym)
      show "rmin f p j \<le> f r" using False p by (intro rmin_le) auto
      show "f r \<le> rmin f p j" using that p by (intro rmin_ge) (auto intro!: assms(4))
    qed
    then show ?thesis using assms(3) by simp
  next
    case True then show ?thesis using assms(1) that by (simp add: blind_pos_def)
  qed
qed

section \<open>Keys as bit strings\<close>

text \<open>
  The contract between a node and the comparison routine: \<open>dif\<close> is the first position at which two
  keys differ, and the key with the 1 there is the larger one.
\<close>

locale bit_keys =
  fixes kb :: "'k \<Rightarrow> nat \<Rightarrow> bool"
    and lt :: "'k \<Rightarrow> 'k \<Rightarrow> bool"
    and valid :: "'k \<Rightarrow> bool"
    and dif :: "'k \<Rightarrow> 'k \<Rightarrow> nat"
  assumes dif_agree: "valid a \<Longrightarrow> valid b \<Longrightarrow> a \<noteq> b \<Longrightarrow> i < dif a b \<Longrightarrow> kb a i = kb b i"
    and dif_differ: "valid a \<Longrightarrow> valid b \<Longrightarrow> a \<noteq> b \<Longrightarrow> kb a (dif a b) \<noteq> kb b (dif a b)"
    and lt_dif: "valid a \<Longrightarrow> valid b \<Longrightarrow> a \<noteq> b \<Longrightarrow> lt a b = kb b (dif a b)"
    and lt_irrefl: "\<not> lt a a"
begin

lemma dif_unique:
  assumes "valid a" "valid b" "\<And>i. i < d \<Longrightarrow> kb a i = kb b i" "kb a d \<noteq> kb b d"
  shows "dif a b = d"
proof -
  have ab: "a \<noteq> b" using assms(4) by auto
  show ?thesis
    using dif_agree [OF assms(1,2) ab] dif_differ [OF assms(1,2) ab] assms(3,4) by (metis linorder_neqE_nat)
qed

lemma dif_sym: "valid a \<Longrightarrow> valid b \<Longrightarrow> a \<noteq> b \<Longrightarrow> dif a b = dif b a"
  by (intro dif_unique) (use dif_agree [of b a] dif_differ [of b a] in auto)

lemma lt_flip: "valid a \<Longrightarrow> valid b \<Longrightarrow> a \<noteq> b \<Longrightarrow> lt a b \<longleftrightarrow> \<not> kb a (dif a b)"
  using lt_dif [of a b] dif_differ [of a b] by auto

lemma lt_asym: "valid a \<Longrightarrow> valid b \<Longrightarrow> lt a b \<Longrightarrow> \<not> lt b a"
  using lt_dif [of b a] lt_flip [of a b] dif_sym [of a b] lt_irrefl by (cases "a = b") auto

lemma lt_total: "valid a \<Longrightarrow> valid b \<Longrightarrow> a \<noteq> b \<Longrightarrow> lt a b \<or> lt b a"
  using lt_dif [of b a] lt_flip [of a b] dif_sym [of a b] by auto

text \<open>A key that leaves \<open>b\<close> before \<open>a\<close> does leaves both at the same bit.\<close>

lemma dif_ext:
  assumes "valid a" "valid b" "valid c" "a \<noteq> b" "b \<noteq> c" "dif a b < dif b c"
  shows "a \<noteq> c \<and> dif a c = dif a b \<and> lt a c = lt a b"
proof -
  have d: "kb c (dif a b) = kb b (dif a b)" using dif_agree [of b c "dif a b"] assms by simp
  have ac: "a \<noteq> c" using d dif_differ [of a b] assms by auto
  have e: "dif a c = dif a b"
  proof (rule dif_unique)
    show "kb a i = kb c i" if "i < dif a b" for i
      using that dif_agree [of a b i] dif_agree [of b c i] assms by simp
    show "kb a (dif a b) \<noteq> kb c (dif a b)" using d dif_differ [of a b] assms by simp
  qed (use assms in simp_all)
  have "lt a c = kb c (dif a b)" using lt_dif [of a c] ac assms by (simp add: e)
  also have "\<dots> = lt a b" using lt_dif [of a b] assms d by simp
  finally show ?thesis using ac e by blast
qed

lemma dif_chain:
  assumes "valid a" "valid b" "valid c" "lt a b" "lt b c"
  shows "lt a c \<and> dif a c = min (dif a b) (dif b c)"
proof -
  have ne: "a \<noteq> b" "b \<noteq> c" using assms lt_irrefl by auto
  have one: "kb b (dif a b)" using lt_dif assms ne by blast
  have zero: "\<not> kb b (dif b c)" using lt_flip assms ne by blast
  then have "dif a b \<noteq> dif b c" using one by auto
  then consider "dif a b < dif b c" | "dif b c < dif a b" by linarith
  then show ?thesis
  proof cases
    case 1 then show ?thesis using dif_ext [of a b c] assms ne by auto
  next
    case 2
    have sw: "dif c b = dif b c" "dif b a = dif a b" using dif_sym assms ne by auto
    then have "dif c b < dif b a" using 2 by simp
    from dif_ext [OF assms(3,2,1) ne(2) [symmetric] ne(1) [symmetric] this]
    have ca: "c \<noteq> a" "dif c a = dif b c" "lt c a = lt c b" using sw by auto
    then show ?thesis
      using 2 lt_asym [of b c] lt_total [of a c] dif_sym [of a c] assms by auto
  qed
qed

lemma lt_trans: "valid a \<Longrightarrow> valid b \<Longrightarrow> valid c \<Longrightarrow> lt a b \<Longrightarrow> lt b c \<Longrightarrow> lt a c"
  using dif_chain by blast

section \<open>Sorted keys\<close>

definition ordered :: "'k list \<Rightarrow> bool" where
  "ordered ks \<longleftrightarrow> (\<forall>k \<in> set ks. valid k) \<and> (\<forall>i. Suc i < length ks \<longrightarrow> lt (ks ! i) (ks ! Suc i))"

definition bks :: "'k list \<Rightarrow> nat \<Rightarrow> nat" where
  "bks ks i = dif (ks ! i) (ks ! Suc i)"

lemma ordered_valid: "ordered ks \<Longrightarrow> i < length ks \<Longrightarrow> valid (ks ! i)"
  by (simp add: ordered_def)

lemma ordered_dif:
  assumes "ordered ks" "i < j" "j < length ks"
  shows "lt (ks ! i) (ks ! j) \<and> dif (ks ! i) (ks ! j) = rmin (bks ks) i j"
  using assms(2,3)
proof (induction j rule: less_Suc_induct)
  case (1 i)
  then show ?case using assms(1) by (simp add: ordered_def bks_def)
next
  case (2 i j k)
  then have "lt (ks ! i) (ks ! j)" "lt (ks ! j) (ks ! k)" by auto
  then have "lt (ks ! i) (ks ! k) \<and> dif (ks ! i) (ks ! k) = min (dif (ks ! i) (ks ! j)) (dif (ks ! j) (ks ! k))"
    using 2 ordered_valid [OF assms(1)] by (intro dif_chain) auto
  with 2 show ?case by (simp add: rmin_split)
qed

lemma ordered_lt: "ordered ks \<Longrightarrow> i < j \<Longrightarrow> j < length ks \<Longrightarrow> lt (ks ! i) (ks ! j)"
  using ordered_dif by blast

lemma ordered_distinct: "ordered ks \<Longrightarrow> distinct ks"
  unfolding distinct_conv_nth using ordered_lt lt_irrefl by (metis linorder_neqE_nat)

lemma lt_bits: "valid a \<Longrightarrow> valid b \<Longrightarrow> lt a b \<Longrightarrow> a \<noteq> b \<and> kb b (dif a b) \<and> \<not> kb a (dif a b)"
  using lt_dif [of a b] lt_flip [of a b] lt_irrefl by (cases "a = b") auto

text \<open>Between two equal blindi keys there is a smaller one: minima of slices are unique.\<close>

lemma bks_between:
  assumes o: "ordered ks" and ij: "i < j" "Suc j < length ks" and eq: "bks ks i = bks ks j"
  shows "\<exists>k. i < k \<and> k < j \<and> bks ks k < bks ks i"
proof (rule ccontr)
  assume "\<not> ?thesis"
  then have ge: "bks ks i \<le> bks ks k" if "Suc i \<le> k" "k < j" for k using that by (meson Suc_le_lessD not_less)
  note v = ordered_valid [OF o]
  have one: "kb (ks ! Suc i) (bks ks i)"
    using lt_bits [OF v v ordered_lt [OF o, of i "Suc i"]] ij by (simp add: bks_def)
  have zero: "\<not> kb (ks ! j) (bks ks i)"
    using lt_bits [OF v v ordered_lt [OF o, of j "Suc j"]] ij unfolding eq by (simp add: bks_def)
  show False
  proof (cases "Suc i = j")
    case True then show False using one zero by simp
  next
    case False
    then have s: "Suc i < j" using ij by simp
    have sj: "j < length ks" using ij by simp
    from ordered_dif [OF o s sj] have d: "lt (ks ! Suc i) (ks ! j)" "dif (ks ! Suc i) (ks ! j) = rmin (bks ks) (Suc i) j"
      by auto
    have ne: "ks ! Suc i \<noteq> ks ! j" using d(1) lt_irrefl by auto
    have "bks ks i \<le> dif (ks ! Suc i) (ks ! j)" unfolding d(2) using s ge by (intro rmin_ge) auto
    then consider "bks ks i < dif (ks ! Suc i) (ks ! j)" | "bks ks i = dif (ks ! Suc i) (ks ! j)" by linarith
    then show False
    proof cases
      case 1 then show False using dif_agree [of "ks ! Suc i" "ks ! j"] one zero ne v ij by auto
    next
      case 2 then show False using lt_dif [of "ks ! Suc i" "ks ! j"] d(1) ne zero v ij by auto
    qed
  qed
qed

section \<open>Why a blind search finds the key\<close>

text \<open>No key of the node shares a longer prefix with the searched key than the one at the blind position.\<close>

lemma blind_best:
  assumes o: "ordered ks" and bp: "blind_pos (kb x) (bks ks) 0 (length ks) p"
    and x: "valid x" "x \<noteq> ks ! p" and j: "j < length ks"
  shows "x \<noteq> ks ! j \<and> dif x (ks ! j) \<le> dif x (ks ! p)"
proof -
  have p: "p < length ks" using bp by (simp add: blind_pos_def)
  note v = ordered_valid [OF o]
  have key: "x \<noteq> k \<and> dif x k \<le> dif x (ks ! p)"
    if k: "valid k" "k \<noteq> ks ! p" "kb x (dif (ks ! p) k) = kb (ks ! p) (dif (ks ! p) k)" for k
  proof -
    have ne: "kb x (dif (ks ! p) k) \<noteq> kb k (dif (ks ! p) k)" using k dif_differ [of "ks ! p" k] v p by auto
    then have xk: "x \<noteq> k" by auto
    consider "dif x (ks ! p) < dif (ks ! p) k" | "dif x (ks ! p) = dif (ks ! p) k" | "dif (ks ! p) k < dif x (ks ! p)"
      by linarith
    then show ?thesis
    proof cases
      case 1 then show ?thesis using dif_ext [of x "ks ! p" k] x k v p xk by auto
    next
      case 2 then show ?thesis using k dif_differ [of x "ks ! p"] x v p by auto
    next
      case 3
      have "dif x k \<le> dif (ks ! p) k"
        using ne dif_agree [OF x(1) k(1) xk] by (meson not_less)
      with 3 xk show ?thesis by simp
    qed
  qed
  consider "j = p" | "p < j" | "j < p" by linarith
  then show ?thesis
  proof cases
    case 1 then show ?thesis using x by simp
  next
    case 2
    from ordered_dif [OF o 2 j] have d: "dif (ks ! p) (ks ! j) = rmin (bks ks) p j" and l: "lt (ks ! p) (ks ! j)" by auto
    have "\<not> kb x (dif (ks ! p) (ks ! j))" using bp 2 j by (simp add: d blind_pos_def)
    moreover have ne: "ks ! j \<noteq> ks ! p" using l lt_irrefl by auto
    then have "\<not> kb (ks ! p) (dif (ks ! p) (ks ! j))" using l lt_flip [of "ks ! p" "ks ! j"] v p j by auto
    ultimately show ?thesis using key [of "ks ! j"] v j ne by auto
  next
    case 3
    from ordered_dif [OF o 3 p] have d: "dif (ks ! j) (ks ! p) = rmin (bks ks) j p" and l: "lt (ks ! j) (ks ! p)" by auto
    then have ne: "ks ! j \<noteq> ks ! p" using lt_irrefl by auto
    have d': "dif (ks ! p) (ks ! j) = rmin (bks ks) j p" using d dif_sym ne v p j by metis
    have "kb x (dif (ks ! p) (ks ! j))" using bp 3 j by (simp add: d' blind_pos_def)
    moreover have "kb (ks ! p) (dif (ks ! p) (ks ! j))" using l lt_dif ne v p j d d' by metis
    ultimately show ?thesis using key [of "ks ! j"] v j ne by auto
  qed
qed

corollary blind_search:
  assumes "ordered ks" "blind_pos (kb x) (bks ks) 0 (length ks) p" "valid x"
  shows "x \<in> set ks \<longleftrightarrow> ks ! p = x"
proof
  assume "x \<in> set ks"
  then obtain j where "j < length ks" "ks ! j = x" by (auto simp: in_set_conv_nth)
  then show "ks ! p = x" using blind_best [OF assms] by metis
next
  assume "ks ! p = x"
  then show "x \<in> set ks" using assms(2) by (auto simp: blind_pos_def)
qed

section \<open>The second stage: predecessor of a missing key\<close>

text \<open>No blindi key next to the blind position equals the bit at which the searched key leaves.\<close>

lemma second_ne:
  assumes o: "ordered ks" and bp: "blind_pos (kb x) (bks ks) 0 (length ks) p"
    and x: "valid x" "x \<noteq> ks ! p" and j: "j < length ks" "j \<noteq> p"
  shows "dif (ks ! p) (ks ! j) \<noteq> dif x (ks ! p)"
proof
  assume eq: "dif (ks ! p) (ks ! j) = dif x (ks ! p)"
  have p: "p < length ks" using bp by (simp add: blind_pos_def)
  note v = ordered_valid [OF o]
  have ne: "ks ! p \<noteq> ks ! j" using ordered_distinct [OF o] j p by (simp add: nth_eq_iff_index_eq)
  from blind_best [OF o bp x j(1)] have b: "x \<noteq> ks ! j" "dif x (ks ! j) \<le> dif x (ks ! p)" by auto
  have "kb x i = kb (ks ! j) i" if "i \<le> dif x (ks ! p)" for i
    using that dif_agree [of x "ks ! p"] dif_agree [of "ks ! p" "ks ! j"] dif_differ [of x "ks ! p"]
      dif_differ [of "ks ! p" "ks ! j"] x v p j ne eq by (metis le_neq_implies_less)
  then show False using dif_differ [of x "ks ! j"] b x v j by blast
qed

lemma second_right:
  assumes o: "ordered ks" and bp: "blind_pos (kb x) (bks ks) 0 (length ks) p"
    and x: "valid x" "x \<noteq> ks ! p" and d: "d = dif x (ks ! p)" and large: "kb x d"
    and i: "p \<le> i" "i < length ks" "\<And>k. p \<le> k \<Longrightarrow> k < i \<Longrightarrow> d \<le> bks ks k"
    and stop: "Suc i < length ks \<Longrightarrow> bks ks i < d"
  shows "lt (ks ! i) x \<and> dif (ks ! i) x = d
    \<and> (Suc i < length ks \<longrightarrow> lt x (ks ! Suc i) \<and> dif x (ks ! Suc i) = bks ks i)"
proof -
  have p: "p < length ks" using bp by (simp add: blind_pos_def)
  note v = ordered_valid [OF o]
  have base: "lt (ks ! p) x" "dif (ks ! p) x = d"
    using lt_dif [of "ks ! p" x] dif_sym [of "ks ! p" x] x v p d large by auto
  have group: "lt (ks ! i) x \<and> dif (ks ! i) x = d"
  proof (cases "i = p")
    case False
    then have pi: "p < i" using i by simp
    from ordered_dif [OF o pi i(2)] have e: "dif (ks ! p) (ks ! i) = rmin (bks ks) p i" and l: "lt (ks ! p) (ks ! i)" by auto
    have "d \<le> rmin (bks ks) p i" using pi i(3) by (intro rmin_ge) auto
    moreover have "rmin (bks ks) p i \<noteq> d" using second_ne [OF o bp x i(2)] False e d by simp
    ultimately have lt': "dif x (ks ! p) < dif (ks ! p) (ks ! i)" using e d by simp
    have "ks ! p \<noteq> ks ! i" using l lt_irrefl by auto
    from dif_ext [OF x(1) v [OF p] v [OF i(2)] x(2) this lt']
    have a: "x \<noteq> ks ! i" "dif x (ks ! i) = d" "lt x (ks ! i) = lt x (ks ! p)" using d by auto
    then show ?thesis using base dif_sym lt_asym lt_total x v p i by metis
  qed (use base in simp)
  moreover have "lt x (ks ! Suc i) \<and> dif x (ks ! Suc i) = bks ks i" if s: "Suc i < length ks"
  proof -
    have l: "lt (ks ! i) (ks ! Suc i)" using ordered_lt [OF o] s by simp
    have ne: "ks ! Suc i \<noteq> ks ! i" "ks ! i \<noteq> x" using l group lt_irrefl by auto
    have b: "dif (ks ! Suc i) (ks ! i) = bks ks i" using dif_sym ne v s i by (metis bks_def)
    have "dif (ks ! Suc i) (ks ! i) < dif (ks ! i) x" using b group stop [OF s] by simp
    from dif_ext [OF v [OF s] v [OF i(2)] x(1) ne this]
    have "ks ! Suc i \<noteq> x" "dif (ks ! Suc i) x = bks ks i" "lt (ks ! Suc i) x = lt (ks ! Suc i) (ks ! i)" using b by auto
    then show ?thesis using l lt_asym lt_total dif_sym x v s i by metis
  qed
  ultimately show ?thesis by blast
qed

lemma second_left:
  assumes o: "ordered ks" and bp: "blind_pos (kb x) (bks ks) 0 (length ks) p"
    and x: "valid x" "x \<noteq> ks ! p" and d: "d = dif x (ks ! p)" and small: "\<not> kb x d"
    and i: "i \<le> p" "\<And>k. i \<le> k \<Longrightarrow> k < p \<Longrightarrow> d \<le> bks ks k"
    and stop: "0 < i \<Longrightarrow> bks ks (i - 1) < d"
  shows "lt x (ks ! i) \<and> dif x (ks ! i) = d
    \<and> (0 < i \<longrightarrow> lt (ks ! (i - 1)) x \<and> dif (ks ! (i - 1)) x = bks ks (i - 1))"
proof -
  have p: "p < length ks" using bp by (simp add: blind_pos_def)
  then have il: "i < length ks" using i by simp
  note v = ordered_valid [OF o]
  have base: "lt x (ks ! p)" using lt_flip [of x "ks ! p"] x v p d small by auto
  have group: "lt x (ks ! i) \<and> dif x (ks ! i) = d"
  proof (cases "i = p")
    case False
    then have ip: "i < p" using i by simp
    from ordered_dif [OF o ip p] have e: "dif (ks ! i) (ks ! p) = rmin (bks ks) i p" and l: "lt (ks ! i) (ks ! p)" by auto
    have ne: "ks ! p \<noteq> ks ! i" using l lt_irrefl by auto
    have e': "dif (ks ! p) (ks ! i) = rmin (bks ks) i p" using e dif_sym ne v p il by metis
    have "d \<le> rmin (bks ks) i p" using ip i(2) by (intro rmin_ge) auto
    moreover have "rmin (bks ks) i p \<noteq> d" using second_ne [OF o bp x il] False e' d by simp
    ultimately have lt': "dif x (ks ! p) < dif (ks ! p) (ks ! i)" using e' d by simp
    from dif_ext [OF x(1) v [OF p] v [OF il] x(2) ne lt'] show ?thesis using base d by auto
  qed (use base d in simp)
  moreover have "lt (ks ! (i - 1)) x \<and> dif (ks ! (i - 1)) x = bks ks (i - 1)" if s: "0 < i"
  proof -
    obtain h where h: "i = Suc h" using s by (cases i) auto
    have l: "lt (ks ! h) (ks ! i)" using ordered_lt [OF o, of h i] il h by simp
    have ne: "ks ! h \<noteq> ks ! i" "ks ! i \<noteq> x" using l group lt_irrefl by auto
    have "dif (ks ! h) (ks ! i) < dif (ks ! i) x"
      using stop [OF s] group dif_sym [of "ks ! i" x] ne x v il h by (simp add: bks_def)
    from dif_ext [OF _ v [OF il] x(1) ne this]
    show ?thesis using l v [of h] il h by (simp add: bks_def)
  qed
  ultimately show ?thesis by blast
qed

section \<open>Where a missing key belongs\<close>

text \<open>
  \<open>gap ks x pos q d\<close>: the missing key \<open>x\<close> comes before the key at \<open>pos\<close>, and the blindi keys of the
  longer node are the old ones with \<open>d\<close> inserted at \<open>q\<close>.
\<close>

definition gap :: "'k list \<Rightarrow> 'k \<Rightarrow> nat \<Rightarrow> nat \<Rightarrow> nat \<Rightarrow> bool" where
  "gap ks x pos q d \<longleftrightarrow> pos \<le> length ks \<and> (0 < pos \<longrightarrow> lt (ks ! (pos - 1)) x) \<and> (pos < length ks \<longrightarrow> lt x (ks ! pos))
     \<and> (q = pos \<and> pos < length ks \<and> dif x (ks ! pos) = d \<and> (0 < pos \<longrightarrow> dif (ks ! (pos - 1)) x = bks ks (pos - 1))
        \<or> pos = Suc q \<and> dif (ks ! q) x = d \<and> (pos < length ks \<longrightarrow> dif x (ks ! pos) = bks ks q))"

lemma gap_right:
  assumes "ordered ks" "blind_pos (kb x) (bks ks) 0 (length ks) p" "valid x" "x \<noteq> ks ! p" "d = dif x (ks ! p)" "kb x d"
    "p \<le> i" "i < length ks" "\<And>k. p \<le> k \<Longrightarrow> k < i \<Longrightarrow> d \<le> bks ks k" "Suc i < length ks \<Longrightarrow> bks ks i < d"
  shows "gap ks x (Suc i) i d"
  using second_right [OF assms(1-8)] assms(8-10) by (auto simp: gap_def)

lemma gap_left:
  assumes "ordered ks" "blind_pos (kb x) (bks ks) 0 (length ks) p" "valid x" "x \<noteq> ks ! p" "d = dif x (ks ! p)" "\<not> kb x d"
    "i \<le> p" "\<And>k. i \<le> k \<Longrightarrow> k < p \<Longrightarrow> d \<le> bks ks k" "0 < i \<Longrightarrow> bks ks (i - 1) < d"
  shows "gap ks x i i d"
proof -
  have "i < length ks" using assms(2,7) by (auto simp: blind_pos_def)
  then show ?thesis using second_left [OF assms(1-7)] assms(8,9) by (auto simp: gap_def)
qed

text \<open>A minimum of a range of blindi keys around the blind position is not the bit at which \<open>x\<close> leaves.\<close>

lemma min_ne_dif:
  assumes o: "ordered ks" and bp: "blind_pos (kb x) (bks ks) 0 (length ks) p" and x: "valid x" "x \<noteq> ks ! p"
    and r: "lo \<le> p" "p \<le> hi" "lo \<le> t" "t < hi" "hi < length ks" "\<And>k. lo \<le> k \<Longrightarrow> k < hi \<Longrightarrow> bks ks t \<le> bks ks k"
  shows "bks ks t \<noteq> dif x (ks ! p)"
proof (cases "p \<le> t")
  case True
  have "rmin (bks ks) p (Suc t) = bks ks t"
    by (rule antisym) (use True r in \<open>auto intro!: rmin_le rmin_ge\<close>)
  then have "dif (ks ! p) (ks ! Suc t) = bks ks t" using ordered_dif [OF o, of p "Suc t"] True r by simp
  then show ?thesis using second_ne [OF o bp x, of "Suc t"] True r by simp
next
  case False
  have m: "rmin (bks ks) t p = bks ks t"
    by (rule antisym) (use False r in \<open>auto intro!: rmin_le rmin_ge\<close>)
  have tp: "t < p" "p < length ks" using False r by auto
  have "dif (ks ! t) (ks ! p) = bks ks t" "ks ! t \<noteq> ks ! p"
    using ordered_dif [OF o tp] m lt_irrefl by auto
  then have "dif (ks ! p) (ks ! t) = bks ks t" using dif_sym ordered_valid [OF o] tp by simp
  then show ?thesis using second_ne [OF o bp x, of t] tp by simp
qed

section \<open>Inserting, removing, splitting, joining\<close>

lemma ordered_insert:
  assumes o: "ordered ks" and x: "valid x" and pos: "pos \<le> length ks"
    and left: "0 < pos \<Longrightarrow> lt (ks ! (pos - 1)) x" and right: "pos < length ks \<Longrightarrow> lt x (ks ! pos)"
  shows "ordered (take pos ks @ x # drop pos ks)"
  unfolding ordered_def
proof (intro conjI ballI allI impI)
  fix k assume "k \<in> set (take pos ks @ x # drop pos ks)"
  then show "valid k" using o x by (auto simp: ordered_def dest: in_set_takeD in_set_dropD)
next
  let ?ks = "take pos ks @ x # drop pos ks"
  fix i assume "Suc i < length ?ks"
  then have i: "Suc i < Suc (length ks)" using pos by simp
  consider "Suc i < pos" | "Suc i = pos" | "i = pos" | "pos < i" by linarith
  then show "lt (?ks ! i) (?ks ! Suc i)"
  proof cases
    case 1 then show ?thesis using o pos by (simp add: ordered_def nth_append)
  next
    case 2 then show ?thesis using left pos by (auto simp: nth_append)
  next
    case 3 then show ?thesis using right i pos by (simp add: nth_append)
  next
    case 4
    then obtain m where "i = Suc (pos + m)" using less_imp_Suc_add by blast
    then show ?thesis using o pos i by (simp add: ordered_def nth_append)
  qed
qed

lemma bks_insert:
  assumes "pos \<le> length ks" "i < length ks"
  shows "bks (take pos ks @ x # drop pos ks) i =
    (if Suc i < pos then bks ks i else if Suc i = pos then dif (ks ! (pos - 1)) x
     else if i = pos then dif x (ks ! pos) else bks ks (i - 1))"
proof -
  consider "Suc i < pos" | "Suc i = pos" | "i = pos" | "pos < i" by linarith
  then show ?thesis
  proof cases
    case 4
    then obtain m where "i = Suc (pos + m)" using less_imp_Suc_add by blast
    then show ?thesis using assms by (simp add: bks_def nth_append)
  qed (use assms in \<open>auto simp: bks_def nth_append\<close>)
qed

lemma bks_gap:
  assumes "gap ks x pos q d" "i < length ks"
  shows "bks (take pos ks @ x # drop pos ks) i = (if i < q then bks ks i else if i = q then d else bks ks (i - 1))"
proof -
  from assms(1) consider "q = pos" "pos < length ks" "dif x (ks ! pos) = d" "0 < pos \<longrightarrow> dif (ks ! (pos - 1)) x = bks ks (pos - 1)"
    | "pos = Suc q" "pos \<le> length ks" "dif (ks ! q) x = d" "pos < length ks \<longrightarrow> dif x (ks ! pos) = bks ks q"
    unfolding gap_def by blast
  then show ?thesis
  proof cases
    case 1
    consider "Suc i < pos" | "pos = Suc i" | "pos \<le> i" by linarith
    then show ?thesis by cases (use 1 assms(2) in \<open>auto simp: bks_insert\<close>)
  next
    case 2 then show ?thesis using assms(2) by (auto simp: bks_insert)
  qed
qed

lemma ordered_gap: "ordered ks \<Longrightarrow> valid x \<Longrightarrow> gap ks x pos q d \<Longrightarrow> ordered (take pos ks @ x # drop pos ks)"
  by (intro ordered_insert) (auto simp: gap_def)

lemma nth_remove:
  "i < length ks \<Longrightarrow> j < length ks - 1 \<Longrightarrow> (take i ks @ drop (Suc i) ks) ! j = (if j < i then ks ! j else ks ! Suc j)"
  by (simp add: nth_append)

lemma bks_remove:
  assumes o: "ordered ks" and i: "i < length ks" and j: "Suc j < length ks - 1"
  shows "bks (take i ks @ drop (Suc i) ks) j =
    (if Suc j < i then bks ks j else if Suc j = i then min (bks ks j) (bks ks i) else bks ks (Suc j))"
proof -
  have "dif (ks ! j) (ks ! Suc (Suc j)) = min (bks ks j) (bks ks (Suc j))"
    using ordered_dif [OF o, of j "Suc (Suc j)"] j by (simp add: rmin_last)
  then show ?thesis using i j by (auto simp: bks_def nth_remove)
qed

lemma ordered_remove:
  assumes "ordered ks" "i < length ks"
  shows "ordered (take i ks @ drop (Suc i) ks)"
  unfolding ordered_def
proof (intro conjI ballI allI impI)
  fix k assume "k \<in> set (take i ks @ drop (Suc i) ks)"
  then show "valid k" using assms(1) by (auto simp: ordered_def dest: in_set_takeD in_set_dropD)
next
  fix j assume "Suc j < length (take i ks @ drop (Suc i) ks)"
  then have "Suc j < length ks - 1" using assms(2) by simp
  then show "lt ((take i ks @ drop (Suc i) ks) ! j) ((take i ks @ drop (Suc i) ks) ! Suc j)"
    using assms ordered_lt [OF assms(1)] by (simp add: nth_remove)
qed

lemma ordered_take: "ordered ks \<Longrightarrow> ordered (take n ks)"
  by (auto simp: ordered_def dest: in_set_takeD)

lemma ordered_drop: "ordered ks \<Longrightarrow> ordered (drop n ks)"
  by (auto simp: ordered_def dest: in_set_dropD)

lemma bks_take: "Suc i < n \<Longrightarrow> bks (take n ks) i = bks ks i"
  by (simp add: bks_def)

lemma bks_drop: "n + Suc i < length ks \<Longrightarrow> bks (drop n ks) i = bks ks (n + i)"
  by (simp add: bks_def)

lemma ordered_append:
  assumes "ordered as" "ordered bs" "as \<noteq> [] \<Longrightarrow> bs \<noteq> [] \<Longrightarrow> lt (last as) (hd bs)"
  shows "ordered (as @ bs)"
  unfolding ordered_def
proof (intro conjI ballI allI impI)
  fix k assume "k \<in> set (as @ bs)"
  then show "valid k" using assms(1,2) by (auto simp: ordered_def)
next
  fix i assume i: "Suc i < length (as @ bs)"
  consider "Suc i < length as" | "Suc i = length as" | "length as \<le> i" by linarith
  then show "lt ((as @ bs) ! i) ((as @ bs) ! Suc i)"
  proof cases
    case 1 then show ?thesis using assms(1) by (simp add: ordered_def nth_append)
  next
    case 2
    then have "as \<noteq> []" "bs \<noteq> []" "i = length as - 1" using i by auto
    then show ?thesis using 2 assms(3) by (simp add: nth_append last_conv_nth hd_conv_nth)
  next
    case 3
    then obtain m where "i = length as + m" using le_Suc_ex by blast
    then show ?thesis using assms(2) i by (simp add: ordered_def nth_append)
  qed
qed

lemma bks_append_left: "Suc i < length as \<Longrightarrow> bks (as @ bs) i = bks as i"
  by (simp add: bks_def nth_append)

lemma bks_append_right: "bks (as @ bs) (length as + i) = bks bs i"
  by (simp add: bks_def nth_append)

lemma bks_append_mid: "as \<noteq> [] \<Longrightarrow> bs \<noteq> [] \<Longrightarrow> bks (as @ bs) (length as - 1) = dif (last as) (hd bs)"
  by (simp add: bks_def nth_append last_conv_nth hd_conv_nth)

end

end
