(* ===== verification/Key_Order.thy ===== *)
theory Key_Order
  imports Bit_Manipulation Patricia
begin

text \<open>
  The comparison routine of the code provides the contract \<open>bit_keys\<close>: keys of \<open>L\<close> bytes, ordered as the
  little-endian integers they denote, with \<^verbatim>\<open>CompareStage\<close> computing the first differing bit.
\<close>

definition key_less :: "byte list \<Rightarrow> byte list \<Rightarrow> bool" where
  "key_less a b \<longleftrightarrow> key_val a < key_val b"

definition key_dif :: "byte list \<Rightarrow> byte list \<Rightarrow> nat" where
  "key_dif a b = (case CompareStage a b False (length a) (length a) of Some (d, _, _) \<Rightarrow> d | None \<Rightarrow> 0)"

definition key_of_len :: "nat \<Rightarrow> byte list \<Rightarrow> bool" where
  "key_of_len L k \<longleftrightarrow> length k = L"

lemma diff_at_unique: "diff_at a b d \<Longrightarrow> diff_at a b e \<Longrightarrow> d = e"
  unfolding diff_at_def by (metis linorder_neqE_nat)

lemma CompareStage_diff:
  assumes "length a = L" "length b = L" "a \<noteq> b"
  obtains d where "CompareStage a b False L L = Some (d, False, key_val b < key_val a)"
    "CompareStage a b bs L L = Some (d, False, key_val b < key_val a)"
    "diff_at a b d" "d < 8 * L" "(key_val b < key_val a) = key_bit a d"
proof -
  from CompareStage_spec [OF assms(1,2), of False] assms(3) obtain d where
    d: "CompareStage a b False L L = Some (d, False, key_val b < key_val a)" "diff_at a b d" "d < 8 * L"
      "(key_val b < key_val a) = key_bit a d" by auto
  from CompareStage_spec [OF assms(1,2), of bs] assms(3) obtain e where
    e: "CompareStage a b bs L L = Some (e, False, key_val b < key_val a)" "diff_at a b e" by auto
  have "e = d" by (rule diff_at_unique [OF e(2) d(2)])
  with d e that show thesis by simp
qed

lemma CompareStage_eq:
  assumes "key_of_len L a" "key_of_len L b"
  shows "CompareStage a b bs L L =
    (if a = b then Some (0, True, bs) else Some (key_dif a b, False, key_less b a))"
proof (cases "a = b")
  case True
  then show ?thesis using CompareStage_spec [of a L b bs] assms by (auto simp: key_of_len_def)
next
  case False
  have la: "length a = L" "length b = L" using assms by (auto simp: key_of_len_def)
  obtain d where d: "CompareStage a b False L L = Some (d, False, key_val b < key_val a)"
    "CompareStage a b bs L L = Some (d, False, key_val b < key_val a)"
    by (rule CompareStage_diff [OF la False])
  have "key_dif a b = d" unfolding key_dif_def la d by simp
  then show ?thesis using d(2) False by (simp only: key_less_def if_False)
qed

lemma key_dif_spec:
  assumes "key_of_len L a" "key_of_len L b" "a \<noteq> b"
  shows "diff_at a b (key_dif a b) \<and> key_dif a b < 8 * L \<and> key_less b a = key_bit a (key_dif a b)"
proof -
  have la: "length a = L" "length b = L" using assms by (auto simp: key_of_len_def)
  obtain d where d: "CompareStage a b False L L = Some (d, False, key_val b < key_val a)"
    "diff_at a b d" "d < 8 * L" "(key_val b < key_val a) = key_bit a d"
    by (rule CompareStage_diff [OF la assms(3)])
  have "key_dif a b = d" unfolding key_dif_def la d(1) by simp
  then show ?thesis using d by (simp only: key_less_def)
qed

interpretation bl: bit_keys key_bit key_less "key_of_len L" key_dif for L :: nat
proof unfold_locales
  fix a b :: "byte list" and i
  assume v: "key_of_len L a" "key_of_len L b" and ne: "a \<noteq> b"
  note d = key_dif_spec [OF v ne]
  show "key_bit a i = key_bit b i" if "i < key_dif a b" using d that unfolding diff_at_def by blast
  show "key_bit a (key_dif a b) \<noteq> key_bit b (key_dif a b)" using d unfolding diff_at_def by blast
  have e: "key_less a b = key_bit b (key_dif b a)" "diff_at b a (key_dif b a)"
    using key_dif_spec [OF v(2,1) ne [symmetric]] by auto
  have "key_dif b a = key_dif a b"
    by (rule diff_at_unique [of a b]) (use d e(2) in \<open>auto simp: diff_at_def\<close>)
  with e show "key_less a b = key_bit b (key_dif a b)" by simp
next
  show "\<not> key_less a a" for a by (simp add: key_less_def)
qed

lemmas key_rules = CompareStage_eq key_of_len_def

end
