(* ===== verification/SeqTree.thy ===== *)
theory SeqTree
  imports Key_Order
begin

text \<open>
  \<^verbatim>\<open>blindi_seqtree/blindi_seqtree.hpp\<close>: the leaf node of the elastic index. A node keeps the
  pointers to its keys in key order, the blindi keys (the bit in which neighbouring keys first
  differ) and a small complete binary tree \<^verbatim>\<open>blindiTree\<close> of positions in the blindi keys that narrows
  the sequential scan.

  The build modelled is the one of the Makefile: \<^verbatim>\<open>BREATHING_BLINDI_SIZE = 4\<close> with
  \<^verbatim>\<open>BREATHING_BLINDI_DATA_ONLY\<close>, no \<^verbatim>\<open>FINGERPRINT\<close>, no \<^verbatim>\<open>KEY_VAR_LEN\<close>, no \<^verbatim>\<open>IS_STRING\<close>, and \<^verbatim>\<open>NDEBUG\<close>
  (assertions are empty). The template parameters and \<^verbatim>\<open>TREE_LEVELS\<close> are the fields of \<open>config\<close>; the builds of the
  repository set the levels to 2 (the Makefiles) or to 0 (\<^verbatim>\<open>run.sh\<close>, and the copy of this header in \<^verbatim>\<open>mcas\<close>). Keys
  live outside the node; \<open>db\<close> maps a pointer to the bytes it points to, and a pointer that points to no key, such as
  the null pointer 0 of an unused cell, to the empty list, of which no byte can be read. The statistics counters are
  left out: no code reads them.
\<close>

section \<open>State\<close>

record config =
  NUM_SLOTS :: nat
  KEY_LEN :: nat
  TREE_LEVELS :: nat

definition BREATHING_BLINDI_SIZE :: nat where "BREATHING_BLINDI_SIZE = 4"

definition bitidx_mod :: "config \<Rightarrow> nat" where
  "bitidx_mod c = (if KEY_LEN c \<le> 31 then 256 else 65536)"

definition idx_mod :: "config \<Rightarrow> nat" where
  "idx_mod c = (if NUM_SLOTS c < 254 then 256 else 65536)"

definition END_TREE :: "config \<Rightarrow> nat" where "END_TREE c = idx_mod c - 1"
definition DUPLICATE :: "config \<Rightarrow> nat" where "DUPLICATE c = bitidx_mod c - 2"
definition MAX_HIGH_MISS :: "config \<Rightarrow> nat" where "MAX_HIGH_MISS c = bitidx_mod c - 3"
definition TREE_SIZE :: "config \<Rightarrow> nat" where "TREE_SIZE c = 2 ^ TREE_LEVELS c - 1"

text \<open>Stores into a \<^verbatim>\<open>uint16_t\<close> and into an \<^verbatim>\<open>idx_t\<close> cell truncate; so do those into \<^verbatim>\<open>valid_len\<close>, which is an \<^verbatim>\<open>idx_t\<close>.\<close>

definition u16 :: "int \<Rightarrow> nat" where "u16 x = nat (x mod 65536)"
definition to_idx :: "config \<Rightarrow> int \<Rightarrow> nat" where "to_idx c x = nat (x mod int (idx_mod c))"

record node =
  valid_len :: nat
  blindiTree :: "nat list"
  currentmaxslot :: nat
  key_ptr :: "ptr list"
  blindiKeys :: "nat list"

type_synonym db = "ptr \<Rightarrow> byte list"

datatype search_type = PREDECESSOR_SEARCH | POINT_SEARCH
datatype insert_result = INSERT_SUCCESS | INSERT_DUPLICATED_KEY | INSERT_OVERFLOW
datatype remove_result = REMOVE_SUCCESS | REMOVE_NODE_EMPTY | REMOVE_UNDERFLOW | REMOVE_KEY_NOT_FOUND

text \<open>A constructed node: no memory for the pointers yet. Fresh memory is shown as zeros.\<close>

definition new_node :: "config \<Rightarrow> node" where
  "new_node c = \<lparr> valid_len = 0, blindiTree = replicate (TREE_SIZE c) 0, currentmaxslot = 0,
     key_ptr = [], blindiKeys = replicate (NUM_SLOTS c - 1) 0 \<rparr>"

definition get_key_ptr :: "node \<Rightarrow> nat \<Rightarrow> ptr option" where
  "get_key_ptr nd pos = get (key_ptr nd) pos"

definition get_blindiKey :: "node \<Rightarrow> nat \<Rightarrow> nat option" where
  "get_blindiKey nd pos = get (blindiKeys nd) pos"

definition get_blindiTree :: "node \<Rightarrow> nat \<Rightarrow> nat option" where
  "get_blindiTree nd pos = get (blindiTree nd) pos"

text \<open>The cells of the tree as bytes, the low byte of a cell of 16 bits first.\<close>

definition get_ptr2blindiTree :: "config \<Rightarrow> node \<Rightarrow> nat list" where
  "get_ptr2blindiTree c nd =
     (if TREE_LEVELS c > 0 then
        (if idx_mod c = 256 then blindiTree nd else concat (map (\<lambda>t. [t mod 256, t div 256]) (blindiTree nd)))
      else [])"

definition isneedbreath :: "node \<Rightarrow> bool" where
  "isneedbreath nd \<longleftrightarrow> valid_len nd = currentmaxslot nd"

definition first_insert :: "config \<Rightarrow> node \<Rightarrow> ptr \<Rightarrow> node option" where
  "first_insert c nd insert_key =
     do {
       bk \<leftarrow> put (blindiKeys nd) 0 0;
       kp \<leftarrow> put (replicate (NUM_SLOTS c) 0) 0 insert_key;
       Some (nd \<lparr> currentmaxslot := NUM_SLOTS c, key_ptr := kp, blindiKeys := bk,
         blindiTree := (if TREE_LEVELS c > 0 then replicate (TREE_SIZE c) (END_TREE c) else blindiTree nd),
         valid_len := 1 \<rparr>)
     }"

section \<open>Search\<close>

text \<open>
  \<^verbatim>\<open>tree_traverse\<close> is an array of the caller; its length is the caller's. Cells 0 and 1 are the bounds
  of the sequential part, 2 and 3 the last two tree positions, 4 says that the insertion changes the
  tree, 5 that the sequential part was entered.

  The descent through the tree, \<open>n\<close> levels left. \<open>Inl\<close> is an early return of \<^verbatim>\<open>SearchFirstStage\<close>.
\<close>

record descent =
  tt :: "nat list"
  tt_len :: nat
  tree_pos_p1 :: nat
  first_stage_key_position :: nat
  start_bk_seq_pos :: nat
  end_bk_seq_pos :: int
  is_start_pos :: bool
  is_end_pos :: bool
  is_last_large :: bool

fun first_stage_tree ::
  "config \<Rightarrow> node \<Rightarrow> byte list \<Rightarrow> nat \<Rightarrow> nat \<Rightarrow> descent \<Rightarrow> ((nat \<times> nat list \<times> nat) + descent) option" where
  "first_stage_tree c nd key key_len 0 d = Some (Inr d)"
| "first_stage_tree c nd key key_len (Suc n) d =
     do {
       t2 \<leftarrow> get (tt d) 2;
       tt1 \<leftarrow> put (tt d) 3 t2;
       tt2 \<leftarrow> put tt1 2 (tree_pos_p1 d - 1);
       let d = d \<lparr> tt := tt2, tt_len := tt_len d + 1 \<rparr>;
       t \<leftarrow> get (blindiTree nd) (tree_pos_p1 d - 1);
       (if t = END_TREE c then
          do { p \<leftarrow> get (blindiTree nd) t2; Some (Inl (p + of_bool (is_last_large d), tt d, tt_len d)) }
        else do {
          tree_key \<leftarrow> get (blindiKeys nd) t;
          b \<leftarrow> isNthBitSetInString key tree_key key_len;
          first_stage_tree c nd key key_len n
            (if b then
               d \<lparr> first_stage_key_position := t + 1, start_bk_seq_pos := t, is_start_pos := True,
                   tree_pos_p1 := (tree_pos_p1 d + 1) * 2 - 1, is_last_large := True \<rparr>
             else
               d \<lparr> end_bk_seq_pos := int t, is_end_pos := True,
                   tree_pos_p1 := tree_pos_p1 d * 2, is_last_large := False \<rparr>)
        })
     }"

text \<open>One round of the sequential part: the state is (candidate position, \<^verbatim>\<open>high_miss\<close>).\<close>

definition first_stage_step ::
  "config \<Rightarrow> node \<Rightarrow> byte list \<Rightarrow> nat \<Rightarrow> nat \<times> nat \<Rightarrow> (nat \<times> nat) option" where
  "first_stage_step c nd key i = (\<lambda>(pos, high_miss).
     do {
       bk \<leftarrow> get (blindiKeys nd) i;
       (if bk \<le> high_miss then
          do {
            b \<leftarrow> isNthBitSetInString key bk (KEY_LEN c);
            Some (if b then (i + 1, MAX_HIGH_MISS c) else (pos, min high_miss bk))
          }
        else Some (pos, high_miss))
     })"

definition first_stage_seq ::
  "config \<Rightarrow> node \<Rightarrow> byte list \<Rightarrow> descent \<Rightarrow> (nat \<times> nat list \<times> nat) option" where
  "first_stage_seq c nd key d =
     do {
       t0 \<leftarrow> put (tt d) 0 (u16 (int (start_bk_seq_pos d)));
       t1 \<leftarrow> put t0 1 (u16 (end_bk_seq_pos d));
       let i0 = start_bk_seq_pos d + of_bool (is_start_pos d);
       let rounds = nat (end_bk_seq_pos d - of_bool (is_end_pos d) + 1 - int i0);
       t5 \<leftarrow> (if rounds = 0 then Some t1 else put t1 5 1);
       (pos, _) \<leftarrow> loop_up (first_stage_step c nd key) i0 rounds (first_stage_key_position d, MAX_HIGH_MISS c);
       Some (u16 (int pos), t5, tt_len d)
     }"

definition SearchFirstStage ::
  "config \<Rightarrow> node \<Rightarrow> byte list \<Rightarrow> nat \<Rightarrow> nat list \<Rightarrow> nat \<Rightarrow> (nat \<times> nat list \<times> nat) option" where
  "SearchFirstStage c nd key key_len tree_traverse tree_traverse_len =
     (let d = \<lparr> tt = tree_traverse, tt_len = tree_traverse_len, tree_pos_p1 = 1, first_stage_key_position = 0,
                start_bk_seq_pos = 0, end_bk_seq_pos = int (valid_len nd) - 2,
                is_start_pos = False, is_end_pos = False, is_last_large = False \<rparr>
      in if TREE_LEVELS c > 0 then
           do {
             t0 \<leftarrow> put tree_traverse 0 0;
             t1 \<leftarrow> put t0 1 (u16 (end_bk_seq_pos d));
             t2 \<leftarrow> put t1 2 0;
             t3 \<leftarrow> put t2 3 0;
             t4 \<leftarrow> put t3 4 0;
             t5 \<leftarrow> put t4 5 0;
             root \<leftarrow> get (blindiTree nd) 0;
             (if valid_len nd = 1 \<or> root = END_TREE c then Some (0, t5, 0)
              else do {
                r \<leftarrow> first_stage_tree c nd key key_len (TREE_LEVELS c) (d \<lparr> tt := t5, tt_len := 0 \<rparr>);
                (case r of Inl res \<Rightarrow> Some res | Inr d' \<Rightarrow> first_stage_seq c nd key d')
              })
           }
         else first_stage_seq c nd key d)"

text \<open>The scans of the second stage: the first blindi key below \<open>diff_pos\<close>, if any.\<close>

fun scan_up :: "nat list \<Rightarrow> nat \<Rightarrow> nat \<Rightarrow> nat \<Rightarrow> nat option option" where
  "scan_up bks diff_pos i 0 = Some None"
| "scan_up bks diff_pos i (Suc n) =
     do { b \<leftarrow> get bks i; if b < diff_pos then Some (Some i) else scan_up bks diff_pos (Suc i) n }"

fun scan_down :: "nat list \<Rightarrow> nat \<Rightarrow> nat \<Rightarrow> nat \<Rightarrow> nat option option" where
  "scan_down bks diff_pos lo 0 = Some None"
| "scan_down bks diff_pos lo (Suc i) =
     (if lo \<le> i then
        do { b \<leftarrow> get bks i; if b < diff_pos then Some (Some i) else scan_down bks diff_pos lo i }
      else Some None)"

text \<open>The result is the position and the value written to \<^verbatim>\<open>smaller_than_node\<close> (its old value if none).\<close>

definition SearchSecondStageSeq ::
  "node \<Rightarrow> nat \<Rightarrow> nat \<Rightarrow> bool \<Rightarrow> bool \<Rightarrow> nat list \<Rightarrow> (nat \<times> bool) option" where
  "SearchSecondStageSeq nd first_stage_pos diff_pos large_small smaller tree_traverse =
     (if large_small then
        do {
          hi \<leftarrow> get tree_traverse 1;
          r \<leftarrow> scan_up (blindiKeys nd) diff_pos first_stage_pos (hi + 1 - first_stage_pos);
          Some (case r of Some i \<Rightarrow> (i, smaller) | None \<Rightarrow> (hi + 1, smaller))
        }
      else if first_stage_pos = 0 then Some (0, True)
      else do {
        lo \<leftarrow> get tree_traverse 0;
        r \<leftarrow> scan_down (blindiKeys nd) diff_pos lo first_stage_pos;
        Some (case r of Some i \<Rightarrow> (i, smaller) | None \<Rightarrow> (lo, True))
      })"

definition parent_pos :: "nat \<Rightarrow> nat" where
  "parent_pos tp = (let temp = (tp + 1) div 2 in if temp > 0 then temp - 1 else 0)"

fun bring_largest_loop :: "node \<Rightarrow> nat \<Rightarrow> nat \<Rightarrow> nat \<Rightarrow> nat option" where
  "bring_largest_loop nd tp bt 0 = Some (u16 (int (valid_len nd) - 1))"
| "bring_largest_loop nd tp bt (Suc n) =
     (if even (bt + 1) then get (blindiTree nd) tp
      else bring_largest_loop nd (parent_pos tp) tp n)"

definition bring_largest_in_subtree :: "node \<Rightarrow> nat list \<Rightarrow> nat \<Rightarrow> nat option" where
  "bring_largest_in_subtree nd tree_traverse tree_traverse_len =
     do { tp \<leftarrow> get tree_traverse 3; bt \<leftarrow> get tree_traverse 2;
          bring_largest_loop nd tp bt (tree_traverse_len - 1) }"

fun bring_smallest_loop :: "node \<Rightarrow> nat \<Rightarrow> nat \<Rightarrow> bool \<Rightarrow> nat \<Rightarrow> (nat \<times> bool) option" where
  "bring_smallest_loop nd tp bt smaller 0 = Some (0, True)"
| "bring_smallest_loop nd tp bt smaller (Suc n) =
     (if odd (bt + 1) then do { t \<leftarrow> get (blindiTree nd) tp; Some (t, smaller) }
      else bring_smallest_loop nd (parent_pos tp) tp smaller n)"

definition bring_smallest_in_subtree :: "node \<Rightarrow> nat list \<Rightarrow> nat \<Rightarrow> bool \<Rightarrow> (nat \<times> bool) option" where
  "bring_smallest_in_subtree nd tree_traverse tree_traverse_len smaller =
     do { tp \<leftarrow> get tree_traverse 3; bt \<leftarrow> get tree_traverse 2;
          bring_smallest_loop nd tp bt smaller (tree_traverse_len - 1) }"

fun second_stage_tree_loop ::
  "node \<Rightarrow> nat \<Rightarrow> bool \<Rightarrow> bool \<Rightarrow> nat list \<Rightarrow> nat \<Rightarrow> nat \<Rightarrow> (nat \<times> bool \<times> nat list \<times> nat) option" where
  "second_stage_tree_loop nd diff_pos large_small smaller tree_traverse len 0 =
     Some (0, smaller, tree_traverse, len)"
| "second_stage_tree_loop nd diff_pos large_small smaller tree_traverse len (Suc n) =
     do {
       t3 \<leftarrow> get tree_traverse 3;
       t2 \<leftarrow> get tree_traverse 2;
       t \<leftarrow> get (blindiTree nd) t3;
       blindiKey \<leftarrow> get (blindiKeys nd) t;
       (if blindiKey \<le> diff_pos then
          (if odd (t2 + 1) then
             (if large_small then
                do { p \<leftarrow> bring_largest_in_subtree nd tree_traverse len; Some (p, smaller, tree_traverse, len) }
              else Some (t, smaller, tree_traverse, len))
           else
             (if large_small then Some (t, smaller, tree_traverse, len)
              else do {
                (p, sm) \<leftarrow> bring_smallest_in_subtree nd tree_traverse len smaller;
                Some (p, sm, tree_traverse, len)
              }))
        else do {
          tr2 \<leftarrow> put tree_traverse 2 t3;
          tr3 \<leftarrow> put tr2 3 (parent_pos t3);
          second_stage_tree_loop nd diff_pos large_small smaller tr3 (len - 1) n
        })
     }"

definition SearchSecondStageTree ::
  "node \<Rightarrow> nat \<Rightarrow> bool \<Rightarrow> bool \<Rightarrow> nat list \<Rightarrow> nat \<Rightarrow> (nat \<times> bool \<times> nat list \<times> nat) option" where
  "SearchSecondStageTree nd diff_pos large_small smaller tree_traverse len =
     second_stage_tree_loop nd diff_pos large_small smaller tree_traverse len len"

text \<open>
  \<^verbatim>\<open>SearchBlindiNode\<close> fills in a record of the caller's out-parameters. As in the code \<^verbatim>\<open>large_small\<close> is
  \<^verbatim>\<open>false\<close> when the keys are equal.
\<close>

record search_result =
  sr_position :: nat
  sr_hit :: bool
  sr_smaller_than_node :: bool
  sr_diff_pos :: nat
  sr_large_small :: bool
  sr_tree_traverse :: "nat list"
  sr_tree_traverse_len :: nat

definition SearchBlindiNode ::
  "config \<Rightarrow> db \<Rightarrow> node \<Rightarrow> byte list \<Rightarrow> nat \<Rightarrow> search_type \<Rightarrow> nat list \<Rightarrow> nat \<Rightarrow> search_result option" where
  "SearchBlindiNode c db nd search_key key_len search_type tree_traverse tree_traverse_len =
     do {
       (first_stage_pos, tr, len) \<leftarrow> SearchFirstStage c nd search_key key_len tree_traverse tree_traverse_len;
       db_key \<leftarrow> get_key_ptr nd first_stage_pos;
       (diff_pos, hit, large_small) \<leftarrow> CompareStage search_key (db db_key) False (KEY_LEN c) (KEY_LEN c);
       let res = (\<lambda>(p, smaller, tr, len).
         \<lparr> sr_position = p, sr_hit = hit, sr_smaller_than_node = smaller, sr_diff_pos = diff_pos,
           sr_large_small = large_small, sr_tree_traverse = tr, sr_tree_traverse_len = len \<rparr>);
       (if search_type = POINT_SEARCH \<or> hit then Some (res (first_stage_pos, False, tr, len))
        else if TREE_LEVELS c > 0 then
          do {
            t2 \<leftarrow> get tr 2;
            t \<leftarrow> get_blindiTree nd t2;
            in_tree \<leftarrow> (if t = END_TREE c then Some True
                        else do { b \<leftarrow> get_blindiKey nd t; Some (diff_pos < b) });
            (if in_tree then
               do {
                 tr4 \<leftarrow> put tr 4 1;
                 root \<leftarrow> get_blindiTree nd 0;
                 at_head \<leftarrow> (if root = END_TREE c then Some True
                             else do { b \<leftarrow> get_blindiKey nd root; Some (diff_pos < b) });
                 (if at_head then
                    do {
                      tr2 \<leftarrow> put tr4 2 0;
                      Some (if large_small then res (valid_len nd - 1, False, tr2, 1)
                            else res (0, True, tr2, 1))
                    }
                  else map_option res (SearchSecondStageTree nd diff_pos large_small False tr4 len))
               }
             else do {
               (p, smaller) \<leftarrow> SearchSecondStageSeq nd first_stage_pos diff_pos large_small False tr;
               Some (res (p, smaller, tr, len))
             })
          }
        else do {
          (p, smaller) \<leftarrow> SearchSecondStageSeq nd first_stage_pos diff_pos large_small False tr;
          Some (res (p, smaller, tr, len))
        })
     }"

section \<open>Insertion\<close>

text \<open>\<^verbatim>\<open>std::copy\<close> of the first \<open>n\<close> pointers into fresh memory of \<open>m\<close> cells.\<close>

definition realloc_keys :: "ptr list \<Rightarrow> nat \<Rightarrow> nat \<Rightarrow> ptr list option" where
  "realloc_keys kp n m = (if n \<le> length kp \<and> n \<le> m then Some (take n kp @ replicate (m - n) 0) else None)"

definition breathe :: "config \<Rightarrow> node \<Rightarrow> node option" where
  "breathe c nd =
     (if isneedbreath nd then
        (let cms = (if currentmaxslot nd + BREATHING_BLINDI_SIZE > NUM_SLOTS c then NUM_SLOTS c
                    else currentmaxslot nd + BREATHING_BLINDI_SIZE)
         in do { kp \<leftarrow> realloc_keys (key_ptr nd) (valid_len nd) cms;
                 Some (nd \<lparr> currentmaxslot := cms, key_ptr := kp \<rparr>) })
      else Some nd)"

text \<open>Move the cells \<open>lo, \<dots>, lo + n - 1\<close> of an array up by one, from the right end.\<close>

definition shift_up :: "'a list \<Rightarrow> nat \<Rightarrow> nat \<Rightarrow> 'a list option" where
  "shift_up xs lo n = loop_down (\<lambda>i xs. do { x \<leftarrow> get xs i; put xs (i + 1) x }) lo n xs"

definition insert_seq ::
  "config \<Rightarrow> node \<Rightarrow> ptr \<Rightarrow> nat \<Rightarrow> nat \<Rightarrow> bool \<Rightarrow> bool \<Rightarrow> (node \<times> nat) option" where
  "insert_seq c nd insert_key insert_position diff_pos large_small smaller =
     (let len = valid_len nd; at = insert_position + 1 - of_bool smaller
      in do {
        (bk, kp, bkpos) \<leftarrow>
          (if smaller \<or> (insert_position \<noteq> len - 1 \<and> len \<noteq> 0) then
             do {
               temp_key \<leftarrow> (if len = 0 then None else get (key_ptr nd) (len - 1));
               bk \<leftarrow> shift_up (blindiKeys nd) (insert_position + 1) (len - 2 - insert_position);
               kp \<leftarrow> shift_up (key_ptr nd) (insert_position + 1) (len - 2 - insert_position);
               kp \<leftarrow> put kp len temp_key;
               kp \<leftarrow> (if smaller then do { k \<leftarrow> get kp 0; put kp 1 k } else Some kp);
               bk \<leftarrow> (if smaller \<and> len > 1 then do { b \<leftarrow> get bk 0; put bk 1 b } else Some bk);
               (if large_small then
                  do { b \<leftarrow> get bk insert_position; bk \<leftarrow> put bk at b; Some (bk, kp, insert_position) }
                else
                  do { bk \<leftarrow> put bk at diff_pos;
                       Some (bk, kp, if TREE_LEVELS c > 0 then at else insert_position) })
             }
           else Some (blindiKeys nd, key_ptr nd, insert_position));
        bk \<leftarrow> (if \<not> smaller \<and> len \<noteq> 0 \<and> large_small then put bk insert_position diff_pos else Some bk);
        kp \<leftarrow> put kp at insert_key;
        Some (nd \<lparr> blindiKeys := bk, key_ptr := kp, valid_len := (len + 1) mod idx_mod c \<rparr>, bkpos)
      })"

text \<open>
  The tree positions to the right of the insertion move by one, level by level from the right. A
  level stops at the first position left of the insertion; \<open>tree_shift_level\<close> treats the cells
  \<open>lo, \<dots>, lo + n - 1\<close>.
\<close>

fun tree_shift_level ::
  "config \<Rightarrow> nat list \<Rightarrow> nat \<Rightarrow> nat \<Rightarrow> nat \<Rightarrow> nat \<Rightarrow> nat list \<Rightarrow> nat list option" where
  "tree_shift_level c bks insert_position diff_pos lo 0 tree = Some tree"
| "tree_shift_level c bks insert_position diff_pos lo (Suc n) tree =
     do {
       t \<leftarrow> get tree (lo + n);
       same \<leftarrow> (if t = insert_position then do { b \<leftarrow> get bks t; Some (diff_pos = b) } else Some False);
       (if (t \<noteq> END_TREE c \<and> t > insert_position) \<or> same then
          do { tree' \<leftarrow> put tree (lo + n) (to_idx c (int t + 1));
               tree_shift_level c bks insert_position diff_pos lo n tree' }
        else if t < insert_position then Some tree
        else tree_shift_level c bks insert_position diff_pos lo n tree)
     }"

definition tree_shift :: "config \<Rightarrow> nat list \<Rightarrow> nat \<Rightarrow> nat \<Rightarrow> nat list \<Rightarrow> nat list option" where
  "tree_shift c bks insert_position diff_pos tree =
     loop_up (\<lambda>l. tree_shift_level c bks insert_position diff_pos (2 ^ (l - 1) - 1) (2 ^ (l - 1)))
       1 (TREE_LEVELS c) tree"

text \<open>Copy \<open>n\<close> cells of one array into another, from index \<open>i\<close> to index \<open>j\<close>.\<close>

definition copy_cells :: "'a list \<Rightarrow> nat \<Rightarrow> 'a list \<Rightarrow> nat \<Rightarrow> nat \<Rightarrow> 'a list option" where
  "copy_cells src i dst j n = loop_up (\<lambda>k dst. do { x \<leftarrow> get src (i + k); put dst (j + k) x }) 0 n dst"

text \<open>
  The rest of the insertion into the tree: the cell \<^verbatim>\<open>tree_traverse[2]\<close> takes the new position and the
  subtree that was there moves one level down, to the side of the new position it belongs to. The
  loop over the levels below (\<open>push_levels\<close>, state: tree, \<open>temp\<close>, the three positions) is entered only
  for \<^verbatim>\<open>TREE_LEVELS > 2\<close>.
\<close>

definition push_level ::
  "config \<Rightarrow> nat \<Rightarrow> nat \<Rightarrow> nat list \<times> nat list \<times> nat \<times> nat \<times> nat \<Rightarrow> (nat list \<times> nat list \<times> nat \<times> nat \<times> nat) option" where
  "push_level c l0 l = (\<lambda>(tree, temp, cur_pos, save_pos, end_tree_pos).
     (let i = l - l0 + 2;
          cur_pos = (cur_pos + 1) * 2 - 1;
          save_pos = (save_pos + 1) * 2 - 1;
          end_tree_pos = (end_tree_pos + 1) * 2 - 1
      in do {
        temp \<leftarrow> (if l < TREE_LEVELS c then copy_cells tree save_pos temp (2 ^ i - 1) (2 ^ i) else Some temp);
        tree \<leftarrow> loop_up (\<lambda>j tree. do {
                  x \<leftarrow> get temp (j + 2 ^ (i - 1) - 1);
                  tree \<leftarrow> put tree (cur_pos + j) x;
                  put tree (end_tree_pos + j) (END_TREE c) }) 0 (2 ^ (i - 1)) tree;
        Some (tree, temp, cur_pos, save_pos, end_tree_pos)
      }))"

definition tree_push :: "config \<Rightarrow> nat list \<Rightarrow> nat \<Rightarrow> nat list \<Rightarrow> nat \<Rightarrow> nat list option" where
  "tree_push c tree insert_blindikey_position tree_traverse tree_traverse_len =
     do {
       t2 \<leftarrow> get tree_traverse 2;
       old \<leftarrow> get tree t2;
       tree \<leftarrow> put tree t2 (to_idx c (int insert_blindikey_position));
       (if TREE_LEVELS c > 1 \<and> tree_traverse_len + 1 \<le> TREE_LEVELS c then
          do {
            let cur_pos = (t2 + 1) * 2 - 1;
            temp \<leftarrow> put (replicate (TREE_SIZE c) 0) 0 old;
            temp \<leftarrow> (if tree_traverse_len + 2 \<le> TREE_LEVELS c then
                      do { a \<leftarrow> get tree cur_pos; temp \<leftarrow> put temp 1 a;
                           b \<leftarrow> get tree (cur_pos + 1); put temp 2 b }
                    else Some temp);
            let small = (old < insert_blindikey_position);
            tree \<leftarrow> put tree cur_pos (if small then old else END_TREE c);
            tree \<leftarrow> put tree (cur_pos + 1) (if small then END_TREE c else old);
            (tree, _) \<leftarrow> loop_up (push_level c (tree_traverse_len + 2)) (tree_traverse_len + 2)
              (TREE_LEVELS c + 1 - (tree_traverse_len + 2))
              (tree, temp, if small then cur_pos else cur_pos + 1, cur_pos, if small then cur_pos + 1 else cur_pos);
            Some tree
          }
        else Some tree)
     }"

definition Insert2BlindiNodeInPosition ::
  "config \<Rightarrow> node \<Rightarrow> ptr \<Rightarrow> nat \<Rightarrow> nat \<Rightarrow> bool \<Rightarrow> bool \<Rightarrow> nat list \<Rightarrow> nat \<Rightarrow> node option" where
  "Insert2BlindiNodeInPosition c nd insert_key insert_position diff_pos large_small smaller
     tree_traverse tree_traverse_len =
     do {
       nd \<leftarrow> breathe c nd;
       (nd, bkpos) \<leftarrow> insert_seq c nd insert_key insert_position diff_pos large_small smaller;
       (if TREE_LEVELS c > 0 then
          do {
            tree \<leftarrow> tree_shift c (blindiKeys nd) insert_position diff_pos (blindiTree nd);
            t4 \<leftarrow> get tree_traverse 4;
            tree \<leftarrow> (if t4 = 1 then tree_push c tree bkpos tree_traverse tree_traverse_len else Some tree);
            Some (nd \<lparr> blindiTree := tree \<rparr>)
          }
        else Some nd)
     }"

text \<open>
  The operations of the generic node. The blindi key stored for a duplicate is the \<^verbatim>\<open>int\<close> variable
  \<^verbatim>\<open>diff_pos\<close>, set to \<^verbatim>\<open>DUPLICATE\<close>.
\<close>

definition Insert2BlindiNodeWithKey ::
  "config \<Rightarrow> db \<Rightarrow> node \<Rightarrow> ptr \<Rightarrow> (insert_result \<times> node) option" where
  "Insert2BlindiNodeWithKey c db nd insert_key =
     (if valid_len nd = NUM_SLOTS c then Some (INSERT_OVERFLOW, nd)
      else if valid_len nd \<noteq> 0 then
        do {
          r \<leftarrow> SearchBlindiNode c db nd (db insert_key) (KEY_LEN c) PREDECESSOR_SEARCH
                (replicate (NUM_SLOTS c) 0) 0;
          nd' \<leftarrow> Insert2BlindiNodeInPosition c nd insert_key (sr_position r)
                  (if sr_hit r then DUPLICATE c else sr_diff_pos r) (sr_hit r \<or> sr_large_small r)
                  (sr_smaller_than_node r) (sr_tree_traverse r) (sr_tree_traverse_len r);
          Some (if sr_hit r then INSERT_DUPLICATED_KEY else INSERT_SUCCESS, nd')
        }
      else do { nd' \<leftarrow> first_insert c nd insert_key; Some (INSERT_SUCCESS, nd') })"

definition Upsert2BlindiNodeWithKey ::
  "config \<Rightarrow> db \<Rightarrow> node \<Rightarrow> ptr \<Rightarrow> (insert_result \<times> node) option" where
  "Upsert2BlindiNodeWithKey c db nd insert_key =
     (if valid_len nd = 0 then do { nd' \<leftarrow> first_insert c nd insert_key; Some (INSERT_SUCCESS, nd') }
      else do {
        r \<leftarrow> SearchBlindiNode c db nd (db insert_key) (KEY_LEN c) PREDECESSOR_SEARCH
              (replicate (NUM_SLOTS c) 0) 0;
        (if valid_len nd = NUM_SLOTS c \<and> \<not> sr_hit r then Some (INSERT_OVERFLOW, nd)
         else do {
           nd' \<leftarrow> Insert2BlindiNodeInPosition c nd insert_key (sr_position r) (sr_diff_pos r)
                   (sr_large_small r) (sr_smaller_than_node r) (sr_tree_traverse r) (sr_tree_traverse_len r);
           Some (if sr_hit r then INSERT_DUPLICATED_KEY else INSERT_SUCCESS, nd')
         })
      })"

section \<open>Building the tree from the blindi keys\<close>

text \<open>
  Positions 3 and up have no case (their cases are disabled by the preprocessor), so the bounds are
  not initialised there.
\<close>

definition bring_edges_seq_from_pos :: "nat list \<Rightarrow> nat \<Rightarrow> nat \<Rightarrow> (nat \<times> int) option" where
  "bring_edges_seq_from_pos tree len pos =
     (if pos = 0 then Some (0, int len - 2)
      else if pos = 1 then do { t \<leftarrow> get tree 0; Some (0, int t - 1) }
      else if pos = 2 then do { t \<leftarrow> get tree 0; Some (t + 1, int len - 2) }
      else None)"

definition min_pos_value_in_range :: "config \<Rightarrow> nat list \<Rightarrow> nat \<Rightarrow> int \<Rightarrow> nat option" where
  "min_pos_value_in_range c bks start_pos end_pos =
     do {
       (min_pos, _) \<leftarrow> loop_up (\<lambda>i (min_pos, min_value). do {
           b \<leftarrow> get bks i;
           Some (if b < min_value then (i, b) else (min_pos, min_value)) })
         start_pos (nat (end_pos + 1 - int start_pos)) (END_TREE c, END_TREE c);
       Some min_pos
     }"

definition update_blindiTree_from_seq ::
  "config \<Rightarrow> nat list \<Rightarrow> nat \<Rightarrow> nat \<Rightarrow> nat list \<Rightarrow> nat list option" where
  "update_blindiTree_from_seq c bks len pos tree =
     do {
       (start_pos, end_pos) \<leftarrow> bring_edges_seq_from_pos tree len pos;
       m \<leftarrow> min_pos_value_in_range c bks start_pos end_pos;
       put tree pos (to_idx c (int m))
     }"

text \<open>
  \<^verbatim>\<open>transfer_btree2blindi\<close> builds a node from the arrays of an ordinary leaf. The two nested loops over
  the levels \<open>2 \<dots> TREE_LEVELS\<close> visit the cells \<open>1, \<dots>, TREE_SIZE - 1\<close> in order.
\<close>

definition transfer_btree2blindi ::
  "config \<Rightarrow> node \<Rightarrow> nat \<Rightarrow> byte list list \<Rightarrow> ptr list \<Rightarrow> node option" where
  "transfer_btree2blindi c nd len keys keys_ptr =
     (let cms = (if len + BREATHING_BLINDI_SIZE > NUM_SLOTS c then NUM_SLOTS c else len + BREATHING_BLINDI_SIZE)
      in do {
        tree \<leftarrow> (if TREE_LEVELS c > 0 then put (blindiTree nd) 0 0 else Some (blindiTree nd));
        (bks, kp, tree) \<leftarrow> loop_up (\<lambda>i (bks, kp, tree). do {
            k0 \<leftarrow> get keys i;
            k1 \<leftarrow> get keys (i + 1);
            (d, _, _) \<leftarrow> CompareStage k0 k1 False (KEY_LEN c) (KEY_LEN c);
            bks \<leftarrow> put bks i d;
            tree \<leftarrow> (if TREE_LEVELS c > 0 then
                do { t \<leftarrow> get tree 0; b \<leftarrow> get bks t; put tree 0 (if d < b then to_idx c (int i) else t) }
              else Some tree);
            p \<leftarrow> get keys_ptr i;
            kp \<leftarrow> put kp i p;
            Some (bks, kp, tree) }) 0 (len - 1) (blindiKeys nd, replicate cms 0, tree);
        p \<leftarrow> (if len = 0 then None else get keys_ptr (len - 1));
        kp \<leftarrow> put kp (len - 1) p;
        tree \<leftarrow> (if TREE_LEVELS c > 1 then
            loop_up (\<lambda>i tree. do {
              t \<leftarrow> get tree (parent_pos i);
              (if t \<noteq> END_TREE c then update_blindiTree_from_seq c bks len i tree
               else put tree i (END_TREE c)) }) 1 (TREE_SIZE c - 1) tree
          else Some tree);
        Some (nd \<lparr> valid_len := len mod idx_mod c, currentmaxslot := cms, key_ptr := kp, blindiKeys := bks, blindiTree := tree \<rparr>)
      })"

section \<open>Splitting\<close>

text \<open>The state of a target: its tree and, for each of its cells, the position in the original node.\<close>

fun place_in_tree ::
  "config \<Rightarrow> nat \<Rightarrow> nat \<Rightarrow> nat \<Rightarrow> nat \<Rightarrow> nat list \<times> nat list \<Rightarrow> (nat list \<times> nat list) option" where
  "place_in_tree c v half cur_pos 0 (tree, orig) = Some (tree, orig)"
| "place_in_tree c v half cur_pos (Suc n) (tree, orig) =
     do {
       t \<leftarrow> get tree cur_pos;
       (if t = END_TREE c then
          do { tree \<leftarrow> put tree cur_pos (to_idx c (int v - int half)); orig \<leftarrow> put orig cur_pos v; Some (tree, orig) }
        else do {
          ov \<leftarrow> get orig cur_pos;
          place_in_tree c v half (if v < ov then (cur_pos + 1) * 2 - 1 else (cur_pos + 1) * 2) n (tree, orig)
        })
     }"

definition update_blindiTree_from_tree ::
  "config \<Rightarrow> nat list \<Rightarrow> nat \<Rightarrow> nat \<Rightarrow> nat list \<times> nat list \<Rightarrow> (nat list \<times> nat list) option" where
  "update_blindiTree_from_tree c src pos half = (\<lambda>(tree, orig).
     do {
       v \<leftarrow> get src pos;
       t \<leftarrow> get tree 0;
       (if t = END_TREE c then
          do { tree \<leftarrow> put tree 0 (to_idx c (int v - int half)); orig \<leftarrow> put orig 0 v; Some (tree, orig) }
        else do {
          ov \<leftarrow> get orig 0;
          place_in_tree c v half (if v < ov then 1 else 2) (TREE_LEVELS c - 1) (tree, orig)
        })
     })"

definition split_tree_cell ::
  "config \<Rightarrow> nat list \<Rightarrow> nat \<Rightarrow> nat \<Rightarrow> (nat list \<times> nat list) \<times> (nat list \<times> nat list)
   \<Rightarrow> ((nat list \<times> nat list) \<times> (nat list \<times> nat list)) option" where
  "split_tree_cell c src half i = (\<lambda>(sm, lg).
     do {
       t \<leftarrow> get src i;
       (if t + 2 \<le> half then
          do { sm \<leftarrow> update_blindiTree_from_tree c src i 0 sm; Some (sm, lg) }
        else if t \<ge> half \<and> t \<noteq> END_TREE c then
          do { lg \<leftarrow> update_blindiTree_from_tree c src i half lg; Some (sm, lg) }
        else Some (sm, lg))
     })"

definition fill_from_seq :: "config \<Rightarrow> nat list \<Rightarrow> nat \<Rightarrow> nat \<Rightarrow> nat list \<Rightarrow> nat list option" where
  "fill_from_seq c bks len i tree =
     do {
       t \<leftarrow> get tree i;
       q \<leftarrow> (if i = 0 then Some 0 else get tree (parent_pos i));
       (if t = END_TREE c \<and> (i = 0 \<or> q \<noteq> END_TREE c) then update_blindiTree_from_seq c bks len i tree
        else Some tree)
     }"

definition split_tree ::
  "config \<Rightarrow> nat list \<Rightarrow> nat \<Rightarrow> nat list \<Rightarrow> nat list \<Rightarrow> (nat list \<times> nat list) option" where
  "split_tree c src half bks_small bks_large =
     (let fresh = (replicate (TREE_SIZE c) (END_TREE c), replicate (TREE_SIZE c) 0)
      in do {
        st \<leftarrow> split_tree_cell c src half 0 (fresh, fresh);
        ((tree_s, _), (tree_l, _)) \<leftarrow> loop_up (\<lambda>i st. do {
            q \<leftarrow> get src (parent_pos i);
            (if q \<noteq> END_TREE c then split_tree_cell c src half i st else Some st) }) 1 (TREE_SIZE c - 1) st;
        loop_up (\<lambda>i (tree_s, tree_l). do {
            tree_s \<leftarrow> fill_from_seq c bks_small half i tree_s;
            tree_l \<leftarrow> fill_from_seq c bks_large half i tree_l;
            Some (tree_s, tree_l) }) 0 (TREE_SIZE c) (tree_s, tree_l)
      })"

text \<open>
  The result are the two new nodes; the memory of the node itself is freed. The last pointer of the
  large node is read from the last slot, so the node is meant to be full.
\<close>

definition SplitBlindiNode :: "config \<Rightarrow> node \<Rightarrow> node \<Rightarrow> node \<Rightarrow> (node \<times> node) option" where
  "SplitBlindiNode c nd node_small node_large =
     (let cms = (if NUM_SLOTS c div 2 + BREATHING_BLINDI_SIZE > NUM_SLOTS c then NUM_SLOTS c
                 else NUM_SLOTS c div 2 + BREATHING_BLINDI_SIZE);
          half = valid_len nd div 2
      in if half = 0 then None else do {
        kp_s \<leftarrow> copy_cells (key_ptr nd) 0 (replicate cms 0) 0 (half - 1);
        kp_l \<leftarrow> copy_cells (key_ptr nd) half (replicate cms 0) 0 (half - 1);
        bk_s \<leftarrow> copy_cells (blindiKeys nd) 0 (blindiKeys node_small) 0 (half - 1);
        bk_l \<leftarrow> copy_cells (blindiKeys nd) half (blindiKeys node_large) 0 (half - 1);
        p \<leftarrow> get (key_ptr nd) (half - 1);
        kp_s \<leftarrow> put kp_s (half - 1) p;
        q \<leftarrow> get (key_ptr nd) (NUM_SLOTS c - 1);
        kp_l \<leftarrow> put kp_l (half - 1) q;
        (tree_s, tree_l) \<leftarrow> (if TREE_LEVELS c > 0 then split_tree c (blindiTree nd) half bk_s bk_l
                             else Some (blindiTree node_small, blindiTree node_large));
        Some (\<lparr> valid_len = half, blindiTree = tree_s, currentmaxslot = cms, key_ptr = kp_s, blindiKeys = bk_s \<rparr>,
              \<lparr> valid_len = half, blindiTree = tree_l, currentmaxslot = cms, key_ptr = kp_l, blindiKeys = bk_l \<rparr>)
      })"

section \<open>Removal\<close>

text \<open>
  The tree after a removal. \<open>len\<close> is the length after it, \<open>bks\<close> the blindi keys after it. \<open>rng\<close> is
  \<^verbatim>\<open>range_min_value_array\<close>: the cells that must be computed afresh. The root is treated first.
\<close>

definition remove_tree_root ::
  "config \<Rightarrow> nat list \<Rightarrow> nat \<Rightarrow> nat \<Rightarrow> bool \<Rightarrow> bool \<Rightarrow> nat list \<Rightarrow> (nat list \<times> bool list) option" where
  "remove_tree_root c bks len remove_position is_first is_last tree =
     (let rng = replicate (TREE_SIZE c) False;
          fresh = do { m \<leftarrow> min_pos_value_in_range c bks 0 (int len - 2);
                       tree \<leftarrow> put tree 0 (to_idx c (int m)); Some (tree, rng) };
          mark = do { rng \<leftarrow> put rng 1 True; put rng 2 True }
      in do {
        t0 \<leftarrow> get tree 0;
        (if is_first \<and> t0 = 0 then
           (if 1 < TREE_LEVELS c then
              do { t2 \<leftarrow> get tree 2; tree \<leftarrow> put tree 0 (to_idx c (int t2 - 1)); rng \<leftarrow> mark; Some (tree, rng) }
            else fresh)
         else if is_last \<and> int t0 = int len - 1 then
           (if 1 < TREE_LEVELS c then
              do { t1 \<leftarrow> get tree 1; tree \<leftarrow> put tree 0 t1; rng \<leftarrow> mark; Some (tree, rng) }
            else fresh)
         else if t0 \<ge> remove_position then
           do { tree \<leftarrow> put tree 0 (to_idx c (int t0 - 1)); Some (tree, rng) }
         else Some (tree, rng))
      })"

definition remove_tree_fresh ::
  "config \<Rightarrow> nat list \<Rightarrow> nat \<Rightarrow> nat \<Rightarrow> nat \<Rightarrow> nat list \<times> bool list \<Rightarrow> (nat list \<times> bool list) option" where
  "remove_tree_fresh c bks len l pos = (\<lambda>(tree, rng).
     do {
       tree \<leftarrow> update_blindiTree_from_seq c bks len pos tree;
       (if l < TREE_LEVELS c then
          do { rng \<leftarrow> put rng ((pos + 1) * 2 - 1) True; rng \<leftarrow> put rng ((pos + 1) * 2) True; Some (tree, rng) }
        else Some (tree, rng))
     })"

definition remove_tree_cell ::
  "config \<Rightarrow> nat list \<Rightarrow> nat \<Rightarrow> nat \<Rightarrow> bool \<Rightarrow> bool \<Rightarrow> nat \<Rightarrow> nat \<Rightarrow> nat list \<times> bool list
   \<Rightarrow> (nat list \<times> bool list) option" where
  "remove_tree_cell c bks len remove_position is_first is_last l pos = (\<lambda>(tree, rng).
     do {
       par \<leftarrow> get tree (parent_pos pos);
       t \<leftarrow> get tree pos;
       r \<leftarrow> get rng pos;
       (if par = END_TREE c \<or> (par = 0 \<and> odd pos) \<or> (int par = int len - 2 \<and> even pos) then
          do { tree \<leftarrow> put tree pos (END_TREE c); Some (tree, rng) }
        else if r then remove_tree_fresh c bks len l pos (tree, rng)
        else if t = END_TREE c then Some (tree, rng)
        else if (is_first \<and> t = 0) \<or> (is_last \<and> int t = int len - 1) then remove_tree_fresh c bks len l pos (tree, rng)
        else if t = par \<or> int t = int remove_position - 1 then remove_tree_fresh c bks len l pos (tree, rng)
        else do {
          let t = (if t \<ge> remove_position then to_idx c (int t - 1) else t);
          tree \<leftarrow> put tree pos t;
          (if t = par then remove_tree_fresh c bks len l pos (tree, rng) else Some (tree, rng))
        })
     })"

definition remove_tree ::
  "config \<Rightarrow> nat list \<Rightarrow> nat \<Rightarrow> nat \<Rightarrow> bool \<Rightarrow> bool \<Rightarrow> nat list \<Rightarrow> nat list option" where
  "remove_tree c bks len remove_position is_first is_last tree =
     do {
       (tree, rng) \<leftarrow> remove_tree_root c bks len remove_position is_first is_last tree;
       (tree, _) \<leftarrow> loop_up (\<lambda>l. loop_down (remove_tree_cell c bks len remove_position is_first is_last l)
           (2 ^ (l - 1) - 1) (2 ^ (l - 1))) 2 (TREE_LEVELS c - 1) (tree, rng);
       Some tree
     }"

definition remove_seq :: "node \<Rightarrow> nat \<Rightarrow> node option" where
  "remove_seq nd remove_position =
     (let len = valid_len nd in
      do {
        bk \<leftarrow> (if remove_position \<noteq> 0 then
                 do { b \<leftarrow> get (blindiKeys nd) remove_position; a \<leftarrow> get (blindiKeys nd) (remove_position - 1);
                      put (blindiKeys nd) (remove_position - 1) (min b a) }
               else Some (blindiKeys nd));
        (kp, bk) \<leftarrow> loop_up (\<lambda>i (kp, bk). do {
            k \<leftarrow> get kp i; kp \<leftarrow> put kp (i - 1) k; b \<leftarrow> get bk i; bk \<leftarrow> put bk (i - 1) b; Some (kp, bk) })
          (remove_position + 1) (len - 2 - remove_position) (key_ptr nd, bk);
        k \<leftarrow> get kp (len - 1);
        kp \<leftarrow> put kp (len - 2) k;
        Some (nd \<lparr> key_ptr := kp, blindiKeys := bk, valid_len := len - 1 \<rparr>)
      })"

definition remove_last :: "node \<Rightarrow> nat \<Rightarrow> node option" where
  "remove_last nd remove_position =
     do {
       kp \<leftarrow> put (key_ptr nd) remove_position 0;
       bk \<leftarrow> put (blindiKeys nd) (remove_position - 1) 0;
       Some (nd \<lparr> key_ptr := kp, blindiKeys := bk, valid_len := valid_len nd - 1 \<rparr>)
     }"

definition RemoveFromBlindiNodeInPosition :: "config \<Rightarrow> node \<Rightarrow> nat \<Rightarrow> (remove_result \<times> node) option" where
  "RemoveFromBlindiNodeInPosition c nd remove_position =
     (let len = valid_len nd; at_end = (int remove_position = int len - 1 \<or> len \<le> 2) in
      if at_end \<and> \<not> (len > 2 \<or> (len = 2 \<and> remove_position = 1)) then
        (if len = 2 then
           do { bk \<leftarrow> put (blindiKeys nd) 0 0;
                k \<leftarrow> get (key_ptr nd) 1; kp \<leftarrow> put (key_ptr nd) 0 k; kp \<leftarrow> put kp 1 0;
                Some (REMOVE_SUCCESS, nd \<lparr> blindiKeys := bk, key_ptr := kp, valid_len := 1 \<rparr>) }
         else Some (REMOVE_NODE_EMPTY, nd \<lparr> valid_len := 0 \<rparr>))
      else do {
        nd \<leftarrow> (if at_end then remove_last nd remove_position else remove_seq nd remove_position);
        tree \<leftarrow> (if TREE_LEVELS c > 0 then
            remove_tree c (blindiKeys nd) (valid_len nd) remove_position (remove_position = 0) at_end (blindiTree nd)
          else Some (blindiTree nd));
        Some (REMOVE_SUCCESS, nd \<lparr> blindiTree := tree \<rparr>)
      })"

definition RemoveFromBlindiNodeWithKey ::
  "config \<Rightarrow> db \<Rightarrow> node \<Rightarrow> byte list \<Rightarrow> (remove_result \<times> node) option" where
  "RemoveFromBlindiNodeWithKey c db nd remove_key =
     do {
       r \<leftarrow> SearchBlindiNode c db nd remove_key (KEY_LEN c) POINT_SEARCH (replicate (NUM_SLOTS c) 0) 0;
       (if \<not> sr_hit r then Some (REMOVE_KEY_NOT_FOUND, nd)
        else do {
          (res, nd') \<leftarrow> RemoveFromBlindiNodeInPosition c nd (sr_position r);
          Some (if valid_len nd' < NUM_SLOTS c div 2 \<and> res = REMOVE_SUCCESS then REMOVE_UNDERFLOW else res, nd')
        })
     }"

section \<open>Merging and copying\<close>

definition push_down_blindiTree ::
  "config \<Rightarrow> nat list \<Rightarrow> nat \<Rightarrow> nat \<Rightarrow> nat \<Rightarrow> nat \<Rightarrow> nat list \<Rightarrow> nat list option" where
  "push_down_blindiTree c source source_pos dest_pos cur_level offset tree =
     do {
       (tree, _, _) \<leftarrow> loop_up (\<lambda>l (tree, dest_pos, source_pos). do {
           tree \<leftarrow> loop_up (\<lambda>i tree. do {
               s \<leftarrow> get source (source_pos + i);
               put tree (dest_pos + i) (if s = END_TREE c then END_TREE c else to_idx c (int (s + offset))) })
             0 (2 ^ (l - cur_level)) tree;
           Some (tree, (dest_pos + 1) * 2 - 1, (source_pos + 1) * 2 - 1) })
         cur_level (TREE_LEVELS c - cur_level) (tree, dest_pos, source_pos);
       Some tree
     }"

text \<open>
  One level of the merged tree, \<open>n\<close> levels left, at level \<open>l\<close>: the new blindi key between the nodes
  wins, or the small tree, or the large one. \<open>small\<close> is the saved tree of the small node.
\<close>

definition tree_value :: "config \<Rightarrow> nat list \<Rightarrow> nat list \<Rightarrow> nat \<Rightarrow> nat option option" where
  "tree_value c tree bks pos =
     do { t \<leftarrow> get tree pos;
          if t = END_TREE c then Some None else do { b \<leftarrow> get bks t; Some (Some b) } }"

fun merge_levels ::
  "config \<Rightarrow> nat list \<Rightarrow> nat list \<Rightarrow> nat list \<Rightarrow> nat list \<Rightarrow> nat \<Rightarrow> nat \<Rightarrow> nat \<Rightarrow> nat \<Rightarrow> nat \<Rightarrow> nat \<Rightarrow> nat
   \<Rightarrow> nat list \<Rightarrow> nat list option" where
  "merge_levels c small bks large bks_l diff_pos small_len next_pos sp lp l 0 tree = Some tree"
| "merge_levels c small bks large bks_l diff_pos small_len next_pos sp lp l (Suc n) tree =
     do {
       sv \<leftarrow> tree_value c small bks sp;
       lv \<leftarrow> tree_value c large bks_l lp;
       (if (case sv of None \<Rightarrow> True | Some b \<Rightarrow> diff_pos < b) \<and> (case lv of None \<Rightarrow> True | Some b \<Rightarrow> diff_pos < b) then
          do {
            tree \<leftarrow> put tree next_pos (to_idx c (int small_len - 1));
            (if int l < int (TREE_SIZE c) - 1 then
               do { tree \<leftarrow> push_down_blindiTree c small sp ((next_pos + 1) * 2 - 1) (l + 1) 0 tree;
                    push_down_blindiTree c large lp ((next_pos + 1) * 2) (l + 1) small_len tree }
             else Some tree)
          }
        else if (case sv of None \<Rightarrow> False | Some b \<Rightarrow> (case lv of None \<Rightarrow> True | Some b' \<Rightarrow> b < b')) then
          do {
            s \<leftarrow> get small sp;
            tree \<leftarrow> put tree next_pos s;
            (if l + 1 < TREE_LEVELS c then
               do { tree \<leftarrow> push_down_blindiTree c small ((sp + 1) * 2 - 1) ((next_pos + 1) * 2 - 1) (l + 1) 0 tree;
                    merge_levels c small bks large bks_l diff_pos small_len
                      ((next_pos + 1) * 2) ((sp + 1) * 2) lp (l + 1) n tree }
             else merge_levels c small bks large bks_l diff_pos small_len next_pos sp lp (l + 1) n tree)
          }
        else
          do {
            t \<leftarrow> get large lp;
            tree \<leftarrow> put tree next_pos (to_idx c (int (t + small_len)));
            (if int l < int (TREE_SIZE c) - 1 then
               do { tree \<leftarrow> push_down_blindiTree c large ((lp + 1) * 2) ((next_pos + 1) * 2) (l + 1) small_len tree;
                    merge_levels c small bks large bks_l diff_pos small_len
                      ((next_pos + 1) * 2 - 1) sp ((lp + 1) * 2 - 1) (l + 1) n tree }
             else merge_levels c small bks large bks_l diff_pos small_len next_pos sp lp (l + 1) n tree)
          })
     }"

text \<open>\<^verbatim>\<open>MergeBlindiNodes\<close> of the node: the keys of \<open>lg\<close> go behind those of \<open>nd\<close>.\<close>

definition MergeBlindiNodes_node :: "config \<Rightarrow> db \<Rightarrow> node \<Rightarrow> node \<Rightarrow> node option" where
  "MergeBlindiNodes_node c db nd lg =
     (let sl = valid_len nd; ll = valid_len lg in
      if sl = 0 \<or> ll = 0 then None else
      do {
        kp \<leftarrow> copy_cells (key_ptr lg) 0 (key_ptr nd) sl (ll - 1);
        bk \<leftarrow> copy_cells (blindiKeys lg) 0 (blindiKeys nd) sl (ll - 1);
        k \<leftarrow> get (key_ptr lg) (ll - 1);
        kp \<leftarrow> put kp (sl + ll - 1) k;
        last_small_key \<leftarrow> get kp (sl - 1);
        first_large_key \<leftarrow> get (key_ptr lg) 0;
        (d, hit, _) \<leftarrow> CompareStage (db last_small_key) (db first_large_key) False (KEY_LEN c) (KEY_LEN c);
        let diff_pos = (if hit then DUPLICATE c else d);
        bk \<leftarrow> put bk (sl - 1) diff_pos;
        tree \<leftarrow> (if TREE_LEVELS c > 0 then
            merge_levels c (blindiTree nd) bk (blindiTree lg) (blindiKeys lg) diff_pos sl 0 0 0 0 (TREE_LEVELS c)
              (blindiTree nd)
          else Some (blindiTree nd));
        Some (nd \<lparr> key_ptr := kp, blindiKeys := bk, valid_len := (sl + ll) mod idx_mod c, blindiTree := tree \<rparr>)
      })"

definition CopyNode :: "config \<Rightarrow> node \<Rightarrow> node \<Rightarrow> node option" where
  "CopyNode c nd lg =
     (let ll = valid_len lg in
      if ll = 0 then None else
      do {
        kp \<leftarrow> copy_cells (key_ptr lg) 0 (key_ptr nd) 0 (ll - 1);
        bk \<leftarrow> copy_cells (blindiKeys lg) 0 (blindiKeys nd) 0 (ll - 1);
        k \<leftarrow> get (key_ptr lg) (ll - 1);
        kp \<leftarrow> put kp (ll - 1) k;
        tree \<leftarrow> (if TREE_LEVELS c > 0 then copy_cells (blindiTree lg) 0 (blindiTree nd) 0 (TREE_SIZE c)
                 else Some (blindiTree nd));
        Some (nd \<lparr> key_ptr := kp, blindiKeys := bk, valid_len := (valid_len nd + ll) mod idx_mod c, blindiTree := tree \<rparr>)
      })"

definition MergeBlindiNodes :: "config \<Rightarrow> db \<Rightarrow> node \<Rightarrow> node \<Rightarrow> node option" where
  "MergeBlindiNodes c db nd lg =
     (if valid_len nd = 0 then CopyNode c nd lg
      else if valid_len lg = 0 then Some nd
      else MergeBlindiNodes_node c db nd lg)"

text \<open>
  \<^verbatim>\<open>transferNode\<close> fills a fresh node of a larger class from the arrays of a smaller one. The tree is
  handed over as the bytes of its cells (\<^verbatim>\<open>uint8_t *\<close>, from \<^verbatim>\<open>get_ptr2blindiTree\<close>), and each cell of the new tree takes one byte;
  \<open>c\<close> is the configuration of the larger class. The branch for \<^verbatim>\<open>TREE_LEVEL_HYBRID\<close> is not part of the build.
\<close>

definition transferNode ::
  "config \<Rightarrow> node \<Rightarrow> nat \<Rightarrow> nat list \<Rightarrow> ptr list \<Rightarrow> nat list \<Rightarrow> node option" where
  "transferNode c nd old_node_len oldblindiKeys oldkey_ptr oldblindiTree =
     (let cms = (if NUM_SLOTS c div 2 + BREATHING_BLINDI_SIZE > NUM_SLOTS c then NUM_SLOTS c
                 else NUM_SLOTS c div 2 + BREATHING_BLINDI_SIZE) in
      if old_node_len = 0 then None else
      do {
        kp \<leftarrow> copy_cells oldkey_ptr 0 (replicate cms 0) 0 (old_node_len - 1);
        bk \<leftarrow> copy_cells oldblindiKeys 0 (blindiKeys nd) 0 (old_node_len - 1);
        k \<leftarrow> get oldkey_ptr (old_node_len - 1);
        kp \<leftarrow> put kp (old_node_len - 1) k;
        tree \<leftarrow> (if TREE_LEVELS c > 0 then copy_cells oldblindiTree 0 (blindiTree nd) 0 (TREE_SIZE c)
                 else Some (blindiTree nd));
        Some (nd \<lparr> currentmaxslot := cms, key_ptr := kp, blindiKeys := bk, valid_len := old_node_len mod idx_mod c, blindiTree := tree \<rparr>)
      })"

definition get_max_key_in_node :: "db \<Rightarrow> node \<Rightarrow> byte list option" where
  "get_max_key_in_node db nd =
     (if valid_len nd = 0 then None else map_option db (get_key_ptr nd (valid_len nd - 1)))"

definition get_min_key_in_node :: "db \<Rightarrow> node \<Rightarrow> byte list option" where
  "get_min_key_in_node db nd = map_option db (get_key_ptr nd 0)"

definition get_mid_key_in_node :: "db \<Rightarrow> node \<Rightarrow> byte list option" where
  "get_mid_key_in_node db nd =
     (if valid_len nd div 2 = 0 then None else map_option db (get_key_ptr nd (valid_len nd div 2 - 1)))"

text \<open>\<^verbatim>\<open>check_smaller_than_node\<close>: \<open>n\<close> is the loop counter \<^verbatim>\<open>len\<close>.\<close>

fun check_smaller_than_node :: "node \<Rightarrow> nat list \<Rightarrow> nat \<Rightarrow> bool option" where
  "check_smaller_than_node nd tree_traverse n =
     (if n \<ge> 2 then
        do {
          p \<leftarrow> get tree_traverse (n - 1);
          t \<leftarrow> get (blindiTree nd) p;
          q \<leftarrow> get tree_traverse n;
          (if t > q then Some False else check_smaller_than_node nd tree_traverse (n - 1))
        }
      else Some True)"

declare check_smaller_than_node.simps [simp del]

end
