(* ===== verification/SeqTree_Inv.thy ===== *)
theory SeqTree_Inv
  imports SeqTree
begin

text \<open>
  What a well-formed sequential-tree node is, and how its tree changes when a blindi key is inserted.
  The proofs are for \<^verbatim>\<open>TREE_LEVELS = 2\<close>, the value the Makefile sets.
\<close>

section \<open>The tree of minima\<close>

text \<open>\<open>t\<close> is the position of the strict minimum of \<open>f lo, \<dots>, f (hi - 1)\<close>, or \<open>E\<close> for the empty range.\<close>

definition is_min :: "nat \<Rightarrow> (nat \<Rightarrow> nat) \<Rightarrow> nat \<Rightarrow> nat \<Rightarrow> nat \<Rightarrow> bool" where
  "is_min E f lo hi t \<longleftrightarrow>
     (if lo < hi then lo \<le> t \<and> t < hi \<and> (\<forall>j. lo \<le> j \<and> j < hi \<and> j \<noteq> t \<longrightarrow> f t < f j) else t = E)"

text \<open>The two levels over the \<open>m\<close> blindi keys \<open>f\<close>.\<close>

definition tree_ok :: "nat \<Rightarrow> (nat \<Rightarrow> nat) \<Rightarrow> nat \<Rightarrow> nat list \<Rightarrow> bool" where
  "tree_ok E f m tree \<longleftrightarrow> length tree = 3 \<and> m \<le> E \<and> is_min E f 0 m (tree ! 0)
     \<and> is_min E f 0 (if m = 0 then 0 else tree ! 0) (tree ! 1)
     \<and> is_min E f (if m = 0 then m else Suc (tree ! 0)) m (tree ! 2)"

lemma is_min_empty [simp]: "hi \<le> lo \<Longrightarrow> is_min E f lo hi t \<longleftrightarrow> t = E"
  by (simp add: is_min_def)

lemma is_minD:
  assumes "is_min E f lo hi t" "lo < hi"
  shows "lo \<le> t" "t < hi" "\<And>j. lo \<le> j \<Longrightarrow> j < hi \<Longrightarrow> f t \<le> f j"
  using assms by (auto simp: is_min_def le_less)

lemma is_minI:
  "lo \<le> t \<Longrightarrow> t < hi \<Longrightarrow> (\<And>j. lo \<le> j \<Longrightarrow> j < hi \<Longrightarrow> j \<noteq> t \<Longrightarrow> f t < f j) \<Longrightarrow> is_min E f lo hi t"
  by (simp add: is_min_def)

lemma is_min_cong:
  "(\<And>j. lo \<le> j \<Longrightarrow> j < hi \<Longrightarrow> f j = g j) \<Longrightarrow> is_min E f lo hi t = is_min E g lo hi t"
  by (auto simp: is_min_def)

lemma is_min_in: "is_min E f lo hi t \<Longrightarrow> hi \<le> E \<Longrightarrow> (t = E) = (hi \<le> lo)"
  by (auto simp: is_min_def split: if_splits)

lemma is_min_shift:
  assumes "is_min E f (lo + k) (hi + k) t" "lo < hi" "\<And>j. lo \<le> j \<Longrightarrow> j < hi \<Longrightarrow> g j = f (j + k)"
  shows "is_min E g lo hi (t - k)"
proof (rule is_minI)
  have t: "lo + k \<le> t" "t < hi + k" using assms(1,2) by (auto simp: is_min_def)
  show "lo \<le> t - k" "t - k < hi" using t assms(2) by auto
  show "g (t - k) < g j" if "lo \<le> j" "j < hi" "j \<noteq> t - k" for j
    using assms(1,2) assms(3) [of j] assms(3) [of "t - k"] that t by (auto simp: is_min_def)
qed

lemma is_min_unique: "is_min E f lo hi t \<Longrightarrow> is_min E f lo hi u \<Longrightarrow> t = u"
  by (metis is_min_def less_asym)

section \<open>Insertion\<close>

definition ins :: "(nat \<Rightarrow> nat) \<Rightarrow> nat \<Rightarrow> nat \<Rightarrow> nat \<Rightarrow> nat" where
  "ins f q d i = (if i < q then f i else if i = q then d else f (i - 1))"

definition up :: "nat \<Rightarrow> nat \<Rightarrow> nat \<Rightarrow> nat" where
  "up E q t = (if t \<noteq> E \<and> q \<le> t then t + 1 else t)"

lemma ins_simps [simp]:
  "i < q \<Longrightarrow> ins f q d i = f i" "ins f q d q = d" "q \<le> i \<Longrightarrow> ins f q d (Suc i) = f i"
  by (auto simp: ins_def)

lemma is_min_ins_right:
  assumes "is_min E f lo hi t" "q \<le> lo" "hi \<le> E"
  shows "is_min E (ins f q d) (Suc lo) (Suc hi) (up E q t)"
proof (cases "lo < hi")
  case True
  note t = is_minD (1,2) [OF assms(1) True]
  show ?thesis
  proof (rule is_minI)
    have u: "up E q t = Suc t" using t assms by (simp add: up_def)
    show "Suc lo \<le> up E q t" "up E q t < Suc hi" using t u by auto
    fix j assume j: "Suc lo \<le> j" "j < Suc hi" "j \<noteq> up E q t"
    then obtain i where "j = Suc i" by (cases j) auto
    then show "ins f q d (up E q t) < ins f q d j" using j u t assms(1,2) True by (simp add: is_min_def)
  qed
qed (use assms in \<open>simp add: is_min_def up_def\<close>)

lemma is_min_ins_left:
  assumes "is_min E f lo hi t" "hi \<le> q"
  shows "is_min E (ins f q d) lo hi (up E q t)"
  using assms by (auto simp: is_min_def up_def)

lemma is_min_ins_old:
  assumes "is_min E f lo hi t" "lo < hi" "lo \<le> q" "q \<le> hi" "f t < d" "hi \<le> E"
  shows "is_min E (ins f q d) lo (Suc hi) (up E q t)"
proof (rule is_minI)
  note t = is_minD (1,2) [OF assms(1,2)]
  have v: "ins f q d (up E q t) = f t" using t assms(6) by (simp add: up_def)
  show "lo \<le> up E q t" "up E q t < Suc hi" using t by (auto simp: up_def)
  fix j assume j: "lo \<le> j" "j < Suc hi" "j \<noteq> up E q t"
  have m: "f t < f i" if "lo \<le> i" "i < hi" "i \<noteq> t" for i using assms(1,2) that by (simp add: is_min_def)
  consider "j < q" | "j = q" | i where "j = Suc i" "q \<le> i" by (metis less_imp_Suc_add linorder_neqE_nat le_add1)
  then show "ins f q d (up E q t) < ins f q d j"
  proof cases
    case 1 then show ?thesis unfolding v using j m [of j] assms(4) by (cases "j = t") (auto simp: up_def)
  next
    case 2 then show ?thesis unfolding v using assms(5) by simp
  next
    case 3 then show ?thesis unfolding v using j m [of i] t assms(3,6) by (cases "i = t") (auto simp: up_def)
  qed
qed

lemma is_min_ins_new:
  assumes "\<And>j. lo \<le> j \<Longrightarrow> j < hi \<Longrightarrow> d < f j" "lo \<le> q" "q \<le> hi"
  shows "is_min E (ins f q d) lo (Suc hi) q"
proof (rule is_minI)
  fix j assume j: "lo \<le> j" "j < Suc hi" "j \<noteq> q"
  then consider "j < q" | i where "j = Suc i" "q \<le> i" by (metis less_imp_Suc_add linorder_neqE_nat le_add1)
  then show "ins f q d q < ins f q d j" by cases (use j assms in auto)
qed (use assms in auto)

text \<open>A new least blindi key at one of the ends becomes the root.\<close>

lemma tree_ok_ins_root:
  assumes ok: "tree_ok E f m tree" and q: "q = 0 \<or> q = m" and d: "\<And>j. j < m \<Longrightarrow> d < f j" and m: "Suc m \<le> E"
  defines "old \<equiv> up E q (tree ! 0)"
  shows "tree_ok E (ins f q d) (Suc m) [q, if old < q then old else E, if old < q then E else old]"
proof -
  have r: "is_min E f 0 m (tree ! 0)" using ok by (simp add: tree_ok_def)
  have 0: "is_min E (ins f q d) 0 (Suc m) q" using q d by (intro is_min_ins_new) auto
  show ?thesis
  proof (cases "m = 0")
    case True
    then show ?thesis using 0 q r by (simp add: tree_ok_def old_def up_def m) (use m in auto)
  next
    case False
    then have t: "tree ! 0 < m" using is_minD(2) [OF r] by simp
    from q show ?thesis
    proof
      assume q: "q = 0"
      have "is_min E (ins f 0 d) (Suc 0) (Suc m) old"
        unfolding old_def q using r m by (intro is_min_ins_right) auto
      then show ?thesis using 0 q m by (simp add: tree_ok_def)
    next
      assume q: "q = m"
      have "old = tree ! 0" "is_min E (ins f m d) 0 m (tree ! 0)"
        using is_min_ins_left [OF r, of m d] t by (auto simp: old_def q up_def)
      then show ?thesis using 0 q t m by (simp add: tree_ok_def)
    qed
  qed
qed

text \<open>Otherwise the root stays, and the side the new blindi key falls into changes.\<close>

lemma tree_ok_ins_side:
  assumes ok: "tree_ok E f m tree" and m: "0 < m" "Suc m \<le> E" and q: "q \<le> m" and d: "f (tree ! 0) < d"
    and new: "new \<longleftrightarrow> (\<forall>j. (if q \<le> tree ! 0 then j < tree ! 0 else tree ! 0 < j \<and> j < m) \<longrightarrow> d < f j)"
    and old: "\<not> new \<Longrightarrow> f (tree ! (if q \<le> tree ! 0 then 1 else 2)) < d"
  shows "tree_ok E (ins f q d) (Suc m)
    (if new then (map (up E q) tree)[(if q \<le> tree ! 0 then 1 else 2) := q] else map (up E q) tree)"
proof -
  have len: "length tree = 3" and r: "is_min E f 0 m (tree ! 0)"
    and a: "is_min E f 0 (tree ! 0) (tree ! 1)" and b: "is_min E f (Suc (tree ! 0)) m (tree ! 2)"
    using ok m by (auto simp: tree_ok_def)
  have t: "tree ! 0 < m" using is_minD(2) [OF r] m by simp
  have 0: "is_min E (ins f q d) 0 (Suc m) (up E q (tree ! 0))" using r m q d by (intro is_min_ins_old) auto
  show ?thesis
  proof (cases "q \<le> tree ! 0")
    case True
    have u: "up E q (tree ! 0) = Suc (tree ! 0)" using True t m by (simp add: up_def)
    have b': "is_min E (ins f q d) (Suc (Suc (tree ! 0))) (Suc m) (up E q (tree ! 2))"
      using b True m by (intro is_min_ins_right) auto
    have a': "is_min E (ins f q d) 0 (Suc (tree ! 0)) (if new then q else up E q (tree ! 1))"
    proof (cases new)
      case True then show ?thesis using new \<open>q \<le> tree ! 0\<close> by (auto intro: is_min_ins_new)
    next
      case False
      then obtain j where "j < tree ! 0" using new True by auto
      then have "0 < tree ! 0" by simp
      then show ?thesis using False True a old t m by (auto intro!: is_min_ins_old)
    qed
    show ?thesis using 0 a' b' u True len m by (auto simp: tree_ok_def)
  next
    case False
    have u: "up E q (tree ! 0) = tree ! 0" using False by (simp add: up_def)
    have a': "is_min E (ins f q d) 0 (tree ! 0) (up E q (tree ! 1))"
      using a False by (intro is_min_ins_left) auto
    have b': "is_min E (ins f q d) (Suc (tree ! 0)) (Suc m) (if new then q else up E q (tree ! 2))"
    proof (cases new)
      case True then show ?thesis using new False q by (auto intro: is_min_ins_new)
    next
      case nn: False
      then obtain j where "tree ! 0 < j" "j < m" using new False by auto
      then show ?thesis using nn False b old q m by (auto intro!: is_min_ins_old)
    qed
    show ?thesis using 0 a' b' u False len m by (auto simp: tree_ok_def)
  qed
qed

section \<open>Well-formed nodes\<close>

definition cfg2_ok :: "config \<Rightarrow> bool" where
  "cfg2_ok c \<longleftrightarrow> TREE_LEVELS c = 2 \<and> 6 \<le> NUM_SLOTS c \<and> even (NUM_SLOTS c) \<and> NUM_SLOTS c \<le> 65534
     \<and> 0 < KEY_LEN c \<and> 8 * KEY_LEN c \<le> END_TREE c \<and> 8 * KEY_LEN c \<le> MAX_HIGH_MISS c"

definition node_keys :: "db \<Rightarrow> node \<Rightarrow> byte list list" where
  "node_keys db nd = map db (take (valid_len nd) (key_ptr nd))"

abbreviation bdif :: "byte list list \<Rightarrow> nat \<Rightarrow> nat" where
  "bdif \<equiv> bit_keys.bks key_dif"

definition node2_ok :: "config \<Rightarrow> db \<Rightarrow> node \<Rightarrow> bool" where
  "node2_ok c db nd \<longleftrightarrow> 0 < valid_len nd \<and> valid_len nd \<le> currentmaxslot nd \<and> currentmaxslot nd \<le> NUM_SLOTS c
     \<and> length (key_ptr nd) = currentmaxslot nd \<and> length (blindiKeys nd) = NUM_SLOTS c - 1
     \<and> bl.ordered (KEY_LEN c) (node_keys db nd)
     \<and> (\<forall>i. Suc i < valid_len nd \<longrightarrow> blindiKeys nd ! i = bdif (node_keys db nd) i)
     \<and> tree_ok (END_TREE c) (bdif (node_keys db nd)) (valid_len nd - 1) (blindiTree nd)"

lemma cfg2_okD:
  assumes "cfg2_ok c"
  shows "TREE_LEVELS c = Suc (Suc 0)" "6 \<le> NUM_SLOTS c" "NUM_SLOTS c \<le> END_TREE c" "NUM_SLOTS c < 65536"
    "8 * KEY_LEN c \<le> END_TREE c" "8 * KEY_LEN c \<le> MAX_HIGH_MISS c" "END_TREE c < idx_mod c" "TREE_SIZE c = 3"
  using assms by (auto simp: cfg2_ok_def END_TREE_def idx_mod_def TREE_SIZE_def)

lemma to_idx_id [simp]: "cfg2_ok c \<Longrightarrow> t \<le> END_TREE c \<Longrightarrow> to_idx c (int t) = t"
  using cfg2_okD(7) [of c] by (simp add: to_idx_def nat_mod_distrib)

lemma u16_id [simp]: "t < 65536 \<Longrightarrow> u16 (int t) = t"
  by (simp add: u16_def nat_mod_distrib)

lemma length_node_keys [simp]: "valid_len nd \<le> length (key_ptr nd) \<Longrightarrow> length (node_keys db nd) = valid_len nd"
  by (simp add: node_keys_def)

lemma node_keys_nth: "i < valid_len nd \<Longrightarrow> valid_len nd \<le> length (key_ptr nd) \<Longrightarrow> node_keys db nd ! i = db (key_ptr nd ! i)"
  by (simp add: node_keys_def)

lemma node2_okD:
  assumes "node2_ok c db nd"
  shows "length (node_keys db nd) = valid_len nd" "0 < valid_len nd" "valid_len nd \<le> length (key_ptr nd)"
    "length (key_ptr nd) = currentmaxslot nd" "currentmaxslot nd \<le> NUM_SLOTS c"
    "length (blindiKeys nd) = NUM_SLOTS c - 1" "bl.ordered (KEY_LEN c) (node_keys db nd)"
    "\<And>i. Suc i < valid_len nd \<Longrightarrow> blindiKeys nd ! i = bdif (node_keys db nd) i"
    "tree_ok (END_TREE c) (bdif (node_keys db nd)) (valid_len nd - 1) (blindiTree nd)"
  using assms by (auto simp: node2_ok_def)

text \<open>Blindi keys are positions of bits of a key.\<close>

lemma bdif_bound:
  assumes "bl.ordered L ks" "Suc i < length ks"
  shows "bdif ks i < 8 * L"
proof -
  have v: "key_of_len L (ks ! i)" "key_of_len L (ks ! Suc i)" using bl.ordered_valid [OF assms(1)] assms(2) by auto
  have "ks ! i \<noteq> ks ! Suc i" using bl.ordered_lt [OF assms(1), of i "Suc i"] assms(2) bl.lt_irrefl by auto
  then show ?thesis using key_dif_spec [OF v] by (simp add: bl.bks_def)
qed

section \<open>The sequential part of the first stage\<close>

lemma first_stage_loop:
  assumes bk: "\<And>i. i0 \<le> i \<Longrightarrow> i < i0 + n \<Longrightarrow> get (blindiKeys nd) i = Some (f i) \<and> f i < 8 * KEY_LEN c"
    and key: "length key = KEY_LEN c" and mx: "8 * KEY_LEN c \<le> MAX_HIGH_MISS c"
  shows "\<exists>pos hm. loop_up (first_stage_step c nd key) i0 n (i0, MAX_HIGH_MISS c) = Some (pos, hm)
    \<and> blind_pos (key_bit key) f i0 (Suc (i0 + n)) pos"
proof -
  define P where "P i s \<longleftrightarrow> blind_pos (key_bit key) f i0 (Suc i) (fst s)
    \<and> snd s = (if fst s = i then MAX_HIGH_MISS c else rmin f (fst s) i)" for i and s :: "nat \<times> nat"
  have step: "\<exists>s'. first_stage_step c nd key i s = Some s' \<and> P (Suc i) s'"
    if i: "i0 \<le> i" "i < i0 + n" and P: "P i s" for i s
  proof -
    obtain p h where s: "s = (p, h)" by (cases s)
    have b: "get (blindiKeys nd) i = Some (f i)" "f i < 8 * KEY_LEN c" using bk i by auto
    have bp: "blind_pos (key_bit key) f i0 (Suc i) p" and h: "h = (if p = i then MAX_HIGH_MISS c else rmin f p i)"
      using P by (auto simp: P_def s)
    have p: "p \<le> i" using bp by (simp add: blind_pos_def)
    have ev: "first_stage_step c nd key i s = Some (if f i \<le> h then (if key_bit key (f i) then (i + 1, MAX_HIGH_MISS c)
        else (p, min h (f i))) else (p, h))"
      using b by (simp add: first_stage_step_def s isNthBitSetInString_key_bit key)
    have last: "rmin f p (Suc i) = (if p = i then f i else min (rmin f p i) (f i))" using p by (auto simp: rmin_last)
    have "P (Suc i) (if f i \<le> h then (if key_bit key (f i) then (i + 1, MAX_HIGH_MISS c)
        else (p, min h (f i))) else (p, h))"
    proof (cases "f i \<le> h")
      case le: True
      show ?thesis
      proof (cases "key_bit key (f i)")
        case True
        then show ?thesis using le h bp blind_pos_snoc_new [OF bp] by (auto simp: P_def split: if_splits)
      next
        case False
        have "rmin f p (Suc i) = f i" using le h last by (simp split: if_splits)
        then show ?thesis using False le h bp b mx p blind_pos_snoc_old [OF bp] by (auto simp: P_def)
      qed
    next
      case False
      then have ne: "p \<noteq> i" using b mx h by auto
      then have r: "rmin f p (Suc i) = h" using last h False by simp
      have "\<not> key_bit key (rmin f p i)" using bp ne p by (simp add: blind_pos_def)
      then show ?thesis using False r h ne bp p blind_pos_snoc_old [OF bp] by (auto simp: P_def)
    qed
    then show ?thesis using ev by blast
  qed
  have "\<exists>s'. loop_up (first_stage_step c nd key) i0 n (i0, MAX_HIGH_MISS c) = Some s' \<and> P (i0 + n) s'"
    by (rule loop_up_invariant) (use step in \<open>auto simp: P_def\<close>)
  then show ?thesis by (auto simp: P_def)
qed

section \<open>The cells of a node fit into their types\<close>

lemma node_cells_fit2:
  assumes cfg: "cfg2_ok c" and ok: "node2_ok c db nd"
  shows "valid_len nd \<le> currentmaxslot nd \<and> currentmaxslot nd < 2 ^ 16"
    and "\<forall>i. Suc i < valid_len nd \<longrightarrow> blindiKeys nd ! i < MAX_HIGH_MISS c"
    and "\<forall>x \<in> set (blindiTree nd). x = END_TREE c \<or> Suc x < valid_len nd"
proof -
  note k = node2_okD [OF ok]
  show "valid_len nd \<le> currentmaxslot nd \<and> currentmaxslot nd < 2 ^ 16" using k(3,4,5) cfg by (simp add: cfg2_ok_def)
  show "\<forall>i. Suc i < valid_len nd \<longrightarrow> blindiKeys nd ! i < MAX_HIGH_MISS c"
  proof (intro allI impI)
    fix i assume i: "Suc i < valid_len nd"
    have "bdif (node_keys db nd) i < 8 * KEY_LEN c" by (rule bdif_bound [OF k(7)]) (simp add: i k(1))
    then show "blindiKeys nd ! i < MAX_HIGH_MISS c" using k(8) [OF i] cfg by (simp add: cfg2_ok_def)
  qed
  let ?m = "valid_len nd - 1" and ?t = "blindiTree nd" and ?f = "bdif (node_keys db nd)" and ?E = "END_TREE c"
  have t: "length ?t = 3" "is_min ?E ?f 0 ?m (?t ! 0)" "is_min ?E ?f 0 (if ?m = 0 then 0 else ?t ! 0) (?t ! 1)"
    "is_min ?E ?f (if ?m = 0 then ?m else Suc (?t ! 0)) ?m (?t ! 2)" using k(9) unfolding tree_ok_def by blast+
  obtain x y z where "?t = [x, y, z]" using t(1) by (auto simp: numeral_3_eq_3 length_Suc_conv)
  then have s: "set ?t = {?t ! 0, ?t ! 1, ?t ! 2}" by simp
  have z: "?t ! 0 = ?E \<or> ?t ! 0 < ?m" using t(2) by (auto simp: is_min_def split: if_splits)
  moreover have "?t ! 1 = ?E \<or> ?t ! 1 < ?m" using t(2,3) by (auto simp: is_min_def split: if_splits)
  moreover have "?t ! 2 = ?E \<or> ?t ! 2 < ?m" using t(4) by (auto simp: is_min_def split: if_splits)
  ultimately show "\<forall>x \<in> set ?t. x = ?E \<or> Suc x < valid_len nd" unfolding s by auto
qed

end
