(* ===== verification/SeqTree_Search.thy ===== *)
theory SeqTree_Search
  imports SeqTree_Inv
begin

text \<open>
  \<^verbatim>\<open>SearchFirstStage\<close> and \<^verbatim>\<open>SearchBlindiNode\<close> of the sequential-tree node: the first stage ends at the
  blind position, one key comparison decides whether the key is there, and the second stage finds the
  place of a missing key.
\<close>

section \<open>The first stage\<close>

declare first_stage_tree.simps [simp del]

lemma first_stage_tree_step:
  assumes "get (blindiTree nd) (tree_pos_p1 d - 1) = Some t" "t \<noteq> END_TREE c" "get (blindiKeys nd) t = Some b"
    "isNthBitSetInString key b kl = Some r" "3 < length (tt d)"
  shows "first_stage_tree c nd key kl (Suc n) d = first_stage_tree c nd key kl n
    (if r then d \<lparr> tt := (tt d)[3 := tt d ! 2, 2 := tree_pos_p1 d - 1], tt_len := tt_len d + 1,
        first_stage_key_position := t + 1, start_bk_seq_pos := t, is_start_pos := True,
        tree_pos_p1 := (tree_pos_p1 d + 1) * 2 - 1, is_last_large := True \<rparr>
     else d \<lparr> tt := (tt d)[3 := tt d ! 2, 2 := tree_pos_p1 d - 1], tt_len := tt_len d + 1,
        end_bk_seq_pos := int t, is_end_pos := True,
        tree_pos_p1 := tree_pos_p1 d * 2, is_last_large := False \<rparr>)"
  using assms by (simp add: Let_def first_stage_tree.simps)

lemma first_stage_tree_end:
  assumes "get (blindiTree nd) (tree_pos_p1 d - 1) = Some (END_TREE c)" "3 < length (tt d)"
    "get (blindiTree nd) (tt d ! 2) = Some p"
  shows "first_stage_tree c nd key kl (Suc n) d =
    Some (Inl (p + of_bool (is_last_large d), (tt d)[3 := tt d ! 2, 2 := tree_pos_p1 d - 1], tt_len d + 1))"
  using assms by (simp add: Let_def first_stage_tree.simps)

lemma first_stage_seq_run:
  assumes "6 \<le> length (tt d)" "first_stage_key_position d = start_bk_seq_pos d + of_bool (is_start_pos d)"
    "end_bk_seq_pos d = int hi" "hi < 65535" "start_bk_seq_pos d + of_bool (is_start_pos d) + rounds = hi + 1 - of_bool (is_end_pos d)"
    "\<And>i. first_stage_key_position d \<le> i \<Longrightarrow> i < first_stage_key_position d + rounds \<Longrightarrow> get (blindiKeys nd) i = Some (f i) \<and> f i < 8 * KEY_LEN c"
    "length key = KEY_LEN c" "8 * KEY_LEN c \<le> MAX_HIGH_MISS c" "start_bk_seq_pos d \<le> hi"
  shows "\<exists>pos tr. first_stage_seq c nd key d = Some (pos, tr, tt_len d)
    \<and> blind_pos (key_bit key) f (first_stage_key_position d) (Suc (first_stage_key_position d + rounds)) pos
    \<and> length tr = length (tt d) \<and> tr ! 0 = start_bk_seq_pos d \<and> tr ! 1 = hi
    \<and> (\<forall>i. 1 < i \<and> i \<noteq> 5 \<longrightarrow> tr ! i = tt d ! i)"
proof -
  let ?i0 = "first_stage_key_position d"
  from first_stage_loop [OF assms(6-8)] obtain pos hm where
    l: "loop_up (first_stage_step c nd key) ?i0 rounds (?i0, MAX_HIGH_MISS c) = Some (pos, hm)"
    and b: "blind_pos (key_bit key) f ?i0 (Suc (?i0 + rounds)) pos" by blast
  have r: "nat (end_bk_seq_pos d - of_bool (is_end_pos d) + 1 - int (start_bk_seq_pos d + of_bool (is_start_pos d))) = rounds"
    using assms(2,3,5) by (cases "is_end_pos d"; cases "is_start_pos d") auto
  have "pos \<le> ?i0 + rounds" using b by (simp add: blind_pos_def)
  also have "\<dots> \<le> Suc hi" using assms(2,5) by simp
  finally have u: "pos \<le> Suc hi" .
  define t1 where "t1 = (tt d)[0 := start_bk_seq_pos d, 1 := hi]"
  define t5 where "t5 = (if rounds = 0 then t1 else t1[5 := 1])"
  have "first_stage_seq c nd key d = Some (pos, t5, tt_len d)"
  proof -
    have "0 < length (tt d)" "1 < length (tt d)" "5 < length (tt d)" "start_bk_seq_pos d < 65536" "hi < 65536" "pos < 65536"
      using assms(1,4,9) u by auto
    then show ?thesis
      unfolding first_stage_seq_def Let_def r unfolding assms(2) [symmetric] assms(3) by (simp add: t1_def t5_def l)
  qed
  moreover have "length t5 = length (tt d)" "t5 ! 0 = start_bk_seq_pos d" "t5 ! 1 = hi"
    "\<forall>i. 1 < i \<and> i \<noteq> 5 \<longrightarrow> t5 ! i = tt d ! i"
  proof -
    have "0 < length (tt d)" "1 < length (tt d)" using assms(1) by auto
    then show "length t5 = length (tt d)" "t5 ! 0 = start_bk_seq_pos d" "t5 ! 1 = hi"
      "\<forall>i. 1 < i \<and> i \<noteq> 5 \<longrightarrow> t5 ! i = tt d ! i"
      by (auto simp: t1_def t5_def)
  qed
  ultimately show ?thesis using b by blast
qed

lemma six: "6 \<le> (n::nat) \<Longrightarrow> 0 < n \<and> Suc 0 < n \<and> 2 < n \<and> 3 < n \<and> 4 < n \<and> 5 < n"
  by simp

text \<open>What the first stage leaves for the second one.\<close>

definition first_stage_post ::
  "(nat \<Rightarrow> bool) \<Rightarrow> (nat \<Rightarrow> nat) \<Rightarrow> nat \<Rightarrow> nat list \<Rightarrow> nat \<Rightarrow> nat list \<Rightarrow> nat \<Rightarrow> nat list \<Rightarrow> nat \<Rightarrow> bool" where
  "first_stage_post xb f n tree E tr0 p tr len \<longleftrightarrow>
     length tr = length tr0 \<and> tr ! 4 = 0 \<and> blind_pos xb f 0 n p \<and>
     (if n = 1 then tr ! 2 = 0
      else len = 2 \<and> tr ! 3 = 0 \<and> (tr ! 2 = 1 \<and> p \<le> tree ! 0 \<or> tr ! 2 = 2 \<and> tree ! 0 < p)
        \<and> (tree ! (tr ! 2) \<noteq> E \<longrightarrow>
             (tr ! 0 = 0 \<or> (tr ! 0 = tree ! 0 \<or> tr ! 0 = tree ! (tr ! 2)) \<and> tr ! 0 < p)
           \<and> (Suc (Suc (tr ! 1)) = n \<or> (tr ! 1 = tree ! 0 \<or> tr ! 1 = tree ! (tr ! 2)) \<and> p \<le> tr ! 1)))"

lemma SearchFirstStage_post:
  assumes cfg: "cfg2_ok c" and ok: "node2_ok c db nd" and key: "length key = KEY_LEN c" and tr: "6 \<le> length tr0"
  shows "\<exists>p tr len. SearchFirstStage c nd key (KEY_LEN c) tr0 len0 = Some (p, tr, len)
    \<and> first_stage_post (key_bit key) (bdif (node_keys db nd)) (valid_len nd) (blindiTree nd) (END_TREE c) tr0 p tr len"
proof -
  let ?E = "END_TREE c" and ?f = "bdif (node_keys db nd)" and ?n = "valid_len nd" and ?xb = "key_bit key"
  note C = cfg2_okD [OF cfg] and N = node2_okD [OF ok]
  obtain t0 t1 t2 where tree: "blindiTree nd = [t0, t1, t2]"
    using N(9) by (auto simp: tree_ok_def numeral_3_eq_3 length_Suc_conv)
  define T where "T = tr0[0 := 0, 1 := u16 (int ?n - 2), 2 := 0, 3 := 0, 4 := 0, 5 := 0]"
  have lT: "length T = length tr0" "T ! 2 = 0" "T ! 3 = 0" "T ! 4 = 0" using tr by (auto simp: T_def)
  have TT [simp]: "T[3 := 0] = T" "T[2 := 0] = T" using lT list_update_id [of T 3] list_update_id [of T 2] by auto
  define d where "d = \<lparr> tt = T, tt_len = 0, tree_pos_p1 = 1, first_stage_key_position = 0,
                start_bk_seq_pos = 0, end_bk_seq_pos = int ?n - 2,
                is_start_pos = False, is_end_pos = False, is_last_large = False \<rparr>"
  have run: "SearchFirstStage c nd key (KEY_LEN c) tr0 len0 =
     (if ?n = 1 \<or> t0 = ?E then Some (0, T, 0)
      else do { r \<leftarrow> first_stage_tree c nd key (KEY_LEN c) (Suc (Suc 0)) d;
                (case r of Inl res \<Rightarrow> Some res | Inr d' \<Rightarrow> first_stage_seq c nd key d') })"
    using C(1) six [OF tr] by (simp add: SearchFirstStage_def Let_def tree T_def d_def)
  show ?thesis
  proof (cases "?n = 1")
    case True then show ?thesis using run lT by (simp add: first_stage_post_def)
  next
    case False
    define m where "m = ?n - 1"
    have m: "0 < m" "?n = Suc m" "m < ?E" "m < 65535" using False N C by (auto simp: m_def)
    have F: "get (blindiKeys nd) i = Some (?f i)" "isNthBitSetInString key (?f i) (KEY_LEN c) = Some (?xb (?f i))"
      "?f i < 8 * KEY_LEN c" if i: "i < m" for i
    proof -
      have i': "Suc i < ?n" using i m(2) by simp
      then have "i < length (blindiKeys nd)" using N(3-6) by simp
      then show "get (blindiKeys nd) i = Some (?f i)" using N(8) [OF i'] by simp
      show "?f i < 8 * KEY_LEN c" using bdif_bound [OF N(7)] i' N(1) by simp
      then show "isNthBitSetInString key (?f i) (KEY_LEN c) = Some (?xb (?f i))"
        by (rule isNthBitSetInString_key_bit [OF key])
    qed
    have tok: "is_min ?E ?f 0 m t0" "is_min ?E ?f 0 t0 t1" "is_min ?E ?f (Suc t0) m t2"
      using N(9) m by (auto simp: tree_ok_def tree)
    note t0 = is_minD [OF tok(1) m(1)]
    have t0E: "t0 \<noteq> ?E" using t0 m by simp
    have bp_right: "blind_pos ?xb ?f 0 ?n p" if "?xb (?f t0)" "blind_pos ?xb ?f (Suc t0) ?n p" for p
      by (rule blind_pos_cut_right [OF that(2) _ that(1)]) (use t0 m in auto)
    have bp_left: "blind_pos ?xb ?f 0 ?n p" if "\<not> ?xb (?f t0)" "blind_pos ?xb ?f 0 (Suc t0) p" for p
      by (rule blind_pos_cut_left [OF that(2) _ that(1)]) (use t0 m in auto)
    have lt5: "3 < length T" using lT tr by simp
    have fin: "\<exists>p tr. first_stage_seq c nd key d' = Some (p, tr, 2)
        \<and> first_stage_post ?xb ?f ?n (blindiTree nd) ?E tr0 p tr 2"
      if d': "tt d' = T[2 := s]" "tt_len d' = 2" "first_stage_key_position d' = start_bk_seq_pos d' + of_bool (is_start_pos d')"
        "end_bk_seq_pos d' = int hi" "hi < m" "start_bk_seq_pos d' \<le> hi"
        "first_stage_key_position d' \<le> hi + 1 - of_bool (is_end_pos d')"
      and lift: "\<And>p. blind_pos ?xb ?f (first_stage_key_position d') (Suc (hi + 1 - of_bool (is_end_pos d'))) p \<Longrightarrow>
        blind_pos ?xb ?f 0 ?n p \<and> (s = 1 \<and> p \<le> t0 \<or> s = 2 \<and> t0 < p)
        \<and> (start_bk_seq_pos d' = 0 \<or> (start_bk_seq_pos d' = t0 \<or> start_bk_seq_pos d' = blindiTree nd ! s) \<and> start_bk_seq_pos d' < p)
        \<and> (Suc (Suc hi) = ?n \<or> (hi = t0 \<or> hi = blindiTree nd ! s) \<and> p \<le> hi)" for d' s hi
    proof -
      define rounds where "rounds = hi + 1 - of_bool (is_end_pos d') - first_stage_key_position d'"
      have r: "first_stage_key_position d' + rounds = hi + 1 - of_bool (is_end_pos d')"
        using d'(7) by (simp add: rounds_def)
      have "\<exists>pos tr. first_stage_seq c nd key d' = Some (pos, tr, tt_len d')
        \<and> blind_pos ?xb ?f (first_stage_key_position d') (Suc (first_stage_key_position d' + rounds)) pos
        \<and> length tr = length (tt d') \<and> tr ! 0 = start_bk_seq_pos d' \<and> tr ! 1 = hi
        \<and> (\<forall>i. 1 < i \<and> i \<noteq> 5 \<longrightarrow> tr ! i = tt d' ! i)"
      proof (rule first_stage_seq_run)
        show "start_bk_seq_pos d' + of_bool (is_start_pos d') + rounds = hi + 1 - of_bool (is_end_pos d')"
          using r d'(3) by simp
        show "get (blindiKeys nd) i = Some (?f i) \<and> ?f i < 8 * KEY_LEN c"
          if "first_stage_key_position d' \<le> i" "i < first_stage_key_position d' + rounds" for i
          using F [of i] that r d'(5) by simp
      qed (use d' lT tr m key C(6) in auto)
      then obtain pos tr where q: "first_stage_seq c nd key d' = Some (pos, tr, 2)"
        "blind_pos ?xb ?f (first_stage_key_position d') (Suc (hi + 1 - of_bool (is_end_pos d'))) pos"
        "length tr = length T" "tr ! 0 = start_bk_seq_pos d'" "tr ! 1 = hi" "\<forall>i. 1 < i \<and> i \<noteq> 5 \<longrightarrow> tr ! i = T[2 := s] ! i"
        using d' r by auto
      have "tr ! 2 = s" "tr ! 3 = 0" "tr ! 4 = 0" using q(6) lT lt5 by auto
      then show ?thesis using q lift [OF q(2)] False lT by (auto simp: first_stage_post_def tree)
    qed
    note step = first_stage_tree_step [where nd = nd and c = c and key = key and kl = "KEY_LEN c"]
    show ?thesis
    proof (cases "?xb (?f t0)")
      case b0: True
      define d1 where "d1 = d \<lparr> tt := T, tt_len := 1, first_stage_key_position := t0 + 1,
        start_bk_seq_pos := t0, is_start_pos := True, tree_pos_p1 := 3, is_last_large := True \<rparr>"
      have 1: "first_stage_tree c nd key (KEY_LEN c) (Suc (Suc 0)) d = first_stage_tree c nd key (KEY_LEN c) (Suc 0) d1"
        using step [of d t0 "?f t0" True "Suc 0"] F(1,2) [OF t0(2)] t0E b0 lt5 lT
        by (simp add: d_def d1_def tree)
      show ?thesis
      proof (cases "t2 = ?E")
        case True
        then have e: "Suc t0 = m" using tok(3) t0 m is_min_in [OF tok(3)] by simp
        have "first_stage_tree c nd key (KEY_LEN c) (Suc (Suc 0)) d = Some (Inl (t0 + 1, T[2 := 2], 2))"
          unfolding 1 using first_stage_tree_end [of nd d1 c t0] lt5 lT True
          by (simp add: d1_def tree)
        moreover have "blind_pos ?xb ?f 0 ?n (Suc t0)" using b0 e m by (intro bp_right) auto
        ultimately show ?thesis using run False t0E lT lt5 by (simp add: first_stage_post_def tree True)
      next
        case t2E: False
        then have ne: "Suc t0 < m" using is_min_in [OF tok(3)] m by simp
        note t2 = is_minD [OF tok(3) ne]
        define d2 where "d2 b = (if b then d1 \<lparr> tt := T[2 := 2], tt_len := 2, first_stage_key_position := t2 + 1,
            start_bk_seq_pos := t2, is_start_pos := True, tree_pos_p1 := 7, is_last_large := True \<rparr>
          else d1 \<lparr> tt := T[2 := 2], tt_len := 2, end_bk_seq_pos := int t2, is_end_pos := True,
            tree_pos_p1 := 6, is_last_large := False \<rparr>)" for b
        have 2: "first_stage_tree c nd key (KEY_LEN c) (Suc (Suc 0)) d = Some (Inr (d2 (?xb (?f t2))))"
          unfolding 1 using step [of d1 t2 "?f t2" "?xb (?f t2)" 0] F(1,2) [OF t2(2)] t2E lt5 lT
          by (simp add: d1_def d2_def tree first_stage_tree.simps(1))
        have "\<exists>p tr. first_stage_seq c nd key (d2 (?xb (?f t2))) = Some (p, tr, 2)
          \<and> first_stage_post ?xb ?f ?n (blindiTree nd) ?E tr0 p tr 2"
        proof (cases "?xb (?f t2)")
          case b1: True
          have hi: "int (valid_len nd) - 2 = int (m - 1)" using m by simp
          show ?thesis
          proof (rule fin [of _ 2 "m - 1"])
            fix p assume "blind_pos ?xb ?f (first_stage_key_position (d2 (?xb (?f t2))))
              (Suc (m - 1 + 1 - of_bool (is_end_pos (d2 (?xb (?f t2)))))) p"
            then have bp: "blind_pos ?xb ?f (Suc t2) ?n p" using m by (simp add: d2_def d1_def d_def b1)
            have "blind_pos ?xb ?f (Suc t0) ?n p"
              by (rule blind_pos_cut_right [OF bp _ b1]) (use t2 m in auto)
            then have "blind_pos ?xb ?f 0 ?n p" by (rule bp_right [OF b0])
            moreover have "t2 < p" "t0 < t2" using bp t2 by (auto simp: blind_pos_def)
            ultimately show "blind_pos ?xb ?f 0 ?n p \<and> (2 = (1::nat) \<and> p \<le> t0 \<or> 2 = (2::nat) \<and> t0 < p)
              \<and> (start_bk_seq_pos (d2 (?xb (?f t2))) = 0 \<or> (start_bk_seq_pos (d2 (?xb (?f t2))) = t0 \<or>
                start_bk_seq_pos (d2 (?xb (?f t2))) = blindiTree nd ! 2) \<and> start_bk_seq_pos (d2 (?xb (?f t2))) < p)
              \<and> (Suc (Suc (m - 1)) = ?n \<or> (m - 1 = t0 \<or> m - 1 = blindiTree nd ! 2) \<and> p \<le> m - 1)"
              using m b1 by (simp add: d2_def tree)
          qed (use b1 t2 m hi in \<open>auto simp: d2_def d1_def d_def\<close>)
        next
          case b1: False
          show ?thesis
          proof (rule fin [of _ 2 t2])
            fix p assume "blind_pos ?xb ?f (first_stage_key_position (d2 (?xb (?f t2))))
              (Suc (t2 + 1 - of_bool (is_end_pos (d2 (?xb (?f t2)))))) p"
            then have bp: "blind_pos ?xb ?f (Suc t0) (Suc t2) p" using m by (simp add: d2_def d1_def d_def b1)
            have "blind_pos ?xb ?f (Suc t0) ?n p"
              by (rule blind_pos_cut_left [OF bp _ b1]) (use t2 m in auto)
            then have "blind_pos ?xb ?f 0 ?n p" by (rule bp_right [OF b0])
            moreover have "t0 < p" "p \<le> t2" using bp by (auto simp: blind_pos_def)
            ultimately show "blind_pos ?xb ?f 0 ?n p \<and> (2 = (1::nat) \<and> p \<le> t0 \<or> 2 = (2::nat) \<and> t0 < p)
              \<and> (start_bk_seq_pos (d2 (?xb (?f t2))) = 0 \<or> (start_bk_seq_pos (d2 (?xb (?f t2))) = t0 \<or>
                start_bk_seq_pos (d2 (?xb (?f t2))) = blindiTree nd ! 2) \<and> start_bk_seq_pos (d2 (?xb (?f t2))) < p)
              \<and> (Suc (Suc t2) = ?n \<or> (t2 = t0 \<or> t2 = blindiTree nd ! 2) \<and> p \<le> t2)"
              using m b1 by (simp add: d2_def d1_def tree)
          qed (use b1 t2 m in \<open>auto simp: d2_def d1_def d_def\<close>)
        qed
        then show ?thesis using run 2 False t0E by auto
      qed
    next
      case b0: False
      define d1 where "d1 = d \<lparr> tt := T, tt_len := 1, end_bk_seq_pos := int t0, is_end_pos := True,
        tree_pos_p1 := 2, is_last_large := False \<rparr>"
      have 1: "first_stage_tree c nd key (KEY_LEN c) (Suc (Suc 0)) d = first_stage_tree c nd key (KEY_LEN c) (Suc 0) d1"
        using step [of d t0 "?f t0" False "Suc 0"] F(1,2) [OF t0(2)] t0E b0 lt5 lT
        by (simp add: d_def d1_def tree)
      show ?thesis
      proof (cases "t1 = ?E")
        case True
        then have e: "t0 = 0" using is_min_in [OF tok(2)] t0 m by simp
        have "first_stage_tree c nd key (KEY_LEN c) (Suc (Suc 0)) d = Some (Inl (t0, T[2 := 1], 2))"
          unfolding 1 using first_stage_tree_end [of nd d1 c t0] lt5 lT True
          by (simp add: d1_def d_def tree)
        moreover have "blind_pos ?xb ?f 0 ?n t0" using b0 e by (intro bp_left) auto
        ultimately show ?thesis using run False t0E lT lt5 by (simp add: first_stage_post_def tree True)
      next
        case t1E: False
        then have ne: "0 < t0" using is_min_in [OF tok(2)] t0 m by auto
        note t1 = is_minD [OF tok(2) ne]
        have t1m: "t1 < m" using t1 t0 by simp
        define d2 where "d2 b = (if b then d1 \<lparr> tt := T[2 := 1], tt_len := 2, first_stage_key_position := t1 + 1,
            start_bk_seq_pos := t1, is_start_pos := True, tree_pos_p1 := 5, is_last_large := True \<rparr>
          else d1 \<lparr> tt := T[2 := 1], tt_len := 2, end_bk_seq_pos := int t1, is_end_pos := True,
            tree_pos_p1 := 4, is_last_large := False \<rparr>)" for b
        have 2: "first_stage_tree c nd key (KEY_LEN c) (Suc (Suc 0)) d = Some (Inr (d2 (?xb (?f t1))))"
          unfolding 1 using step [of d1 t1 "?f t1" "?xb (?f t1)" 0] F(1,2) [OF t1m] t1E lt5 lT
          by (simp add: d1_def d2_def tree first_stage_tree.simps(1))
        have "\<exists>p tr. first_stage_seq c nd key (d2 (?xb (?f t1))) = Some (p, tr, 2)
          \<and> first_stage_post ?xb ?f ?n (blindiTree nd) ?E tr0 p tr 2"
        proof (cases "?xb (?f t1)")
          case b1: True
          show ?thesis
          proof (rule fin [of _ 1 t0])
            fix p assume "blind_pos ?xb ?f (first_stage_key_position (d2 (?xb (?f t1))))
              (Suc (t0 + 1 - of_bool (is_end_pos (d2 (?xb (?f t1)))))) p"
            then have bp: "blind_pos ?xb ?f (Suc t1) (Suc t0) p" by (simp add: d2_def d1_def d_def b1)
            have "blind_pos ?xb ?f 0 (Suc t0) p"
              by (rule blind_pos_cut_right [OF bp _ b1]) (use t1 in auto)
            then have "blind_pos ?xb ?f 0 ?n p" by (rule bp_left [OF b0])
            moreover have "t1 < p" "p \<le> t0" using bp by (auto simp: blind_pos_def)
            ultimately show "blind_pos ?xb ?f 0 ?n p \<and> (1 = (1::nat) \<and> p \<le> t0 \<or> 1 = (2::nat) \<and> t0 < p)
              \<and> (start_bk_seq_pos (d2 (?xb (?f t1))) = 0 \<or> (start_bk_seq_pos (d2 (?xb (?f t1))) = t0 \<or>
                start_bk_seq_pos (d2 (?xb (?f t1))) = blindiTree nd ! 1) \<and> start_bk_seq_pos (d2 (?xb (?f t1))) < p)
              \<and> (Suc (Suc t0) = ?n \<or> (t0 = t0 \<or> t0 = blindiTree nd ! 1) \<and> p \<le> t0)"
              using b1 by (simp add: d2_def tree)
          qed (use b1 t1 t0 in \<open>auto simp: d2_def d1_def d_def\<close>)
        next
          case b1: False
          show ?thesis
          proof (rule fin [of _ 1 t1])
            fix p assume "blind_pos ?xb ?f (first_stage_key_position (d2 (?xb (?f t1))))
              (Suc (t1 + 1 - of_bool (is_end_pos (d2 (?xb (?f t1)))))) p"
            then have bp: "blind_pos ?xb ?f 0 (Suc t1) p" by (simp add: d2_def d1_def d_def b1)
            have "blind_pos ?xb ?f 0 (Suc t0) p"
              by (rule blind_pos_cut_left [OF bp _ b1]) (use t1 in auto)
            then have "blind_pos ?xb ?f 0 ?n p" by (rule bp_left [OF b0])
            moreover have "p \<le> t1" "t1 \<le> t0" using bp t1 by (auto simp: blind_pos_def)
            ultimately show "blind_pos ?xb ?f 0 ?n p \<and> (1 = (1::nat) \<and> p \<le> t0 \<or> 1 = (2::nat) \<and> t0 < p)
              \<and> (start_bk_seq_pos (d2 (?xb (?f t1))) = 0 \<or> (start_bk_seq_pos (d2 (?xb (?f t1))) = t0 \<or>
                start_bk_seq_pos (d2 (?xb (?f t1))) = blindiTree nd ! 1) \<and> start_bk_seq_pos (d2 (?xb (?f t1))) < p)
              \<and> (Suc (Suc t1) = ?n \<or> (t1 = t0 \<or> t1 = blindiTree nd ! 1) \<and> p \<le> t1)"
              using b1 by (simp add: d2_def d1_def d_def tree)
          qed (use b1 t1m in \<open>auto simp: d2_def d1_def d_def\<close>)
        qed
        then show ?thesis using run 2 False t0E by auto
      qed
    qed
  qed
qed

section \<open>The second stage\<close>

lemma scan_up_spec:
  assumes "\<And>k. i \<le> k \<Longrightarrow> k < i + n \<Longrightarrow> get bks k = Some (f k)"
  shows "\<exists>r. scan_up bks d i n = Some r \<and>
    (case r of None \<Rightarrow> \<forall>k. i \<le> k \<and> k < i + n \<longrightarrow> d \<le> f k
     | Some j \<Rightarrow> i \<le> j \<and> j < i + n \<and> f j < d \<and> (\<forall>k. i \<le> k \<and> k < j \<longrightarrow> d \<le> f k))"
  using assms
proof (induction n arbitrary: i)
  case (Suc n)
  have g: "get bks i = Some (f i)" using Suc.prems by simp
  show ?case
  proof (cases "f i < d")
    case True then show ?thesis using g by simp
  next
    case False
    have "\<exists>r. scan_up bks d (Suc i) n = Some r \<and>
      (case r of None \<Rightarrow> \<forall>k. Suc i \<le> k \<and> k < Suc i + n \<longrightarrow> d \<le> f k
       | Some j \<Rightarrow> Suc i \<le> j \<and> j < Suc i + n \<and> f j < d \<and> (\<forall>k. Suc i \<le> k \<and> k < j \<longrightarrow> d \<le> f k))"
      using Suc.prems by (intro Suc.IH) auto
    then obtain r where r: "scan_up bks d (Suc i) n = Some r"
      "case r of None \<Rightarrow> \<forall>k. Suc i \<le> k \<and> k < Suc i + n \<longrightarrow> d \<le> f k
       | Some j \<Rightarrow> Suc i \<le> j \<and> j < Suc i + n \<and> f j < d \<and> (\<forall>k. Suc i \<le> k \<and> k < j \<longrightarrow> d \<le> f k)" by blast
    have first: "i \<le> k \<longleftrightarrow> k = i \<or> Suc i \<le> k" for k by auto
    show ?thesis using r g False by (intro exI [of _ r]) (auto split: option.splits simp: first)
  qed
qed simp

lemma scan_down_spec:
  assumes "\<And>k. k < n \<Longrightarrow> get bks k = Some (f k)"
  shows "\<exists>r. scan_down bks d lo n = Some r \<and>
    (case r of None \<Rightarrow> \<forall>k. lo \<le> k \<and> k < n \<longrightarrow> d \<le> f k
     | Some j \<Rightarrow> lo \<le> j \<and> j < n \<and> f j < d \<and> (\<forall>k. j < k \<and> k < n \<longrightarrow> d \<le> f k))"
  using assms
proof (induction n)
  case (Suc n)
  have g: "get bks n = Some (f n)" using Suc.prems by simp
  from Suc obtain r where r: "scan_down bks d lo n = Some r"
    "case r of None \<Rightarrow> \<forall>k. lo \<le> k \<and> k < n \<longrightarrow> d \<le> f k
     | Some j \<Rightarrow> lo \<le> j \<and> j < n \<and> f j < d \<and> (\<forall>k. j < k \<and> k < n \<longrightarrow> d \<le> f k)" by auto
  show ?case
  proof (cases "lo \<le> n \<and> \<not> f n < d")
    case True then show ?thesis using r g by (auto split: option.splits simp: less_Suc_eq)
  next
    case False then show ?thesis using g by (auto simp: less_Suc_eq)
  qed
qed simp

text \<open>The sequential scan finds the gap, between the bounds the first stage left.\<close>

lemma SearchSecondStageSeq_gap:
  assumes o: "bl.ordered L ks" and bp: "blind_pos (key_bit x) (bdif ks) 0 (length ks) p"
    and x: "key_of_len L x" "x \<noteq> ks ! p" and d: "d = key_dif x (ks ! p)"
    and bk: "\<And>i. Suc i < length ks \<Longrightarrow> get (blindiKeys nd) i = Some (bdif ks i)"
    and tr: "1 < length tr"
    and lo: "tr ! 0 = 0 \<or> bdif ks (tr ! 0) < d \<and> tr ! 0 < p"
    and hi: "Suc (Suc (tr ! 1)) = length ks \<or> bdif ks (tr ! 1) < d \<and> p \<le> tr ! 1 \<and> Suc (tr ! 1) < length ks"
  shows "\<exists>pos q. SearchSecondStageSeq nd p d (key_bit x d) False tr = Some (pos - 1, pos = 0)
    \<and> bl.gap ks x pos q d \<and> pos = q + of_bool (key_bit x d) \<and> (\<forall>k. p \<le> k \<and> k < q \<or> q \<le> k \<and> k < p \<longrightarrow> d \<le> bdif ks k)"
proof -
  let ?f = "bdif ks" and ?n = "length ks"
  have p: "p < ?n" using bp by (simp add: blind_pos_def)
  have hi_n: "Suc (tr ! 1) < ?n" using hi by auto
  have g: "get (blindiKeys nd) k = Some (?f k)" if "k \<le> tr ! 1" for k using that hi_n by (intro bk) simp
  show ?thesis
  proof (cases "key_bit x d")
    case large: True
    have p_hi: "p \<le> Suc (tr ! 1)" using hi p by auto
    have e: "p + (tr ! 1 + 1 - p) = Suc (tr ! 1)" using p_hi by simp
    have "\<exists>r. scan_up (blindiKeys nd) d p (tr ! 1 + 1 - p) = Some r \<and>
      (case r of None \<Rightarrow> \<forall>k. p \<le> k \<and> k < p + (tr ! 1 + 1 - p) \<longrightarrow> d \<le> ?f k
       | Some j \<Rightarrow> p \<le> j \<and> j < p + (tr ! 1 + 1 - p) \<and> ?f j < d \<and> (\<forall>k. p \<le> k \<and> k < j \<longrightarrow> d \<le> ?f k))"
      by (rule scan_up_spec) (use g p_hi in auto)
    from this [unfolded e less_Suc_eq_le] obtain r where r: "scan_up (blindiKeys nd) d p (tr ! 1 + 1 - p) = Some r"
      "case r of None \<Rightarrow> \<forall>k. p \<le> k \<and> k \<le> tr ! 1 \<longrightarrow> d \<le> ?f k
       | Some j \<Rightarrow> p \<le> j \<and> j \<le> tr ! 1 \<and> ?f j < d \<and> (\<forall>k. p \<le> k \<and> k < j \<longrightarrow> d \<le> ?f k)"
      by blast
    define i where "i = (case r of Some i \<Rightarrow> i | None \<Rightarrow> Suc (tr ! 1))"
    have i: "p \<le> i" "i < ?n" "\<And>k. p \<le> k \<Longrightarrow> k < i \<Longrightarrow> d \<le> ?f k" "Suc i < ?n \<Longrightarrow> ?f i < d"
      using r(2) hi hi_n p_hi by (auto simp: i_def split: option.splits)
    have "bl.gap ks x (Suc i) i d" by (rule bl.gap_right [OF o bp x d large i])
    moreover have "SearchSecondStageSeq nd p d (key_bit x d) False tr = Some (i, False)"
      using r(1) tr large by (simp add: SearchSecondStageSeq_def i_def split: option.splits)
    ultimately show ?thesis using i large by (intro exI [of _ "Suc i"] exI [of _ i]) auto
  next
    case small: False
    show ?thesis
    proof (cases "p = 0")
      case True
      have "bl.gap ks x 0 0 d" by (rule bl.gap_left [OF o bp x d small]) (use True in auto)
      then show ?thesis using small True by (intro exI [of _ 0]) (auto simp: SearchSecondStageSeq_def)
    next
      case False
      have "\<exists>r. scan_down (blindiKeys nd) d (tr ! 0) p = Some r \<and>
        (case r of None \<Rightarrow> \<forall>k. tr ! 0 \<le> k \<and> k < p \<longrightarrow> d \<le> ?f k
         | Some j \<Rightarrow> tr ! 0 \<le> j \<and> j < p \<and> ?f j < d \<and> (\<forall>k. j < k \<and> k < p \<longrightarrow> d \<le> ?f k))"
        by (rule scan_down_spec) (use bk p in auto)
      then obtain r where r: "scan_down (blindiKeys nd) d (tr ! 0) p = Some r"
        "case r of None \<Rightarrow> \<forall>k. tr ! 0 \<le> k \<and> k < p \<longrightarrow> d \<le> ?f k
         | Some j \<Rightarrow> tr ! 0 \<le> j \<and> j < p \<and> ?f j < d \<and> (\<forall>k. j < k \<and> k < p \<longrightarrow> d \<le> ?f k)" by blast
      have t0: "0 < length tr" "tr \<noteq> []" using tr by auto
      show ?thesis
      proof (cases r)
        case None
        then have lo0: "tr ! 0 = 0" using r(2) lo by force
        have "bl.gap ks x 0 0 d" by (rule bl.gap_left [OF o bp x d small]) (use r(2) None lo0 in auto)
        then show ?thesis using small False r t0 None lo0
          by (intro exI [of _ 0]) (auto simp: SearchSecondStageSeq_def)
      next
        case (Some j)
        have "bl.gap ks x (Suc j) (Suc j) d" by (rule bl.gap_left [OF o bp x d small]) (use r(2) Some in auto)
        then show ?thesis using small False r t0 Some
          by (intro exI [of _ "Suc j"]) (auto simp: SearchSecondStageSeq_def)
      qed
    qed
  qed
qed

lemma SearchSecondStageTree_two:
  assumes "tr ! 3 = 0" "3 < length tr" "s = 1 \<or> s = 2" "tr ! 2 = s" "get (blindiTree nd) 0 = Some t0"
    "get (blindiKeys nd) t0 = Some b" "b \<le> d" "0 < valid_len nd" "valid_len nd \<le> 65536"
  shows "SearchSecondStageTree nd d large False tr 2 =
    Some (if s = 1 then if large then t0 else 0 else if large then valid_len nd - 1 else t0, s = 1 \<and> \<not> large, tr, 2)"
proof -
  have u: "u16 (int (valid_len nd) - 1) = valid_len nd - 1"
    using u16_id [of "valid_len nd - 1"] assms(8,9) by (simp add: of_nat_diff)
  have l: "2 < length tr" using assms(2) by simp
  have "odd (3 :: nat)" by simp
  then have o: "\<not> Suc (Suc 0) dvd Suc (Suc (Suc 0))" by (simp only: numeral_2_eq_2 numeral_3_eq_3 not_False_eq_True)
  show ?thesis
    unfolding SearchSecondStageTree_def using assms u l o
    by (auto simp: bring_largest_in_subtree_def bring_smallest_in_subtree_def numeral_2_eq_2)
qed


section \<open>The whole search\<close>

text \<open>What the tree part of an insertion needs: where in the tree the new blindi key \<open>d\<close> at \<open>q\<close> belongs.\<close>

definition tree_info :: "(nat \<Rightarrow> nat) \<Rightarrow> nat \<Rightarrow> nat list \<Rightarrow> nat \<Rightarrow> nat \<Rightarrow> nat \<Rightarrow> nat list \<Rightarrow> nat \<Rightarrow> bool" where
  "tree_info f m tree E q d tr len \<longleftrightarrow>
     tr ! 4 = 1 \<and> tr ! 2 = 0 \<and> len = 1 \<and> (q = 0 \<or> q = m) \<and> (\<forall>j < m. d < f j)
   \<or> 0 < m \<and> len = 2 \<and> f (tree ! 0) < d \<and> tr ! 2 = (if q \<le> tree ! 0 then 1 else 2)
     \<and> (tr ! 4 = 1 \<and> (\<forall>j. (if q \<le> tree ! 0 then j < tree ! 0 else tree ! 0 < j \<and> j < m) \<longrightarrow> d < f j)
        \<or> tr ! 4 = 0 \<and> tree ! (tr ! 2) \<noteq> E \<and> f (tree ! (tr ! 2)) < d)"

definition search_gap2 ::
  "config \<Rightarrow> node \<Rightarrow> byte list list \<Rightarrow> byte list \<Rightarrow> nat list \<Rightarrow> nat \<Rightarrow> nat \<Rightarrow> nat \<Rightarrow> nat \<times> bool \<times> nat list \<times> nat \<Rightarrow> bool" where
  "search_gap2 c nd ks x tr0 pos q d = (\<lambda>(p, smaller, tr, len).
     p = pos - 1 \<and> smaller = (pos = 0) \<and> length tr = length tr0 \<and> bl.gap ks x pos q d
     \<and> pos = q + of_bool (key_bit x d)
     \<and> tree_info (bdif ks) (length ks - 1) (blindiTree nd) (END_TREE c) q d tr len)"

lemma in_tree_head:
  assumes o: "bl.ordered L ks" and bp: "blind_pos (key_bit x) (bdif ks) 0 (length ks) p"
    and x: "key_of_len L x" "x \<noteq> ks ! p" and d: "d = key_dif x (ks ! p)"
    and head: "\<And>j. Suc j < length ks \<Longrightarrow> d < bdif ks j" and tr: "length tr = length tr0" "4 < length tr"
  shows "\<exists>pos q. search_gap2 c nd ks x tr0 pos q d
    (if key_bit x d then length ks - 1 else 0, \<not> key_bit x d, tr[4 := 1, 2 := 0], 1)"
proof -
  have n: "0 < length ks" using bp by (auto simp: blind_pos_def)
  have ti: "tree_info (bdif ks) (length ks - 1) (blindiTree nd) (END_TREE c) q d (tr[4 := 1, 2 := 0]) 1"
    if "q = 0 \<or> q = length ks - 1" for q
    using that head tr by (auto simp: tree_info_def)
  show ?thesis
  proof (cases "key_bit x d")
    case True
    have "bl.gap ks x (Suc (length ks - 1)) (length ks - 1) d"
      by (rule bl.gap_right [OF o bp x d True]) (use n bp head in \<open>auto simp: blind_pos_def intro: less_imp_le\<close>)
    then show ?thesis using True n tr ti
      by (intro exI [of _ "length ks"] exI [of _ "length ks - 1"]) (auto simp: search_gap2_def)
  next
    case False
    have "bl.gap ks x 0 0 d"
      by (rule bl.gap_left [OF o bp x d False]) (use bp head in \<open>auto simp: blind_pos_def intro: less_imp_le\<close>)
    then show ?thesis using False tr ti by (intro exI [of _ 0]) (auto simp: search_gap2_def)
  qed
qed

lemma in_tree_side:
  assumes o: "bl.ordered L ks" and bp: "blind_pos (key_bit x) (bdif ks) 0 (length ks) p"
    and x: "key_of_len L x" "x \<noteq> ks ! p" and d: "d = key_dif x (ks ! p)"
    and t0: "tree ! 0 = t0" "Suc t0 < length ks" "bdif ks t0 < d"
    and side: "s = 1 \<and> p \<le> t0 \<or> s = 2 \<and> t0 < p"
    and cell: "\<And>j. (if s = 1 then j < t0 else t0 < j \<and> Suc j < length ks) \<Longrightarrow> d < bdif ks j"
    and tr: "length tr = length tr0" "4 < length tr" "tr ! 2 = s" and tree: "tree = blindiTree nd"
  shows "\<exists>pos q. search_gap2 c nd ks x tr0 pos q d
    (if s = 1 then if key_bit x d then t0 else 0 else if key_bit x d then length ks - 1 else t0,
     s = 1 \<and> \<not> key_bit x d, tr[4 := 1], 2)"
proof -
  have ti: "tree_info (bdif ks) (length ks - 1) (blindiTree nd) (END_TREE c) q d (tr[4 := 1]) 2"
    if q: "s = (if q \<le> t0 then 1 else 2)" for q
  proof -
    have "d < bdif ks j" if "if q \<le> t0 then j < t0 else t0 < j \<and> j < length ks - 1" for j
      using that q by (intro cell) (auto split: if_splits)
    then show ?thesis using q tr t0 tree by (simp add: tree_info_def)
  qed
  have p: "p < length ks" using bp by (simp add: blind_pos_def)
  have left: "d \<le> bdif ks j" if "s = 1" "j < t0" for j using cell [of j] that by simp
  have right: "d \<le> bdif ks j" if "s = 2" "t0 < j" "Suc j < length ks" for j using cell [of j] that by simp
  consider (l1) "s = 1" "p \<le> t0" "key_bit x d" | (s1) "s = 1" "p \<le> t0" "\<not> key_bit x d"
    | (l2) "s = 2" "t0 < p" "key_bit x d" | (s2) "s = 2" "t0 < p" "\<not> key_bit x d"
    using side by blast
  then show ?thesis
  proof cases
    case l1
    have "bl.gap ks x (Suc t0) t0 d"
      by (rule bl.gap_right [OF o bp x d l1(3)]) (use l1(1,2) t0 left in simp_all)
    then show ?thesis using l1(1,3) tr ti [of t0]
      by (intro exI [of _ "Suc t0"] exI [of _ t0]) (simp add: search_gap2_def)
  next
    case s1
    have "bl.gap ks x 0 0 d"
      by (rule bl.gap_left [OF o bp x d s1(3)]) (use s1(1,2) left in simp_all)
    then show ?thesis using s1(1,3) tr ti [of 0] by (intro exI [of _ 0]) (simp add: search_gap2_def)
  next
    case l2
    have "bl.gap ks x (Suc (length ks - 1)) (length ks - 1) d"
      by (rule bl.gap_right [OF o bp x d l2(3)]) (use l2(1,2) p right in simp_all)
    moreover have "\<not> length ks - 1 \<le> t0" "Suc (length ks - 1) = length ks" "ks \<noteq> []" using t0(2) by auto
    ultimately show ?thesis using l2(1,3) tr ti [of "length ks - 1"]
      by (intro exI [of _ "length ks"] exI [of _ "length ks - 1"]) (simp add: search_gap2_def)
  next
    case s2
    have "bl.gap ks x (Suc t0) (Suc t0) d"
      by (rule bl.gap_left [OF o bp x d s2(3)]) (use s2(1,2) p t0 right in simp_all)
    then show ?thesis using s2(1,3) tr ti [of "Suc t0"] by (intro exI [of _ "Suc t0"]) (simp add: search_gap2_def)
  qed
qed

lemma in_seq:
  assumes o: "bl.ordered L ks" and bp: "blind_pos (key_bit x) (bdif ks) 0 (length ks) p"
    and x: "key_of_len L x" "x \<noteq> ks ! p" and d: "d = key_dif x (ks ! p)"
    and bk: "\<And>i. Suc i < length ks \<Longrightarrow> get (blindiKeys nd) i = Some (bdif ks i)"
    and t0: "blindiTree nd ! 0 = t0" "Suc t0 < length ks" "bdif ks t0 < d"
    and side: "s = 1 \<and> p \<le> t0 \<or> s = 2 \<and> t0 < p"
    and cell: "blindiTree nd ! s = ts" "ts \<noteq> END_TREE c" "Suc ts < length ks" "bdif ks ts < d"
    and tr: "length tr = length tr0" "4 < length tr" "tr ! 2 = s" "tr ! 4 = 0"
    and lo: "tr ! 0 = 0 \<or> (tr ! 0 = t0 \<or> tr ! 0 = ts) \<and> tr ! 0 < p"
    and hi: "Suc (Suc (tr ! 1)) = length ks \<or> (tr ! 1 = t0 \<or> tr ! 1 = ts) \<and> p \<le> tr ! 1"
  shows "\<exists>r pos q. SearchSecondStageSeq nd p d (key_bit x d) False tr = Some r
    \<and> search_gap2 c nd ks x tr0 pos q d (fst r, snd r, tr, 2)"
proof -
  have "\<exists>pos q. SearchSecondStageSeq nd p d (key_bit x d) False tr = Some (pos - 1, pos = 0)
    \<and> bl.gap ks x pos q d \<and> pos = q + of_bool (key_bit x d) \<and> (\<forall>k. p \<le> k \<and> k < q \<or> q \<le> k \<and> k < p \<longrightarrow> d \<le> bdif ks k)"
    by (rule SearchSecondStageSeq_gap [OF o bp x d bk]) (use t0 cell tr lo hi in auto)
  then obtain pos q where r: "SearchSecondStageSeq nd p d (key_bit x d) False tr = Some (pos - 1, pos = 0)"
    "bl.gap ks x pos q d" "pos = q + of_bool (key_bit x d)" "\<And>k. p \<le> k \<and> k < q \<or> q \<le> k \<and> k < p \<Longrightarrow> d \<le> bdif ks k"
    by blast
  have "s = (if q \<le> t0 then 1 else 2)" using side r(4) [of t0] t0(3) by auto
  then have "tree_info (bdif ks) (length ks - 1) (blindiTree nd) (END_TREE c) q d tr 2"
    using t0 cell tr by (auto simp: tree_info_def)
  then show ?thesis using r tr
    by (intro exI [of _ "(pos - 1, pos = 0)"] exI [of _ pos] exI [of _ q]) (simp add: search_gap2_def)
qed


text \<open>
  \<open>SearchBlindiNode\<close> on a well-formed node: it always returns, it hits exactly the keys of the node, and
  a predecessor search that misses finds the gap.
\<close>

lemma SearchBlindiNode2_spec:
  assumes cfg: "cfg2_ok c" and ok: "node2_ok c db nd" and x: "length x = KEY_LEN c" and tr0: "6 \<le> length tr0"
  shows "\<exists>r. SearchBlindiNode c db nd x (KEY_LEN c) st tr0 len0 = Some r
    \<and> sr_hit r = (x \<in> set (node_keys db nd))
    \<and> (sr_hit r \<longrightarrow> sr_position r < valid_len nd \<and> node_keys db nd ! sr_position r = x \<and> \<not> sr_smaller_than_node r
         \<and> \<not> sr_large_small r)
    \<and> (\<not> sr_hit r \<and> st = PREDECESSOR_SEARCH \<longrightarrow> (\<exists>pos q.
         search_gap2 c nd (node_keys db nd) x tr0 pos q (sr_diff_pos r)
           (sr_position r, sr_smaller_than_node r, sr_tree_traverse r, sr_tree_traverse_len r)
         \<and> sr_large_small r = key_bit x (sr_diff_pos r)))"
proof -
  let ?ks = "node_keys db nd" and ?f = "bdif (node_keys db nd)" and ?n = "valid_len nd" and ?E = "END_TREE c"
  note C = cfg2_okD [OF cfg] and N = node2_okD [OF ok]
  from SearchFirstStage_post [OF cfg ok x tr0, of len0] obtain p tr len where
    fs: "SearchFirstStage c nd x (KEY_LEN c) tr0 len0 = Some (p, tr, len)" and
    post: "first_stage_post (key_bit x) ?f ?n (blindiTree nd) ?E tr0 p tr len" by blast
  have bp: "blind_pos (key_bit x) ?f 0 (length ?ks) p" and ltr: "length tr = length tr0" "tr ! 4 = 0"
    using post N(1) by (auto simp: first_stage_post_def)
  have p: "p < ?n" "p < length ?ks" using bp N(1) by (auto simp: blind_pos_def)
  have gp: "get_key_ptr nd p = Some (key_ptr nd ! p)" "db (key_ptr nd ! p) = ?ks ! p"
    using p N(3) by (auto simp: get_key_ptr_def node_keys_nth)
  have v: "key_of_len (KEY_LEN c) x" "key_of_len (KEY_LEN c) (?ks ! p)"
    using x bl.ordered_valid [OF N(7) p(2)] by (auto simp: key_of_len_def)
  have cmp: "CompareStage x (?ks ! p) False (KEY_LEN c) (KEY_LEN c) =
      (if x = ?ks ! p then Some (0, True, False) else Some (key_dif x (?ks ! p), False, key_bit x (key_dif x (?ks ! p))))"
    using CompareStage_eq [OF v, of False] key_dif_spec [OF v] by auto
  have mem: "x \<in> set ?ks \<longleftrightarrow> ?ks ! p = x" by (rule bl.blind_search [OF N(7) bp v(1)])
  show ?thesis
  proof (cases "x = ?ks ! p \<or> st = POINT_SEARCH")
    case True
    then show ?thesis using fs gp cmp mem p by (auto simp: SearchBlindiNode_def Let_def)
  next
    case False
    then have ne: "x \<noteq> ?ks ! p" and st: "st = PREDECESSOR_SEARCH" by (auto intro: search_type.exhaust)
    define d where "d = key_dif x (?ks ! p)"
    have bk: "get (blindiKeys nd) i = Some (?f i)" if "Suc i < length ?ks" for i
      using that N(1,3-6) N(8) [of i] by simp
    obtain t0 t1 t2 where tree: "blindiTree nd = [t0, t1, t2]"
      using N(9) by (auto simp: tree_ok_def numeral_3_eq_3 length_Suc_conv)
    have tok: "is_min ?E ?f 0 (?n - 1) t0" "is_min ?E ?f 0 (if ?n - 1 = 0 then 0 else t0) t1"
      "is_min ?E ?f (if ?n - 1 = 0 then ?n - 1 else Suc t0) (?n - 1) t2"
      using N(9) by (auto simp: tree_ok_def tree)
    have nE: "?n \<le> ?E" using N C by simp
    define in_tree where "in_tree \<longleftrightarrow> blindiTree nd ! (tr ! 2) = ?E \<or> d < ?f (blindiTree nd ! (tr ! 2))"
    define at_head where "at_head \<longleftrightarrow> t0 = ?E \<or> d < ?f t0"
    define res where "res = (\<lambda>(p, smaller, tr, len).
         \<lparr> sr_position = p, sr_hit = False, sr_smaller_than_node = smaller, sr_diff_pos = d,
           sr_large_small = key_bit x d, sr_tree_traverse = tr, sr_tree_traverse_len = len \<rparr>)"
    have l4: "2 < length tr" "4 < length tr" using ltr tr0 by auto
    have s3: "tr ! 2 < 3" using post by (auto simp: first_stage_post_def split: if_splits)
    have cell: "get_blindiTree nd (tr ! 2) = Some (blindiTree nd ! (tr ! 2))"
      "get_blindiTree nd 0 = Some t0" using s3 by (auto simp: get_blindiTree_def tree)
    have cell_in: "Suc t < ?n" if "t = t0 \<or> t = blindiTree nd ! (tr ! 2)" "t \<noteq> ?E" for t
    proof -
      have "t0 \<noteq> ?E \<Longrightarrow> t0 < ?n - 1" using tok(1) by (auto simp: is_min_def split: if_splits)
      moreover have "?n - 1 \<noteq> 0 \<Longrightarrow> t0 < ?n - 1" using tok(1) by (simp add: is_min_def)
      then have "t1 \<noteq> ?E \<Longrightarrow> t1 < ?n - 1" using tok(2) by (cases "?n - 1 = 0") (auto simp: is_min_def split: if_splits)
      moreover have "t2 \<noteq> ?E \<Longrightarrow> t2 < ?n - 1" using tok(3) by (auto simp: is_min_def split: if_splits)
      moreover have "blindiTree nd ! (tr ! 2) \<in> {t0, t1, t2}"
        using s3 by (auto simp: tree numeral_3_eq_3 less_Suc_eq)
      ultimately show ?thesis using that by auto
    qed
    have run: "SearchBlindiNode c db nd x (KEY_LEN c) st tr0 len0 =
      (if in_tree then
         (if at_head then Some (res (if key_bit x d then ?n - 1 else 0, \<not> key_bit x d, tr[4 := 1, 2 := 0], 1))
          else map_option res (SearchSecondStageTree nd d (key_bit x d) False (tr[4 := 1]) len))
       else do { (p, smaller) \<leftarrow> SearchSecondStageSeq nd p d (key_bit x d) False tr; Some (res (p, smaller, tr, len)) })"
    proof -
      have b: "get_blindiKey nd t = Some (?f t)" if "t = t0 \<or> t = blindiTree nd ! (tr ! 2)" "t \<noteq> ?E" for t
        using bk [of t] cell_in [OF that] N(1) by (simp add: get_blindiKey_def)
      show ?thesis
        using fs gp cmp ne l4 cell b C(1) unfolding in_tree_def at_head_def
        by (simp add: SearchBlindiNode_def Let_def st d_def [symmetric] res_def)
    qed
    have fin: ?thesis if "SearchBlindiNode c db nd x (KEY_LEN c) st tr0 len0 = Some (res a)"
      "search_gap2 c nd ?ks x tr0 pos q d a" for a pos q
    proof -
      have "sr_hit (res a) = (x \<in> set ?ks)" using mem ne by (cases a) (auto simp: res_def)
      moreover have "search_gap2 c nd ?ks x tr0 pos q (sr_diff_pos (res a))
        (sr_position (res a), sr_smaller_than_node (res a), sr_tree_traverse (res a), sr_tree_traverse_len (res a))
        \<and> sr_large_small (res a) = key_bit x (sr_diff_pos (res a))"
        using that(2) by (cases a) (simp add: res_def)
      moreover have "\<not> sr_hit (res a)" by (cases a) (simp add: res_def)
      ultimately show ?thesis using that(1) by blast
    qed
    show ?thesis
    proof (cases "in_tree \<and> at_head")
      case True
      have least: "d < ?f j" if "Suc j < length ?ks" for j
      proof -
        have m: "j < ?n - 1" using that N(1) by simp
        then have "t0 \<noteq> ?E" using is_min_in [OF tok(1)] nE by simp
        then show ?thesis using True is_minD(3) [OF tok(1) _ _ m] m by (fastforce simp: at_head_def)
      qed
      obtain pos q where "search_gap2 c nd ?ks x tr0 pos q d
        (if key_bit x d then ?n - 1 else 0, \<not> key_bit x d, tr[4 := 1, 2 := 0], 1)"
        using in_tree_head [OF N(7) bp v(1) ne d_def least ltr(1) l4(2)] unfolding N(1) by blast
      from fin [OF _ this] show ?thesis using True run by simp
    next
      case nh: False
      have n1: "?n \<noteq> 1"
      proof
        assume "?n = 1"
        then have "t0 = ?E" "tr ! 2 = 0" using tok(1) post by (auto simp: first_stage_post_def)
        then show False using nh by (simp add: in_tree_def at_head_def tree)
      qed
      define s where "s = tr ! 2"
      have ps: "len = 2" "tr ! 3 = 0" "s = 1 \<and> p \<le> t0 \<or> s = 2 \<and> t0 < p"
        "blindiTree nd ! s \<noteq> ?E \<Longrightarrow> tr ! 0 = 0 \<or> (tr ! 0 = t0 \<or> tr ! 0 = blindiTree nd ! s) \<and> tr ! 0 < p"
        "blindiTree nd ! s \<noteq> ?E \<Longrightarrow> Suc (Suc (tr ! 1)) = length ?ks \<or> (tr ! 1 = t0 \<or> tr ! 1 = blindiTree nd ! s) \<and> p \<le> tr ! 1"
        using post n1 N(1) by (auto simp: first_stage_post_def tree s_def)
      have n2: "0 < ?n - 1" using n1 N(2) by simp
      note T0 = is_minD [OF tok(1) n2]
      have t0E: "t0 \<noteq> ?E" "Suc t0 < length ?ks" using T0 nE N(1) by auto
      have t0m: "t0 \<noteq> ?E" "?f t0 \<noteq> d"
      proof -
        show "t0 \<noteq> ?E" by (rule t0E)
        show "?f t0 \<noteq> d" unfolding d_def
          by (rule bl.min_ne_dif [OF N(7) bp v(1) ne, of 0 "?n - 1"]) (use T0 p N(1) in auto)
      qed
      define ts where "ts = blindiTree nd ! s"
      have s12: "s = 1 \<and> ts = t1 \<or> s = 2 \<and> ts = t2" using ps(3) by (auto simp: ts_def tree)
      have side_min: "is_min ?E ?f (if s = 1 then 0 else Suc t0) (if s = 1 then t0 else ?n - 1) ts"
        using tok(2,3) s12 n2 by auto
      have hE: "(if s = 1 then t0 else ?n - 1) \<le> ?E" using t0E(2) nE N(1) by auto
      have t0_lt: "?f t0 < d"
      proof (cases in_tree)
        case True
        then have "\<not> d < ?f t0" using nh t0E by (simp add: at_head_def)
        then show ?thesis using t0m by simp
      next
        case False
        then have e: "ts \<noteq> ?E" "?f ts \<le> d" by (auto simp: in_tree_def ts_def s_def)
        then have "ts < ?n - 1" using cell_in [of ts] by (simp add: ts_def s_def)
        then have "?f t0 \<le> ?f ts" using T0(3) by simp
        then show ?thesis using e t0m by simp
      qed
      show ?thesis
      proof (cases in_tree)
        case True
        have cell': "d < ?f j" if "if s = 1 then j < t0 else t0 < j \<and> Suc j < length ?ks" for j
        proof -
          have r: "(if s = 1 then 0 else Suc t0) \<le> j" "j < (if s = 1 then t0 else ?n - 1)"
            using that N(1) by (auto split: if_splits)
          have "ts \<noteq> ?E" using is_min_in [OF side_min hE] r by linarith
          then have "d < ?f ts" using True by (simp add: in_tree_def ts_def s_def)
          also have "\<dots> \<le> ?f j" by (rule is_minD(3) [OF side_min _ r]) (use r in linarith)
          finally show ?thesis .
        qed
        have h0: "blindiTree nd ! 0 = t0" by (simp add: tree)
        obtain pos q where g: "search_gap2 c nd ?ks x tr0 pos q d
            (if s = 1 then if key_bit x d then t0 else 0 else if key_bit x d then ?n - 1 else t0,
             s = 1 \<and> \<not> key_bit x d, tr[4 := 1], 2)"
          using in_tree_side [OF N(7) bp v(1) ne d_def h0 t0E(2) t0_lt ps(3) cell' ltr(1) l4(2) s_def [symmetric] refl]
          unfolding N(1) by blast
        have "SearchSecondStageTree nd d (key_bit x d) False (tr[4 := 1]) 2 =
          Some (if s = 1 then if key_bit x d then t0 else 0 else if key_bit x d then ?n - 1 else t0,
            s = 1 \<and> \<not> key_bit x d, tr[4 := 1], 2)"
          by (rule SearchSecondStageTree_two [where b = "?f t0"])
            (use ps l4 s_def tree bk [of t0] t0E t0_lt N C in auto)
        then show ?thesis using True nh ps(1) run by (intro fin [OF _ g]) simp
      next
        case False
        then have e: "ts \<noteq> ?E" "?f ts \<le> d" by (auto simp: in_tree_def ts_def s_def)
        have tsn: "Suc ts < length ?ks" using cell_in [of ts] e N(1) by (simp add: ts_def s_def)
        have ne_r: "(if s = 1 then 0 else Suc t0) < (if s = 1 then t0 else ?n - 1)"
          using is_min_in [OF side_min hE] e(1) by linarith
        have "?f ts \<noteq> d" unfolding d_def
          by (rule bl.min_ne_dif [OF N(7) bp v(1) ne, of "if s = 1 then 0 else Suc t0" "if s = 1 then t0 else ?n - 1"])
            (use is_minD [OF side_min ne_r] ps(3) p t0E N(1) in \<open>auto split: if_splits\<close>)
        then have ts_lt: "?f ts < d" using e by simp
        have "\<exists>r pos q. SearchSecondStageSeq nd p d (key_bit x d) False tr = Some r
            \<and> search_gap2 c nd ?ks x tr0 pos q d (fst r, snd r, tr, 2)"
          by (rule in_seq [OF N(7) bp v(1) ne d_def bk _ t0E(2) t0_lt ps(3) _ e(1) tsn ts_lt ltr(1) l4(2) _ ltr(2)])
            (use ps(4,5) e ts_def s_def tree in auto)
        then obtain r pos q where g: "SearchSecondStageSeq nd p d (key_bit x d) False tr = Some r"
          "search_gap2 c nd ?ks x tr0 pos q d (fst r, snd r, tr, 2)" by blast
        then show ?thesis using False run ps(1) by (intro fin [OF _ g(2)]) (simp add: case_prod_beta)
      qed
    qed
  qed
qed

end
