(* ===== verification/SeqTree_Insert.thy ===== *)
theory SeqTree_Insert
  imports SeqTree_Search
begin

text \<open>
  \<^verbatim>\<open>Insert2BlindiNodeInPosition\<close> of the sequential-tree node with two levels: the
  insertion of a missing key keeps the node well-formed, and its keys are the old ones with the new
  one in order.
\<close>

section \<open>The arrays\<close>

lemma shift_up_spec:
  assumes "0 < n \<Longrightarrow> lo + n < length xs"
  shows "\<exists>ys. shift_up xs lo n = Some ys \<and> length ys = length xs
    \<and> (\<forall>i. ys ! i = (if lo < i \<and> i \<le> lo + n then xs ! (i - 1) else xs ! i))"
proof -
  define P where "P j ys \<longleftrightarrow> length ys = length xs
    \<and> (\<forall>i. ys ! i = (if lo + j < i \<and> i \<le> lo + n then xs ! (i - 1) else xs ! i))" for j ys
  have "\<exists>ys. loop_down (\<lambda>i xs. do { x \<leftarrow> get xs i; put xs (i + 1) x }) lo n xs = Some ys \<and> P 0 ys"
  proof (rule loop_down_invariant)
    fix j ys assume j: "j < n" and P: "P (Suc j) ys"
    have "P j (ys[lo + j + 1 := ys ! (lo + j)])"
      using P j assms by (auto simp: P_def nth_list_update)
    then show "\<exists>s'. (do { x \<leftarrow> get ys (lo + j); put ys (lo + j + 1) x }) = Some s' \<and> P j s'"
      using P j assms by (auto simp: P_def)
  qed (auto simp: P_def)
  then show ?thesis by (auto simp: shift_up_def P_def)
qed

lemma breathe2_spec:
  assumes "node2_ok c db nd" "valid_len nd < NUM_SLOTS c"
  shows "\<exists>kp cms. breathe c nd = Some (nd \<lparr> currentmaxslot := cms, key_ptr := kp \<rparr>) \<and> length kp = cms
    \<and> valid_len nd < cms \<and> cms \<le> NUM_SLOTS c \<and> take (valid_len nd) kp = take (valid_len nd) (key_ptr nd)"
proof (cases "isneedbreath nd")
  case True
  then have v: "valid_len nd = currentmaxslot nd" by (simp add: isneedbreath_def)
  define cms where "cms = (if currentmaxslot nd + BREATHING_BLINDI_SIZE > NUM_SLOTS c then NUM_SLOTS c
                    else currentmaxslot nd + BREATHING_BLINDI_SIZE)"
  have cms: "valid_len nd < cms" "cms \<le> NUM_SLOTS c"
    using assms(2) v by (auto simp: cms_def BREATHING_BLINDI_SIZE_def)
  have "breathe c nd = do { kp \<leftarrow> realloc_keys (key_ptr nd) (valid_len nd) cms;
                 Some (nd \<lparr> currentmaxslot := cms, key_ptr := kp \<rparr>) }"
    using True by (simp add: breathe_def cms_def Let_def)
  then show ?thesis using cms node2_okD(3,4) [OF assms(1)]
    by (intro exI [of _ "take (valid_len nd) (key_ptr nd) @ replicate (cms - valid_len nd) 0"] exI [of _ cms])
       (simp add: realloc_keys_def)
next
  case False
  then show ?thesis using assms node2_okD(3-5) [OF assms(1)]
    by (intro exI [of _ "key_ptr nd"] exI [of _ "currentmaxslot nd"]) (auto simp: breathe_def isneedbreath_def)
qed

text \<open>
  The shifts of the two arrays put the pointer at \<open>pos\<close> and the new blindi key at \<open>q\<close>, which is \<open>pos\<close>
  or the cell before it.
\<close>

lemma insert_seq_spec:
  assumes n: "0 < valid_len nd" "valid_len nd < length (key_ptr nd)" "valid_len nd \<le> length (blindiKeys nd)"
    and pos: "pos \<le> valid_len nd" "pos = q + of_bool large" "q < valid_len nd"
    and lv: "0 < TREE_LEVELS c" "Suc (valid_len nd) < idx_mod c"
  shows "\<exists>kp bk. insert_seq c nd k (pos - 1) d large (pos = 0) =
      Some (nd \<lparr> blindiKeys := bk, key_ptr := kp, valid_len := valid_len nd + 1 \<rparr>, q)
    \<and> length kp = length (key_ptr nd) \<and> length bk = length (blindiKeys nd)
    \<and> (\<forall>i < Suc (valid_len nd). kp ! i = (if i < pos then key_ptr nd ! i else if i = pos then k else key_ptr nd ! (i - 1)))
    \<and> (\<forall>i < valid_len nd. bk ! i = ins (nth (blindiKeys nd)) q d i)"
proof -
  let ?n = "valid_len nd" and ?kp = "key_ptr nd" and ?bk = "blindiKeys nd"
  have at: "pos - 1 + 1 - of_bool (pos = 0) = pos" by simp
  show ?thesis
  proof (cases "pos = ?n")
    case True
    then have q: "large" "q = ?n - 1" "pos - 1 = ?n - 1" "pos \<noteq> 0" using pos n by (cases large; auto)+
    have "insert_seq c nd k (pos - 1) d large (pos = 0) =
      Some (nd \<lparr> blindiKeys := ?bk[q := d], key_ptr := ?kp[?n := k], valid_len := ?n + 1 \<rparr>, q)"
      unfolding insert_seq_def Let_def at using q n True lv by simp
    then show ?thesis using n q True
      by (intro exI [of _ "?kp[?n := k]"] exI [of _ "?bk[q := d]"]) (auto simp: nth_list_update ins_def)
  next
    case False
    then have lt: "pos < ?n" using pos by simp
    define ip where "ip = pos - 1"
    define m where "m = ?n - 2 - ip"
    have m: "m = 0 \<and> ?n \<le> Suc (Suc ip) \<or> ip + 1 + m = ?n - 1" by (auto simp: m_def)
    have pre: "ip + 1 + m < length ?bk" "ip + 1 + m < length ?kp" if "0 < m" using that m n by auto
    from shift_up_spec [OF pre(1)] obtain bk1 where
      bk1: "shift_up ?bk (ip + 1) m = Some bk1" "length bk1 = length ?bk"
        "\<And>i. bk1 ! i = (if ip + 1 < i \<and> i \<le> ip + 1 + m then ?bk ! (i - 1) else ?bk ! i)" by blast
    from shift_up_spec [OF pre(2)] obtain kp1 where
      kp1: "shift_up ?kp (ip + 1) m = Some kp1" "length kp1 = length ?kp"
        "\<And>i. kp1 ! i = (if ip + 1 < i \<and> i \<le> ip + 1 + m then ?kp ! (i - 1) else ?kp ! i)" by blast
    define kp2 where "kp2 = (let kp = kp1[?n := ?kp ! (?n - 1)] in if pos = 0 then kp[1 := kp ! 0] else kp)"
    define bk2 where "bk2 = (if pos = 0 \<and> 1 < ?n then bk1[1 := bk1 ! 0] else bk1)"
    define bk3 where "bk3 = (if large then bk2[pos := bk2 ! ip, ip := d] else bk2[pos := d])"
    have ip_n: "ip \<noteq> ?n - 1 \<or> pos = 0" using lt by (auto simp: ip_def)
    have lp: "large \<Longrightarrow> pos \<noteq> 0" using pos by simp
    have run: "insert_seq c nd k (pos - 1) d large (pos = 0) =
      Some (nd \<lparr> blindiKeys := bk3, key_ptr := kp2[pos := k], valid_len := ?n + 1 \<rparr>, q)"
    proof (cases "pos = 0")
      case True
      have "0 < length ?kp" "0 < length ?bk" "1 < ?n \<Longrightarrow> 1 < length ?bk" "1 < length ?kp" using n by auto
      then show ?thesis unfolding insert_seq_def Let_def at ip_def [symmetric] m_def [symmetric]
        using True n bk1(1,2) kp1(1,2) lt lv pos lp
        by (simp add: ip_def kp2_def bk2_def bk3_def Let_def)
    next
      case False
      then show ?thesis unfolding insert_seq_def Let_def at ip_def [symmetric] m_def [symmetric]
        using n bk1(1,2) kp1(1,2) lt lv pos lp ip_n
        by (auto simp: ip_def kp2_def bk2_def bk3_def Let_def)
    qed
    have nz: "kp1 \<noteq> []" "bk1 \<noteq> []" "?kp \<noteq> []" "?bk \<noteq> []" using n kp1(2) bk1(2) by auto
    have kp: "kp2[pos := k] ! i = (if i < pos then ?kp ! i else if i = pos then k else ?kp ! (i - 1))"
      if "i < Suc ?n" for i
    proof (cases "pos = 0")
      case True
      then show ?thesis using that n lt m nz kp1(2) by (auto simp: kp1(3) kp2_def Let_def ip_def nth_list_update)
    next
      case False
      then show ?thesis using that n lt m nz kp1(2) by (auto simp: kp1(3) kp2_def Let_def ip_def nth_list_update)
    qed
    have bk: "bk3 ! i = ins (nth ?bk) q d i" if "i < ?n" for i
    proof (cases "pos = 0")
      case True
      then show ?thesis using that n lt m nz bk1(2) pos lp
        by (cases large) (auto simp: bk1(3) bk3_def bk2_def ins_def ip_def nth_list_update)
    next
      case False
      then show ?thesis using that n lt m nz bk1(2) pos lp
        by (cases large) (auto simp: bk1(3) bk3_def bk2_def ins_def ip_def nth_list_update)
    qed
    show ?thesis using run kp bk kp1(2) bk1(2)
      by (intro exI [of _ "kp2[pos := k]"] exI [of _ bk3]) (simp add: kp2_def bk3_def bk2_def Let_def)
  qed
qed

section \<open>The tree\<close>

lemma tree_shift_level_step:
  assumes "get tree (lo + n) = Some t" "t = ip \<Longrightarrow> get bks ip = Some b"
    and q: "(t \<noteq> END_TREE c \<and> ip < t \<or> t = ip \<and> d = b) \<longleftrightarrow> t \<noteq> END_TREE c \<and> q \<le> t"
    and cfg: "cfg2_ok c" "t \<le> END_TREE c"
  shows "tree_shift_level c bks ip d lo (Suc n) tree =
    (if t < ip then Some tree else tree_shift_level c bks ip d lo n (tree[lo + n := up (END_TREE c) q t]))"
proof -
  have l: "lo + n < length tree" "tree ! (lo + n) = t" using assms(1) by (auto simp: arr_simps)
  consider "t < ip" | "\<not> t < ip" "t \<noteq> END_TREE c \<and> q \<le> t" | "\<not> t < ip" "\<not> (t \<noteq> END_TREE c \<and> q \<le> t)" by blast
  then show ?thesis
  proof cases
    case 1 then show ?thesis using assms by simp
  next
    case 2
    then have "t + 1 \<le> END_TREE c" using cfg by simp
    then have "to_idx c (int t + 1) = t + 1" using to_idx_id [OF cfg(1), of "t + 1"] by (simp add: add.commute)
    then show ?thesis using 2 assms l by (auto simp: up_def)
  next
    case 3
    have "tree[lo + n := t] = tree" using l by auto
    then show ?thesis using 3 assms l by (auto simp: up_def)
  qed
qed

lemma tree_shift_two:
  assumes cfg: "cfg2_ok c" and ok: "tree_ok (END_TREE c) f m tree" and m: "Suc m \<le> END_TREE c"
    and ip: "get bks ip = Some b" and q: "q = ip \<and> d = b \<or> q = Suc ip \<and> d \<noteq> b" "ip < END_TREE c"
  shows "tree_shift c bks ip d tree = Some (map (up (END_TREE c) q) tree)"
proof -
  let ?E = "END_TREE c"
  obtain t0 t1 t2 where tree: "tree = [t0, t1, t2]"
    using ok by (auto simp: tree_ok_def numeral_3_eq_3 length_Suc_conv)
  have r: "is_min ?E f 0 m t0" "is_min ?E f 0 (if m = 0 then 0 else t0) t1" "is_min ?E f (if m = 0 then m else Suc t0) m t2"
    using ok by (auto simp: tree_ok_def tree)
  have le: "t0 \<le> ?E" "t1 \<le> ?E" "t2 \<le> ?E" using r m by (auto simp: is_min_def split: if_splits)
  have eq: "(t \<noteq> ?E \<and> ip < t \<or> t = ip \<and> d = b) \<longleftrightarrow> t \<noteq> ?E \<and> q \<le> t" for t using q by auto
  note step = tree_shift_level_step [where bks = bks and b = b and ip = ip and q = q, OF _ ip eq cfg]
  have left: "t2 < ip \<Longrightarrow> up ?E q t1 = t1"
    using r(2,3) q le by (auto simp: up_def is_min_def split: if_splits)
  have stay: "t < ip \<Longrightarrow> up ?E q t = t" for t using q by (auto simp: up_def)
  have 0: "tree_shift_level c bks ip d 0 (Suc 0) tree = Some [up ?E q t0, t1, t2]"
    using step [of tree 0 0 t0] le stay [of t0] by (simp add: tree)
  have 1: "tree_shift_level c bks ip d (Suc 0) (Suc (Suc 0)) [a, t1, t2] = Some [a, up ?E q t1, up ?E q t2]" for a
    using step [of "[a, t1, t2]" "Suc 0" "Suc 0" t2] step [of "[a, t1, up ?E q t2]" "Suc 0" 0 t1] le left stay [of t1] stay [of t2]
    by (simp del: tree_shift_level.simps) (auto simp del: tree_shift_level.simps(2))
  show ?thesis
    unfolding tree_shift_def cfg2_okD(1) [OF cfg] using 0 1
    by (simp add: tree numeral_2_eq_2 del: tree_shift_level.simps)
qed

lemma tree_push_two:
  assumes cfg: "cfg2_ok c" and tree: "tree = [a0, a1, a2]" and q: "q \<le> END_TREE c" and tr: "2 < length tr"
  shows "tr ! 2 = 0 \<Longrightarrow> tree_push c tree q tr 1 =
      Some [q, if a0 < q then a0 else END_TREE c, if a0 < q then END_TREE c else a0]"
    and "tr ! 2 = s \<Longrightarrow> s < 3 \<Longrightarrow> tree_push c tree q tr 2 = Some (tree[s := q])"
  using assms cfg2_okD(1,8) [OF cfg] by (auto simp: tree_push_def Let_def to_idx_id)

lemma tree_ok_cong: "(\<And>j. j < m \<Longrightarrow> f j = g j) \<Longrightarrow> tree_ok E f m tree = tree_ok E g m tree"
proof -
  assume eq: "\<And>j. j < m \<Longrightarrow> f j = g j"
  have 0: "is_min E f lo hi t = is_min E g lo hi t" if "hi \<le> m" for lo hi t
    using eq that by (intro is_min_cong) simp
  have "is_min E f 0 m (tree ! 0) \<Longrightarrow> 0 < m \<Longrightarrow> tree ! 0 < m" by (simp add: is_min_def)
  then show ?thesis using 0 by (cases "m = 0") (auto simp: tree_ok_def)
qed

text \<open>The tree after the shift and the push, from what the search found.\<close>

lemma tree_insert:
  assumes cfg: "cfg2_ok c" and ok: "tree_ok (END_TREE c) f m tree" and m: "Suc m \<le> END_TREE c" and q: "q \<le> m"
    and ti: "tree_info f m tree (END_TREE c) q d tr len" and tr: "4 < length tr"
    and ip: "get bks ip = Some b" "q = ip \<and> d = b \<or> q = Suc ip \<and> d \<noteq> b"
  shows "\<exists>tree'. do { tree \<leftarrow> tree_shift c bks ip d tree; t4 \<leftarrow> get tr 4;
      (if t4 = 1 then tree_push c tree q tr len else Some tree) } = Some tree'
    \<and> tree_ok (END_TREE c) (ins f q d) (Suc m) tree'"
proof -
  let ?E = "END_TREE c" and ?sh = "map (up (END_TREE c) q) tree"
  have sh: "tree_shift c bks ip d tree = Some ?sh"
    by (rule tree_shift_two [OF cfg ok m ip]) (use ip m q in auto)
  obtain t0 t1 t2 where tree: "tree = [t0, t1, t2]"
    using ok by (auto simp: tree_ok_def numeral_3_eq_3 length_Suc_conv)
  have h0: "tree ! 0 = t0" by (simp add: tree)
  note push = tree_push_two [OF cfg, of ?sh "up ?E q t0" "up ?E q t1" "up ?E q t2" q tr]
  from ti [unfolded tree_info_def] consider
    (root) "tr ! 4 = 1" "tr ! 2 = 0" "len = 1" "q = 0 \<or> q = m" "\<forall>j < m. d < f j"
  | (new) "0 < m" "len = 2" "f (tree ! 0) < d" "tr ! 2 = (if q \<le> tree ! 0 then 1 else 2)" "tr ! 4 = 1"
      "\<forall>j. (if q \<le> tree ! 0 then j < tree ! 0 else tree ! 0 < j \<and> j < m) \<longrightarrow> d < f j"
  | (old) "0 < m" "len = 2" "f (tree ! 0) < d" "tr ! 2 = (if q \<le> tree ! 0 then 1 else 2)" "tr ! 4 = 0"
      "tree ! (tr ! 2) \<noteq> ?E" "f (tree ! (tr ! 2)) < d"
    by (elim disjE conjE) simp_all
  then show ?thesis
  proof cases
    case r: root
    have "tree_ok ?E (ins f q d) (Suc m) [q, if up ?E q t0 < q then up ?E q t0 else ?E, if up ?E q t0 < q then ?E else up ?E q t0]"
      by (rule tree_ok_ins_root [OF ok r(4) _ m, of d, unfolded h0]) (use r(5) in simp)
    then show ?thesis using sh push(1) r tr m q by (simp add: tree)
  next
    case r: new
    have "tree_ok ?E (ins f q d) (Suc m) (?sh[(if q \<le> tree ! 0 then 1 else 2) := q])"
      using tree_ok_ins_side [OF ok r(1) m q r(3), of True] r(6) by simp
    then show ?thesis using sh push(2) [of "tr ! 2"] r tr m q by (simp add: tree)
  next
    case r: old
    have im: "is_min ?E f 0 t0 t1" "is_min ?E f (Suc t0) m t2" using ok r(1) by (auto simp: tree_ok_def tree)
    have "\<not> (\<forall>j. (if q \<le> tree ! 0 then j < tree ! 0 else tree ! 0 < j \<and> j < m) \<longrightarrow> d < f j)"
      using r(4,6,7) im by (cases "q \<le> t0") (auto simp: tree is_min_def split: if_splits intro: exI [of _ t1] exI [of _ t2])
    then have "tree_ok ?E (ins f q d) (Suc m) ?sh"
      using tree_ok_ins_side [OF ok r(1) m q r(3), of False] r(4,7) by simp
    then show ?thesis using sh r tr by simp
  qed
qed

section \<open>The node\<close>

lemma map_insert:
  assumes "length xs = n" "pos \<le> n" "\<And>i. i < Suc n \<Longrightarrow> ys ! i = (if i < pos then xs ! i else if i = pos then k else xs ! (i - 1))"
    "n < length ys"
  shows "take (Suc n) ys = take pos xs @ k # drop pos xs"
proof (rule nth_equalityI)
  fix i assume "i < length (take (Suc n) ys)"
  then have i: "i < Suc n" by simp
  then have "take (Suc n) ys ! i = ys ! i" by simp
  then show "take (Suc n) ys ! i = (take pos xs @ k # drop pos xs) ! i"
    using i assms(1,2) by (auto simp: assms(3) nth_append nth_Cons' min_def)
qed (use assms in auto)

lemma Insert2BlindiNodeInPosition2_spec:
  assumes cfg: "cfg2_ok c" and ok: "node2_ok c db nd" and room: "valid_len nd < NUM_SLOTS c"
    and x: "length (db k) = KEY_LEN c" and tr0: "6 \<le> length tr0"
    and gap: "search_gap2 c nd (node_keys db nd) (db k) tr0 pos q d (ip, smaller, tr, len)"
  shows "\<exists>nd'. Insert2BlindiNodeInPosition c nd k ip d (key_bit (db k) d) smaller tr len = Some nd' \<and> node2_ok c db nd'
    \<and> take (valid_len nd') (key_ptr nd') = take pos (take (valid_len nd) (key_ptr nd)) @ k # drop pos (take (valid_len nd) (key_ptr nd))"
proof -
  let ?ks = "node_keys db nd" and ?n = "valid_len nd" and ?x = "db k" and ?E = "END_TREE c"
  note C = cfg2_okD [OF cfg] and N = node2_okD [OF ok]
  have g: "ip = pos - 1" "smaller = (pos = 0)" "length tr = length tr0" "bl.gap ?ks ?x pos q d"
    "pos = q + of_bool (key_bit ?x d)" "tree_info (bdif ?ks) (?n - 1) (blindiTree nd) ?E q d tr len"
    using gap N(1) by (auto simp: search_gap2_def)
  have pq: "pos \<le> ?n" "q < ?n" using g(4) N(1) by (auto simp: bl.gap_def)
  from breathe2_spec [OF ok room] obtain kp1 cms where
    br: "breathe c nd = Some (nd \<lparr> currentmaxslot := cms, key_ptr := kp1 \<rparr>)" "length kp1 = cms" "?n < cms"
      "cms \<le> NUM_SLOTS c" "take ?n kp1 = take ?n (key_ptr nd)" by blast
  define nd1 where "nd1 = nd \<lparr> currentmaxslot := cms, key_ptr := kp1 \<rparr>"
  have "\<exists>kp bk. insert_seq c nd1 k (pos - 1) d (key_bit ?x d) (pos = 0) =
      Some (nd1 \<lparr> blindiKeys := bk, key_ptr := kp, valid_len := valid_len nd1 + 1 \<rparr>, q)
    \<and> length kp = length (key_ptr nd1) \<and> length bk = length (blindiKeys nd1)
    \<and> (\<forall>i < Suc (valid_len nd1). kp ! i = (if i < pos then key_ptr nd1 ! i else if i = pos then k else key_ptr nd1 ! (i - 1)))
    \<and> (\<forall>i < valid_len nd1. bk ! i = ins (nth (blindiKeys nd1)) q d i)"
    by (rule insert_seq_spec) (use N(2,6) br(2,3) pq g(5) C(1,3,7) room in \<open>auto simp: nd1_def\<close>)
  then obtain kp bk where sq: "insert_seq c nd1 k (pos - 1) d (key_bit ?x d) (pos = 0) =
      Some (nd1 \<lparr> blindiKeys := bk, key_ptr := kp, valid_len := ?n + 1 \<rparr>, q)"
    "length kp = cms" "length bk = NUM_SLOTS c - 1"
    "\<And>i. i < Suc ?n \<Longrightarrow> kp ! i = (if i < pos then kp1 ! i else if i = pos then k else kp1 ! (i - 1))"
    "\<And>i. i < ?n \<Longrightarrow> bk ! i = ins (nth (blindiKeys nd)) q d i"
    using br(2) N(6) by (auto simp: nd1_def)
  let ?f' = "ins (bdif ?ks) q d"
  have bk: "bk ! i = ?f' i" if "i < ?n" for i
    using sq(5) [OF that] N(8) [of i] N(8) [of "i - 1"] that pq(2) by (auto simp: ins_def)
  have ip: "get bk ip = Some (?f' ip)" "q = ip \<and> d = ?f' ip \<or> q = Suc ip \<and> d \<noteq> ?f' ip"
  proof -
    have l: "ip < ?n" using g(1) pq N(2) by auto
    then show "get bk ip = Some (?f' ip)" using bk sq(3) room by simp
    show "q = ip \<and> d = ?f' ip \<or> q = Suc ip \<and> d \<noteq> ?f' ip"
    proof (cases "key_bit ?x d \<or> pos = 0")
      case True then show ?thesis using g(1,5) by auto
    next
      case False
      then have q: "q = pos" "0 < pos" "q = Suc ip" using g(1,5) by auto
      have ipl: "ip < length ?ks" using l N(1) by simp
      have v: "key_of_len (KEY_LEN c) (?ks ! ip)" "key_of_len (KEY_LEN c) ?x"
        using bl.ordered_valid [OF N(7) ipl] x by (auto simp: key_of_len_def)
      have "key_less (?ks ! ip) ?x" "key_dif (?ks ! ip) ?x = bdif ?ks ip" using g(1,4) q by (auto simp: bl.gap_def)
      then have "key_bit ?x (bdif ?ks ip)" using bl.lt_bits [OF v] by simp
      then show ?thesis using q False by (auto simp: ins_def)
    qed
  qed
  have m: "Suc (?n - 1) = ?n" using N(2) by simp
  have "\<exists>tree'. do { tree \<leftarrow> tree_shift c bk ip d (blindiTree nd); t4 \<leftarrow> get tr 4;
      (if t4 = 1 then tree_push c tree q tr len else Some tree) } = Some tree'
    \<and> tree_ok ?E ?f' (Suc (?n - 1)) tree'"
    by (rule tree_insert [OF cfg N(9) _ _ g(6) _ ip]) (use m pq C(3) room tr0 g(3) in auto)
  then obtain tree' where tree': "do { tree \<leftarrow> tree_shift c bk ip d (blindiTree nd); t4 \<leftarrow> get tr 4;
      (if t4 = 1 then tree_push c tree q tr len else Some tree) } = Some tree'" "tree_ok ?E ?f' ?n tree'"
    unfolding m by blast
  define nd' where "nd' = nd \<lparr> currentmaxslot := cms, blindiKeys := bk, key_ptr := kp, valid_len := ?n + 1, blindiTree := tree' \<rparr>"
  have run: "Insert2BlindiNodeInPosition c nd k ip d (key_bit ?x d) smaller tr len = Some nd'"
  proof -
    have b: "breathe c nd = Some nd1" using br(1) by (simp add: nd1_def)
    have t: "blindiTree (nd1 \<lparr> blindiKeys := bk, key_ptr := kp, valid_len := ?n + 1 \<rparr>) = blindiTree nd"
      by (simp add: nd1_def)
    have "do { tree \<leftarrow> tree_shift c bk ip d (blindiTree nd); t4 \<leftarrow> get tr 4;
        tree \<leftarrow> (if t4 = 1 then tree_push c tree q tr len else Some tree); Some (nd2 \<lparr> blindiTree := tree \<rparr>) } =
      Some (nd2 \<lparr> blindiTree := tree' \<rparr>)" for nd2 :: node
      using arg_cong [OF tree'(1), of "\<lambda>r. r \<bind> (\<lambda>tree. Some (nd2 \<lparr> blindiTree := tree \<rparr>))"] by simp
    then show ?thesis
      unfolding Insert2BlindiNodeInPosition_def b g(1,2) using sq(1) C(1) t
      by (simp add: nd'_def nd1_def g(1))
  qed
  have kp: "take (Suc ?n) kp = take pos (take ?n (key_ptr nd)) @ k # drop pos (take ?n (key_ptr nd))"
  proof (rule map_insert)
    show "kp ! i = (if i < pos then take ?n (key_ptr nd) ! i else if i = pos then k else take ?n (key_ptr nd) ! (i - 1))"
      if "i < Suc ?n" for i
      using that sq(4) [OF that] pq by (auto simp flip: br(5))
  qed (use N(3) pq sq(2) br(3) in auto)
  have ks': "node_keys db nd' = take pos ?ks @ ?x # drop pos ?ks"
    unfolding node_keys_def using kp by (simp add: nd'_def take_map drop_map)
  have "node2_ok c db nd'"
    unfolding node2_ok_def ks'
  proof (intro conjI allI impI)
    show "bl.ordered (KEY_LEN c) (take pos ?ks @ ?x # drop pos ?ks)"
      by (rule bl.ordered_gap [OF N(7) _ g(4)]) (use x in \<open>simp add: key_of_len_def\<close>)
    have f': "bdif (take pos ?ks @ ?x # drop pos ?ks) i = ?f' i" if "i < ?n" for i
      using bl.bks_gap [OF g(4)] that N(1) by (simp add: ins_def)
    show "tree_ok ?E (bdif (take pos ?ks @ ?x # drop pos ?ks)) (valid_len nd' - 1) (blindiTree nd')"
    proof -
      have "tree_ok ?E (bdif (take pos ?ks @ ?x # drop pos ?ks)) ?n tree' = tree_ok ?E ?f' ?n tree'"
        by (rule tree_ok_cong) (rule f')
      then show ?thesis using tree'(2) by (simp add: nd'_def)
    qed
    show "blindiKeys nd' ! i = bdif (take pos ?ks @ ?x # drop pos ?ks) i" if "Suc i < valid_len nd'" for i
      using that f' bk by (simp add: nd'_def)
  qed (use sq(2,3) br(3,4) in \<open>simp_all add: nd'_def\<close>)
  then show ?thesis using run kp by (auto simp: nd'_def)
qed

section \<open>The keys and the map of a node\<close>

definition node_ptrs :: "node \<Rightarrow> ptr list" where
  "node_ptrs nd = take (valid_len nd) (key_ptr nd)"

text \<open>What a node means to its clients: a finite map from keys to the records that hold them.\<close>

definition node_map :: "db \<Rightarrow> node \<Rightarrow> byte list \<Rightarrow> ptr option" where
  "node_map db nd x = find (\<lambda>p. db p = x) (node_ptrs nd)"

lemma node_keys_ptrs: "node_keys db nd = map db (node_ptrs nd)"
  by (simp add: node_keys_def node_ptrs_def)

lemma find_distinct:
  assumes "distinct (map g ps)"
  shows "find (\<lambda>p. g p = x) ps = Some p \<longleftrightarrow> p \<in> set ps \<and> g p = x"
  using assms by (induction ps) (auto simp: image_iff)

lemma node_map_dom: "dom (node_map db nd) = set (node_keys db nd)"
  unfolding set_eq_iff domIff node_map_def node_keys_ptrs by (auto simp: find_None_iff)

lemma first_insert_spec:
  assumes cfg: "cfg2_ok c" and k: "length (db k) = KEY_LEN c" and bk: "length (blindiKeys nd) = NUM_SLOTS c - 1"
  shows "\<exists>nd'. first_insert c nd k = Some nd' \<and> node2_ok c db nd' \<and> node_ptrs nd' = [k]"
proof -
  note C = cfg2_okD [OF cfg]
  have l: "0 < NUM_SLOTS c" "0 < length (blindiKeys nd)" using C(2) bk by auto
  define nd' where "nd' = nd \<lparr> currentmaxslot := NUM_SLOTS c, key_ptr := (replicate (NUM_SLOTS c) 0)[0 := k],
    blindiKeys := (blindiKeys nd)[0 := 0], blindiTree := replicate (TREE_SIZE c) (END_TREE c), valid_len := 1 \<rparr>"
  have run: "first_insert c nd k = Some nd'" using l C(1) by (simp add: first_insert_def nd'_def)
  have ps: "node_ptrs nd' = [k]" using l by (cases "NUM_SLOTS c") (auto simp: node_ptrs_def nd'_def)
  have "node2_ok c db nd'" unfolding node2_ok_def node_keys_ptrs ps
    using l C bk k by (simp add: nd'_def bl.ordered_def key_of_len_def tree_ok_def numeral_3_eq_3)
  then show ?thesis using run ps by blast
qed

end
