(* ===== verification/SeqTree_Build.thy ===== *)
theory SeqTree_Build
  imports SeqTree_Insert
begin

text \<open>
  Nodes built from other nodes: the tree computed from the blindi keys, a node built from the arrays of an ordinary
  leaf (\<open>transfer_btree2blindi\<close>), the split of a full node and the handing over to a larger class.
\<close>

section \<open>Computing a cell of the tree from the blindi keys\<close>

text \<open>Between two equal values there is a smaller one: the least value of a slice occurs once.\<close>

definition no_ties :: "(nat \<Rightarrow> nat) \<Rightarrow> nat \<Rightarrow> bool" where
  "no_ties f m \<longleftrightarrow> (\<forall>i j. i < j \<and> j < m \<and> f i = f j \<longrightarrow> (\<exists>k. i < k \<and> k < j \<and> f k < f i))"

lemma ordered_no_ties: "bl.ordered L ks \<Longrightarrow> no_ties (bdif ks) (length ks - 1)"
  unfolding no_ties_def using bl.bks_between by (metis less_diff_conv Suc_eq_plus1)

lemma no_ties_is_min:
  assumes nt: "no_ties f m" and t: "lo \<le> t" "t < hi" "hi \<le> m" and le: "\<And>j. lo \<le> j \<Longrightarrow> j < hi \<Longrightarrow> f t \<le> f j"
  shows "is_min E f lo hi t"
proof (rule is_minI [OF t(1,2)])
  fix j assume j: "lo \<le> j" "j < hi" "j \<noteq> t"
  have "f t \<noteq> f j"
  proof
    assume e: "f t = f j"
    obtain a b where ab: "a < b" "{a, b} = {t, j}" using j(3) by (metis insert_commute linorder_neqE_nat)
    then have "b < m" "f a = f b" "lo \<le> a" "b < hi" using j t e by (auto simp: doubleton_eq_iff)
    then obtain k where "a < k" "k < b" "f k < f a" using nt ab unfolding no_ties_def by blast
    moreover have "f a = f t" using ab e by (auto simp: doubleton_eq_iff)
    ultimately show False using le [of k] \<open>lo \<le> a\<close> \<open>b < hi\<close> by simp
  qed
  then show "f t < f j" using le [OF j(1,2)] by simp
qed

lemma min_pos_value_spec:
  assumes bk: "\<And>i. lo \<le> i \<Longrightarrow> i < hi \<Longrightarrow> get bks i = Some (f i) \<and> f i < END_TREE c" and nt: "no_ties f m" "hi \<le> m"
    and e: "e = int hi - 1"
  shows "\<exists>t. min_pos_value_in_range c bks lo e = Some t \<and> is_min (END_TREE c) f lo hi t"
proof -
  define n where "n = hi - lo"
  have rounds: "nat (e + 1 - int lo) = n" by (simp add: e n_def)
  define P where "P i s \<longleftrightarrow> (if i \<le> lo then s = (END_TREE c, END_TREE c)
     else lo \<le> fst s \<and> fst s < i \<and> snd s = f (fst s) \<and> (\<forall>j. lo \<le> j \<and> j < i \<longrightarrow> f (fst s) \<le> f j))" for i and s :: "nat \<times> nat"
  have step: "\<exists>s'. (\<lambda>(min_pos, min_value). do { b \<leftarrow> get bks i; Some (if b < min_value then (i, b) else (min_pos, min_value)) }) s = Some s'
      \<and> P (Suc i) s'" if i: "lo \<le> i" "i < lo + n" "P i s" for i s
  proof -
    obtain p v where s: "s = (p, v)" by (cases s)
    have b: "get bks i = Some (f i)" "f i < END_TREE c" using bk [of i] i by (auto simp: n_def)
    show ?thesis
    proof (cases "i = lo")
      case True then show ?thesis using b i(3) by (auto simp: P_def s less_Suc_eq)
    next
      case False
      then have "lo \<le> p" "p < i" "v = f p" "\<forall>j. lo \<le> j \<and> j < i \<longrightarrow> f p \<le> f j" using i(1,3) by (auto simp: P_def s)
      then show ?thesis using b i(1) by (auto simp: P_def s less_Suc_eq)
    qed
  qed
  have "\<exists>s'. loop_up (\<lambda>i (min_pos, min_value). do { b \<leftarrow> get bks i; Some (if b < min_value then (i, b) else (min_pos, min_value)) })
      lo n (END_TREE c, END_TREE c) = Some s' \<and> P (lo + n) s'"
    by (rule loop_up_invariant) (use step in \<open>auto simp: P_def\<close>)
  then obtain t v where r: "loop_up (\<lambda>i (min_pos, min_value). do { b \<leftarrow> get bks i; Some (if b < min_value then (i, b) else (min_pos, min_value)) })
      lo n (END_TREE c, END_TREE c) = Some (t, v)" "P (lo + n) (t, v)" by (metis surj_pair)
  have "is_min (END_TREE c) f lo hi t"
  proof (cases "lo < hi")
    case True
    then have "lo \<le> t" "t < hi" "\<And>j. lo \<le> j \<Longrightarrow> j < hi \<Longrightarrow> f t \<le> f j" using r(2) by (auto simp: P_def n_def split: if_splits)
    then show ?thesis by (intro no_ties_is_min [OF nt(1) _ _ nt(2)])
  next
    case False then show ?thesis using r(2) by (simp add: P_def n_def is_min_def)
  qed
  then show ?thesis using r(1) by (simp add: min_pos_value_in_range_def rounds)
qed

text \<open>The cells of a tree of two levels, one after the other.\<close>

definition bks_are :: "config \<Rightarrow> nat list \<Rightarrow> nat \<Rightarrow> (nat \<Rightarrow> nat) \<Rightarrow> bool" where
  "bks_are c bks m f \<longleftrightarrow> m \<le> length bks \<and> m < END_TREE c \<and> (\<forall>i < m. bks ! i = f i \<and> f i < END_TREE c) \<and> no_ties f m"

lemma bks_are_min:
  assumes b: "bks_are c bks m f" and "hi \<le> m" "e = int hi - 1"
  shows "\<exists>t. min_pos_value_in_range c bks lo e = Some t \<and> is_min (END_TREE c) f lo hi t"
  by (rule min_pos_value_spec [where m = m and f = f]) (use assms in \<open>auto simp: bks_are_def get_def\<close>)

lemma is_min_le: "is_min E f lo hi t \<Longrightarrow> hi \<le> E \<Longrightarrow> t \<le> E"
  by (auto simp: is_min_def split: if_splits)

lemma update_from_seq_spec:
  assumes cfg: "cfg2_ok c" and b: "bks_are c bks (len - 1) f" and len: "2 \<le> len" and tree: "length tree = 3" and pos: "pos < 3"
    and root: "0 < pos \<Longrightarrow> is_min (END_TREE c) f 0 (len - 1) (tree ! 0)"
  shows "\<exists>t. update_blindiTree_from_seq c bks len pos tree = Some (tree[pos := t])
    \<and> is_min (END_TREE c) f (if pos = 2 then Suc (tree ! 0) else 0) (if pos = 1 then tree ! 0 else len - 1) t"
proof -
  have mE: "len - 1 \<le> END_TREE c" using b by (simp add: bks_are_def)
  have r: "0 < pos \<Longrightarrow> tree ! 0 < len - 1" using root is_minD(2) [of "END_TREE c" f 0 "len - 1" "tree ! 0"] len by auto
  define lo where "lo = (if pos = 2 then Suc (tree ! 0) else 0)"
  define hi where "hi = (if pos = 1 then tree ! 0 else len - 1)"
  have "hi \<le> len - 1" using r pos by (auto simp: hi_def)
  from bks_are_min [OF b this, of "int hi - 1" lo] obtain t where
    t: "min_pos_value_in_range c bks lo (int hi - 1) = Some t" "is_min (END_TREE c) f lo hi t" by auto
  have tE: "t \<le> END_TREE c" using is_min_le [OF t(2)] \<open>hi \<le> len - 1\<close> mE by simp
  have "bring_edges_seq_from_pos tree len pos = Some (lo, int hi - 1)"
    using pos tree len by (auto simp: bring_edges_seq_from_pos_def lo_def hi_def)
  then have "update_blindiTree_from_seq c bks len pos tree = Some (tree[pos := t])"
    using t(1) cfg tE pos tree by (simp add: update_blindiTree_from_seq_def)
  then show ?thesis using t(2) by (auto simp: lo_def hi_def)
qed

section \<open>Building a node from an ordinary leaf\<close>

lemma bks_are_keys:
  assumes "cfg2_ok c" "bl.ordered (KEY_LEN c) ks" "length ks \<le> NUM_SLOTS c" "length bks = NUM_SLOTS c - 1" "0 < length ks"
    "\<And>i. Suc i < length ks \<Longrightarrow> bks ! i = bdif ks i"
  shows "bks_are c bks (length ks - 1) (bdif ks)"
  unfolding bks_are_def
proof (intro conjI allI impI)
  show "length ks - 1 \<le> length bks" using assms(3,4) by simp
  show "length ks - 1 < END_TREE c" using assms(3,5) cfg2_okD(3) [OF assms(1)] by linarith
  show "no_ties (bdif ks) (length ks - 1)" by (rule ordered_no_ties [OF assms(2)])
  fix i assume i: "i < length ks - 1"
  then show "bks ! i = bdif ks i" using assms(6) [of i] by simp
  have "bdif ks i < 8 * KEY_LEN c" using i by (intro bdif_bound [OF assms(2)]) simp
  then show "bdif ks i < END_TREE c" using cfg2_okD(5) [OF assms(1)] by simp
qed

lemma tree_of_three: "length tree = 3 \<Longrightarrow> tree = [tree ! 0, tree ! 1, tree ! 2]"
  by (auto simp: numeral_3_eq_3 length_Suc_conv)

lemma parent_pos_two [simp]: "parent_pos (Suc 0) = 0" "parent_pos 2 = 0"
  by (simp_all add: parent_pos_def)

text \<open>The loop over the keys: blindi keys, pointers and the running minimum in the root.\<close>

lemma transfer_loop:
  fixes ps kp0 :: "ptr list"
  assumes cfg: "cfg2_ok c" and o: "bl.ordered (KEY_LEN c) ks" and len: "length ks = n" "2 \<le> n" "n \<le> NUM_SLOTS c" "length ps = n"
    and bk: "length bk0 = NUM_SLOTS c - 1" and kp: "n \<le> length kp0" and tree: "length tree0 = 3" "tree0 ! 0 = 0"
  shows "\<exists>bks kp t. loop_up (\<lambda>i (bks, kp, tree). do {
            k0 \<leftarrow> get ks i;
            k1 \<leftarrow> get ks (i + 1);
            (d, _, _) \<leftarrow> CompareStage k0 k1 False (KEY_LEN c) (KEY_LEN c);
            bks \<leftarrow> put bks i d;
            tree \<leftarrow> (if TREE_LEVELS c > 0 then
                do { t \<leftarrow> get tree 0; b \<leftarrow> get bks t; put tree 0 (if d < b then to_idx c (int i) else t) }
              else Some tree);
            p \<leftarrow> get ps i;
            kp \<leftarrow> put kp i p;
            Some (bks, kp, tree) }) 0 (n - 1) (bk0, kp0, tree0) = Some (bks, kp, tree0[0 := t])
    \<and> length bks = length bk0 \<and> length kp = length kp0 \<and> (\<forall>i < n - 1. bks ! i = bdif ks i \<and> kp ! i = ps ! i)
    \<and> (\<forall>i. n - 1 \<le> i \<and> i < length kp0 \<longrightarrow> kp ! i = kp0 ! i)
    \<and> is_min (END_TREE c) (bdif ks) 0 (n - 1) t"
proof -
  let ?f = "bdif ks"
  define P where "P i s \<longleftrightarrow> (\<exists>bks kp t. s = (bks, kp, tree0[0 := t]) \<and> length bks = length bk0 \<and> length kp = length kp0
    \<and> (\<forall>j < i. bks ! j = ?f j \<and> kp ! j = ps ! j) \<and> (\<forall>j. i \<le> j \<and> j < length kp0 \<longrightarrow> kp ! j = kp0 ! j)
    \<and> (if i = 0 then t = 0 else t < i \<and> (\<forall>j < i. ?f t \<le> ?f j)))" for i and s :: "nat list \<times> nat list \<times> nat list"
  let ?g = "\<lambda>i (bks, kp, tree). do {
            k0 \<leftarrow> get ks i;
            k1 \<leftarrow> get ks (i + 1);
            (d, _, _) \<leftarrow> CompareStage k0 k1 False (KEY_LEN c) (KEY_LEN c);
            bks \<leftarrow> put bks i d;
            tree \<leftarrow> (if TREE_LEVELS c > 0 then
                do { t \<leftarrow> get tree 0; b \<leftarrow> get bks t; put tree 0 (if d < b then to_idx c (int i) else t) }
              else Some tree);
            p \<leftarrow> get ps i;
            kp \<leftarrow> put kp i p;
            Some (bks, kp, tree) }"
  have step: "\<exists>s'. ?g i s = Some s' \<and> P (Suc i) s'" if i: "i < n - 1" and P: "P i s" for i s
  proof -
    obtain bks kp t where s: "s = (bks, kp, tree0[0 := t])" "length bks = length bk0" "length kp = length kp0"
      "\<forall>j < i. bks ! j = ?f j \<and> kp ! j = ps ! j" "\<forall>j. i \<le> j \<and> j < length kp0 \<longrightarrow> kp ! j = kp0 ! j"
      "if i = 0 then t = 0 else t < i \<and> (\<forall>j < i. ?f t \<le> ?f j)" using P by (auto simp: P_def)
    have k: "i < length ks" "Suc i < length ks" using i len by auto
    have v: "key_of_len (KEY_LEN c) (ks ! i)" "key_of_len (KEY_LEN c) (ks ! Suc i)" using bl.ordered_valid [OF o] k by auto
    have "ks ! i \<noteq> ks ! Suc i" using bl.ordered_lt [OF o, of i "Suc i"] k bl.lt_irrefl by auto
    then have cs: "CompareStage (ks ! i) (ks ! Suc i) False (KEY_LEN c) (KEY_LEN c) = Some (?f i, False, key_less (ks ! Suc i) (ks ! i))"
      using CompareStage_eq [OF v, of False] by (simp add: bl.bks_def)
    have ib: "i < length bks" "i < length kp" "i < length ps" using i len s(2,3) bk kp by auto
    let ?b = "bks[i := ?f i]"
    have t: "t < length ?b" "t \<le> i" using s(6) ib by (auto split: if_splits)
    have bt: "?b ! t = ?f t" using s(4,6) ib by (cases "t = i") (auto split: if_splits)
    have iE: "i \<le> END_TREE c" using i len cfg2_okD(3) [OF cfg] by simp
    define t' where "t' = (if ?f i < ?f t then i else t)"
    have "?g i s = Some (?b, kp[i := ps ! i], tree0[0 := t'])"
      using k ib cs t bt tree cfg cfg2_okD(1) [OF cfg] iE by (simp add: s(1) t'_def)
    moreover have "P (Suc i) (?b, kp[i := ps ! i], tree0[0 := t'])"
      unfolding P_def
    proof (rule exI [of _ ?b], rule exI [of _ "kp[i := ps ! i]"], rule exI [of _ t'], intro conjI)
      show "\<forall>j < Suc i. ?b ! j = ?f j \<and> kp[i := ps ! i] ! j = ps ! j" using s(4) ib by (auto simp: less_Suc_eq)
      show "\<forall>j. Suc i \<le> j \<and> j < length kp0 \<longrightarrow> kp[i := ps ! i] ! j = kp0 ! j" using s(5) by auto
      show "if Suc i = 0 then t' = 0 else t' < Suc i \<and> (\<forall>j < Suc i. ?f t' \<le> ?f j)"
        using s(6) by (cases "i = 0") (auto simp: t'_def less_Suc_eq intro: less_imp_le dest: order.strict_trans2)
    qed (use s in auto)
    ultimately show ?thesis by blast
  qed
  have init: "P 0 (bk0, kp0, tree0)" using tree list_update_id [of tree0 0] by (auto simp: P_def)
  have "\<exists>s'. loop_up ?g 0 (n - 1) (bk0, kp0, tree0) = Some s' \<and> P (0 + (n - 1)) s'"
    by (rule loop_up_invariant [where P = P]) (use init step in auto)
  then obtain bks kp t where r: "loop_up ?g 0 (n - 1) (bk0, kp0, tree0) = Some (bks, kp, tree0[0 := t])"
    "length bks = length bk0" "length kp = length kp0" "\<forall>j < n - 1. bks ! j = ?f j \<and> kp ! j = ps ! j"
    "\<forall>j. n - 1 \<le> j \<and> j < length kp0 \<longrightarrow> kp ! j = kp0 ! j" "t < n - 1" "\<forall>j < n - 1. ?f t \<le> ?f j"
    using len by (auto simp: P_def)
  have "is_min (END_TREE c) ?f 0 (n - 1) t"
    using r(6,7) ordered_no_ties [OF o] len by (intro no_ties_is_min [where m = "n - 1"]) auto
  then show ?thesis using r by blast
qed

lemma tree_ok_of_cells:
  assumes "length tree = 3" "0 < m" "m \<le> E" "is_min E f 0 m (tree ! 0)" "is_min E f 0 (tree ! 0) (tree ! 1)"
    "is_min E f (Suc (tree ! 0)) m (tree ! 2)"
  shows "tree_ok E f m tree"
  using assms by (simp add: tree_ok_def)

text \<open>The arrays a constructed node has.\<close>

definition raw_node2 :: "config \<Rightarrow> node \<Rightarrow> bool" where
  "raw_node2 c nd \<longleftrightarrow> length (blindiTree nd) = 3 \<and> length (blindiKeys nd) = NUM_SLOTS c - 1"

lemma new_node_raw2: "cfg2_ok c \<Longrightarrow> raw_node2 c (new_node c)"
  by (simp add: raw_node2_def new_node_def cfg2_okD(8))

lemma transfer_btree2blindi2_spec:
  assumes cfg: "cfg2_ok c" and raw: "raw_node2 c nd" and o: "bl.ordered (KEY_LEN c) ks"
    and len: "length ks = n" "2 \<le> n" "n \<le> NUM_SLOTS c" and ps: "map db ps = ks"
  shows "\<exists>nd'. transfer_btree2blindi c nd n ks ps = Some nd' \<and> node2_ok c db nd' \<and> node_ptrs nd' = ps \<and> valid_len nd' = n"
proof -
  define cms where "cms = (if n + BREATHING_BLINDI_SIZE > NUM_SLOTS c then NUM_SLOTS c else n + BREATHING_BLINDI_SIZE)"
  have cms: "n \<le> cms" "cms \<le> NUM_SLOTS c" using len by (auto simp: cms_def)
  have lp: "length ps = n" using ps len(1) by (metis length_map)
  have rw: "length (blindiTree nd) = 3" "length (blindiKeys nd) = NUM_SLOTS c - 1" using raw by (auto simp: raw_node2_def)
  have tl: "TREE_LEVELS c = Suc (Suc 0)" "TREE_SIZE c = 3" using cfg2_okD [OF cfg] by auto
  let ?t0 = "(blindiTree nd)[0 := 0]"
  have "\<exists>bks kp t. loop_up (\<lambda>i (bks, kp, tree). do {
            k0 \<leftarrow> get ks i;
            k1 \<leftarrow> get ks (i + 1);
            (d, _, _) \<leftarrow> CompareStage k0 k1 False (KEY_LEN c) (KEY_LEN c);
            bks \<leftarrow> put bks i d;
            tree \<leftarrow> (if TREE_LEVELS c > 0 then
                do { t \<leftarrow> get tree 0; b \<leftarrow> get bks t; put tree 0 (if d < b then to_idx c (int i) else t) }
              else Some tree);
            p \<leftarrow> get ps i;
            kp \<leftarrow> put kp i p;
            Some (bks, kp, tree) }) 0 (n - 1) (blindiKeys nd, replicate cms 0, ?t0) = Some (bks, kp, ?t0[0 := t])
    \<and> length bks = length (blindiKeys nd) \<and> length kp = length (replicate cms (0::nat)) \<and> (\<forall>i < n - 1. bks ! i = bdif ks i \<and> kp ! i = ps ! i)
    \<and> (\<forall>i. n - 1 \<le> i \<and> i < length (replicate cms (0::nat)) \<longrightarrow> kp ! i = replicate cms 0 ! i)
    \<and> is_min (END_TREE c) (bdif ks) 0 (n - 1) t"
    by (rule transfer_loop [OF cfg o len lp rw(2)]) (use cms rw in auto)
  then obtain bks kp t where loop: "loop_up (\<lambda>i (bks, kp, tree). do {
            k0 \<leftarrow> get ks i;
            k1 \<leftarrow> get ks (i + 1);
            (d, _, _) \<leftarrow> CompareStage k0 k1 False (KEY_LEN c) (KEY_LEN c);
            bks \<leftarrow> put bks i d;
            tree \<leftarrow> (if TREE_LEVELS c > 0 then
                do { t \<leftarrow> get tree 0; b \<leftarrow> get bks t; put tree 0 (if d < b then to_idx c (int i) else t) }
              else Some tree);
            p \<leftarrow> get ps i;
            kp \<leftarrow> put kp i p;
            Some (bks, kp, tree) }) 0 (n - 1) (blindiKeys nd, replicate cms 0, ?t0) = Some (bks, kp, ?t0[0 := t])"
    and L: "length bks = NUM_SLOTS c - 1" "length kp = cms" "\<forall>i < n - 1. bks ! i = bdif ks i \<and> kp ! i = ps ! i"
      "is_min (END_TREE c) (bdif ks) 0 (n - 1) t" using rw by auto
  let ?kp = "kp[n - 1 := ps ! (n - 1)]" and ?tr = "?t0[0 := t]"
  have bare: "bks_are c bks (n - 1) (bdif ks)"
    using bks_are_keys [OF cfg o _ L(1)] L(3) len by auto
  have t3: "length ?tr = 3" "?tr ! 0 = t" using rw by auto
  have tlt: "t < n - 1" using is_minD(2) [OF L(4)] len by simp
  have tE: "t \<noteq> END_TREE c" using tlt len cfg2_okD(3) [OF cfg] by simp
  from update_from_seq_spec [OF cfg bare len(2) t3(1), of 1] L(4) t3(2) obtain t1 where
    u1: "update_blindiTree_from_seq c bks n 1 ?tr = Some (?tr[1 := t1])" "is_min (END_TREE c) (bdif ks) 0 t t1" by auto
  have t4: "length (?tr[1 := t1]) = 3" "?tr[1 := t1] ! 0 = t" using t3 by auto
  from update_from_seq_spec [OF cfg bare len(2) t4(1), of 2] L(4) t4(2) obtain t2 where
    u2: "update_blindiTree_from_seq c bks n 2 (?tr[1 := t1]) = Some (?tr[1 := t1, 2 := t2])"
      "is_min (END_TREE c) (bdif ks) (Suc t) (n - 1) t2" by auto
  have g: "get ?tr 0 = Some t" "get (?tr[1 := t1]) 0 = Some t" using t3 t4 by (simp_all add: get_def)
  have cells: "loop_up (\<lambda>i tree. do {
              t \<leftarrow> get tree (parent_pos i);
              (if t \<noteq> END_TREE c then update_blindiTree_from_seq c bks n i tree
               else put tree i (END_TREE c)) }) 1 (TREE_SIZE c - 1) ?tr = Some (?tr[1 := t1, 2 := t2])"
  proof -
    have r: "TREE_SIZE c - 1 = Suc (Suc 0)" by (simp add: tl)
    show ?thesis unfolding r loop_up.simps using u1(1) u2(1) g tE by (simp add: numeral_2_eq_2 [symmetric])
  qed
  let ?nd = "nd \<lparr> valid_len := n, currentmaxslot := cms, key_ptr := ?kp, blindiKeys := bks, blindiTree := ?tr[1 := t1, 2 := t2] \<rparr>"
  have "n mod idx_mod c = n" using len(3) cfg2_okD(3,7) [OF cfg] by simp
  then have "transfer_btree2blindi c nd n ks ps = Some ?nd"
    unfolding transfer_btree2blindi_def Let_def cms_def [symmetric]
    using loop cells rw len lp L(2) cms by (simp add: tl)
  moreover have pk: "node_ptrs ?nd = ps"
  proof (rule nth_equalityI)
    show "length (node_ptrs ?nd) = length ps" using L(2) cms lp by (simp add: node_ptrs_def)
    fix i assume "i < length (node_ptrs ?nd)"
    then have "i < n" using L(2) cms by (simp add: node_ptrs_def)
    then show "node_ptrs ?nd ! i = ps ! i" using L(2,3) cms by (cases "i = n - 1") (auto simp: node_ptrs_def)
  qed
  have nk: "node_keys db ?nd = ks" using pk ps by (simp add: node_keys_ptrs)
  have "tree_ok (END_TREE c) (bdif ks) (n - 1) (?tr[1 := t1, 2 := t2])"
    using t3 L(4) u1(2) u2(2) len bare by (intro tree_ok_of_cells) (auto simp: bks_are_def)
  then have "node2_ok c db ?nd" unfolding node2_ok_def nk using len cms L o by auto
  ultimately show ?thesis using pk by auto
qed

section \<open>Copying cells\<close>

lemma copy_cells_spec:
  assumes "i + n \<le> length src" "j + n \<le> length dst"
  shows "copy_cells src i dst j n = Some (take j dst @ take n (drop i src) @ drop (j + n) dst)"
proof -
  define P where "P k xs \<longleftrightarrow> xs = take j dst @ take k (drop i src) @ drop (j + k) dst" for k xs
  have "\<exists>xs. loop_up (\<lambda>k dst. do { x \<leftarrow> get src (i + k); put dst (j + k) x }) 0 n dst = Some xs \<and> P (0 + n) xs"
  proof (rule loop_up_invariant [where P = P])
    show "P 0 dst" by (simp add: P_def)
    fix k xs assume k: "0 \<le> k" "k < 0 + n" "P k xs"
    then have ks: "i + k < length src" "j + k < length dst" using assms by auto
    have xs: "xs = take j dst @ take k (drop i src) @ drop (j + k) dst" using k(3) by (simp add: P_def)
    let ?A = "take j dst @ take k (drop i src)"
    have "k \<le> length src - i" using ks by simp
    then have lA: "length ?A = j + k" using ks by simp
    have xs': "xs = ?A @ dst ! (j + k) # drop (j + Suc k) dst" using ks by (simp add: xs Cons_nth_drop_Suc)
    have "xs[length ?A := src ! (i + k)] = ?A @ src ! (i + k) # drop (j + Suc k) dst"
      unfolding xs' by (rule list_update_length)
    then have "xs[j + k := src ! (i + k)] = take j dst @ take (Suc k) (drop i src) @ drop (j + Suc k) dst"
      unfolding lA using ks by (simp add: take_Suc_conv_app_nth)
    then show "\<exists>xs'. (do { x \<leftarrow> get src (i + k); put xs (j + k) x }) = Some xs' \<and> P (Suc k) xs'"
      using ks by (auto simp: xs P_def)
  qed
  then show ?thesis by (simp add: copy_cells_def P_def)
qed

section \<open>Handing a node over to a larger class\<close>

lemma transferNode2_spec:
  assumes cfg: "cfg2_ok c" "cfg2_ok c'" "KEY_LEN c' = KEY_LEN c" "NUM_SLOTS c' = 2 * NUM_SLOTS c" "NUM_SLOTS c' < 254"
    and raw: "raw_node2 c' nd'" and ok: "node2_ok c db nd"
  shows "\<exists>nd''. transferNode c' nd' (valid_len nd) (blindiKeys nd) (key_ptr nd) (get_ptr2blindiTree c nd) = Some nd''
    \<and> node2_ok c' db nd'' \<and> node_ptrs nd'' = node_ptrs nd"
proof -
  define n where "n = valid_len nd"
  define cms where "cms = (if NUM_SLOTS c' div 2 + BREATHING_BLINDI_SIZE > NUM_SLOTS c' then NUM_SLOTS c'
                 else NUM_SLOTS c' div 2 + BREATHING_BLINDI_SIZE)"
  note k = node2_okD [OF ok]
  have n: "0 < n" "n \<le> NUM_SLOTS c" "n \<le> length (key_ptr nd)" using k by (auto simp: n_def)
  have N: "6 \<le> NUM_SLOTS c" using cfg2_okD(2) [OF cfg(1)] .
  have cms: "cms = NUM_SLOTS c + 4" using N cfg(4) by (simp add: cms_def BREATHING_BLINDI_SIZE_def)
  have rw: "length (blindiTree nd') = 3" "length (blindiKeys nd') = NUM_SLOTS c' - 1" using raw by (auto simp: raw_node2_def)
  have lt: "length (blindiTree nd) = 3" using k(9) by (simp add: tree_ok_def)
  have tl: "TREE_LEVELS c' = Suc (Suc 0)" "TREE_SIZE c' = 3" using cfg2_okD [OF cfg(2)] by auto
  let ?kp = "take (n - 1) (key_ptr nd) @ replicate (cms - (n - 1)) 0"
  let ?bk = "take (n - 1) (blindiKeys nd) @ drop (n - 1) (blindiKeys nd')"
  have c1: "copy_cells (key_ptr nd) 0 (replicate cms 0) 0 (n - 1) = Some ?kp"
    using n cms by (subst copy_cells_spec) auto
  have c2: "copy_cells (blindiKeys nd) 0 (blindiKeys nd') 0 (n - 1) = Some ?bk"
    using n k(6) rw N cfg(4) by (subst copy_cells_spec) auto
  have c3: "copy_cells (blindiTree nd) 0 (blindiTree nd') 0 3 = Some (blindiTree nd)"
    using lt rw by (subst copy_cells_spec) auto
  let ?nd = "nd' \<lparr> currentmaxslot := cms, key_ptr := ?kp[n - 1 := key_ptr nd ! (n - 1)], blindiKeys := ?bk, valid_len := n, blindiTree := blindiTree nd \<rparr>"
  have by1: "get_ptr2blindiTree c nd = blindiTree nd" "n mod idx_mod c' = n"
    using cfg(4,5) n cfg2_okD(1) [OF cfg(1)] by (auto simp: get_ptr2blindiTree_def idx_mod_def)
  have E: "END_TREE c' = END_TREE c" using cfg(4,5) by (simp add: END_TREE_def idx_mod_def)
  have run: "transferNode c' nd' n (blindiKeys nd) (key_ptr nd) (get_ptr2blindiTree c nd) = Some ?nd"
    unfolding by1 transferNode_def Let_def cms_def [symmetric] using c1 c2 c3 n cms by1(2) by (simp add: tl)
  have pt: "node_ptrs ?nd = node_ptrs nd"
  proof (rule nth_equalityI)
    show "length (node_ptrs ?nd) = length (node_ptrs nd)" using n cms by (simp add: node_ptrs_def n_def [symmetric])
    fix i assume "i < length (node_ptrs ?nd)"
    then have "i < n" by (simp add: node_ptrs_def)
    then show "node_ptrs ?nd ! i = node_ptrs nd ! i" using n cms
      by (cases "i = n - 1") (auto simp: node_ptrs_def n_def [symmetric] nth_append nth_list_update)
  qed
  have nk: "node_keys db ?nd = node_keys db nd" using pt by (simp add: node_keys_ptrs)
  have bk: "?bk ! i = blindiKeys nd ! i" if "Suc i < n" for i
  proof -
    have "i < n - 1" "n - 1 \<le> length (blindiKeys nd)" using that n k(6) by auto
    then show ?thesis by (simp add: nth_append)
  qed
  have "node2_ok c' db ?nd" unfolding node2_ok_def nk E using k n cms cfg N rw bk
    by (auto simp: n_def [symmetric])
  then show ?thesis using run pt by (auto simp: n_def)
qed

section \<open>Splitting\<close>

text \<open>A target tree while the cells of the source are handed out: a cell is right or still empty.\<close>

definition part_tree :: "nat \<Rightarrow> (nat \<Rightarrow> nat) \<Rightarrow> nat \<Rightarrow> nat list \<Rightarrow> bool" where
  "part_tree E f m tree \<longleftrightarrow> length tree = 3 \<and> (tree ! 0 = E \<or> is_min E f 0 m (tree ! 0))
     \<and> (tree ! 1 = E \<or> tree ! 0 \<noteq> E \<and> is_min E f 0 (tree ! 0) (tree ! 1))
     \<and> (tree ! 2 = E \<or> tree ! 0 \<noteq> E \<and> is_min E f (Suc (tree ! 0)) m (tree ! 2))"

lemma fill_tree_spec:
  assumes cfg: "cfg2_ok c" and b: "bks_are c bks (len - 1) f" and len: "2 \<le> len" and p: "part_tree (END_TREE c) f (len - 1) tree"
  shows "\<exists>t0 t1 t2. fill_from_seq c bks len 0 tree = Some t0 \<and> fill_from_seq c bks len 1 t0 = Some t1 \<and> fill_from_seq c bks len 2 t1 = Some t2
     \<and> tree_ok (END_TREE c) f (len - 1) t2"
proof -
  let ?E = "END_TREE c" and ?m = "len - 1"
  have mE: "?m < ?E" "0 < ?m" using b len by (auto simp: bks_are_def)
  have l3: "length tree = 3" using p by (simp add: part_tree_def)
  obtain t0 where t0: "fill_from_seq c bks len 0 tree = Some t0" "part_tree ?E f ?m t0" "is_min ?E f 0 ?m (t0 ! 0)"
  proof (cases "tree ! 0 = ?E")
    case True
    then have e: "tree ! 1 = ?E" "tree ! 2 = ?E" using p by (auto simp: part_tree_def)
    from update_from_seq_spec [OF cfg b len l3, of 0] obtain t where
      t: "update_blindiTree_from_seq c bks len 0 tree = Some (tree[0 := t])" "is_min ?E f 0 ?m t" by auto
    show ?thesis
      by (rule that [of "tree[0 := t]"]) (use t True e l3 in \<open>auto simp: fill_from_seq_def part_tree_def\<close>)
  next
    case False
    show ?thesis
      by (rule that [of tree]) (use p False l3 in \<open>auto simp: fill_from_seq_def part_tree_def\<close>)
  qed
  have l0: "length t0 = 3" using t0(2) by (simp add: part_tree_def)
  have r: "t0 ! 0 < ?m" using is_minD(2) [OF t0(3)] mE by simp
  then have rE: "t0 ! 0 \<noteq> ?E" using mE by simp
  obtain t1 where t1: "fill_from_seq c bks len 1 t0 = Some t1" "part_tree ?E f ?m t1" "t1 ! 0 = t0 ! 0"
    "is_min ?E f 0 (t0 ! 0) (t1 ! 1)"
  proof (cases "t0 ! 1 = ?E")
    case True
    from update_from_seq_spec [OF cfg b len l0, of 1] t0(3) obtain t where
      t: "update_blindiTree_from_seq c bks len 1 t0 = Some (t0[1 := t])" "is_min ?E f 0 (t0 ! 0) t" by auto
    show ?thesis
      by (rule that [of "t0[1 := t]"]) (use t True t0 l0 rE in \<open>auto simp: fill_from_seq_def part_tree_def\<close>)
  next
    case False
    show ?thesis
      by (rule that [of t0]) (use t0(2) False l0 rE in \<open>auto simp: fill_from_seq_def part_tree_def\<close>)
  qed
  have l1: "length t1 = 3" using t1(2) by (simp add: part_tree_def)
  obtain t2 where t2: "fill_from_seq c bks len 2 t1 = Some t2" "length t2 = 3" "t2 ! 0 = t1 ! 0" "t2 ! 1 = t1 ! 1"
    "is_min ?E f (Suc (t1 ! 0)) ?m (t2 ! 2)"
  proof (cases "t1 ! 2 = ?E")
    case True
    from update_from_seq_spec [OF cfg b len l1, of 2] t0(3) t1(3) obtain t where
      t: "update_blindiTree_from_seq c bks len 2 t1 = Some (t1[2 := t])" "is_min ?E f (Suc (t1 ! 0)) ?m t" by auto
    show ?thesis
      by (rule that [of "t1[2 := t]"]) (use t True t1 l1 rE in \<open>auto simp: fill_from_seq_def\<close>)
  next
    case False
    show ?thesis
      by (rule that [of t1]) (use t1(2) False l1 rE t1(3) in \<open>auto simp: fill_from_seq_def part_tree_def\<close>)
  qed
  have "tree_ok ?E f ?m t2" using t0(3) t1 t2 mE by (intro tree_ok_of_cells) auto
  then show ?thesis using t0(1) t1(1) t2(1) by blast
qed

lemma to_idx_sub: "cfg2_ok c \<Longrightarrow> h \<le> v \<Longrightarrow> v \<le> END_TREE c \<Longrightarrow> to_idx c (int v - int h) = v - h"
  using to_idx_id [of c "v - h"] by (simp add: of_nat_diff)

lemma update_from_tree_three:
  assumes cfg: "cfg2_ok c" and v: "get src pos = Some v" "h \<le> v" "v \<le> END_TREE c"
  shows "update_blindiTree_from_tree c src pos h ([x, y, z], [ox, oy, oz]) = Some
     (if x = END_TREE c then ([v - h, y, z], [v, oy, oz])
      else if v < ox then (if y = END_TREE c then ([x, v - h, z], [ox, v, oz]) else ([x, y, z], [ox, oy, oz]))
      else (if z = END_TREE c then ([x, y, v - h], [ox, oy, v]) else ([x, y, z], [ox, oy, oz])))"
  using assms cfg2_okD(1) [OF cfg] to_idx_sub [OF cfg v(2,3)]
  by (auto simp: update_blindiTree_from_tree_def get_def put_def numeral_2_eq_2)

lemma is_min_restrict: "is_min E f lo hi t \<Longrightarrow> lo \<le> lo' \<Longrightarrow> lo' \<le> t \<Longrightarrow> t < hi' \<Longrightarrow> hi' \<le> hi \<Longrightarrow> is_min E f lo' hi' t"
  by (auto simp: is_min_def)

lemma is_min_shift_back:
  "is_min E f L H T \<Longrightarrow> L = h + lo \<Longrightarrow> H = h + hi \<Longrightarrow> T = h + t \<Longrightarrow> lo \<le> t \<Longrightarrow> t < hi \<Longrightarrow> is_min E (\<lambda>i. f (h + i)) lo hi t"
  by (auto simp: is_min_def)

text \<open>The cells of the source, root first, go to the side they belong to; the middle one to neither.\<close>

lemma split_cells:
  assumes cfg: "cfg2_ok c" and h: "3 \<le> half" "2 * half \<le> NUM_SLOTS c" and ok: "tree_ok (END_TREE c) f (2 * half - 1) src"
  shows "\<exists>st ts os tl ol. split_tree_cell c src half 0 (([END_TREE c, END_TREE c, END_TREE c], [0, 0, 0]), ([END_TREE c, END_TREE c, END_TREE c], [0, 0, 0])) = Some st
    \<and> loop_up (\<lambda>i st. do {
            q \<leftarrow> get src (parent_pos i);
            (if q \<noteq> END_TREE c then split_tree_cell c src half i st else Some st) }) 1 (Suc (Suc 0)) st = Some ((ts, os), (tl, ol))
    \<and> part_tree (END_TREE c) f (half - 1) ts \<and> part_tree (END_TREE c) (\<lambda>i. f (half + i)) (half - 1) tl"
proof -
  let ?E = "END_TREE c"
  define r a b where "r = src ! 0" and "a = src ! 1" and "b = src ! 2"
  have l3: "length src = 3" using ok by (simp add: tree_ok_def)
  have mr: "is_min ?E f 0 (2 * half - 1) r" and ma: "is_min ?E f 0 r a" and mb: "is_min ?E f (Suc r) (2 * half - 1) b"
    and mE: "2 * half - 1 \<le> ?E" using ok h by (auto simp: tree_ok_def r_def a_def b_def)
  have hE: "2 * half \<le> ?E" using h cfg2_okD(3) [OF cfg] by simp
  have r: "r < 2 * half - 1" using is_minD(2) [OF mr] h by simp
  have a: "if r = 0 then a = ?E else a < r" using is_minD(2) [OF ma] ma by auto
  have b: "if Suc r < 2 * half - 1 then r < b \<and> b < 2 * half - 1 else b = ?E"
    using is_minD(1,2) [OF mb] mb by auto
  have g: "get src 0 = Some r" "get src 1 = Some a" "get src 2 = Some b" using l3 by (auto simp: r_def a_def b_def)
  have g': "get src (Suc 0) = Some a" "get src (Suc (Suc 0)) = Some b" using g by (simp_all add: numeral_2_eq_2)
  have rE: "r \<noteq> ?E" "r \<le> ?E" using r hE by auto
  have aE: "a \<le> ?E" using a rE by (auto split: if_splits)
  have bE: "b \<le> ?E" using b hE by (auto split: if_splits)
  note upd = update_from_tree_three [OF cfg]
  note ev = split_tree_cell_def upd [OF g(1) _ rE(2)] upd [OF g'(1) _ aE] upd [OF g'(2) _ bE]
  have pp: "parent_pos (Suc (Suc 0)) = 0" by (simp add: parent_pos_def)
  have eE: "\<not> ?E + 2 \<le> half" using hE by simp
  consider (low) "r + 2 \<le> half" | (mid) "Suc r = half" | (high) "half \<le> r" by linarith
  then show ?thesis
  proof cases
    case low
    have bb: "r < b" "b < 2 * half - 1" using b low h by (auto split: if_splits)
    have c1: "is_min ?E f 0 (half - 1) r" by (rule is_min_restrict [OF mr]) (use low h in auto)
    consider "b + 2 \<le> half" | "Suc b = half" | "half \<le> b" by linarith
    then show ?thesis
    proof cases
      case 1
      then have c2: "is_min ?E f (Suc r) (half - 1) b" by (intro is_min_restrict [OF mb]) (use bb h in auto)
      show ?thesis using low 1 a bb rE hE g g' eE h c1 c2 ma
        by (cases "r = 0") (auto simp: ev part_tree_def numeral_2_eq_2 pp split: if_splits)
    next
      case 2
      show ?thesis using low 2 a bb rE hE g g' eE h c1 ma
        by (cases "r = 0") (auto simp: ev part_tree_def numeral_2_eq_2 pp split: if_splits)
    next
      case 3
      have "is_min ?E f half (2 * half - 1) b"
        using 3 bb h low by (intro is_min_restrict [OF mb]) auto
      then have c2: "is_min ?E (\<lambda>i. f (half + i)) 0 (half - 1) (b - half)"
        by (rule is_min_shift_back) (use 3 bb h in auto)
      show ?thesis using low 3 a bb rE hE g g' eE h c1 c2 ma
        by (cases "r = 0") (auto simp: ev part_tree_def numeral_2_eq_2 pp split: if_splits)
    qed
  next
    case mid
    have bb: "r < b" "b < 2 * half - 1" "half \<le> b" using b mid h by (auto split: if_splits)
    have aa: "a < r" using a mid h by (auto split: if_splits)
    have c1: "is_min ?E f 0 (half - 1) a" using ma mid by (auto simp flip: mid)
    have "is_min ?E f half (2 * half - 1) b"
      using mid bb h by (intro is_min_restrict [OF mb]) auto
    then have c2: "is_min ?E (\<lambda>i. f (half + i)) 0 (half - 1) (b - half)"
      by (rule is_min_shift_back) (use bb h in auto)
    show ?thesis using mid aa bb rE hE g g' eE h c1 c2
      by (auto simp: ev part_tree_def numeral_2_eq_2 pp split: if_splits)
  next
    case high
    have aa: "a < r" using a high h by (auto split: if_splits)
    have "is_min ?E f half (2 * half - 1) r"
      using high r h by (intro is_min_restrict [OF mr]) auto
    then have c1: "is_min ?E (\<lambda>i. f (half + i)) 0 (half - 1) (r - half)"
      by (rule is_min_shift_back) (use high r h in auto)
    have c2: "is_min ?E (\<lambda>i. f (half + i)) (Suc (r - half)) (half - 1) (b - half)" if "b \<noteq> ?E"
    proof (rule is_min_shift_back)
      show "is_min ?E f (Suc r) (2 * half - 1) b" by (rule mb)
    qed (use b that high h in \<open>auto split: if_splits\<close>)
    have bh: "b \<noteq> ?E \<Longrightarrow> half \<le> b \<and> r < b" using b high by (auto split: if_splits)
    consider "a + 2 \<le> half" | "Suc a = half" | "half \<le> a" by linarith
    then show ?thesis
    proof cases
      case 1
      have c3: "is_min ?E f 0 (half - 1) a" by (rule is_min_restrict [OF ma]) (use 1 h high in auto)
      show ?thesis using high r 1 aa bh c2 rE hE g g' eE h c1 c3
        by (cases "b = ?E") (auto simp: ev part_tree_def numeral_2_eq_2 pp split: if_splits)
    next
      case 2
      show ?thesis using high r 2 aa bh c2 rE hE g g' eE h c1
        by (cases "b = ?E") (auto simp: ev part_tree_def numeral_2_eq_2 pp split: if_splits)
    next
      case 3
      have "is_min ?E f half r a"
        using 3 aa h high by (intro is_min_restrict [OF ma]) auto
      then have c3: "is_min ?E (\<lambda>i. f (half + i)) 0 (r - half) (a - half)"
        by (rule is_min_shift_back) (use 3 aa h high in auto)
      show ?thesis using high r 3 aa bh c2 rE hE g g' eE h c1 c3
        by (cases "b = ?E") (auto simp: ev part_tree_def numeral_2_eq_2 pp split: if_splits)
    qed
  qed
qed

lemma split_tree_spec:
  assumes cfg: "cfg2_ok c" and h: "3 \<le> half" "2 * half \<le> NUM_SLOTS c" and ok: "tree_ok (END_TREE c) f (2 * half - 1) src"
    and bs: "bks_are c bs (half - 1) f" and bl: "bks_are c bl (half - 1) (\<lambda>i. f (half + i))"
  shows "\<exists>ts tl. split_tree c src half bs bl = Some (ts, tl) \<and> tree_ok (END_TREE c) f (half - 1) ts
    \<and> tree_ok (END_TREE c) (\<lambda>i. f (half + i)) (half - 1) tl"
proof -
  have sz: "TREE_SIZE c = Suc (Suc (Suc 0))" using cfg2_okD(8) [OF cfg] by simp
  have r1: "TREE_SIZE c - 1 = Suc (Suc 0)" by (simp add: sz)
  have fresh: "replicate (TREE_SIZE c) x = [x, x, x]" for x :: nat by (simp add: sz)
  from split_cells [OF cfg h ok] obtain st ts os tl ol where
    st: "split_tree_cell c src half 0 (([END_TREE c, END_TREE c, END_TREE c], [0, 0, 0]), ([END_TREE c, END_TREE c, END_TREE c], [0, 0, 0])) = Some st"
      "loop_up (\<lambda>i st. do {
            q \<leftarrow> get src (parent_pos i);
            (if q \<noteq> END_TREE c then split_tree_cell c src half i st else Some st) }) 1 (Suc (Suc 0)) st = Some ((ts, os), (tl, ol))"
      "part_tree (END_TREE c) f (half - 1) ts" "part_tree (END_TREE c) (\<lambda>i. f (half + i)) (half - 1) tl" by blast
  have len: "2 \<le> half" using h by simp
  from fill_tree_spec [OF cfg bs len st(3)] obtain s0 s1 s2 where
    s: "fill_from_seq c bs half 0 ts = Some s0" "fill_from_seq c bs half 1 s0 = Some s1" "fill_from_seq c bs half 2 s1 = Some s2"
      "tree_ok (END_TREE c) f (half - 1) s2" by blast
  from fill_tree_spec [OF cfg bl len st(4)] obtain l0 l1 l2 where
    l: "fill_from_seq c bl half 0 tl = Some l0" "fill_from_seq c bl half 1 l0 = Some l1" "fill_from_seq c bl half 2 l1 = Some l2"
      "tree_ok (END_TREE c) (\<lambda>i. f (half + i)) (half - 1) l2" by blast
  have fill: "loop_up (\<lambda>i (tree_s, tree_l). do {
            tree_s \<leftarrow> fill_from_seq c bs half i tree_s;
            tree_l \<leftarrow> fill_from_seq c bl half i tree_l;
            Some (tree_s, tree_l) }) 0 (TREE_SIZE c) (ts, tl) = Some (s2, l2)"
    unfolding sz loop_up.simps using s l by (simp add: numeral_2_eq_2)
  have "split_tree c src half bs bl = Some (s2, l2)"
    unfolding split_tree_def Let_def fresh st(1) r1 using st(2) fill by (simp del: loop_up.simps)
  then show ?thesis using s(4) l(4) by blast
qed

lemma no_ties_cong: "no_ties g m \<Longrightarrow> (\<And>j. j < m \<Longrightarrow> g j = g' j) \<Longrightarrow> no_ties g' m"
  unfolding no_ties_def
proof (intro allI impI)
  fix i j
  assume n: "\<forall>i j. i < j \<and> j < m \<and> g i = g j \<longrightarrow> (\<exists>k. i < k \<and> k < j \<and> g k < g i)" and e: "\<And>j. j < m \<Longrightarrow> g j = g' j"
    and ij: "i < j \<and> j < m \<and> g' i = g' j"
  then have "i < j \<and> j < m \<and> g i = g j" by simp
  with n obtain k where k: "i < k" "k < j" "g k < g i" by blast
  then have "g' k < g' i" using e [of k] e [of i] ij by simp
  with k show "\<exists>k. i < k \<and> k < j \<and> g' k < g' i" by blast
qed

lemma bks_are_cong: "(\<And>j. j < m \<Longrightarrow> g j = g' j) \<Longrightarrow> bks_are c b m g \<Longrightarrow> bks_are c b m g'"
  unfolding bks_are_def using no_ties_cong [of g m g'] by simp

text \<open>A full node splits into two well-formed halves.\<close>

lemma SplitBlindiNode2_spec:
  assumes cfg: "cfg2_ok c" and ok: "node2_ok c db nd" and full: "valid_len nd = NUM_SLOTS c"
    and raw: "raw_node2 c ns" "raw_node2 c nl"
  shows "\<exists>ns' nl'. SplitBlindiNode c nd ns nl = Some (ns', nl') \<and> node2_ok c db ns' \<and> node2_ok c db nl'
    \<and> node_ptrs ns' = take (NUM_SLOTS c div 2) (node_ptrs nd) \<and> node_ptrs nl' = drop (NUM_SLOTS c div 2) (node_ptrs nd)"
proof -
  note k = node2_okD [OF ok]
  define n half where "n = NUM_SLOTS c" and "half = n div 2"
  have "even n" using cfg by (simp add: cfg2_ok_def n_def)
  then have n: "n = 2 * half" by (simp add: half_def)
  have h3: "3 \<le> half" using cfg2_okD(2) [OF cfg] by (simp add: half_def n_def)
  have vl: "valid_len nd = n" "length (key_ptr nd) = n" "length (blindiKeys nd) = n - 1" using k full by (auto simp: n_def)
  define cms where "cms = (if half + BREATHING_BLINDI_SIZE > n then n else half + BREATHING_BLINDI_SIZE)"
  have cms: "half \<le> cms" "cms \<le> n" using h3 n by (auto simp: cms_def)
  have rw: "length (blindiKeys ns) = n - 1" "length (blindiKeys nl) = n - 1" using raw by (auto simp: raw_node2_def n_def)
  let ?kp = "key_ptr nd" and ?bk = "blindiKeys nd" and ?ks = "node_keys db nd"
  let ?bs = "take (half - 1) ?bk @ drop (half - 1) (blindiKeys ns)" and ?bl = "take (half - 1) (drop half ?bk) @ drop (half - 1) (blindiKeys nl)"
  let ?ps = "(take (half - 1) ?kp @ replicate (cms - (half - 1)) 0)[half - 1 := ?kp ! (half - 1)]"
  let ?pl = "(take (half - 1) (drop half ?kp) @ replicate (cms - (half - 1)) 0)[half - 1 := ?kp ! (n - 1)]"
  have c: "copy_cells ?kp 0 (replicate cms 0) 0 (half - 1) = Some (take (half - 1) ?kp @ replicate (cms - (half - 1)) 0)"
    "copy_cells ?kp half (replicate cms 0) 0 (half - 1) = Some (take (half - 1) (drop half ?kp) @ replicate (cms - (half - 1)) 0)"
    "copy_cells ?bk 0 (blindiKeys ns) 0 (half - 1) = Some ?bs"
    "copy_cells ?bk half (blindiKeys nl) 0 (half - 1) = Some ?bl"
    using vl n h3 cms rw by (subst copy_cells_spec; simp)+
  have lk: "length ?ks = n" using k vl by simp
  have f: "?bk ! i = bdif ?ks i" if "Suc i < n" for i using k(8) that vl by simp
  have os: "bl.ordered (KEY_LEN c) (take half ?ks)" "bl.ordered (KEY_LEN c) (drop half ?ks)"
    by (rule bl.ordered_take [OF k(7)], rule bl.ordered_drop [OF k(7)])
  have bs: "?bs ! i = bdif (take half ?ks) i" if "Suc i < half" for i
  proof -
    have "i < half - 1" "half - 1 \<le> length ?bk" using that vl n by auto
    then show ?thesis using f [of i] that n by (simp add: nth_append bl.bks_take)
  qed
  have bl: "?bl ! i = bdif (drop half ?ks) i" if "Suc i < half" for i
  proof -
    have "i < half - 1" "half - 1 \<le> length (drop half ?bk)" using that vl n by auto
    then show ?thesis using f [of "half + i"] that n lk vl by (simp add: nth_append bl.bks_drop)
  qed
  have ls: "length (take half ?ks) = half" "length (drop half ?ks) = half" using lk n by auto
  have lb: "length ?bs = NUM_SLOTS c - 1" "length ?bl = NUM_SLOTS c - 1" using vl rw n h3 by (auto simp: n_def [symmetric])
  have hN: "half \<le> NUM_SLOTS c" using n by (simp add: n_def [symmetric])
  have ne: "?ks \<noteq> []" "drop half ?ks \<noteq> []" using lk n h3 by auto
  have Bs: "bks_are c ?bs (half - 1) (bdif (take half ?ks))" using bks_are_keys [OF cfg os(1) _ lb(1)] bs ls h3 hN ne by simp
  have Bl: "bks_are c ?bl (half - 1) (bdif (drop half ?ks))" using bks_are_keys [OF cfg os(2) _ lb(2)] bl ls h3 hN ne by (simp del: length_drop)
  have e1: "bdif (take half ?ks) j = bdif ?ks j" if "j < half - 1" for j using that by (simp add: bl.bks_take)
  have e2: "bdif (drop half ?ks) j = bdif ?ks (half + j)" if "j < half - 1" for j using that lk n by (simp add: bl.bks_drop)
  note cong = bks_are_cong
  have "tree_ok (END_TREE c) (bdif ?ks) (2 * half - 1) (blindiTree nd)" using k(9) vl n by simp
  from split_tree_spec [OF cfg h3 _ this, of ?bs ?bl] Bs Bl cong [OF e1] cong [OF e2] n obtain ts tl where
    t: "split_tree c (blindiTree nd) half ?bs ?bl = Some (ts, tl)" "tree_ok (END_TREE c) (bdif ?ks) (half - 1) ts"
      "tree_ok (END_TREE c) (\<lambda>i. bdif ?ks (half + i)) (half - 1) tl" by (auto simp: n_def [symmetric])
  have ts: "tree_ok (END_TREE c) (bdif (take half ?ks)) (half - 1) ts" using t(2) tree_ok_cong [OF e1] by simp
  have tl: "tree_ok (END_TREE c) (bdif (drop half ?ks)) (half - 1) tl" using t(3) tree_ok_cong [OF e2] by simp
  let ?ns = "\<lparr> valid_len = half, blindiTree = ts, currentmaxslot = cms, key_ptr = ?ps, blindiKeys = ?bs \<rparr>"
  let ?nl = "\<lparr> valid_len = half, blindiTree = tl, currentmaxslot = cms, key_ptr = ?pl, blindiKeys = ?bl \<rparr>"
  have run: "SplitBlindiNode c nd ns nl = Some (?ns, ?nl)"
    unfolding SplitBlindiNode_def Let_def vl(1) n_def [symmetric] half_def [symmetric] cms_def [symmetric]
    using c t(1) vl n h3 cms cfg2_okD(1) [OF cfg] by simp
  have ps: "node_ptrs ?ns = take half (node_ptrs nd)"
    by (rule nth_equalityI) (use vl n h3 cms in \<open>auto simp: node_ptrs_def nth_append nth_list_update\<close>)
  have pl: "node_ptrs ?nl = drop half (node_ptrs nd)"
    by (rule nth_equalityI) (use vl n h3 cms in \<open>auto simp: node_ptrs_def nth_append nth_list_update mult_2\<close>)
  have ks: "node_keys db ?ns = take half ?ks" "node_keys db ?nl = drop half ?ks"
    using ps pl by (simp_all add: node_keys_ptrs take_map drop_map)
  have "node2_ok c db ?ns" unfolding node2_ok_def ks using h3 cms ts bs os vl lb n by (auto simp: n_def [symmetric])
  moreover have "node2_ok c db ?nl" unfolding node2_ok_def ks using h3 cms tl bl os vl lb n by (auto simp: n_def [symmetric])
  ultimately show ?thesis using run ps pl by (auto simp: half_def n_def)
qed

end
