(* ===== verification/SeqTree_Remove.thy ===== *)
theory SeqTree_Remove
  imports SeqTree_Build
begin

text \<open>
  \<^verbatim>\<open>RemoveFromBlindiNodeInPosition\<close> with two levels: how the tree of minima changes when two neighbours
  become one, and that a node of three or more keys stays well-formed and loses exactly the removed key.
\<close>

section \<open>The minima after a removal\<close>

text \<open>The blindi keys after the removal of the key at \<open>p\<close>: two neighbours become one, with the smaller value.\<close>

definition joined :: "(nat \<Rightarrow> nat) \<Rightarrow> nat \<Rightarrow> nat \<Rightarrow> nat" where
  "joined f p j = (if Suc j < p then f j else if Suc j = p then min (f j) (f p) else f (Suc j))"

lemma joined_simps [simp]:
  "Suc j < p \<Longrightarrow> joined f p j = f j" "p \<le> j \<Longrightarrow> joined f p j = f (Suc j)" "joined f (Suc j) j = min (f j) (f (Suc j))"
  by (auto simp: joined_def)

lemma is_min_del:
  assumes m: "is_min E f lo hi t" "lo < hi" "lo \<le> p" "p < hi"
    and t': "t' = (if t \<ge> p then t - 1 else t)" "lo \<le> t'" "t' < hi - 1" "\<not> (p = 0 \<and> t = 0)"
  shows "is_min E (joined f p) lo (hi - 1) t'"
proof (rule is_minI [OF t'(2,3)])
  have t: "lo \<le> t" "t < hi" and lt: "\<And>j. lo \<le> j \<Longrightarrow> j < hi \<Longrightarrow> j \<noteq> t \<Longrightarrow> f t < f j" using m(1,2) by (auto simp: is_min_def)
  have v: "joined f p t' = f t"
  proof (cases "t \<ge> p")
    case True
    show ?thesis
    proof (cases "t = p")
      case eq: True
      then have "0 < p" using t' m(3) True by (cases p) (auto simp: t'(1))
      have "lo \<le> p - 1" using t' True eq by simp
      then have "f p < f (p - 1)" using lt [of "p - 1"] eq \<open>0 < p\<close> m(4) by auto
      then show ?thesis using True eq \<open>0 < p\<close> by (simp add: t'(1) joined_def)
    next
      case False then show ?thesis using True by (simp add: t'(1) joined_def)
    qed
  next
    case False
    have "f t < f p" if "Suc t = p" using lt [of p] m(3,4) that by auto
    then have "joined f p t = f t" using False by (cases "Suc t = p") (auto simp: joined_def)
    then show ?thesis using False by (simp add: t'(1))
  qed
  fix j assume j: "lo \<le> j" "j < hi - 1" "j \<noteq> t'"
  have a: "f t < f j" if "Suc j \<le> p" using lt [of j] j that t'(1) by (auto split: if_splits)
  have b: "f t < f (Suc j)" if "p \<le> Suc j" using lt [of "Suc j"] j that t'(1) by (auto split: if_splits)
  have "f t < joined f p j" using a b by (auto simp: joined_def)
  then show "joined f p t' < joined f p j" using v by simp
qed

lemma is_min_del_right:
  assumes "is_min E f lo hi t" "p < lo" "Suc lo' = lo" "Suc hi' = hi" "lo < hi"
  shows "is_min E (joined f p) lo' hi' (t - 1)"
  by (rule is_min_shift [where k = 1 and f = f]) (use assms in auto)

lemma is_min_del_left:
  assumes "is_min E f lo hi t" "lo < hi" "hi' \<le> hi" "hi' \<le> p - 1" "t < hi'"
  shows "is_min E (joined f p) lo hi' t"
  using assms by (auto simp: is_min_def)

text \<open>The root and the two cells under it.\<close>

lemma is_min_del_root:
  assumes "is_min E f 0 m r" "p \<le> m" "2 \<le> m" "\<not> (p = 0 \<and> r = 0)" "\<not> (p = m \<and> r = m - 1)"
  shows "is_min E (joined f p) 0 (m - 1) (if r \<ge> p then r - 1 else r)"
proof (cases "p < m")
  case True
  have "r < m" using assms by (auto simp: is_min_def split: if_splits)
  then show ?thesis by (intro is_min_del [OF assms(1)]) (use assms True in auto)
next
  case False
  have "r < m" using assms by (auto simp: is_min_def split: if_splits)
  then have "is_min E (joined f p) 0 (m - 1) r" by (intro is_min_del_left [OF assms(1)]) (use assms False in auto)
  then show ?thesis using \<open>r < m\<close> False by simp
qed

lemma is_min_del_cell1:
  assumes "is_min E f 0 r t" "r' = (if r \<ge> p then r - 1 else r)" "0 < r'" "t \<noteq> p - 1 \<or> p = 0" "\<not> (p = 0 \<and> t = 0)"
    "t' = (if t \<ge> p then t - 1 else t)" "t' \<noteq> r'"
  shows "is_min E (joined f p) 0 r' t'"
proof -
  have t: "t < r" using assms(1-3) by (auto simp: is_min_def split: if_splits)
  consider "p < r" | "p = r" | "r < p" by linarith
  then show ?thesis
  proof cases
    case 1
    then have "is_min E (joined f p) 0 (r - 1) t'" by (intro is_min_del [OF assms(1)]) (use assms t in \<open>auto split: if_splits\<close>)
    then show ?thesis using assms(2) 1 by simp
  next
    case 2
    then have "is_min E (joined f p) 0 (r - 1) t" by (intro is_min_del_left [OF assms(1)]) (use assms t in \<open>auto split: if_splits\<close>)
    then show ?thesis using assms(2,6) 2 t by simp
  next
    case 3
    then have "is_min E (joined f p) 0 r t" by (intro is_min_del_left [OF assms(1)]) (use assms t in \<open>auto split: if_splits\<close>)
    then show ?thesis using assms(2,6) 3 t by simp
  qed
qed

lemma is_min_del_cell2:
  assumes "is_min E f (Suc r) m t" "p \<le> m" "r' = (if r \<ge> p then r - 1 else r)" "Suc r' < m - 1" "\<not> (p = 0 \<and> r = 0)"
    "\<not> (p = m \<and> t = m - 1)" "t' = (if t \<ge> p then t - 1 else t)" "t' \<noteq> r'"
  shows "is_min E (joined f p) (Suc r') (m - 1) t'"
proof -
  have t: "r < t" "t < m" "Suc r < m" using assms(1,3,4) by (auto simp: is_min_def split: if_splits)
  show ?thesis
  proof (cases "p \<le> r")
    case True
    then have "is_min E (joined f p) r (m - 1) (t - 1)" using t by (intro is_min_del_right [OF assms(1)]) auto
    then show ?thesis using True assms(3,5,7) t by (cases r) auto
  next
    case False
    then have r': "r' = r" using assms(3) by simp
    show ?thesis
    proof (cases "p < m")
      case True
      then have "is_min E (joined f p) (Suc r) (m - 1) t'" by (intro is_min_del [OF assms(1)]) (use assms t False r' in \<open>auto split: if_splits\<close>)
      then show ?thesis using r' by simp
    next
      case pm: False
      then have "is_min E (joined f p) (Suc r) (m - 1) t" by (intro is_min_del_left [OF assms(1)]) (use assms t False r' in \<open>auto split: if_splits\<close>)
      then show ?thesis using r' assms(7) t pm by simp
    qed
  qed
qed

section \<open>The tree after a removal\<close>

lemma fresh_cell:
  assumes cfg: "cfg2_ok c" and b: "bks_are c bks (len - 1) f" and len: "2 \<le> len" and tree: "length tree = 3" and pos: "pos \<in> {1, 2}"
    and root: "is_min (END_TREE c) f 0 (len - 1) (tree ! 0)"
  shows "\<exists>t. remove_tree_fresh c bks len 2 pos (tree, rng) = Some (tree[pos := t], rng)
    \<and> is_min (END_TREE c) f (if pos = 2 then Suc (tree ! 0) else 0) (if pos = 1 then tree ! 0 else len - 1) t"
proof -
  from update_from_seq_spec [OF cfg b len tree, of pos] root pos obtain t where
    t: "update_blindiTree_from_seq c bks len pos tree = Some (tree[pos := t])"
      "is_min (END_TREE c) f (if pos = 2 then Suc (tree ! 0) else 0) (if pos = 1 then tree ! 0 else len - 1) t" by auto
  then have "remove_tree_fresh c bks len 2 pos (tree, rng) = Some (tree[pos := t], rng)"
    using cfg2_okD(1) [OF cfg] by (simp add: remove_tree_fresh_def)
  then show ?thesis using t(2) by blast
qed

lemma to_idx_pred: "cfg2_ok c \<Longrightarrow> 0 < t \<Longrightarrow> t \<le> END_TREE c \<Longrightarrow> to_idx c (int t - 1) = t - 1"
  using to_idx_id [of c "t - 1"] by (simp add: of_nat_diff)

text \<open>
  One cell below the root: \<open>tree ! 0\<close> is right for the new blindi keys already, and unless the cell is
  marked, it and the old root \<open>r\<close> were right for the old ones.
\<close>

lemma remove_cell_spec:
  assumes cfg: "cfg2_ok c" and b: "bks_are c bks (m - 1) (joined f p)" and m: "2 \<le> m" "m < END_TREE c" "p \<le> m"
    and tree: "length tree = 3" and rng: "length rng = 3" and pos: "pos \<in> {1, 2}"
    and root: "is_min (END_TREE c) (joined f p) 0 (m - 1) (tree ! 0)"
    and old: "\<not> rng ! pos \<Longrightarrow> r < m \<and> tree ! 0 = (if r \<ge> p then r - 1 else r) \<and> \<not> (p = 0 \<and> r = 0) \<and> \<not> (p = m \<and> r = m - 1)
      \<and> is_min (END_TREE c) f (if pos = 2 then Suc r else 0) (if pos = 1 then r else m) (tree ! pos)"
  shows "\<exists>t. remove_tree_cell c bks m p (p = 0) (p = m) 2 pos (tree, rng) = Some (tree[pos := t], rng)
    \<and> is_min (END_TREE c) (joined f p) (if pos = 2 then Suc (tree ! 0) else 0) (if pos = 1 then tree ! 0 else m - 1) t"
proof -
  let ?E = "END_TREE c" and ?r = "tree ! 0" and ?t = "tree ! pos"
  have r: "?r < m - 1" using is_minD(2) [OF root] m(1) by simp
  have g: "get tree (parent_pos pos) = Some ?r" "get tree pos = Some ?t" "get rng pos = Some (rng ! pos)"
    using tree rng pos by (auto simp: parent_pos_def)
  have put: "put tree pos v = Some (tree[pos := v])" for v using tree pos by auto
  have eE: "(tree ! 0 = ?E \<or> (tree ! 0 = 0 \<and> odd pos) \<or> (int (tree ! 0) = int m - 2 \<and> even pos))
      = ((if pos = 1 then tree ! 0 else m - 1) \<le> (if pos = 2 then Suc (tree ! 0) else 0))"
    using pos r m by auto
  note fr = fresh_cell [OF cfg b m(1) tree pos root]
  show ?thesis
  proof (cases "(if pos = 1 then tree ! 0 else m - 1) \<le> (if pos = 2 then Suc (tree ! 0) else 0)")
    case True
    have "remove_tree_cell c bks m p (p = 0) (p = m) 2 pos (tree, rng) = Some (tree[pos := ?E], rng)"
      unfolding remove_tree_cell_def prod.case g Option.bind.bind_lunit eE if_P [OF True] put by simp
    then show ?thesis using True by auto
  next
    case ne: False
    let ?t' = "if ?t \<ge> p then to_idx c (int ?t - 1) else ?t"
    have run: "remove_tree_cell c bks m p (p = 0) (p = m) 2 pos (tree, rng) =
        (if rng ! pos then remove_tree_fresh c bks m 2 pos (tree, rng)
         else if ?t = ?E then Some (tree, rng)
         else if (p = 0 \<and> ?t = 0) \<or> (p = m \<and> int ?t = int m - 1) then remove_tree_fresh c bks m 2 pos (tree, rng)
         else if ?t = ?r \<or> int ?t = int p - 1 then remove_tree_fresh c bks m 2 pos (tree, rng)
         else if ?t' = ?r then remove_tree_fresh c bks m 2 pos (tree[pos := ?t'], rng) else Some (tree[pos := ?t'], rng))"
      unfolding remove_tree_cell_def prod.case g Option.bind.bind_lunit eE if_not_P [OF ne] put Let_def by simp
    show ?thesis
    proof (cases "rng ! pos \<or> (p = 0 \<and> ?t = 0) \<or> (p = m \<and> int ?t = int m - 1) \<or> ?t = ?r \<or> int ?t = int p - 1")
      case True
      have "?t \<noteq> ?E" if "\<not> rng ! pos"
        using old [OF that] that ne m pos by (auto simp: is_min_def split: if_splits)
      then have "remove_tree_cell c bks m p (p = 0) (p = m) 2 pos (tree, rng) = remove_tree_fresh c bks m 2 pos (tree, rng)"
        unfolding run using True by argo
      then show ?thesis using fr [of rng] by simp
    next
      case keep: False
      then have o: "r < m" "?r = (if r \<ge> p then r - 1 else r)" "\<not> (p = 0 \<and> r = 0)" "\<not> (p = m \<and> r = m - 1)"
          "is_min ?E f (if pos = 2 then Suc r else 0) (if pos = 1 then r else m) ?t" using old by auto
      have tE: "?t \<noteq> ?E" "?t < m" using o ne m pos by (auto simp: is_min_def split: if_splits)
      have t': "?t' = (if ?t \<ge> p then ?t - 1 else ?t)" 
      proof (cases "?t \<ge> p")
        case True
        then have "0 < ?t" using keep by linarith
        then have "to_idx c (int ?t - 1) = ?t - 1" using to_idx_pred [OF cfg, of ?t] tE m by linarith
        then show ?thesis using True by simp
      qed simp
      have k: "\<not> rng ! pos" "\<not> ((p = 0 \<and> ?t = 0) \<or> (p = m \<and> int ?t = int m - 1))" "\<not> (?t = ?r \<or> int ?t = int p - 1)"
        using keep by argo+
      note kept = run [unfolded if_not_P [OF k(1)] if_not_P [OF tE(1)] if_not_P [OF k(2)] if_not_P [OF k(3)]]
      show ?thesis
      proof (cases "?t' = ?r")
        case True
        have l: "length (tree[pos := ?t']) = 3" and t0: "tree[pos := ?t'] ! 0 = ?r" using tree pos by auto
        have "remove_tree_cell c bks m p (p = 0) (p = m) 2 pos (tree, rng) = remove_tree_fresh c bks m 2 pos (tree[pos := ?t'], rng)"
          unfolding kept if_P [OF True] ..
        then show ?thesis using fresh_cell [OF cfg b m(1) l pos, of rng] root unfolding t0 list_update_overwrite by simp
      next
        case False
        have "remove_tree_cell c bks m p (p = 0) (p = m) 2 pos (tree, rng) = Some (tree[pos := ?t'], rng)"
          unfolding kept if_not_P [OF False] ..
        moreover have "is_min ?E (joined f p) (if pos = 2 then Suc ?r else 0) (if pos = 1 then ?r else m - 1) ?t'"
        proof (cases "pos = 1")
          case True
          have "is_min ?E (joined f p) 0 ?r ?t'"
          proof (rule is_min_del_cell1 [where r = r and t = ?t])
            show "is_min ?E f 0 r ?t" using o(5) True by simp
            show "0 < ?r" using ne True by simp
            show "?t \<noteq> p - 1 \<or> p = 0" "\<not> (p = 0 \<and> ?t = 0)" using k(2,3) by linarith+
          qed (fact o(2) t' False)+
          then show ?thesis using True by simp
        next
          case p2: False
          then have "pos = 2" using pos by simp
          have "is_min ?E (joined f p) (Suc ?r) (m - 1) ?t'"
          proof (rule is_min_del_cell2 [where r = r and t = ?t])
            show "is_min ?E f (Suc r) m ?t" using o(5) \<open>pos = 2\<close> by simp
            show "Suc ?r < m - 1" using ne \<open>pos = 2\<close> by simp
            show "\<not> (p = m \<and> ?t = m - 1)" using k(2) m by linarith
          qed (fact m o(2,3) t' False)+
          then show ?thesis using \<open>pos = 2\<close> by simp
        qed
        ultimately show ?thesis by blast
      qed
    qed
  qed
qed

text \<open>The whole tree: \<open>m\<close> keys are left, and the key removed was the first one when \<open>p = 0\<close>, the last one when \<open>p = m\<close>.\<close>

lemma remove_root_spec:
  assumes cfg: "cfg2_ok c" and m: "2 \<le> m" "m < END_TREE c" "p \<le> m" and t: "tree_ok (END_TREE c) f m tree"
  shows "\<exists>r' rng. remove_tree_root c bks m p (p = 0) (p = m) tree = Some (tree[0 := r'], rng) \<and> length rng = 3
    \<and> is_min (END_TREE c) (joined f p) 0 (m - 1) r'
    \<and> (\<not> (rng ! 1 \<and> rng ! 2) \<longrightarrow> r' = (if tree ! 0 \<ge> p then tree ! 0 - 1 else tree ! 0) \<and> \<not> (p = 0 \<and> tree ! 0 = 0)
         \<and> \<not> (p = m \<and> tree ! 0 = m - 1))"
proof -
  let ?E = "END_TREE c" and ?r = "tree ! 0"
  have T: "length tree = 3" "is_min ?E f 0 m ?r" "is_min ?E f 0 ?r (tree ! 1)" "is_min ?E f (Suc ?r) m (tree ! 2)"
    using t m(1) by (auto simp: tree_ok_def)
  have r: "?r < m" using is_minD(2) [OF T(2)] m(1) by simp
  have L: "TREE_LEVELS c = 2" "TREE_SIZE c = 3" using cfg2_okD [OF cfg] by simp_all
  have rep: "replicate 3 False = [False, False, False]" by (simp add: numeral_3_eq_3)
  consider "p = 0" "?r = 0" | "p = m" "?r = m - 1" "0 < ?r" | "\<not> (p = 0 \<and> ?r = 0)" "\<not> (p = m \<and> ?r = m - 1)" using m by fastforce
  then show ?thesis
  proof cases
    case 1
    have t2: "0 < tree ! 2" "tree ! 2 \<le> ?E" using T(4) m 1 by (auto simp: is_min_def split: if_splits)
    have "is_min ?E (joined f p) 0 (m - 1) (tree ! 2 - 1)"
      using T(4) 1 m by (intro is_min_del_right [of ?E f 1 m]) auto
    then show ?thesis using T(1) L 1 to_idx_pred [OF cfg t2]
      by (intro exI [of _ "tree ! 2 - 1"] exI [of _ "[False, True, True]"]) (simp add: remove_tree_root_def rep)
  next
    case 2
    have "tree ! 1 < m - 1" using is_minD(2) [OF T(3)] 2 by simp
    then have "is_min ?E (joined f p) 0 (m - 1) (tree ! 1)"
      using T(3) 2 m by (intro is_min_del_left [of ?E f 0 ?r]) auto
    moreover have "int (m - 1) = int m - 1" using m by (simp add: of_nat_diff)
    ultimately show ?thesis using T(1) L 2
      by (intro exI [of _ "tree ! 1"] exI [of _ "[False, True, True]"]) (simp add: remove_tree_root_def rep)
  next
    case 3
    have n: "\<not> (p = m \<and> int ?r = int m - 1)" using 3 m by auto
    have "is_min ?E (joined f p) 0 (m - 1) (if ?r \<ge> p then ?r - 1 else ?r)"
      by (rule is_min_del_root [OF T(2) m(3,1) 3])
    moreover have "remove_tree_root c bks m p (p = 0) (p = m) tree = Some (tree[0 := if ?r \<ge> p then ?r - 1 else ?r], [False, False, False])"
    proof (cases "?r \<ge> p")
      case True
      then have "0 < ?r" using 3 by linarith
      then have "to_idx c (int ?r - 1) = ?r - 1" using to_idx_pred [OF cfg, of ?r] r m by linarith
      then show ?thesis unfolding remove_tree_root_def Let_def using T(1) L 3 n True by (simp add: rep)
    next
      case False
      then show ?thesis unfolding remove_tree_root_def Let_def using T(1) L 3 n by (simp add: rep)
    qed
    ultimately show ?thesis using 3 
      by (intro exI [of _ "if ?r \<ge> p then ?r - 1 else ?r"] exI [of _ "[False, False, False]"]) simp
  qed
qed

lemma remove_tree_spec:
  assumes cfg: "cfg2_ok c" and b: "bks_are c bks (m - 1) (joined f p)" and m: "2 \<le> m" "m < END_TREE c" "p \<le> m"
    and t: "tree_ok (END_TREE c) f m tree"
  shows "\<exists>tree'. remove_tree c bks m p (p = 0) (p = m) tree = Some tree' \<and> tree_ok (END_TREE c) (joined f p) (m - 1) tree'"
proof -
  let ?E = "END_TREE c" and ?r = "tree ! 0" and ?g = "joined f p"
  have T: "length tree = 3" "is_min ?E f 0 m ?r" "is_min ?E f 0 ?r (tree ! 1)" "is_min ?E f (Suc ?r) m (tree ! 2)"
    using t m(1) by (auto simp: tree_ok_def)
  have r: "?r < m" using is_minD(2) [OF T(2)] m(1) by simp
  obtain r' rng where R: "remove_tree_root c bks m p (p = 0) (p = m) tree = Some (tree[0 := r'], rng)" "length rng = 3"
      "is_min ?E ?g 0 (m - 1) r'"
      "\<not> (rng ! 1 \<and> rng ! 2) \<longrightarrow> r' = (if ?r \<ge> p then ?r - 1 else ?r) \<and> \<not> (p = 0 \<and> ?r = 0) \<and> \<not> (p = m \<and> ?r = m - 1)"
    using remove_root_spec [OF cfg m t, of bks] by blast
  let ?t0 = "tree[0 := r']"
  have l0: "length ?t0 = 3" "?t0 ! 0 = r'" using T(1) by auto
  from remove_cell_spec [OF cfg b m l0(1) R(2), of 2 ?r] R(3,4) T(1,4) r obtain t2 where
    t2: "remove_tree_cell c bks m p (p = 0) (p = m) 2 2 (?t0, rng) = Some (?t0[2 := t2], rng)" "is_min ?E ?g (Suc r') (m - 1) t2"
    by auto
  let ?t2 = "?t0[2 := t2]"
  have l2: "length ?t2 = 3" "?t2 ! 0 = r'" "?t2 ! 2 = t2" "?t2 ! 1 = tree ! 1" using T(1) by auto
  from remove_cell_spec [OF cfg b m l2(1) R(2), of 1 ?r] R(3,4) T(1,3) r obtain t1 where
    t1: "remove_tree_cell c bks m p (p = 0) (p = m) 2 1 (?t2, rng) = Some (?t2[1 := t1], rng)" "is_min ?E ?g 0 r' t1"
    by (auto simp: l2)
  have "remove_tree c bks m p (p = 0) (p = m) tree = Some (?t2[1 := t1])"
    using R(1) t1(1) t2(1) cfg2_okD(1) [OF cfg] by (simp add: remove_tree_def numeral_2_eq_2)
  moreover have "tree_ok ?E ?g (m - 1) (?t2[1 := t1])" using T(1) R(3) t1(2) t2(2) m by (simp add: tree_ok_def)
  ultimately show ?thesis by blast
qed

section \<open>The arrays after a removal\<close>

lemma remove_seq_spec:
  assumes n: "valid_len nd = n" "Suc p < n" "n \<le> length (key_ptr nd)" "n - 1 \<le> length (blindiKeys nd)"
  shows "\<exists>kp bk. remove_seq nd p = Some (nd \<lparr> key_ptr := kp, blindiKeys := bk, valid_len := n - 1 \<rparr>)
    \<and> length kp = length (key_ptr nd) \<and> length bk = length (blindiKeys nd)
    \<and> (\<forall>i < n - 1. kp ! i = (if i < p then key_ptr nd ! i else key_ptr nd ! Suc i))
    \<and> (\<forall>i. Suc i < n - 1 \<longrightarrow> bk ! i = joined ((!) (blindiKeys nd)) p i)"
proof -
  let ?k = "key_ptr nd" and ?b = "blindiKeys nd"
  define b1 where "b1 = (if p \<noteq> 0 then ?b[p - 1 := min (?b ! p) (?b ! (p - 1))] else ?b)"
  have run1: "(if p \<noteq> 0 then do { b \<leftarrow> get ?b p; a \<leftarrow> get ?b (p - 1); put ?b (p - 1) (min b a) } else Some ?b) = Some b1"
    using n by (auto simp: b1_def)
  have lb1: "length b1 = length ?b" by (simp add: b1_def)
  define P where "P i s \<longleftrightarrow> length (fst s) = length ?k \<and> length (snd s) = length ?b
     \<and> (\<forall>j < length ?k. fst s ! j = (if p \<le> j \<and> Suc j < i then ?k ! Suc j else ?k ! j))
     \<and> (\<forall>j < length ?b. snd s ! j = (if p \<le> j \<and> Suc j < i then b1 ! Suc j else b1 ! j))" for i and s :: "ptr list \<times> nat list"
  let ?step = "\<lambda>i (kp, bk). do { k \<leftarrow> get kp i; kp \<leftarrow> put kp (i - 1) k; b \<leftarrow> get bk i; bk \<leftarrow> put bk (i - 1) b; Some (kp, bk) }"
  have st: "\<exists>s'. ?step i s = Some s' \<and> P (Suc i) s'" if i: "Suc p \<le> i" "i < Suc p + (n - 2 - p)" and P: "P i s" for i s
  proof -
    obtain kp bk where s: "s = (kp, bk)" by (cases s)
    have l: "length kp = length ?k" "length bk = length ?b" using P by (auto simp: P_def s)
    have ii: "i < length ?k" "i < length ?b" "0 < i" using i n by auto
    have "?step i s = Some (kp[i - 1 := kp ! i], bk[i - 1 := bk ! i])" using l ii by (simp add: s)
    moreover have "P (Suc i) (kp[i - 1 := kp ! i], bk[i - 1 := bk ! i])"
    proof -
      have "kp ! i = ?k ! i" "bk ! i = b1 ! i" using P ii by (auto simp: P_def s)
      then show ?thesis using P i ii by (auto simp: P_def s nth_list_update less_Suc_eq)
    qed
    ultimately show ?thesis by blast
  qed
  have "\<exists>s'. loop_up ?step (p + 1) (n - 2 - p) (?k, b1) = Some s' \<and> P (p + 1 + (n - 2 - p)) s'"
    by (rule loop_up_invariant [where P = P]) (use st lb1 in \<open>auto simp: P_def\<close>)
  then obtain kp bk where s: "loop_up ?step (p + 1) (n - 2 - p) (?k, b1) = Some (kp, bk)" "P (n - 1) (kp, bk)"
    using n(2) by (auto simp: Suc_diff_Suc numeral_2_eq_2)
  have l: "length kp = length ?k" "length bk = length ?b" using s(2) by (auto simp: P_def)
  have run: "remove_seq nd p = Some (nd \<lparr> key_ptr := kp[n - 2 := kp ! (n - 1)], blindiKeys := bk, valid_len := n - 1 \<rparr>)"
    unfolding remove_seq_def Let_def run1 n(1) Option.bind.bind_lunit s(1) using l n by simp
  have kp: "kp[n - 2 := kp ! (n - 1)] ! i = (if i < p then ?k ! i else ?k ! Suc i)" if "i < n - 1" for i
  proof -
    have "kp ! (n - 1) = ?k ! (n - 1)" using s(2) n by (auto simp: P_def)
    moreover have "Suc i < n - 1 \<or> Suc i = n - 1" using that by auto
    ultimately show ?thesis using s(2) that n l by (auto simp: P_def nth_list_update numeral_2_eq_2)
  qed
  have bk: "bk ! i = joined ((!) ?b) p i" if "Suc i < n - 1" for i
  proof -
    have "bk ! i = (if p \<le> i then b1 ! Suc i else b1 ! i)" using s(2) that n by (auto simp: P_def)
    then show ?thesis using that n by (auto simp: b1_def joined_def nth_list_update min.commute)
  qed
  show ?thesis
    by (intro exI [of _ "kp[n - 2 := kp ! (n - 1)]"] exI [of _ bk]) (use run kp bk l in simp)
qed

section \<open>Removal at a position\<close>

lemma remove_tree_two:
  assumes cfg: "cfg2_ok c" and t: "tree_ok (END_TREE c) f 1 tree"
  shows "\<exists>tree'. remove_tree c bks 1 1 False True tree = Some tree' \<and> tree_ok (END_TREE c) g 0 tree'"
proof -
  let ?E = "END_TREE c"
  have T: "length tree = 3" "tree ! 0 = 0" "tree ! 1 = ?E" using t by (auto simp: tree_ok_def is_min_def)
  have L: "TREE_LEVELS c = 2" "TREE_SIZE c = 3" using cfg2_okD [OF cfg] by simp_all
  have root: "remove_tree_root c bks 1 1 False True tree = Some (tree[0 := ?E], [False, True, True])"
    using T L by (simp add: remove_tree_root_def numeral_3_eq_3)
  have cell: "remove_tree_cell c bks 1 1 False True 2 pos (tr, [False, True, True]) = Some (tr[pos := ?E], [False, True, True])"
    if "length tr = 3" "tr ! 0 = ?E" "pos = 1 \<or> pos = 2" for tr pos
    using that by (auto simp: remove_tree_cell_def parent_pos_def)
  have "remove_tree c bks 1 1 False True tree = Some (tree[0 := ?E, 2 := ?E, 1 := ?E])"
    using root cell [of "tree[0 := ?E]" 2] cell [of "tree[0 := ?E, 2 := ?E]" 1] T(1) L
    by (simp add: remove_tree_def numeral_2_eq_2)
  then show ?thesis using T(1) by (auto simp: tree_ok_def)
qed

lemma RemoveInPosition2_spec:
  assumes cfg: "cfg2_ok c" and ok: "node2_ok c db nd" and p: "p < valid_len nd" "2 \<le> valid_len nd" "\<not> (valid_len nd = 2 \<and> p = 0)"
  shows "\<exists>nd'. RemoveFromBlindiNodeInPosition c nd p = Some (REMOVE_SUCCESS, nd') \<and> node2_ok c db nd'
    \<and> node_ptrs nd' = take p (node_ptrs nd) @ drop (Suc p) (node_ptrs nd) \<and> currentmaxslot nd' = currentmaxslot nd"
proof -
  define n where "n = valid_len nd"
  note k = node2_okD [OF ok, folded n_def]
  let ?ks = "node_keys db nd" and ?f = "bdif (node_keys db nd)"
  let ?ks' = "take p ?ks @ drop (Suc p) ?ks"
  have lk: "length ?ks = n" using k by simp
  have pn: "p < n" "2 \<le> n" "\<not> (n = 2 \<and> p = 0)" using p by (auto simp: n_def)
  have f': "bdif ?ks' j = joined ?f p j" if "Suc j < n - 1" for j
    using bl.bks_remove [OF k(7), of p j] that pn lk by (auto simp: joined_def)
  have o': "bl.ordered (KEY_LEN c) ?ks'" using bl.ordered_remove [OF k(7)] pn lk by simp
  have bn: "n \<le> length (key_ptr nd)" "n - 1 \<le> length (blindiKeys nd)" using k by auto
  define at_end where "at_end = (int p = int n - 1 \<or> n \<le> 2)"
  have ae: "at_end = (p = n - 1)" using pn by (auto simp: at_end_def)
  have seq: "\<exists>kp bk. (if at_end then remove_last nd p else remove_seq nd p)
      = Some (nd \<lparr> key_ptr := kp, blindiKeys := bk, valid_len := n - 1 \<rparr>)
    \<and> length kp = length (key_ptr nd) \<and> length bk = length (blindiKeys nd)
    \<and> (\<forall>i < n - 1. kp ! i = (if i < p then key_ptr nd ! i else key_ptr nd ! Suc i))
    \<and> (\<forall>i. Suc i < n - 1 \<longrightarrow> bk ! i = bdif ?ks' i)"
  proof (cases at_end)
    case True
    then have "p = n - 1" using ae by simp
    then have "remove_last nd p = Some (nd \<lparr> key_ptr := (key_ptr nd)[p := 0], blindiKeys := (blindiKeys nd)[p - 1 := 0], valid_len := n - 1 \<rparr>)"
      using pn bn by (simp add: remove_last_def n_def)
    moreover have "(blindiKeys nd)[p - 1 := 0] ! i = bdif ?ks' i" if "Suc i < n - 1" for i
      using f' [OF that] that \<open>p = n - 1\<close> k(8) [of i] by (simp add: joined_def nth_list_update)
    ultimately show ?thesis using True \<open>p = n - 1\<close>
      by (intro exI [of _ "(key_ptr nd)[p := 0]"] exI [of _ "(blindiKeys nd)[p - 1 := 0]"]) simp
  next
    case False
    then have "Suc p < n" using ae pn by auto
    from remove_seq_spec [OF n_def [symmetric] this bn] obtain kp bk where
      s: "remove_seq nd p = Some (nd \<lparr> key_ptr := kp, blindiKeys := bk, valid_len := n - 1 \<rparr>)"
        "length kp = length (key_ptr nd)" "length bk = length (blindiKeys nd)"
        "\<forall>i < n - 1. kp ! i = (if i < p then key_ptr nd ! i else key_ptr nd ! Suc i)"
        "\<forall>i. Suc i < n - 1 \<longrightarrow> bk ! i = joined ((!) (blindiKeys nd)) p i" by blast
    have "bk ! i = bdif ?ks' i" if "Suc i < n - 1" for i
      using s(5) f' [OF that] that k(8) [of i] k(8) [of "Suc i"] k(8) [of p] \<open>Suc p < n\<close> by (auto simp: joined_def)
    then show ?thesis by (intro exI [of _ kp] exI [of _ bk]) (use s False in simp)
  qed
  then obtain kp bk where s: "(if at_end then remove_last nd p else remove_seq nd p)
        = Some (nd \<lparr> key_ptr := kp, blindiKeys := bk, valid_len := n - 1 \<rparr>)"
      "length kp = length (key_ptr nd)" "length bk = length (blindiKeys nd)"
      "\<forall>i < n - 1. kp ! i = (if i < p then key_ptr nd ! i else key_ptr nd ! Suc i)"
      "\<And>i. Suc i < n - 1 \<Longrightarrow> bk ! i = bdif ?ks' i" by blast
  have tr: "\<exists>tree. remove_tree c bk (n - 1) p (p = 0) at_end (blindiTree nd) = Some tree
      \<and> tree_ok (END_TREE c) (bdif ?ks') (n - 2) tree"
  proof (cases "n = 2")
    case True
    then have "p = 1" using pn by auto
    have "tree_ok (END_TREE c) ?f 1 (blindiTree nd)" using k(9) True by simp
    from remove_tree_two [OF cfg this, of bk "bdif ?ks'"] show ?thesis using True \<open>p = 1\<close> ae by simp
  next
    case False
    have nE: "n - 1 < END_TREE c" using cfg2_okD(3) [OF cfg] k pn by linarith
    have "bks_are c bk (length ?ks' - 1) (bdif ?ks')"
      by (rule bks_are_keys [OF cfg o']) (use lk k s pn in auto)
    then have "bks_are c bk (n - 1 - 1) (joined ?f p)"
      using bks_are_cong [of "n - 1 - 1" "bdif ?ks'" "joined ?f p"] f' lk pn by (simp add: less_diff_conv)
    from remove_tree_spec [OF cfg this _ nE _ k(9)] pn False obtain tree where
      "remove_tree c bk (n - 1) p (p = 0) (p = n - 1) (blindiTree nd) = Some tree" "tree_ok (END_TREE c) (joined ?f p) (n - 1 - 1) tree"
      by fastforce
    moreover have "tree_ok (END_TREE c) (joined ?f p) (n - 2) tree = tree_ok (END_TREE c) (bdif ?ks') (n - 2) tree"
      by (rule tree_ok_cong) (use f' in simp)
    ultimately show ?thesis unfolding ae by (simp add: numeral_2_eq_2)
  qed
  then obtain tree where tr: "remove_tree c bk (n - 1) p (p = 0) at_end (blindiTree nd) = Some tree"
      "tree_ok (END_TREE c) (bdif ?ks') (n - 2) tree" by blast
  define nd' where "nd' = nd \<lparr> key_ptr := kp, blindiKeys := bk, valid_len := n - 1, blindiTree := tree \<rparr>"
  have run: "RemoveFromBlindiNodeInPosition c nd p = Some (REMOVE_SUCCESS, nd')"
  proof -
    have ne: "\<not> (at_end \<and> \<not> (n > 2 \<or> n = 2 \<and> p = 1))" using pn by auto
    show ?thesis unfolding RemoveFromBlindiNodeInPosition_def Let_def n_def [symmetric] at_end_def [symmetric] if_not_P [OF ne]
      using s(1) tr(1) cfg2_okD(1) [OF cfg] by (simp add: nd'_def)
  qed
  have ps: "node_ptrs nd' = take p (node_ptrs nd) @ drop (Suc p) (node_ptrs nd)"
  proof (rule nth_equalityI)
    show "length (node_ptrs nd') = length (take p (node_ptrs nd) @ drop (Suc p) (node_ptrs nd))"
      using pn bn s(2) by (simp add: node_ptrs_def nd'_def n_def [symmetric])
    fix i assume "i < length (node_ptrs nd')"
    then have "i < n - 1" by (simp add: node_ptrs_def nd'_def)
    then show "node_ptrs nd' ! i = (take p (node_ptrs nd) @ drop (Suc p) (node_ptrs nd)) ! i"
      using s(4) pn bn by (simp add: node_ptrs_def nd'_def n_def [symmetric] nth_append)
  qed
  have ks: "node_keys db nd' = ?ks'" by (simp add: node_keys_ptrs ps take_map drop_map)
  have "node2_ok c db nd'" unfolding node2_ok_def ks
    using k s tr o' pn by (auto simp: nd'_def numeral_2_eq_2)
  then show ?thesis using run ps by (auto simp: nd'_def)
qed

end
