(* ===== verification/SeqTree_Merge.thy ===== *)
theory SeqTree_Merge
  imports SeqTree_Remove
begin

text \<open>
  \<^verbatim>\<open>MergeBlindiNodes\<close>: the merged tree is picked from the two old trees and the blindi key between them; the result is
  well-formed and holds the keys of both nodes.
\<close>

section \<open>The tree of two nodes put together\<close>

text \<open>
  \<open>f\<close> are the blindi keys of both nodes, \<open>a\<close> is the place of the one between them. The three candidates for the
  minimum of a range around \<open>a\<close> are \<open>a\<close> itself and the minima \<open>s\<close> and \<open>t\<close> of the parts on both sides.
\<close>

definition mid_wins :: "nat \<Rightarrow> (nat \<Rightarrow> nat) \<Rightarrow> nat \<Rightarrow> nat \<Rightarrow> nat \<Rightarrow> bool" where
  "mid_wins E f a s t \<longleftrightarrow> (s \<noteq> E \<longrightarrow> f a < f s) \<and> (t \<noteq> E \<longrightarrow> f a < f t)"

definition small_wins :: "nat \<Rightarrow> (nat \<Rightarrow> nat) \<Rightarrow> nat \<Rightarrow> nat \<Rightarrow> bool" where
  "small_wins E f s t \<longleftrightarrow> s \<noteq> E \<and> (t \<noteq> E \<longrightarrow> f s < f t)"

lemma is_min_join:
  assumes nt: "no_ties f m" and r: "lo \<le> a" "a < hi" "hi \<le> m" "m < E"
    and s: "is_min E f lo a s" and t: "is_min E f (Suc a) hi t"
  shows "is_min E f lo hi (if mid_wins E f a s t then a else if small_wins E f s t then s else t)"
    and "\<not> mid_wins E f a s t \<Longrightarrow> \<not> small_wins E f s t \<Longrightarrow> t \<noteq> E"
proof -
  have S: "lo \<le> s \<and> s < a \<and> s \<noteq> E \<and> (\<forall>j. lo \<le> j \<and> j < a \<longrightarrow> f s \<le> f j)" if "lo < a"
    using is_minD [OF s that] that r by simp
  have T: "Suc a \<le> t \<and> t < hi \<and> t \<noteq> E \<and> (\<forall>j. Suc a \<le> j \<and> j < hi \<longrightarrow> f t \<le> f j)" if "Suc a < hi"
    using is_minD [OF t that] that r by simp
  have e: "s = E" if "lo = a" using s that by simp
  have e': "t = E" if "hi = Suc a" using t that by simp
  have part: "j = a \<or> lo < a \<and> j < a \<or> Suc a < hi \<and> Suc a \<le> j" if "lo \<le> j" "j < hi" for j using that r by linarith
  show "is_min E f lo hi (if mid_wins E f a s t then a else if small_wins E f s t then s else t)"
  proof (rule no_ties_is_min [OF nt _ _ r(3)])
    let ?r = "if mid_wins E f a s t then a else if small_wins E f s t then s else t"
    have c: "lo < a \<or> s = E" "Suc a < hi \<or> t = E" using e e' r by linarith+
    show "lo \<le> ?r" "?r < hi" using S T c r by (auto simp: mid_wins_def small_wins_def)
    fix j assume j: "lo \<le> j" "j < hi"
    have part: "j = a \<or> (s \<noteq> E \<and> f s \<le> f j) \<or> (t \<noteq> E \<and> f t \<le> f j)" using part [OF j] S T j by blast
    consider "mid_wins E f a s t" | "\<not> mid_wins E f a s t" "small_wins E f s t" | "\<not> mid_wins E f a s t" "\<not> small_wins E f s t"
      by blast
    then show "f ?r \<le> f j"
    proof cases
      case 1 then show ?thesis using part by (auto simp: mid_wins_def)
    next
      case 2
      then have "f s \<le> f a" "t \<noteq> E \<longrightarrow> f s < f t" by (auto simp: mid_wins_def small_wins_def)
      then show ?thesis using 2 part by auto
    next
      case 3
      then have "f t \<le> f a" "s \<noteq> E \<longrightarrow> f t \<le> f s" by (auto simp: mid_wins_def small_wins_def)
      then show ?thesis using 3 part by auto
    qed
  qed
  show "t \<noteq> E" if "\<not> mid_wins E f a s t" "\<not> small_wins E f s t"
    using that by (auto simp: mid_wins_def small_wins_def)
qed

definition shifted :: "nat \<Rightarrow> nat \<Rightarrow> nat \<Rightarrow> nat" where
  "shifted E k t = (if t = E then E else t + k)"

lemma is_min_up:
  assumes "is_min E (\<lambda>i. f (k + i)) lo hi t" "hi \<le> E"
  shows "is_min E f (k + lo) (k + hi) (shifted E k t)"
proof (cases "lo < hi")
  case True
  then have t: "lo \<le> t" "t < hi" "\<And>j. lo \<le> j \<Longrightarrow> j < hi \<Longrightarrow> j \<noteq> t \<Longrightarrow> f (k + t) < f (k + j)" using assms by (auto simp: is_min_def)
  have "f (k + t) < f j" if "k + lo \<le> j" "j < k + hi" "j \<noteq> t + k" for j using t(3) [of "j - k"] that by auto
  then show ?thesis using True t assms(2) by (auto simp: is_min_def shifted_def add.commute)
qed (use assms in \<open>simp add: shifted_def\<close>)

lemma push_down_one:
  assumes "cfg2_ok c" "sp < length src" "dp < length tree"
  shows "push_down_blindiTree c src sp dp 1 off tree = Some (tree[dp := if src ! sp = END_TREE c then END_TREE c
      else to_idx c (int (src ! sp + off))])"
    "push_down_blindiTree c src sp dp (Suc (Suc 0)) off tree = Some tree"
  using assms cfg2_okD(1) [OF assms(1)] by (simp_all add: push_down_blindiTree_def)

text \<open>What both nodes and the arrays of the merged node have to satisfy.\<close>

definition merging :: "config \<Rightarrow> (nat \<Rightarrow> nat) \<Rightarrow> nat \<Rightarrow> nat \<Rightarrow> nat list \<Rightarrow> nat list \<Rightarrow> nat list \<Rightarrow> nat list \<Rightarrow> bool" where
  "merging c f a m small bks large bks_l \<longleftrightarrow> a < m \<and> m < END_TREE c \<and> no_ties f m
     \<and> m \<le> length bks \<and> (\<forall>i < m. bks ! i = f i) \<and> m - Suc a \<le> length bks_l \<and> (\<forall>i < m - Suc a. bks_l ! i = f (Suc a + i))
     \<and> tree_ok (END_TREE c) f a small \<and> tree_ok (END_TREE c) (\<lambda>i. f (Suc a + i)) (m - Suc a) large"

lemma merge_conditions:
  assumes M: "merging c f a m small bks large bks_l" and sp: "sp < 3" and lp: "lp < 3"
    and s: "is_min (END_TREE c) f lo a (small ! sp)"
    and t: "is_min (END_TREE c) f (Suc a) hi (shifted (END_TREE c) (Suc a) (large ! lp))" and hi: "hi \<le> m"
  shows "\<exists>sv lv. tree_value c small bks sp = Some sv \<and> tree_value c large bks_l lp = Some lv
    \<and> ((case sv of None \<Rightarrow> True | Some b \<Rightarrow> f a < b) \<and> (case lv of None \<Rightarrow> True | Some b \<Rightarrow> f a < b))
        = mid_wins (END_TREE c) f a (small ! sp) (shifted (END_TREE c) (Suc a) (large ! lp))
    \<and> (case sv of None \<Rightarrow> False | Some b \<Rightarrow> (case lv of None \<Rightarrow> True | Some b' \<Rightarrow> b < b'))
        = small_wins (END_TREE c) f (small ! sp) (shifted (END_TREE c) (Suc a) (large ! lp))"
proof -
  let ?E = "END_TREE c" and ?s = "small ! sp" and ?l = "large ! lp"
  let ?t = "shifted ?E (Suc a) ?l"
  have L: "length small = 3" "length large = 3" using M by (auto simp: merging_def tree_ok_def)
  have B: "a < m" "m < ?E" "m \<le> length bks" "\<forall>i < m. bks ! i = f i" "m - Suc a \<le> length bks_l"
    "\<forall>i < m - Suc a. bks_l ! i = f (Suc a + i)" using M by (auto simp: merging_def)
  have sv: "tree_value c small bks sp = Some (if ?s = ?E then None else Some (f ?s))"
  proof (cases "?s = ?E")
    case True then show ?thesis using sp L by (simp add: tree_value_def)
  next
    case False
    then have "?s < a" using s by (auto simp: is_min_def split: if_splits)
    then show ?thesis using False sp L B by (simp add: tree_value_def)
  qed
  have tE: "(?t = ?E) = (?l = ?E)"
  proof
    assume e: "?t = ?E"
    have "\<not> Suc a < hi" using is_minD(2) [OF t] hi B e by fastforce
    show "?l = ?E"
    proof (rule ccontr)
      assume "?l \<noteq> ?E"
      moreover from this have "?l < m - Suc a"
      proof -
        have "lp = 0 \<or> lp = 1 \<or> lp = 2" using lp by auto
        then show ?thesis using M \<open>?l \<noteq> ?E\<close> by (fastforce simp: merging_def tree_ok_def is_min_def split: if_splits)
      qed
      ultimately show False using e B by (simp add: shifted_def)
    qed
  qed (simp add: shifted_def)
  have lv: "tree_value c large bks_l lp = Some (if ?l = ?E then None else Some (f ?t))"
  proof (cases "?l = ?E")
    case True then show ?thesis using lp L by (simp add: tree_value_def)
  next
    case False
    then have "?t = ?l + Suc a" "Suc a < hi" using t tE by (auto simp: shifted_def is_min_def split: if_splits)
    then have "?l < m - Suc a" using is_minD(2) [OF t] hi by auto
    then show ?thesis using False lp L B \<open>?t = _\<close> by (simp add: tree_value_def add.commute)
  qed
  show ?thesis unfolding sv lv mid_wins_def small_wins_def tE by auto
qed

lemma merge_root:
  assumes M: "merging c f a m small bks large bks_l"
  shows "is_min (END_TREE c) f 0 a (small ! 0)" "is_min (END_TREE c) f 0 (if a = 0 then 0 else small ! 0) (small ! 1)"
    "is_min (END_TREE c) f (if a = 0 then a else Suc (small ! 0)) a (small ! 2)"
    "is_min (END_TREE c) f (Suc a) m (shifted (END_TREE c) (Suc a) (large ! 0))"
    "Suc a < m \<Longrightarrow> is_min (END_TREE c) f (Suc a) (Suc a + large ! 0) (shifted (END_TREE c) (Suc a) (large ! 1))"
    "Suc a < m \<Longrightarrow> is_min (END_TREE c) f (Suc (Suc a + large ! 0)) m (shifted (END_TREE c) (Suc a) (large ! 2))"
    "Suc a < m \<Longrightarrow> large ! 0 < m - Suc a"
proof -
  let ?E = "END_TREE c"
  have k: "a < m" "m < ?E" using M by (auto simp: merging_def)
  have l: "tree_ok ?E (\<lambda>i. f (Suc a + i)) (m - Suc a) large" "tree_ok ?E f a small" using M by (auto simp: merging_def)
  show "is_min ?E f 0 a (small ! 0)" "is_min ?E f 0 (if a = 0 then 0 else small ! 0) (small ! 1)"
    "is_min ?E f (if a = 0 then a else Suc (small ! 0)) a (small ! 2)" using l(2) by (auto simp: tree_ok_def)
  show "is_min ?E f (Suc a) m (shifted ?E (Suc a) (large ! 0))"
    using is_min_up [of ?E f "Suc a" 0 "m - Suc a" "large ! 0"] l(1) k by (simp add: tree_ok_def)
  assume am: "Suc a < m"
  have r: "is_min ?E (\<lambda>i. f (Suc a + i)) 0 (m - Suc a) (large ! 0)" using l(1) by (simp add: tree_ok_def)
  show r': "large ! 0 < m - Suc a" using is_minD(2) [OF r] am by simp
  show "is_min ?E f (Suc a) (Suc a + large ! 0) (shifted ?E (Suc a) (large ! 1))"
    using is_min_up [of ?E f "Suc a" 0 "large ! 0" "large ! 1"] l(1) k r' am by (simp add: tree_ok_def)
  show "is_min ?E f (Suc (Suc a + large ! 0)) m (shifted ?E (Suc a) (large ! 2))"
    using is_min_up [of ?E f "Suc a" "Suc (large ! 0)" "m - Suc a" "large ! 2"] l(1) k r' am by (simp add: tree_ok_def)
qed

text \<open>The second level.\<close>

lemma merge_last:
  assumes cfg: "cfg2_ok c" and M: "merging c f a m small bks large bks_l" and sp: "sp < 3" and lp: "lp < 3" and np: "np < 3"
    and tree: "length tree = 3" and s: "is_min (END_TREE c) f lo a (small ! sp)"
    and t: "is_min (END_TREE c) f (Suc a) hi (shifted (END_TREE c) (Suc a) (large ! lp))" and r: "hi \<le> m" "lo \<le> a" "a < hi"
  shows "\<exists>r. merge_levels c small bks large bks_l (f a) (Suc a) np sp lp (Suc 0) (Suc 0) tree = Some (tree[np := r])
    \<and> is_min (END_TREE c) f lo hi r"
proof -
  let ?E = "END_TREE c" and ?s = "small ! sp" and ?l = "large ! lp"
  let ?t = "shifted ?E (Suc a) ?l"
  have L: "length small = 3" "length large = 3" using M by (auto simp: merging_def tree_ok_def)
  have mE: "a < m" "m < ?E" "no_ties f m" using M by (auto simp: merging_def)
  obtain sv lv where v: "tree_value c small bks sp = Some sv" "tree_value c large bks_l lp = Some lv"
      "((case sv of None \<Rightarrow> True | Some b \<Rightarrow> f a < b) \<and> (case lv of None \<Rightarrow> True | Some b \<Rightarrow> f a < b)) = mid_wins ?E f a ?s ?t"
      "(case sv of None \<Rightarrow> False | Some b \<Rightarrow> (case lv of None \<Rightarrow> True | Some b' \<Rightarrow> b < b')) = small_wins ?E f ?s ?t"
    using merge_conditions [OF M sp lp s t r(1)] by blast
  note J = is_min_join [OF mE(3) r(2,3,1) mE(2) s t]
  have lvl: "TREE_LEVELS c = Suc (Suc 0)" "TREE_SIZE c = 3" using cfg2_okD [OF cfg] by simp_all
  have pd: "push_down_blindiTree c src p q (Suc (Suc 0)) off tr = Some tr" for src p q off tr
    using lvl by (simp add: push_down_blindiTree_def)
  consider "mid_wins ?E f a ?s ?t" | "\<not> mid_wins ?E f a ?s ?t" "small_wins ?E f ?s ?t"
    | "\<not> mid_wins ?E f a ?s ?t" "\<not> small_wins ?E f ?s ?t" by blast
  then show ?thesis
  proof cases
    case 1
    have "to_idx c (int (Suc a) - 1) = a" using cfg mE by simp
    then have "merge_levels c small bks large bks_l (f a) (Suc a) np sp lp (Suc 0) (Suc 0) tree = Some (tree[np := a])"
      unfolding merge_levels.simps v(1,2) Option.bind.bind_lunit v(3,4) if_P [OF 1] using tree np by (simp add: lvl pd)
    then show ?thesis using J(1) 1 by auto
  next
    case 2
    have "merge_levels c small bks large bks_l (f a) (Suc a) np sp lp (Suc 0) (Suc 0) tree = Some (tree[np := ?s])"
      unfolding merge_levels.simps v(1,2) Option.bind.bind_lunit v(3,4) if_not_P [OF 2(1)] if_P [OF 2(2)]
      using tree np sp L by (simp add: lvl)
    then show ?thesis using J(1) 2 by auto
  next
    case 3
    have t': "?t \<noteq> ?E" using J(2) 3 by blast
    then have "?t = ?l + Suc a" by (auto simp: shifted_def split: if_splits)
    moreover have "?t \<le> ?E" using is_min_le [OF t] r mE by simp
    ultimately have "to_idx c (int (?l + Suc a)) = ?t" using cfg by (simp del: of_nat_add of_nat_Suc)
    then have "merge_levels c small bks large bks_l (f a) (Suc a) np sp lp (Suc 0) (Suc 0) tree = Some (tree[np := ?t])"
      unfolding merge_levels.simps v(1,2) Option.bind.bind_lunit v(3,4) if_not_P [OF 3(1)] if_not_P [OF 3(2)]
      using tree np lp L by (simp add: lvl pd del: of_nat_add of_nat_Suc add_Suc_right)
    then show ?thesis using J(1) 3 by auto
  qed
qed

lemma merge_two:
  assumes cfg: "cfg2_ok c" and M: "merging c f a m small bks large bks_l"
  shows "\<exists>tree. merge_levels c small bks large bks_l (f a) (Suc a) 0 0 0 0 (Suc (Suc 0)) small = Some tree
    \<and> tree_ok (END_TREE c) f m tree"
proof -
  let ?E = "END_TREE c" and ?s = "small ! 0" and ?l = "large ! 0"
  let ?t = "shifted ?E (Suc a) ?l"
  have L: "length small = 3" "length large = 3" using M by (auto simp: merging_def tree_ok_def)
  have mE: "a < m" "m < ?E" "no_ties f m" using M by (auto simp: merging_def)
  note R = merge_root [OF M]
  obtain sv lv where v: "tree_value c small bks 0 = Some sv" "tree_value c large bks_l 0 = Some lv"
      "((case sv of None \<Rightarrow> True | Some b \<Rightarrow> f a < b) \<and> (case lv of None \<Rightarrow> True | Some b \<Rightarrow> f a < b)) = mid_wins ?E f a ?s ?t"
      "(case sv of None \<Rightarrow> False | Some b \<Rightarrow> (case lv of None \<Rightarrow> True | Some b' \<Rightarrow> b < b')) = small_wins ?E f ?s ?t"
    using merge_conditions [OF M _ _ R(1) R(4)] by auto
  note J = is_min_join [OF mE(3) _ mE(1) order_refl mE(2) R(1) R(4)]
  have lvl: "TREE_LEVELS c = Suc (Suc 0)" "TREE_SIZE c = 3" using cfg2_okD [OF cfg] by simp_all
  have pd: "push_down_blindiTree c src p q (Suc 0) off tr = Some (tr[q := if src ! p = ?E then ?E else to_idx c (int (src ! p + off))])"
    if "p < length src" "q < length tr" for src p q off tr
    using push_down_one(1) [OF cfg that, of off] by simp
  have sh: "(if large ! p = ?E then ?E else to_idx c (int (large ! p + Suc a))) = shifted ?E (Suc a) (large ! p)"
    if "shifted ?E (Suc a) (large ! p) \<le> ?E" for p
    using that to_idx_id [OF cfg, of "large ! p + Suc a"] unfolding shifted_def by (simp del: of_nat_add of_nat_Suc add_Suc_right split: if_splits)
  have keep: "(if small ! p = ?E then ?E else to_idx c (int (small ! p + 0))) = small ! p" if "small ! p \<le> ?E" for p
    using that cfg by simp
  consider "mid_wins ?E f a ?s ?t" | "\<not> mid_wins ?E f a ?s ?t" "small_wins ?E f ?s ?t"
    | "\<not> mid_wins ?E f a ?s ?t" "\<not> small_wins ?E f ?s ?t" by blast
  then show ?thesis
  proof cases
    case 1
    have i: "to_idx c (int (Suc a) - 1) = a" using cfg mE by simp
    have b: "?s \<le> ?E" "?t \<le> ?E" using is_min_le [OF R(1)] is_min_le [OF R(4)] mE by auto
    have run: "merge_levels c small bks large bks_l (f a) (Suc a) 0 0 0 0 (Suc (Suc 0)) small = Some (small[0 := a, 1 := ?s, 2 := ?t])"
      unfolding merge_levels.simps v(1,2) Option.bind.bind_lunit v(3,4) if_P [OF 1] i
      using L by (simp add: lvl pd keep [OF b(1), simplified] sh [OF b(2), simplified])
    have "is_min ?E f 0 m a" using J(1) 1 by simp
    then have "tree_ok ?E f m (small[0 := a, 1 := ?s, 2 := ?t])" using L mE R(1,4) by (simp add: tree_ok_def)
    then show ?thesis using run by blast
  next
    case 2
    have s: "?s \<noteq> ?E" using 2(2) by (simp add: small_wins_def)
    then have a: "0 < a" "?s < a" using R(1) by (auto simp: is_min_def split: if_splits)
    have S: "is_min ?E f 0 ?s (small ! 1)" "is_min ?E f (Suc ?s) a (small ! 2)" using R(2,3) a by auto
    have b: "small ! 1 \<le> ?E" using is_min_le [OF S(1)] a mE by simp
    have tr: "length (small[0 := ?s, 1 := small ! 1]) = 3" using L by simp
    have "push_down_blindiTree c small 1 1 (Suc 0) 0 small = Some (small[1 := small ! 1])"
      using pd [of 1 small 1 small 0] keep [OF b] L by simp
    then have p1: "push_down_blindiTree c small (Suc 0) (Suc 0) (Suc 0) 0 small = Some small" by simp
    from merge_last [OF cfg M _ _ _ tr S(2), where lp = 0 and hi = m and np = 2] R(4) mE a obtain r where
      r: "merge_levels c small bks large bks_l (f a) (Suc a) 2 2 0 (Suc 0) (Suc 0) (small[0 := ?s, 1 := small ! 1])
          = Some (small[0 := ?s, 1 := small ! 1, 2 := r])" "is_min ?E f (Suc ?s) m r" by (auto simp del: merge_levels.simps)
    have run: "merge_levels c small bks large bks_l (f a) (Suc a) 0 0 0 0 (Suc (Suc 0)) small = Some (small[0 := ?s, 1 := small ! 1, 2 := r])"
      unfolding merge_levels.simps(2) [of _ _ _ _ _ _ _ _ _ _ _ "Suc 0"] v(1,2) Option.bind.bind_lunit v(3,4) if_not_P [OF 2(1)] if_P [OF 2(2)]
      using L r(1) by (simp add: lvl p1 del: merge_levels.simps)
    have "is_min ?E f 0 m ?s" using J(1) 2 by simp
    then have "tree_ok ?E f m (small[0 := ?s, 1 := small ! 1, 2 := r])" using L mE S(1) r(2) by (simp add: tree_ok_def)
    then show ?thesis using run by blast
  next
    case 3
    have t: "?t \<noteq> ?E" using J(2) 3 by blast
    then have tl: "?t = Suc a + ?l" by (auto simp: shifted_def split: if_splits)
    have am: "Suc a < m" using t R(4) by (auto simp: is_min_def split: if_splits)
    note R' = R(5-7) [OF am]
    have b: "?t \<le> ?E" "shifted ?E (Suc a) (large ! 2) \<le> ?E" using is_min_le [OF R(4)] is_min_le [OF R'(2)] mE by auto
    have i: "to_idx c (int (?l + Suc a)) = ?t" using cfg b(1) tl by (simp add: add.commute del: of_nat_add of_nat_Suc)
    let ?tr = "small[0 := ?t, 2 := shifted ?E (Suc a) (large ! 2)]"
    have tr: "length ?tr = 3" using L by simp
    have hi: "Suc a + ?l \<le> m" "a < Suc a + ?l" using R'(3) am by auto
    from merge_last [OF cfg M _ _ _ tr R(1) R'(1) hi(1) _ hi(2), where np = 1] obtain r where
      r: "merge_levels c small bks large bks_l (f a) (Suc a) 1 0 1 (Suc 0) (Suc 0) ?tr = Some (?tr[1 := r])" "is_min ?E f 0 ?t r"
      using tl by (auto simp del: merge_levels.simps)
    have run: "merge_levels c small bks large bks_l (f a) (Suc a) 0 0 0 0 (Suc (Suc 0)) small = Some (?tr[1 := r])"
      unfolding merge_levels.simps(2) [of _ _ _ _ _ _ _ _ _ _ _ "Suc 0"] v(1,2) Option.bind.bind_lunit v(3,4) if_not_P [OF 3(1)] if_not_P [OF 3(2)]
      using L r(1) by (simp add: lvl pd i sh [OF b(2), simplified] del: merge_levels.simps of_nat_add of_nat_Suc add_Suc_right)
    have "is_min ?E f 0 m ?t" using J(1) 3 by simp
    then have "tree_ok ?E f m (?tr[1 := r])" using L mE R'(2) r(2) tl by (simp add: tree_ok_def)
    then show ?thesis using run by blast
  qed
qed

section \<open>Two nodes put together\<close>

lemma MergeBlindiNodes2_spec:
  assumes cfg: "cfg2_ok c" and ok: "node2_ok c db nd" "node2_ok c db lg"
    and room: "valid_len nd + valid_len lg \<le> currentmaxslot nd"
    and lt: "key_less (last (node_keys db nd)) (hd (node_keys db lg))"
  shows "\<exists>nd'. MergeBlindiNodes c db nd lg = Some nd' \<and> node2_ok c db nd' \<and> node_ptrs nd' = node_ptrs nd @ node_ptrs lg"
proof -
  define sl where "sl = valid_len nd"
  define ll where "ll = valid_len lg"
  note k = node2_okD [OF ok(1), folded sl_def]
  note l = node2_okD [OF ok(2), folded ll_def]
  let ?ks = "node_keys db nd" and ?kl = "node_keys db lg"
  let ?f = "bdif (?ks @ ?kl)" and ?a = "sl - 1" and ?m = "sl + ll - 1"
  have lk: "length ?ks = sl" "length ?kl = ll" "0 < sl" "0 < ll" "?ks \<noteq> []" "?kl \<noteq> []" using k l by auto
  have rm: "sl + ll \<le> length (key_ptr nd)" "sl + ll \<le> NUM_SLOTS c" using room k by (auto simp: sl_def ll_def)
  have o: "bl.ordered (KEY_LEN c) (?ks @ ?kl)" by (rule bl.ordered_append [OF k(7) l(7)]) (use lt in auto)
  have ends: "last ?ks = db (key_ptr nd ! ?a)" "hd ?kl = db (key_ptr lg ! 0)"
    using lk k l node_keys_nth [of ?a nd db] node_keys_nth [of 0 lg db] by (auto simp: last_conv_nth hd_conv_nth sl_def ll_def)
  let ?kp = "take sl (key_ptr nd) @ take (ll - 1) (key_ptr lg) @ drop (sl + (ll - 1)) (key_ptr nd)"
  let ?kp' = "?kp[sl + ll - 1 := key_ptr lg ! (ll - 1)]"
  let ?bk = "take sl (blindiKeys nd) @ take (ll - 1) (blindiKeys lg) @ drop (sl + (ll - 1)) (blindiKeys nd)"
  have c1: "copy_cells (key_ptr lg) 0 (key_ptr nd) sl (ll - 1) = Some ?kp" using rm l lk by (subst copy_cells_spec) auto
  have c2: "copy_cells (blindiKeys lg) 0 (blindiKeys nd) sl (ll - 1) = Some ?bk" using rm k l lk by (subst copy_cells_spec) auto
  have lp: "length ?kp = length (key_ptr nd)" "length ?bk = NUM_SLOTS c - 1" using rm k l lk by auto
  have f_mid: "?f ?a = key_dif (db (key_ptr nd ! ?a)) (db (key_ptr lg ! 0))"
    unfolding bl.bks_def using lk ends by (simp add: nth_append last_conv_nth hd_conv_nth)
  have v: "key_of_len (KEY_LEN c) (db (key_ptr nd ! ?a))" "key_of_len (KEY_LEN c) (db (key_ptr lg ! 0))"
    using bl.ordered_valid [OF k(7), of ?a] bl.ordered_valid [OF l(7), of 0] lk ends by (auto simp: last_conv_nth hd_conv_nth)
  have ne: "db (key_ptr nd ! ?a) \<noteq> db (key_ptr lg ! 0)" using lt ends bl.lt_irrefl by force
  have cmp: "CompareStage (db (key_ptr nd ! ?a)) (db (key_ptr lg ! 0)) False (KEY_LEN c) (KEY_LEN c)
      = Some (?f ?a, False, key_less (db (key_ptr lg ! 0)) (db (key_ptr nd ! ?a)))"
    unfolding CompareStage_eq [OF v] f_mid using ne by simp
  let ?bk' = "?bk[?a := ?f ?a]"
  have bk: "?bk' ! i = ?f i" if "i < ?m" for i
  proof -
    consider "i < ?a" | "i = ?a" | "sl \<le> i" using that by linarith
    then show ?thesis
    proof cases
      case 1
      then have "i < sl" "i < length (blindiKeys nd)" using rm k(6) lk by auto
      then have "?bk' ! i = blindiKeys nd ! i" using 1 by (simp add: nth_append)
      then show ?thesis using 1 k(8) [of i] lk bl.bks_append_left [of i ?ks ?kl] by simp
    next
      case 2
      have "?a < length ?bk" unfolding lp(2) using rm lk by linarith
      then show ?thesis unfolding 2 by (rule nth_list_update_eq)
    next
      case 3
      then have j: "i - sl < ll - 1" "length (take sl (blindiKeys nd)) = sl" using that rm k(6) lk by auto
      then have "?bk' ! i = blindiKeys lg ! (i - sl)" using 3 lk rm k(6) l(6) by (simp add: nth_append)
      moreover have "blindiKeys lg ! (i - sl) = bdif ?kl (i - sl)" using l(8) [of "i - sl"] j by simp
      ultimately show ?thesis using bl.bks_append_right [of ?ks ?kl "i - sl"] lk 3 by simp
    qed
  qed
  have mE: "?m < END_TREE c" using rm lk cfg2_okD(3) [OF cfg] by linarith
  have M: "merging c ?f ?a ?m (blindiTree nd) ?bk' (blindiTree lg) (blindiKeys lg)"
    unfolding merging_def
  proof (intro conjI allI impI)
    show "no_ties ?f ?m" using ordered_no_ties [OF o] lk by simp
    show "?m \<le> length ?bk'" using lp(2) rm lk by simp
    show "?m - Suc ?a \<le> length (blindiKeys lg)" using l lk by auto
    have fs: "?f (Suc ?a + i) = bdif ?kl i" for i using bl.bks_append_right [of ?ks ?kl i] lk by simp
    show "blindiKeys lg ! i = ?f (Suc ?a + i)" if "i < ?m - Suc ?a" for i using l(8) [of i] that lk fs by simp
    have "tree_ok (END_TREE c) ?f ?a (blindiTree nd) = tree_ok (END_TREE c) (bdif ?ks) ?a (blindiTree nd)"
      by (rule tree_ok_cong) (use bl.bks_append_left lk in simp)
    then show "tree_ok (END_TREE c) ?f ?a (blindiTree nd)" using k(9) by simp
    show "tree_ok (END_TREE c) (\<lambda>i. ?f (Suc ?a + i)) (?m - Suc ?a) (blindiTree lg)" unfolding fs using l(9) lk by simp
  qed (use mE bk lk in auto)
  from merge_two [OF cfg M] lk obtain tree where
    tr: "merge_levels c (blindiTree nd) ?bk' (blindiTree lg) (blindiKeys lg) (?f ?a) sl 0 0 0 0 2 (blindiTree nd) = Some tree"
      "tree_ok (END_TREE c) ?f ?m tree" by (auto simp: numeral_2_eq_2)
  define nd' where "nd' = nd \<lparr> key_ptr := ?kp', blindiKeys := ?bk', valid_len := sl + ll, blindiTree := tree \<rparr>"
  have g: "get (key_ptr lg) (ll - 1) = Some (key_ptr lg ! (ll - 1))" "put ?kp (sl + ll - 1) (key_ptr lg ! (ll - 1)) = Some ?kp'"
    "get ?kp' (sl - 1) = Some (key_ptr nd ! ?a)" "get (key_ptr lg) 0 = Some (key_ptr lg ! 0)" "put ?bk (sl - 1) (?f ?a) = Some ?bk'"
    using lp rm lk l by (auto simp: nth_append nth_list_update)
  have lm: "(sl + ll) mod idx_mod c = sl + ll" using rm cfg2_okD(3,7) [OF cfg] by simp
  have run: "MergeBlindiNodes c db nd lg = Some nd'"
    unfolding MergeBlindiNodes_def MergeBlindiNodes_node_def Let_def sl_def [symmetric] ll_def [symmetric]
      c1 c2 Option.bind.bind_lunit g cmp prod.case if_False tr(1) [folded numeral_2_eq_2] lm
    using lk tr(1) by (simp add: nd'_def cfg2_okD(1) [OF cfg] numeral_2_eq_2 [symmetric] del: One_nat_def)
  have ps: "node_ptrs nd' = node_ptrs nd @ node_ptrs lg"
  proof (rule nth_equalityI)
    show "length (node_ptrs nd') = length (node_ptrs nd @ node_ptrs lg)"
      using lp rm lk k l by (simp add: node_ptrs_def nd'_def sl_def [symmetric] ll_def [symmetric])
    fix i assume "i < length (node_ptrs nd')"
    then have "i < sl + ll" by (simp add: node_ptrs_def nd'_def)
    then show "node_ptrs nd' ! i = (node_ptrs nd @ node_ptrs lg) ! i"
      using lp rm lk k l by (auto simp: node_ptrs_def nd'_def sl_def [symmetric] ll_def [symmetric] nth_append nth_list_update)
  qed
  have ks: "node_keys db nd' = ?ks @ ?kl" by (simp add: node_keys_ptrs ps)
  have "node2_ok c db nd'" unfolding node2_ok_def ks
    using k lp rm lk tr(2) o bk room by (auto simp: nd'_def sl_def [symmetric] ll_def [symmetric])
  then show ?thesis using run ps by blast
qed

end
