(* ===== verification/SeqTree_Levels.thy ===== *)
theory SeqTree_Levels
  imports SeqTree_Merge
begin

text \<open>
  The two builds of the repository: \<^verbatim>\<open>TREE_LEVELS = 2\<close> (the Makefiles) and \<^verbatim>\<open>TREE_LEVELS = 0\<close> (\<^verbatim>\<open>run.sh\<close>, and the copy of
  the header under \<^verbatim>\<open>mcas\<close>). Without a tree the scans run over all blindi keys. The contracts of \<^verbatim>\<open>SeqTree_Search\<close> to
  \<^verbatim>\<open>SeqTree_Merge\<close> carry over: a node without a tree is a node with two levels whose tree has been erased (\<open>no_tree\<close>), and every
  operation without levels does what the operation with two levels does, but for the tree.

  Without levels a node of one key is not well-formed: its first search would scan up to \<^verbatim>\<open>(uint16_t) (1 - 2)\<close>.
\<close>

section \<open>Configurations and nodes of both builds\<close>

definition cfg_ok :: "config \<Rightarrow> bool" where
  "cfg_ok c \<longleftrightarrow> (TREE_LEVELS c = 0 \<or> TREE_LEVELS c = 2) \<and> 6 \<le> NUM_SLOTS c \<and> even (NUM_SLOTS c) \<and> NUM_SLOTS c \<le> 65534
     \<and> 0 < KEY_LEN c \<and> 8 * KEY_LEN c \<le> END_TREE c \<and> 8 * KEY_LEN c \<le> MAX_HIGH_MISS c"

definition node_ok :: "config \<Rightarrow> db \<Rightarrow> node \<Rightarrow> bool" where
  "node_ok c db nd \<longleftrightarrow> 0 < valid_len nd \<and> valid_len nd \<le> currentmaxslot nd \<and> currentmaxslot nd \<le> NUM_SLOTS c
     \<and> length (key_ptr nd) = currentmaxslot nd \<and> length (blindiKeys nd) = NUM_SLOTS c - 1
     \<and> bl.ordered (KEY_LEN c) (node_keys db nd)
     \<and> (\<forall>i. Suc i < valid_len nd \<longrightarrow> blindiKeys nd ! i = bdif (node_keys db nd) i)
     \<and> (if TREE_LEVELS c = 0 then 2 \<le> valid_len nd \<and> blindiTree nd = []
        else tree_ok (END_TREE c) (bdif (node_keys db nd)) (valid_len nd - 1) (blindiTree nd))"

definition raw_node :: "config \<Rightarrow> node \<Rightarrow> bool" where
  "raw_node c nd \<longleftrightarrow> length (blindiTree nd) = TREE_SIZE c \<and> length (blindiKeys nd) = NUM_SLOTS c - 1"

definition lvl2 :: "config \<Rightarrow> config" where
  "lvl2 c = c \<lparr> TREE_LEVELS := 2 \<rparr>"

definition no_tree :: "node \<Rightarrow> node" where
  "no_tree nd = nd \<lparr> blindiTree := [] \<rparr>"

lemma lvl2_simps [simp]:
  "TREE_LEVELS (lvl2 c) = 2" "NUM_SLOTS (lvl2 c) = NUM_SLOTS c" "KEY_LEN (lvl2 c) = KEY_LEN c" "idx_mod (lvl2 c) = idx_mod c"
  "END_TREE (lvl2 c) = END_TREE c" "DUPLICATE (lvl2 c) = DUPLICATE c" "MAX_HIGH_MISS (lvl2 c) = MAX_HIGH_MISS c"
  by (simp_all add: lvl2_def idx_mod_def END_TREE_def DUPLICATE_def MAX_HIGH_MISS_def bitidx_mod_def)

lemma no_tree_simps [simp]:
  "valid_len (no_tree nd) = valid_len nd" "blindiTree (no_tree nd) = []" "currentmaxslot (no_tree nd) = currentmaxslot nd"
  "key_ptr (no_tree nd) = key_ptr nd" "blindiKeys (no_tree nd) = blindiKeys nd" "node_keys db (no_tree nd) = node_keys db nd"
  "node_ptrs (no_tree nd) = node_ptrs nd" "node_map db (no_tree nd) = node_map db nd" "isneedbreath (no_tree nd) = isneedbreath nd"
  by (simp_all add: no_tree_def node_keys_def node_ptrs_def node_map_def fun_eq_iff isneedbreath_def)

lemma cfg_ok_cases [consumes 1, case_names none two]:
  assumes "cfg_ok c"
  obtains "TREE_LEVELS c = 0" | "TREE_LEVELS c = 2" "cfg2_ok c"
  using assms by (auto simp: cfg_ok_def cfg2_ok_def)

lemma cfg_ok_lvl2: "cfg_ok c \<Longrightarrow> cfg2_ok (lvl2 c)"
  by (simp add: cfg_ok_def cfg2_ok_def)

lemma cfg_okD:
  assumes "cfg_ok c"
  shows "6 \<le> NUM_SLOTS c" "NUM_SLOTS c \<le> END_TREE c" "NUM_SLOTS c < 65536" "8 * KEY_LEN c \<le> END_TREE c"
    "8 * KEY_LEN c \<le> MAX_HIGH_MISS c" "END_TREE c < idx_mod c"
  using cfg2_okD [OF cfg_ok_lvl2 [OF assms]] by simp_all

lemma node_okD:
  assumes "node_ok c db nd"
  shows "length (node_keys db nd) = valid_len nd" "0 < valid_len nd" "valid_len nd \<le> length (key_ptr nd)"
    "length (key_ptr nd) = currentmaxslot nd" "currentmaxslot nd \<le> NUM_SLOTS c"
    "length (blindiKeys nd) = NUM_SLOTS c - 1" "bl.ordered (KEY_LEN c) (node_keys db nd)"
    "\<And>i. Suc i < valid_len nd \<Longrightarrow> blindiKeys nd ! i = bdif (node_keys db nd) i"
    "TREE_LEVELS c = 0 \<Longrightarrow> 2 \<le> valid_len nd \<and> blindiTree nd = []"
  using assms by (auto simp: node_ok_def)

lemma node_ok_two: "TREE_LEVELS c = 2 \<Longrightarrow> node_ok c db nd = node2_ok c db nd"
  by (simp add: node_ok_def node2_ok_def)

lemma raw_node_two: "TREE_LEVELS c = 2 \<Longrightarrow> raw_node c nd = raw_node2 c nd"
  by (simp add: raw_node_def raw_node2_def TREE_SIZE_def)

lemma new_node_raw: "raw_node c (new_node c)"
  by (simp add: raw_node_def new_node_def)

text \<open>Every node without a tree is one of two levels with the tree erased.\<close>

lemma is_min_exists: "no_ties f m \<Longrightarrow> hi \<le> m \<Longrightarrow> \<exists>t. is_min E f lo hi t"
proof (cases "lo < hi")
  case True
  assume a: "no_ties f m" "hi \<le> m"
  define t where "t = arg_min_on f {lo..<hi}"
  have "t \<in> {lo..<hi}" using True unfolding t_def by (intro arg_min_if_finite(1)) auto
  moreover have "f t \<le> f j" if "lo \<le> j" "j < hi" for j
    using arg_min_least [of "{lo..<hi}" j f] that unfolding t_def by auto
  ultimately show ?thesis by (intro exI [of _ t] no_ties_is_min [OF a(1) _ _ a(2)]) auto
qed auto

lemma tree_ok_exists:
  assumes "no_ties f m" "m \<le> E"
  shows "\<exists>tree. tree_ok E f m tree"
proof -
  obtain t0 where t0: "is_min E f 0 m t0" using is_min_exists [OF assms(1) order_refl] by blast
  have "(if m = 0 then 0 else t0) \<le> m" using is_minD(2) [OF t0] by (cases "m = 0") auto
  then obtain t1 where t1: "is_min E f 0 (if m = 0 then 0 else t0) t1" using is_min_exists [OF assms(1)] by blast
  obtain t2 where t2: "is_min E f (if m = 0 then m else Suc t0) m t2" using is_min_exists [OF assms(1) order_refl] by blast
  show ?thesis using t0 t1 t2 assms(2) by (intro exI [of _ "[t0, t1, t2]"]) (cases "m = 0"; simp add: tree_ok_def)
qed

lemma node_ok_none:
  assumes "cfg_ok c" "TREE_LEVELS c = 0" "node_ok c db nd"
  obtains nd2 where "node2_ok (lvl2 c) db nd2" "nd = no_tree nd2"
proof -
  note k = node_okD [OF assms(3)]
  have "no_ties (bdif (node_keys db nd)) (valid_len nd - 1)" using ordered_no_ties [OF k(7)] k(1) by simp
  moreover have "valid_len nd - 1 \<le> END_TREE c" using k(3-5) cfg_okD(2) [OF assms(1)] by simp
  ultimately obtain t where t: "tree_ok (END_TREE c) (bdif (node_keys db nd)) (valid_len nd - 1) t" using tree_ok_exists by blast
  have ks: "node_keys db (nd \<lparr> blindiTree := t \<rparr>) = node_keys db nd" by (simp add: node_keys_def)
  have "node2_ok (lvl2 c) db (nd \<lparr> blindiTree := t \<rparr>)" using assms(3) t by (simp add: node2_ok_def node_ok_def ks)
  moreover have "nd = no_tree (nd \<lparr> blindiTree := t \<rparr>)" using k(9) assms(2) by (simp add: no_tree_def)
  ultimately show ?thesis by (rule that)
qed

lemma no_tree_ok: "TREE_LEVELS c = 0 \<Longrightarrow> node2_ok (lvl2 c) db nd \<Longrightarrow> 2 \<le> valid_len nd \<Longrightarrow> node_ok c db (no_tree nd)"
  by (simp add: node_ok_def node2_ok_def)

lemma raw_node_none:
  assumes "TREE_LEVELS c = 0" "raw_node c nd"
  obtains nd2 where "raw_node2 (lvl2 c) nd2" "nd = no_tree nd2"
proof
  show "raw_node2 (lvl2 c) (nd \<lparr> blindiTree := [0, 0, 0] \<rparr>)" using assms by (simp add: raw_node2_def raw_node_def)
  show "nd = no_tree (nd \<lparr> blindiTree := [0, 0, 0] \<rparr>)" using assms by (simp add: no_tree_def raw_node_def TREE_SIZE_def)
qed

section \<open>Search\<close>

definition search_gap ::
  "config \<Rightarrow> node \<Rightarrow> byte list list \<Rightarrow> byte list \<Rightarrow> nat list \<Rightarrow> nat \<Rightarrow> nat \<Rightarrow> nat \<Rightarrow> nat \<times> bool \<times> nat list \<times> nat \<Rightarrow> bool" where
  "search_gap c nd ks x tr0 pos q d = (\<lambda>(p, smaller, tr, len).
     p = pos - 1 \<and> smaller = (pos = 0) \<and> length tr = length tr0 \<and> bl.gap ks x pos q d
     \<and> pos = q + of_bool (key_bit x d)
     \<and> (TREE_LEVELS c = 2 \<longrightarrow> tree_info (bdif ks) (length ks - 1) (blindiTree nd) (END_TREE c) q d tr len))"

lemma SearchBlindiNode_none:
  assumes cfg: "cfg_ok c" "TREE_LEVELS c = 0" and ok: "node_ok c db nd" and x: "length x = KEY_LEN c" and tr0: "6 \<le> length tr0"
  shows "\<exists>r. SearchBlindiNode c db nd x (KEY_LEN c) st tr0 len0 = Some r
    \<and> sr_hit r = (x \<in> set (node_keys db nd))
    \<and> (sr_hit r \<longrightarrow> sr_position r < valid_len nd \<and> node_keys db nd ! sr_position r = x \<and> \<not> sr_smaller_than_node r
         \<and> \<not> sr_large_small r)
    \<and> (\<not> sr_hit r \<and> st = PREDECESSOR_SEARCH \<longrightarrow> (\<exists>pos q.
         search_gap c nd (node_keys db nd) x tr0 pos q (sr_diff_pos r)
           (sr_position r, sr_smaller_than_node r, sr_tree_traverse r, sr_tree_traverse_len r)
         \<and> sr_large_small r = key_bit x (sr_diff_pos r)))"
proof -
  let ?ks = "node_keys db nd" and ?f = "bdif (node_keys db nd)" and ?n = "valid_len nd"
  note C = cfg_okD [OF cfg(1)] and N = node_okD [OF ok]
  have n2: "2 \<le> ?n" using N(9) cfg(2) by simp
  have bk: "get (blindiKeys nd) i = Some (?f i)" if "Suc i < length ?ks" for i
    using that N(1,3-6) N(8) [of i] by simp
  define d0 where "d0 = \<lparr> tt = tr0, tt_len = len0, tree_pos_p1 = 1, first_stage_key_position = 0,
                start_bk_seq_pos = 0, end_bk_seq_pos = int ?n - 2,
                is_start_pos = False, is_end_pos = False, is_last_large = False \<rparr>"
  have "\<exists>pos tr. first_stage_seq c nd x d0 = Some (pos, tr, tt_len d0)
    \<and> blind_pos (key_bit x) ?f (first_stage_key_position d0) (Suc (first_stage_key_position d0 + (?n - 1))) pos
    \<and> length tr = length (tt d0) \<and> tr ! 0 = start_bk_seq_pos d0 \<and> tr ! 1 = ?n - 2
    \<and> (\<forall>i. 1 < i \<and> i \<noteq> 5 \<longrightarrow> tr ! i = tt d0 ! i)"
  proof (rule first_stage_seq_run)
    show "get (blindiKeys nd) i = Some (?f i) \<and> ?f i < 8 * KEY_LEN c" if "i < first_stage_key_position d0 + (?n - 1)" for i
      using that bk [of i] bdif_bound [OF N(7), of i] N(1) by (simp add: d0_def)
  qed (use n2 tr0 x C N in \<open>auto simp: d0_def\<close>)
  then obtain p tr where fs: "SearchFirstStage c nd x (KEY_LEN c) tr0 len0 = Some (p, tr, len0)"
    and bp: "blind_pos (key_bit x) ?f 0 (length ?ks) p"
    and tr: "length tr = length tr0" "tr ! 0 = 0" "tr ! 1 = ?n - 2"
    using n2 N(1) cfg(2) by (auto simp: SearchFirstStage_def Let_def d0_def)
  have p: "p < ?n" "p < length ?ks" using bp N(1) by (auto simp: blind_pos_def)
  have gp: "get_key_ptr nd p = Some (key_ptr nd ! p)" "db (key_ptr nd ! p) = ?ks ! p"
    using p N(3) by (auto simp: get_key_ptr_def node_keys_nth)
  have v: "key_of_len (KEY_LEN c) x" "key_of_len (KEY_LEN c) (?ks ! p)"
    using x bl.ordered_valid [OF N(7) p(2)] by (auto simp: key_of_len_def)
  have cmp: "CompareStage x (?ks ! p) False (KEY_LEN c) (KEY_LEN c) =
      (if x = ?ks ! p then Some (0, True, False) else Some (key_dif x (?ks ! p), False, key_bit x (key_dif x (?ks ! p))))"
    using CompareStage_eq [OF v, of False] key_dif_spec [OF v] by auto
  have mem: "x \<in> set ?ks \<longleftrightarrow> ?ks ! p = x" by (rule bl.blind_search [OF N(7) bp v(1)])
  show ?thesis
  proof (cases "x = ?ks ! p \<or> st = POINT_SEARCH")
    case True
    then show ?thesis using fs gp cmp mem p by (auto simp: SearchBlindiNode_def Let_def)
  next
    case False
    then have ne: "x \<noteq> ?ks ! p" and st: "st = PREDECESSOR_SEARCH" by (auto intro: search_type.exhaust)
    have "\<exists>pos q. SearchSecondStageSeq nd p (key_dif x (?ks ! p)) (key_bit x (key_dif x (?ks ! p))) False tr = Some (pos - 1, pos = 0)
      \<and> bl.gap ?ks x pos q (key_dif x (?ks ! p)) \<and> pos = q + of_bool (key_bit x (key_dif x (?ks ! p)))
      \<and> (\<forall>k. p \<le> k \<and> k < q \<or> q \<le> k \<and> k < p \<longrightarrow> key_dif x (?ks ! p) \<le> ?f k)"
      by (rule SearchSecondStageSeq_gap [OF N(7) bp v(1) ne refl bk]) (use tr tr0 n2 N(1) in auto)
    then obtain pos q where s: "SearchSecondStageSeq nd p (key_dif x (?ks ! p)) (key_bit x (key_dif x (?ks ! p))) False tr
        = Some (pos - 1, pos = 0)"
      "bl.gap ?ks x pos q (key_dif x (?ks ! p))" "pos = q + of_bool (key_bit x (key_dif x (?ks ! p)))" by blast
    have "SearchBlindiNode c db nd x (KEY_LEN c) st tr0 len0 = Some \<lparr> sr_position = pos - 1, sr_hit = False,
        sr_smaller_than_node = (pos = 0), sr_diff_pos = key_dif x (?ks ! p), sr_large_small = key_bit x (key_dif x (?ks ! p)),
        sr_tree_traverse = tr, sr_tree_traverse_len = len0 \<rparr>"
      using fs gp cmp ne s(1) cfg(2) by (simp add: SearchBlindiNode_def Let_def st)
    moreover have "search_gap c nd ?ks x tr0 pos q (key_dif x (?ks ! p)) (pos - 1, pos = 0, tr, len0)"
      using s(2,3) tr(1) cfg(2) by (simp add: search_gap_def)
    ultimately show ?thesis using mem ne by auto
  qed
qed

lemma SearchBlindiNode_spec:
  assumes cfg: "cfg_ok c" and ok: "node_ok c db nd" and x: "length x = KEY_LEN c" and tr0: "6 \<le> length tr0"
  shows "\<exists>r. SearchBlindiNode c db nd x (KEY_LEN c) st tr0 len0 = Some r
    \<and> sr_hit r = (x \<in> set (node_keys db nd))
    \<and> (sr_hit r \<longrightarrow> sr_position r < valid_len nd \<and> node_keys db nd ! sr_position r = x \<and> \<not> sr_smaller_than_node r
         \<and> \<not> sr_large_small r)
    \<and> (\<not> sr_hit r \<and> st = PREDECESSOR_SEARCH \<longrightarrow> (\<exists>pos q.
         search_gap c nd (node_keys db nd) x tr0 pos q (sr_diff_pos r)
           (sr_position r, sr_smaller_than_node r, sr_tree_traverse r, sr_tree_traverse_len r)
         \<and> sr_large_small r = key_bit x (sr_diff_pos r)))"
  using cfg
proof (cases rule: cfg_ok_cases)
  case none
  show ?thesis by (rule SearchBlindiNode_none [OF cfg none ok x tr0])
next
  case two
  have g: "search_gap2 c nd ks x tr0 pos q d = search_gap c nd ks x tr0 pos q d" for ks pos q d
    using two(1) by (simp add: search_gap2_def search_gap_def fun_eq_iff)
  show ?thesis
    using SearchBlindiNode2_spec [OF two(2) ok [unfolded node_ok_two [OF two(1)]] x tr0, of st len0] unfolding g .
qed

section \<open>Insertion\<close>

text \<open>The gap of a missing key, and the blindi key that goes there, are determined by the order.\<close>

lemma gap_unique:
  assumes o: "bl.ordered L ks" and x: "key_of_len L x"
    and g: "bl.gap ks x pos q d" "pos = q + of_bool (key_bit x d)" and g': "bl.gap ks x pos' q' d'" "pos' = q' + of_bool (key_bit x d')"
  shows "pos' = pos \<and> q' = q \<and> d' = d"
proof -
  have le: "a \<le> b" if a: "bl.gap ks x a qa da" and b: "bl.gap ks x b qb db" for a b qa qb da db
  proof (rule ccontr)
    assume "\<not> a \<le> b"
    moreover have "a \<le> length ks" using a by (simp add: bl.gap_def)
    ultimately have i: "b < length ks" "0 < a" "b \<le> a - 1" "a - 1 < length ks" by auto
    have 1: "key_less x (ks ! b)" using b i(1) unfolding bl.gap_def by blast
    have lo: "key_less (ks ! (a - 1)) x" using a i(2) unfolding bl.gap_def by blast
    have v: "key_of_len L (ks ! b)" "key_of_len L (ks ! (a - 1))"
      by (rule bl.ordered_valid [OF o i(1)], rule bl.ordered_valid [OF o i(4)])
    have 2: "key_less (ks ! (a - 1)) (ks ! b)" by (rule bl.lt_trans [OF v(2) x v(1) lo 1])
    show False
    proof (cases "b = a - 1")
      case True then show False using 2 bl.lt_irrefl by simp
    next
      case False
      then have "key_less (ks ! b) (ks ! (a - 1))" using bl.ordered_lt [OF o, of b "a - 1"] i by simp
      from bl.lt_trans [OF v(1) v(2) v(1) this 2] show False using bl.lt_irrefl by simp
    qed
  qed
  have pos: "pos' = pos" using le [OF g(1) g'(1)] le [OF g'(1) g(1)] by simp
  have inside: "qa < length ks" if "bl.gap ks x a qa da" for a qa da using that by (auto simp: bl.gap_def)
  have q: "q < length ks" "q' < length ks" using inside [OF g(1)] inside [OF g'(1)] by blast+
  have e: "ins (bdif ks) q d i = ins (bdif ks) q' d' i" if "i < length ks" for i
    using bl.bks_gap [OF g(1) that] bl.bks_gap [OF g'(1) that] by (simp add: pos ins_def)
  have "q \<le> pos" "pos \<le> Suc q" unfolding g(2) by simp_all
  moreover have "q' \<le> pos" "pos \<le> Suc q'" unfolding pos [symmetric] unfolding g'(2) by simp_all
  ultimately consider "q = q'" | "q' = Suc q" | "q = Suc q'" by linarith
  then have d: "d = d'"
  proof cases
    case 1 then show ?thesis using e [of q] q by simp
  next
    case 2 then show ?thesis using e [of q] e [of "Suc q"] q by simp
  next
    case 3 then show ?thesis using e [of q'] e [of "Suc q'"] q by simp
  qed
  have "q = q'" using g(2) g'(2) unfolding pos d by simp
  then show ?thesis using pos d by simp
qed

lemma breathe_no_tree: "breathe c nd = Some nd1 \<Longrightarrow> breathe c' (no_tree nd) = Some (no_tree nd1)" if "NUM_SLOTS c' = NUM_SLOTS c"
  using that by (auto simp: breathe_def Let_def bind_eq_Some_conv no_tree_def isneedbreath_def split: if_splits)

lemma insert_seq_no_tree:
  assumes "insert_seq (lvl2 c) nd k ip d large smaller = Some (nd', q)"
  shows "\<exists>q'. insert_seq c (no_tree nd) k ip d large smaller = Some (no_tree nd', q')"
  using assms unfolding insert_seq_def Let_def
  by (cases smaller; cases large; cases "valid_len nd = 0"; cases "ip = valid_len nd - 1"; cases "1 < valid_len nd")
    (auto simp: bind_eq_Some_conv no_tree_def)

lemma Insert2BlindiNodeInPosition_no_tree:
  assumes "TREE_LEVELS c = 0" "Insert2BlindiNodeInPosition (lvl2 c) nd k ip d large smaller tr len = Some nd'"
  shows "Insert2BlindiNodeInPosition c (no_tree nd) k ip d large smaller tr' len' = Some (no_tree nd')"
proof -
  from assms(2) obtain nd1 nd2 q tree where r: "breathe (lvl2 c) nd = Some nd1"
    "insert_seq (lvl2 c) nd1 k ip d large smaller = Some (nd2, q)" "nd' = nd2 \<lparr> blindiTree := tree \<rparr>"
    by (auto simp: Insert2BlindiNodeInPosition_def bind_eq_Some_conv)
  have "breathe c (no_tree nd) = Some (no_tree nd1)" by (rule breathe_no_tree [OF _ r(1)]) simp
  moreover obtain q' where "insert_seq c (no_tree nd1) k ip d large smaller = Some (no_tree nd2, q')"
    using insert_seq_no_tree [OF r(2)] by blast
  ultimately show ?thesis using assms(1) r(3) by (simp add: Insert2BlindiNodeInPosition_def no_tree_def)
qed

lemma Insert2BlindiNodeInPosition_spec:
  assumes cfg: "cfg_ok c" and ok: "node_ok c db nd" and room: "valid_len nd < NUM_SLOTS c"
    and x: "length (db k) = KEY_LEN c" "db k \<notin> set (node_keys db nd)" and tr0: "6 \<le> length tr0"
    and gap: "search_gap c nd (node_keys db nd) (db k) tr0 pos q d (ip, smaller, tr, len)"
  shows "\<exists>nd'. Insert2BlindiNodeInPosition c nd k ip d (key_bit (db k) d) smaller tr len = Some nd' \<and> node_ok c db nd'
    \<and> node_ptrs nd' = take pos (node_ptrs nd) @ k # drop pos (node_ptrs nd)"
  using cfg
proof (cases rule: cfg_ok_cases)
  case two
  have "search_gap2 c nd (node_keys db nd) (db k) tr0 pos q d (ip, smaller, tr, len)"
    using gap two(1) unfolding search_gap2_def search_gap_def prod.case by blast
  from Insert2BlindiNodeInPosition2_spec [OF two(2) ok [unfolded node_ok_two [OF two(1)]] room x(1) tr0 this]
  show ?thesis unfolding node_ok_two [OF two(1)] node_ptrs_def .
next
  case none
  from node_ok_none [OF cfg none ok] obtain nd2 where n2: "node2_ok (lvl2 c) db nd2" "nd = no_tree nd2" .
  note cfg2 = cfg_ok_lvl2 [OF cfg]
  have k: "length (db k) = KEY_LEN (lvl2 c)" "db k \<notin> set (node_keys db nd2)" "valid_len nd2 < NUM_SLOTS (lvl2 c)"
    using x room n2(2) by simp_all
  from SearchBlindiNode2_spec [OF cfg2 n2(1) k(1) tr0, of PREDECESSOR_SEARCH 0] k(2) obtain r pos2 q2 where
    r: "SearchBlindiNode (lvl2 c) db nd2 (db k) (KEY_LEN (lvl2 c)) PREDECESSOR_SEARCH tr0 0 = Some r"
      "search_gap2 (lvl2 c) nd2 (node_keys db nd2) (db k) tr0 pos2 q2 (sr_diff_pos r)
           (sr_position r, sr_smaller_than_node r, sr_tree_traverse r, sr_tree_traverse_len r)" by blast
  have v: "key_of_len (KEY_LEN c) (db k)" using x(1) by (simp add: key_of_len_def)
  note G = gap [unfolded search_gap_def prod.case] and G2 = r(2) [unfolded search_gap2_def prod.case]
  have ks: "node_keys db nd2 = node_keys db nd" using n2(2) by simp
  have "pos2 = pos \<and> q2 = q \<and> sr_diff_pos r = d"
  proof (rule gap_unique [OF node_okD(7) [OF ok] v])
    show "bl.gap (node_keys db nd) (db k) pos q d" "pos = q + of_bool (key_bit (db k) d)" using G by blast+
    show "bl.gap (node_keys db nd) (db k) pos2 q2 (sr_diff_pos r)" "pos2 = q2 + of_bool (key_bit (db k) (sr_diff_pos r))"
      using G2 unfolding ks by blast+
  qed
  moreover have "sr_position r = pos2 - 1" "ip = pos - 1" "sr_smaller_than_node r = (pos2 = 0)" "smaller = (pos = 0)"
    using G G2 by blast+
  ultimately have "search_gap2 (lvl2 c) nd2 (node_keys db nd2) (db k) tr0 pos q d
      (ip, smaller, sr_tree_traverse r, sr_tree_traverse_len r)" using r(2) by simp
  from Insert2BlindiNodeInPosition2_spec [OF cfg2 n2(1) k(3,1) tr0 this] obtain nd' where
    i: "Insert2BlindiNodeInPosition (lvl2 c) nd2 k ip d (key_bit (db k) d) smaller (sr_tree_traverse r) (sr_tree_traverse_len r) = Some nd'"
      "node2_ok (lvl2 c) db nd'" "node_ptrs nd' = take pos (node_ptrs nd2) @ k # drop pos (node_ptrs nd2)"
    unfolding node_ptrs_def by blast
  have "length (node_ptrs nd') = Suc (length (node_ptrs nd2))" unfolding i(3) by simp
  then have "2 \<le> valid_len nd'" using node2_okD(2,3) [OF n2(1)] node2_okD(3) [OF i(2)] by (simp add: node_ptrs_def)
  then show ?thesis
    using Insert2BlindiNodeInPosition_no_tree [OF none i(1), of tr len] no_tree_ok [OF none i(2)] i(3)
    by (intro exI [of _ "no_tree nd'"]) (simp add: n2(2))
qed

lemma node_ok_distinct: "node_ok c db nd \<Longrightarrow> distinct (map db (node_ptrs nd))"
  using bl.ordered_distinct [OF node_okD(7)] by (simp add: node_keys_ptrs)

lemma node_map_eq:
  "node_ok c db nd \<Longrightarrow> node_map db nd x = Some p \<longleftrightarrow> p \<in> set (node_ptrs nd) \<and> db p = x"
  unfolding node_map_def by (rule find_distinct) (rule node_ok_distinct)

lemma node_map_upd:
  assumes ok: "node_ok c db nd" "node_ok c db nd'" and ps: "set (node_ptrs nd') = insert k (set (node_ptrs nd))"
  shows "node_map db nd' = (node_map db nd)(db k \<mapsto> k)"
proof
  fix x
  have k: "k \<in> set (node_ptrs nd')" using ps by simp
  have inj: "p \<in> set (node_ptrs nd') \<Longrightarrow> db p = db k \<Longrightarrow> p = k" for p
    using node_ok_distinct [OF ok(2)] k by (auto simp: distinct_map inj_on_def)
  show "node_map db nd' x = ((node_map db nd)(db k \<mapsto> k)) x"
  proof (cases "x = db k")
    case True then show ?thesis using node_map_eq [OF ok(2), of x k] k by simp
  next
    case False
    have "node_map db nd' x = Some p \<longleftrightarrow> node_map db nd x = Some p" for p
      using node_map_eq [OF ok(1), of x p] node_map_eq [OF ok(2), of x p] ps False by auto
    then have "node_map db nd' x = node_map db nd x" by (metis option.exhaust)
    then show ?thesis using False by simp
  qed
qed

text \<open>
  \<open>Insert2BlindiNodeWithKey\<close> of a missing key into a node with room: the node stays well-formed, and
  the new pointer stands at the place of its key.
\<close>

lemma Insert2BlindiNodeWithKey_spec:
  assumes cfg: "cfg_ok c" and ok: "node_ok c db nd" and room: "valid_len nd < NUM_SLOTS c"
    and k: "length (db k) = KEY_LEN c" "db k \<notin> set (node_keys db nd)"
  shows "\<exists>nd' pos. Insert2BlindiNodeWithKey c db nd k = Some (INSERT_SUCCESS, nd') \<and> node_ok c db nd'
    \<and> node_ptrs nd' = take pos (node_ptrs nd) @ k # drop pos (node_ptrs nd)"
proof -
  have six: "6 \<le> length (replicate (NUM_SLOTS c) (0::nat))" using cfg_okD(1) [OF cfg] by simp
  from SearchBlindiNode_spec [OF cfg ok k(1) six, of PREDECESSOR_SEARCH 0] k(2) obtain r pos q where
    r: "SearchBlindiNode c db nd (db k) (KEY_LEN c) PREDECESSOR_SEARCH (replicate (NUM_SLOTS c) 0) 0 = Some r"
      "\<not> sr_hit r" "sr_large_small r = key_bit (db k) (sr_diff_pos r)"
      "search_gap c nd (node_keys db nd) (db k) (replicate (NUM_SLOTS c) 0) pos q (sr_diff_pos r)
           (sr_position r, sr_smaller_than_node r, sr_tree_traverse r, sr_tree_traverse_len r)" by auto
  from Insert2BlindiNodeInPosition_spec [OF cfg ok room k six r(4)] obtain nd' where
    nd': "Insert2BlindiNodeInPosition c nd k (sr_position r) (sr_diff_pos r) (key_bit (db k) (sr_diff_pos r))
      (sr_smaller_than_node r) (sr_tree_traverse r) (sr_tree_traverse_len r) = Some nd'"
      "node_ok c db nd'" "node_ptrs nd' = take pos (node_ptrs nd) @ k # drop pos (node_ptrs nd)"
    by blast
  have "Insert2BlindiNodeWithKey c db nd k = Some (INSERT_SUCCESS, nd')"
    using r(1-3) nd'(1) room node_okD(2) [OF ok] by (simp add: Insert2BlindiNodeWithKey_def)
  then show ?thesis using nd'(2,3) by blast
qed

section \<open>Building, splitting, handing over, merging\<close>

lemma loop_up_erase:
  assumes "\<And>j a b t a' b' t'. f j (a, b, t) = Some (a', b', t') \<Longrightarrow> g j (a, b, u) = Some (a', b', u)"
    and "loop_up f i n (a, b, t) = Some (a', b', t')"
  shows "loop_up g i n (a, b, u) = Some (a', b', u)"
  using assms(2)
proof (induction n arbitrary: i a b t)
  case (Suc n)
  then obtain a1 b1 t1 where "f i (a, b, t) = Some (a1, b1, t1)" "loop_up f (Suc i) n (a1, b1, t1) = Some (a', b', t')"
    by (auto simp: bind_eq_Some_conv)
  then show ?case using assms(1) Suc.IH by simp
qed simp

lemma transfer_btree2blindi_no_tree:
  assumes "TREE_LEVELS c = 0" "transfer_btree2blindi (lvl2 c) nd n ks ps = Some nd'"
  shows "transfer_btree2blindi c (no_tree nd) n ks ps = Some (no_tree nd')"
proof -
  define cms where "cms = (if n + BREATHING_BLINDI_SIZE > NUM_SLOTS c then NUM_SLOTS c else n + BREATHING_BLINDI_SIZE)"
  let ?step = "\<lambda>c i (bks, kp, tree). do {
            k0 \<leftarrow> get ks i;
            k1 \<leftarrow> get ks (i + 1);
            (d, _, _) \<leftarrow> CompareStage k0 k1 False (KEY_LEN c) (KEY_LEN c);
            bks \<leftarrow> put bks i d;
            tree \<leftarrow> (if TREE_LEVELS c > 0 then
                do { t \<leftarrow> get tree 0; b \<leftarrow> get bks t; put tree 0 (if d < b then to_idx c (int i) else t) }
              else Some tree);
            p \<leftarrow> get ps i;
            kp \<leftarrow> put kp i p;
            Some (bks, kp, tree) }"
  from assms(2) obtain t0 bks kp tree p kp' tree' where r:
    "loop_up (?step (lvl2 c)) 0 (n - 1) (blindiKeys nd, replicate cms 0, t0) = Some (bks, kp, tree)"
    "(if n = 0 then None else get ps (n - 1)) = Some p" "put kp (n - 1) p = Some kp'"
    "nd' = nd \<lparr> valid_len := n mod idx_mod c, currentmaxslot := cms, key_ptr := kp', blindiKeys := bks, blindiTree := tree' \<rparr>"
    unfolding transfer_btree2blindi_def Let_def lvl2_simps cms_def [symmetric] by (auto simp: bind_eq_Some_conv)
  have "loop_up (?step c) 0 (n - 1) (blindiKeys nd, replicate cms 0, []) = Some (bks, kp, [])"
    by (rule loop_up_erase [OF _ r(1)]) (use assms(1) in \<open>auto simp: bind_eq_Some_conv\<close>)
  then show ?thesis
    unfolding transfer_btree2blindi_def Let_def cms_def [symmetric] using r(2-4) assms(1) by (simp add: no_tree_def)
qed

lemma transfer_btree2blindi_spec:
  assumes cfg: "cfg_ok c" and raw: "raw_node c nd" and o: "bl.ordered (KEY_LEN c) ks"
    and len: "length ks = n" "2 \<le> n" "n \<le> NUM_SLOTS c" and ps: "map db ps = ks"
  shows "\<exists>nd'. transfer_btree2blindi c nd n ks ps = Some nd' \<and> node_ok c db nd' \<and> node_ptrs nd' = ps \<and> valid_len nd' = n"
  using cfg
proof (cases rule: cfg_ok_cases)
  case two
  show ?thesis
    using transfer_btree2blindi2_spec [OF two(2) raw [unfolded raw_node_two [OF two(1)]] o len ps] unfolding node_ok_two [OF two(1)] .
next
  case none
  from raw_node_none [OF none raw] obtain nd2 where n2: "raw_node2 (lvl2 c) nd2" "nd = no_tree nd2" .
  from transfer_btree2blindi2_spec [OF cfg_ok_lvl2 [OF cfg] n2(1), of ks n db ps] o len ps obtain nd' where
    r: "transfer_btree2blindi (lvl2 c) nd2 n ks ps = Some nd'" "node2_ok (lvl2 c) db nd'" "node_ptrs nd' = ps" "valid_len nd' = n" by auto
  show ?thesis using transfer_btree2blindi_no_tree [OF none r(1)] no_tree_ok [OF none r(2)] r(3,4) len(2) n2(2)
    by (intro exI [of _ "no_tree nd'"]) simp
qed

lemma SplitBlindiNode_no_tree:
  assumes "TREE_LEVELS c = 0" "SplitBlindiNode (lvl2 c) nd ns nl = Some (ns', nl')"
  shows "SplitBlindiNode c (no_tree nd) (no_tree ns) (no_tree nl) = Some (no_tree ns', no_tree nl')"
  using assms unfolding SplitBlindiNode_def Let_def lvl2_simps
  by (cases "valid_len nd div 2 = 0") (auto simp: bind_eq_Some_conv no_tree_def split del: if_split)

lemma SplitBlindiNode_spec:
  assumes cfg: "cfg_ok c" and ok: "node_ok c db nd" and full: "valid_len nd = NUM_SLOTS c"
    and raw: "raw_node c ns" "raw_node c nl"
  shows "\<exists>ns' nl'. SplitBlindiNode c nd ns nl = Some (ns', nl') \<and> node_ok c db ns' \<and> node_ok c db nl'
    \<and> node_ptrs ns' = take (NUM_SLOTS c div 2) (node_ptrs nd) \<and> node_ptrs nl' = drop (NUM_SLOTS c div 2) (node_ptrs nd)"
  using cfg
proof (cases rule: cfg_ok_cases)
  case two
  show ?thesis
    using SplitBlindiNode2_spec [OF two(2) ok [unfolded node_ok_two [OF two(1)]] full raw [unfolded raw_node_two [OF two(1)]]]
    unfolding node_ok_two [OF two(1)] .
next
  case none
  from node_ok_none [OF cfg none ok] obtain nd2 where n2: "node2_ok (lvl2 c) db nd2" "nd = no_tree nd2" .
  from raw_node_none [OF none raw(1)] obtain s2 where s2: "raw_node2 (lvl2 c) s2" "ns = no_tree s2" .
  from raw_node_none [OF none raw(2)] obtain l2 where l2: "raw_node2 (lvl2 c) l2" "nl = no_tree l2" .
  from SplitBlindiNode2_spec [OF cfg_ok_lvl2 [OF cfg] n2(1) _ s2(1) l2(1)] full n2(2) obtain ns' nl' where
    r: "SplitBlindiNode (lvl2 c) nd2 s2 l2 = Some (ns', nl')" "node2_ok (lvl2 c) db ns'" "node2_ok (lvl2 c) db nl'"
      "node_ptrs ns' = take (NUM_SLOTS c div 2) (node_ptrs nd2)" "node_ptrs nl' = drop (NUM_SLOTS c div 2) (node_ptrs nd2)" by auto
  have l: "length (node_ptrs nd2) = NUM_SLOTS c" using full n2(2) node2_okD(3) [OF n2(1)] by (simp add: node_ptrs_def)
  have "valid_len ns' = length (node_ptrs ns')" "valid_len nl' = length (node_ptrs nl')"
    using node2_okD(3) [OF r(2)] node2_okD(3) [OF r(3)] by (simp_all add: node_ptrs_def)
  then have "2 \<le> valid_len ns'" "2 \<le> valid_len nl'" unfolding r(4,5) using cfg_okD(1) [OF cfg] l by auto
  then show ?thesis
    using SplitBlindiNode_no_tree [OF none r(1)] no_tree_ok [OF none r(2)] no_tree_ok [OF none r(3)] r(4,5) n2(2) s2(2) l2(2)
    by (intro exI [of _ "no_tree ns'"] exI [of _ "no_tree nl'"]) simp
qed

lemma transferNode_no_tree:
  assumes "TREE_LEVELS c' = 0" "transferNode (lvl2 c') nd' n bk kp tree = Some nd''"
  shows "transferNode c' (no_tree nd') n bk kp tree' = Some (no_tree nd'')"
  using assms unfolding transferNode_def Let_def lvl2_simps
  by (cases "n = 0") (auto simp: bind_eq_Some_conv no_tree_def split del: if_split)

lemma transferNode_spec:
  assumes cfg: "cfg_ok c" "cfg_ok c'" "TREE_LEVELS c' = TREE_LEVELS c" "KEY_LEN c' = KEY_LEN c" "NUM_SLOTS c' = 2 * NUM_SLOTS c"
      "NUM_SLOTS c' < 254"
    and raw: "raw_node c' nd'" and ok: "node_ok c db nd"
  shows "\<exists>nd''. transferNode c' nd' (valid_len nd) (blindiKeys nd) (key_ptr nd) (get_ptr2blindiTree c nd) = Some nd''
    \<and> node_ok c' db nd'' \<and> node_ptrs nd'' = node_ptrs nd"
  using cfg(1)
proof (cases rule: cfg_ok_cases)
  case two
  then have two': "TREE_LEVELS c' = 2" "cfg2_ok c'" using cfg(2,3) by (auto simp: cfg_ok_def cfg2_ok_def)
  show ?thesis
    using transferNode2_spec [OF two(2) two'(2) cfg(4-6) raw [unfolded raw_node_two [OF two'(1)]] ok [unfolded node_ok_two [OF two(1)]]]
    unfolding node_ok_two [OF two'(1)] .
next
  case none
  then have none': "TREE_LEVELS c' = 0" using cfg(3) by simp
  from node_ok_none [OF cfg(1) none ok] obtain nd2 where n2: "node2_ok (lvl2 c) db nd2" "nd = no_tree nd2" .
  from raw_node_none [OF none' raw] obtain d2 where d2: "raw_node2 (lvl2 c') d2" "nd' = no_tree d2" .
  from transferNode2_spec [OF cfg_ok_lvl2 [OF cfg(1)] cfg_ok_lvl2 [OF cfg(2)] _ _ _ d2(1) n2(1)] cfg(4-6) obtain nd'' where
    r: "transferNode (lvl2 c') d2 (valid_len nd2) (blindiKeys nd2) (key_ptr nd2) (get_ptr2blindiTree (lvl2 c) nd2) = Some nd''"
      "node2_ok (lvl2 c') db nd''" "node_ptrs nd'' = node_ptrs nd2" by auto
  have "valid_len nd'' = valid_len nd"
    using arg_cong [OF r(3), of length] node2_okD(3) [OF r(2)] node2_okD(3) [OF n2(1)] n2(2) by (simp add: node_ptrs_def)
  then have "2 \<le> valid_len nd''" using node_okD(9) [OF ok none] by simp
  then show ?thesis
    using transferNode_no_tree [OF none' r(1), of "get_ptr2blindiTree c nd"] no_tree_ok [OF none' r(2)] r(3) n2(2) d2(2)
    by (intro exI [of _ "no_tree nd''"]) simp
qed

lemma MergeBlindiNodes_no_tree:
  assumes "TREE_LEVELS c = 0" "MergeBlindiNodes (lvl2 c) db nd lg = Some nd'"
  shows "MergeBlindiNodes c db (no_tree nd) (no_tree lg) = Some (no_tree nd')"
  using assms unfolding MergeBlindiNodes_def CopyNode_def MergeBlindiNodes_node_def Let_def lvl2_simps
  by (cases "valid_len nd = 0"; cases "valid_len lg = 0") (auto simp: bind_eq_Some_conv no_tree_def split del: if_split)

lemma MergeBlindiNodes_spec:
  assumes cfg: "cfg_ok c" and ok: "node_ok c db nd" "node_ok c db lg"
    and room: "valid_len nd + valid_len lg \<le> currentmaxslot nd"
    and lt: "key_less (last (node_keys db nd)) (hd (node_keys db lg))"
  shows "\<exists>nd'. MergeBlindiNodes c db nd lg = Some nd' \<and> node_ok c db nd' \<and> node_ptrs nd' = node_ptrs nd @ node_ptrs lg"
  using cfg
proof (cases rule: cfg_ok_cases)
  case two
  show ?thesis
    using MergeBlindiNodes2_spec [OF two(2) ok [unfolded node_ok_two [OF two(1)]] room lt] unfolding node_ok_two [OF two(1)] .
next
  case none
  from node_ok_none [OF cfg none ok(1)] obtain n2 where n2: "node2_ok (lvl2 c) db n2" "nd = no_tree n2" .
  from node_ok_none [OF cfg none ok(2)] obtain l2 where l2: "node2_ok (lvl2 c) db l2" "lg = no_tree l2" .
  from MergeBlindiNodes2_spec [OF cfg_ok_lvl2 [OF cfg] n2(1) l2(1)] room lt n2(2) l2(2) obtain nd' where
    r: "MergeBlindiNodes (lvl2 c) db n2 l2 = Some nd'" "node2_ok (lvl2 c) db nd'" "node_ptrs nd' = node_ptrs n2 @ node_ptrs l2" by auto
  have "valid_len nd' = valid_len n2 + valid_len l2"
    using arg_cong [OF r(3), of length] node2_okD(3) [OF r(2)] node2_okD(3) [OF n2(1)] node2_okD(3) [OF l2(1)] by (simp add: node_ptrs_def)
  then have "2 \<le> valid_len nd'" using node_okD(9) [OF ok(1) none] n2(2) by simp
  then show ?thesis
    using MergeBlindiNodes_no_tree [OF none r(1)] no_tree_ok [OF none r(2)] r(3) n2(2) l2(2)
    by (intro exI [of _ "no_tree nd'"]) simp
qed

section \<open>Removal\<close>

lemma node_map_remove:
  assumes ok: "node_ok c db nd" "node_ok c db nd'" and p: "p < valid_len nd"
    and ps: "node_ptrs nd' = take p (node_ptrs nd) @ drop (Suc p) (node_ptrs nd)"
  shows "node_map db nd' = (node_map db nd)(node_keys db nd ! p := None)"
proof
  fix x
  let ?ps = "node_ptrs nd"
  have l: "p < length ?ps" using p node_okD(3) [OF ok(1)] by (simp add: node_ptrs_def)
  have split: "?ps = take p ?ps @ ?ps ! p # drop (Suc p) ?ps" using l by (rule id_take_nth_drop)
  have k: "node_keys db nd ! p = db (?ps ! p)" using l by (simp add: node_keys_ptrs)
  have d: "distinct (map db (take p ?ps @ ?ps ! p # drop (Suc p) ?ps))" using node_ok_distinct [OF ok(1)] split by simp
  show "node_map db nd' x = ((node_map db nd)(node_keys db nd ! p := None)) x"
  proof (cases "x = db (?ps ! p)")
    case True
    have "db q \<noteq> x" if "q \<in> set (node_ptrs nd')" for q
      using d that by (auto simp: ps True image_iff)
    then have "node_map db nd' x = None" by (auto simp: node_map_def find_None_iff)
    then show ?thesis using True k by simp
  next
    case False
    have "node_map db nd' x = Some q \<longleftrightarrow> node_map db nd x = Some q" for q
    proof -
      have "set ?ps = insert (?ps ! p) (set (node_ptrs nd'))" unfolding ps by (subst split) auto
      then show ?thesis using node_map_eq [OF ok(1), of x q] node_map_eq [OF ok(2), of x q] False by auto
    qed
    then have "node_map db nd' x = node_map db nd x" by (metis option.exhaust)
    then show ?thesis using False k by simp
  qed
qed

lemma remove_seq_no_tree: "remove_seq nd p = Some nd' \<Longrightarrow> remove_seq (no_tree nd) p = Some (no_tree nd')"
  unfolding remove_seq_def Let_def by (cases "p = 0") (auto simp: bind_eq_Some_conv no_tree_def split del: if_split)

lemma remove_last_no_tree: "remove_last nd p = Some nd' \<Longrightarrow> remove_last (no_tree nd) p = Some (no_tree nd')"
  unfolding remove_last_def by (auto simp: bind_eq_Some_conv no_tree_def)

lemma RemoveInPosition_no_tree:
  assumes "TREE_LEVELS c = 0" "RemoveFromBlindiNodeInPosition (lvl2 c) nd p = Some (res, nd')"
  shows "RemoveFromBlindiNodeInPosition c (no_tree nd) p = Some (res, no_tree nd')"
proof (cases "(int p = int (valid_len nd) - 1 \<or> valid_len nd \<le> 2) \<and> \<not> (valid_len nd > 2 \<or> (valid_len nd = 2 \<and> p = 1))")
  case True
  then show ?thesis using assms unfolding RemoveFromBlindiNodeInPosition_def Let_def
    by (cases "valid_len nd = 2") (auto simp: bind_eq_Some_conv no_tree_def split del: if_split)
next
  case False
  let ?at = "int p = int (valid_len nd) - 1 \<or> valid_len nd \<le> 2"
  from assms(2) False obtain nd1 tree where r: "(if ?at then remove_last nd p else remove_seq nd p) = Some nd1"
    "res = REMOVE_SUCCESS" "nd' = nd1 \<lparr> blindiTree := tree \<rparr>"
    unfolding RemoveFromBlindiNodeInPosition_def Let_def by (auto simp: bind_eq_Some_conv)
  have "(if ?at then remove_last (no_tree nd) p else remove_seq (no_tree nd) p) = Some (no_tree nd1)"
    using r(1) remove_seq_no_tree remove_last_no_tree by (cases ?at) auto
  then show ?thesis using False assms(1) r(2,3)
    unfolding RemoveFromBlindiNodeInPosition_def Let_def no_tree_simps if_not_P [OF False] by (simp add: no_tree_def)
qed

lemma RemoveInPosition_spec:
  assumes cfg: "cfg_ok c" and ok: "node_ok c db nd" and p: "p < valid_len nd" "3 \<le> valid_len nd"
  shows "\<exists>nd'. RemoveFromBlindiNodeInPosition c nd p = Some (REMOVE_SUCCESS, nd') \<and> node_ok c db nd'
    \<and> node_ptrs nd' = take p (node_ptrs nd) @ drop (Suc p) (node_ptrs nd) \<and> currentmaxslot nd' = currentmaxslot nd"
  using cfg
proof (cases rule: cfg_ok_cases)
  case two
  show ?thesis
    using RemoveInPosition2_spec [OF two(2) ok [unfolded node_ok_two [OF two(1)]] p(1)] p(2) unfolding node_ok_two [OF two(1)] by simp
next
  case none
  from node_ok_none [OF cfg none ok] obtain n2 where n2: "node2_ok (lvl2 c) db n2" "nd = no_tree n2" .
  from RemoveInPosition2_spec [OF cfg_ok_lvl2 [OF cfg] n2(1), of p] p n2(2) obtain nd' where
    r: "RemoveFromBlindiNodeInPosition (lvl2 c) n2 p = Some (REMOVE_SUCCESS, nd')" "node2_ok (lvl2 c) db nd'"
      "node_ptrs nd' = take p (node_ptrs n2) @ drop (Suc p) (node_ptrs n2)" "currentmaxslot nd' = currentmaxslot n2" by auto
  have "valid_len nd' = valid_len n2 - 1"
    using arg_cong [OF r(3), of length] node2_okD(3) [OF r(2)] node2_okD(3) [OF n2(1)] p(1) n2(2) by (simp add: node_ptrs_def)
  then have "2 \<le> valid_len nd'" using p(2) n2(2) by simp
  then show ?thesis
    using RemoveInPosition_no_tree [OF none r(1)] no_tree_ok [OF none r(2)] r(3,4) n2(2)
    by (intro exI [of _ "no_tree nd'"]) simp
qed

lemma RemoveWithKey_hit:
  assumes cfg: "cfg_ok c" and ok: "node_ok c db nd" and x: "length x = KEY_LEN c" "x \<in> set (node_keys db nd)"
    and n: "3 \<le> valid_len nd"
  shows "\<exists>nd' p. RemoveFromBlindiNodeWithKey c db nd x
      = Some (if valid_len nd - 1 < NUM_SLOTS c div 2 then REMOVE_UNDERFLOW else REMOVE_SUCCESS, nd')
    \<and> node_ok c db nd' \<and> p < valid_len nd \<and> node_keys db nd ! p = x
    \<and> node_ptrs nd' = take p (node_ptrs nd) @ drop (Suc p) (node_ptrs nd) \<and> node_map db nd' = (node_map db nd)(x := None)"
proof -
  have six: "6 \<le> length (replicate (NUM_SLOTS c) (0::nat))" using cfg_okD(1) [OF cfg] by simp
  from SearchBlindiNode_spec [OF cfg ok x(1) six, of POINT_SEARCH 0] x(2) obtain r where
    r: "SearchBlindiNode c db nd x (KEY_LEN c) POINT_SEARCH (replicate (NUM_SLOTS c) 0) 0 = Some r" "sr_hit r"
      "sr_position r < valid_len nd" "node_keys db nd ! sr_position r = x" using node_okD(1) [OF ok] by auto
  from RemoveInPosition_spec [OF cfg ok r(3) n] obtain nd' where
    nd': "RemoveFromBlindiNodeInPosition c nd (sr_position r) = Some (REMOVE_SUCCESS, nd')" "node_ok c db nd'"
      "node_ptrs nd' = take (sr_position r) (node_ptrs nd) @ drop (Suc (sr_position r)) (node_ptrs nd)" by auto
  have v: "valid_len nd' = valid_len nd - 1"
    using arg_cong [OF nd'(3), of length] node_okD(3) [OF ok] node_okD(3) [OF nd'(2)] r(3) by (simp add: node_ptrs_def)
  have "RemoveFromBlindiNodeWithKey c db nd x
      = Some (if valid_len nd - 1 < NUM_SLOTS c div 2 then REMOVE_UNDERFLOW else REMOVE_SUCCESS, nd')"
    using r(1,2) nd'(1) v by (simp add: RemoveFromBlindiNodeWithKey_def)
  then show ?thesis using nd'(2,3) r(3,4) node_map_remove [OF ok nd'(2) r(3) nd'(3)] by auto
qed

lemma RemoveWithKey_miss:
  assumes cfg: "cfg_ok c" and ok: "node_ok c db nd" and x: "length x = KEY_LEN c" "x \<notin> set (node_keys db nd)"
  shows "RemoveFromBlindiNodeWithKey c db nd x = Some (REMOVE_KEY_NOT_FOUND, nd)"
proof -
  have six: "6 \<le> length (replicate (NUM_SLOTS c) (0::nat))" using cfg_okD(1) [OF cfg] by simp
  from SearchBlindiNode_spec [OF cfg ok x(1) six, of POINT_SEARCH 0] x(2) show ?thesis
    by (auto simp: RemoveFromBlindiNodeWithKey_def)
qed

end
