(* ===== verification/SeqTree_Reach.thy ===== *)
theory SeqTree_Reach
  imports SeqTree_Levels
begin

text \<open>
  The blind leaves a client can reach with the operations of the node, and that their cells fit into the types of their
  arrays; what happens when the first of two keys is removed, which is not one of these operations.
\<close>

section \<open>The first of two keys is removed\<close>

text \<open>
  The early return of \<^verbatim>\<open>RemoveFromBlindiNodeInPosition\<close> leaves the root of the tree as it was, although no blindi key is left; the
  insertion of a smaller key then moves the root behind the only blindi key.
\<close>

lemma pair_cells:
  assumes cfg: "cfg_ok c" "TREE_LEVELS c = 2" and ok: "node_ok c db nd" "valid_len nd = 2"
  obtains p0 p ps b0 b1 bs where "key_ptr nd = p0 # p # ps" "blindiKeys nd = b0 # b1 # bs" "blindiTree nd = [0, END_TREE c, END_TREE c]"
    "node_keys db nd = [db p0, db p]" "2 \<le> currentmaxslot nd"
proof -
  note N = node_okD [OF ok(1)]
  have "2 \<le> length (key_ptr nd)" "5 \<le> length (blindiKeys nd)" using N(3,6) ok(2) cfg_okD(1) [OF cfg(1)] by auto
  then obtain p0 p ps b0 b1 bs where l: "key_ptr nd = p0 # p # ps" "blindiKeys nd = b0 # b1 # bs"
    by (auto simp: Suc_le_length_iff numeral_eq_Suc)
  have "tree_ok (END_TREE c) (bdif (node_keys db nd)) 1 (blindiTree nd)" using ok cfg(2) by (simp add: node_ok_def)
  then have t: "blindiTree nd = [0, END_TREE c, END_TREE c]"
    by (auto simp: tree_ok_def is_min_def numeral_3_eq_3 length_Suc_conv)
  have "node_keys db nd = [db p0, db p]" using l(1) ok(2) by (simp add: node_keys_def)
  then show ?thesis using that l t N(3,4) ok(2) by auto
qed

lemma remove_first_of_two:
  assumes "cfg_ok c" "TREE_LEVELS c = 2" "node_ok c db nd" "valid_len nd = 2"
  shows "\<exists>nd'. RemoveFromBlindiNodeInPosition c nd 0 = Some (REMOVE_SUCCESS, nd') \<and> node_keys db nd' = [node_keys db nd ! 1]
    \<and> blindiTree nd' = [0, END_TREE c, END_TREE c] \<and> valid_len nd' = 1 \<and> 2 \<le> currentmaxslot nd' \<and> length (key_ptr nd') = currentmaxslot nd'
    \<and> blindiKeys nd' = (blindiKeys nd)[0 := 0]"
proof -
  from pair_cells [OF assms] obtain p0 p ps b0 b1 bs where
    l: "key_ptr nd = p0 # p # ps" "blindiKeys nd = b0 # b1 # bs" "blindiTree nd = [0, END_TREE c, END_TREE c]"
      "node_keys db nd = [db p0, db p]" "2 \<le> currentmaxslot nd" .
  show ?thesis using l assms(4) node_okD(4) [OF assms(3)]
    by (auto simp: RemoveFromBlindiNodeInPosition_def put_def get_def node_keys_def)
qed

lemma insert_before_one:
  assumes cfg: "cfg_ok c" "TREE_LEVELS c = 2" and nd: "node_keys db nd = [y]" "blindiTree nd = [0, END_TREE c, END_TREE c]" "valid_len nd = 1"
      "2 \<le> currentmaxslot nd" "length (key_ptr nd) = currentmaxslot nd" "blindiKeys nd = 0 # b1 # bs"
    and k: "length (db k) = KEY_LEN c" "length y = KEY_LEN c" "key_less (db k) y"
  shows "\<exists>nd'. Insert2BlindiNodeWithKey c db nd k = Some (INSERT_SUCCESS, nd') \<and> node_keys db nd' = [db k, y]
    \<and> blindiTree nd' = [1, END_TREE c, END_TREE c] \<and> valid_len nd' = 2 \<and> 2 \<le> length (key_ptr nd') \<and> blindiKeys nd' = key_dif (db k) y # b1 # bs"
proof -
  note C = cfg_okD [OF cfg(1)]
  have E: "0 \<noteq> END_TREE c" "1 \<noteq> END_TREE c" "1 \<le> END_TREE c" using C(1,2) by auto
  have "2 \<le> length (key_ptr nd)" using nd(4,5) by simp
  then obtain p p1 ps where kp: "key_ptr nd = p # p1 # ps" by (auto simp: Suc_le_length_iff numeral_2_eq_2)
  have y: "db p = y" using nd(1,3) kp by (simp add: node_keys_def)
  have v: "key_of_len (KEY_LEN c) (db k)" "key_of_len (KEY_LEN c) y" using k by (simp_all add: key_of_len_def)
  define d where "d = key_dif (db k) y"
  have cmp: "CompareStage (db k) y False (KEY_LEN c) (KEY_LEN c) = Some (d, False, False)"
  proof -
    have "db k \<noteq> y" "\<not> key_less y (db k)" using k(3) bl.lt_irrefl bl.lt_trans [OF v(2,1,2)] by auto
    then show ?thesis using CompareStage_eq [OF v, of False] by (simp add: d_def)
  qed
  define T where "T = (replicate (NUM_SLOTS c) (0::nat))[0 := 0, 1 := u16 (-1), 2 := 0, 3 := 0, 4 := 0, 5 := 0]"
  have lT: "length T = NUM_SLOTS c" "T ! 2 = 0" "T ! 4 = 0" "T ! 0 = 0" using C(1) by (auto simp: T_def)
  have n6: "0 < NUM_SLOTS c" "1 < NUM_SLOTS c" "2 < NUM_SLOTS c" "3 < NUM_SLOTS c" "4 < NUM_SLOTS c" "5 < NUM_SLOTS c" using C(1) by auto
  have fs: "SearchFirstStage c nd (db k) (KEY_LEN c) (replicate (NUM_SLOTS c) 0) 0 = Some (0, T, 0)"
    using cfg(2) nd(2,3) n6 by (simp add: SearchFirstStage_def Let_def T_def)
  have s: "SearchBlindiNode c db nd (db k) (KEY_LEN c) PREDECESSOR_SEARCH (replicate (NUM_SLOTS c) 0) 0 = Some
      \<lparr> sr_position = 0, sr_hit = False, sr_smaller_than_node = True, sr_diff_pos = d, sr_large_small = False,
        sr_tree_traverse = T, sr_tree_traverse_len = 0 \<rparr>"
    using fs cmp kp y lT n6 nd(2,6) E cfg(2)
    by (simp add: SearchBlindiNode_def Let_def get_key_ptr_def get_def get_blindiTree_def get_blindiKey_def SearchSecondStageSeq_def)
  have im: "2 < idx_mod c" "to_idx c 1 = 1" using C(1,2,6) to_idx_id [OF cfg_ok_lvl2 [OF cfg(1)], of 1] E(3)
    by (simp_all add: to_idx_def)
  define nd' where "nd' = nd \<lparr> blindiKeys := d # b1 # bs, key_ptr := k # p # ps, valid_len := 2, blindiTree := [1, END_TREE c, END_TREE c] \<rparr>"
  have sq: "insert_seq c nd k 0 d False True = Some (nd \<lparr> blindiKeys := d # b1 # bs, key_ptr := k # p # ps, valid_len := 2 \<rparr>, 0)"
    using kp nd(3,6) cfg(2) im(1) by (simp add: insert_seq_def Let_def shift_up_def get_def put_def)
  have sh: "tree_shift c (d # b1 # bs) 0 d [0, END_TREE c, END_TREE c] = Some [1, END_TREE c, END_TREE c]"
    using cfg(2) E im(2) by (simp add: tree_shift_def numeral_2_eq_2 get_def put_def)
  have "Insert2BlindiNodeInPosition c nd k 0 d False True T 0 = Some nd'"
    using nd(2,3,4) sq sh lT n6 cfg(2)
    by (simp add: Insert2BlindiNodeInPosition_def breathe_def isneedbreath_def get_def nd'_def)
  then have "Insert2BlindiNodeWithKey c db nd k = Some (INSERT_SUCCESS, nd')"
    using s nd(3) n6 by (simp add: Insert2BlindiNodeWithKey_def)
  then show ?thesis using y by (intro exI [of _ nd']) (simp add: nd'_def node_keys_def d_def)
qed

lemma search_behind_root:
  assumes cfg: "cfg_ok c" "TREE_LEVELS c = 2" and nd: "node_keys db nd = [x, y]" "blindiTree nd = [1, END_TREE c, END_TREE c]" "valid_len nd = 2"
      "2 \<le> length (key_ptr nd)" "blindiKeys nd = b0 # b1 # bs"
    and x: "length x = KEY_LEN c" "length y = KEY_LEN c" "x \<noteq> y" "b1 < 8 * KEY_LEN c" "\<not> key_bit x b1" and tr0: "6 \<le> length tr0"
  shows "\<exists>r. SearchBlindiNode c db nd x (KEY_LEN c) POINT_SEARCH tr0 len0 = Some r \<and> \<not> sr_hit r"
proof -
  note C = cfg_okD [OF cfg(1)]
  have E: "1 \<noteq> END_TREE c" using C(1,2) by auto
  obtain p0 p ps where kp: "key_ptr nd = p0 # p # ps" using nd(4) by (auto simp: Suc_le_length_iff numeral_2_eq_2)
  have y: "db p = y" using nd(1,3) kp by (simp add: node_keys_def)
  define T where "T = tr0[0 := 0, 1 := u16 0, 2 := 0, 3 := 0, 4 := 0, 5 := 0]"
  have lT: "3 < length T" "T ! 2 = 0" "T ! 3 = 0" using tr0 by (auto simp: T_def)
  have TT [simp]: "T[3 := 0] = T" "T[2 := 0] = T" using lT list_update_id [of T 3] list_update_id [of T 2] by auto
  define d where "d = \<lparr> tt = T, tt_len = 0, tree_pos_p1 = 1, first_stage_key_position = 0,
                start_bk_seq_pos = 0, end_bk_seq_pos = 0, is_start_pos = False, is_end_pos = False, is_last_large = False \<rparr>"
  have b: "isNthBitSetInString x b1 (KEY_LEN c) = Some False" using isNthBitSetInString_key_bit [OF x(1,4)] x(5) by simp
  define d1 where "d1 = d \<lparr> tt := T, tt_len := 1, end_bk_seq_pos := 1, is_end_pos := True, tree_pos_p1 := 2 \<rparr>"
  have "first_stage_tree c nd x (KEY_LEN c) (Suc (Suc 0)) d = first_stage_tree c nd x (KEY_LEN c) (Suc 0) d1"
    using first_stage_tree_step [of nd d 1 c b1 x "KEY_LEN c" False "Suc 0"] E nd(2,5) b lT
    by (simp add: d_def d1_def get_def)
  also have "\<dots> = Some (Inl (1, T[2 := 1], 2))"
    using first_stage_tree_end [of nd d1 c 1 x "KEY_LEN c" 0] nd(2) lT by (simp add: d1_def d_def get_def)
  finally have ft: "first_stage_tree c nd x (KEY_LEN c) (Suc (Suc 0)) d = Some (Inl (1, T[2 := 1], 2))" .
  have n6: "0 < length tr0" "Suc 0 < length tr0" "2 < length tr0" "3 < length tr0" "4 < length tr0" "5 < length tr0" using tr0 by auto
  have "SearchFirstStage c nd x (KEY_LEN c) tr0 len0 = Some (1, T[2 := 1], 2)"
    using cfg(2) nd(2,3) n6 E ft
    by (simp add: SearchFirstStage_def Let_def numeral_2_eq_2 T_def d_def get_def)
  moreover have "CompareStage x y False (KEY_LEN c) (KEY_LEN c) = Some (key_dif x y, False, key_less y x)"
    using CompareStage_eq [of "KEY_LEN c" x y False] x by (simp add: key_of_len_def)
  ultimately show ?thesis using kp y by (simp add: SearchBlindiNode_def get_key_ptr_def get_def)
qed

section \<open>The cells of a node fit into their types\<close>

lemma node_cells_fit:
  assumes cfg: "cfg_ok c" and ok: "node_ok c db nd"
  shows "valid_len nd \<le> currentmaxslot nd" "currentmaxslot nd < 2 ^ 16" "valid_len nd < idx_mod c"
    "Suc i < valid_len nd \<Longrightarrow> blindiKeys nd ! i < MAX_HIGH_MISS c \<and> MAX_HIGH_MISS c < DUPLICATE c \<and> DUPLICATE c < bitidx_mod c"
    "x \<in> set (blindiTree nd) \<Longrightarrow> (x = END_TREE c \<or> Suc x < valid_len nd) \<and> x < idx_mod c"
proof -
  note C = cfg_okD [OF cfg] and N = node_okD [OF ok]
  show v: "valid_len nd \<le> currentmaxslot nd" "currentmaxslot nd < 2 ^ 16" "valid_len nd < idx_mod c" using C N(3-5) by auto
  have "256 \<le> bitidx_mod c" by (simp add: bitidx_mod_def)
  then have m: "MAX_HIGH_MISS c < DUPLICATE c" "DUPLICATE c < bitidx_mod c" by (auto simp: MAX_HIGH_MISS_def DUPLICATE_def)
  show "blindiKeys nd ! i < MAX_HIGH_MISS c \<and> MAX_HIGH_MISS c < DUPLICATE c \<and> DUPLICATE c < bitidx_mod c" if "Suc i < valid_len nd"
    using N(8) [OF that] bdif_bound [OF N(7), of i] N(1) that C(5) m by simp
  show "(x = END_TREE c \<or> Suc x < valid_len nd) \<and> x < idx_mod c" if x: "x \<in> set (blindiTree nd)"
    using cfg
  proof (cases rule: cfg_ok_cases)
    case none then show ?thesis using N(9) x by simp
  next
    case two
    have "x = END_TREE c \<or> Suc x < valid_len nd" using node_cells_fit2(3) [OF two(2) ok [unfolded node_ok_two [OF two(1)]]] x by blast
    then show ?thesis using C(6) v(3) by auto
  qed
qed

section \<open>Reachable nodes\<close>

text \<open>
  A node is built from the arrays of an ordinary leaf, takes missing keys, loses keys as long as two are left, splits when it is
  full, takes over the keys of a node behind it, and is handed over to the class with twice the slots.
\<close>

inductive blind_reach :: "db \<Rightarrow> config \<Rightarrow> node \<Rightarrow> bool" for db :: db where
  breach_build: "cfg_ok c \<Longrightarrow> bl.ordered (KEY_LEN c) (map db ps) \<Longrightarrow> 2 \<le> length ps \<Longrightarrow> length ps \<le> NUM_SLOTS c
    \<Longrightarrow> transfer_btree2blindi c (new_node c) (length ps) (map db ps) ps = Some nd \<Longrightarrow> blind_reach db c nd"
| breach_insert: "blind_reach db c nd \<Longrightarrow> length (db k) = KEY_LEN c \<Longrightarrow> db k \<notin> set (node_keys db nd)
    \<Longrightarrow> Insert2BlindiNodeWithKey c db nd k = Some (ires, nd') \<Longrightarrow> blind_reach db c nd'"
| breach_remove: "blind_reach db c nd \<Longrightarrow> length x = KEY_LEN c \<Longrightarrow> 3 \<le> valid_len nd
    \<Longrightarrow> RemoveFromBlindiNodeWithKey c db nd x = Some (rres, nd') \<Longrightarrow> blind_reach db c nd'"
| breach_split: "blind_reach db c nd \<Longrightarrow> valid_len nd = NUM_SLOTS c
    \<Longrightarrow> SplitBlindiNode c nd (new_node c) (new_node c) = Some (small, large) \<Longrightarrow> nd' = small \<or> nd' = large \<Longrightarrow> blind_reach db c nd'"
| breach_merge: "blind_reach db c nd \<Longrightarrow> blind_reach db c lg \<Longrightarrow> valid_len nd + valid_len lg \<le> currentmaxslot nd
    \<Longrightarrow> key_less (last (node_keys db nd)) (hd (node_keys db lg)) \<Longrightarrow> MergeBlindiNodes c db nd lg = Some nd' \<Longrightarrow> blind_reach db c nd'"
| breach_handover: "blind_reach db c nd \<Longrightarrow> cfg_ok c' \<Longrightarrow> TREE_LEVELS c' = TREE_LEVELS c \<Longrightarrow> KEY_LEN c' = KEY_LEN c
    \<Longrightarrow> NUM_SLOTS c' = 2 * NUM_SLOTS c \<Longrightarrow> NUM_SLOTS c' < 254
    \<Longrightarrow> transferNode c' (new_node c') (valid_len nd) (blindiKeys nd) (key_ptr nd) (get_ptr2blindiTree c nd) = Some nd'
    \<Longrightarrow> blind_reach db c' nd'"

lemma Insert2BlindiNodeWithKey_ok:
  assumes "cfg_ok c" "node_ok c db nd" "length (db k) = KEY_LEN c" "db k \<notin> set (node_keys db nd)"
    "Insert2BlindiNodeWithKey c db nd k = Some (res, nd')"
  shows "node_ok c db nd'"
proof (cases "valid_len nd = NUM_SLOTS c")
  case True then show ?thesis using assms(2,5) by (simp add: Insert2BlindiNodeWithKey_def)
next
  case False
  then have "valid_len nd < NUM_SLOTS c" using node_okD(3-5) [OF assms(2)] by simp
  from Insert2BlindiNodeWithKey_spec [OF assms(1,2) this assms(3,4)] show ?thesis using assms(5) by auto
qed

lemma RemoveFromBlindiNodeWithKey_ok:
  assumes "cfg_ok c" "node_ok c db nd" "length x = KEY_LEN c" "3 \<le> valid_len nd" "RemoveFromBlindiNodeWithKey c db nd x = Some (res, nd')"
  shows "node_ok c db nd'"
  using RemoveWithKey_hit [OF assms(1-3) _ assms(4)] RemoveWithKey_miss [OF assms(1-3)] assms(2,5)
  by (cases "x \<in> set (node_keys db nd)") auto

lemma blind_reach_ok: "blind_reach db c nd \<Longrightarrow> cfg_ok c \<and> node_ok c db nd"
proof (induction rule: blind_reach.induct)
  case (breach_build c ps nd)
  then show ?case using transfer_btree2blindi_spec [OF breach_build(1) new_node_raw breach_build(2) _ breach_build(3,4) refl] by auto
next
  case (breach_insert c nd k ires nd')
  then show ?case using Insert2BlindiNodeWithKey_ok by blast
next
  case (breach_remove c nd x rres nd')
  then show ?case using RemoveFromBlindiNodeWithKey_ok by blast
next
  case (breach_split c nd small large nd')
  then show ?case using SplitBlindiNode_spec [of c db nd "new_node c" "new_node c"] new_node_raw by auto
next
  case (breach_merge c nd lg nd')
  then show ?case using MergeBlindiNodes_spec [of c db nd lg] by auto
next
  case (breach_handover c nd c' nd')
  then show ?case using transferNode_spec [of c c' "new_node c'" db nd] new_node_raw by auto
qed

end
