(* ===== verification/BTree.thy ===== *)
theory BTree
  imports Blindi_Prelude
begin

text \<open>
  \<^verbatim>\<open>mcas/mcas/src/lib/stx_btree/btree.h\<close> (the same file as \<^verbatim>\<open>BwTree/benchmark/stx_btree/btree.h\<close>): the in-memory B+ tree (\<^verbatim>\<open>stx::btree\<close>) whose leaves the elastic
  index replaces. Nodes are a datatype; the array of a node is the list of its used slots, so
  \<^verbatim>\<open>slotuse\<close> is a length. A leaf keeps its address: leaves are also linked into a doubly linked list,
  and the links live in the environment \<open>env\<close> beside the tree, as do the statistics and the head and
  tail pointers. An address is a natural number, \<open>fresh\<close> the next one the allocator returns.

  The template parameters are the fields of \<open>bcfg\<close>. \<^verbatim>\<open>BREATHING_SIZE\<close> is not defined for this header,
  assertions and debug output are off, \<^verbatim>\<open>selfverify\<close> is false.
\<close>

section \<open>Nodes and state\<close>

type_synonym addr = nat

record bcfg =
  leafslotmax :: nat
  innerslotmax :: nat
  allow_duplicates :: bool

definition minleafslots :: "bcfg \<Rightarrow> nat" where "minleafslots c = leafslotmax c div 2"
definition mininnerslots :: "bcfg \<Rightarrow> nat" where "mininnerslots c = innerslotmax c div 2"

datatype ('k, 'v) bnode =
    Leaf addr "'k list" "'v list"
  | Inner nat "'k list" "('k, 'v) bnode list"

fun level :: "('k, 'v) bnode \<Rightarrow> nat" where
  "level (Leaf a ks vs) = 0"
| "level (Inner l ks cs) = l"

fun slotuse :: "('k, 'v) bnode \<Rightarrow> nat" where
  "slotuse (Leaf a ks vs) = length ks"
| "slotuse (Inner l ks cs) = length ks"

definition isleafnode :: "('k, 'v) bnode \<Rightarrow> bool" where
  "isleafnode n \<longleftrightarrow> level n = 0"

fun isfull :: "bcfg \<Rightarrow> ('k, 'v) bnode \<Rightarrow> bool" where
  "isfull c (Leaf a ks vs) = (length ks = leafslotmax c)"
| "isfull c (Inner l ks cs) = (length ks = innerslotmax c)"

fun isfew :: "bcfg \<Rightarrow> ('k, 'v) bnode \<Rightarrow> bool" where
  "isfew c (Leaf a ks vs) = (length ks \<le> minleafslots c)"
| "isfew c (Inner l ks cs) = (length ks \<le> mininnerslots c)"

fun isunderflow :: "bcfg \<Rightarrow> ('k, 'v) bnode \<Rightarrow> bool" where
  "isunderflow c (Leaf a ks vs) = (length ks < minleafslots c)"
| "isunderflow c (Inner l ks cs) = (length ks < mininnerslots c)"

record tree_stats =
  itemcount :: nat
  leaves :: nat
  innernodes :: nat

definition zero_stats :: tree_stats where
  "zero_stats = \<lparr> itemcount = 0, leaves = 0, innernodes = 0 \<rparr>"

definition bt_nodes :: "tree_stats \<Rightarrow> nat" where
  "bt_nodes s = innernodes s + leaves s"

record env =
  m_headleaf :: "addr option"
  m_tailleaf :: "addr option"
  prevleaf :: "addr \<Rightarrow> addr option"
  nextleaf :: "addr \<Rightarrow> addr option"
  fresh :: addr
  m_stats :: tree_stats

record ('k, 'v) btree =
  m_root :: "('k, 'v) bnode option"
  m_env :: env

definition empty_btree :: "('k, 'v) btree" where
  "empty_btree = \<lparr> m_root = None, m_env = \<lparr> m_headleaf = None, m_tailleaf = None, prevleaf = (\<lambda>_. None),
     nextleaf = (\<lambda>_. None), fresh = 0, m_stats = zero_stats \<rparr> \<rparr>"

definition bt_swap :: "('k, 'v) btree \<Rightarrow> ('k, 'v) btree \<Rightarrow> ('k, 'v) btree \<times> ('k, 'v) btree" where
  "bt_swap this from = (from, this)"

section \<open>Allocation\<close>

definition allocate_leaf :: "env \<Rightarrow> addr \<times> env" where
  "allocate_leaf e = (fresh e, e \<lparr> fresh := fresh e + 1, prevleaf := (prevleaf e)(fresh e := None),
     nextleaf := (nextleaf e)(fresh e := None), m_stats := m_stats e \<lparr> leaves := leaves (m_stats e) + 1 \<rparr> \<rparr>)"

definition allocate_inner :: "env \<Rightarrow> env" where
  "allocate_inner e = e \<lparr> m_stats := m_stats e \<lparr> innernodes := innernodes (m_stats e) + 1 \<rparr> \<rparr>"

definition free_node :: "bool \<Rightarrow> env \<Rightarrow> env" where
  "free_node leaf e = e \<lparr> m_stats := (if leaf then m_stats e \<lparr> leaves := leaves (m_stats e) - 1 \<rparr>
     else m_stats e \<lparr> innernodes := innernodes (m_stats e) - 1 \<rparr>) \<rparr>"

text \<open>\<^verbatim>\<open>clear_recursive\<close> frees every node below; \<^verbatim>\<open>clear\<close> also the root, and resets the statistics.\<close>

fun clear_recursive :: "('k, 'v) bnode \<Rightarrow> env \<Rightarrow> env" where
  "clear_recursive (Leaf a ks vs) e = e"
| "clear_recursive (Inner l ks cs) e = fold (\<lambda>n e. free_node (isleafnode n) (clear_recursive n e)) cs e"

definition bt_clear :: "('k, 'v) btree \<Rightarrow> ('k, 'v) btree" where
  "bt_clear t = (case m_root t of None \<Rightarrow> t
     | Some r \<Rightarrow> t \<lparr> m_root := None,
         m_env := (free_node (isleafnode r) (clear_recursive r (m_env t)))
           \<lparr> m_headleaf := None, m_tailleaf := None, m_stats := zero_stats \<rparr> \<rparr>)"

lemma size_child [termination_simp]: "i < length cs \<Longrightarrow> size (cs ! i) < Suc (n + size_list size cs)"
proof -
  assume "i < length cs"
  then have "size (cs ! i) \<le> size_list size cs" by (intro size_list_estimation' [of "cs ! i"]) auto
  then show ?thesis by simp
qed

lemma size_child_list: "i < length cs \<Longrightarrow> size (cs ! i) < n + size_list size cs"
proof (induction cs arbitrary: i)
  case (Cons x xs)
  show ?case
  proof (cases i)
    case (Suc j)
    then have "size (xs ! j) < n + size_list size xs" using Cons by simp
    then show ?thesis using Suc by simp
  qed simp
qed simp

section \<open>Search within a node\<close>

text \<open>The linear searches; the binary search above them is disabled by \<^verbatim>\<open>if (0 && \<dots>)\<close>.\<close>

fun find_lower :: "'k::linorder list \<Rightarrow> 'k \<Rightarrow> nat" where
  "find_lower [] key = 0"
| "find_lower (x # xs) key = (if x < key then find_lower xs key + 1 else 0)"

fun find_upper :: "'k::linorder list \<Rightarrow> 'k \<Rightarrow> nat" where
  "find_upper [] key = 0"
| "find_upper (x # xs) key = (if x \<le> key then find_upper xs key + 1 else 0)"

section \<open>Lookup\<close>

definition bt_size :: "('k, 'v) btree \<Rightarrow> nat" where
  "bt_size t = itemcount (m_stats (m_env t))"

definition bt_empty :: "('k, 'v) btree \<Rightarrow> bool" where
  "bt_empty t \<longleftrightarrow> bt_size t = 0"

text \<open>
  The descent every lookup starts with, as a loop over the nodes. A child slot outside the node is
  undefined behaviour.
\<close>

fun descend :: "('k list \<Rightarrow> 'k \<Rightarrow> nat) \<Rightarrow> 'k \<Rightarrow> ('k, 'v) bnode \<Rightarrow> (addr \<times> 'k list \<times> 'v list) option" where
  "descend srch key (Leaf a ks vs) = Some (a, ks, vs)"
| "descend srch key (Inner l ks cs) =
     (if srch ks key < length cs then descend srch key (cs ! srch ks key) else None)"

type_synonym iter = "addr option \<times> nat"

text \<open>The leaf at an address, as the tree holds it.\<close>

fun leaf_at :: "('k, 'v) bnode \<Rightarrow> addr \<Rightarrow> ('k list \<times> 'v list) option" where
  "leaf_at (Leaf a ks vs) b = (if a = b then Some (ks, vs) else None)"
| "leaf_at (Inner l ks cs) b = List.fold (\<lambda>n r. case r of None \<Rightarrow> leaf_at n b | Some x \<Rightarrow> Some x) cs None"

definition get_leaf :: "('k, 'v) btree \<Rightarrow> addr \<Rightarrow> ('k list \<times> 'v list) option" where
  "get_leaf t a = (case m_root t of None \<Rightarrow> None | Some r \<Rightarrow> leaf_at r a)"

definition iter_begin :: "('k, 'v) btree \<Rightarrow> iter" where
  "iter_begin t = (m_headleaf (m_env t), 0)"

definition iter_end :: "('k, 'v) btree \<Rightarrow> iter option" where
  "iter_end t = (case m_tailleaf (m_env t) of None \<Rightarrow> Some (None, 0)
     | Some a \<Rightarrow> do { (ks, _) \<leftarrow> get_leaf t a; Some (Some a, length ks) })"

definition bt_exists :: "('k::linorder, 'v) btree \<Rightarrow> 'k \<Rightarrow> bool option" where
  "bt_exists t key = (case m_root t of None \<Rightarrow> Some False
     | Some n \<Rightarrow> do {
         (a, ks, vs) \<leftarrow> descend find_lower key n;
         let slot = find_lower ks key;
         Some (slot < length ks \<and> key = ks ! slot) })"

definition bt_find :: "('k::linorder, 'v) btree \<Rightarrow> 'k \<Rightarrow> iter option" where
  "bt_find t key = (case m_root t of None \<Rightarrow> iter_end t
     | Some n \<Rightarrow> do {
         (a, ks, vs) \<leftarrow> descend find_lower key n;
         let slot = find_lower ks key;
         (if slot < length ks \<and> key = ks ! slot then Some (Some a, slot) else iter_end t) })"

text \<open>\<^verbatim>\<open>count\<close> walks on through the next leaves; \<open>fuel\<close> bounds the steps.\<close>

fun count_loop :: "('k::linorder, 'v) btree \<Rightarrow> 'k \<Rightarrow> nat \<Rightarrow> addr \<Rightarrow> nat \<Rightarrow> nat \<Rightarrow> nat option" where
  "count_loop t key 0 a slot num = None"
| "count_loop t key (Suc fuel) a slot num =
     do {
       (ks, vs) \<leftarrow> get_leaf t a;
       (if slot < length ks \<and> key = ks ! slot then
          (if slot + 1 \<ge> length ks then
             (case nextleaf (m_env t) a of None \<Rightarrow> Some (num + 1)
              | Some b \<Rightarrow> count_loop t key fuel b 0 (num + 1))
           else count_loop t key fuel a (slot + 1) (num + 1))
        else Some num)
     }"

definition bt_count :: "('k::linorder, 'v) btree \<Rightarrow> 'k \<Rightarrow> nat option" where
  "bt_count t key = (case m_root t of None \<Rightarrow> Some 0
     | Some n \<Rightarrow> do {
         (a, ks, vs) \<leftarrow> descend find_lower key n;
         count_loop t key (bt_size t + 2) a (find_lower ks key) 0 })"

definition bt_lower_bound :: "('k::linorder, 'v) btree \<Rightarrow> 'k \<Rightarrow> iter option" where
  "bt_lower_bound t key = (case m_root t of None \<Rightarrow> iter_end t
     | Some n \<Rightarrow> do { (a, ks, vs) \<leftarrow> descend find_lower key n; Some (Some a, find_lower ks key) })"

definition bt_upper_bound :: "('k::linorder, 'v) btree \<Rightarrow> 'k \<Rightarrow> iter option" where
  "bt_upper_bound t key = (case m_root t of None \<Rightarrow> iter_end t
     | Some n \<Rightarrow> do { (a, ks, vs) \<leftarrow> descend find_upper key n; Some (Some a, find_upper ks key) })"

definition bt_equal_range :: "('k::linorder, 'v) btree \<Rightarrow> 'k \<Rightarrow> (iter \<times> iter) option" where
  "bt_equal_range t key = do { lo \<leftarrow> bt_lower_bound t key; hi \<leftarrow> bt_upper_bound t key; Some (lo, hi) }"

section \<open>Insertion\<close>

text \<open>Insert into an array at a slot, moving the rest up (\<^verbatim>\<open>std::copy_backward\<close> and a store).\<close>

definition put_slot :: "'a list \<Rightarrow> nat \<Rightarrow> 'a \<Rightarrow> 'a list" where
  "put_slot xs slot x = take slot xs @ x # drop slot xs"

text \<open>The new leaf \<open>b\<close> is linked in behind the leaf \<open>a\<close>.\<close>

definition link_new :: "addr \<Rightarrow> addr \<Rightarrow> env \<Rightarrow> env" where
  "link_new a b e =
     (let nx = nextleaf e a;
          e1 = e \<lparr> nextleaf := (nextleaf e)(b := nx) \<rparr>;
          e2 = (case nx of None \<Rightarrow> e1 \<lparr> m_tailleaf := Some b \<rparr>
                | Some n \<Rightarrow> e1 \<lparr> prevleaf := (prevleaf e1)(n := Some b) \<rparr>)
      in e2 \<lparr> nextleaf := (nextleaf e2)(a := Some b), prevleaf := (prevleaf e2)(b := Some a) \<rparr>)"

text \<open>The result: the shortened leaf, the split key, the new leaf.\<close>

definition split_leaf_node ::
  "addr \<Rightarrow> 'k list \<Rightarrow> 'v list \<Rightarrow> env \<Rightarrow> ('k list \<times> 'v list) \<times> 'k \<times> (addr \<times> 'k list \<times> 'v list) \<times> env" where
  "split_leaf_node a ks vs e =
     (let mid = length ks div 2; (b, e) = allocate_leaf e; e = link_new a b e
      in ((take mid ks, take mid vs), take mid ks ! (mid - 1), (b, drop mid ks, drop mid vs), e))"

definition split_inner_node ::
  "nat \<Rightarrow> 'k list \<Rightarrow> ('k, 'v) bnode list \<Rightarrow> nat \<Rightarrow> env
   \<Rightarrow> ('k list \<times> ('k, 'v) bnode list) \<times> 'k \<times> ('k list \<times> ('k, 'v) bnode list) \<times> env" where
  "split_inner_node l ks cs addslot e =
     (let n = length ks; mid = n div 2;
          mid = (if addslot \<le> mid \<and> mid > n - (mid + 1) then mid - 1 else mid)
      in ((take mid ks, take (mid + 1) cs), ks ! mid, (drop (mid + 1) ks, drop (mid + 1) cs), allocate_inner e))"

text \<open>
  The result of a descent: the node, the split key and the new sibling if the node was split, whether
  an item was inserted, and where the item is.
\<close>

record ('k, 'v) ins_result =
  i_node :: "('k, 'v) bnode"
  i_split :: "('k \<times> ('k, 'v) bnode) option"
  i_done :: bool
  i_iter :: iter
  i_env :: env

definition insert_leaf ::
  "bcfg \<Rightarrow> env \<Rightarrow> addr \<Rightarrow> 'k::linorder list \<Rightarrow> 'v list \<Rightarrow> 'k \<Rightarrow> 'v \<Rightarrow> ('k, 'v) ins_result" where
  "insert_leaf c e a ks vs key val =
     (let slot = find_lower ks key in
      if \<not> allow_duplicates c \<and> slot < length ks \<and> key = ks ! slot then
        \<lparr> i_node = Leaf a ks vs, i_split = None, i_done = False, i_iter = (Some a, slot), i_env = e \<rparr>
      else if isfull c (Leaf a ks vs) then
        (let ((lk, lv), splitkey, (b, rk, rv), e) = split_leaf_node a ks vs e in
         if slot \<ge> length lk then
           (let slot = slot - length lk in
            \<lparr> i_node = Leaf a lk lv, i_split = Some (splitkey, Leaf b (put_slot rk slot key) (put_slot rv slot val)),
              i_done = True, i_iter = (Some b, slot), i_env = e \<rparr>)
         else
           (let lk = put_slot lk slot key; splitkey = (if slot = length lk - 1 then key else splitkey) in
            \<lparr> i_node = Leaf a lk (put_slot lv slot val), i_split = Some (splitkey, Leaf b rk rv),
              i_done = True, i_iter = (Some a, slot), i_env = e \<rparr>))
      else
        \<lparr> i_node = Leaf a (put_slot ks slot key) (put_slot vs slot val), i_split = None, i_done = True,
          i_iter = (Some a, slot), i_env = e \<rparr>)"

text \<open>
  An inner node takes in the new sibling of the child at \<open>slot\<close>. The middle case is the special case of
  the code: the insert slot matches the split place, so the new key becomes the split key.
\<close>

definition insert_inner ::
  "bcfg \<Rightarrow> env \<Rightarrow> nat \<Rightarrow> 'k list \<Rightarrow> ('k, 'v) bnode list \<Rightarrow> nat \<Rightarrow> 'k \<Rightarrow> ('k, 'v) bnode
   \<Rightarrow> ('k, 'v) bnode \<times> ('k \<times> ('k, 'v) bnode) option \<times> env" where
  "insert_inner c e l ks cs slot newkey newchild =
     (if length ks = innerslotmax c then
        (let ((lk, lc), splitkey, (rk, rc), e) = split_inner_node l ks cs slot e in
         if slot = length lk + 1 \<and> length lk < length rk then
           (Inner l (lk @ [splitkey]) (lc @ [rc ! 0]), Some (newkey, Inner l rk (rc[0 := newchild])), e)
         else if slot \<ge> length lk + 1 then
           (let slot = slot - (length lk + 1) in
            (Inner l lk lc, Some (splitkey, Inner l (put_slot rk slot newkey) (put_slot rc (slot + 1) newchild)), e))
         else
           (Inner l (put_slot lk slot newkey) (put_slot lc (slot + 1) newchild), Some (splitkey, Inner l rk rc), e))
      else (Inner l (put_slot ks slot newkey) (put_slot cs (slot + 1) newchild), None, e))"

fun insert_descend ::
  "bcfg \<Rightarrow> env \<Rightarrow> ('k::linorder, 'v) bnode \<Rightarrow> 'k \<Rightarrow> 'v \<Rightarrow> ('k, 'v) ins_result option" where
  "insert_descend c e (Leaf a ks vs) key val = Some (insert_leaf c e a ks vs key val)"
| "insert_descend c e (Inner l ks cs) key val =
     (let slot = find_lower ks key in
      if slot < length cs then
        do {
          r \<leftarrow> insert_descend c e (cs ! slot) key val;
          let cs = cs[slot := i_node r];
          Some (case i_split r of
              None \<Rightarrow> r \<lparr> i_node := Inner l ks cs \<rparr>
            | Some (newkey, newchild) \<Rightarrow>
                (let (n, split, e) = insert_inner c (i_env r) l ks cs slot newkey newchild
                 in r \<lparr> i_node := n, i_split := split, i_env := e \<rparr>))
        }
      else None)"

definition insert_start ::
  "bcfg \<Rightarrow> ('k::linorder, 'v) btree \<Rightarrow> 'k \<Rightarrow> 'v \<Rightarrow> (('k, 'v) btree \<times> iter \<times> bool) option" where
  "insert_start c t key val =
     (let (root, e) = (case m_root t of
            Some r \<Rightarrow> (r, m_env t)
          | None \<Rightarrow> (let (a, e) = allocate_leaf (m_env t)
                     in (Leaf a [] [], e \<lparr> m_headleaf := Some a, m_tailleaf := Some a \<rparr>)))
      in do {
        r \<leftarrow> insert_descend c e root key val;
        let (root, e) = (case i_split r of
              None \<Rightarrow> (i_node r, i_env r)
            | Some (newkey, newchild) \<Rightarrow>
                (Inner (level (i_node r) + 1) [newkey] [i_node r, newchild], allocate_inner (i_env r)));
        let e = (if i_done r then e \<lparr> m_stats := m_stats e \<lparr> itemcount := itemcount (m_stats e) + 1 \<rparr> \<rparr> else e);
        Some (\<lparr> m_root = Some root, m_env = e \<rparr>, i_iter r, i_done r)
      })"

definition bt_insert ::
  "bcfg \<Rightarrow> ('k::linorder, 'v) btree \<Rightarrow> 'k \<Rightarrow> 'v \<Rightarrow> (('k, 'v) btree \<times> iter \<times> bool) option" where
  "bt_insert c t key data = insert_start c t key data"

fun bt_insert_range ::
  "bcfg \<Rightarrow> ('k::linorder, 'v) btree \<Rightarrow> ('k \<times> 'v) list \<Rightarrow> ('k, 'v) btree option" where
  "bt_insert_range c t [] = Some t"
| "bt_insert_range c t ((k, v) # xs) = do { (t, _, _) \<leftarrow> bt_insert c t k v; bt_insert_range c t xs }"

section \<open>Deletion\<close>

text \<open>
  The code passes to every call the siblings of the node, the parents through which they are reached
  and the slot in the parent. The model passes the siblings and the outcomes of the pointer
  comparisons (\<^verbatim>\<open>leftparent == parent\<close>, \<^verbatim>\<open>rightparent == parent\<close>, \<^verbatim>\<open>leftparent == rightparent\<close>); the
  writes of a call into its parent and siblings are returned (\<open>d_setkey\<close>, \<open>d_fix\<close>) and done by the
  parent's call before it goes on. Merging or shifting with a node below another parent has no result;
  it would need an inner node without keys.
\<close>

datatype fix_up = No_fix | Merge_left | Merge_right | Shift_left | Shift_right

record ('k, 'v) del_result =
  d_node :: "('k, 'v) bnode option"
  d_setkey :: "'k option"
  d_fix :: fix_up
  d_not_found :: bool
  d_lastkey :: "'k option"
  d_env :: env

record ('k, 'v) siblings =
  s_left :: "('k, 'v) bnode option"
  s_right :: "('k, 'v) bnode option"
  s_lp :: bool
  s_rp :: bool
  s_same :: bool

definition null_or_few :: "bcfg \<Rightarrow> ('k, 'v) bnode option \<Rightarrow> bool" where
  "null_or_few c n = (case n of None \<Rightarrow> True | Some n \<Rightarrow> isfew c n)"

text \<open>The choice among merging and shifting; the six cases are the same for leaves and inner nodes.\<close>

definition choose_fix :: "bcfg \<Rightarrow> ('k, 'v) siblings \<Rightarrow> fix_up option" where
  "choose_fix c s =
     (if null_or_few c (s_left s) \<and> null_or_few c (s_right s) then
        Some (if s_lp s then Merge_left else Merge_right)
      else if s_left s \<noteq> None \<and> null_or_few c (s_left s) \<and> s_right s \<noteq> None \<and> \<not> null_or_few c (s_right s) then
        Some (if s_rp s then Shift_left else Merge_left)
      else if s_left s \<noteq> None \<and> \<not> null_or_few c (s_left s) \<and> s_right s \<noteq> None \<and> null_or_few c (s_right s) then
        Some (if s_lp s then Shift_right else Merge_right)
      else if s_same s then
        (case (s_left s, s_right s) of
           (Some l, Some r) \<Rightarrow> Some (if slotuse l \<le> slotuse r then Shift_left else Shift_right)
         | _ \<Rightarrow> None)
      else Some (if s_lp s then Shift_right else Shift_left))"

text \<open>\<open>in_parent\<close> is \<^verbatim>\<open>parent && parentslot < parent->slotuse\<close>.\<close>

definition erase_leaf ::
  "bcfg \<Rightarrow> env \<Rightarrow> bool \<Rightarrow> bool \<Rightarrow> ('k, 'v) siblings \<Rightarrow> addr \<Rightarrow> 'k list \<Rightarrow> 'v list \<Rightarrow> nat \<Rightarrow> ('k, 'v) del_result option" where
  "erase_leaf c e is_root in_parent s a ks vs slot =
     (let ks = take slot ks @ drop (slot + 1) ks; vs = take slot vs @ drop (slot + 1) vs;
          last_changed = (slot = length ks)
      in do {
        setkey \<leftarrow> (if last_changed \<and> in_parent then (if ks = [] then None else Some (Some (last ks))) else Some None);
        let lastkey = (if last_changed \<and> \<not> in_parent \<and> 1 \<le> length ks then Some (last ks) else None);
        (if length ks < minleafslots c \<and> \<not> (is_root \<and> 1 \<le> length ks) then
           (if s_left s = None \<and> s_right s = None then
              Some \<lparr> d_node = None, d_setkey = None, d_fix = No_fix, d_not_found = False, d_lastkey = None,
                d_env = (free_node True e) \<lparr> m_headleaf := None, m_tailleaf := None \<rparr> \<rparr>
            else do {
              f \<leftarrow> choose_fix c s;
              Some \<lparr> d_node = Some (Leaf a ks vs), d_setkey = setkey, d_fix = f, d_not_found = False,
                d_lastkey = lastkey, d_env = e \<rparr>
            })
         else Some \<lparr> d_node = Some (Leaf a ks vs), d_setkey = setkey, d_fix = No_fix, d_not_found = False,
                d_lastkey = lastkey, d_env = e \<rparr>)
      })"

definition merge_links :: "addr \<Rightarrow> addr \<Rightarrow> env \<Rightarrow> env" where
  "merge_links a b e =
     (let e = e \<lparr> nextleaf := (nextleaf e)(a := nextleaf e b) \<rparr>
      in case nextleaf e a of None \<Rightarrow> e \<lparr> m_tailleaf := Some a \<rparr>
         | Some n \<Rightarrow> e \<lparr> prevleaf := (prevleaf e)(n := Some a) \<rparr>)"

text \<open>Each of the six routines acts on the children \<open>j\<close> and \<open>j + 1\<close> of the parent \<open>(ks, cs)\<close>.\<close>

definition merge_leaves ::
  "nat \<Rightarrow> 'k list \<Rightarrow> ('k, 'v) bnode list \<Rightarrow> env \<Rightarrow> ('k list \<times> ('k, 'v) bnode list \<times> env) option" where
  "merge_leaves j ks cs e =
     (case (cs ! j, cs ! (j + 1)) of
        (Leaf a lk lv, Leaf b rk rv) \<Rightarrow>
          Some (ks, cs[j := Leaf a (lk @ rk) (lv @ rv), j + 1 := Leaf b [] []], merge_links a b e)
      | _ \<Rightarrow> None)"

definition merge_inner ::
  "nat \<Rightarrow> 'k list \<Rightarrow> ('k, 'v) bnode list \<Rightarrow> env \<Rightarrow> ('k list \<times> ('k, 'v) bnode list \<times> env) option" where
  "merge_inner j ks cs e =
     (case (cs ! j, cs ! (j + 1)) of
        (Inner l lk lc, Inner r rk rc) \<Rightarrow>
          Some (ks, cs[j := Inner l (lk @ [ks ! j] @ rk) (lc @ rc), j + 1 := Inner r [] []], e)
      | _ \<Rightarrow> None)"

definition shift_left_leaf ::
  "nat \<Rightarrow> 'k list \<Rightarrow> ('k, 'v) bnode list \<Rightarrow> env \<Rightarrow> ('k list \<times> ('k, 'v) bnode list \<times> env) option" where
  "shift_left_leaf j ks cs e =
     (case (cs ! j, cs ! (j + 1)) of
        (Leaf a lk lv, Leaf b rk rv) \<Rightarrow>
          (if length lk < length rk then
             (let shiftnum = (length rk - length lk) div 2; lk' = lk @ take shiftnum rk in
              if lk' = [] then None else
              Some (ks[j := last lk'],
                cs[j := Leaf a lk' (lv @ take shiftnum rv), j + 1 := Leaf b (drop shiftnum rk) (drop shiftnum rv)], e))
           else None)
      | _ \<Rightarrow> None)"

definition shift_left_inner ::
  "nat \<Rightarrow> 'k list \<Rightarrow> ('k, 'v) bnode list \<Rightarrow> env \<Rightarrow> ('k list \<times> ('k, 'v) bnode list \<times> env) option" where
  "shift_left_inner j ks cs e =
     (case (cs ! j, cs ! (j + 1)) of
        (Inner l lk lc, Inner r rk rc) \<Rightarrow>
          (let shiftnum = (length rk - length lk) div 2 in
           if 0 < shiftnum then
             Some (ks[j := rk ! (shiftnum - 1)],
               cs[j := Inner l (lk @ [ks ! j] @ take (shiftnum - 1) rk) (lc @ take shiftnum rc),
                  j + 1 := Inner r (drop shiftnum rk) (drop shiftnum rc)], e)
           else None)
      | _ \<Rightarrow> None)"

definition shift_right_leaf ::
  "nat \<Rightarrow> 'k list \<Rightarrow> ('k, 'v) bnode list \<Rightarrow> env \<Rightarrow> ('k list \<times> ('k, 'v) bnode list \<times> env) option" where
  "shift_right_leaf j ks cs e =
     (case (cs ! j, cs ! (j + 1)) of
        (Leaf a lk lv, Leaf b rk rv) \<Rightarrow>
          (if length rk < length lk then
             (let keep = length lk - (length lk - length rk) div 2 in
              Some (ks[j := last (take keep lk)],
                cs[j := Leaf a (take keep lk) (take keep lv), j + 1 := Leaf b (drop keep lk @ rk) (drop keep lv @ rv)], e))
           else None)
      | _ \<Rightarrow> None)"

definition shift_right_inner ::
  "nat \<Rightarrow> 'k list \<Rightarrow> ('k, 'v) bnode list \<Rightarrow> env \<Rightarrow> ('k list \<times> ('k, 'v) bnode list \<times> env) option" where
  "shift_right_inner j ks cs e =
     (case (cs ! j, cs ! (j + 1)) of
        (Inner l lk lc, Inner r rk rc) \<Rightarrow>
          (let shiftnum = (length lk - length rk) div 2; keep = length lk - shiftnum in
           if 0 < shiftnum then
             Some (ks[j := lk ! keep],
               cs[j := Inner l (take keep lk) (take (keep + 1) lc),
                  j + 1 := Inner r (drop (keep + 1) lk @ [ks ! j] @ rk) (drop (keep + 1) lc @ rc)], e)
           else None)
      | _ \<Rightarrow> None)"

definition apply_fix ::
  "fix_up \<Rightarrow> nat \<Rightarrow> 'k list \<Rightarrow> ('k, 'v) bnode list \<Rightarrow> env \<Rightarrow> ('k list \<times> ('k, 'v) bnode list \<times> env \<times> bool) option" where
  "apply_fix f slot ks cs e =
     (let leaf = isleafnode (cs ! slot);
          merged = map_option (\<lambda>(ks, cs, e). (ks, cs, e, True));
          shifted = map_option (\<lambda>(ks, cs, e). (ks, cs, e, False))
      in case f of
        No_fix \<Rightarrow> Some (ks, cs, e, False)
      | Merge_left \<Rightarrow>
          if 0 < slot \<and> slot < length cs then
            merged (if leaf then merge_leaves (slot - 1) ks cs e else merge_inner (slot - 1) ks cs e)
          else None
      | Merge_right \<Rightarrow>
          if slot + 1 < length cs then
            merged (if leaf then merge_leaves slot ks cs e else merge_inner slot ks cs e)
          else None
      | Shift_left \<Rightarrow>
          if slot + 1 < length cs then
            shifted (if leaf then shift_left_leaf slot ks cs e else shift_left_inner slot ks cs e)
          else None
      | Shift_right \<Rightarrow>
          if 0 < slot \<and> slot < length cs then
            shifted (if leaf then shift_right_leaf (slot - 1) ks cs e else shift_right_inner (slot - 1) ks cs e)
          else None)"

text \<open>The branch for \<^verbatim>\<open>btree_fixmerge\<close>: the emptied child is freed and its slot removed.\<close>

definition remove_merged ::
  "nat \<Rightarrow> nat \<Rightarrow> 'k list \<Rightarrow> ('k, 'v) bnode list \<Rightarrow> env \<Rightarrow> ('k list \<times> ('k, 'v) bnode list \<times> env) option" where
  "remove_merged l slot ks cs e =
     (let slot = (if slotuse (cs ! slot) \<noteq> 0 then slot + 1 else slot) in
      if 0 < slot \<and> slot < length cs then
        (let e = free_node (isleafnode (cs ! slot)) e;
             ks = take (slot - 1) ks @ drop slot ks;
             cs = take slot cs @ drop (slot + 1) cs
         in if l = 1 then
              (case cs ! (slot - 1) of
                 Leaf a lk lv \<Rightarrow> if lk = [] then None else Some (ks[slot - 1 := last lk], cs, e)
               | Inner _ _ _ \<Rightarrow> None)
            else Some (ks, cs, e))
      else None)"

text \<open>What an inner node does after the call for its child at \<open>slot\<close> has come back with \<open>r\<close>.\<close>

definition erase_inner ::
  "bcfg \<Rightarrow> bool \<Rightarrow> bool \<Rightarrow> ('k, 'v) siblings \<Rightarrow> nat \<Rightarrow> 'k list \<Rightarrow> ('k, 'v) bnode list \<Rightarrow> nat \<Rightarrow> ('k, 'v) del_result
   \<Rightarrow> ('k, 'v) del_result option" where
  "erase_inner c is_root in_parent s l ks cs slot r =
     do {
       child \<leftarrow> d_node r;
       let cs = cs[slot := child];
       let ks = (case d_setkey r of None \<Rightarrow> ks | Some k \<Rightarrow> ks[slot := k]);
       (ks, cs, e, merged) \<leftarrow> apply_fix (d_fix r) slot ks cs (d_env r);
       let setkey = (if in_parent then d_lastkey r else None);
       let lastkey = (if in_parent then None else d_lastkey r);
       (ks, cs, e) \<leftarrow> (if merged then remove_merged l slot ks cs e else Some (ks, cs, e));
       (if length ks < mininnerslots c \<and> \<not> (is_root \<and> 1 \<le> length ks) then
          (if s_left s = None \<and> s_right s = None then
             (case cs of [] \<Rightarrow> None
              | n # _ \<Rightarrow> Some \<lparr> d_node = Some n, d_setkey = None, d_fix = No_fix, d_not_found = False,
                          d_lastkey = None, d_env = free_node False e \<rparr>)
           else do {
             f \<leftarrow> choose_fix c s;
             Some \<lparr> d_node = Some (Inner l ks cs), d_setkey = setkey, d_fix = f, d_not_found = False,
               d_lastkey = lastkey, d_env = e \<rparr>
           })
        else Some \<lparr> d_node = Some (Inner l ks cs), d_setkey = setkey, d_fix = No_fix, d_not_found = False,
               d_lastkey = lastkey, d_env = e \<rparr>)
     }"

text \<open>
  The siblings handed down to the child at \<open>slot\<close>. Across a subtree border the code takes
  \<^verbatim>\<open>left->childid[left->slotuse - 1]\<close>, the last child but one.
\<close>

definition child_siblings ::
  "('k, 'v) siblings \<Rightarrow> 'k list \<Rightarrow> ('k, 'v) bnode list \<Rightarrow> nat \<Rightarrow> ('k, 'v) siblings option" where
  "child_siblings s ks cs slot =
     do {
       l \<leftarrow> (if slot = 0 then
               (case s_left s of None \<Rightarrow> Some None
                | Some (Inner _ lk lc) \<Rightarrow> if lk = [] then None else map_option Some (get lc (length lk - 1))
                | Some (Leaf _ _ _) \<Rightarrow> None)
             else map_option Some (get cs (slot - 1)));
       r \<leftarrow> (if slot = length ks then
               (case s_right s of None \<Rightarrow> Some None
                | Some (Inner _ rk rc) \<Rightarrow> map_option Some (get rc 0)
                | Some (Leaf _ _ _) \<Rightarrow> None)
             else map_option Some (get cs (slot + 1)));
       Some \<lparr> s_left = l, s_right = r, s_lp = (slot \<noteq> 0), s_rp = (slot \<noteq> length ks),
         s_same = (if slot = 0 \<and> slot = length ks then s_same s else slot \<noteq> 0 \<and> slot \<noteq> length ks) \<rparr>
     }"

definition not_found :: "('k, 'v) bnode \<Rightarrow> env \<Rightarrow> ('k, 'v) del_result" where
  "not_found n e = \<lparr> d_node = Some n, d_setkey = None, d_fix = No_fix, d_not_found = True, d_lastkey = None, d_env = e \<rparr>"

fun erase_one_descend ::
  "bcfg \<Rightarrow> env \<Rightarrow> 'k::linorder \<Rightarrow> bool \<Rightarrow> bool \<Rightarrow> ('k, 'v) siblings \<Rightarrow> ('k, 'v) bnode \<Rightarrow> ('k, 'v) del_result option" where
  "erase_one_descend c e key is_root in_parent s (Leaf a ks vs) =
     (let slot = find_lower ks key in
      if slot \<ge> length ks \<or> key \<noteq> ks ! slot then Some (not_found (Leaf a ks vs) e)
      else erase_leaf c e is_root in_parent s a ks vs slot)"
| "erase_one_descend c e key is_root in_parent s (Inner l ks cs) =
     (let slot = find_lower ks key in
      if slot < length cs then
        do {
          s' \<leftarrow> child_siblings s ks cs slot;
          r \<leftarrow> erase_one_descend c e key False (slot < length ks) s' (cs ! slot);
          (if d_not_found r then Some (not_found (Inner l ks cs) e)
           else erase_inner c is_root in_parent s l ks cs slot r)
        }
      else None)"

definition root_siblings :: "('k, 'v) siblings" where
  "root_siblings = \<lparr> s_left = None, s_right = None, s_lp = True, s_rp = True, s_same = True \<rparr>"

definition erase_finish :: "('k, 'v) btree \<Rightarrow> ('k, 'v) del_result \<Rightarrow> ('k, 'v) btree \<times> bool" where
  "erase_finish t r =
     (if d_not_found r then (t, False)
      else (let e = d_env r in
        (\<lparr> m_root = d_node r,
           m_env = e \<lparr> m_stats := m_stats e \<lparr> itemcount := itemcount (m_stats e) - 1 \<rparr> \<rparr> \<rparr>, True)))"

definition erase_one :: "bcfg \<Rightarrow> ('k::linorder, 'v) btree \<Rightarrow> 'k \<Rightarrow> (('k, 'v) btree \<times> bool) option" where
  "erase_one c t key =
     (case m_root t of None \<Rightarrow> Some (t, False)
      | Some n \<Rightarrow> map_option (erase_finish t) (erase_one_descend c (m_env t) key True False root_siblings n))"

text \<open>\<open>erase(key)\<close> erases once, or all duplicates; the number of items bounds the rounds.\<close>

fun erase_loop :: "bcfg \<Rightarrow> 'k::linorder \<Rightarrow> nat \<Rightarrow> ('k, 'v) btree \<Rightarrow> nat \<Rightarrow> (('k, 'v) btree \<times> nat) option" where
  "erase_loop c key 0 t n = None"
| "erase_loop c key (Suc fuel) t n =
     do {
       (t', found) \<leftarrow> erase_one c t key;
       (if \<not> found then Some (t', n)
        else if \<not> allow_duplicates c then Some (t', n + 1)
        else erase_loop c key fuel t' (n + 1))
     }"

definition erase :: "bcfg \<Rightarrow> ('k::linorder, 'v) btree \<Rightarrow> 'k \<Rightarrow> (('k, 'v) btree \<times> nat) option" where
  "erase c t key = erase_loop c key (bt_size t + 1) t 0"

text \<open>
  Erasure of the item an iterator points to. Only the leaf is known, so the call searches the slots
  from the first one that may hold the key on; \<open>ikey\<close> is the key the iterator reads.
\<close>

function (sequential) erase_iter_descend ::
  "bcfg \<Rightarrow> env \<Rightarrow> addr \<Rightarrow> nat \<Rightarrow> 'k::linorder \<Rightarrow> bool \<Rightarrow> bool \<Rightarrow> ('k, 'v) siblings \<Rightarrow> ('k, 'v) bnode
   \<Rightarrow> ('k, 'v) del_result option"
  and erase_iter_slots ::
  "bcfg \<Rightarrow> env \<Rightarrow> addr \<Rightarrow> nat \<Rightarrow> 'k::linorder \<Rightarrow> bool \<Rightarrow> bool \<Rightarrow> ('k, 'v) siblings \<Rightarrow> nat \<Rightarrow> 'k list
   \<Rightarrow> ('k, 'v) bnode list \<Rightarrow> nat \<Rightarrow> ('k, 'v) del_result option" where
  "erase_iter_descend c e currnode currslot ikey is_root in_parent s (Leaf a ks vs) =
     (if a \<noteq> currnode \<or> currslot \<ge> length ks then Some (not_found (Leaf a ks vs) e)
      else erase_leaf c e is_root in_parent s a ks vs currslot)"
| "erase_iter_descend c e currnode currslot ikey is_root in_parent s (Inner l ks cs) =
     erase_iter_slots c e currnode currslot ikey is_root in_parent s l ks cs (find_lower ks ikey)"
| "erase_iter_slots c e currnode currslot ikey is_root in_parent s l ks cs slot =
     (if slot > length ks then Some (not_found (Inner l ks cs) e)
      else if slot < length cs then
        do {
          s' \<leftarrow> child_siblings s ks cs slot;
          r \<leftarrow> erase_iter_descend c e currnode currslot ikey False (slot < length ks) s' (cs ! slot);
          (if \<not> d_not_found r then erase_inner c is_root in_parent s l ks cs slot r
           else if slot < length ks \<and> ks ! slot < ikey then Some (not_found (Inner l ks cs) e)
           else erase_iter_slots c e currnode currslot ikey is_root in_parent s l ks cs (slot + 1))
        }
      else None)"
  by pat_completeness auto
termination
  by (relation "inv_image (less_than <*lex*> less_than)
    (\<lambda>x. case x of Inl (c, e, a, i, k, r, p, s, n) \<Rightarrow> (size n, 0)
      | Inr (c, e, a, i, k, r, p, s, l, ks, cs, slot) \<Rightarrow> (length ks + size_list size cs, length cs - slot))")
    (auto simp: size_child_list)

definition erase_iter :: "bcfg \<Rightarrow> ('k::linorder, 'v) btree \<Rightarrow> addr \<Rightarrow> nat \<Rightarrow> (('k, 'v) btree \<times> bool) option" where
  "erase_iter c t currnode currslot =
     (case m_root t of None \<Rightarrow> Some (t, False)
      | Some n \<Rightarrow> do {
          (ks, _) \<leftarrow> get_leaf t currnode;
          ikey \<leftarrow> get ks currslot;
          r \<leftarrow> erase_iter_descend c (m_env t) currnode currslot ikey True False root_siblings n;
          Some (erase_finish t r) })"

section \<open>Iterators\<close>

text \<open>
  An iterator is a leaf and a slot. The constant iterators have the same code; the reverse iterators
  stand one slot behind the item they denote.
\<close>

definition iter_key :: "('k, 'v) btree \<Rightarrow> iter \<Rightarrow> 'k option" where
  "iter_key t it = (case fst it of None \<Rightarrow> None
     | Some a \<Rightarrow> do { (ks, vs) \<leftarrow> get_leaf t a; get ks (snd it) })"

definition iter_data :: "('k, 'v) btree \<Rightarrow> iter \<Rightarrow> 'v option" where
  "iter_data t it = (case fst it of None \<Rightarrow> None
     | Some a \<Rightarrow> do { (ks, vs) \<leftarrow> get_leaf t a; get vs (snd it) })"

definition iter_deref :: "('k, 'v) btree \<Rightarrow> iter \<Rightarrow> ('k \<times> 'v) option" where
  "iter_deref t it = do { k \<leftarrow> iter_key t it; v \<leftarrow> iter_data t it; Some (k, v) }"

definition iter_incr :: "('k, 'v) btree \<Rightarrow> iter \<Rightarrow> iter option" where
  "iter_incr t it = (case fst it of None \<Rightarrow> None
     | Some a \<Rightarrow> do {
         (ks, vs) \<leftarrow> get_leaf t a;
         Some (if snd it + 1 < length ks then (Some a, snd it + 1)
               else (case nextleaf (m_env t) a of Some b \<Rightarrow> (Some b, 0) | None \<Rightarrow> (Some a, length ks))) })"

definition iter_decr :: "('k, 'v) btree \<Rightarrow> iter \<Rightarrow> iter option" where
  "iter_decr t it = (case fst it of None \<Rightarrow> None
     | Some a \<Rightarrow>
         if snd it > 0 then Some (Some a, snd it - 1)
         else (case prevleaf (m_env t) a of
             Some b \<Rightarrow> do { (ks, vs) \<leftarrow> get_leaf t b; if ks = [] then None else Some (Some b, length ks - 1) }
           | None \<Rightarrow> Some (Some a, 0)))"

definition iter_eq :: "iter \<Rightarrow> iter \<Rightarrow> bool" where
  "iter_eq x y \<longleftrightarrow> fst x = fst y \<and> snd x = snd y"

definition riter_key :: "('k, 'v) btree \<Rightarrow> iter \<Rightarrow> 'k option" where
  "riter_key t it = (if snd it > 0 then iter_key t (fst it, snd it - 1) else None)"

definition riter_data :: "('k, 'v) btree \<Rightarrow> iter \<Rightarrow> 'v option" where
  "riter_data t it = (if snd it > 0 then iter_data t (fst it, snd it - 1) else None)"

definition riter_incr :: "('k, 'v) btree \<Rightarrow> iter \<Rightarrow> iter option" where
  "riter_incr t it = (case fst it of None \<Rightarrow> None
     | Some a \<Rightarrow>
         if snd it > 1 then Some (Some a, snd it - 1)
         else (case prevleaf (m_env t) a of
             Some b \<Rightarrow> do { (ks, vs) \<leftarrow> get_leaf t b; Some (Some b, length ks) }
           | None \<Rightarrow> Some (Some a, 0)))"

definition riter_decr :: "('k, 'v) btree \<Rightarrow> iter \<Rightarrow> iter option" where
  "riter_decr t it = (case fst it of None \<Rightarrow> None
     | Some a \<Rightarrow> do {
         (ks, vs) \<leftarrow> get_leaf t a;
         Some (if snd it < length ks then (Some a, snd it + 1)
               else (case nextleaf (m_env t) a of Some b \<Rightarrow> (Some b, 1) | None \<Rightarrow> (Some a, length ks))) })"

text \<open>The range an algorithm of the standard library walks from \<^verbatim>\<open>begin()\<close> to \<^verbatim>\<open>end()\<close>, with fuel.\<close>

fun walk :: "('k, 'v) btree \<Rightarrow> nat \<Rightarrow> iter \<Rightarrow> iter \<Rightarrow> ('k \<times> 'v) list option" where
  "walk t 0 it stop = (if iter_eq it stop then Some [] else None)"
| "walk t (Suc fuel) it stop =
     (if iter_eq it stop then Some []
      else do { x \<leftarrow> iter_deref t it; it' \<leftarrow> iter_incr t it; xs \<leftarrow> walk t fuel it' stop; Some (x # xs) })"

definition bt_items :: "('k, 'v) btree \<Rightarrow> ('k \<times> 'v) list option" where
  "bt_items t = do { stop \<leftarrow> iter_end t; walk t (bt_size t) (iter_begin t) stop }"

definition bt_eq :: "('k, 'v) btree \<Rightarrow> ('k, 'v) btree \<Rightarrow> bool option" where
  "bt_eq t u = (if bt_size t = bt_size u then do { xs \<leftarrow> bt_items t; ys \<leftarrow> bt_items u; Some (xs = ys) } else Some False)"

fun lexicographical_less :: "('k::linorder \<times> 'v::linorder) list \<Rightarrow> ('k \<times> 'v) list \<Rightarrow> bool" where
  "lexicographical_less _ [] = False"
| "lexicographical_less [] (_ # _) = True"
| "lexicographical_less ((k, v) # xs) ((k', v') # ys) =
     (if k < k' \<or> k = k' \<and> v < v' then True
      else if k' < k \<or> k' = k \<and> v' < v then False
      else lexicographical_less xs ys)"

definition bt_less :: "('k::linorder, 'v::linorder) btree \<Rightarrow> ('k, 'v) btree \<Rightarrow> bool option" where
  "bt_less t u = do { xs \<leftarrow> bt_items t; ys \<leftarrow> bt_items u; Some (lexicographical_less xs ys) }"

section \<open>Bulk loading\<close>

text \<open>A leaf is appended to the leaf list.\<close>

definition link_tail :: "addr \<Rightarrow> env \<Rightarrow> env" where
  "link_tail a e = (case m_tailleaf e of
       Some t \<Rightarrow> e \<lparr> nextleaf := (nextleaf e)(t := Some a), prevleaf := (prevleaf e)(a := Some t), m_tailleaf := Some a \<rparr>
     | None \<Rightarrow> e \<lparr> m_headleaf := Some a, m_tailleaf := Some a \<rparr>)"

fun bulk_leaves :: "nat \<Rightarrow> ('k \<times> 'v) list \<Rightarrow> env \<Rightarrow> ('k, 'v) bnode list \<times> env" where
  "bulk_leaves 0 xs e = ([], e)"
| "bulk_leaves (Suc m) xs e =
     (let use = length xs div Suc m;
          (a, e) = allocate_leaf e;
          (ls, e) = bulk_leaves m (drop use xs) (link_tail a e)
      in (Leaf a (map fst (take use xs)) (map snd (take use xs)) # ls, e))"

text \<open>One level of inner nodes above \<open>cs\<close>, a list of nodes with the greatest key below each.\<close>

fun bulk_inner :: "nat \<Rightarrow> nat \<Rightarrow> (('k, 'v) bnode \<times> 'k) list \<Rightarrow> env \<Rightarrow> (('k, 'v) bnode \<times> 'k) list \<times> env" where
  "bulk_inner l 0 cs e = ([], e)"
| "bulk_inner l (Suc m) cs e =
     (let group = take (length cs div Suc m) cs;
          n = Inner l (map snd (butlast group)) (map fst group);
          (ns, e) = bulk_inner l m (drop (length cs div Suc m) cs) (allocate_inner e)
      in ((n, snd (last group)) # ns, e))"

fun bulk_levels ::
  "bcfg \<Rightarrow> nat \<Rightarrow> nat \<Rightarrow> (('k, 'v) bnode \<times> 'k) list \<Rightarrow> env \<Rightarrow> (('k, 'v) bnode \<times> env) option" where
  "bulk_levels c 0 l cs e = None"
| "bulk_levels c (Suc fuel) l cs e =
     (case cs of [] \<Rightarrow> None | [(n, _)] \<Rightarrow> Some (n, e)
      | _ \<Rightarrow> (let (ns, e) = bulk_inner l ((length cs + innerslotmax c) div (innerslotmax c + 1)) cs e
             in bulk_levels c fuel (l + 1) ns e))"

definition leaf_maxkey :: "('k, 'v) bnode \<Rightarrow> ('k, 'v) bnode \<times> 'k" where
  "leaf_maxkey n = (n, case n of Leaf a ks vs \<Rightarrow> last ks | Inner l ks cs \<Rightarrow> last ks)"

definition bulk_load :: "bcfg \<Rightarrow> ('k, 'v) btree \<Rightarrow> ('k \<times> 'v) list \<Rightarrow> ('k, 'v) btree option" where
  "bulk_load c t xs =
     (let e = (m_env t) \<lparr> m_stats := m_stats (m_env t) \<lparr> itemcount := length xs \<rparr> \<rparr>;
          num_leaves = (length xs + leafslotmax c - 1) div leafslotmax c;
          (ls, e) = bulk_leaves num_leaves xs e
      in case ls of
           [] \<Rightarrow> Some \<lparr> m_root = None, m_env = e \<rparr>
         | [n] \<Rightarrow> Some \<lparr> m_root = Some n, m_env = e \<rparr>
         | _ \<Rightarrow> do { (n, e) \<leftarrow> bulk_levels c (length ls + 1) 1 (map leaf_maxkey ls) e;
                   Some \<lparr> m_root = Some n, m_env = e \<rparr> })"

section \<open>Copying\<close>

fun copy_recursive :: "('k, 'v) bnode \<Rightarrow> env \<Rightarrow> ('k, 'v) bnode \<times> env"
  and copy_children :: "('k, 'v) bnode list \<Rightarrow> env \<Rightarrow> ('k, 'v) bnode list \<times> env" where
  "copy_recursive (Leaf a ks vs) e = (let (b, e) = allocate_leaf e in (Leaf b ks vs, link_tail b e))"
| "copy_recursive (Inner l ks cs) e =
     (let (cs', e) = copy_children cs (allocate_inner e) in (Inner l ks cs', e))"
| "copy_children [] e = ([], e)"
| "copy_children (n # ns) e =
     (let (n', e) = copy_recursive n e; (ns', e) = copy_children ns e in (n' # ns', e))"

definition bt_assign :: "('k, 'v) btree \<Rightarrow> ('k, 'v) btree \<Rightarrow> ('k, 'v) btree" where
  "bt_assign this other =
     (let t = bt_clear this in
      if bt_size other \<noteq> 0 then
        (case m_root other of
           None \<Rightarrow> t \<lparr> m_env := (m_env t) \<lparr> m_stats := m_stats (m_env other) \<rparr> \<rparr>
         | Some r \<Rightarrow>
             (let e = (m_env t) \<lparr> m_stats := m_stats (m_env t) \<lparr> leaves := 0, innernodes := 0 \<rparr> \<rparr>;
                  (r', e) = copy_recursive r e
              in \<lparr> m_root = Some r', m_env = e \<lparr> m_stats := m_stats (m_env other) \<rparr> \<rparr>))
      else t)"

definition bt_copy :: "('k, 'v) btree \<Rightarrow> ('k, 'v) btree" where
  "bt_copy other =
     (let e = (m_env (empty_btree :: ('k, 'v) btree)) \<lparr> m_stats := m_stats (m_env other) \<rparr> in
      if bt_size other > 0 then
        (let e = e \<lparr> m_stats := m_stats e \<lparr> leaves := 0, innernodes := 0 \<rparr> \<rparr> in
         case m_root other of
           None \<Rightarrow> \<lparr> m_root = None, m_env = e \<rparr>
         | Some r \<Rightarrow> (let (r', e) = copy_recursive r e in \<lparr> m_root = Some r', m_env = e \<rparr>))
      else \<lparr> m_root = None, m_env = e \<rparr>)"

section \<open>Verification\<close>

text \<open>\<^verbatim>\<open>verify_node\<close>: the least and greatest key and the statistics, or \<open>None\<close> if an assertion fails.\<close>

definition leaf_pair_linked :: "env \<Rightarrow> ('k, 'v) bnode \<Rightarrow> ('k, 'v) bnode \<Rightarrow> bool" where
  "leaf_pair_linked e x y = (case (x, y) of
      (Leaf a _ _, Leaf b _ _) \<Rightarrow> nextleaf e a = Some b \<and> prevleaf e b = Some a | _ \<Rightarrow> False)"

definition inner_pair_linked :: "env \<Rightarrow> ('k, 'v) bnode \<Rightarrow> ('k, 'v) bnode \<Rightarrow> bool" where
  "inner_pair_linked e x y = (case (x, y) of
      (Inner _ lk lc, Inner _ rk rc) \<Rightarrow>
        length lk < length lc \<and> rc \<noteq> [] \<and> leaf_pair_linked e (lc ! length lk) (rc ! 0)
    | _ \<Rightarrow> False)"

fun adjacent :: "('a \<Rightarrow> 'a \<Rightarrow> bool) \<Rightarrow> 'a list \<Rightarrow> bool" where
  "adjacent P (x # y # zs) = (P x y \<and> adjacent P (y # zs))"
| "adjacent P _ = True"

fun verify_node :: "bcfg \<Rightarrow> env \<Rightarrow> bool \<Rightarrow> ('k::linorder, 'v) bnode \<Rightarrow> ('k \<times> 'k \<times> tree_stats) option"
  and verify_children ::
    "bcfg \<Rightarrow> env \<Rightarrow> nat \<Rightarrow> ('k::linorder, 'v) bnode list \<Rightarrow> ('k \<times> 'k \<times> tree_stats) list option" where
  "verify_node c e is_root (Leaf a ks vs) =
     (if (is_root \<or> \<not> length ks < minleafslots c) \<and> ks \<noteq> [] \<and> adjacent (\<le>) ks then
        Some (hd ks, last ks, \<lparr> itemcount = length ks, leaves = 1, innernodes = 0 \<rparr>)
      else None)"
| "verify_node c e is_root (Inner l ks cs) =
     (if (is_root \<or> \<not> length ks < mininnerslots c) \<and> ks \<noteq> [] \<and> adjacent (\<le>) ks \<and> length cs = length ks + 1 then
        do {
          rs \<leftarrow> verify_children c e l cs;
          (if (\<forall>i \<in> set [0..<length ks]. ks ! i \<le> fst (rs ! (i + 1)) \<and> ks ! i = fst (snd (rs ! i)))
              \<and> (l = 1 \<longrightarrow> adjacent (leaf_pair_linked e) cs) \<and> (l = 2 \<longrightarrow> adjacent (inner_pair_linked e) cs)
           then Some (fst (hd rs), fst (snd (last rs)),
             \<lparr> itemcount = sum_list (map (\<lambda>r. itemcount (snd (snd r))) rs),
               leaves = sum_list (map (\<lambda>r. leaves (snd (snd r))) rs),
               innernodes = sum_list (map (\<lambda>r. innernodes (snd (snd r))) rs) + 1 \<rparr>)
           else None)
        }
      else None)"
| "verify_children c e l [] = Some []"
| "verify_children c e l (n # ns) =
     (if level n + 1 = l then
        do { r \<leftarrow> verify_node c e False n; rs \<leftarrow> verify_children c e l ns; Some (r # rs) }
      else None)"

fun verify_leaflinks_loop :: "('k::linorder, 'v) btree \<Rightarrow> nat \<Rightarrow> addr \<Rightarrow> nat \<Rightarrow> nat option" where
  "verify_leaflinks_loop t 0 a cnt = None"
| "verify_leaflinks_loop t (Suc fuel) a cnt =
     do {
       (ks, _) \<leftarrow> get_leaf t a;
       (if ks \<noteq> [] \<and> adjacent (\<le>) ks then
          (case nextleaf (m_env t) a of
             None \<Rightarrow> if m_tailleaf (m_env t) = Some a then Some (cnt + length ks) else None
           | Some b \<Rightarrow> do {
               (ks', _) \<leftarrow> get_leaf t b;
               (if ks' \<noteq> [] \<and> last ks \<le> hd ks' \<and> prevleaf (m_env t) b = Some a then
                  verify_leaflinks_loop t fuel b (cnt + length ks) else None) })
        else None)
     }"

definition verify :: "bcfg \<Rightarrow> ('k::linorder, 'v) btree \<Rightarrow> bool" where
  "verify c t = (case m_root t of None \<Rightarrow> True
     | Some r \<Rightarrow>
         (case verify_node c (m_env t) True r of None \<Rightarrow> False | Some (_, _, vstats) \<Rightarrow> vstats = m_stats (m_env t))
         \<and> (case m_headleaf (m_env t) of None \<Rightarrow> False
            | Some a \<Rightarrow> prevleaf (m_env t) a = None
                \<and> verify_leaflinks_loop t (leaves (m_stats (m_env t))) a 0 = Some (bt_size t)))"

section \<open>Dump and restore\<close>

text \<open>
  The stream is a header and the images of the nodes in preorder; an image is what \<^verbatim>\<open>write\<close> puts out for
  the node. A leaf image carries the links as they were. \<open>key_type_size\<close> and \<open>data_type_size\<close> are
  \<^verbatim>\<open>sizeof\<close> of the template arguments. The code does not look at a failed read below an inner node and
  leaves a null child; the model has no such tree, the restore is then undefined.
\<close>

datatype ('k, 'v) image =
    Leaf_image "addr option" "addr option" "'k list" "'v list"
  | Inner_image nat "'k list"

record dump_header =
  signature :: string
  version :: nat
  key_type_size :: nat
  data_type_size :: nat
  h_leafslots :: nat
  h_innerslots :: nat
  h_allow_duplicates :: bool
  h_itemcount :: nat

definition header_fill :: "bcfg \<Rightarrow> nat \<Rightarrow> nat \<Rightarrow> nat \<Rightarrow> dump_header" where
  "header_fill c ksize dsize n = \<lparr> signature = ''stx-btree'', version = 0, key_type_size = ksize,
     data_type_size = dsize, h_leafslots = leafslotmax c, h_innerslots = innerslotmax c,
     h_allow_duplicates = allow_duplicates c, h_itemcount = n \<rparr>"

text \<open>\<^verbatim>\<open>this->same(o)\<close>: the signature test reads the own signature only.\<close>

definition header_same :: "dump_header \<Rightarrow> dump_header \<Rightarrow> bool" where
  "header_same h o' \<longleftrightarrow> signature h = ''stx-btree'' \<and> version h = version o' \<and> key_type_size h = key_type_size o'
     \<and> data_type_size h = data_type_size o' \<and> h_leafslots h = h_leafslots o' \<and> h_innerslots h = h_innerslots o'
     \<and> h_allow_duplicates h = h_allow_duplicates o'"

fun dump_node :: "env \<Rightarrow> ('k, 'v) bnode \<Rightarrow> ('k, 'v) image list" where
  "dump_node e (Leaf a ks vs) = [Leaf_image (prevleaf e a) (nextleaf e a) ks vs]"
| "dump_node e (Inner l ks cs) = Inner_image l ks # concat (map (dump_node e) cs)"

definition dump :: "bcfg \<Rightarrow> nat \<Rightarrow> nat \<Rightarrow> ('k, 'v) btree \<Rightarrow> dump_header \<times> ('k, 'v) image list" where
  "dump c ksize dsize t = (header_fill c ksize dsize (bt_size t),
     case m_root t of None \<Rightarrow> [] | Some r \<Rightarrow> dump_node (m_env t) r)"

definition restore_leaf :: "addr option \<Rightarrow> addr option \<Rightarrow> env \<Rightarrow> addr \<times> env" where
  "restore_leaf prv nxt e =
     (let (a, e) = allocate_leaf e;
          e = e \<lparr> prevleaf := (prevleaf e)(a := prv), nextleaf := (nextleaf e)(a := nxt) \<rparr>
      in (a, link_tail a e))"

fun restore_node ::
  "nat \<Rightarrow> ('k, 'v) image list \<Rightarrow> env \<Rightarrow> (('k, 'v) bnode \<times> ('k, 'v) image list \<times> env) option"
  and restore_children ::
  "nat \<Rightarrow> nat \<Rightarrow> ('k, 'v) image list \<Rightarrow> env \<Rightarrow> (('k, 'v) bnode list \<times> ('k, 'v) image list \<times> env) option" where
  "restore_node 0 is e = None"
| "restore_node (Suc fuel) [] e = None"
| "restore_node (Suc fuel) (Leaf_image prv nxt ks vs # is) e =
     (let (a, e) = restore_leaf prv nxt e in Some (Leaf a ks vs, is, e))"
| "restore_node (Suc fuel) (Inner_image l ks # is) e =
     do { (cs, is, e) \<leftarrow> restore_children fuel (length ks + 1) is (allocate_inner e); Some (Inner l ks cs, is, e) }"
| "restore_children fuel 0 is e = Some ([], is, e)"
| "restore_children 0 (Suc n) is e = None"
| "restore_children (Suc fuel) (Suc n) is e =
     do { (x, is, e) \<leftarrow> restore_node (Suc fuel) is e;
          (xs, is, e) \<leftarrow> restore_children fuel n is e;
          Some (x # xs, is, e) }"

definition restore ::
  "bcfg \<Rightarrow> nat \<Rightarrow> nat \<Rightarrow> nat \<Rightarrow> ('k, 'v) btree \<Rightarrow> dump_header \<times> ('k, 'v) image list \<Rightarrow> (('k, 'v) btree \<times> bool) option" where
  "restore c ksize dsize fuel t = (\<lambda>(h, is).
     if \<not> header_same (header_fill c ksize dsize (h_itemcount h)) h then Some (t, False)
     else (let t = bt_clear t in
       if h_itemcount h > 0 then
         (if is = [] then Some (t, False)
          else do {
            (r, _, e) \<leftarrow> restore_node fuel is (m_env t);
            Some (\<lparr> m_root = Some r, m_env = e \<lparr> m_stats := m_stats e \<lparr> itemcount := h_itemcount h \<rparr> \<rparr> \<rparr>, True)
          })
       else Some (t, True)))"

end
