(* ===== verification/BTree_Inv.thy ===== *)
theory BTree_Inv
  imports BTree
begin

text \<open>
  Well-formed B+ trees, the sorted list of items a tree stands for, and the operations on that list the
  tree implements: \<open>ins_list\<close>, \<open>del_list\<close>, \<open>map_of\<close>.
\<close>

section \<open>Sorted lists of items\<close>

fun ins_list :: "'k::linorder \<Rightarrow> 'v \<Rightarrow> ('k \<times> 'v) list \<Rightarrow> ('k \<times> 'v) list" where
  "ins_list k v [] = [(k, v)]"
| "ins_list k v ((a, b) # xs) =
     (if a < k then (a, b) # ins_list k v xs else if a = k then (a, b) # xs else (k, v) # (a, b) # xs)"

fun del_list :: "'k::linorder \<Rightarrow> ('k \<times> 'v) list \<Rightarrow> ('k \<times> 'v) list" where
  "del_list k [] = []"
| "del_list k ((a, b) # xs) = (if a = k then xs else (a, b) # del_list k xs)"

abbreviation sorted_items :: "('k::linorder \<times> 'v) list \<Rightarrow> bool" where
  "sorted_items xs \<equiv> sorted_wrt (<) (map fst xs)"

lemma ins_list_left: "\<forall>x \<in> set xs. fst x < k \<Longrightarrow> ins_list k v (xs @ ys) = xs @ ins_list k v ys"
  by (induction xs) auto

lemma ins_list_right: "\<forall>y \<in> set ys. k < fst y \<Longrightarrow> ins_list k v (xs @ ys) = ins_list k v xs @ ys"
  by (induction xs) (cases ys; auto)+

lemma set_ins_list_keys: "fst ` set (ins_list k v xs) = insert k (fst ` set xs)"
proof (induction xs)
  case (Cons x xs)
  then show ?case by (cases x) (simp add: insert_commute)
qed simp

lemma ins_list_nonempty [simp]: "ins_list k v xs \<noteq> []"
  by (induction xs) (auto split: if_splits)

lemma sorted_ins_list: "sorted_items xs \<Longrightarrow> sorted_items (ins_list k v xs)"
proof (induction xs)
  case (Cons x xs)
  obtain a b where x: "x = (a, b)" by (cases x)
  have "fst ` set (ins_list k v xs) = insert k (fst ` set xs)" by (rule set_ins_list_keys)
  then show ?case using Cons by (fastforce simp: x)
qed simp

lemma ins_list_mem: "sorted_items xs \<Longrightarrow> k \<in> fst ` set xs \<Longrightarrow> ins_list k v xs = xs"
  by (induction xs) fastforce+

lemma length_ins_list: "sorted_items xs \<Longrightarrow> length (ins_list k v xs) = length xs + of_bool (k \<notin> fst ` set xs)"
  by (induction xs) fastforce+

lemma last_ins_list: "sorted_items xs \<Longrightarrow> xs \<noteq> [] \<Longrightarrow> k \<le> fst (last xs) \<Longrightarrow> last (ins_list k v xs) = last xs"
  by (induction xs) (auto simp: order.strict_iff_order)

lemma map_of_ins_list: "sorted_items xs \<Longrightarrow> k \<notin> fst ` set xs \<Longrightarrow> map_of (ins_list k v xs) = (map_of xs)(k \<mapsto> v)"
  by (induction xs) (auto simp: fun_eq_iff)

lemma del_list_left: "\<forall>x \<in> set xs. fst x < k \<Longrightarrow> del_list k (xs @ ys) = xs @ del_list k ys"
  by (induction xs) auto

lemma del_list_notin: "k \<notin> fst ` set xs \<Longrightarrow> del_list k xs = xs"
  by (induction xs) auto

lemma del_list_right: "\<forall>y \<in> set ys. k < fst y \<Longrightarrow> del_list k (xs @ ys) = del_list k xs @ ys"
  using del_list_notin [of k ys] by (induction xs) auto

lemma set_del_list: "sorted_items xs \<Longrightarrow> set (del_list k xs) = {x \<in> set xs. fst x \<noteq> k}"
  by (induction xs) (fastforce split: if_splits)+

lemma sorted_del_list: "sorted_items xs \<Longrightarrow> sorted_items (del_list k xs)"
proof (induction xs)
  case (Cons x xs)
  obtain a b where x: "x = (a, b)" by (cases x)
  have "set (del_list k xs) \<subseteq> set xs" using Cons by (auto simp: set_del_list)
  then show ?case using Cons by (auto simp: x)
qed simp

lemma map_of_del_list: "sorted_items xs \<Longrightarrow> map_of (del_list k xs) = (map_of xs)(k := None)"
proof (induction xs)
  case (Cons x xs)
  obtain a b where x: "x = (a, b)" by (cases x)
  have "a = k \<Longrightarrow> map_of xs k = None" using Cons.prems by (auto simp: x map_of_eq_None_iff)
  then show ?case using Cons by (auto simp: x fun_eq_iff)
qed simp

lemma length_del_list: "sorted_items xs \<Longrightarrow> length (del_list k xs) = length xs - of_bool (k \<in> fst ` set xs)"
proof (induction xs)
  case (Cons x xs)
  obtain a b where x: "x = (a, b)" by (cases x)
  have "k \<in> fst ` set xs \<Longrightarrow> 0 < length xs" by (cases xs) auto
  then show ?case using Cons by (auto simp: x)
qed simp

section \<open>Search within a node\<close>

lemma find_lower_le: "find_lower ks key \<le> length ks"
  by (induction ks) auto

lemma find_lower_less: "j < find_lower ks key \<Longrightarrow> ks ! j < key"
  by (induction ks arbitrary: j) (auto simp: nth_Cons' split: if_splits)

lemma find_lower_ge: "find_lower ks key < length ks \<Longrightarrow> key \<le> ks ! find_lower ks key"
  by (induction ks) auto

lemma find_upper_le: "find_upper ks key \<le> length ks"
  by (induction ks) auto

lemma find_upper_less: "j < find_upper ks key \<Longrightarrow> ks ! j \<le> key"
  by (induction ks arbitrary: j) (auto simp: nth_Cons' split: if_splits)

lemma find_upper_gt: "find_upper ks key < length ks \<Longrightarrow> key < ks ! find_upper ks key"
  by (induction ks) auto

text \<open>A node finds the slot of a sorted array at which the list operations work.\<close>

lemma find_lower_mem:
  "sorted_wrt (<) ks \<Longrightarrow> key \<in> set ks \<longleftrightarrow> find_lower ks key < length ks \<and> key = ks ! find_lower ks key"
  by (induction ks) auto

lemma put_slot_ins_list:
  assumes "length vs = length ks" "sorted_wrt (<) ks" "key \<notin> set ks"
  shows "zip (put_slot ks (find_lower ks key) key) (put_slot vs (find_lower ks key) val) = ins_list key val (zip ks vs)"
  using assms
proof (induction ks arbitrary: vs)
  case (Cons x xs)
  then obtain w ws where vs: "vs = w # ws" by (cases vs) auto
  show ?case
  proof (cases "x < key")
    case True
    then have "zip (put_slot xs (find_lower xs key) key) (put_slot ws (find_lower xs key) val) = ins_list key val (zip xs ws)"
      using Cons vs by auto
    then show ?thesis using True by (simp add: vs put_slot_def)
  next
    case False then show ?thesis using Cons.prems by (auto simp: vs put_slot_def)
  qed
qed (simp add: put_slot_def)

lemma length_put_slot [simp]: "i \<le> length xs \<Longrightarrow> length (put_slot xs i x) = Suc (length xs)"
  by (simp add: put_slot_def)

section \<open>Well-formed trees\<close>

fun items :: "('k, 'v) bnode \<Rightarrow> ('k \<times> 'v) list" where
  "items (Leaf a ks vs) = zip ks vs"
| "items (Inner l ks cs) = concat (map items cs)"

fun leaf_addrs :: "('k, 'v) bnode \<Rightarrow> addr list" where
  "leaf_addrs (Leaf a ks vs) = [a]"
| "leaf_addrs (Inner l ks cs) = concat (map leaf_addrs cs)"

definition last_key :: "('k, 'v) bnode \<Rightarrow> 'k" where
  "last_key n = fst (last (items n))"

definition bcfg_ok :: "bcfg \<Rightarrow> bool" where
  "bcfg_ok c \<longleftrightarrow> 4 \<le> leafslotmax c \<and> 4 \<le> innerslotmax c \<and> \<not> allow_duplicates c"

text \<open>The separator at slot \<open>i\<close> is the greatest key below child \<open>i\<close>.\<close>

definition seps :: "'k list \<Rightarrow> ('k, 'v) bnode list \<Rightarrow> bool" where
  "seps ks cs \<longleftrightarrow> length cs = Suc (length ks) \<and> (\<forall>i < length ks. ks ! i = last_key (cs ! i))"

fun bt_wf :: "bcfg \<Rightarrow> bool \<Rightarrow> ('k, 'v) bnode \<Rightarrow> bool" where
  "bt_wf c root (Leaf a ks vs) \<longleftrightarrow> length vs = length ks \<and> 0 < length ks \<and> length ks \<le> leafslotmax c
     \<and> (root \<or> minleafslots c \<le> length ks)"
| "bt_wf c root (Inner l ks cs) \<longleftrightarrow> 0 < l \<and> seps ks cs \<and> 0 < length ks \<and> length ks \<le> innerslotmax c
     \<and> (root \<or> mininnerslots c \<le> length ks) \<and> (\<forall>n \<in> set cs. Suc (level n) = l \<and> bt_wf c False n)"

lemma bt_wf_items: "bt_wf c root n \<Longrightarrow> items n \<noteq> []"
proof (induction n arbitrary: root)
  case (Inner l ks cs)
  then have "cs \<noteq> []" by (auto simp: seps_def)
  then obtain m ms where "cs = m # ms" by (cases cs) auto
  then show ?case using Inner by auto
qed auto

lemma bt_wf_addrs: "bt_wf c root n \<Longrightarrow> leaf_addrs n \<noteq> []"
proof (induction n arbitrary: root)
  case (Inner l ks cs)
  then have "cs \<noteq> []" by (auto simp: seps_def)
  then obtain m ms where "cs = m # ms" by (cases cs) auto
  then show ?case using Inner by auto
qed auto

lemma bt_wf_root: "bt_wf c False n \<Longrightarrow> bt_wf c root n"
  by (cases n) auto

lemma seps_child: "seps ks cs \<Longrightarrow> i \<le> length ks \<Longrightarrow> i < length cs"
  by (simp add: seps_def)

lemma concat_split: "i < length xs \<Longrightarrow> concat xs = concat (take i xs) @ xs ! i @ concat (drop (Suc i) xs)"
  by (metis concat.simps(2) concat_append id_take_nth_drop)

text \<open>The items of an inner node around the child at slot \<open>i\<close>.\<close>

lemma items_split:
  "i < length cs \<Longrightarrow> items (Inner l ks cs)
     = concat (map items (take i cs)) @ items (cs ! i) @ concat (map items (drop (Suc i) cs))"
  using concat_split [of i "map items cs"] by (simp add: take_map drop_map)

section \<open>Keys around a child\<close>

lemma last_key_in: "bt_wf c root n \<Longrightarrow> last_key n \<in> fst ` set (items n)"
  using bt_wf_items [of c root n] by (auto simp: last_key_def intro!: imageI last_in_set)

lemma sorted_items_append:
  "sorted_items (xs @ ys) \<longleftrightarrow> sorted_items xs \<and> sorted_items ys \<and> (\<forall>x \<in> set xs. \<forall>y \<in> set ys. fst x < fst y)"
  by (auto simp: sorted_wrt_append)

lemma last_greatest: "sorted_items xs \<Longrightarrow> x \<in> set xs \<Longrightarrow> fst x \<le> fst (last xs)"
proof -
  assume s: "sorted_items xs" and x: "x \<in> set xs"
  then obtain ys y where xs: "xs = ys @ [y]" by (cases xs rule: rev_cases) auto
  show ?thesis using s x by (auto simp: xs sorted_wrt_append intro: less_imp_le)
qed

end
