(* ===== verification/Inner_Node.thy ===== *)
theory Inner_Node
  imports BTree_Inv
begin

text \<open>
  Inner nodes, for any kind of children: what an insertion below child \<open>i\<close> makes of the separators and of the items,
  and where a full node is split. The B+ tree and the elastic index interpret the locale \<open>node_items\<close> on their nodes.
\<close>

section \<open>Slots\<close>

lemma put_slot_low:
  assumes "slot < mid" "mid \<le> length xs"
  shows "put_slot (take mid xs) slot x = take (Suc mid) (put_slot xs slot x)"
    and "drop mid xs = drop (Suc mid) (put_slot xs slot x)"
  using assms by (auto simp: put_slot_def take_drop Suc_diff_le drop_Cons' min_def Suc_diff_Suc)

lemma put_slot_high:
  assumes "mid \<le> slot" "slot \<le> length xs"
  shows "take mid xs = take mid (put_slot xs slot x)"
    and "put_slot (drop mid xs) (slot - mid) x = drop mid (put_slot xs slot x)"
  using assms by (auto simp: put_slot_def min_def take_drop)

lemma put_slot_nth:
  "i \<le> length xs \<Longrightarrow> j \<le> length xs \<Longrightarrow> put_slot xs i x ! j = (if j < i then xs ! j else if j = i then x else xs ! (j - 1))"
  by (auto simp: put_slot_def nth_append nth_Cons' min_def)

lemma put_slot_take:
  assumes "slot \<le> mid" "mid \<le> length xs"
  shows "put_slot (take mid xs) slot x = take (Suc mid) (put_slot xs slot x)"
    and "drop mid xs = drop (Suc mid) (put_slot xs slot x)"
  using assms by (auto simp: put_slot_def take_drop Suc_diff_le drop_Cons' min_def Suc_diff_Suc)


section \<open>Splitting a full inner node\<close>

text \<open>
  The body both trees share: \<open>L\<close> and \<open>R\<close> make the left and the right node out of keys and children, \<open>mid\<close> is the
  slot of the separator that moves up.
\<close>

definition split_mid :: "nat \<Rightarrow> nat \<Rightarrow> nat" where
  "split_mid n slot = (let mid = n div 2 in if slot \<le> mid \<and> mid > n - (mid + 1) then mid - 1 else mid)"

definition split_put ::
  "('k list \<Rightarrow> 'c list \<Rightarrow> 'n) \<Rightarrow> ('k list \<Rightarrow> 'c list \<Rightarrow> 'n) \<Rightarrow> 'k list \<Rightarrow> 'c list \<Rightarrow> nat \<Rightarrow> 'k \<Rightarrow> 'c \<Rightarrow> 'n \<times> 'k \<times> 'n" where
  "split_put L R ks cs slot newkey newchild =
     (let mid = split_mid (length ks) slot;
          lk = take mid ks; lc = take (mid + 1) cs; rk = drop (mid + 1) ks; rc = drop (mid + 1) cs
      in if slot = length lk + 1 \<and> length lk < length rk then
           (L (lk @ [ks ! mid]) (lc @ [rc ! 0]), newkey, R rk (rc[0 := newchild]))
         else if slot \<ge> length lk + 1 then
           (L lk lc, ks ! mid, R (put_slot rk (slot - (length lk + 1)) newkey) (put_slot rc (slot - (length lk + 1) + 1) newchild))
         else (L (put_slot lk slot newkey) (put_slot lc (slot + 1) newchild), ks ! mid, R rk rc))"

lemma split_put_point:
  fixes ks :: "'k list"
  assumes n: "length cs = Suc (length ks)" "4 \<le> length ks" and slot: "slot \<le> length ks"
    and ks'_def: "ks' = put_slot ks slot newkey" and cs'_def: "cs' = put_slot cs (Suc slot) newchild"
  shows "\<exists>p. split_put L R ks cs slot newkey newchild =
      (L (take p ks') (take (Suc p) cs'), ks' ! p, R (drop (Suc p) ks') (drop (Suc p) cs'))
     \<and> length ks div 2 \<le> p \<and> p + length ks div 2 \<le> length ks \<and> 0 < p \<and> p < length ks"
proof -
  let ?N = "length ks"
  define mid where "mid = split_mid ?N slot"
  have mid: "0 < mid" "Suc mid < ?N" "mid \<le> ?N div 2" "slot \<le> mid \<Longrightarrow> Suc (mid + ?N div 2) \<le> ?N \<and> ?N div 2 \<le> Suc mid"
    using n by (auto simp: mid_def split_mid_def Let_def split: if_splits)
  have mid2: "mid < slot \<Longrightarrow> if slot = mid + 1 \<and> mid < ?N - Suc mid then ?N div 2 = Suc mid \<and> Suc (mid + ?N div 2) \<le> ?N
      else ?N div 2 = mid"
  proof -
    define q where "q = ?N div 2"
    have N: "?N = 2 * q \<or> ?N = Suc (2 * q)" by (auto simp: q_def)
    have md: "mid = (if slot \<le> q \<and> q > ?N - (q + 1) then q - 1 else q)" by (simp add: mid_def split_mid_def Let_def q_def)
    assume "mid < slot"
    moreover have "0 < q" using N n by linarith
    ultimately show ?thesis unfolding q_def [symmetric] using N md by (auto split: if_splits)
  qed
  define lk lc rk rc where "lk = take mid ks" and "lc = take (mid + 1) cs" and "rk = drop (mid + 1) ks" and "rc = drop (mid + 1) cs"
  have run: "split_put L R ks cs slot newkey newchild =
      (if slot = length lk + 1 \<and> length lk < length rk then (L (lk @ [ks ! mid]) (lc @ [rc ! 0]), newkey, R rk (rc[0 := newchild]))
         else if slot \<ge> length lk + 1 then
           (L lk lc, ks ! mid, R (put_slot rk (slot - (length lk + 1)) newkey) (put_slot rc (slot - (length lk + 1) + 1) newchild))
         else (L (put_slot lk slot newkey) (put_slot lc (slot + 1) newchild), ks ! mid, R rk rc))"
    unfolding split_put_def lk_def lc_def rk_def rc_def mid_def Let_def ..
  note run = run [unfolded lk_def lc_def rk_def rc_def]
  have len: "length (take mid ks) = mid" "length (drop (mid + 1) ks) = ?N - Suc mid" using mid by auto
  consider (left) "slot \<le> mid" | (special) "slot = mid + 1" "mid < ?N - Suc mid"
    | (right) "mid + 1 \<le> slot" "\<not> (slot = mid + 1 \<and> mid < ?N - Suc mid)" by linarith
  then show ?thesis
  proof cases
    case left
    have "mid \<le> length ks" "Suc slot \<le> Suc mid" "Suc mid \<le> length cs" using left mid n by auto
    note k = put_slot_take [OF left this(1), of newkey, folded ks'_def] and v = put_slot_take [OF this(2,3), of newchild, folded cs'_def]
    have nth: "ks' ! Suc mid = ks ! mid" unfolding ks'_def using left mid slot by (subst put_slot_nth) auto
    have dk: "drop (Suc (Suc mid)) ks' = drop (Suc mid) ks"
      unfolding ks'_def by (rule put_slot_take(2) [symmetric]) (use left mid in auto)
    show ?thesis
      by (rule exI [of _ "Suc mid"]) (use left mid len nth k v dk in \<open>simp add: run del: length_take length_drop\<close>)
  next
    case special
    have tk: "take (Suc mid) ks' = take mid ks @ [ks ! mid]"
      using special mid by (simp add: ks'_def put_slot_def take_Suc_conv_app_nth)
    have nth: "ks' ! Suc mid = newkey" unfolding ks'_def using special mid slot by (subst put_slot_nth) auto
    have dk: "drop (Suc (Suc mid)) ks' = drop (Suc mid) ks" using special mid by (simp add: ks'_def put_slot_def)
    have c: "Suc mid < length cs" using mid n by auto
    have tc: "take (Suc (Suc mid)) cs' = take (Suc mid) cs @ [cs ! Suc mid]"
      using special c by (simp add: cs'_def put_slot_def take_Suc_conv_app_nth)
    have dc: "drop (Suc (Suc mid)) cs' = (drop (Suc mid) cs)[0 := newchild]"
      using special c by (simp add: cs'_def put_slot_def Cons_nth_drop_Suc [symmetric])
    show ?thesis unfolding run
      by (rule exI [of _ "Suc mid"])
        (use special mid mid2 len nth dk tk tc dc c in \<open>simp del: length_take length_drop\<close>)
  next
    case right
    have "mid \<le> slot" "Suc mid \<le> slot" "Suc mid \<le> Suc slot" "Suc slot \<le> length cs" using right slot n by auto
    note k = put_slot_high [OF this(1) slot, of newkey, folded ks'_def] put_slot_high [OF this(2) slot, of newkey, folded ks'_def]
      and v = put_slot_high [OF this(3,4), of newchild, folded cs'_def]
    have nth: "ks' ! mid = ks ! mid" unfolding ks'_def using right mid slot by (subst put_slot_nth) auto
    have e: "Suc (slot - Suc mid) = Suc slot - Suc mid" using right by simp
    have ns: "\<not> (slot = Suc mid \<and> mid < ?N - Suc mid)" using right by simp
    have "split_put L R ks cs slot newkey newchild = (L (take mid ks) (take (mid + 1) cs), ks ! mid,
        R (put_slot (drop (mid + 1) ks) (slot - (mid + 1)) newkey) (put_slot (drop (mid + 1) cs) (slot - (mid + 1) + 1) newchild))"
      unfolding run using right len ns by (auto simp del: length_take length_drop)
    also have "\<dots> = (L (take mid ks') (take (Suc mid) cs'), ks' ! mid, R (drop (Suc mid) ks') (drop (Suc mid) cs'))"
      using k v nth e by simp
    finally show ?thesis
      by (intro exI [of _ mid]) (use right mid mid2 ns in auto)
  qed
qed



section \<open>Separators\<close>

text \<open>\<open>g\<close> gives the greatest key below a child.\<close>

definition seps_by :: "('n \<Rightarrow> 'k) \<Rightarrow> 'k list \<Rightarrow> 'n list \<Rightarrow> bool" where
  "seps_by g ks cs \<longleftrightarrow> length cs = Suc (length ks) \<and> (\<forall>i < length ks. ks ! i = g (cs ! i))"

lemma seps_by_child: "seps_by g ks cs \<Longrightarrow> i \<le> length ks \<Longrightarrow> i < length cs"
  by (simp add: seps_by_def)

lemma seps_by_update: "seps_by g ks cs \<Longrightarrow> (i < length ks \<Longrightarrow> g n = g (cs ! i)) \<Longrightarrow> seps_by g ks (cs[i := n])"
  unfolding seps_by_def by (metis length_list_update nth_list_update_eq nth_list_update_neq less_SucI)

lemma seps_by_put:
  assumes "seps_by g ks cs" "i \<le> length ks" "k = g n" "i < length ks \<Longrightarrow> g m = g (cs ! i)"
  shows "seps_by g (put_slot ks i k) (put_slot (cs[i := n]) (Suc i) m)"
  unfolding seps_by_def
proof (intro conjI allI impI)
  have l: "length cs = Suc (length ks)" and s: "\<And>j. j < length ks \<Longrightarrow> ks ! j = g (cs ! j)"
    using assms(1) by (auto simp: seps_by_def)
  show "length (put_slot (cs[i := n]) (Suc i) m) = Suc (length (put_slot ks i k))" using assms(2) l by simp
  fix j assume "j < length (put_slot ks i k)"
  then have j: "j \<le> length ks" using assms(2) by simp
  have a: "put_slot ks i k ! j = (if j < i then ks ! j else if j = i then k else ks ! (j - 1))"
    by (rule put_slot_nth) (use assms(2) j in auto)
  have b: "put_slot (cs[i := n]) (Suc i) m ! j
      = (if j < Suc i then (cs[i := n]) ! j else if j = Suc i then m else cs[i := n] ! (j - 1))"
    by (rule put_slot_nth) (use assms(2) l j in auto)
  consider "j < i" | "j = i" | "j = Suc i" | "Suc i < j" by linarith
  then show "put_slot ks i k ! j = g (put_slot (cs[i := n]) (Suc i) m ! j)"
  proof cases
    case 1 then show ?thesis using a b s [of j] assms(2) by simp
  next
    case 2 then show ?thesis using a b assms(2,3) l by simp
  next
    case 3 then show ?thesis using a b s [of i] assms(2,4) j by simp
  next
    case 4
    then have "j - 1 \<noteq> i" "j - 1 < length ks" using j by auto
    then show ?thesis using a b s [of "j - 1"] 4 by simp
  qed
qed

lemma seps_by_take: "seps_by g ks cs \<Longrightarrow> p \<le> length ks \<Longrightarrow> seps_by g (take p ks) (take (Suc p) cs)"
  by (auto simp: seps_by_def)

lemma seps_by_drop: "seps_by g ks cs \<Longrightarrow> p \<le> length ks \<Longrightarrow> seps_by g (drop p ks) (drop p cs)"
  by (auto simp: seps_by_def)

lemma set_put_update: "set (put_slot (cs[i := n]) j m) \<subseteq> insert m (insert n (set cs))"
  by (auto simp: put_slot_def dest!: in_set_takeD in_set_dropD set_update_subset_insert [THEN subsetD])

lemma concat_map_split:
  "i < length cs \<Longrightarrow> concat (map f cs) = concat (map f (take i cs)) @ f (cs ! i) @ concat (map f (drop (Suc i) cs))"
  using concat_split [of i "map f cs"] by (simp add: take_map drop_map)

lemma concat_map_update:
  "i < length cs \<Longrightarrow> concat (map f (cs[i := n])) = concat (map f (take i cs)) @ f n @ concat (map f (drop (Suc i) cs))"
  by (simp add: upd_conv_take_nth_drop)

lemma concat_map_put:
  "i < length cs \<Longrightarrow> concat (map f (put_slot (cs[i := n]) (Suc i) m))
     = concat (map f (take i cs)) @ (f n @ f m) @ concat (map f (drop (Suc i) cs))"
  by (simp add: put_slot_def take_Suc_conv_app_nth)

section \<open>Nodes that hold items\<close>

text \<open>A node that fits below an inner node holds an item.\<close>

locale node_items =
  fixes its :: "'n \<Rightarrow> ('k::linorder \<times> 'v) list" and fits :: "'n \<Rightarrow> bool"
  assumes fits_items: "fits n \<Longrightarrow> its n \<noteq> []"
begin

abbreviation greatest :: "'n \<Rightarrow> 'k" where
  "greatest n \<equiv> fst (last (its n))"

text \<open>
  The child at slot \<open>i\<close> is the one a key belongs to, if the separator before it is below the key and the
  separator after it is not.
\<close>

lemma bounds:
  assumes sep: "seps_by greatest ks cs" and f: "\<forall>n \<in> set cs. fits n" and s: "sorted_items (concat (map its cs))"
    and i: "i \<le> length ks" and lt: "\<And>j. j < i \<Longrightarrow> ks ! j < key" and ge: "i < length ks \<Longrightarrow> key \<le> ks ! i"
  shows "\<forall>x \<in> set (concat (map its (take i cs))). fst x < key"
    and "\<forall>x \<in> set (concat (map its (drop (Suc i) cs))). key < fst x"
    and "sorted_items (its (cs ! i))"
proof -
  have ic: "i < length cs" using sep i by (rule seps_by_child)
  note sp = s [unfolded concat_map_split [OF ic]]
  show "sorted_items (its (cs ! i))" using sp by (simp add: sorted_wrt_append)
  have srt: "sorted_items (its (cs ! j))" if "j < length cs" for j
    using s concat_map_split [OF that, of its] by (simp add: sorted_wrt_append)
  show "\<forall>x \<in> set (concat (map its (take i cs))). fst x < key"
  proof
    fix x assume "x \<in> set (concat (map its (take i cs)))"
    then obtain n where n: "n \<in> set (take i cs)" "x \<in> set (its n)" by auto
    from n(1) obtain j where "j < i" "n = cs ! j" using ic by (auto simp: in_set_conv_nth)
    with n have j: "j < i" "x \<in> set (its (cs ! j))" by auto
    have jc: "j < length cs" "j < length ks" using j ic i by auto
    have "fst x \<le> greatest (cs ! j)" by (rule last_greatest [OF srt [OF jc(1)] j(2)])
    also have "\<dots> < key" using lt [OF j(1)] sep jc(2) by (simp add: seps_by_def)
    finally show "fst x < key" .
  qed
  show "\<forall>x \<in> set (concat (map its (drop (Suc i) cs))). key < fst x"
  proof (cases "i < length ks")
    case True
    show ?thesis
    proof
      fix x assume x: "x \<in> set (concat (map its (drop (Suc i) cs)))"
      have "last (its (cs ! i)) \<in> set (its (cs ! i))" using fits_items f ic by simp
      then have "greatest (cs ! i) < fst x" using sp x by (auto simp: sorted_wrt_append)
      then show "key < fst x" using ge [OF True] sep True by (simp add: seps_by_def)
    qed
  next
    case False
    then have "drop (Suc i) cs = []" using sep i by (simp add: seps_by_def)
    then show ?thesis by simp
  qed
qed

lemma find_bounds:
  assumes "seps_by greatest ks cs" "\<forall>n \<in> set cs. fits n" "sorted_items (concat (map its cs))" and i: "i = find_lower ks key"
  shows "\<forall>x \<in> set (concat (map its (take i cs))). fst x < key" "\<forall>x \<in> set (concat (map its (drop (Suc i) cs))). key < fst x"
    "sorted_items (its (cs ! i))" "i \<le> length ks" "i < length cs"
proof -
  show il: "i \<le> length ks" by (simp add: i find_lower_le)
  show "i < length cs" by (rule seps_by_child [OF assms(1) il])
  show "\<forall>x \<in> set (concat (map its (take i cs))). fst x < key" "\<forall>x \<in> set (concat (map its (drop (Suc i) cs))). key < fst x"
    "sorted_items (its (cs ! i))"
    using bounds [OF assms(1-3) il, of key] find_lower_less [of _ ks key] find_lower_ge [of ks key] unfolding i by auto
qed

text \<open>What the insertion of \<open>key\<close> below child \<open>i\<close> makes of the node: the child is replaced by \<open>n\<close>, or split into \<open>n\<close> and \<open>m\<close>.\<close>

lemma ins_child:
  assumes p: "seps_by greatest ks cs" "\<forall>n \<in> set cs. fits n" "sorted_items (concat (map its cs))" and i: "i = find_lower ks key"
  shows "ins_list key val (concat (map its cs))
      = concat (map its (take i cs)) @ ins_list key val (its (cs ! i)) @ concat (map its (drop (Suc i) cs))"
    and "i < length ks \<Longrightarrow> last (ins_list key val (its (cs ! i))) = last (its (cs ! i))"
    and "key \<in> fst ` set (concat (map its cs)) \<longleftrightarrow> key \<in> fst ` set (its (cs ! i))"
proof -
  note b = find_bounds [OF p i]
  show "ins_list key val (concat (map its cs))
      = concat (map its (take i cs)) @ ins_list key val (its (cs ! i)) @ concat (map its (drop (Suc i) cs))"
    unfolding concat_map_split [OF b(5), of its] using b(1-3) by (simp add: ins_list_left ins_list_right)
  show "key \<in> fst ` set (concat (map its cs)) \<longleftrightarrow> key \<in> fst ` set (its (cs ! i))"
    unfolding concat_map_split [OF b(5), of its] using b(1,2) by auto
  assume l: "i < length ks"
  show "last (ins_list key val (its (cs ! i))) = last (its (cs ! i))"
  proof (rule last_ins_list [OF b(3)])
    show "its (cs ! i) \<noteq> []" using fits_items p(2) b(5) by simp
    show "key \<le> greatest (cs ! i)" using find_lower_ge [of ks key] l p(1) unfolding i by (simp add: seps_by_def)
  qed
qed

lemma replace_child:
  assumes p: "seps_by greatest ks cs" "\<forall>n \<in> set cs. fits n" "sorted_items (concat (map its cs))" and i: "i = find_lower ks key"
    and n: "its n = ins_list key val (its (cs ! i))"
  shows "seps_by greatest ks (cs[i := n])" "concat (map its (cs[i := n])) = ins_list key val (concat (map its cs))"
proof -
  note b = find_bounds [OF p i] and c = ins_child(1,2) [OF p i, of val]
  show "seps_by greatest ks (cs[i := n])" by (rule seps_by_update [OF p(1)]) (simp add: n c(2))
  show "concat (map its (cs[i := n])) = ins_list key val (concat (map its cs))"
    unfolding c(1) concat_map_update [OF b(5)] n ..
qed

lemma split_child:
  assumes p: "seps_by greatest ks cs" "\<forall>n \<in> set cs. fits n" "sorted_items (concat (map its cs))" and i: "i = find_lower ks key"
    and n: "its n @ its m = ins_list key val (its (cs ! i))" "fits m" "k = greatest n"
  shows "seps_by greatest (put_slot ks i k) (put_slot (cs[i := n]) (Suc i) m)"
    "concat (map its (put_slot (cs[i := n]) (Suc i) m)) = ins_list key val (concat (map its cs))"
proof -
  note b = find_bounds [OF p i] and c = ins_child(1,2) [OF p i, of val]
  have "last (its m) = last (ins_list key val (its (cs ! i)))" using n(1) fits_items [OF n(2)] by (metis last_appendR)
  then show "seps_by greatest (put_slot ks i k) (put_slot (cs[i := n]) (Suc i) m)"
    by (intro seps_by_put [OF p(1) b(4) n(3)]) (simp add: c(2))
  show "concat (map its (put_slot (cs[i := n]) (Suc i) m)) = ins_list key val (concat (map its cs))"
    unfolding c(1) concat_map_put [OF b(5)] n ..
qed

text \<open>The separator at which a node is split is the greatest key of its left part.\<close>

lemma greatest_concat:
  assumes "\<forall>n \<in> set cs. fits n" "p < length cs"
  shows "fst (last (concat (map its (take (Suc p) cs)))) = greatest (cs ! p)"
proof -
  have "its (cs ! p) \<noteq> []" using fits_items assms by simp
  then show ?thesis using assms(2) by (simp add: take_Suc_conv_app_nth)
qed

end

end
