(* ===== verification/BTree_Insert.thy ===== *)
theory BTree_Insert
  imports Inner_Node
begin

text \<open>
  Insertion into the B+ tree. A node that is split yields two nodes which, read one after the other, hold
  the items of the node with the new item at its place; the split key is the greatest key of the left one.
\<close>

section \<open>Children of an inner node\<close>

interpretation bn: node_items items "bt_wf c False" for c
  by unfold_locales (rule bt_wf_items)

lemma seps_greatest: "seps = seps_by (\<lambda>n. fst (last (items n)))"
  by (simp add: fun_eq_iff seps_def seps_by_def last_key_def)

lemma child_bounds:
  assumes wf: "bt_wf c root (Inner l ks cs)" and s: "sorted_items (items (Inner l ks cs))"
    and i: "i \<le> length ks" and lt: "\<And>j. j < i \<Longrightarrow> ks ! j < key" and ge: "i < length ks \<Longrightarrow> key \<le> ks ! i"
  shows "\<forall>x \<in> set (concat (map items (take i cs))). fst x < key"
    and "\<forall>x \<in> set (concat (map items (drop (Suc i) cs))). key < fst x"
    and "sorted_items (items (cs ! i))"
proof -
  have "seps_by (\<lambda>n. fst (last (items n))) ks cs" "\<forall>n \<in> set cs. bt_wf c False n" "sorted_items (concat (map items cs))"
    using wf s by (auto simp: seps_greatest)
  note b = bn.bounds [OF this i, of key]
  show "\<forall>x \<in> set (concat (map items (take i cs))). fst x < key" by (rule b(1)) (fact lt ge)+
  show "\<forall>x \<in> set (concat (map items (drop (Suc i) cs))). key < fst x" by (rule b(2)) (fact lt ge)+
  show "sorted_items (items (cs ! i))" by (rule b(3)) (fact lt ge)+
qed

lemma last_key_Leaf: "length vs = length ks \<Longrightarrow> ks \<noteq> [] \<Longrightarrow> last_key (Leaf a ks vs) = last ks"
proof -
  assume a: "length vs = length ks" "ks \<noteq> []"
  then have "map fst (zip ks vs) = ks" by simp
  moreover have "zip ks vs \<noteq> []" using a by (cases ks; cases vs) auto
  ultimately show ?thesis unfolding last_key_def items.simps by (metis last_map)
qed

section \<open>Insertion\<close>

text \<open>What a descent of an insertion returns.\<close>

definition ins_ok ::
  "bcfg \<Rightarrow> bool \<Rightarrow> ('k::linorder, 'v) bnode \<Rightarrow> 'k \<Rightarrow> 'v \<Rightarrow> ('k, 'v) ins_result \<Rightarrow> bool" where
  "ins_ok c root n key val r \<longleftrightarrow> level (i_node r) = level n \<and> i_done r = (key \<notin> fst ` set (items n))
     \<and> (case i_split r of
          None \<Rightarrow> bt_wf c root (i_node r) \<and> items (i_node r) = ins_list key val (items n)
        | Some (k, m) \<Rightarrow> bt_wf c False (i_node r) \<and> bt_wf c False m \<and> level m = level n
            \<and> k = last_key (i_node r) \<and> items (i_node r) @ items m = ins_list key val (items n))"

lemma insert_leaf_spec:
  assumes cfg: "bcfg_ok c" and l: "length vs = length ks" "length ks \<le> leafslotmax c" "root \<or> minleafslots c \<le> length ks"
    and s: "sorted_wrt (<) ks"
  shows "ins_ok c root (Leaf a ks vs) key val (insert_leaf c e a ks vs key val)"
proof -
  let ?i = "find_lower ks key" and ?n = "leafslotmax c"
  have nd: "\<not> allow_duplicates c" "4 \<le> ?n" using cfg by (auto simp: bcfg_ok_def)
  have keys: "fst ` set (zip ks vs) = set ks" using l(1) by (metis list.set_map map_fst_zip)
  have mem: "key \<in> set ks \<longleftrightarrow> ?i < length ks \<and> key = ks ! ?i" by (rule find_lower_mem [OF s])
  have i: "?i \<le> length ks" by (rule find_lower_le)
  show ?thesis
  proof (cases "key \<in> set ks")
    case True
    then have "ins_list key val (zip ks vs) = zip ks vs" using s l(1) keys by (intro ins_list_mem) auto
    moreover have "0 < length ks" using True by auto
    ultimately show ?thesis using True mem nd l keys by (auto simp: insert_leaf_def ins_ok_def Let_def)
  next
    case False
    define ks' where "ks' = put_slot ks ?i key"
    define vs' where "vs' = put_slot vs ?i val"
    have ins: "zip ks' vs' = ins_list key val (zip ks vs)"
      unfolding ks'_def vs'_def by (rule put_slot_ins_list [OF l(1) s False])
    have len: "length ks' = Suc (length ks)" "length vs' = Suc (length ks)" using i l(1) by (auto simp: ks'_def vs'_def)
    have iv: "?i \<le> length vs" using i l(1) by simp
    show ?thesis
    proof (cases "length ks = ?n")
      case full: False
      then show ?thesis using False mem nd l keys ins len
        by (auto simp: insert_leaf_def ins_ok_def Let_def ks'_def vs'_def)
    next
      case full: True
      define mid where "mid = ?n div 2"
      have mid: "2 \<le> mid" "mid < length ks" "minleafslots c = mid" "mid \<le> ?n - mid" "Suc mid \<le> ?n"
        using nd full by (auto simp: mid_def minleafslots_def)
      define m where "m = (if mid \<le> ?i then mid else Suc mid)"
      define e' where "e' = link_new a (fresh e) (snd (allocate_leaf e))"
      have sp: "split_leaf_node a ks vs e =
          ((take mid ks, take mid vs), ks ! (mid - 1), (fresh e, drop mid ks, drop mid vs), e')"
        using mid full by (simp add: split_leaf_node_def Let_def allocate_leaf_def mid_def e'_def)
      have nk: "\<not> (\<not> allow_duplicates c \<and> ?i < length ks \<and> key = ks ! ?i)" using False mem by blast
      have fl: "isfull c (Leaf a ks vs)" using full by simp
      have run: "insert_leaf c e a ks vs key val =
         (let ((lk, lv), splitkey, (b, rk, rv), e) = split_leaf_node a ks vs e in
         if ?i \<ge> length lk then
           (let slot = ?i - length lk in
            \<lparr> i_node = Leaf a lk lv, i_split = Some (splitkey, Leaf b (put_slot rk slot key) (put_slot rv slot val)),
              i_done = True, i_iter = (Some b, slot), i_env = e \<rparr>)
         else
           (let lk = put_slot lk ?i key; splitkey = (if ?i = length lk - 1 then key else splitkey) in
            \<lparr> i_node = Leaf a lk (put_slot lv ?i val), i_split = Some (splitkey, Leaf b rk rv),
              i_done = True, i_iter = (Some a, ?i), i_env = e \<rparr>))"
        unfolding insert_leaf_def Let_def if_not_P [OF nk] if_P [OF fl] by (rule refl)
      have r: "insert_leaf c e a ks vs key val = \<lparr> i_node = Leaf a (take m ks') (take m vs'),
          i_split = Some (ks ! (mid - 1), Leaf (fresh e) (drop m ks') (drop m vs')), i_done = True,
          i_iter = (if mid \<le> ?i then (Some (fresh e), ?i - mid) else (Some a, ?i)), i_env = e' \<rparr>"
      proof (cases "mid \<le> ?i")
        case True
        note hk = put_slot_high [OF True i, of key, folded ks'_def] and hv = put_slot_high [OF True iv, of val, folded vs'_def]
        have ll: "length (take mid ks) = mid" using mid by simp
        show ?thesis unfolding run sp using True ll
          by (simp add: Let_def hk(2) hv(2) m_def del: length_take) (simp add: hk(1) hv(1))
      next
        case lt: False
        then have lt': "?i < mid" "mid \<le> length ks" "mid \<le> length vs" using mid l by auto
        note hk = put_slot_low [OF lt'(1,2), of key, folded ks'_def] and hv = put_slot_low [OF lt'(1,3), of val, folded vs'_def]
        have ll: "length (take mid ks) = mid" using mid by simp
        have lm: "length (put_slot (take mid ks) ?i key) - 1 = mid" using lt'(1) ll by simp
        show ?thesis unfolding run sp using lt ll lm
          by (simp add: Let_def hk hv m_def del: length_take)
      qed
      have ml: "m \<le> length ks'" "minleafslots c \<le> m" "minleafslots c \<le> length ks' - m" "m \<le> ?n" "length ks' - m \<le> ?n" "0 < m" "0 < length ks' - m"
        using mid len full by (auto simp: m_def)
      have lastk: "last (take m ks') = ks ! (mid - 1)"
      proof -
        have ne: "take m ks' \<noteq> []" using ml by auto
        have "last (take m ks') = ks' ! (m - 1)" using ml by (subst last_conv_nth [OF ne]) (simp add: min_def)
        also have "\<dots> = ks ! (mid - 1)" unfolding ks'_def
          using mid i by (subst put_slot_nth) (auto simp: m_def)
        finally show ?thesis .
      qed
      have "take m ks' \<noteq> []" using ml by auto
      then have lk: "last_key (Leaf a (take m ks') (take m vs')) = ks ! (mid - 1)"
        using len ml lastk by (subst last_key_Leaf) auto
      have "zip (take m ks') (take m vs') @ zip (drop m ks') (drop m vs') = zip ks' vs'"
        by (metis append_take_drop_id drop_zip take_zip)
      then show ?thesis using r lk ins False ml len keys by (simp add: ins_ok_def)
    qed
  qed
qed

lemma insert_inner_full:
  assumes "length ks = innerslotmax c"
  shows "insert_inner c e l ks cs slot newkey newchild =
    (case split_put (Inner l) (Inner l) ks cs slot newkey newchild of (n, k, m) \<Rightarrow> (n, Some (k, m), allocate_inner e))"
proof -
  define mid lk lc rk rc where "mid = split_mid (length ks) slot" and "lk = take mid ks" and "lc = take (mid + 1) cs"
    and "rk = drop (mid + 1) ks" and "rc = drop (mid + 1) cs"
  note d = lk_def lc_def rk_def rc_def
  have sp: "split_inner_node l ks cs slot e = ((lk, lc), ks ! mid, (rk, rc), allocate_inner e)"
    by (simp add: split_inner_node_def Let_def mid_def split_mid_def d)
  show ?thesis
    unfolding insert_inner_def if_P [OF assms] sp split_put_def Let_def prod.case mid_def [symmetric] d [symmetric]
    by (cases "slot = length lk + 1 \<and> length lk < length rk"; cases "slot \<ge> length lk + 1"; simp only: if_True if_False simp_thms prod.case)
qed

lemma insert_inner_split:
  fixes ks :: "'k list"
  assumes n: "length ks = innerslotmax c" "length cs = Suc (length ks)" "4 \<le> innerslotmax c" and slot: "slot \<le> length ks"
    and ks'_def: "ks' = put_slot ks slot newkey" and cs'_def: "cs' = put_slot cs (Suc slot) newchild"
  shows "\<exists>p. insert_inner c e l ks cs slot newkey newchild =
      (Inner l (take p ks') (take (Suc p) cs'), Some (ks' ! p, Inner l (drop (Suc p) ks') (drop (Suc p) cs')), allocate_inner e)
     \<and> mininnerslots c \<le> p \<and> p + mininnerslots c \<le> length ks \<and> 0 < p \<and> p < length ks"
proof -
  have "4 \<le> length ks" "mininnerslots c = length ks div 2" using n by (auto simp: mininnerslots_def)
  with split_put_point [OF n(2) _ slot ks'_def cs'_def, of "Inner l" "Inner l"] obtain p where
    "split_put (Inner l) (Inner l) ks cs slot newkey newchild
      = (Inner l (take p ks') (take (Suc p) cs'), ks' ! p, Inner l (drop (Suc p) ks') (drop (Suc p) cs'))"
    "mininnerslots c \<le> p" "p + mininnerslots c \<le> length ks" "0 < p" "p < length ks" by auto
  then show ?thesis by (intro exI [of _ p]) (simp add: insert_inner_full [OF n(1)])
qed

lemma last_key_Inner: "cs \<noteq> [] \<Longrightarrow> items (last cs) \<noteq> [] \<Longrightarrow> last_key (Inner l ks cs) = last_key (last cs)"
  by (cases cs rule: rev_cases) (auto simp: last_key_def)

lemma seps_update: "seps ks cs \<Longrightarrow> (i < length ks \<Longrightarrow> last_key n = last_key (cs ! i)) \<Longrightarrow> seps ks (cs[i := n])"
  unfolding seps_greatest last_key_def by (rule seps_by_update)

lemma seps_take: "seps ks cs \<Longrightarrow> p \<le> length ks \<Longrightarrow> seps (take p ks) (take (Suc p) cs)"
  unfolding seps_greatest by (rule seps_by_take)

lemma seps_drop: "seps ks cs \<Longrightarrow> p \<le> length ks \<Longrightarrow> seps (drop p ks) (drop p cs)"
  unfolding seps_greatest by (rule seps_by_drop)

text \<open>Splitting a node that holds one key too many.\<close>

lemma split_wf:
  assumes s: "seps ks cs" and ch: "0 < l" "\<forall>n \<in> set cs. Suc (level n) = l \<and> bt_wf c False n"
    and len: "length ks = Suc (innerslotmax c)"
    and p: "mininnerslots c \<le> p" "p + mininnerslots c \<le> innerslotmax c" "0 < p" "p < innerslotmax c"
  shows "bt_wf c False (Inner l (take p ks) (take (Suc p) cs))"
    and "bt_wf c False (Inner l (drop (Suc p) ks) (drop (Suc p) cs))"
    and "ks ! p = last_key (Inner l (take p ks) (take (Suc p) cs))"
proof -
  have pl: "p \<le> length ks" "Suc p \<le> length ks" "p < length ks" "p < length cs" using p len s by (auto simp: seps_def)
  show "bt_wf c False (Inner l (take p ks) (take (Suc p) cs))"
    using seps_take [OF s pl(1)] ch p len by (auto dest: in_set_takeD)
  show "bt_wf c False (Inner l (drop (Suc p) ks) (drop (Suc p) cs))"
    using seps_drop [OF s pl(2)] ch p len by (auto dest: in_set_dropD)
  have lst: "last (take (Suc p) cs) = cs ! p" "take (Suc p) cs \<noteq> []" using pl by (auto simp: take_Suc_conv_app_nth)
  have "bt_wf c False (cs ! p)" using ch pl by simp
  then show "ks ! p = last_key (Inner l (take p ks) (take (Suc p) cs))"
    using lst s pl bt_wf_items by (subst last_key_Inner) (auto simp: seps_def)
qed

lemma insert_node_spec:
  assumes cfg: "bcfg_ok c" and wf: "bt_wf c root (Inner l ks cs)" and s: "sorted_items (items (Inner l ks cs))"
    and i_def: "i = find_lower ks key" and r: "ins_ok c False (cs ! i) key val r"
  defines "res \<equiv> (case i_split r of
              None \<Rightarrow> r \<lparr> i_node := Inner l ks (cs[i := i_node r]) \<rparr>
            | Some (newkey, newchild) \<Rightarrow>
                (let (n, split, e) = insert_inner c (i_env r) l ks (cs[i := i_node r]) i newkey newchild
                 in r \<lparr> i_node := n, i_split := split, i_env := e \<rparr>))"
  shows "ins_ok c root (Inner l ks cs) key val res"
proof -
  have sep: "seps ks cs" and ll: "0 < l" and ch: "\<forall>n \<in> set cs. Suc (level n) = l \<and> bt_wf c False n" using wf by auto
  have p: "seps_by (\<lambda>n. fst (last (items n))) ks cs" "\<forall>n \<in> set cs. bt_wf c False n" "sorted_items (concat (map items cs))"
    using sep ch s by (auto simp: seps_greatest)
  note i = bn.find_bounds(4) [OF p i_def] and ic = bn.find_bounds(5) [OF p i_def]
  have w: "Suc (level (cs ! i)) = l" using ch ic by auto
  have keyin: "key \<in> fst ` set (items (Inner l ks cs)) \<longleftrightarrow> key \<in> fst ` set (items (cs ! i))"
    using bn.ins_child(3) [OF p i_def] by simp
  have rr: "level (i_node r) = level (cs ! i)" "i_done r = (key \<notin> fst ` set (items (cs ! i)))" using r by (auto simp: ins_ok_def)
  show ?thesis
  proof (cases "i_split r")
    case None
    then have n: "bt_wf c False (i_node r)" "items (i_node r) = ins_list key val (items (cs ! i))" using r by (auto simp: ins_ok_def)
    note c = bn.replace_child [OF p i_def n(2), folded seps_greatest]
    then have "bt_wf c root (Inner l ks (cs[i := i_node r]))"
      using wf n(1) rr(1) w by (auto dest!: set_update_subset_insert [THEN subsetD])
    then show ?thesis using None keyin rr c by (simp add: res_def ins_ok_def)
  next
    case (Some km)
    obtain k m where km: "km = (k, m)" by (cases km)
    have n: "bt_wf c False (i_node r)" "bt_wf c False m" "level m = level (cs ! i)" "k = last_key (i_node r)"
        "items (i_node r) @ items m = ins_list key val (items (cs ! i))"
      using r Some by (auto simp: ins_ok_def km)
    let ?ks = "put_slot ks i k" and ?cs = "put_slot (cs[i := i_node r]) (Suc i) m"
    note c = bn.split_child [OF p i_def n(5,2) n(4) [unfolded last_key_def], folded seps_greatest]
    have sp: "seps ?ks ?cs" and ins': "concat (map items ?cs) = ins_list key val (items (Inner l ks cs))" using c by simp_all
    have chs: "\<forall>n \<in> set ?cs. Suc (level n) = l \<and> bt_wf c False n"
      using set_put_update [of cs i "i_node r" "Suc i" m] ch n(1,2,3) rr(1) w by fastforce
    have len: "length ?ks = Suc (length ks)" using i by simp
    show ?thesis
    proof (cases "length ks = innerslotmax c")
      case False
      then have "insert_inner c (i_env r) l ks (cs[i := i_node r]) i k m = (Inner l ?ks ?cs, None, i_env r)"
        by (simp add: insert_inner_def)
      moreover have "bt_wf c root (Inner l ?ks ?cs)" using wf sp ll chs len False by auto
      ultimately show ?thesis using Some km keyin rr ins' by (simp add: res_def ins_ok_def)
    next
      case True
      have "length (cs[i := i_node r]) = Suc (length ks)" "4 \<le> innerslotmax c" using sep cfg by (auto simp: seps_def bcfg_ok_def)
      from insert_inner_split [OF True this i refl refl] obtain p where
        p: "insert_inner c (i_env r) l ks (cs[i := i_node r]) i k m = (Inner l (take p ?ks) (take (Suc p) ?cs),
              Some (?ks ! p, Inner l (drop (Suc p) ?ks) (drop (Suc p) ?cs)), allocate_inner (i_env r))"
          "mininnerslots c \<le> p" "p + mininnerslots c \<le> length ks" "0 < p" "p < length ks" by metis
      have "length ?ks = Suc (innerslotmax c)" using len True by simp
      note sw = split_wf [OF sp ll chs this p(2) p(3) [unfolded True] p(4) p(5) [unfolded True]]
      have "concat (map items (take (Suc p) ?cs)) @ concat (map items (drop (Suc p) ?cs)) = concat (map items ?cs)"
        by (simp flip: concat_append map_append)
      then show ?thesis using Some km keyin rr ins' p(1) sw by (simp add: res_def ins_ok_def)
    qed
  qed
qed

lemma insert_descend_spec:
  assumes "bcfg_ok c" "bt_wf c root n" "sorted_items (items n)"
  shows "\<exists>r. insert_descend c e n key val = Some r \<and> ins_ok c root n key val r"
  using assms(2,3)
proof (induction n arbitrary: root)
  case (Leaf a ks vs)
  then show ?case by (auto intro!: insert_leaf_spec [OF assms(1)])
next
  case (Inner l ks cs)
  let ?i = "find_lower ks key"
  have i: "?i \<le> length ks" by (rule find_lower_le)
  then have ic: "?i < length cs" using Inner.prems by (auto simp: seps_def)
  have w: "bt_wf c False (cs ! ?i)" using Inner.prems(1) ic by simp
  have s: "sorted_items (items (cs ! ?i))"
    by (rule child_bounds(3) [OF Inner.prems i find_lower_less find_lower_ge])
  from Inner.IH [OF nth_mem [OF ic] w s] obtain r where
    r: "insert_descend c e (cs ! ?i) key val = Some r" "ins_ok c False (cs ! ?i) key val r" by blast
  show ?case using insert_node_spec [OF assms(1) Inner.prems refl r(2)] r(1) ic by (simp add: Let_def)
qed

end
