(* ===== verification/BTree_Links.thy ===== *)
theory BTree_Links
  imports BTree_Insert
begin

text \<open>
  The doubly linked list of the leaves: the links of the environment agree with the leaves of the tree in
  their order, and an insertion keeps this. With the links the iterators walk the items in order.
\<close>

section \<open>The leaves of a tree and their links\<close>

fun leaf_list :: "('k, 'v) bnode \<Rightarrow> (addr \<times> 'k list \<times> 'v list) list" where
  "leaf_list (Leaf a ks vs) = [(a, ks, vs)]"
| "leaf_list (Inner l ks cs) = concat (map leaf_list cs)"

fun ninner :: "('k, 'v) bnode \<Rightarrow> nat" where
  "ninner (Leaf a ks vs) = 0"
| "ninner (Inner l ks cs) = Suc (sum_list (map ninner cs))"

lemma leaf_addrs_list: "leaf_addrs n = map fst (leaf_list n)"
  by (induction n) (auto simp: map_concat intro!: arg_cong [where f = concat])

lemma items_leaf_list: "items n = concat (map (\<lambda>(a, ks, vs). zip ks vs) (leaf_list n))"
proof (induction n)
  case (Inner l ks cs)
  then have "map items cs = map (\<lambda>n. concat (map (\<lambda>(a, ks, vs). zip ks vs) (leaf_list n))) cs" by auto
  then have "items (Inner l ks cs) = concat (map (\<lambda>n. concat (map (\<lambda>(a, ks, vs). zip ks vs) (leaf_list n))) cs)"
    by (simp only: items.simps)
  also have "\<dots> = concat (map (\<lambda>(a, ks, vs). zip ks vs) (concat (map leaf_list cs)))" by (induction cs) auto
  finally show ?case by simp
qed simp

definition first_or :: "'a option \<Rightarrow> 'a list \<Rightarrow> 'a option" where
  "first_or q xs = (case xs of [] \<Rightarrow> q | x # _ \<Rightarrow> Some x)"

definition last_or :: "'a option \<Rightarrow> 'a list \<Rightarrow> 'a option" where
  "last_or p xs = (if xs = [] then p else Some (last xs))"

lemma first_or_simps [simp]: "first_or q [] = q" "first_or q (x # xs) = Some x"
  by (auto simp: first_or_def)

lemma last_or_simps [simp]: "last_or p [] = p" "last_or p (xs @ [x]) = Some x" "last_or p (x # xs) = last_or (Some x) xs"
  by (auto simp: last_or_def)

lemma first_or_append [simp]: "first_or q (xs @ ys) = first_or (first_or q ys) xs"
  by (cases xs) auto

lemma last_or_append [simp]: "last_or p (xs @ ys) = last_or (last_or p xs) ys"
  by (auto simp: last_or_def)

text \<open>The leaves at the addresses \<open>as\<close> are linked in this order, between \<open>p\<close> and \<open>q\<close>.\<close>

fun linked :: "env \<Rightarrow> addr option \<Rightarrow> addr list \<Rightarrow> addr option \<Rightarrow> bool" where
  "linked e p [] q = True"
| "linked e p (a # as) q = (prevleaf e a = p \<and> nextleaf e a = first_or q as \<and> linked e (Some a) as q)"

definition chain :: "env \<Rightarrow> addr list \<Rightarrow> bool" where
  "chain e as \<longleftrightarrow> m_headleaf e = first_or None as \<and> m_tailleaf e = last_or None as \<and> linked e None as None
     \<and> distinct as \<and> (\<forall>a \<in> set as. a < fresh e) \<and> leaves (m_stats e) = length as"

lemma linked_cong:
  "\<forall>a \<in> set as. nextleaf e a = nextleaf e' a \<and> prevleaf e a = prevleaf e' a \<Longrightarrow> linked e p as q = linked e' p as q"
  by (induction as arbitrary: p) auto

lemma linked_append: "linked e p (xs @ ys) q \<longleftrightarrow> linked e p xs (first_or q ys) \<and> linked e (last_or p xs) ys q"
  by (induction xs arbitrary: p) auto

lemma linked_first: "linked e p as q \<Longrightarrow> as \<noteq> [] \<Longrightarrow> prevleaf e (hd as) = p"
  by (cases as) auto

text \<open>Replacing the leaf before or behind a segment changes one link only.\<close>

lemma linked_set_prev:
  "linked e p as q \<Longrightarrow> distinct as \<Longrightarrow> as = a # as' \<Longrightarrow> \<forall>b \<in> set as. nextleaf e' b = nextleaf e b
   \<Longrightarrow> prevleaf e' a = p' \<Longrightarrow> \<forall>b \<in> set as'. prevleaf e' b = prevleaf e b \<Longrightarrow> linked e' p' as q"
  using linked_cong [of as' e e' "Some a" q] by simp

section \<open>What an insertion does to the links\<close>

definition links :: "env \<Rightarrow> env" where
  "links e = e \<lparr> m_stats := m_stats e \<lparr> innernodes := 0 \<rparr> \<rparr>"

definition new_leaf :: "addr \<Rightarrow> env \<Rightarrow> env" where
  "new_leaf a e = link_new a (fresh e) (snd (allocate_leaf e))"

text \<open>At most one leaf is new, and it follows the leaf that was split.\<close>

definition grown :: "env \<Rightarrow> env \<Rightarrow> addr list \<Rightarrow> addr list \<Rightarrow> bool" where
  "grown e e' as as' \<longleftrightarrow> links e' = links e \<and> as' = as
     \<or> (\<exists>xs a ys. as = xs @ a # ys \<and> as' = xs @ a # fresh e # ys \<and> links e' = links (new_leaf a e))"

lemma grown_context: "grown e e' as as' \<Longrightarrow> grown e e' (xs @ as @ ys) (xs @ as' @ ys)"
  unfolding grown_def by (metis append.assoc append_Cons)

lemma chain_links: "links e' = links e \<Longrightarrow> chain e' as = chain e as"
proof -
  assume l: "links e' = links e"
  have "m_headleaf (links e') = m_headleaf e'" "m_tailleaf (links e') = m_tailleaf e'" "prevleaf (links e') = prevleaf e'"
    "nextleaf (links e') = nextleaf e'" "fresh (links e') = fresh e'" "leaves (m_stats (links e')) = leaves (m_stats e')" for e'
    by (auto simp: links_def)
  then have "m_headleaf e' = m_headleaf e" "m_tailleaf e' = m_tailleaf e" "prevleaf e' = prevleaf e"
    "nextleaf e' = nextleaf e" "fresh e' = fresh e" "leaves (m_stats e') = leaves (m_stats e)" using l by metis+
  then show ?thesis unfolding chain_def by (simp add: linked_cong [of as e' e])
qed

lemma new_leaf_simps:
  assumes "a \<noteq> fresh e"
  shows "m_headleaf (new_leaf a e) = m_headleaf e"
    and "m_tailleaf (new_leaf a e) = (if nextleaf e a = None then Some (fresh e) else m_tailleaf e)"
    and "nextleaf (new_leaf a e) = (nextleaf e)(fresh e := nextleaf e a, a := Some (fresh e))"
    and "nextleaf e a = None \<Longrightarrow> prevleaf (new_leaf a e) = (prevleaf e)(fresh e := Some a)"
    and "nextleaf e a = Some n \<Longrightarrow> prevleaf (new_leaf a e) = (prevleaf e)(n := Some (fresh e), fresh e := Some a)"
    and "fresh (new_leaf a e) = Suc (fresh e)" "leaves (m_stats (new_leaf a e)) = Suc (leaves (m_stats e))"
  using assms by (auto simp: new_leaf_def link_new_def allocate_leaf_def Let_def fun_eq_iff split: option.splits)

lemma chain_grown: "chain e as \<Longrightarrow> grown e e' as as' \<Longrightarrow> chain e' as'"
proof -
  assume c: "chain e as" and g: "grown e e' as as'"
  show ?thesis
  proof (cases "links e' = links e \<and> as' = as")
    case True then show ?thesis using c chain_links by metis
  next
    case False
    then obtain xs a ys where as: "as = xs @ a # ys" "as' = xs @ a # fresh e # ys" and l: "links e' = links (new_leaf a e)"
      using g by (auto simp: grown_def)
    let ?f = "fresh e" and ?e = "new_leaf a e"
    have fr: "?f \<notin> set as" "a \<noteq> ?f" using c by (auto simp: chain_def as(1))
    note n = new_leaf_simps [OF fr(2)]
    have d: "distinct as" using c by (simp add: chain_def)
    have lk: "linked e None xs (Some a)" "prevleaf e a = last_or None xs" "nextleaf e a = first_or None ys" "linked e (Some a) ys None"
      using c by (auto simp: chain_def as(1) linked_append)
    have pr: "prevleaf ?e b = (if first_or None ys = Some b then Some ?f else prevleaf e b)" if "b \<in> set as" for b
      using that fr n(4,5) lk(3) by (cases ys) auto
    have "linked ?e None xs (Some a)"
      using lk(1) d fr by (subst linked_cong [of xs _ e]) (cases ys; auto simp: n(3) pr as(1))+
    moreover have "prevleaf ?e a = last_or None xs" using pr [of a] d lk(2) by (cases ys) (auto simp: as(1))
    moreover have "nextleaf ?e a = Some ?f" "nextleaf ?e ?f = first_or None ys" "prevleaf ?e ?f = Some a"
      using fr(2) n(3,4,5) lk(3) by (cases ys; auto simp: fun_upd_def)+
    moreover have "linked ?e (Some ?f) ys None"
    proof (cases ys)
      case (Cons y zs)
      show ?thesis unfolding Cons
        by (rule linked_set_prev [OF lk(4) [unfolded Cons]])
          (use d fr pr Cons in \<open>auto simp: as(1) n(3)\<close>)
    qed simp
    ultimately have "linked ?e None as' None" by (simp add: as(2) linked_append)
    moreover have "m_headleaf ?e = first_or None as'" "m_tailleaf ?e = last_or None as'"
      using c n(1,2) lk(3) by (auto simp: chain_def as last_or_def split: if_splits) (cases ys; simp)+
    ultimately have "chain ?e as'" using c fr by (auto simp: chain_def n as less_Suc_eq)
    then show ?thesis using chain_links [OF l] by simp
  qed
qed

definition res_leaves :: "('k, 'v) ins_result \<Rightarrow> (addr \<times> 'k list \<times> 'v list) list" where
  "res_leaves r = leaf_list (i_node r) @ (case i_split r of None \<Rightarrow> [] | Some (_, m) \<Rightarrow> leaf_list m)"

definition res_ninner :: "('k, 'v) ins_result \<Rightarrow> nat" where
  "res_ninner r = ninner (i_node r) + (case i_split r of None \<Rightarrow> 0 | Some (_, m) \<Rightarrow> ninner m)"

definition points_at :: "(addr \<times> 'k list \<times> 'v list) list \<Rightarrow> iter \<Rightarrow> 'k \<Rightarrow> bool" where
  "points_at ls it key \<longleftrightarrow> (\<exists>a ks vs. fst it = Some a \<and> (a, ks, vs) \<in> set ls \<and> snd it < length ks \<and> ks ! snd it = key)"

definition ins_env :: "env \<Rightarrow> ('k, 'v) bnode \<Rightarrow> 'k \<Rightarrow> ('k, 'v) ins_result \<Rightarrow> bool" where
  "ins_env e n key r \<longleftrightarrow> grown e (i_env r) (leaf_addrs n) (map fst (res_leaves r))
     \<and> innernodes (m_stats (i_env r)) + ninner n = innernodes (m_stats e) + res_ninner r
     \<and> points_at (res_leaves r) (i_iter r) key"

lemma points_at_append: "points_at (xs @ ys) it key \<longleftrightarrow> points_at xs it key \<or> points_at ys it key"
  unfolding points_at_def set_append Un_iff by blast

lemma innernodes_new_leaf [simp]: "innernodes (m_stats (new_leaf a e)) = innernodes (m_stats e)"
  by (simp add: new_leaf_def link_new_def allocate_leaf_def Let_def split: option.splits)

lemma links_allocate_inner [simp]: "links (allocate_inner e) = links e"
  by (simp add: links_def allocate_inner_def)

lemma put_slot_same: "i \<le> length xs \<Longrightarrow> put_slot xs i x ! i = x"
  by (simp add: put_slot_def nth_append min_def)

lemma points_at_I: "(a, ks, vs) \<in> set ls \<Longrightarrow> j < length ks \<Longrightarrow> ks ! j = key \<Longrightarrow> points_at ls (Some a, j) key"
  by (auto simp: points_at_def)

lemma insert_leaf_env:
  assumes "4 \<le> leafslotmax c" "length vs = length ks"
  shows "ins_env e (Leaf a ks vs) key (insert_leaf c e a ks vs key val)"
proof -
  let ?i = "find_lower ks key"
  have i: "?i \<le> length ks" by (rule find_lower_le)
  show ?thesis
  proof (cases "\<not> allow_duplicates c \<and> ?i < length ks \<and> key = ks ! ?i")
    case True
    then have "insert_leaf c e a ks vs key val
      = \<lparr> i_node = Leaf a ks vs, i_split = None, i_done = False, i_iter = (Some a, ?i), i_env = e \<rparr>"
      by (simp add: insert_leaf_def)
    then show ?thesis using True by (simp add: ins_env_def grown_def res_leaves_def res_ninner_def points_at_def)
  next
    case nk: False
    show ?thesis
    proof (cases "isfull c (Leaf a ks vs)")
      case False
      then have "insert_leaf c e a ks vs key val = \<lparr> i_node = Leaf a (put_slot ks ?i key) (put_slot vs ?i val),
          i_split = None, i_done = True, i_iter = (Some a, ?i), i_env = e \<rparr>"
        unfolding insert_leaf_def Let_def if_not_P [OF nk] by simp
      then show ?thesis using i
        by (simp add: ins_env_def grown_def res_leaves_def res_ninner_def points_at_def put_slot_same)
    next
      case True
      define mid where "mid = length ks div 2"
      have mid: "0 < mid" "mid < length ks" using True assms by (auto simp: mid_def)
      have sp: "split_leaf_node a ks vs e =
          ((take mid ks, take mid vs), take mid ks ! (mid - 1), (fresh e, drop mid ks, drop mid vs), new_leaf a e)"
        by (simp add: split_leaf_node_def Let_def allocate_leaf_def mid_def new_leaf_def)
      have ll: "length (take mid ks) = mid" using mid by simp
      note run = insert_leaf_def [of c e a ks vs key val, unfolded Let_def if_not_P [OF nk] if_P [OF True] sp]
      have g: "grown e (new_leaf a e) [a] [a, fresh e]"
        unfolding grown_def by (rule disjI2) (intro exI [of _ "[]"], auto)
      have gi: "ins_env e (Leaf a ks vs) key \<lparr> i_node = Leaf a lk lv, i_split = Some (k, Leaf (fresh e) rk rv),
          i_done = d, i_iter = it, i_env = new_leaf a e \<rparr> = points_at [(a, lk, lv), (fresh e, rk, rv)] it key"
        for lk lv k rk rv d it
        using g by (simp add: ins_env_def res_leaves_def res_ninner_def)
      show ?thesis
      proof (cases "mid \<le> ?i")
        case le: True
        have "?i - mid \<le> length (drop mid ks)" using i by simp
        then show ?thesis unfolding run using le ll
          by (simp add: gi del: length_take length_drop)
            (rule points_at_I, rule list.set_intros(2), rule list.set_intros(1), simp_all add: put_slot_same)
      next
        case lt: False
        then have "?i \<le> length (take mid ks)" "\<not> length (take mid ks) \<le> ?i" using ll by auto
        then show ?thesis unfolding run
          by (simp add: gi del: length_take)
            (rule points_at_I, rule list.set_intros(1), simp_all add: put_slot_same del: length_take)
      qed
    qed
  qed
qed

lemma addrs_concat: "map fst (concat (map leaf_list xs)) = concat (map leaf_addrs xs)"
  unfolding map_concat map_map comp_def leaf_addrs_list [symmetric] ..

lemma insert_node_env:
  fixes l :: nat
  assumes "4 \<le> innerslotmax c" "seps ks cs" "length ks \<le> innerslotmax c" "i \<le> length ks" and r: "ins_env e (cs ! i) key r"
  defines "res \<equiv> (case i_split r of
              None \<Rightarrow> r \<lparr> i_node := Inner l ks (cs[i := i_node r]) \<rparr>
            | Some (newkey, newchild) \<Rightarrow>
                (let (n, split, e) = insert_inner c (i_env r) l ks (cs[i := i_node r]) i newkey newchild
                 in r \<lparr> i_node := n, i_split := split, i_env := e \<rparr>))"
  shows "ins_env e (Inner l ks cs) key res"
proof -
  let ?A = "take i cs" and ?B = "drop (Suc i) cs"
  have ic: "i < length cs" using assms(2,4) by (simp add: seps_def)
  have cs: "cs = ?A @ cs ! i # ?B" by (rule id_take_nth_drop [OF ic])
  let ?n = "sum_list (map ninner ?A) + sum_list (map ninner ?B)"
  have old: "leaf_addrs (Inner l ks cs) = concat (map leaf_addrs ?A) @ leaf_addrs (cs ! i) @ concat (map leaf_addrs ?B)"
    by (subst cs) simp
  have oldn: "ninner (Inner l ks cs) = Suc (?n + ninner (cs ! i))" by (subst cs) simp
  have ctx: "ins_env e (Inner l ks cs) key res"
    if "res_leaves res = concat (map leaf_list ?A) @ res_leaves r @ concat (map leaf_list ?B)"
      "i_iter res = i_iter r" "links (i_env res) = links (i_env r)"
      "innernodes (m_stats (i_env res)) + res_ninner r + Suc ?n = innernodes (m_stats (i_env r)) + res_ninner res"
  proof -
    have "grown e (i_env r) (leaf_addrs (Inner l ks cs)) (map fst (res_leaves res))"
      unfolding old that(1) map_append addrs_concat using r by (auto simp: ins_env_def intro: grown_context)
    then have "grown e (i_env res) (leaf_addrs (Inner l ks cs)) (map fst (res_leaves res))"
      by (simp add: grown_def that(3))
    then show ?thesis using r that oldn by (auto simp: ins_env_def points_at_append)
  qed
  show ?thesis
  proof (cases "i_split r")
    case None
    have "cs[i := i_node r] = ?A @ i_node r # ?B" using ic by (simp add: upd_conv_take_nth_drop)
    then show ?thesis using None by (intro ctx) (simp_all add: res_def res_leaves_def res_ninner_def)
  next
    case (Some km)
    obtain k m where km: "km = (k, m)" by (cases km)
    let ?cs = "put_slot (cs[i := i_node r]) (Suc i) m"
    have pc: "?cs = ?A @ i_node r # m # ?B" using ic by (simp add: put_slot_def take_Suc_conv_app_nth)
    show ?thesis
    proof (cases "length ks = innerslotmax c")
      case False
      then show ?thesis using Some km by (intro ctx) (simp_all add: res_def insert_inner_def pc res_leaves_def res_ninner_def)
    next
      case True
      have "length (cs[i := i_node r]) = Suc (length ks)" using assms(2) by (simp add: seps_def)
      from insert_inner_split [OF True this assms(1,4) refl refl] obtain p where
        p: "insert_inner c (i_env r) l ks (cs[i := i_node r]) i k m = (Inner l (take p (put_slot ks i k)) (take (Suc p) ?cs),
              Some (put_slot ks i k ! p, Inner l (drop (Suc p) (put_slot ks i k)) (drop (Suc p) ?cs)), allocate_inner (i_env r))"
        by metis
      have "concat (map leaf_list (take (Suc p) ?cs)) @ concat (map leaf_list (drop (Suc p) ?cs)) = concat (map leaf_list ?cs)"
        by (simp flip: concat_append map_append)
      moreover have "sum_list (map ninner (take (Suc p) ?cs)) + sum_list (map ninner (drop (Suc p) ?cs)) = sum_list (map ninner ?cs)"
        by (simp flip: sum_list_append map_append)
      ultimately show ?thesis using Some km p
        by (intro ctx) (simp_all add: res_def res_leaves_def res_ninner_def pc allocate_inner_def links_def)
    qed
  qed
qed

lemma insert_descend_env:
  assumes "bcfg_ok c" "bt_wf c root n" "insert_descend c e n key val = Some r"
  shows "ins_env e n key r"
  using assms(2,3)
proof (induction n arbitrary: root r)
  case (Leaf a ks vs)
  then show ?case using assms(1) by (auto simp: bcfg_ok_def intro!: insert_leaf_env)
next
  case (Inner l ks cs)
  let ?i = "find_lower ks key"
  have i: "?i \<le> length ks" by (rule find_lower_le)
  have sep: "seps ks cs" "length ks \<le> innerslotmax c" "4 \<le> innerslotmax c" using Inner.prems assms(1) by (auto simp: bcfg_ok_def)
  have ic: "?i < length cs" using i sep by (simp add: seps_def)
  then have w: "bt_wf c False (cs ! ?i)" using Inner.prems(1) by simp
  from Inner.prems(2) ic obtain r' where r': "insert_descend c e (cs ! ?i) key val = Some r'"
    "r = (case i_split r' of
              None \<Rightarrow> r' \<lparr> i_node := Inner l ks (cs[?i := i_node r']) \<rparr>
            | Some (newkey, newchild) \<Rightarrow>
                (let (n, split, e) = insert_inner c (i_env r') l ks (cs[?i := i_node r']) ?i newkey newchild
                 in r' \<lparr> i_node := n, i_split := split, i_env := e \<rparr>))"
    by (auto simp: Let_def bind_eq_Some_conv)
  show ?case unfolding r'(2)
    by (rule insert_node_env [OF sep(3,1,2) i Inner.IH [OF nth_mem [OF ic] w r'(1)]])
qed

section \<open>The invariant of the tree\<close>

definition tree_items :: "('k, 'v) btree \<Rightarrow> ('k \<times> 'v) list" where
  "tree_items t = (case m_root t of None \<Rightarrow> [] | Some r \<Rightarrow> items r)"

definition tree_leaves :: "('k, 'v) btree \<Rightarrow> (addr \<times> 'k list \<times> 'v list) list" where
  "tree_leaves t = (case m_root t of None \<Rightarrow> [] | Some r \<Rightarrow> leaf_list r)"

definition tree_ninner :: "('k, 'v) btree \<Rightarrow> nat" where
  "tree_ninner t = (case m_root t of None \<Rightarrow> 0 | Some r \<Rightarrow> ninner r)"

definition bt_ok :: "bcfg \<Rightarrow> ('k::linorder, 'v) btree \<Rightarrow> bool" where
  "bt_ok c t \<longleftrightarrow> bcfg_ok c \<and> (\<forall>r. m_root t = Some r \<longrightarrow> bt_wf c True r) \<and> sorted_items (tree_items t)
     \<and> chain (m_env t) (map fst (tree_leaves t)) \<and> innernodes (m_stats (m_env t)) = tree_ninner t
     \<and> bt_size t = length (tree_items t)"

lemma empty_btree_ok: "bcfg_ok c \<Longrightarrow> bt_ok c empty_btree"
  by (simp add: bt_ok_def empty_btree_def tree_items_def tree_leaves_def tree_ninner_def chain_def zero_stats_def bt_size_def)

lemma tree_leaves_wf:
  "bt_wf c root n \<Longrightarrow> (a, ks, vs) \<in> set (leaf_list n) \<Longrightarrow> length vs = length ks \<and> 0 < length ks"
  by (induction n arbitrary: root) auto

lemma grown_stats: "grown e e' as as' \<Longrightarrow> itemcount (m_stats e') = itemcount (m_stats e)"
proof -
  have i: "itemcount (m_stats (links e)) = itemcount (m_stats e)" for e by (simp add: links_def)
  have "itemcount (m_stats (new_leaf a e)) = itemcount (m_stats e)" for a
    by (simp add: new_leaf_def link_new_def allocate_leaf_def Let_def split: option.splits)
  then show "grown e e' as as' \<Longrightarrow> ?thesis" unfolding grown_def by (metis i)
qed

lemma chain_stats: "chain (e \<lparr> m_stats := m_stats e \<lparr> itemcount := i \<rparr> \<rparr>) as = chain e as"
  using linked_cong [of as "e \<lparr> m_stats := m_stats e \<lparr> itemcount := i \<rparr> \<rparr>" e] by (simp add: chain_def)

text \<open>The two ways a tree has to start an insertion: with its root, or with a fresh leaf.\<close>

lemma insert_start_descend:
  assumes cfg: "bcfg_ok c" and d: "insert_descend c e root key val = Some r"
    and ins: "ins_ok c True root key val r" and env: "ins_env e root key r"
    and s: "sorted_items (items root)" and ch: "chain e (leaf_addrs root)"
    and ni: "innernodes (m_stats e) = ninner root" and ic: "itemcount (m_stats e) = length (items root)"
  defines "root_env \<equiv> (case i_split r of
              None \<Rightarrow> (i_node r, i_env r)
            | Some (newkey, newchild) \<Rightarrow>
                (Inner (level (i_node r) + 1) [newkey] [i_node r, newchild], allocate_inner (i_env r)))"
  defines "t' \<equiv> \<lparr> m_root = Some (fst root_env), m_env = (if i_done r then snd root_env
     \<lparr> m_stats := m_stats (snd root_env) \<lparr> itemcount := itemcount (m_stats (snd root_env)) + 1 \<rparr> \<rparr> else snd root_env) \<rparr>"
  shows "bt_ok c t' \<and> tree_items t' = ins_list key val (items root) \<and> points_at (tree_leaves t') (i_iter r) key"
proof -
  obtain root' e' where re: "root_env = (root', e')" by (cases root_env)
  have g: "grown e (i_env r) (leaf_addrs root) (map fst (res_leaves r))" using env by (simp add: ins_env_def)
  have e': "links e' = links (i_env r)" using re by (auto simp: root_env_def split: option.splits prod.splits)
  have lv: "leaf_list root' = res_leaves r"
    using re by (auto simp: root_env_def res_leaves_def split: option.splits prod.splits)
  have it: "items root' = ins_list key val (items root)"
    using re ins by (auto simp: root_env_def ins_ok_def split: option.splits prod.splits)
  have wf: "bt_wf c True root'"
  proof (cases "i_split r")
    case None then show ?thesis using re ins by (simp add: root_env_def ins_ok_def)
  next
    case (Some km)
    then show ?thesis using re ins cfg
      by (cases km) (auto simp: root_env_def ins_ok_def seps_def bcfg_ok_def)
  qed
  have inn: "innernodes (m_stats e') = ninner root'"
    using re env ni by (auto simp: root_env_def ins_env_def res_ninner_def allocate_inner_def split: option.splits prod.splits)
  have "chain (i_env r) (map fst (res_leaves r))" by (rule chain_grown [OF ch g])
  then have c': "chain e' (map fst (leaf_list root'))" using chain_links [OF e'] lv by simp
  have itc: "itemcount (m_stats e') = itemcount (m_stats e)"
    using grown_stats [OF g] re by (auto simp: root_env_def allocate_inner_def split: option.splits prod.splits)
  have dn: "i_done r = (key \<notin> fst ` set (items root))" using ins by (simp add: ins_ok_def)
  have "length (ins_list key val (items root)) = length (items root) + of_bool (i_done r)"
    using length_ins_list [OF s] dn by simp
  then have "bt_ok c t'" using cfg wf it sorted_ins_list [OF s] c' inn itc ic
    by (simp add: bt_ok_def t'_def re tree_items_def tree_leaves_def tree_ninner_def bt_size_def chain_stats)
  moreover have "points_at (tree_leaves t') (i_iter r) key"
    using env lv by (simp add: t'_def re tree_leaves_def ins_env_def)
  ultimately show ?thesis using it by (simp add: t'_def re tree_items_def)
qed

lemma bt_insert_spec:
  assumes ok: "bt_ok c t"
  shows "\<exists>t' it. bt_insert c t key val = Some (t', it, key \<notin> fst ` set (tree_items t)) \<and> bt_ok c t'
     \<and> tree_items t' = ins_list key val (tree_items t) \<and> points_at (tree_leaves t') it key"
proof -
  have cfg: "bcfg_ok c" using ok by (simp add: bt_ok_def)
  show ?thesis
  proof (cases "m_root t")
    case (Some root)
    have wf: "bt_wf c True root" "sorted_items (items root)" using ok Some by (auto simp: bt_ok_def tree_items_def)
    from insert_descend_spec [OF cfg this] obtain r where
      r: "insert_descend c (m_env t) root key val = Some r" "ins_ok c True root key val r" by metis
    have env: "ins_env (m_env t) root key r" by (rule insert_descend_env [OF cfg wf(1) r(1)])
    have o: "chain (m_env t) (leaf_addrs root)" "innernodes (m_stats (m_env t)) = ninner root"
      "itemcount (m_stats (m_env t)) = length (items root)"
      using ok Some by (auto simp: bt_ok_def tree_leaves_def tree_items_def tree_ninner_def leaf_addrs_list bt_size_def)
    have dn: "i_done r = (key \<notin> fst ` set (tree_items t))" using r(2) Some by (simp add: ins_ok_def tree_items_def)
    show ?thesis using insert_start_descend [OF cfg r env wf(2) o] dn Some r(1)
      by (simp add: bt_insert_def insert_start_def split_def Let_def tree_items_def)
  next
    case None
    define e where "e = (snd (allocate_leaf (m_env t))) \<lparr> m_headleaf := Some (fresh (m_env t)), m_tailleaf := Some (fresh (m_env t)) \<rparr>"
    define root :: "('a, 'b) bnode" where "root = Leaf (fresh (m_env t)) [] []"
    obtain r where r: "insert_descend c e root key val = Some r" "ins_ok c True root key val r"
      using insert_leaf_spec [OF cfg, of "[]" "[]" True "fresh (m_env t)" key val e] by (auto simp: root_def)
    have env: "ins_env e root key r"
      using r(1) cfg insert_leaf_env [of c "[]" "[]" e "fresh (m_env t)" key val] by (auto simp: root_def bcfg_ok_def)
    have o: "sorted_items (items root)" "chain e (leaf_addrs root)" "innernodes (m_stats e) = ninner root"
      "itemcount (m_stats e) = length (items root)"
      using ok None by (auto simp: root_def e_def allocate_leaf_def chain_def bt_ok_def tree_leaves_def tree_items_def tree_ninner_def bt_size_def)
    have dn: "i_done r = (key \<notin> fst ` set (tree_items t))" using r(2) None by (simp add: ins_ok_def root_def tree_items_def)
    have "fst (allocate_leaf (m_env t)) = fresh (m_env t)" by (simp add: allocate_leaf_def)
    then show ?thesis using insert_start_descend [OF cfg r env o] dn None r(1)
      by (simp add: bt_insert_def insert_start_def split_def Let_def tree_items_def root_def e_def del: insert_descend.simps)
  qed
qed

section \<open>Leaves by address\<close>

lemma fold_first:
  "List.fold (\<lambda>n r. case r of None \<Rightarrow> f n | Some x \<Rightarrow> Some x) cs acc
     = (case acc of Some x \<Rightarrow> Some x | None \<Rightarrow> List.fold (\<lambda>n r. case r of None \<Rightarrow> f n | Some x \<Rightarrow> Some x) cs None)"
proof (induction cs arbitrary: acc)
  case (Cons c cs)
  show ?case
  proof (cases acc)
    case (Some x) then show ?thesis using Cons [of "Some x"] by simp
  qed simp
qed (simp split: option.splits)

lemma leaf_at_map_of: "leaf_at n b = map_of (leaf_list n) b"
proof (induction n)
  case (Inner l ks cs)
  have "List.fold (\<lambda>n r. case r of None \<Rightarrow> leaf_at n b | Some x \<Rightarrow> Some x) cs None = map_of (concat (map leaf_list cs)) b"
    using Inner
  proof (induction cs)
    case (Cons c cs)
    then have "List.fold (\<lambda>n r. case r of None \<Rightarrow> leaf_at n b | Some x \<Rightarrow> Some x) cs None = map_of (concat (map leaf_list cs)) b"
      by simp
    then show ?case using Cons.prems fold_first [of "\<lambda>n. leaf_at n b" cs "leaf_at c b"]
      by (simp add: map_add_def split: option.splits)
  qed simp
  then show ?case by simp
qed auto

lemma get_leaf_tree: "get_leaf t b = map_of (tree_leaves t) b"
  by (simp add: get_leaf_def tree_leaves_def leaf_at_map_of split: option.splits)

lemma tree_items_leaves: "tree_items t = concat (map (\<lambda>(a, ks, vs). zip ks vs) (tree_leaves t))"
  by (simp add: tree_items_def tree_leaves_def items_leaf_list split: option.splits)

lemma bt_ok_leaf:
  assumes "bt_ok c t" "(a, ks, vs) \<in> set (tree_leaves t)"
  shows "get_leaf t a = Some (ks, vs) \<and> length vs = length ks \<and> 0 < length ks"
  using assms tree_leaves_wf by (fastforce simp: get_leaf_tree bt_ok_def chain_def tree_leaves_def split: option.splits)

lemma bt_ok_links:
  assumes "bt_ok c t" "tree_leaves t = pre @ (a, ks, vs) # post"
  shows "nextleaf (m_env t) a = (case post of [] \<Rightarrow> None | (b, _) # _ \<Rightarrow> Some b)"
    and "prevleaf (m_env t) a = last_or None (map fst pre)"
  using assms by (auto simp: bt_ok_def chain_def linked_append split: list.splits)

lemma points_at_key: "bt_ok c t \<Longrightarrow> points_at (tree_leaves t) it key \<Longrightarrow> iter_key t it = Some key"
  by (auto simp: points_at_def iter_key_def get_def dest: bt_ok_leaf)

section \<open>Iterators\<close>

text \<open>The items from an iterator on. An iterator stands behind the last slot of a leaf only at the end.\<close>

definition rest_is :: "('k, 'v) btree \<Rightarrow> iter \<Rightarrow> ('k \<times> 'v) list \<Rightarrow> bool" where
  "rest_is t it xs \<longleftrightarrow> (\<exists>pre a ks vs post j. tree_leaves t = pre @ (a, ks, vs) # post \<and> it = (Some a, j) \<and> j \<le> length ks
     \<and> (j = length ks \<longrightarrow> post = []) \<and> xs = drop j (zip ks vs) @ concat (map (\<lambda>(a, ks, vs). zip ks vs) post))"

lemma rest_is_I:
  "tree_leaves t = pre @ (a, ks, vs) # post \<Longrightarrow> j \<le> length ks \<Longrightarrow> (j = length ks \<Longrightarrow> post = [])
   \<Longrightarrow> xs = drop j (zip ks vs) @ concat (map (\<lambda>(a, ks, vs). zip ks vs) post) \<Longrightarrow> rest_is t (Some a, j) xs"
  unfolding rest_is_def by blast

lemma iter_end_rest:
  assumes ok: "bt_ok c t" and ne: "tree_leaves t \<noteq> []"
  shows "\<exists>it. iter_end t = Some it \<and> rest_is t it []"
proof -
  obtain pre a ks vs where l: "tree_leaves t = pre @ [(a, ks, vs)]"
    using ne by (metis prod_cases3 rev_exhaust)
  have "get_leaf t a = Some (ks, vs)" "length vs = length ks" using bt_ok_leaf [OF ok] l by auto
  moreover have "m_tailleaf (m_env t) = Some a" using ok l by (simp add: bt_ok_def chain_def)
  moreover have "rest_is t (Some a, length ks) []" by (rule rest_is_I [OF l]) (simp_all add: calculation)
  ultimately show ?thesis by (simp add: iter_end_def)
qed

lemma rest_is_end:
  assumes ok: "bt_ok c t" and r: "rest_is t it xs" and e: "iter_end t = Some stop"
  shows "iter_eq it stop \<longleftrightarrow> xs = []"
proof -
  obtain pre a ks vs post j where l: "tree_leaves t = pre @ (a, ks, vs) # post" "it = (Some a, j)" "j \<le> length ks"
    "j = length ks \<longrightarrow> post = []" "xs = drop j (zip ks vs) @ concat (map (\<lambda>(a, ks, vs). zip ks vs) post)"
    using r unfolding rest_is_def by metis
  obtain pre' b ks' vs' where l': "tree_leaves t = pre' @ [(b, ks', vs')]"
    using l(1) by (metis prod_cases3 rev_exhaust snoc_eq_iff_butlast append_is_Nil_conv list.distinct(1))
  have b: "get_leaf t b = Some (ks', vs')" "length vs' = length ks'" using bt_ok_leaf [OF ok] l' by auto
  have a: "get_leaf t a = Some (ks, vs)" "length vs = length ks" using bt_ok_leaf [OF ok] l by auto
  have "m_tailleaf (m_env t) = Some b" using ok l' by (simp add: bt_ok_def chain_def)
  then have stop: "stop = (Some b, length ks')" using e b by (simp add: iter_end_def)
  show ?thesis
  proof (cases "post = []")
    case True
    then have "b = a" "ks' = ks" using l(1) l' by auto
    then show ?thesis using l a True by (auto simp: iter_eq_def stop)
  next
    case False
    then have "b \<in> fst ` set post" using l(1) l' by (cases post rule: rev_cases) auto
    moreover have "distinct (map fst (tree_leaves t))" using ok by (simp add: bt_ok_def chain_def)
    ultimately have "b \<noteq> a" using l(1) by auto
    then show ?thesis using l a False by (auto simp: iter_eq_def stop)
  qed
qed

lemma rest_is_step:
  assumes ok: "bt_ok c t" and r: "rest_is t it (x # xs)"
  shows "iter_deref t it = Some x \<and> (\<exists>it'. iter_incr t it = Some it' \<and> rest_is t it' xs)"
proof -
  obtain pre a ks vs post j where l: "tree_leaves t = pre @ (a, ks, vs) # post" "it = (Some a, j)" "j \<le> length ks"
    "j = length ks \<longrightarrow> post = []" "x # xs = drop j (zip ks vs) @ concat (map (\<lambda>(a, ks, vs). zip ks vs) post)"
    using r unfolding rest_is_def by metis
  have a: "get_leaf t a = Some (ks, vs)" "length vs = length ks" using bt_ok_leaf [OF ok] l by auto
  have j: "j < length ks" using l(3,4,5) a(2) by (cases "j = length ks") auto
  then have d: "drop j (zip ks vs) = (ks ! j, vs ! j) # drop (Suc j) (zip ks vs)"
    using a(2) by (subst Cons_nth_drop_Suc [symmetric]) auto
  have x: "x = (ks ! j, vs ! j)" "xs = drop (Suc j) (zip ks vs) @ concat (map (\<lambda>(a, ks, vs). zip ks vs) post)"
    using l(5) d by auto
  have deref: "iter_deref t it = Some x"
    using a j by (simp add: iter_deref_def iter_key_def iter_data_def l(2) get_def x(1))
  have nx: "nextleaf (m_env t) a = (case post of [] \<Rightarrow> None | (b, _) # _ \<Rightarrow> Some b)" by (rule bt_ok_links [OF ok l(1)])
  show ?thesis
  proof (cases "Suc j < length ks \<or> post = []")
    case True
    then have "iter_incr t it = Some (Some a, Suc j)" using a j l(2) nx by (auto simp: iter_incr_def)
    moreover have "rest_is t (Some a, Suc j) xs"
      unfolding rest_is_def by (rule exI [of _ pre], intro exI [of _ a] exI [of _ ks] exI [of _ vs] exI [of _ post] exI [of _ "Suc j"])
        (use l x j True in auto)
    ultimately show ?thesis using deref by simp
  next
    case False
    then obtain b ks' vs' post' where p: "post = (b, ks', vs') # post'" by (cases post) auto
    have ne: "0 < length ks'" using bt_ok_leaf [OF ok] l p by auto
    have "iter_incr t it = Some (Some b, 0)" using a j l(2) nx False p by (simp add: iter_incr_def)
    moreover have "rest_is t (Some b, 0) xs" unfolding rest_is_def
      by (rule exI [of _ "pre @ [(a, ks, vs)]"], intro exI [of _ b] exI [of _ ks'] exI [of _ vs'] exI [of _ post'] exI [of _ 0])
        (use l x j False p ne a in auto)
    ultimately show ?thesis using deref by simp
  qed
qed

lemma walk_rest:
  assumes ok: "bt_ok c t" and e: "iter_end t = Some stop"
  shows "rest_is t it xs \<Longrightarrow> length xs \<le> fuel \<Longrightarrow> walk t fuel it stop = Some xs"
proof (induction xs arbitrary: it fuel)
  case Nil
  then have "iter_eq it stop" using rest_is_end [OF ok _ e] by simp
  then show ?case by (cases fuel) auto
next
  case (Cons x xs)
  then obtain f where f: "fuel = Suc f" by (cases fuel) auto
  have "\<not> iter_eq it stop" using rest_is_end [OF ok Cons.prems(1) e] by simp
  then show ?case using rest_is_step [OF ok Cons.prems(1)] Cons.IH Cons.prems(2) by (auto simp: f)
qed

lemma iter_begin_rest: "bt_ok c t \<Longrightarrow> tree_leaves t \<noteq> [] \<Longrightarrow> rest_is t (iter_begin t) (tree_items t)"
proof -
  assume ok: "bt_ok c t" and ne: "tree_leaves t \<noteq> []"
  then obtain a ks vs post where l: "tree_leaves t = (a, ks, vs) # post" by (metis list.exhaust prod_cases3)
  have "m_headleaf (m_env t) = Some a" using ok l by (simp add: bt_ok_def chain_def)
  moreover have "0 < length ks" using bt_ok_leaf [OF ok] l by auto
  moreover have "rest_is t (Some a, 0) (tree_items t)"
    by (rule rest_is_I [of _ "[]"]) (use l calculation in \<open>simp_all add: tree_items_leaves\<close>)
  ultimately show ?thesis by (simp add: iter_begin_def)
qed

lemma bt_items_spec: "bt_ok c t \<Longrightarrow> bt_items t = Some (tree_items t)"
proof (cases "tree_leaves t = []")
  case True
  assume ok: "bt_ok c t"
  then have "m_tailleaf (m_env t) = None" "m_headleaf (m_env t) = None" using True by (auto simp: bt_ok_def chain_def)
  moreover have "tree_items t = []" using True by (simp add: tree_items_leaves)
  ultimately show ?thesis using ok by (simp add: bt_items_def iter_end_def iter_begin_def iter_eq_def bt_ok_def)
next
  case False
  assume ok: "bt_ok c t"
  obtain stop where "iter_end t = Some stop" using iter_end_rest [OF ok False] by blast
  then show ?thesis using walk_rest [OF ok _ iter_begin_rest [OF ok False]] ok by (simp add: bt_items_def bt_ok_def)
qed

lemma walk_short:
  assumes ok: "bt_ok c t" and e: "iter_end t = Some stop"
  shows "rest_is t it xs \<Longrightarrow> fuel < length xs \<Longrightarrow> walk t fuel it stop = None"
proof (induction xs arbitrary: it fuel)
  case (Cons x xs)
  have ne: "\<not> iter_eq it stop" using rest_is_end [OF ok Cons.prems(1) e] by simp
  from rest_is_step [OF ok Cons.prems(1)] obtain it' where
    s: "iter_deref t it = Some x" "iter_incr t it = Some it'" "rest_is t it' xs" by blast
  show ?case
  proof (cases fuel)
    case (Suc f)
    then have "walk t f it' stop = None" using Cons.IH [OF s(3)] Cons.prems(2) by simp
    then show ?thesis using ne s Suc by simp
  qed (use ne in simp)
qed simp

lemma walk_rounds:
  assumes ok: "bt_ok c t"
  shows "\<exists>stop. iter_end t = Some stop \<and> (\<forall>fuel. walk t fuel (iter_begin t) stop = (if bt_size t \<le> fuel then Some (tree_items t) else None))"
proof (cases "tree_leaves t = []")
  case True
  then have e: "m_tailleaf (m_env t) = None" "m_headleaf (m_env t) = None" using ok by (auto simp: bt_ok_def chain_def)
  have "tree_items t = []" using True by (simp add: tree_items_leaves)
  then have "bt_size t = 0" "tree_items t = []" using ok by (simp_all add: bt_ok_def)
  moreover have "walk t fuel (None, 0) (None, 0) = Some []" for fuel by (cases fuel) (simp_all add: iter_eq_def)
  ultimately show ?thesis using e by (simp add: iter_end_def iter_begin_def)
next
  case False
  obtain stop where e: "iter_end t = Some stop" using iter_end_rest [OF ok False] by blast
  note r = iter_begin_rest [OF ok False]
  have "bt_size t = length (tree_items t)" using ok by (simp add: bt_ok_def)
  then show ?thesis using walk_rest [OF ok e r] walk_short [OF ok e r] e by simp
qed

end
