(* ===== verification/BTree_Lookup.thy ===== *)
theory BTree_Lookup
  imports BTree_Links
begin

text \<open>
  The lookups of the tree: all of them descend with one of the two searches within a node. What the searches
  have in common is the locale \<open>node_search\<close>: \<open>srch\<close> returns the first slot whose key is not before the place
  looked for. Its lemmas give the iterator a lookup returns, by the items from it on.
\<close>

section \<open>The searches within a node\<close>

abbreviation leaf_items :: "(addr \<times> 'k list \<times> 'v list) list \<Rightarrow> ('k \<times> 'v) list" where
  "leaf_items ls \<equiv> concat (map (\<lambda>(a, ks, vs). zip ks vs) ls)"

lemma leaf_items_concat: "leaf_items (concat (map leaf_list cs)) = concat (map items cs)"
proof (induction cs)
  case (Cons c cs)
  then show ?case using items_leaf_list [of c] by (simp del: items.simps)
qed simp

lemma drop_filter:
  assumes "length vs = length ks" "j \<le> length ks" "\<And>i. i < j \<Longrightarrow> \<not> P (ks ! i)" "\<And>i. j \<le> i \<Longrightarrow> i < length ks \<Longrightarrow> P (ks ! i)"
  shows "drop j (zip ks vs) = filter (\<lambda>x. P (fst x)) (zip ks vs)"
proof -
  have "filter (\<lambda>x. P (fst x)) (take j (zip ks vs)) = []"
    using assms(1-3) by (auto simp: filter_empty_conv in_set_conv_nth)
  moreover have "filter (\<lambda>x. P (fst x)) (drop j (zip ks vs)) = drop j (zip ks vs)"
    using assms(1,2,4) by (auto simp: filter_id_conv in_set_conv_nth)
  ultimately show ?thesis by (metis append_Nil append_take_drop_id filter_append)
qed

locale node_search =
  fixes srch :: "'k::linorder list \<Rightarrow> 'k \<Rightarrow> nat" and key :: 'k and bef :: "'k \<Rightarrow> bool"
  assumes srch_le: "srch ks key \<le> length ks"
    and srch_bef: "j < srch ks key \<Longrightarrow> bef (ks ! j)"
    and srch_not: "srch ks key < length ks \<Longrightarrow> \<not> bef (ks ! srch ks key)"
    and bef_mono: "x \<le> y \<Longrightarrow> bef y \<Longrightarrow> bef x"
begin

lemma search_child:
  assumes wf: "bt_wf c root (Inner l ks cs)" and s: "sorted_items (items (Inner l ks cs))"
  defines "i \<equiv> srch ks key"
  shows "i < length cs" "bt_wf c False (cs ! i)" "sorted_items (items (cs ! i))"
    "\<forall>x \<in> set (concat (map items (take i cs))). bef (fst x)"
    "\<forall>x \<in> set (concat (map items (drop (Suc i) cs))). \<not> bef (fst x)"
proof -
  show ic: "i < length cs" using wf srch_le [of ks] by (auto simp: seps_def i_def)
  then show "bt_wf c False (cs ! i)" using wf by simp
  have sep: "ks ! j = last_key (cs ! j)" if "j < length ks" for j using wf that by (simp add: seps_def)
  note sp = s [unfolded items_split [OF ic]]
  show si: "sorted_items (items (cs ! i))" using sp by (simp add: sorted_wrt_append)
  have srt: "sorted_items (items (cs ! j))" if "j < length cs" for j
    using s items_split [OF that, of l ks] by (simp add: sorted_wrt_append)
  show "\<forall>x \<in> set (concat (map items (take i cs))). bef (fst x)"
  proof
    fix x assume "x \<in> set (concat (map items (take i cs)))"
    then obtain n where n: "n \<in> set (take i cs)" "x \<in> set (items n)" by auto
    from n(1) obtain j where "j < i" "n = cs ! j" using ic by (auto simp: in_set_conv_nth)
    with n have j: "j < i" "x \<in> set (items (cs ! j))" by auto
    have jc: "j < length cs" "j < length ks" using j ic srch_le [of ks] by (auto simp: i_def)
    have "fst x \<le> last_key (cs ! j)" unfolding last_key_def by (rule last_greatest [OF srt [OF jc(1)] j(2)])
    then show "bef (fst x)" using bef_mono srch_bef [of j ks] j(1) sep [OF jc(2)] by (simp add: i_def)
  qed
  show "\<forall>x \<in> set (concat (map items (drop (Suc i) cs))). \<not> bef (fst x)"
  proof (cases "i < length ks")
    case True
    have w: "bt_wf c False (cs ! i)" using wf ic by simp
    have "last (items (cs ! i)) \<in> set (items (cs ! i))" using bt_wf_items [OF w] by simp
    then have "\<forall>x \<in> set (concat (map items (drop (Suc i) cs))). ks ! i < fst x"
      using sp sep [OF True] unfolding last_key_def by (auto simp: sorted_wrt_append)
    then show ?thesis using srch_not [of ks] bef_mono True unfolding i_def by (meson less_imp_le)
  next
    case False
    then have "drop (Suc i) cs = []" using wf srch_le [of ks] by (simp add: seps_def i_def)
    then show ?thesis by simp
  qed
qed

lemma descend_leaf:
  assumes "bt_wf c root n" "sorted_items (items n)"
  shows "\<exists>a ks vs pre post. descend srch key n = Some (a, ks, vs) \<and> leaf_list n = pre @ (a, ks, vs) # post
    \<and> length vs = length ks \<and> 0 < length ks \<and> (\<forall>x \<in> set (leaf_items pre). bef (fst x))
    \<and> (\<forall>x \<in> set (leaf_items post). \<not> bef (fst x)) \<and> (srch ks key = length ks \<longrightarrow> post = [])"
  using assms
proof (induction n arbitrary: root)
  case (Leaf a ks vs)
  then show ?case by (intro exI [of _ a] exI [of _ ks] exI [of _ vs] exI [of _ "[]"]) simp
next
  case (Inner l ks cs)
  let ?i = "srch ks key"
  note b = search_child [OF Inner.prems]
  from Inner.IH [OF nth_mem [OF b(1)] b(2,3)] obtain a ks' vs' pre post where
    r: "descend srch key (cs ! ?i) = Some (a, ks', vs')" "leaf_list (cs ! ?i) = pre @ (a, ks', vs') # post"
      "length vs' = length ks'" "0 < length ks'" "\<forall>x \<in> set (leaf_items pre). bef (fst x)"
      "\<forall>x \<in> set (leaf_items post). \<not> bef (fst x)" "srch ks' key = length ks' \<longrightarrow> post = []" by blast
  let ?pre = "concat (map leaf_list (take ?i cs)) @ pre" and ?post = "post @ concat (map leaf_list (drop (Suc ?i) cs))"
  have "leaf_list (Inner l ks cs) = ?pre @ (a, ks', vs') # ?post"
    using concat_split [of ?i "map leaf_list cs"] b(1) r(2) by (simp add: take_map drop_map)
  moreover have "?post = []" if f: "srch ks' key = length ks'"
  proof (cases "?i < length ks")
    case True
    have p: "post = []" using r(7) f by simp
    have "items (cs ! ?i) = leaf_items pre @ zip ks' vs'" using r(2) p items_leaf_list [of "cs ! ?i"] by simp
    moreover have "zip ks' vs' \<noteq> []" using r(3,4) by (metis length_0_conv length_zip less_numeral_extra(3) min.idem)
    ultimately have "last_key (cs ! ?i) = fst (last (zip ks' vs'))" by (simp add: last_key_def)
    also have "\<dots> = ks' ! (length ks' - 1)" using r(3,4) by (subst last_conv_nth) (auto simp: min_def)
    finally have "bef (last_key (cs ! ?i))" using srch_bef [of "length ks' - 1" ks'] f r(4) by simp
    moreover have "ks ! ?i = last_key (cs ! ?i)" using Inner.prems(1) True by (simp add: seps_def)
    ultimately show ?thesis using srch_not [OF True] by simp
  next
    case False
    then show ?thesis using r(7) f srch_le [of ks] Inner.prems(1) by (simp add: seps_def)
  qed
  moreover have "\<forall>x \<in> set (leaf_items ?pre). bef (fst x)" "\<forall>x \<in> set (leaf_items ?post). \<not> bef (fst x)"
    using r(5,6) b(4,5) by (simp_all add: leaf_items_concat ball_Un del: set_concat)
  ultimately show ?case using r(1,3,4) b(1)
    by (intro exI [of _ a] exI [of _ ks'] exI [of _ vs'] exI [of _ ?pre] exI [of _ ?post]) simp
qed

lemma search_rest:
  assumes ok: "bt_ok c t" and r: "m_root t = Some n"
  shows "\<exists>a ks vs. descend srch key n = Some (a, ks, vs) \<and> (a, ks, vs) \<in> set (tree_leaves t)
    \<and> rest_is t (Some a, srch ks key) (filter (\<lambda>x. \<not> bef (fst x)) (tree_items t))"
proof -
  have wf: "bt_wf c True n" "sorted_items (items n)" using ok r by (auto simp: bt_ok_def tree_items_def)
  from descend_leaf [OF this] obtain a ks vs pre post where
    d: "descend srch key n = Some (a, ks, vs)" "leaf_list n = pre @ (a, ks, vs) # post" "length vs = length ks"
      "\<forall>x \<in> set (leaf_items pre). bef (fst x)" "\<forall>x \<in> set (leaf_items post). \<not> bef (fst x)"
      "srch ks key = length ks \<longrightarrow> post = []" by blast
  have tl: "tree_leaves t = pre @ (a, ks, vs) # post" using d(2) r by (simp add: tree_leaves_def)
  have it: "tree_items t = leaf_items pre @ zip ks vs @ leaf_items post" using tl by (simp add: tree_items_leaves)
  have "sorted_items (zip ks vs)" using wf(2) items_leaf_list [of n] d(2) by (simp add: sorted_wrt_append)
  then have sk: "sorted_wrt (<) ks" using d(3) by simp
  have "\<not> bef (ks ! i)" if "srch ks key \<le> i" "i < length ks" for i
  proof -
    have "ks ! srch ks key \<le> ks ! i" using sk that by (cases "i = srch ks key") (auto simp: sorted_wrt_iff_nth_less intro: less_imp_le)
    then show ?thesis using srch_not [of ks] bef_mono that by force
  qed
  then have z: "drop (srch ks key) (zip ks vs) = filter (\<lambda>x. \<not> bef (fst x)) (zip ks vs)"
    by (intro drop_filter) (use d(3) srch_le srch_bef in auto)
  have "filter (\<lambda>x. \<not> bef (fst x)) (leaf_items pre) = []" using d(4) by (simp add: filter_empty_conv del: set_concat)
  moreover have "filter (\<lambda>x. \<not> bef (fst x)) (leaf_items post) = leaf_items post" using d(5) by (simp add: filter_id_conv del: set_concat)
  ultimately have "rest_is t (Some a, srch ks key) (filter (\<lambda>x. \<not> bef (fst x)) (tree_items t))"
    unfolding it filter_append z [symmetric] append_Nil
    by (intro rest_is_I [OF tl] srch_le) (use d(6) in auto)
  then show ?thesis using d(1) tl by (intro exI [of _ a] exI [of _ ks] exI [of _ vs]) simp
qed

end

interpretation lower: node_search find_lower key "\<lambda>x. x < key" for key :: "'k::linorder"
  by unfold_locales (use find_lower_ge in \<open>auto simp: find_lower_le find_lower_less not_less\<close>)

interpretation upper: node_search find_upper key "\<lambda>x. x \<le> key" for key :: "'k::linorder"
  by unfold_locales (use find_upper_gt in \<open>auto simp: find_upper_le find_upper_less not_le\<close>)

section \<open>Lookups\<close>

lemma tree_leaves_Nil: "bt_ok c t \<Longrightarrow> tree_leaves t = [] \<longleftrightarrow> m_root t = None"
proof -
  assume ok: "bt_ok c t"
  have "leaf_list r \<noteq> []" if "m_root t = Some r" for r
    using bt_wf_addrs [of c True r] that ok by (auto simp: bt_ok_def leaf_addrs_list)
  then show ?thesis by (auto simp: tree_leaves_def split: option.splits)
qed

text \<open>The leaf the lower search descends to holds the key, if the tree does.\<close>

lemma lower_leaf:
  assumes ok: "bt_ok c t" and r: "m_root t = Some n"
  shows "\<exists>a ks vs. descend find_lower key n = Some (a, ks, vs) \<and> (a, ks, vs) \<in> set (tree_leaves t)
    \<and> rest_is t (Some a, find_lower ks key) (filter (\<lambda>x. key \<le> fst x) (tree_items t))
    \<and> (find_lower ks key < length ks \<and> key = ks ! find_lower ks key \<longleftrightarrow> key \<in> fst ` set (tree_items t))"
proof -
  from lower.search_rest [OF ok r, of key] obtain a ks vs where
    d: "descend find_lower key n = Some (a, ks, vs)" "(a, ks, vs) \<in> set (tree_leaves t)"
      "rest_is t (Some a, find_lower ks key) (filter (\<lambda>x. key \<le> fst x) (tree_items t))" by (auto simp: not_less)
  let ?i = "find_lower ks key" and ?xs = "filter (\<lambda>x. key \<le> fst x) (tree_items t)"
  have g: "get_leaf t a = Some (ks, vs)" "length vs = length ks" using bt_ok_leaf [OF ok d(2)] by auto
  have s: "sorted_items (tree_items t)" using ok by (simp add: bt_ok_def)
  have "?i < length ks \<and> key = ks ! ?i \<longleftrightarrow> key \<in> fst ` set ?xs"
  proof (cases ?xs)
    case Nil
    have ne: "tree_leaves t \<noteq> []" using tree_leaves_Nil [OF ok] r by simp
    obtain stop where stop: "iter_end t = Some stop" using iter_end_rest [OF ok ne] by blast
    then have "iter_eq (Some a, ?i) stop" using rest_is_end [OF ok d(3)] Nil by simp
    moreover obtain it where "iter_end t = Some it" "rest_is t it []" using iter_end_rest [OF ok ne] by blast
    ultimately have "rest_is t (Some a, ?i) []" using stop by (cases stop) (auto simp: iter_eq_def)
    then obtain pre ks' vs' post where p: "tree_leaves t = pre @ (a, ks', vs') # post" "?i \<le> length ks'"
      "drop ?i (zip ks' vs') = []" by (auto simp: rest_is_def)
    then have "get_leaf t a = Some (ks', vs')" "length vs' = length ks'" using bt_ok_leaf [OF ok] by auto
    then show ?thesis using p(2,3) g Nil by simp
  next
    case (Cons x xs)
    have "iter_deref t (Some a, ?i) = Some x" using rest_is_step [OF ok] d(3) Cons by simp
    then have x: "?i < length ks" "fst x = ks ! ?i"
      using g by (auto simp: iter_deref_def iter_key_def iter_data_def get_def bind_eq_Some_conv split: if_splits)
    have "sorted_items ?xs" using s by (simp add: sorted_wrt_map sorted_wrt_filter)
    then have "\<forall>y \<in> set xs. fst x < fst y" by (simp add: Cons)
    moreover have "key \<le> fst x" using Cons by (metis (mono_tags, lifting) list.set_intros(1) mem_Collect_eq set_filter)
    ultimately show ?thesis using x by (auto simp: Cons)
  qed
  also have "\<dots> \<longleftrightarrow> key \<in> fst ` set (tree_items t)" by auto
  finally show ?thesis using d by blast
qed

lemma bt_exists_spec: "bt_ok c t \<Longrightarrow> bt_exists t key = Some (key \<in> fst ` set (tree_items t))"
proof (cases "m_root t")
  case (Some n)
  assume "bt_ok c t"
  from lower_leaf [OF this Some, of key] obtain a ks vs where
    "descend find_lower key n = Some (a, ks, vs)"
    "find_lower ks key < length ks \<and> key = ks ! find_lower ks key \<longleftrightarrow> key \<in> fst ` set (tree_items t)" by blast
  then show ?thesis using Some by (simp only: bt_exists_def option.case bind.simps prod.case Let_def)
qed (simp add: bt_exists_def tree_items_def)

lemma map_of_filter_first:
  "sorted_items xs \<Longrightarrow> filter (\<lambda>x. k \<le> fst x) xs = y # ys \<Longrightarrow> fst y = k \<Longrightarrow> map_of xs k = Some (snd y)"
proof (induction xs)
  case (Cons x xs)
  show ?case
  proof (cases "k \<le> fst x")
    case True
    then show ?thesis using Cons.prems by (cases x) auto
  next
    case False
    then show ?thesis using Cons by (cases x) auto
  qed
qed simp

lemma bt_find_spec:
  assumes ok: "bt_ok c t"
  shows "case map_of (tree_items t) key of None \<Rightarrow> bt_find t key = iter_end t
    | Some v \<Rightarrow> \<exists>it. bt_find t key = Some it \<and> iter_deref t it = Some (key, v)"
proof (cases "m_root t")
  case (Some n)
  from lower_leaf [OF ok Some, of key] obtain a ks vs where
    d: "descend find_lower key n = Some (a, ks, vs)" "(a, ks, vs) \<in> set (tree_leaves t)"
    "rest_is t (Some a, find_lower ks key) (filter (\<lambda>x. key \<le> fst x) (tree_items t))"
    "find_lower ks key < length ks \<and> key = ks ! find_lower ks key \<longleftrightarrow> key \<in> fst ` set (tree_items t)" by blast
  show ?thesis
  proof (cases "key \<in> fst ` set (tree_items t)")
    case True
    then have k: "find_lower ks key < length ks" "key = ks ! find_lower ks key" using d(4) by auto
    have "filter (\<lambda>x. key \<le> fst x) (tree_items t) \<noteq> []" using True by (auto simp: filter_empty_conv)
    then obtain x xs where x: "filter (\<lambda>x. key \<le> fst x) (tree_items t) = x # xs" by (cases "filter (\<lambda>x. key \<le> fst x) (tree_items t)") auto
    have dr: "iter_deref t (Some a, find_lower ks key) = Some x" using rest_is_step [OF ok] d(3) x by simp
    have "get_leaf t a = Some (ks, vs)" "length vs = length ks" using bt_ok_leaf [OF ok d(2)] by auto
    then have "fst x = key" using dr k by (auto simp: iter_deref_def iter_key_def iter_data_def get_def)
    moreover have "map_of (tree_items t) key = Some (snd x)"
      using map_of_filter_first [OF _ x] calculation ok by (simp add: bt_ok_def)
    ultimately show ?thesis using dr d(1) k Some by (cases x) (simp add: bt_find_def Let_def)
  next
    case False
    then have "map_of (tree_items t) key = None" by (simp add: map_of_eq_None_iff)
    moreover have "\<not> (find_lower ks key < length ks \<and> key = ks ! find_lower ks key)" using False d(4) by simp
    ultimately show ?thesis using d(1) Some by (auto simp: bt_find_def Let_def)
  qed
qed (simp add: bt_find_def tree_items_def)

text \<open>The items from a bound to the end of the tree.\<close>

definition items_from :: "('k, 'v) btree \<Rightarrow> iter option \<Rightarrow> ('k \<times> 'v) list option" where
  "items_from t it = do { it \<leftarrow> it; stop \<leftarrow> iter_end t; walk t (bt_size t) it stop }"

lemma items_from_rest:
  assumes ok: "bt_ok c t" and r: "rest_is t it (filter P (tree_items t))" and m: "m_root t = Some n"
  shows "items_from t (Some it) = Some (filter P (tree_items t))"
proof -
  have ne: "tree_leaves t \<noteq> []" using tree_leaves_Nil [OF ok] m by simp
  obtain stop where stop: "iter_end t = Some stop" using iter_end_rest [OF ok ne] by blast
  have "length (filter P (tree_items t)) \<le> bt_size t" using ok by (simp add: bt_ok_def)
  then show ?thesis using walk_rest [OF ok stop r] stop by (simp add: items_from_def)
qed

lemma items_from_end: "m_root t = None \<Longrightarrow> bt_ok c t \<Longrightarrow> items_from t (iter_end t) = Some []"
  using tree_leaves_Nil [of c t]
  by (auto simp: items_from_def iter_end_def bt_ok_def chain_def tree_items_def iter_eq_def)

lemma bt_lower_bound_spec:
  assumes ok: "bt_ok c t"
  shows "items_from t (bt_lower_bound t key) = Some (filter (\<lambda>x. key \<le> fst x) (tree_items t))"
proof (cases "m_root t")
  case None
  then show ?thesis using items_from_end [OF None ok] by (simp add: bt_lower_bound_def tree_items_def)
next
  case (Some n)
  from lower.search_rest [OF ok Some, of key] show ?thesis
    using Some by (auto simp: bt_lower_bound_def not_less intro: items_from_rest [OF ok _ Some])
qed

lemma bt_upper_bound_spec:
  assumes ok: "bt_ok c t"
  shows "items_from t (bt_upper_bound t key) = Some (filter (\<lambda>x. key < fst x) (tree_items t))"
proof (cases "m_root t")
  case None
  then show ?thesis using items_from_end [OF None ok] by (simp add: bt_upper_bound_def tree_items_def)
next
  case (Some n)
  from upper.search_rest [OF ok Some, of key] show ?thesis
    using Some by (auto simp: bt_upper_bound_def not_le intro: items_from_rest [OF ok _ Some])
qed

lemma count_loop_stop:
  "get_leaf t a = Some (ks, vs) \<Longrightarrow> \<not> (i < length ks \<and> key = ks ! i) \<Longrightarrow> count_loop t key (Suc f) a i n = Some n"
  by (simp only: count_loop.simps bind.simps prod.case if_False)

lemma bt_count_spec:
  assumes ok: "bt_ok c t"
  shows "bt_count t key = Some (of_bool (key \<in> fst ` set (tree_items t)))"
proof (cases "m_root t")
  case (Some n)
  from lower_leaf [OF ok Some, of key] obtain a ks vs where
    d: "descend find_lower key n = Some (a, ks, vs)" "(a, ks, vs) \<in> set (tree_leaves t)"
    "rest_is t (Some a, find_lower ks key) (filter (\<lambda>x. key \<le> fst x) (tree_items t))"
    "find_lower ks key < length ks \<and> key = ks ! find_lower ks key \<longleftrightarrow> key \<in> fst ` set (tree_items t)" by blast
  let ?i = "find_lower ks key"
  have g: "get_leaf t a = Some (ks, vs)" "length vs = length ks" using bt_ok_leaf [OF ok d(2)] by auto
  have s: "sorted_items (tree_items t)" using ok by (simp add: bt_ok_def)
  have run: "bt_count t key = count_loop t key (Suc (Suc (bt_size t))) a ?i 0" using Some d(1) by (simp add: bt_count_def)
  show ?thesis
  proof (cases "key \<in> fst ` set (tree_items t)")
    case False
    then have "\<not> (?i < length ks \<and> key = ks ! ?i)" using d(4) by simp
    then show ?thesis unfolding run using count_loop_stop [OF g(1)] False by simp
  next
    case True
    then have k: "?i < length ks" "key = ks ! ?i" using d(4) by auto
    obtain pre post where l: "tree_leaves t = pre @ (a, ks, vs) # post" using d(2) by (meson split_list)
    have srt: "sorted_items (leaf_items pre @ zip ks vs @ leaf_items post)" using s l by (simp add: tree_items_leaves)
    then have sk: "sorted_wrt (<) ks" using g(2) by (simp add: sorted_wrt_append)
    show ?thesis
    proof (cases "Suc ?i < length ks")
      case True
      then have "key < ks ! Suc ?i" using sk k(2) by (metis lessI sorted_wrt_iff_nth_less)
      then have "count_loop t key (Suc (bt_size t)) a (Suc ?i) 1 = Some 1"
        by (intro count_loop_stop [OF g(1)]) auto
      then show ?thesis unfolding run using g k True \<open>key \<in> fst ` set (tree_items t)\<close> by (simp del: count_loop.simps(2) add: count_loop.simps(2) [of t key "Suc (bt_size t)"])
    next
      case lst: False
      note nx = bt_ok_links(1) [OF ok l]
      show ?thesis
      proof (cases post)
        case Nil
        then show ?thesis unfolding run using g k lst nx True
          by (simp del: count_loop.simps(2) add: count_loop.simps(2) [of t key "Suc (bt_size t)"])
      next
        case (Cons p post')
        obtain b ks' vs' where p: "p = (b, ks', vs')" by (cases p)
        have g': "get_leaf t b = Some (ks', vs')" "length vs' = length ks'" "0 < length ks'"
          using bt_ok_leaf [OF ok] l Cons p by auto
        have "(ks ! ?i, vs ! ?i) \<in> set (zip ks vs)" "(ks' ! 0, vs' ! 0) \<in> set (zip ks' vs')"
          using k(1) g(2) g' by (auto simp: in_set_zip)
        moreover have "\<forall>x \<in> set (zip ks vs). \<forall>y \<in> set (zip ks' vs'). fst x < fst y"
          using srt unfolding Cons p sorted_items_append list.map concat.simps prod.case set_append by blast
        ultimately have "key < ks' ! 0" using k(2) by fastforce
        then have "count_loop t key (Suc (bt_size t)) b 0 1 = Some 1"
          by (intro count_loop_stop [OF g'(1)]) auto
        then show ?thesis unfolding run using g k lst nx True Cons p
          by (simp del: count_loop.simps(2) add: count_loop.simps(2) [of t key "Suc (bt_size t)"])
      qed
    qed
  qed
qed (simp add: bt_count_def tree_items_def)

end
