(* ===== verification/Samples.thy ===== *)
theory Samples
  imports SeqTree_Reach BTree_Lookup
begin

text \<open>
  Concrete states the witnesses are evaluated on: a blind leaf with four keys of one byte, and a B+ tree
  of two levels. Both satisfy the invariants.
\<close>

section \<open>A blind leaf\<close>

definition sample_config :: config where "sample_config = \<lparr> NUM_SLOTS = 8, KEY_LEN = 1, TREE_LEVELS = 2 \<rparr>"
definition sample_db :: db where "sample_db p = (if p = 0 then [] else [word_of_nat p])"
definition sample_node :: node where
  "sample_node = \<lparr> valid_len = 4, blindiTree = [2, 1, 255], currentmaxslot = 8, key_ptr = [3, 5, 9, 20, 0, 0, 0, 0],
     blindiKeys = [5, 4, 3, 0, 0, 0, 0] \<rparr>"

lemmas compare_eval = CompareStage_def isNthBitSetInByte_def firstMsbLookUpTable_def isNthBitSetInString_def

lemma sample_config_ok: "cfg_ok sample_config"
  by (simp add: cfg_ok_def sample_config_def END_TREE_def MAX_HIGH_MISS_def idx_mod_def bitidx_mod_def)

lemma all_below: "(\<forall>i < Suc n. P i) \<longleftrightarrow> P n \<and> (\<forall>i < n. P i)"
  by (auto simp: less_Suc_eq)

lemma sample_keys: "node_keys sample_db sample_node = [[3], [5], [9], [20]]"
  by (simp add: node_keys_def sample_node_def sample_db_def)

lemma sample_key_dif: "key_dif [3] [5] = 5" "key_dif [5] [9] = 4" "key_dif [9] [20] = 3"
  by (simp_all add: key_dif_def compare_eval)

lemma less_Suc_cases: "(\<forall>i. Suc i < 4 \<longrightarrow> P i) \<longleftrightarrow> P 0 \<and> P 1 \<and> P (2::nat)"
  by (auto simp: numeral_eq_Suc less_Suc_eq)

lemma sample_ordered: "bl.ordered 1 [[3], [5], [9], [20]]"
  by (simp add: bl.ordered_def key_of_len_def key_less_def all_below)

lemma sample_node_ok: "node_ok sample_config sample_db sample_node"
  unfolding node_ok_def sample_keys
  using sample_ordered
  by (auto simp: sample_node_def sample_config_def less_Suc_cases bl.bks_def sample_key_dif tree_ok_def is_min_def END_TREE_def idx_mod_def
    numeral_eq_Suc less_Suc_eq)

text \<open>A full node, a node of two larger keys, and a node of two keys.\<close>

definition sample_full :: node where
  "sample_full = \<lparr> valid_len = 8, blindiTree = [6, 2, 255], currentmaxslot = 8, key_ptr = [1, 2, 3, 4, 5, 6, 7, 8],
     blindiKeys = [6, 7, 5, 7, 6, 7, 4] \<rparr>"

definition sample_large :: node where
  "sample_large = \<lparr> valid_len = 2, blindiTree = [0, 255, 255], currentmaxslot = 8, key_ptr = [30, 40, 0, 0, 0, 0, 0, 0],
     blindiKeys = [2, 0, 0, 0, 0, 0, 0] \<rparr>"

definition sample_pair :: node where
  "sample_pair = \<lparr> valid_len = 2, blindiTree = [0, 255, 255], currentmaxslot = 8, key_ptr = [3, 200, 0, 0, 0, 0, 0, 0],
     blindiKeys = [0, 0, 0, 0, 0, 0, 0] \<rparr>"

lemma sample_more_keys:
  "node_keys sample_db sample_full = [[1], [2], [3], [4], [5], [6], [7], [8]]"
  "node_keys sample_db sample_large = [[30], [40]]" "node_keys sample_db sample_pair = [[3], [200]]"
  by (simp_all add: node_keys_def sample_full_def sample_large_def sample_pair_def sample_db_def)

lemma sample_more_difs:
  "key_dif [1] [2] = 6" "key_dif [2] [3] = 7" "key_dif [3] [4] = 5" "key_dif [4] [5] = 7" "key_dif [5] [6] = 6" "key_dif [6] [7] = 7"
  "key_dif [7] [8] = 4" "key_dif [30] [40] = 2" "key_dif [3] [200] = 0"
  by (simp_all add: key_dif_def compare_eval)

lemmas node_eval = sample_config_def bl.ordered_def key_of_len_def key_less_def bl.bks_def tree_ok_def is_min_def END_TREE_def idx_mod_def
  less_Suc_eq sample_more_difs

lemma sample_full_ok: "node_ok sample_config sample_db sample_full"
  unfolding node_ok_def sample_more_keys
  by (simp add: sample_full_def node_eval all_below) (auto simp: numeral_eq_Suc less_Suc_eq sample_more_difs)

lemma sample_large_ok: "node_ok sample_config sample_db sample_large"
  unfolding node_ok_def sample_more_keys by (auto simp: sample_large_def node_eval)

lemma sample_pair_ok: "node_ok sample_config sample_db sample_pair"
  unfolding node_ok_def sample_more_keys by (auto simp: sample_pair_def node_eval)

lemma sample_consts:
  "END_TREE sample_config = 255" "DUPLICATE sample_config = 254" "MAX_HIGH_MISS sample_config = 253" "TREE_SIZE sample_config = 3"
  "TREE_LEVELS sample_config = 2" "KEY_LEN sample_config = 1" "NUM_SLOTS sample_config = 8" "idx_mod sample_config = 256"
  by (simp_all add: END_TREE_def idx_mod_def bitidx_mod_def sample_config_def MAX_HIGH_MISS_def DUPLICATE_def TREE_SIZE_def)

section \<open>A B+ tree\<close>

definition sample_bcfg :: bcfg where
  "sample_bcfg = \<lparr> leafslotmax = 4, innerslotmax = 4, allow_duplicates = False \<rparr>"

definition sample_env :: env where
  "sample_env = \<lparr> m_headleaf = Some 0, m_tailleaf = Some 1, prevleaf = [1 \<mapsto> 0], nextleaf = [0 \<mapsto> 1], fresh = 2,
     m_stats = \<lparr> itemcount = 6, leaves = 2, innernodes = 1 \<rparr> \<rparr>"

definition sample_btree :: "(nat, nat) btree" where
  "sample_btree = \<lparr> m_root = Some (Inner 1 [20] [Leaf 0 [10, 20] [1, 2], Leaf 1 [30, 40, 50, 60] [3, 4, 5, 6]]),
     m_env = sample_env \<rparr>"

lemma sample_bcfg_ok: "bcfg_ok sample_bcfg"
  by (simp add: bcfg_ok_def sample_bcfg_def)

lemma sample_items: "tree_items sample_btree = [(10, 1), (20, 2), (30, 3), (40, 4), (50, 5), (60, 6)]"
  by (simp add: tree_items_def sample_btree_def)

lemma sample_btree_ok: "bt_ok sample_bcfg sample_btree"
  unfolding bt_ok_def sample_items
  by (simp add: sample_bcfg_ok)
    (simp add: sample_btree_def sample_env_def sample_bcfg_def tree_leaves_def tree_ninner_def bt_size_def chain_def seps_def
      last_key_def minleafslots_def mininnerslots_def)

end
