(* ===== verification/Blindi_Seq.thy ===== *)
theory Blindi_Seq
  imports SeqTree
begin

text \<open>
  \<^verbatim>\<open>blindi_seqtree/blindi_seq.hpp\<close>: the first form of the blind leaf (\<^verbatim>\<open>LinearBlindiNode\<close>, \<^verbatim>\<open>GenericBlindiNode\<close>), a sequential array of
  blindi keys with no tree above it. The macros \<^verbatim>\<open>KEY_SIZE_BYTE\<close> and \<^verbatim>\<open>MAX_NODE_SIZE\<close> are fields of \<open>lcfg\<close>. The header only declares
  \<^verbatim>\<open>CompareStage\<close> with four arguments, so it is a parameter \<open>cmp\<close>, which yields the position, \<^verbatim>\<open>eq\<close> and \<^verbatim>\<open>big_small\<close>.
\<close>

record lcfg =
  KEY_SIZE_BYTE :: nat
  MAX_NODE_SIZE :: nat

record lnode =
  l_blindiKeys :: "nat list"
  l_data_ptr :: "ptr list"
  l_len :: nat

type_synonym stage_compare = "byte list \<Rightarrow> byte list \<Rightarrow> nat \<times> bool \<times> bool"

definition new_lnode :: "nat \<Rightarrow> lnode" where
  "new_lnode nodeSize = \<lparr> l_blindiKeys = replicate (2 * nodeSize - 1) 0, l_data_ptr = replicate nodeSize 0, l_len = 0 \<rparr>"

definition l_bring_key :: "db \<Rightarrow> lnode \<Rightarrow> nat \<Rightarrow> byte list option" where
  "l_bring_key db nd pos = map_option db (get (l_data_ptr nd) pos)"

section \<open>Search\<close>

definition NO_MISS :: nat where "NO_MISS = 268435455"

definition l_first_step :: "lcfg \<Rightarrow> lnode \<Rightarrow> byte list \<Rightarrow> nat \<Rightarrow> nat \<times> nat \<Rightarrow> (nat \<times> nat) option" where
  "l_first_step c nd key i = (\<lambda>(first_stage_position, high_miss).
     do {
       idx \<leftarrow> get (l_blindiKeys nd) i;
       b \<leftarrow> isNthBitSetInString key idx (KEY_SIZE_BYTE c);
       Some (if b then if idx \<le> high_miss then (i + 1, NO_MISS) else (first_stage_position, high_miss)
             else (first_stage_position, min high_miss idx))
     })"

definition l_SearchFirstStage :: "lcfg \<Rightarrow> lnode \<Rightarrow> byte list \<Rightarrow> nat option" where
  "l_SearchFirstStage c nd key = map_option fst (loop_up (l_first_step c nd key) 0 (l_len nd - 1) (0, NO_MISS))"

text \<open>
  The position and the value of \<^verbatim>\<open>smaller_than_node\<close>, whose old value is an argument: \<open>None\<close> is a variable that is not initialised.
  The search only writes it, and not on every path.
\<close>

definition l_SearchSecondStage :: "lnode \<Rightarrow> nat \<Rightarrow> nat \<Rightarrow> bool \<Rightarrow> bool option \<Rightarrow> (nat \<times> bool option) option" where
  "l_SearchSecondStage nd second_stage_pos diff_pos right_left smaller =
     (if right_left then
        (if l_len nd = 1 then Some (0, smaller)
         else do {
           r \<leftarrow> scan_up (l_blindiKeys nd) diff_pos second_stage_pos (l_len nd - 1 - second_stage_pos);
           Some (case r of Some i \<Rightarrow> (i, smaller) | None \<Rightarrow> (l_len nd - 1, smaller))
         })
      else if second_stage_pos = 0 then Some (0, Some True)
      else do {
        r \<leftarrow> scan_down (l_blindiKeys nd) diff_pos 0 second_stage_pos;
        Some (case r of Some i \<Rightarrow> (i, smaller) | None \<Rightarrow> (0, Some True))
      })"

record lsearch =
  ls_position :: nat
  ls_hit :: bool
  ls_smaller :: "bool option"
  ls_diff_pos :: nat
  ls_right_left :: bool

definition BlindiNode_search ::
  "lcfg \<Rightarrow> db \<Rightarrow> stage_compare \<Rightarrow> lnode \<Rightarrow> byte list \<Rightarrow> search_type \<Rightarrow> bool option \<Rightarrow> lsearch option" where
  "BlindiNode_search c db cmp nd search_key search_type smaller =
     do {
       first_stage_pos \<leftarrow> (if l_len nd > 1 then l_SearchFirstStage c nd search_key else Some 0);
       db_key \<leftarrow> l_bring_key db nd first_stage_pos;
       let (diff_pos, hit, right_left) = cmp search_key db_key;
       let res = (\<lambda>(pos, smaller). \<lparr> ls_position = pos, ls_hit = hit, ls_smaller = smaller, ls_diff_pos = diff_pos, ls_right_left = right_left \<rparr>);
       (if search_type = POINT_SEARCH \<or> hit then Some (res (first_stage_pos, smaller))
        else if l_len nd = 1 then Some (res (first_stage_pos, Some (\<not> right_left)))
        else map_option res (l_SearchSecondStage nd first_stage_pos diff_pos right_left smaller))
     }"

section \<open>Insertion\<close>

definition l_first_insert :: "lnode \<Rightarrow> ptr \<Rightarrow> lnode option" where
  "l_first_insert nd data_ptr = do { dp \<leftarrow> put (l_data_ptr nd) 0 data_ptr; Some (nd \<lparr> l_data_ptr := dp, l_len := (l_len nd + 1) mod 256 \<rparr>) }"

text \<open>\<open>given\<close> has the values of \<^verbatim>\<open>diff_pos\<close> and \<^verbatim>\<open>right_left\<close>; it is \<open>None\<close> when the pointers are null, and then the blindi keys are computed.\<close>

definition l_insert_position ::
  "db \<Rightarrow> stage_compare \<Rightarrow> lnode \<Rightarrow> nat \<Rightarrow> byte list \<Rightarrow> ptr \<Rightarrow> bool \<Rightarrow> (nat \<times> bool) option \<Rightarrow> lnode option" where
  "l_insert_position db cmp nd position insert_key data_ptr smaller given =
     (let len = l_len nd; at = position + 1 - of_bool smaller in
      do {
        nd \<leftarrow>
          (if smaller \<or> position + 1 \<noteq> len \<and> len \<noteq> 0 then
             do {
               temp_data \<leftarrow> (if len = 0 then None else get (l_data_ptr nd) (len - 1));
               bk \<leftarrow> shift_up (l_blindiKeys nd) (position + 1) (len - 2 - position);
               dp \<leftarrow> shift_up (l_data_ptr nd) (position + 1) (len - 2 - position);
               dp \<leftarrow> put dp len temp_data;
               dp \<leftarrow> (if smaller then do { x \<leftarrow> get dp 0; put dp 1 x } else Some dp);
               bk \<leftarrow> (if smaller \<and> len > 1 then do { b \<leftarrow> get bk 0; put bk 1 b } else Some bk);
               let nd = nd \<lparr> l_blindiKeys := bk, l_data_ptr := dp \<rparr>;
               b \<leftarrow> (case given of None \<Rightarrow> do { successor_key \<leftarrow> l_bring_key db nd (at + 1); Some (fst (cmp successor_key insert_key) mod 256) }
                     | Some (diff_pos, right_left) \<Rightarrow> if right_left then get bk position else Some (diff_pos mod 256));
               bk \<leftarrow> put bk at b;
               Some (nd \<lparr> l_blindiKeys := bk \<rparr>)
             }
           else Some nd);
        bk \<leftarrow>
          (if \<not> smaller \<and> len \<noteq> 0 then
             (case given of None \<Rightarrow> do { predecessor_key \<leftarrow> l_bring_key db nd position; put (l_blindiKeys nd) position (fst (cmp insert_key predecessor_key) mod 256) }
              | Some (diff_pos, right_left) \<Rightarrow> if right_left then put (l_blindiKeys nd) position (diff_pos mod 256) else Some (l_blindiKeys nd))
           else Some (l_blindiKeys nd));
        dp \<leftarrow> put (l_data_ptr nd) at data_ptr;
        Some (nd \<lparr> l_blindiKeys := bk, l_data_ptr := dp, l_len := (len + 1) mod 256 \<rparr>)
      })"

definition l_insert ::
  "lcfg \<Rightarrow> db \<Rightarrow> stage_compare \<Rightarrow> lnode \<Rightarrow> byte list \<Rightarrow> ptr \<Rightarrow> (insert_result \<times> lnode) option" where
  "l_insert c db cmp nd insert_key data_ptr =
     (if l_len nd = MAX_NODE_SIZE c then Some (INSERT_OVERFLOW, nd)
      else if l_len nd \<noteq> 0 then
        do {
          r \<leftarrow> BlindiNode_search c db cmp nd insert_key PREDECESSOR_SEARCH (Some False);
          (if ls_hit r then Some (INSERT_DUPLICATED_KEY, nd)
           else do {
             smaller \<leftarrow> ls_smaller r;
             nd \<leftarrow> l_insert_position db cmp nd (ls_position r) insert_key data_ptr smaller (Some (ls_diff_pos r, ls_right_left r));
             Some (INSERT_SUCCESS, nd)
           })
        }
      else map_option (Pair INSERT_SUCCESS) (l_first_insert nd data_ptr))"

section \<open>Removal\<close>

definition l_remove_position :: "lnode \<Rightarrow> nat \<Rightarrow> (remove_result \<times> lnode) option" where
  "l_remove_position nd position =
     (let n = l_len nd; dp = l_data_ptr nd; bk = l_blindiKeys nd in
      if position + 1 = n \<or> n \<le> 2 then
        (if n > 2 \<or> n = 2 \<and> position = 1 then
           do { dp \<leftarrow> put dp position 0; bk \<leftarrow> put bk (position - 1) 0;
                Some (REMOVE_SUCCESS, nd \<lparr> l_data_ptr := dp, l_blindiKeys := bk, l_len := n - 1 \<rparr>) }
         else if n = 2 then
           do { bk \<leftarrow> put bk 0 0; x \<leftarrow> get dp 1; dp \<leftarrow> put dp 0 x; dp \<leftarrow> put dp 1 0;
                Some (REMOVE_SUCCESS, nd \<lparr> l_data_ptr := dp, l_blindiKeys := bk, l_len := 1 \<rparr>) }
         else Some (REMOVE_NODE_EMPTY, nd \<lparr> l_len := 0 \<rparr>))
      else do {
        bk \<leftarrow> (if position \<noteq> 0 then do { a \<leftarrow> get bk position; b \<leftarrow> get bk (position - 1); put bk (position - 1) (min a b) } else Some bk);
        (dp, bk) \<leftarrow> loop_up (\<lambda>i (dp, bk). do { x \<leftarrow> get dp i; dp \<leftarrow> put dp (i - 1) x; y \<leftarrow> get bk i; bk \<leftarrow> put bk (i - 1) y; Some (dp, bk) })
          (position + 1) (n - 2 - position) (dp, bk);
        x \<leftarrow> get dp (n - 1);
        dp \<leftarrow> put dp (n - 2) x;
        Some (REMOVE_SUCCESS, nd \<lparr> l_data_ptr := dp, l_blindiKeys := bk, l_len := n - 1 \<rparr>)
      })"

definition l_remove :: "lcfg \<Rightarrow> db \<Rightarrow> stage_compare \<Rightarrow> lnode \<Rightarrow> byte list \<Rightarrow> (remove_result \<times> lnode) option" where
  "l_remove c db cmp nd remove_key =
     do {
       r \<leftarrow> BlindiNode_search c db cmp nd remove_key POINT_SEARCH (Some False);
       (if \<not> ls_hit r then Some (REMOVE_KEY_NOT_FOUND, nd)
        else do {
          (res, nd) \<leftarrow> l_remove_position nd (ls_position r);
          Some (if l_len nd < MAX_NODE_SIZE c div 2 \<and> res = REMOVE_SUCCESS then REMOVE_UNDERFLOW else res, nd)
        })
     }"

section \<open>Split and merge\<close>

definition l_split_node :: "lcfg \<Rightarrow> lnode \<Rightarrow> lnode \<Rightarrow> (lnode \<times> lnode) option" where
  "l_split_node c nd right =
     (let half = MAX_NODE_SIZE c div 2 in
      do {
        (dp, bk, new_dp, new_bk) \<leftarrow> loop_up (\<lambda>i (dp, bk, new_dp, new_bk). do {
            x \<leftarrow> get dp (half + i); new_dp \<leftarrow> put new_dp i x; dp \<leftarrow> put dp (half + i) 0;
            y \<leftarrow> get bk (half + i); new_bk \<leftarrow> put new_bk i y; bk \<leftarrow> put bk (half + i) 0;
            Some (dp, bk, new_dp, new_bk) })
          0 (half - 1) (l_data_ptr nd, l_blindiKeys nd, l_data_ptr right, l_blindiKeys right);
        x \<leftarrow> get dp (MAX_NODE_SIZE c - 1);
        (if half = 0 then None
         else do {
           new_dp \<leftarrow> put new_dp (half - 1) x;
           dp \<leftarrow> put dp (MAX_NODE_SIZE c - 1) 0;
           bk \<leftarrow> put bk (half - 1) 0;
           Some (nd \<lparr> l_data_ptr := dp, l_blindiKeys := bk, l_len := half \<rparr>, right \<lparr> l_data_ptr := new_dp, l_blindiKeys := new_bk, l_len := half \<rparr>)
         })
      })"

text \<open>The local variable \<^verbatim>\<open>smaller_than_node\<close> is not initialised here; reading it before the search has set it is undefined.\<close>

definition l_split ::
  "lcfg \<Rightarrow> db \<Rightarrow> stage_compare \<Rightarrow> lnode \<Rightarrow> lnode \<Rightarrow> byte list \<Rightarrow> ptr \<Rightarrow> (lnode \<times> lnode) option" where
  "l_split c db cmp nd right insert_key data_ptr =
     do {
       r \<leftarrow> BlindiNode_search c db cmp nd insert_key PREDECESSOR_SEARCH None;
       (nd, right) \<leftarrow> l_split_node c nd right;
       let half = MAX_NODE_SIZE c div 2;
       (if ls_position r \<ge> half then
          map_option (Pair nd) (l_insert_position db cmp right (ls_position r - half) insert_key data_ptr False None)
        else do {
          smaller \<leftarrow> ls_smaller r;
          nd \<leftarrow> l_insert_position db cmp nd (ls_position r) insert_key data_ptr smaller None;
          Some (nd, right)
        })
     }"

text \<open>
  The function is declared to return a number and reaches its closing brace without a return, which is undefined for a call; these are
  the assignments of its body up to there.
\<close>

definition l_merge_body :: "db \<Rightarrow> stage_compare \<Rightarrow> lnode \<Rightarrow> lnode \<Rightarrow> lnode option" where
  "l_merge_body db cmp left_node right_node =
     (let n = l_len left_node; m = l_len right_node in
      if m = 0 \<or> n = 0 then None
      else do {
        dp \<leftarrow> copy_cells (l_data_ptr right_node) 0 (l_data_ptr left_node) n (m - 1);
        bk \<leftarrow> copy_cells (l_blindiKeys right_node) 0 (l_blindiKeys left_node) n (m - 1);
        x \<leftarrow> get (l_data_ptr right_node) (m - 1);
        dp \<leftarrow> put dp (n + m - 1) x;
        last_left_key \<leftarrow> get dp (n - 1);
        first_right_key \<leftarrow> get (l_data_ptr right_node) 0;
        bk \<leftarrow> put bk (n - 1) (fst (cmp (db last_left_key) (db first_right_key)) mod 256);
        Some (left_node \<lparr> l_data_ptr := dp, l_blindiKeys := bk, l_len := (n + m) mod 256 \<rparr>)
      })"

section \<open>The comparison\<close>

text \<open>What the header documents of \<^verbatim>\<open>CompareStage\<close>: the first bit in which the keys differ, whether they are equal, and whether the first is greater.\<close>

definition compares :: "nat \<Rightarrow> stage_compare \<Rightarrow> bool" where
  "compares L cmp \<longleftrightarrow> (\<forall>a b. length a = L \<and> length b = L \<longrightarrow> fst (snd (cmp a b)) = (a = b)
     \<and> (a \<noteq> b \<longrightarrow> diff_at a b (fst (cmp a b)) \<and> snd (snd (cmp a b)) = (key_val b < key_val a)))"

text \<open>The routine of \<^verbatim>\<open>blindi_seqtree.hpp\<close> behaves like this.\<close>

definition stage_cmp :: stage_compare where
  "stage_cmp a b = (case CompareStage a b False (length a) (length a) of Some r \<Rightarrow> r | None \<Rightarrow> (0, False, False))"

lemma stage_cmp_compares: "compares L stage_cmp"
  unfolding compares_def
proof (intro allI impI)
  fix a b :: "byte list" assume l: "length a = L \<and> length b = L"
  then have "stage_cmp a b = (case CompareStage a b False L L of Some r \<Rightarrow> r | None \<Rightarrow> (0, False, False))" by (simp add: stage_cmp_def)
  then show "fst (snd (stage_cmp a b)) = (a = b)
     \<and> (a \<noteq> b \<longrightarrow> diff_at a b (fst (stage_cmp a b)) \<and> snd (snd (stage_cmp a b)) = (key_val b < key_val a))"
    using CompareStage_spec [of a L b False] l by (cases "a = b") auto
qed

end
