(* ===== verification/Linear_Leaf.thy ===== *)
theory Linear_Leaf
  imports Blindi_Seq SeqTree_Build
begin

text \<open>
  The blind leaf without a tree is correct: search, insertion, removal, the split that inserts, and the merge, for any comparison
  routine that meets the contract \<open>compares\<close>. The mathematics is that of the locale \<open>bit_keys\<close>.
\<close>

section \<open>The invariant\<close>

definition l_ptrs :: "lnode \<Rightarrow> ptr list" where
  "l_ptrs nd = take (l_len nd) (l_data_ptr nd)"

definition l_keys :: "db \<Rightarrow> lnode \<Rightarrow> byte list list" where
  "l_keys db nd = map db (l_ptrs nd)"

definition lcfg_ok :: "lcfg \<Rightarrow> bool" where
  "lcfg_ok c \<longleftrightarrow> 0 < KEY_SIZE_BYTE c \<and> KEY_SIZE_BYTE c \<le> 32 \<and> 2 \<le> MAX_NODE_SIZE c \<and> MAX_NODE_SIZE c \<le> 255 \<and> even (MAX_NODE_SIZE c)"

definition l_raw :: "lcfg \<Rightarrow> lnode \<Rightarrow> bool" where
  "l_raw c nd \<longleftrightarrow> length (l_blindiKeys nd) = 2 * MAX_NODE_SIZE c - 1 \<and> length (l_data_ptr nd) = MAX_NODE_SIZE c"

definition lnode_ok :: "lcfg \<Rightarrow> db \<Rightarrow> lnode \<Rightarrow> bool" where
  "lnode_ok c db nd \<longleftrightarrow> l_raw c nd \<and> 0 < l_len nd \<and> l_len nd \<le> MAX_NODE_SIZE c \<and> bl.ordered (KEY_SIZE_BYTE c) (l_keys db nd)
     \<and> (\<forall>i. Suc i < l_len nd \<longrightarrow> l_blindiKeys nd ! i = bdif (l_keys db nd) i)"

lemma lnode_okD:
  assumes "lnode_ok c db nd"
  shows "length (l_blindiKeys nd) = 2 * MAX_NODE_SIZE c - 1" "length (l_data_ptr nd) = MAX_NODE_SIZE c" "0 < l_len nd" "l_len nd \<le> MAX_NODE_SIZE c"
    "bl.ordered (KEY_SIZE_BYTE c) (l_keys db nd)" "\<And>i. Suc i < l_len nd \<Longrightarrow> l_blindiKeys nd ! i = bdif (l_keys db nd) i"
    "length (l_keys db nd) = l_len nd" "length (l_ptrs nd) = l_len nd" "\<And>i. i < l_len nd \<Longrightarrow> l_keys db nd ! i = db (l_data_ptr nd ! i)"
  using assms by (auto simp: lnode_ok_def l_raw_def l_keys_def l_ptrs_def)

lemma compares_dif:
  assumes "compares L cmp" "key_of_len L a" "key_of_len L b"
  shows "fst (snd (cmp a b)) = (a = b)" "a \<noteq> b \<Longrightarrow> fst (cmp a b) = key_dif a b" "a \<noteq> b \<Longrightarrow> snd (snd (cmp a b)) = key_bit a (key_dif a b)"
    "a \<noteq> b \<Longrightarrow> L \<le> 32 \<Longrightarrow> fst (cmp a b) mod 256 = key_dif a b"
proof -
  have h: "fst (snd (cmp a b)) = (a = b)" "a \<noteq> b \<Longrightarrow> diff_at a b (fst (cmp a b)) \<and> snd (snd (cmp a b)) = (key_val b < key_val a)"
    using assms by (auto simp: compares_def key_of_len_def)
  show "fst (snd (cmp a b)) = (a = b)" by fact
  note k = key_dif_spec [OF assms(2,3)]
  show d: "fst (cmp a b) = key_dif a b" if "a \<noteq> b" using h(2) k that diff_at_unique by blast
  show "snd (snd (cmp a b)) = key_bit a (key_dif a b)" if "a \<noteq> b" using h(2) k that by (simp add: key_less_def)
  show "fst (cmp a b) mod 256 = key_dif a b" if "a \<noteq> b" "L \<le> 32" using d k that by auto
qed

section \<open>Search\<close>

lemma l_first_stage_spec:
  assumes "lcfg_ok c" "lnode_ok c db nd" "length key = KEY_SIZE_BYTE c" "1 < l_len nd"
  shows "\<exists>p. l_SearchFirstStage c nd key = Some p \<and> blind_pos (key_bit key) (bdif (l_keys db nd)) 0 (l_len nd) p"
proof -
  note N = lnode_okD [OF assms(2)]
  let ?f = "bdif (l_keys db nd)" and ?n = "l_len nd"
  define P where "P i s \<longleftrightarrow> blind_pos (key_bit key) ?f 0 (Suc i) (fst s) \<and> snd s = (if fst s = i then NO_MISS else rmin ?f (fst s) i)" for i and s :: "nat \<times> nat"
  have step: "\<exists>s'. l_first_step c nd key i s = Some s' \<and> P (Suc i) s'" if i: "i < ?n - 1" and P: "P i s" for i s
  proof -
    obtain p h where s: "s = (p, h)" by (cases s)
    have b: "get (l_blindiKeys nd) i = Some (?f i)" "?f i < 8 * KEY_SIZE_BYTE c"
      using i N(1,4,6,7) bdif_bound [OF N(5), of i] by auto
    then have nm: "?f i < NO_MISS" using assms(1) by (simp add: lcfg_ok_def NO_MISS_def)
    have bp: "blind_pos (key_bit key) ?f 0 (Suc i) p" and h: "h = (if p = i then NO_MISS else rmin ?f p i)" using P by (auto simp: P_def s)
    have p: "p \<le> i" using bp by (simp add: blind_pos_def)
    let ?s = "if ?f i \<le> h then (if key_bit key (?f i) then (i + 1, NO_MISS) else (p, min h (?f i))) else (p, h)"
    have ev: "l_first_step c nd key i s = Some ?s" using b by (auto simp: l_first_step_def s isNthBitSetInString_key_bit assms(3))
    have last: "rmin ?f p (Suc i) = (if p = i then ?f i else min (rmin ?f p i) (?f i))" using p by (auto simp: rmin_last)
    have "P (Suc i) ?s"
    proof (cases "?f i \<le> h")
      case le: True
      show ?thesis
      proof (cases "key_bit key (?f i)")
        case True
        then show ?thesis using le h bp blind_pos_snoc_new [OF bp] by (auto simp: P_def split: if_splits)
      next
        case False
        have "rmin ?f p (Suc i) = ?f i" using le h last by (simp split: if_splits)
        then show ?thesis using False le h bp nm p blind_pos_snoc_old [OF bp] by (auto simp: P_def)
      qed
    next
      case False
      then have ne: "p \<noteq> i" using nm h by auto
      then have r: "rmin ?f p (Suc i) = h" using last h False by simp
      have "\<not> key_bit key (rmin ?f p i)" using bp ne p by (simp add: blind_pos_def)
      then show ?thesis using False r h ne bp p blind_pos_snoc_old [OF bp] by (auto simp: P_def)
    qed
    then show ?thesis using ev by blast
  qed
  have "\<exists>s'. loop_up (l_first_step c nd key) 0 (?n - 1) (0, NO_MISS) = Some s' \<and> P (0 + (?n - 1)) s'"
    by (rule loop_up_invariant) (use step in \<open>auto simp: P_def\<close>)
  then obtain s where "loop_up (l_first_step c nd key) 0 (?n - 1) (0, NO_MISS) = Some s" "P (?n - 1) s" by auto
  then show ?thesis using assms(4) by (auto simp: l_SearchFirstStage_def P_def)
qed

text \<open>Where a missing key belongs, as the search reports it.\<close>

definition l_place :: "db \<Rightarrow> lnode \<Rightarrow> byte list \<Rightarrow> nat \<Rightarrow> nat \<Rightarrow> bool \<Rightarrow> bool" where
  "l_place db nd x pos d right_left \<longleftrightarrow> (if right_left then 0 < pos \<and> bl.gap (l_keys db nd) x pos (pos - 1) d else pos < l_len nd \<and> bl.gap (l_keys db nd) x pos pos d)"

lemma l_second_stage_spec:
  assumes "lnode_ok c db nd" "blind_pos (key_bit x) (bdif (l_keys db nd)) 0 (l_len nd) p" "length x = KEY_SIZE_BYTE c" "x \<noteq> l_keys db nd ! p"
  defines "d \<equiv> key_dif x (l_keys db nd ! p)"
  shows "\<exists>pos. l_SearchSecondStage nd p d (key_bit x d) sm = Some (pos - 1, if pos = 0 then Some True else sm) \<and> l_place db nd x pos d (key_bit x d)"
proof -
  note N = lnode_okD [OF assms(1)]
  let ?f = "bdif (l_keys db nd)" and ?n = "l_len nd"
  have p: "p < ?n" using assms(2) by (simp add: blind_pos_def)
  have bp: "blind_pos (key_bit x) ?f 0 (length (l_keys db nd)) p" using assms(2) N(7) by simp
  have x: "key_of_len (KEY_SIZE_BYTE c) x" using assms(3) by (simp add: key_of_len_def)
  have d: "d = key_dif x (l_keys db nd ! p)" by (simp add: d_def)
  have g: "get (l_blindiKeys nd) k = Some (?f k)" if "Suc k < ?n" for k using that N(1,4,6) by simp
  show ?thesis
  proof (cases "key_bit x d")
    case True
    have right: "l_place db nd x (Suc i) d True" if "p \<le> i" "i < ?n" "\<And>k. p \<le> k \<Longrightarrow> k < i \<Longrightarrow> d \<le> ?f k" "Suc i < ?n \<Longrightarrow> ?f i < d" for i
      using bl.gap_right [OF N(5) bp x assms(4) d True that(1) _ that(3)] that(2,4) N(7) by (simp add: l_place_def)
    show ?thesis
    proof (cases "?n = 1")
      case n1: True
      then have "p = 0" using p by simp
      then show ?thesis using True n1 right [of 0] by (intro exI [of _ 1]) (simp add: l_SearchSecondStage_def)
    next
      case False
      have "\<exists>r. scan_up (l_blindiKeys nd) d p (?n - 1 - p) = Some r \<and>
        (case r of None \<Rightarrow> \<forall>k. p \<le> k \<and> k < p + (?n - 1 - p) \<longrightarrow> d \<le> ?f k
         | Some j \<Rightarrow> p \<le> j \<and> j < p + (?n - 1 - p) \<and> ?f j < d \<and> (\<forall>k. p \<le> k \<and> k < j \<longrightarrow> d \<le> ?f k))"
        by (rule scan_up_spec) (use g p in auto)
      then obtain r where r: "scan_up (l_blindiKeys nd) d p (?n - 1 - p) = Some r"
        "case r of None \<Rightarrow> \<forall>k. p \<le> k \<and> k < p + (?n - 1 - p) \<longrightarrow> d \<le> ?f k
         | Some j \<Rightarrow> p \<le> j \<and> j < p + (?n - 1 - p) \<and> ?f j < d \<and> (\<forall>k. p \<le> k \<and> k < j \<longrightarrow> d \<le> ?f k)" by blast
      define i where "i = (case r of None \<Rightarrow> ?n - 1 | Some j \<Rightarrow> j)"
      have "l_place db nd x (Suc i) d True" by (rule right) (use r(2) p in \<open>auto simp: i_def split: option.splits\<close>)
      moreover have "l_SearchSecondStage nd p d True sm = Some (i, sm)"
        using r(1) False by (auto simp: l_SearchSecondStage_def i_def split: option.splits)
      ultimately show ?thesis using True by (intro exI [of _ "Suc i"]) simp
    qed
  next
    case False
    have left: "l_place db nd x i d False" if "i \<le> p" "\<And>k. i \<le> k \<Longrightarrow> k < p \<Longrightarrow> d \<le> ?f k" "0 < i \<Longrightarrow> ?f (i - 1) < d" for i
      using bl.gap_left [OF N(5) bp x assms(4) d False that] that(1) p by (simp add: l_place_def)
    show ?thesis
    proof (cases "p = 0")
      case True
      then show ?thesis using False left [of 0] by (intro exI [of _ 0]) (simp add: l_SearchSecondStage_def)
    next
      case p0: False
      have "\<exists>r. scan_down (l_blindiKeys nd) d 0 p = Some r \<and>
        (case r of None \<Rightarrow> \<forall>k. 0 \<le> k \<and> k < p \<longrightarrow> d \<le> ?f k
         | Some j \<Rightarrow> 0 \<le> j \<and> j < p \<and> ?f j < d \<and> (\<forall>k. j < k \<and> k < p \<longrightarrow> d \<le> ?f k))"
        by (rule scan_down_spec) (use g p in auto)
      then obtain r where r: "scan_down (l_blindiKeys nd) d 0 p = Some r"
        "case r of None \<Rightarrow> \<forall>k. 0 \<le> k \<and> k < p \<longrightarrow> d \<le> ?f k
         | Some j \<Rightarrow> 0 \<le> j \<and> j < p \<and> ?f j < d \<and> (\<forall>k. j < k \<and> k < p \<longrightarrow> d \<le> ?f k)" by blast
      define i where "i = (case r of None \<Rightarrow> 0 | Some j \<Rightarrow> Suc j)"
      have "l_place db nd x i d False" by (rule left) (use r(2) in \<open>auto simp: i_def split: option.splits\<close>)
      moreover have "l_SearchSecondStage nd p d False sm = Some (i - 1, if i = 0 then Some True else sm)"
        using r(1) p0 by (auto simp: l_SearchSecondStage_def i_def split: option.splits)
      ultimately show ?thesis using False by (intro exI [of _ i]) simp
    qed
  qed
qed

text \<open>The flag after a search that misses, from the place of the key and the value before.\<close>

definition l_flag :: "lnode \<Rightarrow> nat \<Rightarrow> bool option \<Rightarrow> bool option" where
  "l_flag nd pos smaller = (if pos = 0 then Some True else if l_len nd = 1 then Some False else smaller)"

lemma l_flag_false: "l_flag nd pos (Some False) = Some (pos = 0)"
  by (simp add: l_flag_def)

lemma l_search_spec:
  assumes "lcfg_ok c" "lnode_ok c db nd" "length x = KEY_SIZE_BYTE c" "compares (KEY_SIZE_BYTE c) cmp"
  shows "\<exists>r. BlindiNode_search c db cmp nd x st sm = Some r \<and> ls_hit r = (x \<in> set (l_keys db nd))
    \<and> (ls_hit r \<longrightarrow> ls_position r < l_len nd \<and> l_keys db nd ! ls_position r = x)
    \<and> (\<not> ls_hit r \<and> st = PREDECESSOR_SEARCH \<longrightarrow> (\<exists>pos. ls_position r = pos - 1 \<and> ls_smaller r = l_flag nd pos sm
        \<and> l_place db nd x pos (ls_diff_pos r) (ls_right_left r)))"
proof -
  note N = lnode_okD [OF assms(2)]
  let ?ks = "l_keys db nd" and ?n = "l_len nd"
  obtain p where p: "(if ?n > 1 then l_SearchFirstStage c nd x else Some 0) = Some p" "blind_pos (key_bit x) (bdif ?ks) 0 ?n p"
  proof (cases "?n > 1")
    case True
    then show ?thesis using l_first_stage_spec [OF assms(1-3)] that by auto
  next
    case False
    then have "?n = Suc 0" using N(3) by simp
    then show ?thesis using that [of 0] by simp
  qed
  have pn: "p < ?n" using p(2) by (simp add: blind_pos_def)
  have v: "key_of_len (KEY_SIZE_BYTE c) x" "key_of_len (KEY_SIZE_BYTE c) (?ks ! p)"
    using assms(3) bl.ordered_valid [OF N(5), of p] pn N(7) by (simp_all add: key_of_len_def)
  note C = compares_dif [OF assms(4) v]
  have k: "l_bring_key db nd p = Some (?ks ! p)" using pn N(2,4,9) by (simp add: l_bring_key_def)
  obtain d hit rl where m: "cmp x (?ks ! p) = (d, hit, rl)" by (cases "cmp x (?ks ! p)") auto
  have hit: "hit = (x = ?ks ! p)" using C(1) m by simp
  let ?res = "\<lambda>(pos, smaller). \<lparr> ls_position = pos, ls_hit = hit, ls_smaller = smaller, ls_diff_pos = d, ls_right_left = rl \<rparr>"
  have run: "BlindiNode_search c db cmp nd x st sm = (if st = POINT_SEARCH \<or> hit then Some (?res (p, sm))
        else if ?n = 1 then Some (?res (p, Some (\<not> rl))) else map_option ?res (l_SearchSecondStage nd p d rl sm))"
    using p(1) k m by (simp add: BlindiNode_search_def)
  have best: "x \<noteq> ?ks ! p \<Longrightarrow> x \<notin> set ?ks"
    using bl.blind_best [OF N(5) _ v(1)] p(2) N(7) by (fastforce simp: in_set_conv_nth)
  show ?thesis
  proof (cases hit)
    case True
    then have "x \<in> set ?ks" using hit pn N(7) by (auto simp: in_set_conv_nth)
    then show ?thesis using run True hit pn by simp
  next
    case False
    then have ne: "x \<noteq> ?ks ! p" using hit by simp
    have dr: "d = key_dif x (?ks ! p)" "rl = key_bit x d" using C(2,3) [OF ne] m by simp_all
    show ?thesis
    proof (cases "st = POINT_SEARCH")
      case True
      then show ?thesis using run False best [OF ne] by simp
    next
      case st: False
      from l_second_stage_spec [OF assms(2) p(2) assms(3) ne] obtain pos where
        s: "l_SearchSecondStage nd p d rl sm = Some (pos - 1, if pos = 0 then Some True else sm)" "l_place db nd x pos d rl" unfolding dr by auto
      have "?n = 1 \<Longrightarrow> p = 0 \<and> pos = of_bool rl" using pn s(2) by (auto simp: l_place_def bl.gap_def N(7))
      then have "BlindiNode_search c db cmp nd x st sm = Some (?res (pos - 1, l_flag nd pos sm))"
        using run False st s(1) by (cases rl) (auto simp: l_flag_def)
      then show ?thesis using False best [OF ne] s(2) by auto
    qed
  qed
qed

lemma l_place_facts:
  assumes "l_place db nd x pos d rl" "length (l_keys db nd) = l_len nd"
  shows "pos \<le> l_len nd" "0 < pos \<Longrightarrow> key_less (l_keys db nd ! (pos - 1)) x" "pos < l_len nd \<Longrightarrow> key_less x (l_keys db nd ! pos)"
  using assms by (auto simp: l_place_def bl.gap_def split: if_splits)

lemma l_search_answer:
  assumes "lcfg_ok c" "lnode_ok c db nd" "length x = KEY_SIZE_BYTE c" "compares (KEY_SIZE_BYTE c) cmp"
  shows "\<exists>r smaller. BlindiNode_search c db cmp nd x st (Some False) = Some r
    \<and> ls_hit r = (x \<in> set (l_keys db nd))
    \<and> (ls_hit r \<longrightarrow> ls_position r < l_len nd \<and> l_keys db nd ! ls_position r = x)
    \<and> (\<not> ls_hit r \<and> st = PREDECESSOR_SEARCH \<longrightarrow> ls_smaller r = Some smaller \<and>
         (if smaller then ls_position r = 0 \<and> key_less x (l_keys db nd ! 0)
          else ls_position r < l_len nd \<and> key_less (l_keys db nd ! ls_position r) x
             \<and> (Suc (ls_position r) < l_len nd \<longrightarrow> key_less x (l_keys db nd ! Suc (ls_position r)))))"
proof -
  note N = lnode_okD [OF assms(2)]
  have place: "if pos = 0 then key_less x (l_keys db nd ! 0)
      else pos - 1 < l_len nd \<and> key_less (l_keys db nd ! (pos - 1)) x \<and> (Suc (pos - 1) < l_len nd \<longrightarrow> key_less x (l_keys db nd ! Suc (pos - 1)))"
    if "l_place db nd x pos d rl" for pos d rl
    using l_place_facts [OF that N(7)] N(3) by (cases pos) auto
  from l_search_spec [OF assms, of st "Some False", unfolded l_flag_false] obtain r where r: "BlindiNode_search c db cmp nd x st (Some False) = Some r" "ls_hit r = (x \<in> set (l_keys db nd))"
    "ls_hit r \<longrightarrow> ls_position r < l_len nd \<and> l_keys db nd ! ls_position r = x"
    "\<not> ls_hit r \<and> st = PREDECESSOR_SEARCH \<longrightarrow> (\<exists>pos. ls_position r = pos - 1 \<and> ls_smaller r = Some (pos = 0)
        \<and> l_place db nd x pos (ls_diff_pos r) (ls_right_left r))" by blast
  show ?thesis
  proof (cases "\<not> ls_hit r \<and> st = PREDECESSOR_SEARCH")
    case True
    then obtain pos where p: "ls_position r = pos - 1" "ls_smaller r = Some (pos = 0)" "l_place db nd x pos (ls_diff_pos r) (ls_right_left r)" using r(4) by blast
    have "if pos = 0 then ls_position r = 0 \<and> key_less x (l_keys db nd ! 0)
        else ls_position r < l_len nd \<and> key_less (l_keys db nd ! ls_position r) x
          \<and> (Suc (ls_position r) < l_len nd \<longrightarrow> key_less x (l_keys db nd ! Suc (ls_position r)))"
      using place [OF p(3)] unfolding p(1) by (auto split: if_splits)
    then show ?thesis using r(1-3) p(2) by blast
  qed (use r(1-3) in blast)
qed

section \<open>Insertion\<close>

text \<open>What an insertion before the position \<open>pos\<close> relies on.\<close>

definition l_ready :: "lcfg \<Rightarrow> db \<Rightarrow> stage_compare \<Rightarrow> lnode \<Rightarrow> ptr \<Rightarrow> nat \<Rightarrow> (nat \<times> bool) option \<Rightarrow> bool" where
  "l_ready c db cmp nd k pos given \<longleftrightarrow> lcfg_ok c \<and> lnode_ok c db nd \<and> l_len nd < MAX_NODE_SIZE c \<and> length (db k) = KEY_SIZE_BYTE c
     \<and> compares (KEY_SIZE_BYTE c) cmp \<and> pos \<le> l_len nd \<and> (0 < pos \<longrightarrow> key_less (l_keys db nd ! (pos - 1)) (db k))
     \<and> (pos < l_len nd \<longrightarrow> key_less (db k) (l_keys db nd ! pos)) \<and> (\<forall>d rl. given = Some (d, rl) \<longrightarrow> d < 256 \<and> l_place db nd (db k) pos d rl)"

definition l_left :: "db \<Rightarrow> lnode \<Rightarrow> ptr \<Rightarrow> nat \<Rightarrow> nat" where
  "l_left db nd k pos = key_dif (l_keys db nd ! (pos - 1)) (db k)"

definition l_right :: "db \<Rightarrow> lnode \<Rightarrow> ptr \<Rightarrow> nat \<Rightarrow> nat" where
  "l_right db nd k pos = key_dif (db k) (l_keys db nd ! pos)"

lemma l_readyD:
  assumes "l_ready c db cmp nd k pos given"
  shows "lnode_ok c db nd" "l_len nd < MAX_NODE_SIZE c" "l_len nd < 255" "pos \<le> l_len nd" "key_of_len (KEY_SIZE_BYTE c) (db k)"
    "\<And>d rl. given = Some (d, rl) \<Longrightarrow> d < 256 \<and> l_place db nd (db k) pos d rl"
    "0 < pos \<Longrightarrow> key_less (l_keys db nd ! (pos - 1)) (db k)" "pos < l_len nd \<Longrightarrow> key_less (db k) (l_keys db nd ! pos)"
  using assms by (auto simp: l_ready_def key_of_len_def lcfg_ok_def)

text \<open>The comparisons with the neighbours give these two bits.\<close>

lemma l_ready_compare:
  assumes "l_ready c db cmp nd k pos given"
  shows "0 < pos \<Longrightarrow> fst (cmp (db k) (l_keys db nd ! (pos - 1))) mod 256 = l_left db nd k pos"
    "pos < l_len nd \<Longrightarrow> fst (cmp (l_keys db nd ! pos) (db k)) mod 256 = l_right db nd k pos"
proof -
  note R = l_readyD [OF assms] and N = lnode_okD [OF l_readyD(1) [OF assms]]
  have cmp: "compares (KEY_SIZE_BYTE c) cmp" "KEY_SIZE_BYTE c \<le> 32" using assms by (simp_all add: l_ready_def lcfg_ok_def)
  have v: "key_of_len (KEY_SIZE_BYTE c) (l_keys db nd ! i)" if "i < l_len nd" for i using bl.ordered_valid [OF N(5)] N(7) that by simp
  show "fst (cmp (db k) (l_keys db nd ! (pos - 1))) mod 256 = l_left db nd k pos" if p: "0 < pos"
  proof -
    have a: "key_of_len (KEY_SIZE_BYTE c) (l_keys db nd ! (pos - 1))" by (rule v) (use p R(4) N(3) in linarith)
    have ne: "l_keys db nd ! (pos - 1) \<noteq> db k" using R(7) [OF p] bl.lt_irrefl by auto
    show ?thesis unfolding l_left_def bl.dif_sym [OF a R(5) ne] by (rule compares_dif(4) [OF cmp(1) R(5) a not_sym [OF ne] cmp(2)])
  qed
  show "fst (cmp (l_keys db nd ! pos) (db k)) mod 256 = l_right db nd k pos" if p: "pos < l_len nd"
  proof -
    have ne: "db k \<noteq> l_keys db nd ! pos" using R(8) [OF p] bl.lt_irrefl by auto
    show ?thesis unfolding l_right_def bl.dif_sym [OF R(5) v [OF p] ne] by (rule compares_dif(4) [OF cmp(1) v [OF p] R(5) not_sym [OF ne] cmp(2)])
  qed
qed

text \<open>The result of the search has the same two bits, or they are in the node already.\<close>

lemma l_ready_given:
  assumes "l_ready c db cmp nd k pos (Some (d, rl))"
  shows "rl \<Longrightarrow> 0 < pos \<and> d = l_left db nd k pos \<and> (pos < l_len nd \<longrightarrow> l_blindiKeys nd ! (pos - 1) = l_right db nd k pos)"
    "\<not> rl \<Longrightarrow> pos < l_len nd \<and> d = l_right db nd k pos \<and> (0 < pos \<longrightarrow> l_blindiKeys nd ! (pos - 1) = l_left db nd k pos)" "d mod 256 = d"
proof -
  note R = l_readyD [OF assms] and N = lnode_okD [OF l_readyD(1) [OF assms]]
  show "rl \<Longrightarrow> 0 < pos \<and> d = l_left db nd k pos \<and> (pos < l_len nd \<longrightarrow> l_blindiKeys nd ! (pos - 1) = l_right db nd k pos)"
    using R(6) [OF refl] N(6) [of "pos - 1"] N(7) by (auto simp: l_place_def bl.gap_def l_left_def l_right_def)
  show "\<not> rl \<Longrightarrow> pos < l_len nd \<and> d = l_right db nd k pos \<and> (0 < pos \<longrightarrow> l_blindiKeys nd ! (pos - 1) = l_left db nd k pos)"
    using R(6) [OF refl] N(6) [of "pos - 1"] N(7) by (auto simp: l_place_def bl.gap_def l_left_def l_right_def)
  show "d mod 256 = d" using R(6) [OF refl] by simp
qed

text \<open>The arrays after the insertion make a node with the new key.\<close>

lemma l_inserted:
  assumes "l_ready c db cmp nd k pos given" "length bk = length (l_blindiKeys nd)" "length dp = length (l_data_ptr nd)"
    and dp: "\<And>i. i < Suc (l_len nd) \<Longrightarrow> dp ! i = (if i < pos then l_data_ptr nd ! i else if i = pos then k else l_data_ptr nd ! (i - 1))"
    and bk: "\<And>i. i < l_len nd \<Longrightarrow> bk ! i = (if Suc i < pos then l_blindiKeys nd ! i else if Suc i = pos then l_left db nd k pos
      else if i = pos then l_right db nd k pos else l_blindiKeys nd ! (i - 1))"
  shows "lnode_ok c db (nd \<lparr> l_blindiKeys := bk, l_data_ptr := dp, l_len := Suc (l_len nd) \<rparr>)"
    and "l_ptrs (nd \<lparr> l_blindiKeys := bk, l_data_ptr := dp, l_len := Suc (l_len nd) \<rparr>) = take pos (l_ptrs nd) @ k # drop pos (l_ptrs nd)"
proof -
  let ?nd = "nd \<lparr> l_blindiKeys := bk, l_data_ptr := dp, l_len := Suc (l_len nd) \<rparr>" and ?ks = "l_keys db nd" and ?n = "l_len nd"
  note R = l_readyD [OF assms(1)] and N = lnode_okD [OF l_readyD(1) [OF assms(1)]]
  show ptrs: "l_ptrs ?nd = take pos (l_ptrs nd) @ k # drop pos (l_ptrs nd)"
  proof (rule nth_equalityI)
    show "length (l_ptrs ?nd) = length (take pos (l_ptrs nd) @ k # drop pos (l_ptrs nd))"
      using N(2,8) R(2,4) assms(3) by (simp add: l_ptrs_def)
    fix i assume "i < length (l_ptrs ?nd)"
    then have i: "i < Suc ?n" using assms(3) N(2) R(2) by (simp add: l_ptrs_def)
    have "i - 1 < ?n" if "\<not> i < pos" "i \<noteq> pos" using that i by simp
    then show "l_ptrs ?nd ! i = (take pos (l_ptrs nd) @ k # drop pos (l_ptrs nd)) ! i"
      using i N(2,8) R(4) dp [OF i] by (auto simp: l_ptrs_def nth_append nth_Cons' min_def)
  qed
  let ?new = "take pos ?ks @ db k # drop pos ?ks"
  have keys: "l_keys db ?nd = ?new" unfolding l_keys_def [of db ?nd] ptrs by (simp add: l_keys_def take_map drop_map)
  have "bl.ordered (KEY_SIZE_BYTE c) ?new" by (rule bl.ordered_insert [OF N(5) R(5)]) (use R(4,7,8) N(7) in auto)
  moreover have "bk ! i = bdif ?new i" if "i < ?n" for i
    using bl.bks_insert [of pos ?ks i "db k"] bk [OF that] R(4) that N(6) [of i] N(6) [of "i - 1"] N(7) by (auto simp: l_left_def l_right_def)
  ultimately show "lnode_ok c db ?nd" using keys assms(2,3) N(1,2) R(2) by (simp add: lnode_ok_def l_raw_def)
qed

text \<open>Writing the cell left of the new key.\<close>

lemma l_left_cell:
  assumes "l_ready c db cmp nd k pos given" "0 < pos" "pos - 1 < length (l_blindiKeys nd')" "l_bring_key db nd' (pos - 1) = Some (l_keys db nd ! (pos - 1))"
    and "pos < l_len nd \<Longrightarrow> l_blindiKeys nd' ! (pos - 1) = l_blindiKeys nd ! (pos - 1)"
  shows "(case given of None \<Rightarrow> do { predecessor_key \<leftarrow> l_bring_key db nd' (pos - 1); put (l_blindiKeys nd') (pos - 1) (fst (cmp (db k) predecessor_key) mod 256) }
    | Some (diff_pos, right_left) \<Rightarrow> if right_left then put (l_blindiKeys nd') (pos - 1) (diff_pos mod 256) else Some (l_blindiKeys nd'))
    = Some ((l_blindiKeys nd')[pos - 1 := l_left db nd k pos])"
proof (cases given)
  case None
  then show ?thesis using l_ready_compare(1) [OF assms(1,2)] assms(3,4) by simp
next
  case (Some g)
  obtain d rl where g: "g = (d, rl)" by (cases g)
  note G = l_ready_given [OF assms(1) [unfolded Some g]]
  show ?thesis
  proof (cases rl)
    case True
    then show ?thesis using Some g G(1,3) assms(3) by simp
  next
    case False
    then have "l_blindiKeys nd' ! (pos - 1) = l_left db nd k pos" using G(2) assms(2,5) by simp
    then have "(l_blindiKeys nd')[pos - 1 := l_left db nd k pos] = l_blindiKeys nd'" by (metis list_update_id)
    then show ?thesis using Some g False by simp
  qed
qed

lemma l_insert_last:
  assumes "l_ready c db cmp nd k pos given" "pos = l_len nd"
  shows "\<exists>nd'. l_insert_position db cmp nd (pos - 1) (db k) k (pos = 0) given = Some nd' \<and> lnode_ok c db nd'
    \<and> l_ptrs nd' = take pos (l_ptrs nd) @ k # drop pos (l_ptrs nd)"
proof -
  note R = l_readyD [OF assms(1)] and N = lnode_okD [OF l_readyD(1) [OF assms(1)]]
  let ?n = "l_len nd" and ?dp = "l_data_ptr nd" and ?bk = "l_blindiKeys nd" and ?l = "l_left db nd k pos"
  have p0: "0 < pos" using assms(2) N(3) by simp
  have "l_bring_key db nd (pos - 1) = Some (l_keys db nd ! (pos - 1))" using p0 assms(2) N by (simp add: l_bring_key_def)
  note val = l_left_cell [OF assms(1) p0 _ this]
  have run: "l_insert_position db cmp nd (pos - 1) (db k) k (pos = 0) given
    = Some (nd \<lparr> l_blindiKeys := ?bk[pos - 1 := ?l], l_data_ptr := ?dp[?n := k], l_len := Suc ?n \<rparr>)"
    unfolding l_insert_position_def Let_def assms(2) using val [unfolded assms(2)] N(1-4) R(2,3) by simp
  have "lnode_ok c db (nd \<lparr> l_blindiKeys := ?bk[pos - 1 := ?l], l_data_ptr := ?dp[?n := k], l_len := Suc ?n \<rparr>)"
    "l_ptrs (nd \<lparr> l_blindiKeys := ?bk[pos - 1 := ?l], l_data_ptr := ?dp[?n := k], l_len := Suc ?n \<rparr>) = take pos (l_ptrs nd) @ k # drop pos (l_ptrs nd)"
    by (rule l_inserted [OF assms(1)]; use assms(2) N(1,2,4) R(2) p0 in \<open>auto simp: nth_list_update\<close>)+
  with run show ?thesis by blast
qed

text \<open>The arrays after the shift that makes room for a key in the middle.\<close>

lemma l_shifted:
  assumes "l_ready c db cmp nd k pos given" "pos < l_len nd"
  obtains bk1 dp1 bk2 dp2 where
    "shift_up (l_blindiKeys nd) (pos - 1 + 1) (l_len nd - 2 - (pos - 1)) = Some bk1" "shift_up (l_data_ptr nd) (pos - 1 + 1) (l_len nd - 2 - (pos - 1)) = Some dp1"
    "put dp1 (l_len nd) (l_data_ptr nd ! (l_len nd - 1)) = Some (dp1[l_len nd := l_data_ptr nd ! (l_len nd - 1)])"
    "(if pos = 0 then do { x \<leftarrow> get (dp1[l_len nd := l_data_ptr nd ! (l_len nd - 1)]) 0; put (dp1[l_len nd := l_data_ptr nd ! (l_len nd - 1)]) 1 x }
      else Some (dp1[l_len nd := l_data_ptr nd ! (l_len nd - 1)])) = Some dp2"
    "(if pos = 0 \<and> 1 < l_len nd then do { b \<leftarrow> get bk1 0; put bk1 1 b } else Some bk1) = Some bk2"
    "length dp2 = length (l_data_ptr nd)" "length bk2 = length (l_blindiKeys nd)"
    "\<And>i. i < Suc (l_len nd) \<Longrightarrow> dp2[pos := k] ! i = (if i < pos then l_data_ptr nd ! i else if i = pos then k else l_data_ptr nd ! (i - 1))"
    "\<And>i. i < l_len nd \<Longrightarrow> i \<noteq> pos \<Longrightarrow> bk2 ! i = (if i < pos then l_blindiKeys nd ! i else l_blindiKeys nd ! (i - 1))"
proof -
  note R = l_readyD [OF assms(1)] and N = lnode_okD [OF l_readyD(1) [OF assms(1)]] and lt = assms(2)
  let ?n = "l_len nd" and ?dp = "l_data_ptr nd" and ?bk = "l_blindiKeys nd"
  define ip where "ip = pos - 1"
  define m where "m = ?n - 2 - ip"
  have m: "m = 0 \<and> ?n \<le> Suc (Suc ip) \<or> ip + 1 + m = ?n - 1" by (auto simp: m_def)
  have pre: "ip + 1 + m < length ?bk" "ip + 1 + m < length ?dp" if "0 < m" using that m N(1,2,4) R(2) by auto
  from shift_up_spec [OF pre(1)] obtain bk1 where
    bk1: "shift_up ?bk (ip + 1) m = Some bk1" "length bk1 = length ?bk"
      "\<And>i. bk1 ! i = (if ip + 1 < i \<and> i \<le> ip + 1 + m then ?bk ! (i - 1) else ?bk ! i)" by blast
  from shift_up_spec [OF pre(2)] obtain dp1 where
    dp1: "shift_up ?dp (ip + 1) m = Some dp1" "length dp1 = length ?dp"
      "\<And>i. dp1 ! i = (if ip + 1 < i \<and> i \<le> ip + 1 + m then ?dp ! (i - 1) else ?dp ! i)" by blast
  define dp2 where "dp2 = (let dp = dp1[?n := ?dp ! (?n - 1)] in if pos = 0 then dp[1 := dp ! 0] else dp)"
  define bk2 where "bk2 = (if pos = 0 \<and> 1 < ?n then bk1[1 := bk1 ! 0] else bk1)"
  have nz: "dp1 \<noteq> []" "bk1 \<noteq> []" "?dp \<noteq> []" "?bk \<noteq> []" "?n < length ?dp" "?n < length ?bk" using N(1,2,3) dp1(2) bk1(2) R(2) by auto
  show thesis
  proof
    show "shift_up ?bk (pos - 1 + 1) (?n - 2 - (pos - 1)) = Some bk1" "shift_up ?dp (pos - 1 + 1) (?n - 2 - (pos - 1)) = Some dp1"
      using bk1(1) dp1(1) by (simp_all only: ip_def m_def)
    show "put dp1 ?n (?dp ! (?n - 1)) = Some (dp1[?n := ?dp ! (?n - 1)])" using nz dp1(2) by simp
    show "(if pos = 0 then do { x \<leftarrow> get (dp1[?n := ?dp ! (?n - 1)]) 0; put (dp1[?n := ?dp ! (?n - 1)]) 1 x }
      else Some (dp1[?n := ?dp ! (?n - 1)])) = Some dp2" using nz lt dp1(2) by (simp add: dp2_def Let_def)
    show "(if pos = 0 \<and> 1 < ?n then do { b \<leftarrow> get bk1 0; put bk1 1 b } else Some bk1) = Some bk2" using nz lt bk1(2) by (simp add: bk2_def)
    show "length dp2 = length ?dp" "length bk2 = length ?bk" using dp1(2) bk1(2) by (simp_all add: dp2_def bk2_def Let_def)
    show "dp2[pos := k] ! i = (if i < pos then ?dp ! i else if i = pos then k else ?dp ! (i - 1))" if "i < Suc ?n" for i
      using that N(3) lt m nz dp1(2) by (cases "pos = 0") (auto simp: dp1(3) dp2_def Let_def ip_def nth_list_update)
    show "bk2 ! i = (if i < pos then ?bk ! i else ?bk ! (i - 1))" if "i < ?n" "i \<noteq> pos" for i
      using that N(3) lt m nz bk1(2) by (cases "pos = 0") (auto simp: bk1(3) bk2_def ip_def nth_list_update)
  qed
qed

lemma l_right_cell:
  assumes "l_ready c db cmp nd k pos given" "pos < l_len nd" "l_bring_key db nd' (pos + 1) = Some (l_keys db nd ! pos)"
    and "pos - 1 < length bk" "0 < pos \<Longrightarrow> bk ! (pos - 1) = l_blindiKeys nd ! (pos - 1)"
  shows "(case given of None \<Rightarrow> do { successor_key \<leftarrow> l_bring_key db nd' (pos + 1); Some (fst (cmp successor_key (db k)) mod 256) }
    | Some (diff_pos, right_left) \<Rightarrow> if right_left then get bk (pos - 1) else Some (diff_pos mod 256)) = Some (l_right db nd k pos)"
proof (cases given)
  case None
  then show ?thesis using l_ready_compare(2) [OF assms(1,2)] assms(3) by simp
next
  case (Some g)
  obtain d rl where g: "g = (d, rl)" by (cases g)
  note G = l_ready_given [OF assms(1) [unfolded Some g]]
  show ?thesis using G assms(2,4,5) Some g by (cases rl) simp_all
qed

lemma l_insert_middle:
  assumes "l_ready c db cmp nd k pos given" "pos < l_len nd"
  shows "\<exists>nd'. l_insert_position db cmp nd (pos - 1) (db k) k (pos = 0) given = Some nd' \<and> lnode_ok c db nd'
    \<and> l_ptrs nd' = take pos (l_ptrs nd) @ k # drop pos (l_ptrs nd)"
proof -
  note R = l_readyD [OF assms(1)] and N = lnode_okD [OF l_readyD(1) [OF assms(1)]] and lt = assms(2)
  let ?n = "l_len nd" and ?dp = "l_data_ptr nd" and ?bk = "l_blindiKeys nd" and ?l = "l_left db nd k pos" and ?r = "l_right db nd k pos"
  obtain bk1 dp1 bk2 dp2 where sh: "shift_up ?bk (pos - 1 + 1) (?n - 2 - (pos - 1)) = Some bk1" "shift_up ?dp (pos - 1 + 1) (?n - 2 - (pos - 1)) = Some dp1"
    and s: "put dp1 ?n (?dp ! (?n - 1)) = Some (dp1[?n := ?dp ! (?n - 1)])"
    and t: "(if pos = 0 then do { x \<leftarrow> get (dp1[?n := ?dp ! (?n - 1)]) 0; put (dp1[?n := ?dp ! (?n - 1)]) 1 x }
      else Some (dp1[?n := ?dp ! (?n - 1)])) = Some dp2"
    and u: "(if pos = 0 \<and> 1 < ?n then do { b \<leftarrow> get bk1 0; put bk1 1 b } else Some bk1) = Some bk2"
    and len: "length dp2 = length ?dp" "length bk2 = length ?bk"
    and dp: "\<And>i. i < Suc ?n \<Longrightarrow> dp2[pos := k] ! i = (if i < pos then ?dp ! i else if i = pos then k else ?dp ! (i - 1))"
    and bkv: "\<And>i. i < ?n \<Longrightarrow> i \<noteq> pos \<Longrightarrow> bk2 ! i = (if i < pos then ?bk ! i else ?bk ! (i - 1))"
    by (rule l_shifted [OF assms]) (rule that; assumption)
  define bk3 where "bk3 = (if pos = 0 then bk2[0 := ?r] else bk2[pos := ?r, pos - 1 := ?l])"
  let ?nd = "nd \<lparr> l_blindiKeys := bk2[pos := ?r], l_data_ptr := dp2 \<rparr>"
  have nz: "?n < length ?dp" "?n < length ?bk" using N(1,2,3) R(2) by auto
  have dpv: "dp2 ! Suc pos = ?dp ! pos" "0 < pos \<Longrightarrow> dp2 ! (pos - 1) = ?dp ! (pos - 1)" using dp [of "Suc pos"] dp [of "pos - 1"] lt by auto
  have b: "(case given of None \<Rightarrow> do { successor_key \<leftarrow> l_bring_key db (nd \<lparr> l_blindiKeys := bk2, l_data_ptr := dp2 \<rparr>) (pos + 1); Some (fst (cmp successor_key (db k)) mod 256) }
    | Some (diff_pos, right_left) \<Rightarrow> if right_left then get bk2 (pos - 1) else Some (diff_pos mod 256)) = Some ?r"
    by (rule l_right_cell [OF assms]) (use lt nz len dpv(1) N(9) bkv [of "pos - 1"] in \<open>auto simp: l_bring_key_def\<close>)
  have c: "(if pos \<noteq> 0 \<and> ?n \<noteq> 0 then
       (case given of None \<Rightarrow> do { predecessor_key \<leftarrow> l_bring_key db ?nd (pos - 1); put (l_blindiKeys ?nd) (pos - 1) (fst (cmp (db k) predecessor_key) mod 256) }
        | Some (diff_pos, right_left) \<Rightarrow> if right_left then put (l_blindiKeys ?nd) (pos - 1) (diff_pos mod 256) else Some (l_blindiKeys ?nd))
     else Some (l_blindiKeys ?nd)) = Some bk3"
  proof (cases "pos = 0")
    case False
    then have p0: "0 < pos" by simp
    have k: "l_bring_key db ?nd (pos - 1) = Some (l_keys db nd ! (pos - 1))" using lt nz(1) len dpv(2) [OF p0] N(9) by (simp add: l_bring_key_def)
    have v: "l_blindiKeys ?nd ! (pos - 1) = ?bk ! (pos - 1)" using bkv [of "pos - 1"] p0 lt by simp
    have "pos - 1 < length (l_blindiKeys ?nd)" using lt nz(2) len by simp
    from l_left_cell [OF assms(1) p0 this k v] show ?thesis using p0 N(3) by (simp add: bk3_def)
  qed (simp add: bk3_def)
  have run: "l_insert_position db cmp nd (pos - 1) (db k) k (pos = 0) given = Some (nd \<lparr> l_blindiKeys := bk3, l_data_ptr := dp2[pos := k], l_len := Suc ?n \<rparr>)"
  proof -
    have at: "pos - 1 + 1 - of_bool (pos = 0) = pos" by simp
    have cond: "pos = 0 \<or> pos - 1 + 1 \<noteq> ?n \<and> ?n \<noteq> 0" using lt by (cases pos) auto
    have w: "get ?dp (?n - 1) = Some (?dp ! (?n - 1))" "put bk2 pos ?r = Some (bk2[pos := ?r])" "put dp2 pos k = Some (dp2[pos := k])" using lt nz len by simp_all
    have upd: "nd \<lparr> l_blindiKeys := bk2, l_data_ptr := dp2, l_blindiKeys := bk2[pos := ?r] \<rparr> = ?nd" by simp
    have n0: "(?n = 0) = False" "(?n + 1) mod 256 = Suc ?n" using N(3) R(3) by simp_all
    show ?thesis
      unfolding l_insert_position_def Let_def at
      by (simp only: n0 if_True if_False sh s t u b w bind.simps,
          simp only: cond [unfolded n0] if_True bind.simps upd c [unfolded n0], simp add: w)
  qed
  have "?bk \<noteq> []" using nz(2) by auto
  then have bk: "bk3 ! i = (if Suc i < pos then ?bk ! i else if Suc i = pos then ?l else if i = pos then ?r else ?bk ! (i - 1))" if "i < ?n" for i
    using bkv [of i] len lt nz that by (auto simp: bk3_def nth_list_update)
  have "length bk3 = length ?bk" "length (dp2[pos := k]) = length ?dp" using len by (simp_all add: bk3_def)
  note fin = l_inserted [OF assms(1) this dp bk]
  show ?thesis using run fin by blast
qed

lemma l_insert_position_spec:
  assumes "lcfg_ok c" "lnode_ok c db nd" "l_len nd < MAX_NODE_SIZE c" "length (db k) = KEY_SIZE_BYTE c" "compares (KEY_SIZE_BYTE c) cmp"
    and "pos \<le> l_len nd" "0 < pos \<Longrightarrow> key_less (l_keys db nd ! (pos - 1)) (db k)" "pos < l_len nd \<Longrightarrow> key_less (db k) (l_keys db nd ! pos)"
    and "\<And>d rl. given = Some (d, rl) \<Longrightarrow> d < 256 \<and> l_place db nd (db k) pos d rl"
  shows "\<exists>nd'. l_insert_position db cmp nd (pos - 1) (db k) k (pos = 0) given = Some nd' \<and> lnode_ok c db nd'
    \<and> l_ptrs nd' = take pos (l_ptrs nd) @ k # drop pos (l_ptrs nd)"
proof -
  have "l_ready c db cmp nd k pos given" using assms unfolding l_ready_def by blast
  then show ?thesis using l_insert_last l_insert_middle assms(6) by (cases "pos = l_len nd") auto
qed

text \<open>A node with no key is allowed as the start of insertions and the end of removals.\<close>

definition l_node :: "lcfg \<Rightarrow> db \<Rightarrow> lnode \<Rightarrow> bool" where
  "l_node c db nd \<longleftrightarrow> l_raw c nd \<and> l_len nd = 0 \<or> lnode_ok c db nd"

lemma l_place_bound:
  assumes "l_place db nd x pos d rl" "lnode_ok c db nd" "key_of_len (KEY_SIZE_BYTE c) x" "lcfg_ok c"
  shows "d < 256"
proof -
  note N = lnode_okD [OF assms(2)] and F = l_place_facts [OF assms(1)]
  have b: "key_dif a x < 256" if "key_of_len (KEY_SIZE_BYTE c) a" "a \<noteq> x" for a
    using key_dif_spec [OF that(1) assms(3) that(2)] assms(4) by (simp add: lcfg_ok_def)
  have s: "key_dif x a = key_dif a x" if "key_of_len (KEY_SIZE_BYTE c) a" "a \<noteq> x" for a
    by (rule bl.dif_sym [OF assms(3) that(1)]) (use that in auto)
  have v: "key_of_len (KEY_SIZE_BYTE c) (l_keys db nd ! i)" if "i < l_len nd" for i using bl.ordered_valid [OF N(5)] N(7) that by simp
  have "d = key_dif x (l_keys db nd ! pos) \<and> pos < l_len nd \<or> d = key_dif (l_keys db nd ! (pos - 1)) x \<and> 0 < pos"
    using assms(1) F(1) N(7) by (auto simp: l_place_def bl.gap_def split: if_splits)
  then show ?thesis
  proof
    assume d: "d = key_dif x (l_keys db nd ! pos) \<and> pos < l_len nd"
    have "l_keys db nd ! pos \<noteq> x" using F(3) N(7) d bl.lt_irrefl by auto
    then show ?thesis using d b [OF v] s [OF v] by simp
  next
    assume d: "d = key_dif (l_keys db nd ! (pos - 1)) x \<and> 0 < pos"
    have "l_keys db nd ! (pos - 1) \<noteq> x" using F(2) N(7) d bl.lt_irrefl by auto
    moreover have "pos - 1 < l_len nd" using F(1) N(7) d N(3) by linarith
    ultimately show ?thesis using d b [OF v] by simp
  qed
qed

lemma l_insert_spec:
  assumes "lcfg_ok c" "l_node c db nd" "length (db k) = KEY_SIZE_BYTE c" "compares (KEY_SIZE_BYTE c) cmp"
  shows "\<exists>res nd'. l_insert c db cmp nd (db k) k = Some (res, nd')
    \<and> res = (if l_len nd = MAX_NODE_SIZE c then INSERT_OVERFLOW else if db k \<in> set (l_keys db nd) then INSERT_DUPLICATED_KEY else INSERT_SUCCESS)
    \<and> (res \<noteq> INSERT_SUCCESS \<longrightarrow> nd' = nd)
    \<and> (res = INSERT_SUCCESS \<longrightarrow> lnode_ok c db nd' \<and> (\<exists>pos. l_ptrs nd' = take pos (l_ptrs nd) @ k # drop pos (l_ptrs nd)))"
proof (cases "l_len nd = 0")
  case True
  then have raw: "l_raw c nd" using assms(2) by (auto simp: l_node_def lnode_ok_def)
  have M: "2 \<le> MAX_NODE_SIZE c" "length (l_data_ptr nd) = MAX_NODE_SIZE c" using assms(1) raw by (simp_all add: lcfg_ok_def l_raw_def)
  then obtain a xs where a: "l_data_ptr nd = a # xs" by (cases "l_data_ptr nd") auto
  have "lnode_ok c db (nd \<lparr> l_data_ptr := k # xs, l_len := 1 \<rparr>)"
    using assms(3) raw a M by (simp add: lnode_ok_def l_raw_def l_keys_def l_ptrs_def bl.ordered_def key_of_len_def)
  moreover have "l_ptrs (nd \<lparr> l_data_ptr := k # xs, l_len := 1 \<rparr>) = [k]" "l_ptrs nd = []" using True by (simp_all add: l_ptrs_def)
  ultimately show ?thesis using True M a by (simp add: l_insert_def l_first_insert_def l_keys_def)
next
  case False
  then have ok: "lnode_ok c db nd" using assms(2) by (auto simp: l_node_def)
  show ?thesis
  proof (cases "l_len nd = MAX_NODE_SIZE c")
    case True
    then show ?thesis by (simp add: l_insert_def)
  next
    case nf: False
    then have lt: "l_len nd < MAX_NODE_SIZE c" using lnode_okD(4) [OF ok] by simp
    from l_search_spec [OF assms(1) ok assms(3,4), of PREDECESSOR_SEARCH "Some False", unfolded l_flag_false] obtain r where
      r: "BlindiNode_search c db cmp nd (db k) PREDECESSOR_SEARCH (Some False) = Some r" "ls_hit r = (db k \<in> set (l_keys db nd))"
      "\<not> ls_hit r \<longrightarrow> (\<exists>pos. ls_position r = pos - 1 \<and> ls_smaller r = Some (pos = 0) \<and> l_place db nd (db k) pos (ls_diff_pos r) (ls_right_left r))" by blast
    show ?thesis
    proof (cases "ls_hit r")
      case True
      then show ?thesis using r(1,2) False nf by (simp add: l_insert_def)
    next
      case miss: False
      then obtain pos where p: "ls_position r = pos - 1" "ls_smaller r = Some (pos = 0)" "l_place db nd (db k) pos (ls_diff_pos r) (ls_right_left r)"
        using r(3) by blast
      note F = l_place_facts [OF p(3) lnode_okD(7) [OF ok]]
      have "ls_diff_pos r < 256" by (rule l_place_bound [OF p(3) ok _ assms(1)]) (simp add: key_of_len_def assms(3))
      then obtain nd' where "l_insert_position db cmp nd (pos - 1) (db k) k (pos = 0) (Some (ls_diff_pos r, ls_right_left r)) = Some nd'"
        "lnode_ok c db nd'" "l_ptrs nd' = take pos (l_ptrs nd) @ k # drop pos (l_ptrs nd)"
        using l_insert_position_spec [OF assms(1) ok lt assms(3,4) F, of "Some (ls_diff_pos r, ls_right_left r)"] p(3) by auto
      then show ?thesis using r(1,2) p(1,2) miss nf False by (auto simp: l_insert_def)
    qed
  qed
qed

section \<open>Removal\<close>

text \<open>The node after the removal, from its arrays.\<close>

lemma l_removed:
  assumes "lnode_ok c db nd" "p < l_len nd" "l_raw c nd'" "l_len nd' = l_len nd - 1"
    and dp: "\<And>i. i < l_len nd - 1 \<Longrightarrow> l_data_ptr nd' ! i = l_data_ptr nd ! (if i < p then i else Suc i)"
    and bk: "\<And>i. Suc i < l_len nd - 1 \<Longrightarrow> l_blindiKeys nd' ! i =
      (if Suc i < p then l_blindiKeys nd ! i else if Suc i = p then min (l_blindiKeys nd ! i) (l_blindiKeys nd ! p) else l_blindiKeys nd ! Suc i)"
  shows "l_node c db nd'" "l_ptrs nd' = take p (l_ptrs nd) @ drop (Suc p) (l_ptrs nd)"
proof -
  note N = lnode_okD [OF assms(1)]
  show ptrs: "l_ptrs nd' = take p (l_ptrs nd) @ drop (Suc p) (l_ptrs nd)"
  proof (rule nth_equalityI)
    show "length (l_ptrs nd') = length (take p (l_ptrs nd) @ drop (Suc p) (l_ptrs nd))"
      using assms(2-4) N(4,8) by (simp add: l_ptrs_def l_raw_def)
    fix i assume "i < length (l_ptrs nd')"
    then have i: "i < l_len nd - 1" using assms(3,4) N(4) by (simp add: l_ptrs_def l_raw_def)
    then show "l_ptrs nd' ! i = (take p (l_ptrs nd) @ drop (Suc p) (l_ptrs nd)) ! i"
      using dp [OF i] assms(2,4) N(2,4) bl.nth_remove [of p "l_ptrs nd" i] N(8) by (auto simp: l_ptrs_def)
  qed
  have keys: "l_keys db nd' = take p (l_keys db nd) @ drop (Suc p) (l_keys db nd)" by (simp add: l_keys_def ptrs take_map drop_map)
  show "l_node c db nd'"
  proof (cases "l_len nd' = 0")
    case True
    then show ?thesis using assms(3) by (simp add: l_node_def)
  next
    case False
    have pk: "p < length (l_keys db nd)" using assms(2) N(7) by simp
    have "bl.ordered (KEY_SIZE_BYTE c) (l_keys db nd')" unfolding keys by (rule bl.ordered_remove [OF N(5) pk])
    moreover have "l_blindiKeys nd' ! i = bdif (l_keys db nd') i" if "Suc i < l_len nd'" for i
    proof -
      have i: "Suc i < l_len nd - 1" using that assms(4) by simp
      then have "bdif (l_keys db nd') i = (if Suc i < p then bdif (l_keys db nd) i else if Suc i = p then min (bdif (l_keys db nd) i) (bdif (l_keys db nd) p)
        else bdif (l_keys db nd) (Suc i))" unfolding keys using bl.bks_remove [OF N(5) pk] N(7) by simp
      then show ?thesis using bk [OF i] i N(6) [of i] N(6) [of p] N(6) [of "Suc i"] by auto
    qed
    ultimately show ?thesis using assms(3,4) False N(4) by (simp add: l_node_def lnode_ok_def)
  qed
qed

lemma l_remove_loop:
  fixes dp :: "ptr list" and bk :: "nat list"
  assumes "p + 1 < n" "n \<le> length dp" "n - 1 \<le> length bk"
  shows "\<exists>dp' bk'. loop_up (\<lambda>i (dp, bk). do { x \<leftarrow> get dp i; dp \<leftarrow> put dp (i - 1) x; y \<leftarrow> get bk i; bk \<leftarrow> put bk (i - 1) y; Some (dp, bk) })
      (p + 1) (n - 2 - p) (dp, bk) = Some (dp', bk') \<and> length dp' = length dp \<and> length bk' = length bk
    \<and> (\<forall>j. dp' ! j = dp ! (if p \<le> j \<and> Suc j < n - 1 then Suc j else j)) \<and> (\<forall>j. bk' ! j = bk ! (if p \<le> j \<and> Suc j < n - 1 then Suc j else j))"
proof -
  let ?f = "\<lambda>i (dp, bk). do { x \<leftarrow> get dp i; dp \<leftarrow> put dp (i - 1) x; y \<leftarrow> get bk i; bk \<leftarrow> put bk (i - 1) y; Some (dp, bk) }"
  define P where "P i s \<longleftrightarrow> length (fst s) = length dp \<and> length (snd s) = length bk
    \<and> (\<forall>j. fst s ! j = dp ! (if p \<le> j \<and> Suc j < i then Suc j else j)) \<and> (\<forall>j. snd s ! j = bk ! (if p \<le> j \<and> Suc j < i then Suc j else j))"
    for i and s :: "ptr list \<times> nat list"
  have "\<exists>s. loop_up ?f (p + 1) (n - 2 - p) (dp, bk) = Some s \<and> P (p + 1 + (n - 2 - p)) s"
  proof (rule loop_up_invariant)
    show "P (p + 1) (dp, bk)" by (auto simp: P_def)
    fix i s assume i: "p + 1 \<le> i" "i < p + 1 + (n - 2 - p)" and P: "P i s"
    obtain a b where s: "s = (a, b)" by (cases s)
    have l: "i < length a" "i < length b" "length a = length dp" "length b = length bk" using P i assms by (auto simp: P_def s)
    have "P (Suc i) (a[i - 1 := a ! i], b[i - 1 := b ! i])"
      using P i l by (auto simp: P_def s nth_list_update)
    then show "\<exists>s'. ?f i s = Some s' \<and> P (Suc i) s'" using l s i by simp
  qed
  moreover have "p + 1 + (n - 2 - p) = n - 1" using assms(1) by simp
  ultimately show ?thesis by (auto simp: P_def)
qed

lemma l_remove_position_spec:
  assumes "lnode_ok c db nd" "p < l_len nd" "lcfg_ok c"
  shows "\<exists>nd'. l_remove_position nd p = Some (if l_len nd = 1 then REMOVE_NODE_EMPTY else REMOVE_SUCCESS, nd') \<and> l_node c db nd'
    \<and> l_len nd' = l_len nd - 1 \<and> l_ptrs nd' = take p (l_ptrs nd) @ drop (Suc p) (l_ptrs nd)"
proof -
  note N = lnode_okD [OF assms(1)]
  let ?n = "l_len nd" and ?dp = "l_data_ptr nd" and ?bk = "l_blindiKeys nd"
  have len: "?n \<le> length ?dp" "?n \<le> length ?bk" using N(1-4) by simp_all
  have fin: ?thesis if run: "l_remove_position nd p = Some (if ?n = 1 then REMOVE_NODE_EMPTY else REMOVE_SUCCESS, nd \<lparr> l_data_ptr := dp', l_blindiKeys := bk', l_len := ?n - 1 \<rparr>)"
    and l: "length dp' = length ?dp" "length bk' = length ?bk"
    and dp: "\<And>i. i < ?n - 1 \<Longrightarrow> dp' ! i = ?dp ! (if i < p then i else Suc i)"
    and bk: "\<And>i. Suc i < ?n - 1 \<Longrightarrow> bk' ! i = (if Suc i < p then ?bk ! i else if Suc i = p then min (?bk ! i) (?bk ! p) else ?bk ! Suc i)" for dp' bk'
    using l_removed [OF assms(1,2), of "nd \<lparr> l_data_ptr := dp', l_blindiKeys := bk', l_len := ?n - 1 \<rparr>"] run l dp bk N(1,2)
    by (auto simp: l_raw_def)
  consider "?n = 1" | "1 < ?n" "p + 1 = ?n" | "?n = 2" "p = 0" | "2 < ?n" "p + 1 < ?n" using assms(2) by linarith
  then show ?thesis
  proof cases
    case 1
    show ?thesis by (rule fin [where dp' = ?dp and bk' = ?bk]) (use 1 assms(2) in \<open>simp_all add: l_remove_position_def\<close>)
  next
    case 2
    have "p < length ?dp" "p - 1 < length ?bk" "2 < ?n \<or> ?n = 2 \<and> p = 1" using 2 len by auto
    then show ?thesis by (intro fin [where dp' = "?dp[p := 0]" and bk' = "?bk[p - 1 := 0]"]) (use 2 in \<open>auto simp: l_remove_position_def Let_def\<close>)
  next
    case 3
    have "0 < length ?dp" "0 < length ?bk" "1 < length ?dp" using 3 len by linarith+
    then show ?thesis by (intro fin [where dp' = "?dp[0 := ?dp ! 1, 1 := 0]" and bk' = "?bk[0 := 0]"]) (use 3 in \<open>auto simp: l_remove_position_def Let_def\<close>)
  next
    case 4
    define bk0 where "bk0 = (if p \<noteq> 0 then ?bk[p - 1 := min (?bk ! p) (?bk ! (p - 1))] else ?bk)"
    have b0: "length bk0 = length ?bk" by (simp add: bk0_def)
    have "?n - 1 \<le> length bk0" using b0 len by simp
    from l_remove_loop [OF 4(2) len(1) this] obtain dp' bk' where
      l: "loop_up (\<lambda>i (dp, bk). do { x \<leftarrow> get dp i; dp \<leftarrow> put dp (i - 1) x; y \<leftarrow> get bk i; bk \<leftarrow> put bk (i - 1) y; Some (dp, bk) })
        (p + 1) (?n - 2 - p) (?dp, bk0) = Some (dp', bk')" "length dp' = length ?dp" "length bk' = length bk0"
      "\<And>j. dp' ! j = ?dp ! (if p \<le> j \<and> Suc j < ?n - 1 then Suc j else j)" "\<And>j. bk' ! j = bk0 ! (if p \<le> j \<and> Suc j < ?n - 1 then Suc j else j)" by blast
    have first: "(if p \<noteq> 0 then do { a \<leftarrow> get ?bk p; b \<leftarrow> get ?bk (p - 1); put ?bk (p - 1) (min a b) } else Some ?bk) = Some bk0"
      using 4 len by (simp add: bk0_def)
    have g: "get dp' (?n - 1) = Some (?dp ! (?n - 1))" "put dp' (?n - 2) (?dp ! (?n - 1)) = Some (dp'[?n - 2 := ?dp ! (?n - 1)])"
    proof -
      have "\<not> Suc (?n - 1) < ?n - 1" by simp
      then have "dp' ! (?n - 1) = ?dp ! (?n - 1)" using l(4) [of "?n - 1"] by simp
      then show "get dp' (?n - 1) = Some (?dp ! (?n - 1))" "put dp' (?n - 2) (?dp ! (?n - 1)) = Some (dp'[?n - 2 := ?dp ! (?n - 1)])"
        using 4 len l(2) by simp_all
    qed
    have neg: "(p + 1 = ?n \<or> ?n \<le> 2) = False" using 4 by simp
    have "l_remove_position nd p = Some (REMOVE_SUCCESS, nd \<lparr> l_data_ptr := dp'[?n - 2 := ?dp ! (?n - 1)], l_blindiKeys := bk', l_len := ?n - 1 \<rparr>)"
      unfolding l_remove_position_def Let_def neg using first l(1) g by simp
    then show ?thesis
    proof (intro fin)
      show "(dp'[?n - 2 := ?dp ! (?n - 1)]) ! i = ?dp ! (if i < p then i else Suc i)" if "i < ?n - 1" for i
        using that 4 l(2,4) len by (auto simp: nth_list_update Suc_diff_Suc numeral_2_eq_2)
      show "bk' ! i = (if Suc i < p then ?bk ! i else if Suc i = p then min (?bk ! i) (?bk ! p) else ?bk ! Suc i)" if "Suc i < ?n - 1" for i
        using that 4 l(5) len by (auto simp: bk0_def nth_list_update min.commute)
    qed (use 4 l(2,3) b0 in auto)
  qed
qed

lemma l_remove_spec:
  assumes "lcfg_ok c" "lnode_ok c db nd" "length x = KEY_SIZE_BYTE c" "compares (KEY_SIZE_BYTE c) cmp"
  shows "\<exists>res nd'. l_remove c db cmp nd x = Some (res, nd') \<and> l_node c db nd' \<and> l_ptrs nd' = filter (\<lambda>p. db p \<noteq> x) (l_ptrs nd)
    \<and> res = (if x \<notin> set (l_keys db nd) then REMOVE_KEY_NOT_FOUND else if l_len nd = 1 then REMOVE_NODE_EMPTY
             else if l_len nd' < MAX_NODE_SIZE c div 2 then REMOVE_UNDERFLOW else REMOVE_SUCCESS)"
proof -
  note N = lnode_okD [OF assms(2)]
  from l_search_spec [OF assms] obtain r where r: "BlindiNode_search c db cmp nd x POINT_SEARCH (Some False) = Some r"
    "ls_hit r = (x \<in> set (l_keys db nd))" "ls_hit r \<longrightarrow> ls_position r < l_len nd \<and> l_keys db nd ! ls_position r = x" by blast
  show ?thesis
  proof (cases "ls_hit r")
    case False
    then have "filter (\<lambda>p. db p \<noteq> x) (l_ptrs nd) = l_ptrs nd" using r(2) by (auto simp: filter_id_conv l_keys_def)
    then show ?thesis using r False assms(2) by (simp add: l_remove_def l_node_def)
  next
    case True
    let ?p = "ls_position r"
    have p: "?p < l_len nd" "l_keys db nd ! ?p = x" using r(3) True by auto
    from l_remove_position_spec [OF assms(2) p(1) assms(1)] obtain nd' where
      n: "l_remove_position nd ?p = Some (if l_len nd = 1 then REMOVE_NODE_EMPTY else REMOVE_SUCCESS, nd')" "l_node c db nd'"
        "l_len nd' = l_len nd - 1" "l_ptrs nd' = take ?p (l_ptrs nd) @ drop (Suc ?p) (l_ptrs nd)" by blast
    have d: "distinct (l_keys db nd)" by (rule bl.ordered_distinct [OF N(5)])
    have split: "l_ptrs nd = take ?p (l_ptrs nd) @ l_ptrs nd ! ?p # drop (Suc ?p) (l_ptrs nd)" using id_take_nth_drop p(1) N(8) by metis
    have x: "db (l_ptrs nd ! ?p) = x" using p N(8) by (simp add: l_keys_def)
    have "distinct (map db (take ?p (l_ptrs nd) @ l_ptrs nd ! ?p # drop (Suc ?p) (l_ptrs nd)))" using d split by (simp add: l_keys_def)
    then have "\<forall>q \<in> set (take ?p (l_ptrs nd)) \<union> set (drop (Suc ?p) (l_ptrs nd)). db q \<noteq> x" unfolding x [symmetric] by (auto simp: image_iff)
    then have "filter (\<lambda>p. db p \<noteq> x) (take ?p (l_ptrs nd) @ l_ptrs nd ! ?p # drop (Suc ?p) (l_ptrs nd)) = l_ptrs nd'"
      using x unfolding n(4) by (simp add: filter_id_conv)
    then have "l_ptrs nd' = filter (\<lambda>p. db p \<noteq> x) (l_ptrs nd)" using split by simp
    then show ?thesis using r(1,2) True n(1-3) by (auto simp: l_remove_def)
  qed
qed

section \<open>Split\<close>

text \<open>A part of the keys with its blindi keys is a node.\<close>

lemma l_slice:
  assumes "lnode_ok c db nd" "l_raw c nd'" "j + l_len nd' \<le> l_len nd" "0 < l_len nd'"
    and "\<And>i. i < l_len nd' \<Longrightarrow> l_data_ptr nd' ! i = l_data_ptr nd ! (j + i)"
    and "\<And>i. Suc i < l_len nd' \<Longrightarrow> l_blindiKeys nd' ! i = l_blindiKeys nd ! (j + i)"
  shows "lnode_ok c db nd'" "l_ptrs nd' = take (l_len nd') (drop j (l_ptrs nd))"
proof -
  note N = lnode_okD [OF assms(1)]
  show ptrs: "l_ptrs nd' = take (l_len nd') (drop j (l_ptrs nd))"
  proof (rule nth_equalityI)
    show "length (l_ptrs nd') = length (take (l_len nd') (drop j (l_ptrs nd)))"
      using assms(2,3) N(4,8) by (simp add: l_ptrs_def l_raw_def)
    show "l_ptrs nd' ! i = take (l_len nd') (drop j (l_ptrs nd)) ! i" if "i < length (l_ptrs nd')" for i
      using that assms(2,3,5) N(2,4,8) by (simp add: l_ptrs_def)
  qed
  have keys: "l_keys db nd' = take (l_len nd') (drop j (l_keys db nd))" by (simp add: l_keys_def ptrs take_map drop_map)
  have "bdif (l_keys db nd') i = bdif (l_keys db nd) (j + i)" if "Suc i < l_len nd'" for i
    unfolding keys using that assms(3) N(7) by (simp add: bl.bks_take bl.bks_drop)
  then show "lnode_ok c db nd'"
    using assms N(4,6) bl.ordered_take [OF bl.ordered_drop [OF N(5)]] keys by (simp add: lnode_ok_def)
qed

lemma l_split_node_spec:
  assumes "lcfg_ok c" "lnode_ok c db nd" "l_len nd = MAX_NODE_SIZE c" "l_raw c right"
  defines "H \<equiv> MAX_NODE_SIZE c div 2"
  shows "\<exists>a b. l_split_node c nd right = Some (a, b) \<and> lnode_ok c db a \<and> lnode_ok c db b
    \<and> l_ptrs a = take H (l_ptrs nd) \<and> l_ptrs b = drop H (l_ptrs nd) \<and> l_len a = H \<and> l_len b = H"
proof -
  note N = lnode_okD [OF assms(2)]
  let ?dp = "l_data_ptr nd" and ?bk = "l_blindiKeys nd"
  have M: "MAX_NODE_SIZE c = 2 * H" "0 < H" using assms(1) by (auto simp: lcfg_ok_def H_def elim!: evenE)
  have lr: "length (l_data_ptr right) = 2 * H" "length (l_blindiKeys right) = 4 * H - 1" "length ?dp = 2 * H" "length ?bk = 4 * H - 1"
    using assms(4) N(1,2) M by (simp_all add: l_raw_def)
  let ?f = "\<lambda>i (dp, bk, new_dp, new_bk). do {
            x \<leftarrow> get dp (H + i); new_dp \<leftarrow> put new_dp i x; dp \<leftarrow> put dp (H + i) 0;
            y \<leftarrow> get bk (H + i); new_bk \<leftarrow> put new_bk i y; bk \<leftarrow> put bk (H + i) 0;
            Some (dp, bk, new_dp, new_bk) }"
  define P where "P i s \<longleftrightarrow> (case s of (dp, bk, nd, nb) \<Rightarrow> length dp = 2 * H \<and> length bk = 4 * H - 1 \<and> length nd = 2 * H \<and> length nb = 4 * H - 1
    \<and> (\<forall>j. j < H \<or> H + i \<le> j \<longrightarrow> dp ! j = ?dp ! j \<and> bk ! j = ?bk ! j) \<and> (\<forall>j < i. nd ! j = ?dp ! (H + j) \<and> nb ! j = ?bk ! (H + j)))"
    for i and s :: "nat list \<times> nat list \<times> nat list \<times> nat list"
  have "\<exists>s. loop_up ?f 0 (H - 1) (?dp, ?bk, l_data_ptr right, l_blindiKeys right) = Some s \<and> P (0 + (H - 1)) s"
  proof (rule loop_up_invariant)
    show "P 0 (?dp, ?bk, l_data_ptr right, l_blindiKeys right)" using lr by (simp add: P_def)
    fix i s assume i: "0 \<le> i" "i < 0 + (H - 1)" and P: "P i s"
    obtain dp bk nd nb where s: "s = (dp, bk, nd, nb)" by (cases s)
    have l: "H + i < length dp" "H + i < length bk" "i < length nd" "i < length nb" using P i by (auto simp: P_def s)
    have "P (Suc i) (dp[H + i := 0], bk[H + i := 0], nd[i := dp ! (H + i)], nb[i := bk ! (H + i)])"
      using P l by (auto simp: P_def s nth_list_update less_Suc_eq)
    then show "\<exists>s'. ?f i s = Some s' \<and> P (Suc i) s'" using l s by simp
  qed
  then obtain dp bk ndp nbk where r: "loop_up ?f 0 (H - 1) (?dp, ?bk, l_data_ptr right, l_blindiKeys right) = Some (dp, bk, ndp, nbk)"
    "P (H - 1) (dp, bk, ndp, nbk)" by auto
  have g: "get dp (2 * H - 1) = Some (?dp ! (2 * H - 1))" using r(2) M(2) by (auto simp: P_def)
  let ?a = "nd \<lparr> l_data_ptr := dp[2 * H - 1 := 0], l_blindiKeys := bk[H - 1 := 0], l_len := H \<rparr>"
  let ?b = "right \<lparr> l_data_ptr := ndp[H - 1 := ?dp ! (2 * H - 1)], l_blindiKeys := nbk, l_len := H \<rparr>"
  have "H - 1 < length ndp" "2 * H - 1 < length dp" "H - 1 < length bk" using r(2) M(2) by (auto simp: P_def)
  then have "l_split_node c nd right = Some (?a, ?b)"
    using r(1) g M(2) unfolding l_split_node_def H_def [symmetric] Let_def by (simp add: M(1))
  moreover have "l_raw c ?a" "l_raw c ?b" using r(2) M(1) by (simp_all add: P_def l_raw_def)
  moreover have "lnode_ok c db ?a" "l_ptrs ?a = take (l_len ?a) (drop 0 (l_ptrs nd))"
    by (rule l_slice [where j = 0, OF assms(2) \<open>l_raw c ?a\<close>]; use r(2) M assms(3) in \<open>simp add: P_def\<close>)+
  moreover have "lnode_ok c db ?b" "l_ptrs ?b = take (l_len ?b) (drop H (l_ptrs nd))"
  proof -
    have v: "l_data_ptr ?b ! i = ?dp ! (H + i)" if "i < H" for i
    proof (cases "i = H - 1")
      case True
      then show ?thesis using r(2) M(2) by (simp add: P_def mult_2)
    next
      case False
      then show ?thesis using r(2) that by (simp add: P_def)
    qed
    show "lnode_ok c db ?b" "l_ptrs ?b = take (l_len ?b) (drop H (l_ptrs nd))"
      by (rule l_slice [where j = H, OF assms(2) \<open>l_raw c ?b\<close>]; use r(2) v M assms(3) in \<open>simp add: P_def\<close>)+
  qed
  moreover have "length (l_ptrs nd) = 2 * H" using N(8) assms(3) M(1) by simp
  ultimately show ?thesis by simp
qed

lemma l_split_spec:
  assumes "lcfg_ok c" "lnode_ok c db nd" "l_len nd = MAX_NODE_SIZE c" "l_raw c right" "length (db k) = KEY_SIZE_BYTE c"
    and "compares (KEY_SIZE_BYTE c) cmp" "db k \<notin> set (l_keys db nd)"
  shows "\<exists>pos \<le> l_len nd. (0 < pos \<longrightarrow> key_less (l_keys db nd ! (pos - 1)) (db k)) \<and> (pos < l_len nd \<longrightarrow> key_less (db k) (l_keys db nd ! pos))
    \<and> (if 0 < pos \<and> pos \<le> MAX_NODE_SIZE c div 2 then l_split c db cmp nd right (db k) k = None
    else \<exists>a b. l_split c db cmp nd right (db k) k = Some (a, b) \<and> lnode_ok c db a \<and> lnode_ok c db b
    \<and> l_ptrs a @ l_ptrs b = take pos (l_ptrs nd) @ k # drop pos (l_ptrs nd)
    \<and> MAX_NODE_SIZE c div 2 \<le> l_len a \<and> MAX_NODE_SIZE c div 2 \<le> l_len b \<and> bl.ordered (KEY_SIZE_BYTE c) (l_keys db a @ l_keys db b))"
proof -
  note N = lnode_okD [OF assms(2)]
  let ?H = "MAX_NODE_SIZE c div 2" and ?ks = "l_keys db nd" and ?ps = "l_ptrs nd"
  have M: "?H < MAX_NODE_SIZE c" "0 < ?H" "MAX_NODE_SIZE c = ?H + ?H" using assms(1) by (auto simp: lcfg_ok_def elim!: evenE)
  from l_search_spec [OF assms(1,2,5,6), of PREDECESSOR_SEARCH None] obtain r where
    r: "BlindiNode_search c db cmp nd (db k) PREDECESSOR_SEARCH None = Some r" "ls_hit r = (db k \<in> set ?ks)"
    "\<not> ls_hit r \<longrightarrow> (\<exists>pos. ls_position r = pos - 1 \<and> ls_smaller r = l_flag nd pos None \<and> l_place db nd (db k) pos (ls_diff_pos r) (ls_right_left r))" by blast
  then obtain pos where p: "ls_position r = pos - 1" "ls_smaller r = l_flag nd pos None" "l_place db nd (db k) pos (ls_diff_pos r) (ls_right_left r)"
    using assms(7) by blast
  note F = l_place_facts [OF p(3) N(7)]
  have pl: "pos \<le> length ?ks" using F(1) N(7) by simp
  have ord: "bl.ordered (KEY_SIZE_BYTE c) (take pos ?ks @ db k # drop pos ?ks)"
    by (rule bl.ordered_insert [OF N(5) _ pl]) (use F assms(5) N(7) in \<open>auto simp: key_of_len_def\<close>)
  from l_split_node_spec [OF assms(1-4)] obtain a b where
    s: "l_split_node c nd right = Some (a, b)" "lnode_ok c db a" "lnode_ok c db b" "l_ptrs a = take ?H ?ps" "l_ptrs b = drop ?H ?ps" "l_len a = ?H" "l_len b = ?H" by blast
  have ka: "l_keys db a = take ?H ?ks" "l_keys db b = drop ?H ?ks" by (simp_all add: l_keys_def s(4,5) take_map drop_map)
  have ln: "l_len nd \<noteq> 1" using M assms(3) by simp
  have fin: ?thesis if ok: "\<not> (0 < pos \<and> pos \<le> ?H)" and n: "l_split c db cmp nd right (db k) k = Some (a', b')" "lnode_ok c db a'" "lnode_ok c db b'"
    "l_ptrs a' @ l_ptrs b' = take pos ?ps @ k # drop pos ?ps" "?H \<le> length (l_ptrs a')" "?H \<le> length (l_ptrs b')" for a' b'
  proof -
    have "l_keys db a' @ l_keys db b' = map db (l_ptrs a' @ l_ptrs b')" by (simp add: l_keys_def)
    also have "\<dots> = take pos ?ks @ db k # drop pos ?ks" unfolding n(4) by (simp add: l_keys_def take_map drop_map)
    finally have "bl.ordered (KEY_SIZE_BYTE c) (l_keys db a' @ l_keys db b')" using ord by simp
    then have "\<exists>a b. l_split c db cmp nd right (db k) k = Some (a, b) \<and> lnode_ok c db a \<and> lnode_ok c db b
      \<and> l_ptrs a @ l_ptrs b = take pos ?ps @ k # drop pos ?ps \<and> ?H \<le> l_len a \<and> ?H \<le> l_len b \<and> bl.ordered (KEY_SIZE_BYTE c) (l_keys db a @ l_keys db b)"
      using n lnode_okD(8) [OF n(2)] lnode_okD(8) [OF n(3)] by auto
    then show ?thesis using F by (intro exI [of _ pos]) (simp only: if_not_P [OF ok], blast)
  qed
  show ?thesis
  proof (cases "?H \<le> pos - 1")
    case True
    let ?q = "pos - ?H"
    have q: "0 < ?q" "?H + (?q - 1) = pos - 1" "?H + ?q = pos" "?q \<le> l_len b" "pos - 1 - ?H = ?q - 1"
      using True M F(1) assms(3) s(7) by auto
    have lt: "l_len b < MAX_NODE_SIZE c" using s(7) M(1) by simp
    have hk: "?H \<le> length ?ks" using N(7) assms(3) M(1) by simp
    have fl: "key_less (l_keys db b ! (?q - 1)) (db k)" unfolding ka nth_drop [OF hk] q(2) using F(2) q(1) by simp
    have fr: "key_less (db k) (l_keys db b ! ?q)" if "?q < l_len b"
      unfolding ka nth_drop [OF hk] q(3) using F(3) that assms(3) s(7) M(3) by simp
    from l_insert_position_spec [OF assms(1) s(3) lt assms(5,6) q(4) fl fr, of None] obtain b' where
      b: "l_insert_position db cmp b (?q - 1) (db k) k (?q = 0) None = Some b'" "lnode_ok c db b'" "l_ptrs b' = take ?q (l_ptrs b) @ k # drop ?q (l_ptrs b)"
      by auto
    have "l_split c db cmp nd right (db k) k = Some (a, b')"
      using r(1) p(1,2) s(1) b(1) True q(1,5) by (simp add: l_split_def)
    moreover have "l_ptrs a @ l_ptrs b' = take pos ?ps @ k # drop pos ?ps"
    proof -
      have "take ?H ?ps @ take ?q (drop ?H ?ps) = take pos ?ps" using q(3) by (metis take_add)
      then show ?thesis unfolding s(4,5) b(3) using q(3) by (simp add: add.commute flip: append_assoc)
    qed
    moreover have "?H \<le> length (l_ptrs a)" "?H \<le> length (l_ptrs b')" using lnode_okD(8) [OF s(2)] lnode_okD(8) [OF s(3)] s(6,7) b(3) by (simp_all add: min_def)
    moreover have "\<not> (0 < pos \<and> pos \<le> ?H)" using True M(2) by auto
    ultimately show ?thesis using fin s(2) b(2) by blast
  next
    case low: False
    show ?thesis
    proof (cases "pos = 0")
      case False
      then have "l_split c db cmp nd right (db k) k = None"
        using r(1) p(1,2) s(1) low ln by (simp add: l_split_def l_flag_def)
      then show ?thesis using False low F by (intro exI [of _ pos]) simp
    next
    case True
    then have q: "pos \<le> ?H" by simp
    then have qa: "pos \<le> l_len a" using s(6) by simp
    have lt: "l_len a < MAX_NODE_SIZE c" using s(6) M(1) by simp
    have fl: "key_less (l_keys db a ! (pos - 1)) (db k)" if "0 < pos" using F(2) that q unfolding ka by simp
    have fr: "key_less (db k) (l_keys db a ! pos)" if "pos < l_len a" using F(3) that s(6) assms(3) M(1) unfolding ka by simp
    from l_insert_position_spec [OF assms(1) s(2) lt assms(5,6) qa fl fr, of None] obtain a' where
      b: "l_insert_position db cmp a (pos - 1) (db k) k (pos = 0) None = Some a'" "lnode_ok c db a'" "l_ptrs a' = take pos (l_ptrs a) @ k # drop pos (l_ptrs a)"
      by auto
    have "l_split c db cmp nd right (db k) k = Some (a', b)"
      using r(1) p(1,2) s(1) b(1) low True by (simp add: l_split_def l_flag_def)
    moreover have "l_ptrs a' @ l_ptrs b = take pos ?ps @ k # drop pos ?ps"
    proof -
      have "drop pos (take ?H ?ps) @ drop ?H ?ps = drop pos ?ps"
        using q by (metis append_take_drop_id drop_append drop_drop drop_take le_add_diff_inverse2)
      then show ?thesis unfolding s(4,5) b(3) using q by (simp add: min_absorb1)
    qed
    moreover have "?H \<le> length (l_ptrs a')" "?H \<le> length (l_ptrs b)" using lnode_okD(8) [OF s(2)] lnode_okD(8) [OF s(3)] s(6,7) b(3) by (simp_all add: min_def)
    moreover have "\<not> (0 < pos \<and> pos \<le> ?H)" using True by simp
    ultimately show ?thesis using fin s(3) b(2) by blast
    qed
  qed
qed

section \<open>Merge\<close>

lemma l_merge_body_spec:
  assumes "lcfg_ok c" "lnode_ok c db nd" "lnode_ok c db lg" "l_len nd + l_len lg \<le> MAX_NODE_SIZE c" "compares (KEY_SIZE_BYTE c) cmp"
    and "key_less (last (l_keys db nd)) (hd (l_keys db lg))"
  shows "\<exists>nd'. l_merge_body db cmp nd lg = Some nd' \<and> lnode_ok c db nd' \<and> l_ptrs nd' = l_ptrs nd @ l_ptrs lg"
proof -
  note N = lnode_okD [OF assms(2)] and L = lnode_okD [OF assms(3)]
  let ?n = "l_len nd" and ?m = "l_len lg" and ?ks = "l_keys db nd" and ?ls = "l_keys db lg"
  obtain dp0 bk0 where c: "copy_cells (l_data_ptr lg) 0 (l_data_ptr nd) ?n (?m - 1) = Some dp0"
    "copy_cells (l_blindiKeys lg) 0 (l_blindiKeys nd) ?n (?m - 1) = Some bk0"
    "dp0 = take ?n (l_data_ptr nd) @ take (?m - 1) (l_data_ptr lg) @ drop (?n + (?m - 1)) (l_data_ptr nd)"
    "bk0 = take ?n (l_blindiKeys nd) @ take (?m - 1) (l_blindiKeys lg) @ drop (?n + (?m - 1)) (l_blindiKeys nd)"
    using copy_cells_spec [of 0 "?m - 1" "l_data_ptr lg" ?n "l_data_ptr nd"] copy_cells_spec [of 0 "?m - 1" "l_blindiKeys lg" ?n "l_blindiKeys nd"]
      N(1-4) L(1-4) assms(4) by auto
  have len: "length dp0 = MAX_NODE_SIZE c" "length bk0 = 2 * MAX_NODE_SIZE c - 1" using c(3,4) N(1-4) L(1-4) assms(4) by auto
  have dpv: "dp0 ! i = (if i < ?n then l_data_ptr nd ! i else l_data_ptr lg ! (i - ?n))" if "i < ?n + ?m - 1" for i
    using that N(2,4) L(2-4) assms(4) by (auto simp: c(3) nth_append min_def)
  have bkv: "bk0 ! i = (if i < ?n then l_blindiKeys nd ! i else l_blindiKeys lg ! (i - ?n))" if "i < ?n + ?m - 1" for i
    using that N(1,3,4) L(1,3,4) assms(4) by (auto simp: c(4) nth_append min_def)
  let ?d = "key_dif (last ?ks) (hd ?ls)"
  have ne: "?ks \<noteq> []" "?ls \<noteq> []" using N(3,7) L(3,7) by auto
  have ends: "last ?ks = db (l_data_ptr nd ! (?n - 1))" "hd ?ls = db (l_data_ptr lg ! 0)"
    using ne N(3,7,9) L(3,7,9) by (simp_all add: last_conv_nth hd_conv_nth)
  have v: "key_of_len (KEY_SIZE_BYTE c) (last ?ks)" "key_of_len (KEY_SIZE_BYTE c) (hd ?ls)"
    using N(5) L(5) ne by (simp_all add: bl.ordered_def)
  have nq: "last ?ks \<noteq> hd ?ls" using assms(6) bl.lt_irrefl by auto
  have K: "KEY_SIZE_BYTE c \<le> 32" "?n + ?m < 256" using assms(1,4) by (simp_all add: lcfg_ok_def)
  have d: "fst (cmp (last ?ks) (hd ?ls)) mod 256 = ?d" by (rule compares_dif(4) [OF assms(5) v nq K(1)])
  let ?nd = "nd \<lparr> l_data_ptr := dp0[?n + ?m - 1 := l_data_ptr lg ! (?m - 1)], l_blindiKeys := bk0[?n - 1 := ?d], l_len := ?n + ?m \<rparr>"
  have g: "get (l_data_ptr lg) (?m - 1) = Some (l_data_ptr lg ! (?m - 1))" "get (l_data_ptr lg) 0 = Some (l_data_ptr lg ! 0)"
    "put dp0 (?n + ?m - 1) (l_data_ptr lg ! (?m - 1)) = Some (dp0[?n + ?m - 1 := l_data_ptr lg ! (?m - 1)])"
    "put bk0 (?n - 1) ?d = Some (bk0[?n - 1 := ?d])"
    using N(3,4) L(2-4) len assms(4) by auto
  have h: "get (dp0[?n + ?m - 1 := l_data_ptr lg ! (?m - 1)]) (?n - 1) = Some (l_data_ptr nd ! (?n - 1))"
    using N(3) L(3) len assms(4) dpv [of "?n - 1"] by auto
  have run: "l_merge_body db cmp nd lg = Some ?nd"
    using c(1,2) g h d N(3) L(3) K(2) unfolding ends by (simp add: l_merge_body_def Let_def)
  have ptrs: "l_ptrs ?nd = l_ptrs nd @ l_ptrs lg"
  proof (rule nth_equalityI)
    show "length (l_ptrs ?nd) = length (l_ptrs nd @ l_ptrs lg)" using N(8) L(8) len assms(4) by (simp add: l_ptrs_def)
    fix i assume "i < length (l_ptrs ?nd)"
    then have i: "i < ?n + ?m" using len assms(4) by (simp add: l_ptrs_def)
    have "dp0[?n + ?m - 1 := l_data_ptr lg ! (?m - 1)] ! i = (if i < ?n then l_data_ptr nd ! i else l_data_ptr lg ! (i - ?n))"
    proof (cases "i = ?n + ?m - 1")
      case True
      then have "\<not> i < ?n" "i - ?n = ?m - 1" "i < length dp0" using L(3) len assms(4) i by auto
      then show ?thesis using True by simp
    next
      case False
      then show ?thesis using dpv [of i] i by simp
    qed
    then show "l_ptrs ?nd ! i = (l_ptrs nd @ l_ptrs lg) ! i" using i N(2,4,8) L(2,4,8) by (simp add: l_ptrs_def nth_append)
  qed
  have keys: "l_keys db ?nd = ?ks @ ?ls" unfolding l_keys_def [of db ?nd] ptrs by (simp add: l_keys_def)
  have ord: "bl.ordered (KEY_SIZE_BYTE c) (?ks @ ?ls)" by (rule bl.ordered_append [OF N(5) L(5)]) (rule assms(6))
  have "(bk0[?n - 1 := ?d]) ! i = bdif (?ks @ ?ls) i" if i: "Suc i < ?n + ?m" for i
  proof -
    have b: "i < length bk0" "bk0 ! i = (if i < ?n then l_blindiKeys nd ! i else l_blindiKeys lg ! (i - ?n))" using bkv [of i] i len assms(4) by auto
    consider "Suc i < ?n" | "Suc i = ?n" | "?n \<le> i" by linarith
    then show ?thesis
    proof cases
      case 1 then show ?thesis using b N(6,7) bl.bks_append_left [of i ?ks ?ls] by simp
    next
      case 2
      then have "?n - 1 = i" by simp
      then show ?thesis using b N(7) bl.bks_append_mid [OF ne] by simp
    next
      case 3
      then obtain j where "i = ?n + j" using le_Suc_ex by blast
      then show ?thesis using b i L(6) [of j] N(3,7) bl.bks_append_right [of ?ks ?ls j] by auto
    qed
  qed
  then have "lnode_ok c db ?nd" using ord keys len N(3) assms(4) by (simp add: lnode_ok_def l_raw_def)
  then show ?thesis using run ptrs by blast
qed

end
