(* ===== verification/Linear_Samples.thy ===== *)
theory Linear_Samples
  imports Linear_Leaf Samples
begin

text \<open>Concrete leaves without a tree for the witnesses.\<close>

definition sample_lcfg :: lcfg where "sample_lcfg = \<lparr> KEY_SIZE_BYTE = 1, MAX_NODE_SIZE = 4 \<rparr>"

definition sample_lin :: lnode where
  "sample_lin = \<lparr> l_blindiKeys = [4, 3, 0, 0, 0, 0, 0], l_data_ptr = [5, 9, 20, 200], l_len = 4 \<rparr>"

definition sample_lin_two :: lnode where
  "sample_lin_two = \<lparr> l_blindiKeys = [4, 0, 0, 0, 0, 0, 0], l_data_ptr = [5, 9, 0, 0], l_len = 2 \<rparr>"

definition sample_lin_more :: lnode where
  "sample_lin_more = \<lparr> l_blindiKeys = [0, 0, 0, 0, 0, 0, 0], l_data_ptr = [20, 200, 0, 0], l_len = 2 \<rparr>"

lemma sample_lcfg_ok: "lcfg_ok sample_lcfg"
  by (simp add: lcfg_ok_def sample_lcfg_def)

lemma sample_lcfg_simps: "KEY_SIZE_BYTE sample_lcfg = 1" "MAX_NODE_SIZE sample_lcfg = 4"
  by (simp_all add: sample_lcfg_def)

lemma sample_lin_keys: "l_keys sample_db sample_lin = [[5], [9], [20], [200]]" "l_keys sample_db sample_lin_two = [[5], [9]]"
  "l_keys sample_db sample_lin_more = [[20], [200]]" "l_ptrs sample_lin = [5, 9, 20, 200]" "l_ptrs sample_lin_two = [5, 9]"
  "l_len sample_lin = 4" "l_len sample_lin_two = 2" "l_len sample_lin_more = 2" "l_ptrs sample_lin_more = [20, 200]"
  by (simp_all add: l_keys_def l_ptrs_def sample_lin_def sample_lin_two_def sample_lin_more_def sample_db_def)

lemma sample_lin_difs: "key_dif [5] [9] = 4" "key_dif [9] [20] = 3" "key_dif [20] [200] = 0"
  by (simp_all add: key_dif_def compare_eval)

lemma sample_lin_ordered: "bl.ordered 1 [[5], [9], [20], [200]]" "bl.ordered 1 [[5], [9]]" "bl.ordered 1 [[20], [200]]"
  by (simp_all add: bl.ordered_def key_of_len_def key_less_def all_below)

lemma less_Suc_one: "(\<forall>i. Suc i < 2 \<longrightarrow> P i) \<longleftrightarrow> P (0::nat)"
  by (auto simp: numeral_2_eq_2)

lemma less_Suc_three: "(\<forall>i < 3. P i) \<longleftrightarrow> P 0 \<and> P 1 \<and> P (2::nat)"
  by (auto simp: numeral_eq_Suc less_Suc_eq)

lemmas lin_eval = sample_lin_ordered [simplified] l_raw_def bl.bks_def sample_lcfg_simps sample_lin_difs less_Suc_cases less_Suc_one

lemma sample_lin_ok: "lnode_ok sample_lcfg sample_db sample_lin"
  unfolding lnode_ok_def sample_lin_keys by (simp add: lin_eval) (simp add: sample_lin_def sample_lin_difs less_Suc_three)

lemma sample_lin_two_ok: "lnode_ok sample_lcfg sample_db sample_lin_two"
  unfolding lnode_ok_def sample_lin_keys by (simp add: lin_eval) (simp add: sample_lin_two_def)

lemma sample_lin_more_ok: "lnode_ok sample_lcfg sample_db sample_lin_more"
  unfolding lnode_ok_def sample_lin_keys by (simp add: lin_eval) (simp add: sample_lin_more_def)

lemma new_lnode_raw: "l_raw sample_lcfg (new_lnode 4)"
  by (simp add: l_raw_def new_lnode_def sample_lcfg_simps)

end
