(* ===== verification/Blindi_Trie.thy ===== *)
theory Blindi_Trie
  imports SeqTree
begin

text \<open>
  \<^verbatim>\<open>blindi_trie.hpp\<close>: the blind leaf as a trie, used by the B+ tree variant of \<^verbatim>\<open>blindi_btree_trie.h\<close>. The keys are in no
  order; \<open>t_blindiKeys\<close> has one cell per branching of the trie, and \<open>small_ptr\<close>, \<open>large_ptr\<close> lead to its two sides. A value
  below \<open>PTR_AREA\<close> is the index of a branching, a value from \<open>PTR_AREA\<close> on is the position of a key plus \<open>PTR_AREA\<close>. A search
  leaves its path in the array \<^verbatim>\<open>tree_traverse\<close> of the caller.

  The build modelled has no \<^verbatim>\<open>KEY_VAR_LEN\<close>, no \<^verbatim>\<open>FINGERPRINT\<close>, no \<^verbatim>\<open>ASSERT\<close> and no debug output; \<open>T_KEY_LEN\<close> is \<^verbatim>\<open>sizeof(_Key)\<close>. Cells of
  a new node are 0 where the constructor leaves them uninitialised; no operation reads them before it has written them.
\<close>

section \<open>State\<close>

record tcfg =
  T_SLOTS :: nat
  T_KEY_LEN :: nat

definition t_bitidx_mod :: "tcfg \<Rightarrow> nat" where
  "t_bitidx_mod c = (if T_KEY_LEN c \<le> 32 then 256 else 65536)"

definition t_idx_mod :: "tcfg \<Rightarrow> nat" where
  "t_idx_mod c = (if T_SLOTS c \<le> 128 then 256 else 65536)"

definition PTR_AREA :: "tcfg \<Rightarrow> nat" where
  "PTR_AREA c = t_idx_mod c div 2"

record trie =
  t_blindiKeys :: "nat list"
  small_ptr :: "nat list"
  large_ptr :: "nat list"
  t_root :: nat
  t_key_ptr :: "ptr list"
  t_valid_len :: nat

definition new_trie :: "tcfg \<Rightarrow> trie" where
  "new_trie c = \<lparr> t_blindiKeys = replicate (T_SLOTS c - 1) 0, small_ptr = replicate (T_SLOTS c - 1) 0,
     large_ptr = replicate (T_SLOTS c - 1) 0, t_root = PTR_AREA c, t_key_ptr = replicate (T_SLOTS c) 0, t_valid_len = 0 \<rparr>"

definition t_first_insert :: "tcfg \<Rightarrow> trie \<Rightarrow> ptr \<Rightarrow> trie option" where
  "t_first_insert c nd insert_key =
     do {
       bk \<leftarrow> put (t_blindiKeys nd) 0 0;
       kp \<leftarrow> put (t_key_ptr nd) 0 insert_key;
       sm \<leftarrow> put (small_ptr nd) 0 (PTR_AREA c);
       lg \<leftarrow> put (large_ptr nd) 0 (PTR_AREA c);
       Some (nd \<lparr> t_blindiKeys := bk, t_key_ptr := kp, small_ptr := sm, large_ptr := lg, t_valid_len := 1 \<rparr>)
     }"

section \<open>Walking the trie\<close>

text \<open>
  \<open>edge_loop\<close> is the loop of \<^verbatim>\<open>bring_largest_in_subtree\<close> and \<^verbatim>\<open>bring_smallest_in_subtree\<close>, which differ in the array they follow.
  The result is the value of the key reached, the array and its length. The loop ends at the latest when the array is full.
\<close>

function edge_loop :: "tcfg \<Rightarrow> nat list \<Rightarrow> nat \<Rightarrow> nat list \<Rightarrow> nat \<Rightarrow> (nat \<times> nat list \<times> nat) option" where
  "edge_loop c ptrs pos tr len =
     do {
       next \<leftarrow> get ptrs pos;
       tr' \<leftarrow> put tr len next;
       (if next < PTR_AREA c then edge_loop c ptrs next tr' (len + 1) else Some (next, tr', len + 1))
     }"
  by pat_completeness auto
termination
  by (relation "measure (\<lambda>(c, ptrs, pos, tr, len). length tr - len)") (auto simp: put_eq_Some)

declare edge_loop.simps [simp del]

definition t_bring_edge :: "tcfg \<Rightarrow> nat list \<Rightarrow> nat \<Rightarrow> nat list \<Rightarrow> nat \<Rightarrow> (nat \<times> nat list \<times> nat) option" where
  "t_bring_edge c ptrs pos tr len = (if pos \<ge> PTR_AREA c then Some (pos, tr, len) else edge_loop c ptrs pos tr len)"

definition t_bring_largest :: "tcfg \<Rightarrow> trie \<Rightarrow> nat \<Rightarrow> nat list \<Rightarrow> nat \<Rightarrow> (nat \<times> nat list \<times> nat) option" where
  "t_bring_largest c nd pos tr len = t_bring_edge c (large_ptr nd) pos tr len"

definition t_bring_smallest :: "tcfg \<Rightarrow> trie \<Rightarrow> nat \<Rightarrow> nat list \<Rightarrow> nat \<Rightarrow> (nat \<times> nat list \<times> nat) option" where
  "t_bring_smallest c nd pos tr len = t_bring_edge c (small_ptr nd) pos tr len"

text \<open>
  Going up: \<^verbatim>\<open>while (ptrs[tree_traverse[len - 2]] != tree_traverse[len - 1]) { len -= 1; if (ptrs[tree_traverse[len - 2]] == root) break; }\<close>.
  A read before the start of the array is undefined.
\<close>

fun up_loop :: "trie \<Rightarrow> nat list \<Rightarrow> nat list \<Rightarrow> nat \<Rightarrow> nat option" where
  "up_loop nd ptrs tr 0 = None"
| "up_loop nd ptrs tr (Suc 0) = None"
| "up_loop nd ptrs tr (Suc (Suc n)) =
     do {
       a \<leftarrow> get tr n;
       b \<leftarrow> get tr (Suc n);
       x \<leftarrow> get ptrs a;
       (if x = b then Some (Suc (Suc n))
        else (case n of 0 \<Rightarrow> None
          | Suc m \<Rightarrow> do { a' \<leftarrow> get tr m; y \<leftarrow> get ptrs a'; (if y = t_root nd then Some (Suc n) else up_loop nd ptrs tr (Suc n)) }))
     }"

text \<open>
  \<^verbatim>\<open>bring_next_item\<close> and \<^verbatim>\<open>bring_previous_item\<close>: up along \<open>ptrs\<close>, over to the other side, and down along \<open>ptrs\<close> of that side.
\<close>

definition step_item :: "tcfg \<Rightarrow> trie \<Rightarrow> nat list \<Rightarrow> nat list \<Rightarrow> nat list \<Rightarrow> nat \<Rightarrow> (nat \<times> nat list \<times> nat) option" where
  "step_item c nd ptrs other tr len =
     (if len = 1 then do { r \<leftarrow> get tr 0; t_bring_edge c ptrs r tr len }
      else do {
        len \<leftarrow> up_loop nd ptrs tr len;
        a \<leftarrow> get tr (len - 2);
        x \<leftarrow> get other a;
        tr \<leftarrow> put tr (len - 1) x;
        t_bring_edge c ptrs x tr len
      })"

definition t_bring_next_item :: "tcfg \<Rightarrow> trie \<Rightarrow> nat list \<Rightarrow> nat \<Rightarrow> (nat \<times> nat list \<times> nat) option" where
  "t_bring_next_item c nd tr len = step_item c nd (small_ptr nd) (large_ptr nd) tr len"

definition t_bring_previous_item :: "tcfg \<Rightarrow> trie \<Rightarrow> nat list \<Rightarrow> nat \<Rightarrow> (nat \<times> nat list \<times> nat) option" where
  "t_bring_previous_item c nd tr len = step_item c nd (large_ptr nd) (small_ptr nd) tr len"

text \<open>The positions \<open>n\<close> steps yield; \<^verbatim>\<open>bring_sorted_items\<close> and \<^verbatim>\<open>bring_descending_items\<close> fill them into an array.\<close>

fun step_items :: "tcfg \<Rightarrow> trie \<Rightarrow> nat list \<Rightarrow> nat list \<Rightarrow> nat \<Rightarrow> nat list \<Rightarrow> nat \<Rightarrow> nat list option" where
  "step_items c nd ptrs other 0 tr len = Some []"
| "step_items c nd ptrs other (Suc n) tr len =
     do {
       (p, tr, len) \<leftarrow> step_item c nd ptrs other tr len;
       ps \<leftarrow> step_items c nd ptrs other n tr len;
       Some ((p - PTR_AREA c) # ps)
     }"

definition walk_items :: "tcfg \<Rightarrow> trie \<Rightarrow> nat list \<Rightarrow> nat list \<Rightarrow> nat list option" where
  "walk_items c nd ptrs other =
     do {
       tr \<leftarrow> put (replicate (T_SLOTS c) 0) 0 (t_root nd);
       (p, tr, len) \<leftarrow> t_bring_edge c ptrs (t_root nd) tr 1;
       ps \<leftarrow> step_items c nd ptrs other (t_valid_len nd - 1) tr len;
       Some ((p - PTR_AREA c) # ps)
     }"

definition bring_sorted_items :: "tcfg \<Rightarrow> trie \<Rightarrow> nat list option" where
  "bring_sorted_items c nd = walk_items c nd (small_ptr nd) (large_ptr nd)"

definition bring_descending_items :: "tcfg \<Rightarrow> trie \<Rightarrow> nat list option" where
  "bring_descending_items c nd = walk_items c nd (large_ptr nd) (small_ptr nd)"

text \<open>The loop of \<^verbatim>\<open>get_max_pos_node\<close> and \<^verbatim>\<open>get_min_pos_node\<close>, with fuel; there are fewer branchings than slots.\<close>

fun down_loop :: "tcfg \<Rightarrow> nat list \<Rightarrow> nat \<Rightarrow> nat \<Rightarrow> nat option" where
  "down_loop c ptrs pos 0 = None"
| "down_loop c ptrs pos (Suc fuel) =
     do { next \<leftarrow> get ptrs pos; (if next < PTR_AREA c then down_loop c ptrs next fuel else Some (next - PTR_AREA c)) }"

definition get_max_pos_node :: "tcfg \<Rightarrow> trie \<Rightarrow> nat option" where
  "get_max_pos_node c nd = (if t_valid_len nd = 1 then Some 0 else down_loop c (large_ptr nd) (t_root nd) (T_SLOTS c))"

definition get_min_pos_node :: "tcfg \<Rightarrow> trie \<Rightarrow> nat option" where
  "get_min_pos_node c nd = (if t_valid_len nd = 1 then Some 0 else down_loop c (small_ptr nd) (t_root nd) (T_SLOTS c))"

text \<open>The overload with a path, which the iterators of the tree start with, and the steps they take from there.\<close>

definition get_min_pos_path :: "tcfg \<Rightarrow> trie \<Rightarrow> nat list \<Rightarrow> (nat \<times> nat list \<times> nat) option" where
  "get_min_pos_path c nd tr =
     (if t_valid_len nd = 1 then do { tr \<leftarrow> put tr 0 (PTR_AREA c); Some (0, tr, 1) }
      else do {
        tr \<leftarrow> put tr 0 (t_root nd);
        (p, tr, len) \<leftarrow> edge_loop c (small_ptr nd) (t_root nd) tr 1;
        Some (p - PTR_AREA c, tr, len)
      })"

definition get_next_item :: "tcfg \<Rightarrow> trie \<Rightarrow> nat list \<Rightarrow> nat \<Rightarrow> (nat \<times> nat list \<times> nat) option" where
  "get_next_item c nd tr len = do { (p, tr, len) \<leftarrow> t_bring_next_item c nd tr len; Some (p - PTR_AREA c, tr, len) }"

definition get_previous_item :: "tcfg \<Rightarrow> trie \<Rightarrow> nat list \<Rightarrow> nat \<Rightarrow> (nat \<times> nat list \<times> nat) option" where
  "get_previous_item c nd tr len = do { (p, tr, len) \<leftarrow> t_bring_previous_item c nd tr len; Some (p - PTR_AREA c, tr, len) }"

text \<open>\<^verbatim>\<open>get_mid_pos_node\<close>, whose local array has \<open>valid_len - 1\<close> cells.\<close>

fun next_items :: "tcfg \<Rightarrow> trie \<Rightarrow> nat \<Rightarrow> nat list \<Rightarrow> nat \<Rightarrow> (nat list \<times> nat) option" where
  "next_items c nd 0 tr len = Some (tr, len)"
| "next_items c nd (Suc n) tr len = do { (_, tr, len) \<leftarrow> t_bring_next_item c nd tr len; next_items c nd n tr len }"

definition get_mid_pos_node :: "tcfg \<Rightarrow> trie \<Rightarrow> nat option" where
  "get_mid_pos_node c nd =
     (if t_valid_len nd = 1 then Some 0
      else do {
        tr \<leftarrow> put (replicate (t_valid_len nd - 1) 0) 0 (t_root nd);
        (_, tr, len) \<leftarrow> t_bring_smallest c nd (t_root nd) tr 1;
        (tr, len) \<leftarrow> next_items c nd (t_valid_len nd div 2 - 1) tr len;
        x \<leftarrow> get tr (len - 1);
        Some (x - PTR_AREA c)
      })"

definition t_max_key :: "tcfg \<Rightarrow> db \<Rightarrow> trie \<Rightarrow> byte list option" where
  "t_max_key c db nd = do { p \<leftarrow> get_max_pos_node c nd; k \<leftarrow> get (t_key_ptr nd) p; Some (db k) }"

definition t_min_key :: "tcfg \<Rightarrow> db \<Rightarrow> trie \<Rightarrow> byte list option" where
  "t_min_key c db nd = do { p \<leftarrow> get_min_pos_node c nd; k \<leftarrow> get (t_key_ptr nd) p; Some (db k) }"

definition t_mid_key :: "tcfg \<Rightarrow> db \<Rightarrow> trie \<Rightarrow> byte list option" where
  "t_mid_key c db nd = do { p \<leftarrow> get_mid_pos_node c nd; k \<leftarrow> get (t_key_ptr nd) p; Some (db k) }"

section \<open>Search\<close>

text \<open>\<^verbatim>\<open>SearchFirstStage\<close>; \<open>i\<close> is the index of the last value written, the result the array and its length.\<close>

function t_first_loop :: "tcfg \<Rightarrow> trie \<Rightarrow> byte list \<Rightarrow> nat \<Rightarrow> nat \<Rightarrow> nat list \<Rightarrow> nat \<Rightarrow> (nat list \<times> nat) option" where
  "t_first_loop c nd key key_len pos tr i =
     (if pos < PTR_AREA c then
        do {
          idx \<leftarrow> get (t_blindiKeys nd) pos;
          b \<leftarrow> isNthBitSetInString key idx key_len;
          next \<leftarrow> get (if b then large_ptr nd else small_ptr nd) pos;
          tr' \<leftarrow> put tr (i + 1) next;
          t_first_loop c nd key key_len next tr' (i + 1)
        }
      else Some (tr, i + 1))"
  by pat_completeness auto
termination
  by (relation "measure (\<lambda>(c, nd, key, key_len, pos, tr, i). length tr - i)") (auto simp: put_eq_Some)

declare t_first_loop.simps [simp del]

definition t_SearchFirstStage :: "tcfg \<Rightarrow> trie \<Rightarrow> byte list \<Rightarrow> nat \<Rightarrow> nat list \<Rightarrow> (nat list \<times> nat) option" where
  "t_SearchFirstStage c nd key key_len tr = do { tr \<leftarrow> put tr 0 (t_root nd); t_first_loop c nd key key_len (t_root nd) tr 0 }"

text \<open>\<^verbatim>\<open>SearchSecondStage\<close>: the new length of the path; the loop runs with \<open>i = n - 1\<close> downwards.\<close>

fun t_second_loop :: "trie \<Rightarrow> nat \<Rightarrow> nat list \<Rightarrow> nat \<Rightarrow> nat option" where
  "t_second_loop nd diff_pos tr 0 = Some 0"
| "t_second_loop nd diff_pos tr (Suc n) =
     do {
       a \<leftarrow> get tr n;
       b \<leftarrow> get (t_blindiKeys nd) a;
       (if b \<le> diff_pos then Some (Suc n) else t_second_loop nd diff_pos tr n)
     }"

definition t_SearchSecondStage :: "trie \<Rightarrow> nat \<Rightarrow> nat list \<Rightarrow> nat \<Rightarrow> nat option" where
  "t_SearchSecondStage nd diff_pos tr len = t_second_loop nd diff_pos tr (len - 1)"

fun t_check_smaller :: "trie \<Rightarrow> nat list \<Rightarrow> nat \<Rightarrow> bool option" where
  "t_check_smaller nd tr 0 = Some True"
| "t_check_smaller nd tr (Suc n) =
     do {
       a \<leftarrow> get tr n;
       b \<leftarrow> get tr (Suc n);
       x \<leftarrow> get (large_ptr nd) a;
       (if x = b then Some False else t_check_smaller nd tr n)
     }"

text \<open>The loop of \<^verbatim>\<open>bring_item_edge_subtree\<close>: \<^verbatim>\<open>while (large[tree_traverse[len - 1]] != tree_traverse[len]) len -= 1\<close>.\<close>

fun edge_up_loop :: "trie \<Rightarrow> nat list \<Rightarrow> nat \<Rightarrow> nat option" where
  "edge_up_loop nd tr 0 = None"
| "edge_up_loop nd tr (Suc n) =
     do {
       a \<leftarrow> get tr n;
       b \<leftarrow> get tr (Suc n);
       x \<leftarrow> get (large_ptr nd) a;
       (if x = b then Some (Suc n) else edge_up_loop nd tr n)
     }"

definition bring_item_edge_subtree :: "tcfg \<Rightarrow> trie \<Rightarrow> bool \<Rightarrow> bool \<Rightarrow> nat list \<Rightarrow> nat \<Rightarrow> (nat \<times> nat list \<times> nat) option" where
  "bring_item_edge_subtree c nd large_small smaller tr len =
     (if large_small then do { x \<leftarrow> get tr len; t_bring_largest c nd x tr (len + 1) }
      else if smaller then do { x \<leftarrow> get tr len; t_bring_smallest c nd x tr (len + 1) }
      else do {
        len \<leftarrow> edge_up_loop nd tr len;
        a \<leftarrow> get tr (len - 1);
        x \<leftarrow> get (small_ptr nd) a;
        tr \<leftarrow> put tr len x;
        t_bring_largest c nd x tr (len + 1)
      })"

record tsearch =
  ts_position :: nat
  ts_hit :: bool
  ts_smaller :: bool
  ts_diff_pos :: nat
  ts_large_small :: bool
  ts_traverse :: "nat list"
  ts_len :: nat

text \<open>\<open>for_insert\<close> says that the caller passes \<^verbatim>\<open>diff_pos\<close> and \<^verbatim>\<open>large_small\<close>: then the search ends with the second stage.\<close>

definition t_SearchBlindiNode ::
  "tcfg \<Rightarrow> db \<Rightarrow> trie \<Rightarrow> byte list \<Rightarrow> nat \<Rightarrow> search_type \<Rightarrow> bool \<Rightarrow> nat list \<Rightarrow> tsearch option" where
  "t_SearchBlindiNode c db nd search_key key_len search_type for_insert tree_traverse =
     do {
       (tr, len) \<leftarrow> t_SearchFirstStage c nd search_key key_len tree_traverse;
       first_stage_pos \<leftarrow> get tr (len - 1);
       db_key \<leftarrow> get (t_key_ptr nd) (first_stage_pos - PTR_AREA c);
       (diff_pos, hit, large_small) \<leftarrow> CompareStage search_key (db db_key) False (T_KEY_LEN c) (T_KEY_LEN c);
       let res = (\<lambda>p smaller tr len. \<lparr> ts_position = p, ts_hit = hit, ts_smaller = smaller, ts_diff_pos = diff_pos,
         ts_large_small = large_small, ts_traverse = tr, ts_len = len \<rparr>);
       (if search_type = POINT_SEARCH \<or> hit then Some (res (first_stage_pos - PTR_AREA c) False tr len)
        else do {
          len \<leftarrow> t_SearchSecondStage nd diff_pos tr len;
          (if for_insert then Some (res 0 False tr len)
           else do {
             smaller \<leftarrow> (if large_small then Some False else t_check_smaller nd tr len);
             (p, tr, len) \<leftarrow> bring_item_edge_subtree c nd large_small smaller tr len;
             Some (res (p - PTR_AREA c) smaller tr len)
           })
        })
     }"

section \<open>Insertion\<close>

definition t_InsertInPosition ::
  "tcfg \<Rightarrow> trie \<Rightarrow> ptr \<Rightarrow> nat \<Rightarrow> bool \<Rightarrow> nat list \<Rightarrow> nat \<Rightarrow> trie option" where
  "t_InsertInPosition c nd insert_key diff_pos large_small tr len =
     (let n = t_valid_len nd; PA = PTR_AREA c in
      do {
        kp \<leftarrow> put (t_key_ptr nd) n insert_key;
        bk \<leftarrow> (if n = 0 then None else put (t_blindiKeys nd) (n - 1) (diff_pos mod t_bitidx_mod c));
        let nd = nd \<lparr> t_key_ptr := kp, t_blindiKeys := bk \<rparr>;
        position \<leftarrow> (if len = 0 then Some 0 else get tr (len - 1));
        (if n = 1 then
           do {
             sm \<leftarrow> put (small_ptr nd) 0 (if large_small then PA else (PA + 1) mod t_idx_mod c);
             lg \<leftarrow> put (large_ptr nd) 0 (if large_small then (PA + 1) mod t_idx_mod c else PA);
             Some (nd \<lparr> small_ptr := sm, large_ptr := lg, t_root := 0, t_valid_len := 2 \<rparr>)
           }
         else do {
           (nd, connect) \<leftarrow>
             (if len = 0 then do { r \<leftarrow> get tr 0; Some (nd \<lparr> t_root := n - 1 \<rparr>, r) }
              else do {
                x \<leftarrow> get (large_ptr nd) position;
                y \<leftarrow> get tr len;
                (if x = y then do { lg \<leftarrow> put (large_ptr nd) position (n - 1); Some (nd \<lparr> large_ptr := lg \<rparr>, x) }
                 else do {
                   z \<leftarrow> get (small_ptr nd) position;
                   sm \<leftarrow> put (small_ptr nd) position (n - 1);
                   Some (nd \<lparr> small_ptr := sm \<rparr>, z)
                 })
              });
           sm \<leftarrow> put (small_ptr nd) (n - 1) (if large_small then connect else (PA + n) mod t_idx_mod c);
           lg \<leftarrow> put (large_ptr nd) (n - 1) (if large_small then (PA + n) mod t_idx_mod c else connect);
           Some (nd \<lparr> small_ptr := sm, large_ptr := lg, t_valid_len := (n + 1) mod t_idx_mod c \<rparr>)
         })
      })"

definition t_InsertWithKey :: "tcfg \<Rightarrow> db \<Rightarrow> trie \<Rightarrow> ptr \<Rightarrow> (insert_result \<times> trie) option" where
  "t_InsertWithKey c db nd insert_key =
     (if t_valid_len nd = T_SLOTS c then Some (INSERT_OVERFLOW, nd)
      else if t_valid_len nd \<noteq> 0 then
        do {
          r \<leftarrow> t_SearchBlindiNode c db nd (db insert_key) (T_KEY_LEN c) PREDECESSOR_SEARCH True (replicate (T_SLOTS c) 0);
          (if ts_hit r then Some (INSERT_DUPLICATED_KEY, nd)
           else map_option (Pair INSERT_SUCCESS)
             (t_InsertInPosition c nd insert_key (ts_diff_pos r) (ts_large_small r) (ts_traverse r) (ts_len r)))
        }
      else map_option (Pair INSERT_SUCCESS) (t_first_insert c nd insert_key))"

text \<open>\<^verbatim>\<open>Upsert2BlindiNodeWithKey\<close> inserts also when the key is there.\<close>

definition t_UpsertWithKey :: "tcfg \<Rightarrow> db \<Rightarrow> trie \<Rightarrow> ptr \<Rightarrow> (insert_result \<times> trie) option" where
  "t_UpsertWithKey c db nd insert_key =
     (if t_valid_len nd = 0 then map_option (Pair INSERT_SUCCESS) (t_first_insert c nd insert_key)
      else do {
        r \<leftarrow> t_SearchBlindiNode c db nd (db insert_key) (T_KEY_LEN c) PREDECESSOR_SEARCH True (replicate (T_SLOTS c) 0);
        (if t_valid_len nd = T_SLOTS c then Some (INSERT_OVERFLOW, nd)
         else map_option (Pair (if ts_hit r then INSERT_DUPLICATED_KEY else INSERT_SUCCESS))
           (t_InsertInPosition c nd insert_key (ts_diff_pos r) (ts_large_small r) (ts_traverse r) (ts_len r)))
      })"

section \<open>Removal\<close>

text \<open>
  The loops that look for the pointer to the cell that was moved: over \<open>n - 1, \<dots>, 0\<close>, the large side first; the first
  pointer with value \<open>old\<close> becomes \<open>new\<close>.
\<close>

fun redirect :: "nat \<Rightarrow> nat \<Rightarrow> nat \<Rightarrow> nat list \<times> nat list \<Rightarrow> (nat list \<times> nat list) option" where
  "redirect old new 0 (sm, lg) = Some (sm, lg)"
| "redirect old new (Suc i) (sm, lg) =
     do {
       x \<leftarrow> get lg i;
       (if x = old then do { lg \<leftarrow> put lg i new; Some (sm, lg) }
        else do {
          y \<leftarrow> get sm i;
          (if y = old then do { sm \<leftarrow> put sm i new; Some (sm, lg) } else redirect old new i (sm, lg))
        })
     }"

text \<open>The branching above the removed key gives way to its other side, at the root or at the branching above it.\<close>

definition t_unlink :: "trie \<Rightarrow> nat list \<Rightarrow> nat \<Rightarrow> nat \<Rightarrow> nat \<Rightarrow> trie option" where
  "t_unlink nd tr len branch other =
     (if t_root nd = branch then Some (nd \<lparr> t_root := other \<rparr>)
      else if len < 3 then None
      else do {
        parent \<leftarrow> get tr (len - 3);
        x \<leftarrow> get (small_ptr nd) parent;
        (if x = branch then do { sm \<leftarrow> put (small_ptr nd) parent other; Some (nd \<lparr> small_ptr := sm \<rparr>) }
         else do { lg \<leftarrow> put (large_ptr nd) parent other; Some (nd \<lparr> large_ptr := lg \<rparr>) })
      })"

text \<open>The last key and the last branching move into the cells that have become free; \<open>n\<close> is the new number of keys.\<close>

definition t_fill_gap :: "tcfg \<Rightarrow> trie \<Rightarrow> nat \<Rightarrow> nat \<Rightarrow> nat \<Rightarrow> trie option" where
  "t_fill_gap c nd n key_pos branch =
     do {
       nd \<leftarrow>
         (if key_pos < n + PTR_AREA c then
            do { k \<leftarrow> get (t_key_ptr nd) n; kp \<leftarrow> put (t_key_ptr nd) (key_pos - PTR_AREA c) k; Some (nd \<lparr> t_key_ptr := kp \<rparr>) }
          else Some nd);
       nd \<leftarrow>
         (if branch < n - 1 then
            do {
              b \<leftarrow> get (t_blindiKeys nd) (n - 1);
              x \<leftarrow> get (small_ptr nd) (n - 1);
              y \<leftarrow> get (large_ptr nd) (n - 1);
              bk \<leftarrow> put (t_blindiKeys nd) branch b;
              sm \<leftarrow> put (small_ptr nd) branch x;
              lg \<leftarrow> put (large_ptr nd) branch y;
              Some (nd \<lparr> t_blindiKeys := bk, small_ptr := sm, large_ptr := lg \<rparr>)
            }
          else Some nd);
       nd \<leftarrow>
         (if key_pos < n + PTR_AREA c then
            do { (sm, lg) \<leftarrow> redirect (n + PTR_AREA c) key_pos (n - 1) (small_ptr nd, large_ptr nd);
                 Some (nd \<lparr> small_ptr := sm, large_ptr := lg \<rparr>) }
          else Some nd);
       (if branch < n - 1 then
          do { (sm, lg) \<leftarrow> redirect (n - 1) branch (n - 1) (small_ptr nd, large_ptr nd);
               Some (nd \<lparr> small_ptr := sm, large_ptr := lg, t_root := (if t_root nd = n - 1 then branch else t_root nd) \<rparr>) }
        else Some nd)
     }"

text \<open>
  A path of one entry, in a node of one key, is read before its start: \<^verbatim>\<open>tree_traverse[*tree_traverse_len - 2]\<close>.
\<close>

definition t_RemoveInPosition :: "tcfg \<Rightarrow> trie \<Rightarrow> nat list \<Rightarrow> nat \<Rightarrow> (remove_result \<times> trie) option" where
  "t_RemoveInPosition c nd tr len =
     (if len < 2 then None
      else do {
        key_pos \<leftarrow> get tr (len - 1);
        branch \<leftarrow> get tr (len - 2);
        (if t_valid_len nd = 1 then Some (REMOVE_NODE_EMPTY, nd \<lparr> t_valid_len := 0 \<rparr>)
         else do {
           s \<leftarrow> get (small_ptr nd) branch;
           l \<leftarrow> get (large_ptr nd) branch;
           nd \<leftarrow> t_unlink nd tr len branch (if s = key_pos then l else s);
           let n = t_valid_len nd - 1;
           nd \<leftarrow> t_fill_gap c (nd \<lparr> t_valid_len := n \<rparr>) n key_pos branch;
           Some (REMOVE_SUCCESS, if n = 1 then nd \<lparr> t_root := PTR_AREA c \<rparr> else nd)
         })
      })"

definition t_RemoveWithKey :: "tcfg \<Rightarrow> db \<Rightarrow> trie \<Rightarrow> byte list \<Rightarrow> (remove_result \<times> trie) option" where
  "t_RemoveWithKey c db nd remove_key =
     do {
       r \<leftarrow> t_SearchBlindiNode c db nd remove_key (T_KEY_LEN c) POINT_SEARCH False (replicate (T_SLOTS c) 0);
       (if \<not> ts_hit r then Some (REMOVE_KEY_NOT_FOUND, nd)
        else do {
          (res, nd) \<leftarrow> t_RemoveInPosition c nd (ts_traverse r) (ts_len r);
          Some (if t_valid_len nd < T_SLOTS c div 2 \<and> res = REMOVE_SUCCESS then REMOVE_UNDERFLOW else res, nd)
        })
     }"

end
