(* ===== verification/Blind_Tree.thy ===== *)
theory Blind_Tree
  imports Key_Order "HOL-Library.Multiset"
begin

text \<open>
  Blind search in a trie, without arrays: a binary tree with key numbers at the leaves and a bit position at every
  branching. The path of a search is a context, a list of steps with the sibling left behind at each.
\<close>

section \<open>Trees and paths\<close>

datatype ptree = Lf nat | Br nat ptree ptree

fun leaves_of :: "ptree \<Rightarrow> nat list" where
  "leaves_of (Lf p) = [p]"
| "leaves_of (Br i l r) = leaves_of l @ leaves_of r"

fun branches_of :: "ptree \<Rightarrow> nat multiset" where
  "branches_of (Lf p) = {#}"
| "branches_of (Br i l r) = add_mset i (branches_of l + branches_of r)"

lemma leaves_ne [simp]: "leaves_of t \<noteq> []"
  by (induction t) auto

lemma length_leaves: "length (leaves_of t) = Suc (size (branches_of t))"
  by (induction t) auto

text \<open>A step \<open>(i, large, s)\<close>: at branching \<open>i\<close> to the large side or not, past the sibling \<open>s\<close>.\<close>

type_synonym step = "nat \<times> bool \<times> ptree"

fun plug :: "step list \<Rightarrow> ptree \<Rightarrow> ptree" where
  "plug [] t = t"
| "plug ((i, large, s) # c) t = (if large then Br i s (plug c t) else Br i (plug c t) s)"

lemma plug_append: "plug (c @ c') t = plug c (plug c' t)"
  by (induction c t rule: plug.induct) auto

fun ctx_leaves :: "step list \<Rightarrow> nat multiset" where
  "ctx_leaves [] = {#}"
| "ctx_leaves ((i, large, s) # c) = mset (leaves_of s) + ctx_leaves c"

fun ctx_branches :: "step list \<Rightarrow> nat multiset" where
  "ctx_branches [] = {#}"
| "ctx_branches ((i, large, s) # c) = add_mset i (branches_of s + ctx_branches c)"

lemma leaves_plug: "mset (leaves_of (plug c t)) = ctx_leaves c + mset (leaves_of t)"
  by (induction c t rule: plug.induct) auto

lemma branches_plug: "branches_of (plug c t) = ctx_branches c + branches_of t"
  by (induction c t rule: plug.induct) auto

lemma set_leaves_plug: "set (leaves_of (plug c t)) = set_mset (ctx_leaves c) \<union> set (leaves_of t)"
  using leaves_plug [of c t] by (metis set_mset_mset set_mset_union)

lemma ctx_leaves_append [simp]: "ctx_leaves (c @ c') = ctx_leaves c + ctx_leaves c'"
  by (induction c rule: ctx_leaves.induct) auto

lemma ctx_branches_append [simp]: "ctx_branches (c @ c') = ctx_branches c + ctx_branches c'"
  by (induction c rule: ctx_branches.induct) auto

lemma in_ctx_leaves: "a \<in># ctx_leaves c \<longleftrightarrow> (\<exists>i large s. (i, large, s) \<in> set c \<and> a \<in> set (leaves_of s))"
  by (induction c rule: ctx_leaves.induct) auto

lemma in_ctx_branches: "(i, large, s) \<in> set c \<Longrightarrow> i \<in># ctx_branches c"
  by (induction c rule: ctx_branches.induct) auto

text \<open>The leaves before and behind a path.\<close>

fun lefts :: "step list \<Rightarrow> nat list" where
  "lefts [] = []"
| "lefts ((i, large, s) # c) = (if large then leaves_of s else []) @ lefts c"

fun rights :: "step list \<Rightarrow> nat list" where
  "rights [] = []"
| "rights ((i, large, s) # c) = rights c @ (if large then [] else leaves_of s)"

lemma leaves_plug_order: "leaves_of (plug c t) = lefts c @ leaves_of t @ rights c"
  by (induction c t rule: plug.induct) auto

lemma lefts_append [simp]: "lefts (c @ c') = lefts c @ lefts c'"
  by (induction c rule: lefts.induct) auto

lemma rights_append [simp]: "rights (c @ c') = rights c' @ rights c"
  by (induction c rule: rights.induct) auto

lemma in_lefts: "a \<in> set (lefts c) \<longleftrightarrow> (\<exists>i s. (i, True, s) \<in> set c \<and> a \<in> set (leaves_of s))"
  by (induction c rule: lefts.induct) auto

lemma in_rights: "a \<in> set (rights c) \<longleftrightarrow> (\<exists>i s. (i, False, s) \<in> set c \<and> a \<in> set (leaves_of s))"
  by (induction c rule: rights.induct) auto

text \<open>The edge of a tree: all the way to one side.\<close>

lemma edge_path:
  obtains c p where "t = plug c (Lf p)" "\<forall>(i, large, s) \<in> set c. large = b"
    "p = (if b then last (leaves_of t) else hd (leaves_of t))"
proof -
  have "\<exists>c p. t = plug c (Lf p) \<and> (\<forall>(i, large, s) \<in> set c. large = b) \<and> p = (if b then last (leaves_of t) else hd (leaves_of t))"
  proof (induction t)
    case (Lf p)
    show ?case by (intro exI [of _ "[]"] exI [of _ p]) simp
  next
    case (Br i l r)
    let ?t = "if b then r else l" and ?s = "if b then l else r"
    obtain c p where "?t = plug c (Lf p)" "\<forall>(i, large, s) \<in> set c. large = b"
      "p = (if b then last (leaves_of ?t) else hd (leaves_of ?t))" using Br.IH by (cases b) auto
    then show ?case by (intro exI [of _ "(i, b, ?s) # c"] exI [of _ p]) (auto split: if_splits)
  qed
  then show thesis using that by blast
qed

text \<open>Renaming keys and branchings.\<close>

fun rename :: "(nat \<Rightarrow> nat) \<Rightarrow> (nat \<Rightarrow> nat) \<Rightarrow> ptree \<Rightarrow> ptree" where
  "rename f g (Lf p) = Lf (f p)"
| "rename f g (Br i l r) = Br (g i) (rename f g l) (rename f g r)"

lemma leaves_rename: "leaves_of (rename f g t) = map f (leaves_of t)"
  by (induction t) auto

lemma branches_rename: "branches_of (rename f g t) = image_mset g (branches_of t)"
  by (induction t) auto

text \<open>A new leaf above a tree, with the branching \<open>n\<close>.\<close>

definition put_leaf :: "nat \<Rightarrow> nat \<Rightarrow> bool \<Rightarrow> ptree \<Rightarrow> ptree" where
  "put_leaf n q large u = (if large then Br n u (Lf q) else Br n (Lf q) u)"

section \<open>Blind trees\<close>

text \<open>At every branching the keys of the two sides differ first in the bit \<open>bk i\<close>, and the large side has the greater keys.\<close>

context bit_keys begin

definition apart :: "(nat \<Rightarrow> 'k) \<Rightarrow> nat \<Rightarrow> nat \<Rightarrow> nat \<Rightarrow> bool" where
  "apart K d a b \<longleftrightarrow> lt (K a) (K b) \<and> dif (K a) (K b) = d"

definition side :: "(nat \<Rightarrow> 'k) \<Rightarrow> nat \<Rightarrow> bool \<Rightarrow> nat \<Rightarrow> nat \<Rightarrow> bool" where
  "side K d large a b \<longleftrightarrow> (if large then apart K d a b else apart K d b a)"

fun blind :: "(nat \<Rightarrow> 'k) \<Rightarrow> (nat \<Rightarrow> nat) \<Rightarrow> ptree \<Rightarrow> bool" where
  "blind K bk (Lf p) \<longleftrightarrow> valid (K p)"
| "blind K bk (Br i l r) \<longleftrightarrow> (\<forall>a \<in> set (leaves_of l). \<forall>b \<in> set (leaves_of r). apart K (bk i) a b) \<and> blind K bk l \<and> blind K bk r"

fun beside :: "(nat \<Rightarrow> 'k) \<Rightarrow> (nat \<Rightarrow> nat) \<Rightarrow> nat set \<Rightarrow> step list \<Rightarrow> bool" where
  "beside K bk P [] \<longleftrightarrow> True"
| "beside K bk P ((i, large, s) # c) \<longleftrightarrow> blind K bk s \<and> beside K bk P c
     \<and> (\<forall>a \<in> set (leaves_of s). \<forall>b \<in> set_mset (ctx_leaves c) \<union> P. side K (bk i) large a b)"

lemma blind_plug: "blind K bk (plug c t) \<longleftrightarrow> blind K bk t \<and> beside K bk (set (leaves_of t)) c"
  by (induction c t rule: plug.induct) (auto simp: set_leaves_plug side_def)

lemma beside_append: "beside K bk P (c @ c') \<longleftrightarrow> beside K bk (set_mset (ctx_leaves c') \<union> P) c \<and> beside K bk P c'"
  by (induction c rule: ctx_leaves.induct) (auto simp: ball_Un)

lemma beside_sub: "beside K bk P c \<Longrightarrow> Q \<subseteq> P \<Longrightarrow> beside K bk Q c"
  by (induction K bk P c rule: beside.induct) auto

lemma blind_valid: "blind K bk t \<Longrightarrow> p \<in> set (leaves_of t) \<Longrightarrow> valid (K p)"
  by (induction t) auto

text \<open>The step past \<open>s\<close>, seen from a key beside it.\<close>

lemma beside_step:
  assumes "beside K bk P c" "(i, large, s) \<in> set c" "a \<in> set (leaves_of s)" "p \<in> P"
  shows "side K (bk i) large a p"
  using assms by (induction K bk P c rule: beside.induct) auto

lemma beside_insert:
  assumes "beside K bk P c"
    and "\<And>i large s a. (i, large, s) \<in> set c \<Longrightarrow> a \<in> set (leaves_of s) \<Longrightarrow> side K (bk i) large a x"
  shows "beside K bk (insert x P) c"
  using assms by (induction K bk P c rule: beside.induct) (simp_all add: ball_Un, blast+)

lemma sorted_blind: "blind K bk t \<Longrightarrow> sorted_wrt (\<lambda>a b. lt (K a) (K b)) (leaves_of t)"
  by (induction t) (auto simp: sorted_wrt_append apart_def)

lemma blind_cong: "(\<And>p. p \<in> set (leaves_of t) \<Longrightarrow> K p = K' p) \<Longrightarrow> (\<And>i. i \<in># branches_of t \<Longrightarrow> bk i = bk' i)
    \<Longrightarrow> blind K bk t = blind K' bk' t"
  by (induction t) (auto simp: apart_def)

lemma blind_rename: "(\<And>p. p \<in> set (leaves_of t) \<Longrightarrow> K' (f p) = K p) \<Longrightarrow> (\<And>i. i \<in># branches_of t \<Longrightarrow> bk' (g i) = bk i)
    \<Longrightarrow> blind K' bk' (rename f g t) = blind K bk t"
  by (induction t) (auto simp: leaves_rename apart_def)

section \<open>Search\<close>

definition follows :: "'k \<Rightarrow> (nat \<Rightarrow> nat) \<Rightarrow> step list \<Rightarrow> bool" where
  "follows x bk c \<longleftrightarrow> (\<forall>(i, large, s) \<in> set c. large = kb x (bk i))"

lemma apart_bits:
  assumes "apart K d a b" "valid (K a)" "valid (K b)"
  shows "K a \<noteq> K b \<and> kb (K b) d \<and> \<not> kb (K a) d \<and> (\<forall>j < d. kb (K a) j = kb (K b) j)"
  using lt_bits [of "K a" "K b"] dif_agree [of "K a" "K b"] assms by (auto simp: apart_def)

lemma apart_sym_dif: "apart K d a b \<Longrightarrow> valid (K a) \<Longrightarrow> valid (K b) \<Longrightarrow> dif (K b) (K a) = d \<and> dif (K a) (K b) = d \<and> K a \<noteq> K b"
  using dif_sym [of "K a" "K b"] apart_bits [of K d a b] by (simp add: apart_def)

lemma side_facts:
  assumes "side K d large a b" "valid (K a)" "valid (K b)"
  shows "K a \<noteq> K b" "dif (K a) (K b) = d" "dif (K b) (K a) = d" "lt (K a) (K b) = large" "kb (K b) d = large" "kb (K a) d = (\<not> large)"
proof -
  have "K a \<noteq> K b \<and> dif (K a) (K b) = d \<and> dif (K b) (K a) = d \<and> lt (K a) (K b) = large \<and> kb (K b) d = large \<and> kb (K a) d = (\<not> large)"
  proof (cases large)
    case True
    then have ap: "apart K d a b" using assms(1) by (simp add: side_def)
    then have "lt (K a) (K b)" by (simp add: apart_def)
    with True apart_sym_dif [OF ap assms(2,3)] apart_bits [OF ap assms(2,3)] show ?thesis by simp
  next
    case False
    then have ap: "apart K d b a" using assms(1) by (simp add: side_def)
    then have less: "\<not> lt (K a) (K b)" using lt_asym [OF assms(3,2)] by (simp add: apart_def)
    note bits = apart_bits [OF ap assms(3,2)]
    have "K a \<noteq> K b" by (rule not_sym) (rule conjunct1 [OF bits])
    with False less apart_sym_dif [OF ap assms(3,2)] bits show ?thesis by simp
  qed
  then show "K a \<noteq> K b" "dif (K a) (K b) = d" "dif (K b) (K a) = d" "lt (K a) (K b) = large" "kb (K b) d = large"
    "kb (K a) d = (\<not> large)" by blast+
qed

text \<open>What is known of a step of the search, with the key \<open>p\<close> at its end and a key \<open>a\<close> of the sibling.\<close>

lemma step_facts:
  assumes "blind K bk (plug c (Lf p))" "(i, large, s) \<in> set c" "a \<in> set (leaves_of s)"
  shows "valid (K a)" "valid (K p)" "K a \<noteq> K p" "dif (K a) (K p) = bk i" "dif (K p) (K a) = bk i"
    "lt (K a) (K p) = large" "kb (K p) (bk i) = large" "kb (K a) (bk i) = (\<not> large)"
proof -
  have b: "valid (K p)" "beside K bk {p} c" using assms(1) by (simp_all add: blind_plug)
  have s: "side K (bk i) large a p" by (rule beside_step [OF b(2) assms(2,3)]) simp
  have v: "valid (K a)"
    by (rule blind_valid [OF assms(1)]) (use assms(2,3) in \<open>auto simp: set_leaves_plug in_ctx_leaves\<close>)
  show "valid (K a)" "valid (K p)" by fact+
  show "K a \<noteq> K p" "dif (K a) (K p) = bk i" "dif (K p) (K a) = bk i"
    "lt (K a) (K p) = large" "kb (K p) (bk i) = large" "kb (K a) (bk i) = (\<not> large)"
    by (rule side_facts [OF s v b(1)])+
qed

text \<open>The key at the end of the search is the best match.\<close>

lemma blind_tree_best:
  assumes b: "blind K bk (plug c (Lf p))" and f: "follows x bk c" and x: "valid x" "x \<noteq> K p"
    and y: "y \<in> set (leaves_of (plug c (Lf p)))"
  shows "x \<noteq> K y \<and> dif x (K y) \<le> dif x (K p)"
proof (cases "y = p")
  case False
  then obtain i large s where s: "(i, large, s) \<in> set c" "y \<in> set (leaves_of s)"
    using y by (auto simp: set_leaves_plug in_ctx_leaves)
  note st = step_facts [OF b s]
  have xb: "kb x (bk i) = large" using f s(1) by (auto simp: follows_def)
  have ne: "x \<noteq> K y" using xb st(8) by auto
  have "dif x (K y) \<le> dif x (K p)"
  proof (rule ccontr)
    assume "\<not> ?thesis"
    then have less: "dif x (K p) < dif x (K y)" by simp
    have "\<not> bk i < dif x (K y)" using dif_agree [OF x(1) st(1) ne] xb st(8) by auto
    then have "dif x (K p) < bk i" using less by simp
    then have "kb (K y) (dif x (K p)) = kb (K p) (dif x (K p))" using dif_agree [OF st(1,2,3)] st(4) by simp
    moreover have "kb x (dif x (K p)) = kb (K y) (dif x (K p))" by (rule dif_agree [OF x(1) st(1) ne less])
    ultimately show False using dif_differ [OF x(1) st(2) x(2)] by simp
  qed
  then show ?thesis using ne by simp
qed (use x in simp)

lemma blind_tree_hit:
  assumes "blind K bk (plug c (Lf p))" "follows x bk c" "valid x"
  shows "x \<in> K ` set (leaves_of (plug c (Lf p))) \<longleftrightarrow> K p = x"
proof
  assume "x \<in> K ` set (leaves_of (plug c (Lf p)))"
  then obtain y where y: "x = K y" "y \<in> set (leaves_of (plug c (Lf p)))" by blast
  show "K p = x" using blind_tree_best [OF assms _ y(2)] y(1) by metis
qed (auto simp: set_leaves_plug)

section \<open>The place of a missing key\<close>

lemma step_ne_dif:
  assumes "blind K bk (plug c (Lf p))" "follows x bk c" "valid x" "x \<noteq> K p" "(i, large, s) \<in> set c"
  shows "bk i \<noteq> dif x (K p)"
proof -
  obtain a where "a \<in> set (leaves_of s)" using leaves_ne [of s] by (meson last_in_set)
  from step_facts [OF assms(1,5) this] have "kb (K p) (bk i) = large" "valid (K p)" by blast+
  moreover have "kb x (bk i) = large" using assms(2,5) by (auto simp: follows_def)
  ultimately show ?thesis using dif_differ [OF assms(3) _ assms(4)] by metis
qed

text \<open>A sibling passed above the bit in which \<open>x\<close> and the key of the search differ lies to \<open>x\<close> as to that key.\<close>

lemma above_facts:
  assumes "blind K bk (plug c (Lf p))" "(i, large, s) \<in> set c" "a \<in> set (leaves_of s)"
    and x: "valid x" "x \<noteq> K p" "bk i < dif x (K p)"
  shows "K a \<noteq> x \<and> dif (K a) x = bk i \<and> dif x (K a) = bk i \<and> lt (K a) x = large \<and> lt x (K a) = (\<not> large)"
proof -
  note st = step_facts [OF assms(1-3)]
  have "dif (K p) x = dif x (K p)" by (rule dif_sym) (use x st in auto)
  then have e: "K a \<noteq> x \<and> dif (K a) x = dif (K a) (K p) \<and> lt (K a) x = lt (K a) (K p)"
    using dif_ext [OF st(1,2) x(1) st(3)] st(4) x by auto
  then show ?thesis using st lt_total [OF st(1) x(1)] lt_asym [OF st(1) x(1)] dif_sym [OF st(1) x(1)] by metis
qed

text \<open>A key met below it lies to \<open>x\<close> as the key of the search does.\<close>

lemma below_facts:
  assumes b: "blind K bk (plug c (Lf p))" and x: "valid x" "x \<noteq> K p"
    and c: "\<And>i large s. (i, large, s) \<in> set c \<Longrightarrow> dif x (K p) < bk i" and a: "a \<in> set (leaves_of (plug c (Lf p)))"
  shows "x \<noteq> K a \<and> dif x (K a) = dif x (K p) \<and> lt x (K a) = lt x (K p)"
proof (cases "a = p")
  case False
  then obtain i large s where s: "(i, large, s) \<in> set c" "a \<in> set (leaves_of s)"
    using a by (auto simp: set_leaves_plug in_ctx_leaves)
  note st = step_facts [OF b s]
  show ?thesis by (rule dif_ext [OF x(1) st(2,1) x(2)]) (use st c [OF s(1)] in auto)
qed (use x in simp)

text \<open>The bits of the branchings grow along a path.\<close>

lemma bits_grow:
  assumes "blind K bk (plug (c @ (i, large, s) # c') (Lf p))" "(j, large', s') \<in> set c'"
  shows "bk i < bk j"
proof -
  let ?c = "c @ (i, large, s) # c'"
  obtain a where a: "a \<in> set (leaves_of s)" using leaves_ne [of s] by (meson last_in_set)
  obtain b where b: "b \<in> set (leaves_of s')" using leaves_ne [of s'] by (meson last_in_set)
  have i: "(i, large, s) \<in> set ?c" and j: "(j, large', s') \<in> set ?c" using assms(2) by auto
  note sa = step_facts [OF assms(1) i a] and sb = step_facts [OF assms(1) j b]
  have "beside K bk {p} ?c" using assms(1) by (simp add: blind_plug)
  then have "side K (bk i) large a b" using a b assms(2) by (simp add: beside_append) (metis in_ctx_leaves)
  note ab = side_facts [OF this sa(1) sb(1)]
  have "bk j \<noteq> bk i" using sb(7,8) ab(5) sa(7) by metis
  moreover have "\<not> bk j < bk i"
  proof
    assume less: "bk j < bk i"
    have "kb (K a) (bk j) = kb (K b) (bk j)" using dif_agree [OF sa(1) sb(1) ab(1)] ab(2) less by simp
    moreover have "kb (K a) (bk j) = kb (K p) (bk j)" using dif_agree [OF sa(1,2,3)] sa(4) less by simp
    ultimately show False using sb(7,8) by simp
  qed
  ultimately show ?thesis by simp
qed

text \<open>The cut of the path at the bit \<open>d\<close>.\<close>

definition cut :: "(nat \<Rightarrow> nat) \<Rightarrow> nat \<Rightarrow> step list \<Rightarrow> step list \<Rightarrow> bool" where
  "cut bk d c c' \<longleftrightarrow> (\<forall>(i, large, s) \<in> set c. bk i < d) \<and> (\<forall>(i, large, s) \<in> set c'. d < bk i)"

text \<open>A missing key, seen from the place where the path is cut.\<close>

lemma cut_facts:
  assumes b: "blind K bk (plug (c @ c') (Lf p))" and x: "valid x" "x \<noteq> K p" and cut: "cut bk (dif x (K p)) c c'"
  defines "u \<equiv> plug c' (Lf p)"
  shows "\<And>a. a \<in> set (leaves_of u) \<Longrightarrow> x \<noteq> K a \<and> dif x (K a) = dif x (K p) \<and> lt x (K a) = (\<not> kb x (dif x (K p)))
      \<and> lt (K a) x = kb x (dif x (K p))"
    and "\<And>a. a \<in> set (lefts c) \<Longrightarrow> lt (K a) x" and "\<And>a. a \<in> set (rights c) \<Longrightarrow> lt x (K a)"
proof -
  have bu: "blind K bk u" using b by (simp add: plug_append blind_plug u_def)
  have v: "valid (K p)" using b by (simp add: blind_plug)
  fix a
  show "x \<noteq> K a \<and> dif x (K a) = dif x (K p) \<and> lt x (K a) = (\<not> kb x (dif x (K p))) \<and> lt (K a) x = kb x (dif x (K p))"
    if a: "a \<in> set (leaves_of u)"
  proof -
    have f: "x \<noteq> K a \<and> dif x (K a) = dif x (K p) \<and> lt x (K a) = lt x (K p)"
      using below_facts [OF bu [unfolded u_def] x _ a [unfolded u_def]] cut by (auto simp: cut_def)
    moreover have "lt x (K p) = (\<not> kb x (dif x (K p)))" by (rule lt_flip [OF x(1) v x(2)])
    moreover have "lt (K a) x = (\<not> lt x (K a))"
      using lt_total [OF x(1) blind_valid [OF bu a]] lt_asym [OF x(1) blind_valid [OF bu a]] f by blast
    ultimately show ?thesis by auto
  qed
  show "lt (K a) x" if "a \<in> set (lefts c)"
  proof -
    obtain i s where s: "(i, True, s) \<in> set c" "a \<in> set (leaves_of s)" using \<open>a \<in> set (lefts c)\<close> by (auto simp: in_lefts)
    have "bk i < dif x (K p)" using cut s(1) by (auto simp: cut_def)
    with above_facts [OF b _ s(2) x] s(1) show ?thesis by auto
  qed
  show "lt x (K a)" if "a \<in> set (rights c)"
  proof -
    obtain i s where s: "(i, False, s) \<in> set c" "a \<in> set (leaves_of s)" using \<open>a \<in> set (rights c)\<close> by (auto simp: in_rights)
    have "bk i < dif x (K p)" using cut s(1) by (auto simp: cut_def)
    with above_facts [OF b _ s(2) x] s(1) show ?thesis by auto
  qed
qed

text \<open>Putting a new leaf at the cut keeps the tree blind.\<close>

lemma blind_put_leaf:
  assumes b: "blind K bk (plug (c @ c') (Lf p))" and x: "valid (K q)" "K q \<noteq> K p" and cut: "cut bk (dif (K q) (K p)) c c'"
    and n: "bk n = dif (K q) (K p)"
  shows "blind K bk (plug c (put_leaf n q (kb (K q) (bk n)) (plug c' (Lf p))))"
proof -
  let ?u = "plug c' (Lf p)"
  note f = cut_facts [OF b x cut]
  have v: "valid (K p)" using b by (simp add: blind_plug)
  have bu: "blind K bk ?u" "beside K bk (set (leaves_of ?u)) c" using b by (simp_all add: plug_append blind_plug)
  have d: "dif (K a) (K q) = dif (K q) (K a)" if "a \<in> set (leaves_of ?u)" for a
    using dif_sym [OF x(1) blind_valid [OF bu(1) that]] f(1) [OF that] by simp
  have "blind K bk (put_leaf n q (kb (K q) (bk n)) ?u)" using bu(1) f(1) d n x(1) by (auto simp: put_leaf_def apart_def)
  moreover have "beside K bk (insert q (set (leaves_of ?u))) c"
  proof (rule beside_insert [OF bu(2)])
    fix i large s a assume s: "(i, large, s) \<in> set c" "a \<in> set (leaves_of s)"
    have "bk i < dif (K q) (K p)" using cut s(1) by (auto simp: cut_def)
    with above_facts [OF b _ s(2) x, of i large] s(1) show "side K (bk i) large a q" by (auto simp: side_def apart_def)
  qed
  moreover have "set (leaves_of (put_leaf n q l ?u)) = insert q (set (leaves_of ?u))" for l by (auto simp: put_leaf_def)
  ultimately show ?thesis by (simp add: blind_plug)
qed

text \<open>Dropping a key keeps it blind.\<close>

lemma blind_drop: "blind K bk (plug (c @ [(i, large, s)]) t) \<Longrightarrow> blind K bk (plug c s)"
  by (auto simp: plug_append blind_plug split: if_splits elim!: beside_sub)

end

end
