(* ===== verification/Trie_Inv.thy ===== *)
theory Trie_Inv
  imports Blindi_Trie Blind_Tree
begin

text \<open>
  What a well-formed trie node is: its pointer arrays hold a binary tree (\<open>shape\<close>) in which every branching and every key
  position occurs once, and this tree is blind for the keys. Then the walks of the code over the arrays are walks in the
  tree.
\<close>

section \<open>A tree in the arrays\<close>

fun root_val :: "nat \<Rightarrow> ptree \<Rightarrow> nat" where
  "root_val PA (Lf p) = PA + p"
| "root_val PA (Br i l r) = i"

fun shape :: "nat \<Rightarrow> nat list \<Rightarrow> nat list \<Rightarrow> ptree \<Rightarrow> bool" where
  "shape PA sm lg (Lf p) \<longleftrightarrow> True"
| "shape PA sm lg (Br i l r) \<longleftrightarrow> i < PA \<and> i < length sm \<and> i < length lg \<and> sm ! i = root_val PA l \<and> lg ! i = root_val PA r
     \<and> shape PA sm lg l \<and> shape PA sm lg r"

fun ctx_val :: "nat \<Rightarrow> step list \<Rightarrow> nat" where
  "ctx_val v [] = v"
| "ctx_val v ((i, large, s) # c) = i"

fun shape_ctx :: "nat \<Rightarrow> nat list \<Rightarrow> nat list \<Rightarrow> nat \<Rightarrow> step list \<Rightarrow> bool" where
  "shape_ctx PA sm lg v [] \<longleftrightarrow> True"
| "shape_ctx PA sm lg v ((i, large, s) # c) \<longleftrightarrow> i < PA \<and> i < length sm \<and> i < length lg
     \<and> (if large then lg else sm) ! i = ctx_val v c \<and> (if large then sm else lg) ! i = root_val PA s
     \<and> shape PA sm lg s \<and> shape_ctx PA sm lg v c"

lemma root_val_plug: "root_val PA (plug c t) = ctx_val (root_val PA t) c"
  by (induction c t rule: plug.induct) auto

lemma shape_plug: "shape PA sm lg (plug c t) \<longleftrightarrow> shape PA sm lg t \<and> shape_ctx PA sm lg (root_val PA t) c"
  by (induction c t rule: plug.induct) (auto simp: root_val_plug)

lemma ctx_val_append: "ctx_val v (c @ c') = ctx_val (ctx_val v c') c"
  by (induction c rule: ctx_leaves.induct) auto

lemma shape_ctx_append: "shape_ctx PA sm lg v (c @ c') \<longleftrightarrow> shape_ctx PA sm lg (ctx_val v c') c \<and> shape_ctx PA sm lg v c'"
  by (induction c rule: ctx_leaves.induct) (auto simp: ctx_val_append)

lemma shape_branch: "shape PA sm lg t \<Longrightarrow> i \<in># branches_of t \<Longrightarrow> i < PA \<and> i < length sm \<and> i < length lg"
  by (induction t) auto

lemma shape_cong:
  assumes "shape PA sm lg t" "length sm' = length sm" "length lg' = length lg"
    "\<forall>i \<in># branches_of t. sm' ! i = sm ! i \<and> lg' ! i = lg ! i"
  shows "shape PA sm' lg' t"
  using assms by (induction t) simp_all

lemma shape_ctx_cong:
  assumes "shape_ctx PA sm lg v c" "length sm' = length sm" "length lg' = length lg"
    "\<forall>i \<in># ctx_branches c. sm' ! i = sm ! i \<and> lg' ! i = lg ! i"
  shows "shape_ctx PA sm' lg' v c"
  using assms
proof (induction c rule: ctx_branches.induct)
  case (2 i large s c)
  have "shape PA sm' lg' s" by (rule shape_cong [of PA sm lg]) (use "2.prems" in auto)
  with 2 show ?case by (cases large) auto
qed simp

text \<open>The values of a path: the branchings and the place it ends.\<close>

definition vals :: "nat \<Rightarrow> step list \<Rightarrow> ptree \<Rightarrow> nat list" where
  "vals PA c t = map fst c @ [root_val PA t]"

lemma vals_simps [simp]:
  "vals PA [] t = [root_val PA t]" "vals PA (x # c) t = fst x # vals PA c t" "length (vals PA c t) = Suc (length c)"
  by (simp_all add: vals_def)

lemma root_val_branch: "shape PA sm lg (Br i l r) \<Longrightarrow> root_val PA (Br i l r) < PA"
  by simp

lemma size_ctx_branches: "length c \<le> size (ctx_branches c)"
  by (induction c rule: ctx_branches.induct) auto

section \<open>A path in the array of the caller\<close>

definition path_in :: "nat list \<Rightarrow> nat list \<Rightarrow> bool" where
  "path_in tr vs \<longleftrightarrow> take (length vs) tr = vs"

lemma path_len: "path_in tr vs \<Longrightarrow> length vs \<le> length tr"
  unfolding path_in_def by (metis length_take min.cobounded1)

lemma path_get: "path_in tr vs \<Longrightarrow> i < length vs \<Longrightarrow> get tr i = Some (vs ! i)"
  using path_len [of tr vs] unfolding path_in_def by (metis get_in nth_take order_less_le_trans)

lemma path_put: "path_in tr vs \<Longrightarrow> length vs < length tr \<Longrightarrow> put tr (length vs) v = Some (tr[length vs := v]) \<and> path_in (tr[length vs := v]) (vs @ [v])"
  by (simp add: path_in_def take_Suc_conv_app_nth)

lemma path_prefix: "path_in tr (vs @ ws) \<Longrightarrow> path_in tr vs"
  unfolding path_in_def by (metis append_eq_append_conv_if append_take_drop_id length_append le_add1 take_take min.absorb1)

lemma path_put_last: "path_in tr (vs @ [w]) \<Longrightarrow> put tr (length vs) v = Some (tr[length vs := v]) \<and> path_in (tr[length vs := v]) (vs @ [v])"
  using path_put [OF path_prefix] path_len [of tr "vs @ [w]"] by simp

section \<open>Every place once\<close>

text \<open>Two multisets that together are an initial segment of the numbers have nothing in common.\<close>

lemma mset_upt_once: "A = mset [0..<n] \<Longrightarrow> count A x \<le> 1"
  by (metis distinct_count_atmost_1 distinct_upt le_numeral_extra(4) zero_le_one)

lemma mset_upt_in: "A = mset [0..<n] \<Longrightarrow> x \<in># A \<longleftrightarrow> x < n"
  by simp

lemma once_disjoint:
  assumes "\<And>x. count (A + B) x \<le> 1" "x \<in># A"
  shows "x \<notin># B"
proof
  assume "x \<in># B"
  then have "1 \<le> count A x" "1 \<le> count B x" using assms(2) by (simp_all only: count_greater_eq_one_iff)
  then show False using assms(1) [of x] by (simp only: count_union)
qed

text \<open>All values of a tree: its branchings, and its keys moved by \<open>PA\<close>. Each is at one place.\<close>

definition places :: "nat \<Rightarrow> ptree \<Rightarrow> nat multiset" where
  "places PA t = branches_of t + image_mset (\<lambda>p. PA + p) (mset (leaves_of t))"

fun cells :: "nat list \<Rightarrow> nat list \<Rightarrow> ptree \<Rightarrow> nat multiset" where
  "cells sm lg (Lf p) = {#}"
| "cells sm lg (Br i l r) = {#sm ! i, lg ! i#} + cells sm lg l + cells sm lg r"

lemma cells_places: "shape PA sm lg t \<Longrightarrow> add_mset (root_val PA t) (cells sm lg t) = places PA t"
proof (induction t)
  case (Br i l r)
  then have "cells sm lg (Br i l r) = places PA l + places PA r" by (simp flip: Br.IH)
  then show ?case by (simp add: places_def)
qed (simp add: places_def)

lemma count_image_add: "count (image_mset (\<lambda>p. (PA::nat) + p) M) (PA + p) = count M p"
  by (induction M) auto

definition once :: "nat \<Rightarrow> ptree \<Rightarrow> bool" where
  "once PA t \<longleftrightarrow> (\<forall>v. count (places PA t) v \<le> 1)"

lemma onceI:
  assumes "shape PA sm lg t" "\<And>x. count (branches_of t) x \<le> 1" "\<And>x. count (mset (leaves_of t)) x \<le> 1"
  shows "once PA t"
  unfolding once_def
proof
  fix v
  show "count (places PA t) v \<le> 1"
  proof (cases "v < PA")
    case True
    then have "count (image_mset (\<lambda>p. PA + p) (mset (leaves_of t))) v = 0" by (auto simp: count_eq_zero_iff)
    then show ?thesis using assms(2) [of v] by (simp add: places_def)
  next
    case False
    then have "count (branches_of t) v = 0" using shape_branch [OF assms(1)] by (auto simp: count_eq_zero_iff)
    moreover have "v = PA + (v - PA)" using False by simp
    ultimately show ?thesis using assms(3) [of "v - PA"] count_image_add [of PA "mset (leaves_of t)" "v - PA"]
      by (simp add: places_def)
  qed
qed

lemma root_val_in: "root_val PA t \<in># places PA t"
  by (cases t) (simp_all add: places_def)

lemma places_Br: "places PA (Br i l r) = add_mset i (places PA l + places PA r)"
  by (simp add: places_def)

text \<open>The two pointers of a branching differ, so that the code can tell where a path came from.\<close>

lemma once_sides:
  assumes "once PA (plug c (Br i l r))"
  shows "root_val PA l \<noteq> root_val PA r"
proof
  assume e: "root_val PA l = root_val PA r"
  let ?A = "add_mset i (ctx_branches c + image_mset (\<lambda>p. PA + p) (ctx_leaves c)) + places PA l"
  have "places PA (plug c (Br i l r)) = ?A + places PA r" by (simp add: places_def leaves_plug branches_plug)
  then have "\<And>v. count (?A + places PA r) v \<le> 1" using assms by (simp add: once_def)
  moreover have "root_val PA l \<in># ?A" using root_val_in [of PA l] by simp
  ultimately have "root_val PA l \<notin># places PA r" by (rule once_disjoint)
  then show False using root_val_in [of PA r] e by simp
qed

section \<open>The invariant\<close>

definition tcfg_ok :: "tcfg \<Rightarrow> bool" where
  "tcfg_ok c \<longleftrightarrow> 2 \<le> T_SLOTS c \<and> T_SLOTS c \<le> 32768 \<and> 0 < T_KEY_LEN c \<and> 8 * T_KEY_LEN c \<le> t_bitidx_mod c"

lemma tcfg_okD:
  assumes "tcfg_ok c"
  shows "T_SLOTS c \<le> PTR_AREA c" "t_idx_mod c = 2 * PTR_AREA c" "2 \<le> T_SLOTS c" "8 * T_KEY_LEN c \<le> t_bitidx_mod c"
  using assms by (auto simp: tcfg_ok_def PTR_AREA_def t_idx_mod_def)

definition trie_repr :: "tcfg \<Rightarrow> db \<Rightarrow> trie \<Rightarrow> ptree \<Rightarrow> bool" where
  "trie_repr c db nd t \<longleftrightarrow> t_valid_len nd \<le> T_SLOTS c \<and> length (t_blindiKeys nd) = T_SLOTS c - 1
     \<and> length (small_ptr nd) = T_SLOTS c - 1 \<and> length (large_ptr nd) = T_SLOTS c - 1 \<and> length (t_key_ptr nd) = T_SLOTS c
     \<and> t_root nd = root_val (PTR_AREA c) t \<and> shape (PTR_AREA c) (small_ptr nd) (large_ptr nd) t
     \<and> branches_of t = mset [0..<t_valid_len nd - 1] \<and> mset (leaves_of t) = mset [0..<t_valid_len nd]
     \<and> bl.blind (T_KEY_LEN c) (\<lambda>p. db (t_key_ptr nd ! p)) (\<lambda>i. t_blindiKeys nd ! i) t"

definition trie_ok :: "tcfg \<Rightarrow> db \<Rightarrow> trie \<Rightarrow> bool" where
  "trie_ok c db nd \<longleftrightarrow> (\<exists>t. trie_repr c db nd t)"

text \<open>The keys a node holds, in the order of the array.\<close>

definition trie_keys :: "db \<Rightarrow> trie \<Rightarrow> byte list list" where
  "trie_keys db nd = map db (take (t_valid_len nd) (t_key_ptr nd))"

definition trie_ptrs :: "trie \<Rightarrow> ptr list" where
  "trie_ptrs nd = take (t_valid_len nd) (t_key_ptr nd)"

lemma trie_keys_ptrs: "trie_keys db nd = map db (trie_ptrs nd)"
  by (simp add: trie_keys_def trie_ptrs_def)

lemma trie_reprD:
  assumes "trie_repr c db nd t"
  shows "0 < t_valid_len nd" "t_valid_len nd \<le> T_SLOTS c" "length (t_blindiKeys nd) = T_SLOTS c - 1"
    "length (small_ptr nd) = T_SLOTS c - 1" "length (large_ptr nd) = T_SLOTS c - 1" "length (t_key_ptr nd) = T_SLOTS c"
    "t_root nd = root_val (PTR_AREA c) t" "shape (PTR_AREA c) (small_ptr nd) (large_ptr nd) t"
    "branches_of t = mset [0..<t_valid_len nd - 1]" "mset (leaves_of t) = mset [0..<t_valid_len nd]"
    "bl.blind (T_KEY_LEN c) (\<lambda>p. db (t_key_ptr nd ! p)) (\<lambda>i. t_blindiKeys nd ! i) t"
    "set (leaves_of t) = {..<t_valid_len nd}" "size (branches_of t) = t_valid_len nd - 1" "once (PTR_AREA c) t"
proof -
  show "t_valid_len nd \<le> T_SLOTS c" "length (t_blindiKeys nd) = T_SLOTS c - 1"
    "length (small_ptr nd) = T_SLOTS c - 1" "length (large_ptr nd) = T_SLOTS c - 1" "length (t_key_ptr nd) = T_SLOTS c"
    "t_root nd = root_val (PTR_AREA c) t" and s: "shape (PTR_AREA c) (small_ptr nd) (large_ptr nd) t"
    and b: "branches_of t = mset [0..<t_valid_len nd - 1]" and l: "mset (leaves_of t) = mset [0..<t_valid_len nd]"
    and "bl.blind (T_KEY_LEN c) (\<lambda>p. db (t_key_ptr nd ! p)) (\<lambda>i. t_blindiKeys nd ! i) t"
    using assms unfolding trie_repr_def by blast+
  show "0 < t_valid_len nd" using l leaves_ne [of t] by (cases "t_valid_len nd") auto
  have "set_mset (mset (leaves_of t)) = set_mset (mset [0..<t_valid_len nd])" by (simp only: l)
  then show "set (leaves_of t) = {..<t_valid_len nd}" by (simp add: lessThan_atLeast0)
  show "size (branches_of t) = t_valid_len nd - 1" using b by simp
  show "once (PTR_AREA c) t" by (rule onceI [OF s]) (use b l mset_upt_once in auto)
qed

lemma set_trie_keys:
  assumes "trie_repr c db nd t"
  shows "set (trie_keys db nd) = (\<lambda>p. db (t_key_ptr nd ! p)) ` set (leaves_of t)"
proof -
  have "set (take n xs) = (\<lambda>i. xs ! i) ` {..<n}" if "n \<le> length xs" for n and xs :: "ptr list"
    using that nth_image [of n xs] by (simp add: lessThan_atLeast0)
  then show ?thesis using trie_reprD [OF assms] by (simp add: trie_keys_def image_image)
qed

lemma blind_bits:
  assumes "bl.blind L K bk t" "i \<in># branches_of t"
  shows "bk i < 8 * L"
  using assms
proof (induction t)
  case (Br j l r)
  show ?case
  proof (cases "i = j")
    case True
    obtain a b where ab: "a \<in> set (leaves_of l)" "b \<in> set (leaves_of r)" by (metis last_in_set leaves_ne)
    have ap: "bl.apart K (bk i) a b" and v: "key_of_len L (K a)" "key_of_len L (K b)"
      using Br.prems(1) ab True bl.blind_valid by auto
    have "K a \<noteq> K b" using bl.apart_bits [OF ap v] by blast
    from key_dif_spec [OF v this] show ?thesis using ap by (simp add: bl.apart_def)
  qed (use Br in auto)
qed simp

section \<open>The walks of the code\<close>

lemma first_loop_spec:
  assumes "shape (PTR_AREA c) (small_ptr nd) (large_ptr nd) u" "path_in tr (us @ [root_val (PTR_AREA c) u])"
    "length us + size (branches_of u) < length tr" "length key = L"
    "\<forall>j \<in># branches_of u. j < length (t_blindiKeys nd) \<and> t_blindiKeys nd ! j < 8 * L"
  shows "\<exists>ctx p tr'. u = plug ctx (Lf p) \<and> bl.follows key (\<lambda>i. t_blindiKeys nd ! i) ctx
    \<and> t_first_loop c nd key L (root_val (PTR_AREA c) u) tr (length us) = Some (tr', length us + length ctx + 1)
    \<and> path_in tr' (us @ vals (PTR_AREA c) ctx (Lf p)) \<and> length tr' = length tr"
  using assms
proof (induction u arbitrary: us tr)
  case (Lf p)
  then show ?case
    by (intro exI [of _ "[]"] exI [of _ p] exI [of _ tr]) (simp add: t_first_loop.simps [of c nd key] bl.follows_def)
next
  case (Br i l r)
  let ?PA = "PTR_AREA c" and ?b = "key_bit key (t_blindiKeys nd ! i)"
  let ?t = "if ?b then r else l" and ?s = "if ?b then l else r" and ?us = "us @ [i]"
  have i: "i < ?PA" "i < length (small_ptr nd)" "i < length (large_ptr nd)"
    and v: "(if ?b then large_ptr nd else small_ptr nd) ! i = root_val ?PA ?t" using Br.prems(1) by auto
  have bit: "isNthBitSetInString key (t_blindiKeys nd ! i) L = Some ?b"
    by (rule isNthBitSetInString_key_bit) (use Br.prems in auto)
  have p: "path_in tr ?us" using Br.prems(2) by simp
  let ?tr = "tr[length ?us := root_val ?PA ?t]"
  from path_put [OF p, of "root_val ?PA ?t"] Br.prems(3)
  have pt: "put tr (length ?us) (root_val ?PA ?t) = Some ?tr" "path_in ?tr (?us @ [root_val ?PA ?t])" by auto
  have "\<exists>ctx p tr'. ?t = plug ctx (Lf p) \<and> bl.follows key (\<lambda>i. t_blindiKeys nd ! i) ctx
    \<and> t_first_loop c nd key L (root_val ?PA ?t) ?tr (length ?us) = Some (tr', length ?us + length ctx + 1)
    \<and> path_in tr' (?us @ vals ?PA ctx (Lf p)) \<and> length tr' = length ?tr"
    using Br.IH(1) [of ?tr ?us] Br.IH(2) [of ?tr ?us] Br.prems pt(2) by (cases ?b) simp_all
  then obtain ctx p tr' where r: "?t = plug ctx (Lf p)" "bl.follows key (\<lambda>i. t_blindiKeys nd ! i) ctx"
    "t_first_loop c nd key L (root_val ?PA ?t) ?tr (length ?us) = Some (tr', length ?us + length ctx + 1)"
    "path_in tr' (?us @ vals ?PA ctx (Lf p))" "length tr' = length ?tr" by blast
  have "t_first_loop c nd key L i tr (length us) = Some (tr', length us + Suc (length ctx) + 1)"
    using i v bit pt(1) r(3) Br.prems(5) by (subst t_first_loop.simps) simp
  moreover have "Br i l r = plug ((i, ?b, ?s) # ctx) (Lf p)" using r(1) by auto
  moreover have "bl.follows key (\<lambda>i. t_blindiKeys nd ! i) ((i, ?b, ?s) # ctx)" using r(2) by (simp add: bl.follows_def)
  ultimately show ?case using r(4,5) by (intro exI [of _ "(i, ?b, ?s) # ctx"] exI [of _ p] exI [of _ tr']) simp
qed

lemma bring_edge_spec:
  assumes "shape (PTR_AREA c) sm lg u" "path_in tr (us @ [root_val (PTR_AREA c) u])"
    "length us + size (branches_of u) < length tr"
  shows "\<exists>ctx p tr'. u = plug ctx (Lf p) \<and> (\<forall>(i, large, s) \<in> set ctx. large = b)
    \<and> p = (if b then last (leaves_of u) else hd (leaves_of u))
    \<and> t_bring_edge c (if b then lg else sm) (root_val (PTR_AREA c) u) tr (length us + 1) = Some (PTR_AREA c + p, tr', length us + length ctx + 1)
    \<and> path_in tr' (us @ vals (PTR_AREA c) ctx (Lf p)) \<and> length tr' = length tr"
  using assms
proof (induction u arbitrary: us tr)
  case (Lf p)
  then show ?case by (intro exI [of _ "[]"] exI [of _ p] exI [of _ tr]) (simp add: t_bring_edge_def)
next
  case (Br i l r)
  let ?PA = "PTR_AREA c" and ?ptrs = "if b then lg else sm"
  let ?t = "if b then r else l" and ?s = "if b then l else r" and ?us = "us @ [i]"
  have i: "i < ?PA" "get ?ptrs i = Some (root_val ?PA ?t)" using Br.prems(1) by auto
  have p: "path_in tr ?us" using Br.prems(2) by simp
  let ?tr = "tr[length ?us := root_val ?PA ?t]"
  from path_put [OF p, of "root_val ?PA ?t"] Br.prems(3)
  have pt: "put tr (length us + 1) (root_val ?PA ?t) = Some ?tr" "path_in ?tr (?us @ [root_val ?PA ?t])" by auto
  have "\<exists>ctx p tr'. ?t = plug ctx (Lf p) \<and> (\<forall>(i, large, s) \<in> set ctx. large = b)
    \<and> p = (if b then last (leaves_of ?t) else hd (leaves_of ?t))
    \<and> t_bring_edge c ?ptrs (root_val ?PA ?t) ?tr (length ?us + 1) = Some (?PA + p, tr', length ?us + length ctx + 1)
    \<and> path_in tr' (?us @ vals ?PA ctx (Lf p)) \<and> length tr' = length ?tr"
    using Br.IH(1) [of ?tr ?us] Br.IH(2) [of ?tr ?us] Br.prems pt(2) by (cases b) simp_all
  then obtain ctx p tr' where r: "?t = plug ctx (Lf p)" "\<forall>(i, large, s) \<in> set ctx. large = b"
    "p = (if b then last (leaves_of ?t) else hd (leaves_of ?t))"
    "t_bring_edge c ?ptrs (root_val ?PA ?t) ?tr (length ?us + 1) = Some (?PA + p, tr', length ?us + length ctx + 1)"
    "path_in tr' (?us @ vals ?PA ctx (Lf p))" "length tr' = length ?tr" by blast
  have "edge_loop c ?ptrs i tr (length us + 1) = t_bring_edge c ?ptrs (root_val ?PA ?t) ?tr (length us + 2)"
    using i(2) pt(1) by (subst edge_loop.simps) (simp add: t_bring_edge_def)
  then have "t_bring_edge c ?ptrs i tr (length us + 1) = Some (?PA + p, tr', length us + Suc (length ctx) + 1)"
    using i(1) r(4) by (simp add: t_bring_edge_def [of c _ i])
  moreover have "Br i l r = plug ((i, b, ?s) # ctx) (Lf p)" using r(1) by auto
  ultimately show ?case using r(2,3,5,6) by (intro exI [of _ "(i, b, ?s) # ctx"] exI [of _ p] exI [of _ tr']) (auto split: if_splits)
qed

end
