(* ===== verification/Trie_Search.thy ===== *)
theory Trie_Search
  imports Trie_Inv
begin

text \<open>
  The search of the trie leaf: the first stage ends at the best match, the second cuts its path at the bit in which the
  key differs, and the item before the key is found from there.
\<close>

section \<open>Paths in the arrays\<close>

lemma vals_append: "vals PA (c @ c') t = map fst c @ vals PA c' t"
  by (simp add: vals_def)

lemma vals_hd: "\<exists>vs. vals PA c t = root_val PA (plug c t) # vs"
  by (cases c) (auto simp: root_val_plug)

lemma path_vals_prefix: "path_in tr (vals PA (c @ c') t) \<Longrightarrow> path_in tr (vals PA c (plug c' t))"
proof -
  assume p: "path_in tr (vals PA (c @ c') t)"
  obtain vs where "vals PA c' t = root_val PA (plug c' t) # vs" using vals_hd by blast
  with p have "path_in tr ((map fst c @ [root_val PA (plug c' t)]) @ vs)" by (simp add: vals_append)
  then show ?thesis unfolding vals_def [of PA c] by (rule path_prefix)
qed

lemma path_step:
  assumes "path_in tr (vals PA (c @ (i, large, s) # c') t)"
  shows "get tr (length c) = Some i" "get tr (Suc (length c)) = Some (root_val PA (plug c' t))"
proof -
  obtain vs where v: "vals PA c' t = root_val PA (plug c' t) # vs" using vals_hd by blast
  show "get tr (length c) = Some i" "get tr (Suc (length c)) = Some (root_val PA (plug c' t))"
    using path_get [OF assms, of "length c"] path_get [OF assms, of "Suc (length c)"] v by (simp_all add: vals_append nth_append)
qed

lemma path_fork:
  assumes "path_in tr (vals PA (c @ (i, large, s) # c') t)"
  shows "path_in tr ((map fst c @ [i]) @ [root_val PA (plug c' t)])"
proof -
  obtain vs where "vals PA c' t = root_val PA (plug c' t) # vs" using vals_hd by blast
  with assms have "path_in tr (((map fst c @ [i]) @ [root_val PA (plug c' t)]) @ vs)" by (simp add: vals_append)
  then show ?thesis by (rule path_prefix)
qed

lemma lefts_small: "\<forall>(i, large, s) \<in> set c. \<not> large \<Longrightarrow> lefts c = []"
  by (induction c rule: lefts.induct) auto

lemma rights_large: "\<forall>(i, large, s) \<in> set c. large \<Longrightarrow> rights c = []"
  by (induction c rule: rights.induct) auto

text \<open>Which side a path took at a branching, read off the pointers.\<close>

lemma came_from:
  assumes "shape PA sm lg t" "once PA t" "t = plug (c @ (i, large, s) # c') u"
  shows "i < PA" "i < length sm" "i < length lg" "sm ! i = root_val PA (plug c' u) \<longleftrightarrow> \<not> large" "lg ! i = root_val PA (plug c' u) \<longleftrightarrow> large"
    "(if large then sm else lg) ! i = root_val PA s" "(if large then lg else sm) ! i = root_val PA (plug c' u)"
    "sm ! i \<noteq> lg ! i" "shape PA sm lg s" "shape PA sm lg (plug c' u)"
proof -
  have t: "t = plug c (if large then Br i s (plug c' u) else Br i (plug c' u) s)" using assms(3) by (simp add: plug_append)
  have b: "shape PA sm lg (if large then Br i s (plug c' u) else Br i (plug c' u) s)" using assms(1) unfolding t by (simp add: shape_plug)
  show "i < PA" "i < length sm" "i < length lg" "(if large then sm else lg) ! i = root_val PA s"
    "(if large then lg else sm) ! i = root_val PA (plug c' u)" "shape PA sm lg s" "shape PA sm lg (plug c' u)"
    using b by (auto split: if_splits)
  have ne: "root_val PA s \<noteq> root_val PA (plug c' u)"
    using once_sides [of PA c i s "plug c' u"] once_sides [of PA c i "plug c' u" s] assms(2) unfolding t by (auto split: if_splits)
  show "sm ! i = root_val PA (plug c' u) \<longleftrightarrow> \<not> large" "lg ! i = root_val PA (plug c' u) \<longleftrightarrow> large" "sm ! i \<noteq> lg ! i"
    using b ne by (auto split: if_splits)
qed

lemma check_smaller_spec:
  assumes "shape PA (small_ptr nd) (large_ptr nd) t" "once PA t" "t = plug c u" "path_in tr (vals PA c u)"
  shows "t_check_smaller nd tr (length c) = Some (\<forall>(i, large, s) \<in> set c. \<not> large)"
  using assms(3,4)
proof (induction c arbitrary: u rule: rev_induct)
  case (snoc x c)
  obtain i large s where x: "x = (i, large, s)" by (cases x)
  have t: "t = plug (c @ (i, large, s) # []) u" using snoc.prems(1) x by simp
  note f = came_from [OF assms(1,2) t]
  note g = path_step [OF snoc.prems(2) [unfolded x]]
  have ih: "t_check_smaller nd tr (length c) = Some (\<forall>(i, large, s) \<in> set c. \<not> large)"
    by (rule snoc.IH [of "plug [x] u"]) (use snoc.prems path_vals_prefix in \<open>auto simp: plug_append\<close>)
  show ?case using f g ih x by auto
qed simp

lemma edge_up_spec:
  assumes "shape PA (small_ptr nd) (large_ptr nd) t" "once PA t" "t = plug c u" "path_in tr (vals PA c u)"
    "\<exists>i s. (i, True, s) \<in> set c"
  shows "\<exists>c1 i s c2. c = c1 @ (i, True, s) # c2 \<and> (\<forall>(i, large, s) \<in> set c2. \<not> large) \<and> edge_up_loop nd tr (length c) = Some (Suc (length c1))"
  using assms(3,4,5)
proof (induction c arbitrary: u rule: rev_induct)
  case (snoc x c)
  obtain i large s where x: "x = (i, large, s)" by (cases x)
  have t: "t = plug (c @ (i, large, s) # []) u" using snoc.prems(1) x by simp
  note f = came_from [OF assms(1,2) t]
  note g = path_step [OF snoc.prems(2) [unfolded x]]
  show ?case
  proof (cases large)
    case True
    then show ?thesis using f g x by (intro exI [of _ c] exI [of _ i] exI [of _ s] exI [of _ "[]"]) simp
  next
    case False
    then have e: "\<exists>i s. (i, True, s) \<in> set c" using snoc.prems(3) x by auto
    obtain c1 i' s' c2 where ih: "c = c1 @ (i', True, s') # c2" "\<forall>(i, large, s) \<in> set c2. \<not> large"
      "edge_up_loop nd tr (length c) = Some (Suc (length c1))"
      using snoc.IH [OF _ _ e, of "plug [x] u"] snoc.prems path_vals_prefix by (auto simp: plug_append)
    have "edge_up_loop nd tr (length (c @ [x])) = Some (Suc (length c1))" using f g x False ih(3) by auto
    with ih(1,2) x False show ?thesis
      by (intro exI [of _ c1] exI [of _ i'] exI [of _ s'] exI [of _ "c2 @ [x]"]) auto
  qed
qed simp

text \<open>The second stage cuts the path.\<close>

lemma second_loop_spec:
  assumes "path_in tr (map fst c @ ws)" "\<forall>x \<in> set c. fst x < length (t_blindiKeys nd)" "n \<le> length c"
  shows "\<exists>m \<le> n. t_second_loop nd d tr n = Some m \<and> (\<forall>j. m \<le> j \<and> j < n \<longrightarrow> d < t_blindiKeys nd ! fst (c ! j))
    \<and> (0 < m \<longrightarrow> t_blindiKeys nd ! fst (c ! (m - 1)) \<le> d)"
  using assms(3)
proof (induction n)
  case (Suc n)
  have "get tr n = Some (fst (c ! n))" using path_get [OF assms(1), of n] Suc.prems by (simp add: nth_append)
  moreover have "fst (c ! n) < length (t_blindiKeys nd)" using assms(2) Suc.prems by simp
  ultimately show ?case using Suc by (cases "t_blindiKeys nd ! fst (c ! n) \<le> d") (auto simp: less_Suc_eq)
qed simp

lemma cut_of_loop:
  assumes b: "bl.blind L K bk (plug c (Lf p))" and x: "bl.follows x bk c" "key_of_len L x" "x \<noteq> K p"
    and m: "m \<le> length c" "\<forall>j. m \<le> j \<and> j < length c \<longrightarrow> key_dif x (K p) < bk (fst (c ! j))" "0 < m \<longrightarrow> bk (fst (c ! (m - 1))) \<le> key_dif x (K p)"
  shows "bl.cut bk (key_dif x (K p)) (take m c) (drop m c)"
proof -
  have "bk i < key_dif x (K p)" if i: "(i, large, s) \<in> set (take m c)" for i large s
  proof -
    from i obtain j where j: "j < m" "j < length c" "c ! j = (i, large, s)" by (auto simp: in_set_conv_nth)
    obtain i' large' s' where l: "c ! (m - 1) = (i', large', s')" by (cases "c ! (m - 1)")
    have lc: "(i', large', s') \<in> set c" using l j(1) m(1) by (metis Suc_pred' in_set_conv_nth less_nat_zero_code not_gr_zero less_eq_Suc_le)
    have last: "bk i' < key_dif x (K p)" using bl.step_ne_dif [OF b x lc] m(3) l j(1) by simp
    show ?thesis
    proof (cases "j = m - 1")
      case False
      have e: "Suc j + (m - 1 - Suc j) = m - 1" using False j(1) by simp
      have "drop (Suc j) c ! (m - 1 - Suc j) = (i', large', s')" using nth_drop [of "Suc j" c "m - 1 - Suc j"] j(2) l unfolding e by simp
      moreover have "m - 1 - Suc j < length (drop (Suc j) c)" using False j m(1) by simp
      ultimately have "(i', large', s') \<in> set (drop (Suc j) c)" by (metis nth_mem)
      moreover have "c = take j c @ (i, large, s) # drop (Suc j) c" using j(2,3) by (metis id_take_nth_drop)
      ultimately have "bk i < bk i'" using bl.bits_grow [of L K bk "take j c" i large s "drop (Suc j) c" p] b by metis
      then show ?thesis using last by simp
    qed (use last l j in simp)
  qed
  moreover have "key_dif x (K p) < bk i" if i: "(i, large, s) \<in> set (drop m c)" for i large s
  proof -
    from i obtain j where j: "j < length c - m" "c ! (m + j) = (i, large, s)" by (auto simp: in_set_conv_nth)
    then show ?thesis using m(2) [THEN spec, of "m + j"] by simp
  qed
  ultimately show ?thesis unfolding bl.cut_def by blast
qed

section \<open>The search\<close>

abbreviation kof :: "db \<Rightarrow> trie \<Rightarrow> nat \<Rightarrow> byte list" where
  "kof db nd p \<equiv> db (t_key_ptr nd ! p)"

abbreviation bof :: "trie \<Rightarrow> nat \<Rightarrow> nat" where
  "bof nd i \<equiv> t_blindiKeys nd ! i"

text \<open>A search arrives at key \<open>p\<close> along \<open>ctx\<close>, with its path in \<open>tr\<close>.\<close>

definition arrives :: "tcfg \<Rightarrow> trie \<Rightarrow> ptree \<Rightarrow> byte list \<Rightarrow> nat list \<Rightarrow> step list \<Rightarrow> nat \<Rightarrow> bool" where
  "arrives c nd t key tr ctx p \<longleftrightarrow> t = plug ctx (Lf p) \<and> bl.follows key (bof nd) ctx
     \<and> path_in tr (vals (PTR_AREA c) ctx (Lf p)) \<and> T_SLOTS c \<le> length tr"

lemma bits_in_range:
  assumes "trie_repr c db nd t"
  shows "\<forall>j \<in># branches_of t. j < length (t_blindiKeys nd) \<and> bof nd j < 8 * T_KEY_LEN c"
proof
  note r = trie_reprD [OF assms]
  fix j assume j: "j \<in># branches_of t"
  then have "j < t_valid_len nd - 1" using r(9) by simp
  then show "j < length (t_blindiKeys nd) \<and> bof nd j < 8 * T_KEY_LEN c" using blind_bits [OF r(11) j] r(2,3) by simp
qed

lemma first_stage_spec:
  assumes "trie_repr c db nd t" "length key = T_KEY_LEN c" "T_SLOTS c \<le> length tr0"
  obtains tr ctx p where "arrives c nd t key tr ctx p" "length tr = length tr0" "p < t_valid_len nd"
    "t_SearchFirstStage c nd key (T_KEY_LEN c) tr0 = Some (tr, length ctx + 1)"
    "key \<in> set (trie_keys db nd) \<longleftrightarrow> kof db nd p = key"
proof -
  note r = trie_reprD [OF assms(1)]
  have l: "0 < length tr0" using assms(3) r(1,2) by linarith
  let ?tr = "tr0[0 := t_root nd]" and ?PA = "PTR_AREA c"
  have pt: "put tr0 0 (t_root nd) = Some ?tr" "path_in ?tr ([] @ [root_val ?PA t])"
    using path_put [of tr0 "[]" "t_root nd"] l r(7) by (simp_all add: path_in_def)
  have sz: "length ([] :: nat list) + size (branches_of t) < length ?tr" using r(1,2,13) assms(3) by simp
  from first_loop_spec [OF r(8) pt(2) sz assms(2) bits_in_range [OF assms(1)]] obtain ctx p tr where
    f: "t = plug ctx (Lf p)" "bl.follows key (bof nd) ctx" "t_first_loop c nd key (T_KEY_LEN c) (root_val ?PA t) ?tr 0 = Some (tr, length ctx + 1)"
      "path_in tr (vals ?PA ctx (Lf p))" "length tr = length ?tr" by auto
  have "p \<in> set (leaves_of t)" unfolding f(1) by (simp add: set_leaves_plug)
  then have "p < t_valid_len nd" using r(12) by simp
  moreover have "key \<in> set (trie_keys db nd) \<longleftrightarrow> kof db nd p = key"
    using bl.blind_tree_hit [OF r(11) [unfolded f(1)] f(2), of] assms(2) set_trie_keys [OF assms(1)] f(1) by (simp add: key_of_len_def)
  ultimately show thesis using that [of tr ctx p] f pt(1) r(7) assms(3) by (simp add: arrives_def t_SearchFirstStage_def)
qed

text \<open>The comparison, and the second stage for a missing key.\<close>

definition splits_at :: "db \<Rightarrow> trie \<Rightarrow> byte list \<Rightarrow> step list \<Rightarrow> nat \<Rightarrow> nat \<Rightarrow> bool" where
  "splits_at db nd key ctx p m \<longleftrightarrow> m \<le> length ctx \<and> bl.cut (bof nd) (key_dif key (kof db nd p)) (take m ctx) (drop m ctx)"

lemma search_stages:
  assumes "trie_repr c db nd t" "length key = T_KEY_LEN c" "arrives c nd t key tr ctx p"
  shows "get tr (length ctx) = Some (PTR_AREA c + p)" "get (t_key_ptr nd) p = Some (t_key_ptr nd ! p)"
    "CompareStage key (kof db nd p) False (T_KEY_LEN c) (T_KEY_LEN c) = (if key = kof db nd p then Some (0, True, False)
       else Some (key_dif key (kof db nd p), False, key_bit key (key_dif key (kof db nd p))))"
    "key \<noteq> kof db nd p \<Longrightarrow> \<exists>m. t_SearchSecondStage nd (key_dif key (kof db nd p)) tr (length ctx + 1) = Some m
       \<and> splits_at db nd key ctx p m"
proof -
  note r = trie_reprD [OF assms(1)]
  have a: "t = plug ctx (Lf p)" "bl.follows key (bof nd) ctx" "path_in tr (map fst ctx @ [PTR_AREA c + p])"
    using assms(3) by (simp_all add: arrives_def vals_def)
  have p: "p \<in> set (leaves_of t)" unfolding a(1) by (simp add: set_leaves_plug)
  show "get tr (length ctx) = Some (PTR_AREA c + p)" using path_get [OF a(3), of "length ctx"] by (simp add: nth_append)
  show "get (t_key_ptr nd) p = Some (t_key_ptr nd ! p)" using p r(2,6,12) by simp
  have k: "key_of_len (T_KEY_LEN c) key" "key_of_len (T_KEY_LEN c) (kof db nd p)"
    using assms(2) bl.blind_valid [OF r(11) p] by (simp_all add: key_of_len_def)
  show "CompareStage key (kof db nd p) False (T_KEY_LEN c) (T_KEY_LEN c) = (if key = kof db nd p then Some (0, True, False)
       else Some (key_dif key (kof db nd p), False, key_bit key (key_dif key (kof db nd p))))"
    using CompareStage_eq [OF k] key_dif_spec [OF k] by simp
  assume ne: "key \<noteq> kof db nd p"
  have "\<forall>x \<in> set ctx. fst x < length (t_blindiKeys nd)"
  proof
    fix x assume "x \<in> set ctx"
    then have "fst x \<in># ctx_branches ctx" by (induction ctx rule: ctx_branches.induct) auto
    then have "fst x \<in># branches_of t" unfolding a(1) by (simp add: branches_plug)
    then show "fst x < length (t_blindiKeys nd)" using bits_in_range [OF assms(1)] by blast
  qed
  from second_loop_spec [OF a(3) this, of "length ctx"] obtain m where
    m: "m \<le> length ctx" "t_second_loop nd (key_dif key (kof db nd p)) tr (length ctx) = Some m"
      "\<forall>j. m \<le> j \<and> j < length ctx \<longrightarrow> key_dif key (kof db nd p) < bof nd (fst (ctx ! j))"
      "0 < m \<longrightarrow> bof nd (fst (ctx ! (m - 1))) \<le> key_dif key (kof db nd p)" by auto
  have "bl.cut (bof nd) (key_dif key (kof db nd p)) (take m ctx) (drop m ctx)"
    by (rule cut_of_loop [OF r(11) [unfolded a(1)] a(2) k(1) ne m(1,3,4)])
  with m(1,2) show "\<exists>m. t_SearchSecondStage nd (key_dif key (kof db nd p)) tr (length ctx + 1) = Some m \<and> splits_at db nd key ctx p m"
    by (auto simp: t_SearchSecondStage_def splits_at_def)
qed

text \<open>Where the item before a missing key is found.\<close>

lemma bring_item_spec:
  assumes "trie_repr c db nd t" "length key = T_KEY_LEN c" "arrives c nd t key tr ctx p" "key \<noteq> kof db nd p" "splits_at db nd key ctx p m"
  defines "large \<equiv> key_bit key (key_dif key (kof db nd p))"
  shows "\<exists>smaller q tr' len xs ys. (if large then Some False else t_check_smaller nd tr m) = Some smaller
    \<and> bring_item_edge_subtree c nd large smaller tr m = Some (PTR_AREA c + q, tr', len)
    \<and> leaves_of t = xs @ ys \<and> (\<forall>a \<in> set xs. key_less (kof db nd a) key) \<and> (\<forall>a \<in> set ys. key_less key (kof db nd a))
    \<and> smaller = (xs = []) \<and> q = (if smaller then hd ys else last xs)"
proof -
  note r = trie_reprD [OF assms(1)]
  let ?PA = "PTR_AREA c" and ?c = "take m ctx" and ?u = "plug (drop m ctx) (Lf p)"
  have m: "m \<le> length ctx" "bl.cut (bof nd) (key_dif key (kof db nd p)) ?c (drop m ctx)" using assms(5) by (simp_all add: splits_at_def)
  have a: "t = plug ctx (Lf p)" "path_in tr (vals ?PA (?c @ drop m ctx) (Lf p))" "T_SLOTS c \<le> length tr" using assms(3) by (simp_all add: arrives_def)
  have t: "t = plug ?c ?u" using a(1) by (simp flip: plug_append)
  have lc: "length ?c = m" using m(1) by simp
  have path: "path_in tr (vals ?PA ?c ?u)" by (rule path_vals_prefix [OF a(2)])
  have b: "bl.blind (T_KEY_LEN c) (kof db nd) (bof nd) (plug (?c @ drop m ctx) (Lf p))" using r(11) a(1) by simp
  have k: "key_of_len (T_KEY_LEN c) key" using assms(2) by (simp add: key_of_len_def)
  note f = bl.cut_facts [OF b k assms(4) m(2), folded large_def]
  have su: "shape ?PA (small_ptr nd) (large_ptr nd) ?u" using r(8) unfolding t by (simp add: shape_plug)
  have sz: "length ?c + size (branches_of ?u) < length tr"
    using r(1,2,13) a(3) size_ctx_branches [of ?c] unfolding t branches_plug by simp
  have get: "get tr m = Some (root_val ?PA ?u)" using path_get [OF path, of m] lc by (simp add: vals_def nth_append)
  have order: "leaves_of t = lefts ?c @ leaves_of ?u @ rights ?c" unfolding t by (rule leaves_plug_order)
  have pu: "path_in tr (map fst ?c @ [root_val ?PA ?u])" using path by (simp add: vals_def)
  show ?thesis
  proof (cases large)
    case True
    from bring_edge_spec [OF su pu, of True] sz lc obtain tr' len where
      "t_bring_largest c nd (root_val ?PA ?u) tr (m + 1) = Some (?PA + last (leaves_of ?u), tr', len)"
      by (auto simp: t_bring_largest_def)
    then show ?thesis using True get f order
      by (intro exI [of _ False] exI [of _ "last (leaves_of ?u)"] exI [of _ tr'] exI [of _ len]
          exI [of _ "lefts ?c @ leaves_of ?u"] exI [of _ "rights ?c"])
        (auto simp: bring_item_edge_subtree_def)
  next
    case False
    have ck: "t_check_smaller nd tr m = Some (\<forall>(i, large, s) \<in> set ?c. \<not> large)"
      using check_smaller_spec [OF r(8,14) t path] lc by simp
    show ?thesis
    proof (cases "\<forall>(i, large, s) \<in> set ?c. \<not> large")
      case True
      have le: "lefts ?c = []" by (rule lefts_small [OF True])
      from bring_edge_spec [OF su pu, of False] sz lc obtain tr' len where
        "t_bring_smallest c nd (root_val ?PA ?u) tr (m + 1) = Some (?PA + hd (leaves_of ?u), tr', len)"
        by (auto simp: t_bring_smallest_def)
      then show ?thesis using True False get f order ck le
        by (intro exI [of _ True] exI [of _ "hd (leaves_of ?u)"] exI [of _ tr'] exI [of _ len] exI [of _ "[]"]
            exI [of _ "leaves_of ?u @ rights ?c"]) (auto simp: bring_item_edge_subtree_def)
    next
      case sm: False
      then have "\<exists>i s. (i, True, s) \<in> set ?c" by auto
      from edge_up_spec [OF r(8,14) t path this] lc obtain d1 i s d2 where
        d: "?c = d1 @ (i, True, s) # d2" "\<forall>(i, large, s) \<in> set d2. \<not> large" "edge_up_loop nd tr m = Some (Suc (length d1))" by auto
      have le: "lefts ?c = lefts d1 @ leaves_of s" using lefts_small [OF d(2)] by (simp add: d(1))
      note cf = came_from [OF r(8,14) t [unfolded d(1)]]
      note ps = path_step [OF path [unfolded d(1)]]
      from path_put_last [OF path_fork [OF path [unfolded d(1)]], of "root_val ?PA s"]
      have pt: "put tr (Suc (length d1)) (root_val ?PA s) = Some (tr[Suc (length d1) := root_val ?PA s])"
        "path_in (tr[Suc (length d1) := root_val ?PA s]) ((map fst d1 @ [i]) @ [root_val ?PA s])" by simp_all
      have "Suc (length d1) + size (branches_of s) \<le> size (ctx_branches ?c)" unfolding d(1) using size_ctx_branches [of d1] by simp
      then have "length (map fst d1 @ [i]) + size (branches_of s) < length (tr[Suc (length d1) := root_val ?PA s])"
        using r(1,2,13) a(3) unfolding t branches_plug by simp
      from bring_edge_spec [OF cf(9) pt(2) this, of True] obtain tr' len where
        e: "t_bring_largest c nd (root_val ?PA s) (tr[Suc (length d1) := root_val ?PA s]) (Suc (length d1) + 1) = Some (?PA + last (leaves_of s), tr', len)"
        by (auto simp: t_bring_largest_def)
      have "bring_item_edge_subtree c nd False False tr m = Some (?PA + last (leaves_of s), tr', len)"
        using d(3) ps(1) cf(2,6) pt(1) e by (simp add: bring_item_edge_subtree_def)
      then show ?thesis using False sm ck f order le
        by (intro exI [of _ False] exI [of _ "last (leaves_of s)"] exI [of _ tr'] exI [of _ len] exI [of _ "lefts ?c"]
            exI [of _ "leaves_of ?u @ rights ?c"]) auto
    qed
  qed
qed

text \<open>What a search returns.\<close>

lemma trie_search_spec:
  assumes "trie_repr c db nd t" "length key = T_KEY_LEN c" "T_SLOTS c \<le> length tr0"
  shows "\<exists>r. t_SearchBlindiNode c db nd key (T_KEY_LEN c) st False tr0 = Some r \<and> ts_hit r = (key \<in> set (trie_keys db nd))
    \<and> (ts_hit r \<longrightarrow> ts_position r < t_valid_len nd \<and> kof db nd (ts_position r) = key)
    \<and> (\<not> ts_hit r \<and> st = PREDECESSOR_SEARCH \<longrightarrow>
         (if ts_smaller r then \<forall>k \<in> set (trie_keys db nd). key_less key k
          else ts_position r < t_valid_len nd \<and> key_less (kof db nd (ts_position r)) key
            \<and> (\<forall>k \<in> set (trie_keys db nd). key_less k key \<longrightarrow> \<not> key_less (kof db nd (ts_position r)) k)))"
proof -
  note r = trie_reprD [OF assms(1)]
  obtain tr ctx p where f: "arrives c nd t key tr ctx p" "length tr = length tr0" "p < t_valid_len nd"
    "t_SearchFirstStage c nd key (T_KEY_LEN c) tr0 = Some (tr, length ctx + 1)"
    "key \<in> set (trie_keys db nd) \<longleftrightarrow> kof db nd p = key" by (rule first_stage_spec [OF assms])
  note s = search_stages [OF assms(1,2) f(1)]
  show ?thesis
  proof (cases "key = kof db nd p")
    case True
    then show ?thesis using f(3,4,5) s(1,2,3) by (simp add: t_SearchBlindiNode_def)
  next
    case False
    show ?thesis
    proof (cases st)
      case POINT_SEARCH
      then show ?thesis using f(3,4,5) s(1,2,3) False by (auto simp: t_SearchBlindiNode_def)
    next
      case PREDECESSOR_SEARCH
      from s(4) [OF False] obtain m where m: "t_SearchSecondStage nd (key_dif key (kof db nd p)) tr (length ctx + 1) = Some m"
        "splits_at db nd key ctx p m" by blast
      let ?large = "key_bit key (key_dif key (kof db nd p))"
      from bring_item_spec [OF assms(1,2) f(1) False m(2)] obtain smaller q tr' len xs ys where
        b: "(if ?large then Some False else t_check_smaller nd tr m) = Some smaller"
          "bring_item_edge_subtree c nd ?large smaller tr m = Some (PTR_AREA c + q, tr', len)"
          "leaves_of t = xs @ ys" "\<forall>a \<in> set xs. key_less (kof db nd a) key" "\<forall>a \<in> set ys. key_less key (kof db nd a)"
          "smaller = (xs = [])" "q = (if smaller then hd ys else last xs)" by blast
      have K: "set (trie_keys db nd) = kof db nd ` (set xs \<union> set ys)" using set_trie_keys [OF assms(1)] b(3) by simp
      have q: "xs \<noteq> [] \<Longrightarrow> q \<in> set xs" using b(6,7) by auto
      have so: "sorted_wrt (\<lambda>a b. key_less (kof db nd a) (kof db nd b)) (xs @ ys)" using bl.sorted_blind [OF r(11)] b(3) by simp
      have mx: "\<not> key_less (kof db nd q) (kof db nd a)" if a: "a \<in> set xs" for a
      proof -
        have l: "xs = butlast xs @ [q]" using a b(6,7) by (cases "xs = []") auto
        with so a have "a = q \<or> key_less (kof db nd a) (kof db nd q)" by (metis (no_types, lifting) Un_iff empty_iff list.set(1) set_ConsD set_append list.set_intros(1) sorted_wrt_append)
        then show ?thesis by (auto simp: key_less_def)
      qed
      have "t_SearchBlindiNode c db nd key (T_KEY_LEN c) st False tr0 = Some \<lparr> ts_position = q, ts_hit = False, ts_smaller = smaller,
          ts_diff_pos = key_dif key (kof db nd p), ts_large_small = ?large, ts_traverse = tr', ts_len = len \<rparr>"
        using f(4) s(1,2,3) m(1) b(1,2) False PREDECESSOR_SEARCH by (simp add: t_SearchBlindiNode_def)
      moreover have "key \<notin> set (trie_keys db nd)" using f(5) False by auto
      moreover have "if smaller then \<forall>k \<in> set (trie_keys db nd). key_less key k
          else q < t_valid_len nd \<and> key_less (kof db nd q) key
            \<and> (\<forall>k \<in> set (trie_keys db nd). key_less k key \<longrightarrow> \<not> key_less (kof db nd q) k)"
      proof (cases smaller)
        case True
        then show ?thesis using b(5,6) K by auto
      next
        case F: False
        then have "q \<in> set xs" using q b(6) by simp
        then have "q < t_valid_len nd" "key_less (kof db nd q) key" using r(12) b(3,4) by auto
        moreover have "\<not> key_less (kof db nd q) k" if k: "k \<in> set (trie_keys db nd)" "key_less k key" for k
        proof -
          from k(1) K obtain a where a: "k = kof db nd a" "a \<in> set xs \<or> a \<in> set ys" by auto
          have "a \<notin> set ys" using b(5) k(2) a(1) by (auto simp: key_less_def)
          then show ?thesis using mx a by auto
        qed
        ultimately show ?thesis using F by simp
      qed
      ultimately show ?thesis by auto
    qed
  qed
qed

end
