(* ===== verification/Trie_Order.thy ===== *)
theory Trie_Order
  imports Trie_Search
begin

text \<open>
  The walks over a trie leaf in key order: each step of the code moves to the next leaf of the tree, whichever way it walks.
\<close>

section \<open>The items in order\<close>

lemma cell_in: "i \<in># branches_of t \<Longrightarrow> sm ! i \<in># cells sm lg t \<and> lg ! i \<in># cells sm lg t"
  by (induction t) auto

text \<open>No pointer of a cell leads to the root.\<close>

lemma root_no_cell:
  assumes "shape PA sm lg t" "once PA t" "i \<in># branches_of t"
  shows "sm ! i \<noteq> root_val PA t" "lg ! i \<noteq> root_val PA t"
proof -
  have "count (add_mset (root_val PA t) (cells sm lg t)) (root_val PA t) \<le> 1"
    using assms(2) cells_places [OF assms(1)] by (simp add: once_def)
  then have "root_val PA t \<notin># cells sm lg t" by (simp add: not_in_iff)
  then show "sm ! i \<noteq> root_val PA t" "lg ! i \<noteq> root_val PA t" using cell_in [OF assms(3), of sm lg] by auto
qed

lemma up_loop_spec:
  assumes "shape (PTR_AREA c) (small_ptr nd) (large_ptr nd) t" "once (PTR_AREA c) t" "t_root nd = root_val (PTR_AREA c) t"
    "t = plug ctx u" "path_in tr (vals (PTR_AREA c) ctx u)" "\<exists>i s. (i, b, s) \<in> set ctx"
  shows "\<exists>c1 i s c2. ctx = c1 @ (i, b, s) # c2 \<and> (\<forall>(i, large, s) \<in> set c2. large = (\<not> b))
    \<and> up_loop nd (if b then large_ptr nd else small_ptr nd) tr (Suc (length ctx)) = Some (Suc (Suc (length c1)))"
  using assms(4,5,6)
proof (induction ctx arbitrary: u rule: rev_induct)
  case (snoc x c')
  let ?ptrs = "if b then large_ptr nd else small_ptr nd"
  obtain i large s where x: "x = (i, large, s)" by (cases x)
  have t: "t = plug (c' @ (i, large, s) # []) u" using snoc.prems(1) x by simp
  note f = came_from [OF assms(1,2) t]
  note g = path_step [OF snoc.prems(2) [unfolded x]]
  show ?case
  proof (cases "large = b")
    case True
    then show ?thesis using f g x by (intro exI [of _ c'] exI [of _ i] exI [of _ s] exI [of _ "[]"]) (cases b; simp)
  next
    case False
    then have e: "\<exists>i s. (i, b, s) \<in> set c'" using snoc.prems(3) x by auto
    then obtain d y where d: "c' = d @ [y]" by (metis append_butlast_last_id empty_iff empty_set)
    obtain i' large' s' where y: "y = (i', large', s')" by (cases y)
    have p: "path_in tr (vals (PTR_AREA c) c' (plug [x] u))" by (rule path_vals_prefix [OF snoc.prems(2)])
    have t': "t = plug (d @ (i', large', s') # []) (plug [x] u)" using snoc.prems(1) d y by (simp add: plug_append)
    note f' = came_from [OF assms(1,2) t']
    note g' = path_step [OF p [unfolded d y]]
    have "i' \<in># branches_of t" unfolding t' by (simp add: branches_plug)
    then have cell: "?ptrs ! i' \<noteq> t_root nd" using root_no_cell [OF assms(1,2)] assms(3) by simp
    obtain c1 j s1 c2 where ih: "c' = c1 @ (j, b, s1) # c2" "\<forall>(i, large, s) \<in> set c2. large = (\<not> b)"
      "up_loop nd ?ptrs tr (Suc (length c')) = Some (Suc (Suc (length c1)))"
      using snoc.IH [OF _ p e] snoc.prems(1) by (auto simp: plug_append)
    have "up_loop nd ?ptrs tr (Suc (length (c' @ [x]))) = up_loop nd ?ptrs tr (Suc (length c'))"
      using f g f' g' x False cell d by (cases b) auto
    with ih x False show ?thesis
      by (intro exI [of _ c1] exI [of _ j] exI [of _ s1] exI [of _ "c2 @ [x]"]) auto
  qed
qed simp

text \<open>One step moves to the next key on the way, which is the next leaf of the tree.\<close>

definition ahead :: "bool \<Rightarrow> step list \<Rightarrow> nat list" where
  "ahead b ctx = (if b then rev (lefts ctx) else rights ctx)"

lemma ahead_fork:
  assumes "\<forall>(i, large, s) \<in> set c2. large = (\<not> b)" "s = plug e (Lf q)" "\<forall>(i, large, s) \<in> set e. large = b"
  shows "ahead b (c1 @ (i, b, s) # c2) = q # ahead b (c1 @ (i, \<not> b, s') # e)"
  using assms lefts_small [of c2] rights_large [of c2] lefts_small [of e] rights_large [of e]
  by (cases b) (auto simp: ahead_def leaves_plug_order)

lemma step_item_spec:
  assumes "trie_repr c db nd t" "t = plug ctx (Lf p)" "path_in tr (vals (PTR_AREA c) ctx (Lf p))" "T_SLOTS c \<le> length tr"
    and "ahead b ctx \<noteq> []"
  defines "ptrs \<equiv> if b then large_ptr nd else small_ptr nd" and "other \<equiv> if b then small_ptr nd else large_ptr nd"
  shows "\<exists>q ctx' tr'. step_item c nd ptrs other tr (Suc (length ctx)) = Some (PTR_AREA c + q, tr', Suc (length ctx'))
    \<and> t = plug ctx' (Lf q) \<and> path_in tr' (vals (PTR_AREA c) ctx' (Lf q)) \<and> length tr' = length tr \<and> ahead b ctx = q # ahead b ctx'"
proof -
  let ?PA = "PTR_AREA c"
  note r = trie_reprD [OF assms(1)]
  have "\<exists>i s. (i, b, s) \<in> set ctx"
    using assms(5) lefts_small [of ctx] rights_large [of ctx] by (cases b; fastforce simp: ahead_def)
  from up_loop_spec [OF r(8,14,7) assms(2,3) this] obtain c1 i s c2 where
    d: "ctx = c1 @ (i, b, s) # c2" "\<forall>(i, large, s) \<in> set c2. large = (\<not> b)" "up_loop nd ptrs tr (Suc (length ctx)) = Some (Suc (Suc (length c1)))"
    unfolding ptrs_def by blast
  note cf = came_from [OF r(8,14) assms(2) [unfolded d(1)]]
  note ps = path_step [OF assms(3) [unfolded d(1)]]
  let ?tr = "tr[Suc (length c1) := root_val ?PA s]" and ?us = "map fst c1 @ [i]"
  from path_put_last [OF path_fork [OF assms(3) [unfolded d(1)]], of "root_val ?PA s"]
  have pt: "put tr (Suc (length c1)) (root_val ?PA s) = Some ?tr" "path_in ?tr (?us @ [root_val ?PA s])" by simp_all
  have "Suc (length c1) + size (branches_of s) \<le> size (ctx_branches ctx)" unfolding d(1) using size_ctx_branches [of c1] by simp
  then have "length ?us + size (branches_of s) < length ?tr"
    using r(1,2,13) assms(4) unfolding assms(2) branches_plug by simp
  from bring_edge_spec [OF cf(9) pt(2) this, of b] obtain e q tr' where
    e: "s = plug e (Lf q)" "\<forall>(i, large, s) \<in> set e. large = b"
      "t_bring_edge c ptrs (root_val ?PA s) ?tr (length ?us + 1) = Some (?PA + q, tr', length ?us + length e + 1)"
      "path_in tr' (?us @ vals ?PA e (Lf q))" "length tr' = length ?tr" unfolding ptrs_def by blast
  let ?ctx = "c1 @ (i, \<not> b, plug c2 (Lf p)) # e"
  have o: "get other i = Some (root_val ?PA s)" using cf(2,3,6) by (cases b) (simp_all add: other_def)
  have "step_item c nd ptrs other tr (Suc (length ctx)) = Some (?PA + q, tr', Suc (length ?ctx))"
    using d(1,3) ps(1) pt(1) e(3) o by (simp add: step_item_def)
  moreover have "t = plug ?ctx (Lf q)" using assms(2) d(1) e(1) by (cases b) (simp_all add: plug_append)
  moreover have "path_in tr' (vals ?PA ?ctx (Lf q))" using e(4) by (simp add: vals_append)
  moreover have "ahead b ctx = q # ahead b ?ctx" unfolding d(1) by (rule ahead_fork [OF d(2) e(1,2)])
  ultimately show ?thesis using e(5) by (intro exI [of _ q] exI [of _ ?ctx] exI [of _ tr']) simp
qed

lemma step_items_spec:
  assumes "trie_repr c db nd t" "t = plug ctx (Lf p)" "path_in tr (vals (PTR_AREA c) ctx (Lf p))" "T_SLOTS c \<le> length tr"
    and "length (ahead b ctx) = n"
  shows "step_items c nd (if b then large_ptr nd else small_ptr nd) (if b then small_ptr nd else large_ptr nd) n tr (Suc (length ctx))
    = Some (ahead b ctx)"
  using assms(2-)
proof (induction n arbitrary: ctx p tr)
  case (Suc n)
  have "ahead b ctx \<noteq> []" using Suc.prems(4) by auto
  from step_item_spec [OF assms(1) Suc.prems(1,2,3) this] obtain q ctx' tr' where
    s: "step_item c nd (if b then large_ptr nd else small_ptr nd) (if b then small_ptr nd else large_ptr nd) tr (Suc (length ctx))
        = Some (PTR_AREA c + q, tr', Suc (length ctx'))"
      "t = plug ctx' (Lf q)" "path_in tr' (vals (PTR_AREA c) ctx' (Lf q))" "length tr' = length tr" "ahead b ctx = q # ahead b ctx'" by blast
  then show ?case using Suc.IH [OF s(2,3)] Suc.prems(3,4) by simp
qed simp

text \<open>\<^verbatim>\<open>bring_sorted_items\<close> and \<^verbatim>\<open>bring_descending_items\<close> yield the leaves in order.\<close>

lemma walk_items_spec:
  assumes "trie_repr c db nd t"
  shows "walk_items c nd (if b then large_ptr nd else small_ptr nd) (if b then small_ptr nd else large_ptr nd)
    = Some (if b then rev (leaves_of t) else leaves_of t)"
proof -
  note r = trie_reprD [OF assms]
  let ?PA = "PTR_AREA c" and ?tr0 = "(replicate (T_SLOTS c) 0)[0 := t_root nd]"
  have n: "0 < T_SLOTS c" using r(1,2) by linarith
  then have pt: "put (replicate (T_SLOTS c) 0) 0 (t_root nd) = Some ?tr0" "path_in ?tr0 ([] @ [root_val ?PA t])"
    using path_put [of "replicate (T_SLOTS c) 0" "[]" "t_root nd"] r(7) by (simp_all add: path_in_def)
  have sz: "length ([] :: nat list) + size (branches_of t) < length ?tr0" using r(1,2,13) by simp
  from bring_edge_spec [OF r(8) pt(2) sz, of b] obtain ctx p tr where
    e: "t = plug ctx (Lf p)" "\<forall>(i, large, s) \<in> set ctx. large = b" "p = (if b then last (leaves_of t) else hd (leaves_of t))"
      "t_bring_edge c (if b then large_ptr nd else small_ptr nd) (root_val ?PA t) ?tr0 1 = Some (?PA + p, tr, Suc (length ctx))"
      "path_in tr (vals ?PA ctx (Lf p))" "length tr = length ?tr0" by auto
  have l: "(if b then rev (leaves_of t) else leaves_of t) = p # ahead b ctx"
    using e(2) lefts_small [of ctx] rights_large [of ctx] unfolding e(1) by (cases b) (auto simp: ahead_def leaves_plug_order)
  have "length (leaves_of t) = t_valid_len nd" using r(10) by (metis length_upt minus_nat.diff_0 size_mset)
  moreover have "length (if b then rev (leaves_of t) else leaves_of t) = length (leaves_of t)" by simp
  ultimately have n1: "length (ahead b ctx) = t_valid_len nd - 1" unfolding l by simp
  have "T_SLOTS c \<le> length tr" using e(6) by simp
  from step_items_spec [OF assms e(1,5) this n1] show ?thesis using pt(1) e(4) r(7) l by (simp add: walk_items_def)
qed

lemma sorted_items_spec:
  assumes "trie_repr c db nd t"
  shows "bring_sorted_items c nd = Some (leaves_of t)" "bring_descending_items c nd = Some (rev (leaves_of t))"
  using walk_items_spec [OF assms, of False] walk_items_spec [OF assms, of True]
  by (simp_all add: bring_sorted_items_def bring_descending_items_def)

section \<open>The least and the greatest key\<close>

lemma down_loop_spec:
  assumes "shape (PTR_AREA c) sm lg (Br i l r)" "size (branches_of (Br i l r)) \<le> fuel"
  shows "down_loop c (if b then lg else sm) i fuel = Some (if b then last (leaves_of (Br i l r)) else hd (leaves_of (Br i l r)))"
  using assms
proof (induction fuel arbitrary: i l r)
  case (Suc fuel)
  let ?t = "if b then r else l"
  have g: "get (if b then lg else sm) i = Some (root_val (PTR_AREA c) ?t)" "shape (PTR_AREA c) sm lg ?t"
    "size (branches_of ?t) \<le> fuel" using Suc.prems by auto
  have l: "(if b then last (leaves_of (Br i l r)) else hd (leaves_of (Br i l r))) = (if b then last (leaves_of ?t) else hd (leaves_of ?t))"
    by simp
  show ?case
  proof (cases ?t)
    case (Br j l' r')
    have "down_loop c (if b then lg else sm) j fuel = Some (if b then last (leaves_of ?t) else hd (leaves_of ?t))"
      unfolding Br by (rule Suc.IH) (use g Br in simp_all)
    then show ?thesis unfolding l using g Br by (simp del: leaves_of.simps)
  next
    case (Lf p)
    have "down_loop c (if b then lg else sm) i (Suc fuel) = Some p" using g(1) Lf by simp
    then show ?thesis unfolding l Lf by simp
  qed
qed simp

lemma min_max_pos:
  assumes "trie_repr c db nd t"
  shows "get_max_pos_node c nd = Some (last (leaves_of t))" "get_min_pos_node c nd = Some (hd (leaves_of t))"
proof -
  note r = trie_reprD [OF assms]
  have "get_max_pos_node c nd = Some (last (leaves_of t)) \<and> get_min_pos_node c nd = Some (hd (leaves_of t))"
  proof (cases t)
    case (Lf p)
    then have "t_valid_len nd = 1" using r(1,13) by simp
    moreover have "p < t_valid_len nd" using r(12) Lf by auto
    ultimately show ?thesis using Lf by (simp add: get_max_pos_node_def get_min_pos_node_def)
  next
    case (Br i l s)
    have "t_valid_len nd \<noteq> 1" "size (branches_of (Br i l s)) \<le> T_SLOTS c" using r(2,13) Br by auto
    then show ?thesis using down_loop_spec [OF r(8) [unfolded Br], of "T_SLOTS c" True] down_loop_spec [OF r(8) [unfolded Br], of "T_SLOTS c" False] r(7) Br
      by (simp add: get_max_pos_node_def get_min_pos_node_def del: leaves_of.simps)
  qed
  then show "get_max_pos_node c nd = Some (last (leaves_of t))" "get_min_pos_node c nd = Some (hd (leaves_of t))" by blast+
qed

end
