(* ===== verification/Trie_Insert.thy ===== *)
theory Trie_Insert
  imports Trie_Order
begin

text \<open>
  The insertion into a trie leaf: a new branching is put where the search has cut its path, and the key goes behind the others.
\<close>

section \<open>Changing one pointer\<close>

lemma once_branch:
  assumes "once PA t" "branches_of t = add_mset i M"
  shows "i \<notin># M"
proof
  assume "i \<in># M"
  then have "1 \<le> count M i" by (simp only: count_greater_eq_one_iff)
  moreover have "count (branches_of t) i \<le> 1" using assms(1) unfolding once_def places_def by (metis add_leD1 count_union)
  ultimately have "1 \<le> count M i" "Suc (count M i) \<le> 1" by (simp_all only: assms(2) count_add_mset refl if_True)
  then show False by linarith
qed

lemma shape_update: "shape PA sm lg t \<Longrightarrow> n \<notin># branches_of t \<Longrightarrow> shape PA (sm[n := x]) (lg[n := y]) t"
  by (rule shape_cong) (auto intro!: nth_list_update_neq)

text \<open>The last pointer of a path is set: the subtree is replaced.\<close>

lemma shape_set_parent:
  fixes w :: ptree
  assumes "shape PA sm lg (plug (c @ [(i, b, s)]) u)" "once PA (plug (c @ [(i, b, s)]) u)"
  defines "sm' \<equiv> if b then sm else sm[i := root_val PA w]" and "lg' \<equiv> if b then lg[i := root_val PA w] else lg"
  assumes "shape PA sm' lg' w"
  shows "shape PA sm' lg' (plug (c @ [(i, b, s)]) w)"
proof -
  have sh: "shape_ctx PA sm lg i c" "i < PA" "i < length sm" "i < length lg" "(if b then sm else lg) ! i = root_val PA s" "shape PA sm lg s"
    using assms(1) by (auto simp: shape_plug shape_ctx_append)
  have "branches_of (plug (c @ [(i, b, s)]) u) = add_mset i (ctx_branches c + branches_of s + branches_of u)"
    by (simp add: branches_plug)
  then have i: "i \<notin># ctx_branches c + branches_of s + branches_of u" by (rule once_branch [OF assms(2)])
  have same: "sm' ! j = sm ! j \<and> lg' ! j = lg ! j" if "j \<noteq> i" for j using that by (simp add: sm'_def lg'_def)
  have len: "length sm' = length sm" "length lg' = length lg" by (simp_all add: sm'_def lg'_def)
  have "shape_ctx PA sm' lg' i c" by (rule shape_ctx_cong [OF sh(1) len]) (intro ballI same, use i in auto)
  moreover have "shape PA sm' lg' s" by (rule shape_cong [OF sh(6) len]) (intro ballI same, use i in auto)
  moreover have "(if b then lg' else sm') ! i = root_val PA w" "(if b then sm' else lg') ! i = root_val PA s"
    using sh(3-5) by (auto simp: sm'_def lg'_def)
  ultimately show ?thesis using sh(2-4) assms(5) len by (simp add: shape_plug shape_ctx_append)
qed

text \<open>A new branching \<open>n\<close> above the subtree \<open>u\<close>, in the cells \<open>n\<close>.\<close>

lemma shape_put_leaf:
  assumes "shape PA sm lg u" "n \<notin># branches_of u" "n < PA" "n < length sm" "n < length lg"
  shows "shape PA (sm[n := if large then root_val PA u else PA + q]) (lg[n := if large then PA + q else root_val PA u]) (put_leaf n q large u)"
proof -
  have "shape PA (sm[n := x]) (lg[n := y]) u" for x y by (rule shape_update [OF assms(1,2)])
  then show ?thesis using assms(3-5) by (simp add: put_leaf_def)
qed

lemma root_put_leaf [simp]: "root_val PA (put_leaf n q large u) = n"
  by (simp add: put_leaf_def)

lemma leaves_put_leaf: "mset (leaves_of (put_leaf n q large u)) = add_mset q (mset (leaves_of u))"
  by (simp add: put_leaf_def)

lemma branches_put_leaf: "branches_of (put_leaf n q large u) = add_mset n (branches_of u)"
  by (simp add: put_leaf_def)

section \<open>The insertion in position\<close>

text \<open>The arrays after the insertion, and the tree in them.\<close>

lemma insert_position_spec:
  assumes "trie_repr c db nd t" "tcfg_ok c" "t_valid_len nd < T_SLOTS c"
    and t: "t = plug (ctx @ ctx') (Lf p)" and path: "path_in tr (vals (PTR_AREA c) (ctx @ ctx') (Lf p))" and d: "d < t_bitidx_mod c"
  defines "n \<equiv> t_valid_len nd" and "u \<equiv> plug ctx' (Lf p)"
  shows "\<exists>sm lg root. t_InsertInPosition c nd k d large tr (length ctx)
      = Some (nd \<lparr> t_key_ptr := (t_key_ptr nd)[n := k], t_blindiKeys := (t_blindiKeys nd)[n - 1 := d],
          small_ptr := sm, large_ptr := lg, t_root := root, t_valid_len := n + 1 \<rparr>)
    \<and> length sm = length (small_ptr nd) \<and> length lg = length (large_ptr nd)
    \<and> root = root_val (PTR_AREA c) (plug ctx (put_leaf (n - 1) n large u))
    \<and> shape (PTR_AREA c) sm lg (plug ctx (put_leaf (n - 1) n large u))"
proof -
  let ?PA = "PTR_AREA c" and ?sm = "small_ptr nd" and ?lg = "large_ptr nd"
  note r = trie_reprD [OF assms(1), folded n_def] and g = tcfg_okD [OF assms(2)]
  have n: "0 < n" "n < T_SLOTS c" using r(1) assms(3) by (simp_all add: n_def)
  have PA: "n < ?PA" "?PA + n < t_idx_mod c" "(?PA + n) mod t_idx_mod c = ?PA + n" "(n + 1) mod t_idx_mod c = n + 1"
    using n g by simp_all
  have lens: "n < length (t_key_ptr nd)" "n - 1 < length (t_blindiKeys nd)" "n - 1 < length ?sm" "n - 1 < length ?lg"
    using n r(3-6) by simp_all
  have dm: "d mod t_bitidx_mod c = d" using d by simp
  have su: "shape ?PA ?sm ?lg u" "shape ?PA ?sm ?lg (plug ctx u)" using r(8) unfolding t u_def by (simp_all add: plug_append shape_plug)
  have nb: "n - 1 \<notin># branches_of t" using r(9) by simp
  then have nu: "n - 1 \<notin># branches_of u" "n - 1 \<notin># ctx_branches ctx" unfolding t u_def by (simp_all add: plug_append branches_plug)
  have pu: "path_in tr (map fst ctx @ [root_val ?PA u])" using path_vals_prefix [OF path] by (simp add: vals_def u_def)
  let ?new = "\<lambda>sm lg. (sm[n - 1 := if large then root_val ?PA u else ?PA + n], lg[n - 1 := if large then ?PA + n else root_val ?PA u])"
  show ?thesis
  proof (cases "n = 1")
    case True
    have "size (branches_of t) = 0" using r(13) True by simp
    then have e: "ctx = []" "ctx' = []" unfolding t by (cases ctx; cases ctx'; auto simp: branches_plug plug_append)+
    have "p \<in> set (leaves_of t)" unfolding t by (simp add: set_leaves_plug)
    then have "p < n" using r(12) by simp
    then have p: "p = 0" using True by simp
    then have ru: "root_val ?PA u = ?PA" by (simp add: u_def e)
    have "t_InsertInPosition c nd k d large tr (length ctx) = Some (nd \<lparr> t_key_ptr := (t_key_ptr nd)[n := k], t_blindiKeys := (t_blindiKeys nd)[n - 1 := d],
          small_ptr := fst (?new ?sm ?lg), large_ptr := snd (?new ?sm ?lg), t_root := 0, t_valid_len := n + 1 \<rparr>)"
      using lens dm PA True e(1) ru n_def by (simp add: t_InsertInPosition_def Let_def)
    moreover have "shape ?PA (fst (?new ?sm ?lg)) (snd (?new ?sm ?lg)) (put_leaf (n - 1) n large u)"
      unfolding fst_conv snd_conv by (rule shape_put_leaf [OF su(1) nu(1)]) (use PA(1) lens in auto)
    ultimately show ?thesis using e(1) True by (intro exI [of _ "fst (?new ?sm ?lg)"] exI [of _ "snd (?new ?sm ?lg)"] exI [of _ 0]) simp
  next
    case n1: False
    show ?thesis
    proof (cases ctx rule: rev_cases)
      case Nil
      have "get tr 0 = Some (root_val ?PA u)" using path_get [OF pu, of 0] Nil by simp
      then have "t_InsertInPosition c nd k d large tr (length ctx) = Some (nd \<lparr> t_key_ptr := (t_key_ptr nd)[n := k], t_blindiKeys := (t_blindiKeys nd)[n - 1 := d],
          small_ptr := fst (?new ?sm ?lg), large_ptr := snd (?new ?sm ?lg), t_root := n - 1, t_valid_len := n + 1 \<rparr>)"
        using lens dm PA n n1 Nil by (simp add: t_InsertInPosition_def Let_def flip: n_def)
      moreover have "shape ?PA (fst (?new ?sm ?lg)) (snd (?new ?sm ?lg)) (put_leaf (n - 1) n large u)"
        unfolding fst_conv snd_conv by (rule shape_put_leaf [OF su(1) nu(1)]) (use PA(1) lens in auto)
      ultimately show ?thesis using Nil by (intro exI [of _ "fst (?new ?sm ?lg)"] exI [of _ "snd (?new ?sm ?lg)"] exI [of _ "n - 1"]) simp
    next
      case (snoc c0 x)
      obtain i b s where x: "x = (i, b, s)" by (cases x)
      have t0: "t = plug (c0 @ (i, b, s) # []) u" unfolding t u_def snoc x by (simp add: plug_append)
      note cf = came_from [OF r(8,14) t0]
      let ?sm1 = "if b then ?sm else ?sm[i := n - 1]" and ?lg1 = "if b then ?lg[i := n - 1] else ?lg"
      have gi: "get tr (length c0) = Some i" "get tr (Suc (length c0)) = Some (root_val ?PA u)"
        using path_get [OF pu, of "length c0"] path_get [OF pu, of "Suc (length c0)"] by (simp_all add: snoc x nth_append)
      have run: "t_InsertInPosition c nd k d large tr (length ctx) = Some (nd \<lparr> t_key_ptr := (t_key_ptr nd)[n := k], t_blindiKeys := (t_blindiKeys nd)[n - 1 := d],
          small_ptr := fst (?new ?sm1 ?lg1), large_ptr := snd (?new ?sm1 ?lg1), t_valid_len := n + 1 \<rparr>)"
        using lens dm PA n n1 snoc x gi cf(2-5,7) by (cases b) (simp_all add: t_InsertInPosition_def Let_def flip: n_def)
      have ni: "n - 1 \<noteq> i" using nu(2) by (auto simp: snoc x)
      let ?w = "put_leaf (n - 1) n large u"
      have iu: "i \<notin># branches_of u"
        using once_branch [OF r(14), of i "ctx_branches c0 + branches_of s + branches_of u"] unfolding t0 by (simp add: branches_plug)
      have len1: "length ?sm1 = length ?sm" "length ?lg1 = length ?lg" by simp_all
      have su1: "shape ?PA ?sm1 ?lg1 u" by (rule shape_cong [OF su(1) len1]) (use iu in \<open>auto intro!: nth_list_update_neq\<close>)
      have w: "shape ?PA (fst (?new ?sm1 ?lg1)) (snd (?new ?sm1 ?lg1)) ?w"
        unfolding fst_conv snd_conv by (rule shape_put_leaf [OF su1 nu(1)]) (use PA(1) lens in auto)
      let ?sm0 = "fst (?new ?sm ?lg)" and ?lg0 = "snd (?new ?sm ?lg)"
      have sh0: "shape ?PA ?sm0 ?lg0 (plug (c0 @ [(i, b, s)]) u)"
        unfolding fst_conv snd_conv using r(8) nb unfolding t0 by (simp add: shape_update)
      have "fst (?new ?sm1 ?lg1) = (if b then ?sm0 else ?sm0[i := root_val ?PA ?w])"
        "snd (?new ?sm1 ?lg1) = (if b then ?lg0[i := root_val ?PA ?w] else ?lg0)"
        using ni by (auto simp: list_update_swap)
      with shape_set_parent [OF sh0, of ?w] w r(14) have "shape ?PA (fst (?new ?sm1 ?lg1)) (snd (?new ?sm1 ?lg1)) (plug ctx ?w)"
        unfolding t0 by (simp only: snoc x)
      moreover have "t_root nd = root_val ?PA (plug ctx ?w)"
        using r(7) unfolding t0 snoc x by (cases c0) (auto simp: root_val_plug)
      ultimately show ?thesis using run
        by (intro exI [of _ "fst (?new ?sm1 ?lg1)"] exI [of _ "snd (?new ?sm1 ?lg1)"] exI [of _ "t_root nd"]) simp
    qed
  qed
qed

section \<open>The insertion of a key\<close>

lemma search_for_insert:
  assumes "trie_repr c db nd t" "length key = T_KEY_LEN c"
  obtains r ctx ctx' p where "t_SearchBlindiNode c db nd key (T_KEY_LEN c) PREDECESSOR_SEARCH True (replicate (T_SLOTS c) 0) = Some r"
    "ts_hit r = (key \<in> set (trie_keys db nd))"
    "\<not> ts_hit r \<longrightarrow> t = plug (ctx @ ctx') (Lf p) \<and> path_in (ts_traverse r) (vals (PTR_AREA c) (ctx @ ctx') (Lf p)) \<and> key \<noteq> kof db nd p
      \<and> ts_diff_pos r = key_dif key (kof db nd p) \<and> ts_large_small r = key_bit key (ts_diff_pos r)
      \<and> bl.cut (bof nd) (ts_diff_pos r) ctx ctx' \<and> ts_len r = length ctx"
proof -
  have l: "T_SLOTS c \<le> length (replicate (T_SLOTS c) (0::nat))" by simp
  obtain tr ctx p where f: "arrives c nd t key tr ctx p" "length tr = length (replicate (T_SLOTS c) (0::nat))" "p < t_valid_len nd"
    "t_SearchFirstStage c nd key (T_KEY_LEN c) (replicate (T_SLOTS c) 0) = Some (tr, length ctx + 1)"
    "key \<in> set (trie_keys db nd) \<longleftrightarrow> kof db nd p = key" by (rule first_stage_spec [OF assms l])
  note s = search_stages [OF assms f(1)]
  show thesis
  proof (cases "key = kof db nd p")
    case True
    then have "\<exists>r. t_SearchBlindiNode c db nd key (T_KEY_LEN c) PREDECESSOR_SEARCH True (replicate (T_SLOTS c) 0) = Some r \<and> ts_hit r"
      using f(4) s(1,2,3) by (simp add: t_SearchBlindiNode_def)
    then show ?thesis using that f(5) True by fastforce
  next
    case False
    let ?d = "key_dif key (kof db nd p)"
    from s(4) [OF False] obtain m where m: "t_SearchSecondStage nd ?d tr (length ctx + 1) = Some m" "splits_at db nd key ctx p m" by blast
    have "t_SearchBlindiNode c db nd key (T_KEY_LEN c) PREDECESSOR_SEARCH True (replicate (T_SLOTS c) 0)
      = Some \<lparr> ts_position = 0, ts_hit = False, ts_smaller = False, ts_diff_pos = ?d, ts_large_small = key_bit key ?d,
          ts_traverse = tr, ts_len = m \<rparr>"
      using f(4) s(1,2,3) m(1) False by (simp add: t_SearchBlindiNode_def)
    then show ?thesis using that [of _ "take m ctx" "drop m ctx" p] f(1,5) False m(2) by (auto simp: arrives_def splits_at_def)
  qed
qed

lemma insert_key_spec:
  assumes "trie_repr c db nd t" "tcfg_ok c" "t_valid_len nd < T_SLOTS c" "length (db k) = T_KEY_LEN c" "db k \<notin> set (trie_keys db nd)"
  shows "\<exists>nd' t'. t_InsertWithKey c db nd k = Some (INSERT_SUCCESS, nd') \<and> trie_repr c db nd' t'
    \<and> t_valid_len nd' = t_valid_len nd + 1 \<and> t_key_ptr nd' = (t_key_ptr nd)[t_valid_len nd := k]"
proof -
  let ?n = "t_valid_len nd" and ?PA = "PTR_AREA c"
  note r = trie_reprD [OF assms(1)] and g = tcfg_okD [OF assms(2)]
  obtain sr ctx ctx' p where sr: "t_SearchBlindiNode c db nd (db k) (T_KEY_LEN c) PREDECESSOR_SEARCH True (replicate (T_SLOTS c) 0) = Some sr"
    "ts_hit sr = (db k \<in> set (trie_keys db nd))"
    "\<not> ts_hit sr \<longrightarrow> t = plug (ctx @ ctx') (Lf p) \<and> path_in (ts_traverse sr) (vals ?PA (ctx @ ctx') (Lf p)) \<and> db k \<noteq> kof db nd p
      \<and> ts_diff_pos sr = key_dif (db k) (kof db nd p) \<and> ts_large_small sr = key_bit (db k) (ts_diff_pos sr)
      \<and> bl.cut (bof nd) (ts_diff_pos sr) ctx ctx' \<and> ts_len sr = length ctx"
    by (rule search_for_insert [OF assms(1,4)])
  from sr(3) have t: "t = plug (ctx @ ctx') (Lf p)" "path_in (ts_traverse sr) (vals ?PA (ctx @ ctx') (Lf p))" "db k \<noteq> kof db nd p"
      "ts_diff_pos sr = key_dif (db k) (kof db nd p)" "ts_large_small sr = key_bit (db k) (ts_diff_pos sr)"
      "bl.cut (bof nd) (ts_diff_pos sr) ctx ctx'" "ts_len sr = length ctx" using sr(2) assms(5) by blast+
  let ?d = "ts_diff_pos sr" and ?large = "ts_large_small sr"
  let ?u = "plug ctx' (Lf p)" and ?t = "plug ctx (put_leaf (?n - 1) ?n ?large (plug ctx' (Lf p)))"
  let ?kp = "(t_key_ptr nd)[?n := k]" and ?bk = "(t_blindiKeys nd)[?n - 1 := ?d]"
  have p: "p \<in> set (leaves_of t)" unfolding t(1) by (simp add: set_leaves_plug)
  have kl: "key_of_len (T_KEY_LEN c) (db k)" "key_of_len (T_KEY_LEN c) (kof db nd p)"
    using assms(4) bl.blind_valid [OF r(11) p] by (simp_all add: key_of_len_def)
  have d: "?d < t_bitidx_mod c" using key_dif_spec [OF kl t(3)] g(4) t(4) by simp
  from insert_position_spec [OF assms(1,2,3) t(1,2) d, of k ?large] obtain sm lg root where
    i: "t_InsertInPosition c nd k ?d ?large (ts_traverse sr) (length ctx)
      = Some (nd \<lparr> t_key_ptr := ?kp, t_blindiKeys := ?bk, small_ptr := sm, large_ptr := lg, t_root := root, t_valid_len := ?n + 1 \<rparr>)"
    "length sm = length (small_ptr nd)" "length lg = length (large_ptr nd)" "root = root_val ?PA ?t" "shape ?PA sm lg ?t" by blast
  have n: "?n < length (t_key_ptr nd)" "?n - 1 < length (t_blindiKeys nd)" using assms(3) r(1,3,6) by simp_all
  have old: "db (?kp ! q) = kof db nd q" if "q \<in> set (leaves_of t)" for q using that r(12) by simp
  have "bl.blind (T_KEY_LEN c) (\<lambda>p. db (?kp ! p)) (\<lambda>i. ?bk ! i) t"
    using r(11) bl.blind_cong [of t "\<lambda>p. db (?kp ! p)" "kof db nd" "\<lambda>i. ?bk ! i" "bof nd" "T_KEY_LEN c"] old r(9) by simp
  then have b: "bl.blind (T_KEY_LEN c) (\<lambda>p. db (?kp ! p)) (\<lambda>i. ?bk ! i) (plug (ctx @ ctx') (Lf p))" using t(1) by simp
  have st: "j < ?n - 1" if "(j, large, s) \<in> set (ctx @ ctx')" for j large s
  proof -
    have "j \<in># ctx_branches (ctx @ ctx')" by (rule in_ctx_branches [OF that])
    then have "j \<in># branches_of t" unfolding t(1) by (simp only: branches_plug) simp
    then show ?thesis using r(9) by simp
  qed
  have cut: "bl.cut (\<lambda>i. ?bk ! i) (key_dif (db (?kp ! ?n)) (db (?kp ! p))) ctx ctx'"
    using t(6) st old [OF p] n unfolding bl.cut_def t(4) by fastforce
  have "bl.blind (T_KEY_LEN c) (\<lambda>p. db (?kp ! p)) (\<lambda>i. ?bk ! i) (plug ctx (put_leaf (?n - 1) ?n (key_bit (db (?kp ! ?n)) (?bk ! (?n - 1))) ?u))"
    by (rule bl.blind_put_leaf [OF b _ _ cut]) (use kl(1) t(3,4) n old [OF p] in simp_all)
  then have bl: "bl.blind (T_KEY_LEN c) (\<lambda>p. db (?kp ! p)) (\<lambda>i. ?bk ! i) ?t" using n t(5) by simp
  have m: "mset (leaves_of ?t) = mset [0..<Suc ?n]" "branches_of ?t = mset [0..<?n]"
  proof -
    have "mset (leaves_of ?t) = add_mset ?n (mset (leaves_of t))" unfolding t(1) by (simp add: leaves_plug leaves_put_leaf plug_append)
    then show "mset (leaves_of ?t) = mset [0..<Suc ?n]" using r(10) by simp
    have "branches_of ?t = add_mset (?n - 1) (branches_of t)" unfolding t(1) by (simp add: branches_plug branches_put_leaf plug_append)
    also have "\<dots> = mset [0..<Suc (?n - 1)]" using r(9) by simp
    finally show "branches_of ?t = mset [0..<?n]" using r(1) by simp
  qed
  let ?nd = "nd \<lparr> t_key_ptr := ?kp, t_blindiKeys := ?bk, small_ptr := sm, large_ptr := lg, t_root := root, t_valid_len := ?n + 1 \<rparr>"
  have "trie_repr c db ?nd ?t"
    unfolding trie_repr_def using assms(3) r(3-6) i(2-5) m bl by simp
  moreover have "t_InsertWithKey c db nd k = Some (INSERT_SUCCESS, ?nd)"
    using sr(1,2) assms(3,5) r(1) i(1) t(7) by (simp add: t_InsertWithKey_def)
  ultimately show ?thesis by (intro exI [of _ ?nd] exI [of _ ?t]) simp
qed

text \<open>The first key.\<close>

lemma trie_first_insert_spec:
  assumes "tcfg_ok c" "length (db k) = T_KEY_LEN c"
  shows "\<exists>nd'. t_InsertWithKey c db (new_trie c) k = Some (INSERT_SUCCESS, nd') \<and> trie_repr c db nd' (Lf 0)
    \<and> t_valid_len nd' = 1 \<and> t_key_ptr nd' ! 0 = k"
proof -
  have "2 \<le> T_SLOTS c" using tcfg_okD [OF assms(1)] by simp
  then show ?thesis using assms(2)
    by (simp add: t_InsertWithKey_def t_first_insert_def new_trie_def trie_repr_def key_of_len_def)
qed

lemma insert_refused:
  assumes "trie_repr c db nd t" "length (db k) = T_KEY_LEN c"
  shows "t_valid_len nd = T_SLOTS c \<Longrightarrow> t_InsertWithKey c db nd k = Some (INSERT_OVERFLOW, nd)"
    and "t_valid_len nd < T_SLOTS c \<Longrightarrow> db k \<in> set (trie_keys db nd) \<Longrightarrow> t_InsertWithKey c db nd k = Some (INSERT_DUPLICATED_KEY, nd)"
proof -
  obtain sr ctx ctx' p where "t_SearchBlindiNode c db nd (db k) (T_KEY_LEN c) PREDECESSOR_SEARCH True (replicate (T_SLOTS c) 0) = Some sr"
    "ts_hit sr = (db k \<in> set (trie_keys db nd))" by (rule search_for_insert [OF assms])
  then show "t_valid_len nd = T_SLOTS c \<Longrightarrow> t_InsertWithKey c db nd k = Some (INSERT_OVERFLOW, nd)"
    "t_valid_len nd < T_SLOTS c \<Longrightarrow> db k \<in> set (trie_keys db nd) \<Longrightarrow> t_InsertWithKey c db nd k = Some (INSERT_DUPLICATED_KEY, nd)"
    using trie_reprD(1) [OF assms(1)] by (simp_all add: t_InsertWithKey_def)
qed

end
