(* ===== verification/Trie_Remove.thy ===== *)
theory Trie_Remove
  imports Trie_Insert
begin

text \<open>
  The removal from a trie leaf: the key and the branching above it leave the tree, and the last key and the last branching
  are renamed to fill their cells.
\<close>

section \<open>Renaming the cells\<close>

text \<open>Every pointer value is in one cell.\<close>

lemma cells_alt: "cells sm lg t = image_mset (\<lambda>j. sm ! j) (branches_of t) + image_mset (\<lambda>j. lg ! j) (branches_of t)"
  by (induction t) (auto simp: ac_simps)

lemma inj_of_count:
  fixes f :: "'a \<Rightarrow> 'b"
  assumes "\<And>v. count (image_mset f B) v \<le> 1" "j \<in># B" "k \<in># B" "f j = f k"
  shows "j = k"
proof (rule ccontr)
  assume "j \<noteq> k"
  then obtain C where "B = add_mset j (add_mset k C)" using assms(2,3) by (metis insert_DiffM insert_noteq_member)
  then have "count (image_mset f B) (f j) = Suc (Suc (count (image_mset f C) (f j)))" using assms(4) by simp
  then show False using assms(1) [of "f j"] by simp
qed

lemma cells_once:
  assumes "shape PA sm lg t" "once PA t" "j \<in># branches_of t" "k \<in># branches_of t"
  shows "sm ! j = sm ! k \<Longrightarrow> j = k" "lg ! j = lg ! k \<Longrightarrow> j = k" "sm ! j \<noteq> lg ! k"
proof -
  let ?A = "image_mset (\<lambda>j. sm ! j) (branches_of t)" and ?B = "image_mset (\<lambda>j. lg ! j) (branches_of t)"
  have c: "count ?A v + count ?B v \<le> 1" for v
    using assms(2) cells_places [OF assms(1)] unfolding once_def cells_alt
    by (metis (no_types, lifting) add_leD2 count_add_mset count_union le_SucI le_trans nat_le_linear plus_1_eq_Suc)
  have "count ?A v \<le> 1" "count ?B v \<le> 1" for v using c [of v] by simp_all
  then show "sm ! j = sm ! k \<Longrightarrow> j = k" "lg ! j = lg ! k \<Longrightarrow> j = k" using inj_of_count assms(3,4) by metis+
  show "sm ! j \<noteq> lg ! k"
  proof
    assume e: "sm ! j = lg ! k"
    have "sm ! j \<in># ?A" "lg ! k \<in># ?B" using assms(3,4) by simp_all
    then have "sm ! j \<in># ?A" "sm ! j \<in># ?B" by (simp_all only: e)
    then have "1 \<le> count ?A (sm ! j)" "1 \<le> count ?B (sm ! j)" by (simp_all only: count_greater_eq_one_iff)
    then show False using c [of "sm ! j"] by linarith
  qed
qed

definition single :: "nat list \<Rightarrow> nat list \<Rightarrow> nat \<Rightarrow> nat \<Rightarrow> bool" where
  "single sm lg m v \<longleftrightarrow> (\<forall>j < m. \<forall>k < m. (sm ! j = v \<and> sm ! k = v \<longrightarrow> j = k) \<and> (lg ! j = v \<and> lg ! k = v \<longrightarrow> j = k) \<and> \<not> (sm ! j = v \<and> lg ! k = v))"

lemma singleD:
  assumes "single sm lg m v" "j < m" "k < m"
  shows "(sm ! j = v \<and> sm ! k = v \<longrightarrow> j = k) \<and> (lg ! j = v \<and> lg ! k = v \<longrightarrow> j = k) \<and> \<not> (sm ! j = v \<and> lg ! k = v)"
  by (rule assms(1) [unfolded single_def, THEN spec, THEN mp, OF assms(2), THEN spec, THEN mp, OF assms(3)])

lemma single_Suc: "single sm lg (Suc m) v \<Longrightarrow> single sm lg m v"
  unfolding single_def by (intro allI impI) (auto dest: less_SucI)

lemma redirect_spec:
  assumes "single sm lg m old" "m \<le> length sm" "m \<le> length lg"
  shows "\<exists>sm' lg'. redirect old new m (sm, lg) = Some (sm', lg') \<and> length sm' = length sm \<and> length lg' = length lg
    \<and> (\<forall>j. if j < m then sm' ! j = (if sm ! j = old then new else sm ! j) \<and> lg' ! j = (if lg ! j = old then new else lg ! j)
        else sm' ! j = sm ! j \<and> lg' ! j = lg ! j)"
  using assms
proof (induction m)
  case (Suc m)
  have mm: "m < Suc m" by simp
  have g: "get lg m = Some (lg ! m)" "get sm m = Some (sm ! m)" "m < length sm" "m < length lg" using Suc.prems(2,3) by simp_all
  consider "lg ! m = old" | "lg ! m \<noteq> old" "sm ! m = old" | "lg ! m \<noteq> old" "sm ! m \<noteq> old" by blast
  then show ?case
  proof cases
    case 1
    have "sm ! j \<noteq> old \<and> (j \<noteq> m \<longrightarrow> lg ! j \<noteq> old)" if "j < Suc m" for j
      using singleD [OF Suc.prems(1) that mm] 1 by blast
    with 1 g show ?thesis by (intro exI [of _ sm] exI [of _ "lg[m := new]"]) (auto simp: nth_list_update)
  next
    case 2
    have "lg ! j \<noteq> old \<and> (j \<noteq> m \<longrightarrow> sm ! j \<noteq> old)" if "j < Suc m" for j
      using singleD [OF Suc.prems(1) mm that] 2 by blast
    with 2 g show ?thesis by (intro exI [of _ "sm[m := new]"] exI [of _ lg]) (auto simp: nth_list_update)
  next
    case 3
    obtain sm' lg' where r: "redirect old new m (sm, lg) = Some (sm', lg')" "length sm' = length sm" "length lg' = length lg"
      "\<forall>j. if j < m then sm' ! j = (if sm ! j = old then new else sm ! j) \<and> lg' ! j = (if lg ! j = old then new else lg ! j)
        else sm' ! j = sm ! j \<and> lg' ! j = lg ! j"
      using Suc.IH [OF single_Suc [OF Suc.prems(1)]] Suc.prems(2,3) by auto
    have "if j < Suc m then sm' ! j = (if sm ! j = old then new else sm ! j) \<and> lg' ! j = (if lg ! j = old then new else lg ! j)
        else sm' ! j = sm ! j \<and> lg' ! j = lg ! j" for j
      using r(4) [rule_format, of j] 3 by (cases "j = m") (auto split: if_splits)
    moreover have "redirect old new (Suc m) (sm, lg) = Some (sm', lg')" using 3 g r(1) by simp
    ultimately show ?thesis using r(2,3) by blast
  qed
qed simp

lemma shape_rename:
  assumes "shape PA sm lg t"
    "\<forall>j \<in># branches_of t. g j < PA \<and> g j < length sm' \<and> g j < length lg' \<and> sm' ! g j = h (sm ! j) \<and> lg' ! g j = h (lg ! j) \<and> h j = g j"
    "\<forall>q \<in> set (leaves_of t). h (PA + q) = PA + f q"
  shows "shape PA sm' lg' (rename f g t) \<and> root_val PA (rename f g t) = h (root_val PA t)"
  using assms by (induction t) auto

text \<open>The greatest number takes the place of the one that has gone.\<close>

lemma relabel:
  assumes "M + {#p#} = mset [0..<Suc n]"
  shows "image_mset (\<lambda>q. if q = n then p else q) M = mset [0..<n]"
proof (cases "p = n")
  case True
  then have "M = mset [0..<n]" using assms by simp
  moreover have "image_mset (\<lambda>q. if q = n then p else q) (mset [0..<n]) = image_mset (\<lambda>q. q) (mset [0..<n])"
    by (rule image_mset_cong) (use True in simp)
  ultimately show ?thesis by simp
next
  case False
  have "n \<in># M + {#p#}" unfolding assms by simp
  then have "n \<in># M" using False by simp
  then obtain M' where M: "M = add_mset n M'" by (metis multi_member_split)
  have e: "add_mset p M' = mset [0..<n]" using assms unfolding M by simp
  have "n \<notin># add_mset p M'" unfolding e by simp
  then have "n \<notin># M'" by simp
  then have "image_mset (\<lambda>q. if q = n then p else q) M' = M'" by (induction M') auto
  then show ?thesis using e unfolding M by simp
qed

section \<open>Filling the gap\<close>

text \<open>The renaming of the keys, of the branchings and of the pointer values when the key \<open>p\<close> and the branching \<open>i\<close> have gone.\<close>

definition key_move :: "nat \<Rightarrow> nat \<Rightarrow> nat \<Rightarrow> nat" where
  "key_move n p q = (if q = n then p else q)"

definition val_move :: "nat \<Rightarrow> nat \<Rightarrow> nat \<Rightarrow> nat \<Rightarrow> nat \<Rightarrow> nat" where
  "val_move PA n p i v = (if v = PA + n then PA + p else key_move (n - 1) i v)"

lemma single_moved:
  assumes "shape PA sm lg t" "once PA t" "\<And>j. j < m \<Longrightarrow> \<exists>k \<in># branches_of t. sm' ! j = sm ! k \<and> lg' ! j = lg ! k \<and> g k = j"
  shows "single sm' lg' m v"
  unfolding single_def
proof (intro allI impI)
  fix j k assume "j < m" "k < m"
  then obtain a b where ab: "a \<in># branches_of t" "sm' ! j = sm ! a" "lg' ! j = lg ! a" "g a = j"
    "b \<in># branches_of t" "sm' ! k = sm ! b" "lg' ! k = lg ! b" "g b = k" using assms(3) by meson
  note c = cells_once [OF assms(1,2) ab(1,5)]
  show "(sm' ! j = v \<and> sm' ! k = v \<longrightarrow> j = k) \<and> (lg' ! j = v \<and> lg' ! k = v \<longrightarrow> j = k) \<and> \<not> (sm' ! j = v \<and> lg' ! k = v)"
    using c ab by metis
qed

lemma redirect_if:
  assumes "b \<Longrightarrow> single sm lg m old" "m \<le> length sm" "m \<le> length lg" "\<not> b \<Longrightarrow> \<forall>j < m. (sm ! j = old \<longrightarrow> old = new) \<and> (lg ! j = old \<longrightarrow> old = new)"
  shows "\<exists>sm' lg'. (if b then redirect old new m (sm, lg) else Some (sm, lg)) = Some (sm', lg') \<and> length sm' = length sm \<and> length lg' = length lg
    \<and> (\<forall>j < m. sm' ! j = (if sm ! j = old then new else sm ! j) \<and> lg' ! j = (if lg ! j = old then new else lg ! j))"
proof (cases b)
  case True
  from redirect_spec [OF assms(1) [OF True] assms(2,3), of new] show ?thesis using True by auto
next
  case False
  then show ?thesis using assms(4) by auto
qed

lemma gap_facts:
  assumes br: "B + {#i#} = mset [0..<n]" and n: "0 < n"
  shows "i < n" "\<And>j. j \<in># B \<Longrightarrow> j < n \<and> j \<noteq> i" "\<And>j. j < n - 1 \<Longrightarrow> \<exists>k \<in># B. key_move (n - 1) i k = j"
    "\<And>j. j \<in># B \<Longrightarrow> key_move (n - 1) i j < n - 1"
proof -
  have "i \<in># mset [0..<n]" unfolding br [symmetric] by simp
  then show "i < n" by simp
  have gm: "image_mset (key_move (n - 1) i) B = mset [0..<n - 1]"
    using relabel [of B i "n - 1"] br n unfolding key_move_def by simp
  fix j
  show "j < n \<and> j \<noteq> i" if j: "j \<in># B"
  proof -
    have "j \<in># mset [0..<n]" unfolding br [symmetric] using j by simp
    moreover have "count (B + {#i#}) i \<le> 1" by (rule mset_upt_once [OF br])
    then have "i \<notin># B" by (simp add: not_in_iff)
    ultimately show ?thesis using j by auto
  qed
  show "\<exists>k \<in># B. key_move (n - 1) i k = j" if "j < n - 1"
  proof -
    have "j \<in># image_mset (key_move (n - 1) i) B" unfolding gm using that by simp
    then show ?thesis by auto
  qed
  show "key_move (n - 1) i j < n - 1" if "j \<in># B"
  proof -
    have "key_move (n - 1) i j \<in># mset [0..<n - 1]" unfolding gm [symmetric] using that by simp
    then show ?thesis by simp
  qed
qed

text \<open>The run of the code, for the pointers that result from its three steps.\<close>

lemma fill_gap_run:
  fixes c :: tcfg and nd :: trie and n p i :: nat
  defines "PA \<equiv> PTR_AREA c" and "b \<equiv> i < n - 1"
  assumes n: "p \<le> n" "i < n" "n \<le> length (t_blindiKeys nd)" "n \<le> length (small_ptr nd)" "n \<le> length (large_ptr nd)" "n < length (t_key_ptr nd)"
    and r2: "(if p < n then redirect (n + PA) (PA + p) (n - 1) (sm1, lg1) else Some (sm1, lg1)) = Some (sm2, lg2)"
    and r3: "(if b then redirect (n - 1) i (n - 1) (sm2, lg2) else Some (sm2, lg2)) = Some (sm3, lg3)"
    and "sm1 = (if b then (small_ptr nd)[i := small_ptr nd ! (n - 1)] else small_ptr nd)"
      "lg1 = (if b then (large_ptr nd)[i := large_ptr nd ! (n - 1)] else large_ptr nd)"
  shows "t_fill_gap c (nd \<lparr> t_valid_len := n \<rparr>) n (PA + p) i = Some (nd \<lparr> t_valid_len := n, t_key_ptr := (t_key_ptr nd)[p := t_key_ptr nd ! n],
    t_blindiKeys := (if b then (t_blindiKeys nd)[i := t_blindiKeys nd ! (n - 1)] else t_blindiKeys nd),
    small_ptr := sm3, large_ptr := lg3, t_root := key_move (n - 1) i (t_root nd) \<rparr>)"
proof -
  let ?bk = "t_blindiKeys nd" and ?kp = "t_key_ptr nd" and ?sm = "small_ptr nd" and ?lg = "large_ptr nd"
  have g: "get ?kp n = Some (?kp ! n)" "put ?kp p (?kp ! n) = Some (?kp[p := ?kp ! n])"
    "get ?bk (n - 1) = Some (?bk ! (n - 1))" "get ?sm (n - 1) = Some (?sm ! (n - 1))" "get ?lg (n - 1) = Some (?lg ! (n - 1))"
    "put ?bk i x = Some (?bk[i := x])" "put ?sm i x = Some (?sm[i := x])" "put ?lg i x = Some (?lg[i := x])" for x
    using n by simp_all
  have c: "PA + p < n + PA \<longleftrightarrow> p < n" "PA + p - PA = p" by simp_all
  have kp: "\<not> p < n \<Longrightarrow> ?kp[p := ?kp ! n] = ?kp" using n(1) by simp
  have root: "\<not> b \<Longrightarrow> key_move (n - 1) i (t_root nd) = t_root nd" using n(2) by (auto simp: key_move_def b_def)
  note defs = t_fill_gap_def PA_def [symmetric] b_def [symmetric]
  show ?thesis
  proof (cases "p < n")
    case True
    then show ?thesis using r2 r3 assms(11,12) root unfolding defs by (cases b) (simp_all add: g c key_move_def del: One_nat_def)
  next
    case False
    then show ?thesis using r2 r3 assms(11,12) root kp [OF False] unfolding defs by (cases b) (simp_all add: g c key_move_def del: One_nat_def)
  qed
qed

lemma fill_gap_spec:
  fixes c :: tcfg and nd :: trie and n p i :: nat
  defines "nd1 \<equiv> nd \<lparr> t_valid_len := n \<rparr>" and "PA \<equiv> PTR_AREA c"
  assumes sh: "shape PA (small_ptr nd) (large_ptr nd) t" and o: "once PA t" and root: "t_root nd = root_val PA t"
    and br: "branches_of t + {#i#} = mset [0..<n]" and lv: "mset (leaves_of t) + {#p#} = mset [0..<Suc n]"
    and n: "0 < n" "n < PA" "n \<le> length (t_blindiKeys nd)" "n \<le> length (small_ptr nd)" "n \<le> length (large_ptr nd)" "n < length (t_key_ptr nd)"
  shows "\<exists>nd'. t_fill_gap c nd1 n (PA + p) i = Some nd' \<and> t_valid_len nd' = n
    \<and> length (t_blindiKeys nd') = length (t_blindiKeys nd) \<and> length (small_ptr nd') = length (small_ptr nd)
    \<and> length (large_ptr nd') = length (large_ptr nd) \<and> t_key_ptr nd' = (t_key_ptr nd)[p := t_key_ptr nd ! n]
    \<and> (\<forall>j \<in># branches_of t. t_blindiKeys nd' ! key_move (n - 1) i j = t_blindiKeys nd ! j)
    \<and> shape PA (small_ptr nd') (large_ptr nd') (rename (key_move n p) (key_move (n - 1) i) t)
    \<and> t_root nd' = key_move (n - 1) i (t_root nd)"
proof -
  let ?g = "key_move (n - 1) i" and ?sm = "small_ptr nd" and ?lg = "large_ptr nd" and ?bk = "t_blindiKeys nd"
  let ?b = "i < n - 1"
  have "p \<in># mset [0..<Suc n]" unfolding lv [symmetric] by simp
  then have p: "p \<le> n" by auto
  note i = gap_facts(1) [OF br n(1)] and bi = gap_facts(2) [OF br n(1)] and onto = gap_facts(3) [OF br n(1)]
    and into = gap_facts(4) [OF br n(1)]
  define bk1 sm1 lg1 where arr: "bk1 = (if ?b then ?bk[i := ?bk ! (n - 1)] else ?bk)"
    "sm1 = (if ?b then ?sm[i := ?sm ! (n - 1)] else ?sm)" "lg1 = (if ?b then ?lg[i := ?lg ! (n - 1)] else ?lg)"
  have moved: "bk1 ! ?g j = ?bk ! j \<and> sm1 ! ?g j = ?sm ! j \<and> lg1 ! ?g j = ?lg ! j" if j: "j \<in># branches_of t" for j
    using bi [OF j] into [OF j] i n unfolding arr key_move_def by (auto split: if_splits)
  have len1: "length bk1 = length ?bk" "length sm1 = length ?sm" "length lg1 = length ?lg" by (simp_all add: arr)
  have s1: "single sm1 lg1 (n - 1) v" for v
    by (rule single_moved [OF sh o, of "n - 1" sm1 lg1 ?g]) (use onto moved in metis)
  have le: "n - 1 \<le> length sm1" "n - 1 \<le> length lg1" using n len1 by simp_all
  obtain sm2 lg2 where r2: "(if p < n then redirect (n + PA) (PA + p) (n - 1) (sm1, lg1) else Some (sm1, lg1)) = Some (sm2, lg2)"
    "length sm2 = length sm1" "length lg2 = length lg1"
    "\<forall>j < n - 1. sm2 ! j = (if sm1 ! j = n + PA then PA + p else sm1 ! j) \<and> lg2 ! j = (if lg1 ! j = n + PA then PA + p else lg1 ! j)"
    using redirect_if [of "p < n" sm1 lg1 "n - 1" "n + PA" "PA + p"] s1 le p by fastforce
  have eq: "sm2 ! j = n - 1 \<longleftrightarrow> sm1 ! j = n - 1" "lg2 ! j = n - 1 \<longleftrightarrow> lg1 ! j = n - 1" if "j < n - 1" for j
    using r2(4) that n(2) by auto
  have s2: "single sm2 lg2 (n - 1) (n - 1)" using s1 [of "n - 1"] eq unfolding single_def by simp
  obtain sm3 lg3 where r3: "(if ?b then redirect (n - 1) i (n - 1) (sm2, lg2) else Some (sm2, lg2)) = Some (sm3, lg3)"
    "length sm3 = length sm2" "length lg3 = length lg2"
    "\<forall>j < n - 1. sm3 ! j = (if sm2 ! j = n - 1 then i else sm2 ! j) \<and> lg3 ! j = (if lg2 ! j = n - 1 then i else lg2 ! j)"
    using redirect_if [of ?b sm2 lg2 "n - 1" "n - 1" i] s2 le r2(2,3) i by fastforce
  define nd' where "nd' = nd1 \<lparr> t_key_ptr := (t_key_ptr nd)[p := t_key_ptr nd ! n], t_blindiKeys := bk1, small_ptr := sm3, large_ptr := lg3,
    t_root := ?g (t_root nd) \<rparr>"
  have run: "t_fill_gap c nd1 n (PA + p) i = Some nd'"
    unfolding nd'_def nd1_def arr(1) PA_def
    by (rule fill_gap_run [OF p i n(3-6) r2(1) [unfolded PA_def] r3(1) arr(2,3)])
  have twice: "(if (if v = n + PA then PA + p else v) = n - 1 then i else if v = n + PA then PA + p else v) = val_move PA n p i v" for v
  proof -
    have "PA + p \<noteq> n - 1" using n(2) by simp
    then show ?thesis by (simp add: val_move_def key_move_def add.commute)
  qed
  have h: "sm3 ! ?g j = val_move PA n p i (?sm ! j) \<and> lg3 ! ?g j = val_move PA n p i (?lg ! j)" if j: "j \<in># branches_of t" for j
  proof -
    note f = r2(4) [rule_format, OF into [OF j]] r3(4) [rule_format, OF into [OF j]] moved [OF j]
    show ?thesis by (simp only: f twice simp_thms)
  qed
  have "shape PA sm3 lg3 (rename (key_move n p) ?g t)"
  proof (rule conjunct1 [OF shape_rename [OF sh]])
    show "\<forall>j \<in># branches_of t. ?g j < PA \<and> ?g j < length sm3 \<and> ?g j < length lg3 \<and> sm3 ! ?g j = val_move PA n p i (?sm ! j)
        \<and> lg3 ! ?g j = val_move PA n p i (?lg ! j) \<and> val_move PA n p i j = ?g j"
    proof
      fix j assume j: "j \<in># branches_of t"
      have "j \<noteq> PA + n" using bi [OF j] by simp
      then show "?g j < PA \<and> ?g j < length sm3 \<and> ?g j < length lg3 \<and> sm3 ! ?g j = val_move PA n p i (?sm ! j)
        \<and> lg3 ! ?g j = val_move PA n p i (?lg ! j) \<and> val_move PA n p i j = ?g j"
        using h [OF j] into [OF j] n le r2(2,3) r3(2,3) by (simp add: val_move_def)
    qed
    show "\<forall>q \<in> set (leaves_of t). val_move PA n p i (PA + q) = PA + key_move n p q"
      using n(2) by (auto simp: val_move_def key_move_def)
  qed
  then show ?thesis using run moved len1 r2(2,3) r3(2,3) by (intro exI [of _ nd']) (simp add: nd'_def nd1_def)
qed

section \<open>The removal of a key\<close>

text \<open>The pointers of a node are those at the leaves of its tree.\<close>

lemma mset_trie_ptrs:
  assumes "trie_repr c db nd t"
  shows "mset (trie_ptrs nd) = image_mset (\<lambda>p. t_key_ptr nd ! p) (mset (leaves_of t))"
proof -
  note r = trie_reprD [OF assms]
  have "trie_ptrs nd = map (\<lambda>p. t_key_ptr nd ! p) [0..<t_valid_len nd]"
    using r(2,6) by (intro nth_equalityI) (simp_all add: trie_ptrs_def)
  then show ?thesis unfolding r(10) by simp
qed

lemma mset_trie_keys:
  assumes "trie_repr c db nd t"
  shows "mset (trie_keys db nd) = image_mset (kof db nd) (mset (leaves_of t))"
  unfolding trie_keys_ptrs mset_map mset_trie_ptrs [OF assms] by (simp add: image_mset.compositionality comp_def)

text \<open>The keys are distinct.\<close>

lemma distinct_trie_keys:
  assumes "trie_repr c db nd t"
  shows "distinct (trie_keys db nd)"
proof -
  note r = trie_reprD [OF assms]
  have s: "sorted_wrt (\<lambda>a b. key_less (kof db nd a) (kof db nd b)) (leaves_of t)" by (rule bl.sorted_blind [OF r(11)])
  have "sorted_wrt (\<lambda>a b. kof db nd a \<noteq> kof db nd b) (leaves_of t)"
    by (rule sorted_wrt_mono_rel [OF _ s]) (use bl.lt_asym bl.blind_valid [OF r(11)] in metis)
  then have "distinct (map (kof db nd) (leaves_of t))" by (simp add: distinct_conv_nth sorted_wrt_iff_nth_less nth_eq_iff_index_eq) (metis linorder_neqE_nat)
  then show ?thesis using mset_trie_keys [OF assms] by (metis mset_eq_imp_distinct_iff mset_map)
qed

lemma search_for_remove:
  assumes "trie_repr c db nd t" "length key = T_KEY_LEN c"
  obtains r ctx p where "t_SearchBlindiNode c db nd key (T_KEY_LEN c) POINT_SEARCH False (replicate (T_SLOTS c) 0) = Some r"
    "ts_hit r = (key \<in> set (trie_keys db nd))" "arrives c nd t key (ts_traverse r) ctx p" "ts_len r = length ctx + 1"
    "ts_hit r = (kof db nd p = key)"
proof -
  have l: "T_SLOTS c \<le> length (replicate (T_SLOTS c) (0::nat))" by simp
  obtain tr ctx p where f: "arrives c nd t key tr ctx p" "length tr = length (replicate (T_SLOTS c) (0::nat))" "p < t_valid_len nd"
    "t_SearchFirstStage c nd key (T_KEY_LEN c) (replicate (T_SLOTS c) 0) = Some (tr, length ctx + 1)"
    "key \<in> set (trie_keys db nd) \<longleftrightarrow> kof db nd p = key" by (rule first_stage_spec [OF assms l])
  note s = search_stages [OF assms f(1)]
  show thesis
  proof (cases "key = kof db nd p")
    case True
    then have "\<exists>r. t_SearchBlindiNode c db nd key (T_KEY_LEN c) POINT_SEARCH False (replicate (T_SLOTS c) 0) = Some r
      \<and> ts_hit r \<and> ts_traverse r = tr \<and> ts_len r = length ctx + 1"
      using f(4) s(1,2,3) by (simp add: t_SearchBlindiNode_def)
    then show ?thesis using that f(1,5) True by metis
  next
    case False
    then have "\<exists>r. t_SearchBlindiNode c db nd key (T_KEY_LEN c) POINT_SEARCH False (replicate (T_SLOTS c) 0) = Some r
      \<and> \<not> ts_hit r \<and> ts_traverse r = tr \<and> ts_len r = length ctx + 1"
      using f(4) s(1,2,3) by (simp add: t_SearchBlindiNode_def)
    then show ?thesis using that f(1,5) False by metis
  qed
qed

text \<open>The branching above the key gives way to the sibling \<open>s\<close>.\<close>

lemma unlink_spec:
  assumes "trie_repr c db nd t" "t = plug (c0 @ [(i, b, s)]) (Lf p)" "path_in tr (vals (PTR_AREA c) (c0 @ [(i, b, s)]) (Lf p))"
  shows "\<exists>sm lg. t_unlink nd tr (length c0 + 2) i (root_val (PTR_AREA c) s)
      = Some (nd \<lparr> small_ptr := sm, large_ptr := lg, t_root := root_val (PTR_AREA c) (plug c0 s) \<rparr>)
    \<and> length sm = length (small_ptr nd) \<and> length lg = length (large_ptr nd) \<and> shape (PTR_AREA c) sm lg (plug c0 s)"
proof (cases c0 rule: rev_cases)
  case Nil
  note r = trie_reprD [OF assms(1)]
  have "t_root nd = i" using r(7) unfolding assms(2) Nil by (cases b) simp_all
  moreover have "shape (PTR_AREA c) (small_ptr nd) (large_ptr nd) s"
    using came_from(9) [OF r(8,14), of "[]" i b s "[]" "Lf p"] assms(2) Nil by simp
  ultimately show ?thesis using Nil
    by (intro exI [of _ "small_ptr nd"] exI [of _ "large_ptr nd"]) (simp add: t_unlink_def)
next
  case (snoc c1 x)
  let ?PA = "PTR_AREA c" and ?sm = "small_ptr nd" and ?lg = "large_ptr nd"
  note r = trie_reprD [OF assms(1)]
  obtain j b' s' where x: "x = (j, b', s')" by (cases x)
  let ?u = "plug [(i, b, s)] (Lf p)"
  have t: "t = plug (c1 @ (j, b', s') # []) ?u" unfolding assms(2) snoc x by (simp add: plug_append)
  have t': "t = plug (c1 @ (j, b', s') # [(i, b, s)]) (Lf p)" unfolding assms(2) snoc x by simp
  have ru: "root_val ?PA ?u = i" by (cases b) simp_all
  note cf = came_from [OF r(8,14) t, unfolded plug.simps(1) ru]
  have s: "shape ?PA ?sm ?lg s"
    by (rule came_from(9) [OF r(8,14), of "c1 @ [(j, b', s')]" i b s "[]" "Lf p"]) (simp add: t')
  have par: "get tr (length c0 - 1) = Some j"
    using path_step(1) [of tr ?PA c1 j b' s' "[(i, b, s)]" "Lf p"] assms(3) snoc x by simp
  have iu: "j \<notin># branches_of s"
    using once_branch [OF r(14), of j "ctx_branches c1 + branches_of s' + branches_of ?u"] unfolding t by (auto simp: branches_plug split: if_splits)
  let ?sm1 = "if b' then ?sm else ?sm[j := root_val ?PA s]" and ?lg1 = "if b' then ?lg[j := root_val ?PA s] else ?lg"
  have len: "length ?sm1 = length ?sm" "length ?lg1 = length ?lg" by simp_all
  have s1: "shape ?PA ?sm1 ?lg1 s" by (rule shape_cong [OF s len]) (use iu in \<open>auto intro!: nth_list_update_neq\<close>)
  have sh: "shape ?PA ?sm1 ?lg1 (plug c0 s)"
    using shape_set_parent [of ?PA ?sm ?lg c1 j b' s' ?u s] r(8,14) s1 unfolding t snoc x by simp
  have "t_root nd \<noteq> i"
  proof
    assume "t_root nd = i"
    then have "(if b' then ?lg else ?sm) ! j = root_val ?PA t" using cf(7) r(7) by simp
    moreover have "j \<in># branches_of t" unfolding t by (simp add: branches_plug)
    ultimately show False using root_no_cell [OF r(8,14)] by (cases b') auto
  qed
  moreover have "t_root nd = root_val ?PA (plug c0 s)" using r(7) unfolding t snoc x by (cases c1) (auto simp: root_val_plug)
  ultimately show ?thesis using cf(2-5) par sh
    by (intro exI [of _ ?sm1] exI [of _ ?lg1]) (cases b', simp_all add: t_unlink_def snoc)
qed

text \<open>The tree after the removal.\<close>

definition gap_tree :: "nat \<Rightarrow> nat \<Rightarrow> nat \<Rightarrow> ptree \<Rightarrow> ptree" where
  "gap_tree n p i u = rename (key_move n p) (key_move (n - 1) i) u"

lemma relabel_move: "M + {#p#} = mset [0..<Suc n] \<Longrightarrow> image_mset (key_move n p) M = mset [0..<n]"
  using relabel unfolding key_move_def .

lemma gap_tree_spec:
  assumes br: "branches_of u + {#i#} = mset [0..<n]" and lv: "mset (leaves_of u) + {#p#} = mset [0..<Suc n]" and n: "0 < n"
  shows "branches_of (gap_tree n p i u) = mset [0..<n - 1]" "mset (leaves_of (gap_tree n p i u)) = mset [0..<n]"
    "root_val PA (gap_tree n p i u) = (if n = 1 then PA else key_move (n - 1) i (root_val PA u))"
    "\<And>q. n < length ks \<Longrightarrow> q \<in> set (leaves_of u) \<Longrightarrow> ks[p := ks ! n] ! key_move n p q = ks ! q"
proof -
  have bn: "branches_of u + {#i#} = mset [0..<Suc (n - 1)]" using br n by simp
  show "branches_of (gap_tree n p i u) = mset [0..<n - 1]" and m: "mset (leaves_of (gap_tree n p i u)) = mset [0..<n]"
    unfolding gap_tree_def branches_rename leaves_rename mset_map by (rule relabel_move [OF bn], rule relabel_move [OF lv])
  have size: "size (branches_of u + {#i#}) = n" unfolding br by simp
  show "root_val PA (gap_tree n p i u) = (if n = 1 then PA else key_move (n - 1) i (root_val PA u))"
  proof (cases u)
    case (Lf q)
    then have "n = 1" using size by simp
    then show ?thesis using m Lf by (simp add: gap_tree_def)
  qed (use size in \<open>auto simp: gap_tree_def\<close>)
  show "ks[p := ks ! n] ! key_move n p q = ks ! q" if q: "n < length ks" "q \<in> set (leaves_of u)" for q
  proof -
    have "q \<noteq> p" using q(2) count_greater_zero_iff [of "mset (leaves_of u)" p] mset_upt_once [OF lv, of p] by auto
    moreover have "p \<in># mset [0..<Suc n]" unfolding lv [symmetric] by simp
    then have "p < length ks" using q(1) by auto
    ultimately show ?thesis by (simp add: key_move_def)
  qed
qed

lemma remove_position_spec:
  fixes nd :: trie
  defines "n \<equiv> t_valid_len nd - 1"
  assumes "trie_repr c db nd t" "tcfg_ok c" "t = plug (c0 @ [(i, b, s)]) (Lf p)" "path_in tr (vals (PTR_AREA c) (c0 @ [(i, b, s)]) (Lf p))"
  shows "\<exists>nd'. t_RemoveInPosition c nd tr (length c0 + 2) = Some (REMOVE_SUCCESS, nd') \<and> trie_repr c db nd' (gap_tree n p i (plug c0 s))
    \<and> t_valid_len nd' = n \<and> t_key_ptr nd' = (t_key_ptr nd)[p := t_key_ptr nd ! n]"
proof -
  let ?PA = "PTR_AREA c" and ?u = "plug c0 s" and ?t = "gap_tree n p i (plug c0 s)"
  note r = trie_reprD [OF assms(2)] and g = tcfg_okD [OF assms(3)]
  have t: "t = plug (c0 @ (i, b, s) # []) (Lf p)" by (simp add: assms(4))
  have br: "branches_of ?u + {#i#} = mset [0..<n]" using r(9) unfolding t n_def by (simp add: branches_plug)
  have lv1: "mset (leaves_of ?u) + {#p#} = mset [0..<t_valid_len nd]" using r(10) unfolding t by (simp add: leaves_plug)
  have n: "0 < n" using br by (cases n) simp_all
  have sn: "t_valid_len nd = Suc n" using n unfolding n_def by simp
  note lv = lv1 [unfolded sn]
  have PA: "n < ?PA" using g(1) r(2) sn by simp
  from unlink_spec [OF assms(2,4,5)] obtain sm lg where u:
    "t_unlink nd tr (length c0 + 2) i (root_val ?PA s) = Some (nd \<lparr> small_ptr := sm, large_ptr := lg, t_root := root_val ?PA ?u \<rparr>)"
    "length sm = length (small_ptr nd)" "length lg = length (large_ptr nd)" "shape ?PA sm lg ?u" by blast
  let ?nd1 = "nd \<lparr> small_ptr := sm, large_ptr := lg, t_root := root_val ?PA ?u \<rparr>"
  have part: "count A x \<le> 1" if "A + B = mset [0..<m]" for A B :: "nat multiset" and x m
    using mset_upt_once [OF that, of x] by simp
  have o: "once ?PA ?u" by (rule onceI [OF u(4) part [OF br] part [OF lv]])
  have lens: "n \<le> length (t_blindiKeys nd)" "n \<le> length sm" "n \<le> length lg" "n < length (t_key_ptr nd)"
    using r(2-6) u(2,3) sn by simp_all
  from fill_gap_spec [of c ?nd1 ?u i n p] u(4) o br lv n PA lens obtain nd' where f:
    "t_fill_gap c (?nd1 \<lparr> t_valid_len := n \<rparr>) n (?PA + p) i = Some nd'" "t_valid_len nd' = n"
    "length (t_blindiKeys nd') = length (t_blindiKeys nd)" "length (small_ptr nd') = length (small_ptr nd)"
    "length (large_ptr nd') = length (large_ptr nd)" "t_key_ptr nd' = (t_key_ptr nd)[p := t_key_ptr nd ! n]"
    "\<forall>j \<in># branches_of ?u. t_blindiKeys nd' ! key_move (n - 1) i j = t_blindiKeys nd ! j"
    "shape ?PA (small_ptr nd') (large_ptr nd') ?t" "t_root nd' = key_move (n - 1) i (root_val ?PA ?u)"
    unfolding gap_tree_def u(2,3) [symmetric] by auto
  let ?nd = "if n = 1 then nd' \<lparr> t_root := ?PA \<rparr> else nd'"
  have "t_RemoveInPosition c nd tr (length c0 + 2) = Some (REMOVE_SUCCESS, ?nd)"
  proof -
    note cf = came_from [OF r(8,14) t, unfolded plug.simps(1) root_val.simps(1)]
    have path: "get tr (length c0) = Some i" "get tr (Suc (length c0)) = Some (?PA + p)"
      using path_step [of tr ?PA c0 i b s "[]" "Lf p"] assms(5) by simp_all
    have sib: "(if small_ptr nd ! i = ?PA + p then large_ptr nd ! i else small_ptr nd ! i) = root_val ?PA s"
      using cf(4-7) by (cases b) auto
    show ?thesis using path cf(2,3) sib u(1) f(1) n sn by (simp add: t_RemoveInPosition_def Let_def)
  qed
  moreover have "trie_repr c db ?nd ?t"
  proof -
    note gt = gap_tree_spec [OF br lv n]
    have "bl.blind (T_KEY_LEN c) (kof db nd) (bof nd) ?u" using bl.blind_drop r(11) unfolding assms(4) by metis
    then have "bl.blind (T_KEY_LEN c) (kof db nd') (bof nd') ?t"
      unfolding gap_tree_def using bl.blind_rename [of ?u "kof db nd'" "key_move n p" "kof db nd" "bof nd'" "key_move (n - 1) i" "bof nd"] f(6,7) gt(4) [OF lens(4)]
      by simp
    then show ?thesis using f gt(1,2) gt(3) [of ?PA] r(2-6) sn by (cases "n = 1") (simp_all add: trie_repr_def)
  qed
  ultimately show ?thesis using f(2,6) by (intro exI [of _ ?nd]) simp
qed

lemma remove_key_spec:
  assumes "trie_repr c db nd t" "tcfg_ok c" "length key = T_KEY_LEN c" "key \<in> set (trie_keys db nd)" "2 \<le> t_valid_len nd"
  shows "\<exists>nd' t' k. t_RemoveWithKey c db nd key
      = Some (if t_valid_len nd' < T_SLOTS c div 2 then REMOVE_UNDERFLOW else REMOVE_SUCCESS, nd')
    \<and> trie_repr c db nd' t' \<and> t_valid_len nd' = t_valid_len nd - 1 \<and> db k = key \<and> mset (trie_ptrs nd') + {#k#} = mset (trie_ptrs nd)"
proof -
  note r = trie_reprD [OF assms(1)]
  obtain sr ctx p where sr: "t_SearchBlindiNode c db nd key (T_KEY_LEN c) POINT_SEARCH False (replicate (T_SLOTS c) 0) = Some sr"
    "ts_hit sr = (key \<in> set (trie_keys db nd))" "arrives c nd t key (ts_traverse sr) ctx p" "ts_len sr = length ctx + 1"
    "ts_hit sr = (kof db nd p = key)" by (rule search_for_remove [OF assms(1,3)])
  have a: "t = plug ctx (Lf p)" "path_in (ts_traverse sr) (vals (PTR_AREA c) ctx (Lf p))" using sr(3) by (simp_all add: arrives_def)
  have k: "kof db nd p = key" using sr(2,5) assms(4) by blast
  have "ctx \<noteq> []" using a(1) r(13) assms(5) by auto
  then obtain c0 x where "ctx = c0 @ [x]" by (metis rev_exhaust)
  moreover obtain i b s where "x = (i, b, s)" by (cases x)
  ultimately have ctx: "ctx = c0 @ [(i, b, s)]" by simp
  let ?n = "t_valid_len nd - 1"
  from remove_position_spec [OF assms(1,2) a [unfolded ctx]] obtain nd' where
    rm: "t_RemoveInPosition c nd (ts_traverse sr) (length c0 + 2) = Some (REMOVE_SUCCESS, nd')"
      "trie_repr c db nd' (gap_tree ?n p i (plug c0 s))" "t_valid_len nd' = ?n" "t_key_ptr nd' = (t_key_ptr nd)[p := t_key_ptr nd ! ?n]" by blast
  have t: "t = plug (c0 @ [(i, b, s)]) (Lf p)" by (simp add: a(1) ctx)
  have lv: "mset (leaves_of (plug c0 s)) + {#p#} = mset (leaves_of t)" unfolding t by (simp add: leaves_plug)
  have sn: "Suc ?n = t_valid_len nd" using assms(5) by simp
  have br: "branches_of (plug c0 s) + {#i#} = mset [0..<?n]" using r(9) unfolding t by (simp add: branches_plug)
  have lv': "mset (leaves_of (plug c0 s)) + {#p#} = mset [0..<Suc ?n]" unfolding lv sn by (rule r(10))
  have n: "0 < ?n" "?n < length (t_key_ptr nd)" using assms(5) r(2,6) by simp_all
  note gt = gap_tree_spec(4) [OF br lv' n(1,2)]
  have "map (\<lambda>q. t_key_ptr nd' ! q) (leaves_of (gap_tree ?n p i (plug c0 s))) = map (\<lambda>q. t_key_ptr nd ! q) (leaves_of (plug c0 s))"
    unfolding gap_tree_def leaves_rename rm(4) using gt by simp
  then have "mset (trie_ptrs nd') = image_mset (\<lambda>q. t_key_ptr nd ! q) (mset (leaves_of (plug c0 s)))"
    unfolding mset_trie_ptrs [OF rm(2)] by (metis mset_map)
  then have keys: "mset (trie_ptrs nd') + {#t_key_ptr nd ! p#} = mset (trie_ptrs nd)"
    unfolding mset_trie_ptrs [OF assms(1)] lv [symmetric] by simp
  have "t_RemoveWithKey c db nd key = Some (if t_valid_len nd' < T_SLOTS c div 2 then REMOVE_UNDERFLOW else REMOVE_SUCCESS, nd')"
    using sr(1,2,4) assms(4) rm(1) ctx by (simp add: t_RemoveWithKey_def)
  then show ?thesis using rm(2,3) keys k by blast
qed

lemma remove_refused:
  assumes "trie_repr c db nd t" "length key = T_KEY_LEN c"
  shows "key \<notin> set (trie_keys db nd) \<Longrightarrow> t_RemoveWithKey c db nd key = Some (REMOVE_KEY_NOT_FOUND, nd)"
    and "key \<in> set (trie_keys db nd) \<Longrightarrow> t_valid_len nd = 1 \<Longrightarrow> t_RemoveWithKey c db nd key = None"
proof -
  note r = trie_reprD [OF assms(1)]
  obtain sr ctx p where sr: "t_SearchBlindiNode c db nd key (T_KEY_LEN c) POINT_SEARCH False (replicate (T_SLOTS c) 0) = Some sr"
    "ts_hit sr = (key \<in> set (trie_keys db nd))" "arrives c nd t key (ts_traverse sr) ctx p" "ts_len sr = length ctx + 1"
    "ts_hit sr = (kof db nd p = key)" by (rule search_for_remove [OF assms(1,2)])
  show "key \<notin> set (trie_keys db nd) \<Longrightarrow> t_RemoveWithKey c db nd key = Some (REMOVE_KEY_NOT_FOUND, nd)"
    using sr(1,2) by (simp add: t_RemoveWithKey_def)
  show "t_RemoveWithKey c db nd key = None" if "key \<in> set (trie_keys db nd)" "t_valid_len nd = 1"
  proof -
    have "t = plug ctx (Lf p)" using sr(3) by (simp add: arrives_def)
    then have "ctx = []" using r(13) that(2) size_ctx_branches [of ctx] by (simp add: branches_plug)
    then show ?thesis using sr(1,2,4) that(1) by (simp add: t_RemoveWithKey_def t_RemoveInPosition_def)
  qed
qed

end
