(* ===== verification/Trie_Map.thy ===== *)
theory Trie_Map
  imports Trie_Remove SeqTree_Levels
begin

text \<open>
  A trie leaf as a map from keys to pointers, and what its operations do to this map. A node is either empty, as the
  constructor leaves it, or has the invariant of \<^verbatim>\<open>Trie_Inv\<close>.
\<close>

section \<open>The map of a node\<close>

definition trie_map :: "db \<Rightarrow> trie \<Rightarrow> byte list \<Rightarrow> ptr option" where
  "trie_map db nd x = find (\<lambda>p. db p = x) (trie_ptrs nd)"

definition trie_empty :: "tcfg \<Rightarrow> trie \<Rightarrow> bool" where
  "trie_empty c nd \<longleftrightarrow> t_valid_len nd = 0 \<and> t_root nd = PTR_AREA c \<and> length (t_blindiKeys nd) = T_SLOTS c - 1
     \<and> length (small_ptr nd) = T_SLOTS c - 1 \<and> length (large_ptr nd) = T_SLOTS c - 1 \<and> length (t_key_ptr nd) = T_SLOTS c"

definition trie_node :: "tcfg \<Rightarrow> db \<Rightarrow> trie \<Rightarrow> bool" where
  "trie_node c db nd \<longleftrightarrow> trie_empty c nd \<or> trie_ok c db nd"

lemma new_trie_empty: "trie_empty c (new_trie c)"
  by (simp add: trie_empty_def new_trie_def)

lemma trie_map_dom: "dom (trie_map db nd) = set (trie_keys db nd)"
  unfolding set_eq_iff domIff trie_map_def trie_keys_ptrs by (auto simp: find_None_iff)

lemma find_add:
  assumes "distinct (map db qs)" "mset qs = add_mset k (mset ps)"
  shows "(\<lambda>x. find (\<lambda>p. db p = x) qs) = (\<lambda>x. find (\<lambda>p. db p = x) ps)(db k \<mapsto> k)"
proof
  fix x
  have "mset (map db qs) = mset (map db (k # ps))" by (simp add: assms(2))
  then have d: "distinct (map db (k # ps))" using assms(1) mset_eq_imp_distinct_iff by blast
  have s: "set qs = insert k (set ps)" using assms(2) by (metis set_mset_mset set_mset_add_mset_insert)
  have "find (\<lambda>p. db p = x) qs = Some p \<longleftrightarrow> ((\<lambda>x. find (\<lambda>p. db p = x) ps)(db k \<mapsto> k)) x = Some p" for p
  proof -
    have "find (\<lambda>p. db p = x) qs = Some p \<longleftrightarrow> p \<in> set qs \<and> db p = x" by (rule find_distinct [OF assms(1)])
    moreover have "find (\<lambda>p. db p = x) ps = Some p \<longleftrightarrow> p \<in> set ps \<and> db p = x" by (rule find_distinct) (use d in simp)
    ultimately show ?thesis using d s by (auto simp: image_iff)
  qed
  then show "find (\<lambda>p. db p = x) qs = ((\<lambda>x. find (\<lambda>p. db p = x) ps)(db k \<mapsto> k)) x" by (metis option.exhaust)
qed

lemma trie_map_add:
  assumes "distinct (trie_keys db nd')" "mset (trie_ptrs nd') = add_mset k (mset (trie_ptrs nd))"
  shows "trie_map db nd' = (trie_map db nd)(db k \<mapsto> k)"
  using find_add [of db "trie_ptrs nd'" k "trie_ptrs nd"] assms unfolding trie_keys_ptrs trie_map_def by simp

lemma trie_map_take:
  assumes "distinct (trie_keys db nd)" "mset (trie_ptrs nd) = add_mset k (mset (trie_ptrs nd'))"
  shows "trie_map db nd' = (trie_map db nd)(db k := None)"
proof -
  have "distinct (map db (k # trie_ptrs nd'))"
    using assms(1) mset_eq_imp_distinct_iff [of "map db (trie_ptrs nd)" "map db (k # trie_ptrs nd')"] assms(2) by (simp add: trie_keys_ptrs)
  then have "db k \<notin> db ` set (trie_ptrs nd')" by simp
  then have "trie_map db nd' (db k) = None" unfolding trie_map_def find_None_iff by (metis imageI)
  then show ?thesis using trie_map_add [OF assms] by (auto simp: fun_upd_idem)
qed

lemma trie_map_get:
  assumes "distinct (trie_keys db nd)"
  shows "trie_map db nd x = Some p \<longleftrightarrow> p \<in> set (trie_ptrs nd) \<and> db p = x"
  unfolding trie_map_def by (rule find_distinct) (use assms in \<open>simp add: trie_keys_ptrs\<close>)

section \<open>The contracts of the operations\<close>

lemma insert_map_spec:
  assumes "trie_node c db nd" "tcfg_ok c" "length (db k) = T_KEY_LEN c"
  shows "\<exists>res nd'. t_InsertWithKey c db nd k = Some (res, nd') \<and> trie_node c db nd'
    \<and> res = (if t_valid_len nd = T_SLOTS c then INSERT_OVERFLOW else if db k \<in> set (trie_keys db nd) then INSERT_DUPLICATED_KEY else INSERT_SUCCESS)
    \<and> (res \<noteq> INSERT_SUCCESS \<longrightarrow> nd' = nd)
    \<and> (res = INSERT_SUCCESS \<longrightarrow> trie_ok c db nd' \<and> t_valid_len nd' = t_valid_len nd + 1 \<and> trie_map db nd' = (trie_map db nd)(db k \<mapsto> k))"
proof (cases "t_valid_len nd = 0")
  case True
  then have e: "trie_empty c nd" using assms(1) trie_reprD(1) by (fastforce simp: trie_node_def trie_ok_def)
  have "2 \<le> T_SLOTS c" using tcfg_okD [OF assms(2)] by simp
  then have "\<exists>nd'. t_InsertWithKey c db nd k = Some (INSERT_SUCCESS, nd') \<and> trie_repr c db nd' (Lf 0) \<and> t_valid_len nd' = 1
      \<and> trie_ptrs nd' = [k]"
    using e assms(3)
    by (cases "t_key_ptr nd") (auto simp: t_InsertWithKey_def t_first_insert_def trie_empty_def trie_repr_def key_of_len_def trie_ptrs_def)
  moreover have "trie_keys db nd = []" using True by (simp add: trie_keys_def)
  ultimately show ?thesis using True \<open>2 \<le> T_SLOTS c\<close>
    by (auto simp: trie_node_def trie_ok_def trie_map_def trie_ptrs_def fun_eq_iff)
next
  case False
  then obtain t where t: "trie_repr c db nd t" using assms(1) by (auto simp: trie_node_def trie_ok_def trie_empty_def)
  note r = trie_reprD [OF t]
  show ?thesis
  proof (cases "t_valid_len nd < T_SLOTS c \<and> db k \<notin> set (trie_keys db nd)")
    case True
    from insert_key_spec [OF t assms(2) _ assms(3)] True obtain nd' t' where
      n: "t_InsertWithKey c db nd k = Some (INSERT_SUCCESS, nd')" "trie_repr c db nd' t'" "t_valid_len nd' = t_valid_len nd + 1"
        "t_key_ptr nd' = (t_key_ptr nd)[t_valid_len nd := k]" by blast
    have "trie_ptrs nd' = trie_ptrs nd @ [k]"
      using True r(6) by (simp add: trie_ptrs_def n(3,4) take_Suc_conv_app_nth)
    then have "trie_map db nd' = (trie_map db nd)(db k \<mapsto> k)" by (intro trie_map_add distinct_trie_keys [OF n(2)]) simp
    then show ?thesis using n True by (auto simp: trie_node_def trie_ok_def)
  next
    case False
    then show ?thesis using insert_refused [OF t assms(3)] r(2) assms(1) by (cases "t_valid_len nd = T_SLOTS c") auto
  qed
qed

lemma remove_map_spec:
  assumes "trie_ok c db nd" "tcfg_ok c" "length key = T_KEY_LEN c" "2 \<le> t_valid_len nd"
  shows "\<exists>res nd'. t_RemoveWithKey c db nd key = Some (res, nd') \<and> trie_ok c db nd' \<and> trie_map db nd' = (trie_map db nd)(key := None)
    \<and> res = (if key \<notin> set (trie_keys db nd) then REMOVE_KEY_NOT_FOUND
             else if t_valid_len nd' < T_SLOTS c div 2 then REMOVE_UNDERFLOW else REMOVE_SUCCESS)"
proof -
  obtain t where t: "trie_repr c db nd t" using assms(1) by (auto simp: trie_ok_def)
  show ?thesis
  proof (cases "key \<in> set (trie_keys db nd)")
    case True
    from remove_key_spec [OF t assms(2,3) True assms(4)] obtain nd' t' k where
      n: "t_RemoveWithKey c db nd key = Some (if t_valid_len nd' < T_SLOTS c div 2 then REMOVE_UNDERFLOW else REMOVE_SUCCESS, nd')"
        "trie_repr c db nd' t'" "db k = key" "mset (trie_ptrs nd') + {#k#} = mset (trie_ptrs nd)" by blast
    have "trie_map db nd' = (trie_map db nd)(db k := None)"
      by (rule trie_map_take [OF distinct_trie_keys [OF t]]) (simp flip: n(4))
    then show ?thesis using n(1,2,3) True by (auto simp: trie_ok_def)
  next
    case False
    then have "trie_map db nd key = None" using trie_map_dom [of db nd] by blast
    then show ?thesis using remove_refused(1) [OF t assms(3) False] assms(1) False by (auto simp: fun_upd_idem)
  qed
qed

text \<open>The order of the walk is the order of the keys.\<close>

lemma order_spec:
  assumes "trie_ok c db nd"
  shows "\<exists>ps. bring_sorted_items c nd = Some ps \<and> bring_descending_items c nd = Some (rev ps)
    \<and> mset (map (\<lambda>p. t_key_ptr nd ! p) ps) = mset (trie_ptrs nd) \<and> sorted_wrt key_less (map (\<lambda>p. db (t_key_ptr nd ! p)) ps)
    \<and> ps \<noteq> [] \<and> get_min_pos_node c nd = Some (hd ps) \<and> get_max_pos_node c nd = Some (last ps)"
proof -
  obtain t where t: "trie_repr c db nd t" using assms by (auto simp: trie_ok_def)
  have "sorted_wrt key_less (map (kof db nd) (leaves_of t))"
    using bl.sorted_blind [OF trie_reprD(11) [OF t]] by (simp add: sorted_wrt_map)
  then show ?thesis
    using sorted_items_spec [OF t] min_max_pos [OF t] mset_trie_ptrs [OF t] by (intro exI [of _ "leaves_of t"]) simp
qed

section \<open>Agreement with the sequential leaf\<close>

text \<open>The answers of the two searches when the key is missing, and that they are the same.\<close>

definition search_answer :: "db \<Rightarrow> trie \<Rightarrow> byte list \<Rightarrow> tsearch \<Rightarrow> bool" where
  "search_answer db nd key r \<longleftrightarrow> (if ts_smaller r then \<forall>k \<in> set (trie_keys db nd). key_less key k
     else ts_position r < t_valid_len nd \<and> key_less (kof db nd (ts_position r)) key
       \<and> (\<forall>k \<in> set (trie_keys db nd). key_less k key \<longrightarrow> \<not> key_less (kof db nd (ts_position r)) k))"

definition seq_answer :: "db \<Rightarrow> node \<Rightarrow> byte list \<Rightarrow> search_result \<Rightarrow> bool" where
  "seq_answer db nd key r \<longleftrightarrow> (if sr_smaller_than_node r then 0 < valid_len nd \<and> key_less key (node_keys db nd ! 0)
     else sr_position r < valid_len nd \<and> key_less (node_keys db nd ! sr_position r) key
       \<and> (Suc (sr_position r) < valid_len nd \<longrightarrow> key_less key (node_keys db nd ! Suc (sr_position r))))"

lemma seq_search_answer:
  assumes "cfg_ok c" "node_ok c db nd" "length x = KEY_LEN c" "6 \<le> length tr0"
  shows "\<exists>r. SearchBlindiNode c db nd x (KEY_LEN c) PREDECESSOR_SEARCH tr0 len0 = Some r \<and> sr_hit r = (x \<in> set (node_keys db nd))
    \<and> (sr_hit r \<longrightarrow> node_keys db nd ! sr_position r = x) \<and> (\<not> sr_hit r \<longrightarrow> seq_answer db nd x r)"
proof -
  have len: "length (node_keys db nd) = valid_len nd" "0 < valid_len nd" using node_okD [OF assms(2)] by simp_all
  from SearchBlindiNode_spec [OF assms, of PREDECESSOR_SEARCH len0] show ?thesis
    using len by (fastforce simp: search_gap_def bl.gap_def seq_answer_def)
qed

lemma trie_search_answer:
  assumes "trie_repr c db nd t" "length key = T_KEY_LEN c" "T_SLOTS c \<le> length tr0"
  shows "\<exists>r. t_SearchBlindiNode c db nd key (T_KEY_LEN c) PREDECESSOR_SEARCH False tr0 = Some r \<and> ts_hit r = (key \<in> set (trie_keys db nd))
    \<and> (ts_hit r \<longrightarrow> kof db nd (ts_position r) = key) \<and> (\<not> ts_hit r \<longrightarrow> search_answer db nd key r)"
  using trie_search_spec [OF assms, of PREDECESSOR_SEARCH] unfolding search_answer_def by blast

lemma answers_agree:
  assumes "trie_repr tc db nd t" "node_ok c db nd'" "set (trie_keys db nd) = set (node_keys db nd')"
    "search_answer db nd key r" "seq_answer db nd' key r'"
  shows "ts_smaller r = sr_smaller_than_node r' \<and> (ts_smaller r \<or> kof db nd (ts_position r) = node_keys db nd' ! sr_position r')"
proof -
  let ?ks = "node_keys db nd'" and ?a = "kof db nd (ts_position r)" and ?p = "sr_position r'"
  have len: "length ?ks = valid_len nd'" and o: "bl.ordered (KEY_LEN c) ?ks" using node_okD [OF assms(2)] by simp_all
  have lt: "key_less (?ks ! i) (?ks ! j)" if "i < j" "j < valid_len nd'" for i j
    using bl.ordered_lt [OF o that(1)] that(2) len by simp
  have le: "\<not> key_less (?ks ! j) (?ks ! i)" if "i \<le> j" "j < valid_len nd'" for i j
    using lt [of i j] that by (cases "i = j") (auto simp: key_less_def)
  have a: "?a \<in> set ?ks" if "\<not> ts_smaller r"
  proof -
    have "ts_position r < t_valid_len nd" using assms(4) that by (simp add: search_answer_def)
    then show ?thesis using set_trie_keys [OF assms(1)] trie_reprD(12) [OF assms(1)] assms(3) by auto
  qed
  have smaller: "ts_smaller r = sr_smaller_than_node r'"
  proof (cases "sr_smaller_than_node r'")
    case True
    then have "key_less key (?ks ! 0)" using assms(5) by (simp add: seq_answer_def)
    moreover have "\<not> key_less k (?ks ! 0)" if "k \<in> set ?ks" for k using that le [of 0] len by (auto simp: in_set_conv_nth)
    ultimately show ?thesis using True a assms(4) by (cases "ts_smaller r") (auto simp: search_answer_def key_less_def, force)
  next
    case False
    then have "?ks ! ?p \<in> set ?ks" "key_less (?ks ! ?p) key"
      using assms(5) len by (simp_all add: seq_answer_def)
    moreover have "ts_smaller r \<Longrightarrow> k \<in> set ?ks \<Longrightarrow> key_less key k" for k
      using assms(3,4) by (simp add: search_answer_def)
    ultimately have "\<not> ts_smaller r" unfolding key_less_def by (metis order_less_asym)
    then show ?thesis using False by simp
  qed
  moreover have "?a = ?ks ! ?p" if ns: "\<not> ts_smaller r"
  proof -
    obtain i where i: "?a = ?ks ! i" "i < valid_len nd'" using a [OF ns] len by (metis in_set_conv_nth)
    have f: "?p < valid_len nd'" "key_less (?ks ! ?p) key" "Suc ?p < valid_len nd' \<longrightarrow> key_less key (?ks ! Suc ?p)" "key_less (?ks ! i) key"
      "\<not> key_less (?ks ! i) (?ks ! ?p)"
      using assms(3,4,5) ns smaller len i by (auto simp: search_answer_def seq_answer_def)
    have "\<not> i < ?p" using lt [of i ?p] f by blast
    moreover have "\<not> ?p < i" using le [of "Suc ?p" i] i(2) f(3,4) by (auto simp: key_less_def)
    ultimately show ?thesis using i(1) by simp
  qed
  ultimately show ?thesis by blast
qed

end
