(* ===== verification/Trie_Samples.thy ===== *)
theory Trie_Samples
  imports Trie_Map Samples
begin

text \<open>Concrete trie leaves for the witnesses.\<close>

definition sample_tcfg :: tcfg where "sample_tcfg = \<lparr> T_SLOTS = 8, T_KEY_LEN = 1 \<rparr>"

definition sample_trie :: trie where
  "sample_trie = \<lparr> t_blindiKeys = [5, 0, 3, 0, 0, 0, 0], small_ptr = [129, 2, 0, 0, 0, 0, 0], large_ptr = [128, 130, 131, 0, 0, 0, 0],
     t_root = 1, t_key_ptr = [5, 3, 200, 20, 0, 0, 0, 0], t_valid_len = 4 \<rparr>"

definition sample_trie_twin :: trie where
  "sample_trie_twin = \<lparr> t_blindiKeys = [5, 4, 3, 0, 0, 0, 0], small_ptr = [130, 0, 1, 0, 0, 0, 0], large_ptr = [128, 129, 131, 0, 0, 0, 0],
     t_root = 2, t_key_ptr = [5, 9, 3, 20, 0, 0, 0, 0], t_valid_len = 4 \<rparr>"

definition sample_trie_large :: trie where
  "sample_trie_large = \<lparr> t_blindiKeys = [2, 3, 0, 0, 0, 0, 0], small_ptr = [128, 130, 0, 0, 0, 0, 0], large_ptr = [1, 129, 0, 0, 0, 0, 0],
     t_root = 0, t_key_ptr = [201, 240, 230, 0, 0, 0, 0, 0], t_valid_len = 3 \<rparr>"

definition sample_trie_one :: trie where
  "sample_trie_one = \<lparr> t_blindiKeys = [0, 0, 0, 0, 0, 0, 0], small_ptr = [0, 0, 0, 0, 0, 0, 0], large_ptr = [0, 0, 0, 0, 0, 0, 0],
     t_root = 128, t_key_ptr = [5, 0, 0, 0, 0, 0, 0, 0], t_valid_len = 1 \<rparr>"

definition sample_trie_full :: trie where
  "sample_trie_full = \<lparr> t_blindiKeys = [5, 0, 3, 4, 1, 1, 2], small_ptr = [129, 4, 3, 0, 2, 134, 130],
     large_ptr = [128, 5, 131, 132, 133, 6, 135], t_root = 1, t_key_ptr = [5, 3, 200, 20, 9, 77, 130, 255], t_valid_len = 8 \<rparr>"

lemma sample_tcfg_ok: "tcfg_ok sample_tcfg"
  by (simp add: tcfg_ok_def sample_tcfg_def t_bitidx_mod_def)

lemma sample_tcfg_simps: "T_SLOTS sample_tcfg = 8" "T_KEY_LEN sample_tcfg = 1" "PTR_AREA sample_tcfg = 128"
  by (simp_all add: sample_tcfg_def PTR_AREA_def t_idx_mod_def)

text \<open>Below the root of each lies a tree; the comparisons it needs are evaluated.\<close>

lemmas sample_blind = bl.blind.simps bl.apart_def key_of_len_def key_less_def key_dif_def compare_eval sample_db_def

lemma sample_trie_ok: "trie_ok sample_tcfg sample_db sample_trie"
proof -
  have m: "mset [0..<3] = {#0, 1, 2::nat#}" "mset [0..<4] = {#0, 1, 2, 3::nat#}" by (simp_all add: eval_nat_numeral add_mset_commute)
  have "trie_repr sample_tcfg sample_db sample_trie (Br 1 (Br 2 (Br 0 (Lf 1) (Lf 0)) (Lf 3)) (Lf 2))"
    by (simp add: trie_repr_def sample_trie_def sample_tcfg_simps m del: mset_upt) (simp add: sample_blind)
  then show ?thesis unfolding trie_ok_def ..
qed

lemma sample_trie_twin_ok: "trie_ok sample_tcfg sample_db sample_trie_twin"
proof -
  have m: "mset [0..<3] = {#0, 1, 2::nat#}" "mset [0..<4] = {#0, 1, 2, 3::nat#}" by (simp_all add: eval_nat_numeral add_mset_commute)
  have "trie_repr sample_tcfg sample_db sample_trie_twin (Br 2 (Br 1 (Br 0 (Lf 2) (Lf 0)) (Lf 1)) (Lf 3))"
    by (simp add: trie_repr_def sample_trie_twin_def sample_tcfg_simps m del: mset_upt) (simp add: sample_blind)
  then show ?thesis unfolding trie_ok_def ..
qed

lemma sample_trie_large_ok: "trie_ok sample_tcfg sample_db sample_trie_large"
proof -
  have m: "mset [0..<2] = {#0, 1::nat#}" "mset [0..<3] = {#0, 1, 2::nat#}" by (simp_all add: eval_nat_numeral add_mset_commute)
  have "trie_repr sample_tcfg sample_db sample_trie_large (Br 0 (Lf 0) (Br 1 (Lf 2) (Lf 1)))"
    by (simp add: trie_repr_def sample_trie_large_def sample_tcfg_simps m del: mset_upt) (simp add: sample_blind)
  then show ?thesis unfolding trie_ok_def ..
qed

lemma sample_trie_one_ok: "trie_ok sample_tcfg sample_db sample_trie_one"
proof -
  have "trie_repr sample_tcfg sample_db sample_trie_one (Lf 0)"
    by (simp add: trie_repr_def sample_trie_one_def sample_tcfg_simps) (simp add: sample_blind)
  then show ?thesis unfolding trie_ok_def ..
qed

lemma sample_trie_full_ok: "trie_ok sample_tcfg sample_db sample_trie_full"
proof -
  have m: "mset [0..<7] = {#0, 1, 2, 3, 4, 5, 6::nat#}" "mset [0..<8] = {#0, 1, 2, 3, 4, 5, 6, 7::nat#}" by (simp_all add: eval_nat_numeral add_mset_commute)
  have "trie_repr sample_tcfg sample_db sample_trie_full
    (Br 1 (Br 4 (Br 2 (Br 3 (Br 0 (Lf 1) (Lf 0)) (Lf 4)) (Lf 3)) (Lf 5)) (Br 5 (Lf 6) (Br 6 (Lf 2) (Lf 7))))"
    by (simp add: trie_repr_def sample_trie_full_def sample_tcfg_simps m del: mset_upt) (simp add: sample_blind)
  then show ?thesis unfolding trie_ok_def ..
qed

lemma sample_trie_keys: "trie_keys sample_db sample_trie = [[5], [3], [200], [20]]"
  "trie_keys sample_db sample_trie_twin = [[5], [9], [3], [20]]" "trie_keys sample_db sample_trie_large = [[201], [240], [230]]"
  "trie_keys sample_db sample_trie_one = [[5]]"
  by (simp_all add: trie_keys_def sample_trie_def sample_trie_twin_def sample_trie_large_def sample_trie_one_def sample_db_def)

lemma sample_trie_len: "t_valid_len sample_trie = 4" "t_valid_len sample_trie_large = 3" "t_valid_len sample_trie_full = 8" "t_valid_len sample_trie_one = 1"
  by (simp_all add: sample_trie_def sample_trie_large_def sample_trie_full_def sample_trie_one_def)

end
