(* ===== verification/Trie_Weave.thy ===== *)
theory Trie_Weave
  imports Blind_Tree
begin

text \<open>
  Merging two blind trees, all keys of the one below those of the other: the path to the greatest key of the small tree
  and the path to the least key of the large tree are woven into one, in the order of their bits, up to the bit in which
  these two keys differ. There the new branching parts what is left of both.
\<close>

section \<open>Weaving two paths\<close>

abbreviation head_bit :: "(nat \<Rightarrow> nat) \<Rightarrow> step list \<Rightarrow> nat" where
  "head_bit bk c \<equiv> bk (fst (hd c))"

definition woven :: "(nat \<Rightarrow> nat) \<Rightarrow> nat \<Rightarrow> step list \<Rightarrow> step list \<Rightarrow> bool" where
  "woven bk d cs cl \<longleftrightarrow> (cs = [] \<or> d < head_bit bk cs) \<and> (cl = [] \<or> d < head_bit bk cl)"

definition takes_small :: "(nat \<Rightarrow> nat) \<Rightarrow> step list \<Rightarrow> step list \<Rightarrow> bool" where
  "takes_small bk cs cl \<longleftrightarrow> cl = [] \<or> cs \<noteq> [] \<and> head_bit bk cs < head_bit bk cl"

function weave :: "(nat \<Rightarrow> nat) \<Rightarrow> nat \<Rightarrow> step list \<Rightarrow> step list \<Rightarrow> step list \<times> step list \<times> step list" where
  "weave bk d cs cl =
     (if woven bk d cs cl then ([], cs, cl)
      else if takes_small bk cs cl then (case weave bk d (tl cs) cl of (m, a, b) \<Rightarrow> (hd cs # m, a, b))
      else (case weave bk d cs (tl cl) of (m, a, b) \<Rightarrow> (hd cl # m, a, b)))"
  by pat_completeness auto
termination
  by (relation "measure (\<lambda>(bk, d, cs, cl). length cs + length cl)") (auto simp: woven_def takes_small_def)

declare weave.simps [simp del]

lemma weave_cases:
  obtains (fin) "woven bk d cs cl" "weave bk d cs cl = ([], cs, cl)"
    | (small) x cs2 m a b where "\<not> woven bk d cs cl" "takes_small bk cs cl" "cs = x # cs2" "weave bk d cs2 cl = (m, a, b)"
        "weave bk d cs cl = (x # m, a, b)"
    | (large) x cl2 m a b where "\<not> woven bk d cs cl" "\<not> takes_small bk cs cl" "cl = x # cl2" "weave bk d cs cl2 = (m, a, b)"
        "weave bk d cs cl = (x # m, a, b)"
proof -
  consider "woven bk d cs cl" | "\<not> woven bk d cs cl" "takes_small bk cs cl" | "\<not> woven bk d cs cl" "\<not> takes_small bk cs cl" by blast
  then show thesis
  proof cases
    case 1
    then show ?thesis using fin by (simp add: weave.simps [of bk d cs cl])
  next
    case 2
    then obtain x cs2 where "cs = x # cs2" by (cases cs) (auto simp: woven_def takes_small_def)
    moreover obtain m a b where "weave bk d cs2 cl = (m, a, b)" by (cases "weave bk d cs2 cl")
    moreover from calculation have "weave bk d cs cl = (x # m, a, b)" using 2 by (subst weave.simps) simp
    ultimately show ?thesis using small 2 by blast
  next
    case 3
    then obtain x cl2 where "cl = x # cl2" by (cases cl) (auto simp: takes_small_def)
    moreover obtain m a b where "weave bk d cs cl2 = (m, a, b)" by (cases "weave bk d cs cl2")
    moreover from calculation have "weave bk d cs cl = (x # m, a, b)" using 3 by (subst weave.simps) simp
    ultimately show ?thesis using large 3 by blast
  qed
qed

text \<open>Nothing is lost.\<close>

lemma weave_parts:
  "weave bk d cs cl = (m, a, b) \<Longrightarrow> ctx_leaves m + ctx_leaves a + ctx_leaves b = ctx_leaves cs + ctx_leaves cl
    \<and> ctx_branches m + ctx_branches a + ctx_branches b = ctx_branches cs + ctx_branches cl
    \<and> length a \<le> length cs \<and> length b \<le> length cl \<and> a = drop (length cs - length a) cs \<and> b = drop (length cl - length b) cl"
proof (induction "length cs + length cl" arbitrary: cs cl m a b rule: less_induct)
  case less
  show ?case
  proof (cases rule: weave_cases [of bk d cs cl])
    case fin
    then show ?thesis using less.prems by simp
  next
    case (small x cs2 m' a' b')
    have "m = x # m'" "a = a'" "b = b'" using less.prems small(5) by simp_all
    then show ?thesis using less.hyps [of cs2 cl m' a' b'] small(3,4) by (cases x) (auto simp: Suc_diff_le ac_simps)
  next
    case (large x cl2 m' a' b')
    have "m = x # m'" "a = a'" "b = b'" using less.prems large(5) by simp_all
    then show ?thesis using less.hyps [of cs cl2 m' a' b'] large(3,4) by (cases x) (auto simp: Suc_diff_le ac_simps)
  qed
qed

section \<open>The woven tree is blind\<close>

context bit_keys begin

lemma dif_min:
  assumes "valid x" "valid y" "valid z" "x \<noteq> z" "x = y \<or> m < dif x y" "y = z \<or> m < dif y z"
  shows "m < dif x z"
proof (rule ccontr)
  assume "\<not> m < dif x z"
  then have le: "dif x z \<le> m" by simp
  have "kb x (dif x z) = kb y (dif x z)" using assms(5) le dif_agree [OF assms(1,2), of "dif x z"] by (cases "x = y") auto
  moreover have "kb y (dif x z) = kb z (dif x z)" using assms(6) le dif_agree [OF assms(2,3), of "dif x z"] by (cases "y = z") auto
  ultimately show False using dif_differ [OF assms(1,3,4)] by simp
qed

text \<open>The keys below a path whose bits are all above \<open>m\<close> agree up to \<open>m\<close> with the key at its end.\<close>

lemma path_agree:
  assumes "blind K bk (plug c (Lf p))" "\<And>i large s. (i, large, s) \<in> set c \<Longrightarrow> m < bk i" "a \<in> set (leaves_of (plug c (Lf p)))"
  shows "K a = K p \<or> m < dif (K a) (K p)"
proof (cases "a = p")
  case False
  then obtain i large s where s: "(i, large, s) \<in> set c" "a \<in> set (leaves_of s)" using assms(3) by (auto simp: set_leaves_plug in_ctx_leaves)
  from step_facts(4) [OF assms(1) s] assms(2) [OF s(1)] show ?thesis by simp
qed simp

lemma head_least: "blind K bk (plug (x # c) (Lf p)) \<Longrightarrow> (i, large, s) \<in> set (x # c) \<Longrightarrow> bk (fst x) \<le> bk i"
  using bits_grow [of K bk "[]" "fst x" "fst (snd x)" "snd (snd x)" c p i large s] by (cases x) auto

text \<open>Two ordered trees whose end keys differ in the bit \<open>d\<close>, seen through that bit.\<close>

definition meet :: "(nat \<Rightarrow> 'k) \<Rightarrow> (nat \<Rightarrow> nat) \<Rightarrow> nat \<Rightarrow> step list \<Rightarrow> nat \<Rightarrow> step list \<Rightarrow> nat \<Rightarrow> bool" where
  "meet K bk d cs p cl q \<longleftrightarrow> blind K bk (plug cs (Lf p)) \<and> blind K bk (plug cl (Lf q)) \<and> lt (K p) (K q) \<and> d = dif (K p) (K q)
     \<and> (\<forall>a \<in> set (leaves_of (plug cs (Lf p))). \<forall>b \<in> set (leaves_of (plug cl (Lf q))). lt (K a) (K b))
     \<and> (\<forall>(i, large, s) \<in> set cs. large) \<and> (\<forall>(i, large, s) \<in> set cl. \<not> large)"

lemma meetD:
  assumes "meet K bk d cs p cl q"
  shows "blind K bk (plug cs (Lf p))" "blind K bk (plug cl (Lf q))" "d = dif (K p) (K q)"
    "\<And>a b. a \<in> set (leaves_of (plug cs (Lf p))) \<Longrightarrow> b \<in> set (leaves_of (plug cl (Lf q))) \<Longrightarrow> lt (K a) (K b)"
  using assms unfolding meet_def by blast+

lemma meet_bits:
  assumes "meet K bk d cs p cl q"
  shows "valid (K p)" "valid (K q)" "K p \<noteq> K q" "\<not> kb (K p) d" "kb (K q) d" "dif (K q) (K p) = d" "\<And>j. j < d \<Longrightarrow> kb (K p) j = kb (K q) j"
    "\<And>i large s. (i, large, s) \<in> set cs \<Longrightarrow> kb (K p) (bk i) \<and> bk i \<noteq> d" "\<And>i large s. (i, large, s) \<in> set cl \<Longrightarrow> \<not> kb (K q) (bk i) \<and> bk i \<noteq> d"
    "\<And>i large s j large' s'. (i, large, s) \<in> set cs \<Longrightarrow> (j, large', s') \<in> set cl \<Longrightarrow> bk i = bk j \<Longrightarrow> d < bk i"
proof -
  have m: "blind K bk (plug cs (Lf p))" "blind K bk (plug cl (Lf q))" "lt (K p) (K q)" "d = dif (K p) (K q)"
    "\<forall>(i, large, s) \<in> set cs. large" "\<forall>(i, large, s) \<in> set cl. \<not> large" using assms by (simp_all add: meet_def)
  show v: "valid (K p)" "valid (K q)" using m(1,2) by (simp_all add: blind_plug)
  have ap: "apart K d p q" using m(3,4) by (simp add: apart_def)
  show n: "K p \<noteq> K q" and kp: "\<not> kb (K p) d" and kq: "kb (K q) d" using apart_bits [OF ap v] by blast+
  show agree: "\<And>j. j < d \<Longrightarrow> kb (K p) j = kb (K q) j" using apart_bits [OF ap v] by blast
  show "dif (K q) (K p) = d" using dif_sym [OF v n] m(4) by simp
  have s: "kb (K p) (bk i)" if "(i, large, s) \<in> set cs" for i large s
  proof -
    obtain a where "a \<in> set (leaves_of s)" using leaves_ne [of s] by (meson last_in_set)
    from step_facts(7) [OF m(1) that this] m(5) that show ?thesis by auto
  qed
  have l: "\<not> kb (K q) (bk i)" if "(i, large, s) \<in> set cl" for i large s
  proof -
    obtain a where "a \<in> set (leaves_of s)" using leaves_ne [of s] by (meson last_in_set)
    from step_facts(7) [OF m(2) that this] m(6) that show ?thesis by auto
  qed
  show "\<And>i large s. (i, large, s) \<in> set cs \<Longrightarrow> kb (K p) (bk i) \<and> bk i \<noteq> d" using s kp by metis
  show "\<And>i large s. (i, large, s) \<in> set cl \<Longrightarrow> \<not> kb (K q) (bk i) \<and> bk i \<noteq> d" using l kq by metis
  show "\<And>i large s j large' s'. (i, large, s) \<in> set cs \<Longrightarrow> (j, large', s') \<in> set cl \<Longrightarrow> bk i = bk j \<Longrightarrow> d < bk i"
    using s l kp agree by (metis linorder_neqE_nat)
qed

lemma meet_swap_heads:
  assumes "meet K bk d cs p cl q"
  shows "cs = x # cs2 \<Longrightarrow> meet K bk d cs2 p cl q" "cl = x # cl2 \<Longrightarrow> meet K bk d cs p cl2 q"
  using assms by (cases x; auto simp: meet_def)+

text \<open>Where both paths are above \<open>d\<close>, the new branching parts the trees.\<close>

lemma blind_woven:
  assumes m: "meet K bk d cs p cl q" and w: "woven bk d cs cl" and n: "bk new = d"
  shows "blind K bk (Br new (plug cs (Lf p)) (plug cl (Lf q)))"
proof -
  have b: "blind K bk (plug cs (Lf p))" "blind K bk (plug cl (Lf q))" "d = dif (K p) (K q)"
    "\<And>a b. a \<in> set (leaves_of (plug cs (Lf p))) \<Longrightarrow> b \<in> set (leaves_of (plug cl (Lf q))) \<Longrightarrow> lt (K a) (K b)" using m by (simp_all add: meet_def)
  note f = meet_bits [OF m]
  have cs: "d < bk i" if "(i, large, s) \<in> set cs" for i large s
    using head_least [OF _ , of K bk "hd cs" "tl cs" p i large s] b(1) w that by (cases cs) (auto simp: woven_def)
  have cl: "d < bk i" if "(i, large, s) \<in> set cl" for i large s
    using head_least [OF _ , of K bk "hd cl" "tl cl" q i large s] b(2) w that by (cases cl) (auto simp: woven_def)
  have "apart K d a a'" if a: "a \<in> set (leaves_of (plug cs (Lf p)))" "a' \<in> set (leaves_of (plug cl (Lf q)))" for a a'
  proof -
    have v: "valid (K a)" by (rule blind_valid [OF b(1) a(1)])
    have 1: "K q \<noteq> K a \<and> dif (K q) (K a) = d"
      using below_facts [OF b(1) f(2) not_sym [OF f(3)] _ a(1)] cs f(6) by auto
    then have 2: "K a \<noteq> K q \<and> dif (K a) (K q) = d" using dif_sym [OF f(2) v] by auto
    have "dif (K a) (K a') = d"
      using below_facts [OF b(2) v _ _ a(2)] 2 cl by auto
    then show ?thesis using b(4) [OF a] by (simp add: apart_def)
  qed
  then show ?thesis using b(1,2) n by auto
qed

text \<open>A step that is taken lies above everything that follows.\<close>

lemma small_step:
  assumes m: "meet K bk d ((i, large, s) # cs2) p cl q" and w: "\<not> woven bk d ((i, large, s) # cs2) cl" "takes_small bk ((i, large, s) # cs2) cl"
    and a: "a \<in> set (leaves_of s)" "b \<in> set (leaves_of (plug cl (Lf q)))"
  shows "apart K (bk i) a b"
proof -
  let ?cs = "(i, large, s) # cs2"
  note bl = meetD(1,2) [OF m] and lt = meetD(4) [OF m]
  note f = meet_bits [OF m]
  have s: "(i, large, s) \<in> set ?cs" by simp
  have id: "bk i < d" using f(8) [OF s] w by (auto simp: woven_def takes_small_def)
  have cl: "bk i < bk j" if "(j, large', s') \<in> set cl" for j large' s'
    using head_least [of K bk "hd cl" "tl cl" q j large' s'] bl(2) that w(2) by (cases cl) (auto simp: takes_small_def)
  have v: "valid (K b)" by (rule blind_valid [OF bl(2) a(2)])
  have in_s: "a \<in> set (leaves_of (plug ?cs (Lf p)))" "p \<in> set (leaves_of (plug ?cs (Lf p)))" using a(1) by (auto simp: set_leaves_plug)
  have ne: "K b \<noteq> K p" using lt [OF in_s(2) a(2)] lt_irrefl by metis
  have "bk i < dif (K b) (K p)"
    by (rule dif_min [OF v f(2,1) ne path_agree [OF bl(2) cl a(2)]]) (use id f(6) in simp_all)
  then show ?thesis using above_facts [OF bl(1) s a(1) v ne] lt [OF in_s(1) a(2)] by (simp add: apart_def)
qed

lemma large_step:
  assumes m: "meet K bk d cs p ((i, large, s) # cl2) q" and w: "\<not> woven bk d cs ((i, large, s) # cl2)" "\<not> takes_small bk cs ((i, large, s) # cl2)"
    and a: "a \<in> set (leaves_of (plug cs (Lf p)))" "b \<in> set (leaves_of s)"
  shows "apart K (bk i) a b"
proof -
  let ?cl = "(i, large, s) # cl2"
  note bl = meetD(1,2) [OF m] and lt = meetD(4) [OF m]
  note f = meet_bits [OF m]
  have s: "(i, large, s) \<in> set ?cl" by simp
  have id: "bk i < d" using f(9) [OF s] w by (auto simp: woven_def takes_small_def)
  have cs: "bk i < bk j" if "(j, large', s') \<in> set cs" for j large' s'
  proof -
    have "bk i \<noteq> bk j" using f(10) [OF that s] id by auto
    moreover have "bk i \<le> bk j"
      using head_least [of K bk "hd cs" "tl cs" p j large' s'] bl(1) that w(2) by (cases cs) (auto simp: takes_small_def)
    ultimately show ?thesis by simp
  qed
  have v: "valid (K a)" by (rule blind_valid [OF bl(1) a(1)])
  have in_l: "b \<in> set (leaves_of (plug ?cl (Lf q)))" "q \<in> set (leaves_of (plug ?cl (Lf q)))" using a(2) by (auto simp: set_leaves_plug)
  have ne: "K a \<noteq> K q" using lt [OF a(1) in_l(2)] lt_irrefl by metis
  have "bk i < dif (K a) (K q)"
    by (rule dif_min [OF v f(1,2) ne path_agree [OF bl(1) cs a(1)]]) (use id meetD(3) [OF m] in simp_all)
  then show ?thesis using above_facts [OF bl(2) s a(2) v ne] lt [OF a(1) in_l(1)] by (simp add: apart_def)
qed

lemma weave_leaves:
  assumes "weave bk d cs cl = (m, a, b)"
  shows "set (leaves_of (plug m (Br new (plug a (Lf p)) (plug b (Lf q))))) = set (leaves_of (plug cs (Lf p))) \<union> set (leaves_of (plug cl (Lf q)))"
proof -
  have "set_mset (ctx_leaves m + ctx_leaves a + ctx_leaves b) = set_mset (ctx_leaves cs + ctx_leaves cl)" using weave_parts [OF assms] by metis
  then show ?thesis by (auto simp: set_leaves_plug)
qed

lemma blind_weave:
  assumes "meet K bk d cs p cl q" "bk new = d" "weave bk d cs cl = (m, a, b)"
  shows "blind K bk (plug m (Br new (plug a (Lf p)) (plug b (Lf q))))"
  using assms(1,3)
proof (induction "length cs + length cl" arbitrary: cs cl m a b rule: less_induct)
  case less
  note f = meet_bits [OF less.prems(1)]
  note bl = meetD(1,2) [OF less.prems(1)]
  show ?case
  proof (cases rule: weave_cases [of bk d cs cl])
    case fin
    then show ?thesis using blind_woven [OF less.prems(1) _ assms(2)] less.prems(2) by simp
  next
    case (small x cs2 m' a' b')
    have e: "m = x # m'" "a = a'" "b = b'" using less.prems(2) small(5) by simp_all
    have ih: "blind K bk (plug m' (Br new (plug a' (Lf p)) (plug b' (Lf q))))"
      using less.hyps [OF _ meet_swap_heads(1) [OF less.prems(1) small(3)] small(4)] small(3) by simp
    obtain i large s where x: "x = (i, large, s)" by (cases x)
    have l: large using small(3) x less.prems(1) by (auto simp: meet_def)
    note st = small_step [OF less.prems(1) [unfolded small(3) x] small(1,2) [unfolded small(3) x]]
    show ?thesis using ih st bl(1) l unfolding e x small(3) by (auto simp: weave_leaves [OF small(4)] simp del: leaves_of.simps(2))
  next
    case (large x cl2 m' a' b')
    have e: "m = x # m'" "a = a'" "b = b'" using less.prems(2) large(5) by simp_all
    have ih: "blind K bk (plug m' (Br new (plug a' (Lf p)) (plug b' (Lf q))))"
      using less.hyps [OF _ meet_swap_heads(2) [OF less.prems(1) large(3)] large(4)] large(3) by simp
    obtain i large' s where x: "x = (i, large', s)" by (cases x)
    have l: "\<not> large'" using large(3) x less.prems(1) by (auto simp: meet_def)
    note st = large_step [OF less.prems(1) [unfolded large(3) x] large(1,2) [unfolded large(3) x]]
    show ?thesis using ih st bl(2) l unfolding e x large(3) by (auto simp: weave_leaves [OF large(4)] simp del: leaves_of.simps(2))
  qed
qed

end

end
