(* ===== verification/Trie_Nodes.thy ===== *)
theory Trie_Nodes
  imports Blindi_Trie
begin

text \<open>
  The operations of \<^verbatim>\<open>blindi_trie.hpp\<close> on two nodes: \<^verbatim>\<open>CopyNode\<close>, \<^verbatim>\<open>MergeBlindiNodes\<close>, and \<^verbatim>\<open>SplitBlindiNode\<close> with \<^verbatim>\<open>fill_node_array\<close>.
\<close>

section \<open>Merging\<close>

text \<open>The node keeps its other cells; an empty second node makes the code read and write the cell before the first.\<close>

definition t_CopyNode :: "trie \<Rightarrow> trie \<Rightarrow> trie option" where
  "t_CopyNode nd node_large =
     (let n = t_valid_len node_large in
      if n = 0 then None
      else do {
        kp \<leftarrow> copy_cells (t_key_ptr node_large) 0 (t_key_ptr nd) 0 n;
        bk \<leftarrow> copy_cells (t_blindiKeys node_large) 0 (t_blindiKeys nd) 0 (n - 1);
        lg \<leftarrow> copy_cells (large_ptr node_large) 0 (large_ptr nd) 0 (n - 1);
        sm \<leftarrow> copy_cells (small_ptr node_large) 0 (small_ptr nd) 0 (n - 1);
        Some (nd \<lparr> t_root := t_root node_large, t_key_ptr := kp, t_blindiKeys := bk, large_ptr := lg, small_ptr := sm, t_valid_len := n \<rparr>)
      })"

text \<open>
  The loop that connects the two trees: \<open>trs\<close> is the path to the last key of the small node and \<open>trl\<close> the path to the
  first key of the large node, \<open>i_s\<close> and \<open>i_l\<close> the places reached on them, \<open>end_s\<close> and \<open>end_l\<close> say that a path has come to
  its key, and \<open>cur_s\<close>, \<open>cur_l\<close> are the bits of the branchings reached. At the head of the loop \<^verbatim>\<open>next_blindikey_small\<close> and
  \<^verbatim>\<open>next_blindikey_large\<close> have the values of \<open>cur_s\<close> and \<open>cur_l\<close>.
\<close>

function t_merge_loop :: "tcfg \<Rightarrow> nat list \<Rightarrow> nat \<Rightarrow> nat \<Rightarrow> nat list \<Rightarrow> nat list \<Rightarrow> nat list \<times> nat list \<Rightarrow> nat \<Rightarrow> nat
    \<Rightarrow> bool \<Rightarrow> bool \<Rightarrow> nat \<Rightarrow> nat \<Rightarrow> ((nat list \<times> nat list) \<times> nat \<times> nat) option" where
  "t_merge_loop c bk d new trs trl (sm, lg) i_s i_l end_s end_l cur_s cur_l =
     (if (end_s \<or> d < cur_s) \<and> (end_l \<or> d < cur_l) then Some ((sm, lg), i_s, i_l)
      else if end_l \<or> \<not> end_s \<and> cur_s < cur_l then
        do {
          v \<leftarrow> get trs (i_s + 1);
          next_s \<leftarrow> (if v \<ge> PTR_AREA c then Some cur_s else get bk v);
          let end_s = (end_s \<or> v \<ge> PTR_AREA c);
          prev \<leftarrow> get trs i_s;
          (if (end_s \<or> d < next_s) \<and> (end_l \<or> d < cur_l) then
             do { lg \<leftarrow> put lg prev new; Some ((sm, lg), i_s + 1, i_l) }
           else do {
             lg \<leftarrow> (if end_s \<or> \<not> end_l \<and> next_s > cur_l then do { x \<leftarrow> get trl i_l; put lg prev (x mod t_idx_mod c) } else Some lg);
             t_merge_loop c bk d new trs trl (sm, lg) (i_s + 1) i_l end_s end_l next_s cur_l
           })
        }
      else
        do {
          v \<leftarrow> get trl (i_l + 1);
          next_l \<leftarrow> (if v \<ge> PTR_AREA c then Some cur_l else get bk v);
          let end_l = (end_l \<or> v \<ge> PTR_AREA c);
          prev \<leftarrow> get trl i_l;
          (if (end_s \<or> d < cur_s) \<and> (end_l \<or> d < next_l) then
             do { sm \<leftarrow> put sm prev new; Some ((sm, lg), i_s, i_l + 1) }
           else do {
             sm \<leftarrow> (if end_l \<or> \<not> end_s \<and> next_l > cur_s then do { x \<leftarrow> get trs i_s; put sm prev (x mod t_idx_mod c) } else Some sm);
             t_merge_loop c bk d new trs trl (sm, lg) i_s (i_l + 1) end_s end_l cur_s next_l
           })
        })"
  by pat_completeness auto
termination
  by (relation "measure (\<lambda>(c, bk, d, new, trs, trl, ptrs, i_s, i_l, end_s, end_l, cur_s, cur_l). (length trs - i_s) + (length trl - i_l))")
    (auto simp: get_eq_Some)

declare t_merge_loop.simps [simp del]

text \<open>
  The keys of the large node go behind those of the small one, with the values of its pointers shifted; the branching
  \<open>sl - 1\<close> between them is new. The code reads the bits at both roots also when a root is a key, outside the array.
\<close>

definition t_MergeNodes :: "tcfg \<Rightarrow> db \<Rightarrow> trie \<Rightarrow> trie \<Rightarrow> trie option" where
  "t_MergeNodes c db nd node_large =
     (let sl = t_valid_len nd; ll = t_valid_len node_large; shifted = map (\<lambda>x. (x + sl) mod t_idx_mod c); PA = PTR_AREA c in
      if sl = 0 \<or> ll = 0 then None
      else do {
        kp \<leftarrow> copy_cells (t_key_ptr node_large) 0 (t_key_ptr nd) sl ll;
        bk \<leftarrow> copy_cells (t_blindiKeys node_large) 0 (t_blindiKeys nd) sl (ll - 1);
        lg \<leftarrow> copy_cells (shifted (large_ptr node_large)) 0 (large_ptr nd) sl (ll - 1);
        sm \<leftarrow> copy_cells (shifted (small_ptr node_large)) 0 (small_ptr nd) sl (ll - 1);
        let root_s = t_root nd;
        let root_l = t_root node_large + sl;
        trs \<leftarrow> put (replicate (T_SLOTS c) 0) 0 root_s;
        trl \<leftarrow> put (replicate (T_SLOTS c) 0) 0 root_l;
        (last_s, trs, _) \<leftarrow> t_bring_edge c lg root_s trs 1;
        (first_l, trl, _) \<leftarrow> t_bring_edge c sm root_l trl 1;
        ks \<leftarrow> get kp (last_s - PA);
        kl \<leftarrow> get kp (first_l - PA);
        (diff_pos, _, _) \<leftarrow> CompareStage (db ks) (db kl) False (T_KEY_LEN c) (T_KEY_LEN c);
        let diff_pos = diff_pos mod 65536;
        bk \<leftarrow> put bk (sl - 1) (diff_pos mod t_bitidx_mod c);
        cur_s \<leftarrow> get bk root_s;
        cur_l \<leftarrow> get bk root_l;
        let end_s = (sl = 1);
        let end_l = (ll = 1);
        let root = (if (end_s \<or> diff_pos < cur_s) \<and> (end_l \<or> diff_pos < cur_l) then sl - 1
                    else if end_l \<or> \<not> end_s \<and> cur_s < cur_l then root_s else root_l);
        ((sm, lg), i_s, i_l) \<leftarrow> t_merge_loop c bk diff_pos (sl - 1) trs trl (sm, lg) 0 0 end_s end_l cur_s cur_l;
        x \<leftarrow> get trs i_s;
        sm \<leftarrow> put sm (sl - 1) (x mod t_idx_mod c);
        y \<leftarrow> get trl i_l;
        lg \<leftarrow> put lg (sl - 1) (y mod t_idx_mod c);
        Some (nd \<lparr> t_key_ptr := kp, t_blindiKeys := bk, small_ptr := sm, large_ptr := lg, t_root := root mod t_idx_mod c,
          t_valid_len := (sl + ll) mod t_idx_mod c \<rparr>)
      })"

definition t_MergeBlindiNodes :: "tcfg \<Rightarrow> db \<Rightarrow> trie \<Rightarrow> trie \<Rightarrow> trie option" where
  "t_MergeBlindiNodes c db nd large_node =
     (if t_valid_len nd = 0 then t_CopyNode nd large_node
      else if t_valid_len large_node = 0 then Some nd
      else t_MergeNodes c db nd large_node)"

section \<open>Splitting\<close>

text \<open>
  \<^verbatim>\<open>fill_node_array\<close> copies a tree into a new node, its branchings and keys in the order of a walk from the root.
  \<open>f_nu\<close> counts the visits of a branching, \<open>f_newpos\<close> is its number in the new node.
\<close>

record fill =
  f_node :: trie
  f_newpos :: "nat list"
  f_nu :: "nat list"
  f_tr :: "nat list"
  f_len :: nat
  f_bcnt :: nat
  f_kcnt :: nat

definition set_side :: "bool \<Rightarrow> trie \<Rightarrow> nat \<Rightarrow> nat \<Rightarrow> trie option" where
  "set_side large nd i v =
     (if large then do { lg \<leftarrow> put (large_ptr nd) i v; Some (nd \<lparr> large_ptr := lg \<rparr>) }
      else do { sm \<leftarrow> put (small_ptr nd) i v; Some (nd \<lparr> small_ptr := sm \<rparr>) })"

definition fill_side :: "tcfg \<Rightarrow> trie \<Rightarrow> nat list \<Rightarrow> bool \<Rightarrow> nat \<Rightarrow> fill \<Rightarrow> fill option" where
  "fill_side c old ptrs large pos st =
     do {
       v \<leftarrow> get ptrs pos;
       (if v \<ge> PTR_AREA c then
          do {
            np \<leftarrow> get (f_newpos st) pos;
            nd \<leftarrow> set_side large (f_node st) np ((f_kcnt st + PTR_AREA c) mod t_idx_mod c);
            k \<leftarrow> get (t_key_ptr old) (v - PTR_AREA c);
            kp \<leftarrow> put (t_key_ptr nd) (f_kcnt st) k;
            Some (st \<lparr> f_node := nd \<lparr> t_key_ptr := kp \<rparr>, f_kcnt := f_kcnt st + 1 \<rparr>)
          }
        else do {
          tr \<leftarrow> put (f_tr st) (f_len st) v;
          b \<leftarrow> get (t_blindiKeys old) v;
          bk \<leftarrow> put (t_blindiKeys (f_node st)) (f_bcnt st) b;
          newpos \<leftarrow> put (f_newpos st) v (f_bcnt st);
          np \<leftarrow> get newpos pos;
          nd \<leftarrow> set_side large (f_node st \<lparr> t_blindiKeys := bk \<rparr>) np (f_bcnt st mod t_idx_mod c);
          Some (st \<lparr> f_node := nd, f_newpos := newpos, f_tr := tr, f_len := f_len st + 1, f_bcnt := f_bcnt st + 1 \<rparr>)
        })
     }"

definition fill_step :: "tcfg \<Rightarrow> trie \<Rightarrow> nat list \<Rightarrow> nat list \<Rightarrow> fill \<Rightarrow> fill option" where
  "fill_step c old sm lg st =
     (if f_len st = 0 then None
      else do {
        pos \<leftarrow> get (f_tr st) (f_len st - 1);
        k \<leftarrow> get (f_nu st) pos;
        (if k = 0 then do { nu \<leftarrow> put (f_nu st) pos 1; fill_side c old sm False pos (st \<lparr> f_nu := nu \<rparr>) }
         else if k = 1 then do { nu \<leftarrow> put (f_nu st) pos 2; fill_side c old lg True pos (st \<lparr> f_nu := nu \<rparr>) }
         else do {
           v \<leftarrow> get lg pos;
           tr \<leftarrow> put (f_tr st) (f_len st) v;
           Some (st \<lparr> f_tr := tr, f_len := f_len st - 1 \<rparr>)
         })
      })"

text \<open>The loop runs until half of the slots are filled. Every branching is visited three times at most, so \<open>4 * T_SLOTS\<close> steps are enough.\<close>

fun fill_loop :: "tcfg \<Rightarrow> trie \<Rightarrow> nat list \<Rightarrow> nat list \<Rightarrow> nat \<Rightarrow> fill \<Rightarrow> fill option" where
  "fill_loop c old sm lg fuel st =
     (if f_kcnt st < T_SLOTS c div 2 then
        (case fuel of 0 \<Rightarrow> None | Suc fuel \<Rightarrow> do { st \<leftarrow> fill_step c old sm lg st; fill_loop c old sm lg fuel st })
      else Some st)"

declare fill_loop.simps [simp del]

definition fill_node_array :: "tcfg \<Rightarrow> nat \<Rightarrow> nat list \<Rightarrow> nat list \<Rightarrow> trie \<Rightarrow> trie \<Rightarrow> trie option" where
  "fill_node_array c root sm lg old new =
     do {
       b \<leftarrow> get (t_blindiKeys old) root;
       bk \<leftarrow> put (t_blindiKeys new) 0 b;
       newpos \<leftarrow> put (replicate (T_SLOTS c - 1) 0) root 0;
       tr \<leftarrow> put (replicate (T_SLOTS c) 0) 0 root;
       st \<leftarrow> fill_loop c old sm lg (4 * T_SLOTS c) \<lparr> f_node = new \<lparr> t_root := 0, t_blindiKeys := bk \<rparr>, f_newpos = newpos,
         f_nu = replicate (T_SLOTS c - 1) 0, f_tr = tr, f_len = 1, f_bcnt = 1, f_kcnt = 0 \<rparr>;
       Some (f_node st)
     }"

text \<open>
  The loops that cut one side off a path: of the branchings of the path only those stay where it leaves to the side
  given by \<open>ptrs\<close>; they are linked to each other, and the last to the key. \<open>root\<close> is the branching the path starts with,
  \<open>stored\<close> says that one has stayed.
\<close>

fun split_spine :: "nat list \<Rightarrow> nat list \<Rightarrow> nat \<Rightarrow> nat \<Rightarrow> bool \<times> nat \<times> nat \<times> nat list \<Rightarrow> (bool \<times> nat \<times> nat \<times> nat list) option" where
  "split_spine ptrs tr i 0 st = Some st"
| "split_spine ptrs tr i (Suc n) (stored, root, pos, out) =
     do {
       a \<leftarrow> get tr i;
       b \<leftarrow> get tr (i + 1);
       x \<leftarrow> get ptrs a;
       (if x \<noteq> b then split_spine ptrs tr (i + 1) n (stored, root, pos, out)
        else if \<not> stored then split_spine ptrs tr (i + 1) n (True, a, a, out)
        else do { out \<leftarrow> put out pos a; split_spine ptrs tr (i + 1) n (True, root, a, out) })
     }"

definition cut_path :: "nat \<Rightarrow> nat list \<Rightarrow> nat list \<Rightarrow> nat \<Rightarrow> (nat \<times> nat list) option" where
  "cut_path root ptrs tr len =
     do {
       (_, root, pos, out) \<leftarrow> split_spine ptrs tr 0 (len - 1) (False, root, root, ptrs);
       x \<leftarrow> get tr (len - 1);
       out \<leftarrow> put out pos x;
       Some (root, out)
     }"

definition t_SplitBlindiNode :: "tcfg \<Rightarrow> trie \<Rightarrow> trie \<Rightarrow> trie \<Rightarrow> (trie \<times> trie) option" where
  "t_SplitBlindiNode c nd node_small node_large =
     do {
       tr0 \<leftarrow> put (replicate (T_SLOTS c) 0) 0 (t_root nd);
       (_, tr0, len) \<leftarrow> t_bring_smallest c nd (t_root nd) tr0 1;
       (trs, len_s) \<leftarrow> next_items c nd (T_SLOTS c div 2 - 1) tr0 len;
       (_, trl, len_l) \<leftarrow> t_bring_next_item c nd (take len_s trs @ replicate (T_SLOTS c - len_s) 0) len_s;
       (root_s, lg_s) \<leftarrow> cut_path (t_root nd) (large_ptr nd) trs len_s;
       (root_l, sm_l) \<leftarrow> cut_path (t_root nd) (small_ptr nd) trl len_l;
       node_small \<leftarrow> fill_node_array c root_s (small_ptr nd) lg_s nd node_small;
       node_large \<leftarrow> fill_node_array c root_l sm_l (large_ptr nd) nd node_large;
       Some (node_small \<lparr> t_valid_len := T_SLOTS c div 2 \<rparr>, node_large \<lparr> t_valid_len := T_SLOTS c div 2 \<rparr>)
     }"

end
