(* ===== verification/Trie_Merge.thy ===== *)
theory Trie_Merge
  imports Trie_Weave Trie_Nodes Trie_Map
begin

text \<open>
  The merge of two trie leaves: the loop of \<^verbatim>\<open>MergeBlindiNodes\<close> weaves the two paths in the arrays.
\<close>

section \<open>The loop\<close>

lemma root_val_step [simp]: "root_val PA (plug (x # c) t) = fst x"
  by (cases x) auto

lemma ctx_val_step [simp]: "ctx_val v (x # c) = fst x"
  by (cases x) auto

lemma weave_head:
  assumes "weave bk d cs cl = (m, a, b)"
  shows "ctx_val new m = (if woven bk d cs cl then new else if takes_small bk cs cl then root_val PA (plug cs u) else root_val PA (plug cl w))"
  by (cases rule: weave_cases [of bk d cs cl]) (use assms in auto)

text \<open>One step of the path is done: its pointer is set to the next value.\<close>

lemma shape_advance:
  fixes v :: nat
  assumes "shape_ctx PA sm lg i M" "shape PA sm lg (plug ((i, b, s) # c2) u)" "i \<notin># ctx_branches M + branches_of s + branches_of (plug c2 u)"
  defines "sm' \<equiv> if b then sm else sm[i := v]" and "lg' \<equiv> if b then lg[i := v] else lg"
  shows "shape_ctx PA sm' lg' v (M @ [(i, b, s)])" "shape PA sm' lg' (plug c2 u)" "length sm' = length sm" "length lg' = length lg"
    "\<And>t. shape PA sm lg t \<Longrightarrow> i \<notin># branches_of t \<Longrightarrow> shape PA sm' lg' t"
proof -
  have same: "sm' ! j = sm ! j \<and> lg' ! j = lg ! j" if "j \<noteq> i" for j using that by (simp add: sm'_def lg'_def)
  show len: "length sm' = length sm" "length lg' = length lg" by (simp_all add: sm'_def lg'_def)
  show t: "shape PA sm' lg' t" if "shape PA sm lg t" "i \<notin># branches_of t" for t
    by (rule shape_cong [OF that(1) len]) (intro ballI same, use that(2) in auto)
  have sh: "i < PA" "i < length sm" "i < length lg" "(if b then sm else lg) ! i = root_val PA s" "shape PA sm lg s" "shape PA sm lg (plug c2 u)"
    using assms(2) by (auto split: if_splits)
  show "shape PA sm' lg' (plug c2 u)" using t sh(6) assms(3) by simp
  have "shape_ctx PA sm' lg' i M" by (rule shape_ctx_cong [OF assms(1) len]) (intro ballI same, use assms(3) in auto)
  moreover have "(if b then lg' else sm') ! i = v" "(if b then sm' else lg') ! i = root_val PA s"
    using sh(2-4) by (auto simp: sm'_def lg'_def)
  ultimately show "shape_ctx PA sm' lg' v (M @ [(i, b, s)])" using sh(1-3,5) assms(3) t len by (simp add: shape_ctx_append)
qed

definition no_tie :: "(nat \<Rightarrow> nat) \<Rightarrow> nat \<Rightarrow> step list \<Rightarrow> step list \<Rightarrow> bool" where
  "no_tie bk d cs cl \<longleftrightarrow> (\<forall>x \<in> set cs. \<forall>y \<in> set cl. bk (fst x) = bk (fst y) \<longrightarrow> d < bk (fst x))"

lemma no_tie_sub: "no_tie bk d cs cl \<Longrightarrow> set cs' \<subseteq> set cs \<Longrightarrow> set cl' \<subseteq> set cl \<Longrightarrow> no_tie bk d cs' cl'"
  unfolding no_tie_def by blast

text \<open>What the head of the loop knows.\<close>

definition at_step :: "tcfg \<Rightarrow> nat list \<Rightarrow> nat list \<Rightarrow> nat list \<Rightarrow> nat list \<Rightarrow> nat list \<Rightarrow> step list \<Rightarrow> nat \<Rightarrow> bool \<Rightarrow> nat \<Rightarrow> bool" where
  "at_step c bk tr us sm lg cs p end_s cur_s \<longleftrightarrow> path_in tr (us @ vals (PTR_AREA c) cs (Lf p)) \<and> shape (PTR_AREA c) sm lg (plug cs (Lf p))
     \<and> end_s = (cs = []) \<and> (cs \<noteq> [] \<longrightarrow> cur_s = bk ! fst (hd cs)) \<and> (\<forall>x \<in> set cs. fst x < length bk) \<and> p < PTR_AREA c"

lemma root_val_bound: "shape PA sm lg (plug cs (Lf p)) \<Longrightarrow> p < PA \<Longrightarrow> root_val PA (plug cs (Lf p)) < 2 * PA"
proof (cases cs)
  case (Cons x c2)
  then show "shape PA sm lg (plug cs (Lf p)) \<Longrightarrow> root_val PA (plug cs (Lf p)) < 2 * PA" by (cases x) (auto split: if_splits)
qed simp

lemma at_stepD:
  assumes "at_step c bk tr us sm lg cs p e cur"
  shows "get tr (length us) = Some (root_val (PTR_AREA c) (plug cs (Lf p)))" "shape (PTR_AREA c) sm lg (plug cs (Lf p))" "e = (cs = [])"
    "cs \<noteq> [] \<Longrightarrow> cur = bk ! fst (hd cs)" "root_val (PTR_AREA c) (plug cs (Lf p)) < 2 * PTR_AREA c"
proof -
  have p: "path_in tr (us @ vals (PTR_AREA c) cs (Lf p))" and s: "shape (PTR_AREA c) sm lg (plug cs (Lf p))" using assms by (simp_all add: at_step_def)
  obtain vs where "vals (PTR_AREA c) cs (Lf p) = root_val (PTR_AREA c) (plug cs (Lf p)) # vs" using vals_hd by blast
  then show "get tr (length us) = Some (root_val (PTR_AREA c) (plug cs (Lf p)))" using path_get [OF p, of "length us"] by simp
  show "shape (PTR_AREA c) sm lg (plug cs (Lf p))" "e = (cs = [])" "cs \<noteq> [] \<Longrightarrow> cur = bk ! fst (hd cs)" using assms by (simp_all add: at_step_def)
  show "root_val (PTR_AREA c) (plug cs (Lf p)) < 2 * PTR_AREA c" by (rule root_val_bound [OF s]) (use assms in \<open>simp add: at_step_def\<close>)
qed

lemma at_step_next:
  assumes "at_step c bk tr us sm lg ((i, b, s) # c2) p e cur"
  shows "get tr (Suc (length us)) = Some (root_val (PTR_AREA c) (plug c2 (Lf p)))" "PTR_AREA c \<le> root_val (PTR_AREA c) (plug c2 (Lf p)) \<longleftrightarrow> c2 = []"
    "get tr (length us) = Some i" "c2 \<noteq> [] \<Longrightarrow> get bk (root_val (PTR_AREA c) (plug c2 (Lf p))) = Some (bk ! fst (hd c2))"
    "shape (PTR_AREA c) sm' lg' (plug c2 (Lf p)) \<Longrightarrow> at_step c bk tr (us @ [i]) sm' lg' c2 p (c2 = []) (if c2 = [] then cur else bk ! fst (hd c2))"
    "i < PTR_AREA c" "i < length sm" "i < length lg"
proof -
  have p: "path_in tr ((us @ [i]) @ vals (PTR_AREA c) c2 (Lf p))" "shape (PTR_AREA c) sm lg (plug ((i, b, s) # c2) (Lf p))" "\<forall>x \<in> set c2. fst x < length bk"
    using assms by (simp_all add: at_step_def)
  obtain vs where v: "vals (PTR_AREA c) c2 (Lf p) = root_val (PTR_AREA c) (plug c2 (Lf p)) # vs" using vals_hd by blast
  then show "get tr (Suc (length us)) = Some (root_val (PTR_AREA c) (plug c2 (Lf p)))" "get tr (length us) = Some i"
    using path_get [OF p(1), of "Suc (length us)"] path_get [OF p(1), of "length us"] by (simp_all add: nth_append)
  show "i < PTR_AREA c" "i < length sm" "i < length lg" using p(2) by (auto split: if_splits)
  show "PTR_AREA c \<le> root_val (PTR_AREA c) (plug c2 (Lf p)) \<longleftrightarrow> c2 = []"
  proof (cases c2)
    case (Cons x c3)
    then show ?thesis using p(2) by (cases x) (auto split: if_splits)
  qed simp
  show "c2 \<noteq> [] \<Longrightarrow> get bk (root_val (PTR_AREA c) (plug c2 (Lf p))) = Some (bk ! fst (hd c2))" using p(3) by (cases c2) auto
  show "shape (PTR_AREA c) sm' lg' (plug c2 (Lf p)) \<Longrightarrow> at_step c bk tr (us @ [i]) sm' lg' c2 p (c2 = []) (if c2 = [] then cur else bk ! fst (hd c2))"
    using p(1,3) assms by (simp add: at_step_def)
qed

lemma at_step_cong: "at_step c bk tr us sm lg cs p e cur \<Longrightarrow> shape (PTR_AREA c) sm' lg' (plug cs (Lf p)) \<Longrightarrow> at_step c bk tr us sm' lg' cs p e cur"
  by (simp add: at_step_def)

lemma step_unique:
  assumes "\<And>x. count (T :: nat multiset) x \<le> 1" "T = add_mset i R"
  shows "i \<notin># R"
proof -
  have "count R i = 0" using assms(1) [of i] by (simp add: assms(2))
  then show ?thesis by (simp add: not_in_iff)
qed

text \<open>The two steps of the loop.\<close>

lemma merge_step_small:
  assumes "tcfg_ok c" "\<not> woven (\<lambda>i. bk ! i) d ((i, True, s) # cs2) cl" "takes_small (\<lambda>i. bk ! i) ((i, True, s) # cs2) cl"
    "weave (\<lambda>i. bk ! i) d cs2 cl = (m, a, b)" "no_tie (\<lambda>i. bk ! i) d cs2 cl"
    "at_step c bk trs us sm lg ((i, True, s) # cs2) p end_s cur_s" "at_step c bk trl ws sm lg cl q end_l cur_l"
  shows "t_merge_loop c bk d new trs trl (sm, lg) (length us) (length ws) end_s end_l cur_s cur_l
      = t_merge_loop c bk d new trs trl (sm, lg[i := ctx_val new m]) (length (us @ [i])) (length ws) (cs2 = []) end_l
          (if cs2 = [] then cur_s else bk ! fst (hd cs2)) cur_l"
proof -
  let ?bk = "\<lambda>i. bk ! i" and ?cur = "if cs2 = [] then cur_s else bk ! fst (hd cs2)" and ?PA = "PTR_AREA c"
  note S = at_stepD [OF assms(6)] and L = at_stepD [OF assms(7)] and nx = at_step_next [OF assms(6)]
  have idx: "t_idx_mod c = 2 * ?PA" using tcfg_okD [OF assms(1)] by simp
  have hd: "\<not> end_s" "cur_s = bk ! i" "end_l = (cl = [])" "cl \<noteq> [] \<Longrightarrow> cur_l = bk ! fst (hd cl)" using S(3,4) L(3,4) by simp_all
  have c0: "\<not> ((end_s \<or> d < cur_s) \<and> (end_l \<or> d < cur_l))" "end_l \<or> \<not> end_s \<and> cur_s < cur_l"
    using assms(2,3) hd by (auto simp: woven_def takes_small_def)
  have c1: "woven ?bk d cs2 cl \<longleftrightarrow> (cs2 = [] \<or> d < ?cur) \<and> (end_l \<or> d < cur_l)" using hd by (auto simp: woven_def)
  have lgi: "lg ! i = root_val ?PA (plug cs2 (Lf p))" using S(2) by simp
  note wh = weave_head [OF assms(4), of new ?PA "Lf p" "Lf q"]
  have unf: "t_merge_loop c bk d new trs trl (sm, lg) (length us) (length ws) end_s end_l cur_s cur_l
    = (if (cs2 = [] \<or> d < ?cur) \<and> (end_l \<or> d < cur_l) then Some ((sm, lg[i := new]), length us + 1, length ws)
       else do {
         lg \<leftarrow> (if cs2 = [] \<or> \<not> end_l \<and> ?cur > cur_l then Some (lg[i := root_val ?PA (plug cl (Lf q))]) else Some lg);
         t_merge_loop c bk d new trs trl (sm, lg) (length us + 1) (length ws) (cs2 = []) end_l ?cur cur_l
       })"
    by (subst t_merge_loop.simps, unfold if_not_P [OF c0(1)] if_P [OF c0(2)]) (use hd(1) nx(1-4,8) L(1,5) idx in \<open>cases "cs2 = []"; simp\<close>)
  show ?thesis
  proof (cases "woven ?bk d cs2 cl")
    case True
    then have "ctx_val new m = new" using wh by simp
    then show ?thesis using unf c1 True by (subst (2) t_merge_loop.simps) simp
  next
    case False
    then have nw: "\<not> ((cs2 = [] \<or> d < ?cur) \<and> (end_l \<or> d < cur_l))" using c1 by blast
    show ?thesis
    proof (cases "cs2 = [] \<or> \<not> end_l \<and> ?cur > cur_l")
      case True
      then have "\<not> takes_small ?bk cs2 cl" using nw hd(3,4) by (auto simp: takes_small_def)
      then show ?thesis using unf nw True wh False by simp
    next
      case f: False
      then have "cl \<noteq> [] \<Longrightarrow> ?bk (fst (hd cs2)) \<noteq> ?bk (fst (hd cl))"
        using assms(5) nw hd unfolding no_tie_def by (metis (mono_tags, lifting) list.set_sel(1))
      then have "takes_small ?bk cs2 cl" using f hd(3,4) by (auto simp: takes_small_def)
      then have "lg[i := ctx_val new m] = lg" using wh False lgi by (metis list_update_id)
      then show ?thesis using unf nw f by simp
    qed
  qed
qed

lemma merge_step_large:
  assumes "tcfg_ok c" "\<not> woven (\<lambda>i. bk ! i) d cs ((i, False, s) # cl2)" "\<not> takes_small (\<lambda>i. bk ! i) cs ((i, False, s) # cl2)"
    "weave (\<lambda>i. bk ! i) d cs cl2 = (m, a, b)" "no_tie (\<lambda>i. bk ! i) d cs cl2"
    "at_step c bk trs us sm lg cs p end_s cur_s" "at_step c bk trl ws sm lg ((i, False, s) # cl2) q end_l cur_l"
  shows "t_merge_loop c bk d new trs trl (sm, lg) (length us) (length ws) end_s end_l cur_s cur_l
      = t_merge_loop c bk d new trs trl (sm[i := ctx_val new m], lg) (length us) (length (ws @ [i])) end_s (cl2 = []) cur_s
          (if cl2 = [] then cur_l else bk ! fst (hd cl2))"
proof -
  let ?bk = "\<lambda>i. bk ! i" and ?cur = "if cl2 = [] then cur_l else bk ! fst (hd cl2)" and ?PA = "PTR_AREA c"
  note S = at_stepD [OF assms(6)] and L = at_stepD [OF assms(7)] and nx = at_step_next [OF assms(7)]
  have idx: "t_idx_mod c = 2 * ?PA" using tcfg_okD [OF assms(1)] by simp
  have hd: "\<not> end_l" "cur_l = bk ! i" "end_s = (cs = [])" "cs \<noteq> [] \<Longrightarrow> cur_s = bk ! fst (hd cs)" using S(3,4) L(3,4) by simp_all
  have c0: "\<not> ((end_s \<or> d < cur_s) \<and> (end_l \<or> d < cur_l))" "\<not> (end_l \<or> \<not> end_s \<and> cur_s < cur_l)"
    using assms(2,3) hd by (auto simp: woven_def takes_small_def)
  have c1: "woven ?bk d cs cl2 \<longleftrightarrow> (end_s \<or> d < cur_s) \<and> (cl2 = [] \<or> d < ?cur)" using hd by (auto simp: woven_def)
  have smi: "sm ! i = root_val ?PA (plug cl2 (Lf q))" using L(2) by simp
  note wh = weave_head [OF assms(4), of new ?PA "Lf p" "Lf q"]
  have unf: "t_merge_loop c bk d new trs trl (sm, lg) (length us) (length ws) end_s end_l cur_s cur_l
    = (if (end_s \<or> d < cur_s) \<and> (cl2 = [] \<or> d < ?cur) then Some ((sm[i := new], lg), length us, length ws + 1)
       else do {
         sm \<leftarrow> (if cl2 = [] \<or> \<not> end_s \<and> ?cur > cur_s then Some (sm[i := root_val ?PA (plug cs (Lf p))]) else Some sm);
         t_merge_loop c bk d new trs trl (sm, lg) (length us) (length ws + 1) end_s (cl2 = []) cur_s ?cur
       })"
    by (subst t_merge_loop.simps, unfold if_not_P [OF c0(1)] if_not_P [OF c0(2)]) (use hd(1) nx(1-4,7) S(1,5) idx in \<open>cases "cl2 = []"; simp\<close>)
  show ?thesis
  proof (cases "woven ?bk d cs cl2")
    case True
    then have "ctx_val new m = new" using wh by simp
    then show ?thesis using unf c1 True by (subst (2) t_merge_loop.simps) simp
  next
    case False
    then have nw: "\<not> ((end_s \<or> d < cur_s) \<and> (cl2 = [] \<or> d < ?cur))" using c1 by blast
    show ?thesis
    proof (cases "cl2 = [] \<or> \<not> end_s \<and> ?cur > cur_s")
      case True
      then have "takes_small ?bk cs cl2" using nw hd(3,4) by (auto simp: takes_small_def)
      then show ?thesis using unf nw True wh False by simp
    next
      case f: False
      then have "\<not> takes_small ?bk cs cl2" using hd(3,4) by (auto simp: takes_small_def)
      then have "sm[i := ctx_val new m] = sm" using wh False smi by (metis list_update_id)
      then show ?thesis using unf nw f by simp
    qed
  qed
qed

text \<open>The loop weaves the rest of the two paths, with \<open>M\<close> behind it.\<close>

lemma merge_loop_spec:
  assumes "tcfg_ok c" "weave (\<lambda>i. bk ! i) d cs cl = (m, a, b)" "no_tie (\<lambda>i. bk ! i) d cs cl"
    and "at_step c bk trs us sm lg cs p end_s cur_s" "at_step c bk trl ws sm lg cl q end_l cur_l"
    and "\<forall>(i, large, s) \<in> set cs. large" "\<forall>(i, large, s) \<in> set cl. \<not> large"
    and "shape_ctx (PTR_AREA c) sm lg (ctx_val new m) M" "\<And>x. count (ctx_branches M + ctx_branches cs + ctx_branches cl) x \<le> 1"
  shows "\<exists>sm' lg'. t_merge_loop c bk d new trs trl (sm, lg) (length us) (length ws) end_s end_l cur_s cur_l
      = Some ((sm', lg'), length us + (length cs - length a), length ws + (length cl - length b))
    \<and> length sm' = length sm \<and> length lg' = length lg \<and> shape (PTR_AREA c) sm' lg' (plug a (Lf p))
    \<and> shape (PTR_AREA c) sm' lg' (plug b (Lf q)) \<and> shape_ctx (PTR_AREA c) sm' lg' new (M @ m)"
  using assms(2-)
proof (induction "length cs + length cl" arbitrary: cs cl m a b us ws sm lg end_s end_l cur_s cur_l M rule: less_induct)
  case less
  let ?PA = "PTR_AREA c" and ?bk = "\<lambda>i. bk ! i"
  note S = at_stepD [OF less.prems(3)] and L = at_stepD [OF less.prems(4)]
  show ?case
  proof (cases rule: weave_cases [of ?bk d cs cl])
    case fin
    have "(end_s \<or> d < cur_s) \<and> (end_l \<or> d < cur_l)" using fin(1) S(3,4) L(3,4) by (auto simp: woven_def)
    then show ?thesis using fin(2) less.prems(1,7) S(2) L(2) by (subst t_merge_loop.simps) auto
  next
    case (small x cs2 m' a' b')
    obtain i large s where x: "x = (i, True, s)" using less.prems(5) small(3) by (cases x) auto
    have e: "m = (i, True, s) # m'" "a = a'" "b = b'" using less.prems(1) small(5) x by simp_all
    have cs: "cs = (i, True, s) # cs2" using small(3) x by simp
    let ?lg = "lg[i := ctx_val new m']"
    have u: "i \<notin># ctx_branches M + branches_of s + ctx_branches cs2 + ctx_branches cl"
      by (rule step_unique [OF less.prems(8)]) (simp add: cs)
    have M: "shape_ctx ?PA sm lg i M" using less.prems(7) e(1) by simp
    note adv = shape_advance [where v = "ctx_val new m'", OF M S(2) [unfolded cs], unfolded if_True]
    have uc: "i \<notin># ctx_branches M + branches_of s + branches_of (plug cs2 (Lf p))" "i \<notin># branches_of (plug cl (Lf q))"
      using u by (simp_all add: branches_plug)
    have nt: "no_tie ?bk d cs2 cl" by (rule no_tie_sub [OF less.prems(2)]) (auto simp: cs)
    note st = merge_step_small [OF assms(1) small(1,2) [unfolded small(3) x] small(4) nt less.prems(3) [unfolded cs] less.prems(4), of new]
    have "\<exists>sm' lg'. t_merge_loop c bk d new trs trl (sm, ?lg) (length (us @ [i])) (length ws) (cs2 = []) end_l
          (if cs2 = [] then cur_s else bk ! fst (hd cs2)) cur_l
        = Some ((sm', lg'), length (us @ [i]) + (length cs2 - length a'), length ws + (length cl - length b'))
      \<and> length sm' = length sm \<and> length lg' = length ?lg \<and> shape ?PA sm' lg' (plug a' (Lf p))
      \<and> shape ?PA sm' lg' (plug b' (Lf q)) \<and> shape_ctx ?PA sm' lg' new ((M @ [(i, True, s)]) @ m')"
    proof (rule less.hyps [OF _ small(4) nt])
      show "at_step c bk trs (us @ [i]) sm ?lg cs2 p (cs2 = []) (if cs2 = [] then cur_s else bk ! fst (hd cs2))"
        using at_step_next(5) [OF less.prems(3) [unfolded cs]] adv(2) [OF uc(1)] by blast
      show "at_step c bk trl ws sm ?lg cl q end_l cur_l" by (rule at_step_cong [OF less.prems(4) adv(5) [OF uc(1) L(2) uc(2)]])
      show "shape_ctx ?PA sm ?lg (ctx_val new m') (M @ [(i, True, s)])" by (rule adv(1) [OF uc(1)])
      show "count (ctx_branches (M @ [(i, True, s)]) + ctx_branches cs2 + ctx_branches cl) y \<le> 1" for y
        using less.prems(8) [of y] by (simp add: cs ac_simps)
    qed (use less.prems(5,6) cs in auto)
    moreover have "length a' \<le> length cs2" using weave_parts [OF small(4)] by simp
    ultimately show ?thesis using st unfolding cs e by (simp add: Suc_diff_le)
  next
    case (large x cl2 m' a' b')
    obtain i l s where x: "x = (i, False, s)" using less.prems(6) large(3) by (cases x) auto
    have e: "m = (i, False, s) # m'" "a = a'" "b = b'" using less.prems(1) large(5) x by simp_all
    have cl: "cl = (i, False, s) # cl2" using large(3) x by simp
    let ?sm = "sm[i := ctx_val new m']"
    have u: "i \<notin># ctx_branches M + branches_of s + ctx_branches cl2 + ctx_branches cs"
      by (rule step_unique [OF less.prems(8)]) (simp add: cl ac_simps)
    have M: "shape_ctx ?PA sm lg i M" using less.prems(7) e(1) by simp
    note adv = shape_advance [where v = "ctx_val new m'", OF M L(2) [unfolded cl], unfolded if_False]
    have uc: "i \<notin># ctx_branches M + branches_of s + branches_of (plug cl2 (Lf q))" "i \<notin># branches_of (plug cs (Lf p))"
      using u by (simp_all add: branches_plug)
    have nt: "no_tie ?bk d cs cl2" by (rule no_tie_sub [OF less.prems(2)]) (auto simp: cl)
    note st = merge_step_large [OF assms(1) large(1,2) [unfolded large(3) x] large(4) nt less.prems(3) less.prems(4) [unfolded cl], of new]
    have "\<exists>sm' lg'. t_merge_loop c bk d new trs trl (?sm, lg) (length us) (length (ws @ [i])) end_s (cl2 = []) cur_s
          (if cl2 = [] then cur_l else bk ! fst (hd cl2))
        = Some ((sm', lg'), length us + (length cs - length a'), length (ws @ [i]) + (length cl2 - length b'))
      \<and> length sm' = length ?sm \<and> length lg' = length lg \<and> shape ?PA sm' lg' (plug a' (Lf p))
      \<and> shape ?PA sm' lg' (plug b' (Lf q)) \<and> shape_ctx ?PA sm' lg' new ((M @ [(i, False, s)]) @ m')"
    proof (rule less.hyps [OF _ large(4) nt])
      show "at_step c bk trl (ws @ [i]) ?sm lg cl2 q (cl2 = []) (if cl2 = [] then cur_l else bk ! fst (hd cl2))"
        using at_step_next(5) [OF less.prems(4) [unfolded cl]] adv(2) [OF uc(1)] by blast
      show "at_step c bk trs us ?sm lg cs p end_s cur_s" by (rule at_step_cong [OF less.prems(3) adv(5) [OF uc(1) S(2) uc(2)]])
      show "shape_ctx ?PA ?sm lg (ctx_val new m') (M @ [(i, False, s)])" by (rule adv(1) [OF uc(1)])
      show "count (ctx_branches (M @ [(i, False, s)]) + ctx_branches cs + ctx_branches cl2) y \<le> 1" for y
        using less.prems(8) [of y] by (simp add: cl ac_simps)
    qed (use less.prems(5,6) cl in auto)
    moreover have "length b' \<le> length cl2" using weave_parts [OF large(4)] by simp
    ultimately show ?thesis using st unfolding cl e by (simp add: Suc_diff_le)
  qed
qed

section \<open>The merge\<close>

text \<open>What \<^verbatim>\<open>copy_cells\<close> leaves: \<open>n\<close> cells of an array in the place of those from \<open>j\<close> on.\<close>

definition paste :: "nat \<Rightarrow> 'a list \<Rightarrow> nat \<Rightarrow> 'a list \<Rightarrow> 'a list" where
  "paste j dst n src = take j dst @ take n src @ drop (j + n) dst"

lemma copy_paste: "n \<le> length src \<Longrightarrow> j + n \<le> length dst \<Longrightarrow> copy_cells src 0 dst j n = Some (paste j dst n src)"
  by (simp add: copy_cells_spec paste_def)

lemma paste_nth:
  assumes "n \<le> length src" "j + n \<le> length dst"
  shows "paste j dst n src ! k = (if j \<le> k \<and> k < j + n then src ! (k - j) else dst ! k)" "length (paste j dst n src) = length dst"
proof -
  show "length (paste j dst n src) = length dst" using assms by (simp add: paste_def)
  consider "k < j" | "j \<le> k" "k < j + n" | "j + n \<le> k" by linarith
  then show "paste j dst n src ! k = (if j \<le> k \<and> k < j + n then src ! (k - j) else dst ! k)"
  proof cases
    case 2
    then have "k - j < n" by simp
    then show ?thesis using 2 assms by (simp add: nth_append paste_def)
  next
    case 3
    then have "\<not> k - j < n" "j + n + (k - j - n) = k" by simp_all
    then show ?thesis using 3 assms by (simp add: nth_append paste_def)
  qed (use assms in \<open>simp add: nth_append paste_def\<close>)
qed

lemma mset_upt_shift: "mset [0..<n] + image_mset (\<lambda>i. i + n) (mset [0..<k]) = mset [0..<n + k]"
proof -
  have "image_mset (\<lambda>i. i + n) (mset [0..<k]) = mset (map (\<lambda>i. i + n) [0..<k])" by (simp only: mset_map)
  also have "map (\<lambda>i. i + n) [0..<k] = [n..<n + k]" by (simp add: map_add_upt ac_simps)
  finally show ?thesis using upt_add_eq_append [of 0 n k] by (simp only: mset_append [symmetric] zero_le)
qed

text \<open>The pointers of a node are below \<open>PTR_AREA\<close> plus its number of keys.\<close>

lemma pointer_bound:
  assumes "trie_repr c db nd t" "j \<in># branches_of t" "tcfg_ok c"
  shows "small_ptr nd ! j < PTR_AREA c + t_valid_len nd" "large_ptr nd ! j < PTR_AREA c + t_valid_len nd"
proof -
  note r = trie_reprD [OF assms(1)]
  have "v < PTR_AREA c + t_valid_len nd" if "v \<in># places (PTR_AREA c) t" for v
    using that r(12) shape_branch [OF r(8)] unfolding places_def by (auto simp: trans_less_add1)
  moreover have "x \<in># places (PTR_AREA c) t" if "x \<in># cells (small_ptr nd) (large_ptr nd) t" for x
    using that cells_places [OF r(8)] by (metis insert_iff set_mset_add_mset_insert)
  ultimately show "small_ptr nd ! j < PTR_AREA c + t_valid_len nd" "large_ptr nd ! j < PTR_AREA c + t_valid_len nd"
    using cell_in [OF assms(2)] by blast+
qed

text \<open>The second node behind the first: its tree with all numbers shifted.\<close>

lemma shifted_tree:
  fixes n :: nat
  assumes "trie_repr c db nd t" "tcfg_ok c" "n + t_valid_len nd \<le> T_SLOTS c" "length sm0 = T_SLOTS c - 1" "length lg0 = T_SLOTS c - 1"
  defines "k \<equiv> t_valid_len nd - 1" and "shift \<equiv> map (\<lambda>x. (x + n) mod t_idx_mod c)"
  defines "sm \<equiv> paste n sm0 k (shift (small_ptr nd))" and "lg \<equiv> paste n lg0 k (shift (large_ptr nd))"
  shows "shape (PTR_AREA c) sm lg (rename (\<lambda>p. p + n) (\<lambda>i. i + n) t)" "root_val (PTR_AREA c) (rename (\<lambda>p. p + n) (\<lambda>i. i + n) t) = t_root nd + n"
proof -
  let ?PA = "PTR_AREA c"
  note r = trie_reprD [OF assms(1)] and g = tcfg_okD [OF assms(2)]
  have len: "length (shift (small_ptr nd)) = T_SLOTS c - 1" "length (shift (large_ptr nd)) = T_SLOTS c - 1" using r(4,5) by (simp_all add: shift_def)
  have k: "k \<le> T_SLOTS c - 1" "n + k \<le> T_SLOTS c - 1" using assms(3) r(1) by (simp_all add: k_def)
  have cell: "j + n < ?PA \<and> j + n < length sm \<and> j + n < length lg \<and> sm ! (j + n) = small_ptr nd ! j + n \<and> lg ! (j + n) = large_ptr nd ! j + n"
    if j: "j \<in># branches_of t" for j
  proof -
    have jk: "j < k" using r(9) j by (simp add: k_def)
    have b: "small_ptr nd ! j + n < t_idx_mod c" "large_ptr nd ! j + n < t_idx_mod c"
      using pointer_bound [OF assms(1) j assms(2)] assms(3) g(1,2) by linarith+
    have "sm ! (j + n) = shift (small_ptr nd) ! j" "lg ! (j + n) = shift (large_ptr nd) ! j" "length sm = T_SLOTS c - 1" "length lg = T_SLOTS c - 1"
      using paste_nth(1) [of k "shift (small_ptr nd)" n sm0 "j + n"] paste_nth(1) [of k "shift (large_ptr nd)" n lg0 "j + n"]
        paste_nth(2) [of k "shift (small_ptr nd)" n sm0] paste_nth(2) [of k "shift (large_ptr nd)" n lg0] len k assms(4,5) jk
      unfolding sm_def lg_def by simp_all
    moreover have "j < length (small_ptr nd)" "j < length (large_ptr nd)" using jk k r(4,5) by simp_all
    ultimately show ?thesis using b jk k g(1) by (simp add: shift_def)
  qed
  have "shape ?PA sm lg (rename (\<lambda>p. p + n) (\<lambda>i. i + n) t) \<and> root_val ?PA (rename (\<lambda>p. p + n) (\<lambda>i. i + n) t) = root_val ?PA t + n"
    by (rule shape_rename [OF r(8), where h = "\<lambda>v. v + n"]) (use cell in auto)
  then show "shape ?PA sm lg (rename (\<lambda>p. p + n) (\<lambda>i. i + n) t)" "root_val ?PA (rename (\<lambda>p. p + n) (\<lambda>i. i + n) t) = t_root nd + n"
    using r(7) by simp_all
qed

text \<open>Joining what is left of the two trees below the new branching.\<close>

lemma shape_join:
  assumes "shape PA sm lg u" "shape PA sm lg w" "shape_ctx PA sm lg new m" "new \<notin># branches_of u + branches_of w + ctx_branches m"
    "new < PA" "new < length sm" "new < length lg"
  shows "shape PA (sm[new := root_val PA u]) (lg[new := root_val PA w]) (plug m (Br new u w))"
proof -
  have "shape_ctx PA (sm[new := x]) (lg[new := y]) new m" for x y
    by (rule shape_ctx_cong [OF assms(3)]) (use assms(4) in \<open>auto intro!: nth_list_update_neq\<close>)
  then show ?thesis using assms shape_update [of PA sm lg _ new] by (simp add: shape_plug)
qed

definition shift_tree :: "nat \<Rightarrow> ptree \<Rightarrow> ptree" where
  "shift_tree n t = rename (\<lambda>p. p + n) (\<lambda>i. i + n) t"

text \<open>Both trees are blind for the keys of the joined node, whatever bit the new branching has.\<close>

lemma joined_blind:
  fixes nd lg :: trie and d :: nat
  defines "n \<equiv> t_valid_len nd" and "k \<equiv> t_valid_len lg"
  assumes "trie_repr c db nd t" "trie_repr c db lg u" "n + k \<le> T_SLOTS c"
  defines "kp \<equiv> paste n (t_key_ptr nd) k (t_key_ptr lg)"
    and "bk \<equiv> (paste n (t_blindiKeys nd) (k - 1) (t_blindiKeys lg))[n - 1 := d]"
  shows "\<And>p. p < n \<Longrightarrow> kp ! p = t_key_ptr nd ! p" "\<And>p. p < k \<Longrightarrow> kp ! (p + n) = t_key_ptr lg ! p"
    "bl.blind (T_KEY_LEN c) (\<lambda>p. db (kp ! p)) (\<lambda>i. bk ! i) t" "bl.blind (T_KEY_LEN c) (\<lambda>p. db (kp ! p)) (\<lambda>i. bk ! i) (shift_tree n u)"
    "length kp = T_SLOTS c" "length bk = T_SLOTS c - 1" "bk ! (n - 1) = d" "take (n + k) kp = trie_ptrs nd @ trie_ptrs lg"
proof -
  note r = trie_reprD [OF assms(3), folded n_def] and q = trie_reprD [OF assms(4), folded k_def]
  have len: "k \<le> length (t_key_ptr lg)" "n + k \<le> length (t_key_ptr nd)" "k - 1 \<le> length (t_blindiKeys lg)" "n + (k - 1) \<le> length (t_blindiKeys nd)"
    using assms(5) r(1,3,6) q(1-3,6) by simp_all
  show k1: "kp ! p = t_key_ptr nd ! p" if "p < n" for p using paste_nth(1) [OF len(1,2), of p] that by (simp add: kp_def)
  show k2: "kp ! (p + n) = t_key_ptr lg ! p" if "p < k" for p using paste_nth(1) [OF len(1,2), of "p + n"] that by (simp add: kp_def)
  show "length kp = T_SLOTS c" using paste_nth(2) [OF len(1,2)] r(6) by (simp add: kp_def)
  show "length bk = T_SLOTS c - 1" using paste_nth(2) [OF len(3,4)] r(3) by (simp add: bk_def)
  have lb: "n - 1 < length (paste n (t_blindiKeys nd) (k - 1) (t_blindiKeys lg))"
    using paste_nth(2) [OF len(3,4)] r(1,3) q(1) assms(5) by simp
  then show "bk ! (n - 1) = d" by (simp add: bk_def)
  have b1: "bk ! i = t_blindiKeys nd ! i" if "i < n - 1" for i using paste_nth(1) [OF len(3,4), of i] that by (auto simp: bk_def)
  have b2: "bk ! (i + n) = t_blindiKeys lg ! i" if "i < k - 1" for i
    using paste_nth(1) [OF len(3,4), of "i + n"] that r(1) by (auto simp: bk_def)
  show "take (n + k) kp = trie_ptrs nd @ trie_ptrs lg" using len(1,2) by (simp add: kp_def paste_def trie_ptrs_def n_def k_def)
  show "bl.blind (T_KEY_LEN c) (\<lambda>p. db (kp ! p)) (\<lambda>i. bk ! i) t"
    using r(11) bl.blind_cong [of t "\<lambda>p. db (kp ! p)" "kof db nd" "\<lambda>i. bk ! i" "bof nd" "T_KEY_LEN c"] k1 b1 r(9,12) by simp
  show "bl.blind (T_KEY_LEN c) (\<lambda>p. db (kp ! p)) (\<lambda>i. bk ! i) (shift_tree n u)"
    unfolding shift_tree_def
    using q(11) bl.blind_rename [of u "\<lambda>p. db (kp ! p)" "\<lambda>p. p + n" "kof db lg" "\<lambda>i. bk ! i" "\<lambda>i. i + n" "bof lg"] k2 b2 q(9,12) by simp
qed

lemma joined_leaves:
  assumes "branches_of t = mset [0..<n - 1]" "mset (leaves_of t) = mset [0..<n]" "branches_of u = mset [0..<k - 1]" "mset (leaves_of u) = mset [0..<k]"
    "0 < n" "0 < k"
  shows "mset (leaves_of t) + mset (leaves_of (shift_tree n u)) = mset [0..<n + k]"
    "branches_of t + {#n - 1#} + branches_of (shift_tree n u) = mset [0..<n + k - 1]"
proof -
  show "mset (leaves_of t) + mset (leaves_of (shift_tree n u)) = mset [0..<n + k]"
    unfolding shift_tree_def leaves_rename mset_map assms(2,4) by (rule mset_upt_shift)
  have "branches_of t + {#n - 1#} = mset [0..<Suc (n - 1)]" unfolding assms(1) by simp
  then have "branches_of t + {#n - 1#} = mset [0..<n]" using assms(5) by simp
  then have "branches_of t + {#n - 1#} + branches_of (shift_tree n u) = mset [0..<n + (k - 1)]"
    unfolding shift_tree_def branches_rename assms(3) using mset_upt_shift [of n "k - 1"] by simp
  then show "branches_of t + {#n - 1#} + branches_of (shift_tree n u) = mset [0..<n + k - 1]" using assms(6) by simp
qed

text \<open>A path to an edge, with the bits and the values of its start.\<close>

lemma edge_at_step:
  assumes "shape (PTR_AREA c) sm lg t" "t = plug ctx (Lf p)" "path_in tr (vals (PTR_AREA c) ctx (Lf p))" "\<forall>j \<in># branches_of t. j < length bk" "p < PTR_AREA c" "ctx \<noteq> []"
  shows "at_step c bk tr [] sm lg ctx p False (bk ! root_val (PTR_AREA c) t)" "get bk (root_val (PTR_AREA c) t) = Some (bk ! root_val (PTR_AREA c) t)"
proof -
  obtain x c2 where c: "ctx = x # c2" using assms(6) by (cases ctx) auto
  have "\<forall>x \<in> set ctx. fst x < length bk"
  proof
    fix x assume x: "x \<in> set ctx"
    obtain i b s where xe: "x = (i, b, s)" by (cases x)
    then have "i \<in># branches_of t" using in_ctx_branches [of i b s ctx] x by (simp add: assms(2) branches_plug)
    then show "fst x < length bk" using assms(4) xe by simp
  qed
  then show "at_step c bk tr [] sm lg ctx p False (bk ! root_val (PTR_AREA c) t)" "get bk (root_val (PTR_AREA c) t) = Some (bk ! root_val (PTR_AREA c) t)"
    using assms(1,3,5) c by (simp_all add: at_step_def assms(2))
qed

lemma compare_keys:
  assumes "length a = L" "length b = L" "a \<noteq> b"
  shows "\<exists>big. CompareStage a b False L L = Some (key_dif a b, False, big)" "key_dif a b < 8 * L"
proof -
  from CompareStage_diff [OF assms, of False] obtain d where
    d: "CompareStage a b False L L = Some (d, False, key_val b < key_val a)" "d < 8 * L" by metis
  then have "key_dif a b = d" using assms by (simp add: key_dif_def)
  then show "\<exists>big. CompareStage a b False L L = Some (key_dif a b, False, big)" "key_dif a b < 8 * L" using d by auto
qed

lemma meet_no_tie: "bl.meet L K bk d cs p cl q \<Longrightarrow> no_tie bk d cs cl"
  unfolding no_tie_def using bl.meet_bits(10) by (metis prod.collapse)

text \<open>The value at the place where a path is cut.\<close>

lemma path_cut:
  assumes "path_in tr (vals PA ctx u)" "a = drop (length ctx - length a) ctx" "length a \<le> length ctx"
  shows "get tr (length ctx - length a) = Some (root_val PA (plug a u))"
proof -
  let ?k = "length ctx - length a"
  have "path_in tr (vals PA (take ?k ctx @ a) u)" using assms(1,2) by (metis append_take_drop_id)
  then have "path_in tr (vals PA (take ?k ctx) (plug a u))" by (rule path_vals_prefix)
  then show ?thesis using path_get [of tr _ ?k] by (force simp: vals_def nth_append)
qed

definition merge_tree :: "nat \<Rightarrow> nat \<Rightarrow> nat \<Rightarrow> step list \<times> step list \<times> step list \<Rightarrow> ptree" where
  "merge_tree new p q = (\<lambda>(m, a, b). plug m (Br new (plug a (Lf p)) (plug b (Lf q))))"

text \<open>The loop and the two assignments behind it join the trees.\<close>

lemma merge_connect:
  assumes cfg: "tcfg_ok c" and sh: "shape (PTR_AREA c) sm lg (plug cs (Lf p))" "shape (PTR_AREA c) sm lg (plug cl (Lf q))"
    and paths: "path_in trs (vals (PTR_AREA c) cs (Lf p))" "path_in trl (vals (PTR_AREA c) cl (Lf q))"
    and ends: "cs \<noteq> []" "cl \<noteq> []" "p < PTR_AREA c" "q < PTR_AREA c"
    and bits: "\<forall>j \<in># ctx_branches cs + ctx_branches cl. j < length bk"
    and meet: "bl.meet L K (\<lambda>i. bk ! i) d cs p cl q" and new: "new < PTR_AREA c" "new < length sm" "new < length lg" 
    and once: "\<And>x. count (ctx_branches cs + {#new#} + ctx_branches cl) x \<le> 1"
    and w: "weave (\<lambda>i. bk ! i) d cs cl = (m, a, b)"
  shows "\<exists>sm' lg' i_s i_l x y. t_merge_loop c bk d new trs trl (sm, lg) 0 0 False False (bk ! fst (hd cs)) (bk ! fst (hd cl)) = Some ((sm', lg'), i_s, i_l)
    \<and> get trs i_s = Some x \<and> get trl i_l = Some y \<and> x < t_idx_mod c \<and> y < t_idx_mod c \<and> length sm' = length sm \<and> length lg' = length lg
    \<and> shape (PTR_AREA c) (sm'[new := x]) (lg'[new := y]) (merge_tree new p q (m, a, b))"
proof -
  let ?PA = "PTR_AREA c"
  have idx: "t_idx_mod c = 2 * ?PA" using tcfg_okD [OF cfg] by simp
  have bs: "\<forall>j \<in># branches_of (plug cs (Lf p)). j < length bk" "\<forall>j \<in># branches_of (plug cl (Lf q)). j < length bk"
    using bits by (auto simp: branches_plug)
  have hd: "root_val ?PA (plug cs (Lf p)) = fst (hd cs)" "root_val ?PA (plug cl (Lf q)) = fst (hd cl)" using ends(1,2) by (cases cs; cases cl; simp)+
  note st = edge_at_step(1) [OF sh(1) refl paths(1) bs(1) ends(3,1), unfolded hd] edge_at_step(1) [OF sh(2) refl paths(2) bs(2) ends(4,2), unfolded hd]
  note wp = weave_parts [OF w]
  have c1: "count (ctx_branches cs + ctx_branches cl) x \<le> 1" for x using once [of x] by (simp split: if_splits)
  have "count (ctx_branches cs + ctx_branches cl) new = 0" using once [of new] by simp
  then have nn: "new \<notin># ctx_branches m + ctx_branches a + ctx_branches b" unfolding wp [THEN conjunct2, THEN conjunct1] by (simp add: not_in_iff)
  from merge_loop_spec [OF cfg w meet_no_tie [OF meet] st, of new "[]"] meet c1 obtain sm' lg' where
    l: "t_merge_loop c bk d new trs trl (sm, lg) 0 0 False False (bk ! fst (hd cs)) (bk ! fst (hd cl))
      = Some ((sm', lg'), length cs - length a, length cl - length b)" "length sm' = length sm" "length lg' = length lg"
      "shape ?PA sm' lg' (plug a (Lf p))" "shape ?PA sm' lg' (plug b (Lf q))" "shape_ctx ?PA sm' lg' new m"
    by (auto simp: bl.meet_def)
  have cut: "get trs (length cs - length a) = Some (root_val ?PA (plug a (Lf p)))" "get trl (length cl - length b) = Some (root_val ?PA (plug b (Lf q)))"
    using path_cut [OF paths(1), of a] path_cut [OF paths(2), of b] wp by blast+
  have small: "root_val ?PA (plug a (Lf p)) < 2 * ?PA" "root_val ?PA (plug b (Lf q)) < 2 * ?PA"
    using root_val_bound [OF l(4)] root_val_bound [OF l(5)] ends(3,4) by auto
  have j: "shape ?PA (sm'[new := root_val ?PA (plug a (Lf p))]) (lg'[new := root_val ?PA (plug b (Lf q))]) (merge_tree new p q (m, a, b))"
    unfolding merge_tree_def prod.case
    by (rule shape_join [OF l(4,5,6)]) (use nn new l(2,3) in \<open>auto simp: branches_plug\<close>)
  show ?thesis
    by (intro exI conjI, rule l(1), rule cut(1), rule cut(2)) (use small idx l(2,3) j in simp_all)
qed

text \<open>The trees the code walks along, with the paths to their last and first key.\<close>

lemma joined_paths:
  assumes "shape (PTR_AREA c) sm lg t" "size (branches_of t) < T_SLOTS c" "0 < size (branches_of t)"
  shows "\<exists>ctx p tr. put (replicate (T_SLOTS c) 0) 0 (root_val (PTR_AREA c) t) = Some ((replicate (T_SLOTS c) 0)[0 := root_val (PTR_AREA c) t])
    \<and> t_bring_edge c (if b then lg else sm) (root_val (PTR_AREA c) t) ((replicate (T_SLOTS c) 0)[0 := root_val (PTR_AREA c) t]) 1
        = Some (PTR_AREA c + p, tr, length ctx + 1)
    \<and> t = plug ctx (Lf p) \<and> (\<forall>(i, large, s) \<in> set ctx. large = b) \<and> path_in tr (vals (PTR_AREA c) ctx (Lf p)) \<and> ctx \<noteq> []"
proof -
  let ?tr = "(replicate (T_SLOTS c) 0)[0 := root_val (PTR_AREA c) t]"
  have pt: "put (replicate (T_SLOTS c) 0) 0 (root_val (PTR_AREA c) t) = Some ?tr" "path_in ?tr ([] @ [root_val (PTR_AREA c) t])"
    using path_put [of "replicate (T_SLOTS c) 0" "[]"] assms(2) by (simp_all add: path_in_def)
  have sz: "length ([] :: nat list) + size (branches_of t) < length ?tr" using assms(2) by simp
  from bring_edge_spec [OF assms(1) pt(2) sz, of b] obtain ctx p tr where
    e: "t = plug ctx (Lf p)" "\<forall>(i, large, s) \<in> set ctx. large = b"
      "t_bring_edge c (if b then lg else sm) (root_val (PTR_AREA c) t) ?tr 1 = Some (PTR_AREA c + p, tr, length ctx + 1)"
      "path_in tr (vals (PTR_AREA c) ctx (Lf p))" by auto
  have "ctx \<noteq> []" using e(1) assms(3) by auto
  then show ?thesis using pt(1) e by blast
qed

text \<open>The run of the code, put together from the results of its steps.\<close>

lemma merge_run:
  fixes nd lg :: trie
  defines "n \<equiv> t_valid_len nd" and "k \<equiv> t_valid_len lg"
  assumes n: "2 \<le> n" "2 \<le> k" "n + k < t_idx_mod c"
    and copies: "copy_cells (t_key_ptr lg) 0 (t_key_ptr nd) n k = Some kp" "copy_cells (t_blindiKeys lg) 0 (t_blindiKeys nd) n (k - 1) = Some bk0"
      "copy_cells (map (\<lambda>x. (x + n) mod t_idx_mod c) (large_ptr lg)) 0 (large_ptr nd) n (k - 1) = Some lp"
      "copy_cells (map (\<lambda>x. (x + n) mod t_idx_mod c) (small_ptr lg)) 0 (small_ptr nd) n (k - 1) = Some sm"
    and roots: "t_root nd = rs" "t_root lg + n = rl"
    and paths: "put (replicate (T_SLOTS c) 0) 0 rs = Some tr1" "t_bring_edge c lp rs tr1 1 = Some (PTR_AREA c + p, trs, len1)"
      "put (replicate (T_SLOTS c) 0) 0 rl = Some tr2" "t_bring_edge c sm rl tr2 1 = Some (PTR_AREA c + q, trl, len2)"
    and keys: "get kp p = Some x1" "get kp q = Some x2" "CompareStage (db x1) (db x2) False (T_KEY_LEN c) (T_KEY_LEN c) = Some (d, False, big)"
    and d: "d < 65536" "d < t_bitidx_mod c" "put bk0 (n - 1) d = Some bk"
    and heads: "get bk rs = Some cur_s" "get bk rl = Some cur_l"
    and loop: "t_merge_loop c bk d (n - 1) trs trl (sm, lp) 0 0 False False cur_s cur_l = Some ((sm', lg'), i_s, i_l)"
    and ends: "get trs i_s = Some x" "x < t_idx_mod c" "get trl i_l = Some y" "y < t_idx_mod c" "n - 1 < length sm'" "n - 1 < length lg'"
    and root: "root = (if d < cur_s \<and> d < cur_l then n - 1 else if cur_s < cur_l then rs else rl)" "root < t_idx_mod c"
  shows "t_MergeNodes c db nd lg = Some (nd \<lparr> t_key_ptr := kp, t_blindiKeys := bk, small_ptr := sm'[n - 1 := x], large_ptr := lg'[n - 1 := y],
    t_root := root, t_valid_len := n + k \<rparr>)"
proof -
  have z: "\<not> (n = 0 \<or> k = 0)" "(n = 1) = False" "(k = 1) = False" using n by simp_all
  have m: "d mod 65536 = d" "d mod t_bitidx_mod c = d" "x mod t_idx_mod c = x" "y mod t_idx_mod c = y" "root mod t_idx_mod c = root"
    "(n + k) mod t_idx_mod c = n + k" using d ends root(2) n(3) by simp_all
  have p: "put sm' (n - 1) x = Some (sm'[n - 1 := x])" "put lg' (n - 1) y = Some (lg'[n - 1 := y])" using ends(5,6) by simp_all
  show ?thesis
    unfolding t_MergeNodes_def Let_def n_def [symmetric] k_def [symmetric] if_not_P [OF z(1)] roots
    by (simp add: copies paths keys m d(3) heads z(2,3) loop ends(1,3) p del: One_nat_def) (use root(1) m(5) in \<open>auto split: if_splits\<close>)
qed

text \<open>The arrays after copying hold both trees.\<close>

lemma joined_shapes:
  fixes nd lg :: trie
  defines "n \<equiv> t_valid_len nd" and "k \<equiv> t_valid_len lg"
  assumes repr: "trie_repr c db nd t" "trie_repr c db lg u" and cfg: "tcfg_ok c" and n: "n + k \<le> T_SLOTS c"
  defines "kp \<equiv> paste n (t_key_ptr nd) k (t_key_ptr lg)" and "bk \<equiv> paste n (t_blindiKeys nd) (k - 1) (t_blindiKeys lg)"
    and "sm \<equiv> paste n (small_ptr nd) (k - 1) (map (\<lambda>x. (x + n) mod t_idx_mod c) (small_ptr lg))"
    and "lp \<equiv> paste n (large_ptr nd) (k - 1) (map (\<lambda>x. (x + n) mod t_idx_mod c) (large_ptr lg))"
  shows "length sm = T_SLOTS c - 1" "length lp = T_SLOTS c - 1" "length bk = T_SLOTS c - 1"
    "copy_cells (t_key_ptr lg) 0 (t_key_ptr nd) n k = Some kp" "copy_cells (t_blindiKeys lg) 0 (t_blindiKeys nd) n (k - 1) = Some bk"
    "copy_cells (map (\<lambda>x. (x + n) mod t_idx_mod c) (large_ptr lg)) 0 (large_ptr nd) n (k - 1) = Some lp"
    "copy_cells (map (\<lambda>x. (x + n) mod t_idx_mod c) (small_ptr lg)) 0 (small_ptr nd) n (k - 1) = Some sm"
    "shape (PTR_AREA c) sm lp t" "shape (PTR_AREA c) sm lp (shift_tree n u)" "root_val (PTR_AREA c) (shift_tree n u) = t_root lg + n"
proof -
  let ?shift = "map (\<lambda>x. (x + n) mod t_idx_mod c)"
  note r = trie_reprD [OF repr(1), folded n_def] and q = trie_reprD [OF repr(2), folded k_def]
  have len: "k \<le> length (t_key_ptr lg)" "n + k \<le> length (t_key_ptr nd)" "k - 1 \<le> length (t_blindiKeys lg)" "n + (k - 1) \<le> length (t_blindiKeys nd)"
      "k - 1 \<le> length (?shift (small_ptr lg))" "n + (k - 1) \<le> length (small_ptr nd)" "k - 1 \<le> length (?shift (large_ptr lg))" "n + (k - 1) \<le> length (large_ptr nd)"
    using n r(1,3-6) q(1-6) by simp_all
  show lens: "length sm = T_SLOTS c - 1" "length lp = T_SLOTS c - 1" "length bk = T_SLOTS c - 1"
    unfolding sm_def lp_def bk_def paste_nth(2) [OF len(3,4)] paste_nth(2) [OF len(5,6)] paste_nth(2) [OF len(7,8)] by (rule r(4), rule r(5), rule r(3))
  show "copy_cells (t_key_ptr lg) 0 (t_key_ptr nd) n k = Some kp" "copy_cells (t_blindiKeys lg) 0 (t_blindiKeys nd) n (k - 1) = Some bk"
    "copy_cells (?shift (large_ptr lg)) 0 (large_ptr nd) n (k - 1) = Some lp" "copy_cells (?shift (small_ptr lg)) 0 (small_ptr nd) n (k - 1) = Some sm"
    unfolding kp_def bk_def sm_def lp_def by (rule copy_paste [OF len(1,2)], rule copy_paste [OF len(3,4)], rule copy_paste [OF len(7,8)], rule copy_paste [OF len(5,6)])
  show "shape (PTR_AREA c) sm lp (shift_tree n u)" "root_val (PTR_AREA c) (shift_tree n u) = t_root lg + n"
    using shifted_tree [OF repr(2) cfg, of n "small_ptr nd" "large_ptr nd"] n(1) r(4,5) unfolding sm_def lp_def shift_tree_def k_def by simp_all
  show "shape (PTR_AREA c) sm lp t"
  proof (rule shape_cong [OF r(8)])
    show "\<forall>i \<in># branches_of t. sm ! i = small_ptr nd ! i \<and> lp ! i = large_ptr nd ! i"
      using paste_nth(1) [OF len(5,6)] paste_nth(1) [OF len(7,8)] r(9) unfolding sm_def lp_def by auto
  qed (use lens r(4,5) in simp_all)
qed

lemma merged_counts:
  assumes "weave bk d cs cl = (m, a, b)" "ctx_branches cs + {#new#} + ctx_branches cl = mset [0..<k]" "ctx_leaves cs + {#p#} + (ctx_leaves cl + {#q#}) = mset [0..<j]"
  shows "branches_of (merge_tree new p q (m, a, b)) = mset [0..<k]" "mset (leaves_of (merge_tree new p q (m, a, b))) = mset [0..<j]"
proof -
  note wp = weave_parts [OF assms(1)]
  have "branches_of (merge_tree new p q (m, a, b)) = {#new#} + (ctx_branches m + ctx_branches a + ctx_branches b)"
    by (simp add: merge_tree_def branches_plug ac_simps)
  also have "\<dots> = mset [0..<k]" unfolding assms(2) [symmetric] using wp by (simp add: ac_simps)
  finally show "branches_of (merge_tree new p q (m, a, b)) = mset [0..<k]" .
  have "mset (leaves_of (merge_tree new p q (m, a, b))) = (ctx_leaves m + ctx_leaves a + ctx_leaves b) + {#p#} + {#q#}"
    by (simp add: merge_tree_def leaves_plug ac_simps)
  also have "\<dots> = mset [0..<j]" unfolding assms(3) [symmetric] using wp by (simp add: ac_simps)
  finally show "mset (leaves_of (merge_tree new p q (m, a, b))) = mset [0..<j]" .
qed

lemma merge_nodes_spec:
  fixes nd lg :: trie
  defines "n \<equiv> t_valid_len nd" and "k \<equiv> t_valid_len lg"
  assumes repr: "trie_repr c db nd t" "trie_repr c db lg u" and cfg: "tcfg_ok c" and n: "n + k \<le> T_SLOTS c" "2 \<le> n" "2 \<le> k"
    and less: "\<forall>x \<in> set (trie_keys db nd). \<forall>y \<in> set (trie_keys db lg). key_less x y"
  shows "\<exists>nd' t'. t_MergeNodes c db nd lg = Some nd' \<and> trie_repr c db nd' t' \<and> t_valid_len nd' = n + k \<and> trie_ptrs nd' = trie_ptrs nd @ trie_ptrs lg"
proof -
  let ?PA = "PTR_AREA c" and ?shift = "map (\<lambda>x. (x + n) mod t_idx_mod c)" and ?u = "shift_tree n u"
  note r = trie_reprD [OF repr(1), folded n_def] and q = trie_reprD [OF repr(2), folded k_def] and g = tcfg_okD [OF cfg]
  define kp where "kp = paste n (t_key_ptr nd) k (t_key_ptr lg)"
  define bk0 where "bk0 = paste n (t_blindiKeys nd) (k - 1) (t_blindiKeys lg)"
  define sm where "sm = paste n (small_ptr nd) (k - 1) (?shift (small_ptr lg))"
  define lp where "lp = paste n (large_ptr nd) (k - 1) (?shift (large_ptr lg))"
  note js = joined_shapes [OF repr cfg n(1) [unfolded n_def k_def], folded n_def k_def, folded kp_def bk0_def sm_def lp_def]
  note lens = js(1-3) and copies = js(4-7) and st = js(8) and su = js(9,10)
  have sizes: "size (branches_of t) = n - 1" "size (branches_of ?u) = k - 1" using r(13) q(13) by (simp_all add: shift_tree_def branches_rename)
  have "\<exists>cs p trs. put (replicate (T_SLOTS c) 0) 0 (root_val ?PA t) = Some ((replicate (T_SLOTS c) 0)[0 := root_val ?PA t])
    \<and> t_bring_edge c lp (root_val ?PA t) ((replicate (T_SLOTS c) 0)[0 := root_val ?PA t]) 1 = Some (?PA + p, trs, length cs + 1)
    \<and> t = plug cs (Lf p) \<and> (\<forall>(i, large, s) \<in> set cs. large) \<and> path_in trs (vals ?PA cs (Lf p)) \<and> cs \<noteq> []"
    using joined_paths [OF st, of True] sizes n by simp
  then obtain cs p trs where S: "t = plug cs (Lf p)" "\<forall>(i, large, s) \<in> set cs. large" "path_in trs (vals ?PA cs (Lf p))" "cs \<noteq> []"
      "put (replicate (T_SLOTS c) 0) 0 (root_val ?PA t) = Some ((replicate (T_SLOTS c) 0)[0 := root_val ?PA t])"
      "t_bring_edge c lp (root_val ?PA t) ((replicate (T_SLOTS c) 0)[0 := root_val ?PA t]) 1 = Some (?PA + p, trs, length cs + 1)" by blast
  have "\<exists>cl q trl. put (replicate (T_SLOTS c) 0) 0 (root_val ?PA ?u) = Some ((replicate (T_SLOTS c) 0)[0 := root_val ?PA ?u])
    \<and> t_bring_edge c sm (root_val ?PA ?u) ((replicate (T_SLOTS c) 0)[0 := root_val ?PA ?u]) 1 = Some (?PA + q, trl, length cl + 1)
    \<and> ?u = plug cl (Lf q) \<and> (\<forall>(i, large, s) \<in> set cl. \<not> large) \<and> path_in trl (vals ?PA cl (Lf q)) \<and> cl \<noteq> []"
    using joined_paths [OF su(1), of False] sizes n by simp
  then obtain cl p' trl where L: "?u = plug cl (Lf p')" "\<forall>(i, large, s) \<in> set cl. \<not> large" "path_in trl (vals ?PA cl (Lf p'))" "cl \<noteq> []"
      "put (replicate (T_SLOTS c) 0) 0 (root_val ?PA ?u) = Some ((replicate (T_SLOTS c) 0)[0 := root_val ?PA ?u])"
      "t_bring_edge c sm (root_val ?PA ?u) ((replicate (T_SLOTS c) 0)[0 := root_val ?PA ?u]) 1 = Some (?PA + p', trl, length cl + 1)" by blast
  define d where "d = key_dif (db (kp ! p)) (db (kp ! p'))"
  define bk where "bk = bk0[n - 1 := d]"
  let ?K = "\<lambda>p. db (kp ! p)"
  note jk = joined_blind(1,2,5,8) [OF repr n(1) [unfolded n_def k_def], folded n_def k_def, folded kp_def]
  note jb = joined_blind(3,4,6,7) [OF repr n(1) [unfolded n_def k_def], of d, folded n_def k_def, folded kp_def bk0_def, folded bk_def]
  have leaves_u: "set (leaves_of ?u) = (\<lambda>x. x + n) ` {..<k}" using q(12) by (simp add: shift_tree_def leaves_rename)
  have meet: "bl.meet (T_KEY_LEN c) ?K (\<lambda>i. bk ! i) d cs p cl p'"
    unfolding bl.meet_def
  proof (intro conjI)
    have "\<forall>a \<in> set (leaves_of t). \<forall>b \<in> set (leaves_of ?u). key_less (?K a) (?K b)"
      using less set_trie_keys [OF repr(1)] set_trie_keys [OF repr(2)] jk(1,2) leaves_u r(12) q(12) by auto
    then show "\<forall>a \<in> set (leaves_of (plug cs (Lf p))). \<forall>b \<in> set (leaves_of (plug cl (Lf p'))). key_less (?K a) (?K b)"
      unfolding S(1) [symmetric] L(1) [symmetric] .
    then show "key_less (?K p) (?K p')" by (simp add: set_leaves_plug)
  qed (use jb(1,2) S(1,2) L(1,2) d_def in simp_all)
  obtain m a b where w: "weave (\<lambda>i. bk ! i) d cs cl = (m, a, b)" by (cases "weave (\<lambda>i. bk ! i) d cs cl")
  have "p \<in> set (leaves_of t)" "p' \<in> set (leaves_of ?u)" unfolding S(1) L(1) by (simp_all add: set_leaves_plug)
  then have pl: "p < n" "p' < n + k" using r(12) leaves_u by auto
  note jl = joined_leaves [OF r(9,10) q(9,10) r(1) q(1)]
  have br: "branches_of t = ctx_branches cs" "branches_of ?u = ctx_branches cl" using S(1) L(1) by (simp_all add: branches_plug)
  have all: "ctx_branches cs + {#n - 1#} + ctx_branches cl = mset [0..<n + k - 1]" using jl(2) br by simp
  have bits: "\<forall>j \<in># ctx_branches cs + ctx_branches cl. j < length bk"
  proof
    fix j assume "j \<in># ctx_branches cs + ctx_branches cl"
    then have "j \<in># mset [0..<n + k - 1]" unfolding all [symmetric] by auto
    then show "j < length bk" using jb(3) n(1) by simp
  qed
  have new: "n - 1 < ?PA" "n - 1 < length sm" "n - 1 < length lp" and PA: "p < ?PA" "p' < ?PA" using n g(1) lens pl by simp_all
  note mc = merge_connect [OF cfg st [unfolded S(1)] su(1) [unfolded L(1)] S(3) L(3) S(4) L(4) PA bits meet new mset_upt_once [OF all] w]
  obtain sm' lg' i_s i_l x y where l: "t_merge_loop c bk d (n - 1) trs trl (sm, lp) 0 0 False False (bk ! fst (hd cs)) (bk ! fst (hd cl)) = Some ((sm', lg'), i_s, i_l)"
    "get trs i_s = Some x" "get trl i_l = Some y" "x < t_idx_mod c" "y < t_idx_mod c" "length sm' = length sm" "length lg' = length lp"
    "shape ?PA (sm'[n - 1 := x]) (lg'[n - 1 := y]) (merge_tree (n - 1) p p' (m, a, b))"
    using mc by blast
  let ?t = "merge_tree (n - 1) p p' (m, a, b)"
  have blind: "bl.blind (T_KEY_LEN c) ?K (\<lambda>i. bk ! i) ?t"
    unfolding merge_tree_def prod.case by (rule bl.blind_weave [OF meet jb(4) w])
  have "ctx_leaves cs + {#p#} + (ctx_leaves cl + {#p'#}) = mset [0..<n + k]" using jl(1) unfolding S(1) L(1) by (simp add: leaves_plug)
  note bt = merged_counts(1) [OF w all this] and lt = merged_counts(2) [OF w all this]
  let ?nd = "nd \<lparr> t_key_ptr := kp, t_blindiKeys := bk, small_ptr := sm'[n - 1 := x], large_ptr := lg'[n - 1 := y], t_root := root_val ?PA ?t, t_valid_len := n + k \<rparr>"
  have "trie_repr c db ?nd ?t"
    unfolding trie_repr_def using n(1) jk(3) jb(3) l(6-8) lens bt lt blind by simp
  moreover have "trie_ptrs ?nd = trie_ptrs nd @ trie_ptrs lg" using jk(4) by (simp add: trie_ptrs_def)
  moreover have "t_MergeNodes c db nd lg = Some ?nd"
  proof -
    have kl: "length (?K p) = T_KEY_LEN c" "length (?K p') = T_KEY_LEN c" "?K p \<noteq> ?K p'"
      using bl.meet_bits(1-3) [OF meet] by (simp_all add: key_of_len_def)
    note cmp = compare_keys [OF kl, folded d_def]
    then obtain big where big: "CompareStage (?K p) (?K p') False (T_KEY_LEN c) (T_KEY_LEN c) = Some (d, False, big)" by blast
    have db: "d < 65536" "d < t_bitidx_mod c" using cmp(2) g(4) by (auto simp: t_bitidx_mod_def split: if_splits)
    have hd: "root_val ?PA t = fst (hd cs)" "root_val ?PA ?u = fst (hd cl)" using S(1,4) L(1,4) by (cases cs; cases cl; simp)+
    have bj: "\<forall>j \<in># branches_of t. j < length bk" "\<forall>j \<in># branches_of ?u. j < length bk" using bits br by auto
    have heads: "get bk (root_val ?PA t) = Some (bk ! fst (hd cs))" "get bk (root_val ?PA ?u) = Some (bk ! fst (hd cl))"
      using edge_at_step(2) [OF st S(1,3) bj(1) PA(1) S(4)] edge_at_step(2) [OF su(1) L(1,3) bj(2) PA(2) L(4)] unfolding hd by blast+
    have rt: "root_val ?PA ?t = (if d < bk ! fst (hd cs) \<and> d < bk ! fst (hd cl) then n - 1 else if bk ! fst (hd cs) < bk ! fst (hd cl) then root_val ?PA t else root_val ?PA ?u)"
      using weave_head [OF w, of "n - 1" ?PA "Lf p" "Lf p'"] S(1,4) L(1,4) by (simp add: merge_tree_def root_val_plug woven_def takes_small_def)
    have "root_val ?PA ?t < ?PA"
    proof (cases ?t)
      case (Lf x)
      have "size (branches_of ?t) = n + k - 1" unfolding bt by simp
      then show ?thesis using Lf n(2) by simp
    next
      case (Br i v w)
      then show ?thesis using l(8) by simp
    qed
    then have rb: "root_val ?PA ?t < t_idx_mod c" using g(2) by simp
    have nk: "n + k < t_idx_mod c" using n(1) g(1-3) by linarith
    have gk: "get kp p = Some (kp ! p)" "get kp p' = Some (kp ! p')" using jk(3) pl n(1) by simp_all
    have pb: "put bk0 (n - 1) d = Some bk" using lens new by (simp add: bk_def)
    have new': "n - 1 < length sm'" "n - 1 < length lg'" using new l(6,7) by simp_all
    show ?thesis
      using merge_run [where nd = nd and lg = lg and c = c and db = db, folded n_def k_def, OF n(2,3) nk copies(1,2,3,4) r(7) su(2) [symmetric] S(5,6) L(5,6) gk big db pb heads l(1,2,4) l(3,5) new' rt rb] .
  qed
  ultimately show ?thesis by (intro exI [of _ ?nd] exI [of _ ?t]) simp
qed

section \<open>The contracts\<close>

lemma copy_node_spec:
  assumes "trie_empty c nd" "trie_repr c db lg t"
  shows "\<exists>nd'. t_CopyNode nd lg = Some nd' \<and> trie_repr c db nd' t \<and> trie_ptrs nd' = trie_ptrs lg"
proof -
  let ?n = "t_valid_len lg"
  note q = trie_reprD [OF assms(2)]
  have e: "length (t_blindiKeys nd) = T_SLOTS c - 1" "length (small_ptr nd) = T_SLOTS c - 1" "length (large_ptr nd) = T_SLOTS c - 1" "length (t_key_ptr nd) = T_SLOTS c"
    using assms(1) by (simp_all add: trie_empty_def)
  have len: "?n \<le> length (t_key_ptr lg)" "0 + ?n \<le> length (t_key_ptr nd)" "?n - 1 \<le> length (t_blindiKeys lg)" "0 + (?n - 1) \<le> length (t_blindiKeys nd)"
    "?n - 1 \<le> length (large_ptr lg)" "0 + (?n - 1) \<le> length (large_ptr nd)" "?n - 1 \<le> length (small_ptr lg)" "0 + (?n - 1) \<le> length (small_ptr nd)"
    using q(1-6) e by simp_all
  note cp = copy_paste [OF len(1,2)] copy_paste [OF len(3,4)] copy_paste [OF len(5,6)] copy_paste [OF len(7,8)]
  note pn = paste_nth [OF len(1,2)] paste_nth [OF len(3,4)] paste_nth [OF len(5,6)] paste_nth [OF len(7,8)]
  let ?kp = "paste 0 (t_key_ptr nd) ?n (t_key_ptr lg)" and ?bk = "paste 0 (t_blindiKeys nd) (?n - 1) (t_blindiKeys lg)"
  let ?lg = "paste 0 (large_ptr nd) (?n - 1) (large_ptr lg)" and ?sm = "paste 0 (small_ptr nd) (?n - 1) (small_ptr lg)"
  let ?nd = "nd \<lparr> t_root := t_root lg, t_key_ptr := ?kp, t_blindiKeys := ?bk, large_ptr := ?lg, small_ptr := ?sm, t_valid_len := ?n \<rparr>"
  have run: "t_CopyNode nd lg = Some ?nd" using cp q(1) by (simp add: t_CopyNode_def Let_def)
  have cell: "?kp ! p = t_key_ptr lg ! p" if "p < ?n" for p using pn(1) [of p] that by simp
  have bit: "?bk ! i = t_blindiKeys lg ! i" if "i < ?n - 1" for i using pn(3) [of i] that by simp
  have "shape (PTR_AREA c) ?sm ?lg t"
    by (rule shape_cong [OF q(8)]) (use pn q(4,5,9) e in simp_all)
  moreover have "bl.blind (T_KEY_LEN c) (\<lambda>p. db (?kp ! p)) (\<lambda>i. ?bk ! i) t"
    using q(11) bl.blind_cong [of t "\<lambda>p. db (?kp ! p)" "kof db lg" "\<lambda>i. ?bk ! i" "bof lg" "T_KEY_LEN c"] cell bit q(9,12) by simp
  ultimately have "trie_repr c db ?nd t" unfolding trie_repr_def using q(2,7,9,10) pn(2,4,6,8) e by simp
  moreover have "trie_ptrs ?nd = trie_ptrs lg" using len(1) by (simp add: trie_ptrs_def paste_def)
  ultimately show ?thesis using run by blast
qed

lemma merge_map_spec:
  assumes "trie_node c db nd" "trie_node c db lg" "tcfg_ok c" "t_valid_len nd + t_valid_len lg \<le> T_SLOTS c"
    and "t_valid_len nd = 0 \<and> t_valid_len lg \<noteq> 0 \<or> t_valid_len nd \<noteq> 0 \<and> t_valid_len lg = 0 \<or> 2 \<le> t_valid_len nd \<and> 2 \<le> t_valid_len lg"
    and "\<forall>x \<in> set (trie_keys db nd). \<forall>y \<in> set (trie_keys db lg). key_less x y"
  shows "\<exists>nd'. t_MergeBlindiNodes c db nd lg = Some nd' \<and> trie_ok c db nd' \<and> trie_ptrs nd' = trie_ptrs nd @ trie_ptrs lg"
proof -
  have cases: "trie_empty c x" if "trie_node c db x" "t_valid_len x = 0" for x
    using that trie_reprD(1) by (fastforce simp: trie_node_def trie_ok_def)
  have ok: "\<exists>t. trie_repr c db x t" if "trie_node c db x" "t_valid_len x \<noteq> 0" for x
    using that by (auto simp: trie_node_def trie_ok_def trie_empty_def)
  consider "t_valid_len nd = 0" "t_valid_len lg \<noteq> 0" | "t_valid_len nd \<noteq> 0" "t_valid_len lg = 0" | "2 \<le> t_valid_len nd" "2 \<le> t_valid_len lg"
    using assms(5) by (elim disjE conjE)
  then show ?thesis
  proof cases
    case 1
    obtain t where "trie_repr c db lg t" using ok [OF assms(2) 1(2)] by blast
    from copy_node_spec [OF cases [OF assms(1) 1(1)] this] show ?thesis using 1 by (auto simp: t_MergeBlindiNodes_def trie_ok_def trie_ptrs_def)
  next
    case 2
    then show ?thesis using ok [OF assms(1) 2(1)] by (auto simp: t_MergeBlindiNodes_def trie_ok_def trie_ptrs_def)
  next
    case 3
    then obtain t u where t: "trie_repr c db nd t" "trie_repr c db lg u" using ok [OF assms(1)] ok [OF assms(2)] by auto
    from merge_nodes_spec [OF t assms(3,4) 3 assms(6)] 3 show ?thesis by (auto simp: t_MergeBlindiNodes_def trie_ok_def)
  qed
qed

text \<open>What the code does outside of its preconditions: it leaves its arrays.\<close>

lemma merge_one_key:
  assumes "trie_ok c db nd" "trie_ok c db lg" "tcfg_ok c" "t_valid_len nd + t_valid_len lg \<le> T_SLOTS c" "t_valid_len nd = 1 \<or> t_valid_len lg = 1"
  shows "t_MergeBlindiNodes c db nd lg = None"
proof -
  obtain t u where t: "trie_repr c db nd t" "trie_repr c db lg u" using assms(1,2) by (auto simp: trie_ok_def)
  note r = trie_reprD [OF t(1)] and q = trie_reprD [OF t(2)] and g = tcfg_okD [OF assms(3)]
  note js = joined_shapes [OF t assms(3,4)]
  have root: "PTR_AREA c \<le> t_root x" if "trie_repr c db x v" "t_valid_len x = 1" for x v
    using trie_reprD(7,13) [OF that(1)] that(2) by (cases v) simp_all
  have out: "get bk v = None" if "length bk = T_SLOTS c - 1" "PTR_AREA c \<le> v" for bk :: "nat list" and v using that g(1) by simp
  have "t_MergeNodes c db nd lg \<noteq> Some x" for x
  proof
    assume "t_MergeNodes c db nd lg = Some x"
    then obtain bk d bk' where "copy_cells (t_blindiKeys lg) 0 (t_blindiKeys nd) (t_valid_len nd) (t_valid_len lg - 1) = Some bk"
      "put bk (t_valid_len nd - 1) d = Some bk'" "get bk' (t_root nd) \<noteq> None" "get bk' (t_root lg + t_valid_len nd) \<noteq> None"
      unfolding t_MergeNodes_def Let_def by (auto simp: bind_eq_Some_conv split: if_splits)
    then have "length bk' = T_SLOTS c - 1" using js(3,5) by (auto simp: put_eq_Some)
    then show False using out root [OF t(1)] root [OF t(2)] assms(5) \<open>get bk' (t_root nd) \<noteq> None\<close> \<open>get bk' (t_root lg + t_valid_len nd) \<noteq> None\<close>
      by (meson le_add1 le_trans)
  qed
  then have "t_MergeNodes c db nd lg = None" by (cases "t_MergeNodes c db nd lg") auto
  then show ?thesis using r(1) q(1) by (simp add: t_MergeBlindiNodes_def)
qed

lemma upsert_present:
  assumes "trie_ok c db nd" "tcfg_ok c" "length (db k) = T_KEY_LEN c" "db k \<in> set (trie_keys db nd)" "2 \<le> t_valid_len nd" "t_valid_len nd < T_SLOTS c"
  shows "t_UpsertWithKey c db nd k = None"
proof -
  obtain t where t: "trie_repr c db nd t" using assms(1) by (auto simp: trie_ok_def)
  note r = trie_reprD [OF t] and g = tcfg_okD [OF assms(2)]
  have l: "T_SLOTS c \<le> length (replicate (T_SLOTS c) (0::nat))" by simp
  obtain tr ctx p where f: "arrives c nd t (db k) tr ctx p" "length tr = length (replicate (T_SLOTS c) (0::nat))" "p < t_valid_len nd"
    "t_SearchFirstStage c nd (db k) (T_KEY_LEN c) (replicate (T_SLOTS c) 0) = Some (tr, length ctx + 1)"
    "db k \<in> set (trie_keys db nd) \<longleftrightarrow> kof db nd p = db k" by (rule first_stage_spec [OF t assms(3) l])
  note s = search_stages [OF t assms(3) f(1)]
  have "\<exists>sr. t_SearchBlindiNode c db nd (db k) (T_KEY_LEN c) PREDECESSOR_SEARCH True (replicate (T_SLOTS c) 0) = Some sr
      \<and> ts_traverse sr = tr \<and> ts_len sr = length ctx + 1"
    using f(4,5) s(1,2,3) assms(4) by (simp add: t_SearchBlindiNode_def)
  then obtain sr where sr: "t_SearchBlindiNode c db nd (db k) (T_KEY_LEN c) PREDECESSOR_SEARCH True (replicate (T_SLOTS c) 0) = Some sr"
    "ts_traverse sr = tr" "ts_len sr = length ctx + 1" by blast
  have "get (large_ptr nd) (PTR_AREA c + p) = None" using r(5) g(1) by simp
  then have "t_InsertInPosition c nd k d large tr (length ctx + 1) = None" for d large
    using s(1) assms(5) by (auto simp: t_InsertInPosition_def Let_def bind_eq_None_conv)
  then show ?thesis using sr assms(5,6) by (simp add: t_UpsertWithKey_def)
qed

end
