(* ===== verification/Trie_Split.thy ===== *)
theory Trie_Split
  imports Trie_Nodes Trie_Map
begin

text \<open>
  The split of a trie leaf. \<^verbatim>\<open>SplitBlindiNode\<close> walks to the key in the middle; of the path to it one half keeps the branchings that
  it leaves to the large side, the other half, on the path to the next key, those it leaves to the small side. \<^verbatim>\<open>fill_node_array\<close>
  copies each half into a new node and numbers its branchings and keys in the order of the walk.
\<close>

section \<open>One side of a path\<close>

definition kept :: "bool \<Rightarrow> step list \<Rightarrow> step list" where
  "kept b c = filter (\<lambda>(i, large, s). large = b) c"

lemma kept_simps [simp]:
  "kept b [] = []" "kept b ((i, large, s) # c) = (if large = b then (i, large, s) # kept b c else kept b c)"
  by (simp_all add: kept_def)

lemma kept_sides: "\<forall>(i, large, s) \<in> set (kept b c). large = b"
  by (auto simp: kept_def)

lemma kept_leaves: "leaves_of (plug (kept b c) (Lf p)) = (if b then lefts c @ [p] else p # rights c)"
proof -
  have "lefts (kept True c) = lefts c \<and> rights (kept False c) = rights c"
    by (induction c rule: lefts.induct) auto
  then show ?thesis
    using kept_sides [of b c] lefts_small [of "kept b c"] rights_large [of "kept b c"] by (cases b) (auto simp: leaves_plug_order)
qed

lemma kept_ctx_leaves: "set_mset (ctx_leaves (kept b c)) \<subseteq> set_mset (ctx_leaves c)"
  by (induction c rule: ctx_leaves.induct) auto

lemma kept_branches: "count (ctx_branches (kept b c)) x \<le> count (ctx_branches c) x"
  by (induction c rule: ctx_branches.induct) auto

context bit_keys begin

lemma beside_kept: "beside K bk P c \<Longrightarrow> beside K bk P (kept b c)"
  using kept_ctx_leaves [of b] by (induction K bk P c rule: beside.induct) (simp_all, blast)

lemma blind_kept: "blind K bk (plug c (Lf p)) \<Longrightarrow> blind K bk (plug (kept b c) (Lf p))"
  by (simp add: blind_plug beside_kept)

end

section \<open>Cutting one side off\<close>

fun link_path :: "nat list \<Rightarrow> nat list \<Rightarrow> nat list" where
  "link_path (a # b # vs) xs = link_path (b # vs) (xs[a := b])"
| "link_path vs xs = xs"

lemma link_length [simp]: "length (link_path vs xs) = length xs"
  by (induction vs xs rule: link_path.induct) auto

lemma link_other: "j \<notin> set (butlast vs) \<Longrightarrow> link_path vs xs ! j = xs ! j"
  by (induction vs xs rule: link_path.induct) auto

lemma link_snoc: "vs \<noteq> [] \<Longrightarrow> link_path (vs @ [v]) xs = (link_path vs xs)[last vs := v]"
  by (induction vs xs rule: link_path.induct) auto

fun path_linked :: "nat list \<Rightarrow> nat list \<Rightarrow> bool" where
  "path_linked (a # b # vs) xs \<longleftrightarrow> xs ! a = b \<and> path_linked (b # vs) xs"
| "path_linked vs xs \<longleftrightarrow> True"

lemma path_linked_link:
  assumes "distinct (butlast vs)" "set (butlast vs) \<subseteq> {..<length xs}"
  shows "path_linked vs (link_path vs xs)"
  using assms
proof (induction vs xs rule: link_path.induct)
  case (1 a b vs xs)
  then have "a \<notin> set (butlast (b # vs))" "a < length xs" by auto
  then have "link_path (b # vs) (xs[a := b]) ! a = b" by (simp add: link_other)
  with 1 show ?case by auto
qed auto

text \<open>The values a loop over the path writes.\<close>

abbreviation marks :: "bool \<Rightarrow> step list \<Rightarrow> nat list" where
  "marks b c \<equiv> map fst (kept b c)"

lemma split_spine_run:
  assumes "\<forall>k < length c. get tr (i + k) = Some (fst (c ! k)) \<and> (\<exists>v. get tr (Suc (i + k)) = Some v
      \<and> (\<exists>x. get ptrs (fst (c ! k)) = Some x \<and> (x = v) = (fst (snd (c ! k)) = b)))"
    and "set (pos # marks b c) \<subseteq> {..<length out}"
  shows "split_spine ptrs tr i (length c) (True, root, pos, out) = Some (True, root, last (pos # marks b c), link_path (pos # marks b c) out)"
  using assms
proof (induction c arbitrary: i pos out)
  case (Cons x c)
  obtain j large s where x: "x = (j, large, s)" by (cases x)
  from Cons.prems(1) [rule_format, of 0] x obtain v y where h: "get tr i = Some j" "get tr (Suc i) = Some v"
    "get ptrs j = Some y" "(y = v) = (large = b)" by auto
  have t: "\<forall>k < length c. get tr (Suc i + k) = Some (fst (c ! k)) \<and> (\<exists>v. get tr (Suc (Suc i + k)) = Some v
      \<and> (\<exists>x. get ptrs (fst (c ! k)) = Some x \<and> (x = v) = (fst (snd (c ! k)) = b)))"
    using Cons.prems(1) by (auto simp: nth_Cons split: nat.splits)
  show ?case
  proof (cases "large = b")
    case True
    have "split_spine ptrs tr (Suc i) (length c) (True, root, j, out[pos := j]) = Some (True, root, last (j # marks b c), link_path (j # marks b c) (out[pos := j]))"
      by (rule Cons.IH [OF t]) (use Cons.prems(2) x True in auto)
    moreover have "pos < length out" using Cons.prems(2) by simp
    ultimately show ?thesis using h x True by simp
  next
    case False
    have "split_spine ptrs tr (Suc i) (length c) (True, root, pos, out) = Some (True, root, last (pos # marks b c), link_path (pos # marks b c) out)"
      by (rule Cons.IH [OF t]) (use Cons.prems(2) x False in auto)
    then show ?thesis using h x False by simp
  qed
qed simp

lemma split_spine_start:
  assumes "\<forall>k < length c. get tr (i + k) = Some (fst (c ! k)) \<and> (\<exists>v. get tr (Suc (i + k)) = Some v
      \<and> (\<exists>x. get ptrs (fst (c ! k)) = Some x \<and> (x = v) = (fst (snd (c ! k)) = b)))"
    and "kept b c = x # xs" "set (marks b c) \<subseteq> {..<length out}"
  shows "split_spine ptrs tr i (length c) (False, root, pos, out) = Some (True, hd (marks b c), last (marks b c), link_path (marks b c) out)"
  using assms
proof (induction c arbitrary: i)
  case (Cons y c)
  obtain j large s where y: "y = (j, large, s)" by (cases y)
  from Cons.prems(1) [rule_format, of 0] y obtain v z where h: "get tr i = Some j" "get tr (Suc i) = Some v"
    "get ptrs j = Some z" "(z = v) = (large = b)" by auto
  have t: "\<forall>k < length c. get tr (Suc i + k) = Some (fst (c ! k)) \<and> (\<exists>v. get tr (Suc (Suc i + k)) = Some v
      \<and> (\<exists>x. get ptrs (fst (c ! k)) = Some x \<and> (x = v) = (fst (snd (c ! k)) = b)))"
    using Cons.prems(1) by (auto simp: nth_Cons split: nat.splits)
  show ?case
  proof (cases "large = b")
    case True
    have "set (j # marks b c) \<subseteq> {..<length out}" using Cons.prems(3) y True by auto
    from split_spine_run [OF t this] show ?thesis using h y True by simp
  next
    case False
    have "split_spine ptrs tr (Suc i) (length c) (False, root, pos, out) = Some (True, hd (marks b c), last (marks b c), link_path (marks b c) out)"
      by (rule Cons.IH [OF t]) (use Cons.prems(2,3) y False in auto)
    then show ?thesis using h y False by simp
  qed
qed simp

text \<open>What the cut leaves is the kept side, in the changed array.\<close>

lemma kept_shape:
  assumes "shape_ctx PA sm lg v c" "\<And>x. count (ctx_branches c) x \<le> 1"
    and "length new = length (if b then lg else sm)" "path_linked (marks b c @ [v]) new"
    and "\<forall>j. j \<notin> set (marks b c) \<longrightarrow> new ! j = (if b then lg else sm) ! j"
  shows "shape_ctx PA (if b then sm else new) (if b then new else lg) v (kept b c)"
proof -
  have "shape_ctx PA (if b then sm else new) (if b then new else lg) v (kept b c)"
    if "shape_ctx PA sm lg v c" "\<And>x. count (ctx_branches c) x \<le> 1" "path_linked (marks b c @ [v]) new"
      "\<forall>j \<in># ctx_branches c. j \<notin> set (marks b c) \<longrightarrow> new ! j = (if b then lg else sm) ! j" for c
    using that
  proof (induction c rule: ctx_branches.induct)
    case (2 i large s c)
    have cnt: "count (ctx_branches c) x \<le> 1" for x using 2(3) [of x] by (simp split: if_splits)
    have ih: "shape_ctx PA (if b then sm else new) (if b then new else lg) v (kept b c)"
    proof (rule 2(1))
      show "shape_ctx PA sm lg v c" using 2(2) by simp
      show "path_linked (marks b c @ [v]) new" using 2(4) by (cases "kept b c") (auto split: if_splits)
      show "\<forall>j \<in># ctx_branches c. j \<notin> set (marks b c) \<longrightarrow> new ! j = (if b then lg else sm) ! j"
      proof (intro ballI impI)
        fix j assume j: "j \<in># ctx_branches c" "j \<notin> set (marks b c)"
        have "j \<noteq> i" using 2(3) [of i] j(1) by (auto simp: count_eq_zero_iff)
        then show "new ! j = (if b then lg else sm) ! j" using 2(5) j by auto
      qed
    qed (use cnt in blast)
    show ?case
    proof (cases "large = b")
      case True
      have nb: "j \<notin> set (marks b ((i, large, s) # c))" if j: "j \<in># branches_of s" for j
      proof -
        obtain m where m: "count (branches_of s) j = Suc m" using j by (cases "count (branches_of s) j") (auto simp: count_eq_zero_iff)
        then have "j \<noteq> i" "count (ctx_branches c) j = 0" using 2(3) [of j] by (auto split: if_splits)
        then have "j \<notin># ctx_branches c" by (simp add: not_in_iff)
        moreover have "set (marks b c) \<subseteq> set_mset (ctx_branches c)" by (auto simp: kept_def intro: in_ctx_branches)
        ultimately show ?thesis using \<open>j \<noteq> i\<close> by auto
      qed
      have sh: "shape PA (if b then sm else new) (if b then new else lg) s"
        by (rule shape_cong [of PA sm lg]) (use 2(2,5) assms(3) nb in auto)
      have cv: "ctx_val v (kept b c) = hd (marks b c @ [v])" by (cases "kept b c") (auto split: prod.splits)
      obtain w ws where w: "marks b c @ [v] = w # ws" by (cases "marks b c @ [v]") auto
      have "new ! i = ctx_val v (kept b c)" using 2(4) True unfolding cv by (simp add: w)
      then show ?thesis using 2(2) ih sh True assms(3) by (cases b) auto
    next
      case False
      then show ?thesis using ih by simp
    qed
  qed simp
  then show ?thesis using assms by blast
qed

lemma marks_distinct:
  assumes "\<And>x. count (ctx_branches c) x \<le> 1"
  shows "distinct (marks b c)"
  using assms
proof (induction c rule: ctx_branches.induct)
  case (2 i large s c)
  have "count (ctx_branches c) x \<le> 1" for x using 2(2) [of x] by (simp split: if_splits)
  then have "distinct (marks b c)" by (rule 2(1))
  moreover have "i \<notin># ctx_branches c" using 2(2) [of i] by (auto simp: count_eq_zero_iff)
  moreover have "set (marks b c) \<subseteq> set_mset (ctx_branches c)" by (auto simp: kept_def intro: in_ctx_branches)
  ultimately show ?case by auto
qed simp

lemma cut_path_spec:
  assumes "trie_repr c db nd t" "t = plug ctx (Lf p)" "path_in tr (vals (PTR_AREA c) ctx (Lf p))" "kept b ctx \<noteq> []"
  defines "ptrs \<equiv> if b then large_ptr nd else small_ptr nd" and "u \<equiv> plug (kept b ctx) (Lf p)"
  shows "\<exists>out. cut_path (t_root nd) ptrs tr (Suc (length ctx)) = Some (root_val (PTR_AREA c) u, out) \<and> length out = length ptrs
    \<and> shape (PTR_AREA c) (if b then small_ptr nd else out) (if b then out else large_ptr nd) u"
proof -
  let ?PA = "PTR_AREA c" and ?m = "marks b ctx" and ?out = "link_path (marks b ctx @ [PTR_AREA c + p]) ptrs"
  note r = trie_reprD [OF assms(1)]
  have sc: "shape_ctx ?PA (small_ptr nd) (large_ptr nd) (?PA + p) ctx" using r(8) by (simp add: assms(2) shape_plug)
  have cnt: "count (ctx_branches ctx) x \<le> 1" for x
    using mset_upt_once [OF r(9), of x] by (simp add: assms(2) branches_plug)
  have step: "\<forall>k < length ctx. get tr (0 + k) = Some (fst (ctx ! k)) \<and> (\<exists>v. get tr (Suc (0 + k)) = Some v
      \<and> (\<exists>x. get ptrs (fst (ctx ! k)) = Some x \<and> (x = v) = (fst (snd (ctx ! k)) = b)))"
  proof (intro allI impI)
    fix k assume k: "k < length ctx"
    obtain i large s where x: "ctx ! k = (i, large, s)" by (cases "ctx ! k")
    have d: "ctx = take k ctx @ (i, large, s) # drop (Suc k) ctx" using id_take_nth_drop [OF k] x by simp
    have l: "length (take k ctx) = k" using k by simp
    have "t = plug (take k ctx @ (i, large, s) # drop (Suc k) ctx) (Lf p)" using assms(2) d by simp
    note f = came_from [OF r(8,14) this]
    have "path_in tr (vals ?PA (take k ctx @ (i, large, s) # drop (Suc k) ctx) (Lf p))" using assms(3) d by simp
    note g = path_step [OF this, unfolded l]
    show "get tr (0 + k) = Some (fst (ctx ! k)) \<and> (\<exists>v. get tr (Suc (0 + k)) = Some v
      \<and> (\<exists>x. get ptrs (fst (ctx ! k)) = Some x \<and> (x = v) = (fst (snd (ctx ! k)) = b)))"
      using f(2-5) g unfolding x by (cases b) (auto simp: ptrs_def)
  qed
  have inb: "set ?m \<subseteq> {..<length ptrs}"
  proof
    fix j assume "j \<in> set ?m"
    then have "j \<in># ctx_branches ctx" by (auto simp: kept_def intro: in_ctx_branches)
    then have "j \<in># branches_of t" by (simp add: assms(2) branches_plug)
    from shape_branch [OF r(8) this] show "j \<in> {..<length ptrs}" by (simp add: ptrs_def)
  qed
  obtain x xs where k: "kept b ctx = x # xs" using assms(4) by (cases "kept b ctx") auto
  then have ne: "?m \<noteq> []" by simp
  from split_spine_start [OF step k inb, of "t_root nd" "t_root nd"]
  have run: "split_spine ptrs tr 0 (length ctx) (False, t_root nd, t_root nd, ptrs) = Some (True, hd ?m, last ?m, link_path ?m ptrs)" .
  have lastv: "get tr (length ctx) = Some (?PA + p)" using path_get [OF assms(3), of "length ctx"] by (simp add: vals_def nth_append)
  have "last ?m < length ptrs" using inb last_in_set [OF ne] by blast
  then have "cut_path (t_root nd) ptrs tr (Suc (length ctx)) = Some (hd ?m, ?out)"
    using run lastv by (simp add: cut_path_def link_snoc [OF ne])
  moreover have "hd ?m = root_val ?PA u" using k by (cases x) (auto simp: u_def)
  moreover have "shape ?PA (if b then small_ptr nd else ?out) (if b then ?out else large_ptr nd) u"
  proof -
    have "path_linked (?m @ [?PA + p]) ?out" by (rule path_linked_link) (use marks_distinct cnt inb in auto)
    from kept_shape [OF sc cnt _ this] show ?thesis by (simp add: u_def shape_plug ptrs_def link_other)
  qed
  ultimately show ?thesis by auto
qed

text \<open>The walk to the middle of a node.\<close>

lemma next_items_spec:
  assumes "trie_repr c db nd t" "t = plug ctx (Lf p)" "path_in tr (vals (PTR_AREA c) ctx (Lf p))" "T_SLOTS c \<le> length tr"
    and "n \<le> length (rights ctx)"
  shows "\<exists>ctx' p' tr'. next_items c nd n tr (Suc (length ctx)) = Some (tr', Suc (length ctx'))
    \<and> t = plug ctx' (Lf p') \<and> path_in tr' (vals (PTR_AREA c) ctx' (Lf p')) \<and> length tr' = length tr \<and> length (rights ctx') = length (rights ctx) - n"
  using assms(2-)
proof (induction n arbitrary: ctx p tr)
  case (Suc n)
  have ah: "ahead False ctx' = rights ctx'" for ctx' by (simp add: ahead_def)
  have "ahead False ctx \<noteq> []" using Suc.prems(4) by (auto simp: ah)
  from step_item_spec [OF assms(1) Suc.prems(1,2,3) this] obtain q ctx' tr' where
    s: "t_bring_next_item c nd tr (Suc (length ctx)) = Some (PTR_AREA c + q, tr', Suc (length ctx'))"
      "t = plug ctx' (Lf q)" "path_in tr' (vals (PTR_AREA c) ctx' (Lf q))" "length tr' = length tr" "rights ctx = q # rights ctx'"
    unfolding t_bring_next_item_def ah by auto
  from Suc.IH [OF s(2,3)] s(1,4,5) Suc.prems(3,4) show ?case by auto
qed auto

section \<open>Copying a tree into a new node\<close>

abbreviation nb :: "ptree \<Rightarrow> nat" where
  "nb t \<equiv> size (branches_of t)"

text \<open>The numbers the walk gives to keys, from \<open>k\<close> on, and to branchings, from \<open>b\<close> on.\<close>

fun numbered :: "nat \<Rightarrow> nat \<Rightarrow> ptree \<Rightarrow> ptree" where
  "numbered k b (Lf p) = Lf k"
| "numbered k b (Br i l r) = Br b (numbered k (b + 1) l) (numbered (k + Suc (nb l)) (b + 1 + nb l) r)"

fun copied :: "nat \<Rightarrow> trie \<Rightarrow> trie \<Rightarrow> nat \<Rightarrow> nat \<Rightarrow> ptree \<Rightarrow> bool" where
  "copied PA old nd k b (Lf p) \<longleftrightarrow> t_key_ptr nd ! k = t_key_ptr old ! p"
| "copied PA old nd k b (Br i l r) \<longleftrightarrow> t_blindiKeys nd ! b = t_blindiKeys old ! i \<and> small_ptr nd ! b = root_val PA (numbered k (b + 1) l)
     \<and> large_ptr nd ! b = root_val PA (numbered (k + Suc (nb l)) (b + 1 + nb l) r)
     \<and> copied PA old nd k (b + 1) l \<and> copied PA old nd (k + Suc (nb l)) (b + 1 + nb l) r"

lemma copied_cong:
  assumes "copied PA old nd k b u" "\<forall>x. k \<le> x \<and> x < k + Suc (nb u) \<longrightarrow> t_key_ptr nd' ! x = t_key_ptr nd ! x"
    and "\<forall>x. b \<le> x \<and> x < b + nb u \<longrightarrow> t_blindiKeys nd' ! x = t_blindiKeys nd ! x \<and> small_ptr nd' ! x = small_ptr nd ! x \<and> large_ptr nd' ! x = large_ptr nd ! x"
  shows "copied PA old nd' k b u"
  using assms
proof (induction u arbitrary: k b)
  case (Br i l r)
  have "copied PA old nd' k (b + 1) l" by (rule Br.IH(1)) (use Br.prems in auto)
  moreover have "copied PA old nd' (k + Suc (nb l)) (b + 1 + nb l) r" by (rule Br.IH(2)) (use Br.prems in auto)
  ultimately show ?case using Br.prems by auto
qed auto

lemma leaves_num: "leaves_of (numbered k b u) = [k ..< k + Suc (nb u)]"
proof (induction u arbitrary: k b)
  case (Br i l r)
  have "[k ..< k + Suc (nb (Br i l r))] = [k ..< k + Suc (nb l)] @ [k + Suc (nb l) ..< k + Suc (nb l) + Suc (nb r)]"
    using upt_add_eq_append [of k "k + Suc (nb l)" "Suc (nb r)"] by (simp add: ac_simps)
  then show ?case by (simp only: numbered.simps leaves_of.simps Br)
qed simp

lemma branches_num: "branches_of (numbered k b u) = mset [b ..< b + nb u]"
proof (induction u arbitrary: k b)
  case (Br i l r)
  have "[b ..< b + Suc (nb l + nb r)] = b # [b + 1 ..< b + Suc (nb l + nb r)]" using upt_conv_Cons [of b "b + Suc (nb l + nb r)"] by simp
  also have "b + Suc (nb l + nb r) = b + 1 + nb l + nb r" by simp
  also have "[b + 1 ..< b + 1 + nb l + nb r] = [b + 1 ..< b + 1 + nb l] @ [b + 1 + nb l ..< b + 1 + nb l + nb r]"
    by (rule upt_add_eq_append) simp
  finally have u: "[b ..< b + 1 + nb l + nb r] = b # [b + 1 ..< b + 1 + nb l] @ [b + 1 + nb l ..< b + 1 + nb l + nb r]" .
  have "b + nb (Br i l r) = b + 1 + nb l + nb r" by simp
  then show ?case by (simp only: numbered.simps branches_of.simps(2) [of b] Br u mset.simps mset_append)
qed simp

lemma copied_shape:
  assumes "copied PA old nd k b u" "b + nb u \<le> n" "n \<le> PA" "length (small_ptr nd) = n" "length (large_ptr nd) = n"
  shows "shape PA (small_ptr nd) (large_ptr nd) (numbered k b u)"
  using assms by (induction u arbitrary: k b) auto

lemma copied_keys:
  assumes "copied PA old nd k b u"
  shows "map (\<lambda>q. t_key_ptr nd ! q) [k ..< k + Suc (nb u)] = map (\<lambda>p. t_key_ptr old ! p) (leaves_of u)"
  using assms
proof (induction u arbitrary: k b)
  case (Br i l r)
  have "[k ..< k + Suc (nb (Br i l r))] = [k ..< k + Suc (nb l)] @ [k + Suc (nb l) ..< k + Suc (nb l) + Suc (nb r)]"
    using upt_add_eq_append [of k "k + Suc (nb l)" "Suc (nb r)"] by (simp add: ac_simps)
  moreover note Br.IH(1) [of k "b + 1"] Br.IH(2) [of "k + Suc (nb l)" "b + 1 + nb l"] Br.prems
  ultimately show ?case by (simp only: copied.simps leaves_of.simps map_append)
qed simp

lemma copied_blind:
  assumes "copied PA old nd k b u" "bl.blind L (\<lambda>p. db (t_key_ptr old ! p)) (\<lambda>i. t_blindiKeys old ! i) u"
  shows "bl.blind L (\<lambda>p. db (t_key_ptr nd ! p)) (\<lambda>i. t_blindiKeys nd ! i) (numbered k b u)"
  using assms
proof (induction u arbitrary: k b)
  case (Br i l r)
  let ?K = "\<lambda>p. db (t_key_ptr old ! p)" and ?K' = "\<lambda>p. db (t_key_ptr nd ! p)"
  let ?r = "k + Suc (nb l)"
  have keys: "?K' ` set (leaves_of (numbered k b u)) = ?K ` set (leaves_of u)" if "copied PA old nd k b u" for k b u
  proof -
    have "map db (map (\<lambda>q. t_key_ptr nd ! q) [k ..< k + Suc (nb u)]) = map db (map (\<lambda>p. t_key_ptr old ! p) (leaves_of u))"
      by (simp only: copied_keys [OF that])
    then have "set (map ?K' (leaves_of (numbered k b u))) = set (map ?K (leaves_of u))" by (simp only: leaves_num map_map o_def)
    then show ?thesis by simp
  qed
  have c: "copied PA old nd k (b + 1) l" "copied PA old nd ?r (b + 1 + nb l) r" "t_blindiKeys nd ! b = t_blindiKeys old ! i"
    using Br.prems(1) by simp_all
  have all: "(\<forall>a \<in> A. \<forall>b \<in> B. bl.apart K d a b) \<longleftrightarrow> (\<forall>x \<in> K ` A. \<forall>y \<in> K ` B. key_less x y \<and> key_dif x y = d)" for A B K d
    by (auto simp: bl.apart_def)
  show ?case using Br.IH(1) [OF c(1)] Br.IH(2) [OF c(2)] Br.prems(2) c(3)
    by (simp add: all keys [OF c(1), simplified] keys [OF c(2), simplified])
qed simp

section \<open>The loop that copies\<close>

fun fill_steps :: "tcfg \<Rightarrow> trie \<Rightarrow> nat list \<Rightarrow> nat list \<Rightarrow> nat \<Rightarrow> fill \<Rightarrow> fill option" where
  "fill_steps c old sm lg 0 st = Some st"
| "fill_steps c old sm lg (Suc n) st =
     (if f_kcnt st < T_SLOTS c div 2 then do { st \<leftarrow> fill_step c old sm lg st; fill_steps c old sm lg n st } else None)"

lemma fill_steps_add: "fill_steps c old sm lg m st = Some st' \<Longrightarrow> fill_steps c old sm lg (m + n) st = fill_steps c old sm lg n st'"
  by (induction m arbitrary: st) (auto split: if_splits Option.bind_splits)

lemma fill_loop_steps:
  "fill_steps c old sm lg n st = Some st' \<Longrightarrow> T_SLOTS c div 2 \<le> f_kcnt st' \<Longrightarrow> n \<le> fuel \<Longrightarrow> fill_loop c old sm lg fuel st = Some st'"
proof (induction n arbitrary: st fuel)
  case 0
  then show ?case by (subst fill_loop.simps) simp
next
  case (Suc n)
  then obtain f where "fuel = Suc f" by (cases fuel) auto
  with Suc show ?case by (subst fill_loop.simps) (auto split: if_splits Option.bind_splits)
qed

definition fill_ok :: "tcfg \<Rightarrow> fill \<Rightarrow> nat list \<Rightarrow> bool" where
  "fill_ok c st stack \<longleftrightarrow> path_in (f_tr st) stack \<and> f_len st = length stack \<and> length (f_tr st) = T_SLOTS c
     \<and> length (f_nu st) = T_SLOTS c - 1 \<and> length (f_newpos st) = T_SLOTS c - 1 \<and> length (t_blindiKeys (f_node st)) = T_SLOTS c - 1
     \<and> length (small_ptr (f_node st)) = T_SLOTS c - 1 \<and> length (large_ptr (f_node st)) = T_SLOTS c - 1 \<and> length (t_key_ptr (f_node st)) = T_SLOTS c"

text \<open>Branchings that have been left twice are taken off the stack.\<close>

lemma fill_pops:
  assumes "fill_ok c st (stack @ ext)" "\<forall>x \<in> set ext. x < T_SLOTS c - 1 \<and> f_nu st ! x = 2" "f_kcnt st < T_SLOTS c div 2"
    "length lg = T_SLOTS c - 1" "length (stack @ ext) < T_SLOTS c"
  shows "\<exists>tr. fill_steps c old sm lg (length ext) st = Some (st \<lparr> f_tr := tr, f_len := length stack \<rparr>)
    \<and> fill_ok c (st \<lparr> f_tr := tr, f_len := length stack \<rparr>) stack"
  using assms
proof (induction ext arbitrary: st rule: rev_induct)
  case Nil
  then have "st \<lparr> f_tr := f_tr st, f_len := length stack \<rparr> = st" by (simp add: fill_ok_def)
  with Nil show ?case by (intro exI [of _ "f_tr st"]) simp
next
  case (snoc x ext)
  let ?st = "st \<lparr> f_tr := (f_tr st)[f_len st := lg ! x], f_len := f_len st - 1 \<rparr>"
  have o: "path_in (f_tr st) (stack @ ext @ [x])" "f_len st = Suc (length (stack @ ext))" using snoc.prems(1) by (simp_all add: fill_ok_def)
  have top: "get (f_tr st) (f_len st - 1) = Some x" using path_get [OF o(1), of "length (stack @ ext)"] o(2) by (simp add: nth_append)
  have p: "path_in (f_tr st) (stack @ ext)" using o(1) path_prefix [of "f_tr st" "stack @ ext" "[x]"] by simp
  have "path_in ((f_tr st)[f_len st := lg ! x]) (stack @ ext)" using p o(2) by (simp add: path_in_def)
  then have ok: "fill_ok c ?st (stack @ ext)" using snoc.prems(1) o(2) by (simp add: fill_ok_def)
  have step: "fill_step c old sm lg st = Some ?st"
    using top o(2) snoc.prems by (simp add: fill_step_def fill_ok_def)
  obtain tr where tr: "fill_steps c old sm lg (length ext) ?st = Some (?st \<lparr> f_tr := tr, f_len := length stack \<rparr>)"
    "fill_ok c (?st \<lparr> f_tr := tr, f_len := length stack \<rparr>) stack"
    using snoc.IH [OF ok] snoc.prems by auto
  have e: "?st \<lparr> f_tr := tr, f_len := length stack \<rparr> = st \<lparr> f_tr := tr, f_len := length stack \<rparr>" by simp
  show ?case using tr step snoc.prems(3) unfolding e by (intro exI [of _ tr]) simp
qed

definition side_of :: "bool \<Rightarrow> trie \<Rightarrow> nat list" where
  "side_of large nd = (if large then large_ptr nd else small_ptr nd)"

text \<open>What a run changes: nothing of the keys and branchings that were copied before, but one pointer.\<close>

definition untouched :: "nat \<Rightarrow> nat \<Rightarrow> nat \<Rightarrow> bool \<Rightarrow> nat set \<Rightarrow> nat \<Rightarrow> fill \<Rightarrow> fill \<Rightarrow> bool" where
  "untouched k b bi large U i st st' \<longleftrightarrow> (\<forall>x. x \<notin> U \<longrightarrow> f_newpos st' ! x = f_newpos st ! x) \<and> (\<forall>x. x \<notin> U \<and> x \<noteq> i \<longrightarrow> f_nu st' ! x = f_nu st ! x)
     \<and> (\<forall>x < k. t_key_ptr (f_node st') ! x = t_key_ptr (f_node st) ! x) \<and> (\<forall>x < b. t_blindiKeys (f_node st') ! x = t_blindiKeys (f_node st) ! x)
     \<and> (\<forall>x < b. large \<or> x \<noteq> bi \<longrightarrow> small_ptr (f_node st') ! x = small_ptr (f_node st) ! x)
     \<and> (\<forall>x < b. \<not> large \<or> x \<noteq> bi \<longrightarrow> large_ptr (f_node st') ! x = large_ptr (f_node st) ! x) \<and> t_root (f_node st') = t_root (f_node st)"

text \<open>A run that copies the tree \<open>u\<close> below one side of the branching \<open>i\<close> on top of the stack.\<close>

definition fill_pre :: "tcfg \<Rightarrow> nat list \<Rightarrow> nat list \<Rightarrow> fill \<Rightarrow> nat list \<Rightarrow> nat \<Rightarrow> nat \<Rightarrow> bool \<Rightarrow> ptree \<Rightarrow> bool" where
  "fill_pre c sm lg st base i bi large u \<longleftrightarrow> fill_ok c st (base @ [i]) \<and> i < T_SLOTS c - 1 \<and> f_nu st ! i = of_bool large
     \<and> (if large then lg else sm) ! i = root_val (PTR_AREA c) u \<and> shape (PTR_AREA c) sm lg u
     \<and> f_newpos st ! i = bi \<and> bi < f_bcnt st \<and> i \<notin># branches_of u \<and> (\<forall>x \<in># branches_of u. f_nu st ! x = 0) \<and> (\<forall>x. count (branches_of u) x \<le> 1)
     \<and> (\<forall>p \<in> set (leaves_of u). p < T_SLOTS c)
     \<and> f_kcnt st + Suc (nb u) \<le> T_SLOTS c div 2 \<and> f_bcnt st + nb u \<le> T_SLOTS c - 1 \<and> length base + 1 + nb u < T_SLOTS c"

definition fill_post :: "tcfg \<Rightarrow> trie \<Rightarrow> fill \<Rightarrow> fill \<Rightarrow> nat list \<Rightarrow> nat list \<Rightarrow> nat \<Rightarrow> nat \<Rightarrow> bool \<Rightarrow> ptree \<Rightarrow> bool" where
  "fill_post c old st st' base ext i bi large u \<longleftrightarrow> fill_ok c st' (base @ i # ext) \<and> f_kcnt st' = f_kcnt st + Suc (nb u) \<and> f_bcnt st' = f_bcnt st + nb u
     \<and> length ext \<le> nb u \<and> (\<forall>x \<in> set ext. x \<in># branches_of u \<and> f_nu st' ! x = 2) \<and> f_nu st' ! i = (if large then 2 else 1)
     \<and> untouched (f_kcnt st) (f_bcnt st) bi large (set_mset (branches_of u)) i st st'
     \<and> copied (PTR_AREA c) old (f_node st') (f_kcnt st) (f_bcnt st) u
     \<and> side_of large (f_node st') ! bi = root_val (PTR_AREA c) (numbered (f_kcnt st) (f_bcnt st) u)"

text \<open>The step that reads one side.\<close>

lemma fill_step_side:
  assumes "fill_pre c sm lg st base i bi large u"
  shows "fill_step c old sm lg st = fill_side c old (if large then lg else sm) large i (st \<lparr> f_nu := (f_nu st)[i := if large then 2 else 1] \<rparr>)"
proof -
  have o: "path_in (f_tr st) (base @ [i])" "f_len st = Suc (length base)" "length (f_nu st) = T_SLOTS c - 1" "i < T_SLOTS c - 1" "f_nu st ! i = of_bool large"
    using assms by (simp_all add: fill_pre_def fill_ok_def)
  have "get (f_tr st) (length base) = Some i" using path_get [OF o(1), of "length base"] by (simp add: nth_append)
  then show ?thesis using o by (cases large) (simp_all add: fill_step_def)
qed

lemma fill_leaf:
  assumes "fill_pre c sm lg st base i bi large (Lf p)" "length sm = T_SLOTS c - 1" "length lg = T_SLOTS c - 1"
    and "length (t_key_ptr old) = T_SLOTS c" "T_SLOTS c \<le> PTR_AREA c" "t_idx_mod c = 2 * PTR_AREA c"
  shows "\<exists>st'. fill_step c old sm lg st = Some st' \<and> fill_post c old st st' base [] i bi large (Lf p)"
proof -
  note a = assms(1) [unfolded fill_pre_def]
  have ok: "fill_ok c st (base @ [i])" using a by blast
  have k: "f_kcnt st < PTR_AREA c" "f_kcnt st < T_SLOTS c" "bi < T_SLOTS c - 1" "p < T_SLOTS c" using a assms(5) by auto
  have g: "get (if large then lg else sm) i = Some (PTR_AREA c + p)" using a assms(2,3) by (cases large) auto
  show ?thesis
    using a ok k g fill_step_side [OF assms(1), of old] assms(4-6)
    by (cases large)
      (simp_all add: fill_side_def set_side_def fill_ok_def fill_post_def untouched_def side_of_def Let_def)
qed

text \<open>The step that pushes a branching; the run goes on with its small side.\<close>

lemma fill_push:
  assumes "fill_pre c sm lg st base i bi large (Br j l r)" "length sm = T_SLOTS c - 1" "length lg = T_SLOTS c - 1"
    and "length (t_blindiKeys old) = T_SLOTS c - 1" "T_SLOTS c \<le> PTR_AREA c" "t_idx_mod c = 2 * PTR_AREA c"
  shows "\<exists>st'. fill_step c old sm lg st = Some st' \<and> fill_pre c sm lg st' (base @ [i]) j (f_bcnt st) False l
    \<and> f_kcnt st' = f_kcnt st \<and> f_bcnt st' = f_bcnt st + 1 \<and> f_nu st' ! i = (if large then 2 else 1) \<and> f_newpos st' ! j = f_bcnt st
    \<and> (\<forall>x. x \<noteq> j \<longrightarrow> f_newpos st' ! x = f_newpos st ! x) \<and> (\<forall>x. x \<noteq> i \<longrightarrow> f_nu st' ! x = f_nu st ! x)
    \<and> (\<forall>x. t_key_ptr (f_node st') ! x = t_key_ptr (f_node st) ! x) \<and> (\<forall>x < f_bcnt st. t_blindiKeys (f_node st') ! x = t_blindiKeys (f_node st) ! x)
    \<and> (\<forall>x. large \<or> x \<noteq> bi \<longrightarrow> small_ptr (f_node st') ! x = small_ptr (f_node st) ! x)
    \<and> (\<forall>x. \<not> large \<or> x \<noteq> bi \<longrightarrow> large_ptr (f_node st') ! x = large_ptr (f_node st) ! x) \<and> t_root (f_node st') = t_root (f_node st)
    \<and> t_blindiKeys (f_node st') ! f_bcnt st = t_blindiKeys old ! j \<and> side_of large (f_node st') ! bi = f_bcnt st"
proof -
  note a = assms(1) [unfolded fill_pre_def]
  have ok: "fill_ok c st (base @ [i])" using a by blast
  have j: "j < PTR_AREA c" "j < T_SLOTS c - 1" "j \<noteq> i" "f_bcnt st < T_SLOTS c - 1" "bi < T_SLOTS c - 1" "f_bcnt st < PTR_AREA c"
    "f_len st = Suc (length base)" "Suc (length base) < T_SLOTS c"
    using a ok assms(2,3,5) by (auto simp: fill_ok_def)
  have g: "get (if large then lg else sm) i = Some j" using a assms(2,3) by (cases large) auto
  have b: "\<forall>x. count (branches_of l) x \<le> 1"
  proof
    fix x
    have "count (branches_of (Br j l r)) x \<le> 1" using a by blast
    then show "count (branches_of l) x \<le> 1" by (simp split: if_splits)
  qed
  have "count (branches_of (Br j l r)) j \<le> 1" using a by blast
  then have jl: "j \<notin># branches_of l" by (simp add: not_in_iff)
  have il: "i \<notin># branches_of l" using a by auto
  have p: "path_in ((f_tr st)[Suc (length base) := j]) (base @ [i, j])"
    using path_put [of "f_tr st" "base @ [i]" j] ok j by (simp add: fill_ok_def)
  have nul: "f_nu st ! j = 0" "\<forall>x \<in># branches_of l. f_nu st ! x = 0" using a by auto
  have nui: "(f_nu st)[i := v] ! x = f_nu st ! x" if "x \<in># branches_of l \<or> x = j" for x v using that il j(3) by (cases "x = i") auto
  show ?thesis
    using a ok g fill_step_side [OF assms(1), of old] assms(4-6) j p b jl il nul nui
    by (cases large)
      (simp_all add: fill_side_def set_side_def fill_ok_def fill_pre_def side_of_def Let_def)
qed

text \<open>After the small side the branching is on top again, ready for its large side.\<close>

lemma fill_turn:
  assumes "fill_pre c sm lg st base j bj False l" "fill_post c old st st' base ext j bj False l"
    and "nb l + 1 + nb r + length base + 1 \<le> T_SLOTS c"
    and "shape (PTR_AREA c) sm lg r" "lg ! j = root_val (PTR_AREA c) r" "j \<notin># branches_of r" "\<forall>x \<in># branches_of r. f_nu st ! x = 0"
    and "\<forall>x. count (branches_of l + branches_of r) x \<le> 1" "\<forall>p \<in> set (leaves_of r). p < T_SLOTS c"
    and "f_kcnt st + Suc (nb l) + Suc (nb r) \<le> T_SLOTS c div 2" "f_bcnt st + nb l + nb r \<le> T_SLOTS c - 1"
    and "length sm = T_SLOTS c - 1" "length lg = T_SLOTS c - 1"
  shows "\<exists>st3. fill_steps c old sm lg (length ext) st' = Some st3 \<and> fill_pre c sm lg st3 base j bj True r
    \<and> fill_post c old st st3 base [] j bj False l"
proof -
  note a = assms(1) [unfolded fill_pre_def] and b = assms(2) [unfolded fill_post_def]
  have e: "fill_ok c st' ((base @ [j]) @ ext)" "\<forall>x \<in> set ext. x < T_SLOTS c - 1 \<and> f_nu st' ! x = 2"
    using b shape_branch [of "PTR_AREA c" sm lg l] a assms(12) by auto
  have kc: "f_kcnt st' < T_SLOTS c div 2" using b assms(10) by simp
  have len: "length ((base @ [j]) @ ext) < T_SLOTS c" using b assms(3) by simp
  obtain tr where tr: "fill_steps c old sm lg (length ext) st' = Some (st' \<lparr> f_tr := tr, f_len := length (base @ [j]) \<rparr>)"
    "fill_ok c (st' \<lparr> f_tr := tr, f_len := length (base @ [j]) \<rparr>) (base @ [j])" (is "fill_ok c ?st _")
    using fill_pops [OF e kc assms(13) len] by blast
  have dis: "x \<notin># branches_of l" if "x \<in># branches_of r" for x
    using once_disjoint [of "branches_of r" "branches_of l" x] assms(8) that by (simp add: ac_simps)
  have cr: "\<forall>x. count (branches_of r) x \<le> 1"
  proof
    fix x
    show "count (branches_of r) x \<le> 1" using assms(8) [rule_format, of x] by simp
  qed
  have nur: "\<forall>x \<in># branches_of r. f_nu ?st ! x = 0"
  proof
    fix x assume x: "x \<in># branches_of r"
    then have "x \<notin># branches_of l" "x \<noteq> j" using dis assms(6) by auto
    then have "f_nu st' ! x = f_nu st ! x" using b by (simp add: untouched_def)
    then show "f_nu ?st ! x = 0" using assms(7) x by simp
  qed
  have np: "f_newpos ?st ! j = bj" using a b by (auto simp: untouched_def)
  have "fill_pre c sm lg ?st base j bj True r"
    using a b tr(2) nur np cr assms by (simp add: fill_pre_def)
  moreover have "fill_post c old st ?st base [] j bj False l" using b tr(2) by (simp add: fill_post_def untouched_def)
  ultimately show ?thesis using tr(1) by blast
qed

lemma fill_run:
  assumes "fill_pre c sm lg st base i bi large u" "length sm = T_SLOTS c - 1" "length lg = T_SLOTS c - 1"
    and "length (t_blindiKeys old) = T_SLOTS c - 1" "length (t_key_ptr old) = T_SLOTS c" "T_SLOTS c \<le> PTR_AREA c" "t_idx_mod c = 2 * PTR_AREA c"
  shows "\<exists>n st' ext. fill_steps c old sm lg n st = Some st' \<and> fill_post c old st st' base ext i bi large u \<and> n + length ext = 3 * nb u + 1"
  using assms(1)
proof (induction u arbitrary: st base i bi large)
  case (Lf p)
  from fill_leaf [OF this assms(2,3,5-7)] obtain st' where s: "fill_step c old sm lg st = Some st'" "fill_post c old st st' base [] i bi large (Lf p)"
    by blast
  have "f_kcnt st < T_SLOTS c div 2" using Lf by (simp add: fill_pre_def)
  then show ?case using s by (intro exI [of _ 1] exI [of _ st'] exI [of _ "[]"]) simp
next
  case (Br j l r)
  note a = Br.prems [unfolded fill_pre_def]
  from fill_push [OF Br.prems assms(2,3,4,6,7)] obtain st1 where
    s1: "fill_step c old sm lg st = Some st1" "fill_pre c sm lg st1 (base @ [i]) j (f_bcnt st) False l"
      "f_kcnt st1 = f_kcnt st" "f_bcnt st1 = f_bcnt st + 1" and i1: "f_nu st1 ! i = (if large then 2 else 1)"
    and f1: "f_newpos st1 ! j = f_bcnt st" "\<forall>x. x \<noteq> j \<longrightarrow> f_newpos st1 ! x = f_newpos st ! x" "\<forall>x. x \<noteq> i \<longrightarrow> f_nu st1 ! x = f_nu st ! x"
      "\<forall>x. t_key_ptr (f_node st1) ! x = t_key_ptr (f_node st) ! x" "\<forall>x < f_bcnt st. t_blindiKeys (f_node st1) ! x = t_blindiKeys (f_node st) ! x"
      "\<forall>x. large \<or> x \<noteq> bi \<longrightarrow> small_ptr (f_node st1) ! x = small_ptr (f_node st) ! x"
      "\<forall>x. \<not> large \<or> x \<noteq> bi \<longrightarrow> large_ptr (f_node st1) ! x = large_ptr (f_node st) ! x" "t_root (f_node st1) = t_root (f_node st)"
      "t_blindiKeys (f_node st1) ! f_bcnt st = t_blindiKeys old ! j" "side_of large (f_node st1) ! bi = f_bcnt st" by blast
  from Br.IH(1) [OF s1(2)] obtain n1 st2 e1 where
    s2: "fill_steps c old sm lg n1 st1 = Some st2" "fill_post c old st1 st2 (base @ [i]) e1 j (f_bcnt st) False l" "n1 + length e1 = 3 * nb l + 1"
    by blast
  have cnt: "\<forall>x. count (branches_of l + branches_of r) x \<le> 1" "j \<notin># branches_of l + branches_of r" "i \<noteq> j" "i \<notin># branches_of l + branches_of r"
  proof -
    have c1: "count (add_mset j (branches_of l + branches_of r)) x \<le> 1" for x using a by auto
    show "\<forall>x. count (branches_of l + branches_of r) x \<le> 1"
    proof
      fix x show "count (branches_of l + branches_of r) x \<le> 1" using c1 [of x] by (simp split: if_splits)
    qed
    show "j \<notin># branches_of l + branches_of r" using c1 [of j] by (simp add: not_in_iff)
    show "i \<noteq> j" "i \<notin># branches_of l + branches_of r" using a by auto
  qed
  have nur: "\<forall>x \<in># branches_of r. f_nu st1 ! x = 0"
  proof
    fix x assume "x \<in># branches_of r"
    then show "f_nu st1 ! x = 0" using a f1(3) cnt(4) by auto
  qed
  have "\<exists>st3. fill_steps c old sm lg (length e1) st2 = Some st3 \<and> fill_pre c sm lg st3 (base @ [i]) j (f_bcnt st) True r
    \<and> fill_post c old st1 st3 (base @ [i]) [] j (f_bcnt st) False l"
    by (rule fill_turn [OF s1(2) s2(2)]) (use a s1(3,4) cnt nur assms(2,3) in auto)
  then obtain st3 where s3: "fill_steps c old sm lg (length e1) st2 = Some st3" "fill_pre c sm lg st3 (base @ [i]) j (f_bcnt st) True r"
    "fill_post c old st1 st3 (base @ [i]) [] j (f_bcnt st) False l" by blast
  from Br.IH(2) [OF s3(2)] obtain n2 st4 e2 where
    s4: "fill_steps c old sm lg n2 st3 = Some st4" "fill_post c old st3 st4 (base @ [i]) e2 j (f_bcnt st) True r" "n2 + length e2 = 3 * nb r + 1"
    by blast
  have kc: "f_kcnt st < T_SLOTS c div 2" using a by simp
  have "fill_steps c old sm lg (n1 + (length e1 + n2)) st1 = Some st4"
    using fill_steps_add [OF s2(1), of "length e1 + n2"] fill_steps_add [OF s3(1), of n2] s4(1) by simp
  then have run: "fill_steps c old sm lg (Suc (n1 + (length e1 + n2))) st = Some st4" using s1(1) kc by simp
  have "fill_post c old st st4 base (j # e2) i bi large (Br j l r)"
  proof -
    note p = s3(3) [unfolded fill_post_def untouched_def] and q = s4(2) [unfolded fill_post_def untouched_def]
    have c: "f_kcnt st3 = f_kcnt st + Suc (nb l)" "f_bcnt st3 = f_bcnt st + 1 + nb l" using p s1(3,4) by simp_all
    have i3: "i \<notin># branches_of l" "i \<notin># branches_of r" "j \<notin># branches_of l" "j \<notin># branches_of r" using cnt by auto
    have e: "\<forall>x \<in> set (j # e2). x \<in># branches_of (Br j l r) \<and> f_nu st4 ! x = 2" using q by auto
    have ui: "f_nu st4 ! i = (if large then 2 else 1)" using p q i1 i3 cnt(3) by auto
    have un: "untouched (f_kcnt st) (f_bcnt st) bi large (set_mset (branches_of (Br j l r))) i st st4"
      unfolding untouched_def using p q f1 s1(3,4) c by auto
    have cl: "copied (PTR_AREA c) old (f_node st4) (f_kcnt st) (f_bcnt st + 1) l"
      by (rule copied_cong [of _ _ "f_node st3"]) (use p q s1(3,4) c in auto)
    have cr: "copied (PTR_AREA c) old (f_node st4) (f_kcnt st + Suc (nb l)) (f_bcnt st + 1 + nb l) r" using q c by simp
    have sides: "t_blindiKeys (f_node st4) ! f_bcnt st = t_blindiKeys old ! j"
      "small_ptr (f_node st4) ! f_bcnt st = root_val (PTR_AREA c) (numbered (f_kcnt st) (f_bcnt st + 1) l)"
      "large_ptr (f_node st4) ! f_bcnt st = root_val (PTR_AREA c) (numbered (f_kcnt st + Suc (nb l)) (f_bcnt st + 1 + nb l) r)"
      using p q f1(9) s1(3,4) c by (simp_all add: side_of_def)
    have bi: "bi < f_bcnt st" using a by simp
    have si: "side_of large (f_node st4) ! bi = f_bcnt st"
      using p q f1(10) s1(4) c bi by (cases large) (simp_all add: side_of_def)
    show ?thesis unfolding fill_post_def
      using q c e ui un cl cr sides si by simp
  qed
  then show ?case using run s2(3) s4(3) by (intro exI [of _ "Suc (n1 + (length e1 + n2))"] exI [of _ st4] exI [of _ "j # e2"]) simp
qed

text \<open>A node whose arrays have the sizes of the class, whatever is in them.\<close>

definition trie_raw :: "tcfg \<Rightarrow> trie \<Rightarrow> bool" where
  "trie_raw c nd \<longleftrightarrow> length (t_blindiKeys nd) = T_SLOTS c - 1 \<and> length (small_ptr nd) = T_SLOTS c - 1
     \<and> length (large_ptr nd) = T_SLOTS c - 1 \<and> length (t_key_ptr nd) = T_SLOTS c"

lemma fill_node_array_spec:
  assumes "shape (PTR_AREA c) sm lg (Br i l r)" "\<forall>x. count (branches_of (Br i l r)) x \<le> 1" "\<forall>p \<in> set (leaves_of (Br i l r)). p < T_SLOTS c"
    and "Suc (nb (Br i l r)) = T_SLOTS c div 2" "trie_raw c old" "trie_raw c new" "length sm = T_SLOTS c - 1" "length lg = T_SLOTS c - 1"
    and "T_SLOTS c \<le> PTR_AREA c" "t_idx_mod c = 2 * PTR_AREA c"
  shows "\<exists>nd'. fill_node_array c i sm lg old new = Some nd' \<and> trie_raw c nd' \<and> t_root nd' = 0 \<and> copied (PTR_AREA c) old nd' 0 0 (Br i l r)"
proof -
  let ?PA = "PTR_AREA c" and ?H = "T_SLOTS c div 2"
  have i: "i < T_SLOTS c - 1" using assms(1,7) by simp
  have T: "4 \<le> T_SLOTS c" and ar: "2 * (nb l + nb r + 2) \<le> T_SLOTS c" using assms(4) by simp_all
  have ar2: "Suc (nb l) \<le> T_SLOTS c - 1" "Suc (nb l) < T_SLOTS c" using ar by auto
  let ?st = "\<lparr> f_node = new \<lparr> t_root := 0, t_blindiKeys := (t_blindiKeys new)[0 := t_blindiKeys old ! i] \<rparr>,
    f_newpos = (replicate (T_SLOTS c - 1) 0)[i := 0], f_nu = replicate (T_SLOTS c - 1) 0, f_tr = (replicate (T_SLOTS c) 0)[0 := i],
    f_len = 1, f_bcnt = 1, f_kcnt = 0 \<rparr>"
  have cnt: "\<forall>x. count (branches_of l + branches_of r) x \<le> 1" "i \<notin># branches_of l" "i \<notin># branches_of r" "\<forall>x. count (branches_of l) x \<le> 1"
  proof -
    have c: "count (add_mset i (branches_of l + branches_of r)) x \<le> 1" for x using assms(2) by simp
    show "\<forall>x. count (branches_of l + branches_of r) x \<le> 1"
    proof
      fix x show "count (branches_of l + branches_of r) x \<le> 1" using c [of x] by (simp split: if_splits)
    qed
    show "i \<notin># branches_of l" "i \<notin># branches_of r" using c [of i] by (simp_all add: not_in_iff)
    show "\<forall>x. count (branches_of l) x \<le> 1"
    proof
      fix x show "count (branches_of l) x \<le> 1" using c [of x] by (simp split: if_splits)
    qed
  qed
  have nu: "replicate (T_SLOTS c - 1) (0::nat) ! x = 0" if "x \<in># branches_of (Br i l r)" for x
    using shape_branch [OF assms(1) that] assms(7) by simp
  have p: "path_in ((replicate (T_SLOTS c) 0)[0 := i]) [i]" using path_put [of "replicate (T_SLOTS c) 0" "[]" i] T by (simp add: path_in_def)
  have pre: "fill_pre c sm lg ?st [] i 0 False l"
    using p i assms(1,3-10) cnt(2-4) nu T ar2 by (simp add: fill_pre_def fill_ok_def trie_raw_def)
  from fill_run [OF pre assms(7,8) _ _ assms(9,10), of old] assms(5) obtain n1 st1 e1 where
    s1: "fill_steps c old sm lg n1 ?st = Some st1" "fill_post c old ?st st1 [] e1 i 0 False l" "n1 + length e1 = 3 * nb l + 1"
    by (auto simp: trie_raw_def)
  have "\<exists>st2. fill_steps c old sm lg (length e1) st1 = Some st2 \<and> fill_pre c sm lg st2 [] i 0 True r \<and> fill_post c old ?st st2 [] [] i 0 False l"
    by (rule fill_turn [OF pre s1(2)]) (use assms(1,3-10) cnt nu T ar in auto)
  then obtain st2 where s2: "fill_steps c old sm lg (length e1) st1 = Some st2" "fill_pre c sm lg st2 [] i 0 True r"
    "fill_post c old ?st st2 [] [] i 0 False l" by blast
  from fill_run [OF s2(2) assms(7,8) _ _ assms(9,10), of old] assms(5) obtain n2 st3 e2 where
    s3: "fill_steps c old sm lg n2 st2 = Some st3" "fill_post c old st2 st3 [] e2 i 0 True r" "n2 + length e2 = 3 * nb r + 1"
    by (auto simp: trie_raw_def)
  note a = s2(3) [unfolded fill_post_def untouched_def] and b = s3(2) [unfolded fill_post_def untouched_def]
  have run: "fill_steps c old sm lg (n1 + (length e1 + n2)) ?st = Some st3"
    using fill_steps_add [OF s1(1), of "length e1 + n2"] fill_steps_add [OF s2(1), of n2] s3(1) by simp
  have c2: "f_kcnt st2 = Suc (nb l)" "f_bcnt st2 = 1 + nb l" using a by simp_all
  have "?H \<le> f_kcnt st3" using b c2 assms(4) by simp
  moreover have "n1 + (length e1 + n2) \<le> 4 * T_SLOTS c" using s1(3) s3(3) assms(4) by simp
  ultimately have "fill_loop c old sm lg (4 * T_SLOTS c) ?st = Some st3" by (rule fill_loop_steps [OF run])
  then have "fill_node_array c i sm lg old new = Some (f_node st3)"
    using i T assms(5,6) by (simp add: fill_node_array_def trie_raw_def)
  moreover have "trie_raw c (f_node st3)" using b by (simp add: fill_ok_def trie_raw_def)
  moreover have "t_root (f_node st3) = 0" using a b by simp
  moreover have "copied ?PA old (f_node st3) 0 0 (Br i l r)"
  proof -
    have "copied ?PA old (f_node st3) 0 1 l" by (rule copied_cong [of _ _ "f_node st2"]) (use a b c2 in auto)
    moreover have "t_blindiKeys (f_node st3) ! 0 = t_blindiKeys old ! i" using a b c2 assms(6) T by (simp add: trie_raw_def)
    ultimately show ?thesis using a b c2 by (simp add: side_of_def)
  qed
  ultimately show ?thesis by blast
qed

text \<open>The copy is a node of its own.\<close>

lemma copied_repr:
  assumes "copied (PTR_AREA c) old nd 0 0 u" "trie_raw c nd" "t_root nd = 0" "Suc (nb u) = n" "n \<le> T_SLOTS c" "2 \<le> n" "T_SLOTS c \<le> PTR_AREA c"
    and "bl.blind (T_KEY_LEN c) (\<lambda>p. db (t_key_ptr old ! p)) (\<lambda>i. t_blindiKeys old ! i) u"
  shows "trie_ok c db (nd \<lparr> t_valid_len := n \<rparr>)" "trie_ptrs (nd \<lparr> t_valid_len := n \<rparr>) = map (\<lambda>p. t_key_ptr old ! p) (leaves_of u)"
proof -
  have sh: "shape (PTR_AREA c) (small_ptr nd) (large_ptr nd) (numbered 0 0 u)"
    by (rule copied_shape [OF assms(1), where n = "T_SLOTS c - 1"]) (use assms in \<open>auto simp: trie_raw_def\<close>)
  have rv: "root_val (PTR_AREA c) (numbered 0 0 u) = 0" using assms(4,6) by (cases u) auto
  have "trie_repr c db (nd \<lparr> t_valid_len := n \<rparr>) (numbered 0 0 u)"
    using assms sh rv copied_blind [OF assms(1,8)] leaves_num [of 0 0 u] branches_num [of 0 0 u]
    by (auto simp: trie_repr_def trie_raw_def)
  then show "trie_ok c db (nd \<lparr> t_valid_len := n \<rparr>)" by (auto simp: trie_ok_def)
  have "map (\<lambda>q. t_key_ptr nd ! q) [0 ..< n] = map (\<lambda>p. t_key_ptr old ! p) (leaves_of u)"
    using copied_keys [OF assms(1)] assms(4) by simp
  moreover have "map (\<lambda>q. t_key_ptr nd ! q) [0 ..< n] = take n (t_key_ptr nd)"
    using assms(2,5) by (intro nth_equalityI) (auto simp: trie_raw_def)
  ultimately show "trie_ptrs (nd \<lparr> t_valid_len := n \<rparr>) = map (\<lambda>p. t_key_ptr old ! p) (leaves_of u)" by (simp add: trie_ptrs_def)
qed

section \<open>The split\<close>

text \<open>One half: the side of a path that is kept, copied into a new node.\<close>

lemma half_spec:
  assumes "trie_repr c db nd t" "tcfg_ok c" "t = plug ctx (Lf p)" "path_in tr (vals (PTR_AREA c) ctx (Lf p))"
    and "length (if b then lefts ctx @ [p] else p # rights ctx) = T_SLOTS c div 2" "4 \<le> T_SLOTS c" "trie_raw c new"
  defines "ptrs \<equiv> if b then large_ptr nd else small_ptr nd"
  shows "\<exists>root out nd'. cut_path (t_root nd) ptrs tr (Suc (length ctx)) = Some (root, out)
    \<and> fill_node_array c root (if b then small_ptr nd else out) (if b then out else large_ptr nd) nd new = Some nd'
    \<and> trie_ok c db (nd' \<lparr> t_valid_len := T_SLOTS c div 2 \<rparr>)
    \<and> trie_ptrs (nd' \<lparr> t_valid_len := T_SLOTS c div 2 \<rparr>) = map (\<lambda>q. t_key_ptr nd ! q) (if b then lefts ctx @ [p] else p # rights ctx)"
proof -
  let ?u = "plug (kept b ctx) (Lf p)" and ?H = "T_SLOTS c div 2"
  note r = trie_reprD [OF assms(1)] and g = tcfg_okD [OF assms(2)]
  note lv = kept_leaves [of b ctx p]
  have n: "Suc (nb ?u) = ?H" using length_leaves [of ?u] assms(5) unfolding lv by simp
  then have "nb ?u \<noteq> 0" using assms(6) by linarith
  then obtain i x y where u: "?u = Br i x y" by (cases ?u) auto
  have ne: "kept b ctx \<noteq> []" using u by auto
  from cut_path_spec [OF assms(1,3,4) ne] obtain out where
    o: "cut_path (t_root nd) ptrs tr (Suc (length ctx)) = Some (i, out)" "length out = length ptrs"
      "shape (PTR_AREA c) (if b then small_ptr nd else out) (if b then out else large_ptr nd) (Br i x y)"
    unfolding u ptrs_def by auto
  have cnt: "\<forall>v. count (branches_of (Br i x y)) v \<le> 1"
  proof
    fix v
    have "count (branches_of ?u) v \<le> count (branches_of t) v" unfolding assms(3) branches_plug using kept_branches [of b ctx v] by simp
    also have "\<dots> \<le> 1" by (rule mset_upt_once [OF r(9)])
    finally show "count (branches_of (Br i x y)) v \<le> 1" unfolding u .
  qed
  have "set (leaves_of ?u) \<subseteq> set (leaves_of t)" unfolding assms(3) set_leaves_plug using kept_ctx_leaves [of b ctx] by auto
  then have lt: "\<forall>q \<in> set (leaves_of (Br i x y)). q < T_SLOTS c" using r(2,12) unfolding u by auto
  have lens: "length (if b then small_ptr nd else out) = T_SLOTS c - 1" "length (if b then out else large_ptr nd) = T_SLOTS c - 1"
    using o(2) r(4,5) by (auto simp: ptrs_def)
  have raw: "trie_raw c nd" using r(3-6) by (simp add: trie_raw_def)
  from fill_node_array_spec [OF o(3) cnt lt n [unfolded u] raw assms(7) lens g(1,2)] obtain nd' where
    f: "fill_node_array c i (if b then small_ptr nd else out) (if b then out else large_ptr nd) nd new = Some nd'" "trie_raw c nd'"
      "t_root nd' = 0" "copied (PTR_AREA c) nd nd' 0 0 ?u" unfolding u by blast
  have bl: "bl.blind (T_KEY_LEN c) (\<lambda>p. db (t_key_ptr nd ! p)) (\<lambda>i. t_blindiKeys nd ! i) ?u"
    by (rule bl.blind_kept) (use r(11) assms(3) in simp)
  have "?H \<le> T_SLOTS c" "2 \<le> ?H" using assms(6) by simp_all
  from copied_repr [OF f(4,2,3) n this g(1) bl] show ?thesis using o(1) f(1) unfolding lv by blast
qed

lemma middle_spec:
  assumes "trie_repr c db nd t" "k < t_valid_len nd"
  shows "\<exists>tr0 tr1 len tr ctx p. put (replicate (T_SLOTS c) 0) 0 (t_root nd) = Some tr0
    \<and> t_bring_smallest c nd (t_root nd) tr0 1 = Some (PTR_AREA c + hd (leaves_of t), tr1, len)
    \<and> next_items c nd k tr1 len = Some (tr, Suc (length ctx)) \<and> t = plug ctx (Lf p) \<and> path_in tr (vals (PTR_AREA c) ctx (Lf p))
    \<and> length tr = T_SLOTS c \<and> length (rights ctx) = t_valid_len nd - 1 - k"
proof -
  note r = trie_reprD [OF assms(1)]
  let ?PA = "PTR_AREA c" and ?tr0 = "(replicate (T_SLOTS c) 0)[0 := t_root nd]"
  have n: "0 < T_SLOTS c" using r(1,2) by linarith
  then have pt: "put (replicate (T_SLOTS c) 0) 0 (t_root nd) = Some ?tr0" "path_in ?tr0 ([] @ [root_val ?PA t])"
    using path_put [of "replicate (T_SLOTS c) 0" "[]" "t_root nd"] r(7) by (simp_all add: path_in_def)
  have sz: "length ([] :: nat list) + size (branches_of t) < length ?tr0" using r(1,2,13) by simp
  from bring_edge_spec [OF r(8) pt(2) sz, of False] obtain ctx p tr where
    e: "t = plug ctx (Lf p)" "\<forall>(i, large, s) \<in> set ctx. \<not> large" "p = hd (leaves_of t)"
      "t_bring_smallest c nd (t_root nd) ?tr0 1 = Some (?PA + p, tr, Suc (length ctx))"
      "path_in tr (vals ?PA ctx (Lf p))" "length tr = length ?tr0" using r(7) by (auto simp: t_bring_smallest_def)
  have "length (leaves_of t) = t_valid_len nd" using r(10) by (metis length_upt minus_nat.diff_0 size_mset)
  moreover have "leaves_of t = p # rights ctx" using lefts_small [OF e(2)] by (simp add: e(1) leaves_plug_order)
  ultimately have l: "length (rights ctx) = t_valid_len nd - 1" by simp
  have kl: "k \<le> length (rights ctx)" "T_SLOTS c \<le> length tr" using assms(2) e(6) unfolding l by simp_all
  from next_items_spec [OF assms(1) e(1,5) kl(2,1)] obtain ctx' p' tr' where
    "next_items c nd k tr (Suc (length ctx)) = Some (tr', Suc (length ctx'))" "t = plug ctx' (Lf p')" "path_in tr' (vals ?PA ctx' (Lf p'))"
    "length tr' = length tr" "length (rights ctx') = length (rights ctx) - k" by blast
  then show ?thesis using pt(1) e(3,4,6) l by auto
qed

lemma split_spec:
  assumes "trie_ok c db nd" "tcfg_ok c" "even (T_SLOTS c)" "4 \<le> T_SLOTS c" "t_valid_len nd = T_SLOTS c" "trie_raw c small" "trie_raw c large"
  shows "\<exists>sm lg ps. t_SplitBlindiNode c nd small large = Some (sm, lg) \<and> trie_ok c db sm \<and> trie_ok c db lg
    \<and> t_valid_len sm = T_SLOTS c div 2 \<and> t_valid_len lg = T_SLOTS c div 2
    \<and> bring_sorted_items c nd = Some ps \<and> trie_ptrs sm @ trie_ptrs lg = map (\<lambda>p. t_key_ptr nd ! p) ps"
proof -
  obtain t where t: "trie_repr c db nd t" using assms(1) by (auto simp: trie_ok_def)
  let ?PA = "PTR_AREA c" and ?H = "T_SLOTS c div 2"
  note r = trie_reprD [OF t]
  obtain H where H: "T_SLOTS c = 2 * H" "?H = H" "2 \<le> H" using assms(3,4) by (auto elim!: evenE)
  have "H - 1 < t_valid_len nd" using H assms(5) by simp
  from middle_spec [OF t this] obtain tr0 tr1 len trs ctx p where
    m: "put (replicate (T_SLOTS c) 0) 0 (t_root nd) = Some tr0" "t_bring_smallest c nd (t_root nd) tr0 1 = Some (?PA + hd (leaves_of t), tr1, len)"
      "next_items c nd (H - 1) tr1 len = Some (trs, Suc (length ctx))" "t = plug ctx (Lf p)" "path_in trs (vals ?PA ctx (Lf p))"
      "length trs = T_SLOTS c" "length (rights ctx) = t_valid_len nd - 1 - (H - 1)" by blast
  have rl: "length (rights ctx) = H" using m(7) assms(5) H by simp
  have "length (leaves_of t) = t_valid_len nd" using r(10) by (metis length_upt minus_nat.diff_0 size_mset)
  moreover have lv: "leaves_of t = lefts ctx @ p # rights ctx" by (simp add: m(4) leaves_plug_order)
  ultimately have ll: "length (lefts ctx @ [p]) = H" using rl H assms(5) by simp
  let ?tr = "take (Suc (length ctx)) trs @ replicate (T_SLOTS c - Suc (length ctx)) 0"
  have pl: "Suc (length ctx) \<le> T_SLOTS c" using path_len [OF m(5)] m(6) by simp
  have pt: "path_in ?tr (vals ?PA ctx (Lf p))" using m(5,6) pl by (simp add: path_in_def)
  have trl: "T_SLOTS c \<le> length ?tr" using pl m(6) by simp
  have "ahead False ctx \<noteq> []" using rl H(3) by (auto simp: ahead_def)
  from step_item_spec [OF t m(4) pt trl this] obtain q ctx' trl' where
    s: "t_bring_next_item c nd ?tr (Suc (length ctx)) = Some (?PA + q, trl', Suc (length ctx'))" "t = plug ctx' (Lf q)"
      "path_in trl' (vals ?PA ctx' (Lf q))" "rights ctx = q # rights ctx'" by (auto simp: t_bring_next_item_def ahead_def)
  have hs: "length (if True then lefts ctx @ [p] else p # rights ctx) = ?H" "length (if False then lefts ctx' @ [q] else q # rights ctx') = ?H"
    using ll rl s(4) H(2) by simp_all
  from half_spec [OF t assms(2) m(4,5) hs(1) assms(4,6)] obtain root_s out_s sm where
    a: "cut_path (t_root nd) (large_ptr nd) trs (Suc (length ctx)) = Some (root_s, out_s)"
      "fill_node_array c root_s (small_ptr nd) out_s nd small = Some sm" "trie_ok c db (sm \<lparr> t_valid_len := ?H \<rparr>)"
      "trie_ptrs (sm \<lparr> t_valid_len := ?H \<rparr>) = map (\<lambda>q. t_key_ptr nd ! q) (lefts ctx @ [p])" by auto
  from half_spec [OF t assms(2) s(2,3) hs(2) assms(4,7)] obtain root_l out_l lg where
    b: "cut_path (t_root nd) (small_ptr nd) trl' (Suc (length ctx')) = Some (root_l, out_l)"
      "fill_node_array c root_l out_l (large_ptr nd) nd large = Some lg" "trie_ok c db (lg \<lparr> t_valid_len := ?H \<rparr>)"
      "trie_ptrs (lg \<lparr> t_valid_len := ?H \<rparr>) = map (\<lambda>q. t_key_ptr nd ! q) (q # rights ctx')" by auto
  have "t_SplitBlindiNode c nd small large = Some (sm \<lparr> t_valid_len := ?H \<rparr>, lg \<lparr> t_valid_len := ?H \<rparr>)"
    using m(1-3) s(1) a(1,2) b(1,2) H(2) by (simp add: t_SplitBlindiNode_def)
  moreover have "trie_ptrs (sm \<lparr> t_valid_len := ?H \<rparr>) @ trie_ptrs (lg \<lparr> t_valid_len := ?H \<rparr>) = map (\<lambda>p. t_key_ptr nd ! p) (leaves_of t)"
    unfolding a(4) b(4) lv s(4) by simp
  ultimately show ?thesis using a(3) b(3) sorted_items_spec(1) [OF t] by (intro exI conjI) simp_all
qed

lemma split_map_spec:
  assumes "trie_ok c db nd" "tcfg_ok c" "even (T_SLOTS c)" "4 \<le> T_SLOTS c" "t_valid_len nd = T_SLOTS c" "trie_raw c small" "trie_raw c large"
  shows "\<exists>sm lg. t_SplitBlindiNode c nd small large = Some (sm, lg) \<and> trie_ok c db sm \<and> trie_ok c db lg
    \<and> t_valid_len sm = T_SLOTS c div 2 \<and> t_valid_len lg = T_SLOTS c div 2
    \<and> mset (trie_ptrs sm @ trie_ptrs lg) = mset (trie_ptrs nd) \<and> sorted_wrt key_less (trie_keys db sm @ trie_keys db lg)"
proof -
  from split_spec [OF assms] obtain sm lg ps where
    s: "t_SplitBlindiNode c nd small large = Some (sm, lg)" "trie_ok c db sm" "trie_ok c db lg" "t_valid_len sm = T_SLOTS c div 2"
      "t_valid_len lg = T_SLOTS c div 2" "bring_sorted_items c nd = Some ps" "trie_ptrs sm @ trie_ptrs lg = map (\<lambda>p. t_key_ptr nd ! p) ps" by blast
  from order_spec [OF assms(1)] s(6) have o: "mset (map (\<lambda>p. t_key_ptr nd ! p) ps) = mset (trie_ptrs nd)"
    "sorted_wrt key_less (map (\<lambda>p. db (t_key_ptr nd ! p)) ps)" by auto
  have "trie_keys db sm @ trie_keys db lg = map db (trie_ptrs sm @ trie_ptrs lg)" by (simp add: trie_keys_ptrs)
  also have "\<dots> = map (\<lambda>p. db (t_key_ptr nd ! p)) ps" unfolding s(7) by simp
  finally have "sorted_wrt key_less (trie_keys db sm @ trie_keys db lg)" using o(2) by simp
  moreover have "mset (trie_ptrs sm @ trie_ptrs lg) = mset (trie_ptrs nd)" unfolding s(7) by (rule o(1))
  ultimately show ?thesis using s(1-5) by blast
qed

end
