(* ===== verification/Ordered_Map.thy ===== *)
theory Ordered_Map
  imports BTree_Inv
begin

text \<open>
  What a client of an index relies on, as locales: an index with insertion and lookup (\<open>insert_map\<close>), one with
  deletion (\<open>ordered_map\<close>), and one that is only given new items (\<open>add_map\<close>). Within the first two every program of such operations
  is shown to get the answers of a finite map, within the last the insertion of a range to add exactly its items.
\<close>

section \<open>The contract of an ordered map\<close>

text \<open>A program over a map, and the answers it gets.\<close>

datatype ('k, 'v) map_op = Op_insert 'k 'v | Op_find 'k | Op_erase 'k
datatype 'v answer = Inserted bool | Found "'v option" | Erased bool

fun run_ops ::
  "('t \<Rightarrow> 'k \<Rightarrow> 'v \<Rightarrow> ('t \<times> bool) option) \<Rightarrow> ('t \<Rightarrow> 'k \<Rightarrow> 'v option option) \<Rightarrow> ('t \<Rightarrow> 'k \<Rightarrow> ('t \<times> bool) option)
   \<Rightarrow> ('k, 'v) map_op list \<Rightarrow> 't \<Rightarrow> ('t \<times> 'v answer list) option" where
  "run_ops ins fnd del [] t = Some (t, [])"
| "run_ops ins fnd del (Op_insert k v # ops) t =
     do { (t, b) \<leftarrow> ins t k v; (t, as) \<leftarrow> run_ops ins fnd del ops t; Some (t, Inserted b # as) }"
| "run_ops ins fnd del (Op_find k # ops) t =
     do { r \<leftarrow> fnd t k; (t, as) \<leftarrow> run_ops ins fnd del ops t; Some (t, Found r # as) }"
| "run_ops ins fnd del (Op_erase k # ops) t =
     do { (t, b) \<leftarrow> del t k; (t, as) \<leftarrow> run_ops ins fnd del ops t; Some (t, Erased b # as) }"

text \<open>The same program over a finite map; an insertion does not overwrite.\<close>

fun spec_ops :: "('k, 'v) map_op list \<Rightarrow> ('k \<rightharpoonup> 'v) \<Rightarrow> ('k \<rightharpoonup> 'v) \<times> 'v answer list" where
  "spec_ops [] m = (m, [])"
| "spec_ops (Op_insert k v # ops) m =
     (let (m', as) = spec_ops ops (if m k = None then m(k \<mapsto> v) else m) in (m', Inserted (m k = None) # as))"
| "spec_ops (Op_find k # ops) m = (let (m', as) = spec_ops ops m in (m', Found (m k) # as))"
| "spec_ops (Op_erase k # ops) m = (let (m', as) = spec_ops ops (m(k := None)) in (m', Erased (m k \<noteq> None) # as))"

fun no_erase :: "('k, 'v) map_op \<Rightarrow> bool" where
  "no_erase (Op_erase k) = False"
| "no_erase _ = True"

locale insert_map =
  fixes inv :: "'t \<Rightarrow> bool" and its :: "'t \<Rightarrow> ('k::linorder \<times> 'v) list"
    and ins :: "'t \<Rightarrow> 'k::linorder \<Rightarrow> 'v \<Rightarrow> ('t \<times> bool) option" and fnd :: "'t \<Rightarrow> 'k::linorder \<Rightarrow> 'v option option"
  assumes sorted_law: "inv t \<Longrightarrow> sorted_items (its t)"
    and ins_law: "inv t \<Longrightarrow> \<exists>t'. ins t k v = Some (t', k \<notin> fst ` set (its t)) \<and> inv t' \<and> its t' = ins_list k v (its t)"
    and fnd_law: "inv t \<Longrightarrow> fnd t k = Some (map_of (its t) k)"
begin

lemma ins_map:
  assumes "inv t"
  shows "\<exists>t'. ins t k v = Some (t', map_of (its t) k = None) \<and> inv t'
    \<and> map_of (its t') = (if map_of (its t) k = None then (map_of (its t))(k \<mapsto> v) else map_of (its t))"
proof -
  obtain t' where t': "ins t k v = Some (t', k \<notin> fst ` set (its t))" "inv t'" "its t' = ins_list k v (its t)"
    using ins_law [OF assms] by blast
  have mem: "map_of (its t) k = None \<longleftrightarrow> k \<notin> fst ` set (its t)" by (rule map_of_eq_None_iff)
  show ?thesis
  proof (cases "k \<in> fst ` set (its t)")
    case True
    then obtain w where "map_of (its t) k = Some w" using mem by auto
    then show ?thesis using t' True ins_list_mem [OF sorted_law [OF assms] True] by simp
  next
    case False
    then show ?thesis using t' mem map_of_ins_list [OF sorted_law [OF assms] False] by simp
  qed
qed

text \<open>Every program without erasures runs, and gets the answers of the map.\<close>

lemma run_no_erase:
  assumes "inv t" "\<forall>p \<in> set ops. no_erase p"
  shows "\<exists>t' as. run_ops ins fnd del ops t = Some (t', as) \<and> inv t' \<and> spec_ops ops (map_of (its t)) = (map_of (its t'), as)"
  using assms
proof (induction ops arbitrary: t)
  case (Cons p ops)
  show ?case
  proof (cases p)
    case (Op_insert k v)
    obtain t1 where t1: "ins t k v = Some (t1, map_of (its t) k = None)" "inv t1"
      "map_of (its t1) = (if map_of (its t) k = None then (map_of (its t))(k \<mapsto> v) else map_of (its t))"
      using ins_map [OF Cons.prems(1)] by blast
    obtain t' as where r: "run_ops ins fnd del ops t1 = Some (t', as)" "inv t'" "spec_ops ops (map_of (its t1)) = (map_of (its t'), as)"
      using Cons.IH [OF t1(2)] Cons.prems(2) by auto
    show ?thesis using t1(1) r by (simp add: Op_insert t1(3))
  next
    case (Op_find k)
    obtain t' as where r: "run_ops ins fnd del ops t = Some (t', as)" "inv t'" "spec_ops ops (map_of (its t)) = (map_of (its t'), as)"
      using Cons.IH [OF Cons.prems(1)] Cons.prems(2) by auto
    then show ?thesis using fnd_law [OF Cons.prems(1)] by (simp add: Op_find)
  next
    case (Op_erase k) then show ?thesis using Cons.prems(2) by simp
  qed
qed simp

end

locale ordered_map = insert_map +
  fixes del :: "'t \<Rightarrow> 'k::linorder \<Rightarrow> ('t \<times> bool) option"
  assumes del_law: "inv t \<Longrightarrow> \<exists>t'. del t k = Some (t', k \<in> fst ` set (its t)) \<and> inv t' \<and> its t' = del_list k (its t)"
begin

lemma run_all:
  assumes "inv t"
  shows "\<exists>t' as. run_ops ins fnd del ops t = Some (t', as) \<and> inv t' \<and> spec_ops ops (map_of (its t)) = (map_of (its t'), as)"
  using assms
proof (induction ops arbitrary: t)
  case (Cons p ops)
  show ?case
  proof (cases p)
    case (Op_insert k v)
    obtain t1 where t1: "ins t k v = Some (t1, map_of (its t) k = None)" "inv t1"
      "map_of (its t1) = (if map_of (its t) k = None then (map_of (its t))(k \<mapsto> v) else map_of (its t))"
      using ins_map [OF Cons.prems(1)] by blast
    obtain t' as where r: "run_ops ins fnd del ops t1 = Some (t', as)" "inv t'" "spec_ops ops (map_of (its t1)) = (map_of (its t'), as)"
      using Cons.IH [OF t1(2)] by blast
    show ?thesis using t1(1) r by (simp add: Op_insert t1(3))
  next
    case (Op_find k)
    then show ?thesis using fnd_law [OF Cons.prems(1)] Cons.IH [OF Cons.prems(1)] by auto
  next
    case (Op_erase k)
    obtain t1 where t1: "del t k = Some (t1, k \<in> fst ` set (its t))" "inv t1" "its t1 = del_list k (its t)"
      using del_law [OF Cons.prems(1)] by blast
    have "map_of (its t1) = (map_of (its t))(k := None)" unfolding t1(3) by (rule map_of_del_list [OF sorted_law [OF Cons.prems(1)]])
    moreover have "(k \<in> fst ` set (its t)) = (map_of (its t) k \<noteq> None)" using map_of_eq_None_iff [of "its t" k] by argo
    moreover obtain t' as where "run_ops ins fnd del ops t1 = Some (t', as)" "inv t'" "spec_ops ops (map_of (its t1)) = (map_of (its t'), as)"
      using Cons.IH [OF t1(2)] by blast
    ultimately show ?thesis using t1(1) by (simp add: Op_erase)
  qed
qed simp

end

section \<open>An index without a check for duplicates\<close>

text \<open>The client inserts items one after the other; their keys are new, and keys and data are such that the index accepts them.\<close>

fun add_all :: "('t \<Rightarrow> 'k \<Rightarrow> 'v \<Rightarrow> ('t \<times> bool) option) \<Rightarrow> ('k \<times> 'v) list \<Rightarrow> 't \<Rightarrow> 't option" where
  "add_all ins [] t = Some t"
| "add_all ins ((k, v) # xs) t = do { (t, _) \<leftarrow> ins t k v; add_all ins xs t }"

fun new_items :: "('k \<Rightarrow> 'v \<Rightarrow> bool) \<Rightarrow> ('k \<times> 'v) list \<Rightarrow> 'k set \<Rightarrow> bool" where
  "new_items legal [] K = True"
| "new_items legal ((k, v) # xs) K = (legal k v \<and> k \<notin> K \<and> new_items legal xs (insert k K))"

fun ins_items :: "('k::linorder \<times> 'v) list \<Rightarrow> ('k \<times> 'v) list \<Rightarrow> ('k \<times> 'v) list" where
  "ins_items [] ys = ys"
| "ins_items ((k, v) # xs) ys = ins_items xs (ins_list k v ys)"

lemma ins_list_set: "sorted_items xs \<Longrightarrow> k \<notin> fst ` set xs \<Longrightarrow> set (ins_list k v xs) = insert (k, v) (set xs)"
  by (induction xs) (auto split: if_splits)

locale add_map =
  fixes inv :: "'t \<Rightarrow> bool" and its :: "'t \<Rightarrow> ('k::linorder \<times> 'v) list" and legal :: "'k::linorder \<Rightarrow> 'v \<Rightarrow> bool"
    and ins :: "'t \<Rightarrow> 'k::linorder \<Rightarrow> 'v \<Rightarrow> ('t \<times> bool) option"
  assumes sorted_law: "inv t \<Longrightarrow> sorted_items (its t)"
    and add_law: "inv t \<Longrightarrow> legal k v \<Longrightarrow> k \<notin> fst ` set (its t)
      \<Longrightarrow> \<exists>t'. ins t k v = Some (t', True) \<and> inv t' \<and> its t' = ins_list k v (its t)"
begin

lemma add_items:
  assumes "inv t" "new_items legal xs (fst ` set (its t))"
  shows "\<exists>t'. add_all ins xs t = Some t' \<and> inv t' \<and> its t' = ins_items xs (its t)
    \<and> set (its t') = set (its t) \<union> set xs \<and> length (its t') = length (its t) + length xs"
  using assms
proof (induction xs arbitrary: t)
  case (Cons x xs)
  obtain k v where x: "x = (k, v)" by (cases x)
  have k: "legal k v" "k \<notin> fst ` set (its t)" using Cons.prems(2) by (simp_all add: x)
  from add_law [OF Cons.prems(1) k] obtain t1 where t1: "ins t k v = Some (t1, True)" "inv t1" "its t1 = ins_list k v (its t)" by blast
  have s: "set (its t1) = insert (k, v) (set (its t))" "length (its t1) = Suc (length (its t))"
    unfolding t1(3) using ins_list_set [OF sorted_law [OF Cons.prems(1)] k(2)] length_ins_list [OF sorted_law [OF Cons.prems(1)]] k(2) by simp_all
  then have "new_items legal xs (fst ` set (its t1))" using Cons.prems(2) by (simp add: x)
  from Cons.IH [OF t1(2) this] show ?case using t1 s by (simp add: x)
qed simp

end

text \<open>An index that looks for duplicates is one of these.\<close>

sublocale insert_map \<subseteq> add: add_map inv its "\<lambda>_ _. True" ins
proof
  fix t k v
  assume i: "inv t"
  then show "sorted_items (its t)" by (rule sorted_law)
  assume "k \<notin> fst ` set (its t)"
  then show "\<exists>t'. ins t k v = Some (t', True) \<and> inv t' \<and> its t' = ins_list k v (its t)" using ins_law [OF i, of k v] by simp
qed

end
