(* ===== verification/BTree_Fix.thy ===== *)
theory BTree_Fix
  imports BTree_Links
begin

text \<open>
  Deletion. A node that has lost an item may have one slot too few; the parent then merges it with a
  sibling or shifts slots from one. The siblings handed down across a subtree border only steer the choice:
  the node that is merged with or shifted from is always below the same parent.
\<close>

section \<open>The fill of a node\<close>

fun min_slots :: "bcfg \<Rightarrow> ('k, 'v) bnode \<Rightarrow> nat" where
  "min_slots c (Leaf a ks vs) = minleafslots c"
| "min_slots c (Inner l ks cs) = mininnerslots c"

lemma isfew_slots: "isfew c n \<longleftrightarrow> slotuse n \<le> min_slots c n"
  by (cases n) auto

lemma isunderflow_slots: "isunderflow c n \<longleftrightarrow> slotuse n < min_slots c n"
  by (cases n) auto

lemma bt_wf_slots: "bt_wf c False n \<longleftrightarrow> bt_wf c True n \<and> min_slots c n \<le> slotuse n"
  by (cases n) auto

lemma min_slots_level: "level x = level y \<Longrightarrow> bt_wf c r x \<Longrightarrow> bt_wf c r' y \<Longrightarrow> min_slots c x = min_slots c y"
  by (cases x; cases y) auto

lemma isleafnode_level: "level x = level y \<Longrightarrow> isleafnode x = isleafnode y"
  by (simp add: isleafnode_def)

lemma last_key_append: "items y \<noteq> [] \<Longrightarrow> items n = xs @ items y \<Longrightarrow> last_key n = last_key y"
  by (simp add: last_key_def)

section \<open>Merging and shifting two siblings\<close>

text \<open>Two neighbours \<open>x\<close>, \<open>y\<close> below the same parent, one with a slot too few, and the separator between.\<close>

definition sib_pair :: "bcfg \<Rightarrow> ('k, 'v) bnode \<Rightarrow> 'k \<Rightarrow> ('k, 'v) bnode \<Rightarrow> bool" where
  "sib_pair c x k y \<longleftrightarrow> bcfg_ok c \<and> bt_wf c True x \<and> bt_wf c True y \<and> level x = level y \<and> k = last_key x"

lemma bt_wf_Inner_last:
  "bt_wf c r (Inner l ks cs) \<Longrightarrow> last_key (Inner l ks cs) = last_key (last cs)"
proof -
  assume wf: "bt_wf c r (Inner l ks cs)"
  then have ne: "cs \<noteq> []" by (auto simp: seps_def)
  then have "items (last cs) \<noteq> []" using wf last_in_set [OF ne] bt_wf_items [of c False "last cs"] by auto
  moreover have "items (Inner l ks cs) = concat (map items (butlast cs)) @ items (last cs)"
    by (subst append_butlast_last_id [OF ne, symmetric]) (simp del: append_butlast_last_id)
  ultimately show ?thesis by (rule last_key_append)
qed

text \<open>The keys and the children of two neighbours, with the separator between, are those of one node.\<close>

lemma seps_join:
  assumes "seps lk lc" "seps rk rc" "k = last_key (last lc)"
  shows "seps (lk @ k # rk) (lc @ rc)"
proof -
  have l: "length lc = Suc (length lk)" using assms(1) by (simp add: seps_def)
  then have "last lc = lc ! length lk" by (subst last_conv_nth) auto
  then have "(lk @ k # rk) ! i = last_key ((lc @ rc) ! i)" if "i < Suc (length lk + length rk)" for i
    using assms that l by (auto simp: seps_def nth_append nth_Cons')
  then show ?thesis using assms l by (simp add: seps_def)
qed

lemma seps_cut:
  assumes "seps ks cs" "j < length ks"
  shows "seps (take j ks) (take (Suc j) cs)" "seps (drop (Suc j) ks) (drop (Suc j) cs)"
    "ks ! j = last_key (last (take (Suc j) cs))"
proof -
  have l: "length cs = Suc (length ks)" using assms(1) by (simp add: seps_def)
  show "seps (take j ks) (take (Suc j) cs)" "seps (drop (Suc j) ks) (drop (Suc j) cs)"
    using assms by (auto simp: seps_def)
  have "last (take (Suc j) cs) = cs ! j" using l assms(2) by (simp add: take_Suc_conv_app_nth)
  then show "ks ! j = last_key (last (take (Suc j) cs))" using assms by (simp add: seps_def)
qed

text \<open>Cutting the joined node at another place is what a shift does.\<close>

lemma shift_pair_inner:
  assumes w: "bt_wf c True (Inner l lk lc)" "bt_wf c True (Inner l rk rc)" and k: "k = last_key (Inner l lk lc)"
    and j: "mininnerslots c \<le> j" "0 < j" "j + mininnerslots c \<le> length lk + length rk" "j < length lk + length rk"
      "j \<le> innerslotmax c" "length lk + length rk \<le> j + innerslotmax c"
  defines "ks \<equiv> lk @ k # rk" and "cs \<equiv> lc @ rc"
  defines "x \<equiv> Inner l (take j ks) (take (Suc j) cs)" and "y \<equiv> Inner l (drop (Suc j) ks) (drop (Suc j) cs)"
  shows "bt_wf c False x" "bt_wf c False y" "last_key x = ks ! j" "items x @ items y = items (Inner l lk lc) @ items (Inner l rk rc)"
    "leaf_addrs x @ leaf_addrs y = leaf_addrs (Inner l lk lc) @ leaf_addrs (Inner l rk rc)"
    "ninner x + ninner y = ninner (Inner l lk lc) + ninner (Inner l rk rc)"
proof -
  have s: "seps ks cs" unfolding ks_def cs_def using w k bt_wf_Inner_last [OF w(1)] by (intro seps_join) auto
  have len: "length ks = Suc (length lk + length rk)" by (simp add: ks_def)
  have jk: "j < length ks" using j len by simp
  have ch: "\<forall>n \<in> set cs. Suc (level n) = l \<and> bt_wf c False n" using w by (auto simp: cs_def)
  have sx: "set (take (Suc j) cs) \<subseteq> set cs" "set (drop (Suc j) cs) \<subseteq> set cs" by (auto dest: in_set_takeD in_set_dropD)
  have l0: "0 < l" using w(1) by simp
  show wx: "bt_wf c False x" using seps_cut(1) [OF s jk] ch sx jk j l0 by (auto simp: x_def)
  show "bt_wf c False y" using seps_cut(2) [OF s jk] ch sx jk j l0 len by (auto simp: y_def)
  show "last_key x = ks ! j" unfolding seps_cut(3) [OF s jk] x_def by (rule bt_wf_Inner_last [OF wx [unfolded x_def]])
  have "items x @ items y = concat (map items cs)" unfolding x_def y_def items.simps
    by (simp flip: concat_append map_append)
  then show "items x @ items y = items (Inner l lk lc) @ items (Inner l rk rc)" by (simp add: cs_def)
  have "leaf_addrs x @ leaf_addrs y = concat (map leaf_addrs cs)" unfolding x_def y_def leaf_addrs.simps
    by (simp flip: concat_append map_append)
  then show "leaf_addrs x @ leaf_addrs y = leaf_addrs (Inner l lk lc) @ leaf_addrs (Inner l rk rc)" by (simp add: cs_def)
  have "sum_list (map ninner (take (Suc j) cs)) + sum_list (map ninner (drop (Suc j) cs)) = sum_list (map ninner cs)"
    by (simp flip: sum_list_append map_append)
  then show "ninner x + ninner y = ninner (Inner l lk lc) + ninner (Inner l rk rc)" by (simp add: cs_def x_def y_def)
qed

lemma shift_pair_leaf:
  assumes w: "bt_wf c True (Leaf a lk lv)" "bt_wf c True (Leaf b rk rv)"
    and j: "minleafslots c \<le> j" "0 < j" "j + minleafslots c \<le> length lk + length rk" "j < length lk + length rk"
      "j \<le> leafslotmax c" "length lk + length rk \<le> j + leafslotmax c"
  defines "ks \<equiv> lk @ rk" and "vs \<equiv> lv @ rv"
  defines "x \<equiv> Leaf a (take j ks) (take j vs)" and "y \<equiv> Leaf b (drop j ks) (drop j vs)"
  shows "bt_wf c False x" "bt_wf c False y" "last_key x = last (take j ks)"
    "items x @ items y = items (Leaf a lk lv) @ items (Leaf b rk rv)"
    "leaf_addrs x @ leaf_addrs y = leaf_addrs (Leaf a lk lv) @ leaf_addrs (Leaf b rk rv)"
proof -
  have l: "length vs = length ks" "length ks = length lk + length rk" using w by (auto simp: ks_def vs_def)
  show "bt_wf c False x" "bt_wf c False y" using j l by (auto simp: x_def y_def)
  have "take j ks \<noteq> []" using j l by auto
  then show "last_key x = last (take j ks)" using l by (simp add: x_def last_key_Leaf)
  have "items x @ items y = zip ks vs" unfolding x_def y_def items.simps
    by (simp flip: take_zip drop_zip)
  then show "items x @ items y = items (Leaf a lk lv) @ items (Leaf b rk rv)"
    using w by (simp add: ks_def vs_def)
  show "leaf_addrs x @ leaf_addrs y = leaf_addrs (Leaf a lk lv) @ leaf_addrs (Leaf b rk rv)" by (simp add: x_def y_def)
qed

text \<open>What a shift makes of two neighbours.\<close>

definition shifted ::
  "bcfg \<Rightarrow> ('k, 'v) bnode \<Rightarrow> ('k, 'v) bnode \<Rightarrow> ('k, 'v) bnode \<Rightarrow> ('k, 'v) bnode \<Rightarrow> bool" where
  "shifted c x y x' y' \<longleftrightarrow> bt_wf c False x' \<and> bt_wf c False y' \<and> level x' = level x \<and> level y' = level y
     \<and> items x' @ items y' = items x @ items y \<and> leaf_addrs x' @ leaf_addrs y' = leaf_addrs x @ leaf_addrs y
     \<and> ninner x' + ninner y' = ninner x + ninner y"

lemma shift_resultI:
  "r = Some (ks[j := k], cs[j := x', j + 1 := y'], e) \<Longrightarrow> last_key x' = k \<Longrightarrow> shifted c x y x' y'
   \<Longrightarrow> \<exists>x' y'. r = Some (ks[j := last_key x'], cs[j := x', j + 1 := y'], e) \<and> shifted c x y x' y'"
  by blast

lemma half_gap: "Suc l < r \<Longrightarrow> 0 < (r - l) div 2 \<and> l + (r - l) div 2 < r \<and> l + 2 * ((r - l) div 2) \<le> r \<and> r \<le> Suc (l + 2 * ((r - l) div 2))"
  for l r :: nat
  by presburger

lemma bcfg_min: "bcfg_ok c \<Longrightarrow> 2 \<le> minleafslots c \<and> 2 \<le> mininnerslots c
    \<and> 2 * minleafslots c \<le> leafslotmax c \<and> 2 * mininnerslots c \<le> innerslotmax c"
  by (auto simp: bcfg_ok_def minleafslots_def mininnerslots_def)

lemma shift_left_pair:
  assumes p: "sib_pair c x (ks ! j) y" and x: "cs ! j = x" "cs ! (j + 1) = y"
    and u: "min_slots c x = Suc (slotuse x)" and f: "min_slots c y < slotuse y"
  shows "\<exists>x' y'. (if isleafnode x then shift_left_leaf j ks cs e else shift_left_inner j ks cs e)
      = Some (ks[j := last_key x'], cs[j := x', j + 1 := y'], e) \<and> shifted c x y x' y'"
proof -
  have cf: "bcfg_ok c" and wx: "bt_wf c True x" and wy: "bt_wf c True y" and lv: "level x = level y" and k: "ks ! j = last_key x"
    using p by (auto simp: sib_pair_def)
  note m = bcfg_min [OF cf]
  show ?thesis
  proof (cases x)
    case (Leaf a lk lv')
    with wy lv obtain b rk rv where y: "y = Leaf b rk rv" by (cases y) auto
    define s where "s = (length rk - length lk) div 2"
    have sz: "minleafslots c = Suc (length lk)" "minleafslots c < length rk" "length rk \<le> leafslotmax c" using u f wy Leaf y by auto
    then have s: "0 < s" "length lk + s < length rk" "length lk + 2 * s \<le> length rk"
      using half_gap [of "length lk" "length rk"] by (auto simp: s_def)
    let ?i = "length lk + s"
    note sp = shift_pair_leaf [of c a lk lv' b rk rv ?i]
    have tk: "take ?i (lk @ rk) = lk @ take s rk" "drop ?i (lk @ rk) = drop s rk"
      "take ?i (lv' @ rv) = lv' @ take s rv" "drop ?i (lv' @ rv) = drop s rv"
      using wx wy Leaf y by auto
    have c: "minleafslots c \<le> ?i" "0 < ?i" "?i + minleafslots c \<le> length lk + length rk" "?i < length lk + length rk"
      "?i \<le> leafslotmax c" "length lk + length rk \<le> ?i + leafslotmax c" using s sz by auto
    note r = sp [unfolded tk, OF wx [unfolded Leaf] wy [unfolded y] c]
    have ne: "lk @ take s rk \<noteq> []" using c(2) tk(1) s sz by (cases lk) auto
    have eq: "shift_left_leaf j ks cs e = Some (ks[j := last (lk @ take s rk)],
        cs[j := Leaf a (lk @ take s rk) (lv' @ take s rv), j + 1 := Leaf b (drop s rk) (drop s rv)], e)"
      using x Leaf y sz ne by (simp add: shift_left_leaf_def Let_def s_def del: last_append append_is_Nil_conv)
    have lf: "isleafnode x" using Leaf by (simp add: isleafnode_def)
    show ?thesis unfolding if_P [OF lf]
      by (rule shift_resultI [OF eq r(3)]) (use r Leaf y in \<open>simp add: shifted_def\<close>)
  next
    case (Inner l lk lc)
    with wx lv obtain rk rc where y: "y = Inner l rk rc" "0 < l" by (cases y) auto
    define s where "s = (length rk - length lk) div 2"
    have sz: "mininnerslots c = Suc (length lk)" "mininnerslots c < length rk" "length rk \<le> innerslotmax c" using u f wy Inner y by auto
    then have s: "0 < s" "length lk + s < length rk" "length lk + 2 * s \<le> length rk"
      using half_gap [of "length lk" "length rk"] by (auto simp: s_def)
    let ?i = "length lk + s"
    have lc: "length lc = Suc (length lk)" using wx Inner by (simp add: seps_def)
    have tk: "take ?i (lk @ ks ! j # rk) = lk @ [ks ! j] @ take (s - 1) rk" "drop (Suc ?i) (lk @ ks ! j # rk) = drop s rk"
      "take (Suc ?i) (lc @ rc) = lc @ take s rc" "drop (Suc ?i) (lc @ rc) = drop s rc" "(lk @ ks ! j # rk) ! ?i = rk ! (s - 1)"
      using lc s(1) by (auto simp: take_Cons' nth_append)
    have c: "mininnerslots c \<le> ?i" "0 < ?i" "?i + mininnerslots c \<le> length lk + length rk" "?i < length lk + length rk"
      "?i \<le> innerslotmax c" "length lk + length rk \<le> ?i + innerslotmax c" using s sz by auto
    note r = shift_pair_inner [of c l lk lc rk rc "ks ! j" ?i, unfolded tk, OF wx [unfolded Inner] wy [unfolded y] k [unfolded Inner] c]
    have eq: "shift_left_inner j ks cs e = Some (ks[j := rk ! (s - 1)],
        cs[j := Inner l (lk @ [ks ! j] @ take (s - 1) rk) (lc @ take s rc), j + 1 := Inner l (drop s rk) (drop s rc)], e)"
      using x Inner y s by (simp add: shift_left_inner_def Let_def s_def)
    have lf: "\<not> isleafnode x" using Inner y by (simp add: isleafnode_def)
    show ?thesis unfolding if_not_P [OF lf]
      by (rule shift_resultI [OF eq r(3)]) (use r Inner y in \<open>simp add: shifted_def\<close>)
  qed
qed

lemma shift_right_pair:
  assumes p: "sib_pair c x (ks ! j) y" and x: "cs ! j = x" "cs ! (j + 1) = y"
    and u: "min_slots c y = Suc (slotuse y)" and f: "min_slots c x < slotuse x"
  shows "\<exists>x' y'. (if isleafnode x then shift_right_leaf j ks cs e else shift_right_inner j ks cs e)
      = Some (ks[j := last_key x'], cs[j := x', j + 1 := y'], e) \<and> shifted c x y x' y'"
proof -
  have cf: "bcfg_ok c" and wx: "bt_wf c True x" and wy: "bt_wf c True y" and lv: "level x = level y" and k: "ks ! j = last_key x"
    using p by (auto simp: sib_pair_def)
  note m = bcfg_min [OF cf]
  show ?thesis
  proof (cases x)
    case (Leaf a lk lv')
    with wy lv obtain b rk rv where y: "y = Leaf b rk rv" by (cases y) auto
    define i where "i = length lk - (length lk - length rk) div 2"
    have sz: "minleafslots c = Suc (length rk)" "minleafslots c < length lk" "length lk \<le> leafslotmax c" using u f wx Leaf y by auto
    then have i: "i < length lk" "length rk < i" "length lk + length rk \<le> 2 * i" "2 * i \<le> Suc (length lk + length rk)"
      using half_gap [of "length rk" "length lk"] by (auto simp: i_def)
    have tk: "take i (lk @ rk) = take i lk" "drop i (lk @ rk) = drop i lk @ rk"
      "take i (lv' @ rv) = take i lv'" "drop i (lv' @ rv) = drop i lv' @ rv"
      using wx wy Leaf y i by auto
    have c: "minleafslots c \<le> i" "0 < i" "i + minleafslots c \<le> length lk + length rk" "i < length lk + length rk"
      "i \<le> leafslotmax c" "length lk + length rk \<le> i + leafslotmax c" using i sz by auto
    note r = shift_pair_leaf [of c a lk lv' b rk rv i, unfolded tk, OF wx [unfolded Leaf] wy [unfolded y] c]
    have eq: "shift_right_leaf j ks cs e = Some (ks[j := last (take i lk)],
        cs[j := Leaf a (take i lk) (take i lv'), j + 1 := Leaf b (drop i lk @ rk) (drop i lv' @ rv)], e)"
      using x Leaf y sz by (simp add: shift_right_leaf_def Let_def i_def)
    have lf: "isleafnode x" using Leaf by (simp add: isleafnode_def)
    show ?thesis unfolding if_P [OF lf]
      by (rule shift_resultI [OF eq r(3)]) (use r Leaf y in \<open>simp add: shifted_def\<close>)
  next
    case (Inner l lk lc)
    with wx lv obtain rk rc where y: "y = Inner l rk rc" "0 < l" by (cases y) auto
    define i where "i = length lk - (length lk - length rk) div 2"
    have sz: "mininnerslots c = Suc (length rk)" "mininnerslots c < length lk" "length lk \<le> innerslotmax c" using u f wx Inner y by auto
    then have i: "i < length lk" "length rk < i" "length lk + length rk \<le> 2 * i" "2 * i \<le> Suc (length lk + length rk)"
      "0 < (length lk - length rk) div 2"
      using half_gap [of "length rk" "length lk"] by (auto simp: i_def)
    have lc: "length lc = Suc (length lk)" using wx Inner by (simp add: seps_def)
    have tk: "take i (lk @ ks ! j # rk) = take i lk" "drop (Suc i) (lk @ ks ! j # rk) = drop (i + 1) lk @ [ks ! j] @ rk"
      "take (Suc i) (lc @ rc) = take (i + 1) lc" "drop (Suc i) (lc @ rc) = drop (i + 1) lc @ rc" "(lk @ ks ! j # rk) ! i = lk ! i"
      using lc i(1) by (auto simp: nth_append Suc_diff_le Suc_leI)
    have c: "mininnerslots c \<le> i" "0 < i" "i + mininnerslots c \<le> length lk + length rk" "i < length lk + length rk"
      "i \<le> innerslotmax c" "length lk + length rk \<le> i + innerslotmax c" using i sz by auto
    note r = shift_pair_inner [of c l lk lc rk rc "ks ! j" i, unfolded tk, OF wx [unfolded Inner] wy [unfolded y] k [unfolded Inner] c]
    have eq: "shift_right_inner j ks cs e = Some (ks[j := lk ! i],
        cs[j := Inner l (take i lk) (take (i + 1) lc), j + 1 := Inner l (drop (i + 1) lk @ [ks ! j] @ rk) (drop (i + 1) lc @ rc)], e)"
      using x Inner y i(5) by (simp add: shift_right_inner_def Let_def i_def)
    have lf: "\<not> isleafnode x" using Inner y by (simp add: isleafnode_def)
    show ?thesis unfolding if_not_P [OF lf]
      by (rule shift_resultI [OF eq r(3)]) (use r Inner y in \<open>simp add: shifted_def\<close>)
  qed
qed

section \<open>What a deletion does to the links\<close>

definition drop_leaf :: "addr \<Rightarrow> addr \<Rightarrow> env \<Rightarrow> env" where
  "drop_leaf a b e = free_node True (merge_links a b e)"

text \<open>At most one leaf is dropped, and it follows the leaf that took its items.\<close>

definition shrunk :: "env \<Rightarrow> env \<Rightarrow> addr list \<Rightarrow> addr list \<Rightarrow> bool" where
  "shrunk e e' as as' \<longleftrightarrow> itemcount (m_stats e') = itemcount (m_stats e) \<and> (links e' = links e \<and> as' = as
     \<or> (\<exists>xs a b ys. as = xs @ a # b # ys \<and> as' = xs @ a # ys \<and> links e' = links (drop_leaf a b e)))"

lemma shrunk_context: "shrunk e e' as as' \<Longrightarrow> shrunk e e' (xs @ as @ ys) (xs @ as' @ ys)"
  unfolding shrunk_def by (metis append.assoc append_Cons)

lemma shrunk_refl [simp]: "shrunk e e as as"
  by (simp add: shrunk_def)

lemma drop_leaf_simps:
  shows "m_headleaf (drop_leaf a b e) = m_headleaf e"
    and "nextleaf (drop_leaf a b e) = (nextleaf e)(a := nextleaf e b)"
    and "nextleaf e b = None \<Longrightarrow> prevleaf (drop_leaf a b e) = prevleaf e"
    and "nextleaf e b = Some n \<Longrightarrow> prevleaf (drop_leaf a b e) = (prevleaf e)(n := Some a)"
    and "m_tailleaf (drop_leaf a b e) = (if nextleaf e b = None then Some a else m_tailleaf e)"
    and "fresh (drop_leaf a b e) = fresh e" "leaves (m_stats (drop_leaf a b e)) = leaves (m_stats e) - 1"
    and "innernodes (m_stats (drop_leaf a b e)) = innernodes (m_stats e)"
    and "itemcount (m_stats (drop_leaf a b e)) = itemcount (m_stats e)"
  by (auto simp: drop_leaf_def merge_links_def free_node_def Let_def split: option.splits)

lemma chain_shrunk:
  assumes c: "chain e as" and g: "shrunk e e' as as'"
  shows "chain e' as'"
proof (cases "links e' = links e \<and> as' = as")
  case True then show ?thesis using c chain_links by metis
next
  case False
  then obtain xs a b ys where as: "as = xs @ a # b # ys" "as' = xs @ a # ys" and l: "links e' = links (drop_leaf a b e)"
    using g by (auto simp: shrunk_def)
  let ?e = "drop_leaf a b e"
  note n = drop_leaf_simps [where a = a and b = b and e = e]
  have d: "distinct as" using c by (simp add: chain_def)
  have lk: "linked e None xs (Some a)" "prevleaf e a = last_or None xs" "nextleaf e a = Some b" "prevleaf e b = Some a"
      "nextleaf e b = first_or None ys" "linked e (Some b) ys None"
    using c by (auto simp: chain_def as(1) linked_append)
  have pr: "prevleaf ?e z = (if first_or None ys = Some z then Some a else prevleaf e z)" for z
    using n(3,4) lk(5) by (cases ys) auto
  have nx: "nextleaf ?e z = nextleaf e z" if "z \<noteq> a" for z using that n(2) by simp
  have "linked ?e None xs (Some a)"
  proof -
    have "nextleaf ?e z = nextleaf e z \<and> prevleaf ?e z = prevleaf e z" if "z \<in> set xs" for z
      using that d nx [of z] pr [of z] by (cases ys) (auto simp: as(1))
    then show ?thesis using lk(1) linked_cong [of xs ?e e] by blast
  qed
  moreover have "prevleaf ?e a = last_or None xs" "nextleaf ?e a = first_or None ys"
    using pr [of a] d lk by (cases ys; auto simp: as(1) n)+
  moreover have "linked ?e (Some a) ys None"
  proof (cases ys)
    case (Cons y zs)
    have nz: "\<forall>z \<in> set ys. nextleaf ?e z = nextleaf e z" using nx d by (fastforce simp: as(1))
    show ?thesis unfolding Cons
      by (rule linked_set_prev [OF lk(6) [unfolded Cons]]) (use d pr nz Cons in \<open>auto simp: as(1)\<close>)
  qed simp
  ultimately have "linked ?e None as' None" by (simp add: as(2) linked_append)
  moreover have "m_headleaf ?e = first_or None as'" "m_tailleaf ?e = last_or None as'"
    using c n lk(5) by (auto simp: chain_def as last_or_def split: if_splits) (cases ys; simp)+
  ultimately have "chain ?e as'" using c by (auto simp: chain_def n as)
  then show ?thesis using chain_links [OF l] by simp
qed

text \<open>The links are repaired, whatever the leaves around are.\<close>

definition relinked :: "env \<Rightarrow> env \<Rightarrow> addr list \<Rightarrow> addr list \<Rightarrow> bool" where
  "relinked e e' as as' \<longleftrightarrow> itemcount (m_stats e') = itemcount (m_stats e)
     \<and> (\<forall>xs ys. chain e (xs @ as @ ys) \<longrightarrow> chain e' (xs @ as' @ ys))"

lemma relinked_refl [simp]: "relinked e e as as"
  by (simp add: relinked_def)

lemma relinked_trans: "relinked e e' as as' \<Longrightarrow> relinked e' e'' as' as'' \<Longrightarrow> relinked e e'' as as''"
  by (simp add: relinked_def)

lemma relinked_context: "relinked e e' as as' \<Longrightarrow> relinked e e' (xs @ as @ ys) (xs @ as' @ ys)"
  unfolding relinked_def by (metis append.assoc)

lemma shrunk_relinked: "shrunk e e' as as' \<Longrightarrow> relinked e e' as as'"
  unfolding relinked_def by (metis chain_shrunk shrunk_context shrunk_def)

definition merged ::
  "bcfg \<Rightarrow> env \<Rightarrow> ('k, 'v) bnode \<Rightarrow> ('k, 'v) bnode \<Rightarrow> ('k, 'v) bnode \<Rightarrow> env \<Rightarrow> bool" where
  "merged c e x y x' e' \<longleftrightarrow> bt_wf c False x' \<and> level x' = level x \<and> items x' = items x @ items y
     \<and> shrunk e e' (leaf_addrs x @ leaf_addrs y) (leaf_addrs x')
     \<and> innernodes (m_stats e') + (ninner x + ninner y) = innernodes (m_stats e) + ninner x'"

lemma merge_resultI:
  "r = Some (ks, cs[j := x', j + 1 := y0], e') \<Longrightarrow> slotuse y0 = 0 \<Longrightarrow> isleafnode y0 = isleafnode x
   \<Longrightarrow> merged c e x y x' (free_node (isleafnode x) e')
   \<Longrightarrow> \<exists>x' y0 e'. r = Some (ks, cs[j := x', j + 1 := y0], e') \<and> slotuse y0 = 0 \<and> isleafnode y0 = isleafnode x
     \<and> merged c e x y x' (free_node (isleafnode x) e')"
  by blast

lemma merge_pair:
  assumes p: "sib_pair c x (ks ! j) y" and x: "cs ! j = x" "cs ! (j + 1) = y"
    and u: "slotuse x + slotuse y < 2 * min_slots c x" "min_slots c x \<le> slotuse x + slotuse y"
    and i: "ninner x + ninner y \<le> innernodes (m_stats e)"
  shows "\<exists>x' y0 e'. (if isleafnode x then merge_leaves j ks cs e else merge_inner j ks cs e)
      = Some (ks, cs[j := x', j + 1 := y0], e') \<and> slotuse y0 = 0 \<and> isleafnode y0 = isleafnode x
    \<and> merged c e x y x' (free_node (isleafnode x) e')"
proof -
  have cf: "bcfg_ok c" and wx: "bt_wf c True x" and wy: "bt_wf c True y" and lv: "level x = level y" and k: "ks ! j = last_key x"
    using p by (auto simp: sib_pair_def)
  note m = bcfg_min [OF cf]
  show ?thesis
  proof (cases x)
    case (Leaf a lk lv')
    with wy lv obtain b rk rv where y: "y = Leaf b rk rv" by (cases y) auto
    have eq: "merge_leaves j ks cs e = Some (ks, cs[j := Leaf a (lk @ rk) (lv' @ rv), j + 1 := Leaf b [] []], merge_links a b e)"
      using x Leaf y by (simp add: merge_leaves_def)
    have "bt_wf c False (Leaf a (lk @ rk) (lv' @ rv))" using wx wy u m Leaf y by auto
    moreover have "shrunk e (free_node True (merge_links a b e)) [a, b] [a]"
      unfolding shrunk_def drop_leaf_def [symmetric] using drop_leaf_simps(9) by (auto intro: exI [of _ "[]"])
    moreover have "innernodes (m_stats (free_node True (merge_links a b e))) = innernodes (m_stats e)"
      using drop_leaf_simps(8) [of a b e] by (simp add: drop_leaf_def)
    moreover have "items (Leaf a (lk @ rk) (lv' @ rv)) = items x @ items y" using wx Leaf y by simp
    moreover have lf: "isleafnode x" using Leaf by (simp add: isleafnode_def)
    ultimately show ?thesis unfolding if_P [OF lf]
      by (intro merge_resultI [OF eq]) (use Leaf y in \<open>simp_all add: isleafnode_def merged_def\<close>)
  next
    case (Inner l lk lc)
    with wx lv obtain rk rc where y: "y = Inner l rk rc" "0 < l" by (cases y) auto
    have eq: "merge_inner j ks cs e = Some (ks, cs[j := Inner l (lk @ [ks ! j] @ rk) (lc @ rc), j + 1 := Inner l [] []], e)"
      using x Inner y by (simp add: merge_inner_def)
    have "seps (lk @ ks ! j # rk) (lc @ rc)"
      using wx wy k Inner y bt_wf_Inner_last [of c True l lk lc] by (intro seps_join) auto
    then have "bt_wf c False (Inner l (lk @ [ks ! j] @ rk) (lc @ rc))" using wx wy u m Inner y by auto
    moreover have "shrunk e (free_node False e) (leaf_addrs x @ leaf_addrs y) (leaf_addrs (Inner l (lk @ [ks ! j] @ rk) (lc @ rc)))"
      using Inner y by (simp add: shrunk_def free_node_def links_def)
    moreover have "innernodes (m_stats (free_node False e)) + (ninner x + ninner y)
        = innernodes (m_stats e) + ninner (Inner l (lk @ [ks ! j] @ rk) (lc @ rc))"
      using i Inner y by (simp add: free_node_def)
    moreover have "items (Inner l (lk @ [ks ! j] @ rk) (lc @ rc)) = items x @ items y" using Inner y by simp
    moreover have lf: "\<not> isleafnode x" using Inner y by (simp add: isleafnode_def)
    ultimately show ?thesis unfolding if_not_P [OF lf]
      by (intro merge_resultI [OF eq]) (use Inner y in \<open>simp_all add: isleafnode_def merged_def\<close>)
  qed
qed

section \<open>What the parent does\<close>

text \<open>The two steps of \<^verbatim>\<open>erase_inner\<close> that repair the children: the routine the child asked for, and the removal of an
  emptied child.\<close>

definition fix_step ::
  "fix_up \<Rightarrow> nat \<Rightarrow> nat \<Rightarrow> 'k list \<Rightarrow> ('k, 'v) bnode list \<Rightarrow> env \<Rightarrow> ('k list \<times> ('k, 'v) bnode list \<times> env) option" where
  "fix_step f l slot ks cs e =
     do { (ks, cs, e, merged) \<leftarrow> apply_fix f slot ks cs e;
          (if merged then remove_merged l slot ks cs e else Some (ks, cs, e)) }"

definition fixable :: "bcfg \<Rightarrow> ('k, 'v) bnode list \<Rightarrow> nat \<Rightarrow> fix_up \<Rightarrow> bool" where
  "fixable c cs slot f = (let m = min_slots c (cs ! slot) in case f of
      No_fix \<Rightarrow> m \<le> slotuse (cs ! slot)
    | Merge_left \<Rightarrow> 0 < slot \<and> Suc (slotuse (cs ! slot)) = m \<and> slotuse (cs ! (slot - 1)) \<le> m
    | Merge_right \<Rightarrow> slot + 1 < length cs \<and> Suc (slotuse (cs ! slot)) = m \<and> slotuse (cs ! (slot + 1)) \<le> m
    | Shift_left \<Rightarrow> slot + 1 < length cs \<and> Suc (slotuse (cs ! slot)) = m \<and> m < slotuse (cs ! (slot + 1))
    | Shift_right \<Rightarrow> 0 < slot \<and> Suc (slotuse (cs ! slot)) = m \<and> m < slotuse (cs ! (slot - 1)))"

definition fixed ::
  "bcfg \<Rightarrow> nat \<Rightarrow> 'k list \<Rightarrow> ('k, 'v) bnode list \<Rightarrow> env \<Rightarrow> 'k list \<Rightarrow> ('k, 'v) bnode list \<Rightarrow> env \<Rightarrow> bool" where
  "fixed c l ks cs e ks' cs' e' \<longleftrightarrow> seps ks' cs' \<and> (\<forall>n \<in> set cs'. Suc (level n) = l \<and> bt_wf c False n)
     \<and> concat (map items cs') = concat (map items cs) \<and> length ks' \<le> length ks \<and> length ks \<le> Suc (length ks')
     \<and> shrunk e e' (concat (map leaf_addrs cs)) (concat (map leaf_addrs cs'))
     \<and> innernodes (m_stats e') + sum_list (map ninner cs) = innernodes (m_stats e) + sum_list (map ninner cs')"

lemma pair_split: "Suc j < length cs \<Longrightarrow> cs = take j cs @ cs ! j # cs ! Suc j # drop (Suc (Suc j)) cs"
  by (simp add: Cons_nth_drop_Suc)

lemma pair_update:
  "Suc j < length cs \<Longrightarrow> cs[j := x, Suc j := y] = take j cs @ x # y # drop (Suc (Suc j)) cs"
proof -
  assume j: "Suc j < length cs"
  then have "drop (Suc j) cs = cs ! Suc j # drop (Suc (Suc j)) cs" by (simp add: Cons_nth_drop_Suc)
  then show ?thesis using j by (simp add: upd_conv_take_nth_drop list_update_append)
qed

text \<open>A pair of children is shifted.\<close>

lemma fixed_shifted:
  assumes s: "seps ks cs" and j: "Suc j < length cs"
    and w: "\<And>i. i < length cs \<Longrightarrow> i \<noteq> j \<Longrightarrow> i \<noteq> Suc j \<Longrightarrow> bt_wf c False (cs ! i)"
    and lv: "\<And>i. i < length cs \<Longrightarrow> Suc (level (cs ! i)) = l" and wy: "bt_wf c True (cs ! Suc j)"
    and sh: "shifted c (cs ! j) (cs ! Suc j) x' y'"
  shows "fixed c l ks cs e (ks[j := last_key x']) (cs[j := x', j + 1 := y']) e"
proof -
  have jk: "j < length ks" using s j by (simp add: seps_def)
  have ly: "last_key y' = last_key (cs ! Suc j)"
  proof -
    have "items y' \<noteq> []" "items (cs ! Suc j) \<noteq> []" using bt_wf_items [of c False y'] bt_wf_items [OF wy] sh by (auto simp: shifted_def)
    then have "last (items y') = last (items x' @ items y')" "last (items (cs ! Suc j)) = last (items (cs ! j) @ items (cs ! Suc j))"
      by auto
    then show ?thesis using sh by (simp add: last_key_def shifted_def)
  qed
  have seps: "seps (ks[j := last_key x']) (cs[j := x', Suc j := y'])"
    using s jk ly by (auto simp: seps_def nth_list_update)
  have ch: "\<forall>n \<in> set (cs[j := x', Suc j := y']). Suc (level n) = l \<and> bt_wf c False n"
    using w lv j sh by (auto simp: shifted_def in_set_conv_nth nth_list_update)
  note u = pair_update [OF j, of x' y'] and o' = pair_split [OF j]
  let ?A = "take j cs" and ?B = "drop (Suc (Suc j)) cs"
  have "concat (map items (?A @ x' # y' # ?B)) = concat (map items (?A @ cs ! j # cs ! Suc j # ?B))"
    using sh by (simp add: shifted_def)
  then have it: "concat (map items (cs[j := x', Suc j := y'])) = concat (map items cs)"
    unfolding u o' [symmetric] .
  have "concat (map leaf_addrs (?A @ x' # y' # ?B)) = concat (map leaf_addrs (?A @ cs ! j # cs ! Suc j # ?B))"
    using sh by (simp add: shifted_def)
  then have la: "concat (map leaf_addrs (cs[j := x', Suc j := y'])) = concat (map leaf_addrs cs)"
    unfolding u o' [symmetric] .
  have "sum_list (map ninner (?A @ x' # y' # ?B)) = sum_list (map ninner (?A @ cs ! j # cs ! Suc j # ?B))"
    using sh by (simp add: shifted_def)
  then have ni: "sum_list (map ninner (cs[j := x', Suc j := y'])) = sum_list (map ninner cs)"
    unfolding u o' [symmetric] .
  show ?thesis using seps ch it la ni by (simp add: fixed_def)
qed

text \<open>A pair of children is merged, and the emptied one removed.\<close>

lemma remove_merged_spec:
  assumes s: "seps ks cs" and j: "Suc j < length cs" and l: "0 < l"
    and w: "\<And>i. i < length cs \<Longrightarrow> i \<noteq> j \<Longrightarrow> i \<noteq> Suc j \<Longrightarrow> bt_wf c False (cs ! i)"
    and lv: "\<And>i. i < length cs \<Longrightarrow> Suc (level (cs ! i)) = l" and wy: "bt_wf c True (cs ! Suc j)"
    and sl: "slot = j \<or> slot = Suc j" and y0: "slotuse y0 = 0" "isleafnode y0 = isleafnode (cs ! j)"
    and mg: "merged c e (cs ! j) (cs ! Suc j) x' (free_node (isleafnode (cs ! j)) e')"
  shows "\<exists>ks' cs' e''. remove_merged l slot ks (cs[j := x', j + 1 := y0]) e' = Some (ks', cs', e'') \<and> fixed c l ks cs e ks' cs' e''"
proof -
  have jk: "j < length ks" using s j by (simp add: seps_def)
  let ?A = "take j cs" and ?B = "drop (Suc (Suc j)) cs" and ?e = "free_node (isleafnode (cs ! j)) e'"
  let ?cs = "?A @ x' # ?B" and ?ks = "take j ks @ drop (Suc j) ks"
  have o': "cs = ?A @ cs ! j # cs ! Suc j # ?B" by (rule pair_split [OF j])
  have wx: "bt_wf c False x'" and lx: "level x' = level (cs ! j)" and ix: "items x' = items (cs ! j) @ items (cs ! Suc j)"
    using mg by (auto simp: merged_def)
  have su: "slotuse x' \<noteq> 0" using wx by (cases x') auto
  have cs: "cs[j := x', j + 1 := y0] = ?A @ x' # y0 # ?B" using pair_update [OF j] by simp
  have lA: "length ?A = j" using j by simp
  have kx: "last_key x' = last_key (cs ! Suc j)"
    by (rule last_key_append [OF bt_wf_items [OF wy] ix])
  have sep: "seps ?ks ?cs"
  proof -
    have "?ks ! i = last_key (?cs ! i)" if "i < length ks - 1" for i
      using s that jk lA kx by (cases "i < j"; cases "i = j") (auto simp: seps_def nth_append nth_Cons' min_def)
    then show ?thesis using s jk j by (simp add: seps_def)
  qed
  have slot: "(if slotuse ((?A @ x' # y0 # ?B) ! slot) \<noteq> 0 then slot + 1 else slot) = Suc j"
    using sl su y0 lA by (auto simp: nth_append)
  have sc: "Suc j < length (?A @ x' # y0 # ?B)" using lA by simp
  have nth: "(?A @ x' # y0 # ?B) ! Suc j = y0" "?cs ! j = x'" using lA by (auto simp: nth_append)
  have rm: "take (Suc j) (?A @ x' # y0 # ?B) @ drop (Suc j + 1) (?A @ x' # y0 # ?B) = ?cs" using lA by simp
  have "remove_merged l slot ks (?A @ x' # y0 # ?B) e' = Some (?ks, ?cs, ?e)"
  proof (cases "l = 1")
    case False
    then show ?thesis unfolding remove_merged_def Let_def slot rm using sc nth y0 by simp
  next
    case True
    then have "level x' = 0" using lx lv [of j] j by simp
    then obtain a lk lvs where x: "x' = Leaf a lk lvs" "lk \<noteq> []" "length lvs = length lk" using wx by (cases x') auto
    have "?ks[j := last lk] = ?ks"
    proof (cases "j < length ?ks")
      case True
      then have "?ks ! j = last_key x'" using sep nth(2) by (simp add: seps_def)
      then have "?ks ! j = last lk" using x by (simp add: last_key_Leaf)
      then show ?thesis using list_update_id [of ?ks j] by simp
    next
      case False then show ?thesis by (intro list_update_beyond) simp
    qed
    then show ?thesis unfolding remove_merged_def Let_def slot rm using sc nth y0 True x by simp
  qed
  moreover have "fixed c l ks cs e ?ks ?cs ?e"
  proof -
    have ch: "\<forall>n \<in> set ?cs. Suc (level n) = l \<and> bt_wf c False n"
    proof
      fix n assume "n \<in> set ?cs"
      then consider "n = x'" | "n \<in> set ?A" | "n \<in> set ?B" by auto
      then show "Suc (level n) = l \<and> bt_wf c False n"
      proof cases
        case 1 then show ?thesis using wx lx lv [of j] j by simp
      next
        case 2
        then obtain i where "i < j" "n = cs ! i" using j by (auto simp: in_set_conv_nth)
        then show ?thesis using w [of i] lv [of i] j by simp
      next
        case 3
        then obtain i where i: "i < length cs - Suc (Suc j)" "n = cs ! (Suc (Suc j) + i)" using j by (auto simp: in_set_conv_nth)
        then show ?thesis using w [of "Suc (Suc j) + i"] lv [of "Suc (Suc j) + i"] by simp
      qed
    qed
    have it: "concat (map items ?cs) = concat (map items cs)"
      using arg_cong [where f = "\<lambda>cs. concat (map items cs)", OF o'] by (simp add: ix)
    have "shrunk e ?e (concat (map leaf_addrs ?A) @ (leaf_addrs (cs ! j) @ leaf_addrs (cs ! Suc j)) @ concat (map leaf_addrs ?B))
       (concat (map leaf_addrs ?A) @ leaf_addrs x' @ concat (map leaf_addrs ?B))"
      using mg by (intro shrunk_context) (simp add: merged_def)
    moreover have "concat (map leaf_addrs ?A) @ (leaf_addrs (cs ! j) @ leaf_addrs (cs ! Suc j)) @ concat (map leaf_addrs ?B)
        = concat (map leaf_addrs cs)" using arg_cong [where f = "\<lambda>cs. concat (map leaf_addrs cs)", OF o'] by simp
    ultimately have la: "shrunk e ?e (concat (map leaf_addrs cs)) (concat (map leaf_addrs ?cs))" by simp
    have "sum_list (map ninner cs) = sum_list (map ninner ?A) + (ninner (cs ! j) + ninner (cs ! Suc j)) + sum_list (map ninner ?B)"
      using arg_cong [where f = "\<lambda>cs. sum_list (map ninner cs)", OF o'] by simp
    then have "innernodes (m_stats ?e) + sum_list (map ninner cs) = innernodes (m_stats e) + sum_list (map ninner ?cs)"
      using mg by (simp add: merged_def)
    then show ?thesis using sep ch it la jk by (simp add: fixed_def)
  qed
  ultimately show ?thesis unfolding cs by blast
qed

lemma fix_step_spec:
  assumes cfg: "bcfg_ok c" and s: "seps ks cs" and sl: "slot < length cs" and l: "0 < l"
    and w: "\<And>i. i < length cs \<Longrightarrow> i \<noteq> slot \<Longrightarrow> bt_wf c False (cs ! i)" and ws: "bt_wf c True (cs ! slot)"
    and lv: "\<And>i. i < length cs \<Longrightarrow> Suc (level (cs ! i)) = l" and f: "fixable c cs slot f"
    and ni: "sum_list (map ninner cs) \<le> innernodes (m_stats e)"
  shows "\<exists>ks' cs' e'. fix_step f l slot ks cs e = Some (ks', cs', e') \<and> fixed c l ks cs e ks' cs' e'"
proof -
  have wt: "bt_wf c True (cs ! i)" if "i < length cs" for i using w [OF that] ws bt_wf_root by (cases "i = slot") auto
  have m: "min_slots c (cs ! i) = min_slots c (cs ! slot)" if "i < length cs" for i
    using lv [OF that] lv [OF sl] by (intro min_slots_level [OF _ wt [OF that] ws]) simp
  have lf: "isleafnode (cs ! i) = isleafnode (cs ! slot)" if "i < length cs" for i
    using lv [OF that] lv [OF sl] by (intro isleafnode_level) simp
  have ms: "min_slots c (cs ! slot) \<le> slotuse (cs ! i)" if "i < length cs" "i \<noteq> slot" for i
    using w [OF that] m [OF that(1)] by (simp add: bt_wf_slots)
  have m2: "2 \<le> min_slots c (cs ! slot)" using bcfg_min [OF cfg] by (cases "cs ! slot") auto
  have pr: "sib_pair c (cs ! j) (ks ! j) (cs ! Suc j)" if "Suc j < length cs" for j
    using s that wt [of j] wt [of "Suc j"] lv [of j] lv [of "Suc j"] cfg by (auto simp: sib_pair_def seps_def)
  have n2: "ninner (cs ! j) + ninner (cs ! Suc j) \<le> innernodes (m_stats e)" if "Suc j < length cs" for j
    using ni arg_cong [where f = "\<lambda>cs. sum_list (map ninner cs)", OF pair_split [OF that]] by simp
  note fx = f [unfolded fixable_def Let_def]
  have merge: ?thesis if sj: "Suc j < length cs" "slot = j \<or> slot = Suc j" and af: "apply_fix f slot ks cs e = map_option (\<lambda>(ks, cs, e). (ks, cs, e, True))
      (if isleafnode (cs ! j) then merge_leaves j ks cs e else merge_inner j ks cs e)"
    and su: "slotuse (cs ! j) + slotuse (cs ! Suc j) < 2 * min_slots c (cs ! j)" "min_slots c (cs ! j) \<le> slotuse (cs ! j) + slotuse (cs ! Suc j)"
    for j
  proof -
    from merge_pair [OF pr [OF sj(1)] refl _ su n2 [OF sj(1)]] obtain x' y0 e' where
      r: "(if isleafnode (cs ! j) then merge_leaves j ks cs e else merge_inner j ks cs e) = Some (ks, cs[j := x', j + 1 := y0], e')"
      "slotuse y0 = 0" "isleafnode y0 = isleafnode (cs ! j)" "merged c e (cs ! j) (cs ! Suc j) x' (free_node (isleafnode (cs ! j)) e')"
      by auto
    have "\<exists>ks' cs' e''. remove_merged l slot ks (cs[j := x', j + 1 := y0]) e' = Some (ks', cs', e'') \<and> fixed c l ks cs e ks' cs' e''"
      by (rule remove_merged_spec [OF s sj(1) l _ lv wt [OF sj(1)] sj(2) r(2,3,4)]) (use w sj in auto)
    then show ?thesis unfolding fix_step_def af r(1) by auto
  qed
  have shift: ?thesis if sj: "Suc j < length cs" "slot = j \<or> slot = Suc j" and af: "apply_fix f slot ks cs e = map_option (\<lambda>(ks, cs, e). (ks, cs, e, False)) r"
    and r: "\<exists>x' y'. r = Some (ks[j := last_key x'], cs[j := x', j + 1 := y'], e) \<and> shifted c (cs ! j) (cs ! Suc j) x' y'"
    for j r
  proof -
    obtain x' y' where xy: "r = Some (ks[j := last_key x'], cs[j := x', j + 1 := y'], e)" "shifted c (cs ! j) (cs ! Suc j) x' y'"
      using r by blast
    have "fixed c l ks cs e (ks[j := last_key x']) (cs[j := x', j + 1 := y']) e"
      by (rule fixed_shifted [OF s sj(1) _ lv wt [OF sj(1)] xy(2)]) (use w sj in auto)
    then show ?thesis unfolding fix_step_def af xy(1) by auto
  qed
  show ?thesis
  proof (cases f)
    case No_fix
    have "bt_wf c False (cs ! i)" if "i < length cs" for i
      using w [OF that] ws fx No_fix by (cases "i = slot") (auto simp: bt_wf_slots)
    then have "fixed c l ks cs e ks cs e" using s lv by (auto simp: fixed_def in_set_conv_nth)
    then show ?thesis using No_fix by (auto simp: fix_step_def apply_fix_def)
  next
    case Merge_left
    then have x: "0 < slot" "Suc (slotuse (cs ! slot)) = min_slots c (cs ! slot)" "slotuse (cs ! (slot - 1)) \<le> min_slots c (cs ! slot)"
      using fx by auto
    have j: "Suc (slot - 1) = slot" "slot - 1 < length cs" using x sl by auto
    show ?thesis
      by (rule merge [of "slot - 1"]) (use x j sl m [OF j(2)] lf [OF j(2)] ms [OF j(2)] m2 Merge_left in \<open>auto simp: apply_fix_def\<close>)
  next
    case Merge_right
    then have x: "slot + 1 < length cs" "Suc (slotuse (cs ! slot)) = min_slots c (cs ! slot)" "slotuse (cs ! (slot + 1)) \<le> min_slots c (cs ! slot)"
      using fx by auto
    show ?thesis
      by (rule merge [of slot]) (use x sl m2 ms [of "Suc slot"] Merge_right in \<open>auto simp: apply_fix_def\<close>)
  next
    case Shift_left
    then have x: "Suc slot < length cs" "Suc (slotuse (cs ! slot)) = min_slots c (cs ! slot)" "min_slots c (cs ! slot) < slotuse (cs ! Suc slot)"
      using fx by auto
    show ?thesis
      by (rule shift [OF x(1) disjI1 _ shift_left_pair [where e = e, OF pr [OF x(1)] refl _ x(2) [symmetric]]])
        (use x m [OF x(1)] Shift_left in \<open>auto simp: apply_fix_def\<close>)
  next
    case Shift_right
    then have x: "0 < slot" "Suc (slotuse (cs ! slot)) = min_slots c (cs ! slot)" "min_slots c (cs ! slot) < slotuse (cs ! (slot - 1))"
      using fx by auto
    have j: "Suc (slot - 1) = slot" "slot - 1 < length cs" using x sl by auto
    have j': "Suc (slot - 1) < length cs" using j sl by simp
    show ?thesis
      by (rule shift [OF j' disjI2 _ shift_right_pair [where e = e, OF pr [OF j'] refl]])
        (use x j sl lf [OF j(2)] m [OF j(2)] Shift_right in \<open>auto simp: apply_fix_def\<close>)
  qed
qed

end
