(* ===== verification/BTree_Erase.thy ===== *)
theory BTree_Erase
  imports BTree_Fix BTree_Lookup
begin

text \<open>
  The descent of \<open>erase_one\<close>: the siblings handed down, the choice of the repair, and the tree that is left;
  then \<open>erase_one\<close>, \<open>erase\<close> and the erasure through an iterator.
\<close>

section \<open>The siblings handed down\<close>

definition sib_wf :: "bcfg \<Rightarrow> nat \<Rightarrow> ('k, 'v) siblings \<Rightarrow> bool" where
  "sib_wf c l s \<longleftrightarrow> (\<forall>n. s_left s = Some n \<or> s_right s = Some n \<longrightarrow> bt_wf c False n \<and> level n = l)"

lemma child_siblings_spec:
  assumes wf: "bt_wf c root (Inner l ks cs)" and s: "sib_wf c l s" and i: "slot \<le> length ks"
  shows "\<exists>s'. child_siblings s ks cs slot = Some s' \<and> sib_wf c (l - 1) s'
    \<and> s_lp s' = (slot \<noteq> 0) \<and> s_rp s' = (slot \<noteq> length ks) \<and> s_same s' = (slot \<noteq> 0 \<and> slot \<noteq> length ks)
    \<and> (slot \<noteq> 0 \<longrightarrow> s_left s' = Some (cs ! (slot - 1))) \<and> (slot \<noteq> length ks \<longrightarrow> s_right s' = Some (cs ! (slot + 1)))"
proof -
  have lc: "length cs = Suc (length ks)" and l: "0 < l" and ks: "0 < length ks"
    and ch: "\<And>n. n \<in> set cs \<Longrightarrow> Suc (level n) = l \<and> bt_wf c False n" using wf by (auto simp: seps_def)
  have ok: "bt_wf c False (xs ! j) \<and> level (xs ! j) = l - 1"
    if "bt_wf c r (Inner l' ys xs)" "l' = l" "j < length xs" for r l' ys j and xs :: "('a, 'b) bnode list"
    using that nth_mem [of j xs] by auto
  have inner: "\<exists>lk lc. n = Inner l lk lc \<and> lk \<noteq> [] \<and> length lc = Suc (length lk)" if "bt_wf c False n" "level n = l" for n :: "('a, 'b) bnode"
    using that l by (cases n) (auto simp: seps_def)
  have left: "\<exists>x. (if slot = 0 then (case s_left s of None \<Rightarrow> Some None
                | Some (Inner _ lk lc) \<Rightarrow> if lk = [] then None else map_option Some (get lc (length lk - 1))
                | Some (Leaf _ _ _) \<Rightarrow> None) else map_option Some (get cs (slot - 1))) = Some x
      \<and> (\<forall>n. x = Some n \<longrightarrow> bt_wf c False n \<and> level n = l - 1) \<and> (slot \<noteq> 0 \<longrightarrow> x = Some (cs ! (slot - 1)))"
  proof (cases "slot = 0")
    case True
    show ?thesis
    proof (cases "s_left s")
      case (Some n)
      then have n: "bt_wf c False n" "level n = l" using s by (auto simp: sib_wf_def)
      from inner [OF this] obtain lk lc where i: "n = Inner l lk lc" "lk \<noteq> []" "length lc = Suc (length lk)" by blast
      then show ?thesis using True Some ok [of False l lk lc "length lk - 1"] n by simp
    qed (use True in simp)
  next
    case False
    then have "slot - 1 < length cs" using i lc by simp
    then show ?thesis using False ok [OF wf refl, of "slot - 1"] by simp
  qed
  have right: "\<exists>x. (if slot = length ks then (case s_right s of None \<Rightarrow> Some None
                | Some (Inner _ rk rc) \<Rightarrow> map_option Some (get rc 0)
                | Some (Leaf _ _ _) \<Rightarrow> None) else map_option Some (get cs (slot + 1))) = Some x
      \<and> (\<forall>n. x = Some n \<longrightarrow> bt_wf c False n \<and> level n = l - 1) \<and> (slot \<noteq> length ks \<longrightarrow> x = Some (cs ! (slot + 1)))"
  proof (cases "slot = length ks")
    case True
    show ?thesis
    proof (cases "s_right s")
      case (Some n)
      then have n: "bt_wf c False n" "level n = l" using s by (auto simp: sib_wf_def)
      from inner [OF this] obtain lk lc where i: "n = Inner l lk lc" "lk \<noteq> []" "length lc = Suc (length lk)" by blast
      then show ?thesis using True Some ok [of False l lk lc 0] n by simp
    qed (use True in simp)
  next
    case False
    then have "slot + 1 < length cs" using i lc by simp
    then show ?thesis using False ok [OF wf refl, of "slot + 1"] by simp
  qed
  from left right ks show ?thesis unfolding child_siblings_def by (elim exE conjE) (auto simp: sib_wf_def)
qed

text \<open>Whatever the siblings across the border are, the chosen routine works on a sibling below the same parent.\<close>

lemma choose_fix_child:
  assumes wf: "bt_wf c root (Inner l ks cs)" and i: "slot \<le> length ks" and m: "M = min_slots c (cs ! slot)"
    and s: "sib_wf c (l - 1) s'" "s_lp s' = (slot \<noteq> 0)" "s_rp s' = (slot \<noteq> length ks)" "s_same s' = (slot \<noteq> 0 \<and> slot \<noteq> length ks)"
      "slot \<noteq> 0 \<longrightarrow> s_left s' = Some (cs ! (slot - 1))" "slot \<noteq> length ks \<longrightarrow> s_right s' = Some (cs ! (slot + 1))"
  shows "\<exists>f. choose_fix c s' = Some f \<and> \<not> (s_left s' = None \<and> s_right s' = None)
    \<and> (\<forall>n. Suc (slotuse n) = M \<and> min_slots c n = M \<longrightarrow> fixable c (cs[slot := n]) slot f)"
proof -
  have lc: "length cs = Suc (length ks)" and ks: "0 < length ks" using wf by (auto simp: seps_def)
  have ch: "bt_wf c False (cs ! j)" "level (cs ! j) = l - 1" if "j < length cs" for j
    using wf that nth_mem [OF that] by auto
  have ms: "min_slots c n = M" if "bt_wf c False n" "level n = l - 1" for n
    unfolding m using ch [of slot] i lc that by (intro min_slots_level [of n "cs ! slot" c False False]) auto
  have lr: "\<And>n. s_left s' = Some n \<Longrightarrow> min_slots c n = M" "\<And>n. s_right s' = Some n \<Longrightarrow> min_slots c n = M"
    using s(1) ms by (auto simp: sib_wf_def)
  have L: "slot \<noteq> 0 \<Longrightarrow> slotuse (cs ! (slot - 1)) \<le> M \<longleftrightarrow> null_or_few c (s_left s')"
    using s(5) lr(1) by (simp add: null_or_few_def isfew_slots)
  have R: "slot \<noteq> length ks \<Longrightarrow> slotuse (cs ! (slot + 1)) \<le> M \<longleftrightarrow> null_or_few c (s_right s')"
    using s(6) lr(2) by (simp add: null_or_few_def isfew_slots)
  have up: "cs[slot := n] ! (slot - 1) = (if slot = 0 then n else cs ! (slot - 1))" "cs[slot := n] ! (slot + 1) = cs ! (slot + 1)"
    "cs[slot := n] ! slot = n" for n using i lc by auto
  have N: "s_left s' = None \<Longrightarrow> null_or_few c (s_left s')" "s_right s' = None \<Longrightarrow> null_or_few c (s_right s')"
    by (simp_all add: null_or_few_def)
  have z: "slot = 0 \<Longrightarrow> slot \<noteq> length ks" using ks by auto
  show ?thesis
  proof (cases "slot = 0"; cases "slot = length ks")
    assume c1: "slot = 0" "slot = length ks" with z show ?thesis by simp
  next
    assume c1: "slot = 0" "slot \<noteq> length ks"
    then obtain r where r: "s_right s' = Some r" using s(6) by blast
    show ?thesis using c1 s(2,3,4) R r lc N
      by (auto simp: choose_fix_def fixable_def up Let_def)
  next
    assume c1: "slot \<noteq> 0" "slot = length ks"
    then obtain r where r: "s_left s' = Some r" using s(5) by blast
    have "length ks \<noteq> length ks - Suc 0" using ks by linarith
    then show ?thesis using c1 s(2,3,4) L r lc N
      by (auto simp: choose_fix_def fixable_def up Let_def nth_list_update)
  next
    assume c1: "slot \<noteq> 0" "slot \<noteq> length ks"
    then obtain x y where r: "s_left s' = Some x" "s_right s' = Some y" using s(5,6) by blast
    show ?thesis using c1 s(2,3,4) L R r lc i
      by (auto simp: choose_fix_def fixable_def up Let_def)
  qed
qed

section \<open>The descent\<close>

lemma del_slot:
  assumes "length vs = length ks" "sorted_wrt (<) ks" "key \<in> set ks" "i = find_lower ks key"
  shows "zip (take i ks @ drop (i + 1) ks) (take i vs @ drop (i + 1) vs) = del_list key (zip ks vs)"
  using assms
proof (induction ks arbitrary: vs i)
  case (Cons x xs)
  then obtain w ws where vs: "vs = w # ws" by (cases vs) auto
  show ?case
  proof (cases "x < key")
    case True
    then have "zip (take (find_lower xs key) xs @ drop (find_lower xs key + 1) xs) (take (find_lower xs key) ws @ drop (find_lower xs key + 1) ws)
        = del_list key (zip xs ws)"
      using Cons vs by auto
    then show ?thesis using True Cons.prems by (auto simp: vs)
  next
    case False then show ?thesis using Cons.prems by (auto simp: vs)
  qed
qed simp

text \<open>The last key of the node changes only if the result says so, to the parent or further up.\<close>

definition key_note :: "bool \<Rightarrow> 'k option \<Rightarrow> ('k, 'v) bnode \<Rightarrow> ('k, 'v) bnode \<Rightarrow> bool" where
  "key_note active o' n m \<longleftrightarrow> (case o' of None \<Rightarrow> active \<longrightarrow> last_key m = last_key n | Some k \<Rightarrow> active \<and> k = last_key m)"

definition del_ok ::
  "bcfg \<Rightarrow> bool \<Rightarrow> 'k::linorder \<Rightarrow> env \<Rightarrow> fix_up \<Rightarrow> ('k, 'v) bnode \<Rightarrow> ('k, 'v) del_result \<Rightarrow> ('k, 'v) bnode \<Rightarrow> bool" where
  "del_ok c in_parent key e f n r m \<longleftrightarrow> d_node r = Some m \<and> \<not> d_not_found r \<and> bt_wf c True m \<and> level m = level n
     \<and> min_slots c m \<le> Suc (slotuse m) \<and> d_fix r = (if slotuse m < min_slots c m then f else No_fix)
     \<and> items m = del_list key (items n)
     \<and> key_note in_parent (d_setkey r) n m \<and> key_note (\<not> in_parent) (d_lastkey r) n m
     \<and> relinked e (d_env r) (leaf_addrs n) (leaf_addrs m)
     \<and> innernodes (m_stats (d_env r)) + ninner n = innernodes (m_stats e) + ninner m"

lemma erase_leaf_ok:
  assumes cfg: "bcfg_ok c" and wf: "bt_wf c False (Leaf a ks vs)" and s: "sorted_items (items (Leaf a ks vs))"
    and key: "key \<in> set ks" and f: "choose_fix c s' = Some f" "\<not> (s_left s' = None \<and> s_right s' = None)"
  shows "\<exists>r m. erase_leaf c e False in_parent s' a ks vs (find_lower ks key) = Some r \<and> del_ok c in_parent key e f (Leaf a ks vs) r m"
proof -
  let ?i = "find_lower ks key"
  let ?ks = "take ?i ks @ drop (?i + 1) ks" and ?vs = "take ?i vs @ drop (?i + 1) vs"
  have lv: "length vs = length ks" and min: "2 \<le> minleafslots c" "minleafslots c \<le> length ks" "length ks \<le> leafslotmax c"
    using wf bcfg_min [OF cfg] by auto
  have srt: "sorted_wrt (<) ks" using s lv by simp
  have i: "?i < length ks" using find_lower_mem [OF srt] key by blast
  have len: "length ?ks = length ks - 1" using i by simp
  then have ne: "?ks \<noteq> []" using min by auto
  have it: "items (Leaf a ?ks ?vs) = del_list key (items (Leaf a ks vs))"
    unfolding items.simps by (rule del_slot [OF lv srt key refl])
  have lst: "?i \<noteq> length ?ks \<Longrightarrow> last_key (Leaf a ?ks ?vs) = last_key (Leaf a ks vs)"
  proof -
    assume "?i \<noteq> length ?ks"
    then have "drop (?i + 1) ks \<noteq> []" using i len by simp
    then have "last ?ks = last ks" by simp
    moreover have "ks \<noteq> []" using i by auto
    ultimately show ?thesis using ne lv by (simp add: last_key_Leaf)
  qed
  have wf': "bt_wf c True (Leaf a ?ks ?vs)" using lv ne min len by auto
  have lk: "last_key (Leaf a ?ks ?vs) = last ?ks" using ne lv by (simp add: last_key_Leaf)
  define lc where "lc = (?i = length ?ks)"
  define r where "r = \<lparr> d_node = Some (Leaf a ?ks ?vs), d_setkey = (if lc \<and> in_parent then Some (last ?ks) else None),
    d_fix = (if length ?ks < minleafslots c then f else No_fix), d_not_found = False,
    d_lastkey = (if lc \<and> \<not> in_parent then Some (last ?ks) else None), d_env = e \<rparr>"
  have "1 \<le> length ?ks" using ne by (cases ?ks) auto
  then have "erase_leaf c e False in_parent s' a ks vs ?i = Some r"
    using f ne unfolding erase_leaf_def Let_def r_def lc_def [symmetric]
    by (cases "lc \<and> in_parent") (auto simp del: last_append length_append append_is_Nil_conv)
  moreover have "del_ok c in_parent key e f (Leaf a ks vs) r (Leaf a ?ks ?vs)"
    unfolding del_ok_def using wf' it min len lst lk
    by (auto simp: r_def lc_def key_note_def simp del: last_append items.simps)
  ultimately show ?thesis by blast
qed

definition finish_inner ::
  "bcfg \<Rightarrow> bool \<Rightarrow> bool \<Rightarrow> ('k, 'v) siblings \<Rightarrow> nat \<Rightarrow> 'k option \<Rightarrow> 'k list \<Rightarrow> ('k, 'v) bnode list \<Rightarrow> env \<Rightarrow> ('k, 'v) del_result option" where
  "finish_inner c is_root in_parent s l lastkey ks cs e =
     (let setkey = (if in_parent then lastkey else None); lastkey = (if in_parent then None else lastkey) in
       (if length ks < mininnerslots c \<and> \<not> (is_root \<and> 1 \<le> length ks) then
          (if s_left s = None \<and> s_right s = None then
             (case cs of [] \<Rightarrow> None
              | n # _ \<Rightarrow> Some \<lparr> d_node = Some n, d_setkey = None, d_fix = No_fix, d_not_found = False,
                          d_lastkey = None, d_env = free_node False e \<rparr>)
           else do {
             f \<leftarrow> choose_fix c s;
             Some \<lparr> d_node = Some (Inner l ks cs), d_setkey = setkey, d_fix = f, d_not_found = False,
               d_lastkey = lastkey, d_env = e \<rparr>
           })
        else Some \<lparr> d_node = Some (Inner l ks cs), d_setkey = setkey, d_fix = No_fix, d_not_found = False,
               d_lastkey = lastkey, d_env = e \<rparr>))"

lemma erase_inner_steps:
  "erase_inner c is_root in_parent s l ks cs slot r =
     do { child \<leftarrow> d_node r;
          (ks, cs, e) \<leftarrow> fix_step (d_fix r) l slot (case d_setkey r of None \<Rightarrow> ks | Some k \<Rightarrow> ks[slot := k]) (cs[slot := child]) (d_env r);
          finish_inner c is_root in_parent s l (d_lastkey r) ks cs e }"
  unfolding erase_inner_def finish_inner_def fix_step_def Let_def
  by (simp add: bind_assoc split_def cong: bind_option_cong)

text \<open>The parent's part: whatever node the fixed children make, up to the decision about its own fill.\<close>

lemma last_key_child:
  assumes wf: "bt_wf c root (Inner l ks cs)" and i: "i < length cs" and m: "items m \<noteq> []"
    and lm: "i < length ks \<or> last_key m = k" and it: "items n = concat (map items (take i cs)) @ items m @ concat (map items (drop (Suc i) cs))"
  shows "last_key n = (if i < length ks then last_key (Inner l ks cs) else k)"
proof (cases "i < length ks")
  case True
  have lc: "length cs = Suc (length ks)" using wf by (simp add: seps_def)
  then have "drop (Suc i) cs \<noteq> []" using True by simp
  then obtain z zs where d: "drop (Suc i) cs = z # zs" by (cases "drop (Suc i) cs") auto
  then have "z \<in> set cs" by (metis in_set_dropD list.set_intros(1))
  then have "items z \<noteq> []" using wf bt_wf_items [of c False z] by auto
  then have ne: "concat (map items (drop (Suc i) cs)) \<noteq> []" by (simp add: d)
  then show ?thesis using True it items_split [OF i, of l ks] by (simp add: last_key_def)
next
  case False
  then have "drop (Suc i) cs = []" using wf by (simp add: seps_def)
  then have "last_key n = last_key m" using it m by (intro last_key_append) auto
  then show ?thesis using False lm by simp
qed

lemma inner_children_ok:
  assumes cfg: "bcfg_ok c" and wf: "bt_wf c root (Inner l ks cs)" and s: "sorted_items (items (Inner l ks cs))"
    and i: "i = find_lower ks key" and ni: "ninner (Inner l ks cs) \<le> innernodes (m_stats e)"
    and d: "del_ok c (i < length ks) key e f (cs ! i) r m"
    and f: "\<And>n. Suc (slotuse n) = min_slots c (cs ! i) \<Longrightarrow> min_slots c n = min_slots c (cs ! i) \<Longrightarrow> fixable c (cs[i := n]) i f"
  shows "\<exists>ks' cs' e'. (do { child \<leftarrow> d_node r;
          fix_step (d_fix r) l i (case d_setkey r of None \<Rightarrow> ks | Some k \<Rightarrow> ks[i := k]) (cs[i := child]) (d_env r) }) = Some (ks', cs', e')
    \<and> seps ks' cs' \<and> (\<forall>n \<in> set cs'. Suc (level n) = l \<and> bt_wf c False n)
    \<and> concat (map items cs') = del_list key (items (Inner l ks cs)) \<and> length ks' \<le> length ks \<and> length ks \<le> Suc (length ks')
    \<and> relinked e e' (leaf_addrs (Inner l ks cs)) (concat (map leaf_addrs cs'))
    \<and> innernodes (m_stats e') + sum_list (map ninner cs) = innernodes (m_stats e) + sum_list (map ninner cs')
    \<and> key_note True (d_lastkey r) (Inner l ks cs) (Inner l ks' cs')"
proof -
  have lc: "length cs = Suc (length ks)" and l: "0 < l" and ch: "\<And>n. n \<in> set cs \<Longrightarrow> Suc (level n) = l \<and> bt_wf c False n"
    using wf by (auto simp: seps_def)
  have ik: "i \<le> length ks" unfolding i by (rule find_lower_le)
  then have ic: "i < length cs" using lc by simp
  have wi: "bt_wf c False (cs ! i)" "level (cs ! i) = l - 1" using ch [OF nth_mem [OF ic]] l by auto
  have dm: "d_node r = Some m" "bt_wf c True m" "level m = level (cs ! i)" "min_slots c m \<le> Suc (slotuse m)"
    "d_fix r = (if slotuse m < min_slots c m then f else No_fix)" "items m = del_list key (items (cs ! i))"
    "key_note (i < length ks) (d_setkey r) (cs ! i) m" "key_note (\<not> i < length ks) (d_lastkey r) (cs ! i) m"
    "relinked e (d_env r) (leaf_addrs (cs ! i)) (leaf_addrs m)"
    "innernodes (m_stats (d_env r)) + ninner (cs ! i) = innernodes (m_stats e) + ninner m"
    using d by (auto simp: del_ok_def)
  let ?ks = "case d_setkey r of None \<Rightarrow> ks | Some k \<Rightarrow> ks[i := k]" and ?cs = "cs[i := m]"
  let ?A = "take i cs" and ?B = "drop (Suc i) cs"
  have cs: "?cs = ?A @ m # ?B" "cs = ?A @ cs ! i # ?B" using ic by (auto simp: upd_conv_take_nth_drop id_take_nth_drop)
  have lks: "length ?ks = length ks" by (simp split: option.splits)
  have seps: "seps ?ks ?cs"
    using wf dm(7) ic by (auto simp: seps_def key_note_def nth_list_update split: option.splits)
  have mm: "min_slots c m = min_slots c (cs ! i)" by (rule min_slots_level [OF dm(3) dm(2) wi(1)])
  have fx: "fixable c ?cs i (d_fix r)"
  proof (cases "slotuse m < min_slots c m")
    case True then show ?thesis using f [of m] dm(4,5) mm by simp
  next
    case False then show ?thesis using dm(5) ic by (simp add: fixable_def)
  qed
  have sn: "sum_list (map ninner ?cs) = sum_list (map ninner ?A) + ninner m + sum_list (map ninner ?B)"
    "sum_list (map ninner cs) = sum_list (map ninner ?A) + ninner (cs ! i) + sum_list (map ninner ?B)"
    using arg_cong [where f = "\<lambda>cs. sum_list (map ninner cs)", OF cs(1)] arg_cong [where f = "\<lambda>cs. sum_list (map ninner cs)", OF cs(2)]
    by simp_all
  have nn: "sum_list (map ninner ?cs) \<le> innernodes (m_stats (d_env r))" using ni dm(10) sn by simp
  have wf': "bt_wf c False (?cs ! j)" "Suc (level (?cs ! j)) = l" if "j < length ?cs" "j \<noteq> i" for j
    using ch [of "cs ! j"] that by auto
  have lv': "Suc (level (?cs ! j)) = l" if "j < length ?cs" for j
    using ch [of "cs ! j"] that dm(3) wi(2) l ic by (cases "j = i") auto
  obtain ks' cs' e' where r: "fix_step (d_fix r) l i ?ks ?cs (d_env r) = Some (ks', cs', e')" "fixed c l ?ks ?cs (d_env r) ks' cs' e'"
    using fix_step_spec [OF cfg seps _ l wf'(1) _ lv' fx nn] ic dm(2) by auto
  note fixed = r(2) [unfolded fixed_def lks]
  have lt: "j < i \<Longrightarrow> ks ! j < key" for j unfolding i by (rule find_lower_less)
  have ge: "i < length ks \<Longrightarrow> key \<le> ks ! i" unfolding i by (rule find_lower_ge)
  have out: "\<forall>x \<in> set (concat (map items ?A)). fst x < key" "\<forall>x \<in> set (concat (map items ?B)). key < fst x"
    using child_bounds(1,2) [OF wf s ik lt ge] by blast+
  have it1: "concat (map items ?cs) = concat (map items ?A) @ items m @ concat (map items ?B)" unfolding cs(1) by simp
  have "del_list key (items (Inner l ks cs)) = concat (map items ?A) @ items m @ concat (map items ?B)"
    unfolding items_split [OF ic] dm(6) del_list_left [OF out(1)] del_list_right [OF out(2)] ..
  then have it: "concat (map items cs') = del_list key (items (Inner l ks cs))" using fixed it1 by simp
  have lst: "key_note True (d_lastkey r) (Inner l ks cs) (Inner l ks' cs')"
  proof -
    have ii: "items (Inner l ks' cs') = concat (map items ?A) @ items m @ concat (map items ?B)" using fixed it1 by simp
    have "last_key (cs ! i) = last_key (Inner l ks cs)" if "\<not> i < length ks"
      using last_key_child [OF wf ic bt_wf_items [OF wi(1)] _ items_split [OF ic]] that by simp
    then show ?thesis using last_key_child [OF wf ic bt_wf_items [OF dm(2)] _ ii, of "last_key m"] dm(8)
      by (auto simp: key_note_def split: option.splits)
  qed
  have "relinked e (d_env r) (concat (map leaf_addrs ?A) @ leaf_addrs (cs ! i) @ concat (map leaf_addrs ?B))
      (concat (map leaf_addrs ?A) @ leaf_addrs m @ concat (map leaf_addrs ?B))"
    by (rule relinked_context [OF dm(9)])
  moreover have "concat (map leaf_addrs ?A) @ leaf_addrs (cs ! i) @ concat (map leaf_addrs ?B) = leaf_addrs (Inner l ks cs)"
    "concat (map leaf_addrs ?A) @ leaf_addrs m @ concat (map leaf_addrs ?B) = concat (map leaf_addrs ?cs)"
    using arg_cong [where f = "\<lambda>cs. concat (map leaf_addrs cs)", OF cs(1)] arg_cong [where f = "\<lambda>cs. concat (map leaf_addrs cs)", OF cs(2)]
    by simp_all
  ultimately have sh: "relinked e (d_env r) (leaf_addrs (Inner l ks cs)) (concat (map leaf_addrs ?cs))" by simp
  have "relinked (d_env r) e' (concat (map leaf_addrs ?cs)) (concat (map leaf_addrs cs'))"
    using fixed by (auto intro: shrunk_relinked)
  from relinked_trans [OF sh this] show ?thesis using r(1) fixed it lst dm(1,10) sn by auto
qed

lemma key_note_parent:
  "key_note True o' n m \<Longrightarrow> key_note p (if p then o' else None) n m \<and> key_note (\<not> p) (if p then None else o') n m"
  by (auto simp: key_note_def split: option.splits)

lemma key_in_child:
  assumes wf: "bt_wf c root (Inner l ks cs)" and s: "sorted_items (items (Inner l ks cs))" and i: "i = find_lower ks key"
  shows "i < length cs" "sorted_items (items (cs ! i))"
    "key \<in> fst ` set (items (Inner l ks cs)) \<longleftrightarrow> key \<in> fst ` set (items (cs ! i))"
proof -
  have ik: "i \<le> length ks" unfolding i by (rule find_lower_le)
  then show ic: "i < length cs" using wf by (simp add: seps_def)
  have lt: "j < i \<Longrightarrow> ks ! j < key" for j unfolding i by (rule find_lower_less)
  have ge: "i < length ks \<Longrightarrow> key \<le> ks ! i" unfolding i by (rule find_lower_ge)
  note b = child_bounds [OF wf s ik lt ge]
  show "sorted_items (items (cs ! i))" by (rule b(3))
  show "key \<in> fst ` set (items (Inner l ks cs)) \<longleftrightarrow> key \<in> fst ` set (items (cs ! i))"
    unfolding items_split [OF ic] set_append image_Un using b(1,2) by blast
qed

text \<open>Below the root a deletion of a key of the node succeeds.\<close>

lemma erase_one_descend_ok:
  assumes cfg: "bcfg_ok c"
  shows "bt_wf c False n \<Longrightarrow> sorted_items (items n) \<Longrightarrow> key \<in> fst ` set (items n) \<Longrightarrow> sib_wf c (level n) s
    \<Longrightarrow> choose_fix c s = Some f \<Longrightarrow> \<not> (s_left s = None \<and> s_right s = None) \<Longrightarrow> ninner n \<le> innernodes (m_stats e)
    \<Longrightarrow> \<exists>r m. erase_one_descend c e key False p s n = Some r \<and> del_ok c p key e f n r m"
proof (induction n arbitrary: p s f)
  case (Leaf a ks vs)
  then have lv: "length vs = length ks" by simp
  then have srt: "sorted_wrt (<) ks" and k: "key \<in> set ks" using Leaf.prems by (auto dest: set_zip_leftD)
  then have "\<not> (find_lower ks key \<ge> length ks \<or> key \<noteq> ks ! find_lower ks key)" using find_lower_mem [OF srt, of key] by auto
  then show ?case using erase_leaf_ok [OF cfg Leaf.prems(1,2) k Leaf.prems(5,6), of e p] by simp
next
  case (Inner l ks cs)
  let ?i = "find_lower ks key"
  note wf = Inner.prems(1) and srt = Inner.prems(2)
  note kc = key_in_child [where key = key, OF wf srt refl]
  have ik: "?i \<le> length ks" by (rule find_lower_le)
  have lp: "0 < l" and wi: "bt_wf c False (cs ! ?i)" "level (cs ! ?i) = l - 1"
    using wf nth_mem [OF kc(1)] by auto
  have sw: "sib_wf c l s" using Inner.prems(4) by simp
  from child_siblings_spec [OF wf this ik] obtain s' where s': "child_siblings s ks cs ?i = Some s'" "sib_wf c (l - 1) s'"
    "s_lp s' = (?i \<noteq> 0)" "s_rp s' = (?i \<noteq> length ks)" "s_same s' = (?i \<noteq> 0 \<and> ?i \<noteq> length ks)"
    "?i \<noteq> 0 \<longrightarrow> s_left s' = Some (cs ! (?i - 1))" "?i \<noteq> length ks \<longrightarrow> s_right s' = Some (cs ! (?i + 1))" by blast
  from choose_fix_child [OF wf ik refl s'(2-7)] obtain f' where
    f': "choose_fix c s' = Some f'" "\<not> (s_left s' = None \<and> s_right s' = None)"
      "\<And>n. Suc (slotuse n) = min_slots c (cs ! ?i) \<Longrightarrow> min_slots c n = min_slots c (cs ! ?i) \<Longrightarrow> fixable c (cs[?i := n]) ?i f'" by auto
  have nc: "ninner (cs ! ?i) \<le> innernodes (m_stats e)"
    using Inner.prems(7) member_le_sum_list [of "ninner (cs ! ?i)" "map ninner cs"] kc(1) by simp
  have "key \<in> fst ` set (items (cs ! ?i))" using kc(3) Inner.prems(3) by simp
  from Inner.IH [OF nth_mem [OF kc(1)] wi(1) kc(2) this _ f'(1,2) nc, of "?i < length ks"] s'(2) wi(2)
  obtain r m where r: "erase_one_descend c e key False (?i < length ks) s' (cs ! ?i) = Some r"
    "del_ok c (?i < length ks) key e f' (cs ! ?i) r m" by auto
  from inner_children_ok [OF cfg wf srt refl Inner.prems(7) r(2) f'(3)] obtain ks' cs' e' where
    k: "(do { child \<leftarrow> d_node r;
          fix_step (d_fix r) l ?i (case d_setkey r of None \<Rightarrow> ks | Some k \<Rightarrow> ks[?i := k]) (cs[?i := child]) (d_env r) }) = Some (ks', cs', e')"
    "seps ks' cs'" "\<forall>n \<in> set cs'. Suc (level n) = l \<and> bt_wf c False n"
    "concat (map items cs') = del_list key (items (Inner l ks cs))" "length ks' \<le> length ks" "length ks \<le> Suc (length ks')"
    "relinked e e' (leaf_addrs (Inner l ks cs)) (concat (map leaf_addrs cs'))"
    "innernodes (m_stats e') + sum_list (map ninner cs) = innernodes (m_stats e) + sum_list (map ninner cs')"
    "key_note True (d_lastkey r) (Inner l ks cs) (Inner l ks' cs')" by blast
  have nf: "\<not> d_not_found r" using r(2) by (simp add: del_ok_def)
  have ln: "2 \<le> mininnerslots c" "mininnerslots c \<le> Suc (length ks')" "length ks' \<le> innerslotmax c"
    using bcfg_min [OF cfg] wf k(5,6) by auto
  have wf': "bt_wf c True (Inner l ks' cs')" using k(2,3) ln lp by auto
  define r' where "r' = \<lparr> d_node = Some (Inner l ks' cs'), d_setkey = (if p then d_lastkey r else None),
     d_fix = (if length ks' < mininnerslots c then f else No_fix), d_not_found = False,
     d_lastkey = (if p then None else d_lastkey r), d_env = e' \<rparr>"
  have "finish_inner c False p s l (d_lastkey r) ks' cs' e' = Some r'"
    using Inner.prems(5,6) by (auto simp: finish_inner_def Let_def r'_def)
  then have "erase_one_descend c e key False p s (Inner l ks cs) = Some r'"
    using kc(1) s'(1) r(1) nf k(1) by (simp add: Let_def erase_inner_steps bind_eq_Some_conv del: bind_assoc) (auto simp: bind_eq_Some_conv)
  moreover have "del_ok c p key e f (Inner l ks cs) r' (Inner l ks' cs')"
    unfolding del_ok_def using wf' ln k key_note_parent [OF k(9), of p] by (simp add: r'_def)
  ultimately show ?case by blast
qed

lemma erase_one_descend_missing:
  "bt_wf c root n \<Longrightarrow> sorted_items (items n) \<Longrightarrow> key \<notin> fst ` set (items n) \<Longrightarrow> sib_wf c (level n) s
    \<Longrightarrow> erase_one_descend c e key is_root p s n = Some (not_found n e)"
proof (induction n arbitrary: root is_root p s)
  case (Leaf a ks vs)
  then have lv: "length vs = length ks" by simp
  have "fst ` set (zip ks vs) = set ks" using lv by (metis map_fst_zip set_map)
  then have srt: "sorted_wrt (<) ks" and k: "key \<notin> set ks" using Leaf.prems lv by auto
  then show ?case using find_lower_mem [OF srt, of key] by auto
next
  case (Inner l ks cs)
  let ?i = "find_lower ks key"
  note wf = Inner.prems(1) and srt = Inner.prems(2)
  note kc = key_in_child [where key = key, OF wf srt refl]
  have wi: "bt_wf c False (cs ! ?i)" "level (cs ! ?i) = l - 1" using wf nth_mem [OF kc(1)] by auto
  have sw: "sib_wf c l s" using Inner.prems(4) by simp
  from child_siblings_spec [OF wf this find_lower_le] obtain s' where s': "child_siblings s ks cs ?i = Some s'" "sib_wf c (l - 1) s'" by blast
  have "key \<notin> fst ` set (items (cs ! ?i))" using kc(3) Inner.prems(3) by simp
  from Inner.IH [OF nth_mem [OF kc(1)] wi(1) kc(2) this] s'(2) wi(2)
  have "erase_one_descend c e key False (?i < length ks) s' (cs ! ?i) = Some (not_found (cs ! ?i) e)" by simp
  then show ?case using kc(1) s'(1) by (simp add: Let_def not_found_def)
qed

section \<open>Deletion from the tree\<close>

lemma root_sib_wf [simp]: "sib_wf c l root_siblings"
  by (simp add: sib_wf_def root_siblings_def)

text \<open>What a call for the root leaves: a smaller tree, its only child, or nothing.\<close>

definition root_del_ok :: "bcfg \<Rightarrow> 'k::linorder \<Rightarrow> env \<Rightarrow> ('k, 'v) bnode \<Rightarrow> ('k, 'v) del_result \<Rightarrow> bool" where
  "root_del_ok c key e n r \<longleftrightarrow> \<not> d_not_found r \<and> itemcount (m_stats (d_env r)) = itemcount (m_stats e)
     \<and> (case d_node r of
         None \<Rightarrow> del_list key (items n) = [] \<and> chain (d_env r) [] \<and> innernodes (m_stats (d_env r)) = 0
       | Some m \<Rightarrow> bt_wf c True m \<and> items m = del_list key (items n) \<and> chain (d_env r) (leaf_addrs m)
           \<and> innernodes (m_stats (d_env r)) = ninner m)"

lemma erase_root_leaf:
  assumes cfg: "bcfg_ok c" and wf: "bt_wf c True (Leaf a ks vs)" and s: "sorted_items (items (Leaf a ks vs))"
    and key: "key \<in> fst ` set (items (Leaf a ks vs))" and ch: "chain e [a]" and ni: "innernodes (m_stats e) = 0"
  shows "\<exists>r. erase_one_descend c e key True False root_siblings (Leaf a ks vs) = Some r \<and> root_del_ok c key e (Leaf a ks vs) r"
proof -
  let ?i = "find_lower ks key"
  let ?ks = "take ?i ks @ drop (?i + 1) ks" and ?vs = "take ?i vs @ drop (?i + 1) vs"
  have lv: "length vs = length ks" "length ks \<le> leafslotmax c" using wf by auto
  then have srt: "sorted_wrt (<) ks" and k: "key \<in> set ks" using s key by (auto dest: set_zip_leftD)
  have i: "?i < length ks" "key = ks ! ?i" using find_lower_mem [OF srt] k by blast+
  have it: "zip ?ks ?vs = del_list key (zip ks vs)" by (rule del_slot [OF lv(1) srt k refl])
  have len: "length ?ks = length ks - 1" using i by simp
  have min: "2 \<le> minleafslots c" using bcfg_min [OF cfg] by simp
  show ?thesis
  proof (cases "?ks = []")
    case True
    let ?e = "(free_node True e) \<lparr> m_headleaf := None, m_tailleaf := None \<rparr>"
    define r :: "('a, 'b) del_result" where "r = \<lparr> d_node = None, d_setkey = None, d_fix = No_fix, d_not_found = False, d_lastkey = None, d_env = ?e \<rparr>"
    have "erase_leaf c e True False root_siblings a ks vs ?i = Some r"
      using True min unfolding erase_leaf_def Let_def r_def by (simp add: root_siblings_def del: append_is_Nil_conv)
    then have "erase_one_descend c e key True False root_siblings (Leaf a ks vs) = Some r" using i by (simp del: take_append drop_append)
    moreover have "del_list key (zip ks vs) = []" using True it by (metis zip_Nil)
    then have "root_del_ok c key e (Leaf a ks vs) r" using ch ni
      by (simp add: root_del_ok_def r_def free_node_def chain_def)
    ultimately show ?thesis by blast
  next
    case False
    then have one: "1 \<le> length ?ks" by (cases ?ks) auto
    obtain lk where "erase_leaf c e True False root_siblings a ks vs ?i = Some \<lparr> d_node = Some (Leaf a ?ks ?vs), d_setkey = None,
        d_fix = No_fix, d_not_found = False, d_lastkey = lk, d_env = e \<rparr>" (is "_ = Some ?r")
      using one unfolding erase_leaf_def Let_def by (cases "?i = length ?ks") (auto simp del: length_append)
    then have "erase_one_descend c e key True False root_siblings (Leaf a ks vs) = Some ?r" using i by (simp add: Let_def)
    moreover have "bt_wf c True (Leaf a ?ks ?vs)"
    proof -
      have "0 < length ks - 1" "length ks - 1 \<le> leafslotmax c" using one len lv by linarith+
      moreover have "length ?vs = length ks - 1" using lv i by simp
      ultimately show ?thesis by (simp only: bt_wf.simps len simp_thms)
    qed
    then have "root_del_ok c key e (Leaf a ks vs) ?r" using it ch ni
      by (simp add: root_del_ok_def del: bt_wf.simps)
    ultimately show ?thesis by blast
  qed
qed

lemma erase_root_inner:
  assumes cfg: "bcfg_ok c" and wf: "bt_wf c True (Inner l ks cs)" and srt: "sorted_items (items (Inner l ks cs))"
    and key: "key \<in> fst ` set (items (Inner l ks cs))" and ch: "chain e (leaf_addrs (Inner l ks cs))"
    and ni: "innernodes (m_stats e) = ninner (Inner l ks cs)"
  shows "\<exists>r. erase_one_descend c e key True False root_siblings (Inner l ks cs) = Some r \<and> root_del_ok c key e (Inner l ks cs) r"
proof -
  let ?i = "find_lower ks key"
  note kc = key_in_child [where key = key, OF wf srt refl]
  have ik: "?i \<le> length ks" by (rule find_lower_le)
  have lp: "0 < l" and wi: "bt_wf c False (cs ! ?i)" "level (cs ! ?i) = l - 1" using wf nth_mem [OF kc(1)] by auto
  from child_siblings_spec [OF wf root_sib_wf ik] obtain s' where s': "child_siblings root_siblings ks cs ?i = Some s'" "sib_wf c (l - 1) s'"
    "s_lp s' = (?i \<noteq> 0)" "s_rp s' = (?i \<noteq> length ks)" "s_same s' = (?i \<noteq> 0 \<and> ?i \<noteq> length ks)"
    "?i \<noteq> 0 \<longrightarrow> s_left s' = Some (cs ! (?i - 1))" "?i \<noteq> length ks \<longrightarrow> s_right s' = Some (cs ! (?i + 1))" by blast
  from choose_fix_child [OF wf ik refl s'(2-7)] obtain f' where
    f': "choose_fix c s' = Some f'" "\<not> (s_left s' = None \<and> s_right s' = None)"
      "\<And>n. Suc (slotuse n) = min_slots c (cs ! ?i) \<Longrightarrow> min_slots c n = min_slots c (cs ! ?i) \<Longrightarrow> fixable c (cs[?i := n]) ?i f'" by auto
  have nc: "ninner (cs ! ?i) \<le> innernodes (m_stats e)"
    using ni member_le_sum_list [of "ninner (cs ! ?i)" "map ninner cs"] kc(1) by simp
  have "key \<in> fst ` set (items (cs ! ?i))" using kc(3) key by simp
  from erase_one_descend_ok [OF cfg wi(1) kc(2) this _ f'(1,2) nc, of "?i < length ks"] s'(2) wi(2)
  obtain r m where r: "erase_one_descend c e key False (?i < length ks) s' (cs ! ?i) = Some r"
    "del_ok c (?i < length ks) key e f' (cs ! ?i) r m" by auto
  have ni': "ninner (Inner l ks cs) \<le> innernodes (m_stats e)" using ni by simp
  from inner_children_ok [OF cfg wf srt refl ni' r(2) f'(3)] obtain ks' cs' e' where
    k: "(do { child \<leftarrow> d_node r;
          fix_step (d_fix r) l ?i (case d_setkey r of None \<Rightarrow> ks | Some k \<Rightarrow> ks[?i := k]) (cs[?i := child]) (d_env r) }) = Some (ks', cs', e')"
    "seps ks' cs'" "\<forall>n \<in> set cs'. Suc (level n) = l \<and> bt_wf c False n"
    "concat (map items cs') = del_list key (items (Inner l ks cs))" "length ks' \<le> length ks" "length ks \<le> Suc (length ks')"
    "relinked e e' (leaf_addrs (Inner l ks cs)) (concat (map leaf_addrs cs'))"
    "innernodes (m_stats e') + sum_list (map ninner cs) = innernodes (m_stats e) + sum_list (map ninner cs')"
    "key_note True (d_lastkey r) (Inner l ks cs) (Inner l ks' cs')" by blast
  have nf: "\<not> d_not_found r" using r(2) by (simp add: del_ok_def)
  have run: "erase_one_descend c e key True False root_siblings (Inner l ks cs)
      = finish_inner c True False root_siblings l (d_lastkey r) ks' cs' e'"
    using kc(1) s'(1) r(1) nf k(1) by (simp add: Let_def erase_inner_steps bind_eq_Some_conv del: bind_assoc) (auto simp: bind_eq_Some_conv)
  have lc: "length cs' = Suc (length ks')" using k(2) by (simp add: seps_def)
  have in': "innernodes (m_stats e') = Suc (sum_list (map ninner cs'))" using k(8) ni by simp
  have ic: "itemcount (m_stats e') = itemcount (m_stats e)" and ch': "chain e' (concat (map leaf_addrs cs'))"
    using k(7) ch unfolding relinked_def by (metis append_Nil append_Nil2)+
  have min: "2 \<le> mininnerslots c" using bcfg_min [OF cfg] by simp
  have li: "length ks' \<le> innerslotmax c" using k(5) wf by auto
  show ?thesis
  proof (cases "ks' = []")
    case True
    then obtain n where n: "cs' = [n]" using lc by (cases cs') auto
    have "links (free_node False e') = links e'" by (simp add: free_node_def links_def)
    then have "chain (free_node False e') (leaf_addrs n)" using chain_links [of "free_node False e'" e' "leaf_addrs n"] ch' n by simp
    moreover have "bt_wf c True n" using bt_wf_root [of c n True] k(3) unfolding n by simp
    moreover have "finish_inner c True False root_siblings l (d_lastkey r) ks' cs' e' = Some \<lparr> d_node = Some n, d_setkey = None,
        d_fix = No_fix, d_not_found = False, d_lastkey = None, d_env = free_node False e' \<rparr>"
      using True n min by (simp add: finish_inner_def root_siblings_def)
    moreover have "items n = del_list key (items (Inner l ks cs))" using k(4) n by simp
    moreover have "innernodes (m_stats (free_node False e')) = ninner n"
      "itemcount (m_stats (free_node False e')) = itemcount (m_stats e)"
      using in' ic n by (simp_all add: free_node_def)
    ultimately show ?thesis unfolding run by (simp add: root_del_ok_def del: bt_wf.simps items.simps)
  next
    case False
    then have one: "1 \<le> length ks'" by (cases ks') auto
    have "bt_wf c True (Inner l ks' cs')" using k(2,3) lp li False by auto
    moreover have "finish_inner c True False root_siblings l (d_lastkey r) ks' cs' e' = Some \<lparr> d_node = Some (Inner l ks' cs'),
        d_setkey = None, d_fix = No_fix, d_not_found = False, d_lastkey = d_lastkey r, d_env = e' \<rparr>"
      using one by (simp add: finish_inner_def)
    moreover have "items (Inner l ks' cs') = del_list key (items (Inner l ks cs))" using k(4) by simp
    moreover have "chain e' (leaf_addrs (Inner l ks' cs'))" "innernodes (m_stats e') = ninner (Inner l ks' cs')"
      using ch' in' by simp_all
    ultimately show ?thesis using ic unfolding run by (simp add: root_del_ok_def del: bt_wf.simps items.simps leaf_addrs.simps ninner.simps)
  qed
qed

lemma erase_one_spec:
  assumes ok: "bt_ok c t"
  shows "\<exists>t'. erase_one c t key = Some (t', key \<in> fst ` set (tree_items t)) \<and> bt_ok c t'
     \<and> tree_items t' = del_list key (tree_items t)"
proof (cases "m_root t")
  case None
  then show ?thesis using ok by (auto simp: erase_one_def tree_items_def)
next
  case (Some n)
  have o: "bcfg_ok c" "bt_wf c True n" "sorted_items (items n)" "chain (m_env t) (leaf_addrs n)"
    "innernodes (m_stats (m_env t)) = ninner n" "itemcount (m_stats (m_env t)) = length (items n)"
    using ok Some by (auto simp: bt_ok_def tree_items_def tree_leaves_def tree_ninner_def bt_size_def leaf_addrs_list)
  have ti: "tree_items t = items n" using Some by (simp add: tree_items_def)
  show ?thesis
  proof (cases "key \<in> fst ` set (items n)")
    case False
    have "erase_one_descend c (m_env t) key True False root_siblings n = Some (not_found n (m_env t))"
      by (rule erase_one_descend_missing [OF o(2,3) False]) simp
    then show ?thesis using Some ok False by (simp add: erase_one_def erase_finish_def not_found_def ti del_list_notin)
  next
    case True
    obtain r where r: "erase_one_descend c (m_env t) key True False root_siblings n = Some r" "root_del_ok c key (m_env t) n r"
    proof (cases n)
      case (Leaf a ks vs)
      then show ?thesis using that erase_root_leaf [OF o(1), of a ks vs key "m_env t"] o True by auto
    next
      case (Inner l ks cs)
      then show ?thesis using that erase_root_inner [OF o(1), of l ks cs key "m_env t"] o True by metis
    qed
    define t' where "t' = fst (erase_finish t r)"
    have e: "erase_finish t r = (t', True)" using r(2) by (simp add: t'_def erase_finish_def root_del_ok_def Let_def)
    have s': "sorted_items (del_list key (items n))" by (rule sorted_del_list [OF o(3)])
    have l': "length (del_list key (items n)) = length (items n) - 1" using length_del_list [OF o(3)] True by simp
    have "bt_ok c t' \<and> tree_items t' = del_list key (items n)"
    proof (cases "d_node r")
      case None
      then show ?thesis using r(2) o s' l' by (simp add: t'_def erase_finish_def root_del_ok_def Let_def bt_ok_def tree_items_def
          tree_leaves_def tree_ninner_def bt_size_def chain_stats)
    next
      case (Some m)
      then show ?thesis using r(2) o s' l' by (simp add: t'_def erase_finish_def root_del_ok_def Let_def bt_ok_def tree_items_def
          tree_leaves_def tree_ninner_def bt_size_def chain_stats leaf_addrs_list)
    qed
    then show ?thesis using Some r(1) e True by (simp add: erase_one_def ti)
  qed
qed

lemma erase_spec:
  assumes ok: "bt_ok c t"
  shows "\<exists>t'. erase c t key = Some (t', of_bool (key \<in> fst ` set (tree_items t))) \<and> bt_ok c t'
     \<and> tree_items t' = del_list key (tree_items t)"
proof -
  have "\<not> allow_duplicates c" using ok by (simp add: bt_ok_def bcfg_ok_def)
  moreover obtain t' where "erase_one c t key = Some (t', key \<in> fst ` set (tree_items t))" "bt_ok c t'"
    "tree_items t' = del_list key (tree_items t)" using erase_one_spec [OF ok, of key] by blast
  ultimately show ?thesis by (simp add: erase_def)
qed

section \<open>Deletion through an iterator\<close>

lemma erase_leaf_found: "erase_leaf c e is_root p s a ks vs j = Some r \<Longrightarrow> \<not> d_not_found r"
  unfolding erase_leaf_def Let_def by (auto simp: bind_eq_Some_conv split: if_splits)

lemma erase_inner_found: "erase_inner c is_root p s l ks cs j r' = Some r \<Longrightarrow> \<not> d_not_found r"
  unfolding erase_inner_steps finish_inner_def Let_def
  by (auto simp: bind_eq_Some_conv split: if_splits list.splits)

lemma erase_one_descend_found:
  "bt_wf c root n \<Longrightarrow> sorted_items (items n) \<Longrightarrow> key \<in> fst ` set (items n)
   \<Longrightarrow> erase_one_descend c e key is_root p s n = Some r \<Longrightarrow> \<not> d_not_found r"
proof (induction n arbitrary: root is_root p s r)
  case (Leaf a ks vs)
  then have "sorted_wrt (<) ks" "key \<in> set ks" by (auto dest: set_zip_leftD)
  then show ?case using find_lower_mem [of ks key] Leaf.prems(4) by (auto dest: erase_leaf_found)
next
  case (Inner l ks cs)
  note kc = key_in_child [where key = key, OF Inner.prems(1,2) refl]
  have wi: "bt_wf c False (cs ! find_lower ks key)" using Inner.prems(1) nth_mem [OF kc(1)] by auto
  obtain s' r' where r: "erase_one_descend c e key False (find_lower ks key < length ks) s' (cs ! find_lower ks key) = Some r'"
    "(if d_not_found r' then Some (not_found (Inner l ks cs) e) else erase_inner c is_root p s l ks cs (find_lower ks key) r') = Some r"
    using Inner.prems(4) kc(1) by (auto simp: Let_def bind_eq_Some_conv)
  have "\<not> d_not_found r'"
    by (rule Inner.IH [OF nth_mem [OF kc(1)] wi kc(2) _ r(1)]) (use kc(3) Inner.prems(3) in simp)
  then show ?case using r(2) by (auto dest: erase_inner_found)
qed

lemma leaf_items_sub: "(a, ks, vs) \<in> set (leaf_list n) \<Longrightarrow> set (zip ks vs) \<subseteq> set (items n)"
  unfolding items_leaf_list by force

lemma find_lower_nth: "sorted_wrt (<) ks \<Longrightarrow> j < length ks \<Longrightarrow> find_lower ks (ks ! j) = j"
proof -
  assume s: "sorted_wrt (<) ks" and j: "j < length ks"
  then have i: "find_lower ks (ks ! j) < length ks" "ks ! j = ks ! find_lower ks (ks ! j)"
    using find_lower_mem [OF s, of "ks ! j"] by auto
  have "distinct ks" using s by (simp add: strict_sorted_iff)
  then show ?thesis using i j nth_eq_iff_index_eq by metis
qed

text \<open>The slots are searched from the first that may hold the key on; it holds the leaf already.\<close>

lemma erase_iter_descend_eq:
  "bt_wf c root n \<Longrightarrow> sorted_items (items n) \<Longrightarrow> (a, ks0, vs0) \<in> set (leaf_list n) \<Longrightarrow> j < length ks0
   \<Longrightarrow> erase_iter_descend c e a j (ks0 ! j) is_root p s n = erase_one_descend c e (ks0 ! j) is_root p s n"
proof (induction n arbitrary: root is_root p s)
  case (Leaf b ks vs)
  then have "sorted_wrt (<) ks" and [simp]: "b = a" "ks0 = ks" by auto
  then have "find_lower ks (ks ! j) = j" using find_lower_nth Leaf.prems(4) by auto
  then show ?case using Leaf.prems(4) by (simp add: Let_def)
next
  case (Inner l ks cs)
  let ?key = "ks0 ! j"
  let ?i = "find_lower ks ?key"
  note kc = key_in_child [where key = ?key, OF Inner.prems(1,2) refl]
  have ik: "?i \<le> length ks" by (rule find_lower_le)
  have wi: "bt_wf c False (cs ! ?i)" using Inner.prems(1) nth_mem [OF kc(1)] by auto
  have lt: "i < ?i \<Longrightarrow> ks ! i < ?key" for i by (rule find_lower_less)
  have ge: "?i < length ks \<Longrightarrow> ?key \<le> ks ! ?i" by (rule find_lower_ge)
  note b = child_bounds [OF Inner.prems(1,2) ik lt ge]
  have lv: "length vs0 = length ks0" using tree_leaves_wf [OF Inner.prems(1,3)] by simp
  have kv: "(?key, vs0 ! j) \<in> set (zip ks0 vs0)" using Inner.prems(4) lv by (force simp: in_set_zip)
  have leaf: "(a, ks0, vs0) \<in> set (leaf_list (cs ! ?i))"
  proof -
    obtain n where n: "n \<in> set cs" "(a, ks0, vs0) \<in> set (leaf_list n)" using Inner.prems(3) by auto
    then have kn: "(?key, vs0 ! j) \<in> set (items n)" using leaf_items_sub kv by blast
    have "cs = take ?i cs @ cs ! ?i # drop (Suc ?i) cs" by (rule id_take_nth_drop [OF kc(1)])
    then have "n \<in> set (take ?i cs) \<or> n = cs ! ?i \<or> n \<in> set (drop (Suc ?i) cs)"
      using n(1) by (metis Un_iff insert_iff list.simps(15) set_append)
    then show ?thesis using n kn b(1,2) by fastforce
  qed
  have key: "?key \<in> fst ` set (items (cs ! ?i))" using leaf_items_sub [OF leaf] kv by force
  have IH: "erase_iter_descend c e a j ?key False (?i < length ks) s' (cs ! ?i)
      = erase_one_descend c e ?key False (?i < length ks) s' (cs ! ?i)" for s'
    by (rule Inner.IH [OF nth_mem [OF kc(1)] wi kc(2) leaf Inner.prems(4)])
  have fd: "erase_one_descend c e ?key False (?i < length ks) s' (cs ! ?i) = Some r \<Longrightarrow> \<not> d_not_found r" for s' r
    by (rule erase_one_descend_found [OF wi kc(2) key])
  have un: "erase_iter_slots c e a j ?key is_root p s l ks cs ?i =
      do { s' \<leftarrow> child_siblings s ks cs ?i;
          r \<leftarrow> erase_one_descend c e ?key False (?i < length ks) s' (cs ! ?i);
          (if \<not> d_not_found r then erase_inner c is_root p s l ks cs ?i r
           else if ?i < length ks \<and> ks ! ?i < ?key then Some (not_found (Inner l ks cs) e)
           else erase_iter_slots c e a j ?key is_root p s l ks cs (?i + 1)) }"
    by (subst erase_iter_slots.simps, subst IH) (use ik kc(1) in simp)
  have "erase_one_descend c e ?key is_root p s (Inner l ks cs) =
      do { s' \<leftarrow> child_siblings s ks cs ?i;
          r \<leftarrow> erase_one_descend c e ?key False (?i < length ks) s' (cs ! ?i);
          (if d_not_found r then Some (not_found (Inner l ks cs) e) else erase_inner c is_root p s l ks cs ?i r) }"
    using kc(1) by (simp add: Let_def)
  moreover have "erase_iter_slots c e a j ?key is_root p s l ks cs ?i = \<dots>"
    unfolding un by (intro Option.bind_cong refl) (simp add: fd)
  ultimately show ?case unfolding erase_iter_descend.simps by simp
qed

lemma erase_iter_spec:
  assumes ok: "bt_ok c t" and it: "iter_deref t (Some a, j) = Some (key, v)"
  shows "\<exists>t'. erase_iter c t a j = Some (t', True) \<and> bt_ok c t' \<and> tree_items t' = del_list key (tree_items t)"
proof -
  obtain ks vs where g: "get_leaf t a = Some (ks, vs)" and j: "j < length ks" "key = ks ! j" "j < length vs" "v = vs ! j"
    using it by (auto simp: iter_deref_def iter_key_def iter_data_def bind_eq_Some_conv arr_simps)
  obtain n where n: "m_root t = Some n" using g by (auto simp: get_leaf_def split: option.splits)
  have o: "bt_wf c True n" "sorted_items (items n)" using ok n by (auto simp: bt_ok_def tree_items_def)
  have l: "(a, ks, vs) \<in> set (leaf_list n)" using g n by (auto simp: get_leaf_def leaf_at_map_of dest: map_of_SomeD)
  have lv: "length vs = length ks" using tree_leaves_wf [OF o(1) l] by simp
  have "(key, vs ! j) \<in> set (zip ks vs)" using j lv by (force simp: in_set_zip)
  then have k: "key \<in> fst ` set (items n)" using leaf_items_sub [OF l] by force
  have "erase_iter_descend c (m_env t) a j (ks ! j) True False root_siblings n
      = erase_one_descend c (m_env t) (ks ! j) True False root_siblings n"
    by (rule erase_iter_descend_eq [OF o l j(1)])
  then have "erase_iter c t a j = erase_one c t key"
    using n g j(1) by (auto simp: erase_iter_def erase_one_def j(2) map_option_case split: bind_splits option.splits)
  then show ?thesis using erase_one_spec [OF ok, of key] k n by (simp add: tree_items_def)
qed

end
