(* ===== verification/BTree_Build.thy ===== *)
theory BTree_Build
  imports BTree_Lookup BTree_Fix
begin

text \<open>
  Bulk loading: leaves are filled evenly and appended to the leaf list, then rows of inner nodes are built until one
  node is left.
\<close>

section \<open>Appending leaves to the leaf list\<close>

text \<open>As \<open>chain\<close>, but the last leaf may still have a link to somewhere.\<close>

definition open_chain :: "env \<Rightarrow> addr list \<Rightarrow> bool" where
  "open_chain e as \<longleftrightarrow> m_headleaf e = first_or None as \<and> m_tailleaf e = last_or None as
     \<and> linked e None as (case last_or None as of None \<Rightarrow> None | Some a \<Rightarrow> nextleaf e a)
     \<and> distinct as \<and> (\<forall>a \<in> set as. a < fresh e) \<and> leaves (m_stats e) = length as"

lemma chain_open: "chain e as \<longleftrightarrow> open_chain e as \<and> (as \<noteq> [] \<longrightarrow> nextleaf e (last as) = None)"
proof (cases as rule: rev_cases)
  case (snoc xs a)
  then show ?thesis by (auto simp: chain_def open_chain_def linked_append)
qed (simp add: chain_def open_chain_def)

lemma open_chain_links: "links e' = links e \<Longrightarrow> open_chain e as \<Longrightarrow> open_chain e' as"
proof -
  assume l: "links e' = links e" and o: "open_chain e as"
  have "m_headleaf (links e') = m_headleaf e'" "m_tailleaf (links e') = m_tailleaf e'" "prevleaf (links e') = prevleaf e'"
    "nextleaf (links e') = nextleaf e'" "fresh (links e') = fresh e'" "leaves (m_stats (links e')) = leaves (m_stats e')" for e'
    by (auto simp: links_def)
  then have "m_headleaf e' = m_headleaf e" "m_tailleaf e' = m_tailleaf e" "prevleaf e' = prevleaf e"
    "nextleaf e' = nextleaf e" "fresh e' = fresh e" "leaves (m_stats e') = leaves (m_stats e)" using l by metis+
  then show ?thesis using o unfolding open_chain_def by (simp add: linked_cong [of as e' e] split: option.splits)
qed

text \<open>The leaf \<open>a\<close> becomes the last; what its previous link was does not matter unless it is the first.\<close>

lemma open_chain_link_tail:
  assumes o: "open_chain e as" and e': "m_headleaf e' = m_headleaf e" "m_tailleaf e' = m_tailleaf e"
      "\<forall>b \<in> set as. prevleaf e' b = prevleaf e b \<and> nextleaf e' b = nextleaf e b" "fresh e \<le> a" "a < fresh e'"
      "leaves (m_stats e') = Suc (leaves (m_stats e))" "as = [] \<Longrightarrow> prevleaf e' a = None"
  shows "open_chain (link_tail a e') (as @ [a])" "nextleaf (link_tail a e') a = nextleaf e' a"
proof -
  have an: "a \<notin> set as" using o e'(4) by (auto simp: open_chain_def)
  show nx: "nextleaf (link_tail a e') a = nextleaf e' a"
    using an o e'(2) by (cases as rule: rev_cases) (auto simp: link_tail_def open_chain_def)
  show "open_chain (link_tail a e') (as @ [a])"
  proof (cases as rule: rev_cases)
    case Nil then show ?thesis using o e' by (simp add: open_chain_def link_tail_def)
  next
    case (snoc xs t)
    have mt: "m_tailleaf e' = Some t" using o e'(2) snoc by (simp add: open_chain_def)
    have lt: "link_tail a e' = e' \<lparr> nextleaf := (nextleaf e')(t := Some a), prevleaf := (prevleaf e')(a := Some t), m_tailleaf := Some a \<rparr>"
      using mt by (simp add: link_tail_def)
    have d: "t \<notin> set xs" "t \<noteq> a" "a \<notin> set xs" using o an snoc by (auto simp: open_chain_def)
    have l: "linked e None xs (Some t)" "prevleaf e t = last_or None xs" using o snoc by (auto simp: open_chain_def linked_append)
    have "\<forall>b \<in> set xs. nextleaf (link_tail a e') b = nextleaf e b \<and> prevleaf (link_tail a e') b = prevleaf e b"
      using d e'(3) snoc by (auto simp: lt)
    then have "linked (link_tail a e') None xs (Some t)" using l(1) linked_cong [of xs "link_tail a e'" e] by blast
    then show ?thesis using o e' l d an by (auto simp: open_chain_def lt snoc linked_append less_imp_le less_le_trans)
  qed
qed

lemma chain_new_tail:
  assumes "chain e as" and f: "allocate_leaf e = (a, e1)"
  shows "chain (link_tail a e1) (as @ [a])" "innernodes (m_stats (link_tail a e1)) = innernodes (m_stats e)"
    "itemcount (m_stats (link_tail a e1)) = itemcount (m_stats e)"
proof -
  have o: "open_chain e as" using assms(1) by (simp add: chain_open)
  have a: "a = fresh e" "e1 = snd (allocate_leaf e)" using f by (auto simp: allocate_leaf_def)
  have "\<forall>b \<in> set as. b \<noteq> a" using o a by (auto simp: open_chain_def)
  then have oc: "open_chain (link_tail a e1) (as @ [a])" "nextleaf (link_tail a e1) a = nextleaf e1 a"
    using open_chain_link_tail [OF o, of e1 a] by (auto simp: a allocate_leaf_def)
  moreover have "nextleaf e1 a = None" by (simp add: a allocate_leaf_def)
  ultimately show "chain (link_tail a e1) (as @ [a])" by (simp add: chain_open)
  show "innernodes (m_stats (link_tail a e1)) = innernodes (m_stats e)"
    "itemcount (m_stats (link_tail a e1)) = itemcount (m_stats e)"
    by (auto simp: link_tail_def a allocate_leaf_def split: option.splits)
qed

lemma chain_allocate_inner: "chain (allocate_inner e) as = chain e as"
  by (rule chain_links) simp

section \<open>Bulk loading\<close>

text \<open>Spreading \<open>n\<close> things evenly over \<open>m\<close> nodes keeps every node within the bounds.\<close>

lemma spread:
  fixes n m lo hi :: nat
  assumes "lo * Suc m \<le> n" "n \<le> hi * Suc m"
  shows "lo \<le> n div Suc m" "n div Suc m \<le> hi" "lo * m \<le> n - n div Suc m" "n - n div Suc m \<le> hi * m"
proof -
  define q r where "q = n div Suc m" and "r = n mod Suc m"
  have n: "n = q * m + q + r" "r \<le> m" using div_mult_mod_eq [of n "Suc m"] mod_less_divisor [of "Suc m" n]
    by (auto simp: q_def r_def)
  show lo: "lo \<le> n div Suc m" using assms(1) by (simp add: less_eq_div_iff_mult_less_eq)
  show hi: "n div Suc m \<le> hi" using div_le_mono [OF assms(2), of "Suc m"] by (simp only: div_mult_self_is_m zero_less_Suc)
  have "lo * m \<le> q * m" using lo by (simp add: q_def)
  then show "lo * m \<le> n - n div Suc m" unfolding q_def [symmetric] using n by linarith
  show "n - n div Suc m \<le> hi * m"
  proof (cases "r = 0")
    case True
    have "q * m \<le> hi * m" using hi by (simp add: q_def)
    then show ?thesis unfolding q_def [symmetric] using n True by linarith
  next
    case False
    have "q < hi"
    proof (rule ccontr)
      assume "\<not> q < hi"
      then have "hi * Suc m \<le> q * Suc m" by (intro mult_le_mono1) simp
      then show False using assms(2) n False by simp
    qed
    then have "Suc q * m \<le> hi * m" by (intro mult_le_mono1) simp
    then have "q * m + m \<le> hi * m" by simp
    then show ?thesis unfolding q_def [symmetric] using n by linarith
  qed
qed

definition leaf_sized :: "nat \<Rightarrow> nat \<Rightarrow> ('k, 'v) bnode \<Rightarrow> bool" where
  "leaf_sized lo hi n \<longleftrightarrow> (\<exists>a ks vs. n = Leaf a ks vs \<and> length vs = length ks \<and> lo \<le> length ks \<and> length ks \<le> hi)"

lemma bulk_leaves_spec:
  assumes "bulk_leaves m xs e = (ls, e')" "chain e as" "lo * m \<le> length xs" "length xs \<le> hi * m"
  shows "length ls = m \<and> concat (map items ls) = xs \<and> (\<forall>n \<in> set ls. leaf_sized lo hi n)
    \<and> chain e' (as @ concat (map leaf_addrs ls)) \<and> innernodes (m_stats e') = innernodes (m_stats e)
    \<and> itemcount (m_stats e') = itemcount (m_stats e)"
  using assms
proof (induction m arbitrary: xs e as ls)
  case (Suc m)
  let ?u = "length xs div Suc m"
  obtain a e1 where a: "allocate_leaf e = (a, e1)" by (cases "allocate_leaf e")
  obtain ls1 where ls: "bulk_leaves m (drop ?u xs) (link_tail a e1) = (ls1, e')"
    "ls = Leaf a (map fst (take ?u xs)) (map snd (take ?u xs)) # ls1"
    using Suc.prems(1) a by (auto simp: Let_def split: prod.splits)
  note sp = spread [OF Suc.prems(3,4)]
  note n = chain_new_tail [OF Suc.prems(2) a]
  have IH: "length ls1 = m \<and> concat (map items ls1) = drop ?u xs \<and> (\<forall>n \<in> set ls1. leaf_sized lo hi n)
    \<and> chain e' ((as @ [a]) @ concat (map leaf_addrs ls1)) \<and> innernodes (m_stats e') = innernodes (m_stats (link_tail a e1))
    \<and> itemcount (m_stats e') = itemcount (m_stats (link_tail a e1))"
    by (rule Suc.IH [OF ls(1) n(1)]) (use sp in auto)
  have "?u \<le> length xs" by (rule div_le_dividend)
  then have "length (take ?u xs) = ?u" by simp
  then have "leaf_sized lo hi (Leaf a (map fst (take ?u xs)) (map snd (take ?u xs)))" using sp(1,2)
    by (simp add: leaf_sized_def del: length_take)
  moreover have "zip (map fst (take ?u xs)) (map snd (take ?u xs)) = take ?u xs" by (rule zip_map_fst_snd)
  ultimately show ?case using IH n(2,3) unfolding ls(2) by simp
qed simp

text \<open>A row of nodes of one level with the greatest key below each.\<close>

definition row :: "bcfg \<Rightarrow> bool \<Rightarrow> nat \<Rightarrow> (('k, 'v) bnode \<times> 'k) list \<Rightarrow> bool" where
  "row c r l cs \<longleftrightarrow> (\<forall>(n, k) \<in> set cs. bt_wf c r n \<and> level n = l \<and> k = last_key n)"

definition row_items :: "(('k, 'v) bnode \<times> 'k) list \<Rightarrow> ('k \<times> 'v) list" where
  "row_items cs = concat (map (items \<circ> fst) cs)"

definition row_leaves :: "(('k, 'v) bnode \<times> 'k) list \<Rightarrow> addr list" where
  "row_leaves cs = concat (map (leaf_addrs \<circ> fst) cs)"

definition row_ninner :: "(('k, 'v) bnode \<times> 'k) list \<Rightarrow> nat" where
  "row_ninner cs = sum_list (map (ninner \<circ> fst) cs)"

definition same_but_inner :: "env \<Rightarrow> env \<Rightarrow> bool" where
  "same_but_inner e e' \<longleftrightarrow> links e' = links e \<and> itemcount (m_stats e') = itemcount (m_stats e)"

lemma row_simps [simp]:
  "row_items [] = []" "row_leaves [] = []" "row_ninner [] = 0"
  "row_items (x # cs) = items (fst x) @ row_items cs" "row_leaves (x # cs) = leaf_addrs (fst x) @ row_leaves cs"
  "row_ninner (x # cs) = ninner (fst x) + row_ninner cs"
  by (simp_all add: row_items_def row_leaves_def row_ninner_def)

lemma row_append:
  "row_items (xs @ ys) = row_items xs @ row_items ys" "row_leaves (xs @ ys) = row_leaves xs @ row_leaves ys"
  "row_ninner (xs @ ys) = row_ninner xs + row_ninner ys"
  by (simp_all add: row_items_def row_leaves_def row_ninner_def)

lemma group_node:
  assumes g: "row c False (l - 1) g" "0 < l" and len: "2 \<le> length g" "length g \<le> Suc (innerslotmax c)"
    and r: "r \<or> Suc (mininnerslots c) \<le> length g"
  defines "n \<equiv> Inner l (map snd (butlast g)) (map fst g)"
  shows "bt_wf c r n" "last_key n = snd (last g)" "items n = row_items g" "leaf_addrs n = row_leaves g" "ninner n = Suc (row_ninner g)"
proof -
  have "seps (map snd (butlast g)) (map fst g)"
    using g len by (fastforce simp: seps_def row_def nth_butlast)
  then show wf: "bt_wf c r n" using g len r by (fastforce simp: n_def row_def)
  have "g \<noteq> []" using len by auto
  then have "last g \<in> set g" by (rule last_in_set)
  then have "snd (last g) = last_key (fst (last g))" using g(1) by (auto simp: row_def)
  then show "last_key n = snd (last g)"
    unfolding n_def bt_wf_Inner_last [OF wf [unfolded n_def]] using \<open>g \<noteq> []\<close> by (simp add: last_map)
  show "items n = row_items g" "leaf_addrs n = row_leaves g" "ninner n = Suc (row_ninner g)"
    by (simp_all add: n_def row_items_def row_leaves_def row_ninner_def)
qed

lemma bulk_inner_spec:
  assumes "bulk_inner l m cs e = (ns, e')" "row c False (l - 1) cs" "0 < l" "lo * m \<le> length cs" "length cs \<le> Suc (innerslotmax c) * m"
    "2 \<le> lo" "r \<or> Suc (mininnerslots c) \<le> lo"
  shows "length ns = m \<and> row c r l ns \<and> row_items ns = row_items cs \<and> row_leaves ns = row_leaves cs
    \<and> same_but_inner e e' \<and> innernodes (m_stats e') + row_ninner cs = innernodes (m_stats e) + row_ninner ns"
  using assms(1,2,4,5)
proof (induction m arbitrary: cs e ns)
  case 0
  then show ?case by (simp add: row_def same_but_inner_def)
next
  case (Suc m)
  let ?u = "length cs div Suc m"
  let ?g = "take ?u cs" and ?d = "drop ?u cs"
  let ?n = "Inner l (map snd (butlast ?g)) (map fst ?g)"
  obtain ns1 where ns: "bulk_inner l m ?d (allocate_inner e) = (ns1, e')" "ns = (?n, snd (last ?g)) # ns1"
    using Suc.prems(1) by (auto simp: Let_def split: prod.splits)
  note sp = spread [OF Suc.prems(3,4)]
  have rows: "row c False (l - 1) ?g" "row c False (l - 1) ?d"
    using Suc.prems(2) unfolding row_def by (blast dest: in_set_takeD in_set_dropD)+
  have "length ns1 = m \<and> row c r l ns1 \<and> row_items ns1 = row_items ?d \<and> row_leaves ns1 = row_leaves ?d
    \<and> same_but_inner (allocate_inner e) e' \<and> innernodes (m_stats e') + row_ninner ?d = innernodes (m_stats (allocate_inner e)) + row_ninner ns1"
    by (rule Suc.IH [OF ns(1) rows(2)]) (use sp in auto)
  note IH = this
  have "?u \<le> length cs" by (rule div_le_dividend)
  then have len: "length ?g = ?u" by simp
  note gn = group_node [OF rows(1) assms(3), where r = r, unfolded len]
  have b: "2 \<le> ?u" "?u \<le> Suc (innerslotmax c)" "r \<or> Suc (mininnerslots c) \<le> ?u" using sp(1,2) assms(6,7) by auto
  note gn = gn [OF b]
  have sb: "same_but_inner e e'" using IH by (simp add: same_but_inner_def allocate_inner_def links_def)
  have app: "row_items ?g @ row_items ?d = row_items cs" "row_leaves ?g @ row_leaves ?d = row_leaves cs"
    "row_ninner ?g + row_ninner ?d = row_ninner cs"
    unfolding row_append [symmetric] append_take_drop_id by (rule refl)+
  show ?case unfolding ns(2) using IH gn sb app by (simp add: row_def allocate_inner_def)
qed

lemma group_count:
  fixes n M :: nat
  assumes "2 \<le> n" "2 \<le> M"
  defines "m \<equiv> (n + M) div (M + 1)"
  shows "0 < m" "m < n" "n \<le> Suc M * m" "m = 1 \<or> Suc (M div 2) * m \<le> n"
proof -
  define q r where "q = m" and "r = (n + M) mod (M + 1)"
  have n: "n + M = m * (M + 1) + r" "r \<le> M" using div_mult_mod_eq [of "n + M" "M + 1"] mod_less_divisor [of "M + 1" "n + M"]
    by (auto simp: m_def r_def)
  show pos: "0 < m" using n assms(1) by (cases m) auto
  show "n \<le> Suc M * m" using n by (simp add: algebra_simps)
  show "m < n"
  proof (rule ccontr)
    assume "\<not> m < n"
    then have "n * (M + 1) \<le> m * (M + 1)" by (intro mult_le_mono1) simp
    then have "n + n * M \<le> m + m * M" by simp
    moreover have "n + M = m + m * M + r" using n(1) by simp
    ultimately have "n * M \<le> M" by linarith
    moreover have "2 * M \<le> n * M" using assms(1) by (rule mult_le_mono1)
    ultimately show False using assms(2) by simp
  qed
  show "m = 1 \<or> Suc (M div 2) * m \<le> n"
  proof (cases "m = 1")
    case False
    then obtain j where j: "m = Suc (Suc j)" using pos by (cases m; cases "m - 1") auto
    obtain h where h: "M = 2 * h \<or> M = Suc (2 * h)" "M div 2 = h" by (metis evenE oddE dvd_mult_div_cancel odd_two_times_div_two_succ Suc_eq_plus1)
    have "n + M = j * M + j + 2 * M + 2 + r" using n(1) by (simp add: j algebra_simps)
    then have nn: "n = j * M + j + M + 2 + r" by simp
    have "Suc (M div 2) * m = h * j + 2 * h + j + 2" by (simp add: h(2) j algebra_simps)
    also have "\<dots> \<le> n" using h(1) by (auto simp: nn algebra_simps)
    finally show ?thesis ..
  qed simp
qed

lemma bulk_levels_spec:
  assumes cfg: "bcfg_ok c"
  shows "length cs < fuel \<Longrightarrow> cs \<noteq> [] \<Longrightarrow> row c (length cs = 1) l cs
    \<Longrightarrow> \<exists>n e'. bulk_levels c fuel (Suc l) cs e = Some (n, e') \<and> bt_wf c True n \<and> items n = row_items cs \<and> leaf_addrs n = row_leaves cs
      \<and> same_but_inner e e' \<and> innernodes (m_stats e') + row_ninner cs = innernodes (m_stats e) + ninner n"
proof (induction fuel arbitrary: l cs e)
  case (Suc fuel)
  show ?case
  proof (cases "length cs = 1")
    case True
    then obtain n k where "cs = [(n, k)]" by (metis One_nat_def length_0_conv length_Suc_conv surj_pair)
    then show ?thesis using Suc.prems by (simp add: row_def same_but_inner_def)
  next
    case False
    then obtain x y zs where cs: "cs = x # y # zs" using Suc.prems(2) by (cases cs; cases "tl cs") auto
    then have n2: "2 \<le> length cs" by simp
    let ?M = "innerslotmax c"
    let ?m = "(length cs + ?M) div (?M + 1)"
    have M: "2 \<le> ?M" "mininnerslots c = ?M div 2" using cfg by (auto simp: bcfg_ok_def mininnerslots_def)
    note gc = group_count [OF n2 M(1)]
    obtain ns e1 where b: "bulk_inner (Suc l) ?m cs e = (ns, e1)" by (cases "bulk_inner (Suc l) ?m cs e")
    have run: "bulk_levels c (Suc fuel) (Suc l) cs e = bulk_levels c fuel (Suc (Suc l)) ns e1"
      using b by (simp add: cs)
    have rw: "row c False (Suc l - 1) cs" using Suc.prems(3) False by simp
    have "length ns = ?m \<and> row c (?m = 1) (Suc l) ns \<and> row_items ns = row_items cs \<and> row_leaves ns = row_leaves cs
      \<and> same_but_inner e e1 \<and> innernodes (m_stats e1) + row_ninner cs = innernodes (m_stats e) + row_ninner ns"
    proof (cases "?m = 1")
      case True
      show ?thesis by (rule bulk_inner_spec [OF b rw, where lo = 2]) (use True n2 gc(3) in auto)
    next
      case False
      show ?thesis by (rule bulk_inner_spec [OF b rw, where lo = "Suc (mininnerslots c)"]) (use False gc M in auto)
    qed
    note B = this
    have "\<exists>n e'. bulk_levels c fuel (Suc (Suc l)) ns e1 = Some (n, e') \<and> bt_wf c True n \<and> items n = row_items ns \<and> leaf_addrs n = row_leaves ns
      \<and> same_but_inner e1 e' \<and> innernodes (m_stats e') + row_ninner ns = innernodes (m_stats e1) + ninner n"
      by (rule Suc.IH) (use B gc(1,2) Suc.prems(1) in auto)
    then show ?thesis unfolding run using B by (auto simp: same_but_inner_def)
  qed
qed simp

lemma leaf_rows:
  assumes "\<forall>n \<in> set ls. leaf_sized lo hi n" "0 < lo" "hi \<le> leafslotmax c" "r \<or> minleafslots c \<le> lo"
  shows "row c r 0 (map leaf_maxkey ls)" "row_items (map leaf_maxkey ls) = concat (map items ls)"
    "row_leaves (map leaf_maxkey ls) = concat (map leaf_addrs ls)" "row_ninner (map leaf_maxkey ls) = 0"
proof -
  have "bt_wf c r n \<and> level n = 0 \<and> leaf_maxkey n = (n, last_key n)" if n: "n \<in> set ls" for n
  proof -
    obtain a ks vs where l: "n = Leaf a ks vs" "length vs = length ks" "lo \<le> length ks" "length ks \<le> hi"
      using assms(1) n by (auto simp: leaf_sized_def)
    moreover have "ks \<noteq> []" using l(3) assms(2) by auto
    ultimately show ?thesis using assms(2-4) last_key_Leaf [of vs ks a] by (auto simp: leaf_maxkey_def)
  qed
  then show "row c r 0 (map leaf_maxkey ls)" by (auto simp: row_def)
  have f: "fst (leaf_maxkey n) = n" for n :: "('a, 'b) bnode" by (simp add: leaf_maxkey_def)
  show "row_items (map leaf_maxkey ls) = concat (map items ls)" "row_leaves (map leaf_maxkey ls) = concat (map leaf_addrs ls)"
    by (simp_all add: row_items_def row_leaves_def comp_def f)
  have "ninner n = 0" if "n \<in> set ls" for n using assms(1) that by (auto simp: leaf_sized_def)
  then have "row_ninner (map leaf_maxkey ls) = sum_list (map (\<lambda>n. 0) ls)" unfolding row_ninner_def
    by (intro arg_cong [where f = sum_list]) (simp add: f)
  then show "row_ninner (map leaf_maxkey ls) = 0" by simp
qed

lemma leaf_count:
  fixes n M :: nat
  assumes "0 < n" "4 \<le> M"
  defines "m \<equiv> (n + M - 1) div M"
  shows "0 < m" "n \<le> M * m" "m = 1 \<or> (M div 2) * m \<le> n" "m \<le> n"
proof -
  define r where "r = (n + M - 1) mod M"
  have n: "n + M = m * M + r + 1" "r < M" using div_mult_mod_eq [of "n + M - 1" M] mod_less_divisor [of M "n + M - 1"] assms
    by (auto simp: m_def r_def)
  show pos: "0 < m" using n assms(1,2) by (cases m) auto
  show "n \<le> M * m" using n by (simp add: algebra_simps)
  show "m = 1 \<or> (M div 2) * m \<le> n"
  proof (cases "m = 1")
    case False
    then obtain j where j: "m = Suc (Suc j)" using pos by (cases m; cases "m - 1") auto
    obtain h where h: "M = 2 * h \<or> M = Suc (2 * h)" "M div 2 = h" by (metis evenE oddE dvd_mult_div_cancel odd_two_times_div_two_succ Suc_eq_plus1)
    have "n + M = j * M + 2 * M + r + 1" using n(1) by (simp add: j algebra_simps)
    then have nn: "n = j * M + M + r + 1" by simp
    have "(M div 2) * m = h * j + 2 * h" by (simp add: h(2) j algebra_simps)
    also have "\<dots> \<le> n" using h(1) by (auto simp: nn algebra_simps)
    finally show ?thesis ..
  qed simp
  show "m \<le> n"
  proof (rule ccontr)
    assume "\<not> m \<le> n"
    then have "Suc n * M \<le> m * M" by (intro mult_le_mono1) simp
    then have "n * M + 1 \<le> n" using n(1) by simp
    then show False using assms(2) by (cases M) auto
  qed
qed

lemma bulk_load_spec:
  assumes ok: "bt_ok c t" and e: "m_root t = None" and s: "sorted_items xs"
  shows "\<exists>t'. bulk_load c t xs = Some t' \<and> bt_ok c t' \<and> tree_items t' = xs"
proof -
  have cfg: "bcfg_ok c" and ch: "chain (m_env t) []" and ni: "innernodes (m_stats (m_env t)) = 0"
    using ok e by (auto simp: bt_ok_def tree_leaves_def tree_ninner_def)
  let ?e = "(m_env t) \<lparr> m_stats := m_stats (m_env t) \<lparr> itemcount := length xs \<rparr> \<rparr>"
  let ?m = "(length xs + leafslotmax c - 1) div leafslotmax c"
  have M: "4 \<le> leafslotmax c" using cfg by (simp add: bcfg_ok_def)
  have ch': "chain ?e []" using ch by (simp add: chain_stats)
  obtain ls e1 where b: "bulk_leaves ?m xs ?e = (ls, e1)" by (cases "bulk_leaves ?m xs ?e")
  show ?thesis
  proof (cases "xs = []")
    case True
    then have m0: "?m = 0" using M by simp
    have "bulk_load c t xs = Some \<lparr> m_root = None, m_env = ?e \<rparr>"
      unfolding bulk_load_def Let_def m0 by simp
    then show ?thesis using ch' cfg ni True
      by (simp add: bt_ok_def tree_items_def tree_leaves_def tree_ninner_def bt_size_def)
  next
    case False
    then have "0 < length xs" by simp
    note lc = leaf_count [OF this M]
    let ?lo = "if ?m = 1 then 1 else minleafslots c"
    have lo: "?lo * ?m \<le> length xs" "0 < ?lo" using lc bcfg_min [OF cfg] by (auto simp: minleafslots_def)
    have B: "length ls = ?m \<and> concat (map items ls) = xs \<and> (\<forall>n \<in> set ls. leaf_sized ?lo (leafslotmax c) n)
      \<and> chain e1 ([] @ concat (map leaf_addrs ls)) \<and> innernodes (m_stats e1) = innernodes (m_stats ?e)
      \<and> itemcount (m_stats e1) = itemcount (m_stats ?e)"
      by (rule bulk_leaves_spec [OF b ch' lo(1) lc(2)])
    then have ls: "ls \<noteq> []" using lc(1) by auto
    note rows = leaf_rows [of ls ?lo "leafslotmax c" c]
    have "row c (length (map leaf_maxkey ls) = 1) 0 (map leaf_maxkey ls)"
      by (rule rows(1)) (use B lo(2) in auto)
    from bulk_levels_spec [OF cfg _ _ this, of "length ls + 1" e1] ls
    obtain n e' where r: "bulk_levels c (length ls + 1) 1 (map leaf_maxkey ls) e1 = Some (n, e')" "bt_wf c True n"
      "items n = row_items (map leaf_maxkey ls)" "leaf_addrs n = row_leaves (map leaf_maxkey ls)" "same_but_inner e1 e'"
      "innernodes (m_stats e') + row_ninner (map leaf_maxkey ls) = innernodes (m_stats e1) + ninner n" by auto
    have rr: "row_items (map leaf_maxkey ls) = xs" "row_leaves (map leaf_maxkey ls) = concat (map leaf_addrs ls)"
      "row_ninner (map leaf_maxkey ls) = 0"
      using rows(2,3,4) [of True] B lo(2) by auto
    have run: "bulk_load c t xs = Some \<lparr> m_root = Some n, m_env = e' \<rparr>"
    proof (cases ls rule: list.exhaust)
      case (Cons x ys)
      show ?thesis
      proof (cases ys)
        case Nil
        then have "x = n" "e1 = e'" using r(1) Cons by (auto simp: leaf_maxkey_def)
        then show ?thesis using b Cons Nil by (simp add: bulk_load_def)
      next
        case (Cons y zs)
        then show ?thesis using b r(1) \<open>ls = x # ys\<close> unfolding bulk_load_def Let_def by (simp del: bulk_levels.simps)
      qed
    qed (use ls in simp)
    have "chain e' (leaf_addrs n)" using B r(4,5) rr(2) chain_links [of e' e1] by (simp add: same_but_inner_def)
    then have "bt_ok c \<lparr> m_root = Some n, m_env = e' \<rparr>"
      using cfg r B rr s ni by (simp add: bt_ok_def tree_items_def tree_leaves_def tree_ninner_def bt_size_def leaf_addrs_list same_but_inner_def)
    then show ?thesis using run r(3) rr(1) by (simp add: tree_items_def)
  qed
qed

end
