(* ===== verification/BTree_Copy.thy ===== *)
theory BTree_Copy
  imports BTree_Build
begin

text \<open>
  Trees that are built from other trees: clearing, copying and assignment, and the round trip through a dump.
\<close>

section \<open>Clearing\<close>

lemma bt_clear_ok: "bt_ok c t \<Longrightarrow> bt_ok c (bt_clear t) \<and> m_root (bt_clear t) = None"
  by (cases "m_root t") (auto simp: bt_clear_def bt_ok_def tree_items_def tree_leaves_def tree_ninner_def bt_size_def
      chain_def zero_stats_def)

lemma bt_ok_empty_env:
  "bt_ok c t \<Longrightarrow> m_root t = None \<Longrightarrow> chain (m_env t) [] \<and> innernodes (m_stats (m_env t)) = 0 \<and> itemcount (m_stats (m_env t)) = 0"
  by (simp add: bt_ok_def tree_items_def tree_leaves_def tree_ninner_def bt_size_def)

text \<open>Every node is freed once: the counters of the allocated nodes return to what they were without the tree.\<close>

lemma clear_recursive_frees:
  "length (leaf_addrs n) \<le> leaves (m_stats e) \<Longrightarrow> ninner n \<le> innernodes (m_stats e) \<Longrightarrow> bt_wf c r n
   \<Longrightarrow> m_stats (free_node (isleafnode n) (clear_recursive n e))
      = m_stats e \<lparr> leaves := leaves (m_stats e) - length (leaf_addrs n), innernodes := innernodes (m_stats e) - ninner n \<rparr>"
proof (induction n arbitrary: e r)
  case (Leaf a ks vs)
  then show ?case by (simp add: free_node_def isleafnode_def)
next
  case (Inner l ks cs)
  have "m_stats (fold (\<lambda>n e. free_node (isleafnode n) (clear_recursive n e)) cs e)
     = m_stats e \<lparr> leaves := leaves (m_stats e) - length (concat (map leaf_addrs cs)),
         innernodes := innernodes (m_stats e) - sum_list (map ninner cs) \<rparr>"
    if "length (concat (map leaf_addrs cs)) \<le> leaves (m_stats e)" "sum_list (map ninner cs) \<le> innernodes (m_stats e)"
      "\<forall>n \<in> set cs. bt_wf c False n"
    using that Inner.IH
  proof (induction cs arbitrary: e)
    case (Cons n ns)
    let ?e = "free_node (isleafnode n) (clear_recursive n e)"
    have e: "m_stats ?e = m_stats e \<lparr> leaves := leaves (m_stats e) - length (leaf_addrs n), innernodes := innernodes (m_stats e) - ninner n \<rparr>"
      using Cons.prems by (intro Cons.prems(4) [of n e False]) auto
    have "m_stats (fold (\<lambda>n e. free_node (isleafnode n) (clear_recursive n e)) ns ?e)
       = m_stats ?e \<lparr> leaves := leaves (m_stats ?e) - length (concat (map leaf_addrs ns)),
           innernodes := innernodes (m_stats ?e) - sum_list (map ninner ns) \<rparr>"
      by (rule Cons.IH) (use Cons.prems e in auto)
    then show ?case by (simp add: e)
  qed simp
  note f = this
  show ?case using f Inner.prems by (simp add: free_node_def isleafnode_def)
qed

section \<open>Copying\<close>

text \<open>A copy differs from the original in the addresses of the leaves only.\<close>

fun strip :: "('k, 'v) bnode \<Rightarrow> ('k, 'v) bnode" where
  "strip (Leaf a ks vs) = Leaf 0 ks vs"
| "strip (Inner l ks cs) = Inner l ks (map strip cs)"

lemma items_strip [simp]: "items (strip n) = items n"
  by (induction n) (auto intro!: arg_cong [where f = concat])

lemma level_strip [simp]: "level (strip n) = level n"
  by (cases n) auto

lemma ninner_strip [simp]: "ninner (strip n) = ninner n"
  by (induction n) (auto simp: comp_def intro!: arg_cong [where f = sum_list])

lemma last_key_strip [simp]: "last_key (strip n) = last_key n"
  by (simp add: last_key_def)

lemma bt_wf_strip [simp]: "bt_wf c r (strip n) = bt_wf c r n"
  by (induction n arbitrary: r) (auto simp: seps_def)

lemma leaf_addrs_strip: "length (leaf_addrs (strip n)) = length (leaf_addrs n)"
  by (induction n) (auto simp: length_concat comp_def intro!: arg_cong [where f = sum_list])

lemma strip_eq:
  assumes "strip n' = strip n"
  shows "items n' = items n" "level n' = level n" "ninner n' = ninner n" "bt_wf c r n' = bt_wf c r n"
  using assms by (metis items_strip, metis level_strip, metis ninner_strip, metis bt_wf_strip)

lemma strip_leaf_addrs: "strip n' = strip n \<Longrightarrow> bt_wf c r n \<Longrightarrow> leaf_addrs n' \<noteq> []"
  using bt_wf_addrs strip_eq(4) by metis

lemma copy_recursive_spec:
  fixes n n' :: "('k, 'v) bnode" and ns ns' :: "('k, 'v) bnode list"
  shows
  "copy_recursive n e = (n', e') \<Longrightarrow> chain e as
   \<Longrightarrow> strip n' = strip n \<and> chain e' (as @ leaf_addrs n') \<and> innernodes (m_stats e') = innernodes (m_stats e) + ninner n
     \<and> itemcount (m_stats e') = itemcount (m_stats e)"
  "copy_children ns e = (ns', e') \<Longrightarrow> chain e as
   \<Longrightarrow> map strip ns' = map strip ns \<and> chain e' (as @ concat (map leaf_addrs ns'))
     \<and> innernodes (m_stats e') = innernodes (m_stats e) + sum_list (map ninner ns) \<and> itemcount (m_stats e') = itemcount (m_stats e)"
proof (induction n e and ns e arbitrary: n' e' as and ns' e' as rule: copy_recursive_copy_children.induct)
  case (1 a ks vs e)
  then obtain b e1 where "allocate_leaf e = (b, e1)" "n' = Leaf b ks vs" "e' = link_tail b e1" by (auto split: prod.splits)
  then show ?case using chain_new_tail [OF "1.prems"(2)] by simp
next
  case (2 l ks cs e)
  then obtain cs' where c: "copy_children cs (allocate_inner e) = (cs', e')" "n' = Inner l ks cs'" by (auto split: prod.splits)
  have "chain (allocate_inner e) as" using "2.prems"(2) by (simp add: chain_allocate_inner)
  from "2.IH" [OF c(1) this] show ?case by (simp add: c(2) allocate_inner_def)
next
  case (3 e)
  then show ?case by simp
next
  case (4 n ns e)
  then obtain n1 e1 ns1 where c: "copy_recursive n e = (n1, e1)" "copy_children ns e1 = (ns1, e')" "ns' = n1 # ns1"
    by (auto split: prod.splits)
  note a = "4.IH"(1) [OF c(1) "4.prems"(2)]
  then have "chain e1 (as @ leaf_addrs n1)" by simp
  from "4.IH"(2) [OF refl c(1) [symmetric] c(2) this] a show ?case by (simp add: c(3))
qed

lemma copied_ok:
  assumes "bt_ok c u" "m_root u = Some r" "strip r' = strip r" "chain e (leaf_addrs r')" "innernodes (m_stats e) = ninner r"
    "itemcount (m_stats e) = bt_size u"
  shows "bt_ok c \<lparr> m_root = Some r', m_env = e \<rparr> \<and> tree_items \<lparr> m_root = Some r', m_env = e \<rparr> = tree_items u"
  using assms strip_eq [OF assms(3)]
  by (simp add: bt_ok_def tree_items_def tree_leaves_def tree_ninner_def bt_size_def leaf_addrs_list)

lemma bt_ok_size_pos: "bt_ok c u \<Longrightarrow> m_root u \<noteq> None \<longleftrightarrow> bt_size u \<noteq> 0"
  using bt_wf_items by (fastforce simp: bt_ok_def tree_items_def split: option.splits)

lemma bt_copy_spec: "bt_ok c u \<Longrightarrow> bt_ok c (bt_copy u) \<and> tree_items (bt_copy u) = tree_items u"
proof -
  assume ok: "bt_ok c u"
  let ?e = "(m_env (empty_btree :: ('a, 'b) btree)) \<lparr> m_stats := (m_stats (m_env u)) \<lparr> leaves := 0, innernodes := 0 \<rparr> \<rparr>"
  show ?thesis
  proof (cases "m_root u")
    case None
    then have "bt_size u = 0" using bt_ok_size_pos [OF ok] by auto
    then show ?thesis using None ok
      by (simp add: bt_copy_def bt_ok_def tree_items_def tree_leaves_def tree_ninner_def bt_size_def empty_btree_def chain_def)
  next
    case (Some r)
    then have sz: "0 < bt_size u" using bt_ok_size_pos [OF ok] by auto
    obtain r' e' where c: "copy_recursive r ?e = (r', e')" by (cases "copy_recursive r ?e")
    have "chain ?e []" by (simp add: chain_def empty_btree_def)
    note s = copy_recursive_spec(1) [OF c this]
    have "bt_copy u = \<lparr> m_root = Some r', m_env = e' \<rparr>" using sz Some c by (simp add: bt_copy_def)
    then show ?thesis using copied_ok [OF ok Some, of r' e'] s by (simp add: bt_size_def)
  qed
qed

lemma bt_assign_spec:
  assumes "bt_ok c t" "bt_ok c u"
  shows "bt_ok c (bt_assign t u) \<and> tree_items (bt_assign t u) = tree_items u"
proof -
  have cl: "bt_ok c (bt_clear t)" "m_root (bt_clear t) = None" using bt_clear_ok [OF assms(1)] by auto
  show ?thesis
  proof (cases "m_root u")
    case None
    then have "bt_size u = 0" using bt_ok_size_pos [OF assms(2)] by auto
    then show ?thesis using None cl by (simp add: bt_assign_def tree_items_def)
  next
    case (Some r)
    then have sz: "bt_size u \<noteq> 0" using bt_ok_size_pos [OF assms(2)] by auto
    let ?e = "(m_env (bt_clear t)) \<lparr> m_stats := (m_stats (m_env (bt_clear t))) \<lparr> leaves := 0, innernodes := 0 \<rparr> \<rparr>"
    obtain r' e' where c: "copy_recursive r ?e = (r', e')" by (cases "copy_recursive r ?e")
    have "chain ?e []" using bt_ok_empty_env [OF cl] by (simp add: chain_def)
    note s = copy_recursive_spec(1) [OF c this]
    have "bt_assign t u = \<lparr> m_root = Some r', m_env = e' \<lparr> m_stats := m_stats (m_env u) \<rparr> \<rparr>"
      using sz Some c by (simp add: bt_assign_def Let_def)
    moreover have "chain (e' \<lparr> m_stats := m_stats (m_env u) \<rparr>) (leaf_addrs r')"
    proof -
      have "length (leaf_addrs r') = length (leaf_addrs r)" using s
        leaf_addrs_strip [of r] leaf_addrs_strip [of r'] by simp
      then show ?thesis using s assms(2) Some linked_cong [of "leaf_addrs r'" "e' \<lparr> m_stats := m_stats (m_env u) \<rparr>" e']
        by (simp add: chain_def bt_ok_def tree_leaves_def leaf_addrs_list)
    qed
    moreover have "innernodes (m_stats (m_env u)) = ninner r" using assms(2) Some by (simp add: bt_ok_def tree_ninner_def)
    ultimately show ?thesis using copied_ok [OF assms(2) Some, of r' "e' \<lparr> m_stats := m_stats (m_env u) \<rparr>"] s
      by (simp add: bt_size_def)
  qed
qed

section \<open>Dump and restore\<close>

lemma chain_itemcount: "chain (e \<lparr> m_stats := m_stats e \<lparr> itemcount := i \<rparr> \<rparr>) as = chain e as"
  by (rule chain_stats)

text \<open>
  A restored leaf comes with the links it had when it was dumped; the appending to the leaf list overwrites them, but
  for the outer links of the first and the last leaf.
\<close>

lemma restore_leaf_spec:
  assumes o: "open_chain e as" and f: "as = [] \<Longrightarrow> prv = None" and r: "restore_leaf prv nxt e = (a, e')"
  shows "open_chain e' (as @ [a]) \<and> nextleaf e' a = nxt \<and> innernodes (m_stats e') = innernodes (m_stats e)"
proof -
  let ?e1 = "snd (allocate_leaf e)"
  let ?e = "?e1 \<lparr> prevleaf := (prevleaf ?e1)(fresh e := prv), nextleaf := (nextleaf ?e1)(fresh e := nxt) \<rparr>"
  have a: "a = fresh e" "e' = link_tail (fresh e) ?e" using r by (auto simp: restore_leaf_def allocate_leaf_def Let_def)
  have "\<forall>b \<in> set as. b \<noteq> fresh e" using o by (auto simp: open_chain_def)
  then have "open_chain (link_tail (fresh e) ?e) (as @ [fresh e])" "nextleaf (link_tail (fresh e) ?e) (fresh e) = nextleaf ?e (fresh e)"
    using open_chain_link_tail [OF o, of ?e "fresh e"] f by (auto simp: allocate_leaf_def)
  moreover have "innernodes (m_stats e') = innernodes (m_stats e)"
    by (simp add: a link_tail_def allocate_leaf_def split: option.splits)
  ultimately show ?thesis by (simp add: a)
qed

lemma open_chain_allocate_inner: "open_chain e as \<Longrightarrow> open_chain (allocate_inner e) as"
  by (rule open_chain_links [of _ e]) simp_all

lemma dump_node_nonempty: "dump_node e n \<noteq> []"
  by (cases n) auto

definition restored :: "env \<Rightarrow> env \<Rightarrow> addr list \<Rightarrow> addr list \<Rightarrow> addr list \<Rightarrow> bool" where
  "restored e0 e' as old new \<longleftrightarrow> open_chain e' (as @ new) \<and> new \<noteq> [] \<and> nextleaf e' (last new) = nextleaf e0 (last old)"

definition restores :: "env \<Rightarrow> ('k, 'v) bnode \<Rightarrow> bool" where
  "restores e0 n \<longleftrightarrow> (\<forall>fuel e as is. length (dump_node e0 n) \<le> fuel \<longrightarrow> open_chain e as
     \<longrightarrow> (as = [] \<longrightarrow> prevleaf e0 (hd (leaf_addrs n)) = None)
     \<longrightarrow> (\<exists>n' e'. restore_node fuel (dump_node e0 n @ is) e = Some (n', is, e') \<and> strip n' = strip n
          \<and> restored e0 e' as (leaf_addrs n) (leaf_addrs n') \<and> innernodes (m_stats e') = innernodes (m_stats e) + ninner n))"

lemma restore_children_dump:
  assumes "\<forall>n \<in> set ns. restores e0 n \<and> leaf_addrs n \<noteq> []" "ns \<noteq> []" "length (concat (map (dump_node e0) ns)) \<le> fuel"
    "open_chain e as" "as = [] \<Longrightarrow> prevleaf e0 (hd (leaf_addrs (hd ns))) = None"
  shows "\<exists>ns' e'. restore_children fuel (length ns) (concat (map (dump_node e0) ns) @ is) e = Some (ns', is, e')
     \<and> map strip ns' = map strip ns \<and> restored e0 e' as (concat (map leaf_addrs ns)) (concat (map leaf_addrs ns'))
     \<and> innernodes (m_stats e') = innernodes (m_stats e) + sum_list (map ninner ns)"
  using assms
proof (induction ns arbitrary: fuel e as)
  case (Cons n ns)
  obtain d where d: "length (dump_node e0 n) = Suc d" using dump_node_nonempty by (cases "dump_node e0 n") auto
  then obtain f where f: "fuel = Suc f" using Cons.prems(3) by (cases fuel) auto
  let ?is = "concat (map (dump_node e0) ns) @ is"
  have rn: "restores e0 n" using Cons.prems(1) by simp
  obtain n' e1 where n: "restore_node (Suc f) (dump_node e0 n @ ?is) e = Some (n', ?is, e1)" "strip n' = strip n"
    "restored e0 e1 as (leaf_addrs n) (leaf_addrs n')" "innernodes (m_stats e1) = innernodes (m_stats e) + ninner n"
    using rn [unfolded restores_def, rule_format, of "Suc f" e as ?is] Cons.prems(3,4,5) f by auto
  have o: "open_chain e1 (as @ leaf_addrs n')" "leaf_addrs n' \<noteq> []" using n(3) by (auto simp: restored_def)
  show ?case
  proof (cases "ns = []")
    case True
    then have "restore_children f (length ns) is e1 = Some ([], is, e1)" by simp
    then have "restore_children fuel (length (n # ns)) (concat (map (dump_node e0) (n # ns)) @ is) e = Some ([n'], is, e1)"
      using n(1) True by (simp add: f)
    then show ?thesis using n True by auto
  next
    case False
    have "\<exists>ns' e'. restore_children f (length ns) ?is e1 = Some (ns', is, e')
     \<and> map strip ns' = map strip ns \<and> restored e0 e' (as @ leaf_addrs n') (concat (map leaf_addrs ns)) (concat (map leaf_addrs ns'))
     \<and> innernodes (m_stats e') = innernodes (m_stats e1) + sum_list (map ninner ns)"
      by (rule Cons.IH [OF _ False _ o(1)]) (use Cons.prems f d o in auto)
    then obtain ns' e' where r: "restore_children f (length ns) ?is e1 = Some (ns', is, e')" "map strip ns' = map strip ns"
      "restored e0 e' (as @ leaf_addrs n') (concat (map leaf_addrs ns)) (concat (map leaf_addrs ns'))"
      "innernodes (m_stats e') = innernodes (m_stats e1) + sum_list (map ninner ns)" by blast
    have "concat (map leaf_addrs ns) \<noteq> []" using Cons.prems(1) False by (cases ns) auto
    then have "restored e0 e' as (concat (map leaf_addrs (n # ns))) (concat (map leaf_addrs (n' # ns')))"
      using r(3) by (simp add: restored_def del: concat_eq_Nil_conv)
    moreover have "restore_children fuel (length (n # ns)) (concat (map (dump_node e0) (n # ns)) @ is) e = Some (n' # ns', is, e')"
      using n(1) r(1) by (simp add: f)
    ultimately show ?thesis using n(2,4) r(2,4) by auto
  qed
qed simp

lemma restore_node_dump: "bt_wf c r n \<Longrightarrow> restores e0 n"
proof (induction n arbitrary: r)
  case (Leaf a ks vs)
  show ?case unfolding restores_def
  proof (intro allI impI)
    fix fuel e as "is"
    assume f: "length (dump_node e0 (Leaf a ks vs)) \<le> fuel" and o: "open_chain e as"
      and p: "as = [] \<longrightarrow> prevleaf e0 (hd (leaf_addrs (Leaf a ks vs))) = None"
    obtain g where g: "fuel = Suc g" using f by (cases fuel) auto
    obtain b e' where r: "restore_leaf (prevleaf e0 a) (nextleaf e0 a) e = (b, e')" by (cases "restore_leaf (prevleaf e0 a) (nextleaf e0 a) e")
    have "open_chain e' (as @ [b]) \<and> nextleaf e' b = nextleaf e0 a \<and> innernodes (m_stats e') = innernodes (m_stats e)"
      by (rule restore_leaf_spec [OF o _ r]) (use p in simp)
    then show "\<exists>n' e'. restore_node fuel (dump_node e0 (Leaf a ks vs) @ is) e = Some (n', is, e') \<and> strip n' = strip (Leaf a ks vs)
          \<and> restored e0 e' as (leaf_addrs (Leaf a ks vs)) (leaf_addrs n')
          \<and> innernodes (m_stats e') = innernodes (m_stats e) + ninner (Leaf a ks vs)"
      using r by (auto simp: g restored_def)
  qed
next
  case (Inner l ks cs)
  have len: "length cs = Suc (length ks)" and w: "\<forall>n \<in> set cs. bt_wf c False n" using Inner.prems by (auto simp: seps_def)
  have rs: "\<forall>n \<in> set cs. restores e0 n \<and> leaf_addrs n \<noteq> []" using Inner.IH w bt_wf_addrs by blast
  have ne: "cs \<noteq> []" using len by auto
  have hd: "hd (leaf_addrs (Inner l ks cs)) = hd (leaf_addrs (hd cs))" using rs ne by (cases cs) auto
  show ?case unfolding restores_def
  proof (intro allI impI)
    fix fuel e as "is"
    assume f: "length (dump_node e0 (Inner l ks cs)) \<le> fuel" and o: "open_chain e as"
      and p: "as = [] \<longrightarrow> prevleaf e0 (hd (leaf_addrs (Inner l ks cs))) = None"
    obtain g where g: "fuel = Suc g" using f by (cases fuel) auto
    have "\<exists>ns' e'. restore_children g (length cs) (concat (map (dump_node e0) cs) @ is) (allocate_inner e) = Some (ns', is, e')
     \<and> map strip ns' = map strip cs \<and> restored e0 e' as (concat (map leaf_addrs cs)) (concat (map leaf_addrs ns'))
     \<and> innernodes (m_stats e') = innernodes (m_stats (allocate_inner e)) + sum_list (map ninner cs)"
      by (rule restore_children_dump [OF rs ne _ open_chain_allocate_inner [OF o]]) (use f g p hd in auto)
    then show "\<exists>n' e'. restore_node fuel (dump_node e0 (Inner l ks cs) @ is) e = Some (n', is, e') \<and> strip n' = strip (Inner l ks cs)
          \<and> restored e0 e' as (leaf_addrs (Inner l ks cs)) (leaf_addrs n')
          \<and> innernodes (m_stats e') = innernodes (m_stats e) + ninner (Inner l ks cs)"
      unfolding len g by (elim exE conjE) (auto simp: allocate_inner_def)
  qed
qed

lemma restore_spec:
  assumes t: "bt_ok c t" and u: "bt_ok c u" and f: "length (snd (dump c ksize dsize u)) \<le> fuel"
  shows "\<exists>t'. restore c ksize dsize fuel t (dump c ksize dsize u) = Some (t', True) \<and> bt_ok c t' \<and> tree_items t' = tree_items u"
proof -
  have hs: "header_same (header_fill c ksize dsize (bt_size u)) (header_fill c ksize dsize (bt_size u))"
    by (simp add: header_same_def header_fill_def)
  have hi: "h_itemcount (header_fill c ksize dsize n) = n" for n by (simp add: header_fill_def)
  have cl: "bt_ok c (bt_clear t)" "m_root (bt_clear t) = None" using bt_clear_ok [OF t] by auto
  show ?thesis
  proof (cases "m_root u")
    case None
    then have z: "bt_size u = 0" using bt_ok_size_pos [OF u] by auto
    have "restore c ksize dsize fuel t (dump c ksize dsize u) = Some (bt_clear t, True)"
      using hs None z by (simp add: restore_def dump_def hi)
    then show ?thesis using cl None by (simp add: tree_items_def)
  next
    case (Some r)
    then have z: "0 < bt_size u" using bt_ok_size_pos [OF u] by auto
    have wf: "bt_wf c True r" using u Some by (simp add: bt_ok_def)
    let ?eu = "m_env u" and ?e = "m_env (bt_clear t)"
    have ch: "chain ?eu (leaf_addrs r)" using u Some by (simp add: bt_ok_def tree_leaves_def leaf_addrs_list)
    have ne: "leaf_addrs r \<noteq> []" by (rule bt_wf_addrs [OF wf])
    have ends: "prevleaf ?eu (hd (leaf_addrs r)) = None" "nextleaf ?eu (last (leaf_addrs r)) = None"
      using ch ne linked_first [of "?eu" None "leaf_addrs r" None] by (simp add: chain_def, simp add: chain_open)
    have "open_chain ?e []" using bt_ok_empty_env [OF cl] by (simp add: chain_open)
    then obtain r' e' where r: "restore_node fuel (dump_node ?eu r @ []) ?e = Some (r', [], e')" "strip r' = strip r"
      "restored ?eu e' [] (leaf_addrs r) (leaf_addrs r')" "innernodes (m_stats e') = innernodes (m_stats ?e) + ninner r"
      using restore_node_dump [OF wf, of ?eu, unfolded restores_def, rule_format, of fuel ?e "[]" "[]"] f Some ends
      by (auto simp: dump_def)
    have ch': "chain e' (leaf_addrs r')" using r(3) ends by (simp add: restored_def chain_open)
    let ?e' = "e' \<lparr> m_stats := m_stats e' \<lparr> itemcount := bt_size u \<rparr> \<rparr>"
    have "restore c ksize dsize fuel t (dump c ksize dsize u) = Some (\<lparr> m_root = Some r', m_env = ?e' \<rparr>, True)"
      using hs Some z r(1) dump_node_nonempty [of ?eu r] by (simp add: restore_def dump_def hi Let_def)
    moreover have "innernodes (m_stats ?e) = 0" using bt_ok_empty_env [OF cl] by simp
    ultimately show ?thesis using copied_ok [OF u Some r(2), of ?e'] ch' r(4) by (simp add: chain_stats)
  qed
qed

end
