(* ===== verification/BTree_Check.thy ===== *)
theory BTree_Check
  imports BTree_Lookup BTree_Fix
begin

text \<open>
  The self-check \<open>verify\<close> of the code accepts every tree that satisfies the invariant; reverse iterators, the
  comparison operators and the insertion of a range.
\<close>

lemma adjacent_nth: "adjacent P xs \<longleftrightarrow> (\<forall>i. Suc i < length xs \<longrightarrow> P (xs ! i) (xs ! Suc i))"
proof (induction P xs rule: adjacent.induct)
  case (1 P x y zs)
  show ?case
  proof
    assume a: "adjacent P (x # y # zs)"
    show "\<forall>i. Suc i < length (x # y # zs) \<longrightarrow> P ((x # y # zs) ! i) ((x # y # zs) ! Suc i)"
    proof (intro allI impI)
      fix i assume i: "Suc i < length (x # y # zs)"
      show "P ((x # y # zs) ! i) ((x # y # zs) ! Suc i)" using a 1 i by (cases i) auto
    qed
  next
    assume a: "\<forall>i. Suc i < length (x # y # zs) \<longrightarrow> P ((x # y # zs) ! i) ((x # y # zs) ! Suc i)"
    then have "\<forall>i. Suc i < length (y # zs) \<longrightarrow> P ((y # zs) ! i) ((y # zs) ! Suc i)" by auto
    moreover have "P x y" using a by (metis length_Cons nth_Cons_0 nth_Cons_Suc Suc_less_eq zero_less_Suc)
    ultimately show "adjacent P (x # y # zs)" using 1 by simp
  qed
qed simp_all

lemma adjacent_sorted: "sorted_wrt (<) ks \<Longrightarrow> adjacent (\<le>) (ks :: 'a::linorder list)"
  by (auto simp: adjacent_nth sorted_wrt_iff_nth_less intro: less_imp_le)

text \<open>What \<^verbatim>\<open>verify_node\<close> reports of a correct node.\<close>

definition summary :: "('k, 'v) bnode \<Rightarrow> 'k \<times> 'k \<times> tree_stats" where
  "summary n = (fst (hd (items n)), last_key n,
     \<lparr> itemcount = length (items n), leaves = length (leaf_addrs n), innernodes = ninner n \<rparr>)"

lemma items_between:
  assumes "i < j" "j < length cs"
  shows "\<exists>xs ys zs. concat (map items cs) = xs @ items (cs ! i) @ ys @ items (cs ! j) @ zs"
proof -
  have ci: "concat (map items cs) = concat (map items (take i cs)) @ items (cs ! i) @ concat (map items (drop (Suc i) cs))"
    using items_split [of i cs 0 undefined] assms by simp
  have "items (Inner 0 [] (drop (Suc i) cs)) = concat (map items (take (j - Suc i) (drop (Suc i) cs))) @ items (drop (Suc i) cs ! (j - Suc i))
      @ concat (map items (drop (Suc (j - Suc i)) (drop (Suc i) cs)))"
    using assms by (intro items_split) simp
  moreover have "drop (Suc i) cs ! (j - Suc i) = cs ! j" using assms by simp
  ultimately show ?thesis unfolding ci by auto
qed

lemma adjacent_leaves:
  assumes l: "linked e p (concat (map leaf_addrs cs)) q" and i: "Suc i < length cs"
    and ne: "leaf_addrs (cs ! i) \<noteq> []" "leaf_addrs (cs ! Suc i) \<noteq> []"
  shows "nextleaf e (last (leaf_addrs (cs ! i))) = Some (hd (leaf_addrs (cs ! Suc i)))"
    "prevleaf e (hd (leaf_addrs (cs ! Suc i))) = Some (last (leaf_addrs (cs ! i)))"
proof -
  have cs: "cs = take i cs @ cs ! i # cs ! Suc i # drop (Suc (Suc i)) cs" by (rule pair_split [OF i])
  obtain xs a where x: "leaf_addrs (cs ! i) = xs @ [a]" using ne(1) by (metis rev_exhaust)
  obtain b ys where y: "leaf_addrs (cs ! Suc i) = b # ys" using ne(2) by (cases "leaf_addrs (cs ! Suc i)") auto
  have "concat (map leaf_addrs cs) = (concat (map leaf_addrs (take i cs)) @ xs) @ a # b # ys @ concat (map leaf_addrs (drop (Suc (Suc i)) cs))"
    using arg_cong [where f = "\<lambda>cs. concat (map leaf_addrs cs)", OF cs] x y by simp
  then have "nextleaf e a = Some b \<and> prevleaf e b = Some a" using l by (simp add: linked_append del: append_assoc)
  then show "nextleaf e (last (leaf_addrs (cs ! i))) = Some (hd (leaf_addrs (cs ! Suc i)))"
    "prevleaf e (hd (leaf_addrs (cs ! Suc i))) = Some (last (leaf_addrs (cs ! i)))" by (simp_all add: x y)
qed

lemma linked_child:
  "linked e p (concat (map leaf_addrs cs)) q \<Longrightarrow> n \<in> set cs \<Longrightarrow> \<exists>p q. linked e p (leaf_addrs n) q"
  by (induction cs arbitrary: p) (auto simp: linked_append)

lemma verify_children_spec:
  "\<forall>n \<in> set cs. Suc (level n) = l \<and> verify_node c e False n = Some (summary n)
   \<Longrightarrow> verify_children c e l cs = Some (map summary cs)"
  by (induction cs) auto

lemma sum_lengths:
  "sum_list (map (\<lambda>n. length (items n)) cs) = length (concat (map items cs))"
  "sum_list (map (\<lambda>n. length (leaf_addrs n)) cs) = length (concat (map leaf_addrs cs))"
  by (simp_all add: length_concat comp_def)

lemma verify_inner_keys:
  assumes wf: "bt_wf c r (Inner l ks cs)" and s: "sorted_items (items (Inner l ks cs))" and i: "i < length ks"
  shows "ks ! i < fst (hd (items (cs ! Suc i)))" "Suc i < length ks \<Longrightarrow> ks ! i < ks ! Suc i"
proof -
  have lc: "length cs = Suc (length ks)" and sep: "ks ! j = last_key (cs ! j)" if "j < length ks" for j
    using wf that by (auto simp: seps_def)
  have lc: "length cs = Suc (length ks)" using wf by (simp add: seps_def)
  have ne: "items (cs ! j) \<noteq> []" if "j < length cs" for j
    using wf nth_mem [OF that] bt_wf_items [of c False "cs ! j"] by auto
  obtain xs ys zs where it: "concat (map items cs) = xs @ items (cs ! i) @ ys @ items (cs ! Suc i) @ zs"
    using items_between [of i "Suc i" cs] i lc by auto
  have mem: "last (items (cs ! i)) \<in> set (items (cs ! i))" using ne i lc by simp
  have lt: "ks ! i < fst x" if "x \<in> set (items (cs ! Suc i))" for x
    using s mem that unfolding items.simps it sep [OF i] last_key_def by (auto simp: sorted_wrt_append)
  show "ks ! i < fst (hd (items (cs ! Suc i)))" using lt ne [of "Suc i"] i lc by simp
  show "ks ! i < ks ! Suc i" if "Suc i < length ks"
    using lt [of "last (items (cs ! Suc i))"] ne [of "Suc i"] lc that unfolding sep [OF that] last_key_def by simp
qed

lemma verify_node_spec:
  "bt_wf c r n \<Longrightarrow> sorted_items (items n) \<Longrightarrow> linked e p (leaf_addrs n) q \<Longrightarrow> verify_node c e r n = Some (summary n)"
proof (induction n arbitrary: r p q)
  case (Leaf a ks vs)
  then have "ks \<noteq> []" "length vs = length ks" "sorted_wrt (<) ks" by auto
  moreover have "hd ks = fst (hd (zip ks vs))" using calculation by (cases ks; cases vs) auto
  ultimately show ?case using Leaf.prems adjacent_sorted last_key_Leaf [of vs ks a] by (auto simp: summary_def)
next
  case (Inner l ks cs)
  have lc: "length cs = Suc (length ks)" and ks: "ks \<noteq> []" using Inner.prems(1) by (auto simp: seps_def)
  have sep: "ks ! j = last_key (cs ! j)" if "j < length ks" for j using Inner.prems(1) that by (simp add: seps_def)
  have ch: "Suc (level n) = l \<and> bt_wf c False n" if "n \<in> set cs" for n using Inner.prems(1) that by auto
  have lk: "linked e p (concat (map leaf_addrs cs)) q" using Inner.prems(3) by simp
  have "Suc (level n) = l \<and> verify_node c e False n = Some (summary n)" if n: "n \<in> set cs" for n
  proof -
    obtain i where i: "i < length cs" "n = cs ! i" using n by (auto simp: in_set_conv_nth)
    have "sorted_items (items n)" using Inner.prems(2) items_split [OF i(1), of l ks] i(2) by (simp add: sorted_wrt_append)
    moreover obtain p' q' where "linked e p' (leaf_addrs n) q'" using linked_child [OF lk n] by blast
    ultimately show ?thesis using Inner.IH [OF n, of False] ch [OF n] by blast
  qed
  then have vc: "verify_children c e l cs = Some (map summary cs)" by (intro verify_children_spec) blast
  note vk = verify_inner_keys [OF Inner.prems(1,2)]
  have adj: "adjacent (\<le>) ks" using vk(2) by (auto simp: adjacent_nth intro!: less_imp_le)
  have keys: "\<forall>i \<in> set [0..<length ks]. ks ! i \<le> fst (map summary cs ! (i + 1)) \<and> ks ! i = fst (snd (map summary cs ! i))"
    using vk(1) sep lc by (auto simp: summary_def intro!: less_imp_le)
  have la: "leaf_addrs (cs ! i) \<noteq> []" if "i < length cs" for i using ch [OF nth_mem [OF that]] bt_wf_addrs by blast
  have adl: "nextleaf e (last (leaf_addrs (cs ! i))) = Some (hd (leaf_addrs (cs ! Suc i)))
     \<and> prevleaf e (hd (leaf_addrs (cs ! Suc i))) = Some (last (leaf_addrs (cs ! i)))" if "Suc i < length cs" for i
    using adjacent_leaves [OF lk that la la] that by simp
  have l1: "adjacent (leaf_pair_linked e) cs" if "l = 1"
    unfolding adjacent_nth
  proof (intro allI impI)
    fix i assume i: "Suc i < length cs"
    have "cs ! i \<in> set cs" "cs ! Suc i \<in> set cs" using i by auto
    then have nl: "level (cs ! i) = 0" "level (cs ! Suc i) = 0" "bt_wf c False (cs ! i)" "bt_wf c False (cs ! Suc i)"
      using ch [of "cs ! i"] ch [of "cs ! Suc i"] that by simp_all
    obtain a x xs b y ys where "cs ! i = Leaf a x xs" "cs ! Suc i = Leaf b y ys"
      using nl by (cases "cs ! i"; cases "cs ! Suc i") auto
    then show "leaf_pair_linked e (cs ! i) (cs ! Suc i)" using adl [OF i] by (simp add: leaf_pair_linked_def)
  qed
  have l2: "adjacent (inner_pair_linked e) cs" if "l = 2"
    unfolding adjacent_nth
  proof (intro allI impI)
    fix i assume i: "Suc i < length cs"
    have "cs ! i \<in> set cs" "cs ! Suc i \<in> set cs" using i by auto
    then have nl: "level (cs ! i) = 1" "level (cs ! Suc i) = 1" "bt_wf c False (cs ! i)" "bt_wf c False (cs ! Suc i)"
      using ch [of "cs ! i"] ch [of "cs ! Suc i"] that by simp_all
    obtain x xs y ys where n: "cs ! i = Inner 1 x xs" "cs ! Suc i = Inner 1 y ys" using nl by (cases "cs ! i"; cases "cs ! Suc i") auto
    have len: "length xs = Suc (length x)" "length ys = Suc (length y)" using nl n by (auto simp: seps_def)
    have lv: "level m = 0 \<and> bt_wf c False m" if "m \<in> set xs \<or> m \<in> set ys" for m using nl n that by auto
    have leafy: "\<exists>a ks vs. m = Leaf a ks vs" if "m \<in> set xs \<or> m \<in> set ys" for m using lv [OF that] by (cases m) auto
    have "xs ! length x \<in> set xs" "ys ! 0 \<in> set ys" using len by auto
    then obtain a u us b w ws where lf: "xs ! length x = Leaf a u us" "ys ! 0 = Leaf b w ws" using leafy by metis
    have "xs \<noteq> []" "ys \<noteq> []" using len by auto
    have "last (leaf_addrs (cs ! i)) = a"
    proof -
      obtain zs z where z: "xs = zs @ [z]" using \<open>xs \<noteq> []\<close> by (cases xs rule: rev_cases) auto
      then have "length x = length zs" using len by simp
      then have "z = Leaf a u us" using lf z by simp
      then have "leaf_addrs (cs ! i) = concat (map leaf_addrs zs) @ [a]" by (simp add: n z)
      then show ?thesis by simp
    qed
    moreover have "hd (leaf_addrs (cs ! Suc i)) = b" using n lf \<open>ys \<noteq> []\<close> by (cases ys) auto
    ultimately show "inner_pair_linked e (cs ! i) (cs ! Suc i)"
      using adl [OF i] n len lf \<open>ys \<noteq> []\<close> by (simp add: inner_pair_linked_def leaf_pair_linked_def)
  qed
  have ne: "cs \<noteq> []" using lc by auto
  have hd: "fst (hd (map summary cs)) = fst (hd (items (Inner l ks cs)))"
  proof -
    obtain n ns where n: "cs = n # ns" using ne by (cases cs) auto
    then have "items n \<noteq> []" using ch [of n] bt_wf_items [of c False n] by simp
    then show ?thesis by (simp add: n summary_def hd_append)
  qed
  have lst: "fst (snd (last (map summary cs))) = last_key (Inner l ks cs)"
    using bt_wf_Inner_last [OF Inner.prems(1)] ne by (simp add: last_map summary_def)
  have st: "\<lparr> itemcount = sum_list (map (\<lambda>r. itemcount (snd (snd r))) (map summary cs)),
      leaves = sum_list (map (\<lambda>r. leaves (snd (snd r))) (map summary cs)),
      innernodes = sum_list (map (\<lambda>r. innernodes (snd (snd r))) (map summary cs)) + 1 \<rparr> = snd (snd (summary (Inner l ks cs)))"
    by (simp add: summary_def comp_def sum_lengths)
  have min: "r \<or> \<not> length ks < mininnerslots c" using Inner.prems(1) by auto
  have keys2: "\<forall>i \<in> {0..<length ks}. fst (snd (map summary cs ! i)) \<le> fst (map summary cs ! Suc i)" using keys by auto
  show ?case using vc adj keys keys2 l1 l2 hd lst st min lc ks by (simp add: summary_def del: length_map nth_map items.simps leaf_addrs.simps ninner.simps)
qed

lemma verify_leaflinks_spec:
  assumes ok: "bt_ok c t"
  shows "tree_leaves t = pre @ (a, ks, vs) # post \<Longrightarrow> length post < fuel
    \<Longrightarrow> verify_leaflinks_loop t fuel a cnt = Some (cnt + sum_list (map (\<lambda>(a, ks, vs). length ks) ((a, ks, vs) # post)))"
proof (induction post arbitrary: pre a ks vs fuel cnt)
  case Nil
  then obtain f where f: "fuel = Suc f" by (cases fuel) auto
  have g: "get_leaf t a = Some (ks, vs)" "length vs = length ks" "0 < length ks" using bt_ok_leaf [OF ok, of a ks vs] Nil.prems(1) by auto
  have nx: "nextleaf (m_env t) a = None" using bt_ok_links(1) [OF ok Nil.prems(1)] by simp
  have tl: "m_tailleaf (m_env t) = Some a" using ok Nil.prems(1) by (simp add: bt_ok_def chain_def)
  have "sorted_items (zip ks vs)" using ok Nil.prems(1) by (auto simp: bt_ok_def tree_items_leaves sorted_wrt_append)
  then have "adjacent (\<le>) ks" using g(2) by (intro adjacent_sorted) simp
  then show ?case using g nx tl by (simp add: f)
next
  case (Cons x post)
  obtain b ks' vs' where x: "x = (b, ks', vs')" by (cases x)
  obtain f where f: "fuel = Suc f" using Cons.prems(2) by (cases fuel) auto
  have g: "get_leaf t a = Some (ks, vs)" "length vs = length ks" "0 < length ks" using bt_ok_leaf [OF ok, of a ks vs] Cons.prems(1) by auto
  have g': "get_leaf t b = Some (ks', vs')" "length vs' = length ks'" "0 < length ks'"
    using bt_ok_leaf [OF ok, of b ks' vs'] Cons.prems(1) x by auto
  have nx: "nextleaf (m_env t) a = Some b" using bt_ok_links(1) [OF ok Cons.prems(1)] x by simp
  have l2: "tree_leaves t = (pre @ [(a, ks, vs)]) @ (b, ks', vs') # post" using Cons.prems(1) x by simp
  have pv: "prevleaf (m_env t) b = Some a" using bt_ok_links(2) [OF ok l2] by simp
  have s: "sorted_items (zip ks vs @ zip ks' vs')"
    using ok Cons.prems(1) x by (auto simp: bt_ok_def tree_items_leaves sorted_wrt_append)
  have ad: "adjacent (\<le>) ks" using s g(2) by (intro adjacent_sorted) (simp add: sorted_wrt_append)
  have "sorted_wrt (<) (ks @ ks')" using s g(2) g'(2) by simp
  then have lt: "last ks \<le> hd ks'" using g(3) g'(3) by (auto simp: sorted_wrt_append intro!: less_imp_le)
  have "verify_leaflinks_loop t f b (cnt + length ks)
      = Some (cnt + length ks + sum_list (map (\<lambda>(a, ks, vs). length ks) ((b, ks', vs') # post)))"
    by (rule Cons.IH [OF l2]) (use Cons.prems(2) f in auto)
  then show ?case using g g' nx pv ad lt by (simp add: f x)
qed

lemma bt_ok_wf_root: "bt_ok c t \<Longrightarrow> m_root t = Some r \<Longrightarrow> bt_wf c True r \<and> sorted_items (items r)
   \<and> linked (m_env t) None (leaf_addrs r) None"
  by (simp add: bt_ok_def tree_items_def tree_leaves_def chain_def leaf_addrs_list)

text \<open>A tree that satisfies the invariant passes the check of the code.\<close>

lemma verify_spec: "bt_ok c t \<Longrightarrow> verify c t"
proof (cases "m_root t")
  case None
  then show ?thesis by (simp add: verify_def)
next
  case (Some r)
  assume ok: "bt_ok c t"
  have w: "bt_wf c True r" "sorted_items (items r)" "linked (m_env t) None (leaf_addrs r) None"
    using bt_ok_wf_root [OF ok Some] by auto
  have tl: "tree_leaves t = leaf_list r" using Some by (simp add: tree_leaves_def)
  have lv: "leaves (m_stats (m_env t)) = length (leaf_list r)" using ok by (simp add: bt_ok_def chain_def tl)
  have vn: "verify_node c (m_env t) True r = Some (summary r)" by (rule verify_node_spec [OF w])
  have st: "snd (snd (summary r)) = m_stats (m_env t)"
    using ok Some by (intro tree_stats.equality) (auto simp: summary_def bt_ok_def tree_items_def tree_leaves_def tree_ninner_def bt_size_def chain_def leaf_addrs_list)
  have "leaf_list r \<noteq> []" using bt_wf_addrs [OF w(1)] by (simp add: leaf_addrs_list)
  then obtain a ks vs post where p: "tree_leaves t = [] @ (a, ks, vs) # post" using tl by (metis append_Nil list.exhaust prod_cases3)
  have hd: "m_headleaf (m_env t) = Some a" using ok p by (simp add: bt_ok_def chain_def)
  have pv: "prevleaf (m_env t) a = None" using bt_ok_links(2) [OF ok p] by simp
  have "verify_leaflinks_loop t (leaves (m_stats (m_env t))) a 0
      = Some (0 + sum_list (map (\<lambda>(a, ks, vs). length ks) ((a, ks, vs) # post)))"
    by (rule verify_leaflinks_spec [OF ok p]) (use lv p tl in simp)
  moreover have "sum_list (map (\<lambda>(a, ks, vs). length ks) ((a, ks, vs) # post)) = bt_size t"
  proof -
    have "\<forall>x \<in> set ((a, ks, vs) # post). (case x of (a, ks, vs) \<Rightarrow> length ks) = length (case x of (a, ks, vs) \<Rightarrow> zip ks vs)"
    proof
      fix x assume "x \<in> set ((a, ks, vs) # post)"
      moreover obtain b ks' vs' where "x = (b, ks', vs')" by (cases x)
      ultimately have m: "(b, ks', vs') \<in> set (tree_leaves t)" "x = (b, ks', vs')" using p by simp_all
      show "(case x of (a, ks, vs) \<Rightarrow> length ks) = length (case x of (a, ks, vs) \<Rightarrow> zip ks vs)"
        using bt_ok_leaf [OF ok m(1)] by (simp add: m(2))
    qed
    then have "map (\<lambda>(a, ks, vs). length ks) ((a, ks, vs) # post) = map (\<lambda>x. length (case x of (a, ks, vs) \<Rightarrow> zip ks vs)) ((a, ks, vs) # post)"
      by (intro map_cong) auto
    moreover have "bt_size t = length (concat (map (\<lambda>(a, ks, vs). zip ks vs) ((a, ks, vs) # post)))"
      using ok p by (simp add: bt_ok_def tree_items_leaves)
    ultimately show ?thesis by (simp only: length_concat map_map comp_def)
  qed
  ultimately show ?thesis using Some vn st hd pv by (cases "summary r") (simp add: verify_def)
qed

section \<open>Iterating backwards\<close>

text \<open>Stepping back undoes a step forward, except that the end stays the end.\<close>

lemma iter_decr_incr:
  assumes ok: "bt_ok c t" and r: "rest_is t it (x # xs)" and i: "iter_incr t it = Some it'"
  shows "iter_decr t it' = Some it"
proof -
  obtain pre a ks vs post j where l: "tree_leaves t = pre @ (a, ks, vs) # post" "it = (Some a, j)" "j \<le> length ks"
    "j = length ks \<longrightarrow> post = []" "x # xs = drop j (zip ks vs) @ concat (map (\<lambda>(a, ks, vs). zip ks vs) post)"
    using r unfolding rest_is_def by metis
  have a: "get_leaf t a = Some (ks, vs)" "length vs = length ks" using bt_ok_leaf [OF ok] l by auto
  have j: "j < length ks" using l(3,4,5) a(2) by (cases "j = length ks") auto
  have nx: "nextleaf (m_env t) a = (case post of [] \<Rightarrow> None | (b, _) # _ \<Rightarrow> Some b)" by (rule bt_ok_links(1) [OF ok l(1)])
  show ?thesis
  proof (cases "Suc j < length ks \<or> post = []")
    case True
    then have "it' = (Some a, Suc j)" using i a j l(2) nx by (auto simp: iter_incr_def)
    then show ?thesis by (simp add: iter_decr_def l(2))
  next
    case False
    then obtain b ks' vs' post' where p: "post = (b, ks', vs') # post'" by (cases post) auto
    have it': "it' = (Some b, 0)" "Suc j = length ks" using i a j l(2) nx False p by (auto simp: iter_incr_def)
    have l2: "tree_leaves t = (pre @ [(a, ks, vs)]) @ (b, ks', vs') # post'" using l(1) p by simp
    have "prevleaf (m_env t) b = Some a" using bt_ok_links(2) [OF ok l2] by simp
    then show ?thesis using a it' j l(2) by (auto simp: iter_decr_def)
  qed
qed

text \<open>The items before an iterator, nearest first. A reverse iterator denotes the first of them.\<close>

definition before_is :: "('k, 'v) btree \<Rightarrow> iter \<Rightarrow> ('k \<times> 'v) list \<Rightarrow> bool" where
  "before_is t it xs \<longleftrightarrow> (\<exists>pre a ks vs post j. tree_leaves t = pre @ (a, ks, vs) # post \<and> it = (Some a, j) \<and> j \<le> length ks
     \<and> (j = 0 \<longrightarrow> pre = []) \<and> xs = rev (concat (map (\<lambda>(a, ks, vs). zip ks vs) pre) @ take j (zip ks vs)))"

lemma before_is_I:
  "tree_leaves t = pre @ (a, ks, vs) # post \<Longrightarrow> j \<le> length ks \<Longrightarrow> (j = 0 \<Longrightarrow> pre = [])
   \<Longrightarrow> xs = rev (concat (map (\<lambda>(a, ks, vs). zip ks vs) pre) @ take j (zip ks vs)) \<Longrightarrow> before_is t (Some a, j) xs"
  unfolding before_is_def by blast

lemma iter_end_before:
  assumes ok: "bt_ok c t" and ne: "tree_leaves t \<noteq> []"
  shows "\<exists>it. iter_end t = Some it \<and> before_is t it (rev (tree_items t))"
proof -
  obtain pre a ks vs where l: "tree_leaves t = pre @ [(a, ks, vs)]"
    using ne by (metis prod_cases3 rev_exhaust)
  have g: "get_leaf t a = Some (ks, vs)" "length vs = length ks" "0 < length ks" using bt_ok_leaf [OF ok] l by auto
  have "m_tailleaf (m_env t) = Some a" using ok l by (simp add: bt_ok_def chain_def)
  moreover have "before_is t (Some a, length ks) (rev (tree_items t))"
    by (rule before_is_I [OF l]) (use g l in \<open>simp_all add: tree_items_leaves\<close>)
  ultimately show ?thesis using g by (simp add: iter_end_def)
qed

lemma before_is_step:
  assumes ok: "bt_ok c t" and r: "before_is t it (x # xs)"
  shows "riter_key t it = Some (fst x) \<and> riter_data t it = Some (snd x) \<and> (\<exists>it'. riter_incr t it = Some it' \<and> before_is t it' xs)"
proof -
  obtain pre a ks vs post j where l: "tree_leaves t = pre @ (a, ks, vs) # post" "it = (Some a, j)" "j \<le> length ks"
    "j = 0 \<longrightarrow> pre = []" "x # xs = rev (concat (map (\<lambda>(a, ks, vs). zip ks vs) pre) @ take j (zip ks vs))"
    using r unfolding before_is_def by metis
  have a: "get_leaf t a = Some (ks, vs)" "length vs = length ks" using bt_ok_leaf [OF ok] l by auto
  obtain i where i: "j = Suc i" using l(4,5) by (cases j) auto
  then have d: "take j (zip ks vs) = take i (zip ks vs) @ [(ks ! i, vs ! i)]" using a(2) l(3) by (simp add: take_Suc_conv_app_nth)
  have x: "x = (ks ! i, vs ! i)" "xs = rev (concat (map (\<lambda>(a, ks, vs). zip ks vs) pre) @ take i (zip ks vs))"
    using l(5) d by auto
  have deref: "riter_key t it = Some (fst x)" "riter_data t it = Some (snd x)"
    using a i l(2,3) x(1) by (auto simp: riter_key_def riter_data_def iter_key_def iter_data_def get_def)
  have pv: "prevleaf (m_env t) a = last_or None (map fst pre)" by (rule bt_ok_links(2) [OF ok l(1)])
  show ?thesis
  proof (cases "0 < i \<or> pre = []")
    case True
    then have "riter_incr t it = Some (Some a, i)" using a i l(2) pv by (auto simp: riter_incr_def)
    moreover have "before_is t (Some a, i) xs" by (rule before_is_I [OF l(1)]) (use l(3) i True x(2) in auto)
    ultimately show ?thesis using deref by simp
  next
    case False
    then obtain pre' b ks' vs' where p: "pre = pre' @ [(b, ks', vs')]" by (metis prod_cases3 rev_exhaust)
    have b: "get_leaf t b = Some (ks', vs')" "length vs' = length ks'" "0 < length ks'" using bt_ok_leaf [OF ok] l(1) p by auto
    have l': "tree_leaves t = pre' @ (b, ks', vs') # (a, ks, vs) # post" using l(1) p by simp
    have "riter_incr t it = Some (Some b, length ks')" using a b i l(2) pv False p by (simp add: riter_incr_def)
    moreover have "before_is t (Some b, length ks') xs" by (rule before_is_I [OF l']) (use b x(2) False p in auto)
    ultimately show ?thesis using deref by simp
  qed
qed

text \<open>The items a reverse iterator meets, with fuel.\<close>

fun rwalk :: "('k, 'v) btree \<Rightarrow> nat \<Rightarrow> iter \<Rightarrow> ('k \<times> 'v) list option" where
  "rwalk t 0 it = Some []"
| "rwalk t (Suc n) it = do { k \<leftarrow> riter_key t it; v \<leftarrow> riter_data t it; it' \<leftarrow> riter_incr t it; xs \<leftarrow> rwalk t n it'; Some ((k, v) # xs) }"

lemma rwalk_before:
  assumes ok: "bt_ok c t"
  shows "before_is t it xs \<Longrightarrow> rwalk t (length xs) it = Some xs"
proof (induction xs arbitrary: it)
  case (Cons x xs)
  then show ?case using before_is_step [OF ok Cons.prems] by auto
qed simp

section \<open>Comparisons\<close>

fun lex_less :: "('a::linorder \<times> 'b::linorder) list \<Rightarrow> ('a \<times> 'b) list \<Rightarrow> bool" where
  "lex_less xs [] = False"
| "lex_less [] (y # ys) = True"
| "lex_less (x # xs) (y # ys) = (fst x < fst y \<or> fst x = fst y \<and> snd x < snd y \<or> x = y \<and> lex_less xs ys)"

lemma lexicographical_less_lex: "lexicographical_less xs ys = lex_less xs ys"
  by (induction xs ys rule: lexicographical_less.induct) auto

lemma lex_less_irrefl: "\<not> lex_less xs xs"
  by (induction xs) auto

lemma lex_less_trans: "lex_less xs ys \<Longrightarrow> lex_less ys zs \<Longrightarrow> lex_less xs zs"
proof (induction xs zs arbitrary: ys rule: lex_less.induct)
  case (2 z zs) then show ?case by simp
next
  case (3 x xs z zs)
  then obtain y ys' where "ys = y # ys'" by (cases ys) auto
  then show ?case using 3 by (auto dest: order.strict_trans)
next
  case (1 xs) then show ?case by (cases ys) auto
qed

lemma lex_less_total: "xs \<noteq> ys \<Longrightarrow> lex_less xs ys \<or> lex_less ys xs"
  by (induction xs ys rule: lex_less.induct) (auto simp: neq_Nil_conv prod_eq_iff)

lemma bt_less_spec:
  assumes "bt_ok c t" "bt_ok c u"
  shows "bt_less t u = Some (lex_less (tree_items t) (tree_items u))"
  using assms by (simp add: bt_less_def bt_items_spec lexicographical_less_lex)

lemma bt_eq_spec:
  assumes "bt_ok c t" "bt_ok c u"
  shows "bt_eq t u = Some (tree_items t = tree_items u)"
  using assms by (auto simp: bt_eq_def bt_items_spec) (auto simp: bt_ok_def)

section \<open>Inserting a range\<close>

fun ins_all :: "('k::linorder \<times> 'v) list \<Rightarrow> ('k \<times> 'v) list \<Rightarrow> ('k \<times> 'v) list" where
  "ins_all [] ys = ys"
| "ins_all ((k, v) # xs) ys = ins_all xs (ins_list k v ys)"

lemma bt_insert_range_spec:
  "bt_ok c t \<Longrightarrow> \<exists>t'. bt_insert_range c t xs = Some t' \<and> bt_ok c t' \<and> tree_items t' = ins_all xs (tree_items t)"
proof (induction xs arbitrary: t)
  case (Cons x xs)
  obtain k v where x: "x = (k, v)" by (cases x)
  obtain t1 it where i: "bt_insert c t k v = Some (t1, it, k \<notin> fst ` set (tree_items t))" "bt_ok c t1"
    "tree_items t1 = ins_list k v (tree_items t)" using bt_insert_spec [OF Cons.prems, of k v] by blast
  from Cons.IH [OF i(2)] i show ?case by (simp add: x)
qed simp

end
