(* ===== verification/BTree_Map.thy ===== *)
theory BTree_Map
  imports Ordered_Map BTree_Erase BTree_Copy BTree_Check
begin

text \<open>
  The B+ tree keeps the contract of an ordered map, and every tree a program can reach satisfies the invariant.
\<close>

section \<open>The B+ tree is an ordered map\<close>

definition bt_ins :: "bcfg \<Rightarrow> ('k::linorder, 'v) btree \<Rightarrow> 'k \<Rightarrow> 'v \<Rightarrow> (('k, 'v) btree \<times> bool) option" where
  "bt_ins c t k v = map_option (\<lambda>(t', it, b). (t', b)) (bt_insert c t k v)"

text \<open>What a client of \<^verbatim>\<open>find\<close> does: compare with \<^verbatim>\<open>end()\<close>, then read the item.\<close>

definition bt_lookup :: "('k::linorder, 'v) btree \<Rightarrow> 'k \<Rightarrow> 'v option option" where
  "bt_lookup t k = do {
     it \<leftarrow> bt_find t k;
     stop \<leftarrow> iter_end t;
     (if iter_eq it stop then Some None else map_option Some (iter_data t it)) }"

lemma iter_end_Some: "bt_ok c t \<Longrightarrow> \<exists>it. iter_end t = Some it"
proof (cases "tree_leaves t = []")
  case True
  assume "bt_ok c t"
  then show ?thesis using True by (simp add: bt_ok_def chain_def iter_end_def)
next
  case False
  assume "bt_ok c t"
  then show ?thesis using iter_end_rest False by blast
qed

lemma iter_end_no_key: "bt_ok c t \<Longrightarrow> iter_end t = Some it \<Longrightarrow> iter_key t it = None"
  by (auto simp: iter_end_def iter_key_def bind_eq_Some_conv split: option.splits)

lemma bt_lookup_spec:
  assumes ok: "bt_ok c t"
  shows "bt_lookup t k = Some (map_of (tree_items t) k)"
proof -
  obtain stop where e: "iter_end t = Some stop" using iter_end_Some [OF ok] by blast
  show ?thesis
  proof (cases "map_of (tree_items t) k")
    case None
    then have "bt_find t k = iter_end t" using bt_find_spec [OF ok, of k] by simp
    then show ?thesis using e None by (simp add: bt_lookup_def iter_eq_def)
  next
    case (Some v)
    then obtain it where f: "bt_find t k = Some it" "iter_deref t it = Some (k, v)" using bt_find_spec [OF ok, of k] by auto
    then have d: "iter_data t it = Some v" "iter_key t it = Some k" by (auto simp: iter_deref_def bind_eq_Some_conv)
    have "it \<noteq> stop" using iter_end_no_key [OF ok e] d(2) by auto
    then have "\<not> iter_eq it stop" by (simp add: iter_eq_def prod_eq_iff)
    then show ?thesis using f(1) e d(1) Some by (simp add: bt_lookup_def)
  qed
qed

text \<open>The laws hold for every configuration the invariant allows.\<close>

interpretation bt: ordered_map "bt_ok c" tree_items "bt_ins c" bt_lookup "erase_one c" for c
proof
  fix t :: "('a, 'b) btree" and k v
  assume ok: "bt_ok c t"
  show "sorted_items (tree_items t)" using ok by (simp add: bt_ok_def)
  show "\<exists>t'. bt_ins c t k v = Some (t', k \<notin> fst ` set (tree_items t)) \<and> bt_ok c t' \<and> tree_items t' = ins_list k v (tree_items t)"
    using bt_insert_spec [OF ok, of k v] by (auto simp: bt_ins_def)
  show "bt_lookup t k = Some (map_of (tree_items t) k)" by (rule bt_lookup_spec [OF ok])
  show "\<exists>t'. erase_one c t k = Some (t', k \<in> fst ` set (tree_items t)) \<and> bt_ok c t' \<and> tree_items t' = del_list k (tree_items t)"
    by (rule erase_one_spec [OF ok])
qed

section \<open>Reachable trees\<close>

text \<open>The trees a program can build: every operation of the class that changes a tree is a step.\<close>

inductive bt_reach :: "bcfg \<Rightarrow> ('k::linorder, 'v) btree \<Rightarrow> bool" for c where
  reach_new: "bt_reach c empty_btree"
| reach_insert: "bt_reach c t \<Longrightarrow> bt_insert c t k v = Some (t', it, b) \<Longrightarrow> bt_reach c t'"
| reach_range: "bt_reach c t \<Longrightarrow> bt_insert_range c t xs = Some t' \<Longrightarrow> bt_reach c t'"
| reach_erase_one: "bt_reach c t \<Longrightarrow> erase_one c t k = Some (t', b) \<Longrightarrow> bt_reach c t'"
| reach_erase: "bt_reach c t \<Longrightarrow> erase c t k = Some (t', n) \<Longrightarrow> bt_reach c t'"
| reach_erase_iter: "bt_reach c t \<Longrightarrow> iter_deref t (Some a, j) \<noteq> None \<Longrightarrow> erase_iter c t a j = Some (t', b) \<Longrightarrow> bt_reach c t'"
| reach_clear: "bt_reach c t \<Longrightarrow> bt_reach c (bt_clear t)"
| reach_bulk: "bt_reach c t \<Longrightarrow> m_root t = None \<Longrightarrow> sorted_items xs \<Longrightarrow> bulk_load c t xs = Some t' \<Longrightarrow> bt_reach c t'"
| reach_copy: "bt_reach c t \<Longrightarrow> bt_reach c (bt_copy t)"
| reach_assign: "bt_reach c t \<Longrightarrow> bt_reach c u \<Longrightarrow> bt_reach c (bt_assign t u)"
| reach_swap: "bt_reach c t \<Longrightarrow> bt_reach c u \<Longrightarrow> bt_reach c (fst (bt_swap t u))"
| reach_restore: "bt_reach c t \<Longrightarrow> bt_reach c u \<Longrightarrow> length (snd (dump c ks ds u)) \<le> fuel
    \<Longrightarrow> restore c ks ds fuel t (dump c ks ds u) = Some (t', b) \<Longrightarrow> bt_reach c t'"

lemma bt_reach_ok:
  assumes "bt_reach c t" "bcfg_ok c"
  shows "bt_ok c t"
  using assms(1)
proof (induction rule: bt_reach.induct)
  case reach_new show ?case by (rule empty_btree_ok [OF assms(2)])
next
  case (reach_insert t k v t' it b) then show ?case using bt_insert_spec [of c t k v] by auto
next
  case (reach_range t xs t') then show ?case using bt_insert_range_spec [of c t xs] by auto
next
  case (reach_erase_one t k t' b) then show ?case using erase_one_spec [of c t k] by auto
next
  case (reach_erase t k t' n) then show ?case using erase_spec [of c t k] by auto
next
  case (reach_erase_iter t a j t' b)
  then obtain k v where "iter_deref t (Some a, j) = Some (k, v)" by auto
  then show ?case using erase_iter_spec [OF reach_erase_iter.IH] reach_erase_iter.hyps(3) by fastforce
next
  case (reach_clear t) then show ?case using bt_clear_ok by blast
next
  case (reach_bulk t xs t') then show ?case using bulk_load_spec [of c t xs] by auto
next
  case (reach_copy t) then show ?case using bt_copy_spec by blast
next
  case (reach_assign t u) then show ?case using bt_assign_spec by blast
next
  case (reach_swap t u) then show ?case by (simp add: bt_swap_def)
next
  case (reach_restore t u ks ds fuel t' b) then show ?case using restore_spec [of c t u ks ds fuel] by auto
qed

section \<open>Size bounds\<close>

lemma sum_list_lower: "(\<And>x. x \<in> set xs \<Longrightarrow> k \<le> f x) \<Longrightarrow> length xs * k \<le> sum_list (map f xs)" for k :: nat
  by (induction xs) (auto simp: add_mono)

lemma sum_list_upper: "(\<And>x. x \<in> set xs \<Longrightarrow> f x \<le> k) \<Longrightarrow> sum_list (map f xs) \<le> length xs * k" for k :: nat
  by (induction xs) (auto simp: add_mono)

lemma length_items_Inner: "length (items (Inner l ks cs)) = sum_list (map (\<lambda>n. length (items n)) cs)"
  by (simp add: length_concat comp_def)

lemma items_lower:
  "bt_wf c False n \<Longrightarrow> minleafslots c * Suc (mininnerslots c) ^ level n \<le> length (items n)"
proof (induction n)
  case (Inner l ks cs)
  then obtain h where l: "l = Suc h" by (cases l) auto
  let ?k = "minleafslots c * Suc (mininnerslots c) ^ h"
  have k: "?k \<le> length (items n)" if "n \<in> set cs" for n using Inner.IH [OF that] Inner.prems that l by auto
  have "Suc (mininnerslots c) \<le> length cs" using Inner.prems by (auto simp: seps_def)
  then have "Suc (mininnerslots c) * ?k \<le> length cs * ?k" by (intro mult_le_mono1)
  also have "\<dots> \<le> length (items (Inner l ks cs))" unfolding length_items_Inner by (rule sum_list_lower [OF k])
  finally show ?case unfolding l by (simp add: algebra_simps)
qed auto

lemma items_upper:
  "bt_wf c r n \<Longrightarrow> length (items n) \<le> leafslotmax c * Suc (innerslotmax c) ^ level n"
proof (induction n arbitrary: r)
  case (Inner l ks cs)
  then obtain h where l: "l = Suc h" by (cases l) auto
  let ?k = "leafslotmax c * Suc (innerslotmax c) ^ h"
  have k: "length (items n) \<le> ?k" if "n \<in> set cs" for n using Inner.IH [OF that, of False] Inner.prems that l by auto
  have "length cs \<le> Suc (innerslotmax c)" using Inner.prems by (auto simp: seps_def)
  then have "length cs * ?k \<le> Suc (innerslotmax c) * ?k" by (intro mult_le_mono1)
  moreover have "length (items (Inner l ks cs)) \<le> length cs * ?k" unfolding length_items_Inner by (rule sum_list_upper [OF k])
  ultimately show ?case unfolding l by (simp add: algebra_simps)
qed auto

lemma root_items_lower:
  assumes "bt_wf c True r" "level r = Suc h"
  shows "2 * minleafslots c * Suc (mininnerslots c) ^ h \<le> length (items r)"
proof (cases r)
  case (Inner l ks cs)
  let ?k = "minleafslots c * Suc (mininnerslots c) ^ h"
  have k: "?k \<le> length (items n)" if "n \<in> set cs" for n using items_lower [of c n] assms that Inner by auto
  have "2 \<le> length cs" using assms(1) Inner by (cases ks) (auto simp: seps_def)
  then have "2 * ?k \<le> length cs * ?k" by (intro mult_le_mono1)
  also have "\<dots> \<le> length (items r)" unfolding Inner length_items_Inner by (rule sum_list_lower [OF k])
  finally show ?thesis by (simp add: algebra_simps)
qed (use assms in simp)

end
