(* ===== verification/Key_Type.thy ===== *)
theory Key_Type
  imports Key_Order
begin

text \<open>
  The \<^verbatim>\<open>key_type\<close> of the elastic tree: a value of \<open>L\<close> bytes, compared by \<^verbatim>\<open>std::less\<close> as the little-endian
  integer the bytes denote. Keys of the model may have any length; shorter keys come first, which makes the
  order total. On keys of one length it is the order of the blind leaves.
\<close>

datatype key = Key (key_bytes: "byte list")

lemma key_val_inj: "length a = length b \<Longrightarrow> key_val a = key_val b \<Longrightarrow> a = b"
proof (induction a b rule: list_induct2)
  case (Cons x xs y ys)
  have b: "unat x < 256" "unat y < 256" using unsigned_less [of x] unsigned_less [of y] by simp_all
  have e: "unat x + 256 * key_val xs = unat y + 256 * key_val ys" using Cons.prems by simp
  have "(unat x + 256 * key_val xs) mod 256 = unat x" "(unat y + 256 * key_val ys) mod 256 = unat y" using b by simp_all
  then have "unat x = unat y" using e by metis
  moreover from this have "key_val xs = key_val ys" using e by simp
  ultimately show ?case using Cons.IH using unsigned_word_eqI [of x y] by simp
qed simp

instantiation key :: linorder
begin

definition less_eq_key :: "key \<Rightarrow> key \<Rightarrow> bool" where
  "k \<le> l \<longleftrightarrow> (length (key_bytes k) < length (key_bytes l)
     \<or> length (key_bytes k) = length (key_bytes l) \<and> key_val (key_bytes k) \<le> key_val (key_bytes l))"

definition less_key :: "key \<Rightarrow> key \<Rightarrow> bool" where
  "k < l \<longleftrightarrow> (length (key_bytes k) < length (key_bytes l)
     \<or> length (key_bytes k) = length (key_bytes l) \<and> key_val (key_bytes k) < key_val (key_bytes l))"

instance
proof
  fix k l :: key
  show "k \<le> l \<Longrightarrow> l \<le> k \<Longrightarrow> k = l"
    by (cases k; cases l) (auto simp: less_eq_key_def intro: key_val_inj)
qed (auto simp: less_eq_key_def less_key_def)

end

text \<open>The order of the blind leaves.\<close>

lemma less_key_bytes: "length a = length b \<Longrightarrow> Key a < Key b \<longleftrightarrow> key_less a b"
  by (simp add: less_key_def key_less_def)

lemma ordered_sorted:
  "bl.ordered L ks \<longleftrightarrow> (\<forall>k \<in> set ks. length k = L) \<and> sorted_wrt (<) (map Key ks)"
proof
  assume o: "bl.ordered L ks"
  have v: "\<forall>k \<in> set ks. length k = L" using o by (simp add: bl.ordered_def key_of_len_def)
  moreover have "Key (ks ! i) < Key (ks ! j)" if "i < j" "j < length ks" for i j
    using bl.ordered_lt [OF o that] v that by (subst less_key_bytes) auto
  ultimately show "(\<forall>k \<in> set ks. length k = L) \<and> sorted_wrt (<) (map Key ks)" by (simp add: sorted_wrt_iff_nth_less)
next
  assume s: "(\<forall>k \<in> set ks. length k = L) \<and> sorted_wrt (<) (map Key ks)"
  have "key_less (ks ! i) (ks ! Suc i)" if "Suc i < length ks" for i
  proof -
    have "Key (ks ! i) < Key (ks ! Suc i)" using s that by (simp add: sorted_wrt_iff_nth_less)
    moreover have "length (ks ! i) = length (ks ! Suc i)" using s that by simp
    ultimately show ?thesis by (simp add: less_key_bytes)
  qed
  then show "bl.ordered L ks" using s by (simp add: bl.ordered_def key_of_len_def)
qed

end
