(* ===== verification/Hybrid.thy ===== *)
theory Hybrid
  imports SeqTree BTree Key_Type
begin

text \<open>
  \<^verbatim>\<open>mcas/mcas/src/lib/stx_blindi/blindi_btree_hybrid_nodes.h\<close>: the elastic index. It is the B+ tree of
  \<^verbatim>\<open>stx::btree\<close> with two kinds of leaves: ordinary ones with an array of keys, and blind leaves of the classes
  1, 2, 4 and 8, which hold \<^verbatim>\<open>leafslotmax\<close> times the class pointers and no keys. When the number of items passes a
  limit, full ordinary leaves are turned into blind leaves instead of being split, and full blind leaves grow to
  the next class.

  As in the model of the B+ tree, nodes are a datatype, the links of the leaves are maps in the environment, and a
  leaf is known by its address. A leaf that is moved to another representation gets a new address, as in the code.
  \<open>HFreed\<close> is a pointer to freed memory. Keys are read through \<open>db\<close>; \<open>kp\<close> is the address of the key argument of an
  insertion (\<^verbatim>\<open>const key_type& key\<close>), which a blind leaf stores.
\<close>

section \<open>Parameters\<close>

text \<open>
  Template parameters, macros, and the sizes the compiler gives the node types. \<open>btree2blindi2trans_init\<close> is the value the
  counter \<^verbatim>\<open>btree2blindi2trans\<close> has after the constructor \<^verbatim>\<open>tree_stats()\<close>, which does not set it.
\<close>

record hcfg =
  h_leafslots :: nat
  h_innerslots :: nat
  h_key_len :: nat
  h_tree_levels :: nat
  LIMIT_CAPACITY :: int
  MUST_PRECENT :: int
  SHOULD_COMPRESS_PERCENT :: int
  sizeof_node :: "64 word"
  sizeof_inner :: "64 word"
  sizeof_btree_leaf :: "64 word"
  sizeof_blindi_leaf :: "nat \<Rightarrow> 64 word"
  btree2blindi2trans_init :: nat

definition blind_cfg :: "hcfg \<Rightarrow> nat \<Rightarrow> config" where
  "blind_cfg hc t = \<lparr> NUM_SLOTS = h_leafslots hc * t, KEY_LEN = h_key_len hc, TREE_LEVELS = h_tree_levels hc \<rparr>"

definition BLINDI_MAX_MULTI_SIZE :: nat where "BLINDI_MAX_MULTI_SIZE = 8"
definition ENDSLOT :: nat where "ENDSLOT = 16000"

section \<open>Nodes and state\<close>

text \<open>\<open>HBlind a t su node\<close> (with \<open>su\<close> for \<^verbatim>\<open>slotuse\<close>) is a blind leaf of class \<open>t\<close>; the leaf has a \<^verbatim>\<open>slotuse\<close> of its own.\<close>

datatype hnode =
    HBtree addr "key list" "ptr list"
  | HBlind addr nat nat node
  | HInner nat bool "key list" "hnode list"
  | HFreed

datatype hybrid_status = CONTINUE | MAY_UNCOMPRESS | SHOULD_COMPRESS | MUST_COMPRESS

text \<open>
  The part of \<^verbatim>\<open>tree_stats\<close> that \<^verbatim>\<open>stx::btree\<close> does not have. The counters per class of blind leaf (\<^verbatim>\<open>blindinodes1\<close>,
  \<dots>) are functions of the class.
\<close>

record hybrid_stats =
  hybridstatus :: hybrid_status
  indexcapacity :: "64 word"
  limitArrived :: "64 word"
  limit2MustCompress :: "64 word"
  limit2ShouldCompress :: "64 word"
  limit2ReturmForUnCompress :: "64 word"
  limit2ReturmFromShouldCompress :: "64 word"
  firsttimeCompressitemscount :: nat
  isNotFirstrsttimeCompress :: bool
  btreeleaves :: nat
  blindileaves :: nat
  btree2blinditrans :: "nat \<Rightarrow> nat"
  blindigrowtrans :: "nat \<Rightarrow> nat"
  blindinodes :: "nat \<Rightarrow> nat"

text \<open>The limits are computed in \<^verbatim>\<open>int\<close>; overflow wraps, as the compilers of the build do it.\<close>

definition int32 :: "int \<Rightarrow> int" where
  "int32 x = signed_take_bit 31 x"

definition new_hstats :: "hcfg \<Rightarrow> hybrid_stats" where
  "new_hstats hc = \<lparr> hybridstatus = CONTINUE, indexcapacity = 0, limitArrived = word_of_int (LIMIT_CAPACITY hc),
     limit2MustCompress = word_of_int (int32 (LIMIT_CAPACITY hc div 100 * MUST_PRECENT hc)),
     limit2ShouldCompress = word_of_int (int32 (LIMIT_CAPACITY hc div 100 * SHOULD_COMPRESS_PERCENT hc)),
     limit2ReturmForUnCompress = 0, limit2ReturmFromShouldCompress = 0, firsttimeCompressitemscount = 0,
     isNotFirstrsttimeCompress = False, btreeleaves = 0, blindileaves = 0, btree2blinditrans = (\<lambda>_. 0)(2 := btree2blindi2trans_init hc),
     blindigrowtrans = (\<lambda>_. 0), blindinodes = (\<lambda>_. 0) \<rparr>"

record henv =
  h_base :: env
  h_stats :: hybrid_stats

record htree =
  h_root :: "hnode option"
  h_env :: henv

definition empty_htree :: "hcfg \<Rightarrow> htree" where
  "empty_htree hc = \<lparr> h_root = None, h_env = \<lparr> h_base = \<lparr> m_headleaf = None, m_tailleaf = None, prevleaf = (\<lambda>_. None),
     nextleaf = (\<lambda>_. None), fresh = 0, m_stats = zero_stats \<rparr>, h_stats = new_hstats hc \<rparr> \<rparr>"

fun hlevel :: "hnode \<Rightarrow> nat" where
  "hlevel (HInner l ac ks cs) = l"
| "hlevel _ = 0"

section \<open>Allocation\<close>

definition allocate_btree_leaf :: "hcfg \<Rightarrow> henv \<Rightarrow> addr \<times> henv" where
  "allocate_btree_leaf hc e =
     (let (a, b) = allocate_leaf (h_base e); s = h_stats e
      in (a, \<lparr> h_base = b, h_stats = s \<lparr> btreeleaves := btreeleaves s + 1,
               indexcapacity := indexcapacity s + sizeof_btree_leaf hc \<rparr> \<rparr>))"

definition allocate_blindi_leaf :: "hcfg \<Rightarrow> nat \<Rightarrow> henv \<Rightarrow> addr \<times> henv" where
  "allocate_blindi_leaf hc t e =
     (let (a, b) = allocate_leaf (h_base e); s = h_stats e
      in (a, \<lparr> h_base = b, h_stats = s \<lparr> blindileaves := blindileaves s + 1,
               blindinodes := (blindinodes s)(t := blindinodes s t + 1),
               indexcapacity := indexcapacity s + sizeof_blindi_leaf hc t \<rparr> \<rparr>))"

definition allocate_hinner :: "hcfg \<Rightarrow> henv \<Rightarrow> henv" where
  "allocate_hinner hc e = \<lparr> h_base = allocate_inner (h_base e),
     h_stats = (h_stats e) \<lparr> indexcapacity := indexcapacity (h_stats e) + sizeof_inner hc \<rparr> \<rparr>"

text \<open>\<^verbatim>\<open>free_node\<close>, of an ordinary leaf, of a blind leaf of class \<open>t\<close>, of an inner node (whose size stays counted).\<close>

definition free_btree_leaf :: "hcfg \<Rightarrow> henv \<Rightarrow> henv" where
  "free_btree_leaf hc e = (let s = h_stats e in
     \<lparr> h_base = free_node True (h_base e),
       h_stats = s \<lparr> btreeleaves := btreeleaves s - 1, indexcapacity := indexcapacity s - sizeof_btree_leaf hc \<rparr> \<rparr>)"

definition free_blindi_leaf :: "hcfg \<Rightarrow> nat \<Rightarrow> henv \<Rightarrow> henv" where
  "free_blindi_leaf hc t e = (let s = h_stats e in
     \<lparr> h_base = free_node True (h_base e),
       h_stats = s \<lparr> blindileaves := blindileaves s - 1, blindinodes := (blindinodes s)(t := blindinodes s t - 1),
         indexcapacity := indexcapacity s - sizeof_blindi_leaf hc t \<rparr> \<rparr>)"

fun free_hnode :: "hcfg \<Rightarrow> hnode \<Rightarrow> henv \<Rightarrow> henv option" where
  "free_hnode hc (HBtree a ks vs) e = Some (free_btree_leaf hc e)"
| "free_hnode hc (HBlind a t su nd) e = (if t \<in> {1, 2, 4, 8} then Some (free_blindi_leaf hc t e) else None)"
| "free_hnode hc (HInner l ac ks cs) e = Some (e \<lparr> h_base := free_node False (h_base e) \<rparr>)"
| "free_hnode hc HFreed e = None"

text \<open>The children are freed one after the other; \<open>h_clear_children\<close> is the loop of \<^verbatim>\<open>clear_recursive\<close>.\<close>

fun h_clear_recursive :: "hcfg \<Rightarrow> hnode \<Rightarrow> henv \<Rightarrow> henv option"
and h_clear_children :: "hcfg \<Rightarrow> hnode list \<Rightarrow> henv \<Rightarrow> henv option" where
  "h_clear_recursive hc (HInner l ac ks cs) e = h_clear_children hc cs e"
| "h_clear_recursive hc (HBtree a ks vs) e = Some e"
| "h_clear_recursive hc (HBlind a t su nd) e = Some e"
| "h_clear_recursive hc HFreed e = None"
| "h_clear_children hc [] e = Some e"
| "h_clear_children hc (n # ns) e = do { e \<leftarrow> h_clear_recursive hc n e; e \<leftarrow> free_hnode hc n e; h_clear_children hc ns e }"

definition hy_clear :: "hcfg \<Rightarrow> htree \<Rightarrow> htree option" where
  "hy_clear hc t = (case h_root t of None \<Rightarrow> Some t
     | Some r \<Rightarrow> do {
         e \<leftarrow> h_clear_recursive hc r (h_env t);
         e \<leftarrow> free_hnode hc r e;
         Some \<lparr> h_root = None, h_env = \<lparr> h_base = (h_base e) \<lparr> m_headleaf := None, m_tailleaf := None, m_stats := zero_stats \<rparr>,
                h_stats = new_hstats hc \<rparr> \<rparr>
       })"

section \<open>Moving a leaf to another representation\<close>

text \<open>
  The new leaf \<open>b\<close> takes the links of the old leaf \<open>a\<close>; unless the old leaf is the root, the neighbours are made to
  point to it (\<^verbatim>\<open>connect_newleaf2tree\<close>, \<^verbatim>\<open>connect_blindi2x\<close>). The head and tail pointers stay.
\<close>

definition connect_newleaf2tree :: "bool \<Rightarrow> addr \<Rightarrow> addr \<Rightarrow> env \<Rightarrow> env" where
  "connect_newleaf2tree is_root a b e =
     (let e = e \<lparr> prevleaf := (prevleaf e)(b := prevleaf e a), nextleaf := (nextleaf e)(b := nextleaf e a) \<rparr> in
      if is_root then e
      else (let e = (case prevleaf e a of None \<Rightarrow> e | Some p \<Rightarrow> e \<lparr> nextleaf := (nextleaf e)(p := Some b) \<rparr>)
            in (case nextleaf e a of None \<Rightarrow> e | Some n \<Rightarrow> e \<lparr> prevleaf := (prevleaf e)(n := Some b) \<rparr>)))"

definition transfer_btree_node_blindi ::
  "hcfg \<Rightarrow> nat \<Rightarrow> bool \<Rightarrow> addr \<Rightarrow> key list \<Rightarrow> ptr list \<Rightarrow> henv \<Rightarrow> (addr \<times> node \<times> henv) option" where
  "transfer_btree_node_blindi hc t is_root a ks vs e =
     (let (b, e) = allocate_blindi_leaf hc t e in
      do {
        nd \<leftarrow> transfer_btree2blindi (blind_cfg hc t) (new_node (blind_cfg hc t)) (length ks) (map key_bytes ks) vs;
        let e = e \<lparr> h_base := connect_newleaf2tree is_root a b (h_base e) \<rparr>;
        let e = e \<lparr> h_stats := (h_stats e) \<lparr> btree2blinditrans := (btree2blinditrans (h_stats e))(t := btree2blinditrans (h_stats e) t + 1) \<rparr> \<rparr>;
        Some (b, nd, free_btree_leaf hc e)
      })"

definition transfer_blindixtoblibdi2x ::
  "hcfg \<Rightarrow> bool \<Rightarrow> addr \<Rightarrow> nat \<Rightarrow> node \<Rightarrow> henv \<Rightarrow> (addr \<times> node \<times> henv) option" where
  "transfer_blindixtoblibdi2x hc is_root a t nd e =
     (if t \<notin> {1, 2, 4} then None
      else (let (b, e) = allocate_blindi_leaf hc (2 * t) e in
       do {
         nd' \<leftarrow> transferNode (blind_cfg hc (2 * t)) (new_node (blind_cfg hc (2 * t))) (valid_len nd) (blindiKeys nd) (key_ptr nd)
                  (get_ptr2blindiTree (blind_cfg hc t) nd);
         let e = e \<lparr> h_base := connect_newleaf2tree is_root a b (h_base e) \<rparr>;
         let e = e \<lparr> h_stats := (h_stats e) \<lparr> blindigrowtrans := (blindigrowtrans (h_stats e))(t := blindigrowtrans (h_stats e) t + 1) \<rparr> \<rparr>;
         Some (b, nd', free_blindi_leaf hc t e)
       }))"

section \<open>Splitting\<close>

definition split_btree_leaf_node ::
  "hcfg \<Rightarrow> addr \<Rightarrow> key list \<Rightarrow> ptr list \<Rightarrow> henv \<Rightarrow> (key list \<times> ptr list) \<times> key \<times> (addr \<times> key list \<times> ptr list) \<times> henv" where
  "split_btree_leaf_node hc a ks vs e =
     (let mid = length ks div 2; (b, e) = allocate_btree_leaf hc e; e = e \<lparr> h_base := link_new a b (h_base e) \<rparr>
      in ((take mid ks, take mid vs), take mid ks ! (mid - 1), (b, drop mid ks, drop mid vs), e))"

text \<open>\<^verbatim>\<open>split_blindi_leaf_node1\<close>, \<dots>, \<^verbatim>\<open>split_blindi_leaf_node8\<close>, chosen by \<^verbatim>\<open>split_blindi_nodex\<close>.\<close>

definition split_blindi_nodex ::
  "hcfg \<Rightarrow> db \<Rightarrow> addr \<Rightarrow> nat \<Rightarrow> nat \<Rightarrow> node \<Rightarrow> henv \<Rightarrow> ((nat \<times> node) \<times> key \<times> (addr \<times> nat \<times> node) \<times> henv) option" where
  "split_blindi_nodex hc db a t su nd e =
     (if t \<notin> {1, 2, 4, 8} then None
      else (let mid = su div 2; (b, e) = allocate_blindi_leaf hc t e; e = e \<lparr> h_base := link_new a b (h_base e) \<rparr> in
       do {
         (small, large) \<leftarrow> SplitBlindiNode (blind_cfg hc t) nd (new_node (blind_cfg hc t)) (new_node (blind_cfg hc t));
         k \<leftarrow> get_max_key_in_node db small;
         Some ((mid, small), Key k, (b, su - mid, large), e)
       }))"

definition h_split_inner_node ::
  "hcfg \<Rightarrow> key list \<Rightarrow> hnode list \<Rightarrow> nat \<Rightarrow> henv \<Rightarrow> (key list \<times> hnode list) \<times> key \<times> (key list \<times> hnode list) \<times> henv" where
  "h_split_inner_node hc ks cs addslot e =
     (let n = length ks; mid = n div 2;
          mid = (if addslot \<le> mid \<and> mid > n - (mid + 1) then mid - 1 else mid)
      in ((take mid ks, take (mid + 1) cs), ks ! mid, (drop (mid + 1) ks, drop (mid + 1) cs), allocate_hinner hc e))"

section \<open>Insertion into a leaf\<close>

text \<open>
  The result of a descent: the node, the split key and the new sibling, the iterator. The flag the code returns is
  always true: duplicates are not looked for.
\<close>

record hins_result =
  hi_node :: hnode
  hi_split :: "(key \<times> hnode) option"
  hi_iter :: iter
  hi_env :: henv

definition insert_btree_leaf :: "hcfg \<Rightarrow> henv \<Rightarrow> addr \<Rightarrow> key list \<Rightarrow> ptr list \<Rightarrow> key \<Rightarrow> ptr \<Rightarrow> hins_result" where
  "insert_btree_leaf hc e a ks vs key val =
     (let slot = find_lower ks key in
      if length ks = h_leafslots hc then
        (let ((lk, lv), splitkey, (b, rk, rv), e) = split_btree_leaf_node hc a ks vs e in
         if slot \<ge> length lk then
           (let slot = slot - length lk in
            \<lparr> hi_node = HBtree a lk lv, hi_split = Some (splitkey, HBtree b (put_slot rk slot key) (put_slot rv slot val)),
              hi_iter = (Some b, slot), hi_env = e \<rparr>)
         else
           (let lk = put_slot lk slot key; splitkey = (if slot = length lk - 1 then key else splitkey) in
            \<lparr> hi_node = HBtree a lk (put_slot lv slot val), hi_split = Some (splitkey, HBtree b rk rv),
              hi_iter = (Some a, slot), hi_env = e \<rparr>))
      else
        \<lparr> hi_node = HBtree a (put_slot ks slot key) (put_slot vs slot val), hi_split = None,
          hi_iter = (Some a, slot), hi_env = e \<rparr>)"

text \<open>
  \<^verbatim>\<open>insert_blindi\<close> and the increment of \<^verbatim>\<open>slotuse\<close>; the result of the leaf's insertion is ignored.
\<close>

definition insert_blindi :: "hcfg \<Rightarrow> db \<Rightarrow> nat \<Rightarrow> nat \<Rightarrow> node \<Rightarrow> ptr \<Rightarrow> (nat \<times> node) option" where
  "insert_blindi hc db t su nd kp =
     (if t \<notin> {1, 2, 4, 8} then None
      else do { (_, nd) \<leftarrow> Insert2BlindiNodeWithKey (blind_cfg hc t) db nd kp; Some (su + 1, nd) })"

definition insert_blindi_leaf ::
  "hcfg \<Rightarrow> db \<Rightarrow> henv \<Rightarrow> bool \<Rightarrow> addr \<Rightarrow> nat \<Rightarrow> nat \<Rightarrow> node \<Rightarrow> ptr \<Rightarrow> hins_result option" where
  "insert_blindi_leaf hc db e is_root a t su nd kp =
     (if su = h_leafslots hc * t then
        (if t \<noteq> BLINDI_MAX_MULTI_SIZE then
           do {
             (b, nd, e) \<leftarrow> transfer_blindixtoblibdi2x hc is_root a t nd e;
             (su, nd) \<leftarrow> insert_blindi hc db (2 * t) su nd kp;
             Some \<lparr> hi_node = (if is_root then HFreed else HBlind b (2 * t) su nd), hi_split = None, hi_iter = (Some b, 0), hi_env = e \<rparr>
           }
         else
           do {
             ((sl, small), splitkey, (b, sr, large), e) \<leftarrow> split_blindi_nodex hc db a t su nd e;
             (if Key (db kp) > splitkey then
                do {
                  (sr, large) \<leftarrow> insert_blindi hc db t sr large kp;
                  Some \<lparr> hi_node = HBlind a t sl small, hi_split = Some (splitkey, HBlind b t sr large), hi_iter = (Some b, 0), hi_env = e \<rparr>
                }
              else
                do {
                  p \<leftarrow> get_key_ptr small (t * h_leafslots hc div 2 - 1);
                  let splitkey = (if Key (db kp) > Key (db p) then Key (db kp) else splitkey);
                  (sl, small) \<leftarrow> insert_blindi hc db t sl small kp;
                  Some \<lparr> hi_node = HBlind a t sl small, hi_split = Some (splitkey, HBlind b t sr large), hi_iter = (Some a, 0), hi_env = e \<rparr>
                })
           })
      else
        do {
          (su, nd) \<leftarrow> insert_blindi hc db t su nd kp;
          Some \<lparr> hi_node = HBlind a t su nd, hi_split = None, hi_iter = (Some a, 0), hi_env = e \<rparr>
        })"

text \<open>
  The leaf case of \<^verbatim>\<open>insert_descend\<close>. A leaf that is the root is not reconnected: the root pointer keeps pointing to
  the freed leaf.
\<close>

definition hy_insert_leaf ::
  "hcfg \<Rightarrow> db \<Rightarrow> henv \<Rightarrow> bool \<Rightarrow> hnode \<Rightarrow> ptr \<Rightarrow> ptr \<Rightarrow> hins_result option" where
  "hy_insert_leaf hc db e is_root n kp val = (case n of
       HBtree a ks vs \<Rightarrow>
         (if hybridstatus (h_stats e) = MUST_COMPRESS \<or> (hybridstatus (h_stats e) = SHOULD_COMPRESS \<and> length ks = h_leafslots hc) then
            (let t = (if length ks \<noteq> h_leafslots hc then 1 else 2) in
             do {
               (b, nd, e) \<leftarrow> transfer_btree_node_blindi hc t is_root a ks vs e;
               r \<leftarrow> insert_blindi_leaf hc db e is_root b t (length ks) nd kp;
               Some (if is_root then r \<lparr> hi_node := HFreed \<rparr> else r)
             })
          else Some (insert_btree_leaf hc e a ks vs (Key (db kp)) val))
     | HBlind a t su nd \<Rightarrow>
         (if is_root \<and> hybridstatus (h_stats e) = MUST_COMPRESS then None
          else insert_blindi_leaf hc db e is_root a t su nd kp)
     | _ \<Rightarrow> None)"

section \<open>Insertion\<close>

text \<open>
  In the state \<open>MUST_COMPRESS\<close> the insertion into a blind leaf first compresses a sibling: the first ordinary leaf among
  the children \<open>0, \<dots>, slotuse - 1\<close> of the parent (\<open>i\<close> counts up, \<open>n\<close> rounds are left).
\<close>

fun compress_first :: "hcfg \<Rightarrow> hnode list \<Rightarrow> nat \<Rightarrow> nat \<Rightarrow> henv \<Rightarrow> (hnode list \<times> bool \<times> henv) option" where
  "compress_first hc cs i 0 e = Some (cs, False, e)"
| "compress_first hc cs i (Suc n) e =
     do {
       c \<leftarrow> get cs i;
       (case c of
          HBtree a ks vs \<Rightarrow>
            do { (b, nd, e) \<leftarrow> transfer_btree_node_blindi hc 1 False a ks vs e; Some (cs[i := HBlind b 1 (length ks) nd], True, e) }
        | HBlind a t su nd \<Rightarrow> compress_first hc cs (i + 1) n e
        | _ \<Rightarrow> None)
     }"

definition compress_sibling ::
  "hcfg \<Rightarrow> henv \<Rightarrow> bool \<Rightarrow> key list \<Rightarrow> hnode list \<Rightarrow> nat \<Rightarrow> (hnode list \<times> bool \<times> henv) option" where
  "compress_sibling hc e ac ks cs slot = (case cs ! slot of
       HBlind a t su nd \<Rightarrow>
         (if hybridstatus (h_stats e) = MUST_COMPRESS \<and> \<not> ac then
            do { (cs, found, e) \<leftarrow> compress_first hc cs 0 (length ks) e; Some (cs, ac \<or> \<not> found, e) }
          else Some (cs, ac, e))
     | _ \<Rightarrow> Some (cs, ac, e))"

definition h_insert_inner ::
  "hcfg \<Rightarrow> henv \<Rightarrow> nat \<Rightarrow> bool \<Rightarrow> key list \<Rightarrow> hnode list \<Rightarrow> nat \<Rightarrow> key \<Rightarrow> hnode \<Rightarrow> hnode \<times> (key \<times> hnode) option \<times> henv" where
  "h_insert_inner hc e l ac ks cs slot newkey newchild =
     (if length ks = h_innerslots hc then
        (let ((lk, lc), splitkey, (rk, rc), e) = h_split_inner_node hc ks cs slot e in
         if slot = length lk + 1 \<and> length lk < length rk then
           (HInner l ac (lk @ [splitkey]) (lc @ [rc ! 0]), Some (newkey, HInner l False rk (rc[0 := newchild])), e)
         else if slot \<ge> length lk + 1 then
           (let slot = slot - (length lk + 1) in
            (HInner l ac lk lc, Some (splitkey, HInner l False (put_slot rk slot newkey) (put_slot rc (slot + 1) newchild)), e))
         else
           (HInner l ac (put_slot lk slot newkey) (put_slot lc (slot + 1) newchild), Some (splitkey, HInner l False rk rc), e))
      else (HInner l ac (put_slot ks slot newkey) (put_slot cs (slot + 1) newchild), None, e))"

lemma size_hchild [termination_simp]: "i < length cs \<Longrightarrow> size (cs ! i) < Suc (size_list size cs)"
  by (rule size_child [of i cs 0, simplified])

fun hy_insert_descend ::
  "hcfg \<Rightarrow> db \<Rightarrow> henv \<Rightarrow> bool \<Rightarrow> hnode \<Rightarrow> ptr \<Rightarrow> ptr \<Rightarrow> hins_result option" where
  "hy_insert_descend hc db e is_root (HInner l ac ks cs) kp val =
     (let slot = find_lower ks (Key (db kp)) in
      if slot < length cs then
        do {
          (cs', ac, e) \<leftarrow> compress_sibling hc e ac ks cs slot;
          r \<leftarrow> hy_insert_descend hc db e False (cs ! slot) kp val;
          let cs' = cs'[slot := hi_node r];
          Some (case hi_split r of
              None \<Rightarrow> r \<lparr> hi_node := HInner l ac ks cs' \<rparr>
            | Some (newkey, newchild) \<Rightarrow>
                (let (n, split, e) = h_insert_inner hc (hi_env r) l ac ks cs' slot newkey newchild
                 in r \<lparr> hi_node := n, hi_split := split, hi_env := e \<rparr>))
        }
      else None)"
| "hy_insert_descend hc db e is_root n kp val = hy_insert_leaf hc db e is_root n kp val"

text \<open>The state machine at the end of an insertion; \<open>items\<close> is the new number of items.\<close>

definition status_step :: "hybrid_stats \<Rightarrow> nat \<Rightarrow> hybrid_stats" where
  "status_step s items = (case hybridstatus s of
       CONTINUE \<Rightarrow>
         (if btreeleaves s > 0 \<and> items > unat (limit2ShouldCompress s) then
            (if \<not> isNotFirstrsttimeCompress s then
               s \<lparr> hybridstatus := SHOULD_COMPRESS, isNotFirstrsttimeCompress := True, firsttimeCompressitemscount := items \<rparr>
             else s \<lparr> hybridstatus := SHOULD_COMPRESS \<rparr>)
          else s)
     | MAY_UNCOMPRESS \<Rightarrow>
         (if items > unat (limit2ReturmForUnCompress s) then s \<lparr> hybridstatus := CONTINUE \<rparr> else s)
     | SHOULD_COMPRESS \<Rightarrow>
         (if items > unat (limit2MustCompress s) then s \<lparr> hybridstatus := MUST_COMPRESS \<rparr>
          else if indexcapacity s < limit2ReturmFromShouldCompress s then s \<lparr> hybridstatus := CONTINUE \<rparr>
          else s)
     | MUST_COMPRESS \<Rightarrow>
         (if btreeleaves s = 0 then s \<lparr> hybridstatus := CONTINUE \<rparr> else s))"

definition hy_insert :: "hcfg \<Rightarrow> db \<Rightarrow> htree \<Rightarrow> ptr \<Rightarrow> ptr \<Rightarrow> (htree \<times> iter \<times> bool) option" where
  "hy_insert hc db t kp val =
     (let (root, e) = (case h_root t of
            Some r \<Rightarrow> (r, h_env t)
          | None \<Rightarrow> (let (a, e) = allocate_btree_leaf hc (h_env t)
                     in (HBtree a [] [], e \<lparr> h_base := (h_base e) \<lparr> m_headleaf := Some a, m_tailleaf := Some a \<rparr>,
                           h_stats := (h_stats e) \<lparr> limit2MustCompress := limit2MustCompress (h_stats e) - sizeof_node hc \<rparr> \<rparr>)))
      in do {
        r \<leftarrow> hy_insert_descend hc db e True root kp val;
        (root, e) \<leftarrow> (case hi_split r of
              None \<Rightarrow> Some (hi_node r, hi_env r)
            | Some (newkey, newchild) \<Rightarrow>
                (if hi_node r = HFreed then None
                 else (let e = allocate_hinner hc (hi_env r) in
                   Some (HInner (hlevel (hi_node r) + 1) False [newkey] [hi_node r, newchild],
                     e \<lparr> h_stats := (h_stats e) \<lparr> limit2MustCompress := limit2MustCompress (h_stats e) - sizeof_inner hc \<rparr> \<rparr>))));
        let b = (h_base e) \<lparr> m_stats := m_stats (h_base e) \<lparr> itemcount := itemcount (m_stats (h_base e)) + 1 \<rparr> \<rparr>;
        Some (\<lparr> h_root = Some root, h_env = \<lparr> h_base = b, h_stats = status_step (h_stats e) (itemcount (m_stats b)) \<rparr> \<rparr>,
              hi_iter r, True)
      })"

text \<open>The insertion of a range, item by item, and \<^verbatim>\<open>swap\<close>.\<close>

fun hy_insert_range :: "hcfg \<Rightarrow> db \<Rightarrow> htree \<Rightarrow> (ptr \<times> ptr) list \<Rightarrow> htree option" where
  "hy_insert_range hc db t [] = Some t"
| "hy_insert_range hc db t ((kp, val) # xs) = do { (t, _) \<leftarrow> hy_insert hc db t kp val; hy_insert_range hc db t xs }"

definition hy_swap :: "htree \<Rightarrow> htree \<Rightarrow> htree \<times> htree" where
  "hy_swap this from = (from, this)"

section \<open>Lookup\<close>

fun hdescend :: "(key list \<Rightarrow> key \<Rightarrow> nat) \<Rightarrow> key \<Rightarrow> hnode \<Rightarrow> hnode option" where
  "hdescend srch key (HInner l ac ks cs) =
     (if srch ks key < length cs then hdescend srch key (cs ! srch ks key) else None)"
| "hdescend srch key HFreed = None"
| "hdescend srch key n = Some n"

text \<open>Following a pointer to a leaf: the leaves of the tree, by address.\<close>

fun hleaves :: "hnode \<Rightarrow> hnode list" where
  "hleaves (HInner l ac ks cs) = concat (map hleaves cs)"
| "hleaves HFreed = []"
| "hleaves n = [n]"

fun hleaf_addr :: "hnode \<Rightarrow> addr" where
  "hleaf_addr (HBtree a ks vs) = a"
| "hleaf_addr (HBlind a t su nd) = a"
| "hleaf_addr _ = 0"

definition hleaf_at :: "htree \<Rightarrow> addr \<Rightarrow> hnode option" where
  "hleaf_at t a = (case h_root t of None \<Rightarrow> None | Some r \<Rightarrow> find (\<lambda>n. hleaf_addr n = a) (hleaves r))"

fun hslotuse :: "hnode \<Rightarrow> nat" where
  "hslotuse (HBtree a ks vs) = length ks"
| "hslotuse (HBlind a t su nd) = su"
| "hslotuse (HInner l ac ks cs) = length ks"
| "hslotuse HFreed = 0"

definition hy_begin :: "htree \<Rightarrow> iter" where
  "hy_begin t = (m_headleaf (h_base (h_env t)), 0)"

definition hy_end :: "htree \<Rightarrow> iter option" where
  "hy_end t = (case m_tailleaf (h_base (h_env t)) of None \<Rightarrow> Some (None, 0)
     | Some a \<Rightarrow> do { n \<leftarrow> hleaf_at t a; Some (Some a, hslotuse n) })"

text \<open>\<^verbatim>\<open>search_blindi\<close>, with the local array \<^verbatim>\<open>uint16_t tree_traverse[5]\<close> of the callers.\<close>

definition search_blindi :: "hcfg \<Rightarrow> db \<Rightarrow> nat \<Rightarrow> node \<Rightarrow> key \<Rightarrow> search_type \<Rightarrow> search_result option" where
  "search_blindi hc db t nd key st =
     (if t \<notin> {1, 2, 4, 8} then None
      else SearchBlindiNode (blind_cfg hc t) db nd (key_bytes key) (h_key_len hc) st (replicate 5 0) 0)"

text \<open>The leaf part of \<^verbatim>\<open>find\<close>: where the key is, if it is in the leaf.\<close>

definition hy_find_leaf :: "hcfg \<Rightarrow> db \<Rightarrow> key \<Rightarrow> hnode \<Rightarrow> iter option option" where
  "hy_find_leaf hc db key n = (case n of
       HBtree a ks vs \<Rightarrow>
         (let slot = find_lower ks key in Some (if slot < length ks \<and> key = ks ! slot then Some (Some a, slot) else None))
     | HBlind a t su nd \<Rightarrow>
         do { r \<leftarrow> search_blindi hc db t nd key POINT_SEARCH;
              Some (if sr_hit r then Some (Some a, sr_position r) else None) }
     | _ \<Rightarrow> None)"

definition hy_find :: "hcfg \<Rightarrow> db \<Rightarrow> htree \<Rightarrow> key \<Rightarrow> iter option" where
  "hy_find hc db t key = (case h_root t of None \<Rightarrow> hy_end t
     | Some r \<Rightarrow> do {
         n \<leftarrow> hdescend find_lower key r;
         it \<leftarrow> hy_find_leaf hc db key n;
         (case it of Some it \<Rightarrow> Some it | None \<Rightarrow> hy_end t) })"

text \<open>\<^verbatim>\<open>lower_bound\<close>; the increment \<^verbatim>\<open>slot++\<close> of its last line has no effect on the result.\<close>

definition hy_lower_bound :: "hcfg \<Rightarrow> db \<Rightarrow> htree \<Rightarrow> key \<Rightarrow> iter option" where
  "hy_lower_bound hc db t key = (case h_root t of None \<Rightarrow> hy_end t
     | Some r \<Rightarrow> do {
         n \<leftarrow> hdescend find_lower key r;
         (case n of
            HBtree a ks vs \<Rightarrow> Some (Some a, find_lower ks key)
          | HBlind a t' su nd \<Rightarrow>
              do { s \<leftarrow> search_blindi hc db t' nd key PREDECESSOR_SEARCH;
                   (if sr_hit s \<or> sr_smaller_than_node s then Some (Some a, sr_position s)
                    else if m_tailleaf (h_base (h_env t)) = Some a \<and> int (sr_position s) = int su - 1 then hy_end t
                    else Some (Some a, sr_position s)) }
          | _ \<Rightarrow> None) })"

definition hy_size :: "htree \<Rightarrow> nat" where
  "hy_size t = itemcount (m_stats (h_base (h_env t)))"

definition hy_empty :: "htree \<Rightarrow> bool" where
  "hy_empty t \<longleftrightarrow> hy_size t = 0"

definition hy_capacity :: "htree \<Rightarrow> 64 word" where
  "hy_capacity t = indexcapacity (h_stats (h_env t))"

section \<open>Iterators\<close>

definition h_get_key :: "db \<Rightarrow> hnode \<Rightarrow> nat \<Rightarrow> key option" where
  "h_get_key db n slot = (case n of
       HBtree a ks vs \<Rightarrow> get ks slot
     | HBlind a t su nd \<Rightarrow> map_option (\<lambda>p. Key (db p)) (get_key_ptr nd slot)
     | _ \<Rightarrow> None)"

definition h_get_data :: "hnode \<Rightarrow> nat \<Rightarrow> ptr option" where
  "h_get_data n slot = (case n of
       HBtree a ks vs \<Rightarrow> get vs slot
     | HBlind a t su nd \<Rightarrow> get_key_ptr nd slot
     | _ \<Rightarrow> None)"

definition hiter_key :: "db \<Rightarrow> htree \<Rightarrow> iter \<Rightarrow> key option" where
  "hiter_key db t it = do { a \<leftarrow> fst it; n \<leftarrow> hleaf_at t a; h_get_key db n (snd it) }"

definition hiter_data :: "htree \<Rightarrow> iter \<Rightarrow> ptr option" where
  "hiter_data t it = do { a \<leftarrow> fst it; n \<leftarrow> hleaf_at t a; h_get_data n (snd it) }"

definition hiter_deref :: "db \<Rightarrow> htree \<Rightarrow> iter \<Rightarrow> (key \<times> ptr) option" where
  "hiter_deref db t it = do { k \<leftarrow> hiter_key db t it; v \<leftarrow> hiter_data t it; Some (k, v) }"

text \<open>\<open>end_slot\<close> gives the slot the iterator takes behind the last item: \<^verbatim>\<open>slotuse\<close> for \<^verbatim>\<open>++it\<close>, \<^verbatim>\<open>ENDSLOT\<close> for \<^verbatim>\<open>it++\<close>.\<close>

definition hiter_step :: "htree \<Rightarrow> (nat \<Rightarrow> nat) \<Rightarrow> iter \<Rightarrow> iter option" where
  "hiter_step t end_slot it =
     do { a \<leftarrow> fst it; n \<leftarrow> hleaf_at t a;
          Some (if snd it + 1 < hslotuse n then (Some a, snd it + 1)
                else (case nextleaf (h_base (h_env t)) a of
                    Some b \<Rightarrow> (Some b, 0)
                  | None \<Rightarrow> (Some a, end_slot (hslotuse n)))) }"

definition hiter_incr :: "htree \<Rightarrow> iter \<Rightarrow> iter option" where
  "hiter_incr t it = hiter_step t (\<lambda>n. n) it"

definition hiter_post_incr :: "htree \<Rightarrow> iter \<Rightarrow> iter option" where
  "hiter_post_incr t it = hiter_step t (\<lambda>_. ENDSLOT) it"

definition hiter_decr :: "htree \<Rightarrow> iter \<Rightarrow> iter option" where
  "hiter_decr t it =
     do { a \<leftarrow> fst it;
          (if snd it > 0 then Some (Some a, snd it - 1)
           else (case prevleaf (h_base (h_env t)) a of
               Some b \<Rightarrow> do { n \<leftarrow> hleaf_at t b; (if hslotuse n = 0 then None else Some (Some b, hslotuse n - 1)) }
             | None \<Rightarrow> Some (Some a, 0))) }"

definition hiter_eq :: "iter \<Rightarrow> iter \<Rightarrow> bool" where
  "hiter_eq x y \<longleftrightarrow> fst x = fst y \<and> snd x = snd y"

end
