(* ===== verification/Hybrid_Inv.thy ===== *)
theory Hybrid_Inv
  imports Hybrid SeqTree_Levels BTree_Links "HOL-Library.Multiset"
begin

text \<open>
  The invariant of the elastic index: the items of a tree, its well-formedness with leaves of both kinds, and
  what a step does to the environment. The relation \<open>becomes\<close> says that some nodes turn into others
  whatever stands around them: the links of the leaves stay a doubly linked list, and the statistics keep
  counting every node.
\<close>

section \<open>The items of a tree\<close>

definition ptr_item :: "db \<Rightarrow> ptr \<Rightarrow> key \<times> ptr" where
  "ptr_item db p = (Key (db p), p)"

fun hitems :: "db \<Rightarrow> hnode \<Rightarrow> (key \<times> ptr) list" where
  "hitems db (HBtree a ks vs) = zip ks vs"
| "hitems db (HBlind a t su nd) = map (ptr_item db) (node_ptrs nd)"
| "hitems db (HInner l ac ks cs) = concat (map (hitems db) cs)"
| "hitems db HFreed = []"

abbreviation hlast_key :: "db \<Rightarrow> hnode \<Rightarrow> key" where
  "hlast_key db n \<equiv> fst (last (hitems db n))"

text \<open>The data of an item is the address of the record that holds its key; keys have the length of the index.\<close>

definition backed :: "hcfg \<Rightarrow> db \<Rightarrow> (key \<times> ptr) list \<Rightarrow> bool" where
  "backed hc db xs \<longleftrightarrow> (\<forall>x \<in> set xs. x = ptr_item db (snd x) \<and> length (db (snd x)) = h_key_len hc)"

lemma backed_simps [simp]:
  "backed hc db []" "backed hc db (x # xs) \<longleftrightarrow> (x = ptr_item db (snd x) \<and> length (db (snd x)) = h_key_len hc) \<and> backed hc db xs"
  "backed hc db (xs @ ys) \<longleftrightarrow> backed hc db xs \<and> backed hc db ys"
  by (auto simp: backed_def)

lemma backed_map: "backed hc db xs \<Longrightarrow> map (ptr_item db) (map snd xs) = xs"
  by (induction xs) auto

section \<open>Well-formed trees\<close>

definition hcfg_ok :: "hcfg \<Rightarrow> bool" where
  "hcfg_ok hc \<longleftrightarrow> (h_tree_levels hc = 0 \<or> h_tree_levels hc = 2) \<and> 6 \<le> h_leafslots hc \<and> even (h_leafslots hc) \<and> 8 * h_leafslots hc < 254
     \<and> 4 \<le> h_innerslots hc \<and> 0 < h_key_len hc \<and> h_key_len hc \<le> 31"

abbreviation classes :: "nat set" where
  "classes \<equiv> {1, 2, 4, 8}"

abbreviation hseps :: "db \<Rightarrow> key list \<Rightarrow> hnode list \<Rightarrow> bool" where
  "hseps db \<equiv> seps_by (\<lambda>n. hlast_key db n)"

fun hwf :: "hcfg \<Rightarrow> db \<Rightarrow> bool \<Rightarrow> hnode \<Rightarrow> bool" where
  "hwf hc db root (HBtree a ks vs) \<longleftrightarrow> length vs = length ks \<and> 0 < length ks \<and> length ks \<le> h_leafslots hc
     \<and> (root \<or> h_leafslots hc div 2 \<le> length ks)"
| "hwf hc db root (HBlind a t su nd) \<longleftrightarrow> \<not> root \<and> t \<in> classes \<and> su = valid_len nd \<and> node_ok (blind_cfg hc t) db nd"
| "hwf hc db root (HInner l ac ks cs) \<longleftrightarrow> 0 < l \<and> hseps db ks cs \<and> 0 < length ks \<and> length ks \<le> h_innerslots hc
     \<and> (root \<or> h_innerslots hc div 2 \<le> length ks) \<and> (\<forall>n \<in> set cs. Suc (hlevel n) = l \<and> hwf hc db False n)"
| "hwf hc db root HFreed \<longleftrightarrow> False"

lemma blind_cfg_simps [simp]:
  "NUM_SLOTS (blind_cfg hc t) = h_leafslots hc * t" "KEY_LEN (blind_cfg hc t) = h_key_len hc" "TREE_LEVELS (blind_cfg hc t) = h_tree_levels hc"
  by (simp_all add: blind_cfg_def)

lemma blind_cfg_ok:
  assumes "hcfg_ok hc" "t \<in> classes"
  shows "cfg_ok (blind_cfg hc t)" "END_TREE (blind_cfg hc t) = 255"
proof -
  have l: "6 \<le> h_leafslots hc" "8 * h_leafslots hc < 254" "even (h_leafslots hc)" using assms(1) by (auto simp: hcfg_ok_def)
  have s: "6 \<le> h_leafslots hc * t" "h_leafslots hc * t < 254" "even (h_leafslots hc * t)" using assms(2) l by auto
  then show "END_TREE (blind_cfg hc t) = 255" by (simp add: END_TREE_def idx_mod_def)
  then show "cfg_ok (blind_cfg hc t)" using s assms(1)
    by (simp add: cfg_ok_def hcfg_ok_def MAX_HIGH_MISS_def bitidx_mod_def)
qed

lemma node_ptrs_length: "node_ok c db nd \<Longrightarrow> length (node_ptrs nd) = valid_len nd"
  using node_okD(3) by (simp add: node_ptrs_def)

lemma hwf_items: "hwf hc db root n \<Longrightarrow> hitems db n \<noteq> []"
proof (induction n arbitrary: root)
  case (HBlind a t su nd)
  then show ?case using node_ptrs_length node_okD(2) by (metis hitems.simps(2) hwf.simps(2) length_0_conv map_is_Nil_conv less_irrefl)
next
  case (HInner l ac ks cs)
  then have "cs \<noteq> []" by (auto simp: seps_by_def)
  then obtain m ms where "cs = m # ms" by (cases cs) auto
  then show ?case using HInner by auto
qed auto

text \<open>The items of a blind leaf are sorted and backed by the records.\<close>

lemma blind_items:
  assumes "node_ok (blind_cfg hc t) db nd"
  shows "sorted_items (map (ptr_item db) (node_ptrs nd))" "backed hc db (map (ptr_item db) (node_ptrs nd))"
proof -
  have o: "bl.ordered (h_key_len hc) (map db (node_ptrs nd))" using node_okD(7) [OF assms] by (simp add: node_keys_ptrs)
  have e: "map fst (map (ptr_item db) (node_ptrs nd)) = map Key (map db (node_ptrs nd))" by (simp add: ptr_item_def)
  show "sorted_items (map (ptr_item db) (node_ptrs nd))" unfolding e using o ordered_sorted by blast
  show "backed hc db (map (ptr_item db) (node_ptrs nd))" using o ordered_sorted by (auto simp: backed_def ptr_item_def)
qed

section \<open>Children of an inner node\<close>

interpretation hn: node_items "hitems db" "hwf hc db False" for db hc
  by unfold_locales (rule hwf_items)

lemma hinner_parts:
  assumes "hwf hc db root (HInner l ac ks cs)" "sorted_items (hitems db (HInner l ac ks cs))"
  shows "hseps db ks cs" "\<forall>n \<in> set cs. hwf hc db False n" "sorted_items (concat (map (hitems db) cs))"
  using assms by auto

section \<open>The links of the leaves\<close>

text \<open>
  The head and tail pointers are left out: moving the first or the last leaf to another representation leaves them
  pointing to the freed leaf.
\<close>

definition hchain :: "env \<Rightarrow> addr list \<Rightarrow> bool" where
  "hchain e as \<longleftrightarrow> linked e None as None \<and> distinct as \<and> (\<forall>a \<in> set as. a < fresh e) \<and> leaves (m_stats e) = length as"

definition with_ends :: "addr list \<Rightarrow> env \<Rightarrow> env" where
  "with_ends as e = e \<lparr> m_headleaf := first_or None as, m_tailleaf := last_or None as \<rparr>"

lemma linked_ends: "linked (with_ends bs e) p as q = linked e p as q"
  by (rule linked_cong) (simp add: with_ends_def)

lemma hchain_chain: "hchain e as \<longleftrightarrow> chain (with_ends as e) as"
  by (simp add: hchain_def chain_def linked_ends) (simp add: with_ends_def)

lemma chain_hchain: "chain e as \<Longrightarrow> hchain e as"
  by (simp add: hchain_def chain_def)

lemma hchain_cong:
  "nextleaf e = nextleaf e' \<Longrightarrow> prevleaf e = prevleaf e' \<Longrightarrow> fresh e = fresh e' \<Longrightarrow> leaves (m_stats e) = leaves (m_stats e')
   \<Longrightarrow> hchain e as \<longleftrightarrow> hchain e' as"
  unfolding hchain_def using linked_cong [of as e e' None None] by simp

lemma new_leaf_ends:
  assumes a: "a \<noteq> fresh e"
  shows "nextleaf (new_leaf a (with_ends bs e)) = nextleaf (new_leaf a e)"
    "prevleaf (new_leaf a (with_ends bs e)) = prevleaf (new_leaf a e)"
    "fresh (new_leaf a (with_ends bs e)) = fresh (new_leaf a e)"
    "leaves (m_stats (new_leaf a (with_ends bs e))) = leaves (m_stats (new_leaf a e))"
proof -
  have w: "nextleaf (with_ends bs e) = nextleaf e" "prevleaf (with_ends bs e) = prevleaf e" "fresh (with_ends bs e) = fresh e"
    "m_stats (with_ends bs e) = m_stats e" by (simp_all add: with_ends_def)
  have a': "a \<noteq> fresh (with_ends bs e)" using a w by simp
  note n = new_leaf_simps [OF a] and n' = new_leaf_simps [OF a', unfolded w]
  show "nextleaf (new_leaf a (with_ends bs e)) = nextleaf (new_leaf a e)" unfolding n(3) n'(3) ..
  show "prevleaf (new_leaf a (with_ends bs e)) = prevleaf (new_leaf a e)"
    by (cases "nextleaf e a") (simp_all only: n(4,5) n'(4,5))
  show "fresh (new_leaf a (with_ends bs e)) = fresh (new_leaf a e)" unfolding n(6) n'(6) ..
  show "leaves (m_stats (new_leaf a (with_ends bs e))) = leaves (m_stats (new_leaf a e))" unfolding n(7) n'(7) ..
qed

lemma hchain_new:
  assumes "hchain e (xs @ a # ys)"
  shows "hchain (new_leaf a e) (xs @ a # fresh e # ys)"
proof -
  let ?e = "with_ends (xs @ a # ys) e"
  have "chain ?e (xs @ a # ys)" using assms by (simp add: hchain_chain)
  moreover have "grown ?e (new_leaf a ?e) (xs @ a # ys) (xs @ a # fresh e # ys)"
    unfolding grown_def by (rule disjI2, intro exI [of _ xs] exI [of _ a] exI [of _ ys]) (simp add: with_ends_def)
  ultimately have "hchain (new_leaf a ?e) (xs @ a # fresh e # ys)" by (rule chain_hchain [OF chain_grown])
  moreover have "a \<noteq> fresh e" using assms by (auto simp: hchain_def)
  ultimately show ?thesis using hchain_cong [OF new_leaf_ends] by simp
qed

text \<open>A leaf moves to a new address.\<close>

definition moved :: "addr \<Rightarrow> env \<Rightarrow> env" where
  "moved a e = free_node True (connect_newleaf2tree False a (fresh e) (snd (allocate_leaf e)))"

lemma moved_simps:
  assumes "a \<noteq> fresh e" "prevleaf e a \<noteq> Some a"
  shows "fresh (moved a e) = Suc (fresh e)" "leaves (m_stats (moved a e)) = leaves (m_stats e)"
    "nextleaf (moved a e) b = (if prevleaf e a = Some b then Some (fresh e) else if b = fresh e then nextleaf e a else nextleaf e b)"
    "prevleaf (moved a e) b = (if nextleaf e a = Some b then Some (fresh e) else if b = fresh e then prevleaf e a else prevleaf e b)"
  using assms by (auto simp: moved_def free_node_def connect_newleaf2tree_def allocate_leaf_def Let_def split: option.splits)

lemma linked_set_next:
  assumes "linked e p (xs @ [x]) q" "distinct (xs @ [x])" "\<forall>b \<in> set (xs @ [x]). prevleaf e' b = prevleaf e b"
    "nextleaf e' x = q'" "\<forall>b \<in> set xs. nextleaf e' b = nextleaf e b"
  shows "linked e' p (xs @ [x]) q'"
  using assms linked_cong [of xs e e' p "Some x"] by (simp add: linked_append)

lemma hchain_moved:
  assumes h: "hchain e (xs @ a # ys)"
  shows "hchain (moved a e) (xs @ fresh e # ys)"
proof -
  let ?f = "fresh e" and ?e = "moved a e"
  have fr: "?f \<notin> set (xs @ a # ys)" "a \<noteq> ?f" and d: "distinct (xs @ a # ys)" using h by (auto simp: hchain_def)
  have lk: "linked e None xs (Some a)" "prevleaf e a = last_or None xs" "nextleaf e a = first_or None ys" "linked e (Some a) ys None"
    using h by (auto simp: hchain_def linked_append)
  have "prevleaf e a \<noteq> Some a" unfolding lk(2) using d last_in_set [of xs] by (auto simp: last_or_def)
  note m = moved_simps [OF fr(2) this]
  have lx: "xs \<noteq> [] \<Longrightarrow> last xs \<notin> set ys" using d by (metis Int_iff empty_iff distinct_append last_in_set list.set_intros(2))
  have lf: "xs \<noteq> [] \<Longrightarrow> last xs \<noteq> ?f" using fr(1) last_in_set [of xs] by (metis Un_iff set_append)
  have xs: "linked ?e None xs (Some ?f)"
  proof (cases xs rule: rev_cases)
    case (snoc zs z)
    show ?thesis unfolding snoc
      by (rule linked_set_next [OF lk(1) [unfolded snoc]])
        (use d fr lk(2,3) in \<open>auto simp: m snoc first_or_def split: list.splits\<close>)
  qed simp
  have ys: "linked ?e (Some ?f) ys None"
  proof (cases ys)
    case (Cons y zs)
    show ?thesis unfolding Cons
      by (rule linked_set_prev [OF lk(4) [unfolded Cons]])
        (use d fr lk(2,3) lx in \<open>auto simp: m Cons last_or_def split: if_splits\<close>)
  qed simp
  have "prevleaf ?e ?f = last_or None xs" "nextleaf ?e ?f = first_or None ys"
    using fr lf lk(2,3) by (auto simp: m last_or_def first_or_def split: if_splits list.splits)
  then have "linked ?e None (xs @ ?f # ys) None" using xs ys by (simp add: linked_append)
  then show ?thesis using h fr by (auto simp: hchain_def m intro: less_SucI)
qed

lemma new_leaf_frame [simp]:
  "fresh (new_leaf a e) = Suc (fresh e)" "itemcount (m_stats (new_leaf a e)) = itemcount (m_stats e)"
  "innernodes (m_stats (new_leaf a e)) = innernodes (m_stats e)"
  by (simp_all add: new_leaf_def link_new_def allocate_leaf_def Let_def split: option.splits)

lemma moved_frame [simp]:
  "fresh (moved a e) = Suc (fresh e)" "itemcount (m_stats (moved a e)) = itemcount (m_stats e)"
  "innernodes (m_stats (moved a e)) = innernodes (m_stats e)"
  by (simp_all add: moved_def free_node_def connect_newleaf2tree_def allocate_leaf_def Let_def split: option.splits)

section \<open>The statistics\<close>

datatype node_kind = KBtree | KBlind nat | KInner

fun kinds :: "hnode \<Rightarrow> node_kind multiset" where
  "kinds (HBtree a ks vs) = {# KBtree #}"
| "kinds (HBlind a t su nd) = {# KBlind t #}"
| "kinds (HInner l ac ks cs) = {# KInner #} + sum_list (map kinds cs)"
| "kinds HFreed = {#}"

fun kind_size :: "hcfg \<Rightarrow> node_kind \<Rightarrow> 64 word" where
  "kind_size hc KBtree = sizeof_btree_leaf hc"
| "kind_size hc (KBlind t) = sizeof_blindi_leaf hc t"
| "kind_size hc KInner = sizeof_inner hc"

fun is_kblind :: "node_kind \<Rightarrow> bool" where
  "is_kblind (KBlind t) = True"
| "is_kblind _ = False"

definition acct :: "hcfg \<Rightarrow> henv \<Rightarrow> node_kind multiset \<Rightarrow> bool" where
  "acct hc e M \<longleftrightarrow> btreeleaves (h_stats e) = count M KBtree \<and> (\<forall>t. blindinodes (h_stats e) t = count M (KBlind t))
     \<and> blindileaves (h_stats e) = size (filter_mset is_kblind M) \<and> innernodes (m_stats (h_base e)) = count M KInner
     \<and> indexcapacity (h_stats e) = (\<Sum>k \<in># M. kind_size hc k)"

text \<open>The part of the statistics an insertion below the root does not change.\<close>

definition control :: "hybrid_stats \<Rightarrow> hybrid_status \<times> 64 word list \<times> nat \<times> bool" where
  "control s = (hybridstatus s, [limitArrived s, limit2MustCompress s, limit2ShouldCompress s, limit2ReturmForUnCompress s,
     limit2ReturmFromShouldCompress s], firsttimeCompressitemscount s, isNotFirstrsttimeCompress s)"

lemma control_status: "control s = control s' \<Longrightarrow> hybridstatus s = hybridstatus s'"
  by (simp add: control_def)

section \<open>What a step does to the environment\<close>

definition henv_ok :: "hcfg \<Rightarrow> henv \<Rightarrow> addr list \<Rightarrow> node_kind multiset \<Rightarrow> bool" where
  "henv_ok hc e as M \<longleftrightarrow> hchain (h_base e) as \<and> acct hc e M"

abbreviation haddrs :: "hnode \<Rightarrow> addr list" where
  "haddrs n \<equiv> map hleaf_addr (hleaves n)"

text \<open>The nodes \<open>ns\<close> become the nodes \<open>ns'\<close>, whatever stands around them.\<close>

definition becomes :: "hcfg \<Rightarrow> henv \<Rightarrow> henv \<Rightarrow> hnode list \<Rightarrow> hnode list \<Rightarrow> bool" where
  "becomes hc e e' ns ns' \<longleftrightarrow> control (h_stats e') = control (h_stats e)
     \<and> itemcount (m_stats (h_base e')) = itemcount (m_stats (h_base e)) \<and> fresh (h_base e) \<le> fresh (h_base e')
     \<and> (\<forall>xs ys R. henv_ok hc e (xs @ concat (map haddrs ns) @ ys) (R + sum_list (map kinds ns))
          \<longrightarrow> henv_ok hc e' (xs @ concat (map haddrs ns') @ ys) (R + sum_list (map kinds ns')))"

lemma becomes_refl: "becomes hc e e ns ns"
  by (simp add: becomes_def)

lemma becomes_trans: "becomes hc e e' ns ns' \<Longrightarrow> becomes hc e' e'' ns' ns'' \<Longrightarrow> becomes hc e e'' ns ns''"
  by (auto simp: becomes_def)

lemma becomes_context: "becomes hc e e' ns ns' \<Longrightarrow> becomes hc e e' (as @ ns @ bs) (as @ ns' @ bs)"
  unfolding becomes_def
proof (intro conjI allI impI; (elim conjE)?)
  fix xs ys R
  assume a: "\<forall>xs ys R. henv_ok hc e (xs @ concat (map haddrs ns) @ ys) (R + sum_list (map kinds ns))
          \<longrightarrow> henv_ok hc e' (xs @ concat (map haddrs ns') @ ys) (R + sum_list (map kinds ns'))"
    and h: "henv_ok hc e (xs @ concat (map haddrs (as @ ns @ bs)) @ ys) (R + sum_list (map kinds (as @ ns @ bs)))"
  from h a [rule_format, of "xs @ concat (map haddrs as)" "concat (map haddrs bs) @ ys"
      "R + sum_list (map kinds as) + sum_list (map kinds bs)"]
  show "henv_ok hc e' (xs @ concat (map haddrs (as @ ns' @ bs)) @ ys) (R + sum_list (map kinds (as @ ns' @ bs)))"
    by (simp add: ac_simps)
qed auto

text \<open>The elementary steps.\<close>

lemma becomes_hinner:
  assumes "sum_list (map kinds ns') = add_mset KInner (sum_list (map kinds ns))" "concat (map haddrs ns') = concat (map haddrs ns)"
  shows "becomes hc e (allocate_hinner hc e) ns ns'"
  using assms hchain_cong [of "allocate_inner (h_base e)" "h_base e"]
  by (auto simp: becomes_def henv_ok_def acct_def allocate_hinner_def allocate_inner_def control_def)

lemma becomes_same:
  assumes "sum_list (map kinds ns') = sum_list (map kinds ns)" "concat (map haddrs ns') = concat (map haddrs ns)"
  shows "becomes hc e e ns ns'"
  using assms by (simp add: becomes_def)

text \<open>A leaf is split: the new leaf follows it.\<close>

lemma becomes_split_btree:
  "becomes hc e (snd (allocate_btree_leaf hc e) \<lparr> h_base := new_leaf a (h_base e) \<rparr>) [HBtree a ks vs] [HBtree a lk lv, HBtree (fresh (h_base e)) rk rv]"
  using hchain_new [of "h_base e"]
  by (auto simp: becomes_def henv_ok_def acct_def control_def allocate_btree_leaf_def allocate_leaf_def Let_def)

lemma becomes_split_blindi:
  "becomes hc e (snd (allocate_blindi_leaf hc t e) \<lparr> h_base := new_leaf a (h_base e) \<rparr>) [HBlind a t su nd]
     [HBlind a t sl small, HBlind (fresh (h_base e)) t sr large]"
  using hchain_new [of "h_base e"]
  by (auto simp: becomes_def henv_ok_def acct_def control_def allocate_blindi_leaf_def allocate_leaf_def Let_def)

text \<open>The moves between the representations.\<close>

lemma becomes_to_blindi:
  assumes "h_base e' = moved a (h_base e)" "control (h_stats e') = control (h_stats e)"
    "btreeleaves (h_stats e') = btreeleaves (h_stats e) - 1" "blindileaves (h_stats e') = blindileaves (h_stats e) + 1"
    "blindinodes (h_stats e') = (blindinodes (h_stats e))(t := blindinodes (h_stats e) t + 1)"
    "indexcapacity (h_stats e') = indexcapacity (h_stats e) + sizeof_blindi_leaf hc t - sizeof_btree_leaf hc"
  shows "becomes hc e e' [HBtree a ks vs] [HBlind (fresh (h_base e)) t su nd]"
  using hchain_moved [of "h_base e"] assms by (auto simp: becomes_def henv_ok_def acct_def)

lemma becomes_grown:
  assumes "h_base e' = moved a (h_base e)" "control (h_stats e') = control (h_stats e)"
    "btreeleaves (h_stats e') = btreeleaves (h_stats e)" "blindileaves (h_stats e') = blindileaves (h_stats e) + 1 - 1" "t \<noteq> t'"
    "blindinodes (h_stats e') = (blindinodes (h_stats e))(t' := blindinodes (h_stats e) t' + 1, t := blindinodes (h_stats e) t - 1)"
    "indexcapacity (h_stats e') = indexcapacity (h_stats e) + sizeof_blindi_leaf hc t' - sizeof_blindi_leaf hc t"
  shows "becomes hc e e' [HBlind a t su nd] [HBlind (fresh (h_base e)) t' su' nd']"
  using hchain_moved [of "h_base e"] assms by (auto simp: becomes_def henv_ok_def acct_def)

end
