(* ===== verification/Hybrid_Leaf.thy ===== *)
theory Hybrid_Leaf
  imports Hybrid_Inv
begin

text \<open>
  The leaves of the elastic index: moving an ordinary leaf to a blind one, a blind one to the next class,
  splitting, and the insertion into a leaf of each kind, with the items before and after.
\<close>

section \<open>Blind leaves of the tree\<close>

abbreviation blind_list :: "db \<Rightarrow> node \<Rightarrow> (key \<times> ptr) list" where
  "blind_list db nd \<equiv> map (ptr_item db) (node_ptrs nd)"

lemma sorted_ins_middle:
  assumes "sorted_items (xs @ (k, v) # ys)"
  shows "ins_list k v (xs @ ys) = xs @ (k, v) # ys"
proof -
  have "\<forall>x \<in> set xs. fst x < k" using assms by (auto simp: sorted_wrt_append)
  moreover have "ins_list k v ys = (k, v) # ys" using assms by (cases ys) (auto simp: sorted_wrt_append)
  ultimately show ?thesis by (simp add: ins_list_left)
qed

lemma blind_mem: "Key x \<in> fst ` set (blind_list db nd) \<longleftrightarrow> x \<in> set (node_keys db nd)"
  unfolding node_keys_ptrs set_map image_image ptr_item_def fst_conv by (auto simp: image_iff)

lemma insert_blindi_spec:
  assumes hc: "hcfg_ok hc" "t \<in> classes" and ok: "node_ok (blind_cfg hc t) db nd" and room: "valid_len nd < h_leafslots hc * t"
    and k: "length (db kp) = h_key_len hc" "Key (db kp) \<notin> fst ` set (blind_list db nd)"
  shows "\<exists>nd'. insert_blindi hc db t (valid_len nd) nd kp = Some (Suc (valid_len nd), nd') \<and> node_ok (blind_cfg hc t) db nd'
    \<and> valid_len nd' = Suc (valid_len nd) \<and> blind_list db nd' = ins_list (Key (db kp)) kp (blind_list db nd)"
proof -
  have km: "length (db kp) = KEY_LEN (blind_cfg hc t)" "db kp \<notin> set (node_keys db nd)" "valid_len nd < NUM_SLOTS (blind_cfg hc t)"
    using k room blind_mem [of "db kp" db nd] by auto
  from Insert2BlindiNodeWithKey_spec [OF blind_cfg_ok(1) [OF hc] ok km(3,1,2)] obtain nd' pos where
    n: "Insert2BlindiNodeWithKey (blind_cfg hc t) db nd kp = Some (INSERT_SUCCESS, nd')" "node_ok (blind_cfg hc t) db nd'"
      "node_ptrs nd' = take pos (node_ptrs nd) @ kp # drop pos (node_ptrs nd)" by blast
  let ?xs = "take pos (blind_list db nd)" and ?ys = "drop pos (blind_list db nd)"
  have e: "blind_list db nd' = ?xs @ (Key (db kp), kp) # ?ys" by (simp add: n(3) take_map drop_map ptr_item_def)
  have "ins_list (Key (db kp)) kp (?xs @ ?ys) = ?xs @ (Key (db kp), kp) # ?ys"
    by (rule sorted_ins_middle) (use blind_items(1) [OF n(2)] in \<open>simp only: e\<close>)
  then have i: "blind_list db nd' = ins_list (Key (db kp)) kp (blind_list db nd)" unfolding e by simp
  have "length (node_ptrs nd') = Suc (length (node_ptrs nd))" unfolding n(3) by simp
  then have "valid_len nd' = Suc (valid_len nd)" using node_ptrs_length [OF ok] node_ptrs_length [OF n(2)] by simp
  then show ?thesis using n i hc(2) by (simp add: insert_blindi_def)
qed

text \<open>An ordinary leaf becomes a blind leaf with the same items.\<close>

lemma transfer_leaf_spec:
  assumes hc: "hcfg_ok hc" "t \<in> classes" and l: "length vs = length ks" "2 \<le> length ks" "length ks \<le> h_leafslots hc * t"
    and s: "sorted_wrt (<) ks" and b: "backed hc db (zip ks vs)"
  shows "\<exists>nd e'. transfer_btree_node_blindi hc t False a ks vs e = Some (fresh (h_base e), nd, e')
    \<and> node_ok (blind_cfg hc t) db nd \<and> valid_len nd = length ks \<and> blind_list db nd = zip ks vs
    \<and> becomes hc e e' [HBtree a ks vs] [HBlind (fresh (h_base e)) t (length ks) nd]"
proof -
  let ?c = "blind_cfg hc t"
  have it: "\<forall>i < length ks. ks ! i = Key (db (vs ! i)) \<and> length (db (vs ! i)) = h_key_len hc"
  proof (intro allI impI)
    fix i assume i: "i < length ks"
    then have "zip ks vs ! i = (ks ! i, vs ! i)" "zip ks vs ! i \<in> set (zip ks vs)" using l by (simp, intro nth_mem) simp
    then show "ks ! i = Key (db (vs ! i)) \<and> length (db (vs ! i)) = h_key_len hc"
      using b by (fastforce simp: backed_def ptr_item_def)
  qed
  have m: "map db vs = map key_bytes ks" by (rule nth_equalityI) (use it l in auto)
  have ks: "map Key (map key_bytes ks) = ks" by (simp add: comp_def)
  have "\<forall>k \<in> set (map key_bytes ks). length k = h_key_len hc" using it by (auto simp: in_set_conv_nth)
  then have o: "bl.ordered (KEY_LEN ?c) (map key_bytes ks)" using s ordered_sorted ks by simp
  from transfer_btree2blindi_spec [OF blind_cfg_ok(1) [OF hc] new_node_raw o _ l(2) _ m] l obtain nd where
    n: "transfer_btree2blindi ?c (new_node ?c) (length ks) (map key_bytes ks) vs = Some nd" "node_ok ?c db nd"
      "node_ptrs nd = vs" "valid_len nd = length ks" by auto
  have "blind_list db nd = zip ks vs" unfolding n(3)
    by (rule nth_equalityI) (use it l in \<open>auto simp: ptr_item_def\<close>)
  then show ?thesis using n
    by (auto simp: transfer_btree_node_blindi_def allocate_blindi_leaf_def allocate_leaf_def free_btree_leaf_def Let_def
        moved_def control_def intro!: becomes_to_blindi)
qed

lemma grow_leaf_spec:
  assumes hc: "hcfg_ok hc" "t \<in> {1, 2, 4}" and ok: "node_ok (blind_cfg hc t) db nd"
  shows "\<exists>nd' e'. transfer_blindixtoblibdi2x hc False a t nd e = Some (fresh (h_base e), nd', e')
    \<and> node_ok (blind_cfg hc (2 * t)) db nd' \<and> valid_len nd' = valid_len nd \<and> blind_list db nd' = blind_list db nd
    \<and> (\<forall>su su' nd''. becomes hc e e' [HBlind a t su nd] [HBlind (fresh (h_base e)) (2 * t) su' nd''])"
proof -
  have t: "t \<in> classes" "2 * t \<in> classes" using hc(2) by auto
  note c = blind_cfg_ok [OF hc(1) t(1)] and c' = blind_cfg_ok [OF hc(1) t(2)]
  have r: "KEY_LEN (blind_cfg hc (2 * t)) = KEY_LEN (blind_cfg hc t)" "NUM_SLOTS (blind_cfg hc (2 * t)) = 2 * NUM_SLOTS (blind_cfg hc t)"
    "TREE_LEVELS (blind_cfg hc (2 * t)) = TREE_LEVELS (blind_cfg hc t)" by simp_all
  have "NUM_SLOTS (blind_cfg hc (2 * t)) < 254" using hc by (auto simp: hcfg_ok_def)
  from transferNode_spec [OF c(1) c'(1) r(3,1,2) this new_node_raw ok] obtain nd' where
    n: "transferNode (blind_cfg hc (2 * t)) (new_node (blind_cfg hc (2 * t))) (valid_len nd) (blindiKeys nd) (key_ptr nd)
          (get_ptr2blindiTree (blind_cfg hc t) nd) = Some nd'"
      "node_ok (blind_cfg hc (2 * t)) db nd'" "node_ptrs nd' = node_ptrs nd" by blast
  have "valid_len nd' = valid_len nd" using node_ptrs_length [OF ok] node_ptrs_length [OF n(2)] n(3) by simp
  then show ?thesis using n hc(2)
    by (auto simp: transfer_blindixtoblibdi2x_def allocate_blindi_leaf_def allocate_leaf_def free_blindi_leaf_def Let_def
        moved_def control_def intro!: becomes_grown)
qed

lemma get_max_key_spec:
  assumes ok: "node_ok c db nd"
  shows "get_max_key_in_node db nd = Some (last (node_keys db nd))"
proof -
  note k = node_okD(1-3) [OF ok]
  have "node_keys db nd \<noteq> []" using k(1,2) by (metis length_0_conv less_irrefl)
  then have "last (node_keys db nd) = db (key_ptr nd ! (valid_len nd - 1))"
    using k node_keys_nth [of "valid_len nd - 1" nd db] by (simp add: last_conv_nth)
  then show ?thesis using k by (simp add: get_max_key_in_node_def get_key_ptr_def)
qed

lemma split_blindi_spec:
  assumes hc: "hcfg_ok hc" "t \<in> classes" and ok: "node_ok (blind_cfg hc t) db nd" and full: "valid_len nd = h_leafslots hc * t"
  shows "\<exists>small large e'. split_blindi_nodex hc db a t (valid_len nd) nd e = Some ((valid_len small, small),
      fst (last (blind_list db small)), (fresh (h_base e), valid_len large, large), e')
    \<and> node_ok (blind_cfg hc t) db small \<and> node_ok (blind_cfg hc t) db large \<and> blind_list db small @ blind_list db large = blind_list db nd
    \<and> valid_len small = h_leafslots hc * t div 2 \<and> valid_len large = h_leafslots hc * t div 2
    \<and> (\<forall>su sl sr nl nr. becomes hc e e' [HBlind a t su nd] [HBlind a t sl nl, HBlind (fresh (h_base e)) t sr nr])"
proof -
  let ?c = "blind_cfg hc t"
  note c = blind_cfg_ok(1) [OF hc]
  from SplitBlindiNode_spec [OF c ok _ new_node_raw new_node_raw] full obtain small large where
    n: "SplitBlindiNode ?c nd (new_node ?c) (new_node ?c) = Some (small, large)" "node_ok ?c db small" "node_ok ?c db large"
      "node_ptrs small = take (NUM_SLOTS ?c div 2) (node_ptrs nd)" "node_ptrs large = drop (NUM_SLOTS ?c div 2) (node_ptrs nd)" by auto
  have ev: "even (h_leafslots hc * t)" using hc by (auto simp: hcfg_ok_def)
  then have d: "h_leafslots hc * t - h_leafslots hc * t div 2 = h_leafslots hc * t div 2" by (metis dvd_mult_div_cancel mult_2 add_diff_cancel_right')
  have v: "valid_len small = h_leafslots hc * t div 2" "valid_len large = h_leafslots hc * t div 2"
    using node_ptrs_length [OF ok] node_ptrs_length [OF n(2)] node_ptrs_length [OF n(3)] n(4,5) full d by auto
  have ne: "node_ptrs small \<noteq> []" using node_ptrs_length [OF n(2)] node_okD(2) [OF n(2)] by auto
  have m: "get_max_key_in_node db small = Some (last (node_keys db small))" by (rule get_max_key_spec [OF n(2)])
  have k: "Key (last (node_keys db small)) = fst (last (blind_list db small))"
    using ne by (simp add: node_keys_ptrs last_map ptr_item_def)
  have it: "blind_list db small @ blind_list db large = blind_list db nd" unfolding n(4,5) map_append [symmetric] append_take_drop_id ..
   have al: "allocate_blindi_leaf hc t e = (fresh (h_base e), snd (allocate_blindi_leaf hc t e))"
    "h_base (snd (allocate_blindi_leaf hc t e)) = snd (allocate_leaf (h_base e))"
    by (simp_all add: allocate_blindi_leaf_def allocate_leaf_def Let_def)
  let ?e' = "snd (allocate_blindi_leaf hc t e) \<lparr> h_base := new_leaf a (h_base e) \<rparr>"
  have "split_blindi_nodex hc db a t (valid_len nd) nd e = Some ((valid_len small, small),
      fst (last (blind_list db small)), (fresh (h_base e), valid_len large, large), ?e')"
    using n(1) m k v full d hc(2) by (subst split_blindi_nodex_def, subst al(1)) (auto simp: Let_def al(2) new_leaf_def)
  then show ?thesis using n(2,3) it v becomes_split_blindi
    by (intro exI [of _ small] exI [of _ large] exI [of _ ?e']) simp
qed

section \<open>What a descent of an insertion returns\<close>

definition res_nodes :: "hins_result \<Rightarrow> hnode list" where
  "res_nodes r = hi_node r # (case hi_split r of None \<Rightarrow> [] | Some (k, m) \<Rightarrow> [m])"

text \<open>The iterator: at the new item in an ordinary leaf, at slot 0 of the leaf in a blind one.\<close>

definition hpoints :: "hnode list \<Rightarrow> iter \<Rightarrow> key \<Rightarrow> bool" where
  "hpoints ns it key \<longleftrightarrow> (\<exists>n \<in> set (concat (map hleaves ns)). fst it = Some (hleaf_addr n) \<and>
     (case n of HBtree a ks vs \<Rightarrow> snd it < length ks \<and> ks ! snd it = key | _ \<Rightarrow> snd it = 0))"

definition hins_ok :: "hcfg \<Rightarrow> db \<Rightarrow> henv \<Rightarrow> bool \<Rightarrow> hnode \<Rightarrow> key \<Rightarrow> ptr \<Rightarrow> hins_result \<Rightarrow> bool" where
  "hins_ok hc db e root n key val r \<longleftrightarrow> hlevel (hi_node r) = hlevel n
     \<and> (case hi_split r of
          None \<Rightarrow> hwf hc db root (hi_node r) \<and> hitems db (hi_node r) = ins_list key val (hitems db n)
        | Some (k, m) \<Rightarrow> hwf hc db False (hi_node r) \<and> hwf hc db False m \<and> hlevel m = hlevel n
            \<and> k = hlast_key db (hi_node r) \<and> hitems db (hi_node r) @ hitems db m = ins_list key val (hitems db n))
     \<and> becomes hc e (hi_env r) [n] (res_nodes r) \<and> hpoints (res_nodes r) (hi_iter r) key"

lemma hpoints_blind: "hpoints [HBlind a t su nd] (Some a, 0) key"
  by (simp add: hpoints_def)

lemma hpoints_append: "hpoints (xs @ ys) it key \<longleftrightarrow> hpoints xs it key \<or> hpoints ys it key"
  by (auto simp: hpoints_def)

lemma becomes_blind: "becomes hc e e [HBlind a t su nd] [HBlind a t su' nd']"
  by (rule becomes_same) simp_all

text \<open>A descent may start with a step that keeps the items.\<close>

lemma hins_ok_after:
  assumes "hins_ok hc db e' root n' key val r" "becomes hc e e' [n] [n']" "hitems db n' = hitems db n" "hlevel n' = hlevel n"
  shows "hins_ok hc db e root n key val r"
  using assms becomes_trans [OF assms(2)] unfolding hins_ok_def by (auto split: option.splits)

section \<open>Ordinary leaves\<close>

text \<open>The ordinary leaf is inserted into as in the B+ tree.\<close>

definition leaf_cfg :: "hcfg \<Rightarrow> bcfg" where
  "leaf_cfg hc = \<lparr> leafslotmax = h_leafslots hc, innerslotmax = h_innerslots hc, allow_duplicates = False \<rparr>"

fun hleaf_of :: "(key, ptr) bnode \<Rightarrow> hnode" where
  "hleaf_of (Leaf a ks vs) = HBtree a ks vs"
| "hleaf_of (Inner l ks cs) = HFreed"

lemma leaf_cfg_simps [simp]:
  "leafslotmax (leaf_cfg hc) = h_leafslots hc" "innerslotmax (leaf_cfg hc) = h_innerslots hc" "allow_duplicates (leaf_cfg hc) = False"
  "minleafslots (leaf_cfg hc) = h_leafslots hc div 2"
  by (simp_all add: leaf_cfg_def minleafslots_def)

lemma insert_btree_leaf_bt:
  assumes new: "key \<notin> set ks" "sorted_wrt (<) ks"
  shows "\<exists>i. insert_leaf (leaf_cfg hc) (h_base e) a ks vs key val = i
    \<and> hi_node (insert_btree_leaf hc e a ks vs key val) = hleaf_of (i_node i)
    \<and> hi_split (insert_btree_leaf hc e a ks vs key val) = map_option (\<lambda>(k, m). (k, hleaf_of m)) (i_split i)
    \<and> hi_iter (insert_btree_leaf hc e a ks vs key val) = i_iter i
    \<and> hi_env (insert_btree_leaf hc e a ks vs key val)
       = (if length ks = h_leafslots hc then snd (allocate_btree_leaf hc e) \<lparr> h_base := new_leaf a (h_base e) \<rparr> else e)
    \<and> (\<exists>lk lv. i_node i = Leaf a lk lv) \<and> h_base (hi_env (insert_btree_leaf hc e a ks vs key val)) = i_env i \<and> i_done i
    \<and> (if length ks = h_leafslots hc then \<exists>k rk rv. i_split i = Some (k, Leaf (fresh (h_base e)) rk rv) else i_split i = None)"
proof -
  let ?i = "find_lower ks key"
  have nk: "\<not> (\<not> allow_duplicates (leaf_cfg hc) \<and> ?i < length ks \<and> key = ks ! ?i)" using find_lower_mem [OF new(2)] new(1) by blast
  show ?thesis
  proof (cases "length ks = h_leafslots hc")
    case False
    then have nf: "\<not> isfull (leaf_cfg hc) (Leaf a ks vs)" by simp
    show ?thesis
      unfolding insert_leaf_def insert_btree_leaf_def Let_def if_not_P [OF nk] if_not_P [OF False] if_not_P [OF nf] by simp
  next
    case True
    then have f: "isfull (leaf_cfg hc) (Leaf a ks vs)" by simp
    define mid where "mid = length ks div 2"
    define lk lv rk rv where "lk = take mid ks" and "lv = take mid vs" and "rk = drop mid ks" and "rv = drop mid vs"
    define e' where "e' = snd (allocate_btree_leaf hc e) \<lparr> h_base := new_leaf a (h_base e) \<rparr>"
    have sp: "split_leaf_node a ks vs (h_base e) = ((lk, lv), lk ! (mid - 1), (fresh (h_base e), rk, rv), new_leaf a (h_base e))"
      by (simp add: split_leaf_node_def Let_def allocate_leaf_def mid_def lk_def lv_def rk_def rv_def new_leaf_def)
    have sh: "split_btree_leaf_node hc a ks vs e = ((lk, lv), lk ! (mid - 1), (fresh (h_base e), rk, rv), e')"
      by (simp add: split_btree_leaf_node_def Let_def allocate_btree_leaf_def allocate_leaf_def mid_def lk_def lv_def rk_def rv_def
          new_leaf_def e'_def)
    show ?thesis
      unfolding insert_leaf_def insert_btree_leaf_def Let_def if_not_P [OF nk] if_P [OF True] if_P [OF f] sp sh prod.case e'_def [symmetric]
      by (cases "length lk \<le> ?i"; simp add: e'_def)
  qed
qed

lemma insert_btree_leaf_spec:
  assumes cfg: "hcfg_ok hc" and wf: "hwf hc db root (HBtree a ks vs)" and s: "sorted_items (zip ks vs)"
    and new: "key \<notin> fst ` set (zip ks vs)"
  shows "hins_ok hc db e root (HBtree a ks vs) key val (insert_btree_leaf hc e a ks vs key val)"
proof -
  have l: "length vs = length ks" "length ks \<le> h_leafslots hc" "root \<or> h_leafslots hc div 2 \<le> length ks" using wf by auto
  have mk: "map fst (zip ks vs) = ks" using l(1) by simp
  have sk: "sorted_wrt (<) ks" using s unfolding sorted_wrt_map [symmetric] mk .
  have nk: "key \<notin> set ks" using new unfolding set_map [symmetric] mk .
  let ?r = "insert_btree_leaf hc e a ks vs key val" and ?L = "h_leafslots hc"
  define i where "i = insert_leaf (leaf_cfg hc) (h_base e) a ks vs key val"
  have bc: "bcfg_ok (leaf_cfg hc)" using cfg by (simp add: bcfg_ok_def hcfg_ok_def)
  have ok: "ins_ok (leaf_cfg hc) root (Leaf a ks vs) key val i"
    unfolding i_def by (rule insert_leaf_spec [OF bc l(1) _ _ sk]) (use l in simp_all)
  have pt: "points_at (res_leaves i) (i_iter i) key"
    using insert_leaf_env [of "leaf_cfg hc" vs ks] bc l(1) unfolding i_def by (simp add: ins_env_def bcfg_ok_def)
  from insert_btree_leaf_bt [OF nk sk, of hc e a vs val, folded i_def] obtain
    r: "hi_node ?r = hleaf_of (i_node i)" "hi_split ?r = map_option (\<lambda>(k, m). (k, hleaf_of m)) (i_split i)" "hi_iter ?r = i_iter i"
      "hi_env ?r = (if length ks = ?L then snd (allocate_btree_leaf hc e) \<lparr> h_base := new_leaf a (h_base e) \<rparr> else e)"
    and sh: "\<exists>lk lv. i_node i = Leaf a lk lv"
      "if length ks = ?L then \<exists>k rk rv. i_split i = Some (k, Leaf (fresh (h_base e)) rk rv) else i_split i = None" by blast
  from sh(1) obtain lk lv where n: "i_node i = Leaf a lk lv" by blast
  show ?thesis
  proof (cases "length ks = ?L")
    case False
    then have sp: "i_split i = None" using sh(2) by simp
    have "hpoints (res_nodes ?r) (hi_iter ?r) key" using pt r(1,2,3) n sp
      by (auto simp: points_at_def hpoints_def res_leaves_def res_nodes_def)
    moreover have "becomes hc e (hi_env ?r) [HBtree a ks vs] (res_nodes ?r)"
      using r(1,2,4) n sp False by (simp add: res_nodes_def becomes_same)
    ultimately show ?thesis using ok n sp r(1,2) by (simp add: hins_ok_def ins_ok_def)
  next
    case True
    then obtain k rk rv where sp: "i_split i = Some (k, Leaf (fresh (h_base e)) rk rv)" using sh(2) by auto
    have rn: "res_nodes ?r = [HBtree a lk lv, HBtree (fresh (h_base e)) rk rv]" using r(1,2) n sp by (simp add: res_nodes_def)
    have "hpoints (res_nodes ?r) (hi_iter ?r) key" unfolding rn using pt r(3) n sp
      by (auto simp: points_at_def hpoints_def res_leaves_def)
    moreover have "becomes hc e (hi_env ?r) [HBtree a ks vs] (res_nodes ?r)"
      unfolding rn r(4) if_P [OF True] by (rule becomes_split_btree)
    ultimately show ?thesis using ok n sp r(1,2) by (simp add: hins_ok_def ins_ok_def last_key_def)
  qed
qed

section \<open>Blind leaves\<close>

lemma insert_blindi_leaf_spec:
  assumes cfg: "hcfg_ok hc" and wf: "hwf hc db False (HBlind a t su nd)"
    and k: "length (db kp) = h_key_len hc" "Key (db kp) \<notin> fst ` set (blind_list db nd)"
  shows "\<exists>r. insert_blindi_leaf hc db e False a t su nd kp = Some r
    \<and> hins_ok hc db e False (HBlind a t su nd) (Key (db kp)) kp r"
proof -
  let ?L = "h_leafslots hc" and ?key = "Key (db kp)"
  have t: "t \<in> classes" and su: "su = valid_len nd" and ok: "node_ok (blind_cfg hc t) db nd" using wf by auto
  show ?thesis
  proof (cases "su = ?L * t")
    case False
    have "valid_len nd \<le> ?L * t" using node_okD(3,4,5) [OF ok] by simp
    with False su have room: "valid_len nd < ?L * t" by simp
    from insert_blindi_spec [OF cfg t ok room k] obtain nd' where
      n: "insert_blindi hc db t su nd kp = Some (Suc su, nd')" "node_ok (blind_cfg hc t) db nd'" "valid_len nd' = Suc su"
        "blind_list db nd' = ins_list ?key kp (blind_list db nd)" unfolding su by blast
    then show ?thesis using False t
      by (simp add: insert_blindi_leaf_def hins_ok_def res_nodes_def becomes_blind hpoints_blind)
  next
    case full: True
    show ?thesis
    proof (cases "t = 8")
      case False
      then have t': "t \<in> {1, 2, 4}" "2 * t \<in> classes" using t by auto
      from grow_leaf_spec [OF cfg t'(1) ok, of a e] obtain nd1 e1 where
        g: "transfer_blindixtoblibdi2x hc False a t nd e = Some (fresh (h_base e), nd1, e1)" "node_ok (blind_cfg hc (2 * t)) db nd1"
          "valid_len nd1 = su" "blind_list db nd1 = blind_list db nd"
          "\<And>su su' nd''. becomes hc e e1 [HBlind a t su nd] [HBlind (fresh (h_base e)) (2 * t) su' nd'']" unfolding su by blast
      have "valid_len nd1 < ?L * (2 * t)" using g(3) full cfg t by (auto simp: hcfg_ok_def)
      from insert_blindi_spec [OF cfg t'(2) g(2) this k(1) k(2) [folded g(4)]] obtain nd2 where
        n: "insert_blindi hc db (2 * t) su nd1 kp = Some (Suc su, nd2)" "node_ok (blind_cfg hc (2 * t)) db nd2" "valid_len nd2 = Suc su"
          "blind_list db nd2 = ins_list ?key kp (blind_list db nd)" unfolding g(3,4) by blast
      then show ?thesis using g(1,5) full False t'
        by (simp add: insert_blindi_leaf_def BLINDI_MAX_MULTI_SIZE_def hins_ok_def res_nodes_def hpoints_blind)
    next
      case t8: True
      from split_blindi_spec [OF cfg t ok, of a e] full obtain small large e' where
        g: "split_blindi_nodex hc db a t su nd e = Some ((valid_len small, small), fst (last (blind_list db small)),
             (fresh (h_base e), valid_len large, large), e')" "node_ok (blind_cfg hc t) db small" "node_ok (blind_cfg hc t) db large"
          "blind_list db small @ blind_list db large = blind_list db nd"
          "valid_len small = ?L * t div 2" "valid_len large = ?L * t div 2"
          and b: "\<And>su sl sr nl nr. becomes hc e e' [HBlind a t su nd] [HBlind a t sl nl, HBlind (fresh (h_base e)) t sr nr]"
        unfolding su by blast
      have ne: "blind_list db small \<noteq> []" "blind_list db large \<noteq> []"
        using node_ptrs_length [OF g(2)] node_ptrs_length [OF g(3)] node_okD(2) [OF g(2)] node_okD(2) [OF g(3)] by auto
      have room: "valid_len small < ?L * t" "valid_len large < ?L * t" using g(5,6) cfg t by (auto simp: hcfg_ok_def)
      have kn: "?key \<notin> fst ` set (blind_list db small)" "?key \<notin> fst ` set (blind_list db large)"
        using k(2) unfolding g(4) [symmetric] by auto
      have "sorted_items (blind_list db small @ blind_list db large)" unfolding g(4) by (rule blind_items(1) [OF ok])
      then have s: "sorted_items (blind_list db small)" "\<forall>x \<in> set (blind_list db small). \<forall>y \<in> set (blind_list db large). fst x < fst y"
        unfolding sorted_items_append by blast+
      let ?split = "fst (last (blind_list db small))"
      show ?thesis
      proof (cases "?key > ?split")
        case True
        from insert_blindi_spec [OF cfg t g(3) room(2) k(1) kn(2)] obtain nd2 where
          n: "insert_blindi hc db t (valid_len large) large kp = Some (Suc (valid_len large), nd2)" "node_ok (blind_cfg hc t) db nd2"
            "valid_len nd2 = Suc (valid_len large)" "blind_list db nd2 = ins_list ?key kp (blind_list db large)" by blast
        have "\<forall>x \<in> set (blind_list db small). fst x < ?key"
          using True last_greatest [OF s(1)] by (blast intro: le_less_trans)
        then have i: "ins_list ?key kp (blind_list db nd) = blind_list db small @ blind_list db nd2"
          unfolding g(4) [symmetric] n(4) by (rule ins_list_left)
        show ?thesis using g(1,2) n True full t8 t i b
          by (simp add: insert_blindi_leaf_def BLINDI_MAX_MULTI_SIZE_def hins_ok_def res_nodes_def hpoints_def)
      next
        case False
        have nlt: "\<not> ?key > ?split" by (rule False)
        from insert_blindi_spec [OF cfg t g(2) room(1) k(1) kn(1)] obtain nd2 where
          n: "insert_blindi hc db t (valid_len small) small kp = Some (Suc (valid_len small), nd2)" "node_ok (blind_cfg hc t) db nd2"
            "valid_len nd2 = Suc (valid_len small)" "blind_list db nd2 = ins_list ?key kp (blind_list db small)" by blast
        have lt: "last (blind_list db nd2) = last (blind_list db small)" unfolding n(4)
          by (rule last_ins_list) (use s(1) ne False in \<open>auto simp: not_less\<close>)
        have "last (blind_list db small) \<in> set (blind_list db small)" by (rule last_in_set) (rule ne(1))
        then have "\<forall>x \<in> set (blind_list db large). ?key < fst x"
          using False s(2) by (meson le_less_trans not_less)
        then have i: "ins_list ?key kp (blind_list db nd) = blind_list db nd2 @ blind_list db large"
          unfolding g(4) [symmetric] n(4) by (rule ins_list_right)
        have vs: "valid_len small = length (node_ptrs small)" "0 < valid_len small" using node_ptrs_length [OF g(2)] node_okD(2) [OF g(2)] by auto
        have p: "get_key_ptr small (t * ?L div 2 - 1) = Some (key_ptr small ! (valid_len small - 1))"
          using g(5) node_okD(2,3) [OF g(2)] by (simp add: get_key_ptr_def mult.commute)
        have "last (node_ptrs small) = key_ptr small ! (valid_len small - 1)"
          using vs node_okD(2,3) [OF g(2)] by (subst last_conv_nth) (auto simp: node_ptrs_def)
        then have "Key (db (key_ptr small ! (valid_len small - 1))) = ?split" using ne by (simp add: last_map ptr_item_def)
        then have q: "\<not> ?key > Key (db (key_ptr small ! (valid_len small - 1)))" using nlt by simp
        show ?thesis using g(1,3) n full t8 t i b lt p q nlt
          by (simp add: insert_blindi_leaf_def BLINDI_MAX_MULTI_SIZE_def hins_ok_def res_nodes_def hpoints_def)
      qed
    qed
  qed
qed

end
