(* ===== verification/Hybrid_Insert.thy ===== *)
theory Hybrid_Insert
  imports Hybrid_Leaf
begin

text \<open>
  The descent of an insertion into the elastic index: the leaf it ends in, the sibling that is compressed on the
  way, and the inner nodes that take in the sibling of a split child.
\<close>

section \<open>The leaf of an insertion\<close>

text \<open>The root is a leaf only as long as nothing is compressed.\<close>

definition calm :: "bool \<Rightarrow> henv \<Rightarrow> bool" where
  "calm root e \<longleftrightarrow> (root \<longrightarrow> hybridstatus (h_stats e) \<notin> {SHOULD_COMPRESS, MUST_COMPRESS})"

definition new_key :: "hcfg \<Rightarrow> db \<Rightarrow> ptr \<Rightarrow> (key \<times> ptr) list \<Rightarrow> bool" where
  "new_key hc db kp xs \<longleftrightarrow> length (db kp) = h_key_len hc \<and> Key (db kp) \<notin> fst ` set xs"

lemma hy_insert_leaf_spec:
  assumes cfg: "hcfg_ok hc" and wf: "hwf hc db root n" "hlevel n = 0" and s: "sorted_items (hitems db n)" "backed hc db (hitems db n)"
    and k: "new_key hc db kp (hitems db n)" and calm: "calm root e"
  shows "\<exists>r. hy_insert_leaf hc db e root n kp kp = Some r \<and> hins_ok hc db e root n (Key (db kp)) kp r"
proof (cases n)
  case (HBtree a ks vs)
  let ?L = "h_leafslots hc"
  have k': "length (db kp) = h_key_len hc" "Key (db kp) \<notin> fst ` set (zip ks vs)" using k HBtree by (auto simp: new_key_def)
  show ?thesis
  proof (cases "hybridstatus (h_stats e) = MUST_COMPRESS \<or> (hybridstatus (h_stats e) = SHOULD_COMPRESS \<and> length ks = ?L)")
    case False
    then show ?thesis using insert_btree_leaf_spec [OF cfg wf(1) [unfolded HBtree] _ k'(2)] s(1) HBtree
      by (auto simp: hy_insert_leaf_def)
  next
    case True
    then have nr: "\<not> root" using calm by (auto simp: calm_def)
    have l: "length vs = length ks" "length ks \<le> ?L" "?L div 2 \<le> length ks" "6 \<le> ?L" using wf(1) nr HBtree cfg by (auto simp: hcfg_ok_def)
    define t where "t = (if length ks \<noteq> ?L then 1 else 2 :: nat)"
    have t: "t \<in> classes" "length ks < ?L * t" "length ks \<le> ?L * t" using l by (auto simp: t_def)
    have l2: "2 \<le> length ks" using l by linarith
    have "sorted_wrt (<) (map fst (zip ks vs))" using s(1) HBtree by (simp add: sorted_wrt_map)
    then have sk: "sorted_wrt (<) ks" using l(1) by simp
    from transfer_leaf_spec [OF cfg t(1) l(1) l2 t(3) sk] s(2) HBtree obtain nd e' where
      x: "transfer_btree_node_blindi hc t False a ks vs e = Some (fresh (h_base e), nd, e')" "node_ok (blind_cfg hc t) db nd"
        "valid_len nd = length ks" "blind_list db nd = zip ks vs"
        "becomes hc e e' [n] [HBlind (fresh (h_base e)) t (length ks) nd]" by fastforce
    have "hwf hc db False (HBlind (fresh (h_base e)) t (length ks) nd)" using t(1) x(2,3) by simp
    from insert_blindi_leaf_spec [OF cfg this k'(1) k'(2) [folded x(4)]] obtain r where
      r: "insert_blindi_leaf hc db e' False (fresh (h_base e)) t (length ks) nd kp = Some r"
        "hins_ok hc db e' False (HBlind (fresh (h_base e)) t (length ks) nd) (Key (db kp)) kp r" by blast
    have "hins_ok hc db e root n (Key (db kp)) kp r"
      using hins_ok_after [OF r(2) x(5)] x(4) nr HBtree by simp
    moreover have "hy_insert_leaf hc db e root n kp kp = Some r"
      using True x(1) r(1) nr unfolding HBtree hy_insert_leaf_def hnode.case if_P [OF True] t_def by simp
    ultimately show ?thesis by blast
  qed
next
  case (HBlind a t su nd)
  then have nr: "\<not> root" using wf(1) by simp
  have k': "length (db kp) = h_key_len hc" "Key (db kp) \<notin> fst ` set (blind_list db nd)" using k HBlind by (auto simp: new_key_def)
  have "hwf hc db False (HBlind a t su nd)" using wf(1) HBlind by simp
  from insert_blindi_leaf_spec [OF cfg this k', of e] show ?thesis using nr HBlind by (simp add: hy_insert_leaf_def)
next
  case (HInner l ac ks cs) then show ?thesis using wf by simp
next
  case HFreed then show ?thesis using wf by simp
qed

section \<open>Compressing a sibling\<close>

lemma compress_first_spec:
  assumes cfg: "hcfg_ok hc" and ch: "\<forall>n \<in> set cs. hlevel n = 0 \<and> hwf hc db False n \<and> sorted_items (hitems db n) \<and> backed hc db (hitems db n)"
    and len: "i + n \<le> length cs"
  shows "\<exists>cs' b e'. compress_first hc cs i n e = Some (cs', b, e') \<and> becomes hc e e' cs cs' \<and> length cs' = length cs
    \<and> (\<forall>j < length cs. hitems db (cs' ! j) = hitems db (cs ! j) \<and> hlevel (cs' ! j) = 0 \<and> hwf hc db False (cs' ! j)
         \<and> (\<forall>a t su nd. cs ! j = HBlind a t su nd \<longrightarrow> cs' ! j = cs ! j))"
  using len
proof (induction n arbitrary: i)
  case 0
  then show ?case using ch by (auto simp: becomes_refl intro!: exI)
next
  case (Suc n)
  then have i: "i < length cs" by simp
  then have c: "hlevel (cs ! i) = 0" "hwf hc db False (cs ! i)" "sorted_items (hitems db (cs ! i))" "backed hc db (hitems db (cs ! i))"
    using ch by auto
  show ?case
  proof (cases "cs ! i")
    case (HBlind a t su nd)
    then show ?thesis using Suc.IH [of "i + 1"] Suc.prems i by (simp add: get_def)
  next
    case (HBtree a ks vs)
    let ?L = "h_leafslots hc"
    have l: "length vs = length ks" "length ks \<le> ?L * 1" "?L div 2 \<le> length ks" "6 \<le> ?L" using c(2) HBtree cfg by (auto simp: hcfg_ok_def)
    have l2: "2 \<le> length ks" using l by linarith
    have "sorted_wrt (<) (map fst (zip ks vs))" using c(3) HBtree by (simp add: sorted_wrt_map)
    then have sk: "sorted_wrt (<) ks" using l(1) by simp
    from transfer_leaf_spec [OF cfg _ l(1) l2 l(2) sk] c(4) HBtree obtain nd e' where
      x: "transfer_btree_node_blindi hc 1 False a ks vs e = Some (fresh (h_base e), nd, e')" "node_ok (blind_cfg hc 1) db nd"
        "valid_len nd = length ks" "blind_list db nd = zip ks vs"
        "becomes hc e e' [cs ! i] [HBlind (fresh (h_base e)) 1 (length ks) nd]" by fastforce
    let ?n = "HBlind (fresh (h_base e)) 1 (length ks) nd" and ?A = "take i cs" and ?B = "drop (Suc i) cs"
    have cs: "?A @ [cs ! i] @ ?B = cs" "cs[i := ?n] = ?A @ [?n] @ ?B"
      using i by (simp_all add: id_take_nth_drop [symmetric] upd_conv_take_nth_drop)
    have "becomes hc e e' cs (cs[i := ?n])" using becomes_context [OF x(5), of ?A ?B] unfolding cs .
    moreover have "compress_first hc cs i (Suc n) e = Some (cs[i := ?n], True, e')" using x(1) i HBtree by (simp add: get_def)
    moreover have "hwf hc db False ?n" "hitems db ?n = hitems db (cs ! i)" using x(2,3,4) HBtree by simp_all
    ultimately show ?thesis using ch HBtree i
      by (intro exI [of _ "cs[i := ?n]"] exI [of _ True] exI [of _ e']) (auto simp: nth_list_update)
  next
    case (HInner l ac ks ms) then show ?thesis using c by simp
  next
    case HFreed then show ?thesis using c by simp
  qed
qed

lemma backed_concat: "backed hc db (concat xss) \<longleftrightarrow> (\<forall>xs \<in> set xss. backed hc db xs)"
  by (induction xss) auto

lemma sorted_concat_in: "sorted_items (concat xss) \<Longrightarrow> xs \<in> set xss \<Longrightarrow> sorted_items xs"
  by (induction xss) (auto simp: sorted_wrt_append)

lemma becomes_children:
  assumes "becomes hc e e' cs cs'"
  shows "becomes hc e e' [HInner l ac ks cs] [HInner l ac' ks' cs']"
proof -
  have "henv_ok hc e (xs @ concat (map haddrs cs) @ ys) (R + (add_mset KInner (sum_list (map kinds cs))))
      \<Longrightarrow> henv_ok hc e' (xs @ concat (map haddrs cs') @ ys) (R + (add_mset KInner (sum_list (map kinds cs'))))" for xs ys R
    using assms [unfolded becomes_def, THEN conjunct2, THEN conjunct2, THEN conjunct2, rule_format, of xs ys "add_mset KInner R"] by simp
  then show ?thesis using assms by (simp add: becomes_def map_concat comp_def)
qed

lemma compress_sibling_spec:
  assumes cfg: "hcfg_ok hc" and wf: "hwf hc db root (HInner l ac ks cs)" and s: "sorted_items (hitems db (HInner l ac ks cs))"
    and b: "backed hc db (hitems db (HInner l ac ks cs))" and slot: "slot < length cs"
  shows "\<exists>cs' ac' e'. compress_sibling hc e ac ks cs slot = Some (cs', ac', e')
    \<and> becomes hc e e' [HInner l ac ks cs] [HInner l ac' ks cs'] \<and> hwf hc db root (HInner l ac' ks cs')
    \<and> hitems db (HInner l ac' ks cs') = hitems db (HInner l ac ks cs) \<and> cs' ! slot = cs ! slot \<and> length cs' = length cs"
proof (cases "(\<exists>a t su nd. cs ! slot = HBlind a t su nd) \<and> hybridstatus (h_stats e) = MUST_COMPRESS \<and> \<not> ac")
  case False
  then have "compress_sibling hc e ac ks cs slot = Some (cs, ac, e)" by (auto simp: compress_sibling_def split: hnode.splits)
  then show ?thesis using wf by (auto simp: becomes_refl)
next
  case True
  then obtain a t su nd where hb: "cs ! slot = HBlind a t su nd" by blast
  have "Suc (hlevel (cs ! slot)) = l" using wf slot by simp
  then have l1: "l = 1" using hb by simp
  have sep: "hseps db ks cs" and "\<forall>n \<in> set cs. hlevel n = 0 \<and> hwf hc db False n" using wf l1 by auto
  then have ch: "\<forall>n \<in> set cs. hlevel n = 0 \<and> hwf hc db False n \<and> sorted_items (hitems db n) \<and> backed hc db (hitems db n)"
    using s b sorted_concat_in [of "map (hitems db) cs"] by (auto simp: backed_concat)
  have "0 + length ks \<le> length cs" using sep by (simp add: seps_by_def)
  from compress_first_spec [OF cfg ch this, of e] obtain cs' f e' where
    c: "compress_first hc cs 0 (length ks) e = Some (cs', f, e')" "becomes hc e e' cs cs'" "length cs' = length cs"
      "\<And>j. j < length cs \<Longrightarrow> hitems db (cs' ! j) = hitems db (cs ! j) \<and> hlevel (cs' ! j) = 0 \<and> hwf hc db False (cs' ! j)
         \<and> (\<forall>a t su nd. cs ! j = HBlind a t su nd \<longrightarrow> cs' ! j = cs ! j)" by blast
  have it: "map (hitems db) cs' = map (hitems db) cs" by (rule nth_equalityI) (use c(3,4) in auto)
  have "hseps db ks cs'" using sep c(3,4) by (simp add: seps_by_def)
  moreover have "\<forall>n \<in> set cs'. Suc (hlevel n) = l \<and> hwf hc db False n" using c(3,4) l1 by (auto simp: in_set_conv_nth)
  ultimately have w: "hwf hc db root (HInner l ac' ks cs')" for ac' using wf by simp
  have "compress_sibling hc e ac ks cs slot = Some (cs', ac \<or> \<not> f, e')" using True c(1) hb by (simp add: compress_sibling_def)
  then show ?thesis using w it c(3) c(4) [OF slot] hb becomes_children [OF c(2)] by simp
qed

section \<open>The inner nodes of an insertion\<close>

lemma h_insert_inner_full:
  assumes "length ks = h_innerslots hc"
  shows "h_insert_inner hc e l ac ks cs slot newkey newchild =
    (case split_put (HInner l ac) (HInner l False) ks cs slot newkey newchild of (n, k, m) \<Rightarrow> (n, Some (k, m), allocate_hinner hc e))"
proof -
  define mid lk lc rk rc where "mid = split_mid (length ks) slot" and "lk = take mid ks" and "lc = take (mid + 1) cs"
    and "rk = drop (mid + 1) ks" and "rc = drop (mid + 1) cs"
  note d = lk_def lc_def rk_def rc_def
  have sp: "h_split_inner_node hc ks cs slot e = ((lk, lc), ks ! mid, (rk, rc), allocate_hinner hc e)"
    by (simp add: h_split_inner_node_def Let_def mid_def split_mid_def d)
  show ?thesis
    unfolding h_insert_inner_def if_P [OF assms] sp split_put_def Let_def prod.case mid_def [symmetric] d [symmetric]
    by (cases "slot = length lk + 1 \<and> length lk < length rk"; cases "slot \<ge> length lk + 1"; simp only: if_True if_False simp_thms prod.case)
qed

lemma hsplit_wf:
  assumes s: "hseps db ks cs" and ch: "0 < l" "\<forall>n \<in> set cs. Suc (hlevel n) = l \<and> hwf hc db False n"
    and len: "length ks = Suc (h_innerslots hc)"
    and p: "h_innerslots hc div 2 \<le> p" "p + h_innerslots hc div 2 \<le> h_innerslots hc" "0 < p" "p < h_innerslots hc"
  shows "hwf hc db False (HInner l ac (take p ks) (take (Suc p) cs))"
    and "hwf hc db False (HInner l ac' (drop (Suc p) ks) (drop (Suc p) cs))"
    and "ks ! p = hlast_key db (HInner l ac (take p ks) (take (Suc p) cs))"
proof -
  have pl: "p \<le> length ks" "Suc p \<le> length ks" "p < length ks" "p < length cs" using p len s by (auto simp: seps_by_def)
  show "hwf hc db False (HInner l ac (take p ks) (take (Suc p) cs))"
    using seps_by_take [OF s pl(1)] ch p len by (auto dest: in_set_takeD)
  show "hwf hc db False (HInner l ac' (drop (Suc p) ks) (drop (Suc p) cs))"
    using seps_by_drop [OF s pl(2)] ch p len by (auto dest: in_set_dropD)
  have "\<forall>n \<in> set cs. hwf hc db False n" using ch by blast
  from hn.greatest_concat [OF this pl(4)] show "ks ! p = hlast_key db (HInner l ac (take p ks) (take (Suc p) cs))"
    using s pl(3) by (simp add: seps_by_def)
qed

lemma becomes_replace:
  assumes "becomes hc e e' [cs ! i] ns" "i < length cs"
  shows "becomes hc e e' [HInner l ac ks cs] [HInner l ac' ks' (take i cs @ ns @ drop (Suc i) cs)]"
  using becomes_children [OF becomes_context [OF assms(1), of "take i cs" "drop (Suc i) cs"]] assms(2)
  by (simp add: id_take_nth_drop [symmetric])

lemma hpoints_child: "hpoints ns it key \<Longrightarrow> set ns \<subseteq> set cs \<Longrightarrow> hpoints [HInner l ac ks cs] it key"
  by (force simp: hpoints_def)

lemma hinsert_node_spec:
  assumes cfg: "hcfg_ok hc" and wf: "hwf hc db root (HInner l ac ks cs)" and s: "sorted_items (hitems db (HInner l ac ks cs))"
    and i_def: "i = find_lower ks key" and r: "hins_ok hc db e False (cs ! i) key val r"
  defines "res \<equiv> (case hi_split r of
              None \<Rightarrow> r \<lparr> hi_node := HInner l ac ks (cs[i := hi_node r]) \<rparr>
            | Some (newkey, newchild) \<Rightarrow>
                (let (n, split, e) = h_insert_inner hc (hi_env r) l ac ks (cs[i := hi_node r]) i newkey newchild
                 in r \<lparr> hi_node := n, hi_split := split, hi_env := e \<rparr>))"
  shows "hins_ok hc db e root (HInner l ac ks cs) key val res"
proof -
  have sep: "hseps db ks cs" and ll: "0 < l" and ch: "\<forall>n \<in> set cs. Suc (hlevel n) = l \<and> hwf hc db False n" using wf by auto
  note p = hinner_parts [OF wf s]
  note i = hn.find_bounds(4) [OF p i_def] and ic = hn.find_bounds(5) [OF p i_def]
  have w: "Suc (hlevel (cs ! i)) = l" using ch ic by auto
  let ?A = "take i cs" and ?B = "drop (Suc i) cs" and ?N = "HInner l ac ks cs"
  have rr: "hlevel (hi_node r) = hlevel (cs ! i)" "hpoints (res_nodes r) (hi_iter r) key" using r by (auto simp: hins_ok_def)
  have bc: "becomes hc e (hi_env r) [?N] [HInner l ac ks' (?A @ res_nodes r @ ?B)]" for ks'
    by (rule becomes_replace) (use r ic in \<open>auto simp: hins_ok_def\<close>)
  show ?thesis
  proof (cases "hi_split r")
    case None
    then have n: "hwf hc db False (hi_node r)" "hitems db (hi_node r) = ins_list key val (hitems db (cs ! i))" using r by (auto simp: hins_ok_def)
    note c = hn.replace_child [OF p i_def n(2)]
    have rn: "res_nodes r = [hi_node r]" "?A @ res_nodes r @ ?B = cs[i := hi_node r]" using None ic by (simp_all add: res_nodes_def upd_conv_take_nth_drop)
    have "hwf hc db root (HInner l ac ks (cs[i := hi_node r]))"
      using wf n(1) rr(1) w c by (auto dest!: set_update_subset_insert [THEN subsetD])
    moreover have "hpoints [HInner l ac ks (cs[i := hi_node r])] (hi_iter r) key"
      by (rule hpoints_child [OF rr(2)]) (use ic in \<open>simp add: rn(1) set_update_memI\<close>)
    ultimately show ?thesis using None c bc rn by (simp add: res_def hins_ok_def res_nodes_def)
  next
    case (Some km)
    obtain k m where km: "km = (k, m)" by (cases km)
    have n: "hwf hc db False (hi_node r)" "hwf hc db False m" "hlevel m = hlevel (cs ! i)" "k = hlast_key db (hi_node r)"
        "hitems db (hi_node r) @ hitems db m = ins_list key val (hitems db (cs ! i))"
      using r Some by (auto simp: hins_ok_def km)
    let ?ks = "put_slot ks i k" and ?cs = "put_slot (cs[i := hi_node r]) (Suc i) m"
    note c = hn.split_child [OF p i_def n(5,2,4)]
    have sp: "hseps db ?ks ?cs" and ins': "concat (map (hitems db) ?cs) = ins_list key val (hitems db ?N)" using c by simp_all
    have chs: "\<forall>n \<in> set ?cs. Suc (hlevel n) = l \<and> hwf hc db False n"
      using set_put_update [of cs i "hi_node r" "Suc i" m] ch n(1,2,3) rr(1) w by fastforce
    have rn: "res_nodes r = [hi_node r, m]" "?A @ res_nodes r @ ?B = ?cs" using Some km ic
      by (simp_all add: res_nodes_def put_slot_def take_Suc_conv_app_nth)
    have hp: "hpoints [HInner l ac ks' ?cs] (hi_iter r) key" for ks'
      by (rule hpoints_child [OF rr(2)]) (simp add: rn(2) [symmetric], simp add: rn(1))
    have len: "length ?ks = Suc (length ks)" using i by simp
    show ?thesis
    proof (cases "length ks = h_innerslots hc")
      case False
      then have "h_insert_inner hc (hi_env r) l ac ks (cs[i := hi_node r]) i k m = (HInner l ac ?ks ?cs, None, hi_env r)"
        by (simp add: h_insert_inner_def)
      moreover have "hwf hc db root (HInner l ac ?ks ?cs)" using wf sp ll chs len False by auto
      ultimately show ?thesis using Some km ins' bc [of ?ks] hp [of ?ks] rn(2) by (simp add: res_def hins_ok_def res_nodes_def)
    next
      case True
      have l4: "length (cs[i := hi_node r]) = Suc (length ks)" "4 \<le> length ks" using sep cfg True by (auto simp: seps_by_def hcfg_ok_def)
      from split_put_point [OF l4 i refl refl, of "HInner l ac" "HInner l False" k m] obtain q where
        q: "split_put (HInner l ac) (HInner l False) ks (cs[i := hi_node r]) i k m =
            (HInner l ac (take q ?ks) (take (Suc q) ?cs), ?ks ! q, HInner l False (drop (Suc q) ?ks) (drop (Suc q) ?cs))"
          "length ks div 2 \<le> q" "q + length ks div 2 \<le> length ks" "0 < q" "q < length ks" by blast
      let ?l = "HInner l ac (take q ?ks) (take (Suc q) ?cs)" and ?r = "HInner l False (drop (Suc q) ?ks) (drop (Suc q) ?cs)"
      have len': "length ?ks = Suc (h_innerslots hc)" using len True by simp
      note sw = hsplit_wf [OF sp ll chs len' q(2-5) [unfolded True]]
      have cc: "concat (map f (take (Suc q) ?cs)) @ concat (map f (drop (Suc q) ?cs)) = concat (map f ?cs)" for f :: "hnode \<Rightarrow> 'b list"
        by (simp flip: concat_append map_append)
      have kk: "sum_list (map kinds (take (Suc q) ?cs)) + sum_list (map kinds (drop (Suc q) ?cs)) = sum_list (map kinds ?cs)"
        by (simp flip: sum_list_append map_append)
      have "becomes hc (hi_env r) (allocate_hinner hc (hi_env r)) [HInner l ac ?ks ?cs] [?l, ?r]"
        by (rule becomes_hinner) (use kk cc [of hleaves] in \<open>simp_all add: map_append [symmetric] del: map_append\<close>)
      with bc [of ?ks] have "becomes hc e (allocate_hinner hc (hi_env r)) [?N] [?l, ?r]" unfolding rn(2) by (rule becomes_trans)
      moreover have "hpoints [?l, ?r] (hi_iter r) key" using hp [of ?ks] cc [of hleaves] unfolding hpoints_def by simp
      moreover have "h_insert_inner hc (hi_env r) l ac ks (cs[i := hi_node r]) i k m = (?l, Some (?ks ! q, ?r), allocate_hinner hc (hi_env r))"
        unfolding h_insert_inner_full [OF True] q(1) by simp
      ultimately show ?thesis using Some km ins' sw cc [of "hitems db"] by (simp add: res_def hins_ok_def res_nodes_def)
    qed
  qed
qed

lemma hy_insert_descend_spec:
  assumes cfg: "hcfg_ok hc" and k: "length (db kp) = h_key_len hc"
    and "hwf hc db root n" "sorted_items (hitems db n)" "backed hc db (hitems db n)" "Key (db kp) \<notin> fst ` set (hitems db n)"
    and "root \<longrightarrow> hlevel n \<noteq> 0 \<or> calm True e"
  shows "\<exists>r. hy_insert_descend hc db e root n kp kp = Some r \<and> hins_ok hc db e root n (Key (db kp)) kp r"
  using assms(3-)
proof (induction n arbitrary: root e)
  case (HBtree a ks vs)
  then show ?case using hy_insert_leaf_spec [OF cfg, of db root "HBtree a ks vs" kp e] k by (simp add: calm_def new_key_def)
next
  case (HBlind a t su nd)
  then show ?case using hy_insert_leaf_spec [OF cfg, of db root "HBlind a t su nd" kp e] k by (simp add: calm_def new_key_def)
next
  case (HInner l ac ks cs)
  let ?key = "Key (db kp)"
  let ?i = "find_lower ks ?key"
  note p = hinner_parts [OF HInner.prems(1,2)]
  note ic = hn.find_bounds(5) [OF p refl, of ?key] and si = hn.find_bounds(3) [OF p refl, of ?key]
  from compress_sibling_spec [OF cfg HInner.prems(1,2,3) ic, of e] obtain cs' ac' e' where
    c: "compress_sibling hc e ac ks cs ?i = Some (cs', ac', e')" "becomes hc e e' [HInner l ac ks cs] [HInner l ac' ks cs']"
      "hwf hc db root (HInner l ac' ks cs')" "hitems db (HInner l ac' ks cs') = hitems db (HInner l ac ks cs)"
      "cs' ! ?i = cs ! ?i" "length cs' = length cs" by blast
  have w: "hwf hc db False (cs ! ?i)" using p(2) ic by simp
  have b: "backed hc db (hitems db (cs ! ?i))" using HInner.prems(3) concat_map_split [OF ic, of "hitems db"] by simp
  have nk: "?key \<notin> fst ` set (hitems db (cs ! ?i))" using HInner.prems(4) hn.ins_child(3) [OF p refl, of ?key] by simp
  have "False \<longrightarrow> hlevel (cs ! ?i) \<noteq> 0 \<or> calm True e'" by simp
  from HInner.IH [OF nth_mem [OF ic] w si b nk this] obtain r where
    r: "hy_insert_descend hc db e' False (cs ! ?i) kp kp = Some r" "hins_ok hc db e' False (cs ! ?i) ?key kp r" by blast
  define res where "res = (case hi_split r of
              None \<Rightarrow> r \<lparr> hi_node := HInner l ac' ks (cs'[?i := hi_node r]) \<rparr>
            | Some (newkey, newchild) \<Rightarrow>
                (let (n, split, e) = h_insert_inner hc (hi_env r) l ac' ks (cs'[?i := hi_node r]) ?i newkey newchild
                 in r \<lparr> hi_node := n, hi_split := split, hi_env := e \<rparr>))"
  have s': "sorted_items (hitems db (HInner l ac' ks cs'))" using HInner.prems(2) c(4) by simp
  have "hins_ok hc db e' root (HInner l ac' ks cs') ?key kp res"
    unfolding res_def by (rule hinsert_node_spec [OF cfg c(3) s' refl]) (use r(2) c(5) in simp)
  then have "hins_ok hc db e root (HInner l ac ks cs) ?key kp res"
    by (rule hins_ok_after [OF _ c(2,4)]) simp
  moreover have "hy_insert_descend hc db e root (HInner l ac ks cs) kp kp = Some res"
    using ic c(1) r(1) by (simp add: res_def Let_def)
  ultimately show ?case by blast
qed simp

end
