(* ===== verification/Hybrid_Tree.thy ===== *)
theory Hybrid_Tree
  imports Hybrid_Insert
begin

text \<open>
  The invariant of the whole index, and that an insertion of a new key keeps it and adds exactly this item.
\<close>

section \<open>The invariant of the elastic index\<close>

definition hy_items :: "db \<Rightarrow> htree \<Rightarrow> (key \<times> ptr) list" where
  "hy_items db t = (case h_root t of None \<Rightarrow> [] | Some r \<Rightarrow> hitems db r)"

definition hy_root_ok :: "hcfg \<Rightarrow> db \<Rightarrow> henv \<Rightarrow> hnode \<Rightarrow> bool" where
  "hy_root_ok hc db e r \<longleftrightarrow> hwf hc db True r \<and> sorted_items (hitems db r) \<and> backed hc db (hitems db r)
     \<and> henv_ok hc e (haddrs r) (kinds r) \<and> (hlevel r = 0 \<longrightarrow> hybridstatus (h_stats e) = CONTINUE)"

definition hy_ok :: "hcfg \<Rightarrow> db \<Rightarrow> htree \<Rightarrow> bool" where
  "hy_ok hc db t \<longleftrightarrow> hcfg_ok hc \<and> h_leafslots hc \<le> unat (limit2ShouldCompress (h_stats (h_env t)))
     \<and> hybridstatus (h_stats (h_env t)) \<noteq> MAY_UNCOMPRESS
     \<and> itemcount (m_stats (h_base (h_env t))) = length (hy_items db t)
     \<and> (case h_root t of None \<Rightarrow> henv_ok hc (h_env t) [] {#} \<and> hybridstatus (h_stats (h_env t)) = CONTINUE
        | Some r \<Rightarrow> hy_root_ok hc db (h_env t) r)"

lemma set_ins_list: "k \<notin> fst ` set xs \<Longrightarrow> set (ins_list k v xs) = insert (k, v) (set xs)"
  by (induction xs) (auto split: if_splits)

lemma backed_ins_list:
  "k \<notin> fst ` set xs \<Longrightarrow> backed hc db (ins_list k v xs) \<longleftrightarrow> k = Key (db v) \<and> length (db v) = h_key_len hc \<and> backed hc db xs"
  by (simp add: backed_def set_ins_list ptr_item_def)

lemma hlevel_zero: "hwf hc db True r \<Longrightarrow> hlevel r = 0 \<Longrightarrow> length (hitems db r) \<le> h_leafslots hc"
  by (cases r) auto

lemma status_step_frame [simp]:
  "btreeleaves (status_step s n) = btreeleaves s" "blindileaves (status_step s n) = blindileaves s"
  "blindinodes (status_step s n) = blindinodes s" "indexcapacity (status_step s n) = indexcapacity s"
  "limit2ShouldCompress (status_step s n) = limit2ShouldCompress s"
  by (simp_all add: status_step_def split: hybrid_status.splits)

lemma status_step_continue: "hybridstatus s = CONTINUE \<Longrightarrow> n \<le> unat (limit2ShouldCompress s) \<Longrightarrow> status_step s n = s"
  by (simp add: status_step_def)

lemma status_step_may: "hybridstatus s \<noteq> MAY_UNCOMPRESS \<Longrightarrow> hybridstatus (status_step s n) \<noteq> MAY_UNCOMPRESS"
  by (auto simp: status_step_def split: hybrid_status.splits)

text \<open>The limits and the status are those of before; \<open>limit2MustCompress\<close> sinks with every new root.\<close>

definition same_course :: "hybrid_stats \<Rightarrow> hybrid_stats \<Rightarrow> bool" where
  "same_course s s' \<longleftrightarrow> hybridstatus s' = hybridstatus s \<and> limit2ShouldCompress s' = limit2ShouldCompress s
     \<and> limit2ReturmFromShouldCompress s' = limit2ReturmFromShouldCompress s"

lemma same_courseD: "same_course s s' \<Longrightarrow> hybridstatus s' = hybridstatus s" "same_course s s' \<Longrightarrow> limit2ShouldCompress s' = limit2ShouldCompress s"
  "same_course s s' \<Longrightarrow> limit2ReturmFromShouldCompress s' = limit2ReturmFromShouldCompress s"
  by (simp_all add: same_course_def)

section \<open>The root of an insertion\<close>

text \<open>What the descent leaves, with the new root if the old one was split.\<close>

lemma hy_grow_root:
  assumes cfg: "hcfg_ok hc" and r: "hins_ok hc db e True n key val r" and s: "sorted_items (hitems db n)" and k: "key \<notin> fst ` set (hitems db n)"
    and env: "henv_ok hc e (haddrs n) (kinds n)"
  shows "\<exists>root e'. (case hi_split r of
              None \<Rightarrow> Some (hi_node r, hi_env r)
            | Some (newkey, newchild) \<Rightarrow>
                (if hi_node r = HFreed then None
                 else (let e = allocate_hinner hc (hi_env r) in
                   Some (HInner (hlevel (hi_node r) + 1) False [newkey] [hi_node r, newchild],
                     e \<lparr> h_stats := (h_stats e) \<lparr> limit2MustCompress := limit2MustCompress (h_stats e) - sizeof_inner hc \<rparr> \<rparr>))))
           = Some (root, e')
     \<and> hwf hc db True root \<and> hitems db root = ins_list key val (hitems db n) \<and> henv_ok hc e' (haddrs root) (kinds root)
     \<and> same_course (h_stats e) (h_stats e')
     \<and> itemcount (m_stats (h_base e')) = itemcount (m_stats (h_base e)) \<and> hlevel n \<le> hlevel root
     \<and> hpoints [root] (hi_iter r) key \<and> (\<exists>M. kinds root = M + sum_list (map kinds (res_nodes r)) \<and> set_mset M \<subseteq> {KInner})"
proof -
  have b: "becomes hc e (hi_env r) [n] (res_nodes r)" "hpoints (res_nodes r) (hi_iter r) key" "hlevel (hi_node r) = hlevel n"
    using r by (auto simp: hins_ok_def)
  have c: "control (h_stats (hi_env r)) = control (h_stats e)" "itemcount (m_stats (h_base (hi_env r))) = itemcount (m_stats (h_base e))"
    "henv_ok hc (hi_env r) (concat (map haddrs (res_nodes r))) (sum_list (map kinds (res_nodes r)))"
    using b(1) env unfolding becomes_def by (auto dest!: spec [of _ "[]"] spec [of _ "{#}"])
  have st: "same_course (h_stats e) (h_stats (hi_env r))" using c(1) by (auto simp: control_def same_course_def)
  show ?thesis
  proof (cases "hi_split r")
    case None
    then show ?thesis using r c st b
      by (intro exI [of _ "hi_node r"] exI [of _ "hi_env r"] conjI exI [of _ "{#}"]) (simp_all add: hins_ok_def res_nodes_def)
  next
    case (Some km)
    obtain k m where km: "km = (k, m)" by (cases km)
    have n: "hwf hc db False (hi_node r)" "hwf hc db False m" "hlevel m = hlevel n" "k = hlast_key db (hi_node r)"
        "hitems db (hi_node r) @ hitems db m = ins_list key val (hitems db n)"
      using r Some by (auto simp: hins_ok_def km)
    have nf: "hi_node r \<noteq> HFreed" using n(1) by auto
    let ?root = "HInner (hlevel (hi_node r) + 1) False [k] [hi_node r, m]"
    define e1 where "e1 = allocate_hinner hc (hi_env r)"
    define e' where "e' = e1 \<lparr> h_stats := (h_stats e1) \<lparr> limit2MustCompress := limit2MustCompress (h_stats e1) - sizeof_inner hc \<rparr> \<rparr>"
    have rn: "res_nodes r = [hi_node r, m]" using Some km by (simp add: res_nodes_def)
    have "becomes hc (hi_env r) e1 [hi_node r, m] [?root]" unfolding e1_def by (rule becomes_hinner) simp_all
    then have "henv_ok hc e1 (haddrs ?root) (kinds ?root)" "itemcount (m_stats (h_base e1)) = itemcount (m_stats (h_base e))"
      using c(2,3) rn unfolding becomes_def by (auto dest!: spec [of _ "[]"] spec [of _ "{#}"])
    then have "henv_ok hc e' (haddrs ?root) (kinds ?root)" "itemcount (m_stats (h_base e')) = itemcount (m_stats (h_base e))"
      by (simp_all add: henv_ok_def acct_def e'_def)
    moreover have "same_course (h_stats e) (h_stats e')" using st by (simp add: e'_def e1_def allocate_hinner_def same_course_def)
    moreover have "kinds ?root = {# KInner #} + sum_list (map kinds (res_nodes r))" by (simp add: rn)
    moreover have "hwf hc db True ?root" using n cfg b(3) by (simp add: seps_by_def hcfg_ok_def)
    moreover have "hpoints [?root] (hi_iter r) key" by (rule hpoints_child [OF b(2)]) (simp add: rn)
    ultimately show ?thesis using Some km n(5) nf b(3)
      by (intro exI [of _ ?root] exI [of _ e'] conjI exI [of _ "{# KInner #}"]) (simp_all add: e'_def e1_def Let_def)
  qed
qed

lemma hy_ok_root: "hy_ok hc db t \<Longrightarrow> h_root t = Some r \<Longrightarrow> hy_root_ok hc db (h_env t) r"
  by (simp add: hy_ok_def)

lemma hy_items_sorted: "hy_ok hc db t \<Longrightarrow> sorted_items (hy_items db t) \<and> backed hc db (hy_items db t)"
  by (auto simp: hy_ok_def hy_items_def hy_root_ok_def split: option.splits)

text \<open>The first insertion makes an ordinary leaf the root.\<close>

definition first_leaf :: "hcfg \<Rightarrow> henv \<Rightarrow> addr \<times> henv" where
  "first_leaf hc e = (let (a, e) = allocate_btree_leaf hc e
     in (a, e \<lparr> h_base := (h_base e) \<lparr> m_headleaf := Some a, m_tailleaf := Some a \<rparr>,
                h_stats := (h_stats e) \<lparr> limit2MustCompress := limit2MustCompress (h_stats e) - sizeof_node hc \<rparr> \<rparr>))"

lemma first_leaf_spec:
  assumes "henv_ok hc e [] {#}"
  shows "\<exists>a e'. first_leaf hc e = (a, e') \<and> henv_ok hc e' [a] {# KBtree #} \<and> same_course (h_stats e) (h_stats e')
    \<and> itemcount (m_stats (h_base e')) = itemcount (m_stats (h_base e))"
  using assms by (auto simp: first_leaf_def allocate_btree_leaf_def allocate_leaf_def Let_def henv_ok_def acct_def hchain_def same_course_def)

lemma hy_insert_first:
  assumes ok: "hy_ok hc db t" and root: "h_root t = None" and k: "new_key hc db kp (hy_items db t)"
  shows "\<exists>t' a. hy_insert hc db t kp kp = Some (t', (Some a, 0), True) \<and> hy_ok hc db t' \<and> hy_items db t' = [(Key (db kp), kp)]
    \<and> h_root t' = Some (HBtree a [Key (db kp)] [kp])
    \<and> (\<exists>s. same_course (h_stats (h_env t)) s \<and> h_stats (h_env t') = status_step s 1)"
proof -
  have cfg: "hcfg_ok hc" and lim: "h_leafslots hc \<le> unat (limit2ShouldCompress (h_stats (h_env t)))"
    and env: "henv_ok hc (h_env t) [] {#}" "hybridstatus (h_stats (h_env t)) = CONTINUE" "itemcount (m_stats (h_base (h_env t))) = 0"
    using ok root by (simp_all add: hy_ok_def hy_items_def)
  from first_leaf_spec [OF env(1)] obtain a e where e: "first_leaf hc (h_env t) = (a, e)" "henv_ok hc e [a] {# KBtree #}"
    "same_course (h_stats (h_env t)) (h_stats e)" "itemcount (m_stats (h_base e)) = 0" using env by auto
  have e': "hybridstatus (h_stats e) = CONTINUE" "limit2ShouldCompress (h_stats e) = limit2ShouldCompress (h_stats (h_env t))"
    using same_courseD [OF e(3)] env(2) by simp_all
  have l: "0 \<noteq> h_leafslots hc" "1 \<le> unat (limit2ShouldCompress (h_stats e))" using cfg lim e'(2) by (auto simp: hcfg_ok_def)
  let ?b = "(h_base e) \<lparr> m_stats := m_stats (h_base e) \<lparr> itemcount := 1 \<rparr> \<rparr>"
  let ?t = "\<lparr> h_root = Some (HBtree a [Key (db kp)] [kp]), h_env = \<lparr> h_base = ?b, h_stats = h_stats e \<rparr> \<rparr>"
  have leaf: "hy_insert_descend hc db e True (HBtree a [] []) kp kp =
      Some \<lparr> hi_node = HBtree a [Key (db kp)] [kp], hi_split = None, hi_iter = (Some a, 0), hi_env = e \<rparr>"
    using e'(1) l(1) by (simp add: hy_insert_leaf_def insert_btree_leaf_def put_slot_def)
  have st: "status_step (h_stats e) 1 = h_stats e" by (rule status_step_continue [OF e'(1) l(2)])
  have run: "hy_insert hc db t kp kp = Some (?t, (Some a, 0), True)"
    using e(1) leaf st e(4) by (simp add: hy_insert_def root first_leaf_def Let_def split: prod.splits)
  have env': "henv_ok hc \<lparr> h_base = ?b, h_stats = h_stats e \<rparr> [a] {# KBtree #}"
    using e(2) hchain_cong [of ?b "h_base e" "[a]"] by (simp add: henv_ok_def acct_def)
  have "hy_ok hc db ?t" using cfg lim e' env' k l(1)
    by (simp add: hy_ok_def hy_items_def hy_root_ok_def ptr_item_def new_key_def)
  then show ?thesis using run e(3) st by (intro exI [of _ ?t] exI [of _ a]) (auto simp: hy_items_def intro!: exI [of _ "h_stats e"])
qed

theorem hy_insert_spec:
  assumes ok: "hy_ok hc db t" and k: "new_key hc db kp (hy_items db t)"
  shows "\<exists>t' it r. hy_insert hc db t kp kp = Some (t', it, True) \<and> hy_ok hc db t'
    \<and> hy_items db t' = ins_list (Key (db kp)) kp (hy_items db t) \<and> h_root t' = Some r \<and> hpoints [r] it (Key (db kp))
    \<and> (\<exists>s. same_course (h_stats (h_env t)) s \<and> h_stats (h_env t') = status_step s (Suc (length (hy_items db t))))
    \<and> (\<forall>n. h_root t = Some n \<longrightarrow> (\<exists>x M. hy_insert_descend hc db (h_env t) True n kp kp = Some x \<and> kinds r = M + sum_list (map kinds (res_nodes x)) \<and> set_mset M \<subseteq> {KInner}))"
proof (cases "h_root t")
  case None
  then have e: "hy_items db t = []" by (simp add: hy_items_def)
  from hy_insert_first [OF ok None k] obtain t' a where
    f: "hy_insert hc db t kp kp = Some (t', (Some a, 0), True)" "hy_ok hc db t'" "hy_items db t' = [(Key (db kp), kp)]"
      "h_root t' = Some (HBtree a [Key (db kp)] [kp])" "\<exists>s. same_course (h_stats (h_env t)) s \<and> h_stats (h_env t') = status_step s 1" by blast
  then show ?thesis using e None
    by (intro exI [of _ t'] exI [of _ "(Some a, 0)"] exI [of _ "HBtree a [Key (db kp)] [kp]"]) (simp add: hpoints_def)
next
  case (Some n)
  let ?key = "Key (db kp)" and ?e = "h_env t"
  have cfg: "hcfg_ok hc" and lim: "h_leafslots hc \<le> unat (limit2ShouldCompress (h_stats ?e))" and nm: "hybridstatus (h_stats ?e) \<noteq> MAY_UNCOMPRESS"
    and count: "itemcount (m_stats (h_base ?e)) = length (hitems db n)"
    and rt: "hwf hc db True n" "sorted_items (hitems db n)" "backed hc db (hitems db n)" "henv_ok hc ?e (haddrs n) (kinds n)"
      "hlevel n = 0 \<longrightarrow> hybridstatus (h_stats ?e) = CONTINUE"
    using ok Some by (simp_all add: hy_ok_def hy_items_def hy_root_ok_def)
  have k': "length (db kp) = h_key_len hc" "?key \<notin> fst ` set (hitems db n)" using k Some by (simp_all add: new_key_def hy_items_def)
  have "True \<longrightarrow> hlevel n \<noteq> 0 \<or> calm True ?e" using rt(5) by (auto simp: calm_def)
  from hy_insert_descend_spec [OF cfg k'(1) rt(1-3) k'(2) this] obtain r where
    r: "hy_insert_descend hc db ?e True n kp kp = Some r" "hins_ok hc db ?e True n ?key kp r" by blast
  from hy_grow_root [OF cfg r(2) rt(2) k'(2) rt(4)] obtain root e' where
    g: "(case hi_split r of
              None \<Rightarrow> Some (hi_node r, hi_env r)
            | Some (newkey, newchild) \<Rightarrow>
                (if hi_node r = HFreed then None
                 else (let e = allocate_hinner hc (hi_env r) in
                   Some (HInner (hlevel (hi_node r) + 1) False [newkey] [hi_node r, newchild],
                     e \<lparr> h_stats := (h_stats e) \<lparr> limit2MustCompress := limit2MustCompress (h_stats e) - sizeof_inner hc \<rparr> \<rparr>))))
           = Some (root, e')"
      "hwf hc db True root" "hitems db root = ins_list ?key kp (hitems db n)" "henv_ok hc e' (haddrs root) (kinds root)"
      "same_course (h_stats ?e) (h_stats e')" "itemcount (m_stats (h_base e')) = itemcount (m_stats (h_base ?e))" "hlevel n \<le> hlevel root" "hpoints [root] (hi_iter r) ?key"
      "\<exists>M. kinds root = M + sum_list (map kinds (res_nodes r)) \<and> set_mset M \<subseteq> {KInner}"
    by blast
  note sc = same_courseD [OF g(5)]
  let ?c = "itemcount (m_stats (h_base e')) + 1"
  let ?b = "(h_base e') \<lparr> m_stats := m_stats (h_base e') \<lparr> itemcount := ?c \<rparr> \<rparr>"
  let ?s = "status_step (h_stats e') ?c"
  let ?t = "\<lparr> h_root = Some root, h_env = \<lparr> h_base = ?b, h_stats = ?s \<rparr> \<rparr>"
  have run: "hy_insert hc db t kp kp = Some (?t, hi_iter r, True)" using r(1) g(1) by (simp add: hy_insert_def Some Let_def)
  have len: "?c = length (hitems db root)" using g(3,6) count length_ins_list [OF rt(2)] k'(2) by simp
  have env: "henv_ok hc \<lparr> h_base = ?b, h_stats = ?s \<rparr> (haddrs root) (kinds root)"
    using g(4) hchain_cong [of ?b "h_base e'" "haddrs root"] by (simp add: henv_ok_def acct_def)
  have st: "hybridstatus ?s = CONTINUE" if "hlevel root = 0"
  proof -
    have c: "hybridstatus (h_stats e') = CONTINUE" using that g(7) sc(1) rt(5) by simp
    have "?c \<le> unat (limit2ShouldCompress (h_stats e'))" using hlevel_zero [OF g(2) that] len lim sc(2) by simp
    from status_step_continue [OF c this] show ?thesis using c by simp
  qed
  have "hy_root_ok hc db \<lparr> h_base = ?b, h_stats = ?s \<rparr> root"
    using g(2,3) rt(2,3) k' env st by (simp add: hy_root_ok_def sorted_ins_list backed_ins_list)
  moreover have "hybridstatus ?s \<noteq> MAY_UNCOMPRESS" using status_step_may nm sc(1) by simp
  ultimately have "hy_ok hc db ?t" using cfg lim sc(2) len by (simp add: hy_ok_def hy_items_def)
  moreover have "h_stats (h_env ?t) = status_step (h_stats e') (Suc (length (hy_items db t)))" using g(6) count Some by (simp add: hy_items_def)
  ultimately show ?thesis using run g(3,5,8,9) r(1) Some
    by (intro exI [of _ ?t] exI [of _ "hi_iter r"] exI [of _ root]) (auto simp: hy_items_def)
qed

end
