(* ===== verification/Hybrid_Lookup.thy ===== *)
theory Hybrid_Lookup
  imports Hybrid_Tree BTree_Lookup
begin

text \<open>
  Lookups in the elastic index: the leaf of a key, scans over leaves of both kinds,
  \<^verbatim>\<open>find\<close> and \<^verbatim>\<open>lower_bound\<close>.
\<close>

section \<open>The leaf of a key\<close>

lemma hitems_leaves: "hitems db n = concat (map (hitems db) (hleaves n))"
proof (induction n)
  case (HInner l ac ks cs)
  then have "map (hitems db) cs = map (\<lambda>n. concat (map (hitems db) (hleaves n))) cs" by simp
  then show ?case by (simp only: hitems.simps hleaves.simps) (induction cs; simp)
qed auto

lemma hdescend_leaf:
  assumes "hwf hc db root n" "sorted_items (hitems db n)"
  shows "\<exists>m pre post. hdescend find_lower key n = Some m \<and> hleaves n = pre @ m # post \<and> (\<exists>root. hwf hc db root m) \<and> hlevel m = 0
    \<and> (\<forall>x \<in> set (concat (map (hitems db) pre)). fst x < key) \<and> (\<forall>x \<in> set (concat (map (hitems db) post)). key < fst x)
    \<and> (post \<noteq> [] \<longrightarrow> key \<le> hlast_key db m)"
  using assms
proof (induction n arbitrary: root)
  case (HInner l ac ks cs)
  let ?i = "find_lower ks key"
  note p = hinner_parts [OF HInner.prems] and b = hn.find_bounds [OF hinner_parts [OF HInner.prems] refl, of key]
  have "hwf hc db False (cs ! ?i)" using p(2) b(5) by simp
  from HInner.IH [OF nth_mem [OF b(5)] this b(3)] obtain m pre post where
    m: "hdescend find_lower key (cs ! ?i) = Some m" "hleaves (cs ! ?i) = pre @ m # post" "\<exists>root. hwf hc db root m" "hlevel m = 0"
      "\<forall>x \<in> set (concat (map (hitems db) pre)). fst x < key" "\<forall>x \<in> set (concat (map (hitems db) post)). key < fst x"
      "post \<noteq> [] \<longrightarrow> key \<le> hlast_key db m" by blast
  have e: "concat (map (hitems db) (concat (map hleaves ms))) = concat (map (hitems db) ms)" for ms
    by (induction ms) (simp_all flip: hitems_leaves)
  have "hleaves (HInner l ac ks cs) = (concat (map hleaves (take ?i cs)) @ pre) @ m # (post @ concat (map hleaves (drop (Suc ?i) cs)))"
    using concat_map_split [OF b(5), of hleaves] m(2) by simp
  moreover have "\<forall>x \<in> set (concat (map (hitems db) (concat (map hleaves (take ?i cs)) @ pre))). fst x < key"
    unfolding map_append concat_append e using b(1) m(5) by auto
  moreover have "\<forall>x \<in> set (concat (map (hitems db) (post @ concat (map hleaves (drop (Suc ?i) cs))))). key < fst x"
    unfolding map_append concat_append e using b(2) m(6) by auto
  moreover have "key \<le> hlast_key db m" if ne: "post @ concat (map hleaves (drop (Suc ?i) cs)) \<noteq> []"
  proof (cases "post = []")
    case True
    then have "drop (Suc ?i) cs \<noteq> []" using ne by auto
    then have i: "?i < length ks" using p(1) b(4) by (auto simp: seps_by_def)
    have "hitems db (cs ! ?i) = concat (map (hitems db) pre) @ hitems db m"
      unfolding hitems_leaves [of db "cs ! ?i"] m(2) True by simp
    moreover have "hitems db m \<noteq> []" using m(3) hwf_items by blast
    ultimately have "hlast_key db (cs ! ?i) = hlast_key db m" by simp
    then show ?thesis using p(1) i find_lower_ge [OF i] by (simp add: seps_by_def)
  qed (use m(7) in simp)
  ultimately show ?case using m(1,3,4) b(5) by (simp only: hdescend.simps if_True) blast
qed (auto intro!: exI [of _ "[]"])

section \<open>Lookup\<close>

lemma hy_leaf_at:
  assumes "hy_ok hc db t" "h_root t = Some r" "m \<in> set (hleaves r)"
  shows "hleaf_at t (hleaf_addr m) = Some m"
proof -
  have "distinct (haddrs r)" using hy_ok_root [OF assms(1,2)] by (simp add: hy_root_ok_def henv_ok_def hchain_def)
  then have "find (\<lambda>n. hleaf_addr n = hleaf_addr m) (hleaves r) = Some m"
    using find_distinct [of hleaf_addr "hleaves r" "hleaf_addr m" m] assms(3) by simp
  then show ?thesis by (simp add: hleaf_at_def assms(2))
qed

lemma map_of_middle:
  assumes "\<forall>x \<in> set xs. fst x < key" "\<forall>x \<in> set zs. (key::'k::linorder) < fst x"
  shows "map_of (xs @ ys @ zs) key = map_of ys key"
proof -
  have "map_of xs key = None" "map_of zs key = None" using assms by (auto simp: map_of_eq_None_iff)
  then show ?thesis by (simp add: map_add_def split: option.splits)
qed

text \<open>The search in an ordinary leaf, and what its result points to.\<close>

lemma hy_find_leaf_spec:
  assumes wf: "hwf hc db root (HBtree a ks vs)" and s: "sorted_items (zip ks vs)"
  shows "\<exists>it. hy_find_leaf hc db key (HBtree a ks vs) = Some it
    \<and> (case map_of (zip ks vs) key of None \<Rightarrow> it = None
       | Some v \<Rightarrow> \<exists>slot. it = Some (Some a, slot) \<and> slot < length ks \<and> ks ! slot = key \<and> vs ! slot = v)"
proof -
  let ?i = "find_lower ks key"
  have l: "length vs = length ks" using wf by simp
  have "sorted_wrt (<) (map fst (zip ks vs))" using s by (simp add: sorted_wrt_map)
  then have sk: "sorted_wrt (<) ks" using l by simp
  have mf: "map fst (zip ks vs) = ks" using l by simp
  show ?thesis
  proof (cases "key \<in> set ks")
    case True
    then have i: "?i < length ks" "key = ks ! ?i" using find_lower_mem [OF sk] by auto
    have "(ks ! ?i, vs ! ?i) \<in> set (zip ks vs)" using i(1) l by (auto simp: set_zip)
    moreover have "distinct (map fst (zip ks vs))" unfolding mf using sk strict_sorted_iff by blast
    ultimately have "map_of (zip ks vs) key = Some (vs ! ?i)" using i(2) by simp
    then show ?thesis using i by (simp add: hy_find_leaf_def Let_def)
  next
    case False
    then have "map_of (zip ks vs) key = None" using mf by (metis list.set_map map_of_eq_None_iff)
    moreover have "\<not> (?i < length ks \<and> key = ks ! ?i)" using False find_lower_mem [OF sk] by blast
    ultimately show ?thesis by (auto simp: hy_find_leaf_def Let_def)
  qed
qed

section \<open>Scans\<close>

text \<open>The items from an iterator on, through leaves of both kinds.\<close>

definition hrest :: "db \<Rightarrow> htree \<Rightarrow> iter \<Rightarrow> (key \<times> ptr) list \<Rightarrow> bool" where
  "hrest db t it xs \<longleftrightarrow> (\<exists>r pre m post j. h_root t = Some r \<and> hleaves r = pre @ m # post \<and> it = (Some (hleaf_addr m), j) \<and> j < hslotuse m
     \<and> xs = drop j (hitems db m) @ concat (map (hitems db) post))"

fun hwalk :: "db \<Rightarrow> htree \<Rightarrow> nat \<Rightarrow> iter \<Rightarrow> (key \<times> ptr) list option" where
  "hwalk db t 0 it = Some []"
| "hwalk db t (Suc n) it =
     do { x \<leftarrow> hiter_deref db t it;
          (if n = 0 then Some [x] else do { it \<leftarrow> hiter_incr t it; xs \<leftarrow> hwalk db t n it; Some (x # xs) }) }"

lemma hleaves_wf: "hwf hc db root n \<Longrightarrow> m \<in> set (hleaves n) \<Longrightarrow> (\<exists>root. hwf hc db root m) \<and> hlevel m = 0"
proof (induction n arbitrary: root)
  case (HInner l ac ks cs)
  then show ?case by fastforce
qed auto

lemma hleaf_items:
  assumes "hwf hc db root m" "hlevel m = 0"
  shows "length (hitems db m) = hslotuse m" "0 < hslotuse m"
    "j < hslotuse m \<Longrightarrow> h_get_key db m j = Some (fst (hitems db m ! j)) \<and> h_get_data m j = Some (snd (hitems db m ! j))"
proof -
  have "length (hitems db m) = hslotuse m \<and> 0 < hslotuse m \<and>
    (j < hslotuse m \<longrightarrow> h_get_key db m j = Some (fst (hitems db m ! j)) \<and> h_get_data m j = Some (snd (hitems db m ! j)))"
  proof (cases m)
    case (HBlind a t su nd)
    have su: "su = valid_len nd" and ok: "node_ok (blind_cfg hc t) db nd" using assms(1) HBlind by auto
    have l: "length (node_ptrs nd) = valid_len nd" by (rule node_ptrs_length [OF ok])
    have "j < valid_len nd \<Longrightarrow> get_key_ptr nd j = Some (node_ptrs nd ! j)"
      using node_okD(3) [OF ok] by (simp add: get_key_ptr_def node_ptrs_def)
    then show ?thesis using l su node_okD(2) [OF ok] HBlind by (simp add: h_get_key_def h_get_data_def ptr_item_def)
  qed (use assms in \<open>auto simp: h_get_key_def h_get_data_def get_def\<close>)
  then show "length (hitems db m) = hslotuse m" "0 < hslotuse m"
    "j < hslotuse m \<Longrightarrow> h_get_key db m j = Some (fst (hitems db m ! j)) \<and> h_get_data m j = Some (snd (hitems db m ! j))" by auto
qed

lemma hrest_step:
  assumes ok: "hy_ok hc db t" and r: "hrest db t it (x # xs)"
  shows "hiter_deref db t it = Some x \<and> (xs \<noteq> [] \<longrightarrow> (\<exists>it'. hiter_incr t it = Some it' \<and> hrest db t it' xs))"
proof -
  obtain n pre m post j where l: "h_root t = Some n" "hleaves n = pre @ m # post" "it = (Some (hleaf_addr m), j)" "j < hslotuse m"
    "x # xs = drop j (hitems db m) @ concat (map (hitems db) post)"
    using r unfolding hrest_def by blast
  have wf: "hwf hc db True n" and ch: "hchain (h_base (h_env t)) (haddrs n)" using hy_ok_root [OF ok l(1)] by (simp_all add: hy_root_ok_def henv_ok_def)
  have mm: "m \<in> set (hleaves n)" using l(2) by simp
  have at: "hleaf_at t (hleaf_addr m) = Some m" by (rule hy_leaf_at [OF ok l(1) mm])
  obtain root where w: "hwf hc db root m" "hlevel m = 0" using hleaves_wf [OF wf mm] by blast
  note h = hleaf_items [OF w]
  have d: "drop j (hitems db m) = hitems db m ! j # drop (Suc j) (hitems db m)"
    using l(4) h(1) by (subst Cons_nth_drop_Suc) auto
  have x: "x = hitems db m ! j" "xs = drop (Suc j) (hitems db m) @ concat (map (hitems db) post)" using l(5) d by auto
  have deref: "hiter_deref db t it = Some x"
    using at h(3) [OF l(4)] x(1) by (simp add: hiter_deref_def hiter_key_def hiter_data_def l(3))
  have nx: "nextleaf (h_base (h_env t)) (hleaf_addr m) = first_or None (map hleaf_addr post)"
    using ch by (simp add: l(2) hchain_def linked_append)
  have "\<exists>it'. hiter_incr t it = Some it' \<and> hrest db t it' xs" if ne: "xs \<noteq> []"
  proof (cases "Suc j < hslotuse m")
    case True
    then have "hiter_incr t it = Some (Some (hleaf_addr m), Suc j)" using at by (simp add: hiter_incr_def hiter_step_def l(3))
    moreover have "hrest db t (Some (hleaf_addr m), Suc j) xs"
      unfolding hrest_def using l(1,2) True x(2) by blast
    ultimately show ?thesis by blast
  next
    case False
    then have "post \<noteq> []" using ne x(2) h(1) by auto
    then obtain m' post' where p: "post = m' # post'" by (cases post) auto
    have "m' \<in> set (hleaves n)" using l(2) p by simp
    then obtain root' where w': "hwf hc db root' m'" "hlevel m' = 0" using hleaves_wf [OF wf] by blast
    have "hiter_incr t it = Some (Some (hleaf_addr m'), 0)" using at False nx p by (simp add: hiter_incr_def hiter_step_def l(3))
    moreover have "hrest db t (Some (hleaf_addr m'), 0) xs"
      unfolding hrest_def
      by (rule exI [of _ n], rule exI [of _ "pre @ [m]"], intro exI [of _ m'] exI [of _ post'] exI [of _ 0])
        (use l(1,2) p False x(2) h(1) hleaf_items(2) [OF w'] in simp)
    ultimately show ?thesis by blast
  qed
  then show ?thesis using deref by blast
qed

lemma hwalk_rest:
  assumes ok: "hy_ok hc db t"
  shows "hrest db t it xs \<Longrightarrow> hwalk db t (length xs) it = Some xs"
proof (induction xs arbitrary: it)
  case (Cons x xs)
  note st = hrest_step [OF ok Cons.prems]
  show ?case
  proof (cases xs)
    case Nil then show ?thesis using st by simp
  next
    case (Cons y ys)
    then have ne: "length xs \<noteq> 0" "xs \<noteq> []" by auto
    then obtain it' where i: "hiter_incr t it = Some it'" "hrest db t it' xs" using st by blast
    have d: "hiter_deref db t it = Some x" using st by blast
    show ?thesis unfolding length_Cons hwalk.simps d i(1) Option.bind.bind_lunit if_not_P [OF ne(1)] Cons.IH [OF i(2)] ..
  qed
qed simp

section \<open>Find\<close>

lemma filter_drop:
  assumes s: "sorted_items xs" and p: "pos \<le> length xs" "0 < pos \<Longrightarrow> fst (xs ! (pos - 1)) < key" "pos < length xs \<Longrightarrow> key \<le> fst (xs ! pos)"
  shows "filter (\<lambda>x. (key::'k::linorder) \<le> fst x) xs = drop pos xs"
proof -
  have "fst x < key" if x: "x \<in> set (take pos xs)" for x
  proof -
    obtain i where i: "i < pos" "x = xs ! i" using x by (auto simp: in_set_conv_nth)
    have "i < pos - 1 \<Longrightarrow> fst (xs ! i) < fst (xs ! (pos - 1))" using s p(1) by (simp add: sorted_wrt_iff_nth_less)
    moreover have "i = pos - 1 \<or> i < pos - 1" "0 < pos" using i(1) by linarith+
    ultimately show ?thesis using p(2) i(2) less_trans by blast
  qed
  then have a: "filter (\<lambda>x. key \<le> fst x) (take pos xs) = []" by (auto simp: filter_empty_conv not_le)
  have "key \<le> fst x" if x: "x \<in> set (drop pos xs)" for x
  proof -
    obtain i where "i < length (drop pos xs)" "x = drop pos xs ! i" using x by (metis in_set_conv_nth)
    then have i: "pos + i < length xs" "x = xs ! (pos + i)" by auto
    have "0 < i \<Longrightarrow> fst (xs ! pos) < fst (xs ! (pos + i))" using s i(1) by (simp add: sorted_wrt_iff_nth_less)
    moreover have "key \<le> fst (xs ! pos)" using p(3) i(1) by simp
    ultimately show ?thesis using i(2) by (cases "i = 0") auto
  qed
  then have b: "filter (\<lambda>x. key \<le> fst x) (drop pos xs) = drop pos xs" by (simp add: filter_id_conv)
  have "filter (\<lambda>x. key \<le> fst x) (take pos xs @ drop pos xs) = drop pos xs" unfolding filter_append a b by simp
  then show ?thesis by simp
qed

lemma hy_root_descend:
  assumes ok: "hy_ok hc db t" and r: "h_root t = Some r"
  shows "\<exists>m pre post. hdescend find_lower key r = Some m \<and> hleaves r = pre @ m # post \<and> (\<exists>root. hwf hc db root m) \<and> hlevel m = 0
    \<and> sorted_items (hitems db m) \<and> backed hc db (hitems db m)
    \<and> hy_items db t = concat (map (hitems db) pre) @ hitems db m @ concat (map (hitems db) post)
    \<and> (\<forall>x \<in> set (concat (map (hitems db) pre)). fst x < key) \<and> (\<forall>x \<in> set (concat (map (hitems db) post)). key < fst x)
    \<and> (post \<noteq> [] \<longrightarrow> key \<le> hlast_key db m)"
proof -
  have n: "hwf hc db True r" "sorted_items (hitems db r)" "backed hc db (hitems db r)" using hy_ok_root [OF ok r] by (simp_all add: hy_root_ok_def)
  from hdescend_leaf [OF n(1,2), of key] obtain m pre post where m: "hdescend find_lower key r = Some m" "hleaves r = pre @ m # post"
    "\<exists>root. hwf hc db root m" "hlevel m = 0"
    "\<forall>x \<in> set (concat (map (hitems db) pre)). fst x < key" "\<forall>x \<in> set (concat (map (hitems db) post)). key < fst x"
    "post \<noteq> [] \<longrightarrow> key \<le> hlast_key db m" by blast
  have i: "hitems db r = concat (map (hitems db) pre) @ hitems db m @ concat (map (hitems db) post)"
    unfolding hitems_leaves [of db r] m(2) by simp
  have "sorted_items (hitems db m)" "backed hc db (hitems db m)" using n(2,3) unfolding i backed_simps sorted_items_append by blast+
  then show ?thesis using m i r
    by (intro exI [of _ m] exI [of _ pre] exI [of _ post]) (simp add: hy_items_def)
qed

lemma hy_leaf_parts:
  assumes "hy_ok hc db t" "h_root t = Some r" "hdescend find_lower key r = Some m"
  obtains pre post root where "hleaves r = pre @ m # post" "hwf hc db root m" "hlevel m = 0" "sorted_items (hitems db m)"
    "hy_items db t = concat (map (hitems db) pre) @ hitems db m @ concat (map (hitems db) post)"
    "\<forall>x \<in> set (concat (map (hitems db) pre)). fst x < key" "\<forall>x \<in> set (concat (map (hitems db) post)). key < fst x"
    "post \<noteq> [] \<longrightarrow> key \<le> hlast_key db m"
  using hy_root_descend [OF assms(1,2), of key] unfolding assms(3) option.inject by blast

text \<open>The items from a slot of the leaf the descent ends in.\<close>

lemma leaf_rest:
  assumes ok: "hy_ok hc db t" and r: "h_root t = Some r" and l: "hleaves r = pre @ m # post"
    and i: "hy_items db t = concat (map (hitems db) pre) @ hitems db m @ concat (map (hitems db) post)"
    and b: "\<forall>x \<in> set (concat (map (hitems db) pre)). fst x < key" "\<forall>x \<in> set (concat (map (hitems db) post)). key < fst x"
    and s: "sorted_items (hitems db m)" "j < hslotuse m" "length (hitems db m) = hslotuse m"
    and j: "0 < j \<Longrightarrow> fst (hitems db m ! (j - 1)) < key" "key \<le> fst (hitems db m ! j)"
  shows "hrest db t (Some (hleaf_addr m), j) (filter (\<lambda>x. key \<le> fst x) (hy_items db t))"
proof -
  have f: "filter (\<lambda>x. key \<le> fst x) (hitems db m) = drop j (hitems db m)"
    by (rule filter_drop [OF s(1)]) (use s(2,3) j in auto)
  have "filter (\<lambda>x. key \<le> fst x) (concat (map (hitems db) pre)) = []"
    "filter (\<lambda>x. key \<le> fst x) (concat (map (hitems db) post)) = concat (map (hitems db) post)"
    using b unfolding filter_empty_conv filter_id_conv by (auto simp: not_le less_imp_le)
  then show ?thesis unfolding hrest_def i filter_append f using r l s(2) by auto
qed

text \<open>
  \<^verbatim>\<open>find\<close> of a key whose descent ends in an ordinary leaf. In a blind leaf the search itself stores behind the end of the
  array \<^verbatim>\<open>tree_traverse\<close> of \<^verbatim>\<open>find\<close> (\<open>search_blindi_overflows\<close>).
\<close>

lemma hy_find_spec:
  assumes ok: "hy_ok hc db t" and r: "h_root t = Some r" "hdescend find_lower key r = Some (HBtree a ks vs)"
  shows "case map_of (hy_items db t) key of
      None \<Rightarrow> hy_find hc db t key = hy_end t
    | Some v \<Rightarrow> \<exists>it. hy_find hc db t key = Some it \<and> hiter_deref db t it = Some (key, v)
        \<and> hrest db t it (filter (\<lambda>x. key \<le> fst x) (hy_items db t))"
proof -
  let ?m = "HBtree a ks vs"
  from hy_leaf_parts [OF ok r] obtain pre post root where m: "hleaves r = pre @ ?m # post"
    and w: "hwf hc db root ?m" and "hlevel ?m = 0" and so: "sorted_items (hitems db ?m)"
    and i: "hy_items db t = concat (map (hitems db) pre) @ hitems db ?m @ concat (map (hitems db) post)"
    and b: "\<forall>x \<in> set (concat (map (hitems db) pre)). fst x < key" "\<forall>x \<in> set (concat (map (hitems db) post)). key < fst x" .
  have l: "length vs = length ks" using w by simp
  have mo: "map_of (hy_items db t) key = map_of (zip ks vs) key" unfolding i by (subst map_of_middle [OF b]) simp
  from hy_find_leaf_spec [OF w, of key] so obtain it where it: "hy_find_leaf hc db key ?m = Some it"
    "case map_of (zip ks vs) key of None \<Rightarrow> it = None
       | Some v \<Rightarrow> \<exists>slot. it = Some (Some a, slot) \<and> slot < length ks \<and> ks ! slot = key \<and> vs ! slot = v" by auto
  show ?thesis
  proof (cases "map_of (zip ks vs) key")
    case None
    then show ?thesis using it r mo by (simp add: hy_find_def)
  next
    case (Some v)
    then obtain slot where s: "it = Some (Some a, slot)" "slot < length ks" "ks ! slot = key" "vs ! slot = v" using it(2) by auto
    have below: "0 < slot \<Longrightarrow> fst (hitems db ?m ! (slot - 1)) < key" using so s(2,3) l by (auto simp: sorted_wrt_iff_nth_less)
    have "hrest db t (Some (hleaf_addr ?m), slot) (filter (\<lambda>x. key \<le> fst x) (hy_items db t))"
      by (rule leaf_rest [OF ok r(1) m i b so]) (use s l below in auto)
    moreover have "hiter_deref db t (Some a, slot) = Some (key, v)"
      using hy_leaf_at [OF ok r(1), of ?m] s m l by (simp add: hiter_deref_def hiter_key_def hiter_data_def h_get_key_def h_get_data_def get_def)
    ultimately show ?thesis using it(1) s(1) r mo Some by (simp add: hy_find_def)
  qed
qed

section \<open>Lower bound\<close>

text \<open>In an ordinary leaf \<^verbatim>\<open>lower_bound\<close> returns the first item that is not below the key.\<close>

lemma hy_lower_bound_spec:
  assumes ok: "hy_ok hc db t" and r: "h_root t = Some r" "hdescend find_lower key r = Some (HBtree a ks vs)"
    and ex: "\<exists>x \<in> set (hy_items db t). key \<le> fst x"
  shows "\<exists>it. hy_lower_bound hc db t key = Some it \<and> hrest db t it (filter (\<lambda>x. key \<le> fst x) (hy_items db t))"
proof -
  let ?m = "HBtree a ks vs" and ?j = "find_lower ks key"
  from hy_leaf_parts [OF ok r] obtain pre post root where m: "hleaves r = pre @ ?m # post"
    and w: "hwf hc db root ?m" and "hlevel ?m = 0" and so: "sorted_items (hitems db ?m)"
    and i: "hy_items db t = concat (map (hitems db) pre) @ hitems db ?m @ concat (map (hitems db) post)"
    and b: "\<forall>x \<in> set (concat (map (hitems db) pre)). fst x < key" "\<forall>x \<in> set (concat (map (hitems db) post)). key < fst x"
    and lst: "post \<noteq> [] \<longrightarrow> key \<le> hlast_key db ?m" .
  have l: "length vs = length ks" "0 < length ks" using w by auto
  have j: "?j < length ks"
  proof (rule ccontr)
    assume "\<not> ?j < length ks"
    then have "?j = length ks" using find_lower_le [of ks key] by simp
    then have "last ks < key" using find_lower_less [of "?j - 1" ks key] l(2) by (simp add: last_conv_nth)
    moreover have "zip ks vs \<noteq> []" "map fst (zip ks vs) = ks" using l by auto
    then have "hlast_key db ?m = last ks" using last_map [of "zip ks vs" fst] by simp
    ultimately have "hlast_key db ?m < key" "post = []" using lst by auto
    moreover have "\<forall>x \<in> set (hitems db ?m). fst x < key" using last_greatest [OF so] calculation(1) by (blast intro: le_less_trans)
    ultimately show False using ex b(1) unfolding i by (auto simp: not_le [symmetric])
  qed
  have "hrest db t (Some (hleaf_addr ?m), ?j) (filter (\<lambda>x. key \<le> fst x) (hy_items db t))"
    by (rule leaf_rest [OF ok r(1) m i b so]) (use j l find_lower_less [of "?j - 1" ks key] find_lower_ge [OF j] in auto)
  then show ?thesis using r by (simp add: hy_lower_bound_def)
qed

section \<open>The search of a blind leaf\<close>

text \<open>
  The array \<^verbatim>\<open>tree_traverse\<close> of the lookups has five cells, and the first stage of the search of a blind leaf stores into
  the sixth one: with tree levels always, without them as soon as the leaf has two keys, which every blind leaf has.
\<close>

lemma short_traverse:
  assumes "length tr0 \<le> 5" "0 < TREE_LEVELS c \<or> 2 \<le> valid_len nd"
  shows "SearchBlindiNode c db nd x len st tr0 n0 = None"
proof -
  have "SearchFirstStage c nd x len tr0 n0 = None"
  proof (cases "0 < TREE_LEVELS c")
    case True
    consider "length tr0 = 0" | "length tr0 = 1" | "length tr0 = 2" | "length tr0 = 3" | "length tr0 = 4" | "length tr0 = 5"
      using assms(1) by linarith
    then show ?thesis using True by cases (auto simp: SearchFirstStage_def put_def Let_def)
  next
    case False
    then obtain m where m: "nat (int (valid_len nd) - 1) = Suc m" using assms(2) by (cases "nat (int (valid_len nd) - 1)") auto
    have n: "\<not> valid_len nd \<le> Suc 0" using False assms(2) by simp
    consider "length tr0 = 0" | "length tr0 = 1" | "1 < length tr0" "0 < length tr0" by linarith
    then show ?thesis using False assms(1) n
      by cases (simp_all add: SearchFirstStage_def first_stage_seq_def Let_def m)
  qed
  then show ?thesis by (simp add: SearchBlindiNode_def)
qed

lemma search_blindi_overflows:
  "0 < h_tree_levels hc \<or> 2 \<le> valid_len nd \<Longrightarrow> search_blindi hc db t nd key st = None"
  using short_traverse [of "replicate 5 0" "blind_cfg hc t" nd] by (simp add: search_blindi_def)

end
