(* ===== verification/Hybrid_Status.thy ===== *)
theory Hybrid_Status
  imports Hybrid_Lookup
begin

text \<open>
  When the elastic index compresses: how the numbers of ordinary and blind leaves change, the states a run can
  reach, and what the status says about them.
\<close>

section \<open>How many leaves are compressed\<close>

abbreviation nbtree :: "hnode list \<Rightarrow> nat" where
  "nbtree ns \<equiv> count (sum_list (map kinds ns)) KBtree"

abbreviation nblind :: "hnode list \<Rightarrow> nat" where
  "nblind ns \<equiv> size (filter_mset is_kblind (sum_list (map kinds ns)))"

definition compressing :: "henv \<Rightarrow> bool" where
  "compressing e \<longleftrightarrow> hybridstatus (h_stats e) \<in> {SHOULD_COMPRESS, MUST_COMPRESS}"

text \<open>
  Once the index compresses, no ordinary leaf is added, and with \<open>MUST_COMPRESS\<close> the one an insertion reaches is turned
  into a blind leaf; before, no blind leaf is made.
\<close>

definition elastic :: "henv \<Rightarrow> hnode list \<Rightarrow> hnode list \<Rightarrow> bool" where
  "elastic e ns ns' \<longleftrightarrow> (if compressing e then nbtree ns' \<le> nbtree ns else nblind ns = 0 \<longrightarrow> nblind ns' = 0)"

lemma elastic_context: "elastic e ns ns' \<Longrightarrow> elastic e (as @ ns @ bs) (as @ ns' @ bs)"
  by (auto simp: elastic_def)

lemma elastic_refl: "elastic e ns ns"
  by (simp add: elastic_def)

lemma elastic_trans: "elastic e as bs \<Longrightarrow> elastic e bs cs \<Longrightarrow> elastic e as cs"
  by (auto simp: elastic_def split: if_splits)

lemma elastic_same: "sum_list (map kinds ns') = sum_list (map kinds ns) \<Longrightarrow> elastic e ns ns'"
  by (simp add: elastic_def)

lemma elastic_status: "hybridstatus (h_stats e') = hybridstatus (h_stats e) \<Longrightarrow> elastic e' ns ns' = elastic e ns ns'"
  by (simp add: elastic_def compressing_def)

lemma insert_blindi_leaf_elastic:
  assumes "insert_blindi_leaf hc db e is_root a t su nd kp = Some r"
  shows "elastic e [HBlind a t su nd] (res_nodes r)"
proof -
  have "nbtree (res_nodes r) = 0" using assms
    by (auto simp: insert_blindi_leaf_def res_nodes_def bind_eq_Some_conv Let_def split: if_splits prod.splits)
  then show ?thesis by (simp add: elastic_def)
qed

lemma insert_btree_leaf_elastic:
  "(compressing e \<longrightarrow> length ks \<noteq> h_leafslots hc) \<Longrightarrow> elastic e [HBtree a ks vs] (res_nodes (insert_btree_leaf hc e a ks vs key val))"
  by (simp add: insert_btree_leaf_def res_nodes_def elastic_def Let_def split: prod.splits if_splits)

lemma hy_insert_leaf_elastic:
  assumes "hy_insert_leaf hc db e is_root n kp val = Some r"
  shows "elastic e [n] (res_nodes r)"
proof (cases n)
  case (HBtree a ks vs)
  show ?thesis
  proof (cases "hybridstatus (h_stats e) = MUST_COMPRESS \<or> (hybridstatus (h_stats e) = SHOULD_COMPRESS \<and> length ks = h_leafslots hc)")
    case False
    then show ?thesis using assms HBtree
      by (auto simp: hy_insert_leaf_def compressing_def intro!: insert_btree_leaf_elastic)
  next
    case True
    then have c: "compressing e" by (auto simp: compressing_def)
    let ?t = "if length ks \<noteq> h_leafslots hc then 1 else 2"
    from assms True HBtree obtain b nd e' r' where
      r: "insert_blindi_leaf hc db e' is_root b ?t (length ks) nd kp = Some r'" "r = (if is_root then r' \<lparr> hi_node := HFreed \<rparr> else r')"
      unfolding hy_insert_leaf_def HBtree hnode.case if_P [OF True] Let_def by (auto simp: bind_eq_Some_conv split: prod.splits)
    have "nbtree (res_nodes r') = 0" using r(1)
      by (auto simp: insert_blindi_leaf_def res_nodes_def bind_eq_Some_conv Let_def split: if_splits prod.splits)
    then have "nbtree (res_nodes r) = 0" using r(2) by (simp add: res_nodes_def)
    then show ?thesis using c by (simp add: elastic_def)
  qed
next
  case (HBlind a t su nd)
  then show ?thesis using assms insert_blindi_leaf_elastic by (auto simp: hy_insert_leaf_def split: if_splits)
qed (use assms in \<open>auto simp: hy_insert_leaf_def\<close>)

lemma transfer_status:
  "transfer_btree_node_blindi hc t is_root a ks vs e = Some (b, nd, e') \<Longrightarrow> hybridstatus (h_stats e') = hybridstatus (h_stats e)"
  by (auto simp: transfer_btree_node_blindi_def allocate_blindi_leaf_def allocate_leaf_def free_btree_leaf_def Let_def bind_eq_Some_conv)

lemma kinds_update:
  "i < length cs \<Longrightarrow> sum_list (map kinds (cs[i := n])) + kinds (cs ! i) = sum_list (map kinds cs) + kinds n"
  by (subst (2) id_take_nth_drop [of i cs]) (auto simp: upd_conv_take_nth_drop ac_simps)

lemma compress_first_elastic:
  "compress_first hc cs i n e = Some (cs', b, e') \<Longrightarrow> nbtree cs' \<le> nbtree cs \<and> length cs' = length cs
     \<and> hybridstatus (h_stats e') = hybridstatus (h_stats e) \<and> (\<forall>j. (\<forall>a ks vs. cs ! j \<noteq> HBtree a ks vs) \<longrightarrow> cs' ! j = cs ! j)"
proof (induction n arbitrary: i)
  case (Suc n)
  then obtain c where c: "i < length cs" "c = cs ! i" by (auto simp: bind_eq_Some_conv get_def split: if_splits)
  show ?case
  proof (cases c)
    case (HBtree a ks vs)
    then obtain a' nd where t: "transfer_btree_node_blindi hc 1 False a ks vs e = Some (a', nd, e')" "cs' = cs[i := HBlind a' 1 (length ks) nd]"
      using Suc.prems c by (auto simp: get_def bind_eq_Some_conv)
    have "nbtree cs' + count (kinds (cs ! i)) KBtree = nbtree cs + count (kinds (HBlind a' 1 (length ks) nd)) KBtree"
      using arg_cong [OF kinds_update [OF c(1), of "HBlind a' 1 (length ks) nd"], of "\<lambda>M. count M KBtree"] unfolding t(2) by simp
    then have "nbtree cs' \<le> nbtree cs" using HBtree c(2) by simp
    moreover have "cs' ! j = cs ! j" if "\<forall>a ks vs. cs ! j \<noteq> HBtree a ks vs" for j
    proof -
      have "j \<noteq> i" using that HBtree c(2) by metis
      then show ?thesis using t(2) by simp
    qed
    ultimately show ?thesis using transfer_status [OF t(1)] t(2) by simp
  next
    case (HBlind a t su nd)
    then have "cs ! i = HBlind a t su nd" using c(2) by simp
    then have "compress_first hc cs (Suc i) n e = Some (cs', b, e')" using Suc.prems c(1) by (simp add: get_def)
    then show ?thesis by (rule Suc.IH)
  qed (use Suc.prems c in \<open>auto simp: get_def\<close>)
qed auto

lemma compress_sibling_elastic:
  assumes "compress_sibling hc e ac ks cs slot = Some (cs', ac', e')"
  shows "elastic e cs cs'" "length cs' = length cs" "hybridstatus (h_stats e') = hybridstatus (h_stats e)" "cs' ! slot = cs ! slot"
proof -
  have "elastic e cs cs' \<and> length cs' = length cs \<and> hybridstatus (h_stats e') = hybridstatus (h_stats e) \<and> cs' ! slot = cs ! slot"
  proof (cases "(\<exists>a t su nd. cs ! slot = HBlind a t su nd) \<and> hybridstatus (h_stats e) = MUST_COMPRESS \<and> \<not> ac")
    case False
    then have "compress_sibling hc e ac ks cs slot = Some (cs, ac, e)" by (auto simp: compress_sibling_def split: hnode.splits)
    then show ?thesis using assms elastic_refl by simp
  next
    case True
    then obtain b where "compress_first hc cs 0 (length ks) e = Some (cs', b, e')"
      using assms by (auto simp: compress_sibling_def bind_eq_Some_conv)
    from compress_first_elastic [OF this] show ?thesis using True by (auto simp: elastic_def compressing_def)
  qed
  then show "elastic e cs cs'" "length cs' = length cs" "hybridstatus (h_stats e') = hybridstatus (h_stats e)" "cs' ! slot = cs ! slot" by auto
qed

lemma hinsert_node_kinds:
  fixes l :: nat and ac :: bool and r :: hins_result
  assumes "4 \<le> h_innerslots hc" "length cs = Suc (length ks)" "i \<le> length ks"
  defines "res \<equiv> (case hi_split r of
              None \<Rightarrow> r \<lparr> hi_node := HInner l ac ks (cs[i := hi_node r]) \<rparr>
            | Some (newkey, newchild) \<Rightarrow>
                (let (n, split, e) = h_insert_inner hc (hi_env r) l ac ks (cs[i := hi_node r]) i newkey newchild
                 in r \<lparr> hi_node := n, hi_split := split, hi_env := e \<rparr>))"
  shows "\<exists>M. sum_list (map kinds (res_nodes res)) = M + sum_list (map kinds (take i cs @ res_nodes r @ drop (Suc i) cs)) \<and> set_mset M \<subseteq> {KInner}"
proof (cases "hi_split r")
  case None
  then have "?thesis = (\<exists>M. add_mset KInner (sum_list (map kinds (cs[i := hi_node r])))
      = M + sum_list (map kinds (cs[i := hi_node r])) \<and> set_mset M \<subseteq> {KInner})"
    using assms(2,3) by (simp add: res_def res_nodes_def upd_conv_take_nth_drop)
  then show ?thesis by (intro exI [of _ "{# KInner #}"] iffD2 [OF \<open>?thesis = _\<close>]) auto
next
  case (Some km)
  obtain k m where km: "km = (k, m)" by (cases km)
  let ?cs = "put_slot (cs[i := hi_node r]) (Suc i) m" and ?ks = "put_slot ks i k"
  have rn: "take i cs @ res_nodes r @ drop (Suc i) cs = ?cs" using Some km assms(2,3)
    by (simp add: res_nodes_def put_slot_def take_Suc_conv_app_nth)
  show ?thesis
  proof (cases "length ks = h_innerslots hc")
    case False
    then have "res_nodes res = [HInner l ac ?ks ?cs]" using Some km by (simp add: res_def res_nodes_def h_insert_inner_def)
    then show ?thesis unfolding rn by (intro exI [of _ "{# KInner #}"]) simp
  next
    case True
    have "length (cs[i := hi_node r]) = Suc (length ks)" "4 \<le> length ks" using assms(1,2) True by simp_all
    from split_put_point [OF this assms(3) refl refl, of "HInner l ac" "HInner l False" k m] obtain q where
      q: "split_put (HInner l ac) (HInner l False) ks (cs[i := hi_node r]) i k m =
            (HInner l ac (take q ?ks) (take (Suc q) ?cs), ?ks ! q, HInner l False (drop (Suc q) ?ks) (drop (Suc q) ?cs))" by blast
    have "res_nodes res = [HInner l ac (take q ?ks) (take (Suc q) ?cs), HInner l False (drop (Suc q) ?ks) (drop (Suc q) ?cs)]"
      using Some km by (simp add: res_def res_nodes_def h_insert_inner_full [OF True] q)
    moreover have "sum_list (map kinds (take (Suc q) ?cs)) + sum_list (map kinds (drop (Suc q) ?cs)) = sum_list (map kinds ?cs)"
      by (simp flip: sum_list_append map_append)
    ultimately show ?thesis unfolding rn by (intro exI [of _ "{# KInner, KInner #}"]) simp
  qed
qed

lemma hinsert_node_elastic:
  assumes "sum_list (map kinds ns') = M + sum_list (map kinds ns)" "set_mset M \<subseteq> {KInner}"
  shows "elastic e ns ns'"
proof -
  have "count M KBtree = 0" "filter_mset is_kblind M = {#}" using assms(2) by (auto simp: not_in_iff [symmetric] filter_mset_eq_conv)
  then show ?thesis using assms(1) by (simp add: elastic_def)
qed

lemma hy_insert_descend_elastic:
  assumes cfg: "hcfg_ok hc" and "hwf hc db root n" "hy_insert_descend hc db e is_root n kp val = Some r"
  shows "elastic e [n] (res_nodes r)"
  using assms(2-)
proof (induction n arbitrary: root e is_root r)
  case (HInner l ac ks cs)
  let ?i = "find_lower ks (Key (db kp))"
  have len: "length cs = Suc (length ks)" "?i \<le> length ks" "?i < length cs" using HInner.prems(1) find_lower_le [of ks "Key (db kp)"]
    by (simp_all add: seps_by_def le_imp_less_Suc)
  from HInner.prems(2) len(3) obtain cs' ac' e' r' where
    c: "compress_sibling hc e ac ks cs ?i = Some (cs', ac', e')" and
    r: "hy_insert_descend hc db e' False (cs ! ?i) kp val = Some r'"
      "r = (case hi_split r' of
              None \<Rightarrow> r' \<lparr> hi_node := HInner l ac' ks (cs'[?i := hi_node r']) \<rparr>
            | Some (newkey, newchild) \<Rightarrow>
                (let (n, split, e) = h_insert_inner hc (hi_env r') l ac' ks (cs'[?i := hi_node r']) ?i newkey newchild
                 in r' \<lparr> hi_node := n, hi_split := split, hi_env := e \<rparr>))"
    by (auto simp: bind_eq_Some_conv Let_def split: prod.splits)
  note s = compress_sibling_elastic [OF c]
  have l': "length cs' = Suc (length ks)" "?i < length cs'" "4 \<le> h_innerslots hc" using len s(2) cfg by (simp_all add: hcfg_ok_def)
  have w: "hwf hc db False (cs ! ?i)" using HInner.prems(1) len(3) by simp
  have "elastic e [cs' ! ?i] (res_nodes r')"
    using HInner.IH [OF nth_mem [OF len(3)] w r(1)] elastic_status [OF s(3)] s(4) by simp
  then have "elastic e cs' (take ?i cs' @ res_nodes r' @ drop (Suc ?i) cs')"
    using elastic_context [of e "[cs' ! ?i]" _ "take ?i cs'" "drop (Suc ?i) cs'"] l'(2) by (simp add: id_take_nth_drop [symmetric])
  then have e: "elastic e cs (take ?i cs' @ res_nodes r' @ drop (Suc ?i) cs')" by (rule elastic_trans [OF s(1)])
  from hinsert_node_kinds [OF l'(3,1) len(2), where r = r' and l = l and ac = ac', folded r(2)] obtain M where
    m: "sum_list (map kinds (res_nodes r)) = M + sum_list (map kinds (take ?i cs' @ res_nodes r' @ drop (Suc ?i) cs'))" "set_mset M \<subseteq> {KInner}" by blast
  have "elastic e [HInner l ac ks cs] cs" by (simp add: elastic_def)
  then show ?case using elastic_trans e hinsert_node_elastic [OF m] by blast
qed (auto dest: hy_insert_leaf_elastic)

section \<open>Clearing\<close>

text \<open>
  Every node is freed once: the counters go down to those of the rest \<open>M\<close>. Freeing takes the size of a leaf off \<^verbatim>\<open>indexcapacity\<close>, but
  not the size of an inner node, so \<open>w\<close> stays counted.
\<close>

abbreviation leaf_kinds :: "node_kind multiset \<Rightarrow> node_kind multiset" where
  "leaf_kinds M \<equiv> filter_mset (\<lambda>k. k \<noteq> KInner) M"

definition counted :: "hcfg \<Rightarrow> henv \<Rightarrow> node_kind multiset \<Rightarrow> 64 word \<Rightarrow> bool" where
  "counted hc e M w \<longleftrightarrow> btreeleaves (h_stats e) = count M KBtree \<and> (\<forall>t. blindinodes (h_stats e) t = count M (KBlind t))
     \<and> blindileaves (h_stats e) = size (filter_mset is_kblind M) \<and> innernodes (m_stats (h_base e)) = count M KInner
     \<and> leaves (m_stats (h_base e)) = size (leaf_kinds M)
     \<and> indexcapacity (h_stats e) = w + (\<Sum>k \<in># leaf_kinds M. kind_size hc k)"

fun below :: "hnode \<Rightarrow> node_kind multiset" where
  "below (HInner l ac ks cs) = sum_list (map kinds cs)"
| "below _ = {#}"

fun own :: "hnode \<Rightarrow> node_kind multiset" where
  "own (HInner l ac ks cs) = {# KInner #}"
| "own n = kinds n"

lemma kinds_own: "kinds n = own n + below n"
  by (cases n) auto

lemma free_counted:
  assumes "hwf hc db root n" "counted hc e (own n + M) w"
  shows "\<exists>e'. free_hnode hc n e = Some e' \<and> counted hc e' M w"
proof (cases n)
  case (HBtree a ks vs)
  then show ?thesis using assms(2) by (simp add: free_btree_leaf_def free_node_def counted_def Let_def)
next
  case (HBlind a t su nd)
  then show ?thesis using assms by (simp add: free_blindi_leaf_def free_node_def counted_def Let_def)
next
  case (HInner l ac ks cs)
  then show ?thesis using assms(2) by (simp add: free_node_def counted_def)
qed (use assms(1) in simp)

lemma h_clear_counted:
  fixes hc :: hcfg
  shows "hwf hc db root n \<Longrightarrow> counted hc e (below n + M) w \<Longrightarrow> \<exists>e'. h_clear_recursive hc n e = Some e' \<and> counted hc e' M w"
    "\<forall>n \<in> set ns. hwf hc db False n \<Longrightarrow> counted hc e (sum_list (map kinds ns) + M) w
      \<Longrightarrow> \<exists>e'. h_clear_children hc ns e = Some e' \<and> counted hc e' M w"
proof (induction hc n e and hc ns e arbitrary: root M and M rule: h_clear_recursive_h_clear_children.induct)
  case (6 hc n ns e)
  let ?R = "sum_list (map kinds ns) + M"
  have w: "hwf hc db False n" "\<forall>n \<in> set ns. hwf hc db False n" using "6.prems"(1) by simp_all
  have "counted hc e (below n + (own n + ?R)) w" using "6.prems"(2) by (simp add: kinds_own [of n] ac_simps)
  from "6.IH"(1) [OF w(1) this] obtain e1 where e1: "h_clear_recursive hc n e = Some e1" "counted hc e1 (own n + ?R) w" by blast
  from free_counted [OF w(1) e1(2)] obtain e2 where e2: "free_hnode hc n e1 = Some e2" "counted hc e2 ?R w" by blast
  from "6.IH"(2) [OF e1(1) e2(1) w(2) e2(2)] show ?case using e1(1) e2(1) by simp
qed auto

lemma leaf_kinds_leaves: "size (leaf_kinds (kinds n)) = length (hleaves n)"
proof (induction n)
  case (HInner l ac ks cs)
  then show ?case by (induction cs) simp_all
qed auto

lemma capacity_split: "(\<Sum>k \<in># M. kind_size hc k) = of_nat (count M KInner) * sizeof_inner hc + (\<Sum>k \<in># leaf_kinds M. kind_size hc k)"
  by (induction M) (auto simp: algebra_simps split: node_kind.splits)

lemma clear_frees:
  assumes ok: "hy_ok hc db t" and r: "h_root t = Some r"
  shows "\<exists>e e'. h_clear_recursive hc r (h_env t) = Some e \<and> free_hnode hc r e = Some e'
    \<and> counted hc e' {#} (of_nat (count (kinds r) KInner) * sizeof_inner hc)"
proof -
  have w: "hwf hc db True r" and h: "henv_ok hc (h_env t) (haddrs r) (kinds r)" using hy_ok_root [OF ok r] by (simp_all add: hy_root_ok_def)
  have "counted hc (h_env t) (kinds r) (of_nat (count (kinds r) KInner) * sizeof_inner hc)"
    using h leaf_kinds_leaves [of r] by (simp add: counted_def henv_ok_def acct_def hchain_def capacity_split [of hc "kinds r"])
  then have "counted hc (h_env t) (below r + (own r + {#})) (of_nat (count (kinds r) KInner) * sizeof_inner hc)"
    by (simp add: kinds_own [of r] add.commute)
  from h_clear_counted(1) [OF w this] obtain e where e: "h_clear_recursive hc r (h_env t) = Some e"
    "counted hc e (own r + {#}) (of_nat (count (kinds r) KInner) * sizeof_inner hc)" by blast
  from free_counted [OF w e(2)] e(1) show ?thesis by blast
qed

lemma hy_clear_spec:
  assumes ok: "hy_ok hc db t" and lim: "h_leafslots hc \<le> unat (limit2ShouldCompress (new_hstats hc))"
  shows "\<exists>t'. hy_clear hc t = Some t' \<and> hy_ok hc db t' \<and> hy_items db t' = []
    \<and> (h_root t \<noteq> None \<longrightarrow> h_stats (h_env t') = new_hstats hc) \<and> h_root t' = None"
proof (cases "h_root t")
  case None
  then show ?thesis using ok by (simp add: hy_clear_def hy_items_def)
next
  case (Some r)
  from clear_frees [OF ok Some] obtain e1 e2 where e: "h_clear_recursive hc r (h_env t) = Some e1" "free_hnode hc r e1 = Some e2" by blast
  let ?e = "\<lparr> h_base = (h_base e2) \<lparr> m_headleaf := None, m_tailleaf := None, m_stats := zero_stats \<rparr>, h_stats = new_hstats hc \<rparr>"
  have "henv_ok hc ?e [] {#}" by (simp add: henv_ok_def hchain_def acct_def new_hstats_def zero_stats_def)
  then have "hy_ok hc db \<lparr> h_root = None, h_env = ?e \<rparr>" using ok lim
    by (simp add: hy_ok_def hy_items_def new_hstats_def zero_stats_def)
  then show ?thesis using e Some by (simp add: hy_clear_def hy_items_def)
qed

section \<open>Reachable states\<close>

definition limits_ok :: "hcfg \<Rightarrow> bool" where
  "limits_ok hc \<longleftrightarrow> hcfg_ok hc \<and> h_leafslots hc \<le> unat (limit2ShouldCompress (new_hstats hc))"

lemma empty_hy_ok: "limits_ok hc \<Longrightarrow> hy_ok hc db (empty_htree hc)"
  by (simp add: hy_ok_def hy_items_def empty_htree_def limits_ok_def henv_ok_def hchain_def acct_def new_hstats_def zero_stats_def)

inductive hy_reach :: "hcfg \<Rightarrow> db \<Rightarrow> htree \<Rightarrow> bool" for hc :: hcfg and db :: db where
  hreach_empty: "hy_reach hc db (empty_htree hc)"
| hreach_insert: "hy_reach hc db t \<Longrightarrow> new_key hc db kp (hy_items db t) \<Longrightarrow> hy_insert hc db t kp kp = Some (t', it, b) \<Longrightarrow> hy_reach hc db t'"
| hreach_clear: "hy_reach hc db t \<Longrightarrow> hy_clear hc t = Some t' \<Longrightarrow> hy_reach hc db t'"

text \<open>What the status says.\<close>

definition hy_limit :: "htree \<Rightarrow> nat" where
  "hy_limit t = unat (limit2ShouldCompress (h_stats (h_env t)))"

definition hy_phase :: "htree \<Rightarrow> bool" where
  "hy_phase t \<longleftrightarrow> (let s = h_stats (h_env t) in limit2ReturmFromShouldCompress s = 0
     \<and> (hybridstatus s = CONTINUE \<longrightarrow> hy_size t \<le> hy_limit t \<or> btreeleaves s = 0)
     \<and> (hy_size t \<le> hy_limit t \<longrightarrow> hybridstatus s = CONTINUE \<and> blindileaves s = 0))"

lemma empty_phase: "hy_phase (empty_htree hc)"
  by (simp add: hy_phase_def empty_htree_def new_hstats_def hy_size_def zero_stats_def Let_def)

lemma hy_ok_size: "hy_ok hc db t \<Longrightarrow> hy_size t = length (hy_items db t)"
  by (simp add: hy_ok_def hy_size_def)

lemma hy_ok_counts:
  assumes "hy_ok hc db t"
  shows "btreeleaves (h_stats (h_env t)) = (case h_root t of None \<Rightarrow> 0 | Some r \<Rightarrow> nbtree [r])"
    "blindileaves (h_stats (h_env t)) = (case h_root t of None \<Rightarrow> 0 | Some r \<Rightarrow> nblind [r])"
  using assms by (auto simp: hy_ok_def hy_root_ok_def henv_ok_def acct_def split: option.splits)

lemma insert_leaf_counts:
  assumes ok: "hy_ok hc db t" and k: "new_key hc db kp (hy_items db t)" and ins: "hy_insert hc db t kp kp = Some (t', it, b)"
  shows "hy_ok hc db t'" "hy_size t' = Suc (hy_size t)"
    "\<exists>s. same_course (h_stats (h_env t)) s \<and> h_stats (h_env t') = status_step s (Suc (hy_size t))"
    "if compressing (h_env t) then btreeleaves (h_stats (h_env t')) \<le> btreeleaves (h_stats (h_env t))
     else blindileaves (h_stats (h_env t)) = 0 \<longrightarrow> blindileaves (h_stats (h_env t')) = 0"
proof -
  from hy_insert_spec [OF ok k] ins obtain r where n: "hy_ok hc db t'" "hy_items db t' = ins_list (Key (db kp)) kp (hy_items db t)"
    "h_root t' = Some r" "\<exists>s. same_course (h_stats (h_env t)) s \<and> h_stats (h_env t') = status_step s (Suc (length (hy_items db t)))"
    "\<And>n. h_root t = Some n \<Longrightarrow> \<exists>x M. hy_insert_descend hc db (h_env t) True n kp kp = Some x
        \<and> kinds r = M + sum_list (map kinds (res_nodes x)) \<and> set_mset M \<subseteq> {KInner}" by auto
  show "hy_ok hc db t'" by (rule n)
  show "hy_size t' = Suc (hy_size t)"
    using n(2) hy_ok_size [OF n(1)] hy_ok_size [OF ok] length_ins_list [OF conjunct1 [OF hy_items_sorted [OF ok]]] k
    by (simp add: new_key_def)
  show "\<exists>s. same_course (h_stats (h_env t)) s \<and> h_stats (h_env t') = status_step s (Suc (hy_size t))"
    using n(4) hy_ok_size [OF ok] by simp
  show "if compressing (h_env t) then btreeleaves (h_stats (h_env t')) \<le> btreeleaves (h_stats (h_env t))
     else blindileaves (h_stats (h_env t)) = 0 \<longrightarrow> blindileaves (h_stats (h_env t')) = 0"
  proof (cases "h_root t")
    case None
    then have "hybridstatus (h_stats (h_env t)) = CONTINUE" using ok by (simp add: hy_ok_def)
    moreover obtain a where "r = HBtree a [Key (db kp)] [kp]" using hy_insert_first [OF ok None k] ins n(3) by auto
    ultimately show ?thesis using hy_ok_counts(2) [OF n(1)] n(3) by (simp add: compressing_def)
  next
    case (Some m)
    from n(5) [OF Some] obtain x M where x: "hy_insert_descend hc db (h_env t) True m kp kp = Some x"
      "kinds r = M + sum_list (map kinds (res_nodes x))" "set_mset M \<subseteq> {KInner}" by blast
    have "hcfg_ok hc" "hwf hc db True m" using ok hy_ok_root [OF ok Some] by (simp_all add: hy_ok_def hy_root_ok_def)
    then have "elastic (h_env t) [m] (res_nodes x)" using x(1) by (rule hy_insert_descend_elastic)
    moreover have "elastic (h_env t) (res_nodes x) [r]" by (rule hinsert_node_elastic [OF _ x(3)]) (simp add: x(2))
    ultimately have "elastic (h_env t) [m] [r]" by (rule elastic_trans)
    then show ?thesis using hy_ok_counts [OF ok] hy_ok_counts [OF n(1)] Some n(3) by (auto simp: elastic_def split: if_splits)
  qed
qed

lemma hy_phase_insert:
  assumes ok: "hy_ok hc db t" and ph: "hy_phase t" and k: "new_key hc db kp (hy_items db t)"
    and ins: "hy_insert hc db t kp kp = Some (t', it, b)"
  shows "hy_phase t'"
proof -
  note c = insert_leaf_counts [OF ok k ins]
  obtain s where s: "same_course (h_stats (h_env t)) s" "h_stats (h_env t') = status_step s (Suc (hy_size t))" using c(3) by blast
  note sc = same_courseD [OF s(1)]
  let ?s = "h_stats (h_env t)" and ?s' = "h_stats (h_env t')" and ?n = "Suc (hy_size t)" and ?L = "hy_limit t"
  have lim: "hy_limit t' = ?L" "unat (limit2ShouldCompress s) = ?L" using sc(2) by (simp_all add: hy_limit_def s(2))
  have z: "limit2ReturmFromShouldCompress s = 0" using ph sc(3) by (simp add: hy_phase_def Let_def)
  have z': "limit2ReturmFromShouldCompress ?s' = 0" unfolding s(2) using z by (simp add: status_step_def split: hybrid_status.splits)
  have nm: "hybridstatus s \<noteq> MAY_UNCOMPRESS" using ok sc(1) by (simp add: hy_ok_def)
  have "?n \<le> ?L \<or> btreeleaves ?s' = 0" if "hybridstatus ?s' = CONTINUE"
    using that z nm lim(2) unfolding s(2) by (cases "hybridstatus s") (simp_all add: status_step_def split: if_splits)
  moreover have "hybridstatus ?s' = CONTINUE \<and> blindileaves ?s' = 0" if n: "?n \<le> ?L"
  proof -
    have o: "hybridstatus ?s = CONTINUE" "blindileaves ?s = 0" using ph n by (simp_all add: hy_phase_def Let_def)
    then have "\<not> compressing (h_env t)" by (simp add: compressing_def)
    then have "blindileaves ?s' = 0" using c(4) o(2) by simp
    moreover have "status_step s ?n = s" by (rule status_step_continue) (use sc(1) o lim(2) n in simp_all)
    ultimately show ?thesis using s(2) sc(1) o(1) by simp
  qed
  ultimately show ?thesis using z' c(2) lim(1) by (simp add: hy_phase_def Let_def)
qed

lemma hy_reach_inv: "hy_reach hc db t \<Longrightarrow> limits_ok hc \<Longrightarrow> hy_ok hc db t \<and> hy_phase t"
proof (induction rule: hy_reach.induct)
  case hreach_empty
  then show ?case using empty_hy_ok empty_phase by blast
next
  case (hreach_insert t kp t' it b)
  then show ?case using insert_leaf_counts(1) hy_phase_insert by blast
next
  case (hreach_clear t t')
  then have ok: "hy_ok hc db t" "hy_phase t" by auto
  from hy_clear_spec [OF ok(1)] hreach_clear.prems hreach_clear.hyps obtain
    c: "hy_ok hc db t'" "hy_items db t' = []" "h_root t \<noteq> None \<longrightarrow> h_stats (h_env t') = new_hstats hc" "h_root t' = None"
    by (auto simp: limits_ok_def)
  show ?case
  proof (cases "h_root t")
    case None
    then have "t' = t" using hreach_clear.hyps by (simp add: hy_clear_def)
    then show ?thesis using ok by simp
  next
    case (Some r)
    then show ?thesis using c hy_ok_size [OF c(1)] by (simp add: hy_phase_def new_hstats_def Let_def)
  qed
qed

text \<open>The limit is that of a new index.\<close>

lemma hy_reach_limit:
  assumes "hy_reach hc db t" "limits_ok hc"
  shows "hy_limit t = unat (limit2ShouldCompress (new_hstats hc))"
  using assms
proof (induction rule: hy_reach.induct)
  case hreach_empty
  then show ?case by (simp add: hy_limit_def empty_htree_def)
next
  case (hreach_insert t kp t' it b)
  have "hy_ok hc db t" using hy_reach_inv [OF hreach_insert.hyps(1) hreach_insert.prems] by blast
  from insert_leaf_counts(3) [OF this hreach_insert.hyps(2,3)] obtain s where
    "same_course (h_stats (h_env t)) s" "h_stats (h_env t') = status_step s (Suc (hy_size t))" by blast
  then have "hy_limit t' = hy_limit t" using same_courseD(2) by (simp add: hy_limit_def)
  then show ?case using hreach_insert.IH hreach_insert.prems by simp
next
  case (hreach_clear t t')
  have ok: "hy_ok hc db t" using hy_reach_inv [OF hreach_clear.hyps(1) hreach_clear.prems] by blast
  show ?case
  proof (cases "h_root t")
    case None
    then have "t' = t" using hreach_clear.hyps(2) by (simp add: hy_clear_def)
    then show ?thesis using hreach_clear.IH hreach_clear.prems by simp
  next
    case (Some r)
    then show ?thesis using hy_clear_spec [OF ok] hreach_clear.hyps(2) hreach_clear.prems by (auto simp: limits_ok_def hy_limit_def)
  qed
qed

section \<open>The status after an insertion\<close>

lemma hwf_has_leaf: "hwf hc db root n \<Longrightarrow> leaf_kinds (kinds n) \<noteq> {#}"
proof (induction n arbitrary: root)
  case (HInner l ac ks cs)
  then obtain m ms where "cs = m # ms" by (cases cs) (auto simp: seps_by_def)
  then show ?case using HInner.IH [of m False] HInner.prems by simp
qed auto

lemma hy_insert_status:
  assumes r: "hy_reach hc db t" "limits_ok hc" and k: "new_key hc db kp (hy_items db t)" and ins: "hy_insert hc db t kp kp = Some (t', it, b)"
  shows "hybridstatus (h_stats (h_env t')) = (case hybridstatus (h_stats (h_env t)) of
      CONTINUE \<Rightarrow> if hy_limit t < Suc (hy_size t) \<and> 0 < btreeleaves (h_stats (h_env t')) then SHOULD_COMPRESS else CONTINUE
    | SHOULD_COMPRESS \<Rightarrow> if unat (limit2MustCompress (h_stats (h_env t'))) < Suc (hy_size t) then MUST_COMPRESS else SHOULD_COMPRESS
    | MUST_COMPRESS \<Rightarrow> if btreeleaves (h_stats (h_env t')) = 0 then CONTINUE else MUST_COMPRESS
    | MAY_UNCOMPRESS \<Rightarrow> MAY_UNCOMPRESS)"
proof -
  have ok: "hy_ok hc db t" "hy_phase t" using hy_reach_inv [OF r] by auto
  obtain s where s: "same_course (h_stats (h_env t)) s" "h_stats (h_env t') = status_step s (Suc (hy_size t))"
    using insert_leaf_counts(3) [OF ok(1) k ins] by blast
  note sc = same_courseD [OF s(1)]
  have z: "limit2ReturmFromShouldCompress s = 0" using ok(2) sc(3) by (simp add: hy_phase_def Let_def)
  have "unat (limit2ShouldCompress s) = hy_limit t" using sc(2) by (simp add: hy_limit_def)
  moreover have "hybridstatus (h_stats (h_env t)) \<noteq> MAY_UNCOMPRESS" using ok(1) by (simp add: hy_ok_def)
  ultimately show ?thesis unfolding s(2) sc(1) [symmetric] using z sc(1)
    by (cases "hybridstatus s") (auto simp: status_step_def)
qed

lemma hy_insert_crosses:
  assumes r: "hy_reach hc db t" "limits_ok hc" "hy_size t = hy_limit t" and k: "new_key hc db kp (hy_items db t)"
    and ins: "hy_insert hc db t kp kp = Some (t', it, b)"
  shows "hybridstatus (h_stats (h_env t')) = SHOULD_COMPRESS"
proof -
  have ok: "hy_ok hc db t" "hy_phase t" using hy_reach_inv [OF r(1,2)] by auto
  have s: "hybridstatus (h_stats (h_env t)) = CONTINUE" "blindileaves (h_stats (h_env t)) = 0"
    using ok(2) r(3) by (simp_all add: hy_phase_def Let_def)
  note c = insert_leaf_counts [OF ok(1) k ins]
  have b: "blindileaves (h_stats (h_env t')) = 0" using c(4) s by (simp add: compressing_def)
  have "h_root t' \<noteq> None" using hy_ok_size [OF c(1)] c(2) by (cases "h_root t'") (simp_all add: hy_items_def)
  then obtain n where n: "h_root t' = Some n" by auto
  have "hwf hc db True n" using hy_ok_root [OF c(1) n] by (simp add: hy_root_ok_def)
  then have "leaf_kinds (kinds n) \<noteq> {#}" by (rule hwf_has_leaf)
  then obtain x where x: "x \<in># kinds n" "x \<noteq> KInner" by (auto simp: filter_mset_eq_conv)
  have "filter_mset is_kblind (kinds n) = {#}" using hy_ok_counts(2) [OF c(1)] n b by simp
  then have "\<not> is_kblind x" using x(1) by (auto simp: filter_mset_eq_conv)
  then have "x = KBtree" using x(2) by (cases x) auto
  then have "0 < btreeleaves (h_stats (h_env t'))" using hy_ok_counts(1) [OF c(1)] n x(1) by simp
  then show ?thesis using hy_insert_status [OF r(1,2) k ins] s(1) r(3) by simp
qed

section \<open>A key that is there already\<close>

text \<open>
  An ordinary leaf with room takes a second item with the same key, wherever in the tree it is; nothing else changes.
\<close>

lemma hy_insert_descend_duplicate:
  assumes "hwf hc db root n" "hdescend find_lower (Key (db kp)) n = Some (HBtree a ks vs)" "length ks < h_leafslots hc"
    and "hybridstatus (h_stats e) \<noteq> MUST_COMPRESS"
  shows "\<exists>n' pre post. hy_insert_descend hc db e is_root n kp val
      = Some \<lparr> hi_node = n', hi_split = None, hi_iter = (Some a, find_lower ks (Key (db kp))), hi_env = e \<rparr>
    \<and> hitems db n = pre @ zip ks vs @ post
    \<and> hitems db n' = pre @ zip (put_slot ks (find_lower ks (Key (db kp))) (Key (db kp))) (put_slot vs (find_lower ks (Key (db kp))) val) @ post"
  using assms
proof (induction n arbitrary: root is_root)
  case (HBtree b ks' vs')
  then show ?case by (auto simp: hy_insert_leaf_def insert_btree_leaf_def Let_def intro!: exI [of _ "[]"])
next
  case (HInner l ac ks' cs)
  let ?i = "find_lower ks' (Key (db kp))"
  have len: "?i < length cs" using HInner.prems(1) find_lower_le [of ks' "Key (db kp)"] by (simp add: seps_by_def le_imp_less_Suc)
  have d: "hdescend find_lower (Key (db kp)) (cs ! ?i) = Some (HBtree a ks vs)" using HInner.prems(2) len by simp
  then have "\<forall>a t su nd. cs ! ?i \<noteq> HBlind a t su nd" by auto
  then have c: "compress_sibling hc e ac ks' cs ?i = Some (cs, ac, e)" by (simp add: compress_sibling_def split: hnode.splits)
  have w: "hwf hc db False (cs ! ?i)" using HInner.prems(1) len by simp
  from HInner.IH [OF nth_mem [OF len] w d HInner.prems(3,4), of False] obtain n' pre post where
    n: "hy_insert_descend hc db e False (cs ! ?i) kp val
      = Some \<lparr> hi_node = n', hi_split = None, hi_iter = (Some a, find_lower ks (Key (db kp))), hi_env = e \<rparr>"
      "hitems db (cs ! ?i) = pre @ zip ks vs @ post"
      "hitems db n' = pre @ zip (put_slot ks (find_lower ks (Key (db kp))) (Key (db kp))) (put_slot vs (find_lower ks (Key (db kp))) val) @ post" by blast
  have s: "concat (map (hitems db) (cs[?i := m])) = concat (map (hitems db) (take ?i cs)) @ hitems db m @ concat (map (hitems db) (drop (Suc ?i) cs))" for m
    using len by (simp add: upd_conv_take_nth_drop)
  have "hitems db (HInner l ac ks' cs) = concat (map (hitems db) (take ?i cs)) @ (pre @ zip ks vs @ post) @ concat (map (hitems db) (drop (Suc ?i) cs))"
    using s [of "cs ! ?i"] n(2) by simp
  then show ?case using len c n(1,3) s [of n']
    by (intro exI [of _ "HInner l ac ks' (cs[?i := n'])"] exI [of _ "concat (map (hitems db) (take ?i cs)) @ pre"]
        exI [of _ "post @ concat (map (hitems db) (drop (Suc ?i) cs))"]) (simp add: Let_def)
qed auto

lemma filter_key_once: "distinct (map fst xs) \<Longrightarrow> k \<in> fst ` set xs \<Longrightarrow> length (filter (\<lambda>x. fst x = k) xs) = 1"
  by (induction xs) (auto simp: filter_empty_conv image_iff)

lemma hy_insert_duplicate:
  assumes ok: "hy_ok hc db t" and r: "h_root t = Some r" "hdescend find_lower (Key (db kp)) r = Some (HBtree a ks vs)"
    and room: "length ks < h_leafslots hc" "hybridstatus (h_stats (h_env t)) \<noteq> MUST_COMPRESS" and mem: "Key (db kp) \<in> set ks"
  shows "\<exists>t' it. hy_insert hc db t kp val = Some (t', it, True) \<and> hy_size t' = Suc (hy_size t)
    \<and> length (hy_items db t') = Suc (length (hy_items db t)) \<and> length (filter (\<lambda>x. fst x = Key (db kp)) (hy_items db t')) = 2"
proof -
  let ?k = "Key (db kp)" and ?e = "h_env t"
  let ?i = "find_lower ks ?k"
  let ?ks = "put_slot ks ?i ?k" and ?vs = "put_slot vs ?i val"
  have w: "hwf hc db True r" using hy_ok_root [OF ok r(1)] by (simp add: hy_root_ok_def)
  obtain root where "hwf hc db root (HBtree a ks vs)" using hy_leaf_parts [OF ok r] by metis
  then have l: "length vs = length ks" by simp
  from hy_insert_descend_duplicate [OF w r(2) room, of True val] obtain n' pre post where
    n: "hy_insert_descend hc db ?e True r kp val = Some \<lparr> hi_node = n', hi_split = None, hi_iter = (Some a, ?i), hi_env = ?e \<rparr>"
      "hitems db r = pre @ zip ks vs @ post" "hitems db n' = pre @ zip ?ks ?vs @ post" by blast
  obtain t' where t': "hy_insert hc db t kp val = Some (t', (Some a, ?i), True)" "h_root t' = Some n'" "hy_size t' = Suc (hy_size t)"
    using n(1) r(1) by (simp add: hy_insert_def hy_size_def Let_def)
  have it: "hy_items db t = pre @ zip ks vs @ post" "hy_items db t' = pre @ zip ?ks ?vs @ post" using n r(1) t'(2) by (simp_all add: hy_items_def)
  have i: "?i \<le> length ks" by (rule find_lower_le)
  have z: "zip ?ks ?vs = take ?i (zip ks vs) @ (?k, val) # drop ?i (zip ks vs)"
    unfolding put_slot_def using i l by (simp add: zip_append take_zip drop_zip)
  have one: "length (filter (\<lambda>x. fst x = ?k) (hy_items db t)) = 1"
  proof -
    have "distinct (map fst (hy_items db t))" using hy_items_sorted [OF ok] strict_sorted_iff sorted_wrt_map by blast
    moreover have "map fst (zip ks vs) = ks" using l by simp
    then have "?k \<in> fst ` set (zip ks vs)" using mem by (metis list.set_map)
    then have "?k \<in> fst ` set (hy_items db t)" unfolding it by (simp add: image_Un)
    ultimately show ?thesis by (rule filter_key_once)
  qed
  have s: "filter P (zip ks vs) = filter P (take ?i (zip ks vs)) @ filter P (drop ?i (zip ks vs))" for P
    by (metis append_take_drop_id filter_append)
  have "length (filter (\<lambda>x. fst x = ?k) (hy_items db t')) = Suc (length (filter (\<lambda>x. fst x = ?k) (hy_items db t)))"
    unfolding it z using s by simp
  moreover have "length (hy_items db t') = Suc (length (hy_items db t))" unfolding it z using i l by simp
  ultimately show ?thesis using t'(1,3) one by simp
qed

section \<open>Progress of the compression\<close>

lemma hy_insert_descend_must:
  assumes cfg: "hcfg_ok hc" and must: "hybridstatus (h_stats e) = MUST_COMPRESS"
    and "hwf hc db root n" "hdescend find_lower (Key (db kp)) n = Some (HBtree a ks vs)" "hy_insert_descend hc db e is_root n kp val = Some r"
  shows "nbtree (res_nodes r) < nbtree [n]"
  using assms(3-)
proof (induction n arbitrary: root is_root r)
  case (HBtree b ks' vs')
  let ?t = "if length ks' \<noteq> h_leafslots hc then 1 else 2"
  have m: "hybridstatus (h_stats e) = MUST_COMPRESS \<or> (hybridstatus (h_stats e) = SHOULD_COMPRESS \<and> length ks' = h_leafslots hc)" using must by simp
  from HBtree.prems(3) obtain c nd e' r' where
    r: "insert_blindi_leaf hc db e' is_root c ?t (length ks') nd kp = Some r'" "r = (if is_root then r' \<lparr> hi_node := HFreed \<rparr> else r')"
    unfolding hy_insert_descend.simps hy_insert_leaf_def hnode.case if_P [OF m] Let_def by (auto simp: bind_eq_Some_conv split: prod.splits)
  have "nbtree (res_nodes r') = 0" using r(1)
    by (auto simp: insert_blindi_leaf_def res_nodes_def bind_eq_Some_conv Let_def split: if_splits prod.splits)
  then show ?case using r(2) by (simp add: res_nodes_def)
next
  case (HInner l ac ks' cs)
  let ?i = "find_lower ks' (Key (db kp))"
  have len: "length cs = Suc (length ks')" "?i \<le> length ks'" "?i < length cs" using HInner.prems(1) find_lower_le [of ks' "Key (db kp)"]
    by (simp_all add: seps_by_def le_imp_less_Suc)
  have d: "hdescend find_lower (Key (db kp)) (cs ! ?i) = Some (HBtree a ks vs)" using HInner.prems(2) len(3) by simp
  then have nb: "\<forall>a t su nd. cs ! ?i \<noteq> HBlind a t su nd" by auto
  then have c: "compress_sibling hc e ac ks' cs ?i = Some (cs, ac, e)" by (simp add: compress_sibling_def split: hnode.splits)
  with HInner.prems(3) len(3) obtain r' where
    r: "hy_insert_descend hc db e False (cs ! ?i) kp val = Some r'"
      "r = (case hi_split r' of
              None \<Rightarrow> r' \<lparr> hi_node := HInner l ac ks' (cs[?i := hi_node r']) \<rparr>
            | Some (newkey, newchild) \<Rightarrow>
                (let (n, split, e) = h_insert_inner hc (hi_env r') l ac ks' (cs[?i := hi_node r']) ?i newkey newchild
                 in r' \<lparr> hi_node := n, hi_split := split, hi_env := e \<rparr>))"
    by (auto simp: bind_eq_Some_conv Let_def split: prod.splits)
  have w: "hwf hc db False (cs ! ?i)" using HInner.prems(1) len(3) by simp
  have lt: "nbtree (res_nodes r') < nbtree [cs ! ?i]" by (rule HInner.IH [OF nth_mem [OF len(3)] w d r(1)])
  have "4 \<le> h_innerslots hc" using cfg by (simp add: hcfg_ok_def)
  from hinsert_node_kinds [OF this len(1,2), where r = r' and l = l and ac = ac, folded r(2)] obtain M where
    m: "sum_list (map kinds (res_nodes r)) = M + sum_list (map kinds (take ?i cs @ res_nodes r' @ drop (Suc ?i) cs))" "set_mset M \<subseteq> {KInner}" by blast
  have z: "count M KBtree = 0" using m(2) by (auto simp: not_in_iff [symmetric])
  have "sum_list (map kinds cs) = sum_list (map kinds (take ?i cs)) + kinds (cs ! ?i) + sum_list (map kinds (drop (Suc ?i) cs))"
    by (subst id_take_nth_drop [OF len(3)]) simp
  then show ?case using lt m(1) z by simp
qed auto

lemma hy_insert_must:
  assumes ok: "hy_ok hc db t" and k: "new_key hc db kp (hy_items db t)" and ins: "hy_insert hc db t kp kp = Some (t', it, b)"
    and must: "hybridstatus (h_stats (h_env t)) = MUST_COMPRESS"
    and r: "h_root t = Some n" "hdescend find_lower (Key (db kp)) n = Some (HBtree a ks vs)"
  shows "btreeleaves (h_stats (h_env t')) < btreeleaves (h_stats (h_env t))"
proof -
  from hy_insert_spec [OF ok k] ins r(1) obtain r' x M where n: "hy_ok hc db t'" "h_root t' = Some r'"
    "hy_insert_descend hc db (h_env t) True n kp kp = Some x" "kinds r' = M + sum_list (map kinds (res_nodes x))" "set_mset M \<subseteq> {KInner}" by auto
  have c: "hcfg_ok hc" "hwf hc db True n" using ok hy_ok_root [OF ok r(1)] by (simp_all add: hy_ok_def hy_root_ok_def)
  have z: "count M KBtree = 0" using n(5) by (auto simp: not_in_iff [symmetric])
  have "nbtree (res_nodes x) < nbtree [n]" by (rule hy_insert_descend_must [OF c(1) must c(2) r(2) n(3)])
  then show ?thesis using hy_ok_counts(1) [OF ok] hy_ok_counts(1) [OF n(1)] n(2,4) r(1) z by simp
qed

end
