(* ===== verification/Hybrid_Refine.thy ===== *)
theory Hybrid_Refine
  imports Hybrid_Status BTree_Map
begin

text \<open>
  Below its limit the elastic index is the B+ tree: a simulation of the insertions and lookups by those of
  \<^verbatim>\<open>stx::btree\<close>.
\<close>

section \<open>Below the limit the elastic index is the B+ tree\<close>

fun habs :: "hnode \<Rightarrow> (key, ptr) bnode" where
  "habs (HBtree a ks vs) = Leaf a ks vs"
| "habs (HBlind a t su nd) = Leaf a [] []"
| "habs (HInner l ac ks cs) = Inner l ks (map habs cs)"
| "habs HFreed = Leaf 0 [] []"

fun pure_btree :: "hnode \<Rightarrow> bool" where
  "pure_btree (HBtree a ks vs) = True"
| "pure_btree (HInner l ac ks cs) = (\<forall>n \<in> set cs. pure_btree n)"
| "pure_btree _ = False"

definition habs_tree :: "htree \<Rightarrow> (key, ptr) btree" where
  "habs_tree t = \<lparr> m_root = map_option habs (h_root t), m_env = h_base (h_env t) \<rparr>"

lemma pure_nblind: "hwf hc db root n \<Longrightarrow> nblind [n] = 0 \<Longrightarrow> pure_btree n"
proof (induction n arbitrary: root)
  case (HInner l ac ks cs)
  have "nblind [m] = 0" if m: "m \<in> set cs" for m
  proof -
    have "set_mset (kinds m) \<subseteq> set_mset (sum_list (map kinds cs))" using m by (induction cs) auto
    then show ?thesis using HInner.prems(2) by auto
  qed
  then show ?case using HInner by fastforce
qed auto

lemma put_slot_map: "map f (put_slot xs i x) = put_slot (map f xs) i (f x)"
  by (simp add: put_slot_def take_map drop_map)

lemma split_put_map:
  assumes l: "length cs = Suc (length ks)" and L: "\<And>ks cs. f (L ks cs) = L' ks (map g cs)" and R: "\<And>ks cs. f (R ks cs) = R' ks (map g cs)"
  shows "split_put L' R' ks (map g cs) slot k (g m) = (case split_put L R ks cs slot k m of (n, x, n') \<Rightarrow> (f n, x, f n'))"
proof -
  define mid where "mid = split_mid (length ks) slot"
  have "drop (Suc mid) cs \<noteq> []" if "mid < length (drop (mid + 1) ks)" using that l by auto
  then have h: "mid < length (drop (mid + 1) ks) \<Longrightarrow> map g (drop (Suc mid) cs) ! 0 = g (drop (Suc mid) cs ! 0)" by simp
  have ml: "length (take mid ks) \<le> mid" by simp
  show ?thesis
    unfolding split_put_def Let_def mid_def [symmetric]
    using h by (auto simp: L R put_slot_map take_map drop_map map_update split: if_splits)
qed

definition sim_res :: "hins_result \<Rightarrow> (key, ptr) ins_result \<Rightarrow> bool" where
  "sim_res r i \<longleftrightarrow> habs (hi_node r) = i_node i \<and> map_option (\<lambda>(k, m). (k, habs m)) (hi_split r) = i_split i \<and> hi_iter r = i_iter i
     \<and> h_base (hi_env r) = i_env i \<and> i_done i"

lemma sim_leaf:
  assumes "key \<notin> set ks" "sorted_wrt (<) ks"
  shows "sim_res (insert_btree_leaf hc e a ks vs key val) (insert_leaf (leaf_cfg hc) (h_base e) a ks vs key val)"
proof -
  from insert_btree_leaf_bt [OF assms, of hc e a vs val] show ?thesis
    by (auto simp: sim_res_def split: if_splits)
qed

lemma sim_node:
  fixes l :: nat and ac :: bool
  assumes l: "length cs = Suc (length ks)" and s: "sim_res r i"
  shows "sim_res (case hi_split r of
              None \<Rightarrow> r \<lparr> hi_node := HInner l ac ks (cs[j := hi_node r]) \<rparr>
            | Some (newkey, newchild) \<Rightarrow>
                (let (n, split, e) = h_insert_inner hc (hi_env r) l ac ks (cs[j := hi_node r]) j newkey newchild
                 in r \<lparr> hi_node := n, hi_split := split, hi_env := e \<rparr>))
      (case i_split i of
              None \<Rightarrow> i \<lparr> i_node := Inner l ks ((map habs cs)[j := i_node i]) \<rparr>
            | Some (newkey, newchild) \<Rightarrow>
                (let (n, split, e) = insert_inner (leaf_cfg hc) (i_env i) l ks ((map habs cs)[j := i_node i]) j newkey newchild
                 in i \<lparr> i_node := n, i_split := split, i_env := e \<rparr>))"
proof (cases "hi_split r")
  case None
  then have "i_split i = None" using s by (simp add: sim_res_def)
  then show ?thesis using None s by (simp add: sim_res_def map_update)
next
  case (Some km)
  obtain k m where km: "km = (k, m)" by (cases km)
  have i: "i_split i = Some (k, habs m)" "habs (hi_node r) = i_node i" "h_base (hi_env r) = i_env i" "hi_iter r = i_iter i" "i_done i"
    using s Some km by (auto simp: sim_res_def)
  let ?cs = "cs[j := hi_node r]"
  have cs: "(map habs cs)[j := i_node i] = map habs ?cs" by (simp add: map_update i(2))
  show ?thesis
  proof (cases "length ks = h_innerslots hc")
    case False
    then have f: "h_insert_inner hc (hi_env r) l ac ks ?cs j k m = (HInner l ac (put_slot ks j k) (put_slot ?cs (j + 1) m), None, hi_env r)"
      "insert_inner (leaf_cfg hc) (i_env i) l ks (map habs ?cs) j k (habs m) = (Inner l (put_slot ks j k) (put_slot (map habs ?cs) (j + 1) (habs m)), None, i_env i)"
      by (simp_all add: h_insert_inner_def insert_inner_def)
    show ?thesis using Some km i f by (simp add: sim_res_def cs put_slot_map)
  next
    case True
    then have tr: "length ks = innerslotmax (leaf_cfg hc)" by simp
    obtain n x n' where sp: "split_put (HInner l ac) (HInner l False) ks ?cs j k m = (n, x, n')" by (cases "split_put (HInner l ac) (HInner l False) ks ?cs j k m")
    have l': "length ?cs = Suc (length ks)" using l by simp
    have sb: "split_put (Inner l) (Inner l) ks (map habs ?cs) j k (habs m) = (habs n, x, habs n')"
      using split_put_map [OF l', of habs "HInner l ac" "Inner l" habs "HInner l False" "Inner l" j k m] sp by simp
    have "h_base (allocate_hinner hc (hi_env r)) = allocate_inner (i_env i)" by (simp add: allocate_hinner_def i(3))
    then show ?thesis using Some km i by (simp add: sim_res_def cs h_insert_inner_full [OF True] insert_inner_full [OF tr] sp sb)
  qed
qed

lemma sim_descend:
  assumes cfg: "hcfg_ok hc" and calm: "\<not> compressing e"
    and "hwf hc db root n" "sorted_items (hitems db n)" "pure_btree n" "Key (db kp) \<notin> fst ` set (hitems db n)"
  shows "\<exists>r i. hy_insert_descend hc db e is_root n kp kp = Some r
    \<and> insert_descend (leaf_cfg hc) (h_base e) (habs n) (Key (db kp)) kp = Some i \<and> sim_res r i"
  using assms(3-)
proof (induction n arbitrary: root is_root)
  case (HBtree a ks vs)
  have l: "length vs = length ks" using HBtree.prems(1) by simp
  then have mf: "map fst (zip ks vs) = ks" by simp
  have sk: "sorted_wrt (<) ks" using HBtree.prems(2) mf by (simp add: sorted_wrt_map [symmetric])
  have nk: "Key (db kp) \<notin> set ks" using HBtree.prems(4) mf by (metis hitems.simps(1) list.set_map)
  have "hy_insert_leaf hc db e is_root (HBtree a ks vs) kp kp = Some (insert_btree_leaf hc e a ks vs (Key (db kp)) kp)"
    using calm by (simp add: hy_insert_leaf_def compressing_def)
  then show ?case using sim_leaf [OF nk sk] by simp
next
  case (HInner l ac ks cs)
  let ?key = "Key (db kp)"
  let ?i = "find_lower ks ?key"
  note p = hinner_parts [OF HInner.prems(1,2)]
  note b = hn.find_bounds [OF p refl, of ?key]
  have w: "hwf hc db False (cs ! ?i)" "pure_btree (cs ! ?i)" using p(2) b(5) HInner.prems(3) by simp_all
  have nk: "?key \<notin> fst ` set (hitems db (cs ! ?i))" using HInner.prems(4) hn.ins_child(3) [OF p refl, of ?key] by simp
  have c: "compress_sibling hc e ac ks cs ?i = Some (cs, ac, e)" using w(2) by (auto simp: compress_sibling_def split: hnode.splits)
  from HInner.IH [OF nth_mem [OF b(5)] w(1) b(3) w(2) nk, of False] obtain r i where
    r: "hy_insert_descend hc db e False (cs ! ?i) kp kp = Some r" "insert_descend (leaf_cfg hc) (h_base e) (habs (cs ! ?i)) ?key kp = Some i" "sim_res r i"
    by blast
  have "length cs = Suc (length ks)" using p(1) by (simp add: seps_by_def)
  from sim_node [OF this r(3)] show ?case using c r(1,2) b(5) by (simp add: Let_def)
qed auto

lemma level_habs: "level (habs n) = hlevel n"
  by (cases n) auto

lemma hy_insert_bt:
  assumes ok: "hy_ok hc db t" and st: "hybridstatus (h_stats (h_env t)) = CONTINUE" "blindileaves (h_stats (h_env t)) = 0"
    and k: "new_key hc db kp (hy_items db t)"
  shows "\<exists>t' it. hy_insert hc db t kp kp = Some (t', it, True)
    \<and> bt_insert (leaf_cfg hc) (habs_tree t) (Key (db kp)) kp = Some (habs_tree t', it, True)"
proof -
  have cfg: "hcfg_ok hc" using ok by (simp add: hy_ok_def)
  have calm: "\<not> compressing (h_env t)" using st by (simp add: compressing_def)
  from hy_insert_spec [OF ok k] obtain t' it r where run: "hy_insert hc db t kp kp = Some (t', it, True)" by blast
  show ?thesis
  proof (cases "h_root t")
    case None
    obtain e where e: "first_leaf hc (h_env t) = (fresh (h_base (h_env t)), e)"
      "h_base e = (snd (allocate_leaf (h_base (h_env t)))) \<lparr> m_headleaf := Some (fresh (h_base (h_env t))), m_tailleaf := Some (fresh (h_base (h_env t))) \<rparr>"
      "hybridstatus (h_stats e) = CONTINUE"
      using st by (simp add: first_leaf_def allocate_btree_leaf_def allocate_leaf_def Let_def)
    have al: "allocate_leaf (h_base (h_env t)) = (fresh (h_base (h_env t)), snd (allocate_leaf (h_base (h_env t))))" by (simp add: allocate_leaf_def)
    have "hy_insert_descend hc db e True (HBtree (fresh (h_base (h_env t))) [] []) kp kp
      = Some (insert_btree_leaf hc e (fresh (h_base (h_env t))) [] [] (Key (db kp)) kp)"
      using e(3) by (simp add: hy_insert_leaf_def)
    moreover have "sim_res (insert_btree_leaf hc e (fresh (h_base (h_env t))) [] [] (Key (db kp)) kp)
      (insert_leaf (leaf_cfg hc) (h_base e) (fresh (h_base (h_env t))) [] [] (Key (db kp)) kp)" by (rule sim_leaf) simp_all
    moreover have "hi_split (insert_btree_leaf hc e (fresh (h_base (h_env t))) [] [] (Key (db kp)) kp) = None"
      using cfg by (simp add: insert_btree_leaf_def hcfg_ok_def)
    ultimately show ?thesis using run None e(1,2) al
      by (auto simp: hy_insert_def bt_insert_def insert_start_def habs_tree_def first_leaf_def sim_res_def Let_def split: prod.splits)
  next
    case (Some n)
    have w: "hwf hc db True n" "sorted_items (hitems db n)" using hy_ok_root [OF ok Some] by (simp_all add: hy_root_ok_def)
    have "nblind [n] = 0" using hy_ok_counts(2) [OF ok] st(2) Some by simp
    then have pure: "pure_btree n" by (rule pure_nblind [OF w(1)])
    have nk: "Key (db kp) \<notin> fst ` set (hitems db n)" using k Some by (simp add: new_key_def hy_items_def)
    from sim_descend [OF cfg calm w pure nk, of True] obtain r i where
      r: "hy_insert_descend hc db (h_env t) True n kp kp = Some r" "insert_descend (leaf_cfg hc) (h_base (h_env t)) (habs n) (Key (db kp)) kp = Some i"
        "sim_res r i" by blast
    note s = r(3) [unfolded sim_res_def]
    show ?thesis
    proof (cases "hi_split r")
      case None
      then have "i_split i = None" using s by simp
      then show ?thesis using run r(1,2) s None Some
        by (auto simp: hy_insert_def bt_insert_def insert_start_def habs_tree_def Let_def)
    next
      case sp: (Some km)
      obtain x m where km: "km = (x, m)" by (cases km)
      then have "i_split i = Some (x, habs m)" using s sp by auto
      then show ?thesis using run r(1,2) s sp km Some level_habs [of "hi_node r"]
        by (auto simp: hy_insert_def bt_insert_def insert_start_def habs_tree_def allocate_hinner_def Let_def bind_eq_Some_conv split: if_splits)
    qed
  qed
qed

text \<open>Lookups agree as well.\<close>

lemma items_habs: "pure_btree n \<Longrightarrow> items (habs n) = hitems db n"
proof (induction n)
  case (HInner l ac ks cs)
  then show ?case by (simp add: comp_def cong: map_cong)
qed auto

lemma leaf_list_habs: "pure_btree n \<Longrightarrow> leaf_list (habs n) = map (\<lambda>m. case m of HBtree a ks vs \<Rightarrow> (a, ks, vs) | _ \<Rightarrow> (0, [], [])) (hleaves n)"
proof (induction n)
  case (HInner l ac ks cs)
  then show ?case by (simp add: map_concat comp_def cong: map_cong)
qed auto

lemma pure_leaves: "pure_btree n \<Longrightarrow> m \<in> set (hleaves n) \<Longrightarrow> \<exists>a ks vs. m = HBtree a ks vs"
  by (induction n) auto

lemma descend_habs:
  "pure_btree n \<Longrightarrow> descend srch key (habs n) = map_option (\<lambda>m. case m of HBtree a ks vs \<Rightarrow> (a, ks, vs) | _ \<Rightarrow> (0, [], [])) (hdescend srch key n)"
  "pure_btree n \<Longrightarrow> hdescend srch key n = Some m \<Longrightarrow> \<exists>a ks vs. m = HBtree a ks vs"
proof -
  show "pure_btree n \<Longrightarrow> descend srch key (habs n) = map_option (\<lambda>m. case m of HBtree a ks vs \<Rightarrow> (a, ks, vs) | _ \<Rightarrow> (0, [], [])) (hdescend srch key n)"
    by (induction n) (auto split: if_splits)
  show "pure_btree n \<Longrightarrow> hdescend srch key n = Some m \<Longrightarrow> \<exists>a ks vs. m = HBtree a ks vs"
  proof (induction n)
    case (HInner l ac ks cs)
    then show ?case using nth_mem by (fastforce split: if_splits)
  qed auto
qed

lemma map_of_find_leaves:
  "\<forall>m \<in> set ms. \<exists>a ks vs. m = HBtree a ks vs \<Longrightarrow>
   map_of (map (\<lambda>m. case m of HBtree a ks vs \<Rightarrow> (a, ks, vs) | _ \<Rightarrow> (0, [], [])) ms) b
     = map_option (\<lambda>m. case m of HBtree a ks vs \<Rightarrow> (ks, vs) | _ \<Rightarrow> ([], [])) (find (\<lambda>m. hleaf_addr m = b) ms)"
  by (induction ms) auto

lemma hy_end_bt:
  assumes "\<And>n. h_root t = Some n \<Longrightarrow> pure_btree n"
  shows "hy_end t = iter_end (habs_tree t)"
proof -
  have "get_leaf (habs_tree t) b = map_option (\<lambda>m. case m of HBtree a ks vs \<Rightarrow> (ks, vs) | _ \<Rightarrow> ([], [])) (hleaf_at t b)" for b
  proof (cases "h_root t")
    case (Some n)
    have "\<forall>m \<in> set (hleaves n). \<exists>a ks vs. m = HBtree a ks vs" using pure_leaves assms [OF Some] by blast
    from map_of_find_leaves [OF this] show ?thesis using Some leaf_list_habs [OF assms [OF Some]]
      by (simp add: get_leaf_def habs_tree_def leaf_at_map_of hleaf_at_def)
  qed (simp add: get_leaf_def habs_tree_def hleaf_at_def)
  moreover have "\<exists>a ks vs. m = HBtree a ks vs" if "hleaf_at t b = Some m" for b m
    using that assms pure_leaves by (auto simp: hleaf_at_def find_Some_iff split: option.splits)
  note x = this calculation
  show ?thesis
  proof (cases "m_tailleaf (h_base (h_env t))")
    case None then show ?thesis by (simp add: hy_end_def iter_end_def habs_tree_def)
  next
    case (Some a)
    show ?thesis
    proof (cases "hleaf_at t a")
      case None
      then show ?thesis using Some x(2) [of a] by (simp add: hy_end_def iter_end_def) (simp add: habs_tree_def)
    next
      case (Some m)
      then obtain ks vs b where "m = HBtree b ks vs" using x(1) by blast
      then show ?thesis using Some \<open>m_tailleaf (h_base (h_env t)) = Some a\<close> x(2) [of a]
        by (simp add: hy_end_def iter_end_def) (simp add: habs_tree_def)
    qed
  qed
qed

lemma hy_find_bt:
  assumes "\<And>n. h_root t = Some n \<Longrightarrow> pure_btree n"
  shows "hy_find hc db t key = bt_find (habs_tree t) key"
proof (cases "h_root t")
  case None
  have "hy_end t = iter_end (habs_tree t)" by (rule hy_end_bt [OF assms])
  then show ?thesis using None by (simp add: hy_find_def bt_find_def habs_tree_def)
next
  case (Some n)
  note d = descend_habs [OF assms [OF Some], of find_lower key]
  show ?thesis
  proof (cases "hdescend find_lower key n")
    case None
    then show ?thesis using d(1) Some by (simp add: hy_find_def bt_find_def habs_tree_def)
  next
    case (Some m)
    then obtain a ks vs where m: "m = HBtree a ks vs" using d(2) by blast
    have "hy_end t = iter_end (habs_tree t)" by (rule hy_end_bt [OF assms])
    then show ?thesis using d(1) Some \<open>h_root t = Some n\<close> m
      by (simp add: hy_find_def hy_find_leaf_def bt_find_def habs_tree_def Let_def)
  qed
qed

lemma hy_reach_bt:
  assumes "hy_reach hc db t" "limits_ok hc" "hy_size t \<le> hy_limit t"
  shows "bt_ok (leaf_cfg hc) (habs_tree t) \<and> tree_items (habs_tree t) = hy_items db t \<and> (\<forall>n. h_root t = Some n \<longrightarrow> pure_btree n)"
proof -
  have pure: "pure_btree n" if "hy_ok hc db t" "hy_phase t" "hy_size t \<le> hy_limit t" "h_root t = Some n" for t n
  proof -
    have "blindileaves (h_stats (h_env t)) = 0" using that(2,3) by (simp add: hy_phase_def Let_def)
    then have "nblind [n] = 0" using hy_ok_counts(2) [OF that(1)] that(4) by simp
    then show ?thesis using pure_nblind hy_ok_root [OF that(1,4)] by (auto simp: hy_root_ok_def)
  qed
  have inv: "hy_ok hc db t" "hy_phase t" using hy_reach_inv assms by blast+
  note p = pure [OF inv assms(3)]
  have "bt_ok (leaf_cfg hc) (habs_tree t)" using assms
  proof (induction rule: hy_reach.induct)
    case hreach_empty
    have "bcfg_ok (leaf_cfg hc)" using hreach_empty by (simp add: limits_ok_def hcfg_ok_def bcfg_ok_def)
    then show ?case using empty_btree_ok by (simp add: habs_tree_def empty_htree_def empty_btree_def)
  next
    case (hreach_insert t kp t' it b)
    have i: "hy_ok hc db t" "hy_phase t" using hy_reach_inv hreach_insert by blast+
    note c = insert_leaf_counts [OF i(1) hreach_insert.hyps(2,3)]
    obtain s where "same_course (h_stats (h_env t)) s" "h_stats (h_env t') = status_step s (Suc (hy_size t))" using c(3) by blast
    then have "hy_limit t' = hy_limit t" using same_courseD(2) by (simp add: hy_limit_def)
    then have le: "hy_size t \<le> hy_limit t" using c(2) hreach_insert.prems(2) by simp
    then have ok: "bt_ok (leaf_cfg hc) (habs_tree t)" using hreach_insert.IH hreach_insert.prems(1) by simp
    have "hybridstatus (h_stats (h_env t)) = CONTINUE" "blindileaves (h_stats (h_env t)) = 0" using i(2) le by (simp_all add: hy_phase_def Let_def)
    from hy_insert_bt [OF i(1) this hreach_insert.hyps(2)] hreach_insert.hyps(3)
    have "bt_insert (leaf_cfg hc) (habs_tree t) (Key (db kp)) kp = Some (habs_tree t', it, True)" by auto
    then show ?case using bt_insert_spec [OF ok, of "Key (db kp)" kp] by auto
  next
    case (hreach_clear t t')
    have i: "hy_ok hc db t" "hy_phase t" using hy_reach_inv hreach_clear by blast+
    show ?case
    proof (cases "h_root t")
      case None
      then have "t' = t" using hreach_clear.hyps by (simp add: hy_clear_def)
      then show ?thesis using hreach_clear by simp
    next
      case (Some r)
      have "bcfg_ok (leaf_cfg hc)" using hreach_clear.prems by (simp add: limits_ok_def hcfg_ok_def bcfg_ok_def)
      moreover obtain y e where "free_hnode hc r y = Some e" "t' = \<lparr> h_root = None, h_env = \<lparr> h_base = (h_base e) \<lparr> m_headleaf := None, m_tailleaf := None, m_stats := zero_stats \<rparr>,
                h_stats = new_hstats hc \<rparr> \<rparr>" using hreach_clear.hyps Some by (auto simp: hy_clear_def bind_eq_Some_conv)
      ultimately show ?thesis
        by (simp add: bt_ok_def habs_tree_def tree_items_def tree_leaves_def tree_ninner_def chain_def zero_stats_def bt_size_def)
    qed
  qed
  moreover have "tree_items (habs_tree t) = hy_items db t"
    using items_habs p by (cases "h_root t") (auto simp: tree_items_def habs_tree_def hy_items_def)
  ultimately show ?thesis using p by blast
qed

end
