(* ===== verification/Hybrid_Map.thy ===== *)
theory Hybrid_Map
  imports Hybrid_Refine Samples
begin

text \<open>
  The elastic index as a container for new items: it interprets the contract \<open>add_map\<close>, so that the insertion of any range
  of new keys runs to its end. With a sample over the limit, and reachable samples, for the witnesses.
\<close>

section \<open>The elastic index as a container\<close>

text \<open>The data of an item is the address of the record that holds its key.\<close>

definition hy_add :: "hcfg \<Rightarrow> db \<Rightarrow> htree \<Rightarrow> key \<Rightarrow> ptr \<Rightarrow> (htree \<times> bool) option" where
  "hy_add hc db t k v = do { (t, it, b) \<leftarrow> hy_insert hc db t v v; Some (t, b) }"

definition hy_legal :: "hcfg \<Rightarrow> db \<Rightarrow> key \<Rightarrow> ptr \<Rightarrow> bool" where
  "hy_legal hc db k v \<longleftrightarrow> k = Key (db v) \<and> length (db v) = h_key_len hc"

definition hy_inv :: "hcfg \<Rightarrow> db \<Rightarrow> htree \<Rightarrow> bool" where
  "hy_inv hc db t \<longleftrightarrow> limits_ok hc \<and> hy_reach hc db t"

interpretation hy: add_map "hy_inv hc db" "hy_items db" "hy_legal hc db" "hy_add hc db" for hc db
proof
  fix t :: htree and k :: key and v :: ptr
  assume i: "hy_inv hc db t"
  then have ok: "hy_ok hc db t" using hy_reach_inv by (auto simp: hy_inv_def)
  show "sorted_items (hy_items db t)" using hy_items_sorted [OF ok] by blast
  assume l: "hy_legal hc db k v" "k \<notin> fst ` set (hy_items db t)"
  then have nk: "new_key hc db v (hy_items db t)" by (simp add: hy_legal_def new_key_def)
  from hy_insert_spec [OF ok nk] obtain t' it where t': "hy_insert hc db t v v = Some (t', it, True)" "hy_items db t' = ins_list (Key (db v)) v (hy_items db t)" by blast
  have "hy_inv hc db t'" using i hreach_insert [OF _ nk t'(1)] by (simp add: hy_inv_def)
  then show "\<exists>t'. hy_add hc db t k v = Some (t', True) \<and> hy_inv hc db t' \<and> hy_items db t' = ins_list k v (hy_items db t)"
    using t' l by (simp add: hy_add_def hy_legal_def)
qed

text \<open>\<^verbatim>\<open>insert(first, last)\<close> of records, whose keys are the data.\<close>

lemma hy_insert_range_add: "hy_insert_range hc db t (map (\<lambda>p. (p, p)) ps) = add_all (hy_add hc db) (map (\<lambda>p. (Key (db p), p)) ps) t"
proof (induction ps arbitrary: t)
  case (Cons p ps)
  show ?case by (cases "hy_insert hc db t p p") (auto simp: hy_add_def Cons.IH)
qed simp

lemma new_items_map:
  "new_items (hy_legal hc db) (map (\<lambda>p. (Key (db p), p)) ps) K \<longleftrightarrow>
     distinct (map db ps) \<and> (\<forall>p \<in> set ps. length (db p) = h_key_len hc \<and> Key (db p) \<notin> K)"
proof (induction ps arbitrary: K)
  case (Cons p ps)
  have l: "hy_legal hc db (Key (db p)) p = (length (db p) = h_key_len hc)" by (simp add: hy_legal_def)
  have "db p \<notin> db ` set ps \<longleftrightarrow> (\<forall>q \<in> set ps. db q \<noteq> db p)" by (auto simp: image_iff)
  then show ?case by (simp add: Cons.IH l) blast
qed simp

lemma hy_insert_range_spec:
  assumes "hy_reach hc db t" "limits_ok hc" "distinct (map db ps)"
    and "\<forall>p \<in> set ps. length (db p) = h_key_len hc \<and> Key (db p) \<notin> fst ` set (hy_items db t)"
  shows "\<exists>t'. hy_insert_range hc db t (map (\<lambda>p. (p, p)) ps) = Some t' \<and> hy_reach hc db t'
    \<and> hy_items db t' = ins_items (map (\<lambda>p. (Key (db p), p)) ps) (hy_items db t)
    \<and> set (hy_items db t') = set (hy_items db t) \<union> (\<lambda>p. (Key (db p), p)) ` set ps \<and> hy_size t' = hy_size t + length ps"
proof -
  have i: "hy_inv hc db t" using assms(1,2) by (simp add: hy_inv_def)
  have "new_items (hy_legal hc db) (map (\<lambda>p. (Key (db p), p)) ps) (fst ` set (hy_items db t))"
    unfolding new_items_map using assms(3,4) by blast
  from hy.add_items [OF i this] obtain t' where t': "add_all (hy_add hc db) (map (\<lambda>p. (Key (db p), p)) ps) t = Some t'" "hy_inv hc db t'"
    "hy_items db t' = ins_items (map (\<lambda>p. (Key (db p), p)) ps) (hy_items db t)"
    "set (hy_items db t') = set (hy_items db t) \<union> set (map (\<lambda>p. (Key (db p), p)) ps)"
    "length (hy_items db t') = length (hy_items db t) + length (map (\<lambda>p. (Key (db p), p)) ps)" by blast
  have "hy_size t' = length (hy_items db t')" "hy_size t = length (hy_items db t)"
    using hy_ok_size hy_reach_inv i t'(2) unfolding hy_inv_def by blast+
  then show ?thesis using t' by (simp add: hy_insert_range_add hy_inv_def)
qed

section \<open>A sample\<close>

text \<open>
  An index over the limit, with a blind leaf and an ordinary leaf. Its first leaf was moved, so the head pointer is
  stale.
\<close>

definition sample_hcfg :: hcfg where
  "sample_hcfg = \<lparr> h_leafslots = 8, h_innerslots = 4, h_key_len = 1, h_tree_levels = 2, LIMIT_CAPACITY = 800,
     MUST_PRECENT = 4, SHOULD_COMPRESS_PERCENT = 1, sizeof_node = 8, sizeof_inner = 100, sizeof_btree_leaf = 200,
     sizeof_blindi_leaf = (\<lambda>t. of_nat (100 * t)), btree2blindi2trans_init = 0 \<rparr>"

definition sample_henv :: henv where
  "sample_henv = \<lparr> h_base = \<lparr> m_headleaf = Some 0, m_tailleaf = Some 1, prevleaf = [1 \<mapsto> 2], nextleaf = [2 \<mapsto> 1], fresh = 3,
       m_stats = \<lparr> itemcount = 9, leaves = 2, innernodes = 1 \<rparr> \<rparr>,
     h_stats = (new_hstats sample_hcfg) \<lparr> hybridstatus := SHOULD_COMPRESS, isNotFirstrsttimeCompress := True, firsttimeCompressitemscount := 9,
       indexcapacity := 400, btreeleaves := 1, blindileaves := 1, blindinodes := (\<lambda>_. 0)(1 := 1) \<rparr> \<rparr>"

definition sample_hroot :: hnode where
  "sample_hroot = HInner 1 False [Key [20]] [HBlind 2 1 4 sample_node,
     HBtree 1 [Key [30], Key [40], Key [50], Key [60], Key [70]] [30, 40, 50, 60, 70]]"

definition sample_htree :: htree where
  "sample_htree = \<lparr> h_root = Some sample_hroot, h_env = sample_henv \<rparr>"

lemma sample_blind_cfg: "blind_cfg sample_hcfg 1 = sample_config"
  by (simp add: blind_cfg_def sample_hcfg_def sample_config_def)

lemma sample_ptrs: "node_ptrs sample_node = [3, 5, 9, 20]"
  by (simp add: node_ptrs_def sample_node_def)

lemma sample_hitems:
  "hitems sample_db sample_hroot = map (\<lambda>p. (Key [word_of_nat p], p)) [3, 5, 9, 20, 30, 40, 50, 60, 70]"
  by (simp add: sample_hroot_def sample_ptrs ptr_item_def sample_db_def)

lemma sample_limit: "limit2ShouldCompress (new_hstats sample_hcfg) = 8"
  by (simp add: new_hstats_def sample_hcfg_def int32_def)

lemma sample_hcfg_ok: "hcfg_ok sample_hcfg"
  by (simp add: hcfg_ok_def sample_hcfg_def)

lemma sample_hy_ok: "hy_ok sample_hcfg sample_db sample_htree"
proof -
  have wf: "hwf sample_hcfg sample_db True sample_hroot"
    using sample_node_ok by (simp add: sample_hroot_def sample_blind_cfg [simplified] seps_by_def sample_ptrs ptr_item_def sample_db_def)
      (simp add: sample_hcfg_def sample_node_def)
  have s: "sorted_items (hitems sample_db sample_hroot)" unfolding sample_hitems by (simp add: less_key_def)
  have b: "backed sample_hcfg sample_db (hitems sample_db sample_hroot)" unfolding sample_hitems
    by (simp add: ptr_item_def sample_db_def sample_hcfg_def)
  have e: "henv_ok sample_hcfg sample_henv (haddrs sample_hroot) (kinds sample_hroot)"
    by (simp add: henv_ok_def hchain_def acct_def sample_henv_def sample_hroot_def sample_hcfg_def)
  have l: "hlevel sample_hroot = 1" by (simp add: sample_hroot_def)
  have r: "hy_root_ok sample_hcfg sample_db sample_henv sample_hroot" using wf s b e l by (simp add: hy_root_ok_def)
  have i: "length (hitems sample_db sample_hroot) = 9" unfolding sample_hitems by simp
  have st: "limit2ShouldCompress (h_stats sample_henv) = 8" "hybridstatus (h_stats sample_henv) = SHOULD_COMPRESS"
    "itemcount (m_stats (h_base sample_henv)) = 9" "h_leafslots sample_hcfg = 8"
    using sample_limit by (simp_all add: sample_henv_def sample_hcfg_def)
  show ?thesis using r i st sample_hcfg_ok by (simp add: hy_ok_def sample_htree_def hy_items_def)
qed

lemma sample_limits_ok: "limits_ok sample_hcfg"
  using sample_limit sample_hcfg_ok by (simp add: limits_ok_def) (simp add: sample_hcfg_def)

text \<open>Reachable trees with two items, and with as many items as the limit of the sample allows.\<close>

lemma sample_reach:
  assumes "distinct (map sample_db ps)" "0 \<notin> set ps"
  shows "\<exists>t. hy_reach sample_hcfg sample_db t \<and> hy_items sample_db t = ins_items (map (\<lambda>p. (Key (sample_db p), p)) ps) []
    \<and> hy_size t = length ps"
proof -
  have e: "hy_items sample_db (empty_htree sample_hcfg) = []" "hy_size (empty_htree sample_hcfg) = 0"
    by (simp_all add: hy_items_def hy_size_def empty_htree_def zero_stats_def)
  have "\<forall>p \<in> set ps. length (sample_db p) = h_key_len sample_hcfg \<and> Key (sample_db p) \<notin> fst ` set (hy_items sample_db (empty_htree sample_hcfg))"
    using assms(2) unfolding e by (auto simp: sample_db_def sample_hcfg_def intro: gr0I)
  from hy_insert_range_spec [OF hreach_empty sample_limits_ok assms(1) this] show ?thesis unfolding e by auto
qed

lemma sample_reached:
  "\<exists>t r. hy_reach sample_hcfg sample_db t \<and> h_root t = Some r \<and> hy_items sample_db t = [(Key [4], 4), (Key [7], 7)]"
proof -
  from sample_reach [of "[7, 4]"] obtain t where t: "hy_reach sample_hcfg sample_db t" "hy_items sample_db t = [(Key [4], 4), (Key [7], 7)]"
    by (auto simp: sample_db_def less_key_def)
  then obtain r where "h_root t = Some r" by (cases "h_root t") (auto simp: hy_items_def)
  then show ?thesis using t by blast
qed

lemma sample_eight:
  "\<exists>t. hy_reach sample_hcfg sample_db t \<and> hy_size t = 8 \<and> Key (sample_db 9) \<notin> fst ` set (hy_items sample_db t)"
proof -
  have "distinct (map sample_db [1, 2, 3, 4, 5, 6, 7, 8])" by (simp add: sample_db_def)
  from sample_reach [OF this] obtain t where t: "hy_reach sample_hcfg sample_db t" "hy_size t = 8"
    "hy_items sample_db t = ins_items (map (\<lambda>p. (Key (sample_db p), p)) [1, 2, 3, 4, 5, 6, 7, 8]) []" by auto
  have "Key (sample_db 9) \<notin> fst ` set (hy_items sample_db t)" unfolding t(3) by (simp add: sample_db_def less_key_def)
  then show ?thesis using t by blast
qed

lemma sample_reach_limit: "hy_reach sample_hcfg sample_db t \<Longrightarrow> hy_limit t = 8"
  using hy_reach_limit [of sample_hcfg sample_db t] sample_limit sample_limits_ok by simp

end
