(* ===== verification/Spec2Isabelle.thy ===== *)
theory Spec2Isabelle
  imports Samples Linear_Samples Trie_Samples Trie_Merge Trie_Split BTree_Map Hybrid_Map
begin

text \<open>
  \<^bold>\<open>The elastic index\<close>. The program is an in-memory ordered index that trades time for space: a B+ tree whose full
  leaves, once the number of items passes a limit, are turned into blind leaves, which store pointers to the keys and
  the positions of the bits in which neighbouring keys differ, but no keys. This development models its own core logic
  and proves it correct.

  \<^bold>\<open>The parts of the program and the theories that model them.\<close>

    \<^item> \<^verbatim>\<open>src/bit_manipulation.hpp\<close>: single bits of a key, the first set bit of a byte. Theory \<^verbatim>\<open>Bit_Manipulation\<close>, which also
      has \<^verbatim>\<open>CompareStage\<close> of \<^verbatim>\<open>blindi_seqtree.hpp\<close>; \<^verbatim>\<open>Key_Order\<close> and \<^verbatim>\<open>Key_Type\<close> give the order of keys it decides.
    \<^item> \<^verbatim>\<open>src/blindi_seqtree/blindi_seqtree.hpp\<close>: the blind leaf (\<^verbatim>\<open>SeqTreeBlindiNode\<close>, \<^verbatim>\<open>GenericBlindiSeqTreeNode\<close>). Theory
      \<^verbatim>\<open>SeqTree\<close> holds the record \<open>node\<close> with the fields of the class and one definition per method: search in two stages,
      insertion, removal, construction from the arrays of an ordinary leaf, split, handing over to a larger class, merge. The tree above
      the sequence has \<^verbatim>\<open>TREE_LEVELS\<close> levels, a field of \<open>config\<close>: the Makefile of \<^verbatim>\<open>BwTree\<close> builds with 2, the copy of the header under
      \<^verbatim>\<open>src/mcas\<close>, which the elastic index there includes, fixes 0.
    \<^item> \<^verbatim>\<open>src/blindi_seqtree/blindi_seq.hpp\<close>: the first form of this leaf, without the tree (\<^verbatim>\<open>LinearBlindiNode\<close>,
      \<^verbatim>\<open>GenericBlindiNode\<close>). Theory \<^verbatim>\<open>Blindi_Seq\<close> has the record \<open>lnode\<close> and its operations. The header declares \<^verbatim>\<open>CompareStage\<close> with
      four arguments and defines it only in a comment, so it is a parameter; \<open>compares\<close> is its contract, which the routine of
      \<^verbatim>\<open>blindi_seqtree.hpp\<close> meets (\<open>stage_cmp_compares\<close>). The flag \<^verbatim>\<open>smaller_than_node\<close> is a \<open>bool option\<close>, since the split does not initialise it.
    \<^item> \<^verbatim>\<open>src/blindi_trie.hpp\<close>: the other representation of a blind leaf, a trie in arrays (\<^verbatim>\<open>TrieBlindiNode\<close>,
      \<^verbatim>\<open>GenericBlindiTrieNode\<close>), used by the variant of the tree in \<^verbatim>\<open>blindi_btree_trie.h\<close>. Theory \<^verbatim>\<open>Blindi_Trie\<close> has the record
      \<open>trie\<close> and the operations on one node, \<^verbatim>\<open>Trie_Nodes\<close> those on two nodes (copy, merge, split).
    \<^item> \<^verbatim>\<open>src/mcas/mcas/src/lib/stx_btree/btree.h\<close>: the B+ tree \<^verbatim>\<open>stx::btree\<close>. Theory \<^verbatim>\<open>BTree\<close>: nodes are the datatype \<open>bnode\<close>, the
      record \<open>btree\<close> has the root and the environment with head and tail pointers, leaf links, statistics and the allocator.
    \<^item> \<^verbatim>\<open>src/mcas/mcas/src/lib/stx_blindi/blindi_btree_hybrid_nodes.h\<close>: the elastic index itself. Theory \<^verbatim>\<open>Hybrid\<close>: \<open>hnode\<close> adds
      blind leaves of the classes 1, 2, 4, 8, which contain a \<open>node\<close> of \<^verbatim>\<open>SeqTree\<close>; \<open>hybrid_stats\<close> is the state machine that
      decides when to compress. It calls the blind leaf for search, insertion, transfer and split, with the tree levels as the field
      \<open>h_tree_levels\<close>, so that both builds are covered (the insertion code of the copy under \<^verbatim>\<open>BwTree\<close> is the same), and shares the
      environment, the search within a node and the links with the model of \<^verbatim>\<open>stx::btree\<close>, whose code it repeats.

  \<^bold>\<open>How state and effects are modelled.\<close> A fixed-size array is a list of its length, with \<open>get\<close> and \<open>put\<close> of \<^verbatim>\<open>Blindi_Prelude\<close>
  that are \<open>None\<close> outside of it; so \<open>f x = Some y\<close> says that no access of the run is out of bounds, and an undefined behaviour
  of the code (such a write, a use of freed memory, an unknown class of leaf) is \<open>None\<close>. Cells of the narrow integer types are
  naturals reduced modulo the range of the type where the code stores them; byte counts are 64 bit words. A key in a blind
  leaf is a pointer, and \<open>db\<close> gives the bytes it points to; a pointer that is not one of a record, such as that of an unused cell, is
  only excluded by the theorems, which speak of the cells in use. Leaves have addresses, since iterators and the
  linked list of the leaves point to them; a leaf that is moved to another representation gets a new address.

  \<^bold>\<open>What the lemmas show.\<close>

    \<^item> \<^verbatim>\<open>Patricia\<close>: the locale \<open>bit_keys\<close>, the mathematics of blind search for any bit strings; \<^verbatim>\<open>Key_Order\<close> interprets it
      on \<^verbatim>\<open>CompareStage\<close>. \<^verbatim>\<open>SeqTree_Inv\<close> is the invariant of a blind leaf with a tree of two levels; \<^verbatim>\<open>SeqTree_Search\<close>, \<^verbatim>\<open>_Insert\<close>, \<^verbatim>\<open>_Build\<close>,
      \<^verbatim>\<open>_Remove\<close>, \<^verbatim>\<open>_Merge\<close> show that every method meets its contract and keeps it. \<^verbatim>\<open>SeqTree_Levels\<close> gives the invariant and the contracts for both
      builds (\<open>cfg_ok\<close>, \<open>node_ok\<close>): a run of the leaf without tree levels is shown to be that of the leaf with two levels, less its tree.
      \<^verbatim>\<open>SeqTree_Reach\<close> has the reachable leaves, and the run in which the first of two keys is removed. \<^verbatim>\<open>Linear_Leaf\<close> does the same for the leaf
      without a tree (\<open>lnode_ok\<close>), over the same locale.
    \<^item> \<^verbatim>\<open>Blind_Tree\<close> extends \<open>bit_keys\<close> to tries: a tree over key numbers, a path as a context, the cut of a path, new and dropped
      leaves. \<^verbatim>\<open>Trie_Inv\<close> says when the arrays of a trie leaf hold such a tree (\<open>trie_ok\<close>); \<^verbatim>\<open>Trie_Search\<close>, \<^verbatim>\<open>Trie_Order\<close>, \<^verbatim>\<open>Trie_Insert\<close>,
      \<^verbatim>\<open>Trie_Remove\<close> follow the loops of the code along it, and \<^verbatim>\<open>Trie_Map\<close> gives the contracts over the map of the node. \<^verbatim>\<open>Trie_Weave\<close>
      says how the borders of two trees are woven into one path, and \<^verbatim>\<open>Trie_Merge\<close> that the merge of two leaves does it in the arrays;
      \<^verbatim>\<open>Trie_Split\<close> follows the split, a cut along one path and two copies.
    \<^item> \<^verbatim>\<open>Inner_Node\<close>: the locale \<open>node_items\<close>, what splitting and inserting do to separators, for nodes of any kind; both
      trees interpret it. \<^verbatim>\<open>BTree_Inv\<close> is the invariant of the B+ tree (sorted items, separators, fill), \<^verbatim>\<open>BTree_Insert\<close>,
      \<^verbatim>\<open>BTree_Links\<close>, \<^verbatim>\<open>BTree_Lookup\<close> (locale \<open>node_search\<close>), \<^verbatim>\<open>BTree_Fix\<close> and \<^verbatim>\<open>BTree_Erase\<close> (merging and shifting),
      \<^verbatim>\<open>BTree_Build\<close>, \<^verbatim>\<open>BTree_Copy\<close>, \<^verbatim>\<open>BTree_Check\<close> treat its operations.
    \<^item> \<^verbatim>\<open>Hybrid_Inv\<close> is the invariant of the elastic index: both kinds of leaves, separators, links and exact statistics.
      \<^verbatim>\<open>Hybrid_Leaf\<close>, \<^verbatim>\<open>Hybrid_Insert\<close>, \<^verbatim>\<open>Hybrid_Tree\<close> follow an insertion from the leaf to the root, \<^verbatim>\<open>Hybrid_Lookup\<close> the searches and
      scans, \<^verbatim>\<open>Hybrid_Status\<close> the state machine over all reachable states, and \<^verbatim>\<open>Hybrid_Refine\<close> is the simulation by
      \<^verbatim>\<open>stx::btree\<close> below the limit.
    \<^item> \<^verbatim>\<open>Ordered_Map\<close>: the locales \<open>insert_map\<close> and \<open>ordered_map\<close>, what a client of an index relies on, in which programs of operations
      are shown to get the answers of a finite map, and \<open>add_map\<close> for an index that is only given new items, in which the insertion of a
      range is. \<^verbatim>\<open>BTree_Map\<close> and \<^verbatim>\<open>Hybrid_Map\<close> interpret them.
    \<^item> \<^verbatim>\<open>Samples\<close>, \<^verbatim>\<open>Trie_Samples\<close> and \<^verbatim>\<open>Linear_Samples\<close> have the concrete states of the witnesses. This theory states the properties: C1 to C7 on the blind leaf,
      C8 to C15 on the trie leaf, C16 to C18 on the leaf without a tree, C19 to C27 on the B+ tree, C28 to C38 on the elastic index, C39 and C40 on types and termination.
      The theorems with no number are further facts, proved in the same way.

  \<^bold>\<open>Bounds and fuel.\<close> The blind leaf is proved correct for \<open>cfg_ok\<close>: two tree levels or none, an even
  number of slots from 6 on that fits 16 bits, and keys short enough that every bit position is below the reserved values. Without tree levels a
  leaf must keep two keys: with one key the first stage leaves the end of its range at 65535 and the second one scans blindi keys that are not
  in use. The tree is copied byte by byte when a leaf is handed over, so that a class whose indices take 16 bits is excluded there
  (fewer than 254 slots). For the trie leaf \<open>tcfg_ok\<close> asks that its indices and bit positions fit
  their types; \<open>lcfg_ok\<close> asks the same of the leaf without a tree. \<open>bcfg_ok\<close> asks for at least four slots per node and no duplicates. \<open>hcfg_ok\<close> asks in
  addition that the greatest class, eight times the slots of a leaf, stays below 254, so that indices fit one byte, and for keys of at
  most 31 bytes; \<open>limits_ok\<close> asks that
  the limit leaves room for one leaf, without which the root leaf itself would be compressed and freed under the root pointer.
  Lookups in the elastic index are correct in ordinary leaves; in a blind leaf they write behind the array \<^verbatim>\<open>tree_traverse\<close> (C35). The loops of the code are
  structural or run down a counter; the scans \<open>walk\<close> and \<open>count_loop\<close> have fuel, the number of items is enough (C40, and the proof of \<open>bt_count\<close>).

  \<^bold>\<open>Not modelled.\<close> Printing, averages for statistics and debug output, which only write text. Of the elastic index \<^verbatim>\<open>exists\<close>,
  \<^verbatim>\<open>count\<close>, \<^verbatim>\<open>upper_bound\<close>, the constant lookups, copying, \<^verbatim>\<open>bulk_load\<close>, \<^verbatim>\<open>erase\<close> and the reverse iterators: they use members
  a leaf of this file does not have and do not compile when they are instantiated. The other leaf representation
  (\<^verbatim>\<open>blindi_subtrie.hpp\<close>) and the older trees built on one representation each, which the hybrid tree
  replaces. \<^verbatim>\<open>BwTree\<close>, \<^verbatim>\<open>index-microbench\<close> and \<^verbatim>\<open>mcas\<close> are third-party code the index is compared with or embedded in. Insertion
  of a present key into a blind leaf, erasure of the first of two keys of a blind leaf, and concurrent use are outside the
  contracts; what the code does is stated for the second case in C4, and for the insertion of a present key into an ordinary leaf in C36.
  \<^verbatim>\<open>MergeBlindiNodes\<close> of the leaf without a tree has no return statement, so a call is undefined; only the assignments of its body are modelled.
\<close>

section \<open>Blind leaves\<close>

text \<open>C1 The search of a blind leaf is correct although the node holds no keys, only the positions of the
  bits in which neighbours differ: it reports a hit exactly for the keys of the node, at their position; a
  predecessor search that misses returns the position of the greatest smaller key, or says that the
  key is smaller than the whole node.\<close>

theorem blind_search_correct:
  assumes "cfg_ok c" "node_ok c db nd" "length x = KEY_LEN c" "6 \<le> length tr0"
  shows "\<exists>r. SearchBlindiNode c db nd x (KEY_LEN c) st tr0 len0 = Some r
    \<and> sr_hit r = (x \<in> set (node_keys db nd))
    \<and> (sr_hit r \<longrightarrow> sr_position r < valid_len nd \<and> node_keys db nd ! sr_position r = x)
    \<and> (\<not> sr_hit r \<and> st = PREDECESSOR_SEARCH \<longrightarrow>
         (if sr_smaller_than_node r then sr_position r = 0 \<and> key_less x (node_keys db nd ! 0)
          else sr_position r < valid_len nd \<and> key_less (node_keys db nd ! sr_position r) x
             \<and> (Suc (sr_position r) < valid_len nd \<longrightarrow> key_less x (node_keys db nd ! Suc (sr_position r)))))"
proof -
  have len: "length (node_keys db nd) = valid_len nd" "0 < valid_len nd" using node_okD [OF assms(2)] by simp_all
  from SearchBlindiNode_spec [OF assms, of st len0] show ?thesis
    using len by (fastforce simp: search_gap_def bl.gap_def)
qed

theorem blind_search_witness:
  "\<exists>r. SearchBlindiNode sample_config sample_db sample_node [9] 1 POINT_SEARCH (replicate 8 0) 0 = Some r \<and> sr_hit r"
  using blind_search_correct [OF sample_config_ok sample_node_ok, of "[9]" "replicate 8 0" POINT_SEARCH 0]
  by (auto simp: sample_keys) (auto simp: sample_config_def)

text \<open>C2 Inserting a key that is missing into a blind leaf with a free slot succeeds, keeps the node
  well-formed (its blindi keys, its order and its tree, if it has one), and adds exactly this key to the map the node
  stands for.\<close>

theorem blind_insert_correct:
  assumes "cfg_ok c" "node_ok c db nd" "valid_len nd < NUM_SLOTS c" "length (db k) = KEY_LEN c"
    and "db k \<notin> set (node_keys db nd)"
  shows "\<exists>nd'. Insert2BlindiNodeWithKey c db nd k = Some (INSERT_SUCCESS, nd') \<and> node_ok c db nd'
    \<and> valid_len nd' = Suc (valid_len nd) \<and> node_map db nd' = (node_map db nd)(db k \<mapsto> k)"
proof -
  from Insert2BlindiNodeWithKey_spec [OF assms] obtain nd' pos where
    n: "Insert2BlindiNodeWithKey c db nd k = Some (INSERT_SUCCESS, nd')" "node_ok c db nd'"
      "node_ptrs nd' = take pos (node_ptrs nd) @ k # drop pos (node_ptrs nd)" by blast
  have "set (node_ptrs nd') = insert k (set (node_ptrs nd))"
    unfolding n(3) by (metis Un_insert_right append_take_drop_id list.simps(15) set_append)
  then have "node_map db nd' = (node_map db nd)(db k \<mapsto> k)" by (rule node_map_upd [OF assms(2) n(2)])
  moreover have "length (node_ptrs nd') = Suc (length (node_ptrs nd))" unfolding n(3) by simp
  then have "valid_len nd' = Suc (valid_len nd)"
    using node_okD [OF assms(2)] node_okD [OF n(2)] by (simp add: node_ptrs_def)
  ultimately show ?thesis using n by blast
qed

theorem blind_insert_witness:
  "\<exists>nd'. Insert2BlindiNodeWithKey sample_config sample_db sample_node 12 = Some (INSERT_SUCCESS, nd') \<and> valid_len nd' = 5"
proof -
  have "\<exists>nd'. Insert2BlindiNodeWithKey sample_config sample_db sample_node 12 = Some (INSERT_SUCCESS, nd')
    \<and> node_ok sample_config sample_db nd' \<and> valid_len nd' = Suc (valid_len sample_node)
    \<and> node_map sample_db nd' = (node_map sample_db sample_node)(sample_db 12 \<mapsto> 12)"
    by (rule blind_insert_correct [OF sample_config_ok sample_node_ok])
      (simp_all add: sample_keys, simp_all add: sample_config_def sample_node_def sample_db_def)
  then show ?thesis by (auto simp: sample_node_def)
qed

text \<open>C3 Removing a key from a blind leaf of at least three keys keeps the node well-formed (the blindi keys of the two
  neighbours are joined, the tree of minima is repaired without a rescan where the code can), takes exactly this key out
  of the map the node stands for, and reports a missing key and an underflow as the code documents.\<close>

theorem blind_remove_correct:
  assumes "cfg_ok c" "node_ok c db nd" "length x = KEY_LEN c" "3 \<le> valid_len nd"
  shows "\<exists>res nd'. RemoveFromBlindiNodeWithKey c db nd x = Some (res, nd') \<and> node_ok c db nd'
    \<and> node_map db nd' = (node_map db nd)(x := None)
    \<and> res = (if x \<notin> set (node_keys db nd) then REMOVE_KEY_NOT_FOUND
             else if valid_len nd' < NUM_SLOTS c div 2 then REMOVE_UNDERFLOW else REMOVE_SUCCESS)"
proof (cases "x \<in> set (node_keys db nd)")
  case True
  from RemoveWithKey_hit [OF assms(1-3) True assms(4)] obtain nd' p where
    n: "RemoveFromBlindiNodeWithKey c db nd x
        = Some (if valid_len nd - 1 < NUM_SLOTS c div 2 then REMOVE_UNDERFLOW else REMOVE_SUCCESS, nd')"
      "node_ok c db nd'" "p < valid_len nd" "node_ptrs nd' = take p (node_ptrs nd) @ drop (Suc p) (node_ptrs nd)"
      "node_map db nd' = (node_map db nd)(x := None)" by blast
  have "valid_len nd' = valid_len nd - 1"
    using arg_cong [OF n(4), of length] node_okD(3) [OF assms(2)] node_okD(3) [OF n(2)] n(3) by (simp add: node_ptrs_def)
  then show ?thesis using n True by auto
next
  case False
  then have "node_map db nd x = None" using node_map_dom [of db nd] by blast
  then show ?thesis using RemoveWithKey_miss [OF assms(1-3) False] False assms(2) by (auto simp: fun_upd_idem)
qed

theorem blind_remove_witness:
  "\<exists>nd'. RemoveFromBlindiNodeWithKey sample_config sample_db sample_node [9] = Some (REMOVE_UNDERFLOW, nd')
    \<and> node_ok sample_config sample_db nd' \<and> node_map sample_db nd' [9] = None"
proof -
  have "\<exists>res nd'. RemoveFromBlindiNodeWithKey sample_config sample_db sample_node [9] = Some (res, nd')
    \<and> node_ok sample_config sample_db nd' \<and> node_map sample_db nd' = (node_map sample_db sample_node)([9] := None)
    \<and> res = (if [9] \<notin> set (node_keys sample_db sample_node) then REMOVE_KEY_NOT_FOUND
             else if valid_len nd' < NUM_SLOTS sample_config div 2 then REMOVE_UNDERFLOW else REMOVE_SUCCESS)"
    by (rule blind_remove_correct [OF sample_config_ok sample_node_ok]) (simp_all add: sample_config_def sample_node_def)
  then show ?thesis
  proof (elim exE conjE)
    fix res nd'
    assume n: "RemoveFromBlindiNodeWithKey sample_config sample_db sample_node [9] = Some (res, nd')"
    "node_ok sample_config sample_db nd'" "node_map sample_db nd' = (node_map sample_db sample_node)([9] := None)"
    "res = (if [9] \<notin> set (node_keys sample_db sample_node) then REMOVE_KEY_NOT_FOUND
             else if valid_len nd' < NUM_SLOTS sample_config div 2 then REMOVE_UNDERFLOW else REMOVE_SUCCESS)"
    have "dom (node_map sample_db nd') = dom (node_map sample_db sample_node) - {[9]}" unfolding n(3) by simp
    then have "set (node_keys sample_db nd') = {[3], [5], [9], [20]} - {[9]}" unfolding node_map_dom sample_keys by simp
    moreover have "{[3], [5], [9], [20]} - {[9 :: byte]} = {[3], [5], [20]}" by auto
    ultimately have "set (node_keys sample_db nd') = {[3], [5], [20]}" by simp
    moreover have "card {[3], [5], [20 :: byte]} = 3" by simp
    moreover have "card (set (node_keys sample_db nd')) = valid_len nd'"
      using distinct_card [OF bl.ordered_distinct [OF node_okD(7) [OF n(2)]]] node_okD(1) [OF n(2)] by simp
    ultimately have "valid_len nd' = 3" by simp
    then have "res = REMOVE_UNDERFLOW" using n(4) by (simp add: sample_keys sample_consts)
    then show ?thesis using n(1-3) by auto
  qed
qed

text \<open>C4 The lower bound of three keys in the removal property is needed. When the first of two keys of a leaf with tree levels is
  removed, the early return of the code leaves the root of the tree set although no blindi key is left. If then a smaller key than
  the remaining one is inserted, the root moves behind the only blindi key, and the search reads the unused cell of
  \<^verbatim>\<open>blindiKeys\<close> there: when the bit it names is not set in the new key, the leaf does not find the key it has just taken.\<close>

theorem blind_remove_two_broken:
  assumes "cfg_ok c" "TREE_LEVELS c = 2" "node_ok c db nd" "valid_len nd = 2"
    and "length (db k) = KEY_LEN c" "key_less (db k) (node_keys db nd ! 1)"
    and "blindiKeys nd ! 1 < 8 * KEY_LEN c" "\<not> key_bit (db k) (blindiKeys nd ! 1)" "6 \<le> length tr0"
  shows "\<exists>n1 n2 r. RemoveFromBlindiNodeInPosition c nd 0 = Some (REMOVE_SUCCESS, n1) \<and> node_keys db n1 = [node_keys db nd ! 1]
    \<and> get_blindiTree n1 0 = Some 0 \<and> \<not> node_ok c db n1
    \<and> Insert2BlindiNodeWithKey c db n1 k = Some (INSERT_SUCCESS, n2) \<and> node_keys db n2 = [db k, node_keys db nd ! 1]
    \<and> get_blindiTree n2 0 = Some 1 \<and> \<not> node_ok c db n2
    \<and> SearchBlindiNode c db n2 (db k) (KEY_LEN c) POINT_SEARCH tr0 len0 = Some r \<and> \<not> sr_hit r"
proof -
  let ?y = "node_keys db nd ! 1"
  have E: "0 \<noteq> END_TREE c" "1 \<noteq> END_TREE c" using cfg_okD(1,2) [OF assms(1)] by auto
  from remove_first_of_two [OF assms(1-4)] obtain n1 where
    n1: "RemoveFromBlindiNodeInPosition c nd 0 = Some (REMOVE_SUCCESS, n1)" "node_keys db n1 = [?y]" "blindiTree n1 = [0, END_TREE c, END_TREE c]"
      "valid_len n1 = 1" "2 \<le> currentmaxslot n1" "length (key_ptr n1) = currentmaxslot n1" "blindiKeys n1 = (blindiKeys nd)[0 := 0]" by blast
  obtain b0 b1 bs where b: "blindiKeys nd = b0 # b1 # bs" by (rule pair_cells [OF assms(1-4)]) (rule that)
  have y: "length ?y = KEY_LEN c" using node_okD(1,7) [OF assms(3)] assms(4) by (simp add: bl.ordered_def key_of_len_def)
  have b1: "blindiKeys n1 = 0 # b1 # bs" "blindiKeys nd ! 1 = b1" using n1(7) b by simp_all
  obtain n2 where
    n2: "Insert2BlindiNodeWithKey c db n1 k = Some (INSERT_SUCCESS, n2)" "node_keys db n2 = [db k, ?y]" "blindiTree n2 = [1, END_TREE c, END_TREE c]"
      "valid_len n2 = 2" "2 \<le> length (key_ptr n2)" "blindiKeys n2 = key_dif (db k) ?y # b1 # bs"
    using insert_before_one [OF assms(1,2) n1(2-6) b1(1) assms(5) y assms(6)] by (elim exE conjE) (rule that, assumption+)
  have ne: "db k \<noteq> ?y" using assms(6) bl.lt_irrefl by auto
  obtain r where r: "SearchBlindiNode c db n2 (db k) (KEY_LEN c) POINT_SEARCH tr0 len0 = Some r" "\<not> sr_hit r"
    using search_behind_root [where ?len0.0 = len0, OF assms(1,2) n2(2-6) assms(5) y ne assms(7,8) [unfolded b1(2)] assms(9)] by (elim exE conjE) (rule that, assumption+)
  have "\<not> node_ok c db n1" using node_cells_fit(5) [OF assms(1), of db n1 0] n1(3,4) E(1) by auto
  moreover have "\<not> node_ok c db n2" using node_cells_fit(5) [OF assms(1), of db n2 1] n2(3,4) E(2) by auto
  moreover have "get_blindiTree n1 0 = Some 0" "get_blindiTree n2 0 = Some 1" using n1(3) n2(3) by (simp_all add: get_blindiTree_def)
  ultimately show ?thesis by (intro exI conjI) (rule n1(1,2) n2(1,2) r | assumption)+
qed

theorem blind_remove_two_witness:
  "\<exists>n1 n2 r. RemoveFromBlindiNodeInPosition sample_config sample_pair 0 = Some (REMOVE_SUCCESS, n1)
    \<and> Insert2BlindiNodeWithKey sample_config sample_db n1 3 = Some (INSERT_SUCCESS, n2) \<and> node_keys sample_db n2 = [[3], [200]]
    \<and> SearchBlindiNode sample_config sample_db n2 [3] 1 POINT_SEARCH (replicate 8 0) 0 = Some r \<and> \<not> sr_hit r"
proof -
  have v: "valid_len sample_pair = 2" "blindiKeys sample_pair ! 1 = 0" by (simp_all add: sample_pair_def)
  have k: "sample_db 3 = [3]" "\<not> key_bit [3] 0" "key_less [3] [200]" by (simp_all add: sample_db_def key_bit_def key_less_def)
  have "\<exists>n1 n2 r. RemoveFromBlindiNodeInPosition sample_config sample_pair 0 = Some (REMOVE_SUCCESS, n1)
    \<and> node_keys sample_db n1 = [node_keys sample_db sample_pair ! 1] \<and> get_blindiTree n1 0 = Some 0 \<and> \<not> node_ok sample_config sample_db n1
    \<and> Insert2BlindiNodeWithKey sample_config sample_db n1 3 = Some (INSERT_SUCCESS, n2)
    \<and> node_keys sample_db n2 = [sample_db 3, node_keys sample_db sample_pair ! 1]
    \<and> get_blindiTree n2 0 = Some 1 \<and> \<not> node_ok sample_config sample_db n2
    \<and> SearchBlindiNode sample_config sample_db n2 (sample_db 3) (KEY_LEN sample_config) POINT_SEARCH (replicate 8 0) 0 = Some r \<and> \<not> sr_hit r"
    by (rule blind_remove_two_broken [OF sample_config_ok _ sample_pair_ok v(1)]) (simp_all add: v [simplified] k sample_more_keys sample_consts)
  then show ?thesis unfolding k(1) sample_more_keys sample_consts by auto
qed

text \<open>C5 A blind leaf built from the sorted arrays of an ordinary leaf (\<open>transfer_btree2blindi\<close>, the compression step of the
  elastic tree) is well-formed and stands for exactly the items of the arrays.\<close>

theorem blind_build_correct:
  assumes "cfg_ok c" "bl.ordered (KEY_LEN c) (map db ps)" "2 \<le> length ps" "length ps \<le> NUM_SLOTS c"
  shows "\<exists>nd. transfer_btree2blindi c (new_node c) (length ps) (map db ps) ps = Some nd \<and> node_ok c db nd
    \<and> node_map db nd = map_of (map (\<lambda>p. (db p, p)) ps) \<and> valid_len nd = length ps"
proof -
  from transfer_btree2blindi_spec [OF assms(1) new_node_raw assms(2) _ assms(3,4) refl] obtain nd where
    n: "transfer_btree2blindi c (new_node c) (length ps) (map db ps) ps = Some nd" "node_ok c db nd" "node_ptrs nd = ps"
      "valid_len nd = length ps" by auto
  have "node_map db nd x = map_of (map (\<lambda>p. (db p, p)) ps) x" for x
    unfolding node_map_def n(3) by (induction ps) auto
  then show ?thesis using n by auto
qed

theorem blind_build_witness:
  "\<exists>nd. transfer_btree2blindi sample_config (new_node sample_config) 4 [[3], [5], [9], [20]] [3, 5, 9, 20] = Some nd \<and> valid_len nd = 4"
proof -
  have k: "map sample_db [3, 5, 9, 20] = [[3], [5], [9], [20]]" by (simp add: sample_db_def)
  have n: "length [3, 5, 9, 20 :: nat] = 4" by simp
  have "\<exists>nd. transfer_btree2blindi sample_config (new_node sample_config) (length [3, 5, 9, 20 :: nat]) (map sample_db [3, 5, 9, 20]) [3, 5, 9, 20]
      = Some nd \<and> node_ok sample_config sample_db nd
    \<and> node_map sample_db nd = map_of (map (\<lambda>p. (sample_db p, p)) [3, 5, 9, 20]) \<and> valid_len nd = length [3, 5, 9, 20::nat]"
    by (rule blind_build_correct [OF sample_config_ok]) (unfold k, use sample_ordered in \<open>simp_all add: sample_consts\<close>)
  then show ?thesis unfolding k n by blast
qed

text \<open>C6 The split of a full blind leaf gives two well-formed leaves that hold the lower and the upper half of its keys; the trees
  of the halves are taken from the old tree where it reaches and completed from the blindi keys.\<close>

theorem blind_split_correct:
  assumes "cfg_ok c" "node_ok c db nd" "valid_len nd = NUM_SLOTS c"
  shows "\<exists>small large. SplitBlindiNode c nd (new_node c) (new_node c) = Some (small, large)
    \<and> node_ok c db small \<and> node_ok c db large
    \<and> node_ptrs small = take (NUM_SLOTS c div 2) (node_ptrs nd) \<and> node_ptrs large = drop (NUM_SLOTS c div 2) (node_ptrs nd)"
  using SplitBlindiNode_spec [OF assms new_node_raw new_node_raw] assms(1) by blast

theorem blind_split_witness:
  "\<exists>small large. SplitBlindiNode sample_config sample_full (new_node sample_config) (new_node sample_config) = Some (small, large)
    \<and> node_ptrs small = [1, 2, 3, 4] \<and> node_ptrs large = [5, 6, 7, 8]"
proof -
  have "\<exists>small large. SplitBlindiNode sample_config sample_full (new_node sample_config) (new_node sample_config) = Some (small, large)
    \<and> node_ok sample_config sample_db small \<and> node_ok sample_config sample_db large
    \<and> node_ptrs small = take (NUM_SLOTS sample_config div 2) (node_ptrs sample_full)
    \<and> node_ptrs large = drop (NUM_SLOTS sample_config div 2) (node_ptrs sample_full)"
    by (rule blind_split_correct [OF sample_config_ok sample_full_ok]) (simp add: sample_full_def sample_consts)
  then show ?thesis by (simp add: node_ptrs_def sample_full_def sample_consts) blast
qed

text \<open>Handing the arrays of a leaf over to a leaf of the class with twice the slots (\<open>transferNode\<close>) keeps the map, as long as the
  greater class still has indices of one byte, the width in which the tree is copied.\<close>

theorem blind_handover_correct:
  assumes "cfg_ok c" "cfg_ok c'" "TREE_LEVELS c' = TREE_LEVELS c" "KEY_LEN c' = KEY_LEN c" "NUM_SLOTS c' = 2 * NUM_SLOTS c" "NUM_SLOTS c' < 254"
    and "node_ok c db nd"
  shows "\<exists>nd'. transferNode c' (new_node c') (valid_len nd) (blindiKeys nd) (key_ptr nd) (get_ptr2blindiTree c nd) = Some nd'
    \<and> node_ok c' db nd' \<and> node_map db nd' = node_map db nd"
  using transferNode_spec [OF assms(1-6) new_node_raw assms(7)] unfolding node_map_def by fastforce

theorem blind_handover_witness:
  "\<exists>nd'. transferNode (sample_config \<lparr> NUM_SLOTS := 16 \<rparr>) (new_node (sample_config \<lparr> NUM_SLOTS := 16 \<rparr>)) (valid_len sample_full)
      (blindiKeys sample_full) (key_ptr sample_full) (get_ptr2blindiTree sample_config sample_full) = Some nd'
    \<and> node_ok (sample_config \<lparr> NUM_SLOTS := 16 \<rparr>) sample_db nd' \<and> node_map sample_db nd' = node_map sample_db sample_full"
  by (rule blind_handover_correct [OF sample_config_ok _ _ _ _ _ sample_full_ok])
    (simp_all add: cfg_ok_def sample_config_def END_TREE_def MAX_HIGH_MISS_def idx_mod_def bitidx_mod_def)

text \<open>C7 Merging two blind leaves, the keys of the first below those of the second and with room in the first, gives a
  well-formed leaf with the keys of both: its tree is assembled from the two old trees and the one new blindi key.\<close>

theorem blind_merge_correct:
  assumes "cfg_ok c" "node_ok c db nd" "node_ok c db lg" "valid_len nd + valid_len lg \<le> currentmaxslot nd"
    and "key_less (last (node_keys db nd)) (hd (node_keys db lg))"
  shows "\<exists>nd'. MergeBlindiNodes c db nd lg = Some nd' \<and> node_ok c db nd' \<and> node_keys db nd' = node_keys db nd @ node_keys db lg"
  using MergeBlindiNodes_spec [OF assms] by (auto simp: node_keys_ptrs)

theorem blind_merge_witness:
  "\<exists>nd'. MergeBlindiNodes sample_config sample_db sample_node sample_large = Some nd' \<and> node_ok sample_config sample_db nd'
    \<and> node_keys sample_db nd' = [[3], [5], [9], [20], [30], [40]]"
proof -
  have "\<exists>nd'. MergeBlindiNodes sample_config sample_db sample_node sample_large = Some nd' \<and> node_ok sample_config sample_db nd'
    \<and> node_keys sample_db nd' = node_keys sample_db sample_node @ node_keys sample_db sample_large"
    by (rule blind_merge_correct [OF sample_config_ok sample_node_ok sample_large_ok])
      (unfold sample_keys sample_more_keys, simp_all add: sample_node_def sample_large_def key_less_def)
  then show ?thesis by (simp add: sample_keys sample_more_keys)
qed

section \<open>Trie leaves\<close>

text \<open>C8 The search of a trie leaf is correct although the keys lie in no order and the node holds no bits of them: it reports a
  hit exactly for the keys of the node, at their position; a predecessor search that misses returns the position of the
  greatest smaller key, or says that the key is smaller than the whole node.\<close>

theorem trie_search_correct:
  assumes "trie_ok c db nd" "length key = T_KEY_LEN c" "T_SLOTS c \<le> length tr0"
  shows "\<exists>r. t_SearchBlindiNode c db nd key (T_KEY_LEN c) st False tr0 = Some r
    \<and> ts_hit r = (key \<in> set (trie_keys db nd))
    \<and> (ts_hit r \<longrightarrow> ts_position r < t_valid_len nd \<and> db (t_key_ptr nd ! ts_position r) = key)
    \<and> (\<not> ts_hit r \<and> st = PREDECESSOR_SEARCH \<longrightarrow>
         (if ts_smaller r then \<forall>k \<in> set (trie_keys db nd). key_less key k
          else ts_position r < t_valid_len nd \<and> key_less (db (t_key_ptr nd ! ts_position r)) key
            \<and> (\<forall>k \<in> set (trie_keys db nd). key_less k key \<longrightarrow> \<not> key_less (db (t_key_ptr nd ! ts_position r)) k)))"
proof -
  obtain t where "trie_repr c db nd t" using assms(1) by (auto simp: trie_ok_def)
  from trie_search_spec [OF this assms(2,3)] show ?thesis .
qed

theorem trie_search_witness:
  "\<exists>r. t_SearchBlindiNode sample_tcfg sample_db sample_trie [200] 1 POINT_SEARCH False (replicate 8 0) = Some r \<and> ts_hit r"
  using trie_search_correct [OF sample_trie_ok, of "[200]" "replicate 8 0" POINT_SEARCH]
  by (auto simp: sample_trie_keys sample_tcfg_simps)

text \<open>C9 Inserting into a trie leaf: a full node answers overflow and a present key is refused, both without a change; any
  other key, also the first, gets a new branching at the place where the search cuts its path, the node stays well-formed,
  and exactly this key is added to the map it stands for.\<close>

theorem trie_insert_correct:
  assumes "trie_node c db nd" "tcfg_ok c" "length (db k) = T_KEY_LEN c"
  shows "\<exists>res nd'. t_InsertWithKey c db nd k = Some (res, nd') \<and> trie_node c db nd'
    \<and> res = (if t_valid_len nd = T_SLOTS c then INSERT_OVERFLOW else if db k \<in> set (trie_keys db nd) then INSERT_DUPLICATED_KEY else INSERT_SUCCESS)
    \<and> (res \<noteq> INSERT_SUCCESS \<longrightarrow> nd' = nd)
    \<and> (res = INSERT_SUCCESS \<longrightarrow> trie_ok c db nd' \<and> t_valid_len nd' = t_valid_len nd + 1 \<and> trie_map db nd' = (trie_map db nd)(db k \<mapsto> k))"
  by (rule insert_map_spec [OF assms])

theorem trie_insert_witness:
  "\<exists>nd'. t_InsertWithKey sample_tcfg sample_db sample_trie 77 = Some (INSERT_SUCCESS, nd') \<and> trie_map sample_db nd' [77] = Some 77"
proof -
  have "trie_node sample_tcfg sample_db sample_trie" using sample_trie_ok by (simp add: trie_node_def)
  from trie_insert_correct [OF this sample_tcfg_ok, of 77] show ?thesis
    by (auto simp: sample_trie_keys sample_tcfg_simps sample_db_def sample_trie_len)
qed

text \<open>C10 Removing from a trie leaf of at least two keys: the branching above the key gives way to its other side, the last key and the
  last branching move into the free cells and the pointers to them are redirected; the node stays well-formed and
  exactly the key is gone. A missing key and an underflow are reported.\<close>

theorem trie_remove_correct:
  assumes "trie_ok c db nd" "tcfg_ok c" "length key = T_KEY_LEN c" "2 \<le> t_valid_len nd"
  shows "\<exists>res nd'. t_RemoveWithKey c db nd key = Some (res, nd') \<and> trie_ok c db nd' \<and> trie_map db nd' = (trie_map db nd)(key := None)
    \<and> res = (if key \<notin> set (trie_keys db nd) then REMOVE_KEY_NOT_FOUND
             else if t_valid_len nd' < T_SLOTS c div 2 then REMOVE_UNDERFLOW else REMOVE_SUCCESS)"
  by (rule remove_map_spec [OF assms])

theorem trie_remove_witness:
  "\<exists>res nd'. t_RemoveWithKey sample_tcfg sample_db sample_trie [5] = Some (res, nd') \<and> res \<noteq> REMOVE_KEY_NOT_FOUND \<and> trie_map sample_db nd' [5] = None"
proof -
  have "2 \<le> t_valid_len sample_trie" by (simp add: sample_trie_def)
  from trie_remove_correct [OF sample_trie_ok sample_tcfg_ok _ this, of "[5]"] show ?thesis
    by (auto simp: sample_tcfg_simps sample_trie_keys)
qed

text \<open>C11 The walks along a trie leaf, whose arrays are in the order of insertion, yield the keys in ascending and in descending
  order, every key once, and their ends are the keys that the node reports as its least and its greatest.\<close>

theorem trie_order_correct:
  assumes "trie_ok c db nd"
  shows "\<exists>ps. bring_sorted_items c nd = Some ps \<and> bring_descending_items c nd = Some (rev ps)
    \<and> mset (map (\<lambda>p. t_key_ptr nd ! p) ps) = mset (trie_ptrs nd) \<and> sorted_wrt key_less (map (\<lambda>p. db (t_key_ptr nd ! p)) ps)
    \<and> ps \<noteq> [] \<and> get_min_pos_node c nd = Some (hd ps) \<and> get_max_pos_node c nd = Some (last ps)"
  by (rule order_spec [OF assms])

theorem trie_order_witness: "\<exists>ps. bring_sorted_items sample_tcfg sample_trie = Some ps \<and> set (map (\<lambda>p. t_key_ptr sample_trie ! p) ps) = {3, 5, 20, 200}"
proof -
  from trie_order_correct [OF sample_trie_ok] obtain ps where
    p: "bring_sorted_items sample_tcfg sample_trie = Some ps" "mset (map (\<lambda>p. t_key_ptr sample_trie ! p) ps) = mset (trie_ptrs sample_trie)" by blast
  have "set (map (\<lambda>p. t_key_ptr sample_trie ! p) ps) = set (trie_ptrs sample_trie)" by (rule mset_eq_setD [OF p(2)])
  also have "\<dots> = {3, 5, 20, 200}" by (auto simp: trie_ptrs_def sample_trie_def)
  finally show ?thesis using p(1) by blast
qed

text \<open>C12 The two representations of a blind leaf agree: a trie leaf and a leaf with sequential array that hold the same keys
  give the same answer to every predecessor search: a hit, or the same neighbouring key, or that there is none.\<close>

theorem trie_agrees_seqtree:
  assumes "trie_ok tc db nd" "cfg_ok c" "node_ok c db nd'" "T_KEY_LEN tc = KEY_LEN c" "set (trie_keys db nd) = set (node_keys db nd')"
    and "length key = KEY_LEN c" "T_SLOTS tc \<le> length tr0" "6 \<le> length tr1"
  shows "\<exists>r r'. t_SearchBlindiNode tc db nd key (T_KEY_LEN tc) PREDECESSOR_SEARCH False tr0 = Some r
    \<and> SearchBlindiNode c db nd' key (KEY_LEN c) PREDECESSOR_SEARCH tr1 len0 = Some r' \<and> ts_hit r = sr_hit r'
    \<and> (ts_hit r \<or> ts_smaller r = sr_smaller_than_node r')
    \<and> (\<not> ts_hit r \<and> ts_smaller r \<or> db (t_key_ptr nd ! ts_position r) = node_keys db nd' ! sr_position r')"
proof -
  obtain t where t: "trie_repr tc db nd t" using assms(1) by (auto simp: trie_ok_def)
  have kl: "length key = T_KEY_LEN tc" using assms(4,6) by simp
  obtain r where r: "t_SearchBlindiNode tc db nd key (T_KEY_LEN tc) PREDECESSOR_SEARCH False tr0 = Some r"
    "ts_hit r = (key \<in> set (trie_keys db nd))" "ts_hit r \<longrightarrow> db (t_key_ptr nd ! ts_position r) = key"
    "\<not> ts_hit r \<longrightarrow> search_answer db nd key r"
    using trie_search_answer [OF t kl assms(7)] by blast
  obtain r' where r': "SearchBlindiNode c db nd' key (KEY_LEN c) PREDECESSOR_SEARCH tr1 len0 = Some r'"
    "sr_hit r' = (key \<in> set (node_keys db nd'))" "sr_hit r' \<longrightarrow> node_keys db nd' ! sr_position r' = key"
    "\<not> sr_hit r' \<longrightarrow> seq_answer db nd' key r'"
    using seq_search_answer [OF assms(2,3,6,8)] by blast
  show ?thesis
  proof (cases "key \<in> set (trie_keys db nd)")
    case True
    then show ?thesis using r(1-3) r'(1-3) assms(5) by auto
  next
    case False
    then show ?thesis using answers_agree [OF t assms(3,5)] r r' assms(5) by auto
  qed
qed

theorem trie_agrees_witness:
  "\<exists>r r'. t_SearchBlindiNode sample_tcfg sample_db sample_trie_twin [7] 1 PREDECESSOR_SEARCH False (replicate 8 0) = Some r
    \<and> SearchBlindiNode sample_config sample_db sample_node [7] 1 PREDECESSOR_SEARCH (replicate 8 0) 0 = Some r' \<and> ts_hit r = sr_hit r'"
proof -
  have e: "T_KEY_LEN sample_tcfg = KEY_LEN sample_config" "set (trie_keys sample_db sample_trie_twin) = set (node_keys sample_db sample_node)"
    by (auto simp: sample_tcfg_def sample_config_def sample_keys sample_trie_keys)
  show ?thesis
    using trie_agrees_seqtree [OF sample_trie_twin_ok sample_config_ok sample_node_ok e, of "[7]" "replicate 8 0" "replicate 8 0" 0]
    by (auto simp: sample_tcfg_simps sample_config_def)
qed

text \<open>C13 Merging two trie leaves of which none or both have at least two keys, the keys of the first below those of the second: the loop weaves the path to the
  greatest key of the first and the path to the least key of the second in the order of their bits, and the result is
  a well-formed leaf with the keys of both, in their places. An empty leaf on one side is the simple case.\<close>

theorem trie_merge_correct:
  assumes "trie_node c db nd" "trie_node c db lg" "tcfg_ok c" "t_valid_len nd + t_valid_len lg \<le> T_SLOTS c"
    and "t_valid_len nd = 0 \<and> t_valid_len lg \<noteq> 0 \<or> t_valid_len nd \<noteq> 0 \<and> t_valid_len lg = 0 \<or> 2 \<le> t_valid_len nd \<and> 2 \<le> t_valid_len lg"
    and "\<forall>x \<in> set (trie_keys db nd). \<forall>y \<in> set (trie_keys db lg). key_less x y"
  shows "\<exists>nd'. t_MergeBlindiNodes c db nd lg = Some nd' \<and> trie_ok c db nd' \<and> trie_ptrs nd' = trie_ptrs nd @ trie_ptrs lg"
  by (rule merge_map_spec [OF assms])

theorem trie_merge_witness:
  "\<exists>nd'. t_MergeBlindiNodes sample_tcfg sample_db sample_trie sample_trie_large = Some nd' \<and> trie_ok sample_tcfg sample_db nd'
    \<and> trie_ptrs nd' = [5, 3, 200, 20, 201, 240, 230]"
proof -
  have "trie_node sample_tcfg sample_db sample_trie" "trie_node sample_tcfg sample_db sample_trie_large"
    using sample_trie_ok sample_trie_large_ok by (simp_all add: trie_node_def)
  from trie_merge_correct [OF this sample_tcfg_ok] show ?thesis
    by (simp add: sample_trie_len sample_tcfg_simps sample_trie_keys key_less_def compare_eval)
      (simp add: trie_ptrs_def sample_trie_def sample_trie_large_def)
qed

text \<open>C14 The split of a full trie leaf into two new nodes, whatever their arrays hold: both halves are well-formed leaves with half of the keys,
  together they have every key of the old leaf once, and the keys of the first half in their order and then those of the second half
  ascend: the copy sorts the keys.\<close>

theorem trie_split_correct:
  assumes "trie_ok c db nd" "tcfg_ok c" "even (T_SLOTS c)" "4 \<le> T_SLOTS c" "t_valid_len nd = T_SLOTS c" "trie_raw c small" "trie_raw c large"
  shows "\<exists>sm lg. t_SplitBlindiNode c nd small large = Some (sm, lg) \<and> trie_ok c db sm \<and> trie_ok c db lg
    \<and> t_valid_len sm = T_SLOTS c div 2 \<and> t_valid_len lg = T_SLOTS c div 2
    \<and> mset (trie_ptrs sm @ trie_ptrs lg) = mset (trie_ptrs nd) \<and> sorted_wrt key_less (trie_keys db sm @ trie_keys db lg)"
  by (rule split_map_spec [OF assms])

theorem trie_split_witness:
  "\<exists>sm lg. t_SplitBlindiNode sample_tcfg sample_trie_full (new_trie sample_tcfg) (new_trie sample_tcfg) = Some (sm, lg)
    \<and> trie_ok sample_tcfg sample_db sm \<and> trie_ok sample_tcfg sample_db lg \<and> t_valid_len sm = 4 \<and> t_valid_len lg = 4"
proof -
  have "trie_raw sample_tcfg (new_trie sample_tcfg)" by (simp add: trie_raw_def new_trie_def)
  from trie_split_correct [OF sample_trie_full_ok sample_tcfg_ok _ _ _ this this] show ?thesis
    by (simp add: sample_tcfg_simps sample_trie_len) blast
qed

text \<open>C15 Accesses outside of the arrays, which the bounds in the contracts of the trie leaf exclude: the removal of the only key,
  the insertion of a present key by \<open>Upsert2BlindiNodeWithKey\<close>, and a merge in which a leaf has one key.\<close>

theorem trie_out_of_bounds:
  assumes "trie_ok c db nd" "tcfg_ok c" "length (db k) = T_KEY_LEN c" "db k \<in> set (trie_keys db nd)"
  shows "(t_valid_len nd = 1 \<longrightarrow> t_RemoveWithKey c db nd (db k) = None)
    \<and> (2 \<le> t_valid_len nd \<and> t_valid_len nd < T_SLOTS c \<longrightarrow> t_UpsertWithKey c db nd k = None)
    \<and> (trie_ok c db lg \<and> t_valid_len nd + t_valid_len lg \<le> T_SLOTS c \<and> (t_valid_len nd = 1 \<or> t_valid_len lg = 1)
        \<longrightarrow> t_MergeBlindiNodes c db nd lg = None)"
proof -
  obtain t where "trie_repr c db nd t" using assms(1) by (auto simp: trie_ok_def)
  then show ?thesis using remove_refused(2) assms upsert_present merge_one_key [OF assms(1) _ assms(2)] by blast
qed

theorem trie_out_of_bounds_witness:
  "t_UpsertWithKey sample_tcfg sample_db sample_trie 5 = None \<and> t_RemoveWithKey sample_tcfg sample_db sample_trie_one [5] = None
    \<and> t_MergeBlindiNodes sample_tcfg sample_db sample_trie_one sample_trie_large = None"
proof -
  have k: "length (sample_db 5) = T_KEY_LEN sample_tcfg" "sample_db 5 \<in> set (trie_keys sample_db sample_trie)"
    "sample_db 5 \<in> set (trie_keys sample_db sample_trie_one)" "sample_db 5 = [5]"
    by (simp_all add: sample_db_def sample_tcfg_simps sample_trie_keys)
  show ?thesis
    using trie_out_of_bounds [OF sample_trie_ok sample_tcfg_ok k(1,2), of sample_trie_large]
      trie_out_of_bounds [OF sample_trie_one_ok sample_tcfg_ok k(1,3), of sample_trie_large] sample_trie_large_ok k(4)
    by (simp add: sample_trie_len sample_tcfg_simps)
qed

section \<open>Leaves without a tree\<close>

text \<open>C16 The search of the leaf without a tree is correct, whatever routine does the one comparison of full keys, as long as it reports the
  first differing bit: a hit exactly for the keys of the node, at their position; on a miss the position of the greatest smaller
  key, or that the key is smaller than the whole node.\<close>

theorem linear_search_correct:
  assumes "lcfg_ok c" "lnode_ok c db nd" "length x = KEY_SIZE_BYTE c" "compares (KEY_SIZE_BYTE c) cmp"
  shows "\<exists>r smaller. BlindiNode_search c db cmp nd x st (Some False) = Some r
    \<and> ls_hit r = (x \<in> set (l_keys db nd))
    \<and> (ls_hit r \<longrightarrow> ls_position r < l_len nd \<and> l_keys db nd ! ls_position r = x)
    \<and> (\<not> ls_hit r \<and> st = PREDECESSOR_SEARCH \<longrightarrow> ls_smaller r = Some smaller \<and>
         (if smaller then ls_position r = 0 \<and> key_less x (l_keys db nd ! 0)
          else ls_position r < l_len nd \<and> key_less (l_keys db nd ! ls_position r) x
             \<and> (Suc (ls_position r) < l_len nd \<longrightarrow> key_less x (l_keys db nd ! Suc (ls_position r)))))"
  by (rule l_search_answer [OF assms])

theorem linear_search_witness:
  "\<exists>r. BlindiNode_search sample_lcfg sample_db stage_cmp sample_lin [20] POINT_SEARCH (Some False) = Some r \<and> ls_hit r"
  using linear_search_correct [OF sample_lcfg_ok sample_lin_ok _ stage_cmp_compares, of "[20]" POINT_SEARCH]
  by (auto simp: sample_lin_keys sample_lcfg_simps)

text \<open>C17 Insertion into and removal from the leaf without a tree, of any number of keys: a full leaf and a present key are refused without a
  change, any other key goes to its place in the order; a removal takes out exactly the key, reports a missing key, an underflow and
  the removal of the last key, and both keep the leaf well-formed. The tree of the later leaf makes the removal of
  the first of two keys go wrong (C4); here it is correct.\<close>

theorem linear_update_correct:
  assumes "lcfg_ok c" "l_node c db nd" "compares (KEY_SIZE_BYTE c) cmp" "length (db k) = KEY_SIZE_BYTE c"
  shows "(\<exists>res nd'. l_insert c db cmp nd (db k) k = Some (res, nd')
      \<and> res = (if l_len nd = MAX_NODE_SIZE c then INSERT_OVERFLOW else if db k \<in> set (l_keys db nd) then INSERT_DUPLICATED_KEY else INSERT_SUCCESS)
      \<and> (res \<noteq> INSERT_SUCCESS \<longrightarrow> nd' = nd)
      \<and> (res = INSERT_SUCCESS \<longrightarrow> lnode_ok c db nd' \<and> (\<exists>pos. l_ptrs nd' = take pos (l_ptrs nd) @ k # drop pos (l_ptrs nd))))
    \<and> (0 < l_len nd \<longrightarrow> (\<exists>res nd'. l_remove c db cmp nd (db k) = Some (res, nd') \<and> l_node c db nd'
      \<and> l_ptrs nd' = filter (\<lambda>p. db p \<noteq> db k) (l_ptrs nd)
      \<and> res = (if db k \<notin> set (l_keys db nd) then REMOVE_KEY_NOT_FOUND else if l_len nd = 1 then REMOVE_NODE_EMPTY
               else if l_len nd' < MAX_NODE_SIZE c div 2 then REMOVE_UNDERFLOW else REMOVE_SUCCESS)))"
proof (intro conjI impI)
  show "\<exists>res nd'. l_insert c db cmp nd (db k) k = Some (res, nd')
      \<and> res = (if l_len nd = MAX_NODE_SIZE c then INSERT_OVERFLOW else if db k \<in> set (l_keys db nd) then INSERT_DUPLICATED_KEY else INSERT_SUCCESS)
      \<and> (res \<noteq> INSERT_SUCCESS \<longrightarrow> nd' = nd)
      \<and> (res = INSERT_SUCCESS \<longrightarrow> lnode_ok c db nd' \<and> (\<exists>pos. l_ptrs nd' = take pos (l_ptrs nd) @ k # drop pos (l_ptrs nd)))"
    by (rule l_insert_spec [OF assms(1,2,4,3)])
next
  assume "0 < l_len nd"
  then have "lnode_ok c db nd" using assms(2) by (auto simp: l_node_def)
  then show "\<exists>res nd'. l_remove c db cmp nd (db k) = Some (res, nd') \<and> l_node c db nd'
      \<and> l_ptrs nd' = filter (\<lambda>p. db p \<noteq> db k) (l_ptrs nd)
      \<and> res = (if db k \<notin> set (l_keys db nd) then REMOVE_KEY_NOT_FOUND else if l_len nd = 1 then REMOVE_NODE_EMPTY
               else if l_len nd' < MAX_NODE_SIZE c div 2 then REMOVE_UNDERFLOW else REMOVE_SUCCESS)"
    by (rule l_remove_spec [OF assms(1) _ assms(4,3)])
qed

theorem linear_update_witness:
  "\<exists>nd' res nd''. l_insert sample_lcfg sample_db stage_cmp sample_lin_two [7] 7 = Some (INSERT_SUCCESS, nd')
    \<and> l_remove sample_lcfg sample_db stage_cmp sample_lin_two [5] = Some (res, nd'') \<and> l_ptrs nd'' = [9]"
proof -
  have sk: "sample_db 7 = [7]" "sample_db 5 = [5]" "sample_db 9 = [9]" by (simp_all add: sample_db_def)
  have ok: "l_node sample_lcfg sample_db sample_lin_two" using sample_lin_two_ok by (simp add: l_node_def)
  have k: "length (sample_db 7) = KEY_SIZE_BYTE sample_lcfg" "length (sample_db 5) = KEY_SIZE_BYTE sample_lcfg" "0 < l_len sample_lin_two"
    by (simp_all add: sample_db_def sample_lcfg_simps sample_lin_keys)
  obtain res nd' where "l_insert sample_lcfg sample_db stage_cmp sample_lin_two (sample_db 7) 7 = Some (res, nd')" "res = INSERT_SUCCESS"
    using conjunct1 [OF linear_update_correct [OF sample_lcfg_ok ok stage_cmp_compares k(1)]] by (auto simp: sample_lin_keys sample_lcfg_simps sk)
  moreover obtain res' nd'' where "l_remove sample_lcfg sample_db stage_cmp sample_lin_two (sample_db 5) = Some (res', nd'')" "l_ptrs nd'' = [9]"
    using mp [OF conjunct2 [OF linear_update_correct [OF sample_lcfg_ok ok stage_cmp_compares k(2)]] k(3)] by (simp add: sample_lin_keys sk) blast
  ultimately show ?thesis unfolding sk(1,2) by blast
qed

text \<open>C18 The split of a full leaf without a tree, which inserts a new key. It passes on the local variable
  \<^verbatim>\<open>smaller_than_node\<close>, which is not initialised and which the search sets only when the key is below the whole leaf. So the
  run depends on the place \<open>pos\<close> of the key among those of the leaf: in front of all keys, and behind the first key of the upper
  half, it gives two well-formed leaves with exactly the keys, in order, at least half a leaf each; everywhere else it reads
  the uninitialised variable.\<close>

theorem linear_split_correct:
  assumes "lcfg_ok c" "lnode_ok c db nd" "compares (KEY_SIZE_BYTE c) cmp" "l_len nd = MAX_NODE_SIZE c" "l_raw c right"
    and "length (db k) = KEY_SIZE_BYTE c" "db k \<notin> set (l_keys db nd)"
  shows "\<exists>pos \<le> l_len nd. (0 < pos \<longrightarrow> key_less (l_keys db nd ! (pos - 1)) (db k)) \<and> (pos < l_len nd \<longrightarrow> key_less (db k) (l_keys db nd ! pos))
    \<and> (if 0 < pos \<and> pos \<le> MAX_NODE_SIZE c div 2 then l_split c db cmp nd right (db k) k = None
    else \<exists>a b. l_split c db cmp nd right (db k) k = Some (a, b) \<and> lnode_ok c db a \<and> lnode_ok c db b
    \<and> l_ptrs a @ l_ptrs b = take pos (l_ptrs nd) @ k # drop pos (l_ptrs nd)
    \<and> MAX_NODE_SIZE c div 2 \<le> l_len a \<and> MAX_NODE_SIZE c div 2 \<le> l_len b \<and> bl.ordered (KEY_SIZE_BYTE c) (l_keys db a @ l_keys db b))"
  by (rule l_split_spec [OF assms(1,2,4-6,3,7)])

theorem linear_split_witness:
  "(\<exists>a b. l_split sample_lcfg sample_db stage_cmp sample_lin (new_lnode 4) [100] 100 = Some (a, b) \<and> l_ptrs a @ l_ptrs b = [5, 9, 20, 100, 200])
    \<and> l_split sample_lcfg sample_db stage_cmp sample_lin (new_lnode 4) [7] 7 = None"
proof
  have pre: "l_len sample_lin = MAX_NODE_SIZE sample_lcfg" "length (sample_db 100) = KEY_SIZE_BYTE sample_lcfg" "length (sample_db 7) = KEY_SIZE_BYTE sample_lcfg"
    "sample_db 100 \<notin> set (l_keys sample_db sample_lin)" "sample_db 7 \<notin> set (l_keys sample_db sample_lin)"
    by (simp_all add: sample_lin_keys sample_lcfg_simps sample_db_def)
  note w = linear_split_correct [OF sample_lcfg_ok sample_lin_ok stage_cmp_compares pre(1) new_lnode_raw]
  have k: "sample_db 100 = [100]" "sample_db 7 = [7]" by (simp_all add: sample_db_def)
  have pos: "p = 0 \<or> p = 1 \<or> p = 2 \<or> p = 3 \<or> p = 4" if "p \<le> 4" for p :: nat using that by linarith
  show "\<exists>a b. l_split sample_lcfg sample_db stage_cmp sample_lin (new_lnode 4) [100] 100 = Some (a, b) \<and> l_ptrs a @ l_ptrs b = [5, 9, 20, 100, 200]"
    using w [OF pre(2,4)] unfolding k sample_lin_keys sample_lcfg_simps by (auto dest!: pos simp: key_less_def)
  show "l_split sample_lcfg sample_db stage_cmp sample_lin (new_lnode 4) [7] 7 = None"
    using w [OF pre(3,5)] unfolding k sample_lin_keys sample_lcfg_simps by (auto dest!: pos simp: key_less_def)
qed

text \<open>The assignments of the merge, up to its closing brace, give the left leaf the keys of both, when those of the right leaf follow
  and there is room.\<close>

theorem linear_merge_body_correct:
  assumes "lcfg_ok c" "lnode_ok c db nd" "lnode_ok c db lg" "l_len nd + l_len lg \<le> MAX_NODE_SIZE c" "compares (KEY_SIZE_BYTE c) cmp"
    and "key_less (last (l_keys db nd)) (hd (l_keys db lg))"
  shows "\<exists>nd'. l_merge_body db cmp nd lg = Some nd' \<and> lnode_ok c db nd' \<and> l_ptrs nd' = l_ptrs nd @ l_ptrs lg"
  by (rule l_merge_body_spec [OF assms])

theorem linear_merge_body_witness: "\<exists>nd'. l_merge_body sample_db stage_cmp sample_lin_two sample_lin_more = Some nd' \<and> l_ptrs nd' = [5, 9, 20, 200]"
  using linear_merge_body_correct [OF sample_lcfg_ok sample_lin_two_ok sample_lin_more_ok _ stage_cmp_compares]
  by (auto simp: sample_lin_keys sample_lcfg_simps key_less_def)

section \<open>The B+ tree\<close>

text \<open>C19 Insertion into the B+ tree, the splits of leaves and inner nodes included, refines the insertion
  into a sorted list without duplicates: the invariant is kept (order, separators, fill, level, the links of
  the leaves, the statistics), the result says whether the key was new, and the iterator denotes the key.\<close>

theorem btree_insert_correct:
  assumes "bt_ok c t"
  shows "\<exists>t' it. bt_insert c t key val = Some (t', it, key \<notin> fst ` set (tree_items t)) \<and> bt_ok c t'
    \<and> tree_items t' = ins_list key val (tree_items t) \<and> iter_key t' it = Some key"
  using bt_insert_spec [OF assms, of key val] points_at_key by blast

theorem btree_insert_witness:
  "\<exists>t' it. bt_insert sample_bcfg sample_btree 45 7 = Some (t', it, True)
    \<and> tree_items t' = [(10, 1), (20, 2), (30, 3), (40, 4), (45, 7), (50, 5), (60, 6)]"
  using btree_insert_correct [OF sample_btree_ok, of 45 7] by (auto simp: sample_items)

text \<open>C20 \<open>find\<close> returns an iterator to the item of the key, and the end iterator if there is none.\<close>

theorem btree_find_correct:
  assumes "bt_ok c t"
  shows "case map_of (tree_items t) key of None \<Rightarrow> bt_find t key = iter_end t
    | Some v \<Rightarrow> \<exists>it. bt_find t key = Some it \<and> iter_deref t it = Some (key, v)"
  by (rule bt_find_spec [OF assms])

theorem btree_find_witness: "\<exists>it. bt_find sample_btree 40 = Some it \<and> iter_deref sample_btree it = Some (40, 4)"
  using btree_find_correct [OF sample_btree_ok, of 40] by (simp add: sample_items)

text \<open>\<open>exists\<close> and \<open>count\<close> answer for the items of the tree.\<close>

theorem btree_exists_count_correct:
  assumes "bt_ok c t"
  shows "bt_exists t key = Some (key \<in> fst ` set (tree_items t))
    \<and> bt_count t key = Some (of_bool (key \<in> fst ` set (tree_items t)))"
  by (intro conjI bt_exists_spec [OF assms] bt_count_spec [OF assms])

theorem btree_exists_count_witness: "bt_exists sample_btree 20 = Some True \<and> bt_count sample_btree 25 = Some 0"
  using btree_exists_count_correct [OF sample_btree_ok, of 20] btree_exists_count_correct [OF sample_btree_ok, of 25]
  by (simp add: sample_items)

text \<open>C21 From \<open>lower_bound\<close> (\<open>upper_bound\<close>) to the end of the tree an iterator meets, in order, the items
  whose keys are not less than (greater than) the key.\<close>

theorem btree_bounds_correct:
  assumes "bt_ok c t"
  shows "items_from t (bt_lower_bound t key) = Some (filter (\<lambda>x. key \<le> fst x) (tree_items t))
    \<and> items_from t (bt_upper_bound t key) = Some (filter (\<lambda>x. key < fst x) (tree_items t))"
  by (intro conjI bt_lower_bound_spec [OF assms] bt_upper_bound_spec [OF assms])

theorem btree_bounds_witness:
  "items_from sample_btree (bt_lower_bound sample_btree 20) = Some [(20, 2), (30, 3), (40, 4), (50, 5), (60, 6)]
    \<and> items_from sample_btree (bt_upper_bound sample_btree 20) = Some [(30, 3), (40, 4), (50, 5), (60, 6)]"
  using btree_bounds_correct [OF sample_btree_ok, of 20] by (simp add: sample_items)

text \<open>Iterating from \<open>begin()\<close> to \<open>end()\<close> along the links of the leaves yields the items of the tree in
  ascending order.\<close>

theorem btree_iteration_correct:
  assumes "bt_ok c t"
  shows "bt_items t = Some (tree_items t) \<and> sorted_wrt (<) (map fst (tree_items t))"
  using bt_items_spec [OF assms] assms by (simp add: bt_ok_def)

theorem btree_iteration_witness: "bt_items sample_btree = Some [(10, 1), (20, 2), (30, 3), (40, 4), (50, 5), (60, 6)]"
  using btree_iteration_correct [OF sample_btree_ok] by (simp add: sample_items)

text \<open>C22 Deletion by key, with the merging and shifting of leaves and inner nodes on the way up, refines the
  deletion from a sorted list: the invariant is kept (fill of every node, separators, links, statistics) and the
  result says whether, and how often, the key was there.\<close>

theorem btree_erase_correct:
  assumes "bt_ok c t"
  shows "(\<exists>t'. erase_one c t key = Some (t', key \<in> fst ` set (tree_items t)) \<and> bt_ok c t'
      \<and> tree_items t' = del_list key (tree_items t))
    \<and> (\<exists>t'. erase c t key = Some (t', of_bool (key \<in> fst ` set (tree_items t))) \<and> bt_ok c t'
      \<and> tree_items t' = del_list key (tree_items t))"
  by (intro conjI erase_one_spec [OF assms] erase_spec [OF assms])

theorem btree_erase_witness:
  "\<exists>t'. erase_one sample_bcfg sample_btree 10 = Some (t', True)
    \<and> tree_items t' = [(20, 2), (30, 3), (40, 4), (50, 5), (60, 6)]"
  using btree_erase_correct [OF sample_btree_ok, of 10] by (auto simp: sample_items)

text \<open>Deletion through an iterator removes exactly the item the iterator denotes, although the call has
  to find the leaf again by searching the slots that may hold the key.\<close>

theorem btree_erase_iter_correct:
  assumes "bt_ok c t" "iter_deref t (Some a, j) = Some (key, v)"
  shows "\<exists>t'. erase_iter c t a j = Some (t', True) \<and> bt_ok c t' \<and> tree_items t' = del_list key (tree_items t)"
  by (rule erase_iter_spec [OF assms])

theorem btree_erase_iter_witness:
  "\<exists>t'. erase_iter sample_bcfg sample_btree 1 2 = Some (t', True)
    \<and> tree_items t' = [(10, 1), (20, 2), (30, 3), (40, 4), (60, 6)]"
proof -
  have "iter_deref sample_btree (Some 1, 2) = Some (50, 5)"
    by (simp add: iter_deref_def iter_key_def iter_data_def get_leaf_def sample_btree_def)
  from btree_erase_iter_correct [OF sample_btree_ok this] show ?thesis by (auto simp: sample_items)
qed

text \<open>C23 Any program of insertions, lookups and deletions runs on the tree without undefined behaviour and
  gets, operation by operation, the answers a finite map would give.\<close>

theorem btree_program_correct:
  assumes "bt_ok c t"
  shows "\<exists>t' as. run_ops (bt_ins c) bt_lookup (erase_one c) ops t = Some (t', as) \<and> bt_ok c t'
    \<and> spec_ops ops (map_of (tree_items t)) = (map_of (tree_items t'), as)"
  by (rule bt.run_all [OF assms])

theorem btree_program_witness:
  "\<exists>t'. run_ops (bt_ins sample_bcfg) bt_lookup (erase_one sample_bcfg)
     [Op_erase 10, Op_insert 15 1, Op_find 15, Op_insert 15 2, Op_find 10] sample_btree
     = Some (t', [Erased True, Inserted True, Found (Some 1), Inserted False, Found None])"
  using btree_program_correct [OF sample_btree_ok, of "[Op_erase 10, Op_insert 15 1, Op_find 15, Op_insert 15 2, Op_find 10]"]
  by (auto simp: sample_items)

text \<open>C24 Every tree a program can reach, from the empty one by any sequence of the operations of the class,
  satisfies the invariant, and the self-check \<open>verify\<close> of the code accepts it.\<close>

theorem btree_reachable_ok:
  assumes "bt_reach c t" "bcfg_ok c"
  shows "bt_ok c t \<and> verify c t"
  using bt_reach_ok [OF assms] verify_spec by blast

theorem btree_reachable_witness:
  "\<exists>t. bulk_load sample_bcfg empty_btree [(n, n). n \<leftarrow> [0..<9]] = Some t \<and> verify sample_bcfg t"
proof -
  have s: "sorted_items [(n, n). n \<leftarrow> [0..<9]]" by (simp add: comp_def sorted_wrt_upt)
  obtain t where t: "bulk_load sample_bcfg empty_btree [(n, n). n \<leftarrow> [0..<9]] = Some t"
    using bulk_load_spec [OF empty_btree_ok [OF sample_bcfg_ok] _ s] by (auto simp: empty_btree_def)
  have "bt_reach sample_bcfg t"
    by (rule reach_bulk [OF reach_new _ s t]) (simp add: empty_btree_def)
  from btree_reachable_ok [OF this sample_bcfg_ok] t show ?thesis by blast
qed

text \<open>C25 Bulk loading a sorted sequence into an empty tree builds, level by level, a tree with exactly these
  items that satisfies the invariant: no node comes out under- or overfull.\<close>

theorem btree_bulk_load_correct:
  assumes "bt_ok c t" "m_root t = None" "sorted_items xs"
  shows "\<exists>t'. bulk_load c t xs = Some t' \<and> bt_ok c t' \<and> tree_items t' = xs"
  by (rule bulk_load_spec [OF assms])

theorem btree_bulk_load_witness:
  "\<exists>t. bulk_load sample_bcfg empty_btree [(n, n). n \<leftarrow> [0..<30]] = Some t \<and> tree_items t = [(n, n). n \<leftarrow> [0..<30]]"
  using btree_bulk_load_correct [OF empty_btree_ok [OF sample_bcfg_ok], of "[(n, n). n \<leftarrow> [0..<30]]"]
  by (auto simp: empty_btree_def comp_def sorted_wrt_upt simp del: upt_Suc)

text \<open>C26 Dumping a tree to a stream and restoring it gives a tree with the same items that satisfies the
  invariant, whatever tree the restoring object held before.\<close>

theorem btree_dump_restore:
  assumes "bt_ok c t" "bt_ok c u" "length (snd (dump c ksize dsize u)) \<le> fuel"
  shows "\<exists>t'. restore c ksize dsize fuel t (dump c ksize dsize u) = Some (t', True) \<and> bt_ok c t' \<and> tree_items t' = tree_items u"
  by (rule restore_spec [OF assms])

theorem btree_dump_restore_witness:
  "\<exists>t'. restore sample_bcfg 4 4 3 empty_btree (dump sample_bcfg 4 4 sample_btree) = Some (t', True)
    \<and> tree_items t' = tree_items sample_btree"
proof -
  have "length (snd (dump sample_bcfg 4 4 sample_btree)) \<le> 3" by (simp add: dump_def sample_btree_def)
  from btree_dump_restore [OF empty_btree_ok [OF sample_bcfg_ok] sample_btree_ok this] show ?thesis by blast
qed

text \<open>The copy constructor and the assignment operator give trees of their own with the items of the
  original; clearing gives the empty tree.\<close>

theorem btree_copy_assign_clear:
  assumes "bt_ok c t" "bt_ok c u"
  shows "bt_ok c (bt_copy u) \<and> tree_items (bt_copy u) = tree_items u
    \<and> bt_ok c (bt_assign t u) \<and> tree_items (bt_assign t u) = tree_items u
    \<and> bt_ok c (bt_clear t) \<and> tree_items (bt_clear t) = []"
  using bt_copy_spec [OF assms(2)] bt_assign_spec [OF assms] bt_clear_ok [OF assms(1)] by (simp add: tree_items_def)

theorem btree_copy_witness: "tree_items (bt_copy sample_btree) = [(10, 1), (20, 2), (30, 3), (40, 4), (50, 5), (60, 6)]"
  using btree_copy_assign_clear [OF sample_btree_ok sample_btree_ok] by (simp add: sample_items)

text \<open>Clearing frees every node exactly once: when the recursion over the nodes and the freeing of the
  root are done, the counters of the allocated leaves and inner nodes are back at zero, before they are reset.\<close>

theorem btree_clear_no_leak:
  assumes "bt_ok c t" "m_root t = Some r"
  shows "m_stats (free_node (isleafnode r) (clear_recursive r (m_env t)))
    = (m_stats (m_env t)) \<lparr> leaves := 0, innernodes := 0 \<rparr>"
  using assms clear_recursive_frees [of r "m_env t" c True]
  by (simp add: bt_ok_def tree_leaves_def tree_ninner_def chain_def leaf_addrs_list)

theorem btree_clear_witness:
  "leaves (m_stats (clear_recursive (Inner 1 [20] [Leaf 0 [10, 20] [1, 2], Leaf 1 [30, 40, 50, 60] [3, 4, 5, 6]]) sample_env)) = 0"
  using btree_clear_no_leak [OF sample_btree_ok]
  by (simp add: sample_btree_def isleafnode_def free_node_def sample_env_def)

text \<open>C27 Whatever insertions, deletions, bulk loads, copies and restores a tree has gone through, its height is logarithmic in the
  number of items its counter tells, from both sides: every node but the root is at least half full, and none is overfull.\<close>

theorem btree_height_bounds:
  assumes "bt_reach c t" "bcfg_ok c" "m_root t = Some r" "level r = Suc h"
  shows "2 * (leafslotmax c div 2) * (innerslotmax c div 2 + 1) ^ h \<le> bt_size t
    \<and> bt_size t \<le> leafslotmax c * (innerslotmax c + 1) ^ Suc h"
  using bt_reach_ok [OF assms(1,2)] assms(3,4) root_items_lower [of c r h] items_upper [of c True r]
  by (simp add: bt_ok_def tree_items_def minleafslots_def mininnerslots_def)

theorem btree_height_witness:
  "\<exists>t r. bulk_load sample_bcfg empty_btree [(n, n). n \<leftarrow> [0..<9]] = Some t \<and> m_root t = Some r \<and> level r = 1 \<and> bt_size t = 9"
proof -
  have s: "sorted_items [(n, n). n \<leftarrow> [0..<9]]" by (simp add: comp_def sorted_wrt_upt)
  obtain t where t: "bulk_load sample_bcfg empty_btree [(n, n). n \<leftarrow> [0..<9]] = Some t" "bt_ok sample_bcfg t" "tree_items t = [(n, n). n \<leftarrow> [0..<9]]"
    using bulk_load_spec [OF empty_btree_ok [OF sample_bcfg_ok] _ s] by (auto simp: empty_btree_def)
  have n: "bt_size t = 9" using t(2,3) by (simp add: bt_ok_def)
  obtain r where r: "m_root t = Some r" using t(3) by (cases "m_root t") (auto simp: tree_items_def)
  have "bt_wf sample_bcfg True r" "length (items r) = 9" using t(2,3) r by (auto simp: bt_ok_def tree_items_def)
  then have "(9 :: nat) \<le> 4 * 5 ^ level r" using items_upper [of sample_bcfg True r] by (simp add: sample_bcfg_def)
  then have "level r \<noteq> 0" by (cases "level r") simp_all
  then obtain h where h: "level r = Suc h" by (cases "level r") auto
  have "bt_reach sample_bcfg t" by (rule reach_bulk [OF reach_new _ s t(1)]) (simp add: empty_btree_def)
  from btree_height_bounds [OF this sample_bcfg_ok r h] have le: "4 * 3 ^ h \<le> (9::nat)" by (simp add: sample_bcfg_def n)
  have "h = 0"
  proof (rule ccontr)
    assume "h \<noteq> 0"
    then have "3 \<le> (3::nat) ^ h" using power_increasing [of 1 h "3::nat"] by simp
    then show False using le by linarith
  qed
  then show ?thesis using t(1) r h n by auto
qed

text \<open>Stepping an iterator back undoes a step forward, also across a leaf border.\<close>

theorem btree_iterator_inverse:
  assumes "bt_ok c t" "rest_is t it (x # xs)" "iter_incr t it = Some it'"
  shows "iter_decr t it' = Some it"
  by (rule iter_decr_incr [OF assms])

theorem btree_iterator_inverse_witness: "iter_decr sample_btree (Some 1, 0) = Some (Some 0, 1)"
proof (rule btree_iterator_inverse [OF sample_btree_ok])
  show "rest_is sample_btree (Some 0, 1) ((20, 2) # [(30, 3), (40, 4), (50, 5), (60, 6)])"
    by (rule rest_is_I [of _ "[]" 0 "[10, 20]" "[1, 2]" "[(1, [30, 40, 50, 60], [3, 4, 5, 6])]"])
      (simp_all add: sample_btree_def tree_leaves_def)
  show "iter_incr sample_btree (Some 0, 1) = Some (Some 1, 0)"
    by (simp add: iter_incr_def sample_btree_def sample_env_def get_leaf_def)
qed

text \<open>A reverse iterator, started at \<open>end()\<close>, meets the items in descending order.\<close>

theorem btree_reverse_iteration:
  assumes "bt_ok c t" "tree_items t \<noteq> []" "iter_end t = Some it"
  shows "rwalk t (bt_size t) it = Some (rev (tree_items t))"
proof -
  have "tree_leaves t \<noteq> []" using assms(2) by (auto simp: tree_items_leaves)
  then have "before_is t it (rev (tree_items t))" using iter_end_before [OF assms(1)] assms(3) by auto
  from rwalk_before [OF assms(1) this] show ?thesis using assms(1) by (simp add: bt_ok_def)
qed

theorem btree_reverse_iteration_witness: "rwalk sample_btree 6 (Some 1, 4) = Some [(60, 6), (50, 5), (40, 4), (30, 3), (20, 2), (10, 1)]"
proof -
  have "iter_end sample_btree = Some (Some 1, 4)"
    by (simp add: iter_end_def sample_btree_def sample_env_def get_leaf_def)
  moreover have "bt_size sample_btree = 6" by (simp add: bt_size_def sample_btree_def sample_env_def)
  ultimately show ?thesis using btree_reverse_iteration [OF sample_btree_ok] by (simp add: sample_items)
qed

text \<open>The comparison operators compare the item sequences: equality is equality of the items, and \<open><\<close> is
  the strict lexicographic order on them, which is irreflexive, transitive and total.\<close>

theorem btree_comparisons:
  assumes "bt_ok c t" "bt_ok c u" "bt_ok c w"
  shows "bt_eq t u = Some (tree_items t = tree_items u) \<and> bt_less t t = Some False
    \<and> (bt_less t u = Some True \<and> bt_less u w = Some True \<longrightarrow> bt_less t w = Some True)
    \<and> (bt_eq t u = Some True \<or> bt_less t u = Some True \<or> bt_less u t = Some True)"
  unfolding bt_eq_spec [OF assms(1,2)] bt_less_spec [OF assms(1,1)] bt_less_spec [OF assms(1,2)] bt_less_spec [OF assms(2,3)]
    bt_less_spec [OF assms(1,3)] bt_less_spec [OF assms(2,1)]
  using lex_less_irrefl [of "tree_items t"] lex_less_trans [of "tree_items t" "tree_items u" "tree_items w"]
    lex_less_total [of "tree_items t" "tree_items u"] by auto

theorem btree_comparisons_witness: "bt_less sample_btree sample_btree = Some False \<and> bt_eq sample_btree empty_btree = Some False"
  using btree_comparisons [OF sample_btree_ok empty_btree_ok [OF sample_bcfg_ok] sample_btree_ok]
  by (simp add: sample_items) (simp add: empty_btree_def tree_items_def)

section \<open>The elastic index\<close>

text \<open>C28 An insertion of a new key into the elastic index returns, whatever it has to do on the way: split an
  ordinary leaf, turn it into a blind leaf, grow a blind leaf to the next class or split it, compress a sibling, split inner
  nodes up to the root. It keeps the invariant of the index (both kinds of leaves, separators, links, statistics) and
  adds exactly this item.\<close>

theorem hybrid_insert_correct:
  assumes "hy_ok hc db t" "length (db kp) = h_key_len hc" "Key (db kp) \<notin> fst ` set (hy_items db t)"
  shows "\<exists>t' it. hy_insert hc db t kp kp = Some (t', it, True) \<and> hy_ok hc db t'
    \<and> hy_items db t' = ins_list (Key (db kp)) kp (hy_items db t)"
proof -
  have "new_key hc db kp (hy_items db t)" using assms by (simp add: new_key_def)
  from hy_insert_spec [OF assms(1) this] show ?thesis by blast
qed

lemma sample_tree_items: "hy_items sample_db sample_htree = map (\<lambda>p. (Key [word_of_nat p], p)) [3, 5, 9, 20, 30, 40, 50, 60, 70]"
  by (simp only: hy_items_def sample_htree_def htree.simps option.case sample_hitems)

lemma sample_new: "length (sample_db 10) = h_key_len sample_hcfg" "Key (sample_db 10) \<notin> fst ` set (hy_items sample_db sample_htree)"
  unfolding sample_tree_items by (simp_all add: sample_db_def sample_hcfg_def)

theorem hybrid_insert_witness:
  "\<exists>t' it. hy_insert sample_hcfg sample_db sample_htree 10 10 = Some (t', it, True)
    \<and> map snd (hy_items sample_db t') = [3, 5, 9, 10, 20, 30, 40, 50, 60, 70]"
proof -
  from hybrid_insert_correct [OF sample_hy_ok sample_new] obtain t' it where
    "hy_insert sample_hcfg sample_db sample_htree 10 10 = Some (t', it, True)"
    "hy_items sample_db t' = ins_list (Key (sample_db 10)) 10 (hy_items sample_db sample_htree)" by blast
  then show ?thesis unfolding sample_tree_items by (simp add: sample_db_def less_key_def)
qed

text \<open>C29 \<^verbatim>\<open>find\<close> on the elastic index, for a key whose descent ends in an ordinary leaf: if the key is there it returns an iterator
  to its item, and stepping this iterator forward reads the items from the key on in order, through the ordinary and
  blind leaves behind; if it is not there the result is \<^verbatim>\<open>end()\<close>. A descent into a blind leaf is the subject of C35.\<close>

theorem hybrid_find_scan:
  assumes "hy_ok hc db t" "h_root t = Some r" "hdescend find_lower key r = Some (HBtree a ks vs)"
  shows "case map_of (hy_items db t) key of
      None \<Rightarrow> hy_find hc db t key = hy_end t
    | Some v \<Rightarrow> \<exists>it. hy_find hc db t key = Some it \<and> hiter_deref db t it = Some (key, v)
        \<and> (let xs = filter (\<lambda>x. key \<le> fst x) (hy_items db t) in hwalk db t (length xs) it = Some xs)"
  using hy_find_spec [OF assms] hwalk_rest [OF assms(1)] by (auto simp: Let_def split: option.splits)

lemma sample_descend_btree:
  "h_root sample_htree = Some sample_hroot"
  "hdescend find_lower (Key [40]) sample_hroot = Some (HBtree 1 [Key [30], Key [40], Key [50], Key [60], Key [70]] [30, 40, 50, 60, 70])"
  "hdescend find_lower (Key [45]) sample_hroot = Some (HBtree 1 [Key [30], Key [40], Key [50], Key [60], Key [70]] [30, 40, 50, 60, 70])"
  "hdescend find_lower (Key [9]) sample_hroot = Some (HBlind 2 1 4 sample_node)"
  by (simp_all add: sample_htree_def sample_hroot_def less_key_def)

theorem hybrid_find_witness:
  "\<exists>it xs. hy_find sample_hcfg sample_db sample_htree (Key [40]) = Some it \<and> hwalk sample_db sample_htree 4 it = Some xs
    \<and> map snd xs = [40, 50, 60, 70]"
proof -
  note s = hybrid_find_scan [OF sample_hy_ok sample_descend_btree(1,2)]
  let ?it = "hy_items sample_db sample_htree" and ?xs = "map (\<lambda>p. (Key [word_of_nat p], p)) [40, 50, 60, 70 :: nat]"
  have m: "map_of ?it (Key [40]) = Some 40" unfolding sample_tree_items by simp
  have f: "filter (\<lambda>x. Key [40] \<le> fst x) ?it = ?xs" unfolding sample_tree_items by (simp add: less_eq_key_def)
  have l: "length ?xs = 4" "map snd ?xs = [40, 50, 60, 70]" by simp_all
  from s obtain it where "hy_find sample_hcfg sample_db sample_htree (Key [40]) = Some it" "hwalk sample_db sample_htree 4 it = Some ?xs"
    unfolding m option.case Let_def f l(1) by blast
  then show ?thesis by (intro exI [of _ it] exI [of _ ?xs] conjI l(2))
qed

text \<open>C30 The insertion of a range (\<^verbatim>\<open>insert(first, last)\<close>) of any number of records with new, pairwise different keys runs to its
  end from every state the index can reach, however many leaves are compressed, grown and split on the way; it adds exactly
  these items to the sorted sequence, the counter of the items goes up by their number, and the result is reachable again and
  satisfies the invariant. The limit must leave room for one leaf.\<close>

theorem hybrid_insert_range_correct:
  assumes "hy_reach hc db t" "limits_ok hc" "distinct (map db ps)"
    and "\<forall>p \<in> set ps. length (db p) = h_key_len hc \<and> Key (db p) \<notin> fst ` set (hy_items db t)"
  shows "\<exists>t'. hy_insert_range hc db t (map (\<lambda>p. (p, p)) ps) = Some t' \<and> hy_reach hc db t' \<and> hy_ok hc db t'
    \<and> sorted_items (hy_items db t') \<and> set (hy_items db t') = set (hy_items db t) \<union> (\<lambda>p. (Key (db p), p)) ` set ps
    \<and> hy_size t' = hy_size t + length ps"
proof -
  from hy_insert_range_spec [OF assms] obtain t' where t': "hy_insert_range hc db t (map (\<lambda>p. (p, p)) ps) = Some t'" "hy_reach hc db t'"
    "set (hy_items db t') = set (hy_items db t) \<union> (\<lambda>p. (Key (db p), p)) ` set ps" "hy_size t' = hy_size t + length ps" by blast
  have "hy_ok hc db t'" using hy_reach_inv [OF t'(2) assms(2)] by blast
  then show ?thesis using t' hy_items_sorted by blast
qed

theorem hybrid_insert_range_witness:
  "\<exists>t'. hy_insert_range sample_hcfg sample_db (empty_htree sample_hcfg) (map (\<lambda>p. (p, p)) [12, 11, 10, 9, 8, 7, 6, 5, 4, 3, 2, 1]) = Some t'
    \<and> hy_size t' = 12 \<and> unat (limit2ShouldCompress (new_hstats sample_hcfg)) = 8"
proof -
  let ?ps = "[12, 11, 10, 9, 8, 7, 6, 5, 4, 3, 2, 1] :: nat list"
  have e: "hy_items sample_db (empty_htree sample_hcfg) = []" "hy_size (empty_htree sample_hcfg) = 0"
    by (simp_all add: hy_items_def hy_size_def empty_htree_def zero_stats_def)
  have d: "distinct (map sample_db ?ps)" by (simp add: sample_db_def)
  have "\<forall>p \<in> set ?ps. length (sample_db p) = h_key_len sample_hcfg \<and> Key (sample_db p) \<notin> fst ` set (hy_items sample_db (empty_htree sample_hcfg))"
    unfolding e by (simp add: sample_db_def sample_hcfg_def)
  from hybrid_insert_range_correct [OF hreach_empty sample_limits_ok d this] show ?thesis unfolding e using sample_limit by auto
qed



text \<open>C32 The status over all states the index can reach by insertions of new keys and clearing. Within the limit it is
  \<open>CONTINUE\<close> and no leaf is blind; \<open>SHOULD_COMPRESS\<close> and \<open>MUST_COMPRESS\<close> occur only over the limit; over the limit
  \<open>CONTINUE\<close> means that no ordinary leaf is left; \<open>MAY_UNCOMPRESS\<close> is never entered. The next insertion of a new key moves
  the status exactly along these edges: from \<open>CONTINUE\<close> to \<open>SHOULD_COMPRESS\<close> when the limit is passed and an ordinary leaf is
  left, which is the case whenever the insertion is the one that passes it; from there to \<open>MUST_COMPRESS\<close> when the second limit is
  passed, never back; and from \<open>MUST_COMPRESS\<close> to \<open>CONTINUE\<close> when no ordinary leaf is left.\<close>

theorem hybrid_status_invariant:
  assumes "hy_reach hc db t" "limits_ok hc"
  defines "s \<equiv> h_stats (h_env t)"
  shows "(hy_size t \<le> hy_limit t \<longrightarrow> hybridstatus s = CONTINUE \<and> blindileaves s = 0)
    \<and> (hybridstatus s \<in> {SHOULD_COMPRESS, MUST_COMPRESS} \<longrightarrow> hy_limit t < hy_size t)
    \<and> (hy_limit t < hy_size t \<and> hybridstatus s = CONTINUE \<longrightarrow> btreeleaves s = 0) \<and> hybridstatus s \<noteq> MAY_UNCOMPRESS
    \<and> (\<forall>kp t' it b. length (db kp) = h_key_len hc \<and> Key (db kp) \<notin> fst ` set (hy_items db t) \<and> hy_insert hc db t kp kp = Some (t', it, b) \<longrightarrow>
        hybridstatus (h_stats (h_env t')) = (case hybridstatus s of
          CONTINUE \<Rightarrow> if hy_limit t < Suc (hy_size t) \<and> 0 < btreeleaves (h_stats (h_env t')) then SHOULD_COMPRESS else CONTINUE
        | SHOULD_COMPRESS \<Rightarrow> if unat (limit2MustCompress (h_stats (h_env t'))) < Suc (hy_size t) then MUST_COMPRESS else SHOULD_COMPRESS
        | MUST_COMPRESS \<Rightarrow> if btreeleaves (h_stats (h_env t')) = 0 then CONTINUE else MUST_COMPRESS
        | MAY_UNCOMPRESS \<Rightarrow> MAY_UNCOMPRESS)
      \<and> (hy_size t = hy_limit t \<longrightarrow> hybridstatus (h_stats (h_env t')) = SHOULD_COMPRESS))"
proof (intro conjI allI impI)
  have p: "hy_phase t" "hy_ok hc db t" using hy_reach_inv [OF assms(1,2)] by auto
  show "hybridstatus s = CONTINUE" "blindileaves s = 0" if "hy_size t \<le> hy_limit t" using p that by (simp_all add: hy_phase_def s_def Let_def)
  show "hy_limit t < hy_size t" if "hybridstatus s \<in> {SHOULD_COMPRESS, MUST_COMPRESS}"
    using p(1) that by (auto simp: hy_phase_def s_def Let_def not_le [symmetric])
  show "btreeleaves s = 0" if "hy_limit t < hy_size t \<and> hybridstatus s = CONTINUE" using p(1) that by (auto simp: hy_phase_def s_def Let_def)
  show "hybridstatus s \<noteq> MAY_UNCOMPRESS" using p(2) by (simp add: hy_ok_def s_def)
next
  fix kp t' it b
  assume i: "length (db kp) = h_key_len hc \<and> Key (db kp) \<notin> fst ` set (hy_items db t) \<and> hy_insert hc db t kp kp = Some (t', it, b)"
  then have k: "new_key hc db kp (hy_items db t)" by (simp add: new_key_def)
  show "hybridstatus (h_stats (h_env t')) = (case hybridstatus s of
          CONTINUE \<Rightarrow> if hy_limit t < Suc (hy_size t) \<and> 0 < btreeleaves (h_stats (h_env t')) then SHOULD_COMPRESS else CONTINUE
        | SHOULD_COMPRESS \<Rightarrow> if unat (limit2MustCompress (h_stats (h_env t'))) < Suc (hy_size t) then MUST_COMPRESS else SHOULD_COMPRESS
        | MUST_COMPRESS \<Rightarrow> if btreeleaves (h_stats (h_env t')) = 0 then CONTINUE else MUST_COMPRESS
        | MAY_UNCOMPRESS \<Rightarrow> MAY_UNCOMPRESS)"
    unfolding s_def by (rule hy_insert_status [OF assms(1,2) k]) (use i in blast)
  show "hybridstatus (h_stats (h_env t')) = SHOULD_COMPRESS" if "hy_size t = hy_limit t"
    using hy_insert_crosses [OF assms(1,2) that k] i by blast
qed

theorem hybrid_status_witness:
  "\<exists>t t' it. hy_size t = 8 \<and> blindileaves (h_stats (h_env t)) = 0 \<and> hybridstatus (h_stats (h_env t)) = CONTINUE
    \<and> hy_insert sample_hcfg sample_db t 9 9 = Some (t', it, True) \<and> hybridstatus (h_stats (h_env t')) = SHOULD_COMPRESS"
proof -
  from sample_eight obtain t where t: "hy_reach sample_hcfg sample_db t" "hy_size t = 8" "Key (sample_db 9) \<notin> fst ` set (hy_items sample_db t)" by blast
  have l: "length (sample_db 9) = h_key_len sample_hcfg" by (simp add: sample_db_def sample_hcfg_def)
  have ok: "hy_ok sample_hcfg sample_db t" using hy_reach_inv [OF t(1) sample_limits_ok] by blast
  from hybrid_insert_correct [OF ok l t(3)] obtain t' it where i: "hy_insert sample_hcfg sample_db t 9 9 = Some (t', it, True)" by blast
  have lim: "hy_limit t = 8" by (rule sample_reach_limit [OF t(1)])
  note w = hybrid_status_invariant [OF t(1) sample_limits_ok]
  have "hybridstatus (h_stats (h_env t)) = CONTINUE" "blindileaves (h_stats (h_env t)) = 0" using w t(2) lim by simp_all
  moreover have "hybridstatus (h_stats (h_env t')) = SHOULD_COMPRESS" using w t(2,3) lim l i by (metis (lifting))
  ultimately show ?thesis using t(2) i by blast
qed

text \<open>C33 Compression makes progress: while the index compresses an insertion never adds an ordinary leaf; with
  \<open>MUST_COMPRESS\<close> one that reaches an ordinary leaf leaves at least one less, and the status returns to \<open>CONTINUE\<close> exactly
  when none is left.\<close>

theorem hybrid_compress_progress:
  assumes "hy_ok hc db t" "length (db kp) = h_key_len hc" "Key (db kp) \<notin> fst ` set (hy_items db t)"
    and "hy_insert hc db t kp kp = Some (t', it, b)" "hybridstatus (h_stats (h_env t)) \<in> {SHOULD_COMPRESS, MUST_COMPRESS}"
  shows "btreeleaves (h_stats (h_env t')) \<le> btreeleaves (h_stats (h_env t))
    \<and> (\<forall>n a ks vs. hybridstatus (h_stats (h_env t)) = MUST_COMPRESS \<and> h_root t = Some n
         \<and> hdescend find_lower (Key (db kp)) n = Some (HBtree a ks vs)
         \<longrightarrow> btreeleaves (h_stats (h_env t')) < btreeleaves (h_stats (h_env t)))
    \<and> (hybridstatus (h_stats (h_env t)) = MUST_COMPRESS
         \<longrightarrow> hybridstatus (h_stats (h_env t')) = (if btreeleaves (h_stats (h_env t')) = 0 then CONTINUE else MUST_COMPRESS))"
proof -
  have k: "new_key hc db kp (hy_items db t)" using assms(2,3) by (simp add: new_key_def)
  have "compressing (h_env t)" using assms(5) by (simp add: compressing_def)
  moreover have "hybridstatus (h_stats (h_env t')) = (if btreeleaves (h_stats (h_env t')) = 0 then CONTINUE else MUST_COMPRESS)"
    if "hybridstatus (h_stats (h_env t)) = MUST_COMPRESS"
  proof -
    obtain s where s: "same_course (h_stats (h_env t)) s" "h_stats (h_env t') = status_step s (Suc (hy_size t))"
      using insert_leaf_counts(3) [OF assms(1) k assms(4)] by blast
    have "hybridstatus s = MUST_COMPRESS" using same_courseD(1) [OF s(1)] that by simp
    then show ?thesis unfolding s(2) by (simp add: status_step_def)
  qed
  ultimately show ?thesis using insert_leaf_counts(4) [OF assms(1) k assms(4)] hy_insert_must [OF assms(1) k assms(4)] by auto
qed

theorem hybrid_compress_witness:
  "\<exists>t' it. hy_insert sample_hcfg sample_db sample_htree 10 10 = Some (t', it, True) \<and> btreeleaves (h_stats (h_env t')) \<le> 1"
proof -
  have k: "new_key sample_hcfg sample_db 10 (hy_items sample_db sample_htree)" using sample_new by (simp add: new_key_def)
  from hy_insert_spec [OF sample_hy_ok k] obtain t' it where i: "hy_insert sample_hcfg sample_db sample_htree 10 10 = Some (t', it, True)" by blast
  have s: "hybridstatus (h_stats (h_env sample_htree)) \<in> {SHOULD_COMPRESS, MUST_COMPRESS}" "btreeleaves (h_stats (h_env sample_htree)) = 1"
    by (simp_all add: sample_htree_def sample_henv_def)
  from hybrid_compress_progress [OF sample_hy_ok sample_new i s(1)] i s(2) show ?thesis by auto
qed

text \<open>C34 \<^verbatim>\<open>lower_bound\<close> on the elastic index, when the descent for the bound ends in an ordinary leaf and some key is not below
  it: it returns an iterator to the first item that is not below the bound, the separators of the inner nodes and the
  place in the leaf being right, and from there all such items follow in order.\<close>

theorem hybrid_lower_bound:
  assumes "hy_ok hc db t" "h_root t = Some r" "hdescend find_lower key r = Some (HBtree a ks vs)" "\<exists>x \<in> set (hy_items db t). key \<le> fst x"
  shows "\<exists>it x xs. hy_lower_bound hc db t key = Some it \<and> filter (\<lambda>x. key \<le> fst x) (hy_items db t) = x # xs
    \<and> hiter_deref db t it = Some x \<and> hwalk db t (Suc (length xs)) it = Some (x # xs)"
proof -
  let ?xs = "filter (\<lambda>x. key \<le> fst x) (hy_items db t)"
  from hy_lower_bound_spec [OF assms] obtain it where l: "hy_lower_bound hc db t key = Some it" "hrest db t it ?xs" by blast
  have "?xs \<noteq> []" using assms(4) by (auto simp: filter_empty_conv)
  then obtain x xs where x: "?xs = x # xs" by (cases ?xs) auto
  have "hiter_deref db t it = Some x" using hrest_step [OF assms(1) l(2) [unfolded x]] by blast
  moreover have "hwalk db t (Suc (length xs)) it = Some (x # xs)" using hwalk_rest [OF assms(1) l(2)] unfolding x list.size by simp
  ultimately show ?thesis using l(1) x by blast
qed

theorem hybrid_lower_bound_witness:
  "\<exists>it. hy_lower_bound sample_hcfg sample_db sample_htree (Key [45]) = Some it \<and> hiter_deref sample_db sample_htree it = Some (Key [50], 50)"
proof -
  have e: "\<exists>x \<in> set (hy_items sample_db sample_htree). Key [45] \<le> fst x" unfolding sample_tree_items by (simp add: less_eq_key_def)
  have f: "filter (\<lambda>x. Key [45] \<le> fst x) (hy_items sample_db sample_htree) = [(Key [50], 50), (Key [60], 60), (Key [70], 70)]"
    unfolding sample_tree_items by (simp add: less_eq_key_def)
  from hybrid_lower_bound [OF sample_hy_ok sample_descend_btree(1,3) e] show ?thesis unfolding f by auto
qed

text \<open>C35 The arrays \<^verbatim>\<open>tree_traverse[5]\<close> of \<^verbatim>\<open>find\<close> and \<^verbatim>\<open>lower_bound\<close> are too short: a lookup that reaches a blind leaf writes past its
  array, for every key and with every content of the leaf when the leaves are built with tree levels, and without them as soon as the leaf has
  two keys, which every blind leaf of the index has.\<close>

theorem hybrid_traverse_overflow:
  assumes "h_root t = Some r" "hdescend find_lower key r = Some (HBlind a c su nd)" "0 < h_tree_levels hc \<or> 2 \<le> valid_len nd"
  shows "hy_find hc db t key = None \<and> hy_lower_bound hc db t key = None"
  using search_blindi_overflows [OF assms(3)] assms(1,2) by (simp add: hy_find_def hy_find_leaf_def hy_lower_bound_def)

theorem hybrid_traverse_witness: "hy_find sample_hcfg sample_db sample_htree (Key [9]) = None"
  using hybrid_traverse_overflow [OF sample_descend_btree(1,4), of sample_hcfg sample_db] by (simp add: sample_hcfg_def)

text \<open>The iterator an insertion returns: it is in the leaf that took the item; in an ordinary leaf it stands at the new
  item, in a blind leaf it always stands at slot 0, wherever the item went.\<close>

theorem hybrid_insert_iterator:
  assumes "hy_ok hc db t" "length (db kp) = h_key_len hc" "Key (db kp) \<notin> fst ` set (hy_items db t)"
    and "hy_insert hc db t kp kp = Some (t', it, b)"
  shows "\<exists>r m. h_root t' = Some r \<and> m \<in> set (hleaves r) \<and> fst it = Some (hleaf_addr m)
    \<and> (case m of HBtree a ks vs \<Rightarrow> hiter_key db t' it = Some (Key (db kp)) | _ \<Rightarrow> snd it = 0)"
proof -
  have k: "new_key hc db kp (hy_items db t)" using assms(2,3) by (simp add: new_key_def)
  from hy_insert_spec [OF assms(1) k] assms(4) obtain r where r: "hy_ok hc db t'" "h_root t' = Some r" "hpoints [r] it (Key (db kp))" by auto
  then obtain m where m: "m \<in> set (hleaves r)" "fst it = Some (hleaf_addr m)"
    "case m of HBtree a ks vs \<Rightarrow> snd it < length ks \<and> ks ! snd it = Key (db kp) | _ \<Rightarrow> snd it = 0" by (auto simp: hpoints_def)
  have "hleaf_at t' (hleaf_addr m) = Some m" by (rule hy_leaf_at [OF r(1,2) m(1)])
  then have "case m of HBtree a ks vs \<Rightarrow> hiter_key db t' it = Some (Key (db kp)) | _ \<Rightarrow> snd it = 0"
    using m(2,3) by (cases m) (auto simp: hiter_key_def h_get_key_def get_def)
  then show ?thesis using r(2) m(1,2) by blast
qed

theorem hybrid_iterator_witness:
  "\<exists>t' it. hy_insert sample_hcfg sample_db sample_htree 10 10 = Some (t', it, True)
    \<and> (\<exists>r m. h_root t' = Some r \<and> m \<in> set (hleaves r) \<and> fst it = Some (hleaf_addr m))"
proof -
  have k: "new_key sample_hcfg sample_db 10 (hy_items sample_db sample_htree)" using sample_new by (simp add: new_key_def)
  from hy_insert_spec [OF sample_hy_ok k] obtain t' it where i: "hy_insert sample_hcfg sample_db sample_htree 10 10 = Some (t', it, True)" by blast
  from hybrid_insert_iterator [OF sample_hy_ok sample_new i] i show ?thesis by blast
qed

text \<open>C36 The elastic index does not look for duplicates, whatever its comments and its result type say: when the descent for a key ends
  in an ordinary leaf that has room and holds the key, and the leaf need not be compressed, the insertion of the key reports success,
  counts one more item, and leaves exactly two items with the key in the index.\<close>

theorem hybrid_duplicate_insert:
  assumes "hy_ok hc db t" "h_root t = Some r" "hdescend find_lower (Key (db kp)) r = Some (HBtree a ks vs)"
    and "length ks < h_leafslots hc" "hybridstatus (h_stats (h_env t)) \<noteq> MUST_COMPRESS" "Key (db kp) \<in> set ks"
  shows "\<exists>t' it. hy_insert hc db t kp val = Some (t', it, True) \<and> hy_size t' = Suc (hy_size t)
    \<and> length (hy_items db t') = Suc (length (hy_items db t)) \<and> length (filter (\<lambda>x. fst x = Key (db kp)) (hy_items db t')) = 2"
  by (rule hy_insert_duplicate [OF assms])

theorem hybrid_duplicate_witness:
  "\<exists>t' it. hy_insert sample_hcfg sample_db sample_htree 40 99 = Some (t', it, True) \<and> hy_size t' = 10
    \<and> length (filter (\<lambda>x. fst x = Key [40]) (hy_items sample_db t')) = 2"
proof -
  have k: "sample_db 40 = [40]" by (simp add: sample_db_def)
  have "hy_size sample_htree = 9" "hybridstatus (h_stats (h_env sample_htree)) \<noteq> MUST_COMPRESS"
    by (simp_all add: hy_size_def sample_htree_def sample_henv_def)
  then show ?thesis
    using hybrid_duplicate_insert [OF sample_hy_ok sample_descend_btree(1), of 40, unfolded k, OF sample_descend_btree(2), of 99]
    by (auto simp: sample_hcfg_def)
qed

text \<open>C37 The statistics are exact: in every state the index can reach, the counters of ordinary leaves, of blind leaves
  and of each class of them, of inner nodes and of items are those of the tree, the list of the leaves is linked in the
  order of the tree, and \<^verbatim>\<open>indexcapacity\<close> is the sum of the sizes of the nodes, modulo \<open>2 ^ 64\<close>.\<close>

theorem hybrid_statistics:
  assumes "hy_reach hc db t" "limits_ok hc" "h_root t = Some r"
  defines "s \<equiv> h_stats (h_env t)"
  shows "btreeleaves s = count (kinds r) KBtree \<and> (\<forall>c. blindinodes s c = count (kinds r) (KBlind c))
    \<and> blindileaves s = size (filter_mset is_kblind (kinds r)) \<and> innernodes (m_stats (h_base (h_env t))) = count (kinds r) KInner
    \<and> leaves (m_stats (h_base (h_env t))) = length (hleaves r) \<and> hy_size t = length (hitems db r)
    \<and> hy_capacity t = (\<Sum>k \<in># kinds r. kind_size hc k) \<and> linked (h_base (h_env t)) None (haddrs r) None"
proof -
  have ok: "hy_ok hc db t" using hy_reach_inv [OF assms(1,2)] by blast
  then have "hy_size t = length (hitems db r)" using hy_ok_size [OF ok] assms(3) by (simp add: hy_items_def)
  then show ?thesis using hy_ok_root [OF ok assms(3)]
    by (simp add: hy_root_ok_def henv_ok_def acct_def hchain_def s_def hy_capacity_def)
qed

theorem hybrid_statistics_witness:
  "\<exists>t r. h_root t = Some r \<and> hy_size t = 2 \<and> hy_capacity t = (\<Sum>k \<in># kinds r. kind_size sample_hcfg k)"
proof -
  from sample_reached obtain t r where t: "hy_reach sample_hcfg sample_db t" "h_root t = Some r"
    "hy_items sample_db t = [(Key [4], 4), (Key [7], 7)]" by blast
  then have "length (hitems sample_db r) = 2" by (simp add: hy_items_def)
  then show ?thesis using hybrid_statistics [OF t(1) sample_limits_ok t(2)] t(2) by auto
qed

text \<open>C38 Clearing the elastic index frees every node, of either kind, exactly once. The recursion over the nodes and the freeing of the root
  return from every state that satisfies the invariant, and take the counters of ordinary leaves, of blind leaves and of each class
  of them, of leaves and of inner nodes from those of the tree down to zero; of \<^verbatim>\<open>indexcapacity\<close> only the sizes of the inner nodes are left,
  which \<^verbatim>\<open>free_node\<close> does not subtract. Then \<^verbatim>\<open>clear\<close> resets head and tail and the statistics, and the empty index satisfies the invariant.\<close>

theorem hybrid_clear_correct:
  assumes "hy_ok hc db t" "limits_ok hc" "h_root t = Some r"
  shows "\<exists>e e' t'. h_clear_recursive hc r (h_env t) = Some e \<and> free_hnode hc r e = Some e'
    \<and> btreeleaves (h_stats e') = 0 \<and> blindileaves (h_stats e') = 0 \<and> (\<forall>c. blindinodes (h_stats e') c = 0)
    \<and> leaves (m_stats (h_base e')) = 0 \<and> innernodes (m_stats (h_base e')) = 0
    \<and> indexcapacity (h_stats e') = of_nat (count (kinds r) KInner) * sizeof_inner hc
    \<and> hy_clear hc t = Some t' \<and> hy_ok hc db t' \<and> hy_items db t' = [] \<and> h_root t' = None \<and> h_stats (h_env t') = new_hstats hc
    \<and> fresh (h_base (h_env t')) = fresh (h_base e') \<and> m_stats (h_base (h_env t')) = zero_stats"
proof -
  from clear_frees [OF assms(1,3)] obtain e e' where e: "h_clear_recursive hc r (h_env t) = Some e" "free_hnode hc r e = Some e'"
    "counted hc e' {#} (of_nat (count (kinds r) KInner) * sizeof_inner hc)" by blast
  from hy_clear_spec [OF assms(1), of] assms(2,3) obtain t' where t': "hy_clear hc t = Some t'" "hy_ok hc db t'" "hy_items db t' = []"
    "h_root t' = None" "h_stats (h_env t') = new_hstats hc" by (auto simp: limits_ok_def)
  have "fresh (h_base (h_env t')) = fresh (h_base e')" "m_stats (h_base (h_env t')) = zero_stats"
    using t'(1) e(1,2) assms(3) by (auto simp: hy_clear_def)
  then show ?thesis using e t' by (simp add: counted_def)
qed

theorem hybrid_clear_witness:
  "\<exists>e e' t'. h_clear_recursive sample_hcfg sample_hroot sample_henv = Some e \<and> free_hnode sample_hcfg sample_hroot e = Some e'
    \<and> leaves (m_stats (h_base e')) = 0 \<and> indexcapacity (h_stats e') = 100 \<and> hy_clear sample_hcfg sample_htree = Some t' \<and> h_root t' = None"
proof -
  have "kinds sample_hroot = {# KInner, KBlind 1, KBtree #}" by (simp add: sample_hroot_def)
  moreover have "h_env sample_htree = sample_henv" "sizeof_inner sample_hcfg = 100" by (simp_all add: sample_htree_def sample_hcfg_def)
  ultimately show ?thesis using hybrid_clear_correct [OF sample_hy_ok sample_limits_ok sample_descend_btree(1)] by auto
qed

text \<open>The limit for \<open>MUST_COMPRESS\<close> overflows: with \<^verbatim>\<open>LIMIT_CAPACITY\<close> 24000000 and \<^verbatim>\<open>MUST_PRECENT\<close> 1000000
  the product of the \<^verbatim>\<open>int\<close> constants does not fit, the wrapped value is negative, and the limit of a new index becomes
  almost \<open>2 ^ 64\<close> instead of 240000000000, while the other limit is the 24000000 that is meant.\<close>

theorem hybrid_must_limit_overflow:
  assumes "LIMIT_CAPACITY hc = 24000000" "MUST_PRECENT hc = 1000000" "SHOULD_COMPRESS_PERCENT hc = 100"
  shows "unat (limit2MustCompress (new_hstats hc)) = 2 ^ 64 - 518168576 \<and> hybridstatus (new_hstats hc) = CONTINUE
    \<and> unat (limit2ShouldCompress (new_hstats hc)) = 24000000"
  using assms by (simp add: new_hstats_def int32_def)

theorem hybrid_must_limit_witness:
  "unat (limit2MustCompress (new_hstats (sample_hcfg \<lparr> LIMIT_CAPACITY := 24000000, MUST_PRECENT := 1000000, SHOULD_COMPRESS_PERCENT := 100 \<rparr>)))
    = 2 ^ 64 - 518168576"
  by (rule conjunct1 [OF hybrid_must_limit_overflow]) simp_all

text \<open>C39 Whatever a client does to a blind leaf with the operations of the class (build it from an ordinary leaf, insert new keys, remove keys while
  three are left, split, merge, hand it over to the next class), the leaf is well-formed and no cell is ever cut off when it is stored:
  the length fits the index type of the node and the number of slots 16 bits, every blindi key is below the values \<^verbatim>\<open>MAX_HIGH_MISS\<close> and
  \<^verbatim>\<open>DUPLICATE\<close> that the search reserves for its own ends and fits the bit index type, and every cell of the tree is \<^verbatim>\<open>END_TREE\<close> or the index of a
  blindi key.\<close>

theorem blind_reachable_typed:
  assumes "blind_reach db c nd"
  shows "node_ok c db nd \<and> valid_len nd \<le> currentmaxslot nd \<and> currentmaxslot nd < 2 ^ 16 \<and> valid_len nd < idx_mod c
    \<and> (\<forall>i. Suc i < valid_len nd \<longrightarrow> blindiKeys nd ! i < MAX_HIGH_MISS c \<and> MAX_HIGH_MISS c < DUPLICATE c \<and> DUPLICATE c < bitidx_mod c)
    \<and> (\<forall>x \<in> set (blindiTree nd). (x = END_TREE c \<or> Suc x < valid_len nd) \<and> x < idx_mod c)"
proof -
  have ok: "cfg_ok c" "node_ok c db nd" using blind_reach_ok [OF assms] by auto
  show ?thesis using ok(2) node_cells_fit [OF ok] by blast
qed

theorem blind_reachable_witness:
  "\<exists>nd nd'. transfer_btree2blindi sample_config (new_node sample_config) 4 [[3], [5], [9], [20]] [3, 5, 9, 20] = Some nd
    \<and> Insert2BlindiNodeWithKey sample_config sample_db nd 12 = Some (INSERT_SUCCESS, nd') \<and> node_ok sample_config sample_db nd' \<and> valid_len nd' < 256"
proof -
  have k: "map sample_db [3, 5, 9, 20] = [[3], [5], [9], [20]]" by (simp add: sample_db_def)
  have o: "bl.ordered (KEY_LEN sample_config) (map sample_db [3, 5, 9, 20])" unfolding k using sample_ordered by (simp add: sample_consts)
  have l: "2 \<le> length [3, 5, 9, 20 :: nat]" "length [3, 5, 9, 20 :: nat] \<le> NUM_SLOTS sample_config" by (simp_all add: sample_consts)
  from transfer_btree2blindi_spec [OF sample_config_ok new_node_raw o _ l refl] obtain nd where
    n: "transfer_btree2blindi sample_config (new_node sample_config) (length [3, 5, 9, 20 :: nat]) (map sample_db [3, 5, 9, 20]) [3, 5, 9, 20] = Some nd"
      "node_ok sample_config sample_db nd" "node_ptrs nd = [3, 5, 9, 20]" "valid_len nd = 4" by auto
  have b: "blind_reach sample_db sample_config nd" by (rule breach_build [OF sample_config_ok o l n(1)])
  have nk: "length (sample_db 12) = KEY_LEN sample_config" "sample_db 12 \<notin> set (node_keys sample_db nd)" "valid_len nd < NUM_SLOTS sample_config"
    using n(3,4) by (simp_all add: node_keys_ptrs sample_db_def sample_consts)
  from Insert2BlindiNodeWithKey_spec [OF sample_config_ok n(2) nk(3,1,2)] obtain nd' where
    i: "Insert2BlindiNodeWithKey sample_config sample_db nd 12 = Some (INSERT_SUCCESS, nd')" by blast
  have "node_ok sample_config sample_db nd'" "valid_len nd' < 256"
    using blind_reachable_typed [OF breach_insert [OF b nk(1,2) i]] by (simp_all add: sample_consts)
  moreover have "length [3, 5, 9, 20 :: nat] = 4" by simp
  ultimately show ?thesis using n(1) i unfolding k by metis
qed

text \<open>C40 The loop \<^verbatim>\<open>for (it = begin(); it != end(); ++it)\<close> over a B+ tree terminates: it takes exactly one round per
  item. With any bound on the rounds it reads all items in order if the bound is at least the size, and does not get to
  \<^verbatim>\<open>end()\<close> otherwise.\<close>

theorem btree_iteration_terminates:
  assumes "bt_ok c t"
  shows "\<exists>stop. iter_end t = Some stop
    \<and> (\<forall>fuel. walk t fuel (iter_begin t) stop = (if bt_size t \<le> fuel then Some (tree_items t) else None))"
  by (rule walk_rounds [OF assms])

theorem btree_iteration_terminates_witness:
  "\<exists>stop. iter_end sample_btree = Some stop \<and> walk sample_btree 5 (iter_begin sample_btree) stop = None
    \<and> (\<exists>xs. walk sample_btree 100 (iter_begin sample_btree) stop = Some xs \<and> length xs = 6)"
proof -
  have "bt_size sample_btree = 6" by (simp add: bt_size_def sample_btree_def sample_env_def)
  then show ?thesis using btree_iteration_terminates [OF sample_btree_ok] by (auto simp: sample_items)
qed

end
